(* ===== verification/Prelude.thy ===== *)
theory Prelude
  imports Main "HOL-Library.Word" "HOL-Library.Monad_Syntax"
begin

text \<open>
  The vocabulary every component of the library shares.

  \<^item> Error codes: the enumeration of \<^verbatim>\<open>src/inc/err.h\<close> as a datatype, with the numeric
    values the C enumeration gives them and the table lookup \<^verbatim>\<open>st_err_str\<close>.
  \<^item> Addresses: a pointer is a natural number and \<^verbatim>\<open>NULL\<close> is zero.
  \<^item> Outcomes: a C function that can abort (\<^verbatim>\<open>st_assert\<close>, \<^verbatim>\<open>st_bug\<close>), dereference
    \<^verbatim>\<open>NULL\<close> or loop for ever is a function into \<open>option\<close>; \<open>None\<close> means that the call does
    not return.  A call that returns an error code returns a value of \<open>st_error\<close>.
  \<^item> The macros of \<^verbatim>\<open>src/inc/util.h\<close> the components use: three-way comparison, the
    encoding of sides, alignment.
  \<^item> The collections of facts the component theories fill and the generic lemmas about
    lists, functions and words they share.
\<close>

unbundle bit_operations_syntax

section \<open>Collections of facts\<close>

named_theorems st_defs \<open>definitions of straight-line operations, unfolded to run them\<close>
named_theorems inv_defs \<open>definitions of the invariants\<close>
named_theorems heap_simps \<open>what a write to the store leaves unchanged\<close>

section \<open>Types\<close>

type_synonym u8 = "8 word"
type_synonym u32 = "32 word"
type_synonym u64 = "64 word"

type_synonym addr = nat

abbreviation (input) NULL :: addr where "NULL \<equiv> 0"

type_synonym pid = nat

section \<open>Error codes (\<^verbatim>\<open>src/inc/err.h\<close>)\<close>

text \<open>
  The enumerators keep the names and the order of the macro list; \<open>Errno\<close> is a code that a
  system call reported and that the library passes on unchanged.
\<close>

datatype st_error =
    ST_OK
  | ST_ERR | ST_AGAIN | ST_ARG_INVALID | ST_BUF_NOT_ENOUGH | ST_BUF_OVERFLOW
  | ST_BUG_UNINITED | ST_CHKSUM | ST_DISK_IN_ERR_STATE | ST_DISK_OUT_OF_SPACE
  | ST_DISK_UNAVAILABLE | ST_DUP | ST_EMPTY | ST_EOF | ST_EXISTED | ST_FIN
  | ST_INDEX_OUT_OF_RANGE | ST_INITTWICE | ST_IO | ST_ITER_FINISH | ST_NET_AGAIN
  | ST_NET_BIND | ST_NET_CHKSUM | ST_NET_CREATE | ST_NET_LISTEN | ST_NET_SOCKET_OPT
  | ST_NET_TIMEOUT | ST_NOT_EMPTY | ST_NOT_EQUAL | ST_NOT_FOUND | ST_NOT_READY
  | ST_NO_GC_DATA | ST_NUM_OVERFLOW | ST_OUT_OF_MEMORY | ST_OUT_OF_ORDER
  | ST_OUT_OF_RANGE | ST_RESP_DUP | ST_RESP_LOST | ST_RESP_TIMEOUT | ST_STATE_INVALID
  | ST_TABLE_MODIFIED | ST_TIMEOUT | ST_UNINITED | ST_UNSUPPORTED
  | Errno int

definition st_errs :: "(st_error \<times> string) list" where
  "st_errs =
    [(ST_ERR, ''ST_ERR''), (ST_AGAIN, ''ST_AGAIN''), (ST_ARG_INVALID, ''ST_ARG_INVALID''),
     (ST_BUF_NOT_ENOUGH, ''ST_BUF_NOT_ENOUGH''), (ST_BUF_OVERFLOW, ''ST_BUF_OVERFLOW''),
     (ST_BUG_UNINITED, ''ST_BUG_UNINITED''), (ST_CHKSUM, ''ST_CHKSUM''),
     (ST_DISK_IN_ERR_STATE, ''ST_DISK_IN_ERR_STATE''),
     (ST_DISK_OUT_OF_SPACE, ''ST_DISK_OUT_OF_SPACE''),
     (ST_DISK_UNAVAILABLE, ''ST_DISK_UNAVAILABLE''), (ST_DUP, ''ST_DUP''),
     (ST_EMPTY, ''ST_EMPTY''), (ST_EOF, ''ST_EOF''), (ST_EXISTED, ''ST_EXISTED''),
     (ST_FIN, ''ST_FIN''), (ST_INDEX_OUT_OF_RANGE, ''ST_INDEX_OUT_OF_RANGE''),
     (ST_INITTWICE, ''ST_INITTWICE''), (ST_IO, ''ST_IO''),
     (ST_ITER_FINISH, ''ST_ITER_FINISH''), (ST_NET_AGAIN, ''ST_NET_AGAIN''),
     (ST_NET_BIND, ''ST_NET_BIND''), (ST_NET_CHKSUM, ''ST_NET_CHKSUM''),
     (ST_NET_CREATE, ''ST_NET_CREATE''), (ST_NET_LISTEN, ''ST_NET_LISTEN''),
     (ST_NET_SOCKET_OPT, ''ST_NET_SOCKET_OPT''), (ST_NET_TIMEOUT, ''ST_NET_TIMEOUT''),
     (ST_NOT_EMPTY, ''ST_NOT_EMPTY''), (ST_NOT_EQUAL, ''ST_NOT_EQUAL''),
     (ST_NOT_FOUND, ''ST_NOT_FOUND''), (ST_NOT_READY, ''ST_NOT_READY''),
     (ST_NO_GC_DATA, ''ST_NO_GC_DATA''), (ST_NUM_OVERFLOW, ''ST_NUM_OVERFLOW''),
     (ST_OUT_OF_MEMORY, ''ST_OUT_OF_MEMORY''), (ST_OUT_OF_ORDER, ''ST_OUT_OF_ORDER''),
     (ST_OUT_OF_RANGE, ''ST_OUT_OF_RANGE''), (ST_RESP_DUP, ''ST_RESP_DUP''),
     (ST_RESP_LOST, ''ST_RESP_LOST''), (ST_RESP_TIMEOUT, ''ST_RESP_TIMEOUT''),
     (ST_STATE_INVALID, ''ST_STATE_INVALID''), (ST_TABLE_MODIFIED, ''ST_TABLE_MODIFIED''),
     (ST_TIMEOUT, ''ST_TIMEOUT''), (ST_UNINITED, ''ST_UNINITED''),
     (ST_UNSUPPORTED, ''ST_UNSUPPORTED'')]"

text \<open>The position of an enumerator in the list; the first, \<open>ST_ERR\<close>, has the value -1000.\<close>

fun index_of :: "'a \<Rightarrow> ('a \<times> 'b) list \<Rightarrow> nat" where
  "index_of x [] = 0"
| "index_of x ((y, _) # ys) = (if x = y then 0 else Suc (index_of x ys))"

fun st_error_val :: "st_error \<Rightarrow> int" where
  "st_error_val ST_OK = 0"
| "st_error_val (Errno e) = e"
| "st_error_val e = - 1000 + int (index_of e st_errs)"

text \<open>
  \<^verbatim>\<open>st_err_str\<close>: the range check compares the index with \<^verbatim>\<open>sizeof(st_err_str_)\<close>, the size of
  the table of pointers in bytes.  \<open>None\<close> is a read past the end of the table.
\<close>

definition sizeof_ptr :: nat where "sizeof_ptr = 8"

definition st_err_str :: "int \<Rightarrow> string option" where
  "st_err_str rc =
    (if rc = 0 then Some ''ST_OK''
     else let i = rc - st_error_val ST_ERR
          in if i < 0 \<or> i \<ge> int (sizeof_ptr * length st_errs) then Some ''ST_UNKNOWN''
             else if nat i < length st_errs then Some (snd (st_errs ! nat i))
             else None)"

section \<open>Macros of \<^verbatim>\<open>src/inc/util.h\<close>\<close>

text \<open>The three-way comparison \<^verbatim>\<open>st_cmp\<close> with \<^verbatim>\<open>ST_LT\<close>, \<^verbatim>\<open>ST_EQ\<close>, \<^verbatim>\<open>ST_GT\<close>.\<close>

definition st_cmp :: "'a::linorder \<Rightarrow> 'a \<Rightarrow> int" where
  "st_cmp a b = (if a > b then 1 else if a < b then - 1 else 0)"

text \<open>
  The sides of a search are small integers; the bit \<open>0x10\<close> says that an equal node is
  acceptable.
\<close>

abbreviation (input) ST_SIDE_LEFT :: int where "ST_SIDE_LEFT \<equiv> 0"
abbreviation (input) ST_SIDE_MID :: int where "ST_SIDE_MID \<equiv> 1"
abbreviation (input) ST_SIDE_RIGHT :: int where "ST_SIDE_RIGHT \<equiv> 2"
abbreviation (input) ST_SIDE_LEFT_EQ :: int where "ST_SIDE_LEFT_EQ \<equiv> 16"
abbreviation (input) ST_SIDE_RIGHT_EQ :: int where "ST_SIDE_RIGHT_EQ \<equiv> 18"
abbreviation (input) ST_SIDE_EQ :: int where "ST_SIDE_EQ \<equiv> ST_SIDE_MID"

definition st_side_opposite :: "int \<Rightarrow> int" where
  "st_side_opposite sd = (2 - sd) AND 31"

definition st_side_strip_eq :: "int \<Rightarrow> int" where
  "st_side_strip_eq sd = sd AND 15"

definition st_side_has_eq :: "int \<Rightarrow> bool" where
  "st_side_has_eq sd \<longleftrightarrow> sd AND 17 \<noteq> 0"

text \<open>\<^verbatim>\<open>st_align\<close>: the second argument is meant to be a power of two.\<close>

definition st_align :: "int \<Rightarrow> int \<Rightarrow> int" where
  "st_align i n = (if n = 0 then i else (i + n - 1) AND NOT (n - 1))"

section \<open>Outcomes\<close>

text \<open>\<^verbatim>\<open>st_assert\<close>: a false condition raises \<^verbatim>\<open>SIGABRT\<close> and the call does not return.\<close>

definition st_assert :: "bool \<Rightarrow> unit option" where
  "st_assert b = (if b then Some () else None)"

text \<open>A pointer is dereferenced: \<^verbatim>\<open>NULL\<close> faults.\<close>

definition deref :: "(addr \<Rightarrow> 'a) \<Rightarrow> addr \<Rightarrow> 'a option" where
  "deref m a = (if a = NULL then None else Some (m a))"

text \<open>A write through a pointer.\<close>

definition upd :: "(addr \<Rightarrow> 'a) \<Rightarrow> addr \<Rightarrow> ('a \<Rightarrow> 'a) \<Rightarrow> (addr \<Rightarrow> 'a) option" where
  "upd m a f = (if a = NULL then None else Some (m(a := f (m a))))"

lemma st_assert_simps [simp]:
  "st_assert True = Some ()"
  "st_assert False = None"
  by (simp_all add: st_assert_def)

lemma st_assert_eq_Some [simp]: "st_assert b = Some u \<longleftrightarrow> b"
  by (simp add: st_assert_def)

lemma deref_simps [simp]:
  "deref m NULL = None"
  "a \<noteq> NULL \<Longrightarrow> deref m a = Some (m a)"
  by (simp_all add: deref_def)

lemma upd_simps [simp]:
  "upd m NULL f = None"
  "a \<noteq> NULL \<Longrightarrow> upd m a f = Some (m(a := f (m a)))"
  by (simp_all add: upd_def)

section \<open>Lemmas\<close>

lemma st_cmp_simps [simp]:
  "st_cmp a b = 0 \<longleftrightarrow> a = b"
  "st_cmp a b < 0 \<longleftrightarrow> a < b"
  "0 < st_cmp a b \<longleftrightarrow> b < a"
  "st_cmp a b \<le> 0 \<longleftrightarrow> a \<le> b"
  "0 \<le> st_cmp a b \<longleftrightarrow> b \<le> a"
  by (auto simp: st_cmp_def)

lemma st_cmp_range: "st_cmp a b \<in> {- 1, 0, 1}"
  by (simp add: st_cmp_def)

lemma st_side_simps [simp]:
  "st_side_strip_eq 0 = 0" "st_side_strip_eq 1 = 1" "st_side_strip_eq 2 = 2"
  "st_side_strip_eq 16 = 0" "st_side_strip_eq 18 = 2"
  "\<not> st_side_has_eq 0" "st_side_has_eq 1" "\<not> st_side_has_eq 2"
  "st_side_has_eq 16" "st_side_has_eq 18"
  "st_side_opposite 0 = 2" "st_side_opposite 2 = 0" "st_side_opposite 1 = 1"
  by (simp_all add: st_side_strip_eq_def st_side_has_eq_def st_side_opposite_def)

text \<open>Alignment to a power of two is rounding up to a multiple.\<close>

lemma and_not_mask_eq: "(x::int) AND NOT (2 ^ k - 1) = 2 ^ k * (x div 2 ^ k)"
proof -
  have "x AND NOT (mask k) = push_bit k (drop_bit k x)"
    by (rule bit_eqI) (auto simp: bit_simps)
  then show ?thesis
    by (simp add: mask_eq_exp_minus_1 push_bit_eq_mult drop_bit_eq_div mult.commute)
qed

lemma st_align_pow2_eq: "st_align i (2 ^ k) = 2 ^ k * ((i + 2 ^ k - 1) div 2 ^ k)"
  by (simp add: st_align_def and_not_mask_eq)

end
