(* ===== verification/Binary.thy ===== *)
theory Binary
  imports Prelude
begin

text \<open>
  \<^verbatim>\<open>src/binary/binary.c\<close>: variable-length encoding of 64-bit unsigned integers, seven bits per
  byte with the high bit as a continuation mark.  A buffer is a list of bytes; the C code
  writes and reads only positions below the \<^verbatim>\<open>len\<close> the caller passes, so the theorems ask that
  the buffer be that long.

  The reference definition is \<open>vu64_bytes\<close>, the byte sequence of a value.  The lemmas show
  that \<^verbatim>\<open>bin_vu64_put\<close> writes it, that \<^verbatim>\<open>bin_vu64_size\<close> is its length and that
  \<^verbatim>\<open>bin_vu64_load\<close> reads it back whatever bytes follow.
\<close>

section \<open>Definitions\<close>

lemma unat_drop_bit_7: "unat (drop_bit 7 (x::u64)) = unat x div 128"
  by (simp add: unat_drop_bit_eq) (simp add: drop_bit_eq_div)

lemma drop_bit_7_eq_0: "drop_bit 7 (x::u64) = 0 \<longleftrightarrow> unat x < 128"
  using unat_eq_zero [of "drop_bit 7 x"] by (simp add: unat_drop_bit_7 div_eq_0_iff)

lemma unat_drop_bit_7_less: "drop_bit 7 (x::u64) \<noteq> 0 \<Longrightarrow> unat (drop_bit 7 x) < unat x"
  by (simp add: drop_bit_7_eq_0 unat_drop_bit_7)

text \<open>The \<^verbatim>\<open>do\<close> loop of \<^verbatim>\<open>bin_vu64_size\<close>.\<close>

function bin_vu64_size_loop :: "nat \<Rightarrow> u64 \<Rightarrow> nat" where
  "bin_vu64_size_loop l x =
    (let l = l + 1; x = drop_bit 7 x in if x \<noteq> 0 then bin_vu64_size_loop l x else l)"
  by pat_completeness auto
termination
  by (relation "measure (\<lambda>(l, x). unat x)") (auto simp: unat_drop_bit_7_less)

definition bin_vu64_size :: "u64 \<Rightarrow> nat" where
  "bin_vu64_size x = bin_vu64_size_loop 0 x"

text \<open>The \<^verbatim>\<open>for\<close> loop of \<^verbatim>\<open>bin_vu64_put\<close>; it leaves the index, the remaining value and the buffer.\<close>

function bin_vu64_put_loop :: "nat \<Rightarrow> nat \<Rightarrow> u64 \<Rightarrow> u8 list \<Rightarrow> nat \<times> u64 \<times> u8 list" where
  "bin_vu64_put_loop i len x buf =
    (if x \<noteq> 0 \<and> i < len
     then bin_vu64_put_loop (Suc i) len (drop_bit 7 x) (buf[i := ucast x OR 0x80])
     else (i, x, buf))"
  by pat_completeness auto
termination
  by (relation "measure (\<lambda>(i, len, x, buf). len - i)") auto

definition bin_vu64_put :: "u8 list \<Rightarrow> nat \<Rightarrow> u64 \<Rightarrow> u8 list \<times> (st_error + nat)" where
  "bin_vu64_put buf len x =
    (if x = 0 then
       if len > 0 then (buf[0 := 0], Inr 1) else (buf, Inl ST_BUF_OVERFLOW)
     else case bin_vu64_put_loop 0 len x buf of (i, x, buf) \<Rightarrow>
       if x > 0 then (buf, Inl ST_BUF_OVERFLOW)
       else (buf[i - 1 := buf ! (i - 1) AND 0x7f], Inr i))"

function bin_vu64_load_loop ::
    "u8 list \<Rightarrow> nat \<Rightarrow> nat \<Rightarrow> u64 \<Rightarrow> nat \<Rightarrow> st_error + (nat \<times> u64)" where
  "bin_vu64_load_loop buf len i x shift =
    (if i < len then
       let b = buf ! i in
       if b < 0x80 then
         if i > 9 \<or> (i = 9 \<and> b > 1) then Inl ST_NUM_OVERFLOW
         else Inr (i, x OR push_bit shift (ucast b))
       else bin_vu64_load_loop buf len (Suc i)
              (x OR push_bit shift (ucast (b AND 0x7f))) (shift + 7)
     else Inl ST_BUF_NOT_ENOUGH)"
  by pat_completeness auto
termination
  by (relation "measure (\<lambda>(buf, len, i, x, shift). len - i)") auto

text \<open>
  \<^verbatim>\<open>bin_vu64_load\<close>; the flag says whether the result pointer is \<^verbatim>\<open>NULL\<close>.  The result is the
  number of bytes read and the value stored through the pointer.
\<close>

definition bin_vu64_load :: "u8 list \<Rightarrow> nat \<Rightarrow> bool \<Rightarrow> st_error + (nat \<times> u64)" where
  "bin_vu64_load buf len rst_is_null =
    (if rst_is_null then Inl ST_ARG_INVALID
     else case bin_vu64_load_loop buf len 0 0 0 of
       Inl e \<Rightarrow> Inl e
     | Inr (i, x) \<Rightarrow> Inr (i + 1, x))"

declare bin_vu64_size_loop.simps [simp del] bin_vu64_put_loop.simps [simp del]
  bin_vu64_load_loop.simps [simp del]

section \<open>The reference encoding\<close>

function vu64_bytes :: "u64 \<Rightarrow> u8 list" where
  "vu64_bytes x =
    (if drop_bit 7 x = 0 then [ucast x] else (ucast x OR 0x80) # vu64_bytes (drop_bit 7 x))"
  by pat_completeness auto
termination
  by (relation "measure unat") (auto simp: unat_drop_bit_7_less)

declare vu64_bytes.simps [simp del]

lemma vu64_bytes_nonempty [simp]: "vu64_bytes x \<noteq> []"
  by (subst vu64_bytes.simps) simp

lemma size_loop_eq: "bin_vu64_size_loop l x = l + length (vu64_bytes x)"
proof (induction l x rule: bin_vu64_size_loop.induct)
  case (1 l x)
  then show ?case
    by (simp add: bin_vu64_size_loop.simps [of l x] vu64_bytes.simps [of x] Let_def)
qed

lemma bin_vu64_size_eq: "bin_vu64_size x = length (vu64_bytes x)"
  by (simp add: bin_vu64_size_def size_loop_eq)

lemma length_vu64_bytes_bound:
  "unat x < 2 ^ (7 * Suc n) \<Longrightarrow> length (vu64_bytes x) \<le> Suc n"
proof (induction n arbitrary: x)
  case 0
  then have "drop_bit 7 x = 0"
    by (simp add: drop_bit_7_eq_0)
  then show ?case by (simp add: vu64_bytes.simps [of x])
next
  case (Suc n)
  have "unat (drop_bit 7 x) < 2 ^ (7 * Suc n)"
    using Suc.prems by (simp add: unat_drop_bit_7 less_mult_imp_div_less power_add)
  then have "length (vu64_bytes (drop_bit 7 x)) \<le> Suc n" by (rule Suc.IH)
  then show ?case by (simp add: vu64_bytes.simps [of x])
qed

lemma bin_vu64_size_le: "bin_vu64_size x \<le> 10"
proof -
  have "unat x < 2 ^ LENGTH(64)" by (rule unsigned_less)
  then have "unat x < 2 ^ (7 * Suc 9)" by simp
  then show ?thesis
    using length_vu64_bytes_bound [of x 9] by (simp add: bin_vu64_size_eq)
qed

section \<open>Writing\<close>

text \<open>
  The loop sets the mark on every byte; the last assignment of \<^verbatim>\<open>bin_vu64_put\<close> clears the mark
  of the last one.  \<open>vu64_marked\<close> is what the loop has written.
\<close>

function vu64_marked :: "u64 \<Rightarrow> u8 list" where
  "vu64_marked x = (if x = 0 then [] else (ucast x OR 0x80) # vu64_marked (drop_bit 7 x))"
  by pat_completeness auto
termination
proof (relation "measure unat")
  fix x :: u64
  assume "x \<noteq> 0"
  then have "0 < unat x" by (simp add: unat_gt_0)
  then show "(drop_bit 7 x, x) \<in> measure unat" by (simp add: unat_drop_bit_7)
qed simp

declare vu64_marked.simps [simp del]

lemma vu64_marked_0 [simp]: "vu64_marked 0 = []"
  by (simp add: vu64_marked.simps)

lemma put_loop_ok:
  "i + length (vu64_marked x) \<le> len \<Longrightarrow> len \<le> length buf \<Longrightarrow>
    bin_vu64_put_loop i len x buf =
      (i + length (vu64_marked x), 0,
       take i buf @ vu64_marked x @ drop (i + length (vu64_marked x)) buf)"
proof (induction i len x buf rule: bin_vu64_put_loop.induct)
  case (1 i len x buf)
  show ?case
  proof (cases "x = 0")
    case True
    then show ?thesis by (simp add: bin_vu64_put_loop.simps)
  next
    case False
    with 1 show ?thesis
      by (simp add: bin_vu64_put_loop.simps [of i len x buf] vu64_marked.simps [of x]
          take_Suc_conv_app_nth nth_list_update)
  qed
qed

lemma put_loop_overflow:
  "len < i + length (vu64_marked x) \<Longrightarrow> i \<le> len \<Longrightarrow>
    fst (snd (bin_vu64_put_loop i len x buf)) \<noteq> 0"
proof (induction i len x buf rule: bin_vu64_put_loop.induct)
  case (1 i len x buf)
  then show ?case
    by (cases "x = 0"; cases "i < len")
      (auto simp: bin_vu64_put_loop.simps [of i len x buf] bin_vu64_put_loop.simps [of len len x buf]
        vu64_marked.simps [of x])
qed

lemma length_vu64_marked: "x \<noteq> 0 \<Longrightarrow> length (vu64_marked x) = length (vu64_bytes x)"
proof (induction x rule: vu64_bytes.induct)
  case (1 x)
  then show ?case
    by (cases "drop_bit 7 x = 0") (simp_all add: vu64_marked.simps [of x] vu64_bytes.simps [of x])
qed

lemma ucast_low7: "unat (x::u64) < 128 \<Longrightarrow> (ucast x OR 0x80) AND 0x7f = (ucast x :: u8)"
proof -
  assume "unat x < 128"
  then have "drop_bit 7 x = 0" by (simp add: drop_bit_7_eq_0)
  then have high: "\<not> bit x (7 + n)" for n
    by (metis bit_0 bit_drop_bit_eq comp_apply bit_0_eq bot_apply bot_bool_def)
  show ?thesis
  proof (rule bit_word_eqI)
    fix n assume "n < LENGTH(8)"
    then have n: "n \<in> {0, 1, 2, 3, 4, 5, 6, 7}" by auto
    then show "bit ((ucast x OR 0x80) AND (0x7f::u8)) n = bit (ucast x :: u8) n"
      using high [of 0] by (auto simp: bit_simps)
  qed
qed

lemma marked_unmark_last:
  "x \<noteq> 0 \<Longrightarrow> (vu64_marked x)[length (vu64_marked x) - 1 := last (vu64_marked x) AND 0x7f]
    = vu64_bytes x"
proof (induction x rule: vu64_bytes.induct)
  case (1 x)
  show ?case
  proof (cases "drop_bit 7 x = 0")
    case True
    with 1 have "vu64_marked x = [ucast x OR 0x80]" and "unat x < 128"
      by (simp_all add: vu64_marked.simps [of x] flip: drop_bit_7_eq_0)
    with True show ?thesis
      by (simp add: vu64_bytes.simps [of x] ucast_low7)
  next
    case False
    then have ne: "vu64_marked (drop_bit 7 x) \<noteq> []"
      by (simp add: vu64_marked.simps [of "drop_bit 7 x"])
    with False 1 show ?thesis
      by (cases "length (vu64_marked (drop_bit 7 x))")
        (simp_all add: vu64_marked.simps [of x] vu64_bytes.simps [of x])
  qed
qed

lemma bin_vu64_put_ok:
  assumes "bin_vu64_size x \<le> len" and "len \<le> length buf"
  shows "bin_vu64_put buf len x =
    (vu64_bytes x @ drop (bin_vu64_size x) buf, Inr (bin_vu64_size x))"
proof (cases "x = 0")
  case True
  with assms show ?thesis
    by (cases buf) (auto simp: bin_vu64_put_def bin_vu64_size_eq vu64_bytes.simps)
next
  case False
  let ?m = "vu64_marked x"
  have len: "length ?m = bin_vu64_size x"
    using False by (simp add: length_vu64_marked bin_vu64_size_eq)
  have ne: "?m \<noteq> []"
    using False by (simp add: vu64_marked.simps [of x])
  have nth: "(?m @ ys) ! (length ?m - Suc 0) = last ?m" for ys
    using ne by (simp add: nth_append last_conv_nth)
  have upd: "(?m @ ys)[length ?m - Suc 0 := last ?m AND 0x7f] = vu64_bytes x @ ys" for ys
    using ne marked_unmark_last [OF False] by (simp add: list_update_append)
  show ?thesis
    using False assms
    by (simp add: bin_vu64_put_def put_loop_ok [where i = 0] nth upd flip: len)
qed

lemma bin_vu64_put_overflow:
  assumes "len < bin_vu64_size x"
  shows "snd (bin_vu64_put buf len x) = Inl ST_BUF_OVERFLOW"
proof (cases "x = 0")
  case True
  with assms show ?thesis by (simp add: bin_vu64_put_def bin_vu64_size_eq vu64_bytes.simps)
next
  case False
  with assms have "fst (snd (bin_vu64_put_loop 0 len x buf)) \<noteq> 0"
    by (intro put_loop_overflow) (simp_all add: bin_vu64_size_eq length_vu64_marked)
  with False show ?thesis
    by (cases "bin_vu64_put_loop 0 len x buf") (simp add: bin_vu64_put_def word_neq_0_conv)
qed

section \<open>Reading\<close>

text \<open>The last byte of a value below 128 has no mark, every other byte has one.\<close>

lemma ucast_u8_less: "unat (y::u64) < 128 \<Longrightarrow> (ucast y :: u8) < 0x80"
  by (simp add: word_less_nat_alt unsigned_ucast_eq take_bit_eq_mod)

lemma marked_not_less: "\<not> (ucast (y::u64) OR 0x80 :: u8) < 0x80"
  by (simp add: not_less le_word_or1)

lemma bit_ge_128:
  assumes "unat (y::u64) < 128" and "7 \<le> n"
  shows "\<not> bit y n"
proof -
  have "bit y n = bit (drop_bit 7 y) (n - 7)" using assms(2) by (simp add: bit_simps)
  then show ?thesis using assms(1) by (simp add: drop_bit_7_eq_0 [THEN iffD2])
qed

lemma bit_0x7f: "bit (0x7f :: int) k \<longleftrightarrow> k < 7"
proof -
  have "(0x7f :: int) = mask 7" by (simp add: mask_eq_exp_minus_1)
  then show ?thesis by (simp only: bit_simps) simp
qed

lemma bit_0x80: "bit (0x80 :: int) k \<longleftrightarrow> k = 7"
proof -
  have "(0x80 :: int) = 2 ^ 7" by simp
  then show ?thesis by (simp only: bit_simps) auto
qed

lemma load_acc_last:
  assumes "unat (drop_bit (7 * i) x) < 128"
  shows "take_bit (7 * i) x OR push_bit (7 * i) (ucast (ucast (drop_bit (7 * i) x) :: u8)) = (x::u64)"
proof (rule bit_word_eqI)
  fix n assume n: "n < LENGTH(64)"
  have "\<not> bit x n" if "7 * i + 7 \<le> n"
    using bit_ge_128 [OF assms, of "n - 7 * i"] that by (simp add: bit_simps)
  then have "n < 7 * i \<or> n - 7 * i < 8" if "bit x n"
    using that by force
  then show "bit (take_bit (7 * i) x OR push_bit (7 * i) (ucast (ucast (drop_bit (7 * i) x) :: u8))) n
      = bit x n"
    using n by (auto simp: bit_simps)
qed

lemma load_acc_step:
  "take_bit (7 * i) x OR push_bit (7 * i) (ucast ((ucast (drop_bit (7 * i) x) OR 0x80) AND (0x7f::u8)))
    = take_bit (7 * Suc i) (x::u64)"
proof (rule bit_word_eqI)
  fix n assume n: "n < LENGTH(64)"
  show "bit (take_bit (7 * i) x OR push_bit (7 * i) (ucast ((ucast (drop_bit (7 * i) x) OR 0x80) AND (0x7f::u8)))) n
      = bit (take_bit (7 * Suc i) x) n"
    using n by (auto simp: bit_simps bit_0x7f bit_0x80)
qed

lemma load_loop_ok:
  assumes "i + length (vu64_bytes (drop_bit (7 * i) x)) \<le> len" and "len \<le> length buf"
    and "take (length (vu64_bytes (drop_bit (7 * i) x))) (drop i buf) = vu64_bytes (drop_bit (7 * i) x)"
    and "i = 0 \<or> drop_bit (7 * i) x \<noteq> 0"
  shows "bin_vu64_load_loop buf len i (take_bit (7 * i) x) (7 * i) =
    Inr (i + length (vu64_bytes (drop_bit (7 * i) x)) - 1, x)"
  using assms
proof (induction "drop_bit (7 * i) x" arbitrary: i rule: vu64_bytes.induct)
  case (1 i)
  let ?y = "drop_bit (7 * i) x"
  have i_less: "i < len" and i_buf: "i < length buf"
    using "1.prems"(1,2) by (cases "vu64_bytes ?y"; simp)+
  have hd: "buf ! i = hd (vu64_bytes ?y)"
    using "1.prems"(3) i_buf by (metis hd_drop_conv_nth hd_take length_greater_0_conv vu64_bytes_nonempty)
  have next_y: "drop_bit 7 ?y = drop_bit (7 * Suc i) x" by (simp add: ac_simps)
  show ?case
  proof (cases "drop_bit 7 ?y = 0")
    case True
    then have bytes: "vu64_bytes ?y = [ucast ?y]" by (simp add: vu64_bytes.simps [of ?y])
    have small: "unat ?y < 128" using True by (simp only: drop_bit_7_eq_0)
    have "i \<le> 9"
    proof (rule ccontr)
      assume "\<not> i \<le> 9"
      then have "?y = 0" by (intro bit_word_eqI) (simp add: bit_simps)
      with \<open>\<not> i \<le> 9\<close> "1.prems"(4) show False by simp
    qed
    moreover have "\<not> 1 < (ucast ?y :: u8)" if "i = 9"
    proof -
      have "unat ?y \<le> 1"
        using that unsigned_less [of x, where 'a = nat]
        by (simp add: unat_drop_bit_eq) (simp add: drop_bit_eq_div)
      then show ?thesis by (simp add: word_less_nat_alt unsigned_ucast_eq take_bit_eq_mod)
    qed
    ultimately show ?thesis
      using i_less hd bytes ucast_u8_less [OF small] load_acc_last [OF small]
      by (auto simp: bin_vu64_load_loop.simps [of buf len i] Let_def)
  next
    case False
    then have bytes: "vu64_bytes ?y = (ucast ?y OR 0x80) # vu64_bytes (drop_bit 7 ?y)"
      by (simp add: vu64_bytes.simps [of ?y])
    have "take (length (vu64_bytes (drop_bit 7 ?y))) (drop (Suc i) buf) = vu64_bytes (drop_bit 7 ?y)"
      using "1.prems"(3) i_buf bytes by (simp add: Cons_nth_drop_Suc [symmetric])
    then have "bin_vu64_load_loop buf len (Suc i) (take_bit (7 * Suc i) x) (7 * Suc i) =
        Inr (Suc i + length (vu64_bytes (drop_bit (7 * Suc i) x)) - 1, x)"
      using 1 False bytes by (intro "1.hyps") (simp_all only: next_y, auto)
    then show ?thesis
      using i_less hd bytes marked_not_less [of ?y] load_acc_step [of i x]
      by (simp add: bin_vu64_load_loop.simps [of buf len i] Let_def next_y add.commute)
  qed
qed

lemma bin_vu64_load_ok:
  assumes "take (bin_vu64_size x) buf = vu64_bytes x" and "bin_vu64_size x \<le> len" "len \<le> length buf"
  shows "bin_vu64_load buf len False = Inr (bin_vu64_size x, x)"
  using load_loop_ok [of 0 x len buf] assms
  by (simp add: bin_vu64_load_def bin_vu64_size_eq)

section \<open>Properties\<close>

text \<open>C25: whatever value is written, into whatever buffer with room for it, the call reports
  \<^verbatim>\<open>bin_vu64_size\<close> bytes, touches no byte behind them, and loading gives the value and the
  number of bytes back.\<close>

theorem vu64_roundtrip:
  assumes "bin_vu64_size x \<le> len" and "len \<le> length buf"
  shows "\<exists>buf'. bin_vu64_put buf len x = (buf', Inr (bin_vu64_size x))
    \<and> length buf' = length buf
    \<and> drop (bin_vu64_size x) buf' = drop (bin_vu64_size x) buf
    \<and> bin_vu64_load buf' len False = Inr (bin_vu64_size x, x)"
proof -
  let ?buf' = "vu64_bytes x @ drop (bin_vu64_size x) buf"
  have "bin_vu64_load ?buf' len False = Inr (bin_vu64_size x, x)"
    using assms by (intro bin_vu64_load_ok) (simp_all add: bin_vu64_size_eq)
  then show ?thesis
    using assms by (simp add: bin_vu64_put_ok) (simp add: bin_vu64_size_eq)
qed

theorem vu64_roundtrip_witness:
  "bin_vu64_size 300 = 2 \<and> bin_vu64_put [9, 9, 9] 3 300 = ([0xac, 0x02, 9], Inr 2)
    \<and> (\<exists>buf'. bin_vu64_put [9, 9, 9] 3 300 = (buf', Inr 2) \<and> bin_vu64_load buf' 3 False = Inr (2, 300))"
proof -
  have s: "bin_vu64_size 300 = 2"
    by (simp add: bin_vu64_size_def bin_vu64_size_loop.simps)
  then show ?thesis
    using vu64_roundtrip [of 300 3 "[9, 9, 9]"]
    by (simp add: bin_vu64_put_def bin_vu64_put_loop.simps)
qed

end
