(* ===== verification/Bitmap.thy ===== *)
theory Bitmap
  imports Prelude
begin

text \<open>
  \<^verbatim>\<open>src/bitmap/bitmap.c\<close>: bit sets over arrays of 64-bit words.  A bitmap is the list of its
  words; a pointer that may be \<^verbatim>\<open>NULL\<close> is an \<open>option\<close>.  Bit numbers are \<^verbatim>\<open>uint32_t\<close>: they are
  natural numbers whose additions wrap at \<open>2 ^ 32\<close>.  Reading a word behind the array is not
  defined in C and is \<open>None\<close> here, as is a failed assertion.

  \<open>bm_bit\<close> is the abstract view: the truth value of one bit.  The lemmas give each operation
  in these terms.
\<close>

section \<open>Definitions\<close>

abbreviation (input) BITS_PER_WORD :: nat where "BITS_PER_WORD \<equiv> 64"

definition u32_add :: "nat \<Rightarrow> nat \<Rightarrow> nat" where
  "u32_add a b = (a + b) mod 2 ^ 32"

definition word_at :: "u64 list \<Rightarrow> nat \<Rightarrow> u64 option" where
  "word_at bm i = (if i < length bm then Some (bm ! i) else None)"

definition in_one_word :: "nat \<Rightarrow> nat \<Rightarrow> bool option" where
  "in_one_word start end = do {
     st_assert (start < end);
     Some (start div BITS_PER_WORD = (end - 1) div BITS_PER_WORD)
   }"

definition word_mask :: "nat \<Rightarrow> nat \<Rightarrow> u64 option" where
  "word_mask start end = do {
     b \<leftarrow> in_one_word start end;
     st_assert b;
     Some (push_bit start (- 1) AND drop_bit (BITS_PER_WORD - end) (- 1))
   }"

definition word_bits_value :: "u64 list \<Rightarrow> nat \<Rightarrow> nat \<Rightarrow> bool \<Rightarrow> u64 option" where
  "word_bits_value bm start end reverse = do {
     b \<leftarrow> in_one_word start end;
     st_assert b;
     let w_idx = start div BITS_PER_WORD;
     let start = start mod BITS_PER_WORD;
     let end = (end - 1) mod BITS_PER_WORD + 1;
     w \<leftarrow> word_at bm w_idx;
     if start = 0 \<and> end = BITS_PER_WORD then Some (if \<not> reverse then w else NOT w)
     else do {
       m \<leftarrow> word_mask start end;
       Some (if \<not> reverse then w AND m else NOT w AND m)
     }
   }"

definition word_bits :: "u64 list \<Rightarrow> nat \<Rightarrow> nat \<Rightarrow> u64 option" where
  "word_bits bm start end = word_bits_value bm start end False"

definition word_bits_reverse :: "u64 list \<Rightarrow> nat \<Rightarrow> nat \<Rightarrow> u64 option" where
  "word_bits_reverse bm start end = word_bits_value bm start end True"

definition st_bitmap_get :: "u64 list \<Rightarrow> nat \<Rightarrow> bool option" where
  "st_bitmap_get bm idx = do {
     w \<leftarrow> word_bits bm idx (u32_add idx 1);
     Some (w \<noteq> 0)
   }"

text \<open>Setting and clearing return the new words and whether the bit was set before.\<close>

definition st_bitmap_set :: "u64 list \<Rightarrow> nat \<Rightarrow> (u64 list \<times> bool) option" where
  "st_bitmap_set bm idx = do {
     let w_idx = idx div BITS_PER_WORD;
     let idx = idx mod BITS_PER_WORD;
     mask \<leftarrow> word_mask idx (idx + 1);
     w \<leftarrow> word_at bm w_idx;
     let original = w AND mask;
     Some (bm[w_idx := w OR mask], original \<noteq> 0)
   }"

definition st_bitmap_clear :: "u64 list \<Rightarrow> nat \<Rightarrow> (u64 list \<times> bool) option" where
  "st_bitmap_clear bm idx = do {
     let w_idx = idx div BITS_PER_WORD;
     let idx = idx mod BITS_PER_WORD;
     mask \<leftarrow> word_mask idx (idx + 1);
     w \<leftarrow> word_at bm w_idx;
     let original = w AND mask;
     Some (bm[w_idx := w AND NOT mask], original \<noteq> 0)
   }"

text \<open>
  The three scanning functions share their loop: it walks over the words up to \<open>nbits\<close> and
  stops at the first word whose bits fail the test.
\<close>

partial_function (option) bitmap_scan ::
    "(nat \<Rightarrow> nat \<Rightarrow> bool option) \<Rightarrow> nat \<Rightarrow> nat \<Rightarrow> nat \<Rightarrow> bool option" where
  "bitmap_scan ok nbits idx boundary =
    (if idx < nbits then
       let boundary = (if boundary > nbits then nbits else boundary) in
       Option.bind (ok idx boundary) (\<lambda>b.
         if \<not> b then Some False
         else bitmap_scan ok nbits boundary (u32_add boundary BITS_PER_WORD))
     else Some True)"

definition st_bitmap_are_all_cleared :: "u64 list option \<Rightarrow> nat \<Rightarrow> (st_error + bool) option" where
  "st_bitmap_are_all_cleared bitmap nbits =
    (case bitmap of
       None \<Rightarrow> Some (Inl ST_ARG_INVALID)
     | Some bm \<Rightarrow> do {
         r \<leftarrow> bitmap_scan (\<lambda>idx boundary. do { w \<leftarrow> word_bits bm idx boundary; Some (w = 0) })
               nbits 0 BITS_PER_WORD;
         Some (Inr r)
       })"

definition st_bitmap_are_all_set :: "u64 list option \<Rightarrow> nat \<Rightarrow> (st_error + bool) option" where
  "st_bitmap_are_all_set bitmap nbits =
    (case bitmap of
       None \<Rightarrow> Some (Inl ST_ARG_INVALID)
     | Some bm \<Rightarrow> do {
         r \<leftarrow> bitmap_scan (\<lambda>idx boundary. do { w \<leftarrow> word_bits_reverse bm idx boundary; Some (w = 0) })
               nbits 0 BITS_PER_WORD;
         Some (Inr r)
       })"

definition st_bitmap_equal ::
    "u64 list option \<Rightarrow> u64 list option \<Rightarrow> nat \<Rightarrow> (st_error + bool) option" where
  "st_bitmap_equal bitmap1 bitmap2 nbits =
    (case bitmap1 of
       None \<Rightarrow> Some (Inl ST_ARG_INVALID)
     | Some bm1 \<Rightarrow>
       (case bitmap2 of
          None \<Rightarrow> Some (Inl ST_ARG_INVALID)
        | Some bm2 \<Rightarrow> do {
            r \<leftarrow> bitmap_scan (\<lambda>idx boundary. do {
                    w1 \<leftarrow> word_bits bm1 idx boundary;
                    w2 \<leftarrow> word_bits bm2 idx boundary;
                    Some (w1 = w2) })
                  nbits 0 BITS_PER_WORD;
            Some (Inr r)
          }))"

text \<open>The two loops of \<^verbatim>\<open>st_bitmap_find_next_bit\<close>: over words, then over the bits of one word.\<close>

partial_function (option) find_word_loop ::
    "u64 list \<Rightarrow> nat \<Rightarrow> bool \<Rightarrow> nat \<Rightarrow> nat \<Rightarrow> (nat \<times> nat) option option" where
  "find_word_loop bm end reverse idx boundary =
    (let boundary = (if boundary > end then end else boundary) in
     Option.bind (word_bits_value bm idx boundary reverse) (\<lambda>word.
       if word \<noteq> 0 then Some (Some (idx, boundary))
       else let idx = boundary; boundary = u32_add boundary BITS_PER_WORD in
         if idx = end then Some None
         else find_word_loop bm end reverse idx boundary))"

partial_function (option) find_bit_loop ::
    "u64 list \<Rightarrow> bool \<Rightarrow> nat \<Rightarrow> nat \<Rightarrow> int option" where
  "find_bit_loop bm reverse boundary i =
    (if i < boundary then
       Option.bind (word_bits_value bm i (i + 1) reverse) (\<lambda>word.
         if word \<noteq> 0 then Some (int i) else find_bit_loop bm reverse boundary (i + 1))
     else Some (- 1))"

definition st_bitmap_find_next_bit ::
    "u64 list option \<Rightarrow> nat \<Rightarrow> nat \<Rightarrow> int \<Rightarrow> (st_error + int) option" where
  "st_bitmap_find_next_bit bitmap start end bit_value =
    (case bitmap of
       None \<Rightarrow> Some (Inl ST_ARG_INVALID)
     | Some bm \<Rightarrow>
       if \<not> start < end then Some (Inl ST_INDEX_OUT_OF_RANGE)
       else if \<not> (bit_value = 1 \<or> bit_value = 0) then Some (Inl ST_ARG_INVALID)
       else do {
         let reverse = (bit_value = 0);
         let boundary = (start div BITS_PER_WORD + 1) * BITS_PER_WORD mod 2 ^ 32;
         r \<leftarrow> find_word_loop bm end reverse start boundary;
         (case r of
            None \<Rightarrow> Some (Inr (- 1))
          | Some (idx, boundary) \<Rightarrow> do { i \<leftarrow> find_bit_loop bm reverse boundary idx; Some (Inr i) })
       })"

definition st_bitmap_find_set_bit :: "u64 list option \<Rightarrow> nat \<Rightarrow> nat \<Rightarrow> (st_error + int) option" where
  "st_bitmap_find_set_bit bitmap start end = st_bitmap_find_next_bit bitmap start end 1"

definition st_bitmap_find_clear_bit :: "u64 list option \<Rightarrow> nat \<Rightarrow> nat \<Rightarrow> (st_error + int) option" where
  "st_bitmap_find_clear_bit bitmap start end = st_bitmap_find_next_bit bitmap start end 0"

section \<open>One word\<close>

definition bm_bit :: "u64 list \<Rightarrow> nat \<Rightarrow> bool" where
  "bm_bit bm i \<longleftrightarrow> bit (bm ! (i div 64)) (i mod 64)"

lemma bit_not_u64: "bit (NOT (w::u64)) n \<longleftrightarrow> n < 64 \<and> \<not> bit w n"
  by (simp add: bit_simps)

lemma bit_mask_value:
  "s < e \<Longrightarrow> e \<le> 64 \<Longrightarrow>
    bit (push_bit s (- 1) AND drop_bit (64 - e) (- 1) :: u64) n \<longleftrightarrow> s \<le> n \<and> n < e"
  by (auto simp: bit_simps)

lemma word_mask_eq:
  "s < e \<Longrightarrow> e \<le> 64 \<Longrightarrow> word_mask s e = Some (push_bit s (- 1) AND drop_bit (64 - e) (- 1))"
  by (simp add: word_mask_def in_one_word_def)

lemma word_bits_value_bits:
  assumes "start < end" and "start div 64 = (end - 1) div 64" and "end \<le> 64 * length bm"
  shows "\<exists>w. word_bits_value bm start end rv = Some w \<and>
    (\<forall>n. bit w n \<longleftrightarrow> start mod 64 \<le> n \<and> n \<le> (end - 1) mod 64 \<and> (bit (bm ! (start div 64)) n \<noteq> rv))"
proof -
  let ?s = "start mod 64" and ?e = "(end - 1) mod 64 + 1"
  have len: "start div 64 < length bm" using assms(1,3) by auto
  have se: "?s < ?e"
    using assms(1,2) by (metis Suc_eq_plus1 Suc_le_eq add_le_cancel_left diff_Suc_1 div_mult_mod_eq
        less_Suc_eq_le less_imp_Suc_add mult.commute not_less_eq)
  have e64: "?e \<le> 64" by (simp add: Suc_leI)
  let ?w = "bm ! (start div 64)"
  show ?thesis
  proof (cases "?s = 0 \<and> ?e = 64")
    case True
    then have "word_bits_value bm start end rv = Some (if \<not> rv then ?w else NOT ?w)"
      using assms len by (simp add: word_bits_value_def in_one_word_def word_at_def Let_def)
    moreover have "n \<le> 63" if "bit ?w n" for n using bit_imp_le_length [OF that] by simp
    ultimately show ?thesis using True by (auto simp: bit_not_u64)
  next
    case False
    let ?m = "push_bit ?s (- 1) AND drop_bit (64 - ?e) (- 1) :: u64"
    from False have "word_bits_value bm start end rv = Some (if \<not> rv then ?w AND ?m else NOT ?w AND ?m)"
      using assms len word_mask_eq [OF se e64]
      by (simp add: word_bits_value_def in_one_word_def word_at_def Let_def)
    moreover have "bit (if \<not> rv then ?w AND ?m else NOT ?w AND ?m) n \<longleftrightarrow> ?s \<le> n \<and> n < ?e \<and> (bit ?w n \<noteq> rv)" for n
      using e64 bit_mask_value [OF se e64, of n]
      by (auto simp: bit_and_iff bit_not_u64 simp del: bit_push_bit_iff)
    ultimately show ?thesis by (intro exI conjI allI) (assumption, simp add: less_Suc_eq_le)
  qed
qed

text \<open>The same in terms of bit numbers of the bitmap.\<close>

lemma word_bits_value_bm:
  assumes "start < end" and "start div 64 = (end - 1) div 64" and "end \<le> 64 * length bm"
  obtains w where "word_bits_value bm start end rv = Some w"
    and "\<And>i. start \<le> i \<Longrightarrow> i < end \<Longrightarrow> bit w (i mod 64) \<longleftrightarrow> bm_bit bm i \<noteq> rv"
    and "\<And>n. bit w n \<Longrightarrow> \<exists>i. start \<le> i \<and> i < end \<and> n = i mod 64"
proof -
  obtain w where w: "word_bits_value bm start end rv = Some w"
    and bits: "\<And>n. bit w n \<longleftrightarrow> start mod 64 \<le> n \<and> n \<le> (end - 1) mod 64
      \<and> (bit (bm ! (start div 64)) n \<noteq> rv)"
    using word_bits_value_bits [OF assms] by blast
  have same: "i div 64 = start div 64" if "start \<le> i" "i < end" for i
    using assms(2) that div_le_mono [of start i 64] div_le_mono [of i "end - 1" 64] by auto
  show thesis
  proof (rule that [OF w])
    fix i assume i: "start \<le> i" "i < end"
    have "start mod 64 \<le> i mod 64" "i mod 64 \<le> (end - 1) mod 64"
      using i same [OF i] assms(2)
        div_mult_mod_eq [of start 64] div_mult_mod_eq [of i 64] div_mult_mod_eq [of "end - 1" 64]
      by linarith+
    then show "bit w (i mod 64) \<longleftrightarrow> bm_bit bm i \<noteq> rv"
      by (simp add: bits bm_bit_def same [OF i])
  next
    fix n assume "bit w n"
    then have n: "start mod 64 \<le> n" "n \<le> (end - 1) mod 64" by (simp_all add: bits)
    let ?i = "start div 64 * 64 + n"
    have "n < 64" using n(2) by (simp add: le_less_trans [OF _ mod_less_divisor])
    moreover have "start \<le> ?i" "?i < end"
      using n assms(1,2) div_mult_mod_eq [of start 64] div_mult_mod_eq [of "end - 1" 64]
      by linarith+
    ultimately show "\<exists>i. start \<le> i \<and> i < end \<and> n = i mod 64"
      by (intro exI [of _ ?i]) simp
  qed
qed

lemma word_bits_value_eq_0:
  assumes "start < end" and "start div 64 = (end - 1) div 64" and "end \<le> 64 * length bm"
  shows "\<exists>w. word_bits_value bm start end rv = Some w \<and>
    (w = 0 \<longleftrightarrow> (\<forall>i. start \<le> i \<and> i < end \<longrightarrow> bm_bit bm i = rv))"
proof -
  obtain w where w: "word_bits_value bm start end rv = Some w"
    and bits: "\<And>i. start \<le> i \<Longrightarrow> i < end \<Longrightarrow> bit w (i mod 64) \<longleftrightarrow> bm_bit bm i \<noteq> rv"
    and range: "\<And>n. bit w n \<Longrightarrow> \<exists>i. start \<le> i \<and> i < end \<and> n = i mod 64"
    using word_bits_value_bm [OF assms] by blast
  have "w = 0 \<longleftrightarrow> (\<forall>n. \<not> bit w n)" by (auto intro: bit_word_eqI)
  then show ?thesis using w bits range by blast
qed

lemma word_bits_value_eq:
  assumes "start < end" and "start div 64 = (end - 1) div 64"
    and "end \<le> 64 * length bm1" and "end \<le> 64 * length bm2"
  shows "\<exists>w1 w2. word_bits_value bm1 start end rv = Some w1 \<and> word_bits_value bm2 start end rv = Some w2 \<and>
    (w1 = w2 \<longleftrightarrow> (\<forall>i. start \<le> i \<and> i < end \<longrightarrow> bm_bit bm1 i = bm_bit bm2 i))"
proof -
  obtain w1 where w1: "word_bits_value bm1 start end rv = Some w1"
    and bits1: "\<And>i. start \<le> i \<Longrightarrow> i < end \<Longrightarrow> bit w1 (i mod 64) \<longleftrightarrow> bm_bit bm1 i \<noteq> rv"
    and range1: "\<And>n. bit w1 n \<Longrightarrow> \<exists>i. start \<le> i \<and> i < end \<and> n = i mod 64"
    using word_bits_value_bm [OF assms(1,2,3)] by blast
  obtain w2 where w2: "word_bits_value bm2 start end rv = Some w2"
    and bits2: "\<And>i. start \<le> i \<Longrightarrow> i < end \<Longrightarrow> bit w2 (i mod 64) \<longleftrightarrow> bm_bit bm2 i \<noteq> rv"
    and range2: "\<And>n. bit w2 n \<Longrightarrow> \<exists>i. start \<le> i \<and> i < end \<and> n = i mod 64"
    using word_bits_value_bm [OF assms(1,2,4)] by blast
  have "w1 = w2 \<longleftrightarrow> (\<forall>n. bit w1 n = bit w2 n)" by (auto intro: bit_word_eqI)
  then have "w1 = w2 \<longleftrightarrow> (\<forall>i. start \<le> i \<and> i < end \<longrightarrow> bm_bit bm1 i = bm_bit bm2 i)"
    using bits1 bits2 range1 range2 by (metis (full_types))
  then show ?thesis using w1 w2 by blast
qed

section \<open>Whole bitmaps\<close>

lemma bitmap_scan_eq:
  assumes ok: "\<And>s e. s < e \<Longrightarrow> s div 64 = (e - 1) div 64 \<Longrightarrow> e \<le> nbits \<Longrightarrow>
      ok s e = Some (\<forall>i. s \<le> i \<and> i < e \<longrightarrow> P i)"
    and "nbits \<le> 2 ^ 32 - 64" and "idx mod 64 = 0"
  shows "bitmap_scan ok nbits idx (idx + 64) = Some (\<forall>i. idx \<le> i \<and> i < nbits \<longrightarrow> P i)"
  using assms(3)
proof (induction "nbits - idx" arbitrary: idx rule: less_induct)
  case less
  show ?case
  proof (cases "idx < nbits")
    case False
    then show ?thesis by (auto simp: bitmap_scan.simps)
  next
    case True
    let ?b = "if idx + 64 > nbits then nbits else idx + 64"
    have "idx div 64 = (?b - 1) div 64" using True less.prems by auto
    then have "ok idx ?b = Some (\<forall>i. idx \<le> i \<and> i < ?b \<longrightarrow> P i)"
      using True by (intro ok) auto
    then have step: "bitmap_scan ok nbits idx (idx + 64) =
        (if \<forall>i. idx \<le> i \<and> i < ?b \<longrightarrow> P i then bitmap_scan ok nbits ?b (u32_add ?b 64) else Some False)"
      using True by (subst bitmap_scan.simps) (simp only: Let_def bind.bind_lunit if_True, auto)
    show ?thesis
    proof (cases "idx + 64 < nbits")
      case True
      then have "u32_add ?b 64 = ?b + 64" using assms(2) by (simp add: u32_add_def)
      moreover have "bitmap_scan ok nbits (idx + 64) (idx + 64 + 64) =
          Some (\<forall>i. idx + 64 \<le> i \<and> i < nbits \<longrightarrow> P i)"
        using True less.prems by (intro less.hyps) auto
      ultimately show ?thesis using True step by (auto simp: not_le) (metis not_le)+
    next
      case False
      with True have "?b = nbits" by simp
      with step show ?thesis by (auto simp: bitmap_scan.simps)
    qed
  qed
qed

lemma scan_value_eq:
  assumes "nbits \<le> 64 * length bm" and "nbits \<le> 2 ^ 32 - 64"
  shows "bitmap_scan (\<lambda>s e. Option.bind (word_bits_value bm s e rv) (\<lambda>w. Some (w = 0))) nbits 0 64
    = Some (\<forall>i < nbits. bm_bit bm i = rv)"
proof -
  have "Option.bind (word_bits_value bm s e rv) (\<lambda>w. Some (w = 0))
      = Some (\<forall>i. s \<le> i \<and> i < e \<longrightarrow> bm_bit bm i = rv)"
    if "s < e" "s div 64 = (e - 1) div 64" "e \<le> nbits" for s e
    using word_bits_value_eq_0 [OF that(1,2), of bm rv] that(3) assms(1) by auto
  then show ?thesis
    using bitmap_scan_eq [OF _ assms(2), of _ "\<lambda>i. bm_bit bm i = rv" 0] by simp
qed

lemma bm_bit_update:
  assumes "i div 64 < length bm"
  shows "bm_bit (bm[i div 64 := w]) j =
    (if j div 64 = i div 64 then bit w (j mod 64) else bm_bit bm j)"
  using assms by (auto simp: bm_bit_def nth_list_update)

lemma single_mask: "n < 64 \<Longrightarrow> word_mask n (n + 1) = Some (push_bit n 1)"
proof -
  assume n: "n < 64"
  have "push_bit n (- 1) AND drop_bit (64 - (n + 1)) (- 1) = (push_bit n 1 :: u64)"
  proof (rule bit_word_eqI)
    fix k assume "k < LENGTH(64)"
    have "bit (push_bit n 1 :: u64) k \<longleftrightarrow> k = n" using n by (auto simp: bit_simps)
    then show "bit (push_bit n (- 1) AND drop_bit (64 - (n + 1)) (- 1) :: u64) k
        = bit (push_bit n 1 :: u64) k"
      using n bit_mask_value [of n "n + 1" k] by auto
  qed
  then show ?thesis using n word_mask_eq [of n "n + 1"] by simp
qed

lemma and_single_neq_0: "n < 64 \<Longrightarrow> (w::u64) AND push_bit n 1 \<noteq> 0 \<longleftrightarrow> bit w n"
  by (simp add: and_exp_eq_0_iff_not_bit)

text \<open>Setting and clearing change one bit and report its old value.\<close>

lemma st_bitmap_set_bits:
  assumes "i < 64 * length bm"
  shows "\<exists>bm'. st_bitmap_set bm i = Some (bm', bm_bit bm i) \<and> length bm' = length bm \<and>
    (\<forall>j. bm_bit bm' j \<longleftrightarrow> j = i \<or> bm_bit bm j)"
proof -
  let ?m = "push_bit (i mod 64) 1 :: u64" and ?w = "bm ! (i div 64)"
  have len: "i div 64 < length bm" using assms by auto
  have "st_bitmap_set bm i = Some (bm[i div 64 := ?w OR ?m], bm_bit bm i)"
    using len single_mask [of "i mod 64"] and_single_neq_0 [of "i mod 64" ?w]
    by (simp add: st_bitmap_set_def word_at_def Let_def bm_bit_def)
  moreover have "bm_bit (bm[i div 64 := ?w OR ?m]) j \<longleftrightarrow> j = i \<or> bm_bit bm j" for j
  proof (cases "j div 64 = i div 64")
    case True
    then have "j mod 64 = i mod 64 \<longleftrightarrow> j = i" by (metis div_mult_mod_eq)
    with True show ?thesis
      using len by (auto simp: bm_bit_update bm_bit_def bit_simps)
  next
    case False
    then show ?thesis using len by (auto simp: bm_bit_update)
  qed
  ultimately show ?thesis by auto
qed

lemma st_bitmap_clear_bits:
  assumes "i < 64 * length bm"
  shows "\<exists>bm'. st_bitmap_clear bm i = Some (bm', bm_bit bm i) \<and> length bm' = length bm \<and>
    (\<forall>j. bm_bit bm' j \<longleftrightarrow> j \<noteq> i \<and> bm_bit bm j)"
proof -
  let ?m = "push_bit (i mod 64) 1 :: u64" and ?w = "bm ! (i div 64)"
  have len: "i div 64 < length bm" using assms by auto
  have "st_bitmap_clear bm i = Some (bm[i div 64 := ?w AND NOT ?m], bm_bit bm i)"
    using len single_mask [of "i mod 64"] and_single_neq_0 [of "i mod 64" ?w]
    by (simp add: st_bitmap_clear_def word_at_def Let_def bm_bit_def)
  moreover have "bm_bit (bm[i div 64 := ?w AND NOT ?m]) j \<longleftrightarrow> j \<noteq> i \<and> bm_bit bm j" for j
  proof (cases "j div 64 = i div 64")
    case True
    then have "j mod 64 = i mod 64 \<longleftrightarrow> j = i" by (metis div_mult_mod_eq)
    with True show ?thesis
      using len by (auto simp: bm_bit_update bm_bit_def bit_simps)
  next
    case False
    then show ?thesis using len by (auto simp: bm_bit_update)
  qed
  ultimately show ?thesis by auto
qed

lemma st_bitmap_get_bit:
  assumes "i < 64 * length bm" and "i < 2 ^ 32 - 1"
  shows "st_bitmap_get bm i = Some (bm_bit bm i)"
proof -
  have "u32_add i 1 = i + 1" using assms(2) by (simp add: u32_add_def)
  then show ?thesis
    using word_bits_value_eq_0 [of i "i + 1" bm False] assms(1)
    by (auto simp: st_bitmap_get_def word_bits_def less_Suc_eq_le dest: le_antisym)
qed

section \<open>Searching\<close>

lemma find_bit_loop_eq:
  assumes "boundary \<le> 64 * length bm"
    and "\<exists>j. i \<le> j \<and> j < boundary \<and> bm_bit bm j \<noteq> rv"
  shows "\<exists>j. find_bit_loop bm rv boundary i = Some (int j) \<and> i \<le> j \<and> j < boundary \<and>
    bm_bit bm j \<noteq> rv \<and> (\<forall>k. i \<le> k \<and> k < j \<longrightarrow> bm_bit bm k = rv)"
  using assms(2)
proof (induction "boundary - i" arbitrary: i rule: less_induct)
  case less
  then have i: "i < boundary" by auto
  obtain w where w: "word_bits_value bm i (i + 1) rv = Some w"
    and w0: "w = 0 \<longleftrightarrow> bm_bit bm i = rv"
    using word_bits_value_eq_0 [of i "i + 1" bm rv] i assms(1)
    by (auto simp: less_Suc_eq_le dest: le_antisym)
  show ?case
  proof (cases "bm_bit bm i = rv")
    case False
    then show ?thesis using i w w0 by (auto simp: find_bit_loop.simps [of bm rv boundary i])
  next
    case True
    have ex: "\<exists>j. Suc i \<le> j \<and> j < boundary \<and> bm_bit bm j \<noteq> rv"
      using less.prems True by (metis Suc_leI le_neq_implies_less)
    have "\<exists>j. find_bit_loop bm rv boundary (Suc i) = Some (int j) \<and> Suc i \<le> j \<and> j < boundary \<and>
        bm_bit bm j \<noteq> rv \<and> (\<forall>k. Suc i \<le> k \<and> k < j \<longrightarrow> bm_bit bm k = rv)"
      using i ex by (intro less.hyps) auto
    then show ?thesis
      using i w w0 True
      by (auto simp: find_bit_loop.simps [of bm rv boundary i]) (metis Suc_leI le_neq_implies_less)+
  qed
qed

lemma find_word_loop_eq:
  assumes "end \<le> 64 * length bm" and "end \<le> 2 ^ 32 - 64" and "idx < end"
    and "boundary = (idx div 64 + 1) * 64"
  shows "\<exists>r. find_word_loop bm end rv idx boundary = Some r \<and>
    (case r of
       None \<Rightarrow> \<forall>j. idx \<le> j \<and> j < end \<longrightarrow> bm_bit bm j = rv
     | Some (i, b) \<Rightarrow> idx \<le> i \<and> i < b \<and> b \<le> end \<and> (\<exists>j. i \<le> j \<and> j < b \<and> bm_bit bm j \<noteq> rv)
         \<and> (\<forall>j. idx \<le> j \<and> j < i \<longrightarrow> bm_bit bm j = rv))"
  using assms(3,4)
proof (induction "end - idx" arbitrary: idx boundary rule: less_induct)
  case less
  let ?b = "if boundary > end then end else boundary"
  have ib: "idx < ?b" and b_end: "?b \<le> end" and word: "idx div 64 = (?b - 1) div 64"
    using less.prems by (auto simp: div_eq_dividend_iff)
  obtain w where w: "word_bits_value bm idx ?b rv = Some w"
    and w0: "w = 0 \<longleftrightarrow> (\<forall>i. idx \<le> i \<and> i < ?b \<longrightarrow> bm_bit bm i = rv)"
    using word_bits_value_eq_0 [OF ib word, of bm rv] b_end assms(1) by auto
  have unf: "find_word_loop bm end rv idx boundary =
      (if w \<noteq> 0 then Some (Some (idx, ?b))
       else if ?b = end then Some None
       else find_word_loop bm end rv ?b (u32_add ?b 64))"
    using w by (subst find_word_loop.simps) (simp add: Let_def)
  show ?case
  proof (cases "w \<noteq> 0 \<or> ?b = end")
    case True
    then show ?thesis using unf w0 ib b_end by auto
  next
    case False
    then have b: "?b = boundary" "boundary < end" and zero: "w = 0"
      using b_end by (auto split: if_splits)
    have "u32_add boundary 64 = (boundary div 64 + 1) * 64"
      using b(2) less.prems(2) assms(2) by (simp add: u32_add_def)
    moreover have decr: "end - boundary < end - idx" using b ib by simp
    ultimately obtain r where r: "find_word_loop bm end rv boundary (u32_add boundary 64) = Some r"
      and spec: "case r of
         None \<Rightarrow> \<forall>j. boundary \<le> j \<and> j < end \<longrightarrow> bm_bit bm j = rv
       | Some (i, b) \<Rightarrow> boundary \<le> i \<and> i < b \<and> b \<le> end \<and> (\<exists>j. i \<le> j \<and> j < b \<and> bm_bit bm j \<noteq> rv)
           \<and> (\<forall>j. boundary \<le> j \<and> j < i \<longrightarrow> bm_bit bm j = rv)"
      using less.hyps [OF decr b(2)] by blast
    have eq: "find_word_loop bm end rv idx boundary = Some r" using unf zero b r by simp
    have low: "bm_bit bm j = rv" if "idx \<le> j" "j < boundary" for j using w0 zero b that by simp
    show ?thesis
    proof (cases r)
      case None
      have "bm_bit bm j = rv" if "idx \<le> j" "j < end" for j
        using spec None low that by (cases "j < boundary") auto
      with eq None show ?thesis by simp
    next
      case (Some p)
      obtain i c where p: "p = (i, c)" by (cases p)
      have "bm_bit bm j = rv" if "idx \<le> j" "j < i" for j
        using spec Some p low that by (cases "j < boundary") auto
      with spec Some p eq b ib show ?thesis by auto
    qed
  qed
qed

section \<open>Properties\<close>

lemma bitmap_tests_ok:
  assumes "nbits \<le> 64 * length bm" and "nbits \<le> 64 * length bm2" and "nbits \<le> 2 ^ 32 - 64"
  shows "st_bitmap_are_all_cleared (Some bm) nbits = Some (Inr (\<forall>i < nbits. \<not> bm_bit bm i))
    \<and> st_bitmap_are_all_set (Some bm) nbits = Some (Inr (\<forall>i < nbits. bm_bit bm i))
    \<and> st_bitmap_equal (Some bm) (Some bm2) nbits
        = Some (Inr (\<forall>i < nbits. bm_bit bm i = bm_bit bm2 i))"
proof (intro conjI)
  show "st_bitmap_are_all_cleared (Some bm) nbits = Some (Inr (\<forall>i < nbits. \<not> bm_bit bm i))"
    and "st_bitmap_are_all_set (Some bm) nbits = Some (Inr (\<forall>i < nbits. bm_bit bm i))"
    using scan_value_eq [OF assms(1,3), of False] scan_value_eq [OF assms(1,3), of True]
    by (simp_all add: st_bitmap_are_all_cleared_def st_bitmap_are_all_set_def
        word_bits_def word_bits_reverse_def)
  let ?ok = "\<lambda>s e. Option.bind (word_bits bm s e) (\<lambda>w1. Option.bind (word_bits bm2 s e) (\<lambda>w2. Some (w1 = w2)))"
  have "?ok s e = Some (\<forall>i. s \<le> i \<and> i < e \<longrightarrow> bm_bit bm i = bm_bit bm2 i)"
    if "s < e" "s div 64 = (e - 1) div 64" "e \<le> nbits" for s e
    using word_bits_value_eq [OF that(1,2), of bm bm2 False] that(3) assms(1,2)
    by (auto simp: word_bits_def)
  then have "bitmap_scan ?ok nbits 0 (0 + 64)
      = Some (\<forall>i. 0 \<le> i \<and> i < nbits \<longrightarrow> bm_bit bm i = bm_bit bm2 i)"
    by (rule bitmap_scan_eq [OF _ assms(3)]) simp_all
  then show "st_bitmap_equal (Some bm) (Some bm2) nbits
      = Some (Inr (\<forall>i < nbits. bm_bit bm i = bm_bit bm2 i))"
    by (simp add: st_bitmap_equal_def)
qed

text \<open>the whole-bitmap tests decide exactly the first \<open>nbits\<close> bits: all clear, all set, and
  equality of two bitmaps.\<close>

theorem bitmap_tests_correct:
  assumes "nbits \<le> 64 * length bm" and "nbits \<le> 64 * length bm2" and "nbits \<le> 2 ^ 32 - 64"
  shows "st_bitmap_are_all_cleared (Some bm) nbits = Some (Inr (\<forall>i < nbits. \<not> bm_bit bm i))
    \<and> st_bitmap_are_all_set (Some bm) nbits = Some (Inr (\<forall>i < nbits. bm_bit bm i))
    \<and> st_bitmap_equal (Some bm) (Some bm2) nbits
        = Some (Inr (\<forall>i < nbits. bm_bit bm i = bm_bit bm2 i))"
  using bitmap_tests_ok [OF assms] .

lemma bm_bit_0 [simp]: "i < 64 * n \<Longrightarrow> \<not> bm_bit (replicate n 0) i"
  by (simp add: bm_bit_def less_mult_imp_div_less mult.commute)

theorem bitmap_tests_correct_witness:
  "st_bitmap_are_all_cleared (Some [0, 0]) 100 = Some (Inr True)
    \<and> st_bitmap_are_all_set (Some [0, 0]) 100 = Some (Inr False)"
proof -
  have bits: "\<not> bm_bit [0, 0] i" if "i < 100" for i
    using bm_bit_0 [of i 2] that by (simp add: numeral_2_eq_2)
  then have "\<not> (\<forall>i < (100::nat). bm_bit [0, 0] i)" by (metis zero_less_numeral)
  then show ?thesis
    using bitmap_tests_correct [of 100 "[0, 0]" "[0, 0]"] bits by simp
qed

text \<open>setting and clearing return, change exactly the named bit of the bitmap, keep its
  length and report the old value of the bit.\<close>

theorem bitmap_update_correct:
  assumes "i < 64 * length bm"
  shows "\<exists>bs bc. st_bitmap_set bm i = Some (bs, bm_bit bm i)
    \<and> st_bitmap_clear bm i = Some (bc, bm_bit bm i)
    \<and> length bs = length bm \<and> length bc = length bm
    \<and> (\<forall>j. bm_bit bs j = (j = i \<or> bm_bit bm j))
    \<and> (\<forall>j. bm_bit bc j = (j \<noteq> i \<and> bm_bit bm j))"
  using st_bitmap_set_bits [OF assms] st_bitmap_clear_bits [OF assms] by blast

theorem bitmap_update_correct_witness:
  "st_bitmap_set [0, 5] 66 = Some ([0, 5], True) \<and> bm_bit [0, 5] 66
    \<and> (\<exists>bs. st_bitmap_set [0, 5] 65 = Some (bs, False) \<and> bm_bit bs 65)"
proof -
  have v: "bm_bit [0, 5] 66" "\<not> bm_bit [0, 5] 65" by (simp_all add: bm_bit_def)
  have "st_bitmap_set [0, 5] 66 = Some ([0, 5], True)"
    using single_mask [of 2] by (simp add: st_bitmap_set_def word_at_def)
  with v show ?thesis using bitmap_update_correct [of 65 "[0, 5]"] by auto
qed

lemma find_next_bit_ok:
  assumes "start < end" and "end \<le> 64 * length bm" and "end < 2 ^ 31" and "v = 0 \<or> v = 1"
  shows "\<exists>r. st_bitmap_find_next_bit (Some bm) start end v = Some (Inr r) \<and>
    (r = - 1 \<and> (\<forall>i. start \<le> i \<and> i < end \<longrightarrow> bm_bit bm i \<noteq> (v = 1)) \<or>
     (\<exists>i. r = int i \<and> start \<le> i \<and> i < end \<and> bm_bit bm i = (v = 1)
        \<and> (\<forall>j. start \<le> j \<and> j < i \<longrightarrow> bm_bit bm j \<noteq> (v = 1))))"
proof -
  let ?rv = "v = 0" and ?b = "(start div 64 + 1) * 64 mod 2 ^ 32"
  have b: "?b = (start div 64 + 1) * 64" using assms(1,3) by (intro mod_less) simp
  have v: "bm_bit bm i = (v = 1) \<longleftrightarrow> bm_bit bm i \<noteq> ?rv" for i using assms(4) by auto
  have "end \<le> 2 ^ 32 - 64" using assms(3) by simp
  then obtain r where r: "find_word_loop bm end ?rv start ?b = Some r"
    and spec: "case r of
       None \<Rightarrow> \<forall>j. start \<le> j \<and> j < end \<longrightarrow> bm_bit bm j = ?rv
     | Some (i, b) \<Rightarrow> start \<le> i \<and> i < b \<and> b \<le> end \<and> (\<exists>j. i \<le> j \<and> j < b \<and> bm_bit bm j \<noteq> ?rv)
         \<and> (\<forall>j. start \<le> j \<and> j < i \<longrightarrow> bm_bit bm j = ?rv)"
    using find_word_loop_eq [OF assms(2) _ assms(1) b, of ?rv] by blast
  show ?thesis
  proof (cases r)
    case None
    with r spec assms(1,4) show ?thesis
      by (intro exI [of _ "- 1"]) (auto simp: st_bitmap_find_next_bit_def Let_def v)
  next
    case (Some p)
    obtain i c where p: "p = (i, c)" by (cases p)
    obtain j where j: "find_bit_loop bm ?rv c i = Some (int j)" "i \<le> j" "j < c" "bm_bit bm j \<noteq> ?rv"
      and low: "\<forall>k. i \<le> k \<and> k < j \<longrightarrow> bm_bit bm k = ?rv"
      using find_bit_loop_eq [of c bm i ?rv] spec Some p assms(2) by auto
    have "bm_bit bm k = ?rv" if "start \<le> k" "k < j" for k
      using spec Some p low that by (cases "k < i") auto
    with j r spec Some p assms(1,4) show ?thesis
      by (intro exI [of _ "int j"]) (auto simp: st_bitmap_find_next_bit_def Let_def v)
  qed
qed

text \<open>C26: the search for the next set (or clear) bit in a range always returns: the smallest bit
  number in the range that has the wanted value, or -1 when no bit of the range has it.\<close>

theorem find_next_bit_correct:
  assumes "start < end" and "end \<le> 64 * length bm" and "end < 2 ^ 31" and "v = 0 \<or> v = 1"
  shows "\<exists>r. st_bitmap_find_next_bit (Some bm) start end v = Some (Inr r) \<and>
    (r = - 1 \<and> (\<forall>i. start \<le> i \<and> i < end \<longrightarrow> bm_bit bm i \<noteq> (v = 1)) \<or>
     (\<exists>i. r = int i \<and> start \<le> i \<and> i < end \<and> bm_bit bm i = (v = 1)
        \<and> (\<forall>j. start \<le> j \<and> j < i \<longrightarrow> bm_bit bm j \<noteq> (v = 1))))"
  using find_next_bit_ok [OF assms] .

theorem find_next_bit_correct_witness:
  "\<exists>r. st_bitmap_find_next_bit (Some [7, 0]) 0 128 0 = Some (Inr r) \<and> r \<noteq> - 1"
  using find_next_bit_correct [of 0 128 "[7, 0]" 0]
  by (auto simp: bm_bit_def dest!: spec [of _ 64])

end
