(* ===== verification/St_List.thy ===== *)
theory St_List
  imports Prelude
begin

text \<open>
  \<^verbatim>\<open>src/list/list.h\<close>: circular doubly linked lists with the links embedded in their owners.  The
  store maps the address of a link structure to its two pointers; an operation returns the new
  store, or \<open>None\<close> where the C code dereferences \<^verbatim>\<open>NULL\<close>.

  \<open>clist m h xs\<close> says that the head \<open>h\<close> and the nodes \<open>xs\<close> form a well-linked circle in
  the store \<open>m\<close>.  Every operation is shown to realise the operation on the sequence \<open>xs\<close> and to
  leave every other address of the store alone.
\<close>

section \<open>Definitions\<close>

record st_list =
  l_prev :: addr
  l_next :: addr

type_synonym lmem = "addr \<Rightarrow> st_list"

definition set_prev :: "lmem \<Rightarrow> addr \<Rightarrow> addr \<Rightarrow> lmem option" where
  "set_prev m a v = upd m a (\<lambda>n. n\<lparr>l_prev := v\<rparr>)"

definition set_next :: "lmem \<Rightarrow> addr \<Rightarrow> addr \<Rightarrow> lmem option" where
  "set_next m a v = upd m a (\<lambda>n. n\<lparr>l_next := v\<rparr>)"

definition st_list_init :: "lmem \<Rightarrow> addr \<Rightarrow> lmem option" where
  "st_list_init m node = do {
     m \<leftarrow> set_prev m node node;
     set_next m node node
   }"

definition st_list_first :: "lmem \<Rightarrow> addr \<Rightarrow> addr option" where
  "st_list_first m head = do { h \<leftarrow> deref m head; Some (l_next h) }"

definition st_list_last :: "lmem \<Rightarrow> addr \<Rightarrow> addr option" where
  "st_list_last m head = do { h \<leftarrow> deref m head; Some (l_prev h) }"

definition st_list_next :: "lmem \<Rightarrow> addr \<Rightarrow> addr option" where
  "st_list_next m node = do { n \<leftarrow> deref m node; Some (l_next n) }"

definition st_list_prev :: "lmem \<Rightarrow> addr \<Rightarrow> addr option" where
  "st_list_prev m node = do { n \<leftarrow> deref m node; Some (l_prev n) }"

definition st_list_empty :: "lmem \<Rightarrow> addr \<Rightarrow> bool option" where
  "st_list_empty m head = do { h \<leftarrow> deref m head; Some (head = l_prev h) }"

definition st_list_insert_first :: "lmem \<Rightarrow> addr \<Rightarrow> addr \<Rightarrow> lmem option" where
  "st_list_insert_first m head node = do {
     h \<leftarrow> deref m head;
     m \<leftarrow> set_next m node (l_next h);
     n \<leftarrow> deref m node;
     m \<leftarrow> set_prev m (l_next n) node;
     m \<leftarrow> set_prev m node head;
     set_next m head node
   }"

definition st_list_insert_last :: "lmem \<Rightarrow> addr \<Rightarrow> addr \<Rightarrow> lmem option" where
  "st_list_insert_last m head node = do {
     h \<leftarrow> deref m head;
     m \<leftarrow> set_prev m node (l_prev h);
     n \<leftarrow> deref m node;
     m \<leftarrow> set_next m (l_prev n) node;
     m \<leftarrow> set_next m node head;
     set_prev m head node
   }"

definition st_list_remove :: "lmem \<Rightarrow> addr \<Rightarrow> lmem option" where
  "st_list_remove m node = do {
     n \<leftarrow> deref m node;
     m \<leftarrow> set_prev m (l_next n) (l_prev n);
     n \<leftarrow> deref m node;
     m \<leftarrow> set_next m (l_prev n) (l_next n);
     m \<leftarrow> set_prev m node NULL;
     set_next m node NULL
   }"

definition st_list_move_head :: "lmem \<Rightarrow> addr \<Rightarrow> addr \<Rightarrow> lmem option" where
  "st_list_move_head m node head = do {
     m \<leftarrow> st_list_remove m node;
     st_list_insert_first m head node
   }"

definition st_list_move_tail :: "lmem \<Rightarrow> addr \<Rightarrow> addr \<Rightarrow> lmem option" where
  "st_list_move_tail m node head = do {
     m \<leftarrow> st_list_remove m node;
     st_list_insert_last m head node
   }"

definition st_list_is_inited :: "lmem \<Rightarrow> addr \<Rightarrow> bool" where
  "st_list_is_inited m node \<longleftrightarrow> \<not> (node = NULL \<or> l_next (m node) = NULL \<or> l_prev (m node) = NULL)"

definition st_list_join :: "lmem \<Rightarrow> addr \<Rightarrow> addr \<Rightarrow> lmem option" where
  "st_list_join m dest src = do {
     e \<leftarrow> st_list_empty m src;
     if e then Some m
     else do {
       d \<leftarrow> deref m dest;
       s \<leftarrow> deref m src;
       m \<leftarrow> set_next m (l_prev d) (l_next s);
       d \<leftarrow> deref m dest;
       s \<leftarrow> deref m src;
       m \<leftarrow> set_prev m (l_next s) (l_prev d);
       s \<leftarrow> deref m src;
       m \<leftarrow> set_prev m dest (l_prev s);
       d \<leftarrow> deref m dest;
       m \<leftarrow> set_next m (l_prev d) dest;
       st_list_init m src
     }
   }"

definition st_list_pop_first :: "lmem \<Rightarrow> addr \<Rightarrow> (addr \<times> lmem) option" where
  "st_list_pop_first m head = do {
     e \<leftarrow> st_list_empty m head;
     if e then Some (NULL, m)
     else do {
       h \<leftarrow> deref m head;
       let node = l_next h;
       m \<leftarrow> st_list_remove m node;
       Some (node, m)
     }
   }"

lemmas list_op_defs [st_defs] =
  set_prev_def set_next_def st_list_init_def st_list_first_def st_list_last_def st_list_next_def
  st_list_prev_def st_list_empty_def st_list_insert_first_def st_list_insert_last_def
  st_list_remove_def

section \<open>Well-linked circles\<close>

fun lseg :: "lmem \<Rightarrow> addr \<Rightarrow> addr list \<Rightarrow> addr \<Rightarrow> bool" where
  "lseg m a [] b \<longleftrightarrow> l_next (m a) = b \<and> l_prev (m b) = a"
| "lseg m a (x # xs) b \<longleftrightarrow> l_next (m a) = x \<and> l_prev (m x) = a \<and> lseg m x xs b"

definition clist :: "lmem \<Rightarrow> addr \<Rightarrow> addr list \<Rightarrow> bool" where
  "clist m h xs \<longleftrightarrow> lseg m h xs h \<and> distinct (h # xs) \<and> NULL \<notin> set (h # xs)"

lemma lseg_append [simp]: "lseg m a (xs @ y # ys) b \<longleftrightarrow> lseg m a xs y \<and> lseg m y ys b"
  by (induction xs arbitrary: a) auto

lemma lseg_cong:
  "(\<And>x. x = a \<or> x \<in> set xs \<Longrightarrow> l_next (m' x) = l_next (m x)) \<Longrightarrow>
   (\<And>x. x = b \<or> x \<in> set xs \<Longrightarrow> l_prev (m' x) = l_prev (m x)) \<Longrightarrow>
   lseg m' a xs b = lseg m a xs b"
  by (induction xs arbitrary: a) auto

lemma lseg_upd [heap_simps]:
  "c \<notin> set xs \<Longrightarrow> (c = a \<Longrightarrow> l_next v = l_next (m c)) \<Longrightarrow> (c = b \<Longrightarrow> l_prev v = l_prev (m c)) \<Longrightarrow>
    lseg (m(c := v)) a xs b = lseg m a xs b"
  by (rule lseg_cong) auto

lemma clist_frame:
  "clist m h xs \<Longrightarrow> (\<And>a. a \<in> set (h # xs) \<Longrightarrow> m' a = m a) \<Longrightarrow> clist m' h xs"
  unfolding clist_def using lseg_cong [of h xs m' m h] by auto

lemma clist_empty_iff: "clist m h xs \<Longrightarrow> st_list_empty m h = Some (xs = [])"
  by (cases xs rule: rev_cases) (auto simp: clist_def st_list_empty_def)

lemma clist_first: "clist m h xs \<Longrightarrow> st_list_first m h = Some (if xs = [] then h else hd xs)"
  by (cases xs) (auto simp: clist_def st_list_first_def)

lemma clist_last: "clist m h xs \<Longrightarrow> st_list_last m h = Some (if xs = [] then h else last xs)"
  by (cases xs rule: rev_cases) (auto simp: clist_def st_list_last_def)

lemma clist_is_inited: "clist m h xs \<Longrightarrow> x \<in> set (h # xs) \<Longrightarrow> st_list_is_inited m x"
proof -
  assume c: "clist m h xs" and x: "x \<in> set (h # xs)"
  have "lseg m a ys b \<Longrightarrow> x = a \<or> x \<in> set ys \<Longrightarrow> l_next (m x) = b \<or> l_next (m x) \<in> set ys" for a ys b
    by (induction ys arbitrary: a) auto
  moreover have "lseg m a ys b \<Longrightarrow> x = b \<or> x \<in> set ys \<Longrightarrow> l_prev (m x) = a \<or> l_prev (m x) \<in> set ys" for a ys b
    by (induction ys arbitrary: a) auto
  ultimately show ?thesis
    using c x unfolding clist_def st_list_is_inited_def by (metis set_ConsD list.set_intros)
qed

section \<open>The operations on sequences\<close>

lemma list_init_clist:
  "h \<noteq> NULL \<Longrightarrow> \<exists>m'. st_list_init m h = Some m' \<and> clist m' h [] \<and> (\<forall>a. a \<noteq> h \<longrightarrow> m' a = m a)"
  by (simp add: list_op_defs clist_def)

lemma list_insert_first_clist:
  assumes "clist m h xs" and "n \<notin> set (h # xs)" and "n \<noteq> NULL"
  shows "\<exists>m'. st_list_insert_first m h n = Some m' \<and> clist m' h (n # xs) \<and>
    (\<forall>a. a \<notin> set (h # n # xs) \<longrightarrow> m' a = m a)"
  using assms by (cases xs) (clarsimp simp: list_op_defs clist_def lseg_upd; auto)+

lemma list_insert_last_clist:
  assumes "clist m h xs" and "n \<notin> set (h # xs)" and "n \<noteq> NULL"
  shows "\<exists>m'. st_list_insert_last m h n = Some m' \<and> clist m' h (xs @ [n]) \<and>
    (\<forall>a. a \<notin> set (h # n # xs) \<longrightarrow> m' a = m a)"
  using assms by (cases xs rule: rev_cases) (auto simp: list_op_defs clist_def lseg_upd)

lemma list_remove_clist:
  assumes "clist m h (xs @ n # ys)"
  shows "\<exists>m'. st_list_remove m n = Some m' \<and> clist m' h (xs @ ys) \<and>
    m' n = \<lparr>l_prev = NULL, l_next = NULL\<rparr> \<and>
    (\<forall>a. a \<notin> set (h # xs @ n # ys) \<longrightarrow> m' a = m a)"
  using assms
  by (cases xs rule: rev_cases; cases ys) (auto simp: list_op_defs clist_def lseg_upd)

lemma list_pop_first_clist:
  assumes "clist m h xs"
  shows "(xs = [] \<longrightarrow> st_list_pop_first m h = Some (NULL, m)) \<and>
    (\<forall>n ys. xs = n # ys \<longrightarrow>
      (\<exists>m'. st_list_pop_first m h = Some (n, m') \<and> clist m' h ys \<and>
        m' n = \<lparr>l_prev = NULL, l_next = NULL\<rparr> \<and> (\<forall>a. a \<notin> set (h # xs) \<longrightarrow> m' a = m a)))"
proof (intro conjI allI impI)
  assume "xs = []"
  then show "st_list_pop_first m h = Some (NULL, m)"
    using clist_empty_iff [OF assms] by (simp add: st_list_pop_first_def)
next
  fix n ys assume xs: "xs = n # ys"
  then obtain m' where "st_list_remove m n = Some m'" "clist m' h ys"
    "m' n = \<lparr>l_prev = NULL, l_next = NULL\<rparr>" "\<forall>a. a \<notin> set (h # xs) \<longrightarrow> m' a = m a"
    using list_remove_clist [of m h "[]" n ys] assms by auto
  then show "\<exists>m'. st_list_pop_first m h = Some (n, m') \<and> clist m' h ys \<and>
      m' n = \<lparr>l_prev = NULL, l_next = NULL\<rparr> \<and> (\<forall>a. a \<notin> set (h # xs) \<longrightarrow> m' a = m a)"
    using clist_empty_iff [OF assms] clist_first [OF assms] xs assms
    by (auto simp: st_list_pop_first_def st_list_first_def clist_def)
qed


lemma join_nil_single:
  assumes "clist m d []" and "clist m s [y]" and "set (d # []) \<inter> set (s # [y]) = {}"
  shows "\<exists>m'. st_list_join m d s = Some m' \<and> clist m' d [y] \<and> clist m' s [] \<and>
    (\<forall>a. a \<notin> set (d # s # [y]) \<longrightarrow> m' a = m a)"
  using assms  clist_empty_iff [OF assms(2)]
  by (clarsimp simp: st_list_join_def list_op_defs clist_def lseg_upd)

lemma join_nil_many:
  assumes "clist m d []" and "clist m s (y # zs @ [z])" and "set (d # []) \<inter> set (s # y # zs @ [z]) = {}"
  shows "\<exists>m'. st_list_join m d s = Some m' \<and> clist m' d (y # zs @ [z]) \<and> clist m' s [] \<and>
    (\<forall>a. a \<notin> set (d # s # y # zs @ [z]) \<longrightarrow> m' a = m a)"
  using assms  clist_empty_iff [OF assms(2)]
  by (clarsimp simp: st_list_join_def list_op_defs clist_def lseg_upd)

lemma join_many_single:
  assumes "clist m d (xs @ [x])" and "clist m s [y]" and "set (d # xs @ [x]) \<inter> set (s # [y]) = {}"
  shows "\<exists>m'. st_list_join m d s = Some m' \<and> clist m' d (xs @ [x] @ [y]) \<and> clist m' s [] \<and>
    (\<forall>a. a \<notin> set (d # xs @ x # s # [y]) \<longrightarrow> m' a = m a)"
  using assms  clist_empty_iff [OF assms(2)]
  by (clarsimp simp: st_list_join_def list_op_defs clist_def lseg_upd)

lemma join_many_many:
  assumes "clist m d (xs @ [x])" and "clist m s (y # zs @ [z])" and "set (d # xs @ [x]) \<inter> set (s # y # zs @ [z]) = {}"
  shows "\<exists>m'. st_list_join m d s = Some m' \<and> clist m' d (xs @ [x] @ y # zs @ [z]) \<and> clist m' s [] \<and>
    (\<forall>a. a \<notin> set (d # xs @ x # s # y # zs @ [z]) \<longrightarrow> m' a = m a)"
  using assms  clist_empty_iff [OF assms(2)]
  by (clarsimp simp: st_list_join_def list_op_defs clist_def lseg_upd)
    (auto intro!: lseg_upd [THEN iffD2])

lemma list_join_clist:
  assumes "clist m d xs" and "clist m s ys" and "set (d # xs) \<inter> set (s # ys) = {}"
  shows "\<exists>m'. st_list_join m d s = Some m' \<and> clist m' d (xs @ ys) \<and> clist m' s [] \<and>
    (\<forall>a. a \<notin> set (d # xs @ s # ys) \<longrightarrow> m' a = m a)"
proof (cases ys)
  case Nil
  then show ?thesis using assms clist_empty_iff [OF assms(2)] by (auto simp: st_list_join_def)
next
  case ys: (Cons y zs)
  show ?thesis
  proof (cases xs rule: rev_cases; cases zs rule: rev_cases)
    assume "xs = []" "zs = []"
    with ys show ?thesis using join_nil_single [of m d s y] assms by simp
  next
    fix zs' z assume "xs = []" "zs = zs' @ [z]"
    with ys show ?thesis using join_nil_many [of m d s y zs' z] assms by simp
  next
    fix xs' x assume "xs = xs' @ [x]" "zs = []"
    with ys show ?thesis using join_many_single [of m d xs' x s y] assms by simp
  next
    fix xs' x zs' z assume "xs = xs' @ [x]" "zs = zs' @ [z]"
    with ys show ?thesis using join_many_many [of m d xs' x s y zs' z] assms by simp
  qed
qed

section \<open>The queue interface\<close>

text \<open>
  The collector, the slab groups and the page pool use the lists as queues: they append at the
  end, take from the front and rely on every other queue of the same store staying as it is.
  \<open>intrusive_queue\<close> is that contract; \<open>enq_all\<close> and \<open>deq_n\<close> are the clients that fill and
  drain a queue.
\<close>

fun enq_all :: "('m \<Rightarrow> addr \<Rightarrow> addr \<Rightarrow> 'm option) \<Rightarrow> 'm \<Rightarrow> addr \<Rightarrow> addr list \<Rightarrow> 'm option" where
  "enq_all ins m h [] = Some m"
| "enq_all ins m h (n # ns) = do { m \<leftarrow> ins m h n; enq_all ins m h ns }"

fun deq_n :: "('m \<Rightarrow> addr \<Rightarrow> (addr \<times> 'm) option) \<Rightarrow> 'm \<Rightarrow> addr \<Rightarrow> nat \<Rightarrow> (addr list \<times> 'm) option" where
  "deq_n pop m h 0 = Some ([], m)"
| "deq_n pop m h (Suc k) = do {
     (x, m) \<leftarrow> pop m h;
     (xs, m) \<leftarrow> deq_n pop m h k;
     Some (x # xs, m)
   }"

locale intrusive_queue =
  fixes rep :: "'m \<Rightarrow> addr \<Rightarrow> addr list \<Rightarrow> bool"
    and insert_last :: "'m \<Rightarrow> addr \<Rightarrow> addr \<Rightarrow> 'm option"
    and pop_first :: "'m \<Rightarrow> addr \<Rightarrow> (addr \<times> 'm) option"
  assumes rep_distinct: "rep m h xs \<Longrightarrow> distinct (h # xs) \<and> NULL \<notin> set (h # xs)"
    and insert_last: "rep m h xs \<Longrightarrow> n \<notin> set (h # xs) \<Longrightarrow> n \<noteq> NULL \<Longrightarrow>
      \<exists>m'. insert_last m h n = Some m' \<and> rep m' h (xs @ [n]) \<and>
        (\<forall>g ys. rep m g ys \<longrightarrow> set (g # ys) \<inter> set (h # n # xs) = {} \<longrightarrow> rep m' g ys)"
    and pop_first_nil: "rep m h [] \<Longrightarrow> pop_first m h = Some (NULL, m)"
    and pop_first_cons: "rep m h (x # xs) \<Longrightarrow>
      \<exists>m'. pop_first m h = Some (x, m') \<and> rep m' h xs \<and>
        (\<forall>g ys. rep m g ys \<longrightarrow> set (g # ys) \<inter> set (h # x # xs) = {} \<longrightarrow> rep m' g ys)"
begin

lemma enq_all_rep:
  "rep m h xs \<Longrightarrow> distinct (h # xs @ ns) \<Longrightarrow> NULL \<notin> set ns \<Longrightarrow>
    \<exists>m'. enq_all insert_last m h ns = Some m' \<and> rep m' h (xs @ ns)"
proof (induction ns arbitrary: m xs)
  case Nil
  then show ?case by simp
next
  case (Cons n ns)
  then obtain m1 where "insert_last m h n = Some m1" "rep m1 h (xs @ [n])"
    using insert_last [of m h xs n] by auto
  with Cons.IH [of m1 "xs @ [n]"] Cons.prems show ?case by simp
qed

lemma deq_n_rep:
  "rep m h (xs @ ys) \<Longrightarrow> \<exists>m'. deq_n pop_first m h (length xs) = Some (xs, m') \<and> rep m' h ys"
proof (induction xs arbitrary: m)
  case Nil
  then show ?case by simp
next
  case (Cons x xs)
  then obtain m1 where "pop_first m h = Some (x, m1)" "rep m1 h (xs @ ys)"
    using pop_first_cons [of m h x "xs @ ys"] by auto
  with Cons.IH [of m1] show ?case by auto
qed

lemma fifo:
  assumes "rep m h xs" and "distinct (h # xs @ ns)" and "NULL \<notin> set ns"
  shows "\<exists>m' m''. enq_all insert_last m h ns = Some m' \<and>
    deq_n pop_first m' h (length xs + length ns) = Some (xs @ ns, m'') \<and>
    pop_first m'' h = Some (NULL, m'')"
proof -
  obtain m' where m': "enq_all insert_last m h ns = Some m'" "rep m' h ((xs @ ns) @ [])"
    using enq_all_rep [OF assms] by auto
  then obtain m'' where "deq_n pop_first m' h (length (xs @ ns)) = Some (xs @ ns, m'')" "rep m'' h []"
    using deq_n_rep by blast
  with m' pop_first_nil show ?thesis by auto
qed

end

interpretation lq: intrusive_queue clist st_list_insert_last st_list_pop_first
proof unfold_locales
  fix m h xs assume "clist m h xs"
  then show "distinct (h # xs) \<and> NULL \<notin> set (h # xs)" by (simp add: clist_def)
next
  fix m h xs n assume "clist m h xs" "n \<notin> set (h # xs)" "n \<noteq> NULL"
  then obtain m' where "st_list_insert_last m h n = Some m'" "clist m' h (xs @ [n])"
    "\<forall>a. a \<notin> set (h # n # xs) \<longrightarrow> m' a = m a"
    using list_insert_last_clist by blast
  then show "\<exists>m'. st_list_insert_last m h n = Some m' \<and> clist m' h (xs @ [n]) \<and>
      (\<forall>g ys. clist m g ys \<longrightarrow> set (g # ys) \<inter> set (h # n # xs) = {} \<longrightarrow> clist m' g ys)"
    by (blast intro: clist_frame)
next
  fix m h assume "clist m h []"
  then show "st_list_pop_first m h = Some (NULL, m)" using list_pop_first_clist by blast
next
  fix m h x xs assume "clist m h (x # xs)"
  then obtain m' where "st_list_pop_first m h = Some (x, m')" "clist m' h xs"
    "\<forall>a. a \<notin> set (h # x # xs) \<longrightarrow> m' a = m a"
    using list_pop_first_clist [of m h "x # xs"] by blast
  then show "\<exists>m'. st_list_pop_first m h = Some (x, m') \<and> clist m' h xs \<and>
      (\<forall>g ys. clist m g ys \<longrightarrow> set (g # ys) \<inter> set (h # x # xs) = {} \<longrightarrow> clist m' g ys)"
    by (blast intro: clist_frame)
qed

section \<open>Properties\<close>

text \<open>A store with one empty circle, for the examples.\<close>

definition one_head :: "addr \<Rightarrow> lmem" where
  "one_head h = (\<lambda>_. \<lparr>l_prev = NULL, l_next = NULL\<rparr>)(h := \<lparr>l_prev = h, l_next = h\<rparr>)"

lemma clist_one_head: "h \<noteq> NULL \<Longrightarrow> clist (one_head h) h []"
  by (simp add: clist_def one_head_def)

text \<open>C27: nodes appended one after the other to a list come out of \<^verbatim>\<open>st_list_pop_first\<close> in the order
  they were appended, behind the nodes that were already there, and the list is then empty.\<close>

theorem list_fifo:
  assumes "clist m h xs" and "distinct (h # xs @ ns)" and "NULL \<notin> set ns"
  shows "\<exists>m' m''. enq_all st_list_insert_last m h ns = Some m' \<and>
    deq_n st_list_pop_first m' h (length xs + length ns) = Some (xs @ ns, m'') \<and>
    st_list_pop_first m'' h = Some (NULL, m'')"
  using assms by (rule lq.fifo)

theorem list_fifo_witness:
  "\<exists>m' m''. enq_all st_list_insert_last (one_head 10) 10 [20, 30, 40] = Some m' \<and>
    deq_n st_list_pop_first m' 10 3 = Some ([20, 30, 40], m'')"
  using list_fifo [OF clist_one_head [of 10], of "[20, 30, 40]"] by (auto simp: numeral_3_eq_3)

text \<open>a node is taken out of any position of a list: the rest of the list stays in order, the
  node is marked as being in no list (both pointers are \<^verbatim>\<open>NULL\<close>), and no address outside the list is
  written.\<close>

theorem list_remove_correct:
  assumes "clist m h (xs @ n # ys)"
  shows "\<exists>m'. st_list_remove m n = Some m' \<and> clist m' h (xs @ ys) \<and>
    \<not> st_list_is_inited m' n \<and> (\<forall>x \<in> set (h # xs @ ys). st_list_is_inited m' x) \<and>
    (\<forall>a. a \<notin> set (h # xs @ n # ys) \<longrightarrow> m' a = m a)"
proof -
  obtain m' where m': "st_list_remove m n = Some m'" "clist m' h (xs @ ys)"
    "m' n = \<lparr>l_prev = NULL, l_next = NULL\<rparr>" "\<forall>a. a \<notin> set (h # xs @ n # ys) \<longrightarrow> m' a = m a"
    using list_remove_clist [OF assms] by blast
  moreover have "\<not> st_list_is_inited m' n" using m'(3) by (simp add: st_list_is_inited_def)
  ultimately show ?thesis using clist_is_inited [OF m'(2)] by blast
qed

theorem list_remove_correct_witness:
  "\<exists>m m'. st_list_insert_last (one_head 10) 10 20 = Some m \<and> st_list_remove m 20 = Some m' \<and>
    clist m' 10 [] \<and> \<not> st_list_is_inited m' 20"
proof -
  obtain m where m: "st_list_insert_last (one_head 10) 10 20 = Some m" "clist m 10 ([] @ [20])"
    using list_insert_last_clist [OF clist_one_head [of 10], of 20] by auto
  then show ?thesis using list_remove_correct [OF m(2)] by auto
qed

text \<open>joining two disjoint lists moves all nodes of the second to the end of the first in one
  step, empties the second and writes nothing else.\<close>

theorem list_join_correct:
  assumes "clist m d xs" and "clist m s ys" and "set (d # xs) \<inter> set (s # ys) = {}"
  shows "\<exists>m'. st_list_join m d s = Some m' \<and> clist m' d (xs @ ys) \<and> clist m' s [] \<and>
    (\<forall>a. a \<notin> set (d # xs @ s # ys) \<longrightarrow> m' a = m a)"
  using assms by (rule list_join_clist)

theorem list_join_correct_witness:
  "\<exists>m m'. clist m 10 [20] \<and> clist m 11 [] \<and> st_list_join m 11 10 = Some m' \<and> clist m' 11 [20] \<and> clist m' 10 []"
proof -
  obtain m0 where m0: "st_list_init (one_head 10) 11 = Some m0" "clist m0 11 []" "\<forall>a. a \<noteq> 11 \<longrightarrow> m0 a = one_head 10 a"
    using list_init_clist [of 11 "one_head 10"] by auto
  have "clist m0 10 []" by (rule clist_frame [OF clist_one_head]) (use m0 in auto)
  then obtain m where m: "clist m 10 [20]" "\<forall>a. a \<notin> {10, 20} \<longrightarrow> m a = m0 a"
    using list_insert_last_clist [of m0 10 "[]" 20] by auto
  have "clist m 11 []" by (rule clist_frame [OF m0(2)]) (use m in auto)
  then show ?thesis using m(1) list_join_correct [of m 11 "[]" 10 "[20]"] by auto
qed

end
