(* ===== verification/Rbtree.thy ===== *)
theory Rbtree
  imports Prelude
begin

text \<open>
  \<^verbatim>\<open>src/rbtree/rbtree.h\<close> and \<^verbatim>\<open>src/rbtree/rbtree.c\<close>: red-black trees with parent pointers and a
  sentinel, the nodes embedded in their owners.  This theory holds the translation of every
  function of the module; the theories \<open>Rbtree_Repr\<close>, \<open>Rbtree_Insert\<close>, \<open>Rbtree_Delete\<close> and
  \<open>Rbtree_Search\<close> prove it correct.

  The store maps the address of a node to its three pointers and its colour (the colour byte is
  only ever 0 or 1 and is a truth value here).  A tree is its root pointer and the address of
  its sentinel.  The comparison function of the tree reads the owners of the nodes, not the
  nodes, so it is a parameter \<open>cmp\<close> on addresses.  Operations return the new root and the new
  store; \<open>None\<close> means that the C code dereferences \<^verbatim>\<open>NULL\<close>, reads an array out of bounds or
  does not terminate.
\<close>

section \<open>Data\<close>

record rbnode =
  rb_left :: addr
  rb_parent :: addr
  rb_right :: addr
  rb_red :: bool

type_synonym rbmem = "addr \<Rightarrow> rbnode"

record st_rbtree =
  rt_root :: addr
  rt_sentinel :: addr

definition st_rbtree_node_empty :: rbnode where
  "st_rbtree_node_empty = \<lparr>rb_left = NULL, rb_parent = NULL, rb_right = NULL, rb_red = False\<rparr>"

section \<open>Fields\<close>

definition get_left :: "rbmem \<Rightarrow> addr \<Rightarrow> addr option" where
  "get_left m a = do { n \<leftarrow> deref m a; Some (rb_left n) }"

definition get_right :: "rbmem \<Rightarrow> addr \<Rightarrow> addr option" where
  "get_right m a = do { n \<leftarrow> deref m a; Some (rb_right n) }"

definition get_parent :: "rbmem \<Rightarrow> addr \<Rightarrow> addr option" where
  "get_parent m a = do { n \<leftarrow> deref m a; Some (rb_parent n) }"

definition set_left :: "rbmem \<Rightarrow> addr \<Rightarrow> addr \<Rightarrow> rbmem option" where
  "set_left m a v = upd m a (\<lambda>n. n\<lparr>rb_left := v\<rparr>)"

definition set_right :: "rbmem \<Rightarrow> addr \<Rightarrow> addr \<Rightarrow> rbmem option" where
  "set_right m a v = upd m a (\<lambda>n. n\<lparr>rb_right := v\<rparr>)"

definition set_parent :: "rbmem \<Rightarrow> addr \<Rightarrow> addr \<Rightarrow> rbmem option" where
  "set_parent m a v = upd m a (\<lambda>n. n\<lparr>rb_parent := v\<rparr>)"

definition st_rbtree_red :: "rbmem \<Rightarrow> addr \<Rightarrow> rbmem option" where
  "st_rbtree_red m a = upd m a (\<lambda>n. n\<lparr>rb_red := True\<rparr>)"

definition st_rbtree_black :: "rbmem \<Rightarrow> addr \<Rightarrow> rbmem option" where
  "st_rbtree_black m a = upd m a (\<lambda>n. n\<lparr>rb_red := False\<rparr>)"

definition st_rbtree_copy_color :: "rbmem \<Rightarrow> addr \<Rightarrow> addr \<Rightarrow> rbmem option" where
  "st_rbtree_copy_color m n1 n2 = do {
     n \<leftarrow> deref m n2;
     upd m n1 (\<lambda>k. k\<lparr>rb_red := rb_red n\<rparr>)
   }"

definition st_rbtree_is_empty :: "st_rbtree \<Rightarrow> bool" where
  "st_rbtree_is_empty tree \<longleftrightarrow> rt_root tree = rt_sentinel tree"

definition st_rbtree_is_red :: "rbmem \<Rightarrow> addr \<Rightarrow> bool option" where
  "st_rbtree_is_red m a = do { n \<leftarrow> deref m a; Some (rb_red n) }"

definition st_rbtree_is_black :: "rbmem \<Rightarrow> addr \<Rightarrow> bool option" where
  "st_rbtree_is_black m a = do { r \<leftarrow> st_rbtree_is_red m a; Some (\<not> r) }"

definition st_rbtree_is_left_child :: "rbmem \<Rightarrow> addr \<Rightarrow> bool option" where
  "st_rbtree_is_left_child m node = do {
     p \<leftarrow> get_parent m node;
     l \<leftarrow> get_left m p;
     Some (node = l)
   }"

definition st_rbtree_is_right_child :: "rbmem \<Rightarrow> addr \<Rightarrow> bool option" where
  "st_rbtree_is_right_child m node = do {
     p \<leftarrow> get_parent m node;
     r \<leftarrow> get_right m p;
     Some (node = r)
   }"

definition st_rbtree_node_is_inited :: "rbmem \<Rightarrow> addr \<Rightarrow> bool option" where
  "st_rbtree_node_is_inited m node = do {
     n \<leftarrow> deref m node;
     Some (\<not> (rb_parent n = NULL \<and> rb_right n = NULL \<and> rb_left n = NULL))
   }"

section \<open>Creation and the ends\<close>

text \<open>
  \<^verbatim>\<open>st_rbtree_init\<close> clears the structure, so the sentinel starts as an all-zero node; the two
  flags say whether the tree and the comparison function are given.
\<close>

definition st_rbtree_init ::
    "bool \<Rightarrow> bool \<Rightarrow> st_rbtree \<Rightarrow> rbmem \<Rightarrow> (st_error \<times> st_rbtree \<times> rbmem) option" where
  "st_rbtree_init tree_ok cmp_ok tree m =
    (if \<not> tree_ok then Some (ST_ARG_INVALID, tree, m)
     else if \<not> cmp_ok then Some (ST_ARG_INVALID, tree, m)
     else do {
       m \<leftarrow> upd m (rt_sentinel tree) (\<lambda>_. st_rbtree_node_empty);
       m \<leftarrow> st_rbtree_black m (rt_sentinel tree);
       Some (ST_OK, tree\<lparr>rt_root := rt_sentinel tree\<rparr>, m)
     })"

partial_function (option) get_left_most :: "addr \<Rightarrow> rbmem \<Rightarrow> addr \<Rightarrow> addr option" where
  "get_left_most s m node =
    Option.bind (get_left m node) (\<lambda>l. if l \<noteq> s then get_left_most s m l else Some node)"

partial_function (option) get_right_most :: "addr \<Rightarrow> rbmem \<Rightarrow> addr \<Rightarrow> addr option" where
  "get_right_most s m node =
    Option.bind (get_right m node) (\<lambda>r. if r \<noteq> s then get_right_most s m r else Some node)"

definition st_rbtree_left_most :: "st_rbtree \<Rightarrow> rbmem \<Rightarrow> addr option" where
  "st_rbtree_left_most tree m =
    (if rt_root tree = rt_sentinel tree then Some NULL
     else get_left_most (rt_sentinel tree) m (rt_root tree))"

definition st_rbtree_right_most :: "st_rbtree \<Rightarrow> rbmem \<Rightarrow> addr option" where
  "st_rbtree_right_most tree m =
    (if rt_root tree = rt_sentinel tree then Some NULL
     else get_right_most (rt_sentinel tree) m (rt_root tree))"

section \<open>Rotation\<close>

definition st_rbtree_left_rotate ::
    "addr \<Rightarrow> addr \<Rightarrow> rbmem \<Rightarrow> addr \<Rightarrow> (addr \<times> rbmem) option" where
  "st_rbtree_left_rotate root s m node = do {
     child \<leftarrow> get_right m node;
     cl \<leftarrow> get_left m child;
     m \<leftarrow> set_right m node cl;
     cl \<leftarrow> get_left m child;
     m \<leftarrow> (if cl \<noteq> s then set_parent m cl node else Some m);
     np \<leftarrow> get_parent m node;
     m \<leftarrow> set_parent m child np;
     (root, m) \<leftarrow>
       (if node = root then Some (child, m)
        else do {
          b \<leftarrow> st_rbtree_is_left_child m node;
          if b then do { p \<leftarrow> get_parent m node; m \<leftarrow> set_left m p child; Some (root, m) }
          else do { p \<leftarrow> get_parent m node; m \<leftarrow> set_right m p child; Some (root, m) }
        });
     m \<leftarrow> set_left m child node;
     m \<leftarrow> set_parent m node child;
     Some (root, m)
   }"

definition st_rbtree_right_rotate ::
    "addr \<Rightarrow> addr \<Rightarrow> rbmem \<Rightarrow> addr \<Rightarrow> (addr \<times> rbmem) option" where
  "st_rbtree_right_rotate root s m node = do {
     child \<leftarrow> get_left m node;
     cr \<leftarrow> get_right m child;
     m \<leftarrow> set_left m node cr;
     cr \<leftarrow> get_right m child;
     m \<leftarrow> (if cr \<noteq> s then set_parent m cr node else Some m);
     np \<leftarrow> get_parent m node;
     m \<leftarrow> set_parent m child np;
     (root, m) \<leftarrow>
       (if node = root then Some (child, m)
        else do {
          b \<leftarrow> st_rbtree_is_right_child m node;
          if b then do { p \<leftarrow> get_parent m node; m \<leftarrow> set_right m p child; Some (root, m) }
          else do { p \<leftarrow> get_parent m node; m \<leftarrow> set_left m p child; Some (root, m) }
        });
     m \<leftarrow> set_right m child node;
     m \<leftarrow> set_parent m node child;
     Some (root, m)
   }"

section \<open>Insertion\<close>

text \<open>
  The search loop of \<^verbatim>\<open>insert_node\<close>.  The C variable \<^verbatim>\<open>p\<close> points to a child field of
  \<^verbatim>\<open>curr\<close>; the model returns \<^verbatim>\<open>curr\<close> and the side.  \<open>Inl\<close> is the early return with
  \<^verbatim>\<open>ST_EXISTED\<close> and the existing node.
\<close>

datatype side = Left_side | Right_side

definition get_side :: "rbmem \<Rightarrow> addr \<Rightarrow> side \<Rightarrow> addr option" where
  "get_side m a sd = (case sd of Left_side \<Rightarrow> get_left m a | Right_side \<Rightarrow> get_right m a)"

definition set_side :: "rbmem \<Rightarrow> addr \<Rightarrow> side \<Rightarrow> addr \<Rightarrow> rbmem option" where
  "set_side m a sd v = (case sd of Left_side \<Rightarrow> set_left m a v | Right_side \<Rightarrow> set_right m a v)"

partial_function (option) insert_descend ::
    "(addr \<Rightarrow> addr \<Rightarrow> int) \<Rightarrow> addr \<Rightarrow> rbmem \<Rightarrow> addr \<Rightarrow> bool \<Rightarrow> addr \<Rightarrow> addr
      \<Rightarrow> (addr + (addr \<times> side \<times> addr)) option" where
  "insert_descend cmp s m node allow_equal cur existed =
    (if cmp node cur = 0 \<and> \<not> allow_equal then Some (Inl cur)
     else
       let existed = (if cmp node cur = 0 then cur else existed);
           sd = (if cmp node cur < 0 then Left_side else Right_side)
       in Option.bind (get_side m cur sd) (\<lambda>nxt.
            if nxt = s then Some (Inr (cur, sd, existed))
            else insert_descend cmp s m node allow_equal nxt existed))"

record insert_result =
  ir_ret :: st_error
  ir_need_rebalance :: bool
  ir_root :: addr
  ir_mem :: rbmem
  ir_existed :: addr

definition insert_node ::
    "(addr \<Rightarrow> addr \<Rightarrow> int) \<Rightarrow> addr \<Rightarrow> addr \<Rightarrow> rbmem \<Rightarrow> addr \<Rightarrow> bool \<Rightarrow> insert_result option" where
  "insert_node cmp root s m node allow_equal =
    (if root = s then do {
       m \<leftarrow> set_parent m node NULL;
       m \<leftarrow> set_left m node s;
       m \<leftarrow> set_right m node s;
       m \<leftarrow> st_rbtree_black m node;
       Some \<lparr>ir_ret = ST_OK, ir_need_rebalance = False, ir_root = node, ir_mem = m, ir_existed = NULL\<rparr>
     }
     else do {
       r \<leftarrow> insert_descend cmp s m node allow_equal root NULL;
       (case r of
          Inl e \<Rightarrow> Some \<lparr>ir_ret = ST_EXISTED, ir_need_rebalance = False, ir_root = root,
                       ir_mem = m, ir_existed = e\<rparr>
        | Inr (cur, sd, e) \<Rightarrow> do {
            m \<leftarrow> set_side m cur sd node;
            m \<leftarrow> set_parent m node cur;
            m \<leftarrow> set_left m node s;
            m \<leftarrow> set_right m node s;
            m \<leftarrow> st_rbtree_red m node;
            Some \<lparr>ir_ret = ST_OK, ir_need_rebalance = True, ir_root = root, ir_mem = m, ir_existed = e\<rparr>
          })
     })"

text \<open>One turn of the rebalancing loop of \<^verbatim>\<open>st_rbtree_insert\<close>.\<close>

definition insert_fixup_left ::
    "addr \<Rightarrow> addr \<Rightarrow> rbmem \<Rightarrow> addr \<Rightarrow> (addr \<times> rbmem \<times> addr) option" where
  "insert_fixup_left root s m node = do {
     p \<leftarrow> get_parent m node;
     g \<leftarrow> get_parent m p;
     uncle \<leftarrow> get_right m g;
     ur \<leftarrow> st_rbtree_is_red m uncle;
     if ur then do {
       m \<leftarrow> st_rbtree_black m p;
       m \<leftarrow> st_rbtree_black m uncle;
       p \<leftarrow> get_parent m node;
       g \<leftarrow> get_parent m p;
       m \<leftarrow> st_rbtree_red m g;
       p \<leftarrow> get_parent m node;
       g \<leftarrow> get_parent m p;
       Some (root, m, g)
     }
     else do {
       b \<leftarrow> st_rbtree_is_right_child m node;
       (root, m, node) \<leftarrow>
         (if b then do {
            p \<leftarrow> get_parent m node;
            (root, m) \<leftarrow> st_rbtree_left_rotate root s m p;
            Some (root, m, p)
          }
          else Some (root, m, node));
       p \<leftarrow> get_parent m node;
       m \<leftarrow> st_rbtree_black m p;
       p \<leftarrow> get_parent m node;
       g \<leftarrow> get_parent m p;
       m \<leftarrow> st_rbtree_red m g;
       p \<leftarrow> get_parent m node;
       g \<leftarrow> get_parent m p;
       (root, m) \<leftarrow> st_rbtree_right_rotate root s m g;
       Some (root, m, node)
     }
   }"

definition insert_fixup_right ::
    "addr \<Rightarrow> addr \<Rightarrow> rbmem \<Rightarrow> addr \<Rightarrow> (addr \<times> rbmem \<times> addr) option" where
  "insert_fixup_right root s m node = do {
     p \<leftarrow> get_parent m node;
     g \<leftarrow> get_parent m p;
     uncle \<leftarrow> get_left m g;
     ur \<leftarrow> st_rbtree_is_red m uncle;
     if ur then do {
       m \<leftarrow> st_rbtree_black m p;
       m \<leftarrow> st_rbtree_black m uncle;
       p \<leftarrow> get_parent m node;
       g \<leftarrow> get_parent m p;
       m \<leftarrow> st_rbtree_red m g;
       p \<leftarrow> get_parent m node;
       g \<leftarrow> get_parent m p;
       Some (root, m, g)
     }
     else do {
       b \<leftarrow> st_rbtree_is_left_child m node;
       (root, m, node) \<leftarrow>
         (if b then do {
            p \<leftarrow> get_parent m node;
            (root, m) \<leftarrow> st_rbtree_right_rotate root s m p;
            Some (root, m, p)
          }
          else Some (root, m, node));
       p \<leftarrow> get_parent m node;
       m \<leftarrow> st_rbtree_black m p;
       p \<leftarrow> get_parent m node;
       g \<leftarrow> get_parent m p;
       m \<leftarrow> st_rbtree_red m g;
       p \<leftarrow> get_parent m node;
       g \<leftarrow> get_parent m p;
       (root, m) \<leftarrow> st_rbtree_left_rotate root s m g;
       Some (root, m, node)
     }
   }"

definition insert_fixup_step ::
    "addr \<Rightarrow> addr \<Rightarrow> rbmem \<Rightarrow> addr \<Rightarrow> (addr \<times> rbmem \<times> addr) option" where
  "insert_fixup_step root s m node = do {
     p \<leftarrow> get_parent m node;
     b \<leftarrow> st_rbtree_is_left_child m p;
     if b then insert_fixup_left root s m node else insert_fixup_right root s m node
   }"

partial_function (option) insert_fixup ::
    "addr \<Rightarrow> addr \<Rightarrow> rbmem \<Rightarrow> addr \<Rightarrow> (addr \<times> rbmem) option" where
  "insert_fixup root s m node =
    (if node = root then Some (root, m)
     else Option.bind (get_parent m node) (\<lambda>p.
       Option.bind (st_rbtree_is_red m p) (\<lambda>red.
         if \<not> red then Some (root, m)
         else Option.bind (insert_fixup_step root s m node) (\<lambda>(root, m, node).
           insert_fixup root s m node))))"

text \<open>\<^verbatim>\<open>st_rbtree_insert\<close>: the result code, the tree, the store and \<^verbatim>\<open>*existed_node\<close>.\<close>

definition st_rbtree_insert ::
    "(addr \<Rightarrow> addr \<Rightarrow> int) \<Rightarrow> st_rbtree \<Rightarrow> rbmem \<Rightarrow> addr \<Rightarrow> int
      \<Rightarrow> (st_error \<times> st_rbtree \<times> rbmem \<times> addr) option" where
  "st_rbtree_insert cmp tree m node allow_equal =
    (if node = NULL then Some (ST_ARG_INVALID, tree, m, NULL)
     else if \<not> (allow_equal = 0 \<or> allow_equal = 1) then Some (ST_ARG_INVALID, tree, m, NULL)
     else do {
       let s = rt_sentinel tree;
       r \<leftarrow> insert_node cmp (rt_root tree) s m node (allow_equal = 1);
       if ir_ret r \<noteq> ST_OK \<or> \<not> ir_need_rebalance r
       then Some (ir_ret r, tree\<lparr>rt_root := ir_root r\<rparr>, ir_mem r, ir_existed r)
       else do {
         (root, m) \<leftarrow> insert_fixup (ir_root r) s (ir_mem r) node;
         m \<leftarrow> st_rbtree_black m root;
         Some (ST_OK, tree\<lparr>rt_root := root\<rparr>, m, ir_existed r)
       }
     })"

section \<open>Deletion\<close>

text \<open>
  \<^verbatim>\<open>delete_node\<close> returns the node where rebalancing starts, \<^verbatim>\<open>NULL\<close> when none is needed,
  with the root and the store.
\<close>

definition delete_pick :: "addr \<Rightarrow> rbmem \<Rightarrow> addr \<Rightarrow> (addr \<times> addr) option" where
  "delete_pick s m node = do {
     l \<leftarrow> get_left m node;
     if l = s then do { child \<leftarrow> get_right m node; Some (node, child) }
     else do {
       r \<leftarrow> get_right m node;
       if r = s then do { child \<leftarrow> get_left m node; Some (node, child) }
       else do {
         successor \<leftarrow> get_left_most s m r;
         child \<leftarrow> get_right m successor;
         Some (successor, child)
       }
     }
   }"

definition clear_links :: "rbmem \<Rightarrow> addr \<Rightarrow> rbmem option" where
  "clear_links m node = do {
     m \<leftarrow> set_left m node NULL;
     m \<leftarrow> set_right m node NULL;
     set_parent m node NULL
   }"

definition set_child_link :: "rbmem \<Rightarrow> addr \<Rightarrow> addr \<Rightarrow> rbmem option" where
  "set_child_link m node child = do {
     b \<leftarrow> st_rbtree_is_left_child m node;
     p \<leftarrow> get_parent m node;
     if b then set_left m p child else set_right m p child
   }"

definition delete_move ::
    "addr \<Rightarrow> addr \<Rightarrow> rbmem \<Rightarrow> addr \<Rightarrow> addr \<Rightarrow> (addr \<times> rbmem) option" where
  "delete_move root s m node successor = do {
     l \<leftarrow> get_left m node;
     m \<leftarrow> set_left m successor l;
     r \<leftarrow> get_right m node;
     m \<leftarrow> set_right m successor r;
     p \<leftarrow> get_parent m node;
     m \<leftarrow> set_parent m successor p;
     m \<leftarrow> st_rbtree_copy_color m successor node;
     (root, m) \<leftarrow>
       (if node = root then Some (successor, m)
        else do { m \<leftarrow> set_child_link m node successor; Some (root, m) });
     l \<leftarrow> get_left m successor;
     m \<leftarrow> (if l \<noteq> s then set_parent m l successor else Some m);
     r \<leftarrow> get_right m successor;
     m \<leftarrow> (if r \<noteq> s then set_parent m r successor else Some m);
     Some (root, m)
   }"

definition delete_node ::
    "addr \<Rightarrow> addr \<Rightarrow> rbmem \<Rightarrow> addr \<Rightarrow> (addr \<times> rbmem \<times> addr) option" where
  "delete_node root s m node = do {
     (successor, child) \<leftarrow> delete_pick s m node;
     if successor = root then do {
       m \<leftarrow> st_rbtree_black m child;
       m \<leftarrow> clear_links m node;
       Some (child, m, NULL)
     }
     else do {
       red \<leftarrow> st_rbtree_is_red m successor;
       m \<leftarrow> set_child_link m successor child;
       (root, m) \<leftarrow>
         (if successor = node then do {
            sp \<leftarrow> get_parent m successor;
            m \<leftarrow> set_parent m child sp;
            Some (root, m)
          }
          else do {
            sp \<leftarrow> get_parent m successor;
            m \<leftarrow> (if sp = node then set_parent m child successor else set_parent m child sp);
            delete_move root s m node successor
          });
       m \<leftarrow> clear_links m node;
       Some (root, m, if red then NULL else child)
     }
   }"

text \<open>
  One turn of the rebalancing loop of \<^verbatim>\<open>st_rbtree_delete\<close>, for a node that is a left child and
  for a node that is a right child: a red brother is rotated away; then either the brother is
  painted red and the loop moves up, or the far nephew is made red and a last rotation ends it.
\<close>

definition delete_left_red_brother ::
    "addr \<Rightarrow> addr \<Rightarrow> rbmem \<Rightarrow> addr \<Rightarrow> (addr \<times> rbmem \<times> addr) option" where
  "delete_left_red_brother root s m rebalance = do {
     p \<leftarrow> get_parent m rebalance;
     brother \<leftarrow> get_right m p;
     br \<leftarrow> st_rbtree_is_red m brother;
     if br then do {
       m \<leftarrow> st_rbtree_black m brother;
       p \<leftarrow> get_parent m rebalance;
       m \<leftarrow> st_rbtree_red m p;
       p \<leftarrow> get_parent m rebalance;
       (root, m) \<leftarrow> st_rbtree_left_rotate root s m p;
       p \<leftarrow> get_parent m rebalance;
       brother \<leftarrow> get_right m p;
       Some (root, m, brother)
     }
     else Some (root, m, brother)
   }"

definition delete_left_near_nephew ::
    "addr \<Rightarrow> addr \<Rightarrow> rbmem \<Rightarrow> addr \<Rightarrow> addr \<Rightarrow> (addr \<times> rbmem \<times> addr) option" where
  "delete_left_near_nephew root s m rebalance brother = do {
     far \<leftarrow> get_right m brother;
     fb \<leftarrow> st_rbtree_is_black m far;
     if fb then do {
       near \<leftarrow> get_left m brother;
       m \<leftarrow> st_rbtree_black m near;
       m \<leftarrow> st_rbtree_red m brother;
       (root, m) \<leftarrow> st_rbtree_right_rotate root s m brother;
       p \<leftarrow> get_parent m rebalance;
       brother \<leftarrow> get_right m p;
       Some (root, m, brother)
     }
     else Some (root, m, brother)
   }"

definition delete_left_final ::
    "addr \<Rightarrow> addr \<Rightarrow> rbmem \<Rightarrow> addr \<Rightarrow> addr \<Rightarrow> (addr \<times> rbmem \<times> addr) option" where
  "delete_left_final root s m rebalance brother = do {
     p \<leftarrow> get_parent m rebalance;
     m \<leftarrow> st_rbtree_copy_color m brother p;
     p \<leftarrow> get_parent m rebalance;
     m \<leftarrow> st_rbtree_black m p;
     far \<leftarrow> get_right m brother;
     m \<leftarrow> st_rbtree_black m far;
     p \<leftarrow> get_parent m rebalance;
     (root, m) \<leftarrow> st_rbtree_left_rotate root s m p;
     Some (root, m, root)
   }"

definition delete_left_rest ::
    "addr \<Rightarrow> addr \<Rightarrow> rbmem \<Rightarrow> addr \<Rightarrow> addr \<Rightarrow> (addr \<times> rbmem \<times> addr) option" where
  "delete_left_rest root s m rebalance brother = do {
     bl \<leftarrow> get_left m brother;
     lb \<leftarrow> st_rbtree_is_black m bl;
     br \<leftarrow> get_right m brother;
     rb \<leftarrow> st_rbtree_is_black m br;
     if lb \<and> rb then do {
       m \<leftarrow> st_rbtree_red m brother;
       p \<leftarrow> get_parent m rebalance;
       Some (root, m, p)
     }
     else do {
       (root, m, brother) \<leftarrow> delete_left_near_nephew root s m rebalance brother;
       delete_left_final root s m rebalance brother
     }
   }"

definition delete_fixup_left ::
    "addr \<Rightarrow> addr \<Rightarrow> rbmem \<Rightarrow> addr \<Rightarrow> (addr \<times> rbmem \<times> addr) option" where
  "delete_fixup_left root s m rebalance = do {
     (root, m, brother) \<leftarrow> delete_left_red_brother root s m rebalance;
     delete_left_rest root s m rebalance brother
   }"

definition delete_right_red_brother ::
    "addr \<Rightarrow> addr \<Rightarrow> rbmem \<Rightarrow> addr \<Rightarrow> (addr \<times> rbmem \<times> addr) option" where
  "delete_right_red_brother root s m rebalance = do {
     p \<leftarrow> get_parent m rebalance;
     brother \<leftarrow> get_left m p;
     br \<leftarrow> st_rbtree_is_red m brother;
     if br then do {
       m \<leftarrow> st_rbtree_black m brother;
       p \<leftarrow> get_parent m rebalance;
       m \<leftarrow> st_rbtree_red m p;
       p \<leftarrow> get_parent m rebalance;
       (root, m) \<leftarrow> st_rbtree_right_rotate root s m p;
       p \<leftarrow> get_parent m rebalance;
       brother \<leftarrow> get_left m p;
       Some (root, m, brother)
     }
     else Some (root, m, brother)
   }"

definition delete_right_near_nephew ::
    "addr \<Rightarrow> addr \<Rightarrow> rbmem \<Rightarrow> addr \<Rightarrow> addr \<Rightarrow> (addr \<times> rbmem \<times> addr) option" where
  "delete_right_near_nephew root s m rebalance brother = do {
     far \<leftarrow> get_left m brother;
     fb \<leftarrow> st_rbtree_is_black m far;
     if fb then do {
       near \<leftarrow> get_right m brother;
       m \<leftarrow> st_rbtree_black m near;
       m \<leftarrow> st_rbtree_red m brother;
       (root, m) \<leftarrow> st_rbtree_left_rotate root s m brother;
       p \<leftarrow> get_parent m rebalance;
       brother \<leftarrow> get_left m p;
       Some (root, m, brother)
     }
     else Some (root, m, brother)
   }"

definition delete_right_final ::
    "addr \<Rightarrow> addr \<Rightarrow> rbmem \<Rightarrow> addr \<Rightarrow> addr \<Rightarrow> (addr \<times> rbmem \<times> addr) option" where
  "delete_right_final root s m rebalance brother = do {
     p \<leftarrow> get_parent m rebalance;
     m \<leftarrow> st_rbtree_copy_color m brother p;
     p \<leftarrow> get_parent m rebalance;
     m \<leftarrow> st_rbtree_black m p;
     far \<leftarrow> get_left m brother;
     m \<leftarrow> st_rbtree_black m far;
     p \<leftarrow> get_parent m rebalance;
     (root, m) \<leftarrow> st_rbtree_right_rotate root s m p;
     Some (root, m, root)
   }"

definition delete_right_rest ::
    "addr \<Rightarrow> addr \<Rightarrow> rbmem \<Rightarrow> addr \<Rightarrow> addr \<Rightarrow> (addr \<times> rbmem \<times> addr) option" where
  "delete_right_rest root s m rebalance brother = do {
     bl \<leftarrow> get_left m brother;
     lb \<leftarrow> st_rbtree_is_black m bl;
     br \<leftarrow> get_right m brother;
     rb \<leftarrow> st_rbtree_is_black m br;
     if lb \<and> rb then do {
       m \<leftarrow> st_rbtree_red m brother;
       p \<leftarrow> get_parent m rebalance;
       Some (root, m, p)
     }
     else do {
       (root, m, brother) \<leftarrow> delete_right_near_nephew root s m rebalance brother;
       delete_right_final root s m rebalance brother
     }
   }"

definition delete_fixup_right ::
    "addr \<Rightarrow> addr \<Rightarrow> rbmem \<Rightarrow> addr \<Rightarrow> (addr \<times> rbmem \<times> addr) option" where
  "delete_fixup_right root s m rebalance = do {
     (root, m, brother) \<leftarrow> delete_right_red_brother root s m rebalance;
     delete_right_rest root s m rebalance brother
   }"

definition delete_fixup_step ::
    "addr \<Rightarrow> addr \<Rightarrow> rbmem \<Rightarrow> addr \<Rightarrow> (addr \<times> rbmem \<times> addr) option" where
  "delete_fixup_step root s m rebalance = do {
     b \<leftarrow> st_rbtree_is_left_child m rebalance;
     if b then delete_fixup_left root s m rebalance else delete_fixup_right root s m rebalance
   }"

partial_function (option) delete_fixup ::
    "addr \<Rightarrow> addr \<Rightarrow> rbmem \<Rightarrow> addr \<Rightarrow> (addr \<times> rbmem \<times> addr) option" where
  "delete_fixup root s m rebalance =
    (if rebalance = root then Some (root, m, rebalance)
     else Option.bind (st_rbtree_is_black m rebalance) (\<lambda>b.
       if \<not> b then Some (root, m, rebalance)
       else Option.bind (delete_fixup_step root s m rebalance) (\<lambda>(root, m, rebalance).
         delete_fixup root s m rebalance)))"

definition st_rbtree_delete ::
    "st_rbtree \<Rightarrow> rbmem \<Rightarrow> addr \<Rightarrow> (st_error \<times> st_rbtree \<times> rbmem) option" where
  "st_rbtree_delete tree m node =
    (if node = NULL then Some (ST_ARG_INVALID, tree, m)
     else do {
       let s = rt_sentinel tree;
       (root, m, rebalance) \<leftarrow> delete_node (rt_root tree) s m node;
       if rebalance = NULL then Some (ST_OK, tree\<lparr>rt_root := root\<rparr>, m)
       else do {
         (root, m, rebalance) \<leftarrow> delete_fixup root s m rebalance;
         m \<leftarrow> st_rbtree_black m rebalance;
         Some (ST_OK, tree\<lparr>rt_root := root\<rparr>, m)
       }
     })"

section \<open>Search\<close>

text \<open>
  \<^verbatim>\<open>cur->branches[side]\<close>: 0 is the left child, 1 the parent, 2 the right child; any other
  index is out of bounds.
\<close>

definition get_branch :: "rbmem \<Rightarrow> addr \<Rightarrow> int \<Rightarrow> addr option" where
  "get_branch m a sd =
    (if sd = 0 then get_left m a else if sd = 1 then get_parent m a
     else if sd = 2 then get_right m a else None)"

text \<open>The array \<^verbatim>\<open>ler\<close> of three nodes.\<close>

definition arr_get :: "addr list \<Rightarrow> int \<Rightarrow> addr option" where
  "arr_get xs i = (if 0 \<le> i \<and> i < int (length xs) then Some (xs ! nat i) else None)"

definition arr_set :: "addr list \<Rightarrow> int \<Rightarrow> addr \<Rightarrow> addr list option" where
  "arr_set xs i v = (if 0 \<le> i \<and> i < int (length xs) then Some (xs[nat i := v]) else None)"

partial_function (option) search_loop ::
    "(addr \<Rightarrow> addr \<Rightarrow> int) \<Rightarrow> addr \<Rightarrow> rbmem \<Rightarrow> addr \<Rightarrow> int \<Rightarrow> addr \<Rightarrow> addr list \<Rightarrow> addr option" where
  "search_loop cmp s m target expected_side cur ler =
    (if cur = s then arr_get ler (st_side_strip_eq expected_side)
     else let ret = cmp cur target in
       if ret = 0 then
         (if st_side_has_eq expected_side then Some cur
          else Option.bind (get_branch m cur (st_side_strip_eq expected_side)) (\<lambda>cur.
            search_loop cmp s m target expected_side cur ler))
       else Option.bind (arr_set ler (ret + 1) cur) (\<lambda>ler.
         Option.bind (get_branch m cur (st_side_opposite (ret + 1))) (\<lambda>cur.
           search_loop cmp s m target expected_side cur ler)))"

definition st_rbtree_search ::
    "(addr \<Rightarrow> addr \<Rightarrow> int) \<Rightarrow> st_rbtree \<Rightarrow> rbmem \<Rightarrow> addr \<Rightarrow> int \<Rightarrow> addr option" where
  "st_rbtree_search cmp tree m target expected_side =
    (if target = NULL then Some NULL
     else search_loop cmp (rt_sentinel tree) m target expected_side (rt_root tree) [NULL, NULL, NULL])"

partial_function (option) next_climb :: "addr \<Rightarrow> rbmem \<Rightarrow> addr \<Rightarrow> addr option" where
  "next_climb root m cur =
    (if cur = root then Some NULL
     else Option.bind (get_parent m cur) (\<lambda>parent.
       Option.bind (st_rbtree_is_left_child m cur) (\<lambda>b.
         if b then Some parent else next_climb root m parent)))"

definition st_rbtree_get_next :: "st_rbtree \<Rightarrow> rbmem \<Rightarrow> addr \<Rightarrow> addr option" where
  "st_rbtree_get_next tree m node =
    (if node = NULL then Some NULL
     else do {
       i \<leftarrow> st_rbtree_node_is_inited m node;
       if \<not> i then Some NULL
       else if node = rt_sentinel tree then Some NULL
       else do {
         r \<leftarrow> get_right m node;
         if r \<noteq> rt_sentinel tree then get_left_most (rt_sentinel tree) m r
         else next_climb (rt_root tree) m node
       }
     })"

definition st_rbtree_replace ::
    "(addr \<Rightarrow> addr \<Rightarrow> int) \<Rightarrow> st_rbtree \<Rightarrow> rbmem \<Rightarrow> addr \<Rightarrow> addr
      \<Rightarrow> (st_error \<times> st_rbtree \<times> rbmem) option" where
  "st_rbtree_replace cmp tree m original replacement =
    (let s = rt_sentinel tree in
     if rt_root tree = s \<or> original = NULL \<or> replacement = NULL \<or> original = s \<or> replacement = s
     then Some (ST_ARG_INVALID, tree, m)
     else do {
       i \<leftarrow> st_rbtree_node_is_inited m replacement;
       if i then Some (ST_ARG_INVALID, tree, m)
       else if cmp original replacement \<noteq> 0 then Some (ST_NOT_EQUAL, tree, m)
       else do {
         n \<leftarrow> deref m original;
         m \<leftarrow> upd m replacement (\<lambda>_. n);
         (root, m) \<leftarrow>
           (if rt_root tree = original then Some (replacement, m)
            else do { m \<leftarrow> set_child_link m original replacement; Some (rt_root tree, m) });
         l \<leftarrow> get_left m original;
         m \<leftarrow> (if l \<noteq> s then set_parent m l replacement else Some m);
         r \<leftarrow> get_right m original;
         m \<leftarrow> (if r \<noteq> s then set_parent m r replacement else Some m);
         m \<leftarrow> upd m original (\<lambda>_. st_rbtree_node_empty);
         Some (ST_OK, tree\<lparr>rt_root := root\<rparr>, m)
       }
     })"

end
