(* ===== verification/Rbtree_Repr.thy ===== *)
theory Rbtree_Repr
  imports Rbtree
begin

text \<open>
  The abstract view of the trees of \<open>Rbtree\<close>: a functional tree whose nodes carry the address and
  the colour of a stored node, the predicate that a store holds such a tree, and the zipper
  (a subtree and the path from it to the root) along which the operations of the C code walk.
  The lemmas give what each field access reads at the focus of a zipper and what recolouring,
  rotation, unlinking and substitution of a node do to the tree.
\<close>

section \<open>Trees\<close>

datatype rbt = E | N rbt addr bool rbt

primrec inorder :: "rbt \<Rightarrow> addr list" where
  "inorder E = []"
| "inorder (N l a c r) = inorder l @ a # inorder r"

primrec isred :: "rbt \<Rightarrow> bool" where
  "isred E = False"
| "isred (N l a c r) = c"

primrec blacken :: "rbt \<Rightarrow> rbt" where
  "blacken E = E"
| "blacken (N l a c r) = N l a False r"

text \<open>No red node has a red child; every path has the same number of black nodes.\<close>

primrec invc :: "rbt \<Rightarrow> bool" where
  "invc E = True"
| "invc (N l a c r) \<longleftrightarrow> (c \<longrightarrow> \<not> isred l \<and> \<not> isred r) \<and> invc l \<and> invc r"

primrec bheight :: "rbt \<Rightarrow> nat" where
  "bheight E = 0"
| "bheight (N l a c r) = (if c then bheight l else Suc (bheight l))"

primrec invh :: "rbt \<Rightarrow> bool" where
  "invh E = True"
| "invh (N l a c r) \<longleftrightarrow> bheight l = bheight r \<and> invh l \<and> invh r"

definition rb_inv :: "rbt \<Rightarrow> bool" where
  "rb_inv t \<longleftrightarrow> invc t \<and> invh t \<and> \<not> isred t"

primrec root_of :: "addr \<Rightarrow> rbt \<Rightarrow> addr" where
  "root_of s E = s"
| "root_of s (N l a c r) = a"

text \<open>The store \<open>m\<close> holds the tree, its root having the parent pointer \<open>p\<close>.\<close>

primrec rep :: "rbmem \<Rightarrow> addr \<Rightarrow> addr \<Rightarrow> rbt \<Rightarrow> bool" where
  "rep m s p E = True"
| "rep m s p (N l a c r) \<longleftrightarrow>
     m a = \<lparr>rb_left = root_of s l, rb_parent = p, rb_right = root_of s r, rb_red = c\<rparr> \<and>
     rep m s a l \<and> rep m s a r"

text \<open>
  A whole tree: the nodes are distinct, different from the sentinel and from \<^verbatim>\<open>NULL\<close>, and the
  sentinel is black.  The parent pointer \<open>P\<close> of the root is never read.
\<close>

definition tree_at :: "addr \<Rightarrow> addr \<Rightarrow> rbmem \<Rightarrow> rbt \<Rightarrow> bool" where
  "tree_at s P m t \<longleftrightarrow> rep m s P t \<and> s \<noteq> NULL \<and> \<not> rb_red (m s) \<and>
     distinct (inorder t) \<and> s \<notin> set (inorder t) \<and> NULL \<notin> set (inorder t)"

section \<open>Zippers\<close>

text \<open>A frame is a node with one child missing; a path lists the frames from the focus up.\<close>

datatype frame = FL addr bool rbt | FR rbt addr bool

fun plug :: "frame list \<Rightarrow> rbt \<Rightarrow> rbt" where
  "plug [] t = t"
| "plug (FL a c r # k) t = plug k (N t a c r)"
| "plug (FR l a c # k) t = plug k (N l a c t)"

fun fleft :: "frame list \<Rightarrow> addr list" where
  "fleft [] = []"
| "fleft (FL a c r # k) = fleft k"
| "fleft (FR l a c # k) = fleft k @ inorder l @ [a]"

fun fright :: "frame list \<Rightarrow> addr list" where
  "fright [] = []"
| "fright (FL a c r # k) = a # inorder r @ fright k"
| "fright (FR l a c # k) = fright k"

fun par :: "addr \<Rightarrow> frame list \<Rightarrow> addr" where
  "par P [] = P"
| "par P (FL a c r # k) = a"
| "par P (FR l a c # k) = a"

text \<open>The store holds the frames of a path whose hole is filled by the node \<open>x\<close>.\<close>

fun repc :: "rbmem \<Rightarrow> addr \<Rightarrow> addr \<Rightarrow> frame list \<Rightarrow> addr \<Rightarrow> bool" where
  "repc m s P [] x = True"
| "repc m s P (FL a c r # k) x \<longleftrightarrow>
     m a = \<lparr>rb_left = x, rb_parent = par P k, rb_right = root_of s r, rb_red = c\<rparr> \<and>
     rep m s a r \<and> repc m s P k a"
| "repc m s P (FR l a c # k) x \<longleftrightarrow>
     m a = \<lparr>rb_left = root_of s l, rb_parent = par P k, rb_right = x, rb_red = c\<rparr> \<and>
     rep m s a l \<and> repc m s P k a"

text \<open>The address of the root of the whole tree, given the node at the hole.\<close>

fun rootc :: "frame list \<Rightarrow> addr \<Rightarrow> addr" where
  "rootc [] x = x"
| "rootc (FL a c r # k) x = rootc k a"
| "rootc (FR l a c # k) x = rootc k a"

text \<open>The two balance invariants seen from a hole of black height \<open>h\<close>, or of colour \<open>c\<close>.\<close>

fun hctx :: "frame list \<Rightarrow> nat \<Rightarrow> bool" where
  "hctx [] h = True"
| "hctx (FL a c r # k) h \<longleftrightarrow> invh r \<and> bheight r = h \<and> hctx k (if c then h else Suc h)"
| "hctx (FR l a c # k) h \<longleftrightarrow> invh l \<and> bheight l = h \<and> hctx k (if c then h else Suc h)"

fun cctx :: "frame list \<Rightarrow> bool \<Rightarrow> bool" where
  "cctx [] d = True"
| "cctx (FL a c r # k) d \<longleftrightarrow> (c \<longrightarrow> \<not> d \<and> \<not> isred r) \<and> invc r \<and> cctx k c"
| "cctx (FR l a c # k) d \<longleftrightarrow> (c \<longrightarrow> \<not> d \<and> \<not> isred l) \<and> invc l \<and> cctx k c"

text \<open>The colour of the root when the path is not empty.\<close>

fun ctop :: "frame list \<Rightarrow> bool \<Rightarrow> bool" where
  "ctop [] d = d"
| "ctop (FL a c r # k) d = ctop k c"
| "ctop (FR l a c # k) d = ctop k c"

section \<open>Lemmas on zippers\<close>

lemma path_cases [case_names root left right]:
  obtains "k = []" | a c r j where "k = FL a c r # j" | l a c j where "k = FR l a c # j"
  by (metis frame.exhaust list.exhaust)

lemma inorder_plug: "inorder (plug k t) = fleft k @ inorder t @ fright k"
  by (induction k t rule: plug.induct) auto

lemma rep_plug: "rep m s P (plug k t) \<longleftrightarrow> rep m s (par P k) t \<and> repc m s P k (root_of s t)"
  by (induction k t rule: plug.induct) auto

lemma root_of_plug: "root_of s (plug k t) = rootc k (root_of s t)"
  by (induction k t rule: plug.induct) auto

lemma invh_plug: "invh (plug k t) \<longleftrightarrow> invh t \<and> hctx k (bheight t)"
  by (induction k t rule: plug.induct) auto

lemma invc_plug: "invc (plug k t) \<longleftrightarrow> invc t \<and> cctx k (isred t)"
  by (induction k t rule: plug.induct) auto

lemma isred_plug: "isred (plug k t) = ctop k (isred t)"
  by (induction k t rule: plug.induct) auto

lemma cctx_black: "cctx k d \<Longrightarrow> cctx k False"
  by (cases "(k, d)" rule: cctx.cases) auto

lemma ctop_nonempty: "k \<noteq> [] \<Longrightarrow> ctop k d = ctop k d'"
  by (cases "(k, d)" rule: ctop.cases) auto

lemma rootc_in: "k \<noteq> [] \<Longrightarrow> rootc k x \<in> set (fleft k) \<union> set (fright k)"
proof (induction k x rule: rootc.induct)
  case (2 a c r k x)
  then show ?case by (cases "k = []") auto
next
  case (3 l a c k x)
  then show ?case by (cases "k = []") auto
qed simp

lemma par_in: "k \<noteq> [] \<Longrightarrow> par P k \<in> set (fleft k) \<union> set (fright k)"
  by (cases "(P, k)" rule: par.cases) auto

lemma rootc_nonempty: "k \<noteq> [] \<Longrightarrow> rootc k x = rootc k y"
  by (cases "(k, x)" rule: rootc.cases) auto

lemma focus_exists: "a \<in> set (inorder t) \<Longrightarrow> \<exists>k l c r. t = plug k (N l a c r)"
proof -
  have "a \<in> set (inorder t) \<Longrightarrow> \<exists>k' l c r. plug k t = plug k' (N l a c r)" for k
  proof (induction t arbitrary: k)
    case (N l b c r)
    then show ?case
      using N.IH(1)[of "FL b c r # k"] N.IH(2)[of "FR l b c # k"] by auto
  qed simp
  from this[of "[]"] show "a \<in> set (inorder t) \<Longrightarrow> ?thesis" by simp
qed

lemma plug_append: "plug (j @ k) t = plug k (plug j t)"
  by (induction j t rule: plug.induct) auto

text \<open>Every nonempty tree has a leftmost node, reached along a path of left steps.\<close>

definition left_spine :: "frame list \<Rightarrow> bool" where
  "left_spine k \<longleftrightarrow> (\<forall>f \<in> set k. case f of FL _ _ _ \<Rightarrow> True | FR _ _ _ \<Rightarrow> False)"

definition right_spine :: "frame list \<Rightarrow> bool" where
  "right_spine k \<longleftrightarrow> (\<forall>f \<in> set k. case f of FL _ _ _ \<Rightarrow> False | FR _ _ _ \<Rightarrow> True)"

lemma spine_simps [simp]:
  "left_spine []" "left_spine (FL a c r # k) = left_spine k" "\<not> left_spine (FR l a c # k)"
  "right_spine []" "right_spine (FR l a c # k) = right_spine k" "\<not> right_spine (FL a c r # k)"
  "left_spine (j @ k) \<longleftrightarrow> left_spine j \<and> left_spine k"
  "right_spine (j @ k) \<longleftrightarrow> right_spine j \<and> right_spine k"
  by (auto simp: left_spine_def right_spine_def)

lemma left_spine_fleft: "left_spine k \<Longrightarrow> fleft k = []"
  by (induction k rule: fleft.induct) auto

lemma right_spine_fright: "right_spine k \<Longrightarrow> fright k = []"
  by (induction k rule: fright.induct) auto

lemma leftmost_exists: "t \<noteq> E \<Longrightarrow> \<exists>j b d x. t = plug j (N E b d x) \<and> left_spine j"
proof (induction t)
  case (N l a c r)
  show ?case
  proof (cases "l = E")
    case True
    then show ?thesis by (intro exI[of _ "[]"]) auto
  next
    case False
    with N obtain j b d x where "l = plug j (N E b d x)" "left_spine j" by auto
    then show ?thesis
      by (intro exI[of _ "j @ [FL a c r]"] exI[of _ b] exI[of _ d] exI[of _ x]) (simp add: plug_append)
  qed
qed simp

lemma rightmost_exists: "t \<noteq> E \<Longrightarrow> \<exists>j b d x. t = plug j (N x b d E) \<and> right_spine j"
proof (induction t)
  case (N l a c r)
  show ?case
  proof (cases "r = E")
    case True
    then show ?thesis by (intro exI[of _ "[]"]) auto
  next
    case False
    with N obtain j b d x where "r = plug j (N x b d E)" "right_spine j" by auto
    then show ?thesis
      by (intro exI[of _ "j @ [FR l a c]"] exI[of _ b] exI[of _ d] exI[of _ x]) (simp add: plug_append)
  qed
qed simp

section \<open>Framing\<close>

lemma rep_cong: "(\<And>a. a \<in> set (inorder t) \<Longrightarrow> m a = m' a) \<Longrightarrow> rep m s p t = rep m' s p t"
  by (induction t arbitrary: p) auto

lemma rep_transfer:
  "rep m s p t \<Longrightarrow> (\<And>a. a \<in> set (inorder t) \<Longrightarrow> m' a = m a) \<Longrightarrow> rep m' s p t"
  using rep_cong[of t m m'] by simp

lemma repc_cong:
  "(\<And>a. a \<in> set (fleft k) \<union> set (fright k) \<Longrightarrow> m a = m' a) \<Longrightarrow> repc m s P k x = repc m' s P k x"
proof (induction m s P k x rule: repc.induct)
  case (2 m s P a c r k x)
  have "rep m s a r = rep m' s a r" by (rule rep_cong) (simp add: 2(2))
  moreover have "repc m s P k a = repc m' s P k a" by (rule 2(1)) (use 2(2) in auto)
  moreover have "m a = m' a" by (simp add: 2(2))
  ultimately show ?case by simp
next
  case (3 m s P l a c k x)
  have "rep m s a l = rep m' s a l" by (rule rep_cong) (simp add: 3(2))
  moreover have "repc m s P k a = repc m' s P k a" by (rule 3(1)) (use 3(2) in auto)
  moreover have "m a = m' a" by (simp add: 3(2))
  ultimately show ?case by simp
qed simp

lemma rep_upd [simp]: "b \<notin> set (inorder t) \<Longrightarrow> rep (m(b := n)) s p t = rep m s p t"
  by (rule rep_cong) auto

lemma repc_upd [simp]:
  "b \<notin> set (fleft k) \<Longrightarrow> b \<notin> set (fright k) \<Longrightarrow> repc (m(b := n)) s P k x = repc m s P k x"
  by (rule repc_cong) auto

text \<open>Overwriting the parent pointer of the root of a subtree moves the subtree.\<close>

lemma rep_set_parent:
  "rep m s p t \<Longrightarrow> t \<noteq> E \<Longrightarrow> distinct (inorder t) \<Longrightarrow> root_of s t = a \<Longrightarrow>
    rep (m(a := (m a)\<lparr>rb_parent := q\<rparr>)) s q t"
  by (cases t) auto

section \<open>What the code reads at the focus\<close>

lemmas rb_ops = get_left_def get_right_def get_parent_def set_left_def set_right_def
  set_parent_def st_rbtree_red_def st_rbtree_black_def st_rbtree_copy_color_def
  st_rbtree_is_red_def st_rbtree_is_black_def st_rbtree_is_left_child_def
  st_rbtree_is_right_child_def

lemma tree_at_focus:
  assumes "tree_at s P m (plug k (N l a c r))"
  shows "m a = \<lparr>rb_left = root_of s l, rb_parent = par P k, rb_right = root_of s r, rb_red = c\<rparr>"
    and "a \<noteq> NULL" and "a \<noteq> s"
  using assms by (auto simp: tree_at_def rep_plug inorder_plug)

lemma tree_at_nonnull: "tree_at s P m t \<Longrightarrow> a \<in> set (inorder t) \<Longrightarrow> a \<noteq> NULL \<and> a \<noteq> s"
  unfolding tree_at_def by metis

text \<open>The colour bit of a subtree's root, the black sentinel for an empty one.\<close>

lemma tree_at_red:
  assumes "tree_at s P m (plug k t)"
  shows "rb_red (m (root_of s t)) = isred t" and "root_of s t \<noteq> NULL"
    and "root_of s t = s \<longleftrightarrow> t = E"
  using assms by (cases t; auto simp: tree_at_def rep_plug inorder_plug)+

text \<open>A subtree's root is the left child of its parent exactly when the focus was reached so.\<close>

lemma tree_at_link:
  assumes "tree_at s P m (plug (FL p c r # k) t)"
  shows "m p = \<lparr>rb_left = root_of s t, rb_parent = par P k, rb_right = root_of s r, rb_red = c\<rparr>"
    and "p \<noteq> NULL" and "p \<noteq> s" and "t \<noteq> E \<Longrightarrow> rb_parent (m (root_of s t)) = p"
  using assms by (cases t; auto simp: tree_at_def rep_plug inorder_plug)+

lemma tree_at_link_right:
  assumes "tree_at s P m (plug (FR l p c # k) t)"
  shows "m p = \<lparr>rb_left = root_of s l, rb_parent = par P k, rb_right = root_of s t, rb_red = c\<rparr>"
    and "p \<noteq> NULL" and "p \<noteq> s" and "t \<noteq> E \<Longrightarrow> rb_parent (m (root_of s t)) = p"
    and "t \<noteq> E \<or> l \<noteq> E \<Longrightarrow> root_of s l \<noteq> root_of s t"
  using assms by (cases t; cases l; auto simp: tree_at_def rep_plug inorder_plug)+

lemma tree_at_root_iff:
  assumes "tree_at s P m (plug k t)" and "t \<noteq> E \<or> k \<noteq> []"
  shows "root_of s t = root_of s (plug k t) \<longleftrightarrow> k = []"
proof (cases "k = []")
  case False
  then have "rootc k (root_of s t) \<in> set (fleft k) \<union> set (fright k)" by (rule rootc_in)
  with False assms show ?thesis
    by (cases t) (auto simp: tree_at_def inorder_plug root_of_plug)
qed simp

section \<open>Recolouring and rotation\<close>

lemma tree_at_recolor:
  assumes "tree_at s P m (plug k (N l a c r))"
  shows "tree_at s P (m(a := (m a)\<lparr>rb_red := c'\<rparr>)) (plug k (N l a c' r))"
  using assms by (auto simp: tree_at_def rep_plug inorder_plug)

text \<open>What a step leaves alone: every node outside the tree, the sentinel included.\<close>

definition same_outside :: "rbt \<Rightarrow> rbmem \<Rightarrow> rbmem \<Rightarrow> bool" where
  "same_outside t m m' \<longleftrightarrow> (\<forall>x. x \<notin> set (inorder t) \<longrightarrow> m' x = m x)"

text \<open>The link from above a focus to a new root of the focus.\<close>

fun relink :: "rbmem \<Rightarrow> frame list \<Rightarrow> addr \<Rightarrow> rbmem" where
  "relink m [] x = m"
| "relink m (FL a c r # k) x = m(a := (m a)\<lparr>rb_left := x\<rparr>)"
| "relink m (FR l a c # k) x = m(a := (m a)\<lparr>rb_right := x\<rparr>)"

lemma relink_repc:
  "repc m s P k y \<Longrightarrow> distinct (fleft k @ fright k) \<Longrightarrow> repc (relink m k x) s P k x"
  by (cases "(m, k, x)" rule: relink.cases) auto

lemma relink_other:
  "z \<notin> set (fleft k) \<Longrightarrow> z \<notin> set (fright k) \<Longrightarrow> relink m k x z = m z"
  by (cases "(m, k, x)" rule: relink.cases) auto

lemma relink_upd:
  "z \<notin> set (fleft k) \<Longrightarrow> z \<notin> set (fright k) \<Longrightarrow> relink (m(z := v)) k x = (relink m k x)(z := v)"
  by (cases "(m, k, x)" rule: relink.cases) auto

lemma rep_relink:
  "set (inorder t) \<inter> (set (fleft k) \<union> set (fright k)) = {} \<Longrightarrow>
    rep (relink m k x) s p t = rep m s p t"
  by (rule rep_cong) (auto intro: relink_other)

text \<open>The code that hangs \<open>x\<close> below the parent of \<open>a\<close>, or makes it the root.\<close>

lemma set_child_link_relink:
  assumes "repc m s P k a" "k \<noteq> []" "NULL \<notin> set (fleft k @ fright k)"
    "rb_parent (m a) = par P k" "a \<noteq> NULL" "\<And>l p c j. k = FR l p c # j \<Longrightarrow> root_of s l \<noteq> a"
  shows "set_child_link m a x = Some (relink m k x)"
  using assms by (cases "(m, k, x)" rule: relink.cases) (auto simp: set_child_link_def rb_ops)

text \<open>Moving a subtree below another node.\<close>

definition reparent :: "addr \<Rightarrow> rbmem \<Rightarrow> rbt \<Rightarrow> addr \<Rightarrow> rbmem" where
  "reparent s m t q =
    (if t = E then m else m(root_of s t := (m (root_of s t))\<lparr>rb_parent := q\<rparr>))"

lemma reparent_other: "z \<notin> set (inorder t) \<Longrightarrow> reparent s m t q z = m z"
  by (cases t) (auto simp: reparent_def)

lemma reparent_rep: "rep m s p t \<Longrightarrow> distinct (inorder t) \<Longrightarrow> rep (reparent s m t q) s q t"
  by (cases t) (auto simp: reparent_def)

lemma rep_reparent_other:
  "set (inorder t) \<inter> set (inorder u) = {} \<Longrightarrow> rep (reparent s m t q) s p u = rep m s p u"
  by (rule rep_cong) (auto intro: reparent_other)

lemma repc_reparent:
  "set (inorder t) \<inter> (set (fleft k) \<union> set (fright k)) = {} \<Longrightarrow>
    repc (reparent s m t q) s P k x = repc m s P k x"
  by (rule repc_cong) (auto intro: reparent_other)

lemma relink_reparent_other:
  "z \<notin> set (fleft k) \<Longrightarrow> z \<notin> set (fright k) \<Longrightarrow> z \<notin> set (inorder t) \<Longrightarrow>
    relink (reparent s m t q) k x z = m z"
  by (simp add: relink_other reparent_other)

text \<open>The store after a left rotation at \<open>n\<close>.\<close>

definition lrot_mem :: "addr \<Rightarrow> rbmem \<Rightarrow> frame list \<Rightarrow> addr \<Rightarrow> addr \<Rightarrow> rbt \<Rightarrow> rbmem" where
  "lrot_mem s m k n ch cl =
    (let m1 = relink (reparent s m cl n) k ch
     in m1(n := (m n)\<lparr>rb_right := root_of s cl, rb_parent := ch\<rparr>,
           ch := (m ch)\<lparr>rb_left := n, rb_parent := rb_parent (m n)\<rparr>))"

definition rrot_mem :: "addr \<Rightarrow> rbmem \<Rightarrow> frame list \<Rightarrow> addr \<Rightarrow> addr \<Rightarrow> rbt \<Rightarrow> rbmem" where
  "rrot_mem s m k n ch cr =
    (let m1 = relink (reparent s m cr n) k ch
     in m1(n := (m n)\<lparr>rb_left := root_of s cr, rb_parent := ch\<rparr>,
           ch := (m ch)\<lparr>rb_right := n, rb_parent := rb_parent (m n)\<rparr>))"

lemma lrot_mem_tree_at:
  assumes "tree_at s P m (plug k (N x n c (N cl ch d cr)))"
  shows "tree_at s P (lrot_mem s m k n ch cl) (plug k (N (N x n c cl) ch d cr))"
    and "same_outside (plug k (N x n c (N cl ch d cr))) m (lrot_mem s m k n ch cl)"
proof -
  have d: "distinct (fleft k @ (inorder x @ n # inorder cl @ ch # inorder cr) @ fright k)"
    and s: "s \<notin> set (fleft k @ (inorder x @ n # inorder cl @ ch # inorder cr) @ fright k)"
    and r: "repc m s P k n" "rep m s n x" "rep m s ch cl" "rep m s ch cr"
    using assms by (auto simp: tree_at_def rep_plug inorder_plug)
  let ?m1 = "reparent s m cl n"
  have k: "repc ?m1 s P k n" using r d by (subst repc_reparent) auto
  have "repc (relink ?m1 k ch) s P k ch" using d by (intro relink_repc[OF k]) auto
  moreover have "rep (relink ?m1 k ch) s n cl"
    using r d by (subst rep_relink) (auto intro: reparent_rep)
  moreover have "rep (relink ?m1 k ch) s n x" "rep (relink ?m1 k ch) s ch cr"
    using d by (auto intro!: rep_transfer[OF r(2)] rep_transfer[OF r(4)] relink_reparent_other simp: disjoint_iff)
  moreover have "m n = \<lparr>rb_left = root_of s x, rb_parent = par P k, rb_right = ch, rb_red = c\<rparr>"
    "m ch = \<lparr>rb_left = root_of s cl, rb_parent = n, rb_right = root_of s cr, rb_red = d\<rparr>"
    using assms by (auto simp: tree_at_def rep_plug)
  moreover have "relink ?m1 k ch s = m s"
    using s by (simp add: relink_other reparent_other)
  ultimately show "tree_at s P (lrot_mem s m k n ch cl) (plug k (N (N x n c cl) ch d cr))"
    using assms by (auto simp: tree_at_def rep_plug inorder_plug lrot_mem_def)
  show "same_outside (plug k (N x n c (N cl ch d cr))) m (lrot_mem s m k n ch cl)"
    by (auto simp: same_outside_def lrot_mem_def inorder_plug relink_other reparent_other)
qed

lemma rrot_mem_tree_at:
  assumes "tree_at s P m (plug k (N (N cl ch d cr) n c x))"
  shows "tree_at s P (rrot_mem s m k n ch cr) (plug k (N cl ch d (N cr n c x)))"
    and "same_outside (plug k (N (N cl ch d cr) n c x)) m (rrot_mem s m k n ch cr)"
proof -
  have d: "distinct (fleft k @ (inorder cl @ ch # inorder cr @ n # inorder x) @ fright k)"
    and s: "s \<notin> set (fleft k @ (inorder cl @ ch # inorder cr @ n # inorder x) @ fright k)"
    and r: "repc m s P k n" "rep m s n x" "rep m s ch cl" "rep m s ch cr"
    using assms by (auto simp: tree_at_def rep_plug inorder_plug)
  let ?m1 = "reparent s m cr n"
  have k: "repc ?m1 s P k n" using r d by (subst repc_reparent) auto
  have "repc (relink ?m1 k ch) s P k ch" using d by (intro relink_repc[OF k]) auto
  moreover have "rep (relink ?m1 k ch) s n cr"
    using r d by (subst rep_relink) (auto intro: reparent_rep)
  moreover have "rep (relink ?m1 k ch) s n x" "rep (relink ?m1 k ch) s ch cl"
    using d by (auto intro!: rep_transfer[OF r(2)] rep_transfer[OF r(3)] relink_reparent_other simp: disjoint_iff)
  moreover have "m n = \<lparr>rb_left = ch, rb_parent = par P k, rb_right = root_of s x, rb_red = c\<rparr>"
    "m ch = \<lparr>rb_left = root_of s cl, rb_parent = n, rb_right = root_of s cr, rb_red = d\<rparr>"
    using assms by (auto simp: tree_at_def rep_plug)
  moreover have "relink ?m1 k ch s = m s"
    using s by (simp add: relink_other reparent_other)
  ultimately show "tree_at s P (rrot_mem s m k n ch cr) (plug k (N cl ch d (N cr n c x)))"
    using assms by (auto simp: tree_at_def rep_plug inorder_plug rrot_mem_def)
  show "same_outside (plug k (N (N cl ch d cr) n c x)) m (rrot_mem s m k n ch cr)"
    by (auto simp: same_outside_def rrot_mem_def inorder_plug relink_other reparent_other)
qed

lemma left_rotate_eq:
  assumes "tree_at s P m (plug k (N x n c (N cl ch d cr)))"
  shows "st_rbtree_left_rotate (rootc k n) s m n = Some (rootc k ch, lrot_mem s m k n ch cl)"
proof -
  have root: "n = rootc k n \<longleftrightarrow> k = []"
    using tree_at_root_iff[OF assms] by (simp add: root_of_plug)
  have f: "m n = \<lparr>rb_left = root_of s x, rb_parent = par P k, rb_right = ch, rb_red = c\<rparr>"
    "m ch = \<lparr>rb_left = root_of s cl, rb_parent = n, rb_right = root_of s cr, rb_red = d\<rparr>"
    "n \<noteq> NULL" "ch \<noteq> NULL" "n \<noteq> ch" "ch \<noteq> n"
    "root_of s cl \<noteq> n" "root_of s cl \<noteq> ch" "n \<noteq> root_of s cl" "ch \<noteq> root_of s cl"
    "root_of s cl \<noteq> NULL" "root_of s cl = s \<longleftrightarrow> cl = E"
    using assms by (cases cl; auto simp: tree_at_def rep_plug inorder_plug)+
  show ?thesis
  proof (cases k rule: path_cases)
    case root
    then show ?thesis
      by (simp add: f st_rbtree_left_rotate_def rb_ops lrot_mem_def reparent_def fun_upd_twist)
  next
    case (left a e r j)
    then have "m a = \<lparr>rb_left = n, rb_parent = par P j, rb_right = root_of s r, rb_red = e\<rparr>"
      "a \<noteq> NULL" "a \<noteq> n" "a \<noteq> ch" "n \<noteq> a" "ch \<noteq> a" "root_of s cl \<noteq> a" "a \<noteq> root_of s cl"
      using assms by (cases cl; auto simp: tree_at_def rep_plug inorder_plug)+
    with left root show ?thesis
      by (simp add: f st_rbtree_left_rotate_def rb_ops lrot_mem_def reparent_def fun_upd_twist)
  next
    case (right l a e j)
    then have "m a = \<lparr>rb_left = root_of s l, rb_parent = par P j, rb_right = n, rb_red = e\<rparr>"
      "a \<noteq> NULL" "a \<noteq> n" "a \<noteq> ch" "n \<noteq> a" "ch \<noteq> a" "root_of s cl \<noteq> a" "a \<noteq> root_of s cl"
      "root_of s l \<noteq> n" "n \<noteq> root_of s l"
      using assms by (cases cl; cases l; auto simp: tree_at_def rep_plug inorder_plug)+
    with right root show ?thesis
      by (simp add: f st_rbtree_left_rotate_def rb_ops lrot_mem_def reparent_def fun_upd_twist)
  qed
qed
lemma right_rotate_eq:
  assumes "tree_at s P m (plug k (N (N cl ch d cr) n c x))"
  shows "st_rbtree_right_rotate (rootc k n) s m n = Some (rootc k ch, rrot_mem s m k n ch cr)"
proof -
  have root: "n = rootc k n \<longleftrightarrow> k = []"
    using tree_at_root_iff[OF assms] by (simp add: root_of_plug)
  have f: "m n = \<lparr>rb_left = ch, rb_parent = par P k, rb_right = root_of s x, rb_red = c\<rparr>"
    "m ch = \<lparr>rb_left = root_of s cl, rb_parent = n, rb_right = root_of s cr, rb_red = d\<rparr>"
    "n \<noteq> NULL" "ch \<noteq> NULL" "n \<noteq> ch" "ch \<noteq> n"
    "root_of s cr \<noteq> n" "root_of s cr \<noteq> ch" "n \<noteq> root_of s cr" "ch \<noteq> root_of s cr"
    "root_of s cr \<noteq> NULL" "root_of s cr = s \<longleftrightarrow> cr = E"
    using assms by (cases cr; auto simp: tree_at_def rep_plug inorder_plug)+
  show ?thesis
  proof (cases k rule: path_cases)
    case root
    then show ?thesis
      by (simp add: f st_rbtree_right_rotate_def rb_ops rrot_mem_def reparent_def fun_upd_twist)
  next
    case (left a e r j)
    then have "m a = \<lparr>rb_left = n, rb_parent = par P j, rb_right = root_of s r, rb_red = e\<rparr>"
      "a \<noteq> NULL" "a \<noteq> n" "a \<noteq> ch" "n \<noteq> a" "ch \<noteq> a" "root_of s cr \<noteq> a" "a \<noteq> root_of s cr"
      "root_of s r \<noteq> n" "n \<noteq> root_of s r"
      using assms by (cases cr; cases r; auto simp: tree_at_def rep_plug inorder_plug)+
    with left root show ?thesis
      by (simp add: f st_rbtree_right_rotate_def rb_ops rrot_mem_def reparent_def fun_upd_twist)
  next
    case (right l a e j)
    then have "m a = \<lparr>rb_left = root_of s l, rb_parent = par P j, rb_right = n, rb_red = e\<rparr>"
      "a \<noteq> NULL" "a \<noteq> n" "a \<noteq> ch" "n \<noteq> a" "ch \<noteq> a" "root_of s cr \<noteq> a" "a \<noteq> root_of s cr"
      using assms by (cases cr; auto simp: tree_at_def rep_plug inorder_plug)+
    with right root show ?thesis
      by (simp add: f st_rbtree_right_rotate_def rb_ops rrot_mem_def reparent_def fun_upd_twist)
  qed
qed
text \<open>The two rotations as steps on the tree.\<close>

lemma left_rotate_step:
  assumes "tree_at s P m (plug k (N x n c (N cl ch d cr)))"
  obtains m' where
    "st_rbtree_left_rotate (rootc k n) s m n = Some (rootc k ch, m')"
    "tree_at s P m' (plug k (N (N x n c cl) ch d cr))"
    "same_outside (plug k (N x n c (N cl ch d cr))) m m'"
  using left_rotate_eq[OF assms] lrot_mem_tree_at[OF assms] by blast

lemma right_rotate_step:
  assumes "tree_at s P m (plug k (N (N cl ch d cr) n c x))"
  obtains m' where
    "st_rbtree_right_rotate (rootc k n) s m n = Some (rootc k ch, m')"
    "tree_at s P m' (plug k (N cl ch d (N cr n c x)))"
    "same_outside (plug k (N (N cl ch d cr) n c x)) m m'"
  using right_rotate_eq[OF assms] rrot_mem_tree_at[OF assms] by blast

lemma black_step:
  assumes "tree_at s P m (plug k (N l a c r))"
  obtains m' where "st_rbtree_black m a = Some m'" "tree_at s P m' (plug k (N l a False r))"
    "same_outside (plug k (N l a c r)) m m'"
proof
  show "st_rbtree_black m a = Some (m(a := (m a)\<lparr>rb_red := False\<rparr>))"
    using tree_at_focus(2)[OF assms] by (simp add: rb_ops)
  show "tree_at s P (m(a := (m a)\<lparr>rb_red := False\<rparr>)) (plug k (N l a False r))"
    by (rule tree_at_recolor[OF assms])
  show "same_outside (plug k (N l a c r)) m (m(a := (m a)\<lparr>rb_red := False\<rparr>))"
    by (auto simp: same_outside_def inorder_plug)
qed

lemma red_step:
  assumes "tree_at s P m (plug k (N l a c r))"
  obtains m' where "st_rbtree_red m a = Some m'" "tree_at s P m' (plug k (N l a True r))"
    "same_outside (plug k (N l a c r)) m m'"
proof
  show "st_rbtree_red m a = Some (m(a := (m a)\<lparr>rb_red := True\<rparr>))"
    using tree_at_focus(2)[OF assms] by (simp add: rb_ops)
  show "tree_at s P (m(a := (m a)\<lparr>rb_red := True\<rparr>)) (plug k (N l a True r))"
    by (rule tree_at_recolor[OF assms])
  show "same_outside (plug k (N l a c r)) m (m(a := (m a)\<lparr>rb_red := True\<rparr>))"
    by (auto simp: same_outside_def inorder_plug)
qed

lemma same_outside_trans:
  "same_outside t m m' \<Longrightarrow> same_outside t' m' m'' \<Longrightarrow> set (inorder t') = set (inorder t) \<Longrightarrow>
    same_outside t m m''"
  by (auto simp: same_outside_def)

lemmas rb_reads = get_left_def get_right_def get_parent_def st_rbtree_is_red_def
  st_rbtree_is_black_def st_rbtree_is_left_child_def st_rbtree_is_right_child_def

section \<open>A stored red-black tree\<close>

text \<open>\<open>rb_tree tree m t\<close>: the tree structure and the store hold the red-black tree \<open>t\<close>.\<close>

definition rb_tree :: "st_rbtree \<Rightarrow> rbmem \<Rightarrow> rbt \<Rightarrow> bool" where
  "rb_tree tree m t \<longleftrightarrow> (\<exists>P. tree_at (rt_sentinel tree) P m t) \<and>
     rt_root tree = root_of (rt_sentinel tree) t \<and> rb_inv t"

lemma black_root:
  assumes "tree_at s P m t" "t \<noteq> E"
  shows "\<exists>m'. st_rbtree_black m (root_of s t) = Some m' \<and> tree_at s P m' (blacken t) \<and>
    same_outside t m m'"
proof -
  obtain l a c r where t: "t = N l a c r" using assms(2) by (cases t) auto
  with black_step[of s P m "[]" l a c r] assms show ?thesis by auto
qed

lemma blacken_simps [simp]:
  "inorder (blacken t) = inorder t" "root_of s (blacken t) = root_of s t" "\<not> isred (blacken t)"
  "invc t \<Longrightarrow> invc (blacken t)" "invh t \<Longrightarrow> invh (blacken t)"
  by (cases t; simp)+

end
