(* ===== verification/St_Order.thy ===== *)
theory St_Order
  imports Prelude
begin

text \<open>
  The contract of a comparison function, as the trees and the arrays of the library rely on it:
  a total preorder on the elements that may meet, given by the sign of an \<^verbatim>\<open>int\<close>.  The macro
  \<^verbatim>\<open>st_cmp\<close> of \<^verbatim>\<open>src/inc/util.h\<close> provides it for every key that is linearly ordered.
\<close>

definition sorted_by :: "('a \<Rightarrow> 'a \<Rightarrow> int) \<Rightarrow> 'a list \<Rightarrow> bool" where
  "sorted_by cmp xs \<longleftrightarrow> sorted_wrt (\<lambda>a b. cmp a b \<le> 0) xs"

text \<open>Insertion behind every element that is not greater.\<close>

definition ordered_insert :: "('a \<Rightarrow> 'a \<Rightarrow> int) \<Rightarrow> 'a \<Rightarrow> 'a list \<Rightarrow> 'a list" where
  "ordered_insert cmp a xs =
    takeWhile (\<lambda>y. \<not> cmp a y < 0) xs @ a # dropWhile (\<lambda>y. \<not> cmp a y < 0) xs"

lemma sorted_by_simps [simp]:
  "sorted_by cmp []"
  "sorted_by cmp (x # xs) \<longleftrightarrow> (\<forall>y \<in> set xs. cmp x y \<le> 0) \<and> sorted_by cmp xs"
  "sorted_by cmp (xs @ ys) \<longleftrightarrow>
     sorted_by cmp xs \<and> sorted_by cmp ys \<and> (\<forall>x \<in> set xs. \<forall>y \<in> set ys. cmp x y \<le> 0)"
  by (auto simp: sorted_by_def sorted_wrt_append)

lemma ordered_insert_split:
  "(\<And>y. y \<in> set xs \<Longrightarrow> \<not> cmp a y < 0) \<Longrightarrow> (\<And>y. y \<in> set ys \<Longrightarrow> cmp a y < 0) \<Longrightarrow>
    ordered_insert cmp a (xs @ ys) = xs @ a # ys"
  by (cases ys) (auto simp: ordered_insert_def takeWhile_append dropWhile_append takeWhile_eq_all_conv)

lemma set_ordered_insert: "set (ordered_insert cmp a xs) = insert a (set xs)"
  unfolding ordered_insert_def by (metis Un_insert_right list.simps(15) set_append takeWhile_dropWhile_id)

locale comparator =
  fixes A :: "'a set" and cmp :: "'a \<Rightarrow> 'a \<Rightarrow> int"
  assumes sign: "a \<in> A \<Longrightarrow> b \<in> A \<Longrightarrow> sgn (cmp a b) = - sgn (cmp b a)"
    and trans: "a \<in> A \<Longrightarrow> b \<in> A \<Longrightarrow> c \<in> A \<Longrightarrow> cmp a b \<le> 0 \<Longrightarrow> cmp b c \<le> 0 \<Longrightarrow> cmp a c \<le> 0"
begin

lemma flip:
  assumes "a \<in> A" "b \<in> A"
  shows "cmp a b < 0 \<longleftrightarrow> 0 < cmp b a" and "cmp a b = 0 \<longleftrightarrow> cmp b a = 0"
    and "cmp a b \<le> 0 \<longleftrightarrow> \<not> cmp b a < 0"
  using sign[OF assms] by (auto simp: sgn_if split: if_splits)

lemma refl: "a \<in> A \<Longrightarrow> cmp a a = 0"
  using sign[of a a] by (auto simp: sgn_if split: if_splits)

lemma less_le_trans:
  assumes "a \<in> A" "b \<in> A" "c \<in> A" "cmp a b < 0" "cmp b c \<le> 0"
  shows "cmp a c < 0"
  using trans[of b c a] flip[of a b] flip[of a c] flip[of c a] assms by auto

lemma le_less_trans:
  assumes "a \<in> A" "b \<in> A" "c \<in> A" "cmp a b \<le> 0" "cmp b c < 0"
  shows "cmp a c < 0"
  using trans[of c a b] flip[of b c] flip[of c b] flip[of a c] flip[of c a] assms by auto

lemma sorted_ordered_insert:
  assumes "set xs \<subseteq> A" "a \<in> A" "sorted_by cmp xs"
  shows "sorted_by cmp (ordered_insert cmp a xs)"
proof -
  let ?l = "takeWhile (\<lambda>y. \<not> cmp a y < 0) xs" and ?r = "dropWhile (\<lambda>y. \<not> cmp a y < 0) xs"
  have xs: "sorted_by cmp (?l @ ?r)" "set (?l @ ?r) \<subseteq> A" using assms by simp_all
  have l: "cmp y a \<le> 0" if "y \<in> set ?l" for y
    using that xs(2) assms(2) flip[of y a] by (auto dest: set_takeWhileD)
  have r: "cmp a y \<le> 0" if "y \<in> set ?r" for y
  proof (cases ?r)
    case (Cons z zs)
    then have "cmp a z < 0" using hd_dropWhile[of "\<lambda>y. \<not> cmp a y < 0" xs] by force
    with that Cons xs less_le_trans[of a z y] assms(2) show ?thesis by auto
  next
    case Nil
    with that show ?thesis by (simp only: list.set empty_iff)
  qed
  have "sorted_by cmp ?l \<and> sorted_by cmp ?r \<and> (\<forall>x \<in> set ?l. \<forall>y \<in> set ?r. cmp x y \<le> 0)"
    using xs(1) unfolding sorted_by_simps(3) .
  with l r show ?thesis unfolding ordered_insert_def by auto
qed

end

text \<open>A comparison that also keeps to the three values that \<^verbatim>\<open>ler[ret + 1]\<close> can index.\<close>

locale three_way = comparator +
  assumes range: "a \<in> A \<Longrightarrow> b \<in> A \<Longrightarrow> cmp a b \<in> {- 1, 0, 1}"

text \<open>\<^verbatim>\<open>st_cmp\<close> on a key of the elements.\<close>

lemma st_cmp_three_way: "three_way A (\<lambda>a b. st_cmp (f a) (f b))"
  by unfold_locales (auto simp: st_cmp_def split: if_splits)

interpretation st_cmp_key: three_way A "\<lambda>a b. st_cmp (f a) (f b)" for A and f :: "'a \<Rightarrow> 'b::linorder"
  by (rule st_cmp_three_way)

end
