(* ===== verification/Rbtree_Insert.thy ===== *)
theory Rbtree_Insert
  imports Rbtree_Repr St_Order
begin

text \<open>
  Correctness of \<^verbatim>\<open>st_rbtree_insert\<close>: the search loop finds the place that the order prescribes,
  the node is hung there, and the rebalancing loop ends with a red-black tree of the same nodes.
\<close>

section \<open>Rebalancing steps\<close>

lemma fixup_left_red_uncle:
  assumes t: "tree_at s P m (plug k (N (N x p True y) g False (N ul u True ur)))"
    and n: "rb_parent (m n) = p" "n \<noteq> NULL" "n \<noteq> p" "n \<noteq> u" "n \<noteq> g"
  obtains m' where "insert_fixup_left rt s m n = Some (rt, m', g)"
    "tree_at s P m' (plug k (N (N x p False y) g True (N ul u False ur)))"
    "same_outside (plug k (N (N x p True y) g False (N ul u True ur))) m m'"
proof -
  have f: "rb_parent (m p) = g" "rb_right (m g) = u" "rb_red (m u)" "rb_parent (m u) = g"
    "p \<noteq> NULL" "g \<noteq> NULL" "u \<noteq> NULL" "p \<noteq> u" "p \<noteq> g" "u \<noteq> g"
    using t by (auto simp: tree_at_def rep_plug inorder_plug)
  let ?m = "m(p := (m p)\<lparr>rb_red := False\<rparr>, u := (m u)\<lparr>rb_red := False\<rparr>,
              g := (m g)\<lparr>rb_red := True\<rparr>)"
  show ?thesis
  proof
    show "insert_fixup_left rt s m n = Some (rt, ?m, g)"
      using f n by (simp add: insert_fixup_left_def rb_ops)
    show "tree_at s P ?m (plug k (N (N x p False y) g True (N ul u False ur)))"
      using t by (auto simp: tree_at_def rep_plug inorder_plug)
    show "same_outside (plug k (N (N x p True y) g False (N ul u True ur))) m ?m"
      by (auto simp: same_outside_def inorder_plug)
  qed
qed

lemma fixup_right_red_uncle:
  assumes t: "tree_at s P m (plug k (N (N ul u True ur) g False (N x p True y)))"
    and n: "rb_parent (m n) = p" "n \<noteq> NULL" "n \<noteq> p" "n \<noteq> u" "n \<noteq> g"
  obtains m' where "insert_fixup_right rt s m n = Some (rt, m', g)"
    "tree_at s P m' (plug k (N (N ul u False ur) g True (N x p False y)))"
    "same_outside (plug k (N (N ul u True ur) g False (N x p True y))) m m'"
proof -
  have f: "rb_parent (m p) = g" "rb_left (m g) = u" "rb_red (m u)" "rb_parent (m u) = g"
    "p \<noteq> NULL" "g \<noteq> NULL" "u \<noteq> NULL" "p \<noteq> u" "p \<noteq> g" "u \<noteq> g"
    using t by (auto simp: tree_at_def rep_plug inorder_plug)
  let ?m = "m(p := (m p)\<lparr>rb_red := False\<rparr>, u := (m u)\<lparr>rb_red := False\<rparr>,
              g := (m g)\<lparr>rb_red := True\<rparr>)"
  show ?thesis
  proof
    show "insert_fixup_right rt s m n = Some (rt, ?m, g)"
      using f n by (simp add: insert_fixup_right_def rb_ops)
    show "tree_at s P ?m (plug k (N (N ul u False ur) g True (N x p False y)))"
      using t by (auto simp: tree_at_def rep_plug inorder_plug)
    show "same_outside (plug k (N (N ul u True ur) g False (N x p True y))) m ?m"
      by (auto simp: same_outside_def inorder_plug)
  qed
qed

text \<open>The part after the optional first rotation.\<close>

lemma recolor_rotate_right:
  assumes t: "tree_at s P m (plug k (N (N (N a n cn b) p True x) g False u))"
  obtains m1 m2 m' where
    "st_rbtree_black m p = Some m1" "st_rbtree_red m1 g = Some m2"
    "st_rbtree_right_rotate (rootc k g) s m2 g = Some (rootc k p, m')"
    "tree_at s P m' (plug k (N (N a n cn b) p False (N x g True u)))"
    "same_outside (plug k (N (N (N a n cn b) p True x) g False u)) m m'"
    "rb_parent (m n) = p" "rb_parent (m1 n) = p" "rb_parent (m1 p) = g"
    "rb_parent (m2 n) = p" "rb_parent (m2 p) = g" "n \<noteq> NULL" "p \<noteq> NULL" "g \<noteq> NULL"
proof -
  obtain m1 where 1: "st_rbtree_black m p = Some m1"
    "tree_at s P m1 (plug k (N (N (N a n cn b) p False x) g False u))"
    "same_outside (plug k (N (N (N a n cn b) p True x) g False u)) m m1"
    using black_step[of s P m "FL g False u # k" "N a n cn b" p True x] t by auto
  obtain m2 where 2: "st_rbtree_red m1 g = Some m2"
    "tree_at s P m2 (plug k (N (N (N a n cn b) p False x) g True u))"
    "same_outside (plug k (N (N (N a n cn b) p False x) g False u)) m1 m2"
    using red_step[OF 1(2)] by auto
  obtain m' where 3: "st_rbtree_right_rotate (rootc k g) s m2 g = Some (rootc k p, m')"
    "tree_at s P m' (plug k (N (N a n cn b) p False (N x g True u)))"
    "same_outside (plug k (N (N (N a n cn b) p False x) g True u)) m2 m'"
    using right_rotate_step[OF 2(2)] by auto
  have "same_outside (plug k (N (N (N a n cn b) p True x) g False u)) m m'"
    using 1(3) 2(3) 3(3) by (auto simp: same_outside_def inorder_plug)
  with 1 2 3 t show ?thesis
    by (intro that[of m1 m2 m']) (auto simp: tree_at_def rep_plug inorder_plug)
qed

lemma recolor_rotate_left:
  assumes t: "tree_at s P m (plug k (N u g False (N x p True (N a n cn b))))"
  obtains m1 m2 m' where
    "st_rbtree_black m p = Some m1" "st_rbtree_red m1 g = Some m2"
    "st_rbtree_left_rotate (rootc k g) s m2 g = Some (rootc k p, m')"
    "tree_at s P m' (plug k (N (N u g True x) p False (N a n cn b)))"
    "same_outside (plug k (N u g False (N x p True (N a n cn b)))) m m'"
    "rb_parent (m n) = p" "rb_parent (m1 n) = p" "rb_parent (m1 p) = g"
    "rb_parent (m2 n) = p" "rb_parent (m2 p) = g" "n \<noteq> NULL" "p \<noteq> NULL" "g \<noteq> NULL"
proof -
  obtain m1 where 1: "st_rbtree_black m p = Some m1"
    "tree_at s P m1 (plug k (N u g False (N x p False (N a n cn b))))"
    "same_outside (plug k (N u g False (N x p True (N a n cn b)))) m m1"
    using black_step[of s P m "FR u g False # k" x p True "N a n cn b"] t by auto
  obtain m2 where 2: "st_rbtree_red m1 g = Some m2"
    "tree_at s P m2 (plug k (N u g True (N x p False (N a n cn b))))"
    "same_outside (plug k (N u g False (N x p False (N a n cn b)))) m1 m2"
    using red_step[OF 1(2)] by auto
  obtain m' where 3: "st_rbtree_left_rotate (rootc k g) s m2 g = Some (rootc k p, m')"
    "tree_at s P m' (plug k (N (N u g True x) p False (N a n cn b)))"
    "same_outside (plug k (N u g True (N x p False (N a n cn b)))) m2 m'"
    using left_rotate_step[OF 2(2)] by auto
  have "same_outside (plug k (N u g False (N x p True (N a n cn b)))) m m'"
    using 1(3) 2(3) 3(3) by (auto simp: same_outside_def inorder_plug)
  with 1 2 3 t show ?thesis
    by (intro that[of m1 m2 m']) (auto simp: tree_at_def rep_plug inorder_plug)
qed

lemma fixup_left_left:
  assumes t: "tree_at s P m (plug k (N (N (N a n True b) p True x) g False u))" and u: "\<not> isred u"
  obtains m' where "insert_fixup_left (rootc k g) s m n = Some (rootc k p, m', n)"
    "tree_at s P m' (plug k (N (N a n True b) p False (N x g True u)))"
    "same_outside (plug k (N (N (N a n True b) p True x) g False u)) m m'"
proof -
  have f: "rb_parent (m p) = g" "rb_right (m g) = root_of s u" "rb_right (m p) = root_of s x"
    "\<not> rb_red (m (root_of s u))" "root_of s u \<noteq> NULL" "root_of s x \<noteq> n" "n \<noteq> root_of s x"
    using tree_at_red[of s P m "FR (N (N a n True b) p True x) g False # k" u] t u
    by (cases x; auto simp: tree_at_def rep_plug inorder_plug)+
  obtain m1 m2 m' where r: "st_rbtree_black m p = Some m1" "st_rbtree_red m1 g = Some m2"
    "st_rbtree_right_rotate (rootc k g) s m2 g = Some (rootc k p, m')"
    "tree_at s P m' (plug k (N (N a n True b) p False (N x g True u)))"
    "same_outside (plug k (N (N (N a n True b) p True x) g False u)) m m'"
    "rb_parent (m n) = p" "rb_parent (m1 n) = p" "rb_parent (m1 p) = g"
    "rb_parent (m2 n) = p" "rb_parent (m2 p) = g" "n \<noteq> NULL" "p \<noteq> NULL" "g \<noteq> NULL"
    using recolor_rotate_right[OF t] .
  have "insert_fixup_left (rootc k g) s m n = Some (rootc k p, m', n)"
    by (simp add: insert_fixup_left_def rb_reads f r)
  from that[OF this r(4,5)] show ?thesis .
qed

lemma fixup_left_right:
  assumes t: "tree_at s P m (plug k (N (N x p True (N a n True b)) g False u))" and u: "\<not> isred u"
  obtains m' where "insert_fixup_left (rootc k g) s m n = Some (rootc k n, m', p)"
    "tree_at s P m' (plug k (N (N x p True a) n False (N b g True u)))"
    "same_outside (plug k (N (N x p True (N a n True b)) g False u)) m m'"
proof -
  have f: "rb_parent (m n) = p" "rb_parent (m p) = g" "rb_right (m g) = root_of s u"
    "rb_right (m p) = n" "\<not> rb_red (m (root_of s u))" "root_of s u \<noteq> NULL"
    using tree_at_red[of s P m "FR (N x p True (N a n True b)) g False # k" u] t u
    by (auto simp: tree_at_def rep_plug)
  obtain m0 where 0: "st_rbtree_left_rotate (rootc k g) s m p = Some (rootc k g, m0)"
    "tree_at s P m0 (plug k (N (N (N x p True a) n True b) g False u))"
    "same_outside (plug k (N (N x p True (N a n True b)) g False u)) m m0"
    using left_rotate_step[of s P m "FL g False u # k" x p True a n True b] t by auto
  obtain m1 m2 m' where r: "st_rbtree_black m0 n = Some m1" "st_rbtree_red m1 g = Some m2"
    "st_rbtree_right_rotate (rootc k g) s m2 g = Some (rootc k n, m')"
    "tree_at s P m' (plug k (N (N x p True a) n False (N b g True u)))"
    "same_outside (plug k (N (N (N x p True a) n True b) g False u)) m0 m'"
    "rb_parent (m0 p) = n" "rb_parent (m1 p) = n" "rb_parent (m1 n) = g"
    "rb_parent (m2 p) = n" "rb_parent (m2 n) = g" "p \<noteq> NULL" "n \<noteq> NULL" "g \<noteq> NULL"
    using recolor_rotate_right[OF 0(2)] .
  have e: "insert_fixup_left (rootc k g) s m n = Some (rootc k n, m', p)"
    by (simp add: insert_fixup_left_def rb_reads f r 0)
  have "same_outside (plug k (N (N x p True (N a n True b)) g False u)) m m'"
    using 0(3) r(5) by (auto simp: same_outside_def inorder_plug)
  from that[OF e r(4) this] show ?thesis .
qed

lemma fixup_right_right:
  assumes t: "tree_at s P m (plug k (N u g False (N x p True (N a n True b))))" and u: "\<not> isred u"
  obtains m' where "insert_fixup_right (rootc k g) s m n = Some (rootc k p, m', n)"
    "tree_at s P m' (plug k (N (N u g True x) p False (N a n True b)))"
    "same_outside (plug k (N u g False (N x p True (N a n True b)))) m m'"
proof -
  have f: "rb_parent (m p) = g" "rb_left (m g) = root_of s u" "rb_left (m p) = root_of s x"
    "\<not> rb_red (m (root_of s u))" "root_of s u \<noteq> NULL" "root_of s x \<noteq> n" "n \<noteq> root_of s x"
    using tree_at_red[of s P m "FL g False (N x p True (N a n True b)) # k" u] t u
    by (cases x; auto simp: tree_at_def rep_plug inorder_plug)+
  obtain m1 m2 m' where r: "st_rbtree_black m p = Some m1" "st_rbtree_red m1 g = Some m2"
    "st_rbtree_left_rotate (rootc k g) s m2 g = Some (rootc k p, m')"
    "tree_at s P m' (plug k (N (N u g True x) p False (N a n True b)))"
    "same_outside (plug k (N u g False (N x p True (N a n True b)))) m m'"
    "rb_parent (m n) = p" "rb_parent (m1 n) = p" "rb_parent (m1 p) = g"
    "rb_parent (m2 n) = p" "rb_parent (m2 p) = g" "n \<noteq> NULL" "p \<noteq> NULL" "g \<noteq> NULL"
    using recolor_rotate_left[OF t] .
  have "insert_fixup_right (rootc k g) s m n = Some (rootc k p, m', n)"
    by (simp add: insert_fixup_right_def rb_reads f r)
  from that[OF this r(4,5)] show ?thesis .
qed

lemma fixup_right_left:
  assumes t: "tree_at s P m (plug k (N u g False (N (N a n True b) p True x)))" and u: "\<not> isred u"
  obtains m' where "insert_fixup_right (rootc k g) s m n = Some (rootc k n, m', p)"
    "tree_at s P m' (plug k (N (N u g True a) n False (N b p True x)))"
    "same_outside (plug k (N u g False (N (N a n True b) p True x))) m m'"
proof -
  have f: "rb_parent (m n) = p" "rb_parent (m p) = g" "rb_left (m g) = root_of s u"
    "rb_left (m p) = n" "\<not> rb_red (m (root_of s u))" "root_of s u \<noteq> NULL"
    using tree_at_red[of s P m "FL g False (N (N a n True b) p True x) # k" u] t u
    by (auto simp: tree_at_def rep_plug)
  obtain m0 where 0: "st_rbtree_right_rotate (rootc k g) s m p = Some (rootc k g, m0)"
    "tree_at s P m0 (plug k (N u g False (N a n True (N b p True x))))"
    "same_outside (plug k (N u g False (N (N a n True b) p True x))) m m0"
    using right_rotate_step[of s P m "FR u g False # k" a n True b p True x] t by auto
  obtain m1 m2 m' where r: "st_rbtree_black m0 n = Some m1" "st_rbtree_red m1 g = Some m2"
    "st_rbtree_left_rotate (rootc k g) s m2 g = Some (rootc k n, m')"
    "tree_at s P m' (plug k (N (N u g True a) n False (N b p True x)))"
    "same_outside (plug k (N u g False (N a n True (N b p True x)))) m0 m'"
    "rb_parent (m0 p) = n" "rb_parent (m1 p) = n" "rb_parent (m1 n) = g"
    "rb_parent (m2 p) = n" "rb_parent (m2 n) = g" "p \<noteq> NULL" "n \<noteq> NULL" "g \<noteq> NULL"
    using recolor_rotate_left[OF 0(2)] .
  have e: "insert_fixup_right (rootc k g) s m n = Some (rootc k n, m', p)"
    by (simp add: insert_fixup_right_def rb_reads f r 0)
  have "same_outside (plug k (N u g False (N (N a n True b) p True x))) m m'"
    using 0(3) r(5) by (auto simp: same_outside_def inorder_plug)
  from that[OF e r(4) this] show ?thesis .
qed

section \<open>The rebalancing loop\<close>

text \<open>
  What one turn achieves.  Either the focus moves two levels up with the same invariant, or the
  tree is a red-black tree again and the next test of the loop ends it.
\<close>

definition ins_inv :: "addr \<Rightarrow> addr \<Rightarrow> rbmem \<Rightarrow> frame list \<Rightarrow> rbt \<Rightarrow> bool" where
  "ins_inv s P m k t \<longleftrightarrow> tree_at s P m (plug k t) \<and> isred t \<and> invc t \<and> invh t \<and>
     hctx k (bheight t) \<and> cctx k False \<and> (k \<noteq> [] \<longrightarrow> \<not> ctop k True)"

definition ins_done :: "addr \<Rightarrow> addr \<Rightarrow> rbmem \<Rightarrow> addr \<Rightarrow> rbt \<Rightarrow> bool" where
  "ins_done s P m n t \<longleftrightarrow> tree_at s P m t \<and> invc t \<and> invh t \<and> \<not> isred t \<and>
     (\<exists>k l c r. t = plug k (N l n c r) \<and> k \<noteq> [] \<and> \<not> rb_red (m (par P k)))"

definition ins_turn :: "addr \<Rightarrow> addr \<Rightarrow> rbt \<Rightarrow> frame list \<Rightarrow> addr \<Rightarrow> rbmem \<Rightarrow> addr \<Rightarrow> bool" where
  "ins_turn s P t k rt m n \<longleftrightarrow>
     (\<exists>a b. ins_inv s P m k (N a n True b) \<and> rt = rootc k n \<and>
        inorder (plug k (N a n True b)) = inorder t) \<or>
     (\<exists>t'. ins_done s P m n t' \<and> rt = root_of s t' \<and> inorder t' = inorder t)"

lemma ins_turn_up:
  "ins_inv s P m k (N a n True b) \<Longrightarrow> inorder (plug k (N a n True b)) = inorder t \<Longrightarrow>
    ins_turn s P t k (rootc k n) m n"
  by (auto simp: ins_turn_def)

lemma ins_turn_done:
  "ins_done s P m n t' \<Longrightarrow> inorder t' = inorder t \<Longrightarrow> root_of s t' = rt \<Longrightarrow> ins_turn s P t k rt m n"
  by (auto simp: ins_turn_def)

text \<open>The rotated tree has a black node at the focus and the red nodes below it.\<close>

lemma ins_done_intro:
  assumes "tree_at s P m (plug k (N (N a x True b) y False (N c z True d)))"
    and "invc a" "invc b" "invc c" "invc d" "\<not> isred a" "\<not> isred b" "\<not> isred c" "\<not> isred d"
    and "invh a" "invh b" "invh c" "invh d" "bheight b = bheight a" "bheight c = bheight a"
      "bheight d = bheight a" "hctx k (Suc (bheight a))" "cctx k False" "k \<noteq> [] \<longrightarrow> \<not> ctop k False"
  shows "ins_done s P m x (plug k (N (N a x True b) y False (N c z True d)))"
    and "ins_done s P m z (plug k (N (N a x True b) y False (N c z True d)))"
proof -
  let ?t = "N (N a x True b) y False (N c z True d)"
  have i: "invc (plug k ?t)" "invh (plug k ?t)" "\<not> isred (plug k ?t)"
    using assms by (cases "k = []"; auto simp: invc_plug invh_plug isred_plug)+
  have y: "\<not> rb_red (m y)" using tree_at_focus(1)[OF assms(1)] by simp
  have "plug k ?t = plug (FL y False (N c z True d) # k) (N a x True b)"
    "plug k ?t = plug (FR (N a x True b) y False # k) (N c z True d)" by simp_all
  with i y assms(1) show "ins_done s P m x (plug k ?t)" "ins_done s P m z (plug k ?t)"
    unfolding ins_done_def by (metis list.distinct(1) par.simps(2) , metis list.distinct(1) par.simps(3))
qed

lemma insert_step_left:
  assumes i: "ins_inv s P m (f # FL g c u # k) (N a n True b)"
    and f: "f = FL p True x \<or> f = FR x p True"
  shows "\<exists>rt' m' n'. insert_fixup_step (rootc k g) s m n = Some (rt', m', n') \<and>
    ins_turn s P (plug (f # FL g c u # k) (N a n True b)) k rt' m' n' \<and>
    same_outside (plug (f # FL g c u # k) (N a n True b)) m m'"
proof -
  have c: "\<not> c" using i f by (auto simp: ins_inv_def)
  have top: "k \<noteq> [] \<longrightarrow> \<not> ctop k d" for d
    using i c f ctop_nonempty[of k False d] by (auto simp: ins_inv_def)
  let ?T = "plug (f # FL g c u # k) (N a n True b)"
  have r: "rb_parent (m n) = p" "rb_parent (m p) = g" "rb_left (m g) = p" "n \<noteq> NULL"
    "p \<noteq> NULL" "g \<noteq> NULL" "n \<noteq> p" "n \<noteq> g" "\<not> isred x"
    using i f by (auto simp: ins_inv_def tree_at_def rep_plug inorder_plug)
  then have e: "insert_fixup_step (rootc k g) s m n = insert_fixup_left (rootc k g) s m n"
    by (simp add: insert_fixup_step_def rb_reads)
  show ?thesis
  proof (cases "isred u")
    case True
    then obtain ul v ur where u: "u = N ul v True ur" by (cases u) auto
    obtain y z where yz: "?T = plug k (N (N y p True z) g False (N ul v True ur))"
      "invc y" "invc z" "invh y" "invh z" "bheight y = bheight z" "bheight z = bheight ul"
      "inorder (N y p True z) = inorder (plug [f] (N a n True b))"
      using f i c u by (cases rule: disjE[OF f]) (auto simp: ins_inv_def)
    have t: "tree_at s P m (plug k (N (N y p True z) g False (N ul v True ur)))"
      using i yz(1) by (simp add: ins_inv_def)
    have "n \<noteq> v" using i f u by (auto simp: ins_inv_def tree_at_def inorder_plug)
    then obtain m' where m': "insert_fixup_left (rootc k g) s m n = Some (rootc k g, m', g)"
      "tree_at s P m' (plug k (N (N y p False z) g True (N ul v False ur)))"
      "same_outside (plug k (N (N y p True z) g False (N ul v True ur))) m m'"
      using fixup_left_red_uncle[OF t] r by metis
    have "ins_inv s P m' k (N (N y p False z) g True (N ul v False ur))"
      using m'(2) i yz u c f top[of True] by (auto simp: ins_inv_def dest: cctx_black)
    then have "ins_turn s P ?T k (rootc k g) m' g"
      by (rule ins_turn_up) (simp add: yz(1) inorder_plug)
    with m' e yz(1) show ?thesis by auto
  next
    case False
    show ?thesis
    proof (rule disjE[OF f])
      assume ff: "f = FL p True x"
      have t: "tree_at s P m (plug k (N (N (N a n True b) p True x) g False u))"
        using i ff c by (simp add: ins_inv_def)
      obtain m' where m': "insert_fixup_left (rootc k g) s m n = Some (rootc k p, m', n)"
        "tree_at s P m' (plug k (N (N a n True b) p False (N x g True u)))"
        "same_outside (plug k (N (N (N a n True b) p True x) g False u)) m m'"
        using fixup_left_left[OF t False] .
      have "ins_done s P m' n (plug k (N (N a n True b) p False (N x g True u)))"
        using m'(2) i ff c False r top[of False] by (intro ins_done_intro) (auto simp: ins_inv_def)
      then have "ins_turn s P ?T k (rootc k p) m' n"
        by (rule ins_turn_done) (simp_all add: ff inorder_plug root_of_plug)
      with m' e ff c show ?thesis by auto
    next
      assume ff: "f = FR x p True"
      have t: "tree_at s P m (plug k (N (N x p True (N a n True b)) g False u))"
        using i ff c by (simp add: ins_inv_def)
      obtain m' where m': "insert_fixup_left (rootc k g) s m n = Some (rootc k n, m', p)"
        "tree_at s P m' (plug k (N (N x p True a) n False (N b g True u)))"
        "same_outside (plug k (N (N x p True (N a n True b)) g False u)) m m'"
        using fixup_left_right[OF t False] .
      have "ins_done s P m' p (plug k (N (N x p True a) n False (N b g True u)))"
        using m'(2) i ff c False r top[of False] by (intro ins_done_intro) (auto simp: ins_inv_def)
      then have "ins_turn s P ?T k (rootc k n) m' p"
        by (rule ins_turn_done) (simp_all add: ff inorder_plug root_of_plug)
      with m' e ff c show ?thesis by auto
    qed
  qed
qed
lemma insert_step_right:
  assumes i: "ins_inv s P m (f # FR u g c # k) (N a n True b)"
    and f: "f = FL p True x \<or> f = FR x p True"
  shows "\<exists>rt' m' n'. insert_fixup_step (rootc k g) s m n = Some (rt', m', n') \<and>
    ins_turn s P (plug (f # FR u g c # k) (N a n True b)) k rt' m' n' \<and>
    same_outside (plug (f # FR u g c # k) (N a n True b)) m m'"
proof -
  have c: "\<not> c" using i f by (auto simp: ins_inv_def)
  have top: "k \<noteq> [] \<longrightarrow> \<not> ctop k d" for d
    using i c f ctop_nonempty[of k False d] by (auto simp: ins_inv_def)
  let ?T = "plug (f # FR u g c # k) (N a n True b)"
  have r: "rb_parent (m n) = p" "rb_parent (m p) = g" "rb_left (m g) = root_of s u" "n \<noteq> NULL"
    "p \<noteq> NULL" "g \<noteq> NULL" "n \<noteq> p" "n \<noteq> g" "\<not> isred x" "p \<noteq> s" "p \<notin> set (inorder u)"
    using i f by (auto simp: ins_inv_def tree_at_def rep_plug inorder_plug)
  then have "p \<noteq> root_of s u" by (cases u) auto
  with r have e: "insert_fixup_step (rootc k g) s m n = insert_fixup_right (rootc k g) s m n"
    by (simp add: insert_fixup_step_def rb_reads)
  show ?thesis
  proof (cases "isred u")
    case True
    then obtain ul v ur where u: "u = N ul v True ur" by (cases u) auto
    obtain y z where yz: "?T = plug k (N (N ul v True ur) g False (N y p True z))"
      "invc y" "invc z" "invh y" "invh z" "bheight y = bheight z" "bheight z = bheight ul"
      "inorder (N y p True z) = inorder (plug [f] (N a n True b))"
      using f i c u by (cases rule: disjE[OF f]) (auto simp: ins_inv_def)
    have t: "tree_at s P m (plug k (N (N ul v True ur) g False (N y p True z)))"
      using i yz(1) by (simp add: ins_inv_def)
    have "n \<noteq> v" using i f u by (auto simp: ins_inv_def tree_at_def inorder_plug)
    then obtain m' where m': "insert_fixup_right (rootc k g) s m n = Some (rootc k g, m', g)"
      "tree_at s P m' (plug k (N (N ul v False ur) g True (N y p False z)))"
      "same_outside (plug k (N (N ul v True ur) g False (N y p True z))) m m'"
      using fixup_right_red_uncle[OF t] r by metis
    have "ins_inv s P m' k (N (N ul v False ur) g True (N y p False z))"
      using m'(2) i yz u c f top[of True] by (auto simp: ins_inv_def dest: cctx_black)
    then have "ins_turn s P ?T k (rootc k g) m' g"
      by (rule ins_turn_up) (simp add: yz(1) inorder_plug)
    with m' e yz(1) show ?thesis by auto
  next
    case False
    show ?thesis
    proof (rule disjE[OF f])
      assume ff: "f = FL p True x"
      have t: "tree_at s P m (plug k (N u g False (N (N a n True b) p True x)))"
        using i ff c by (simp add: ins_inv_def)
      obtain m' where m': "insert_fixup_right (rootc k g) s m n = Some (rootc k n, m', p)"
        "tree_at s P m' (plug k (N (N u g True a) n False (N b p True x)))"
        "same_outside (plug k (N u g False (N (N a n True b) p True x))) m m'"
        using fixup_right_left[OF t False] .
      have "ins_done s P m' p (plug k (N (N u g True a) n False (N b p True x)))"
        using m'(2) i ff c False r top[of False] by (intro ins_done_intro) (auto simp: ins_inv_def)
      then have "ins_turn s P ?T k (rootc k n) m' p"
        by (rule ins_turn_done) (simp_all add: ff inorder_plug root_of_plug)
      with m' e ff c show ?thesis by auto
    next
      assume ff: "f = FR x p True"
      have t: "tree_at s P m (plug k (N u g False (N x p True (N a n True b))))"
        using i ff c by (simp add: ins_inv_def)
      obtain m' where m': "insert_fixup_right (rootc k g) s m n = Some (rootc k p, m', n)"
        "tree_at s P m' (plug k (N (N u g True x) p False (N a n True b)))"
        "same_outside (plug k (N u g False (N x p True (N a n True b)))) m m'"
        using fixup_right_right[OF t False] .
      have "ins_done s P m' n (plug k (N (N u g True x) p False (N a n True b)))"
        using m'(2) i ff c False r top[of False] by (intro ins_done_intro) (auto simp: ins_inv_def)
      then have "ins_turn s P ?T k (rootc k p) m' n"
        by (rule ins_turn_done) (simp_all add: ff inorder_plug root_of_plug)
      with m' e ff c show ?thesis by auto
    qed
  qed
qed

text \<open>The loop, by induction on the length of the path to the root.\<close>

lemma insert_fixup_done:
  assumes "ins_done s P m n t"
  shows "insert_fixup (root_of s t) s m n = Some (root_of s t, m)"
proof -
  obtain k l c r where k: "t = plug k (N l n c r)" "k \<noteq> []" "\<not> rb_red (m (par P k))"
    and t: "tree_at s P m (plug k (N l n c r))"
    using assms by (auto simp: ins_done_def)
  have "par P k \<noteq> NULL"
    using tree_at_nonnull[OF t] par_in[OF k(2)] by (auto simp: inorder_plug)
  with k tree_at_focus[OF t] show ?thesis
    by (subst insert_fixup.simps) (simp add: rb_reads)
qed

theorem insert_fixup_correct:
  assumes "ins_inv s P m k (N a n True b)"
  shows "\<exists>m' t'. insert_fixup (rootc k n) s m n = Some (root_of s t', m') \<and> tree_at s P m' t' \<and>
    invc t' \<and> invh t' \<and> inorder t' = inorder (plug k (N a n True b)) \<and>
    same_outside (plug k (N a n True b)) m m'"
  using assms
proof (induction "length k" arbitrary: k m a n b rule: less_induct)
  case less
  let ?T = "plug k (N a n True b)"
  have t: "tree_at s P m ?T" using less.prems by (simp add: ins_inv_def)
  have root: "n = rootc k n \<longleftrightarrow> k = []"
    using tree_at_root_iff[OF t] by (simp add: root_of_plug)
  show ?case
  proof (cases "k \<noteq> [] \<and> rb_red (m (par P k))")
    case False
    have "par P k \<noteq> NULL" if "k \<noteq> []"
      using tree_at_nonnull[OF t] par_in[OF that] by (auto simp: inorder_plug)
    with False root tree_at_focus[OF t]
    have e: "insert_fixup (rootc k n) s m n = Some (rootc k n, m)"
      by (subst insert_fixup.simps) (auto simp: rb_reads)
    have "cctx k True"
      using False t less.prems
      by (cases k rule: path_cases) (auto simp: ins_inv_def tree_at_def rep_plug)
    with less.prems have "invc ?T" "invh ?T" by (auto simp: ins_inv_def invc_plug invh_plug)
    with e t show ?thesis
      by (intro exI[of _ m] exI[of _ ?T]) (auto simp: root_of_plug same_outside_def)
  next
    case True
    then obtain f j where k: "k = f # j" by (cases k) auto
    obtain p x where f: "f = FL p True x \<or> f = FR x p True"
      using True t k by (cases f) (auto simp: tree_at_def rep_plug)
    then have "j \<noteq> []" using less.prems k by (auto simp: ins_inv_def)
    then obtain g c u i where j: "j = FL g c u # i \<or> j = FR u g c # i"
      by (cases j rule: path_cases) auto
    have "\<exists>rt' m' n'. insert_fixup_step (rootc i g) s m n = Some (rt', m', n') \<and>
      ins_turn s P ?T i rt' m' n' \<and> same_outside ?T m m'"
      using j insert_step_left[OF _ f] insert_step_right[OF _ f] less.prems k by metis
    then obtain rt' m' n' where s: "insert_fixup_step (rootc k n) s m n = Some (rt', m', n')"
      "ins_turn s P ?T i rt' m' n'" "same_outside ?T m m'"
      using k f j by auto
    have p: "par P k \<noteq> NULL" "rb_parent (m n) = par P k" "n \<noteq> NULL"
      using True tree_at_focus[OF t] tree_at_nonnull[OF t] par_in[of k P]
      by (auto simp: inorder_plug)
    have e: "insert_fixup (rootc k n) s m n = insert_fixup rt' s m' n'"
      using True root p s(1) by (subst insert_fixup.simps) (simp add: rb_reads)
    show ?thesis using s(2) unfolding ins_turn_def
    proof (elim disjE exE conjE)
      fix a' b'
      assume n: "ins_inv s P m' i (N a' n' True b')" "rt' = rootc i n'"
        "inorder (plug i (N a' n' True b')) = inorder ?T"
      have "length i < length k" using k j by auto
      from less.hyps[OF this n(1)] obtain m'' t' where
        "insert_fixup (rootc i n') s m' n' = Some (root_of s t', m'')" "tree_at s P m'' t'"
        "invc t'" "invh t'" "inorder t' = inorder (plug i (N a' n' True b'))"
        "same_outside (plug i (N a' n' True b')) m' m''"
        by blast
      with e n(2,3) same_outside_trans[OF s(3)] show ?thesis by auto
    next
      fix t'
      assume n: "ins_done s P m' n' t'" "rt' = root_of s t'" "inorder t' = inorder ?T"
      with insert_fixup_done[OF n(1)] e s(3) show ?thesis
        by (auto simp: ins_done_def)
    qed
  qed
qed

section \<open>The search for the place\<close>

fun fside :: "frame list \<Rightarrow> side" where
  "fside (FR l a c # k) = Right_side"
| "fside _ = Left_side"

fun faddr :: "frame \<Rightarrow> addr" where
  "faddr (FL a c r) = a"
| "faddr (FR l a c) = a"

text \<open>A path turns left at a node exactly when the new node is smaller.\<close>

definition guided :: "(addr \<Rightarrow> addr \<Rightarrow> int) \<Rightarrow> addr \<Rightarrow> frame list \<Rightarrow> bool" where
  "guided cmp n k \<longleftrightarrow> (\<forall>f \<in> set k. fside [f] = Left_side \<longleftrightarrow> cmp n (faddr f) < 0)"

lemma guided_simps [simp]:
  "guided cmp n []"
  "guided cmp n (FL a c r # k) \<longleftrightarrow> cmp n a < 0 \<and> guided cmp n k"
  "guided cmp n (FR l a c # k) \<longleftrightarrow> \<not> cmp n a < 0 \<and> guided cmp n k"
  "guided cmp n (j @ k) \<longleftrightarrow> guided cmp n j \<and> guided cmp n k"
  by (auto simp: guided_def)

lemma insert_descend_ok:
  assumes "tree_at s P m (plug k t)" "t \<noteq> E"
  shows "(\<exists>y \<in> set (inorder t). \<not> allow \<and> cmp n y = 0 \<and>
      insert_descend cmp s m n allow (root_of s t) e = Some (Inl y)) \<or>
    (\<exists>j e'. insert_descend cmp s m n allow (root_of s t) e =
        Some (Inr (par P (j @ k), fside (j @ k), e')) \<and> j \<noteq> [] \<and> t = plug j E \<and> guided cmp n j \<and>
        (e' = e \<and> (\<forall>f \<in> set j. cmp n (faddr f) \<noteq> 0) \<or>
         allow \<and> e' \<in> set (inorder t) \<and> cmp n e' = 0))"
  using assms
proof (induction t arbitrary: k e)
  case (N l a c r)
  note f = tree_at_focus[OF N.prems(1)]
  let ?d = "insert_descend cmp s m n allow a e"
  consider (eq) "cmp n a = 0" "\<not> allow" | (lt) "cmp n a < 0"
    | (ge) "\<not> cmp n a < 0" "cmp n a \<noteq> 0 \<or> allow" by linarith
  then show ?case
  proof cases
    case eq
    then show ?thesis by (subst (1) insert_descend.simps) (auto simp: insert_descend.simps)
  next
    case lt
    have t: "tree_at s P m (plug (FL a c r # k) l)" using N.prems by simp
    have d: "?d = (if l = E then Some (Inr (a, Left_side, e))
        else insert_descend cmp s m n allow (root_of s l) e)"
      using lt f tree_at_red(3)[OF t]
      by (subst insert_descend.simps) (simp add: get_side_def rb_reads)
    show ?thesis
    proof (cases "l = E")
      case True
      with d lt show ?thesis by (intro disjI2 exI[of _ "[FL a c r]"] exI[of _ e]) auto
    next
      case False
      let ?i = "insert_descend cmp s m n allow (root_of s l) e"
      from N.IH(1)[OF t False, of e]
      consider (found) y where "y \<in> set (inorder l)" "\<not> allow" "cmp n y = 0" "?i = Some (Inl y)"
        | (place) j e' where "?i = Some (Inr (par P (j @ FL a c r # k), fside (j @ FL a c r # k), e'))"
          "j \<noteq> []" "l = plug j E" "guided cmp n j"
          "e' = e \<and> (\<forall>f \<in> set j. cmp n (faddr f) \<noteq> 0) \<or>
           allow \<and> e' \<in> set (inorder l) \<and> cmp n e' = 0"
        by blast
      then show ?thesis
      proof cases
        case (found y)
        with d False show ?thesis by auto
      next
        case (place j e')
        with d lt False show ?thesis
          by (intro disjI2 exI[of _ "j @ [FL a c r]"] exI[of _ e']) (auto simp: plug_append)
      qed
    qed
  next
    case ge
    have t: "tree_at s P m (plug (FR l a c # k) r)" using N.prems by simp
    let ?e = "if cmp n a = 0 then a else e"
    have d: "?d = (if r = E then Some (Inr (a, Right_side, ?e))
        else insert_descend cmp s m n allow (root_of s r) ?e)"
      using ge f tree_at_red(3)[OF t]
      by (subst insert_descend.simps) (auto simp: get_side_def rb_reads)
    show ?thesis
    proof (cases "r = E")
      case True
      with d ge show ?thesis by (intro disjI2 exI[of _ "[FR l a c]"] exI[of _ ?e]) auto
    next
      case False
      let ?i = "insert_descend cmp s m n allow (root_of s r) ?e"
      from N.IH(2)[OF t False, of ?e]
      consider (found) y where "y \<in> set (inorder r)" "\<not> allow" "cmp n y = 0" "?i = Some (Inl y)"
        | (place) j e' where "?i = Some (Inr (par P (j @ FR l a c # k), fside (j @ FR l a c # k), e'))"
          "j \<noteq> []" "r = plug j E" "guided cmp n j"
          "e' = ?e \<and> (\<forall>f \<in> set j. cmp n (faddr f) \<noteq> 0) \<or>
           allow \<and> e' \<in> set (inorder r) \<and> cmp n e' = 0"
        by blast
      then show ?thesis
      proof cases
        case (found y)
        with d False show ?thesis by auto
      next
        case (place j e')
        with d ge False show ?thesis
          by (intro disjI2 exI[of _ "j @ [FR l a c]"] exI[of _ e']) (auto simp: plug_append)
      qed
    qed
  qed
qed simp

text \<open>In a sorted tree a guided path splits the nodes the way ordered insertion does.\<close>

locale node_order = comparator A cmp for A :: "addr set" and cmp :: "addr \<Rightarrow> addr \<Rightarrow> int"
begin

lemma guided_split:
  assumes "guided cmp n k" "sorted_by cmp (fleft k @ fright k)" "n \<in> A"
    "set (fleft k @ fright k) \<subseteq> A"
  shows "(\<forall>y \<in> set (fleft k). \<not> cmp n y < 0) \<and> (\<forall>y \<in> set (fright k). cmp n y < 0)"
  using assms
proof (induction k rule: fleft.induct)
  case (2 a c r k)
  then show ?case by (auto intro: less_le_trans)
next
  case (3 l a c k)
  then have "\<not> cmp n y < 0" if "y \<in> set (inorder l)" for y
    using that flip[of n a] flip[of n y] trans[of y a n] by auto
  with 3 show ?case by auto
qed simp

lemma guided_noeq:
  assumes "guided cmp n k" "\<forall>f \<in> set k. cmp n (faddr f) \<noteq> 0" "sorted_by cmp (fleft k @ fright k)"
    "n \<in> A" "set (fleft k @ fright k) \<subseteq> A" "y \<in> set (fleft k @ fright k)"
  shows "cmp n y \<noteq> 0"
  using assms
proof (induction k rule: fleft.induct)
  case (2 a c r k)
  then have "cmp n z < 0" if "z \<in> set (inorder r)" for z
    using that less_le_trans[of n a z] by auto
  then have "cmp n z \<noteq> 0" if "z \<in> set (inorder r)" for z
    using that by force
  with 2 show ?case by auto
next
  case (3 l a c k)
  then have "cmp a n < 0" using flip[of a n] by auto
  with 3 have "cmp z n < 0" if "z \<in> set (inorder l)" for z
    using that le_less_trans[of z a n] by auto
  then have "cmp n z \<noteq> 0" if "z \<in> set (inorder l)" for z
    using that 3 flip(2)[of z n] by force
  with 3 show ?case by auto
qed simp

end

interpretation st_cmp_nodes: node_order A "\<lambda>a b. st_cmp (f a) (f b)"
  for A :: "addr set" and f :: "addr \<Rightarrow> 'b::linorder"
  by unfold_locales

section \<open>Hanging the node\<close>

lemma attach_tree_at:
  assumes t: "tree_at s P m (plug k E)" and "k \<noteq> []"
    and n: "n \<notin> set (inorder (plug k E))" "n \<noteq> NULL" "n \<noteq> s"
  obtains m1 m' where "set_side m (par P k) (fside k) n = Some m1"
    "m' = m1(n := \<lparr>rb_left = s, rb_parent = par P k, rb_right = s, rb_red = True\<rparr>)"
    "tree_at s P m' (plug k (N E n True E))"
    "same_outside (plug k (N E n True E)) m m'"
proof -
  have d: "repc m s P k s" "distinct (fleft k @ fright k)" "NULL \<notin> set (fleft k @ fright k)"
    "n \<notin> set (fleft k @ fright k)" "s \<notin> set (fleft k @ fright k)"
    using t n by (auto simp: tree_at_def rep_plug inorder_plug)
  have p: "par P k \<noteq> NULL" using par_in[OF assms(2), of P] d(3) by (metis set_append)
  let ?m1 = "relink m k n"
  let ?m' = "?m1(n := \<lparr>rb_left = s, rb_parent = par P k, rb_right = s, rb_red = True\<rparr>)"
  have "set_side m (par P k) (fside k) n = Some ?m1"
    using assms(2) p by (cases k rule: path_cases) (auto simp: set_side_def rb_ops)
  moreover have "repc ?m' s P k n"
    using relink_repc[OF d(1,2), of n] d(4) by simp
  moreover have "?m1 s = m s" using d by (simp add: relink_other)
  ultimately show ?thesis
    using t n d by (intro that[of ?m1 ?m'])
      (auto simp: tree_at_def rep_plug inorder_plug same_outside_def relink_other)
qed

section \<open>The whole operation\<close>

lemma insert_node_empty:
  assumes "tree_at s P m E" "n \<noteq> NULL" "n \<noteq> s"
  shows "\<exists>m'. insert_node cmp s s m n allow = Some \<lparr>ir_ret = ST_OK, ir_need_rebalance = False,
      ir_root = n, ir_mem = m', ir_existed = NULL\<rparr> \<and> tree_at s NULL m' (N E n False E) \<and>
    (\<forall>x. x \<noteq> n \<longrightarrow> m' x = m x)"
  using assms by (auto simp: insert_node_def rb_ops tree_at_def)

lemma insert_node_place:
  assumes t: "tree_at s P m t" "t \<noteq> E" and inv: "rb_inv t"
    and n: "n \<notin> set (inorder t)" "n \<noteq> NULL" "n \<noteq> s"
  shows "(\<exists>y \<in> set (inorder t). \<not> allow \<and> cmp n y = 0 \<and>
      insert_node cmp (root_of s t) s m n allow = Some \<lparr>ir_ret = ST_EXISTED,
        ir_need_rebalance = False, ir_root = root_of s t, ir_mem = m, ir_existed = y\<rparr>) \<or>
    (\<exists>k e m'. insert_node cmp (root_of s t) s m n allow = Some \<lparr>ir_ret = ST_OK,
        ir_need_rebalance = True, ir_root = rootc k n, ir_mem = m', ir_existed = e\<rparr> \<and>
      t = plug k E \<and> guided cmp n k \<and> ins_inv s P m' k (N E n True E) \<and>
      same_outside (plug k (N E n True E)) m m' \<and>
      (e = NULL \<and> (\<forall>f \<in> set k. cmp n (faddr f) \<noteq> 0) \<or> allow \<and> e \<in> set (inorder t) \<and> cmp n e = 0))"
proof -
  have root: "root_of s t \<noteq> s" using tree_at_red(3)[of s P m "[]" t] t by simp
  have "tree_at s P m (plug [] t)" using t by simp
  from insert_descend_ok[OF this t(2), of allow cmp n NULL]
  consider (found) y where "y \<in> set (inorder t)" "\<not> allow" "cmp n y = 0"
      "insert_descend cmp s m n allow (root_of s t) NULL = Some (Inl y)"
    | (place) k e where
      "insert_descend cmp s m n allow (root_of s t) NULL = Some (Inr (par P k, fside k, e))"
      "k \<noteq> []" "t = plug k E" "guided cmp n k"
      "e = NULL \<and> (\<forall>f \<in> set k. cmp n (faddr f) \<noteq> 0) \<or> allow \<and> e \<in> set (inorder t) \<and> cmp n e = 0"
    unfolding append_Nil2 by blast
  then show ?thesis
  proof cases
    case (found y)
    with root show ?thesis by (auto simp: insert_node_def)
  next
    case (place k e)
    obtain m1 m' where m1: "set_side m (par P k) (fside k) n = Some m1"
      "m' = m1(n := \<lparr>rb_left = s, rb_parent = par P k, rb_right = s, rb_red = True\<rparr>)"
      "tree_at s P m' (plug k (N E n True E))" "same_outside (plug k (N E n True E)) m m'"
      using attach_tree_at[of s P m k n] t n place by metis
    have r: "rootc k n = root_of s t"
      using place by (simp add: root_of_plug rootc_nonempty[of k n s])
    have "insert_node cmp (root_of s t) s m n allow = Some \<lparr>ir_ret = ST_OK,
        ir_need_rebalance = True, ir_root = rootc k n, ir_mem = m', ir_existed = e\<rparr>"
      using place(1) m1(1,2) n root r by (cases "m1 n") (simp add: insert_node_def rb_ops)
    moreover have "ins_inv s P m' k (N E n True E)"
      using m1(3) inv place ctop_nonempty[of k True False]
      by (auto simp: ins_inv_def rb_inv_def invc_plug invh_plug isred_plug)
    ultimately show ?thesis using place m1(4) by blast
  qed
qed

lemma insert_nonempty:
  assumes o: "node_order A cmp" and t: "tree_at s P m t" "t \<noteq> E" and inv: "rb_inv t"
    and tree: "tree = \<lparr>rt_root = root_of s t, rt_sentinel = s\<rparr>"
    and A: "set (inorder t) \<subseteq> A" "n \<in> A" and sorted: "sorted_by cmp (inorder t)"
    and n: "n \<notin> set (inorder t)" "n \<noteq> NULL" "n \<noteq> s" and allow: "allow = 0 \<or> allow = 1"
  shows "\<exists>ret tree' m' e. st_rbtree_insert cmp tree m n allow = Some (ret, tree', m', e) \<and>
    (if allow = 0 \<and> (\<exists>y \<in> set (inorder t). cmp n y = 0)
     then ret = ST_EXISTED \<and> tree' = tree \<and> m' = m \<and> e \<in> set (inorder t) \<and> cmp n e = 0
     else ret = ST_OK \<and> rt_sentinel tree' = s \<and>
       (\<exists>t'. rb_tree tree' m' t' \<and> inorder t' = ordered_insert cmp n (inorder t)) \<and>
       (\<forall>x. x \<noteq> n \<and> x \<notin> set (inorder t) \<longrightarrow> m' x = m x))"
proof -
  have io: "inorder t = fleft k @ fright k" if "t = plug k E" for k
    using that by (simp add: inorder_plug)
  from insert_node_place[OF t inv n, of "allow = 1" cmp]
  consider (found) y where "y \<in> set (inorder t)" "allow \<noteq> 1" "cmp n y = 0"
      "insert_node cmp (root_of s t) s m n (allow = 1) = Some \<lparr>ir_ret = ST_EXISTED,
        ir_need_rebalance = False, ir_root = root_of s t, ir_mem = m, ir_existed = y\<rparr>"
    | (place) k e m1 where
      "insert_node cmp (root_of s t) s m n (allow = 1) = Some \<lparr>ir_ret = ST_OK,
        ir_need_rebalance = True, ir_root = rootc k n, ir_mem = m1, ir_existed = e\<rparr>"
      "t = plug k E" "guided cmp n k" "ins_inv s P m1 k (N E n True E)"
      "same_outside (plug k (N E n True E)) m m1"
      "e = NULL \<and> (\<forall>f \<in> set k. cmp n (faddr f) \<noteq> 0) \<or>
        allow = 1 \<and> e \<in> set (inorder t) \<and> cmp n e = 0"
    by blast
  then show ?thesis
  proof cases
    case (found y)
    with allow n show ?thesis by (auto simp: st_rbtree_insert_def tree)
  next
    case p: (place k e m1)
    obtain m2 t2 where 2: "insert_fixup (rootc k n) s m1 n = Some (root_of s t2, m2)"
      "tree_at s P m2 t2" "invc t2" "invh t2" "inorder t2 = fleft k @ n # fright k"
      "same_outside (plug k (N E n True E)) m1 m2"
      using insert_fixup_correct[OF p(4)] by (auto simp: inorder_plug)
    have "t2 \<noteq> E" using 2(5) by auto
    then obtain m3 where 3: "st_rbtree_black m2 (root_of s t2) = Some m3"
      "tree_at s P m3 (blacken t2)" "same_outside t2 m2 m3"
      using black_root[OF 2(2)] by auto
    let ?tree = "\<lparr>rt_root = root_of s t2, rt_sentinel = s\<rparr>"
    have ret: "st_rbtree_insert cmp tree m n allow = Some (ST_OK, ?tree, m3, e)"
      using p(1) 2(1) 3(1) n allow by (simp add: st_rbtree_insert_def tree)
    have rb: "rb_tree ?tree m3 (blacken t2)"
      using 2 3 by (auto simp: rb_tree_def rb_inv_def)
    have split: "(\<forall>y \<in> set (fleft k). \<not> cmp n y < 0) \<and> (\<forall>y \<in> set (fright k). cmp n y < 0)"
      using node_order.guided_split[OF o p(3)] sorted A io[OF p(2)] by simp
    then have ord: "inorder (blacken t2) = ordered_insert cmp n (inorder t)"
      using 2(5) io[OF p(2)] by (simp add: ordered_insert_split)
    have noeq: "\<not> (allow = 0 \<and> (\<exists>y \<in> set (inorder t). cmp n y = 0))"
      using p(6) node_order.guided_noeq[OF o p(3)] sorted A io[OF p(2)] by (metis zero_neq_one)
    have "m3 x = m x" if "x \<noteq> n" "x \<notin> set (inorder t)" for x
      using that p(5) 2(5,6) 3(3) io[OF p(2)] by (simp add: same_outside_def inorder_plug)
    with ret rb ord noeq show ?thesis by auto
  qed
qed

lemma rbtree_insert_ok:
  assumes "comparator A cmp" and "rb_tree tree m t"
    and "insert n (set (inorder t)) \<subseteq> A" and "sorted_by cmp (inorder t)"
    and "n \<notin> set (inorder t)" and "n \<noteq> NULL" and "n \<noteq> rt_sentinel tree"
    and "allow = 0 \<or> allow = 1"
  shows "\<exists>ret tree' m' e. st_rbtree_insert cmp tree m n allow = Some (ret, tree', m', e) \<and>
    (if allow = 0 \<and> (\<exists>y \<in> set (inorder t). cmp n y = 0)
     then ret = ST_EXISTED \<and> tree' = tree \<and> m' = m \<and> e \<in> set (inorder t) \<and> cmp n e = 0
     else ret = ST_OK \<and> rt_sentinel tree' = rt_sentinel tree \<and>
       (\<exists>t'. rb_tree tree' m' t' \<and> inorder t' = ordered_insert cmp n (inorder t)) \<and>
       (\<forall>x. x \<noteq> n \<and> x \<notin> set (inorder t) \<longrightarrow> m' x = m x))"
proof -
  let ?s = "rt_sentinel tree"
  obtain P where P: "tree_at ?s P m t" "rt_root tree = root_of ?s t" "rb_inv t"
    using assms(2) by (auto simp: rb_tree_def)
  show ?thesis
  proof (cases "t = E")
    case False
    have "node_order A cmp" using assms(1) by (simp add: node_order_def)
    moreover have "tree = \<lparr>rt_root = root_of ?s t, rt_sentinel = ?s\<rparr>" using P(2) by simp
    ultimately show ?thesis
      using insert_nonempty[OF _ P(1) False P(3)] assms by auto
  next
    case True
    with P(1) insert_node_empty[of ?s P m n cmp "allow = 1"] assms(6,7)
    obtain m' where m': "insert_node cmp ?s ?s m n (allow = 1) = Some \<lparr>ir_ret = ST_OK,
        ir_need_rebalance = False, ir_root = n, ir_mem = m', ir_existed = NULL\<rparr>"
      "tree_at ?s NULL m' (N E n False E)" "\<forall>x. x \<noteq> n \<longrightarrow> m' x = m x"
      by auto
    have "rb_tree (tree\<lparr>rt_root := n\<rparr>) m' (N E n False E)"
      using m'(2) by (auto simp: rb_tree_def rb_inv_def)
    moreover have "inorder (N E n False E) = ordered_insert cmp n (inorder t)"
      using True by (simp add: ordered_insert_def)
    ultimately show ?thesis
      using m' True P(2) assms(6,8) by (auto simp: st_rbtree_insert_def)
  qed
qed

text \<open>
  C22: Inserting a node that is not in the tree always returns.  Without \<^verbatim>\<open>allow_equal\<close>, and with an
  equal node present, it returns \<^verbatim>\<open>ST_EXISTED\<close>, reports an equal node and changes nothing;
  otherwise it returns \<^verbatim>\<open>ST_OK\<close>, the tree is again a red-black tree (black root, no red node with
  a red child, equal black heights, all links right) and its nodes in order are the old ones with
  the new node placed behind every node that is not greater.  Memory outside the tree and the
  new node keeps its contents.
\<close>

theorem rbtree_insert_correct:
  assumes "comparator A cmp" and "rb_tree tree m t"
    and "insert n (set (inorder t)) \<subseteq> A" and "sorted_by cmp (inorder t)"
    and "n \<notin> set (inorder t)" and "n \<noteq> NULL" and "n \<noteq> rt_sentinel tree"
    and "allow = 0 \<or> allow = 1"
  shows "\<exists>ret tree' m' e. st_rbtree_insert cmp tree m n allow = Some (ret, tree', m', e) \<and>
    (if allow = 0 \<and> (\<exists>y \<in> set (inorder t). cmp n y = 0)
     then ret = ST_EXISTED \<and> tree' = tree \<and> m' = m \<and> e \<in> set (inorder t) \<and> cmp n e = 0
     else ret = ST_OK \<and> rt_sentinel tree' = rt_sentinel tree \<and>
       (\<exists>t'. rb_tree tree' m' t' \<and> inorder t' = ordered_insert cmp n (inorder t)) \<and>
       (\<forall>x. x \<noteq> n \<and> x \<notin> set (inorder t) \<longrightarrow> m' x = m x))"
  using rbtree_insert_ok[OF assms] .

text \<open>A tree of one black node 2 with the sentinel at 100, in which 5 is inserted.\<close>

definition one_tree :: st_rbtree where
  "one_tree = \<lparr>rt_root = 2, rt_sentinel = 100\<rparr>"

definition one_mem :: rbmem where
  "one_mem = (\<lambda>_. st_rbtree_node_empty)
     (2 := \<lparr>rb_left = 100, rb_parent = NULL, rb_right = 100, rb_red = False\<rparr>)"

lemma one_tree_ok: "rb_tree one_tree one_mem (N E 2 False E)"
  by (auto simp: rb_tree_def tree_at_def rb_inv_def one_tree_def one_mem_def st_rbtree_node_empty_def)

lemma addr_cmp_order: "comparator UNIV (st_cmp :: addr \<Rightarrow> addr \<Rightarrow> int)"
  by (rule st_cmp_key.comparator_axioms[where f = id, simplified])

theorem rbtree_insert_correct_witness:
  "\<exists>tree' m' e t'. st_rbtree_insert st_cmp one_tree one_mem 5 0 = Some (ST_OK, tree', m', e) \<and>
     rb_tree tree' m' t' \<and> inorder t' = [2, 5]"
proof -
  from rbtree_insert_correct[OF addr_cmp_order one_tree_ok, of 5 0]
  show ?thesis by (auto simp: one_tree_def ordered_insert_def)
qed

end
