(* ===== verification/Rbtree_Delete.thy ===== *)
theory Rbtree_Delete
  imports Rbtree_Repr
begin

text \<open>
  Correctness of \<^verbatim>\<open>st_rbtree_delete\<close>: unlinking a node or moving its successor into its place
  removes exactly that node from the order, and the rebalancing loop, started at a subtree whose
  black height is one too small, ends with a red-black tree.
\<close>

section \<open>Rebalancing steps\<close>

lemma left_final:
  assumes t: "tree_at s P m (plug k (N t p c (N bl b d (N x y e z))))"
    and par: "rb_parent (m (root_of s t)) = p"
  obtains m' where
    "delete_left_final (rootc k p) s m (root_of s t) b = Some (rootc k b, m', rootc k b)"
    "tree_at s P m' (plug k (N (N t p False bl) b c (N x y False z)))"
    "same_outside (plug k (N t p c (N bl b d (N x y e z)))) m m'"
proof -
  have f: "rb_red (m p) = c" "rb_right (m b) = y" "p \<noteq> NULL" "b \<noteq> NULL" "y \<noteq> NULL" "p \<noteq> b"
    "b \<noteq> p" "y \<noteq> p" "y \<noteq> b" "b \<noteq> y" "p \<noteq> y"
    using t by (auto simp: tree_at_def rep_plug inorder_plug)
  have r: "root_of s t \<noteq> NULL" "root_of s t \<noteq> p" "root_of s t \<noteq> b" "root_of s t \<noteq> y"
    using t by (cases t; auto simp: tree_at_def inorder_plug)+
  let ?m = "m(b := (m b)\<lparr>rb_red := c\<rparr>, p := (m p)\<lparr>rb_red := False\<rparr>, y := (m y)\<lparr>rb_red := False\<rparr>)"
  have m: "tree_at s P ?m (plug k (N t p False (N bl b c (N x y False z))))"
    using t by (auto simp: tree_at_def rep_plug inorder_plug)
  obtain m' where m': "st_rbtree_left_rotate (rootc k p) s ?m p = Some (rootc k b, m')"
    "tree_at s P m' (plug k (N (N t p False bl) b c (N x y False z)))"
    "same_outside (plug k (N t p False (N bl b c (N x y False z)))) ?m m'"
    using left_rotate_step[OF m] .
  show ?thesis
  proof (rule that)
    show "delete_left_final (rootc k p) s m (root_of s t) b = Some (rootc k b, m', rootc k b)"
      using f r par m'(1) by (simp add: delete_left_final_def rb_ops)
    show "same_outside (plug k (N t p c (N bl b d (N x y e z)))) m m'"
      using m'(3) by (auto simp: same_outside_def inorder_plug)
  qed (rule m'(2))
qed

lemma left_red_brother:
  assumes t: "tree_at s P m (plug k (N t p c (N bl b True br)))"
    and par: "rb_parent (m (root_of s t)) = p"
  obtains m' where
    "delete_left_red_brother (rootc k p) s m (root_of s t) = Some (rootc k b, m', root_of s bl)"
    "tree_at s P m' (plug k (N (N t p True bl) b False br))"
    "same_outside (plug k (N t p c (N bl b True br))) m m'"
proof -
  have f: "rb_red (m b)" "rb_right (m p) = b" "p \<noteq> NULL" "b \<noteq> NULL" "p \<noteq> b" "b \<noteq> p"
    using t by (auto simp: tree_at_def rep_plug inorder_plug)
  have r: "root_of s t \<noteq> NULL" "root_of s t \<noteq> p" "root_of s t \<noteq> b"
    using t by (cases t; auto simp: tree_at_def inorder_plug)+
  let ?m = "m(b := (m b)\<lparr>rb_red := False\<rparr>, p := (m p)\<lparr>rb_red := True\<rparr>)"
  have m: "tree_at s P ?m (plug k (N t p True (N bl b False br)))"
    using t by (auto simp: tree_at_def rep_plug inorder_plug)
  obtain m' where m': "st_rbtree_left_rotate (rootc k p) s ?m p = Some (rootc k b, m')"
    "tree_at s P m' (plug k (N (N t p True bl) b False br))"
    "same_outside (plug k (N t p True (N bl b False br))) ?m m'"
    using left_rotate_step[OF m] .
  have par': "rb_parent (m' (root_of s t)) = p" "rb_right (m' p) = root_of s bl"
    using m'(2,3) t par r by (cases t; auto simp: tree_at_def rep_plug inorder_plug same_outside_def)+
  show ?thesis
  proof (rule that)
    show "delete_left_red_brother (rootc k p) s m (root_of s t) = Some (rootc k b, m', root_of s bl)"
      using f r par m'(1) par' by (simp add: delete_left_red_brother_def rb_ops)
    show "same_outside (plug k (N t p c (N bl b True br))) m m'"
      using m'(3) by (auto simp: same_outside_def inorder_plug)
  qed (rule m'(2))
qed

lemma left_black_brother:
  assumes t: "tree_at s P m (plug k (N t p c (N bl b False br)))"
    and par: "rb_parent (m (root_of s t)) = p"
  shows "delete_left_red_brother rt s m (root_of s t) = Some (rt, m, b)"
proof -
  have "\<not> rb_red (m b)" "rb_right (m p) = b" "p \<noteq> NULL" "b \<noteq> NULL"
    using t by (auto simp: tree_at_def rep_plug inorder_plug)
  moreover have "root_of s t \<noteq> NULL"
    using t by (cases t; auto simp: tree_at_def inorder_plug)
  ultimately show ?thesis using par by (simp add: delete_left_red_brother_def rb_ops)
qed

lemma left_near_nephew:
  assumes t: "tree_at s P m (plug k (N t p c (N (N x y True z) b False br)))" and br: "\<not> isred br"
    and par: "rb_parent (m (root_of s t)) = p"
  obtains m' where
    "delete_left_near_nephew (rootc k p) s m (root_of s t) b = Some (rootc k p, m', y)"
    "tree_at s P m' (plug k (N t p c (N x y False (N z b True br))))"
    "rb_parent (m' (root_of s t)) = p"
    "same_outside (plug k (N t p c (N (N x y True z) b False br))) m m'"
proof -
  have f: "rb_left (m b) = y" "rb_right (m b) = root_of s br" "p \<noteq> NULL" "b \<noteq> NULL" "y \<noteq> NULL"
    "p \<noteq> b" "b \<noteq> p" "y \<noteq> b" "b \<noteq> y"
    using t by (auto simp: tree_at_def rep_plug inorder_plug)
  have r: "root_of s t \<noteq> NULL" "root_of s t \<noteq> p" "root_of s t \<noteq> b" "root_of s t \<noteq> y"
    using t by (cases t; auto simp: tree_at_def inorder_plug)+
  have br': "\<not> rb_red (m (root_of s br))" "root_of s br \<noteq> NULL"
    using tree_at_red[of s P m "FR (N x y True z) b False # FR t p c # k" br] t br by auto
  let ?m = "m(y := (m y)\<lparr>rb_red := False\<rparr>, b := (m b)\<lparr>rb_red := True\<rparr>)"
  have m: "tree_at s P ?m (plug (FR t p c # k) (N (N x y False z) b True br))"
    using t by (auto simp: tree_at_def rep_plug inorder_plug)
  obtain m' where m': "st_rbtree_right_rotate (rootc k p) s ?m b = Some (rootc k p, m')"
    "tree_at s P m' (plug k (N t p c (N x y False (N z b True br))))"
    "same_outside (plug k (N t p c (N (N x y False z) b True br))) ?m m'"
    using right_rotate_step[OF m] by auto
  have par': "rb_parent (m' (root_of s t)) = p" "rb_right (m' p) = y"
    using m'(2,3) t par r by (cases t; auto simp: tree_at_def rep_plug inorder_plug same_outside_def)+
  show ?thesis
  proof (rule that)
    show "delete_left_near_nephew (rootc k p) s m (root_of s t) b = Some (rootc k p, m', y)"
      using f r br' par m'(1) par' by (simp add: delete_left_near_nephew_def rb_ops)
    show "same_outside (plug k (N t p c (N (N x y True z) b False br))) m m'"
      using m'(3) by (auto simp: same_outside_def inorder_plug)
  qed (rule m'(2) par'(1))+
qed

lemma left_far_nephew:
  assumes t: "tree_at s P m (plug k (N t p c (N bl b False (N x y True z))))"
  shows "delete_left_near_nephew rt s m n b = Some (rt, m, b)"
proof -
  have "rb_right (m b) = y" "b \<noteq> NULL" "y \<noteq> NULL" "rb_red (m y)"
    using t by (auto simp: tree_at_def rep_plug inorder_plug)
  then show ?thesis by (simp add: delete_left_near_nephew_def rb_ops)
qed

lemma right_final:
  assumes t: "tree_at s P m (plug k (N (N (N z y e x) b d bl) p c t))"
    and par: "rb_parent (m (root_of s t)) = p"
  obtains m' where
    "delete_right_final (rootc k p) s m (root_of s t) b = Some (rootc k b, m', rootc k b)"
    "tree_at s P m' (plug k (N (N z y False x) b c (N bl p False t)))"
    "same_outside (plug k (N (N (N z y e x) b d bl) p c t)) m m'"
proof -
  have f: "rb_red (m p) = c" "rb_left (m b) = y" "p \<noteq> NULL" "b \<noteq> NULL" "y \<noteq> NULL" "p \<noteq> b"
    "b \<noteq> p" "y \<noteq> p" "y \<noteq> b" "b \<noteq> y" "p \<noteq> y"
    using t by (auto simp: tree_at_def rep_plug inorder_plug)
  have r: "root_of s t \<noteq> NULL" "root_of s t \<noteq> p" "root_of s t \<noteq> b" "root_of s t \<noteq> y"
    using t by (cases t; auto simp: tree_at_def inorder_plug)+
  let ?m = "m(b := (m b)\<lparr>rb_red := c\<rparr>, p := (m p)\<lparr>rb_red := False\<rparr>, y := (m y)\<lparr>rb_red := False\<rparr>)"
  have m: "tree_at s P ?m (plug k (N (N (N z y False x) b c bl) p False t))"
    using t by (auto simp: tree_at_def rep_plug inorder_plug)
  obtain m' where m': "st_rbtree_right_rotate (rootc k p) s ?m p = Some (rootc k b, m')"
    "tree_at s P m' (plug k (N (N z y False x) b c (N bl p False t)))"
    "same_outside (plug k (N (N (N z y False x) b c bl) p False t)) ?m m'"
    using right_rotate_step[OF m] .
  show ?thesis
  proof (rule that)
    show "delete_right_final (rootc k p) s m (root_of s t) b = Some (rootc k b, m', rootc k b)"
      using f r par m'(1) by (simp add: delete_right_final_def rb_ops)
    show "same_outside (plug k (N (N (N z y e x) b d bl) p c t)) m m'"
      using m'(3) by (auto simp: same_outside_def inorder_plug)
  qed (rule m'(2))
qed

lemma right_red_brother:
  assumes t: "tree_at s P m (plug k (N (N br b True bl) p c t))"
    and par: "rb_parent (m (root_of s t)) = p"
  obtains m' where
    "delete_right_red_brother (rootc k p) s m (root_of s t) = Some (rootc k b, m', root_of s bl)"
    "tree_at s P m' (plug k (N br b False (N bl p True t)))"
    "same_outside (plug k (N (N br b True bl) p c t)) m m'"
proof -
  have f: "rb_red (m b)" "rb_left (m p) = b" "p \<noteq> NULL" "b \<noteq> NULL" "p \<noteq> b" "b \<noteq> p"
    using t by (auto simp: tree_at_def rep_plug inorder_plug)
  have r: "root_of s t \<noteq> NULL" "root_of s t \<noteq> p" "root_of s t \<noteq> b"
    using t by (cases t; auto simp: tree_at_def inorder_plug)+
  let ?m = "m(b := (m b)\<lparr>rb_red := False\<rparr>, p := (m p)\<lparr>rb_red := True\<rparr>)"
  have m: "tree_at s P ?m (plug k (N (N br b False bl) p True t))"
    using t by (auto simp: tree_at_def rep_plug inorder_plug)
  obtain m' where m': "st_rbtree_right_rotate (rootc k p) s ?m p = Some (rootc k b, m')"
    "tree_at s P m' (plug k (N br b False (N bl p True t)))"
    "same_outside (plug k (N (N br b False bl) p True t)) ?m m'"
    using right_rotate_step[OF m] .
  have par': "rb_parent (m' (root_of s t)) = p" "rb_left (m' p) = root_of s bl"
    using m'(2,3) t par r by (cases t; auto simp: tree_at_def rep_plug inorder_plug same_outside_def)+
  show ?thesis
  proof (rule that)
    show "delete_right_red_brother (rootc k p) s m (root_of s t) = Some (rootc k b, m', root_of s bl)"
      using f r par m'(1) par' by (simp add: delete_right_red_brother_def rb_ops)
    show "same_outside (plug k (N (N br b True bl) p c t)) m m'"
      using m'(3) by (auto simp: same_outside_def inorder_plug)
  qed (rule m'(2))
qed

lemma right_black_brother:
  assumes t: "tree_at s P m (plug k (N (N br b False bl) p c t))"
    and par: "rb_parent (m (root_of s t)) = p"
  shows "delete_right_red_brother rt s m (root_of s t) = Some (rt, m, b)"
proof -
  have "\<not> rb_red (m b)" "rb_left (m p) = b" "p \<noteq> NULL" "b \<noteq> NULL"
    using t by (auto simp: tree_at_def rep_plug inorder_plug)
  moreover have "root_of s t \<noteq> NULL"
    using t by (cases t; auto simp: tree_at_def inorder_plug)
  ultimately show ?thesis using par by (simp add: delete_right_red_brother_def rb_ops)
qed

lemma right_near_nephew:
  assumes t: "tree_at s P m (plug k (N (N br b False (N z y True x)) p c t))" and br: "\<not> isred br"
    and par: "rb_parent (m (root_of s t)) = p"
  obtains m' where
    "delete_right_near_nephew (rootc k p) s m (root_of s t) b = Some (rootc k p, m', y)"
    "tree_at s P m' (plug k (N (N (N br b True z) y False x) p c t))"
    "rb_parent (m' (root_of s t)) = p"
    "same_outside (plug k (N (N br b False (N z y True x)) p c t)) m m'"
proof -
  have f: "rb_right (m b) = y" "rb_left (m b) = root_of s br" "p \<noteq> NULL" "b \<noteq> NULL" "y \<noteq> NULL"
    "p \<noteq> b" "b \<noteq> p" "y \<noteq> b" "b \<noteq> y"
    using t by (auto simp: tree_at_def rep_plug inorder_plug)
  have r: "root_of s t \<noteq> NULL" "root_of s t \<noteq> p" "root_of s t \<noteq> b" "root_of s t \<noteq> y"
    using t by (cases t; auto simp: tree_at_def inorder_plug)+
  have br': "\<not> rb_red (m (root_of s br))" "root_of s br \<noteq> NULL"
    using tree_at_red[of s P m "FL b False (N z y True x) # FL p c t # k" br] t br by auto
  let ?m = "m(y := (m y)\<lparr>rb_red := False\<rparr>, b := (m b)\<lparr>rb_red := True\<rparr>)"
  have m: "tree_at s P ?m (plug (FL p c t # k) (N br b True (N z y False x)))"
    using t by (auto simp: tree_at_def rep_plug inorder_plug)
  obtain m' where m': "st_rbtree_left_rotate (rootc k p) s ?m b = Some (rootc k p, m')"
    "tree_at s P m' (plug k (N (N (N br b True z) y False x) p c t))"
    "same_outside (plug k (N (N br b True (N z y False x)) p c t)) ?m m'"
    using left_rotate_step[OF m] by auto
  have par': "rb_parent (m' (root_of s t)) = p" "rb_left (m' p) = y"
    using m'(2,3) t par r by (cases t; auto simp: tree_at_def rep_plug inorder_plug same_outside_def)+
  show ?thesis
  proof (rule that)
    show "delete_right_near_nephew (rootc k p) s m (root_of s t) b = Some (rootc k p, m', y)"
      using f r br' par m'(1) par' by (simp add: delete_right_near_nephew_def rb_ops)
    show "same_outside (plug k (N (N br b False (N z y True x)) p c t)) m m'"
      using m'(3) by (auto simp: same_outside_def inorder_plug)
  qed (rule m'(2) par'(1))+
qed

lemma right_far_nephew:
  assumes t: "tree_at s P m (plug k (N (N (N z y True x) b False bl) p c t))"
  shows "delete_right_near_nephew rt s m n b = Some (rt, m, b)"
proof -
  have "rb_left (m b) = y" "b \<noteq> NULL" "y \<noteq> NULL" "rb_red (m y)"
    using t by (auto simp: tree_at_def rep_plug inorder_plug)
  then show ?thesis by (simp add: delete_right_near_nephew_def rb_ops)
qed

section \<open>The rebalancing loop\<close>

text \<open>
  The subtree at the focus has one black node too few; it may be red with a red child, but only
  if painting its root black repairs it.
\<close>

definition del_inv :: "addr \<Rightarrow> addr \<Rightarrow> rbmem \<Rightarrow> frame list \<Rightarrow> rbt \<Rightarrow> bool" where
  "del_inv s P m k t \<longleftrightarrow> tree_at s P m (plug k t) \<and> invc (blacken t) \<and> invh t \<and> cctx k False \<and>
     hctx k (Suc (bheight t)) \<and>
     (k \<noteq> [] \<longrightarrow> \<not> ctop k True \<and> rb_parent (m (root_of s t)) = par P k)"

definition del_done :: "addr \<Rightarrow> addr \<Rightarrow> rbmem \<Rightarrow> rbt \<Rightarrow> bool" where
  "del_done s P m t \<longleftrightarrow> tree_at s P m t \<and> rb_inv t"

text \<open>The outcome of a turn: nearer to the root, or at a red focus, or finished at the root.\<close>

definition del_turn :: "addr \<Rightarrow> addr \<Rightarrow> rbt \<Rightarrow> nat \<Rightarrow> addr \<Rightarrow> rbmem \<Rightarrow> addr \<Rightarrow> bool" where
  "del_turn s P t n rt m x \<longleftrightarrow>
     (\<exists>k u. del_inv s P m k u \<and> x = root_of s u \<and> rt = rootc k x \<and> (length k < n \<or> isred u) \<and>
        inorder (plug k u) = inorder t) \<or>
     (\<exists>u. del_done s P m u \<and> x = root_of s u \<and> rt = x \<and> inorder u = inorder t)"

lemma del_turn_up:
  "del_inv s P m k u \<Longrightarrow> length k < n \<or> isred u \<Longrightarrow> inorder (plug k u) = inorder t \<Longrightarrow>
    x = root_of s u \<Longrightarrow> rt = rootc k x \<Longrightarrow> del_turn s P t n rt m x"
  unfolding del_turn_def by blast

lemma del_turn_done:
  "del_done s P m u \<Longrightarrow> inorder u = inorder t \<Longrightarrow> rt = root_of s u \<Longrightarrow> x = rt \<Longrightarrow>
    del_turn s P t n rt m x"
  unfolding del_turn_def by blast

lemma left_rest:
  assumes i: "del_inv s P m (FL p c (N bl b False br) # k) t" and red: "\<not> isred t"
    and n: "length k < n \<or> c"
  shows "\<exists>rt' m' x. delete_left_rest (rootc k p) s m (root_of s t) b = Some (rt', m', x) \<and>
    del_turn s P (plug (FL p c (N bl b False br) # k) t) n rt' m' x \<and>
    same_outside (plug (FL p c (N bl b False br) # k) t) m m'"
proof -
  let ?T = "plug (FL p c (N bl b False br) # k) t"
  have t: "tree_at s P m (plug k (N t p c (N bl b False br)))"
    and par: "rb_parent (m (root_of s t)) = p"
    using i by (auto simp: del_inv_def)
  have inv: "invc t" "invh t" "invc bl" "invc br" "invh bl" "invh br" "bheight bl = bheight t"
    "bheight br = bheight t" "cctx k c" "hctx k (if c then Suc (bheight t) else Suc (Suc (bheight t)))"
    using i red by (cases t; auto simp: del_inv_def)+
  have top: "k \<noteq> [] \<longrightarrow> \<not> ctop k d" "k = [] \<longrightarrow> \<not> c" for d
    using i ctop_nonempty[of k c d] by (auto simp: del_inv_def)
  have f: "rb_left (m b) = root_of s bl" "rb_right (m b) = root_of s br" "b \<noteq> NULL" "p \<noteq> NULL"
    "p \<noteq> b" "b \<noteq> p"
    using t by (auto simp: tree_at_def rep_plug inorder_plug)
  have r: "root_of s t \<noteq> NULL" "root_of s t \<noteq> b"
    using t by (cases t; auto simp: tree_at_def inorder_plug)+
  have col: "rb_red (m (root_of s bl)) = isred bl" "root_of s bl \<noteq> NULL"
    "rb_red (m (root_of s br)) = isred br" "root_of s br \<noteq> NULL"
    using tree_at_red[of s P m "FL b False br # FR t p c # k" bl]
      tree_at_red[of s P m "FR bl b False # FR t p c # k" br] t by auto
  show ?thesis
  proof (cases "isred bl \<or> isred br")
    case False
    let ?m = "m(b := (m b)\<lparr>rb_red := True\<rparr>)"
    have e: "delete_left_rest (rootc k p) s m (root_of s t) b = Some (rootc k p, ?m, p)"
      using False f r col par by (simp add: delete_left_rest_def rb_ops)
    have tm: "tree_at s P ?m (plug k (N t p c (N bl b True br)))"
      using tree_at_recolor[where k = "FR t p c # k" and l = bl and r = br] t by simp
    have "del_inv s P ?m k (N t p c (N bl b True br))"
      using tm inv False top tree_at_focus(1)[OF tm] red by (auto simp: del_inv_def dest: cctx_black)
    then have "del_turn s P ?T n (rootc k p) ?m p"
      by (rule del_turn_up) (use n in \<open>auto simp: inorder_plug\<close>)
    moreover have "same_outside ?T m ?m" by (auto simp: same_outside_def inorder_plug)
    ultimately show ?thesis using e by blast
  next
    case True
    obtain mn a b' x y z where near:
      "delete_left_near_nephew (rootc k p) s m (root_of s t) b = Some (rootc k p, mn, b')"
      "tree_at s P mn (plug k (N t p c (N a b' False (N x y True z))))"
      "rb_parent (mn (root_of s t)) = p" "same_outside ?T m mn"
      "inorder (N a b' False (N x y True z)) = inorder (N bl b False br)"
      "invc a" "invc x" "invc z" "invh a" "invh x" "invh z"
      "bheight a = bheight t" "bheight x = bheight t" "bheight z = bheight t"
    proof (cases "isred br")
      case True
      then obtain x y z where br: "br = N x y True z" by (cases br) auto
      show ?thesis
        by (rule that[where mn = m and b' = b and a = bl and x = x and y = y and z = z])
          (use left_far_nephew[where bl = bl and x = x and z = z] t par inv br
            in \<open>simp_all add: same_outside_def\<close>)
    next
      case False
      with True obtain x y z where bl: "bl = N x y True z" by (cases bl) auto
      obtain mn where n: "delete_left_near_nephew (rootc k p) s m (root_of s t) b = Some (rootc k p, mn, y)"
        "tree_at s P mn (plug k (N t p c (N x y False (N z b True br))))"
        "rb_parent (mn (root_of s t)) = p"
        "same_outside (plug k (N t p c (N (N x y True z) b False br))) m mn"
        using left_near_nephew[where x = x and z = z and br = br] t bl False par by blast
      show ?thesis
        by (rule that[where mn = mn and b' = y and a = x and x = z and y = b and z = br]) (use n bl inv False in simp_all)
    qed
    obtain m' where fin:
      "delete_left_final (rootc k p) s mn (root_of s t) b' = Some (rootc k b', m', rootc k b')"
      "tree_at s P m' (plug k (N (N t p False a) b' c (N x y False z)))"
      "same_outside (plug k (N t p c (N a b' False (N x y True z)))) mn m'"
      using left_final[OF near(2,3)] .
    have e: "delete_left_rest (rootc k p) s m (root_of s t) b = Some (rootc k b', m', rootc k b')"
      using True f col near(1) fin(1) by (auto simp: delete_left_rest_def rb_reads)
    let ?U = "plug k (N (N t p False a) b' c (N x y False z))"
    have "rb_inv ?U"
      using inv near top(1)[of c] top(2) by (cases "k = []") (auto simp: rb_inv_def invc_plug invh_plug isred_plug)
    moreover have io: "inorder ?U = inorder ?T" using near(5) by (simp add: inorder_plug)
    ultimately have "del_turn s P ?T n (rootc k b') m' (rootc k b')"
      using fin(2) by (intro del_turn_done[of s P m' ?U]) (simp_all add: del_done_def root_of_plug)
    moreover have "same_outside ?T m m'"
      using near(4,5) fin(3) by (intro same_outside_trans[OF near(4) fin(3)]) (simp add: inorder_plug)
    ultimately show ?thesis using e by blast
  qed
qed

lemma delete_step_left:
  assumes i: "del_inv s P m (FL p c w # k) t" and red: "\<not> isred t"
  shows "\<exists>rt' m' x. delete_fixup_step (rootc k p) s m (root_of s t) = Some (rt', m', x) \<and>
    del_turn s P (plug (FL p c w # k) t) (Suc (length k)) rt' m' x \<and>
    same_outside (plug (FL p c w # k) t) m m'"
proof -
  let ?T = "plug (FL p c w # k) t"
  have t: "tree_at s P m (plug k (N t p c w))" and par: "rb_parent (m (root_of s t)) = p"
    using i by (auto simp: del_inv_def)
  have r: "root_of s t \<noteq> NULL"
    using t by (cases t; auto simp: tree_at_def inorder_plug)
  have "bheight w = Suc (bheight t)" using i by (auto simp: del_inv_def)
  then obtain bl b d br where w: "w = N bl b d br" by (cases w) auto
  have e: "delete_fixup_step (rootc k p) s m (root_of s t) =
      delete_fixup_left (rootc k p) s m (root_of s t)"
    using t par r w by (cases t) (auto simp: delete_fixup_step_def rb_reads tree_at_def rep_plug inorder_plug)
  show ?thesis
  proof (cases d)
    case False
    then have "delete_fixup_left (rootc k p) s m (root_of s t) =
        delete_left_rest (rootc k p) s m (root_of s t) b"
      using left_black_brother[where p = p and c = c and bl = bl and br = br] t par w
      by (simp add: delete_fixup_left_def)
    with e left_rest[where bl = bl and br = br and k = k and n = "Suc (length k)"] i red w False show ?thesis by simp
  next
    case True
    have inv: "\<not> c" "\<not> isred bl" "bheight bl = Suc (bheight t)" "invc bl" "invh bl" "invc br" "invh br"
      "bheight br = Suc (bheight t)" "cctx k False" "hctx k (Suc (Suc (bheight t)))" "invc t" "invh t"
      using i w True red by (cases t; auto simp: del_inv_def)+
    then obtain a b' a' where bl: "bl = N a b' False a'" by (cases bl) auto
    have tr: "tree_at s P m (plug k (N t p c (N bl b True br)))" using t w True by simp
    obtain m1 where m1:
      "delete_left_red_brother (rootc k p) s m (root_of s t) = Some (rootc k b, m1, root_of s bl)"
      "tree_at s P m1 (plug k (N (N t p True bl) b False br))" "same_outside ?T m m1"
      using left_red_brother[OF tr par] w True by auto
    have par1: "rb_parent (m1 (root_of s t)) = p"
      using m1(2,3) tr par by (cases t; auto simp: tree_at_def rep_plug inorder_plug same_outside_def w)
    let ?k = "FL b False br # k"
    have "ctop k False = ctop k True" if "k \<noteq> []" by (rule ctop_nonempty[OF that])
    then have inv1: "del_inv s P m1 (FL p True bl # ?k) t"
      using m1(2) inv par1 i by (auto simp: del_inv_def)
    note left_rest[where s = s and P = P and m = m1 and p = p and b = b' and t = t and c = True
       and bl = a and br = a' and k = ?k and n = "Suc (length k)"]
    with inv1 red bl obtain rt' m' x where
      *: "delete_left_rest (rootc k b) s m1 (root_of s t) b' = Some (rt', m', x)"
        "del_turn s P (plug (FL p True bl # ?k) t) (Suc (length k)) rt' m' x"
        "same_outside (plug (FL p True bl # ?k) t) m1 m'"
      by auto
    have io: "inorder (plug (FL p True bl # ?k) t) = inorder ?T" using w by (simp add: inorder_plug)
    have "del_turn s P ?T (Suc (length k)) rt' m' x"
      using *(2) io unfolding del_turn_def by simp
    moreover have "same_outside ?T m m'" by (rule same_outside_trans[OF m1(3) *(3)]) (simp only: io)
    ultimately show ?thesis using e m1(1) *(1) bl by (simp add: delete_fixup_left_def)
  qed
qed

lemma right_rest:
  assumes i: "del_inv s P m (FR (N br b False bl) p c # k) t" and red: "\<not> isred t"
    and n: "length k < n \<or> c"
  shows "\<exists>rt' m' x. delete_right_rest (rootc k p) s m (root_of s t) b = Some (rt', m', x) \<and>
    del_turn s P (plug (FR (N br b False bl) p c # k) t) n rt' m' x \<and>
    same_outside (plug (FR (N br b False bl) p c # k) t) m m'"
proof -
  let ?T = "plug (FR (N br b False bl) p c # k) t"
  have t: "tree_at s P m (plug k (N (N br b False bl) p c t))"
    and par: "rb_parent (m (root_of s t)) = p"
    using i by (auto simp: del_inv_def)
  have inv: "invc t" "invh t" "invc bl" "invc br" "invh bl" "invh br" "bheight bl = bheight t"
    "bheight br = bheight t" "cctx k c" "hctx k (if c then Suc (bheight t) else Suc (Suc (bheight t)))"
    using i red by (cases t; auto simp: del_inv_def)+
  have top: "k \<noteq> [] \<longrightarrow> \<not> ctop k d" "k = [] \<longrightarrow> \<not> c" for d
    using i ctop_nonempty[of k c d] by (auto simp: del_inv_def)
  have f: "rb_right (m b) = root_of s bl" "rb_left (m b) = root_of s br" "b \<noteq> NULL" "p \<noteq> NULL"
    "p \<noteq> b" "b \<noteq> p"
    using t by (auto simp: tree_at_def rep_plug inorder_plug)
  have r: "root_of s t \<noteq> NULL" "root_of s t \<noteq> b"
    using t by (cases t; auto simp: tree_at_def inorder_plug)+
  have col: "rb_red (m (root_of s bl)) = isred bl" "root_of s bl \<noteq> NULL"
    "rb_red (m (root_of s br)) = isred br" "root_of s br \<noteq> NULL"
    using tree_at_red[of s P m "FR br b False # FL p c t # k" bl]
      tree_at_red[of s P m "FL b False bl # FL p c t # k" br] t by auto
  show ?thesis
  proof (cases "isred bl \<or> isred br")
    case False
    let ?m = "m(b := (m b)\<lparr>rb_red := True\<rparr>)"
    have e: "delete_right_rest (rootc k p) s m (root_of s t) b = Some (rootc k p, ?m, p)"
      using False f r col par by (simp add: delete_right_rest_def rb_ops)
    have tm: "tree_at s P ?m (plug k (N (N br b True bl) p c t))"
      using tree_at_recolor[where k = "FL p c t # k" and l = br and r = bl] t by simp
    have "del_inv s P ?m k (N (N br b True bl) p c t)"
      using tm inv False top tree_at_focus(1)[OF tm] red by (auto simp: del_inv_def dest: cctx_black)
    then have "del_turn s P ?T n (rootc k p) ?m p"
      by (rule del_turn_up) (use n in \<open>auto simp: inorder_plug\<close>)
    moreover have "same_outside ?T m ?m" by (auto simp: same_outside_def inorder_plug)
    ultimately show ?thesis using e by blast
  next
    case True
    obtain mn a b' x y z where near:
      "delete_right_near_nephew (rootc k p) s m (root_of s t) b = Some (rootc k p, mn, b')"
      "tree_at s P mn (plug k (N (N (N z y True x) b' False a) p c t))"
      "rb_parent (mn (root_of s t)) = p" "same_outside ?T m mn"
      "inorder (N (N z y True x) b' False a) = inorder (N br b False bl)"
      "invc a" "invc x" "invc z" "invh a" "invh x" "invh z"
      "bheight a = bheight t" "bheight x = bheight t" "bheight z = bheight t"
    proof (cases "isred br")
      case True
      then obtain x y z where br: "br = N z y True x" by (cases br) auto
      show ?thesis
        by (rule that[where mn = m and b' = b and a = bl and x = x and y = y and z = z])
          (use right_far_nephew[where bl = bl and x = x and z = z] t par inv br
            in \<open>simp_all add: same_outside_def\<close>)
    next
      case False
      with True obtain x y z where bl: "bl = N z y True x" by (cases bl) auto
      obtain mn where n: "delete_right_near_nephew (rootc k p) s m (root_of s t) b = Some (rootc k p, mn, y)"
        "tree_at s P mn (plug k (N (N (N br b True z) y False x) p c t))"
        "rb_parent (mn (root_of s t)) = p"
        "same_outside (plug k (N (N br b False (N z y True x)) p c t)) m mn"
        using right_near_nephew[where x = x and z = z and br = br] t bl False par by blast
      show ?thesis
        by (rule that[where mn = mn and b' = y and a = x and x = z and y = b and z = br]) (use n bl inv False in simp_all)
    qed
    obtain m' where fin:
      "delete_right_final (rootc k p) s mn (root_of s t) b' = Some (rootc k b', m', rootc k b')"
      "tree_at s P m' (plug k (N (N z y False x) b' c (N a p False t)))"
      "same_outside (plug k (N (N (N z y True x) b' False a) p c t)) mn m'"
      using right_final[OF near(2,3)] .
    have e: "delete_right_rest (rootc k p) s m (root_of s t) b = Some (rootc k b', m', rootc k b')"
      using True f col near(1) fin(1) by (auto simp: delete_right_rest_def rb_reads)
    let ?U = "plug k (N (N z y False x) b' c (N a p False t))"
    have "rb_inv ?U"
      using inv near top(1)[of c] top(2) by (cases "k = []") (auto simp: rb_inv_def invc_plug invh_plug isred_plug)
    moreover have io: "inorder ?U = inorder ?T" using near(5) by (simp add: inorder_plug)
    ultimately have "del_turn s P ?T n (rootc k b') m' (rootc k b')"
      using fin(2) by (intro del_turn_done[of s P m' ?U]) (simp_all add: del_done_def root_of_plug)
    moreover have "same_outside ?T m m'"
      using near(4,5) fin(3) by (intro same_outside_trans[OF near(4) fin(3)]) (simp add: inorder_plug)
    ultimately show ?thesis using e by blast
  qed
qed

lemma delete_step_right:
  assumes i: "del_inv s P m (FR w p c # k) t" and red: "\<not> isred t"
  shows "\<exists>rt' m' x. delete_fixup_step (rootc k p) s m (root_of s t) = Some (rt', m', x) \<and>
    del_turn s P (plug (FR w p c # k) t) (Suc (length k)) rt' m' x \<and>
    same_outside (plug (FR w p c # k) t) m m'"
proof -
  let ?T = "plug (FR w p c # k) t"
  have t: "tree_at s P m (plug k (N w p c t))" and par: "rb_parent (m (root_of s t)) = p"
    using i by (auto simp: del_inv_def)
  have r: "root_of s t \<noteq> NULL"
    using t by (cases t; auto simp: tree_at_def inorder_plug)
  have "bheight w = Suc (bheight t)" using i by (auto simp: del_inv_def)
  then obtain bl b d br where w: "w = N br b d bl" by (cases w) auto
  have e: "delete_fixup_step (rootc k p) s m (root_of s t) =
      delete_fixup_right (rootc k p) s m (root_of s t)"
    using t par r w by (cases t) (auto simp: delete_fixup_step_def rb_reads tree_at_def rep_plug inorder_plug)
  show ?thesis
  proof (cases d)
    case False
    then have "delete_fixup_right (rootc k p) s m (root_of s t) =
        delete_right_rest (rootc k p) s m (root_of s t) b"
      using right_black_brother[where p = p and c = c and bl = bl and br = br] t par w
      by (simp add: delete_fixup_right_def)
    with e right_rest[where bl = bl and br = br and k = k and n = "Suc (length k)"] i red w False show ?thesis by simp
  next
    case True
    have inv: "\<not> c" "\<not> isred bl" "bheight bl = Suc (bheight t)" "invc bl" "invh bl" "invc br" "invh br"
      "bheight br = Suc (bheight t)" "cctx k False" "hctx k (Suc (Suc (bheight t)))" "invc t" "invh t"
      using i w True red by (cases t; auto simp: del_inv_def)+
    then obtain a b' a' where bl: "bl = N a' b' False a" by (cases bl) auto
    have tr: "tree_at s P m (plug k (N (N br b True bl) p c t))" using t w True by simp
    obtain m1 where m1:
      "delete_right_red_brother (rootc k p) s m (root_of s t) = Some (rootc k b, m1, root_of s bl)"
      "tree_at s P m1 (plug k (N br b False (N bl p True t)))" "same_outside ?T m m1"
      using right_red_brother[OF tr par] w True by auto
    have par1: "rb_parent (m1 (root_of s t)) = p"
      using m1(2,3) tr par by (cases t; auto simp: tree_at_def rep_plug inorder_plug same_outside_def w)
    let ?k = "FR br b False # k"
    have "ctop k False = ctop k True" if "k \<noteq> []" by (rule ctop_nonempty[OF that])
    then have inv1: "del_inv s P m1 (FR bl p True # ?k) t"
      using m1(2) inv par1 i by (auto simp: del_inv_def)
    note right_rest[where s = s and P = P and m = m1 and p = p and b = b' and t = t and c = True
       and bl = a and br = a' and k = ?k and n = "Suc (length k)"]
    with inv1 red bl obtain rt' m' x where
      *: "delete_right_rest (rootc k b) s m1 (root_of s t) b' = Some (rt', m', x)"
        "del_turn s P (plug (FR bl p True # ?k) t) (Suc (length k)) rt' m' x"
        "same_outside (plug (FR bl p True # ?k) t) m1 m'"
      by auto
    have io: "inorder (plug (FR bl p True # ?k) t) = inorder ?T" using w by (simp add: inorder_plug)
    have "del_turn s P ?T (Suc (length k)) rt' m' x"
      using *(2) io unfolding del_turn_def by simp
    moreover have "same_outside ?T m m'" by (rule same_outside_trans[OF m1(3) *(3)]) (simp only: io)
    ultimately show ?thesis using e m1(1) *(1) bl by (simp add: delete_fixup_right_def)
  qed
qed

text \<open>The last statement, \<^verbatim>\<open>st_rbtree_black(rebalance)\<close>, which may paint the sentinel.\<close>

lemma black_focus:
  assumes t: "tree_at s P m (plug k t)"
  obtains m' where "st_rbtree_black m (root_of s t) = Some m'"
    "tree_at s P m' (plug k (blacken t))" "same_outside (plug k t) m m'"
proof (cases t)
  case E
  then have "m(s := (m s)\<lparr>rb_red := False\<rparr>) = m" "s \<noteq> NULL"
    using t by (cases "m s"; auto simp: tree_at_def)+
  with E t show ?thesis by (intro that[of m]) (simp_all add: rb_ops same_outside_def)
next
  case (N l a c r)
  with t black_step[of s P m k l a c r] that show ?thesis by auto
qed

definition del_result :: "addr \<Rightarrow> addr \<Rightarrow> rbt \<Rightarrow> rbmem \<Rightarrow> (addr \<times> rbmem \<times> addr) option \<Rightarrow> bool" where
  "del_result s P t m res \<longleftrightarrow> (\<exists>rt' m' x m'' t''. res = Some (rt', m', x) \<and>
     st_rbtree_black m' x = Some m'' \<and> tree_at s P m'' t'' \<and> rb_inv t'' \<and>
     rt' = root_of s t'' \<and> inorder t'' = inorder t \<and> same_outside t m m'')"

lemma delete_fixup_exit:
  assumes i: "del_inv s P m k t" and exit: "isred t \<or> k = []"
  shows "del_result s P (plug k t) m (delete_fixup (rootc k (root_of s t)) s m (root_of s t))"
proof -
  have t: "tree_at s P m (plug k t)" using i by (simp add: del_inv_def)
  obtain m' where m': "st_rbtree_black m (root_of s t) = Some m'"
    "tree_at s P m' (plug k (blacken t))" "same_outside (plug k t) m m'"
    using black_focus[OF t] .
  have "delete_fixup (rootc k (root_of s t)) s m (root_of s t) =
      Some (rootc k (root_of s t), m, root_of s t)"
    using exit tree_at_red[OF t] by (subst delete_fixup.simps) (auto simp: rb_reads)
  moreover have "bheight (blacken t) = Suc (bheight t)" if "isred t" using that by (cases t) auto
  then have "rb_inv (plug k (blacken t))"
    using i exit ctop_nonempty[of k True False]
    by (cases "k = []") (auto simp: del_inv_def rb_inv_def invc_plug invh_plug isred_plug)
  ultimately show ?thesis
    using m' unfolding del_result_def
    by (intro exI[of _ "rootc k (root_of s t)"] exI[of _ m] exI[of _ "root_of s t"] exI[of _ m']
        exI[of _ "plug k (blacken t)"]) (simp add: root_of_plug inorder_plug)
qed

lemma delete_fixup_finished:
  assumes "del_done s P m t"
  shows "del_result s P t m (delete_fixup (root_of s t) s m (root_of s t))"
proof -
  have t: "tree_at s P m (plug [] t)" using assms by (simp add: del_done_def)
  obtain m' where m': "st_rbtree_black m (root_of s t) = Some m'"
    "tree_at s P m' (plug [] (blacken t))" "same_outside (plug [] t) m m'"
    using black_focus[OF t] .
  moreover have "delete_fixup (root_of s t) s m (root_of s t) = Some (root_of s t, m, root_of s t)"
    by (subst delete_fixup.simps) simp
  moreover have "rb_inv (blacken t)" using assms by (auto simp: del_done_def rb_inv_def)
  ultimately show ?thesis unfolding del_result_def
    by (intro exI[of _ "root_of s t"] exI[of _ m] exI[of _ "root_of s t"] exI[of _ m']
        exI[of _ "blacken t"]) simp
qed

lemma del_result_step:
  assumes "del_result s P u m' res" "inorder u = inorder t" "same_outside t m m'"
  shows "del_result s P t m res"
  using assms same_outside_trans[OF assms(3), of u] unfolding del_result_def by metis

theorem delete_fixup_correct:
  assumes "del_inv s P m k t"
  shows "del_result s P (plug k t) m (delete_fixup (rootc k (root_of s t)) s m (root_of s t))"
  using assms
proof (induction "length k" arbitrary: k m t rule: less_induct)
  case less
  let ?T = "plug k t"
  show ?case
  proof (cases "isred t \<or> k = []")
    case True
    with less.prems show ?thesis by (rule delete_fixup_exit)
  next
    case False
    have t: "tree_at s P m ?T" using less.prems by (simp add: del_inv_def)
    have "\<exists>rt' m' x. delete_fixup_step (rootc k (root_of s t)) s m (root_of s t) = Some (rt', m', x) \<and>
      del_turn s P ?T (length k) rt' m' x \<and> same_outside ?T m m'"
    proof (cases k rule: path_cases)
      case (left p c w j)
      with delete_step_left[of s P m p c w j t] less.prems False show ?thesis by simp
    next
      case (right w p c j)
      with delete_step_right[of s P m w p c j t] less.prems False show ?thesis by simp
    qed (use False in simp)
    then obtain rt' m' x where
      s: "delete_fixup_step (rootc k (root_of s t)) s m (root_of s t) = Some (rt', m', x)"
        "del_turn s P ?T (length k) rt' m' x" "same_outside ?T m m'" by blast
    have e: "delete_fixup (rootc k (root_of s t)) s m (root_of s t) = delete_fixup rt' s m' x"
      using False tree_at_red[OF t] tree_at_root_iff[OF t] s(1)
      by (subst delete_fixup.simps) (simp add: rb_reads root_of_plug)
    from s(2) consider
      (up) j u where "del_inv s P m' j u" "x = root_of s u" "rt' = rootc j x"
        "length j < length k \<or> isred u" "inorder (plug j u) = inorder ?T"
      | (fin) u where "del_done s P m' u" "x = root_of s u" "rt' = x" "inorder u = inorder ?T"
      unfolding del_turn_def by blast
    then show ?thesis
    proof cases
      case (up j u)
      have "del_result s P (plug j u) m' (delete_fixup rt' s m' x)"
        using up less.hyps[of j m' u] delete_fixup_exit[of s P m' j u] by auto
      with e up s(3) show ?thesis by (simp add: del_result_step)
    next
      case (fin u)
      with delete_fixup_finished[OF fin(1)] e s(3) show ?thesis by (simp add: del_result_step)
    qed
  qed
qed

section \<open>Unlinking and substitution\<close>

text \<open>Hanging the only child of a node below the node's parent.\<close>

lemma unlink_tree_at:
  assumes t: "tree_at s P m (plug k u)" and u: "u = N E b d x \<or> u = N x b d E" and k: "k \<noteq> []"
  defines "m1 \<equiv> relink m k (root_of s x)"
  defines "m2 \<equiv> m1(root_of s x := (m1 (root_of s x))\<lparr>rb_parent := par P k\<rparr>)"
  shows "set_child_link m b (root_of s x) = Some m1"
    and "tree_at s P m2 (plug k x)"
    and "rb_parent (m2 (root_of s x)) = par P k"
    and "\<forall>z. z \<notin> set (inorder (plug k u)) \<and> z \<noteq> s \<longrightarrow> m2 z = m z"
proof -
  have d: "repc m s P k b" "rep m s b x" "b \<noteq> NULL" "s \<noteq> NULL" "\<not> rb_red (m s)" "rb_parent (m b) = par P k"
    "distinct (fleft k @ inorder x @ fright k)" "b \<notin> set (fleft k @ inorder x @ fright k)"
    "s \<notin> set (fleft k @ b # inorder x @ fright k)" "NULL \<notin> set (fleft k @ inorder x @ fright k)"
    using t u by (auto simp: tree_at_def rep_plug inorder_plug)
  have "root_of s l \<noteq> b" if "k = FR l p c # j" for l p c j
    using that d by (cases l) auto
  then show "set_child_link m b (root_of s x) = Some m1"
    unfolding m1_def using d k by (intro set_child_link_relink[of m s P k b]) auto
  have m1: "repc m1 s P k (root_of s x)" "rep m1 s b x" "m1 s = m s"
    unfolding m1_def using d
    by (auto intro!: relink_repc[OF d(1)] rep_transfer[OF d(2)] relink_other simp: disjoint_iff)
  show "rb_parent (m2 (root_of s x)) = par P k" by (simp add: m2_def)
  have "rep m2 s (par P k) x"
    unfolding m2_def using m1(2) d(7) by (cases x) auto
  moreover have "repc m2 s P k (root_of s x)"
    unfolding m2_def using m1(1) d by (cases x) auto
  moreover have "\<not> rb_red (m2 s)"
    unfolding m2_def using m1(3) d by (cases x) auto
  ultimately show "tree_at s P m2 (plug k x)"
    using d by (auto simp: tree_at_def rep_plug inorder_plug)
  show "\<forall>z. z \<notin> set (inorder (plug k u)) \<and> z \<noteq> s \<longrightarrow> m2 z = m z"
    unfolding m2_def m1_def using u by (cases x) (auto simp: inorder_plug relink_other)
qed

text \<open>A node \<open>b\<close> that takes over the fields of \<open>a\<close> and the links to it.\<close>

definition subst_mem :: "addr \<Rightarrow> rbmem \<Rightarrow> frame list \<Rightarrow> addr \<Rightarrow> addr \<Rightarrow> rbt \<Rightarrow> rbt \<Rightarrow> rbmem" where
  "subst_mem s m k a b l r = reparent s (reparent s (relink (m(b := m a)) k b) l b) r b"

lemma subst_mem_other:
  "z \<noteq> b \<Longrightarrow> z \<notin> set (fleft k) \<Longrightarrow> z \<notin> set (fright k) \<Longrightarrow> z \<notin> set (inorder l) \<Longrightarrow>
    z \<notin> set (inorder r) \<Longrightarrow> subst_mem s m k a b l r z = m z"
  by (simp add: subst_mem_def reparent_other relink_other)

lemma relink_upd_other:
  "z \<noteq> b \<Longrightarrow> z \<notin> set (fleft k) \<Longrightarrow> z \<notin> set (fright k) \<Longrightarrow> relink (m(b := v)) k x z = m z"
  by (simp add: relink_other)

lemma subst_mem_rep:
  assumes a: "m a = \<lparr>rb_left = root_of s l, rb_parent = par P k, rb_right = root_of s r, rb_red = c\<rparr>"
    and reps: "rep m s q1 l" "rep m s q2 r" "repc m s P k a"
    and d: "distinct (fleft k @ (inorder l @ b # inorder r) @ fright k)"
  shows "rep (subst_mem s m k a b l r) s P (plug k (N l b c r))"
proof -
  let ?m1 = "relink (m(b := m a)) k b"
  let ?m2 = "reparent s ?m1 l b"
  let ?m3 = "reparent s ?m2 r b"
  have k1: "repc (m(b := m a)) s P k a" using reps(3) d by auto
  have k2: "repc ?m1 s P k b" using d by (intro relink_repc[OF k1]) auto
  have "repc ?m3 s P k b" using k2 d by (subst repc_reparent, force, subst repc_reparent) auto
  moreover have l: "rep ?m1 s q1 l"
    using d by (auto intro!: rep_transfer[OF reps(1)] relink_upd_other simp: disjoint_iff)
  have "rep ?m3 s b l"
    using reparent_rep[OF l, of b] d by (subst rep_reparent_other) auto
  moreover have r: "rep ?m2 s q2 r"
    using d by (auto intro!: rep_transfer[OF reps(2)] relink_upd_other
        trans[OF reparent_other] simp: disjoint_iff)
  have "rep ?m3 s b r" using reparent_rep[OF r, of b] d by auto
  moreover have "?m3 b = m a" using d by (simp add: reparent_other relink_other)
  ultimately show ?thesis using a by (simp add: rep_plug subst_mem_def)
qed

lemma delete_move_eq:
  assumes a: "m a = \<lparr>rb_left = root_of s l, rb_parent = par P k, rb_right = root_of s r, rb_red = c\<rparr>"
    and reps: "repc m s P k a"
    and d: "distinct (fleft k @ (inorder l @ a # b # inorder r) @ fright k)"
    and s: "s \<notin> set (fleft k @ (inorder l @ a # b # inorder r) @ fright k)" "s \<noteq> NULL"
    and null: "NULL \<notin> set (fleft k @ (inorder l @ a # b # inorder r) @ fright k)"
  shows "delete_move (rootc k a) s m a b = Some (rootc k b, subst_mem s m k a b l r)"
proof -
  have nl: "root_of s l \<noteq> NULL" "root_of s l = s \<longleftrightarrow> l = E" "root_of s l \<noteq> b" "b \<noteq> root_of s l"
    using d s null by (cases l; simp; blast)+
  have nr: "root_of s r \<noteq> NULL" "root_of s r = s \<longleftrightarrow> r = E" "root_of s r \<noteq> b" "b \<noteq> root_of s r"
    using d s null by (cases r; simp; blast)+
  have n: "a \<noteq> b" "b \<noteq> a" "a \<noteq> NULL" "b \<noteq> NULL"
    using d null by auto
  note n = n nl nr
  let ?n = "\<lparr>rb_left = root_of s l, rb_parent = par P k, rb_right = root_of s r, rb_red = c\<rparr>"
  let ?m0 = "m(b := ?n)"
  have root: "a = rootc k a \<longleftrightarrow> k = []"
    using rootc_in[of k a] d by (cases "k = []") auto
  let ?m1 = "relink ?m0 k b"
  have "delete_move (rootc k a) s m a b =
      (if k = [] then Some (b, ?m0)
       else do { m \<leftarrow> set_child_link ?m0 a b; Some (rootc k a, m) }) \<bind>
      (\<lambda>(root, m). do {
         l \<leftarrow> get_left m b;
         m \<leftarrow> (if l \<noteq> s then set_parent m l b else Some m);
         r \<leftarrow> get_right m b;
         m \<leftarrow> (if r \<noteq> s then set_parent m r b else Some m);
         Some (root, m)
       })"
    unfolding delete_move_def using n a root
    by (cases "m b") (simp add: get_left_def[of _ a] get_right_def[of _ a] get_parent_def[of _ a] set_left_def
        set_right_def st_rbtree_copy_color_def set_parent_def[of _ b])
  also have "(if k = [] then Some (b, ?m0)
       else do { m \<leftarrow> set_child_link ?m0 a b; Some (rootc k a, m) }) = Some (rootc k b, ?m1)"
  proof (cases "k = []")
    case False
    have "set_child_link ?m0 a b = Some ?m1"
    proof (rule set_child_link_relink[OF _ False])
      show "repc ?m0 s P k a" using reps d by auto
      show "rb_parent (?m0 a) = par P k" using a n by simp
      show "root_of s l' \<noteq> a" if "k = FR l' p c' # j" for l' p c' j
        using that d s by (cases l') auto
    qed (use null n in auto)
    with False show ?thesis by (simp add: rootc_nonempty[OF False, of a b])
  qed simp
  finally show ?thesis
    using n d a by (simp add: rb_ops relink_other reparent_other reparent_def subst_mem_def)
qed

section \<open>Removing the node\<close>

definition cleared :: "rbnode \<Rightarrow> bool" where
  "cleared n \<longleftrightarrow> rb_left n = NULL \<and> rb_right n = NULL \<and> rb_parent n = NULL"

lemma clear_links_ok:
  assumes "a \<noteq> NULL"
  obtains n where "clear_links m a = Some (m(a := n))" "cleared n"
  using assms that[of "(m a)\<lparr>rb_left := NULL, rb_right := NULL, rb_parent := NULL\<rparr>"]
  by (simp add: clear_links_def rb_ops cleared_def)

lemma tree_at_outside:
  "tree_at s P m t \<Longrightarrow> a \<notin> set (inorder t) \<Longrightarrow> a \<noteq> s \<Longrightarrow> tree_at s P (m(a := n)) t"
  by (auto simp: tree_at_def)

text \<open>What \<^verbatim>\<open>delete_node\<close> leaves: either nothing to repair, or a focus for the loop.\<close>

definition del_node_post ::
    "addr \<Rightarrow> rbt \<Rightarrow> rbmem \<Rightarrow> addr \<Rightarrow> (addr \<times> rbmem \<times> addr) option \<Rightarrow> bool" where
  "del_node_post s t m a res \<longleftrightarrow> (\<exists>P k x m' ret. res = Some (rootc k (root_of s x), m', ret) \<and>
     (ret = NULL \<and> tree_at s P m' (plug k x) \<and> rb_inv (plug k x) \<or>
      ret = root_of s x \<and> ret \<noteq> NULL \<and> del_inv s P m' k x) \<and>
     inorder (plug k x) = remove1 a (inorder t) \<and> cleared (m' a) \<and>
     (\<forall>z. z \<notin> set (inorder t) \<and> z \<noteq> s \<longrightarrow> m' z = m z))"

lemma delete_pick_single:
  assumes t: "tree_at s P m (plug k u)" and u: "u = N E a c x \<or> u = N x a c E"
  shows "delete_pick s m a = Some (a, root_of s x)"
proof -
  have f: "a \<noteq> NULL" "m a = (case u of N l _ _ r \<Rightarrow>
      \<lparr>rb_left = root_of s l, rb_parent = par P k, rb_right = root_of s r, rb_red = c\<rparr>)"
    using t u by (auto simp: tree_at_def rep_plug inorder_plug)
  have "root_of s x = s \<longleftrightarrow> x = E"
    using t u by (cases x) (auto simp: tree_at_def inorder_plug)
  with f u show ?thesis by (auto simp: delete_pick_def rb_reads)
qed

lemma single_inv:
  assumes "rb_inv (plug k u)" and "u = N E a c x \<or> u = N x a c E" and "k \<noteq> []"
  shows "c \<Longrightarrow> rb_inv (plug k x)"
    and "\<not> c \<Longrightarrow> invc (blacken x) \<and> invh x \<and> cctx k False \<and> hctx k (Suc (bheight x)) \<and> \<not> ctop k True"
  using assms ctop_nonempty[OF assms(3), of c True] ctop_nonempty[OF assms(3), of False True]
  by (auto simp: rb_inv_def invc_plug invh_plug isred_plug dest: cctx_black)

lemma delete_node_root:
  assumes t: "tree_at s P m u" and u: "u = N E a c x \<or> u = N x a c E" and inv: "rb_inv u"
  shows "del_node_post s u m a (delete_node a s m a)"
proof -
  have p: "delete_pick s m a = Some (a, root_of s x)"
    using delete_pick_single[of s P m "[]" u] t u by simp
  have x: "tree_at s a m (plug [] x)" and a: "a \<noteq> NULL" "a \<notin> set (inorder x)" "a \<noteq> s"
    using t u by (auto simp: tree_at_def)
  obtain m1 where m1: "st_rbtree_black m (root_of s x) = Some m1"
    "tree_at s a m1 (plug [] (blacken x))" "same_outside (plug [] x) m m1"
    using black_focus[OF x] .
  obtain n where n: "clear_links m1 a = Some (m1(a := n))" "cleared n"
    using clear_links_ok[OF a(1)] .
  have e: "delete_node a s m a = Some (rootc [] (root_of s (blacken x)), m1(a := n), NULL)"
    using p m1(1) n(1) by (simp add: delete_node_def)
  have "tree_at s a (m1(a := n)) (plug [] (blacken x))"
    using tree_at_outside[OF m1(2)] a by simp
  moreover have "rb_inv (plug [] (blacken x))" using inv u by (auto simp: rb_inv_def)
  moreover have "inorder (plug [] (blacken x)) = remove1 a (inorder u)"
    using u a by (auto simp: remove1_append)
  moreover have "\<forall>z. z \<notin> set (inorder u) \<and> z \<noteq> s \<longrightarrow> (m1(a := n)) z = m z"
    using m1(3) u by (auto simp: same_outside_def)
  ultimately show ?thesis using e n(2) unfolding del_node_post_def
    by (intro exI[of _ a] exI[of _ "[]"] exI[of _ "blacken x"] exI[of _ "m1(a := n)"] exI[of _ NULL]) simp
qed

lemma delete_node_single:
  assumes t: "tree_at s P m (plug k u)" and u: "u = N E a c x \<or> u = N x a c E"
    and inv: "rb_inv (plug k u)" and k: "k \<noteq> []"
  shows "del_node_post s (plug k u) m a (delete_node (rootc k a) s m a)"
proof -
  note ul = unlink_tree_at[OF t u k]
  define m1 where "m1 = relink m k (root_of s x)"
  define m2 where "m2 = m1(root_of s x := (m1 (root_of s x))\<lparr>rb_parent := par P k\<rparr>)"
  have a: "a \<noteq> NULL" "a \<noteq> s" "a \<notin> set (fleft k @ inorder x @ fright k)" "rb_red (m a) = c"
    "rb_parent (m a) = par P k" "root_of s x \<noteq> NULL"
    using t u by (cases x; auto simp: tree_at_def rep_plug inorder_plug)+
  have "a \<noteq> rootc k a" using rootc_in[OF k, of a] a(3) by auto
  moreover have "m1 a = m a" using a(3) by (simp add: m1_def relink_other)
  moreover obtain n where n: "clear_links m2 a = Some (m2(a := n))" "cleared n"
    using clear_links_ok[OF a(1)] .
  ultimately have e: "delete_node (rootc k a) s m a =
      Some (rootc k (root_of s x), m2(a := n), if c then NULL else root_of s x)"
    using delete_pick_single[OF t u] ul(1) a
    by (simp add: delete_node_def st_rbtree_is_red_def get_parent_def set_parent_def
        m1_def[symmetric] m2_def[symmetric] rootc_nonempty[OF k, of a "root_of s x"])
  have ax: "a \<noteq> root_of s x" using a by (cases x) auto
  have t2: "tree_at s P (m2(a := n)) (plug k x)"
    using tree_at_outside[OF ul(2)] a by (simp add: inorder_plug m2_def m1_def)
  have par: "rb_parent ((m2(a := n)) (root_of s x)) = par P k"
    using ul(3) ax by (simp add: m2_def m1_def)
  have io: "inorder (plug k x) = remove1 a (inorder (plug k u))"
    using u a by (auto simp: inorder_plug remove1_append)
  have frame: "\<forall>z. z \<notin> set (inorder (plug k u)) \<and> z \<noteq> s \<longrightarrow> (m2(a := n)) z = m z"
    using ul(4) u by (auto simp: m2_def m1_def inorder_plug)
  note inv' = single_inv[OF inv u k]
  have "c \<and> rb_inv (plug k x) \<or> \<not> c \<and> del_inv s P (m2(a := n)) k x"
    using inv' t2 par k by (auto simp: del_inv_def)
  then show ?thesis
    unfolding del_node_post_def using e t2 io frame n(2) a(6)
    by (intro exI[of _ P] exI[of _ k] exI[of _ x] exI[of _ "m2(a := n)"]
        exI[of _ "if c then NULL else root_of s x"]) auto
qed

lemma get_left_most_ok:
  "rep m s p t \<Longrightarrow> t \<noteq> E \<Longrightarrow> s \<notin> set (inorder t) \<Longrightarrow> NULL \<notin> set (inorder t) \<Longrightarrow>
    get_left_most s m (root_of s t) = Some (hd (inorder t))"
proof (induction t arbitrary: p)
  case (N l a c r)
  show ?case
  proof (cases "l = E")
    case True
    with N.prems show ?thesis by (subst get_left_most.simps) (auto simp: get_left_def)
  next
    case False
    then have "inorder l \<noteq> []" "root_of s l \<noteq> s" using N.prems by (cases l; auto)+
    moreover have "get_left_most s m (root_of s l) = Some (hd (inorder l))"
      using N.IH(1)[of a] N.prems False by auto
    ultimately show ?thesis using N.prems
      by (subst get_left_most.simps) (auto simp: get_left_def)
  qed
qed simp

lemma ctx_rename:
  "hctx (j @ FR l b c # k) h = hctx (j @ FR l a c # k) h"
  "cctx (j @ FR l b c # k) e = cctx (j @ FR l a c # k) e"
  "ctop (j @ FR l b c # k) e = ctop (j @ FR l a c # k) e"
proof -
  show "hctx (j @ FR l b c # k) h = hctx (j @ FR l a c # k) h"
    by (induction j h rule: hctx.induct) auto
  show "cctx (j @ FR l b c # k) e = cctx (j @ FR l a c # k) e"
    by (induction j e rule: cctx.induct) auto
  show "ctop (j @ FR l b c # k) e = ctop (j @ FR l a c # k) e"
    by (induction j e rule: ctop.induct) auto
qed

lemma rb_inv_rename: "rb_inv (plug (j @ FR l b c # k) x) = rb_inv (plug (j @ FR l a c # k) x)"
  by (simp only: rb_inv_def invc_plug invh_plug isred_plug ctx_rename[of j l b c k _ a])

lemma tree_at_parent:
  "tree_at s P m (plug k t) \<Longrightarrow> t \<noteq> E \<Longrightarrow> rb_parent (m (root_of s t)) = par P k"
  by (cases t) (auto simp: tree_at_def rep_plug)

lemma path_append:
  "fleft (j @ k) = fleft k @ fleft j" "fright (j @ k) = fright j @ fright k"
  by (induction j rule: fleft.induct, auto)

lemma rootc_append: "rootc (j @ k) x = rootc k (rootc j x)"
  by (induction j x rule: rootc.induct) auto

lemma par_append: "par P (j @ k) = (if j = [] then par P k else par P j)"
  by (cases j rule: path_cases) auto

text \<open>The store after the successor \<open>b\<close> has been taken out, before it replaces \<open>a\<close>.\<close>

lemma successor_unlinked:
  assumes t: "tree_at s P m (plug k (N l a c (plug j (N E b d x))))" and j: "left_spine j"
  defines "m1 \<equiv> relink m (j @ FR l a c # k) (root_of s x)"
  defines "q \<equiv> (if j = [] then b else par P j)"
  defines "m2 \<equiv> m1(root_of s x := (m1 (root_of s x))\<lparr>rb_parent := q\<rparr>)"
  shows "set_child_link m b (root_of s x) = Some m1"
    and "m2 a = \<lparr>rb_left = root_of s l, rb_parent = par P k, rb_right = root_of s (plug j x), rb_red = c\<rparr>"
    and "rep m2 s a l" and "\<exists>q. rep m2 s q (plug j x)" and "repc m2 s P k a"
    and "\<not> rb_red (m2 s)" and "rb_parent (m2 (root_of s x)) = q"
    and "\<forall>z. z \<notin> set (inorder (plug k (N l a c (plug j (N E b d x))))) \<and> z \<noteq> s \<longrightarrow> m2 z = m z"
proof -
  let ?k = "j @ FR l a c # k"
  have t': "tree_at s P m (plug ?k (N E b d x))" using t by (simp add: plug_append)
  have k: "?k \<noteq> []" by simp
  note ul = unlink_tree_at[OF t' disjI1[OF refl] k]
  define m3 where "m3 = m1(root_of s x := (m1 (root_of s x))\<lparr>rb_parent := par P ?k\<rparr>)"
  note ul = ul[folded m1_def, folded m3_def]
  have p: "rep m3 s P (plug k (N l a c (plug j x)))" "\<not> rb_red (m3 s)"
    and n: "distinct (fleft k @ (inorder l @ a # fleft j @ inorder x @ fright j) @ fright k)"
      "s \<notin> set (fleft k @ (inorder l @ a # fleft j @ inorder x @ fright j) @ fright k)"
    using ul(2) by (auto simp: tree_at_def plug_append inorder_plug)
  have eq: "m2 z = m3 z" if "z \<noteq> root_of s x" for z using that by (simp add: m2_def m3_def)
  have xr: "root_of s x \<notin> set (fleft k @ inorder l @ a # fleft j @ fright j @ fright k)"
    using n by (cases x) auto
  show "set_child_link m b (root_of s x) = Some m1" by (rule ul(1))
  show "m2 a = \<lparr>rb_left = root_of s l, rb_parent = par P k, rb_right = root_of s (plug j x), rb_red = c\<rparr>"
    using p(1) eq[of a] xr by (auto simp: rep_plug)
  have "rep m3 s a l" using p(1) by (simp add: rep_plug)
  then show "rep m2 s a l" by (rule rep_transfer) (rule eq, use xr in auto)
  have "m2 = m3(root_of s x := (m3 (root_of s x))\<lparr>rb_parent := q\<rparr>)" by (simp add: m2_def m3_def)
  moreover have "rep m3 s (par a j) x" "distinct (inorder x)" using p(1) n(1) by (auto simp: rep_plug)
  ultimately have xx: "rep m2 s q x"
    using rep_set_parent[of m3 s "par a j" x] by (cases "x = E") auto
  show "\<exists>q. rep m2 s q (plug j x)"
  proof (cases "j = []")
    case True
    with xx show ?thesis by auto
  next
    case False
    then have "m2 = m3" by (simp add: m2_def m3_def q_def par_append)
    with p(1) show ?thesis by (auto simp: rep_plug)
  qed
  have "repc m2 s P k a = repc m3 s P k a" by (rule repc_cong) (rule eq, use xr in auto)
  with p(1) show "repc m2 s P k a" by (simp add: rep_plug)
  show "\<not> rb_red (m2 s)"
    using p(2) unfolding m2_def m3_def by (cases x) auto
  show "rb_parent (m2 (root_of s x)) = q" by (simp add: m2_def)
  show "\<forall>z. z \<notin> set (inorder (plug k (N l a c (plug j (N E b d x))))) \<and> z \<noteq> s \<longrightarrow> m2 z = m z"
    using ul(4) eq by (cases x) (auto simp: plug_append inorder_plug)
qed

lemma delete_node_double:
  assumes t: "tree_at s P m (plug k (N l a c (plug j (N E b d x))))"
    and j: "left_spine j" and l: "l \<noteq> E" and inv: "rb_inv (plug k (N l a c (plug j (N E b d x))))"
  shows "del_node_post s (plug k (N l a c (plug j (N E b d x)))) m a (delete_node (rootc k a) s m a)"
proof -
  let ?r = "plug j (N E b d x)" and ?k = "j @ FR l a c # k" and ?k' = "j @ FR l b c # k"
  define m1 where "m1 = relink m ?k (root_of s x)"
  define q where "q = (if j = [] then b else par P j)"
  define m2 where "m2 = m1(root_of s x := (m1 (root_of s x))\<lparr>rb_parent := q\<rparr>)"
  note su = successor_unlinked[OF t j, folded m1_def q_def, folded m2_def]
  have d: "distinct (fleft k @ (inorder l @ a # b # inorder (plug j x)) @ fright k)"
    "s \<notin> set (fleft k @ (inorder l @ a # b # inorder (plug j x)) @ fright k)"
    "NULL \<notin> set (fleft k @ (inorder l @ a # b # inorder (plug j x)) @ fright k)"
    "rep m s a ?r" "s \<notin> set (inorder ?r)" "NULL \<notin> set (inorder ?r)" "s \<noteq> NULL"
    using t left_spine_fleft[OF j] by (auto simp: tree_at_def inorder_plug rep_plug)
  have io: "inorder ?r = b # inorder (plug j x)" using left_spine_fleft[OF j] by (simp add: inorder_plug)
  have r: "?r \<noteq> E" using io by auto
  have roots: "root_of s l \<noteq> s" "root_of s ?r \<noteq> s" "root_of s x \<noteq> NULL" "b \<noteq> rootc k a" "b \<noteq> root_of s x"
    "a \<noteq> root_of s x"
  proof -
    show "root_of s l \<noteq> s" using l d by (cases l) auto
    show "root_of s ?r \<noteq> s" using r d(5) by (cases ?r) auto
    show "root_of s x \<noteq> NULL" "b \<noteq> root_of s x" "a \<noteq> root_of s x"
      using d by (cases x; auto simp: inorder_plug)+
    show "b \<noteq> rootc k a" using rootc_in[of k a] d(1) by (cases "k = []") auto
  qed
  note f = tree_at_focus[OF t]
  have fb: "m b = \<lparr>rb_left = s, rb_parent = par P ?k, rb_right = root_of s x, rb_red = d\<rparr>" "b \<noteq> NULL"
    using tree_at_focus[of s P m ?k E b d x] t by (simp_all add: plug_append)
  have pick: "delete_pick s m a = Some (b, root_of s x)"
    using f fb roots get_left_most_ok[OF d(4) r d(5,6)] io
    by (simp add: delete_pick_def rb_reads)
  have m1b: "m1 b = m b"
    unfolding m1_def using d(1) left_spine_fleft[OF j]
    by (intro relink_other) (auto simp: path_append inorder_plug)
  have q: "par P ?k = a \<longleftrightarrow> j = []" "q = (if par P ?k = a then b else par P ?k)"
    using par_in[of j P] d(1) by (auto simp: par_append q_def inorder_plug)
  obtain q' where q': "rep m2 s q' (plug j x)" using su(4) by blast
  let ?m3 = "subst_mem s m2 k a b l (plug j x)"
  have mv: "delete_move (rootc k a) s m2 a b = Some (rootc k b, ?m3)"
    using su(2,5) d by (intro delete_move_eq) auto
  have rep3: "rep ?m3 s P (plug k (N l b c (plug j x)))"
    using su(2,3,5) q' d(1) by (intro subst_mem_rep) auto
  have out: "?m3 a = m2 a" "?m3 s = m2 s"
    using d by (auto intro!: subst_mem_other)
  obtain n where n: "clear_links ?m3 a = Some (?m3(a := n))" "cleared n"
    using clear_links_ok[OF f(2)] .
  have e: "delete_node (rootc k a) s m a =
      Some (rootc k b, ?m3(a := n), if d then NULL else root_of s x)"
    using pick roots fb m1b su(1) mv n(1) d(1) q
    by (auto simp: delete_node_def get_parent_def st_rbtree_is_red_def set_parent_def m2_def)
  let ?m = "?m3(a := n)"
  have T': "tree_at s P ?m (plug ?k' x)"
  proof (rule tree_at_outside)
    show "tree_at s P ?m3 (plug ?k' x)"
      using rep3 out su(6) d by (auto simp: tree_at_def plug_append inorder_plug)
  qed (use d in \<open>auto simp: plug_append inorder_plug\<close>)
  have par: "rb_parent (?m (root_of s x)) = par P ?k'"
  proof (cases "x = E")
    case True
    with su(7) out(2) d(2) show ?thesis by (auto simp: q_def par_append)
  next
    case False
    with tree_at_parent[OF T'] show ?thesis by simp
  qed
  have io': "inorder (plug ?k' x) = remove1 a (inorder (plug k (N l a c ?r)))"
    using d(1) io by (auto simp: plug_append inorder_plug remove1_append)
  have frame: "\<forall>z. z \<notin> set (inorder (plug k (N l a c ?r))) \<and> z \<noteq> s \<longrightarrow> ?m z = m z"
  proof (intro allI impI)
    fix z
    assume z: "z \<notin> set (inorder (plug k (N l a c ?r))) \<and> z \<noteq> s"
    then have "?m z = m2 z" using io by (auto simp: inorder_plug intro!: subst_mem_other)
    with su(8) z show "?m z = m z" by simp
  qed
  have i: "rb_inv (plug ?k (N E b d x))" using inv by (simp add: plug_append)
  note si = single_inv[OF i disjI1[OF refl]]
  have "d \<and> rb_inv (plug ?k' x) \<or> \<not> d \<and> del_inv s P ?m ?k' x"
    using si T' par by (cases d) (simp_all add: del_inv_def rb_inv_rename[of j l b c k x a] ctx_rename[of j l b c k _ a])
  then show ?thesis
    unfolding del_node_post_def using e T' io' frame n(2) roots(3)
    by (intro exI[of _ P] exI[of _ ?k'] exI[of _ x] exI[of _ ?m]
        exI[of _ "if d then NULL else root_of s x"]) (auto simp: rootc_append)
qed

lemma delete_node_correct:
  assumes t: "tree_at s P m t" and inv: "rb_inv t" and a: "a \<in> set (inorder t)"
  shows "del_node_post s t m a (delete_node (root_of s t) s m a)"
proof -
  obtain k l c r where k: "t = plug k (N l a c r)" using focus_exists[OF a] by blast
  have root: "root_of s t = rootc k a" using k by (simp add: root_of_plug)
  consider (single) x where "N l a c r = N E a c x \<or> N l a c r = N x a c E"
    | (double) "l \<noteq> E" "r \<noteq> E" by auto
  then show ?thesis
  proof cases
    case (single x)
    show ?thesis
    proof (cases "k = []")
      case True
      with delete_node_root[OF _ single] t inv k root show ?thesis by simp
    next
      case False
      with delete_node_single[OF _ single] t inv k root show ?thesis by simp
    qed
  next
    case double
    obtain j b d x where r: "r = plug j (N E b d x)" "left_spine j"
      using leftmost_exists[OF double(2)] by blast
    with delete_node_double[of s P m k l a c j b d x] t inv k root double show ?thesis by simp
  qed
qed

section \<open>The whole operation\<close>

lemma rbtree_delete_ok:
  assumes "rb_tree tree m t" and "a \<in> set (inorder t)"
  shows "\<exists>tree' m' t'. st_rbtree_delete tree m a = Some (ST_OK, tree', m') \<and>
    rt_sentinel tree' = rt_sentinel tree \<and> rb_tree tree' m' t' \<and>
    inorder t' = remove1 a (inorder t) \<and>
    rb_left (m' a) = NULL \<and> rb_right (m' a) = NULL \<and> rb_parent (m' a) = NULL \<and>
    (\<forall>z. z \<notin> set (inorder t) \<and> z \<noteq> rt_sentinel tree \<longrightarrow> m' z = m z)"
proof -
  let ?s = "rt_sentinel tree"
  obtain P where t: "tree_at ?s P m t" "rt_root tree = root_of ?s t" "rb_inv t"
    using assms(1) by (auto simp: rb_tree_def)
  have a: "a \<noteq> NULL" "a \<noteq> ?s" using tree_at_nonnull[OF t(1) assms(2)] by auto
  have a': "a \<notin> set (remove1 a (inorder t))" using t(1) by (simp add: tree_at_def)
  obtain P' k x m1 ret where d: "delete_node (root_of ?s t) ?s m a = Some (rootc k (root_of ?s x), m1, ret)"
    "ret = NULL \<and> tree_at ?s P' m1 (plug k x) \<and> rb_inv (plug k x) \<or>
      ret = root_of ?s x \<and> ret \<noteq> NULL \<and> del_inv ?s P' m1 k x"
    "inorder (plug k x) = remove1 a (inorder t)" "cleared (m1 a)"
    "\<forall>z. z \<notin> set (inorder t) \<and> z \<noteq> ?s \<longrightarrow> m1 z = m z"
    using delete_node_correct[OF t(1,3) assms(2)] unfolding del_node_post_def by blast
  show ?thesis
  proof (cases "ret = NULL")
    case True
    let ?tree = "tree\<lparr>rt_root := rootc k (root_of ?s x)\<rparr>"
    have "rb_tree ?tree m1 (plug k x)" using d(2) True by (auto simp: rb_tree_def root_of_plug)
    moreover have "st_rbtree_delete tree m a = Some (ST_OK, ?tree, m1)"
      using d(1) True a t(2) by (simp add: st_rbtree_delete_def)
    ultimately show ?thesis using d(3,4,5) unfolding cleared_def
      by (intro exI[of _ ?tree] exI[of _ m1] exI[of _ "plug k x"]) simp
  next
    case False
    then have i: "del_inv ?s P' m1 k x" "ret = root_of ?s x" using d(2) by auto
    obtain rt' m' y m'' t'' where f:
      "delete_fixup (rootc k (root_of ?s x)) ?s m1 (root_of ?s x) = Some (rt', m', y)"
      "st_rbtree_black m' y = Some m''" "tree_at ?s P' m'' t''" "rb_inv t''" "rt' = root_of ?s t''"
      "inorder t'' = inorder (plug k x)" "same_outside (plug k x) m1 m''"
      using delete_fixup_correct[OF i(1)] unfolding del_result_def by blast
    let ?tree = "tree\<lparr>rt_root := rt'\<rparr>"
    have "rb_tree ?tree m'' t''" using f by (auto simp: rb_tree_def)
    moreover have "st_rbtree_delete tree m a = Some (ST_OK, ?tree, m'')"
      using d(1) False a t(2) f(1,2) i(2) by (simp add: st_rbtree_delete_def)
    moreover have "m'' a = m1 a" using f(7) d(3) a' by (simp add: same_outside_def)
    moreover have "\<forall>z. z \<notin> set (inorder t) \<and> z \<noteq> ?s \<longrightarrow> m'' z = m z"
      using d(3,5) f(7) set_remove1_subset[of a "inorder t"] by (auto simp: same_outside_def)
    ultimately show ?thesis using d(3,4) f(6) unfolding cleared_def
      by (intro exI[of _ ?tree] exI[of _ m''] exI[of _ t'']) simp
  qed
qed

text \<open>
  C23: Deleting a node of a red-black tree always returns \<^verbatim>\<open>ST_OK\<close>; the tree is again a
  red-black tree with all links right, its nodes in order are the old ones without the deleted
  node, the links of the deleted node are \<^verbatim>\<open>NULL\<close>, and memory outside the tree and its sentinel
  keeps its contents.
\<close>

theorem rbtree_delete_correct:
  assumes "rb_tree tree m t" and "a \<in> set (inorder t)"
  shows "\<exists>tree' m' t'. st_rbtree_delete tree m a = Some (ST_OK, tree', m') \<and>
    rt_sentinel tree' = rt_sentinel tree \<and> rb_tree tree' m' t' \<and>
    inorder t' = remove1 a (inorder t) \<and>
    rb_left (m' a) = NULL \<and> rb_right (m' a) = NULL \<and> rb_parent (m' a) = NULL \<and>
    (\<forall>z. z \<notin> set (inorder t) \<and> z \<noteq> rt_sentinel tree \<longrightarrow> m' z = m z)"
  using rbtree_delete_ok[OF assms] .

text \<open>A black node 2 with a black left child 1 and a black right child 3; 1 is deleted.\<close>

definition three_tree :: st_rbtree where
  "three_tree = \<lparr>rt_root = 2, rt_sentinel = 100\<rparr>"

definition three_mem :: rbmem where
  "three_mem = (\<lambda>_. st_rbtree_node_empty)
     (2 := \<lparr>rb_left = 1, rb_parent = NULL, rb_right = 3, rb_red = False\<rparr>,
      1 := \<lparr>rb_left = 100, rb_parent = 2, rb_right = 100, rb_red = False\<rparr>,
      3 := \<lparr>rb_left = 100, rb_parent = 2, rb_right = 100, rb_red = False\<rparr>)"

lemma three_tree_ok: "rb_tree three_tree three_mem (N (N E 1 False E) 2 False (N E 3 False E))"
  by (auto simp: rb_tree_def tree_at_def rb_inv_def three_tree_def three_mem_def
      st_rbtree_node_empty_def)

theorem rbtree_delete_correct_witness:
  "\<exists>tree' m' t'. st_rbtree_delete three_tree three_mem 1 = Some (ST_OK, tree', m') \<and>
     rb_tree tree' m' t' \<and> inorder t' = [2, 3]"
  using rbtree_delete_correct[OF three_tree_ok, of 1] by auto

end
