(* ===== verification/Rbtree_Search.thy ===== *)
theory Rbtree_Search
  imports Rbtree_Delete St_Order
begin

text \<open>
  The operations that do not rebalance: \<^verbatim>\<open>st_rbtree_search\<close> finds the nearest node on the wanted
  side, \<^verbatim>\<open>st_rbtree_left_most\<close> and \<^verbatim>\<open>st_rbtree_get_next\<close> enumerate the nodes in order, and
  \<^verbatim>\<open>st_rbtree_replace\<close> puts a node in the place of an equal one.
\<close>

section \<open>Search\<close>

text \<open>What a search is to return, in terms of the ordered nodes.\<close>

definition nearest_left :: "(addr \<Rightarrow> addr \<Rightarrow> int) \<Rightarrow> addr \<Rightarrow> addr \<Rightarrow> addr list \<Rightarrow> addr" where
  "nearest_left cmp x d xs = (let ys = filter (\<lambda>y. cmp y x < 0) xs in if ys = [] then d else last ys)"

definition nearest_right :: "(addr \<Rightarrow> addr \<Rightarrow> int) \<Rightarrow> addr \<Rightarrow> addr \<Rightarrow> addr list \<Rightarrow> addr" where
  "nearest_right cmp x d xs = (let ys = filter (\<lambda>y. cmp y x > 0) xs in if ys = [] then d else hd ys)"

definition search_spec ::
    "(addr \<Rightarrow> addr \<Rightarrow> int) \<Rightarrow> addr \<Rightarrow> int \<Rightarrow> addr \<Rightarrow> addr \<Rightarrow> addr list \<Rightarrow> addr \<Rightarrow> bool" where
  "search_spec cmp x side dl dr xs y \<longleftrightarrow>
    (if st_side_has_eq side \<and> (\<exists>z \<in> set xs. cmp z x = 0) then y \<in> set xs \<and> cmp y x = 0
     else if st_side_strip_eq side = 0 then y = nearest_left cmp x dl xs
     else if st_side_strip_eq side = 2 then y = nearest_right cmp x dr xs
     else y = NULL)"

lemma nearest_simps:
  "(\<And>y. y \<in> set xs \<Longrightarrow> cmp y x < 0) \<Longrightarrow> cmp a x < 0 \<Longrightarrow>
    nearest_left cmp x d (xs @ a # ys) = nearest_left cmp x a ys"
  "(\<And>y. y \<in> set ys \<Longrightarrow> \<not> cmp y x < 0) \<Longrightarrow> \<not> cmp a x < 0 \<Longrightarrow>
    nearest_left cmp x d (xs @ a # ys) = nearest_left cmp x d xs"
  "(\<And>y. y \<in> set ys \<Longrightarrow> cmp y x > 0) \<Longrightarrow> cmp a x > 0 \<Longrightarrow>
    nearest_right cmp x d (xs @ a # ys) = nearest_right cmp x a xs"
  "(\<And>y. y \<in> set xs \<Longrightarrow> \<not> cmp y x > 0) \<Longrightarrow> \<not> cmp a x > 0 \<Longrightarrow>
    nearest_right cmp x d (xs @ a # ys) = nearest_right cmp x d ys"
  unfolding nearest_left_def nearest_right_def Let_def
  by (auto simp: filter_empty_conv hd_append intro: ccontr)

lemma search_spec_low:
  assumes "\<And>y. y \<in> set xs \<Longrightarrow> cmp y x < 0" and "cmp a x < 0"
    and "search_spec cmp x side a dr ys y"
  shows "search_spec cmp x side dl dr (xs @ a # ys) y"
proof -
  have "nearest_left cmp x dl (xs @ a # ys) = nearest_left cmp x a ys"
    "nearest_right cmp x dr (xs @ a # ys) = nearest_right cmp x dr ys"
    using assms(1,2) by (intro nearest_simps; fastforce)+
  moreover have "(\<exists>z \<in> set (xs @ a # ys). cmp z x = 0) \<longleftrightarrow> (\<exists>z \<in> set ys. cmp z x = 0)"
    using assms(1,2) by fastforce
  ultimately show ?thesis using assms(3) unfolding search_spec_def by (auto split: if_splits)
qed

lemma search_spec_high:
  assumes "\<And>y. y \<in> set ys \<Longrightarrow> cmp y x > 0" and "cmp a x > 0"
    and "search_spec cmp x side dl a xs y"
  shows "search_spec cmp x side dl dr (xs @ a # ys) y"
proof -
  have "nearest_left cmp x dl (xs @ a # ys) = nearest_left cmp x dl xs"
    "nearest_right cmp x dr (xs @ a # ys) = nearest_right cmp x a xs"
    using assms(1,2) by (intro nearest_simps; fastforce)+
  moreover have "(\<exists>z \<in> set (xs @ a # ys). cmp z x = 0) \<longleftrightarrow> (\<exists>z \<in> set xs. cmp z x = 0)"
    using assms(1,2) by fastforce
  ultimately show ?thesis using assms(3) unfolding search_spec_def by (auto split: if_splits)
qed

locale search_order = three_way A cmp for A :: "addr set" and cmp :: "addr \<Rightarrow> addr \<Rightarrow> int"
begin

lemma search_loop_correct:
  assumes "tree_at s P m (plug k t)" and "sorted_by cmp (inorder t)" and "set (inorder t) \<subseteq> A"
    and "x \<in> A" and "side \<in> {0, 1, 2, 16, 18}"
  shows "\<exists>y. search_loop cmp s m x side (root_of s t) [dl, NULL, dr] = Some y \<and>
    search_spec cmp x side dl dr (inorder t) y"
  using assms(1-3)
proof (induction t arbitrary: k dl dr)
  case E
  with assms(5) show ?case
    by (subst search_loop.simps)
      (auto simp: search_spec_def arr_get_def nearest_left_def nearest_right_def)
next
  case (N l a c r)
  have tl: "tree_at s P m (plug (FL a c r # k) l)" and tr: "tree_at s P m (plug (FR l a c # k) r)"
    using N.prems(1) by simp_all
  note f = tree_at_focus[OF N.prems(1)]
  have A: "a \<in> A" "set (inorder l) \<subseteq> A" "set (inorder r) \<subseteq> A" using N.prems(3) by auto
  have le: "cmp y a \<le> 0" if "y \<in> set (inorder l)" for y using that N.prems(2) by auto
  have ge: "cmp a y \<le> 0" if "y \<in> set (inorder r)" for y using that N.prems(2) by auto
  have low: "cmp y x < 0" if "y \<in> set (inorder l)" "cmp a x < 0" for y
    using le_less_trans[of y a x] le[OF that(1)] that A assms(4) by auto
  have high: "cmp y x > 0" if "y \<in> set (inorder r)" "cmp a x > 0" for y
    using le_less_trans[of x a y] less_le_trans[of x a y] ge[OF that(1)] that A assms(4)
      flip[of x a] flip[of x y] by auto
  have mid: "\<not> cmp y x < 0" if "y \<in> set (inorder r)" "cmp a x = 0" for y
    using trans[of x a y] flip[of a x] flip[of x y] ge[OF that(1)] that A assms(4) by auto
  have mid': "\<not> cmp y x > 0" if "y \<in> set (inorder l)" "cmp a x = 0" for y
    using trans[of y a x] le[OF that(1)] that A assms(4) by auto
  have IHl: "\<exists>y. search_loop cmp s m x side (root_of s l) [dl, NULL, dr] = Some y \<and>
      search_spec cmp x side dl dr (inorder l) y" for dl dr
    using N.IH(1)[OF tl] N.prems(2) A by simp
  have IHr: "\<exists>y. search_loop cmp s m x side (root_of s r) [dl, NULL, dr] = Some y \<and>
      search_spec cmp x side dl dr (inorder r) y" for dl dr
    using N.IH(2)[OF tr] N.prems(2) A by simp
  consider (lt) "cmp a x = - 1" | (eq) "cmp a x = 0" | (gt) "cmp a x = 1"
    using range[OF A(1) assms(4)] by auto
  then show ?case
  proof cases
    case lt
    have "search_loop cmp s m x side a [dl, NULL, dr] =
        search_loop cmp s m x side (root_of s r) [a, NULL, dr]"
      using f lt by (subst search_loop.simps) (simp add: arr_set_def get_branch_def rb_reads)
    moreover obtain y where "search_loop cmp s m x side (root_of s r) [a, NULL, dr] = Some y"
      "search_spec cmp x side a dr (inorder r) y" using IHr[of a dr] by blast
    ultimately show ?thesis
      using search_spec_low[of "inorder l" cmp x a side dr "inorder r" y dl] low lt by auto
  next
    case gt
    have "search_loop cmp s m x side a [dl, NULL, dr] =
        search_loop cmp s m x side (root_of s l) [dl, NULL, a]"
      using f gt by (subst search_loop.simps) (simp add: arr_set_def get_branch_def rb_reads)
    moreover obtain y where "search_loop cmp s m x side (root_of s l) [dl, NULL, a] = Some y"
      "search_spec cmp x side dl a (inorder l) y" using IHl[of dl a] by blast
    ultimately show ?thesis
      using search_spec_high[of "inorder r" cmp x a side dl "inorder l" y dr] high gt by auto
  next
    case eq
    show ?thesis
    proof (cases "st_side_has_eq side")
      case True
      with f eq show ?thesis by (subst search_loop.simps) (auto simp: search_spec_def)
    next
      case False
      then consider "side = 0" | "side = 2" using assms(5) by auto
      then show ?thesis
      proof cases
        case 1
        have "search_loop cmp s m x side a [dl, NULL, dr] =
            search_loop cmp s m x side (root_of s l) [dl, NULL, dr]"
          using f eq 1 by (subst search_loop.simps) (simp add: get_branch_def rb_reads)
        moreover have "nearest_left cmp x dl (inorder l @ a # inorder r) = nearest_left cmp x dl (inorder l)"
          using mid eq by (intro nearest_simps) auto
        ultimately show ?thesis using IHl[of dl dr] 1 by (simp add: search_spec_def)
      next
        case 2
        have "search_loop cmp s m x side a [dl, NULL, dr] =
            search_loop cmp s m x side (root_of s r) [dl, NULL, dr]"
          using f eq 2 by (subst search_loop.simps) (simp add: get_branch_def rb_reads)
        moreover have "nearest_right cmp x dr (inorder l @ a # inorder r) = nearest_right cmp x dr (inorder r)"
          using mid' eq by (intro nearest_simps) auto
        ultimately show ?thesis using IHr[of dl dr] 2 by (simp add: search_spec_def)
      qed
    qed
  qed
qed

end

interpretation st_cmp_search: search_order A "\<lambda>a b. st_cmp (f a) (f b)"
  for A :: "addr set" and f :: "addr \<Rightarrow> 'b::linorder"
  by unfold_locales

lemma rbtree_search_ok:
  assumes "three_way A cmp" and "rb_tree tree m t" and "sorted_by cmp (inorder t)"
    and "insert x (set (inorder t)) \<subseteq> A" and "x \<noteq> NULL"
    and "side \<in> {ST_SIDE_LEFT, ST_SIDE_EQ, ST_SIDE_RIGHT, ST_SIDE_LEFT_EQ, ST_SIDE_RIGHT_EQ}"
  shows "\<exists>y. st_rbtree_search cmp tree m x side = Some y \<and>
    (if st_side_has_eq side \<and> (\<exists>z \<in> set (inorder t). cmp z x = 0)
     then y \<in> set (inorder t) \<and> cmp y x = 0
     else if st_side_strip_eq side = ST_SIDE_LEFT
     then y = (let zs = filter (\<lambda>z. cmp z x < 0) (inorder t) in if zs = [] then NULL else last zs)
     else if st_side_strip_eq side = ST_SIDE_RIGHT
     then y = (let zs = filter (\<lambda>z. cmp z x > 0) (inorder t) in if zs = [] then NULL else hd zs)
     else y = NULL)"
proof -
  have o: "search_order A cmp" using assms(1) by (simp add: search_order_def)
  obtain P where "tree_at (rt_sentinel tree) P m (plug [] t)"
    and root: "rt_root tree = root_of (rt_sentinel tree) t"
    using assms(2) by (auto simp: rb_tree_def)
  from search_order.search_loop_correct[OF o this(1) assms(3), of x side NULL NULL] assms(4-6) root
  obtain y where y: "st_rbtree_search cmp tree m x side = Some y"
    "search_spec cmp x side NULL NULL (inorder t) y"
    by (auto simp: st_rbtree_search_def)
  then show ?thesis unfolding search_spec_def nearest_left_def nearest_right_def by blast
qed

text \<open>
  C24: A search in a sorted red-black tree returns, for each of the five sides: the equal node, when
  the side admits one and there is one; otherwise the last smaller node (left sides), the first
  greater node (right sides) or \<^verbatim>\<open>NULL\<close> when there is none.
\<close>

theorem rbtree_search_correct:
  assumes "three_way A cmp" and "rb_tree tree m t" and "sorted_by cmp (inorder t)"
    and "insert x (set (inorder t)) \<subseteq> A" and "x \<noteq> NULL"
    and "side \<in> {ST_SIDE_LEFT, ST_SIDE_EQ, ST_SIDE_RIGHT, ST_SIDE_LEFT_EQ, ST_SIDE_RIGHT_EQ}"
  shows "\<exists>y. st_rbtree_search cmp tree m x side = Some y \<and>
    (if st_side_has_eq side \<and> (\<exists>z \<in> set (inorder t). cmp z x = 0)
     then y \<in> set (inorder t) \<and> cmp y x = 0
     else if st_side_strip_eq side = ST_SIDE_LEFT
     then y = (let zs = filter (\<lambda>z. cmp z x < 0) (inorder t) in if zs = [] then NULL else last zs)
     else if st_side_strip_eq side = ST_SIDE_RIGHT
     then y = (let zs = filter (\<lambda>z. cmp z x > 0) (inorder t) in if zs = [] then NULL else hd zs)
     else y = NULL)"
  using rbtree_search_ok[OF assms] .

theorem rbtree_search_correct_witness:
  "st_rbtree_search st_cmp three_tree three_mem 2 ST_SIDE_LEFT = Some 1"
proof -
  have "three_way UNIV (st_cmp :: addr \<Rightarrow> addr \<Rightarrow> int)"
    by (rule st_cmp_three_way[where f = id, simplified])
  from rbtree_search_correct[OF this three_tree_ok, of 2 ST_SIDE_LEFT]
  show ?thesis by (auto simp: st_cmp_def Let_def)
qed

section \<open>Enumeration\<close>

lemma get_right_most_ok:
  "rep m s p t \<Longrightarrow> t \<noteq> E \<Longrightarrow> s \<notin> set (inorder t) \<Longrightarrow> NULL \<notin> set (inorder t) \<Longrightarrow>
    get_right_most s m (root_of s t) = Some (last (inorder t))"
proof (induction t arbitrary: p)
  case (N l a c r)
  show ?case
  proof (cases "r = E")
    case True
    with N.prems show ?thesis by (subst get_right_most.simps) (auto simp: get_right_def)
  next
    case False
    then have "inorder r \<noteq> []" "root_of s r \<noteq> s" using N.prems by (cases r; auto)+
    moreover have "get_right_most s m (root_of s r) = Some (last (inorder r))"
      using N.IH(2)[of a] N.prems False by auto
    ultimately show ?thesis using N.prems
      by (subst get_right_most.simps) (auto simp: get_right_def)
  qed
qed simp

lemma ends_correct:
  assumes "rb_tree tree m t"
  shows "st_rbtree_left_most tree m = Some (if t = E then NULL else hd (inorder t))"
    and "st_rbtree_right_most tree m = Some (if t = E then NULL else last (inorder t))"
proof -
  let ?s = "rt_sentinel tree"
  obtain P where t: "tree_at ?s P m t" "rt_root tree = root_of ?s t"
    using assms by (auto simp: rb_tree_def)
  have "root_of ?s t = ?s \<longleftrightarrow> t = E" using tree_at_red(3)[of ?s P m "[]" t] t by simp
  with t show "st_rbtree_left_most tree m = Some (if t = E then NULL else hd (inorder t))"
    "st_rbtree_right_most tree m = Some (if t = E then NULL else last (inorder t))"
    by (auto simp: st_rbtree_left_most_def st_rbtree_right_most_def tree_at_def
        get_left_most_ok get_right_most_ok)
qed

definition hd_or_null :: "addr list \<Rightarrow> addr" where
  "hd_or_null xs = (case xs of [] \<Rightarrow> NULL | x # _ \<Rightarrow> x)"

lemma hd_or_null_nth:
  "zs = xs @ a # ys \<Longrightarrow>
    hd_or_null ys = (if Suc (length xs) < length zs then zs ! Suc (length xs) else NULL)"
  by (cases ys) (auto simp: hd_or_null_def nth_append)

lemma next_climb_ok:
  "tree_at s P m (plug k (N l a c r)) \<Longrightarrow>
    next_climb (rootc k a) m a = Some (hd_or_null (fright k))"
proof (induction k arbitrary: l a c r)
  case Nil
  then show ?case by (subst next_climb.simps) (simp add: hd_or_null_def)
next
  case (Cons f k)
  note t = Cons.prems
  have root: "a \<noteq> rootc (f # k) a"
    using tree_at_root_iff[OF t] by (simp add: root_of_plug)
  note fa = tree_at_focus[OF t]
  show ?case
  proof (cases f)
    case (FL p d u)
    then have "m p = \<lparr>rb_left = a, rb_parent = par P k, rb_right = root_of s u, rb_red = d\<rparr>" "p \<noteq> NULL"
      using tree_at_link[of s P m p d u k "N l a c r"] t by simp_all
    with FL fa root show ?thesis
      by (subst next_climb.simps) (simp add: rb_reads hd_or_null_def)
  next
    case (FR u p d)
    then have "rb_left (m p) \<noteq> a" "p \<noteq> NULL"
      using tree_at_link_right[of s P m u p d k "N l a c r"] t by simp_all
    moreover have "next_climb (rootc k p) m p = Some (hd_or_null (fright k))"
      by (rule Cons.IH[of u p d "N l a c r"]) (use t FR in simp)
    ultimately show ?thesis using FR fa root
      by (subst next_climb.simps) (simp add: rb_reads)
  qed
qed

lemma get_next_ok:
  assumes t: "tree_at (rt_sentinel tree) P m (plug k (N l a c r))"
    and root: "rt_root tree = rootc k a"
  shows "st_rbtree_get_next tree m a = Some (hd_or_null (inorder r @ fright k))"
proof -
  let ?s = "rt_sentinel tree"
  note f = tree_at_focus[OF t]
  have s: "?s \<noteq> NULL" using t by (simp add: tree_at_def)
  have r: "rep m ?s a r" "?s \<notin> set (inorder r)" "NULL \<notin> set (inorder r)"
    using t by (auto simp: tree_at_def rep_plug inorder_plug)
  have n: "root_of ?s r \<noteq> NULL" "root_of ?s r = ?s \<longleftrightarrow> r = E" using r s by (cases r; auto)+
  show ?thesis
  proof (cases "r = E")
    case True
    with f n s next_climb_ok[OF t] root show ?thesis
      by (simp add: st_rbtree_get_next_def st_rbtree_node_is_inited_def rb_reads)
  next
    case False
    then have "inorder r \<noteq> []" by (cases r) auto
    then have "hd_or_null (inorder r @ fright k) = hd (inorder r)"
      by (cases "inorder r") (simp_all add: hd_or_null_def)
    with False f n s get_left_most_ok[OF r(1) False r(2,3)] show ?thesis
      by (simp add: st_rbtree_get_next_def st_rbtree_node_is_inited_def rb_reads)
  qed
qed

lemma enumerate_ok:
  assumes "rb_tree tree m t"
  shows "st_rbtree_left_most tree m = Some (if inorder t = [] then NULL else inorder t ! 0) \<and>
    (\<forall>i < length (inorder t). st_rbtree_get_next tree m (inorder t ! i) =
      Some (if Suc i < length (inorder t) then inorder t ! Suc i else NULL))"
proof (intro conjI allI impI)
  have "inorder t = [] \<longleftrightarrow> t = E" by (cases t) auto
  with ends_correct(1)[OF assms]
  show "st_rbtree_left_most tree m = Some (if inorder t = [] then NULL else inorder t ! 0)"
    by (auto simp: hd_conv_nth)
next
  let ?s = "rt_sentinel tree"
  obtain P where P: "tree_at ?s P m t" "rt_root tree = root_of ?s t"
    using assms by (auto simp: rb_tree_def)
  fix i
  assume i: "i < length (inorder t)"
  then obtain k l c r where t: "t = plug k (N l (inorder t ! i) c r)"
    using focus_exists[of "inorder t ! i" t] by auto
  let ?a = "inorder t ! i"
  let ?xs = "fleft k @ inorder l" and ?ys = "inorder r @ fright k"
  have io: "inorder t = ?xs @ ?a # ?ys" using arg_cong[OF t, of inorder] by (simp add: inorder_plug)
  have "distinct (inorder t)" using P(1) by (simp add: tree_at_def)
  moreover have "(?xs @ ?a # ?ys) ! length ?xs = ?a" by simp
  ultimately have "i = length ?xs"
    using i io nth_eq_iff_index_eq[of "inorder t" i "length ?xs"]
    by (metis add_Suc_right length_Cons length_append less_add_Suc1)
  then have "hd_or_null ?ys = (if Suc i < length (inorder t) then inorder t ! Suc i else NULL)"
    using hd_or_null_nth[OF io] by simp
  moreover have "st_rbtree_get_next tree m ?a = Some (hd_or_null ?ys)"
    using get_next_ok[of tree P m k l ?a c r] P t by (metis root_of.simps(2) root_of_plug)
  ultimately show "st_rbtree_get_next tree m ?a =
      Some (if Suc i < length (inorder t) then inorder t ! Suc i else NULL)" by simp
qed

text \<open>
  \<^verbatim>\<open>st_rbtree_left_most\<close> followed by repeated \<^verbatim>\<open>st_rbtree_get_next\<close> visits every node of the tree
  once, in order, and then yields \<^verbatim>\<open>NULL\<close>.
\<close>

theorem rbtree_enumerate:
  assumes "rb_tree tree m t"
  shows "st_rbtree_left_most tree m = Some (if inorder t = [] then NULL else inorder t ! 0) \<and>
    (\<forall>i < length (inorder t). st_rbtree_get_next tree m (inorder t ! i) =
      Some (if Suc i < length (inorder t) then inorder t ! Suc i else NULL))"
  using enumerate_ok[OF assms] .

theorem rbtree_enumerate_witness:
  "st_rbtree_left_most three_tree three_mem = Some 1 \<and>
   st_rbtree_get_next three_tree three_mem 1 = Some 2 \<and>
   st_rbtree_get_next three_tree three_mem 3 = Some NULL"
proof -
  from rbtree_enumerate[OF three_tree_ok]
  have "st_rbtree_left_most three_tree three_mem = Some 1"
    and n: "\<forall>i < 3. st_rbtree_get_next three_tree three_mem ([1, 2, 3] ! i) =
      Some (if Suc i < 3 then [1, 2, 3] ! Suc i else NULL)" by simp_all
  with n[rule_format, of 0] n[rule_format, of 2] show ?thesis by simp
qed

section \<open>Replacement\<close>

lemma subst_rb_inv: "rb_inv (plug k (N l b c r)) = rb_inv (plug k (N l a c r))"
  by (simp add: rb_inv_def invc_plug invh_plug isred_plug)

lemma inorder_subst:
  assumes "distinct (fleft k @ (inorder l @ a # inorder r) @ fright k)"
  shows "inorder (plug k (N l b c r)) = map (\<lambda>z. if z = a then b else z) (inorder (plug k (N l a c r)))"
proof -
  have "map (\<lambda>z. if z = a then b else z) xs = xs" if "a \<notin> set xs" for xs
    using that by (auto intro: map_idI)
  then show ?thesis using assms by (simp add: inorder_plug)
qed

lemma replace_eq:
  assumes t: "tree_at s P m (plug k (N l a c r))"
    and b: "b \<notin> set (inorder (plug k (N l a c r)))" "b \<noteq> NULL" "b \<noteq> s" "cleared (m b)"
    and cmp: "cmp a b = 0"
  shows "st_rbtree_replace cmp \<lparr>rt_root = rootc k a, rt_sentinel = s\<rparr> m a b =
    Some (ST_OK, \<lparr>rt_root = rootc k b, rt_sentinel = s\<rparr>,
      (subst_mem s m k a b l r)(a := st_rbtree_node_empty))"
proof -
  note f = tree_at_focus[OF t]
  have d: "distinct (fleft k @ (inorder l @ a # inorder r) @ fright k)"
    "s \<notin> set (fleft k @ (inorder l @ a # inorder r) @ fright k)"
    "NULL \<notin> set (fleft k @ (inorder l @ a # inorder r) @ fright k)"
    "b \<notin> set (fleft k @ (inorder l @ a # inorder r) @ fright k)" "repc m s P k a" "s \<noteq> NULL"
    using t b(1) by (auto simp: tree_at_def inorder_plug rep_plug)
  have nl: "root_of s l \<noteq> NULL" "root_of s l = s \<longleftrightarrow> l = E" "root_of s l \<noteq> a" "a \<noteq> root_of s l"
    using d by (cases l; simp; blast)+
  have nr: "root_of s r \<noteq> NULL" "root_of s r = s \<longleftrightarrow> r = E" using d by (cases r; simp; blast)+
  have ab: "a \<noteq> b" "b \<noteq> a" using d by auto
  have root: "rootc k a \<noteq> s" "rootc k a = a \<longleftrightarrow> k = []"
    using rootc_in[of k a] d by (cases "k = []"; auto)+
  let ?n = "\<lparr>rb_left = root_of s l, rb_parent = par P k, rb_right = root_of s r, rb_red = c\<rparr>"
  let ?m0 = "m(b := ?n)"
  have "st_rbtree_replace cmp \<lparr>rt_root = rootc k a, rt_sentinel = s\<rparr> m a b =
      (if k = [] then Some (b, ?m0)
       else do { m \<leftarrow> set_child_link ?m0 a b; Some (rootc k a, m) }) \<bind>
      (\<lambda>(root, m). do {
         l \<leftarrow> get_left m a;
         m \<leftarrow> (if l \<noteq> s then set_parent m l b else Some m);
         r \<leftarrow> get_right m a;
         m \<leftarrow> (if r \<noteq> s then set_parent m r b else Some m);
         m \<leftarrow> upd m a (\<lambda>_. st_rbtree_node_empty);
         Some (ST_OK, \<lparr>rt_root = root, rt_sentinel = s\<rparr>, m)
       })"
    unfolding st_rbtree_replace_def using f b cmp root ab
    by (simp add: st_rbtree_node_is_inited_def cleared_def)
  also have "(if k = [] then Some (b, ?m0)
       else do { m \<leftarrow> set_child_link ?m0 a b; Some (rootc k a, m) }) = Some (rootc k b, relink ?m0 k b)"
  proof (cases "k = []")
    case False
    have "set_child_link ?m0 a b = Some (relink ?m0 k b)"
    proof (rule set_child_link_relink[OF _ False])
      show "repc ?m0 s P k a" using d by auto
      show "rb_parent (?m0 a) = par P k" using f ab by simp
      show "root_of s l' \<noteq> a" if "k = FR l' p c' # j" for l' p c' j
        using that d by (cases l') auto
    qed (use d f in auto)
    with False show ?thesis by (simp add: rootc_nonempty[OF False, of a b])
  qed simp
  finally show ?thesis
    using nl nr d f(1,2) ab by (simp add: rb_ops relink_other reparent_other reparent_def subst_mem_def)
qed

lemma rbtree_replace_ok:
  assumes "rb_tree tree m t" and "a \<in> set (inorder t)" and "b \<notin> set (inorder t)"
    and "b \<noteq> NULL" and "b \<noteq> rt_sentinel tree"
  shows "if rb_left (m b) \<noteq> NULL \<or> rb_right (m b) \<noteq> NULL \<or> rb_parent (m b) \<noteq> NULL
    then st_rbtree_replace cmp tree m a b = Some (ST_ARG_INVALID, tree, m)
    else if cmp a b \<noteq> 0 then st_rbtree_replace cmp tree m a b = Some (ST_NOT_EQUAL, tree, m)
    else \<exists>tree' m' t'. st_rbtree_replace cmp tree m a b = Some (ST_OK, tree', m') \<and>
      rt_sentinel tree' = rt_sentinel tree \<and> rb_tree tree' m' t' \<and>
      inorder t' = map (\<lambda>z. if z = a then b else z) (inorder t) \<and>
      m' a = st_rbtree_node_empty \<and>
      (\<forall>z. z \<noteq> b \<and> z \<notin> set (inorder t) \<longrightarrow> m' z = m z)"
proof -
  let ?s = "rt_sentinel tree"
  obtain P where P: "tree_at ?s P m t" "rt_root tree = root_of ?s t" "rb_inv t"
    using assms(1) by (auto simp: rb_tree_def)
  obtain k l c r where t: "t = plug k (N l a c r)" using focus_exists[OF assms(2)] by blast
  have tree: "tree = \<lparr>rt_root = rootc k a, rt_sentinel = ?s\<rparr>"
    using P(2) t by (simp add: root_of_plug)
  have a: "a \<noteq> NULL" "a \<noteq> ?s" using tree_at_nonnull[OF P(1) assms(2)] by auto
  have root: "rt_root tree \<noteq> ?s"
    using tree_at_red(3)[of ?s P m "[]" t] P assms(2) by auto
  show ?thesis
  proof (cases "cleared (m b) \<and> cmp a b = 0")
    case False
    with a root assms show ?thesis
      by (auto simp: st_rbtree_replace_def st_rbtree_node_is_inited_def cleared_def)
  next
    case True
    let ?m = "subst_mem ?s m k a b l r"
    let ?tree = "\<lparr>rt_root = rootc k b, rt_sentinel = ?s\<rparr>"
    have tk: "tree_at ?s P m (plug k (N l a c r))" using P(1) t by simp
    have e: "st_rbtree_replace cmp tree m a b = Some (ST_OK, ?tree, ?m(a := st_rbtree_node_empty))"
      using replace_eq[OF tk] True assms t tree by metis
    have d: "distinct (fleft k @ (inorder l @ a # inorder r) @ fright k)" "?s \<notin> set (inorder t)"
      "b \<notin> set (fleft k @ (inorder l @ a # inorder r) @ fright k)" "\<not> rb_red (m ?s)"
      "NULL \<notin> set (inorder t)" "?s \<noteq> NULL"
      "rep m ?s a l" "rep m ?s a r" "repc m ?s P k a"
      using tk t assms(3) by (auto simp: tree_at_def inorder_plug rep_plug)
    have "?m ?s = m ?s" using d assms(5) t by (intro subst_mem_other) (auto simp: inorder_plug)
    moreover have "rep ?m ?s P (plug k (N l b c r))"
      using d tree_at_focus(1)[OF tk] by (intro subst_mem_rep) auto
    ultimately have "tree_at ?s P ?m (plug k (N l b c r))"
      using d assms(4,5) t by (auto simp: tree_at_def inorder_plug)
    then have "tree_at ?s P (?m(a := st_rbtree_node_empty)) (plug k (N l b c r))"
      using d a by (intro tree_at_outside) (auto simp: inorder_plug)
    then have "rb_tree ?tree (?m(a := st_rbtree_node_empty)) (plug k (N l b c r))"
      using P(3) t subst_rb_inv[of k l b c r a] by (auto simp: rb_tree_def root_of_plug)
    moreover have "inorder (plug k (N l b c r)) = map (\<lambda>z. if z = a then b else z) (inorder t)"
      unfolding t by (rule inorder_subst[OF d(1)])
    moreover have "\<forall>z. z \<noteq> b \<and> z \<notin> set (inorder t) \<longrightarrow> (?m(a := st_rbtree_node_empty)) z = m z"
    proof (intro allI impI)
      fix z assume "z \<noteq> b \<and> z \<notin> set (inorder t)"
      then show "(?m(a := st_rbtree_node_empty)) z = m z"
        using t subst_mem_other[of z b k l r ?s m a] by (simp add: inorder_plug)
    qed
    ultimately have "\<exists>tree' m' t'. st_rbtree_replace cmp tree m a b = Some (ST_OK, tree', m') \<and>
      rt_sentinel tree' = ?s \<and> rb_tree tree' m' t' \<and>
      inorder t' = map (\<lambda>z. if z = a then b else z) (inorder t) \<and> m' a = st_rbtree_node_empty \<and>
      (\<forall>z. z \<noteq> b \<and> z \<notin> set (inorder t) \<longrightarrow> m' z = m z)"
      using e by (intro exI[of _ ?tree] exI[of _ "?m(a := st_rbtree_node_empty)"]
          exI[of _ "plug k (N l b c r)"]) simp
    with True show ?thesis unfolding cleared_def by presburger
  qed
qed

text \<open>
  Replacing a node of the tree by an equal, uninitialised node returns \<^verbatim>\<open>ST_OK\<close>; the tree is
  again a red-black tree, the replacement stands exactly where the original stood, and the
  original is cleared, and memory outside the tree and the replacement keeps its contents.  A replacement that is already linked is refused with \<^verbatim>\<open>ST_ARG_INVALID\<close>, one
  that does not compare equal with \<^verbatim>\<open>ST_NOT_EQUAL\<close>, and then nothing changes.
\<close>

theorem rbtree_replace_correct:
  assumes "rb_tree tree m t" and "a \<in> set (inorder t)" and "b \<notin> set (inorder t)"
    and "b \<noteq> NULL" and "b \<noteq> rt_sentinel tree"
  shows "if rb_left (m b) \<noteq> NULL \<or> rb_right (m b) \<noteq> NULL \<or> rb_parent (m b) \<noteq> NULL
    then st_rbtree_replace cmp tree m a b = Some (ST_ARG_INVALID, tree, m)
    else if cmp a b \<noteq> 0 then st_rbtree_replace cmp tree m a b = Some (ST_NOT_EQUAL, tree, m)
    else \<exists>tree' m' t'. st_rbtree_replace cmp tree m a b = Some (ST_OK, tree', m') \<and>
      rt_sentinel tree' = rt_sentinel tree \<and> rb_tree tree' m' t' \<and>
      inorder t' = map (\<lambda>z. if z = a then b else z) (inorder t) \<and>
      m' a = st_rbtree_node_empty \<and>
      (\<forall>z. z \<noteq> b \<and> z \<notin> set (inorder t) \<longrightarrow> m' z = m z)"
  using rbtree_replace_ok[OF assms] .

theorem rbtree_replace_correct_witness:
  "\<exists>tree' m' t'. st_rbtree_replace (\<lambda>a b. st_cmp (a mod 10) (b mod 10)) three_tree three_mem 2 12 =
     Some (ST_OK, tree', m') \<and> rb_tree tree' m' t' \<and> inorder t' = [1, 12, 3]"
  using rbtree_replace_correct[OF three_tree_ok, of 2 12 "\<lambda>a b. st_cmp (a mod 10) (b mod 10)"]
  by (auto simp: three_tree_def three_mem_def st_rbtree_node_empty_def)

text \<open>An initialised tree is the empty red-black tree.\<close>

lemma rbtree_init_empty:
  "rt_sentinel tree \<noteq> NULL \<Longrightarrow>
    \<exists>tree' m'. st_rbtree_init True True tree m = Some (ST_OK, tree', m') \<and> rb_tree tree' m' E"
  by (auto simp: st_rbtree_init_def rb_tree_def tree_at_def rb_inv_def rb_ops
      st_rbtree_node_empty_def)

end
