(* ===== verification/St_Array.thy ===== *)
theory St_Array
  imports St_Order "HOL-Library.Multiset"
begin

text \<open>
  \<^verbatim>\<open>src/array/array.h\<close> and \<^verbatim>\<open>src/array/array.c\<close>: arrays over a caller's buffer (static) or over a
  buffer that grows through a caller's \<^verbatim>\<open>realloc\<close> (dynamic).

  The buffer is the list of its element slots.  The counts are \<^verbatim>\<open>ssize_t\<close> and are integers here:
  they count slots of one object in memory, so their sums do not reach 2^63.  \<^verbatim>\<open>memmove\<close> and
  \<^verbatim>\<open>memcpy\<close> outside the buffer, or with a negative length, are \<open>None\<close>, as are failed assertions.
  The elements given to an insertion do not overlap the buffer.
\<close>

section \<open>Data\<close>

record 'a st_array =
  ar_start_addr :: addr
  ar_cells :: "'a list"
  ar_element_size :: int
  ar_current_cnt :: int
  ar_total_cnt :: int
  ar_dynamic :: bool
  ar_compare :: "('a \<Rightarrow> 'a \<Rightarrow> int) option"
  ar_inited :: bool

definition ST_ARRAY_MIN_SIZE :: int where "ST_ARRAY_MIN_SIZE = 64"

text \<open>
  The caller's \<^verbatim>\<open>realloc\<close>: given the old block, its slots, the element size and the number of
  bytes, it returns \<^verbatim>\<open>NULL\<close> (\<open>None\<close>) or a block that starts with the old contents.
\<close>

type_synonym 'a realloc_fun = "addr \<Rightarrow> 'a list \<Rightarrow> int \<Rightarrow> int \<Rightarrow> (addr \<times> 'a list) option"

definition realloc_ok :: "'a realloc_fun \<Rightarrow> bool" where
  "realloc_ok ra \<longleftrightarrow> (\<forall>p xs es cap q ys. 0 < es \<longrightarrow> int (length xs) * es \<le> cap \<longrightarrow>
     ra p xs es cap = Some (q, ys) \<longrightarrow>
     q \<noteq> NULL \<and> length ys = nat (cap div es) \<and> take (length xs) ys = xs)"

definition memmove_cells :: "'a list \<Rightarrow> int \<Rightarrow> int \<Rightarrow> int \<Rightarrow> 'a list option" where
  "memmove_cells xs dst src n =
    (if 0 \<le> dst \<and> 0 \<le> src \<and> 0 \<le> n \<and> dst + n \<le> int (length xs) \<and> src + n \<le> int (length xs)
     then Some (take (nat dst) xs @ take (nat n) (drop (nat src) xs) @ drop (nat (dst + n)) xs)
     else None)"

definition memcpy_cells :: "'a list \<Rightarrow> int \<Rightarrow> 'a list \<Rightarrow> int \<Rightarrow> 'a list option" where
  "memcpy_cells xs dst es n =
    (if 0 \<le> dst \<and> 0 \<le> n \<and> dst + n \<le> int (length xs) \<and> n \<le> int (length es)
     then Some (take (nat dst) xs @ take (nat n) es @ drop (nat (dst + n)) xs)
     else None)"

section \<open>Operations\<close>

definition st_array_is_empty :: "'a st_array \<Rightarrow> bool" where
  "st_array_is_empty a \<longleftrightarrow> ar_current_cnt a = 0"

definition st_array_is_full :: "'a st_array \<Rightarrow> bool" where
  "st_array_is_full a \<longleftrightarrow> ar_current_cnt a = ar_total_cnt a"

definition st_array_get :: "'a st_array \<Rightarrow> int \<Rightarrow> int" where
  "st_array_get a idx = int (ar_start_addr a) + ar_element_size a * idx"

definition st_array_get_index :: "'a st_array \<Rightarrow> int \<Rightarrow> int" where
  "st_array_get_index a p = (p - int (ar_start_addr a)) div ar_element_size a"

definition st_array_current_cnt :: "'a st_array \<Rightarrow> int" where
  "st_array_current_cnt a = ar_current_cnt a"

text \<open>The element that \<^verbatim>\<open>st_array_get\<close> points to.\<close>

definition cell_at :: "'a st_array \<Rightarrow> int \<Rightarrow> 'a option" where
  "cell_at a i =
    (if 0 \<le> i \<and> i < int (length (ar_cells a)) then Some (ar_cells a ! nat i) else None)"

definition st_array_init_static ::
    "'a st_array \<Rightarrow> int \<Rightarrow> addr \<Rightarrow> 'a list \<Rightarrow> int \<Rightarrow> ('a \<Rightarrow> 'a \<Rightarrow> int) option \<Rightarrow> 'a st_array option" where
  "st_array_init_static a element_size start_addr cells total_cnt compare = do {
     st_assert (start_addr \<noteq> NULL);
     st_assert (total_cnt > 0);
     Some (a\<lparr>ar_dynamic := False, ar_start_addr := start_addr, ar_cells := cells,
       ar_element_size := element_size, ar_current_cnt := 0, ar_total_cnt := total_cnt,
       ar_compare := compare, ar_inited := True\<rparr>)
   }"

definition st_array_extend_when_needed ::
    "'a realloc_fun \<Rightarrow> 'a st_array \<Rightarrow> int \<Rightarrow> st_error \<times> 'a st_array" where
  "st_array_extend_when_needed ra a incr_cnt =
    (if ar_current_cnt a + incr_cnt \<le> ar_total_cnt a then (ST_OK, a)
     else
       let incr_cnt = max incr_cnt ST_ARRAY_MIN_SIZE;
           capacity = ar_element_size a * (ar_total_cnt a + incr_cnt)
       in case ra (ar_start_addr a) (ar_cells a) (ar_element_size a) capacity of
            None \<Rightarrow> (ST_OUT_OF_MEMORY, a)
          | Some (p, cells) \<Rightarrow>
              (ST_OK, a\<lparr>ar_start_addr := p, ar_cells := cells,
                 ar_total_cnt := ar_total_cnt a + incr_cnt\<rparr>))"

definition st_array_init_dynamic ::
    "'a realloc_fun \<Rightarrow> bool \<Rightarrow> 'a st_array \<Rightarrow> int \<Rightarrow> ('a \<Rightarrow> 'a \<Rightarrow> int) option
      \<Rightarrow> st_error \<times> 'a st_array" where
  "st_array_init_dynamic ra callback_ok a element_size compare =
    (if \<not> callback_ok then (ST_ARG_INVALID, a)
     else
       let a = a\<lparr>ar_dynamic := True, ar_start_addr := NULL, ar_cells := [],
                 ar_element_size := element_size, ar_current_cnt := 0, ar_total_cnt := 0,
                 ar_compare := compare\<rparr>;
           (ret, a) = st_array_extend_when_needed ra a ST_ARRAY_MIN_SIZE
       in if ret \<noteq> ST_OK then (ret, a) else (ST_OK, a\<lparr>ar_inited := True\<rparr>))"

text \<open>\<^verbatim>\<open>st_array_destroy\<close>: the block to be freed, if any, and the zeroed structure.\<close>

definition st_array_destroy :: "'a st_array \<Rightarrow> addr option \<times> 'a st_array" where
  "st_array_destroy a =
    (if \<not> ar_inited a then (None, a)
     else (if ar_dynamic a \<and> ar_start_addr a \<noteq> NULL then Some (ar_start_addr a) else None,
           \<lparr>ar_start_addr = NULL, ar_cells = [], ar_element_size = 0, ar_current_cnt = 0,
             ar_total_cnt = 0, ar_dynamic = False, ar_compare = None, ar_inited = False\<rparr>))"

definition st_array_insert_many ::
    "'a realloc_fun \<Rightarrow> 'a st_array \<Rightarrow> int \<Rightarrow> 'a list option \<Rightarrow> int
      \<Rightarrow> (st_error \<times> 'a st_array) option" where
  "st_array_insert_many ra a idx elements cnt =
    (if \<not> ar_inited a then Some (ST_UNINITED, a)
     else case elements of
       None \<Rightarrow> Some (ST_ARG_INVALID, a)
     | Some es \<Rightarrow>
         if \<not> (0 \<le> idx \<and> idx \<le> ar_current_cnt a) then Some (ST_INDEX_OUT_OF_RANGE, a)
         else
           let (ret, a) =
             (if ar_dynamic a then st_array_extend_when_needed ra a cnt else (ST_OK, a))
           in if ret \<noteq> ST_OK then Some (ret, a)
              else if ar_current_cnt a + cnt > ar_total_cnt a then Some (ST_OUT_OF_MEMORY, a)
              else do {
                cells \<leftarrow> (if idx < ar_current_cnt a
                  then memmove_cells (ar_cells a) (idx + cnt) idx (ar_current_cnt a - idx)
                  else Some (ar_cells a));
                cells \<leftarrow> memcpy_cells cells idx es cnt;
                Some (ST_OK, a\<lparr>ar_cells := cells, ar_current_cnt := ar_current_cnt a + cnt\<rparr>)
              })"

definition st_array_append_many ::
    "'a realloc_fun \<Rightarrow> 'a st_array \<Rightarrow> 'a list option \<Rightarrow> int \<Rightarrow> (st_error \<times> 'a st_array) option" where
  "st_array_append_many ra a elements cnt =
    st_array_insert_many ra a (ar_current_cnt a) elements cnt"

definition st_array_remove_many :: "'a st_array \<Rightarrow> int \<Rightarrow> int \<Rightarrow> 'a st_array option" where
  "st_array_remove_many a idx cnt = do {
     st_assert (ar_inited a);
     st_assert (0 \<le> idx);
     st_assert (idx < ar_current_cnt a);
     let cnt = (if idx + cnt > ar_current_cnt a then ar_current_cnt a - idx else cnt);
     cells \<leftarrow> (if idx + cnt \<noteq> ar_current_cnt a
       then memmove_cells (ar_cells a) idx (idx + cnt) (ar_current_cnt a - (idx + cnt))
       else Some (ar_cells a));
     Some (a\<lparr>ar_cells := cells, ar_current_cnt := ar_current_cnt a - cnt\<rparr>)
   }"

definition pick_cmp :: "('a \<Rightarrow> 'a \<Rightarrow> int) option \<Rightarrow> 'a st_array \<Rightarrow> ('a \<Rightarrow> 'a \<Rightarrow> int) option" where
  "pick_cmp compare a = (case compare of None \<Rightarrow> ar_compare a | Some c \<Rightarrow> Some c)"

text \<open>\<^verbatim>\<open>st_array_sort\<close>, with the C library's \<^verbatim>\<open>qsort\<close> on the occupied part.\<close>

definition qsort_ok :: "(('a \<Rightarrow> 'a \<Rightarrow> int) \<Rightarrow> 'a list \<Rightarrow> 'a list) \<Rightarrow> bool" where
  "qsort_ok qs \<longleftrightarrow> (\<forall>cmp xs. mset (qs cmp xs) = mset xs \<and>
     (comparator (set xs) cmp \<longrightarrow> sorted_by cmp (qs cmp xs)))"

definition st_array_sort ::
    "(('a \<Rightarrow> 'a \<Rightarrow> int) \<Rightarrow> 'a list \<Rightarrow> 'a list) \<Rightarrow> 'a st_array \<Rightarrow> ('a \<Rightarrow> 'a \<Rightarrow> int) option
      \<Rightarrow> 'a st_array option" where
  "st_array_sort qs a compare = do {
     st_assert (ar_inited a);
     cmp \<leftarrow> pick_cmp compare a;
     Some (a\<lparr>ar_cells := qs cmp (take (nat (ar_current_cnt a)) (ar_cells a)) @
       drop (nat (ar_current_cnt a)) (ar_cells a)\<rparr>)
   }"

function indexof_loop :: "('a \<Rightarrow> 'a \<Rightarrow> int) \<Rightarrow> 'a st_array \<Rightarrow> 'a \<Rightarrow> int \<Rightarrow> (st_error \<times> int) option" where
  "indexof_loop cmp a x i =
    (if i < ar_current_cnt a then
       (case cell_at a i of
          None \<Rightarrow> None
        | Some y \<Rightarrow> if cmp x y = 0 then Some (ST_OK, i) else indexof_loop cmp a x (i + 1))
     else Some (ST_NOT_FOUND, 0))"
  by pat_completeness auto
termination
  by (relation "measure (\<lambda>(cmp, a, x, i). nat (ar_current_cnt a - i))") auto

text \<open>The searches return the code and \<^verbatim>\<open>*idx\<close>; 0 stands for a value that is not written.\<close>

definition st_array_indexof ::
    "'a st_array \<Rightarrow> 'a option \<Rightarrow> ('a \<Rightarrow> 'a \<Rightarrow> int) option \<Rightarrow> (st_error \<times> int) option" where
  "st_array_indexof a element compare =
    (if \<not> ar_inited a then Some (ST_UNINITED, 0)
     else case element of
       None \<Rightarrow> Some (ST_ARG_INVALID, 0)
     | Some x \<Rightarrow> (case pick_cmp compare a of
         None \<Rightarrow> Some (ST_ARG_INVALID, 0)
       | Some cmp \<Rightarrow> indexof_loop cmp a x 0))"

function bsearch_left_loop ::
    "('a \<Rightarrow> 'a \<Rightarrow> int) \<Rightarrow> 'a st_array \<Rightarrow> 'a \<Rightarrow> st_error \<Rightarrow> int \<Rightarrow> int \<Rightarrow> (st_error \<times> int) option" where
  "bsearch_left_loop cmp a x ret start stop =
    (if start < stop then
       let mid = (start + stop) div 2 in
       case cell_at a mid of
         None \<Rightarrow> None
       | Some y \<Rightarrow>
           if cmp x y > 0 then bsearch_left_loop cmp a x ret (mid + 1) stop
           else bsearch_left_loop cmp a x (if cmp x y = 0 then ST_OK else ret) start mid
     else Some (ret, start))"
  by pat_completeness auto
termination
  by (relation "measure (\<lambda>(cmp, a, x, ret, s, e). nat (e - s))") auto

definition st_array_bsearch_left ::
    "'a st_array \<Rightarrow> 'a option \<Rightarrow> ('a \<Rightarrow> 'a \<Rightarrow> int) option \<Rightarrow> (st_error \<times> int) option" where
  "st_array_bsearch_left a element compare =
    (if \<not> ar_inited a then Some (ST_UNINITED, 0)
     else case element of
       None \<Rightarrow> Some (ST_ARG_INVALID, 0)
     | Some x \<Rightarrow> (case pick_cmp compare a of
         None \<Rightarrow> Some (ST_ARG_INVALID, 0)
       | Some cmp \<Rightarrow> bsearch_left_loop cmp a x ST_NOT_FOUND 0 (ar_current_cnt a)))"

function bsearch_right_loop ::
    "('a \<Rightarrow> 'a \<Rightarrow> int) \<Rightarrow> 'a st_array \<Rightarrow> 'a \<Rightarrow> st_error \<Rightarrow> int \<Rightarrow> int \<Rightarrow> (st_error \<times> int) option" where
  "bsearch_right_loop cmp a x ret start stop =
    (if start < stop then
       let mid = (start + stop) div 2 in
       case cell_at a mid of
         None \<Rightarrow> None
       | Some y \<Rightarrow>
           if cmp x y < 0 then bsearch_right_loop cmp a x ret start mid
           else bsearch_right_loop cmp a x (if cmp x y = 0 then ST_OK else ret) (mid + 1) stop
     else Some (ret, start))"
  by pat_completeness auto
termination
  by (relation "measure (\<lambda>(cmp, a, x, ret, s, e). nat (e - s))") auto

definition st_array_bsearch_right ::
    "'a st_array \<Rightarrow> 'a option \<Rightarrow> ('a \<Rightarrow> 'a \<Rightarrow> int) option \<Rightarrow> (st_error \<times> int) option" where
  "st_array_bsearch_right a element compare =
    (if \<not> ar_inited a then Some (ST_UNINITED, 0)
     else case element of
       None \<Rightarrow> Some (ST_ARG_INVALID, 0)
     | Some x \<Rightarrow> (case pick_cmp compare a of
         None \<Rightarrow> Some (ST_ARG_INVALID, 0)
       | Some cmp \<Rightarrow> bsearch_right_loop cmp a x ST_NOT_FOUND 0 (ar_current_cnt a)))"

declare indexof_loop.simps [simp del] bsearch_left_loop.simps [simp del]
  bsearch_right_loop.simps [simp del]

section \<open>The stored list\<close>

text \<open>A usable array: initialised, the counts in range, as many slots as it says.\<close>

definition arr_ok :: "'a st_array \<Rightarrow> bool" where
  "arr_ok a \<longleftrightarrow> ar_inited a \<and> 0 \<le> ar_current_cnt a \<and> ar_current_cnt a \<le> ar_total_cnt a \<and>
     int (length (ar_cells a)) = ar_total_cnt a \<and> 0 < ar_element_size a"

definition arr_list :: "'a st_array \<Rightarrow> 'a list" where
  "arr_list a = take (nat (ar_current_cnt a)) (ar_cells a)"

lemma length_arr_list: "arr_ok a \<Longrightarrow> length (arr_list a) = nat (ar_current_cnt a)"
  by (auto simp: arr_ok_def arr_list_def)

lemma cell_at_list:
  "arr_ok a \<Longrightarrow> 0 \<le> i \<Longrightarrow> i < ar_current_cnt a \<Longrightarrow> cell_at a i = Some (arr_list a ! nat i)"
  by (auto simp: arr_ok_def arr_list_def cell_at_def)

lemma extend_ok:
  assumes "realloc_ok ra" "0 < ar_element_size a" "int (length (ar_cells a)) = ar_total_cnt a"
    "st_array_extend_when_needed ra a n = (ret, a')"
  shows "(ret = ST_OK \<or> ret = ST_OUT_OF_MEMORY) \<and> (ret = ST_OUT_OF_MEMORY \<longrightarrow> a' = a) \<and>
    (ret = ST_OK \<longrightarrow> ar_current_cnt a' + n \<le> ar_total_cnt a' \<or> ar_current_cnt a > ar_total_cnt a) \<and>
    int (length (ar_cells a')) = ar_total_cnt a' \<and>
    take (length (ar_cells a)) (ar_cells a') = ar_cells a \<and> ar_total_cnt a \<le> ar_total_cnt a' \<and>
    a' = a\<lparr>ar_start_addr := ar_start_addr a', ar_cells := ar_cells a', ar_total_cnt := ar_total_cnt a'\<rparr>"
proof (cases "ar_current_cnt a + n \<le> ar_total_cnt a")
  case True
  with assms show ?thesis by (auto simp: st_array_extend_when_needed_def)
next
  case False
  let ?i = "max n ST_ARRAY_MIN_SIZE"
  let ?cap = "ar_element_size a * (ar_total_cnt a + ?i)"
  have i: "n \<le> ?i" "0 < ?i" by (simp_all add: ST_ARRAY_MIN_SIZE_def max_def)
  have cap: "int (length (ar_cells a)) * ar_element_size a \<le> ?cap" "?cap div ar_element_size a = ar_total_cnt a + ?i"
    using assms(2,3) i by (simp_all add: mult.commute)
  show ?thesis
  proof (cases "ra (ar_start_addr a) (ar_cells a) (ar_element_size a) ?cap")
    case None
    with False assms show ?thesis by (auto simp: st_array_extend_when_needed_def Let_def)
  next
    case (Some r)
    obtain p ys where r: "r = (p, ys)" by (cases r)
    have "length ys = nat (?cap div ar_element_size a) \<and> take (length (ar_cells a)) ys = ar_cells a"
      using assms(1)[unfolded realloc_ok_def, rule_format, OF assms(2) cap(1)] Some r by blast
    with False assms Some r cap i show ?thesis
      by (auto simp: st_array_extend_when_needed_def Let_def)
  qed
qed

section \<open>Insertion and removal\<close>

lemma insert_cells:
  assumes "i \<le> c" "c + n \<le> length xs" "n \<le> length es"
  defines "ys \<equiv> (if i < c then take (i + n) xs @ take (c - i) (drop i xs) @ drop (c + n) xs else xs)"
  shows "take (c + n) (take i ys @ take n es @ drop (i + n) ys) =
      take i (take c xs) @ take n es @ drop i (take c xs)"
    and "length (take i ys @ take n es @ drop (i + n) ys) = length xs"
proof -
  have l: "length ys = length xs" using assms(1,2) by (simp add: ys_def)
  then show "length (take i ys @ take n es @ drop (i + n) ys) = length xs" using assms(1-3) by simp
  have "take i ys = take i xs" using assms(1,2) by (simp add: ys_def)
  moreover have "take (c - i) (drop (i + n) ys) = drop i (take c xs)"
    using assms(1,2) by (simp add: ys_def drop_take)
  moreover have "take (c + n) (take i ys @ take n es @ drop (i + n) ys) =
      take i ys @ take n es @ take (c - i) (drop (i + n) ys)"
    using assms(1-3) l by (simp add: min_absorb2 min_absorb1)
  ultimately show "take (c + n) (take i ys @ take n es @ drop (i + n) ys) =
      take i (take c xs) @ take n es @ drop i (take c xs)"
    using assms(1) by (simp add: min_absorb1)
qed

lemma insert_core:
  assumes a: "arr_ok a" and i: "0 \<le> idx" "idx \<le> ar_current_cnt a" and n: "0 \<le> cnt" "cnt \<le> int (length es)"
    and room: "ar_current_cnt a + cnt \<le> ar_total_cnt a"
  shows "\<exists>cells. ((if idx < ar_current_cnt a
        then memmove_cells (ar_cells a) (idx + cnt) idx (ar_current_cnt a - idx) else Some (ar_cells a)) \<bind>
        (\<lambda>cells. memcpy_cells cells idx es cnt)) = Some cells \<and>
      int (length cells) = ar_total_cnt a \<and>
      take (nat (ar_current_cnt a + cnt)) cells =
        take (nat idx) (arr_list a) @ take (nat cnt) es @ drop (nat idx) (arr_list a)"
proof -
  define c i' n' xs where d: "c = nat (ar_current_cnt a)" "i' = nat idx" "n' = nat cnt" "xs = ar_cells a"
  have le: "i' \<le> c" "c + n' \<le> length xs" "n' \<le> length es"
    using a i n room by (auto simp: d arr_ok_def)
  let ?ys = "if i' < c then take (i' + n') xs @ take (c - i') (drop i' xs) @ drop (c + n') xs else xs"
  have sums: "nat (idx + cnt) = i' + n'" "nat (ar_current_cnt a - idx) = c - i'"
    "nat (idx + cnt + (ar_current_cnt a - idx)) = c + n'" "nat (ar_current_cnt a + cnt) = c + n'"
    using i n by (auto simp: d nat_add_distrib nat_diff_distrib)
  have m: "(if idx < ar_current_cnt a
        then memmove_cells (ar_cells a) (idx + cnt) idx (ar_current_cnt a - idx) else Some (ar_cells a)) = Some ?ys"
    using a i n room sums by (auto simp: memmove_cells_def d arr_ok_def)
  have l: "length ?ys = length xs" using le by simp
  have p: "memcpy_cells ?ys idx es cnt = Some (take i' ?ys @ take n' es @ drop (i' + n') ?ys)"
    using l le i n sums room a by (auto simp: memcpy_cells_def d arr_ok_def)
  have al: "arr_list a = take c xs" "int (length xs) = ar_total_cnt a"
    using a by (simp_all add: arr_list_def d arr_ok_def)
  show ?thesis
  proof (intro exI conjI)
    show "((if idx < ar_current_cnt a
        then memmove_cells (ar_cells a) (idx + cnt) idx (ar_current_cnt a - idx) else Some (ar_cells a)) \<bind>
        (\<lambda>cells. memcpy_cells cells idx es cnt)) = Some (take i' ?ys @ take n' es @ drop (i' + n') ?ys)"
      unfolding m using p by simp
    show "int (length (take i' ?ys @ take n' es @ drop (i' + n') ?ys)) = ar_total_cnt a"
      using insert_cells(2)[OF le] al(2) by presburger
    show "take (nat (ar_current_cnt a + cnt)) (take i' ?ys @ take n' es @ drop (i' + n') ?ys) =
        take (nat idx) (arr_list a) @ take (nat cnt) es @ drop (nat idx) (arr_list a)"
      unfolding sums al(1) d(2)[symmetric] d(3)[symmetric] by (rule insert_cells(1)[OF le])
  qed
qed

lemma insert_many_ok:
  assumes "arr_ok a" and "realloc_ok ra" and "0 \<le> idx" and "idx \<le> ar_current_cnt a"
    and "0 \<le> cnt" and "cnt \<le> int (length es)"
  shows "\<exists>ret a'. st_array_insert_many ra a idx (Some es) cnt = Some (ret, a') \<and> arr_ok a' \<and>
    (ret = ST_OK \<and>
       arr_list a' = take (nat idx) (arr_list a) @ take (nat cnt) es @ drop (nat idx) (arr_list a) \<or>
     ret = ST_OUT_OF_MEMORY \<and> a' = a) \<and>
    (\<not> ar_dynamic a \<longrightarrow> (ret = ST_OK \<longleftrightarrow> ar_current_cnt a + cnt \<le> ar_total_cnt a))"
proof -
  obtain ret b where b: "(if ar_dynamic a then st_array_extend_when_needed ra a cnt else (ST_OK, a)) = (ret, b)"
    by fastforce
  have inv: "ar_inited a" "0 < ar_element_size a" "int (length (ar_cells a)) = ar_total_cnt a"
    "ar_current_cnt a \<le> ar_total_cnt a" "0 \<le> ar_current_cnt a"
    using assms(1) by (auto simp: arr_ok_def)
  have e: "(ret = ST_OK \<or> ret = ST_OUT_OF_MEMORY) \<and> (ret = ST_OUT_OF_MEMORY \<longrightarrow> b = a) \<and>
    int (length (ar_cells b)) = ar_total_cnt b \<and> ar_total_cnt a \<le> ar_total_cnt b \<and>
    take (length (ar_cells a)) (ar_cells b) = ar_cells a \<and>
    b = a\<lparr>ar_start_addr := ar_start_addr b, ar_cells := ar_cells b, ar_total_cnt := ar_total_cnt b\<rparr>"
    using extend_ok[OF assms(2) inv(2,3), of cnt ret b] b inv by (auto split: if_splits)
  have fields: "ar_inited b = ar_inited a" "ar_element_size b = ar_element_size a"
    "ar_current_cnt b = ar_current_cnt a"
    by (subst e[THEN conjunct2, THEN conjunct2, THEN conjunct2, THEN conjunct2, THEN conjunct2]; simp)+
  have bl: "arr_ok b" "arr_list b = arr_list a"
  proof -
    show "arr_ok b" using e fields inv by (auto simp: arr_ok_def)
    have "take (nat (ar_current_cnt a)) (ar_cells b) =
        take (nat (ar_current_cnt a)) (take (length (ar_cells a)) (ar_cells b))"
      using inv by simp
    then show "arr_list b = arr_list a" using e fields by (simp add: arr_list_def)
  qed
  show ?thesis
  proof (cases "ret = ST_OK \<and> ar_current_cnt b + cnt \<le> ar_total_cnt b")
    case False
    then have "st_array_insert_many ra a idx (Some es) cnt = Some (ST_OUT_OF_MEMORY, b)" and "b = a"
    proof -
      show "b = a"
        using False extend_ok[OF assms(2) inv(2,3), of cnt ret b] b inv by (auto split: if_splits)
      with False e b inv assms(3,4) show "st_array_insert_many ra a idx (Some es) cnt = Some (ST_OUT_OF_MEMORY, b)"
        by (auto simp: st_array_insert_many_def)
    qed
    moreover have "ar_current_cnt a + cnt > ar_total_cnt a" if "\<not> ar_dynamic a"
      using that False b by auto
    ultimately show ?thesis using assms(1) by force
  next
    case True
    obtain cells where c: "((if idx < ar_current_cnt b
        then memmove_cells (ar_cells b) (idx + cnt) idx (ar_current_cnt b - idx) else Some (ar_cells b)) \<bind>
        (\<lambda>cells. memcpy_cells cells idx es cnt)) = Some cells"
      "int (length cells) = ar_total_cnt b"
      "take (nat (ar_current_cnt b + cnt)) cells =
        take (nat idx) (arr_list b) @ take (nat cnt) es @ drop (nat idx) (arr_list b)"
      using insert_core[OF bl(1) assms(3) _ assms(5,6)] assms(4) True fields by auto
    let ?a = "b\<lparr>ar_cells := cells, ar_current_cnt := ar_current_cnt b + cnt\<rparr>"
    have "st_array_insert_many ra a idx (Some es) cnt = Some (ST_OK, ?a)"
      using True b inv assms(3,4) c(1) by (auto simp: st_array_insert_many_def bind_eq_Some_conv)
    moreover have "arr_ok ?a" using bl(1) True c(2) assms(5) by (auto simp: arr_ok_def)
    moreover have "arr_list ?a = take (nat idx) (arr_list a) @ take (nat cnt) es @ drop (nat idx) (arr_list a)"
      using c(3) bl(2) by (simp add: arr_list_def[of ?a])
    moreover have "ar_current_cnt a + cnt \<le> ar_total_cnt a" if "\<not> ar_dynamic a"
      using that True b by auto
    ultimately show ?thesis by blast
  qed
qed


definition realloc_copy :: "addr \<Rightarrow> int list \<Rightarrow> int \<Rightarrow> int \<Rightarrow> (addr \<times> int list) option" where
  "realloc_copy p xs es cap =
    Some (1000, take (nat (cap div es)) xs @ replicate (nat (cap div es) - length xs) 0)"

lemma realloc_copy_ok: "realloc_ok realloc_copy"
proof -
  have "length xs \<le> nat (cap div es)" if "0 < es" "int (length xs) * es \<le> cap" for xs :: "int list" and es cap
    using that zdiv_mono1[OF that(2,1)] by simp
  then show ?thesis by (auto simp: realloc_ok_def realloc_copy_def)
qed

definition small_array :: "int st_array" where
  "small_array = \<lparr>ar_start_addr = 500, ar_cells = [10, 30, 0], ar_element_size = 8,
     ar_current_cnt = 2, ar_total_cnt = 3, ar_dynamic = False, ar_compare = Some st_cmp, ar_inited = True\<rparr>"

lemma small_array_ok: "arr_ok small_array" "arr_list small_array = [10, 30]"
  "ar_current_cnt small_array = 2" "ar_total_cnt small_array = 3" "\<not> ar_dynamic small_array"
  by (simp_all add: arr_ok_def arr_list_def small_array_def)


lemma remove_many_ok:
  assumes "arr_ok a" and "0 \<le> idx" and "idx < ar_current_cnt a" and "0 \<le> cnt"
  shows "\<exists>a'. st_array_remove_many a idx cnt = Some a' \<and> arr_ok a' \<and>
    arr_list a' = take (nat idx) (arr_list a) @ drop (nat idx + nat cnt) (arr_list a)"
proof -
  define c i n xs where d: "c = nat (ar_current_cnt a)" "i = nat idx"
    "n = nat (if idx + cnt > ar_current_cnt a then ar_current_cnt a - idx else cnt)" "xs = ar_cells a"
  let ?cnt = "if idx + cnt > ar_current_cnt a then ar_current_cnt a - idx else cnt"
  have le: "i + n \<le> c" "i < c" "c \<le> length xs" using assms by (auto simp: d arr_ok_def)
  let ?ys = "if i + n \<noteq> c then take i xs @ take (c - (i + n)) (drop (i + n) xs) @ drop (c - n) xs else xs"
  have s: "nat (idx + ?cnt) = i + n" "nat (ar_current_cnt a - (idx + ?cnt)) = c - (i + n)"
    "nat (idx + (ar_current_cnt a - (idx + ?cnt))) = c - n" "nat (ar_current_cnt a - ?cnt) = c - n"
    "idx + ?cnt \<noteq> ar_current_cnt a \<longleftrightarrow> i + n \<noteq> c"
    using assms by (auto simp: d)
  have m: "(if idx + ?cnt \<noteq> ar_current_cnt a
       then memmove_cells (ar_cells a) idx (idx + ?cnt) (ar_current_cnt a - (idx + ?cnt))
       else Some (ar_cells a)) = Some ?ys"
    using assms le s unfolding memmove_cells_def d(4)[symmetric]
    by (auto simp: d(2)[symmetric] arr_ok_def d(4))
  let ?a = "a\<lparr>ar_cells := ?ys, ar_current_cnt := ar_current_cnt a - ?cnt\<rparr>"
  have e: "st_array_remove_many a idx cnt = Some ?a"
    using m assms(1-3) by (simp add: st_array_remove_many_def arr_ok_def Let_def)
  have l: "length ?ys = length xs" using le by auto
  have ok: "arr_ok ?a" using l assms by (auto simp: arr_ok_def d(4))
  have "take (c - n) ?ys = take i xs @ drop (i + n) (take c xs)"
    using le by (auto simp: drop_take min_absorb1 min_absorb2 add.commute)
  moreover have "drop (i + n) (take c xs) = drop (nat idx + nat cnt) (take c xs)"
    using assms by (auto simp: d)
  ultimately have "arr_list ?a = take (nat idx) (arr_list a) @ drop (nat idx + nat cnt) (arr_list a)"
    using s(4) le by (simp add: arr_list_def d(1)[symmetric] d(2)[symmetric] d(4)[symmetric] min_absorb1)
  with e ok show ?thesis by blast
qed

text \<open>
  Removing \<open>cnt\<close> elements at a valid index returns and leaves a well-formed array without those
  elements; a count that reaches past the end removes the rest.
\<close>

theorem array_remove_correct:
  assumes "arr_ok a" and "0 \<le> idx" and "idx < ar_current_cnt a" and "0 \<le> cnt"
  shows "\<exists>a'. st_array_remove_many a idx cnt = Some a' \<and> arr_ok a' \<and>
    arr_list a' = take (nat idx) (arr_list a) @ drop (nat idx + nat cnt) (arr_list a)"
  using remove_many_ok[OF assms] .

theorem array_remove_correct_witness:
  "\<exists>a'. st_array_remove_many small_array 0 1 = Some a' \<and> arr_list a' = [30]"
  using array_remove_correct[OF small_array_ok(1), of 0 1]
  by (fastforce simp: small_array_ok)

section \<open>Searches\<close>

text \<open>The position where a property of the elements stops to hold.\<close>

lemma takeWhile_index:
  assumes "k \<le> length xs" "\<And>j. j < k \<Longrightarrow> Q (xs ! j)" "\<And>j. k \<le> j \<Longrightarrow> j < length xs \<Longrightarrow> \<not> Q (xs ! j)"
  shows "length (takeWhile Q xs) = k"
proof -
  have "takeWhile Q (take k xs @ drop k xs) = take k xs"
  proof (cases "k < length xs")
    case True
    then have "drop k xs = xs ! k # drop (Suc k) xs" by (simp add: Cons_nth_drop_Suc)
    moreover have "\<forall>y \<in> set (take k xs). Q y" using assms(1,2) by (auto simp: in_set_conv_nth)
    ultimately show ?thesis using assms(3)[of k] True by (simp add: takeWhile_append2)
  next
    case False
    with assms(1,2) show ?thesis by (auto simp: takeWhile_eq_all_conv in_set_conv_nth)
  qed
  then show ?thesis using assms(1) by simp
qed

text \<open>The boundary that a binary search returns, for the elements that satisfy \<open>Q\<close> first.\<close>

definition bound_at :: "('a \<Rightarrow> bool) \<Rightarrow> 'a list \<Rightarrow> nat \<Rightarrow> nat \<Rightarrow> bool" where
  "bound_at Q xs lo hi \<longleftrightarrow> lo \<le> hi \<and> hi \<le> length xs \<and> (\<forall>j < lo. Q (xs ! j)) \<and>
     (\<forall>j. hi \<le> j \<and> j < length xs \<longrightarrow> \<not> Q (xs ! j))"

lemma bound_at_length: "bound_at Q xs k k \<Longrightarrow> length (takeWhile Q xs) = k"
  by (rule takeWhile_index) (auto simp: bound_at_def)

context comparator
begin

lemma nth_mono:
  "sorted_by cmp xs \<Longrightarrow> set xs \<subseteq> A \<Longrightarrow> i \<le> j \<Longrightarrow> j < length xs \<Longrightarrow> cmp (xs ! i) (xs ! j) \<le> 0"
  using refl[of "xs ! j"] nth_mem[of j xs]
  by (cases "i = j") (auto simp: sorted_by_def sorted_wrt_iff_nth_less subset_iff)

lemma greater_below:
  assumes "sorted_by cmp xs" "set xs \<subseteq> A" "x \<in> A" "m < length xs" "cmp x (xs ! m) > 0" "j \<le> m"
  shows "cmp x (xs ! j) > 0"
  using le_less_trans[of "xs ! j" "xs ! m" x] nth_mono[OF assms(1,2,6,4)] assms
    flip(1)[of "xs ! m" x] flip(1)[of "xs ! j" x] by (auto simp: subset_iff)

lemma not_greater_above:
  assumes "sorted_by cmp xs" "set xs \<subseteq> A" "x \<in> A" "j < length xs" "\<not> cmp x (xs ! m) > 0" "m \<le> j"
  shows "\<not> cmp x (xs ! j) > 0"
  using greater_below[OF assms(1-4) _ assms(6)] assms(5) by blast

lemma less_above:
  assumes "sorted_by cmp xs" "set xs \<subseteq> A" "x \<in> A" "j < length xs" "cmp x (xs ! m) < 0" "m \<le> j"
  shows "cmp x (xs ! j) < 0"
  using less_le_trans[of x "xs ! m" "xs ! j"] nth_mono[OF assms(1,2,6,4)] assms
  by (auto simp: subset_iff)

lemma not_less_below:
  assumes "sorted_by cmp xs" "set xs \<subseteq> A" "x \<in> A" "m < length xs" "\<not> cmp x (xs ! m) < 0" "j \<le> m"
  shows "\<not> cmp x (xs ! j) < 0"
  using less_above[OF assms(1-4) _ assms(6)] assms(5) by blast

lemma bsearch_left_loop_ok:
  assumes ok: "arr_ok a" and srt: "sorted_by cmp (arr_list a)" and A: "set (arr_list a) \<subseteq> A" "x \<in> A"
    and "0 \<le> start" "0 \<le> stop" "bound_at (\<lambda>y. cmp x y > 0) (arr_list a) (nat start) (nat stop)"
      "ret \<in> {ST_OK, ST_NOT_FOUND}"
      "ret = ST_OK \<longleftrightarrow> nat stop < length (arr_list a) \<and> cmp x (arr_list a ! nat stop) = 0"
  shows "\<exists>k ret'. bsearch_left_loop cmp a x ret start stop = Some (ret', int k) \<and>
    bound_at (\<lambda>y. cmp x y > 0) (arr_list a) k k \<and> ret' \<in> {ST_OK, ST_NOT_FOUND} \<and>
    (ret' = ST_OK \<longleftrightarrow> k < length (arr_list a) \<and> cmp x (arr_list a ! k) = 0)"
  using assms(5-)
proof (induction "nat (stop - start)" arbitrary: start stop ret rule: less_induct)
  case less
  let ?xs = "arr_list a" and ?Q = "\<lambda>y. cmp x y > 0"
  note len = length_arr_list[OF ok]
  show ?case
  proof (cases "start < stop")
    case False
    then have "start = stop" using less.prems by (auto simp: bound_at_def)
    with less.prems show ?thesis
      by (subst bsearch_left_loop.simps) (auto intro!: exI[of _ "nat start"])
  next
    case True
    define mid where "mid = (start + stop) div 2"
    have mid: "start \<le> mid" "mid < stop" "0 \<le> mid" "mid < ar_current_cnt a" "nat mid < length ?xs"
      using True less.prems len by (auto simp: mid_def bound_at_def)
    have e: "bsearch_left_loop cmp a x ret start stop =
        (if cmp x (?xs ! nat mid) > 0 then bsearch_left_loop cmp a x ret (mid + 1) stop
         else bsearch_left_loop cmp a x (if cmp x (?xs ! nat mid) = 0 then ST_OK else ret) start mid)"
      using True cell_at_list[OF ok mid(3,4)]
      by (subst bsearch_left_loop.simps) (simp add: mid_def[symmetric] Let_def)
    show ?thesis
    proof (cases "cmp x (?xs ! nat mid) > 0")
      case gt: True
      have "bound_at ?Q ?xs (nat (mid + 1)) (nat stop)"
        using less.prems(3) mid greater_below[OF srt A mid(5) gt] by (auto simp: bound_at_def nat_add_distrib)
      with less.hyps[of stop "mid + 1" ret] less.prems mid e gt show ?thesis by auto
    next
      case ngt: False
      have b: "bound_at ?Q ?xs (nat start) (nat mid)"
        using less.prems(3) mid not_greater_above[OF srt A _ ngt] by (auto simp: bound_at_def)
      have r: "ret \<noteq> ST_OK" if "cmp x (?xs ! nat mid) \<noteq> 0"
        using that ngt less.prems(5) less_above[OF srt A, of "nat stop" "nat mid"] nat_mono[of mid stop] mid by auto
      let ?r = "if cmp x (?xs ! nat mid) = 0 then ST_OK else ret"
      have "?r \<in> {ST_OK, ST_NOT_FOUND}"
        "?r = ST_OK \<longleftrightarrow> nat mid < length ?xs \<and> cmp x (?xs ! nat mid) = 0"
        using less.prems(4) r mid(5) by auto
      with less.hyps[of mid start ?r] less.prems b mid e ngt show ?thesis by auto
    qed
  qed
qed

lemma bsearch_right_loop_ok:
  assumes ok: "arr_ok a" and srt: "sorted_by cmp (arr_list a)" and A: "set (arr_list a) \<subseteq> A" "x \<in> A"
    and "0 \<le> start" "0 \<le> stop" "bound_at (\<lambda>y. \<not> cmp x y < 0) (arr_list a) (nat start) (nat stop)"
      "ret \<in> {ST_OK, ST_NOT_FOUND}"
      "ret = ST_OK \<longleftrightarrow> 0 < start \<and> cmp x (arr_list a ! (nat start - 1)) = 0"
  shows "\<exists>k ret'. bsearch_right_loop cmp a x ret start stop = Some (ret', int k) \<and>
    bound_at (\<lambda>y. \<not> cmp x y < 0) (arr_list a) k k \<and> ret' \<in> {ST_OK, ST_NOT_FOUND} \<and>
    (ret' = ST_OK \<longleftrightarrow> 0 < k \<and> cmp x (arr_list a ! (k - 1)) = 0)"
  using assms(5-)
proof (induction "nat (stop - start)" arbitrary: start stop ret rule: less_induct)
  case less
  let ?xs = "arr_list a" and ?Q = "\<lambda>y. \<not> cmp x y < 0"
  note len = length_arr_list[OF ok]
  show ?case
  proof (cases "start < stop")
    case False
    then have "start = stop" using less.prems by (auto simp: bound_at_def)
    with less.prems show ?thesis
      by (subst bsearch_right_loop.simps) (auto intro!: exI[of _ "nat start"])
  next
    case True
    define mid where "mid = (start + stop) div 2"
    have mid: "start \<le> mid" "mid < stop" "0 \<le> mid" "mid < ar_current_cnt a" "nat mid < length ?xs"
      using True less.prems len by (auto simp: mid_def bound_at_def)
    have e: "bsearch_right_loop cmp a x ret start stop =
        (if cmp x (?xs ! nat mid) < 0 then bsearch_right_loop cmp a x ret start mid
         else bsearch_right_loop cmp a x (if cmp x (?xs ! nat mid) = 0 then ST_OK else ret) (mid + 1) stop)"
      using True cell_at_list[OF ok mid(3,4)]
      by (subst bsearch_right_loop.simps) (simp add: mid_def[symmetric] Let_def)
    show ?thesis
    proof (cases "cmp x (?xs ! nat mid) < 0")
      case lt: True
      have "bound_at ?Q ?xs (nat start) (nat mid)"
        using less.prems(3) mid less_above[OF srt A _ lt] by (auto simp: bound_at_def)
      with less.hyps[of mid start ret] less.prems mid e lt show ?thesis by auto
    next
      case nlt: False
      have b: "bound_at ?Q ?xs (nat (mid + 1)) (nat stop)"
        using less.prems(3) mid not_less_below[OF srt A mid(5) nlt] by (auto simp: bound_at_def nat_add_distrib)
      have r: "ret \<noteq> ST_OK" if "cmp x (?xs ! nat mid) \<noteq> 0"
        using that nlt less.prems(5) greater_below[OF srt A mid(5), of "nat start - 1"]
          diff_le_self[of "nat start" 1] nat_mono[of start mid] mid
        by (metis le_trans less_irrefl linorder_neqE)
      let ?r = "if cmp x (?xs ! nat mid) = 0 then ST_OK else ret"
      have "?r \<in> {ST_OK, ST_NOT_FOUND}"
        "?r = ST_OK \<longleftrightarrow> 0 < mid + 1 \<and> cmp x (?xs ! (nat (mid + 1) - 1)) = 0"
        using less.prems(4) r mid by (auto simp: nat_add_distrib)
      with less.hyps[of stop "mid + 1" ?r] less.prems b mid e nlt show ?thesis by auto
    qed
  qed
qed

end

lemma equal_at_bound:
  assumes "comparator A cmp" "sorted_by cmp xs" "set xs \<subseteq> A" "x \<in> A"
  shows "bound_at (\<lambda>y. cmp x y > 0) xs k k \<Longrightarrow>
      (k < length xs \<and> cmp x (xs ! k) = 0) \<longleftrightarrow> (\<exists>y \<in> set xs. cmp x y = 0)"
    and "bound_at (\<lambda>y. \<not> cmp x y < 0) xs k k \<Longrightarrow>
      (0 < k \<and> cmp x (xs ! (k - 1)) = 0) \<longleftrightarrow> (\<exists>y \<in> set xs. cmp x y = 0)"
proof -
  note less_above = comparator.less_above[OF assms(1-4)]
    and greater_below = comparator.greater_below[OF assms(1-4)]
  show "bound_at (\<lambda>y. cmp x y > 0) xs k k \<Longrightarrow>
      (k < length xs \<and> cmp x (xs ! k) = 0) \<longleftrightarrow> (\<exists>y \<in> set xs. cmp x y = 0)"
  proof
    assume "bound_at (\<lambda>y. cmp x y > 0) xs k k"
    assume "k < length xs \<and> cmp x (xs ! k) = 0"
    then show "\<exists>y \<in> set xs. cmp x y = 0" by auto
  next
    assume b: "bound_at (\<lambda>y. cmp x y > 0) xs k k"
    assume "\<exists>y \<in> set xs. cmp x y = 0"
    then obtain j where j: "j < length xs" "cmp x (xs ! j) = 0" by (auto simp: in_set_conv_nth)
    with b have "k \<le> j" unfolding bound_at_def by (metis linorder_not_less less_irrefl)
    moreover have "\<not> cmp x (xs ! k) > 0" "\<not> cmp x (xs ! k) < 0"
      using less_above[of j k] j b \<open>k \<le> j\<close> by (auto simp: bound_at_def)
    ultimately show "k < length xs \<and> cmp x (xs ! k) = 0" using j(1) by auto
  qed
  show "bound_at (\<lambda>y. \<not> cmp x y < 0) xs k k \<Longrightarrow>
      (0 < k \<and> cmp x (xs ! (k - 1)) = 0) \<longleftrightarrow> (\<exists>y \<in> set xs. cmp x y = 0)"
  proof
    assume b: "bound_at (\<lambda>y. \<not> cmp x y < 0) xs k k"
    assume "0 < k \<and> cmp x (xs ! (k - 1)) = 0"
    with b show "\<exists>y \<in> set xs. cmp x y = 0" by (auto simp: bound_at_def intro!: bexI[of _ "xs ! (k - 1)"])
  next
    assume b: "bound_at (\<lambda>y. \<not> cmp x y < 0) xs k k"
    assume "\<exists>y \<in> set xs. cmp x y = 0"
    then obtain j where j: "j < length xs" "cmp x (xs ! j) = 0" by (auto simp: in_set_conv_nth)
    with b have "j < k" unfolding bound_at_def by (metis linorder_not_less less_irrefl)
    moreover have "\<not> cmp x (xs ! (k - 1)) > 0" "\<not> cmp x (xs ! (k - 1)) < 0"
    proof -
      have k: "k - 1 < length xs" "j \<le> k - 1" "k - 1 < k" using b \<open>j < k\<close> by (auto simp: bound_at_def)
      then show "\<not> cmp x (xs ! (k - 1)) > 0" using greater_below[of "k - 1" j] j(2) by auto
      show "\<not> cmp x (xs ! (k - 1)) < 0" using b k(3) unfolding bound_at_def by blast
    qed
    ultimately show "0 < k \<and> cmp x (xs ! (k - 1)) = 0" by auto
  qed
qed

lemma bsearch_ok:
  assumes "comparator A cmp" and "arr_ok a" and "sorted_by cmp (arr_list a)"
    and "insert x (set (arr_list a)) \<subseteq> A" and "pick_cmp compare a = Some cmp"
  shows "let ret = (if \<exists>y \<in> set (arr_list a). cmp x y = 0 then ST_OK else ST_NOT_FOUND) in
    st_array_bsearch_left a (Some x) compare =
      Some (ret, int (length (takeWhile (\<lambda>y. cmp x y > 0) (arr_list a)))) \<and>
    st_array_bsearch_right a (Some x) compare =
      Some (ret, int (length (takeWhile (\<lambda>y. \<not> cmp x y < 0) (arr_list a))))"
proof -
  have A: "set (arr_list a) \<subseteq> A" "x \<in> A" using assms(4) by auto
  have n: "0 \<le> ar_current_cnt a" "ar_inited a" "nat (ar_current_cnt a) = length (arr_list a)"
    using assms(2) length_arr_list[OF assms(2)] by (auto simp: arr_ok_def)
  have b: "bound_at Q (arr_list a) (nat 0) (nat (ar_current_cnt a))" for Q
    by (auto simp: bound_at_def n(3))
  obtain k ret where k: "bsearch_left_loop cmp a x ST_NOT_FOUND 0 (ar_current_cnt a) = Some (ret, int k)"
    "bound_at (\<lambda>y. cmp x y > 0) (arr_list a) k k" "ret \<in> {ST_OK, ST_NOT_FOUND}"
    "ret = ST_OK \<longleftrightarrow> k < length (arr_list a) \<and> cmp x (arr_list a ! k) = 0"
    using comparator.bsearch_left_loop_ok[OF assms(1-3) A, of 0 "ar_current_cnt a" ST_NOT_FOUND] n b by auto
  obtain j rt where j: "bsearch_right_loop cmp a x ST_NOT_FOUND 0 (ar_current_cnt a) = Some (rt, int j)"
    "bound_at (\<lambda>y. \<not> cmp x y < 0) (arr_list a) j j" "rt \<in> {ST_OK, ST_NOT_FOUND}"
    "rt = ST_OK \<longleftrightarrow> 0 < j \<and> cmp x (arr_list a ! (j - 1)) = 0"
    using comparator.bsearch_right_loop_ok[OF assms(1-3) A, of 0 "ar_current_cnt a" ST_NOT_FOUND] n b by auto
  from k j n assms(5) bound_at_length[OF k(2)] bound_at_length[OF j(2)]
    equal_at_bound(1)[OF assms(1,3) A k(2)] equal_at_bound(2)[OF assms(1,3) A j(2)]
  show ?thesis
    by (auto simp: st_array_bsearch_left_def st_array_bsearch_right_def Let_def)
qed

text \<open>
  C35: On a sorted array both binary searches return; \<^verbatim>\<open>st_array_bsearch_left\<close> sets the index to the
  number of smaller elements, \<^verbatim>\<open>st_array_bsearch_right\<close> to the number of elements that are not
  greater, and the code is \<^verbatim>\<open>ST_OK\<close> exactly when an equal element is present, otherwise
  \<^verbatim>\<open>ST_NOT_FOUND\<close>.
\<close>

theorem array_bsearch_correct:
  assumes "comparator A cmp" and "arr_ok a" and "sorted_by cmp (arr_list a)"
    and "insert x (set (arr_list a)) \<subseteq> A" and "pick_cmp compare a = Some cmp"
  shows "let ret = (if \<exists>y \<in> set (arr_list a). cmp x y = 0 then ST_OK else ST_NOT_FOUND) in
    st_array_bsearch_left a (Some x) compare =
      Some (ret, int (length (takeWhile (\<lambda>y. cmp x y > 0) (arr_list a)))) \<and>
    st_array_bsearch_right a (Some x) compare =
      Some (ret, int (length (takeWhile (\<lambda>y. \<not> cmp x y < 0) (arr_list a))))"
  using bsearch_ok[OF assms] .

theorem array_bsearch_correct_witness:
  "st_array_bsearch_left small_array (Some 30) None = Some (ST_OK, 1) \<and>
   st_array_bsearch_right small_array (Some 30) None = Some (ST_OK, 2)"
proof -
  have "comparator UNIV (st_cmp :: int \<Rightarrow> int \<Rightarrow> int)"
    by (rule st_cmp_key.comparator_axioms[where f = id, simplified])
  moreover have "pick_cmp None small_array = Some st_cmp" by (simp add: pick_cmp_def small_array_def)
  ultimately show ?thesis
    using array_bsearch_correct[OF _ small_array_ok(1), of UNIV st_cmp 30 None]
    by (simp add: small_array_ok st_cmp_def Let_def)
qed

lemma sorted_insert_ok:
  assumes "comparator A cmp" and "arr_ok a" and "sorted_by cmp (arr_list a)"
    and "insert x (set (arr_list a)) \<subseteq> A" and "ar_compare a = Some cmp" and "realloc_ok ra"
    and "st_array_bsearch_right a (Some x) None = Some (ret, idx)"
    and "st_array_insert_many ra a idx (Some [x]) 1 = Some (ST_OK, a')"
  shows "arr_ok a' \<and> arr_list a' = ordered_insert cmp x (arr_list a) \<and> sorted_by cmp (arr_list a')"
proof -
  have p: "pick_cmp None a = Some cmp" using assms(5) by (simp add: pick_cmp_def)
  let ?Q = "\<lambda>y. \<not> cmp x y < 0"
  let ?k = "length (takeWhile ?Q (arr_list a))"
  have idx: "idx = int ?k"
    using bsearch_ok[OF assms(1-4) p] assms(7) by (auto simp: Let_def)
  have le: "?k \<le> length (arr_list a)" by (rule length_takeWhile_le)
  then have "idx \<le> ar_current_cnt a"
    using idx length_arr_list[OF assms(2)] assms(2) by (auto simp: arr_ok_def)
  from insert_many_ok[OF assms(2,6) _ this, of 1 "[x]"] assms(8) idx
  have ok: "arr_ok a'" "arr_list a' = take ?k (arr_list a) @ [x] @ drop ?k (arr_list a)" by auto
  have "arr_list a' = ordered_insert cmp x (arr_list a)"
    unfolding ok(2) ordered_insert_def by (simp add: takeWhile_eq_take[symmetric] dropWhile_eq_drop)
  with ok(1) comparator.sorted_ordered_insert[OF assms(1) _ _ assms(3), of x] assms(4)
  show ?thesis by simp
qed

text \<open>
  The way the page pool and the collector keep a sorted array, a right binary search followed by
  an insertion at the index it returns, inserts in order: the array stays sorted.
\<close>

theorem array_sorted_insert:
  assumes "comparator A cmp" and "arr_ok a" and "sorted_by cmp (arr_list a)"
    and "insert x (set (arr_list a)) \<subseteq> A" and "ar_compare a = Some cmp" and "realloc_ok ra"
    and "st_array_bsearch_right a (Some x) None = Some (ret, idx)"
    and "st_array_insert_many ra a idx (Some [x]) 1 = Some (ST_OK, a')"
  shows "arr_ok a' \<and> arr_list a' = ordered_insert cmp x (arr_list a) \<and> sorted_by cmp (arr_list a')"
  using sorted_insert_ok[OF assms] .

theorem array_sorted_insert_witness:
  "\<exists>a'. st_array_insert_many realloc_copy small_array 1 (Some [20]) 1 = Some (ST_OK, a') \<and>
     arr_list a' = [10, 20, 30] \<and> sorted_by st_cmp (arr_list a')"
proof -
  have c: "comparator UNIV (st_cmp :: int \<Rightarrow> int \<Rightarrow> int)"
    by (rule st_cmp_key.comparator_axioms[where f = id, simplified])
  have p: "pick_cmp None small_array = Some st_cmp" "ar_compare small_array = Some st_cmp"
    by (simp_all add: pick_cmp_def small_array_def)
  have s: "sorted_by st_cmp (arr_list small_array)" by (simp add: small_array_ok)
  have b: "st_array_bsearch_right small_array (Some 20) None = Some (ST_NOT_FOUND, 1)"
    using bsearch_ok[OF c small_array_ok(1) s _ p(1), of 20]
    by (simp add: small_array_ok st_cmp_def Let_def)
  obtain a' where a: "st_array_insert_many realloc_copy small_array 1 (Some [20]) 1 = Some (ST_OK, a')"
    using insert_many_ok[OF small_array_ok(1) realloc_copy_ok, of 1 1 "[20]"]
    by (fastforce simp: small_array_ok)
  from array_sorted_insert[OF c small_array_ok(1) s _ p(2) realloc_copy_ok b a] a show ?thesis
    by (simp add: small_array_ok ordered_insert_def st_cmp_def)
qed

lemma indexof_loop_ok:
  assumes "arr_ok a"
  shows "i \<le> length (arr_list a) \<Longrightarrow>
    indexof_loop cmp a x (int i) =
      (let k = i + length (takeWhile (\<lambda>y. cmp x y \<noteq> 0) (drop i (arr_list a))) in
       if k < length (arr_list a) then Some (ST_OK, int k) else Some (ST_NOT_FOUND, 0))"
proof (induction "length (arr_list a) - i" arbitrary: i)
  case 0
  then show ?case
    using length_arr_list[OF assms] by (subst indexof_loop.simps) (simp add: Let_def)
next
  case (Suc n)
  then have i: "i < length (arr_list a)" by simp
  have c: "int i < ar_current_cnt a" using i length_arr_list[OF assms] by simp
  have d: "drop i (arr_list a) = arr_list a ! i # drop (Suc i) (arr_list a)"
    using i by (simp add: Cons_nth_drop_Suc)
  have IH: "indexof_loop cmp a x (int (Suc i)) =
      (let k = Suc i + length (takeWhile (\<lambda>y. cmp x y \<noteq> 0) (drop (Suc i) (arr_list a))) in
       if k < length (arr_list a) then Some (ST_OK, int k) else Some (ST_NOT_FOUND, 0))"
    by (rule Suc.hyps(1)) (use Suc.hyps(2) i in simp_all)
  show ?case
    using c cell_at_list[OF assms, of "int i"] IH i
    by (subst indexof_loop.simps) (simp add: d Let_def add.commute)
qed

text \<open>
  \<^verbatim>\<open>st_array_indexof\<close> returns the index of the first element that compares equal, or
  \<^verbatim>\<open>ST_NOT_FOUND\<close>; \<^verbatim>\<open>st_array_sort\<close> permutes the elements into sorted order and keeps the slots
  behind them.
\<close>

theorem array_indexof_sort:
  assumes "arr_ok a" and "pick_cmp compare a = Some cmp" and "qsort_ok qs"
    and "comparator (set (arr_list a)) cmp"
  shows "(let k = length (takeWhile (\<lambda>y. cmp x y \<noteq> 0) (arr_list a)) in
      st_array_indexof a (Some x) compare =
        Some (if k < length (arr_list a) then (ST_OK, int k) else (ST_NOT_FOUND, 0))) \<and>
    (\<exists>a'. st_array_sort qs a compare = Some a' \<and> arr_ok a' \<and>
      mset (arr_list a') = mset (arr_list a) \<and> sorted_by cmp (arr_list a'))"
proof
  have i: "ar_inited a" using assms(1) by (simp add: arr_ok_def)
  show "let k = length (takeWhile (\<lambda>y. cmp x y \<noteq> 0) (arr_list a)) in
      st_array_indexof a (Some x) compare =
        Some (if k < length (arr_list a) then (ST_OK, int k) else (ST_NOT_FOUND, 0))"
    using indexof_loop_ok[OF assms(1), of 0 cmp x] assms(2) i
    by (simp add: st_array_indexof_def Let_def)
  let ?n = "nat (ar_current_cnt a)"
  let ?a = "a\<lparr>ar_cells := qs cmp (take ?n (ar_cells a)) @ drop ?n (ar_cells a)\<rparr>"
  have q: "mset (qs cmp (arr_list a)) = mset (arr_list a)" "sorted_by cmp (qs cmp (arr_list a))"
    using assms(3,4) by (auto simp: qsort_ok_def)
  have l: "length (qs cmp (take ?n (ar_cells a))) = ?n"
    using mset_eq_length[OF q(1)] length_arr_list[OF assms(1)] by (simp add: arr_list_def)
  then have "arr_list ?a = qs cmp (arr_list a)" by (simp add: arr_list_def)
  moreover have "arr_ok ?a" using assms(1) l by (auto simp: arr_ok_def)
  ultimately show "\<exists>a'. st_array_sort qs a compare = Some a' \<and> arr_ok a' \<and>
      mset (arr_list a') = mset (arr_list a) \<and> sorted_by cmp (arr_list a')"
    using q i assms(2) by (intro exI[of _ ?a]) (simp add: st_array_sort_def)
qed

fun isort :: "('a \<Rightarrow> 'a \<Rightarrow> int) \<Rightarrow> 'a list \<Rightarrow> 'a list" where
  "isort cmp [] = []"
| "isort cmp (x # xs) = ordered_insert cmp x (isort cmp xs)"

lemma mset_ordered_insert: "mset (ordered_insert cmp a xs) = add_mset a (mset xs)"
  unfolding ordered_insert_def
  by simp (metis mset_append takeWhile_dropWhile_id)

lemma isort_ok: "qsort_ok isort"
proof -
  have m: "mset (isort cmp xs) = mset xs" for cmp :: "'a \<Rightarrow> 'a \<Rightarrow> int" and xs
    by (induction xs) (simp_all add: mset_ordered_insert)
  have "sorted_by cmp (isort cmp xs)" if "comparator A cmp" "set xs \<subseteq> A"
    for cmp :: "'a \<Rightarrow> 'a \<Rightarrow> int" and xs A
    using that(2)
  proof (induction xs)
    case (Cons x xs)
    then show ?case
      using comparator.sorted_ordered_insert[OF that(1), of "isort cmp xs" x] mset_eq_setD[OF m[of cmp xs]]
      by auto
  qed simp
  with m show ?thesis by (auto simp: qsort_ok_def)
qed

theorem array_indexof_sort_witness:
  "st_array_indexof small_array (Some 30) None = Some (ST_OK, 1) \<and>
   (\<exists>a'. st_array_sort isort small_array None = Some a' \<and> sorted_by st_cmp (arr_list a'))"
proof -
  have "comparator (set (arr_list small_array)) (st_cmp :: int \<Rightarrow> int \<Rightarrow> int)"
    by (rule st_cmp_key.comparator_axioms[where f = id, simplified])
  moreover have "pick_cmp None small_array = Some st_cmp"
    by (simp add: pick_cmp_def small_array_def)
  ultimately show ?thesis
    using array_indexof_sort[OF small_array_ok(1) _ isort_ok, of None st_cmp 30]
    by (auto simp: small_array_ok st_cmp_def Let_def)
qed

end
