(* ===== verification/Robustlock.thy ===== *)
theory Robustlock
  imports Prelude
begin

text \<open>
  \<^verbatim>\<open>src/robustlock/robustlock.c\<close>: locks shared by processes that survive the death of their
  holder.  The mutex is the robust, error-checking mutex of POSIX: it knows its owner, whether
  the last owner died while holding it, and whether it has become unusable because it was
  unlocked without being made consistent.
\<close>

section \<open>The mutex of the C library\<close>

record mutex =
  mx_owner :: "pid option"
  mx_owner_died :: bool
  mx_notrecoverable :: bool

definition mutex_new :: mutex where
  "mutex_new = \<lparr>mx_owner = None, mx_owner_died = False, mx_notrecoverable = False\<rparr>"

abbreviation (input) EPERM :: int where "EPERM \<equiv> 1"
abbreviation (input) ENOMEM :: int where "ENOMEM \<equiv> 12"
abbreviation (input) EBUSY :: int where "EBUSY \<equiv> 16"
abbreviation (input) EINVAL :: int where "EINVAL \<equiv> 22"
abbreviation (input) EDEADLK :: int where "EDEADLK \<equiv> 35"
abbreviation (input) EOWNERDEAD :: int where "EOWNERDEAD \<equiv> 130"
abbreviation (input) ENOTRECOVERABLE :: int where "ENOTRECOVERABLE \<equiv> 131"

text \<open>A call of process \<open>t\<close> blocks (\<open>None\<close>) or returns a code and leaves a mutex.\<close>

definition pthread_mutex_lock :: "pid \<Rightarrow> mutex \<Rightarrow> (int \<times> mutex) option" where
  "pthread_mutex_lock t m =
    (if mx_notrecoverable m then Some (ENOTRECOVERABLE, m)
     else case mx_owner m of
       Some o' \<Rightarrow> if o' = t then Some (EDEADLK, m) else None
     | None \<Rightarrow> Some (if mx_owner_died m then EOWNERDEAD else 0, m\<lparr>mx_owner := Some t\<rparr>))"

definition pthread_mutex_trylock :: "pid \<Rightarrow> mutex \<Rightarrow> int \<times> mutex" where
  "pthread_mutex_trylock t m =
    (if mx_notrecoverable m then (ENOTRECOVERABLE, m)
     else case mx_owner m of
       Some _ \<Rightarrow> (EBUSY, m)
     | None \<Rightarrow> (if mx_owner_died m then EOWNERDEAD else 0, m\<lparr>mx_owner := Some t\<rparr>))"

definition pthread_mutex_consistent :: "pid \<Rightarrow> mutex \<Rightarrow> int \<times> mutex" where
  "pthread_mutex_consistent t m =
    (if mx_owner_died m \<and> mx_owner m = Some t then (0, m\<lparr>mx_owner_died := False\<rparr>) else (EINVAL, m))"

definition pthread_mutex_unlock :: "pid \<Rightarrow> mutex \<Rightarrow> int \<times> mutex" where
  "pthread_mutex_unlock t m =
    (if mx_owner m = Some t
     then (0, m\<lparr>mx_owner := None, mx_notrecoverable := mx_notrecoverable m \<or> mx_owner_died m\<rparr>)
     else (EPERM, m))"

definition pthread_mutex_destroy :: "mutex \<Rightarrow> int" where
  "pthread_mutex_destroy m = (if mx_owner m = None then 0 else EBUSY)"

text \<open>The death of a process, as the kernel records it in the mutex.\<close>

definition owner_exit :: "pid \<Rightarrow> mutex \<Rightarrow> mutex" where
  "owner_exit t m = (if mx_owner m = Some t then m\<lparr>mx_owner := None, mx_owner_died := True\<rparr> else m)"

section \<open>The operations\<close>

datatype lock_result = Blocks | Aborts | Locked mutex

text \<open>
  \<^verbatim>\<open>st_robustlock_init\<close>: only the creation of the attribute object can fail and return; its
  result is the argument.
\<close>

definition st_robustlock_init :: "int \<Rightarrow> mutex \<Rightarrow> st_error \<times> mutex" where
  "st_robustlock_init attr_init m =
    (if attr_init \<noteq> 0 then (Errno attr_init, m) else (ST_OK, mutex_new))"

definition st_robustlock_lock :: "pid \<Rightarrow> mutex \<Rightarrow> lock_result" where
  "st_robustlock_lock t m =
    (case pthread_mutex_lock t m of
       None \<Rightarrow> Blocks
     | Some (ret, m) \<Rightarrow>
         if ret = 0 then Locked m
         else if ret \<noteq> EOWNERDEAD then Aborts
         else let (ret, m) = pthread_mutex_consistent t m
              in if ret = 0 then Locked m else Aborts)"

text \<open>\<open>None\<close> is a failed assertion.\<close>

definition st_robustlock_trylock :: "pid \<Rightarrow> mutex \<Rightarrow> (st_error \<times> mutex) option" where
  "st_robustlock_trylock t m =
    (let (ret, m) = pthread_mutex_trylock t m in
     if ret = 0 then Some (ST_OK, m)
     else if ret = EBUSY then Some (Errno EBUSY, m)
     else if ret \<noteq> EOWNERDEAD then None
     else let (ret, m) = pthread_mutex_consistent t m
          in if ret = 0 then Some (ST_OK, m) else None)"

definition st_robustlock_unlock :: "pid \<Rightarrow> mutex \<Rightarrow> mutex option" where
  "st_robustlock_unlock t m =
    (let (ret, m) = pthread_mutex_unlock t m in if ret = 0 then Some m else None)"

definition st_robustlock_destroy :: "mutex \<Rightarrow> st_error" where
  "st_robustlock_destroy m =
    (let ret = pthread_mutex_destroy m in if ret = 0 then ST_OK else Errno ret)"

section \<open>Locked sections in other components\<close>

text \<open>A usable lock that nobody holds, possibly because its holder died.\<close>

definition lock_free :: "mutex \<Rightarrow> bool" where
  "lock_free m \<longleftrightarrow> mx_owner m = None \<and> \<not> mx_notrecoverable m"

definition lock_held :: "pid \<Rightarrow> mutex \<Rightarrow> bool" where
  "lock_held t m \<longleftrightarrow> mx_owner m = Some t \<and> \<not> mx_owner_died m \<and> \<not> mx_notrecoverable m"

text \<open>A call that takes the lock returns only if it gets it.\<close>

definition acquire :: "pid \<Rightarrow> mutex \<Rightarrow> mutex option" where
  "acquire t m = (case st_robustlock_lock t m of Locked m' \<Rightarrow> Some m' | _ \<Rightarrow> None)"

lemma acquire_free:
  "lock_free m \<Longrightarrow>
    acquire t m = Some \<lparr>mx_owner = Some t, mx_owner_died = False, mx_notrecoverable = False\<rparr>"
  by (cases m) (auto simp: lock_free_def acquire_def st_robustlock_lock_def pthread_mutex_lock_def
      pthread_mutex_consistent_def)

lemma unlock_held: "lock_held t m \<Longrightarrow> st_robustlock_unlock t m = Some mutex_new"
  by (cases m) (auto simp: lock_held_def st_robustlock_unlock_def pthread_mutex_unlock_def mutex_new_def)

lemma lock_new [simp]: "lock_free mutex_new"
  "lock_held t \<lparr>mx_owner = Some t, mx_owner_died = False, mx_notrecoverable = False\<rparr>"
  by (simp_all add: lock_free_def lock_held_def mutex_new_def)

lemma acquire_release:
  "lock_free m \<Longrightarrow> \<exists>m'. acquire t m = Some m' \<and> lock_held t m' \<and>
    st_robustlock_unlock t m' = Some mutex_new"
  by (simp add: acquire_free unlock_held)

text \<open>
  The bodies that the other components run between lock and unlock; the body does not touch the
  mutex.  The interface they rely on: a free lock can be taken, a held one can be given back and
  is free again.
\<close>

definition with_lock :: "pid \<Rightarrow> mutex \<Rightarrow> 'a option \<Rightarrow> ('a \<times> mutex) option" where
  "with_lock t m body = do {
     m \<leftarrow> acquire t m;
     r \<leftarrow> body;
     m \<leftarrow> st_robustlock_unlock t m;
     Some (r, m)
   }"

locale lock_provider =
  fixes free :: "'m \<Rightarrow> bool" and held :: "pid \<Rightarrow> 'm \<Rightarrow> bool"
    and take_lock :: "pid \<Rightarrow> 'm \<Rightarrow> 'm option" and give_lock :: "pid \<Rightarrow> 'm \<Rightarrow> 'm option"
  assumes take_ok: "free m \<Longrightarrow> \<exists>m'. take_lock t m = Some m' \<and> held t m'"
    and give_ok: "held t m \<Longrightarrow> \<exists>m'. give_lock t m = Some m' \<and> free m'"
begin

lemma section_returns:
  assumes "free m"
  shows "\<exists>m'. (take_lock t m \<bind> (\<lambda>m. Some x \<bind> (\<lambda>r. give_lock t m \<bind> (\<lambda>m. Some (r, m))))) =
    Some (x, m') \<and> free m'"
  using take_ok[OF assms, of t] give_ok by fastforce

lemma section_fails: "(take_lock t m \<bind> (\<lambda>m. None \<bind> (\<lambda>r. give_lock t m \<bind> (\<lambda>m. Some (r, m))))) = None"
  by (cases "take_lock t m") simp_all

end

interpretation robust: lock_provider lock_free lock_held acquire st_robustlock_unlock
  by unfold_locales (auto simp: acquire_free unlock_held)

lemma with_lock_ok: "lock_free m \<Longrightarrow> \<exists>m'. with_lock t m (Some x) = Some (x, m') \<and> lock_free m'"
  unfolding with_lock_def by (rule robust.section_returns)

lemma with_lock_None [simp]: "with_lock t m None = None"
  unfolding with_lock_def by (rule robust.section_fails)

lemma with_lock_Some: "with_lock t m body = Some (x, m') \<Longrightarrow> body = Some x"
  by (auto simp: with_lock_def bind_eq_Some_conv)

section \<open>Processes that use a lock\<close>

text \<open>
  A system of processes: the mutex, the processes inside their critical sections, and the dead
  ones.  A process enters by \<^verbatim>\<open>st_robustlock_lock\<close> or a successful \<^verbatim>\<open>st_robustlock_trylock\<close>, leaves
  by \<^verbatim>\<open>st_robustlock_unlock\<close>, and may die at any moment.
\<close>

record lock_system =
  ls_mutex :: mutex
  ls_inside :: "pid set"
  ls_dead :: "pid set"

inductive lock_step :: "lock_system \<Rightarrow> lock_system \<Rightarrow> bool" where
  enter: "t \<notin> ls_dead s \<Longrightarrow> t \<notin> ls_inside s \<Longrightarrow> st_robustlock_lock t (ls_mutex s) = Locked m \<Longrightarrow>
    lock_step s (s\<lparr>ls_mutex := m, ls_inside := insert t (ls_inside s)\<rparr>)"
| try_enter: "t \<notin> ls_dead s \<Longrightarrow> t \<notin> ls_inside s \<Longrightarrow>
    st_robustlock_trylock t (ls_mutex s) = Some (ST_OK, m) \<Longrightarrow>
    lock_step s (s\<lparr>ls_mutex := m, ls_inside := insert t (ls_inside s)\<rparr>)"
| leave: "t \<notin> ls_dead s \<Longrightarrow> t \<in> ls_inside s \<Longrightarrow> st_robustlock_unlock t (ls_mutex s) = Some m \<Longrightarrow>
    lock_step s (s\<lparr>ls_mutex := m, ls_inside := ls_inside s - {t}\<rparr>)"
| die: "t \<notin> ls_dead s \<Longrightarrow>
    lock_step s (s\<lparr>ls_mutex := owner_exit t (ls_mutex s), ls_inside := ls_inside s - {t},
      ls_dead := insert t (ls_dead s)\<rparr>)"

inductive_cases lock_stepE: "lock_step s s'"

inductive lock_reachable :: "lock_system \<Rightarrow> bool" where
  start: "lock_reachable \<lparr>ls_mutex = mutex_new, ls_inside = {}, ls_dead = {}\<rparr>"
| step: "lock_reachable s \<Longrightarrow> lock_step s s' \<Longrightarrow> lock_reachable s'"

definition lock_inv :: "lock_system \<Rightarrow> bool" where
  "lock_inv s \<longleftrightarrow> ls_inside s = {t. mx_owner (ls_mutex s) = Some t} \<and>
     \<not> mx_notrecoverable (ls_mutex s) \<and>
     (mx_owner (ls_mutex s) \<noteq> None \<longrightarrow> \<not> mx_owner_died (ls_mutex s)) \<and>
     ls_inside s \<inter> ls_dead s = {}"

lemmas lock_defs = st_robustlock_lock_def pthread_mutex_lock_def pthread_mutex_consistent_def
  st_robustlock_trylock_def pthread_mutex_trylock_def st_robustlock_unlock_def
  pthread_mutex_unlock_def owner_exit_def

lemma lock_step_inv: "lock_step s s' \<Longrightarrow> lock_inv s \<Longrightarrow> lock_inv s'"
  by (erule lock_stepE) (auto simp: lock_inv_def lock_defs split: option.splits if_splits prod.splits)

lemma lock_reachable_inv: "lock_reachable s \<Longrightarrow> lock_inv s"
proof (induction rule: lock_reachable.induct)
  case start
  then show ?case by (simp add: lock_inv_def mutex_new_def)
next
  case (step s s')
  then show ?case by (blast intro: lock_step_inv)
qed


text \<open>
  C32: A lock call never aborts, and the death of the holder never blocks the others: in every
  reachable state a live process outside either waits for the one process inside or obtains the
  lock, and it obtains it at once when no process is inside, also when the last holder died.
\<close>

theorem robustlock_no_orphan:
  assumes "lock_reachable s" and "t \<notin> ls_inside s"
  shows "st_robustlock_lock t (ls_mutex s) \<noteq> Aborts \<and>
    (st_robustlock_lock t (ls_mutex s) = Blocks \<longleftrightarrow> ls_inside s \<noteq> {}) \<and>
    (ls_inside s = {} \<longrightarrow> (\<exists>m. st_robustlock_lock t (ls_mutex s) = Locked m \<and> lock_held t m))"
  using lock_reachable_inv[OF assms(1)] assms(2)
  by (auto simp: lock_inv_def lock_defs lock_held_def split: option.splits)

text \<open>Process 1 takes the lock and dies; process 2 still gets it.\<close>

definition orphaned :: lock_system where
  "orphaned = \<lparr>ls_mutex = \<lparr>mx_owner = None, mx_owner_died = True, mx_notrecoverable = False\<rparr>,
     ls_inside = {}, ls_dead = {1}\<rparr>"

definition one_inside :: lock_system where
  "one_inside = \<lparr>ls_mutex = \<lparr>mx_owner = Some 1, mx_owner_died = False, mx_notrecoverable = False\<rparr>,
     ls_inside = {1}, ls_dead = {}\<rparr>"

lemma one_inside_reachable: "lock_reachable one_inside"
proof -
  have "lock_step \<lparr>ls_mutex = mutex_new, ls_inside = {}, ls_dead = {}\<rparr> one_inside"
    using lock_step.enter[of 1 "\<lparr>ls_mutex = mutex_new, ls_inside = {}, ls_dead = {}\<rparr>"]
    by (simp add: one_inside_def lock_defs mutex_new_def)
  then show ?thesis by (rule lock_reachable.step[OF lock_reachable.start])
qed

lemma orphaned_reachable: "lock_reachable orphaned"
proof -
  have "lock_step one_inside orphaned"
    using lock_step.die[of 1 one_inside] by (simp add: one_inside_def orphaned_def owner_exit_def)
  then show ?thesis by (rule lock_reachable.step[OF one_inside_reachable])
qed


theorem robustlock_no_orphan_witness:
  "\<exists>m. st_robustlock_lock 2 (ls_mutex orphaned) = Locked m \<and> lock_held 2 m"
  using robustlock_no_orphan[OF orphaned_reachable, of 2] by (auto simp: orphaned_def)

end
