(* ===== verification/Version.thy ===== *)
theory Version
  imports Prelude
begin

text \<open>
  \<^verbatim>\<open>src/version/version.c\<close>: version strings of three numbers.  Strings are the characters before
  the terminating NUL.  \<^verbatim>\<open>strtol\<close> in base ten is the C library's: white space, an optional sign,
  digits; a value outside 64 bits sets \<^verbatim>\<open>errno\<close> to \<^verbatim>\<open>ERANGE\<close>, and without digits the end pointer is
  the start.
\<close>

section \<open>Reading numbers\<close>

definition is_space :: "char \<Rightarrow> bool" where
  "is_space c \<longleftrightarrow> (of_char c :: nat) \<in> {9, 10, 11, 12, 13, 32}"

definition is_digit :: "char \<Rightarrow> bool" where
  "is_digit c \<longleftrightarrow> 48 \<le> (of_char c :: nat) \<and> (of_char c :: nat) \<le> 57"

definition digit_val :: "char \<Rightarrow> int" where
  "digit_val c = int (of_char c :: nat) - 48"

definition digits_val :: "string \<Rightarrow> int" where
  "digits_val ds = foldl (\<lambda>v c. 10 * v + digit_val c) 0 ds"

abbreviation (input) ERANGE :: int where "ERANGE \<equiv> 34"

text \<open>The value and the rest of the string; \<open>Inl\<close> is \<^verbatim>\<open>errno\<close>; no digits give 0 and the whole string.\<close>

definition strtol :: "string \<Rightarrow> int + (int \<times> string)" where
  "strtol s =
    (let s1 = dropWhile is_space s;
         neg = (s1 \<noteq> [] \<and> hd s1 = CHR ''-'');
         s2 = (if s1 \<noteq> [] \<and> (hd s1 = CHR ''-'' \<or> hd s1 = CHR ''+'') then tl s1 else s1);
         ds = takeWhile is_digit s2;
         v = (if neg then - digits_val ds else digits_val ds)
     in if ds = [] then Inr (0, s)
        else if v < - (2 ^ 63) \<or> v \<ge> 2 ^ 63 then Inl ERANGE
        else Inr (v, dropWhile is_digit s2))"

definition st_version_atoi :: "string \<Rightarrow> st_error + (int \<times> string)" where
  "st_version_atoi nptr =
    (case strtol nptr of
       Inl e \<Rightarrow> Inl (Errno e)
     | Inr (num, rest) \<Rightarrow>
         if rest = nptr then Inl ST_ARG_INVALID
         else if num > 2 ^ 31 - 1 \<or> num < - (2 ^ 31) then Inl ST_NUM_OVERFLOW
         else Inr (num, rest))"

section \<open>Versions\<close>

text \<open>
  The loop of \<^verbatim>\<open>st_version_parse\<close>, for the indices from \<open>idx\<close> to 2.  The character at the end
  pointer is NUL when nothing is left.
\<close>

fun parse_loop :: "nat \<Rightarrow> string \<Rightarrow> st_error + int list" where
  "parse_loop n vptr =
    (case st_version_atoi vptr of
       Inl e \<Rightarrow> Inl e
     | Inr (v, rest) \<Rightarrow>
         (case n of
            0 \<Rightarrow> if rest \<noteq> [] then Inl ST_ARG_INVALID else Inr [v]
          | Suc k \<Rightarrow>
              if rest = [] \<or> hd rest \<noteq> CHR ''.'' then Inl ST_ARG_INVALID
              else (case parse_loop k (tl rest) of
                 Inl e \<Rightarrow> Inl e
               | Inr vs \<Rightarrow> Inr (v # vs))))"

definition st_version_parse :: "string option \<Rightarrow> st_error + (int \<times> int \<times> int)" where
  "st_version_parse ver_str =
    (case ver_str of
       None \<Rightarrow> Inl ST_ARG_INVALID
     | Some s \<Rightarrow>
         (case parse_loop 2 s of
            Inl e \<Rightarrow> Inl e
          | Inr vs \<Rightarrow> Inr (vs ! 0, vs ! 1, vs ! 2)))"

datatype st_version_relation_t = ST_VERSION_COMPATIBLE | ST_VERSION_CONFLICT | ST_VERSION_THE_SAME

definition st_version_relation ::
    "string option \<Rightarrow> string option \<Rightarrow> st_error + st_version_relation_t" where
  "st_version_relation v1 v2 =
    (case st_version_parse v1 of
       Inl e \<Rightarrow> Inl e
     | Inr (major1, minor1, release1) \<Rightarrow>
         (case st_version_parse v2 of
            Inl e \<Rightarrow> Inl e
          | Inr (major2, minor2, release2) \<Rightarrow>
              if major1 \<noteq> major2 then Inr ST_VERSION_CONFLICT
              else if minor1 \<noteq> minor2 then Inr ST_VERSION_COMPATIBLE
              else if release1 = release2 then Inr ST_VERSION_THE_SAME
              else Inr ST_VERSION_COMPATIBLE))"

definition st_version_is_compatible :: "string option \<Rightarrow> string option \<Rightarrow> bool" where
  "st_version_is_compatible v1 v2 =
    (if v1 = None then False
     else if v2 = None then False
     else case st_version_relation v1 v2 of
       Inl _ \<Rightarrow> False
     | Inr r \<Rightarrow> r \<noteq> ST_VERSION_CONFLICT)"

text \<open>\<^verbatim>\<open>ST_VERSION_FULL\<close> comes from the build; without it the version is this one.\<close>

definition st_version_get_fully :: string where
  "st_version_get_fully = ''0.0.0''"

section \<open>Printing\<close>

text \<open>What \<^verbatim>\<open>%d\<close> prints for a number that is not negative.\<close>

function print_nat :: "nat \<Rightarrow> string" where
  "print_nat n = (if n < 10 then [char_of (48 + n)] else print_nat (n div 10) @ [char_of (48 + n mod 10)])"
  by pat_completeness auto
termination by (relation "measure id") auto

declare print_nat.simps [simp del]

definition print_version :: "nat \<Rightarrow> nat \<Rightarrow> nat \<Rightarrow> string" where
  "print_version a b c = print_nat a @ ''.'' @ print_nat b @ ''.'' @ print_nat c"

section \<open>Correctness\<close>

lemma digit_char: "d < 10 \<Longrightarrow> is_digit (char_of (48 + d))" "d < 10 \<Longrightarrow> digit_val (char_of (48 + d)) = int d"
  by (simp_all add: is_digit_def digit_val_def of_char_of)

lemma print_nat_digits: "\<forall>c \<in> set (print_nat n). is_digit c"
  by (induction n rule: print_nat.induct) (subst print_nat.simps, auto simp: digit_char)

lemma print_nat_nonempty: "print_nat n \<noteq> []"
  by (subst print_nat.simps) auto

lemma digits_val_snoc: "digits_val (ds @ [c]) = 10 * digits_val ds + digit_val c"
  by (simp add: digits_val_def)

lemma print_nat_val: "digits_val (print_nat n) = int n"
proof (induction n rule: print_nat.induct)
  case (1 n)
  show ?case
  proof (cases "n < 10")
    case True
    then show ?thesis by (subst print_nat.simps) (simp add: digits_val_def digit_char)
  next
    case False
    with 1 show ?thesis
      by (subst print_nat.simps) (simp add: digits_val_snoc digit_char, presburger)
  qed
qed

lemma digit_not:
  "is_digit c \<Longrightarrow> \<not> is_space c" "is_digit c \<Longrightarrow> c \<noteq> CHR ''-''" "is_digit c \<Longrightarrow> c \<noteq> CHR ''+''"
  by (auto simp: is_digit_def is_space_def)

lemma strtol_print:
  assumes "n < 2 ^ 31" "rest = [] \<or> \<not> is_digit (hd rest)"
  shows "st_version_atoi (print_nat n @ rest) = Inr (int n, rest)"
proof -
  obtain c ds where cs: "print_nat n = c # ds" by (cases "print_nat n") (auto simp: print_nat_nonempty)
  have c: "is_digit c" "\<forall>x \<in> set ds. is_digit x" using print_nat_digits[of n] cs by auto
  have tw: "takeWhile is_digit (print_nat n @ rest) = print_nat n"
    "dropWhile is_digit (print_nat n @ rest) = rest"
    using print_nat_digits[of n] assms(2) by (cases rest; auto simp: takeWhile_append dropWhile_append)+
  have "dropWhile is_space (print_nat n @ rest) = print_nat n @ rest"
    using c digit_not(1)[of c] cs by simp
  with tw cs c digit_not(2,3)[of c] print_nat_val[of n] assms(1)
  have "strtol (print_nat n @ rest) = Inr (int n, rest)"
    by (simp add: strtol_def Let_def)
  with assms(1) cs show ?thesis by (simp add: st_version_atoi_def)
qed

lemma dot_not_digit: "\<not> is_digit (CHR ''.'')" by (simp add: is_digit_def)

lemma parse_print:
  assumes "a < 2 ^ 31" "b < 2 ^ 31" "c < 2 ^ 31"
  shows "st_version_parse (Some (print_version a b c)) = Inr (int a, int b, int c)"
proof -
  have a: "st_version_atoi (print_version a b c) = Inr (int a, ''.'' @ print_nat b @ ''.'' @ print_nat c)"
    unfolding print_version_def by (rule strtol_print) (use assms dot_not_digit in auto)
  have b: "st_version_atoi (print_nat b @ ''.'' @ print_nat c) = Inr (int b, ''.'' @ print_nat c)"
    by (rule strtol_print) (use assms dot_not_digit in auto)
  have c: "st_version_atoi (print_nat c) = Inr (int c, [])"
    using strtol_print[of c "[]"] assms by simp
  show ?thesis
    using a b c by (simp add: st_version_parse_def numeral_2_eq_2 parse_loop.simps[of _ "print_version a b c"]
        parse_loop.simps[of _ "print_nat b @ _"] parse_loop.simps[of _ "print_nat c"] del: parse_loop.simps)
qed

text \<open>
  C37: Parsing a printed version gives the three numbers back, for all numbers below 2^31.
\<close>

theorem version_roundtrip:
  assumes "a < 2 ^ 31" and "b < 2 ^ 31" and "c < 2 ^ 31"
  shows "st_version_parse (Some (print_version a b c)) = Inr (int a, int b, int c)"
  by (rule parse_print[OF assms])

theorem version_roundtrip_witness: "st_version_parse (Some (print_version 1 20 3)) = Inr (1, 20, 3)"
  using version_roundtrip[of 1 20 3] by simp

text \<open>
  Two version strings are compatible exactly when both parse and have the same major number; a
  string that does not parse is compatible with none, and the relation is the same in both
  directions.
\<close>

theorem version_compatible_iff:
  "st_version_is_compatible v1 v2 \<longleftrightarrow>
     (\<exists>a b c a' b' c'. st_version_parse v1 = Inr (a, b, c) \<and> st_version_parse v2 = Inr (a', b', c') \<and> a = a')"
  by (cases v1; cases v2)
    (auto simp: st_version_is_compatible_def st_version_relation_def st_version_parse_def
      split: sum.splits)

end
