(* ===== verification/Region.thy ===== *)
theory Region
  imports Robustlock
begin

text \<open>
  \<^verbatim>\<open>src/region/region.c\<close>: the shared memory and its division into regions.  The results of system
  calls (\<^verbatim>\<open>shm_open\<close>, \<^verbatim>\<open>ftruncate\<close>, \<^verbatim>\<open>mmap\<close>, \<^verbatim>\<open>fcntl\<close>, \<^verbatim>\<open>madvise\<close>, the page size) are arguments.  An
  address is a number; the offset arithmetic of the C code wraps at 2^64 and the region index is
  an \<^verbatim>\<open>int\<close> of 32 bits.
\<close>

section \<open>Shared memory objects\<close>

text \<open>The outcome of a system call: \<open>Inl errno\<close> or a value.\<close>

type_synonym 'a sys = "int + 'a"

datatype shm_action = Munmap | Close_fd | Unlink

text \<open>\<^verbatim>\<open>st_region_shm_memcpy\<close>: the code, the bytes copied to the destination, and what is released.\<close>

definition st_region_shm_memcpy ::
    "int sys \<Rightarrow> 'b list sys \<Rightarrow> unit sys \<Rightarrow> int \<Rightarrow> (st_error \<times> 'b list option \<times> shm_action list) option" where
  "st_region_shm_memcpy open_r mmap_r munmap_r len = do {
     st_assert (len > 0);
     (case open_r of
        Inl e \<Rightarrow> Some (Errno e, None, [])
      | Inr fd \<Rightarrow>
          (case mmap_r of
             Inl e \<Rightarrow> Some (Errno e, None, [Close_fd])
           | Inr bytes \<Rightarrow>
               (case munmap_r of
                  Inl e \<Rightarrow> Some (Errno e, Some bytes, [Close_fd])
                | Inr _ \<Rightarrow> Some (ST_OK, Some bytes, [Munmap, Close_fd]))))
   }"

definition st_region_shm_mmap :: "addr sys \<Rightarrow> st_error \<times> addr option" where
  "st_region_shm_mmap mmap_r =
    (case mmap_r of Inl e \<Rightarrow> (Errno e, None) | Inr a \<Rightarrow> (ST_OK, Some a))"

text \<open>
  \<^verbatim>\<open>st_region_shm_create\<close>: the code, the two output parameters if they are written, and the
  actions of the error exit.  The variable \<^verbatim>\<open>ret\<close> still holds the result of
  \<^verbatim>\<open>st_region_shm_mmap\<close> when a call of \<^verbatim>\<open>fcntl\<close> fails.
\<close>

definition st_region_shm_create ::
    "bool \<Rightarrow> int sys \<Rightarrow> unit sys \<Rightarrow> addr sys \<Rightarrow> int sys \<Rightarrow> unit sys
      \<Rightarrow> st_error \<times> (addr \<times> int) option \<times> shm_action list" where
  "st_region_shm_create nonnull open_r ftruncate_r mmap_r getfd_r setfd_r =
    (if \<not> nonnull then (ST_ARG_INVALID, None, []) else case open_r of
       Inl e \<Rightarrow> (Errno e, None, [])
     | Inr fd \<Rightarrow>
         (case ftruncate_r of
            Inl e \<Rightarrow> (Errno e, None, [Close_fd, Unlink])
          | Inr _ \<Rightarrow>
              (case st_region_shm_mmap mmap_r of
                 (ret, None) \<Rightarrow> (ret, None, [Close_fd, Unlink])
               | (ret, Some base) \<Rightarrow>
                   (case getfd_r of
                      Inl _ \<Rightarrow> (ret, None, [Munmap, Close_fd, Unlink])
                    | Inr flag \<Rightarrow>
                        (case setfd_r of
                           Inl _ \<Rightarrow> (ret, None, [Munmap, Close_fd, Unlink])
                         | Inr _ \<Rightarrow> (ST_OK, Some (base, fd), []))))))"

definition sys_err :: "unit sys \<Rightarrow> st_error" where
  "sys_err r = (case r of Inl e \<Rightarrow> Errno e | Inr _ \<Rightarrow> ST_OK)"

definition st_region_shm_destroy ::
    "unit sys \<Rightarrow> unit sys \<Rightarrow> unit sys \<Rightarrow> int \<Rightarrow> bool \<Rightarrow> addr \<Rightarrow> int \<Rightarrow> st_error \<times> shm_action list" where
  "st_region_shm_destroy unlink_r munmap_r close_r shm_fd fn_ok addr len =
    (if \<not> shm_fd > 0 then (ST_ARG_INVALID, [])
     else if \<not> fn_ok then (ST_ARG_INVALID, [])
     else if addr = NULL then (ST_ARG_INVALID, [])
     else if \<not> len > 0 then (ST_ARG_INVALID, [])
     else
       let ret = sys_err unlink_r;
           ret = (if sys_err munmap_r \<noteq> ST_OK \<and> ret = ST_OK then sys_err munmap_r else ret);
           ret = (if sys_err close_r \<noteq> ST_OK \<and> ret = ST_OK then sys_err close_r else ret)
       in (ret, [Unlink, Munmap, Close_fd]))"

section \<open>Regions\<close>

text \<open>The states are 1 and 2 in C; 0 is what \<^verbatim>\<open>memset\<close> leaves behind the last region.\<close>

datatype st_region_state_t = STATE_ZERO | ST_REGION_STATE_FREE | ST_REGION_STATE_BUSY

definition ST_REGION_MAX_NUM :: nat where "ST_REGION_MAX_NUM = 1024"

record st_region =
  rg_base_addr :: addr
  rg_page_size :: int
  rg_reg_cnt :: int
  rg_reg_size :: int
  rg_states :: "st_region_state_t list"
  rg_lock :: mutex
  rg_use_lock :: bool

definition is_reg_state_free :: "st_region_state_t \<Rightarrow> bool" where
  "is_reg_state_free s \<longleftrightarrow> s = ST_REGION_STATE_FREE"

definition is_reg_state_busy :: "st_region_state_t \<Rightarrow> bool" where
  "is_reg_state_busy s \<longleftrightarrow> s = ST_REGION_STATE_BUSY"

definition st_region_init ::
    "int \<Rightarrow> int \<Rightarrow> st_region \<Rightarrow> addr \<Rightarrow> int \<Rightarrow> int \<Rightarrow> int \<Rightarrow> st_error \<times> st_region" where
  "st_region_init os_page_size attr_init rcb base_addr pages_per_reg reg_cnt use_lock =
    (if base_addr = NULL then (ST_ARG_INVALID, rcb)
     else if \<not> reg_cnt > 0 then (ST_ARG_INVALID, rcb)
     else if \<not> reg_cnt \<le> int ST_REGION_MAX_NUM then (ST_ARG_INVALID, rcb)
     else
       let rcb = rcb\<lparr>rg_reg_cnt := reg_cnt, rg_base_addr := base_addr, rg_page_size := os_page_size,
             rg_reg_size := os_page_size * pages_per_reg, rg_use_lock := (use_lock \<noteq> 0),
             rg_states := replicate (nat reg_cnt) ST_REGION_STATE_FREE @
               replicate (ST_REGION_MAX_NUM - nat reg_cnt) STATE_ZERO\<rparr>
       in if use_lock \<noteq> 0 then
            let (ret, lock) = st_robustlock_init attr_init (rg_lock rcb)
            in if ret \<noteq> ST_OK then (ret, rcb\<lparr>rg_lock := lock\<rparr>) else (ST_OK, rcb\<lparr>rg_lock := lock\<rparr>)
          else (ST_OK, rcb))"

definition st_region_destroy :: "st_region \<Rightarrow> st_error \<times> st_region" where
  "st_region_destroy rcb =
    (if rg_use_lock rcb then
       let ret = st_robustlock_destroy (rg_lock rcb)
       in if ret \<noteq> ST_OK then (ret, rcb) else (ST_OK, rcb\<lparr>rg_use_lock := False\<rparr>)
     else (ST_OK, rcb))"

definition st_region_base_addr_by_idx :: "st_region \<Rightarrow> int \<Rightarrow> addr" where
  "st_region_base_addr_by_idx rcb idx =
    (if \<not> 0 \<le> idx then NULL
     else if \<not> idx < rg_reg_cnt rcb then NULL
     else nat ((int (rg_base_addr rcb) + idx * rg_reg_size rcb) mod 2 ^ 64))"

text \<open>The sections between \<^verbatim>\<open>st_region_lock\<close> and \<^verbatim>\<open>st_region_unlock\<close>.\<close>

definition region_section ::
    "pid \<Rightarrow> st_region \<Rightarrow> ('r \<times> st_region_state_t list) option \<Rightarrow> ('r \<times> st_region) option" where
  "region_section t rcb body =
    (if rg_use_lock rcb then do {
       ((r, sts), lock) \<leftarrow> with_lock t (rg_lock rcb) body;
       Some (r, rcb\<lparr>rg_states := sts, rg_lock := lock\<rparr>)
     }
     else do { (r, sts) \<leftarrow> body; Some (r, rcb\<lparr>rg_states := sts\<rparr>) })"

function alloc_loop ::
    "st_region \<Rightarrow> int \<Rightarrow> ((st_error \<times> addr option) \<times> st_region_state_t list) option" where
  "alloc_loop rcb idx =
    (if idx < rg_reg_cnt rcb then
       (if \<not> (0 \<le> idx \<and> nat idx < length (rg_states rcb)) then None
        else if is_reg_state_free (rg_states rcb ! nat idx)
        then Some ((ST_OK, Some (st_region_base_addr_by_idx rcb idx)),
               (rg_states rcb)[nat idx := ST_REGION_STATE_BUSY])
        else alloc_loop rcb (idx + 1))
     else Some ((ST_OUT_OF_MEMORY, None), rg_states rcb))"
  by pat_completeness auto
termination
  by (relation "measure (\<lambda>(rcb, idx). nat (rg_reg_cnt rcb - idx))") auto

declare alloc_loop.simps [simp del]

definition st_region_alloc_reg ::
    "pid \<Rightarrow> st_region \<Rightarrow> ((st_error \<times> addr option) \<times> st_region) option" where
  "st_region_alloc_reg t rcb = region_section t rcb (alloc_loop rcb 0)"

text \<open>The conversion of an unsigned 64-bit quotient to \<^verbatim>\<open>int\<close>.\<close>

definition to_int32 :: "int \<Rightarrow> int" where
  "to_int32 x = (x + 2 ^ 31) mod 2 ^ 32 - 2 ^ 31"

definition free_body ::
    "unit sys \<Rightarrow> st_region \<Rightarrow> addr \<Rightarrow> (st_error \<times> st_region_state_t list) option" where
  "free_body madvise_r rcb addr =
    (if addr < rg_base_addr rcb then Some (ST_ARG_INVALID, rg_states rcb)
     else if rg_reg_size rcb mod 2 ^ 64 = 0 then None
     else
       let idx = to_int32 ((int addr - int (rg_base_addr rcb)) div (rg_reg_size rcb mod 2 ^ 64))
       in if idx \<ge> rg_reg_cnt rcb then Some (ST_OUT_OF_RANGE, rg_states rcb)
          else if st_region_base_addr_by_idx rcb idx \<noteq> addr then Some (ST_ARG_INVALID, rg_states rcb)
          else if \<not> (0 \<le> idx \<and> nat idx < length (rg_states rcb)) then None
          else if is_reg_state_free (rg_states rcb ! nat idx) then Some (ST_OK, rg_states rcb)
          else (case madvise_r of
             Inl e \<Rightarrow> Some (Errno e, rg_states rcb)
           | Inr _ \<Rightarrow> Some (ST_OK, (rg_states rcb)[nat idx := ST_REGION_STATE_FREE])))"

definition st_region_free_reg ::
    "unit sys \<Rightarrow> pid \<Rightarrow> st_region \<Rightarrow> addr \<Rightarrow> (st_error \<times> st_region) option" where
  "st_region_free_reg madvise_r t rcb addr =
    (if addr = NULL then Some (ST_ARG_INVALID, rcb)
     else region_section t rcb (free_body madvise_r rcb addr))"

section \<open>Invariant and abstract view\<close>

text \<open>An initialised control block whose memory lies inside the address space.\<close>

definition region_ok :: "st_region \<Rightarrow> bool" where
  "region_ok rcb \<longleftrightarrow> 0 < rg_reg_cnt rcb \<and> rg_reg_cnt rcb \<le> int ST_REGION_MAX_NUM \<and>
     length (rg_states rcb) = ST_REGION_MAX_NUM \<and> rg_base_addr rcb \<noteq> NULL \<and> 0 < rg_reg_size rcb \<and>
     int (rg_base_addr rcb) + rg_reg_cnt rcb * rg_reg_size rcb < 2 ^ 64 \<and>
     (\<forall>i < nat (rg_reg_cnt rcb). rg_states rcb ! i \<in> {ST_REGION_STATE_FREE, ST_REGION_STATE_BUSY}) \<and>
     (rg_use_lock rcb \<longrightarrow> lock_free (rg_lock rcb))"

text \<open>The start address of a region, and the set of regions in use.\<close>

definition region_addr :: "st_region \<Rightarrow> nat \<Rightarrow> addr" where
  "region_addr rcb i = rg_base_addr rcb + i * nat (rg_reg_size rcb)"

definition busy_regions :: "st_region \<Rightarrow> nat set" where
  "busy_regions rcb = {i. i < nat (rg_reg_cnt rcb) \<and> rg_states rcb ! i = ST_REGION_STATE_BUSY}"

lemma region_init_ok:
  assumes "0 < os_page_size" "0 < pages" "base \<noteq> NULL"
    "int base + cnt * (os_page_size * pages) < 2 ^ 64"
    "st_region_init os_page_size attr rcb base pages cnt use_lock = (ST_OK, rcb')"
  shows "region_ok rcb' \<and> busy_regions rcb' = {}"
  using assms
  by (auto simp: st_region_init_def st_robustlock_init_def region_ok_def busy_regions_def Let_def
      nth_append ST_REGION_MAX_NUM_def split: if_splits prod.splits)

lemma base_addr_region:
  assumes "region_ok rcb" "0 \<le> idx" "idx < rg_reg_cnt rcb"
  shows "st_region_base_addr_by_idx rcb idx = region_addr rcb (nat idx)"
proof -
  have "int (rg_base_addr rcb) + rg_reg_cnt rcb * rg_reg_size rcb < 2 ^ 64" "0 < rg_reg_size rcb"
    using assms(1) by (simp_all add: region_ok_def)
  moreover from this have "idx * rg_reg_size rcb \<le> rg_reg_cnt rcb * rg_reg_size rcb"
    using assms by (intro mult_right_mono) auto
  ultimately have "int (rg_base_addr rcb) + idx * rg_reg_size rcb < 2 ^ 64" by linarith
  moreover have "0 \<le> idx * rg_reg_size rcb" using assms by (simp add: region_ok_def)
  ultimately show ?thesis
    using assms by (simp add: st_region_base_addr_by_idx_def region_addr_def nat_add_distrib
        nat_mult_distrib)
qed

lemma region_addr_inj: "region_ok rcb \<Longrightarrow> region_addr rcb i = region_addr rcb j \<longleftrightarrow> i = j"
  by (auto simp: region_addr_def region_ok_def)

lemma section_ok:
  assumes "region_ok rcb"
  shows "\<exists>lock. region_section t rcb (Some (r, sts)) =
      Some (r, rcb\<lparr>rg_states := sts, rg_lock := lock\<rparr>) \<and> (rg_use_lock rcb \<longrightarrow> lock_free lock)"
proof (cases "rg_use_lock rcb")
  case True
  then show ?thesis
    using assms with_lock_ok[of "rg_lock rcb" t "(r, sts)"]
    by (auto simp: region_section_def region_ok_def)
next
  case False
  then show ?thesis by (intro exI[of _ "rg_lock rcb"]) (simp add: region_section_def)
qed

text \<open>The part of the control block that no operation changes.\<close>

definition same_layout :: "st_region \<Rightarrow> st_region \<Rightarrow> bool" where
  "same_layout rcb rcb' \<longleftrightarrow> rg_base_addr rcb' = rg_base_addr rcb \<and> rg_reg_size rcb' = rg_reg_size rcb \<and>
     rg_reg_cnt rcb' = rg_reg_cnt rcb \<and> rg_page_size rcb' = rg_page_size rcb \<and> rg_use_lock rcb' = rg_use_lock rcb"

lemma region_ok_cong:
  assumes "region_ok rcb" "same_layout rcb rcb'" "length (rg_states rcb') = length (rg_states rcb)"
    "\<And>i. i < nat (rg_reg_cnt rcb) \<Longrightarrow> rg_states rcb' ! i \<in> {ST_REGION_STATE_FREE, ST_REGION_STATE_BUSY}"
    "rg_use_lock rcb \<longrightarrow> lock_free (rg_lock rcb')"
  shows "region_ok rcb'"
  using assms by (simp add: region_ok_def same_layout_def)

lemma region_ok_states: "region_ok rcb \<Longrightarrow> i < nat (rg_reg_cnt rcb) \<Longrightarrow>
    i < length (rg_states rcb) \<and> rg_states rcb ! i \<in> {ST_REGION_STATE_FREE, ST_REGION_STATE_BUSY}"
  unfolding region_ok_def by (intro conjI) (linarith, blast)

lemma section_same:
  assumes "region_ok rcb"
  shows "\<exists>rcb'. region_section t rcb (Some (r, rg_states rcb)) = Some (r, rcb') \<and> region_ok rcb' \<and>
    same_layout rcb rcb' \<and> busy_regions rcb' = busy_regions rcb"
proof -
  obtain lock where lock: "region_section t rcb (Some (r, rg_states rcb)) =
      Some (r, rcb\<lparr>rg_states := rg_states rcb, rg_lock := lock\<rparr>)" "rg_use_lock rcb \<longrightarrow> lock_free lock"
    using section_ok[OF assms, of t r "rg_states rcb"] by (elim exE conjE)
  let ?r = "rcb\<lparr>rg_states := rg_states rcb, rg_lock := lock\<rparr>"
  have "same_layout rcb ?r" by (simp add: same_layout_def)
  moreover from this have "region_ok ?r"
    by (rule region_ok_cong[OF assms]) (use region_ok_states[OF assms] lock in simp_all)
  moreover have "busy_regions ?r = busy_regions rcb" by (simp add: busy_regions_def)
  ultimately show ?thesis using lock(1) by blast
qed

lemma section_set:
  assumes "region_ok rcb" "i < nat (rg_reg_cnt rcb)" "s \<in> {ST_REGION_STATE_FREE, ST_REGION_STATE_BUSY}"
  shows "\<exists>rcb'. region_section t rcb (Some (r, (rg_states rcb)[i := s])) = Some (r, rcb') \<and> region_ok rcb' \<and>
    same_layout rcb rcb' \<and>
    busy_regions rcb' = (if s = ST_REGION_STATE_BUSY then insert i (busy_regions rcb) else busy_regions rcb - {i})"
proof -
  obtain lock where lock: "region_section t rcb (Some (r, (rg_states rcb)[i := s])) =
      Some (r, rcb\<lparr>rg_states := (rg_states rcb)[i := s], rg_lock := lock\<rparr>)" "rg_use_lock rcb \<longrightarrow> lock_free lock"
    using section_ok[OF assms(1), of t r "(rg_states rcb)[i := s]"] by (elim exE conjE)
  let ?r = "rcb\<lparr>rg_states := (rg_states rcb)[i := s], rg_lock := lock\<rparr>"
  have len: "i < length (rg_states rcb)" using region_ok_states[OF assms(1,2)] by blast
  have "same_layout rcb ?r" by (simp add: same_layout_def)
  moreover from this have "region_ok ?r"
  proof (rule region_ok_cong[OF assms(1)])
    show "rg_states ?r ! j \<in> {ST_REGION_STATE_FREE, ST_REGION_STATE_BUSY}" if "j < nat (rg_reg_cnt rcb)" for j
      using region_ok_states[OF assms(1) that] assms(3) by (cases "j = i") simp_all
  qed (use lock in simp_all)
  moreover have "busy_regions ?r =
      (if s = ST_REGION_STATE_BUSY then insert i (busy_regions rcb) else busy_regions rcb - {i})"
  proof (rule set_eqI)
    fix j
    show "j \<in> busy_regions ?r \<longleftrightarrow> j \<in> (if s = ST_REGION_STATE_BUSY then insert i (busy_regions rcb)
        else busy_regions rcb - {i})"
      using len assms(2) by (cases "j = i") (simp_all add: busy_regions_def)
  qed
  ultimately show ?thesis using lock(1) by (intro exI[of _ ?r] conjI)
qed

section \<open>Correctness\<close>

lemma alloc_loop_full:
  assumes "region_ok rcb" "busy_regions rcb = {..<nat (rg_reg_cnt rcb)}"
  shows "idx \<le> nat (rg_reg_cnt rcb) \<Longrightarrow>
    alloc_loop rcb (int idx) = Some ((ST_OUT_OF_MEMORY, None), rg_states rcb)"
proof (induction "nat (rg_reg_cnt rcb) - idx" arbitrary: idx)
  case 0
  then have "\<not> int idx < rg_reg_cnt rcb" by linarith
  then show ?case by (subst alloc_loop.simps) simp
next
  case (Suc n)
  then have i: "idx < nat (rg_reg_cnt rcb)" "int idx < rg_reg_cnt rcb" by auto
  then have "rg_states rcb ! idx = ST_REGION_STATE_BUSY" "idx < length (rg_states rcb)"
    using assms by (auto simp: region_ok_def busy_regions_def)
  then have "alloc_loop rcb (int idx) = alloc_loop rcb (int (Suc idx))"
    using i by (subst alloc_loop.simps) (simp add: is_reg_state_free_def add.commute)
  then show ?case using Suc.hyps(1)[of "Suc idx"] Suc.hyps(2) i by simp
qed

lemma alloc_loop_free:
  assumes "region_ok rcb" "i < nat (rg_reg_cnt rcb)" "{..<i} \<subseteq> busy_regions rcb" "i \<notin> busy_regions rcb"
  shows "idx \<le> i \<Longrightarrow> alloc_loop rcb (int idx) = Some ((ST_OK, Some (region_addr rcb i)),
     (rg_states rcb)[i := ST_REGION_STATE_BUSY])"
proof (induction "i - idx" arbitrary: idx)
  case 0
  then have "idx = i" by simp
  moreover have "rg_states rcb ! i = ST_REGION_STATE_FREE" "i < length (rg_states rcb)"
    using assms by (auto simp: region_ok_def busy_regions_def)
  moreover have "int i < rg_reg_cnt rcb" using assms(2) by linarith
  ultimately show ?case
    using base_addr_region[OF assms(1), of "int i"]
    by (subst alloc_loop.simps) (simp add: is_reg_state_free_def)
next
  case (Suc n)
  then have i: "idx < i" by simp
  then have "rg_states rcb ! idx = ST_REGION_STATE_BUSY" "idx < length (rg_states rcb)"
    "int idx < rg_reg_cnt rcb"
    using assms by (auto simp: region_ok_def busy_regions_def)
  then have "alloc_loop rcb (int idx) = alloc_loop rcb (int (Suc idx))"
    by (subst alloc_loop.simps) (simp add: is_reg_state_free_def add.commute)
  then show ?case using Suc.hyps(1)[of "Suc idx"] Suc.hyps(2) i by simp
qed

lemma first_free_region:
  assumes "busy_regions rcb \<noteq> {..<nat (rg_reg_cnt rcb)}"
  shows "\<exists>i < nat (rg_reg_cnt rcb). {..<i} \<subseteq> busy_regions rcb \<and> i \<notin> busy_regions rcb"
proof -
  have "busy_regions rcb \<subseteq> {..<nat (rg_reg_cnt rcb)}" by (auto simp: busy_regions_def)
  then obtain j where j: "j < nat (rg_reg_cnt rcb) \<and> j \<notin> busy_regions rcb" using assms by blast
  let ?i = "LEAST j. j < nat (rg_reg_cnt rcb) \<and> j \<notin> busy_regions rcb"
  have i: "?i < nat (rg_reg_cnt rcb) \<and> ?i \<notin> busy_regions rcb"
    using j by (rule LeastI)
  have "k \<in> busy_regions rcb" if "k < ?i" for k
    using not_less_Least[OF that] less_trans[OF that] i by blast
  then have "{..<?i} \<subseteq> busy_regions rcb" by blast
  with i show ?thesis by blast
qed

lemma region_alloc:
  assumes "region_ok rcb"
  shows "\<exists>ret addr rcb'. st_region_alloc_reg t rcb = Some ((ret, addr), rcb') \<and> region_ok rcb' \<and>
    same_layout rcb rcb' \<and>
    (if busy_regions rcb = {..<nat (rg_reg_cnt rcb)}
     then ret = ST_OUT_OF_MEMORY \<and> addr = None \<and> busy_regions rcb' = busy_regions rcb
     else \<exists>i < nat (rg_reg_cnt rcb). {..<i} \<subseteq> busy_regions rcb \<and> i \<notin> busy_regions rcb \<and>
       ret = ST_OK \<and> addr = Some (region_addr rcb i) \<and>
       busy_regions rcb' = insert i (busy_regions rcb))"
proof (cases "busy_regions rcb = {..<nat (rg_reg_cnt rcb)}")
  case True
  then show ?thesis
    using alloc_loop_full[OF assms True, of 0] section_same[OF assms, of t "(ST_OUT_OF_MEMORY, None)"]
    by (auto simp: st_region_alloc_reg_def)
next
  case False
  then obtain i where i: "i < nat (rg_reg_cnt rcb)" "{..<i} \<subseteq> busy_regions rcb" "i \<notin> busy_regions rcb"
    using first_free_region by blast
  then show ?thesis
    using False alloc_loop_free[OF assms i, of 0]
      section_set[OF assms i(1), of ST_REGION_STATE_BUSY t "(ST_OK, Some (region_addr rcb i))"]
    by (auto simp: st_region_alloc_reg_def)
qed

text \<open>
  Allocating a region always returns and keeps the invariant, the lock included.  When every
  region is busy it returns \<^verbatim>\<open>ST_OUT_OF_MEMORY\<close> and no region changes; otherwise it returns
  \<^verbatim>\<open>ST_OK\<close> and the start address of the first free region, which alone becomes busy.
\<close>

theorem region_alloc_correct:
  assumes "region_ok rcb"
  shows "\<exists>ret addr rcb'. st_region_alloc_reg t rcb = Some ((ret, addr), rcb') \<and> region_ok rcb' \<and>
    same_layout rcb rcb' \<and>
    (if busy_regions rcb = {..<nat (rg_reg_cnt rcb)}
     then ret = ST_OUT_OF_MEMORY \<and> addr = None \<and> busy_regions rcb' = busy_regions rcb
     else \<exists>i < nat (rg_reg_cnt rcb). {..<i} \<subseteq> busy_regions rcb \<and> i \<notin> busy_regions rcb \<and>
       ret = ST_OK \<and> addr = Some (rg_base_addr rcb + i * nat (rg_reg_size rcb)) \<and>
       busy_regions rcb' = insert i (busy_regions rcb))"
  using region_alloc[OF assms, of t, unfolded region_addr_def] .

definition two_regions :: st_region where
  "two_regions = \<lparr>rg_base_addr = 4096, rg_page_size = 4096, rg_reg_cnt = 2, rg_reg_size = 4096,
     rg_states = [ST_REGION_STATE_BUSY, ST_REGION_STATE_FREE] @ replicate 1022 STATE_ZERO,
     rg_lock = mutex_new, rg_use_lock = False\<rparr>"

lemma two_regions_ok: "region_ok two_regions"
  by (auto simp: region_ok_def two_regions_def ST_REGION_MAX_NUM_def nth_Cons' numeral_2_eq_2 less_Suc_eq)

lemma two_regions_busy: "busy_regions two_regions = {0}"
  by (auto simp: busy_regions_def two_regions_def nth_Cons' numeral_2_eq_2 less_Suc_eq)

lemma two_regions_full: "\<not> {0} = {..<nat (rg_reg_cnt two_regions)}"
proof -
  have "1 \<in> {..<nat (rg_reg_cnt two_regions)}" "(1::nat) \<notin> {0}" by (simp_all add: two_regions_def)
  then show ?thesis by metis
qed

theorem region_alloc_correct_witness:
  "\<exists>rcb'. st_region_alloc_reg 1 two_regions = Some ((ST_OK, Some 8192), rcb') \<and> busy_regions rcb' = {0, 1}"
proof -
  obtain rcb' i where r: "st_region_alloc_reg 1 two_regions =
      Some ((ST_OK, Some (rg_base_addr two_regions + i * nat (rg_reg_size two_regions))), rcb')"
    "i < nat (rg_reg_cnt two_regions)" "i \<notin> {0}" "busy_regions rcb' = insert i {0}"
    using region_alloc_correct[OF two_regions_ok, of 1]
    unfolding two_regions_busy if_not_P[OF two_regions_full] by (elim exE conjE) (rule that, simp_all)
  then have "i = 1" by (simp add: two_regions_def)
  with r show ?thesis by (simp add: two_regions_def insert_commute)
qed

lemma free_body_start:
  assumes "region_ok rcb" "i < nat (rg_reg_cnt rcb)"
  shows "free_body madvise_r rcb (region_addr rcb i) =
    (if i \<in> busy_regions rcb
     then (case madvise_r of Inl e \<Rightarrow> Some (Errno e, rg_states rcb)
       | Inr _ \<Rightarrow> Some (ST_OK, (rg_states rcb)[i := ST_REGION_STATE_FREE]))
     else Some (ST_OK, rg_states rcb))"
proof -
  have sz: "0 < rg_reg_size rcb" "rg_reg_cnt rcb \<le> 1024"
    and "int (rg_base_addr rcb) + rg_reg_cnt rcb * rg_reg_size rcb < 2 ^ 64"
    using assms(1) by (simp_all add: region_ok_def ST_REGION_MAX_NUM_def)
  moreover have i: "int i < rg_reg_cnt rcb" "int i < 1024" using assms(2) sz by linarith+
  moreover have "rg_reg_size rcb \<le> rg_reg_cnt rcb * rg_reg_size rcb"
    using i sz(1) by (simp add: mult_le_cancel_right1)
  ultimately have m: "rg_reg_size rcb mod 2 ^ 64 = rg_reg_size rcb" by (intro mod_pos_pos_trivial) linarith+
  have "(int (region_addr rcb i) - int (rg_base_addr rcb)) div rg_reg_size rcb = int i"
    using sz by (simp add: region_addr_def)
  moreover have "to_int32 (int i) = int i" using i by (simp add: to_int32_def)
  ultimately have idx: "to_int32 ((int (region_addr rcb i) - int (rg_base_addr rcb)) div (rg_reg_size rcb mod 2 ^ 64)) =
      int i" by (simp only: m)
  have st: "i < length (rg_states rcb)" "rg_states rcb ! i = ST_REGION_STATE_BUSY \<longleftrightarrow> i \<in> busy_regions rcb"
    "rg_states rcb ! i = ST_REGION_STATE_FREE \<longleftrightarrow> i \<notin> busy_regions rcb"
    using region_ok_states[OF assms] assms(2) by (auto simp: busy_regions_def)
  have "\<not> region_addr rcb i < rg_base_addr rcb" by (simp add: region_addr_def)
  moreover have "rg_reg_size rcb mod 2 ^ 64 \<noteq> 0" using m sz by linarith
  ultimately show ?thesis
    using i st base_addr_region[OF assms(1), of "int i"]
    unfolding free_body_def Let_def idx is_reg_state_free_def by (simp split: sum.split)
qed

lemma free_body_other:
  assumes "region_ok rcb" "\<And>i. i < nat (rg_reg_cnt rcb) \<Longrightarrow> addr \<noteq> region_addr rcb i" "addr \<noteq> NULL"
  shows "\<exists>ret \<in> {ST_ARG_INVALID, ST_OUT_OF_RANGE}. free_body madvise_r rcb addr = Some (ret, rg_states rcb)"
proof -
  have sz: "0 < rg_reg_size rcb" "rg_reg_cnt rcb > 0"
    and "int (rg_base_addr rcb) + rg_reg_cnt rcb * rg_reg_size rcb < 2 ^ 64"
    using assms(1) by (simp_all add: region_ok_def)
  moreover from this have "rg_reg_size rcb \<le> rg_reg_cnt rcb * rg_reg_size rcb"
    by (simp add: mult_le_cancel_right1)
  ultimately have "rg_reg_size rcb mod 2 ^ 64 = rg_reg_size rcb" by (intro mod_pos_pos_trivial) linarith+
  then have m: "rg_reg_size rcb mod 2 ^ 64 \<noteq> 0" using sz by linarith
  have "st_region_base_addr_by_idx rcb idx \<noteq> addr" for idx
  proof (cases "0 \<le> idx \<and> idx < rg_reg_cnt rcb")
    case True
    then have "nat idx < nat (rg_reg_cnt rcb)" by simp
    then show ?thesis using base_addr_region[OF assms(1)] True assms(2) by metis
  next
    case False
    then show ?thesis using assms(3) by (auto simp: st_region_base_addr_by_idx_def)
  qed
  then show ?thesis using m unfolding free_body_def Let_def by simp
qed

lemma region_free_start:
  assumes "region_ok rcb" "i < nat (rg_reg_cnt rcb)"
  shows "\<exists>ret rcb'. st_region_free_reg madvise_r t rcb (region_addr rcb i) = Some (ret, rcb') \<and> region_ok rcb' \<and>
    same_layout rcb rcb' \<and>
    (if i \<in> busy_regions rcb
     then (case madvise_r of
         Inl e \<Rightarrow> ret = Errno e \<and> busy_regions rcb' = busy_regions rcb
       | Inr _ \<Rightarrow> ret = ST_OK \<and> busy_regions rcb' = busy_regions rcb - {i})
     else ret = ST_OK \<and> busy_regions rcb' = busy_regions rcb)"
proof -
  have "region_addr rcb i \<noteq> NULL" using assms by (simp add: region_addr_def region_ok_def)
  then have free: "st_region_free_reg madvise_r t rcb (region_addr rcb i) =
      region_section t rcb (free_body madvise_r rcb (region_addr rcb i))" by (simp add: st_region_free_reg_def)
  note body = free_body_start[OF assms, of madvise_r]
  show ?thesis
  proof (cases "i \<in> busy_regions rcb")
    case False
    then show ?thesis using section_same[OF assms(1), of t ST_OK] unfolding free body by simp
  next
    case True
    then show ?thesis
      using section_set[OF assms, of ST_REGION_STATE_FREE t ST_OK] section_same[OF assms(1), of t "Errno (projl madvise_r)"]
      unfolding free body by (cases madvise_r) simp_all
  qed
qed

lemma region_free_other:
  assumes "region_ok rcb" "\<And>i. i < nat (rg_reg_cnt rcb) \<Longrightarrow> addr \<noteq> region_addr rcb i"
  shows "\<exists>ret rcb'. st_region_free_reg madvise_r t rcb addr = Some (ret, rcb') \<and> region_ok rcb' \<and>
    same_layout rcb rcb' \<and> busy_regions rcb' = busy_regions rcb \<and> ret \<in> {ST_ARG_INVALID, ST_OUT_OF_RANGE}"
proof (cases "addr = NULL")
  case True
  then show ?thesis using assms by (simp add: st_region_free_reg_def same_layout_def)
next
  case False
  then obtain ret where "ret \<in> {ST_ARG_INVALID, ST_OUT_OF_RANGE}"
    "free_body madvise_r rcb addr = Some (ret, rg_states rcb)"
    using free_body_other[OF assms, of madvise_r] by blast
  then show ?thesis
    using section_same[OF assms(1), of t ret] False by (fastforce simp: st_region_free_reg_def)
qed

lemma region_free:
  assumes "region_ok rcb"
  shows "\<exists>ret rcb'. st_region_free_reg madvise_r t rcb addr = Some (ret, rcb') \<and> region_ok rcb' \<and>
    same_layout rcb rcb' \<and>
    (if \<exists>i \<in> busy_regions rcb. addr = region_addr rcb i
     then (case madvise_r of
         Inl e \<Rightarrow> ret = Errno e \<and> busy_regions rcb' = busy_regions rcb
       | Inr _ \<Rightarrow> ret = ST_OK \<and>
           busy_regions rcb' = {i \<in> busy_regions rcb. addr \<noteq> region_addr rcb i})
     else busy_regions rcb' = busy_regions rcb \<and>
       (ret = ST_OK \<longleftrightarrow> (\<exists>i < nat (rg_reg_cnt rcb). addr = region_addr rcb i)) \<and>
       ret \<in> {ST_OK, ST_ARG_INVALID, ST_OUT_OF_RANGE})"
proof (cases "\<exists>i < nat (rg_reg_cnt rcb). addr = region_addr rcb i")
  case True
  then obtain i where i: "i < nat (rg_reg_cnt rcb)" "addr = region_addr rcb i" by blast
  have inj: "region_addr rcb i = region_addr rcb j \<longleftrightarrow> j = i" for j
    using region_addr_inj[OF assms, of i j] by auto
  have busy: "{j \<in> busy_regions rcb. j \<noteq> i} = busy_regions rcb - {i}" by blast
  show ?thesis
    using region_free_start[OF assms i(1), of madvise_r t] i(1)
    unfolding i(2) inj busy by (cases "i \<in> busy_regions rcb") auto
next
  case False
  then have "\<not> (\<exists>i \<in> busy_regions rcb. addr = region_addr rcb i)" by (auto simp: busy_regions_def)
  with False region_free_other[OF assms, of addr madvise_r t] show ?thesis by auto
qed

text \<open>
  C33: Freeing a region returns for every address and keeps the invariant, the lock included.  The
  start address of a busy region makes that region, and no other, free again, unless \<^verbatim>\<open>madvise\<close> fails,
  whose error is then returned with the region still busy; the start of a free region is accepted
  and changes nothing; every other address, null included, is refused and changes nothing.
\<close>

theorem region_free_correct:
  assumes "region_ok rcb"
  shows "\<exists>ret rcb'. st_region_free_reg madvise_r t rcb addr = Some (ret, rcb') \<and> region_ok rcb' \<and>
    same_layout rcb rcb' \<and>
    (if \<exists>i \<in> busy_regions rcb. addr = rg_base_addr rcb + i * nat (rg_reg_size rcb)
     then (case madvise_r of
         Inl e \<Rightarrow> ret = Errno e \<and> busy_regions rcb' = busy_regions rcb
       | Inr _ \<Rightarrow> ret = ST_OK \<and>
           busy_regions rcb' = {i \<in> busy_regions rcb. addr \<noteq> rg_base_addr rcb + i * nat (rg_reg_size rcb)})
     else busy_regions rcb' = busy_regions rcb \<and>
       (ret = ST_OK \<longleftrightarrow> (\<exists>i < nat (rg_reg_cnt rcb). addr = rg_base_addr rcb + i * nat (rg_reg_size rcb))) \<and>
       ret \<in> {ST_OK, ST_ARG_INVALID, ST_OUT_OF_RANGE})"
  using region_free[OF assms, of madvise_r t addr, unfolded region_addr_def] .

theorem region_free_correct_witness:
  "\<exists>rcb'. st_region_free_reg (Inr ()) 1 two_regions 4096 = Some (ST_OK, rcb') \<and> busy_regions rcb' = {}"
  using region_free_correct[OF two_regions_ok, of "Inr ()" 1 4096]
  unfolding two_regions_busy by (auto simp: two_regions_def)



end
