(* ===== verification/Pagepool.thy ===== *)
theory Pagepool
  imports Rbtree_Search St_List St_Array Region
begin

text \<open>
  \<^verbatim>\<open>src/pagepool/pagepool.h\<close> and \<^verbatim>\<open>src/pagepool/pagepool.c\<close>: regions are cut into pages, runs of
  pages (compound pages) are allocated, split, freed and merged again.

  The descriptors of the pages lie at the start of their region, 144 bytes each.  A descriptor
  embeds a tree node (offset 80) and a list node (offset 112); the store keeps the plain fields,
  the tree nodes and the list nodes in three maps, each indexed by the address of the object.
  \<^verbatim>\<open>compound_page_cnt\<close> is an \<^verbatim>\<open>int16_t\<close>: every write to it goes through \<open>to_int16\<close>.

  Free runs of the same length share one node of the tree \<^verbatim>\<open>free_pages\<close>; the list node of that run
  is the head of the list of the others.
\<close>

section \<open>Data\<close>

definition ST_PAGEPOOL_PAGE_FREE :: int where "ST_PAGEPOOL_PAGE_FREE = 0"
definition ST_PAGEPOOL_PAGE_ALLOCATED :: int where "ST_PAGEPOOL_PAGE_ALLOCATED = 1"
definition ST_PAGEPOOL_PAGE_MASTER :: int where "ST_PAGEPOOL_PAGE_MASTER = 0"
definition ST_PAGEPOOL_PAGE_SLAVE :: int where "ST_PAGEPOOL_PAGE_SLAVE = 1"
definition ST_PAGEPOOL_MAX_REGION_CNT :: int where "ST_PAGEPOOL_MAX_REGION_CNT = 1024"
definition ST_PAGEPOOL_MAX_SLAB_CHUNK_CNT :: nat where "ST_PAGEPOOL_MAX_SLAB_CHUNK_CNT = 8"

text \<open>The plain fields of a descriptor; \<open>pg_master\<close> is the union of \<^verbatim>\<open>master\<close> and \<^verbatim>\<open>group\<close>.\<close>

record st_pagepool_page =
  pg_bitmap :: "u64 list"
  pg_obj_size :: int
  pg_master :: addr
  pg_region :: addr
  pg_state :: int
  pg_type :: int
  pg_compound_page_cnt :: int

type_synonym pages = "addr \<Rightarrow> st_pagepool_page"

record page_mem =
  pm_pages :: pages
  pm_rb :: rbmem
  pm_list :: lmem

record st_pagepool =
  pp_regions :: "addr st_array"
  pp_regions_lock :: mutex
  pp_free_pages :: st_rbtree
  pp_pages_lock :: mutex
  pp_page_size :: int
  pp_region_size :: int
  pp_pages_per_region :: int
  pp_space_base_offset :: int
  pp_region_cb :: st_region

definition sizeof_page :: nat where "sizeof_page = 144"

text \<open>The embedded nodes and \<^verbatim>\<open>st_owner\<close> / \<^verbatim>\<open>st_list_entry\<close> for them; \<^verbatim>\<open>pages[i]\<close> and \<^verbatim>\<open>pages + i\<close>.\<close>

definition page_rb :: "addr \<Rightarrow> addr" where "page_rb p = p + 80"
definition page_ln :: "addr \<Rightarrow> addr" where "page_ln p = p + 112"
definition owner_rb :: "addr \<Rightarrow> addr" where "owner_rb a = a - 80"
definition owner_ln :: "addr \<Rightarrow> addr" where "owner_ln a = a - 112"
definition page_add :: "addr \<Rightarrow> int \<Rightarrow> addr" where
  "page_add p i = nat (int p + int sizeof_page * i)"

definition to_int16 :: "int \<Rightarrow> int" where
  "to_int16 x = (x + 2 ^ 15) mod 2 ^ 16 - 2 ^ 15"

definition zero_page :: st_pagepool_page where
  "zero_page = \<lparr>pg_bitmap = replicate ST_PAGEPOOL_MAX_SLAB_CHUNK_CNT 0, pg_obj_size = 0, pg_master = NULL,
     pg_region = NULL, pg_state = 0, pg_type = 0, pg_compound_page_cnt = 0\<rparr>"

text \<open>\<^verbatim>\<open>for (int i = 0; i < n; i++)\<close> over the descriptors \<^verbatim>\<open>base[i]\<close> in one of the maps.\<close>

definition for_pages :: "int \<Rightarrow> addr \<Rightarrow> (addr \<Rightarrow> addr) \<Rightarrow> ('a \<Rightarrow> 'a) \<Rightarrow> (addr \<Rightarrow> 'a) \<Rightarrow> (addr \<Rightarrow> 'a)" where
  "for_pages n base fld f m =
    fold (\<lambda>i m. m(fld (page_add base (int i)) := f (m (fld (page_add base (int i)))))) [0..<nat n] m"

section \<open>Regions of the pool\<close>

definition st_pagepool_cmp_region_addr :: "addr \<Rightarrow> addr \<Rightarrow> int" where
  "st_pagepool_cmp_region_addr reg_a_addr reg_b_addr = st_cmp reg_a_addr reg_b_addr"

text \<open>A static array never calls its \<^verbatim>\<open>realloc\<close>.\<close>

definition no_realloc :: "addr realloc_fun" where "no_realloc p xs es cap = None"

definition st_pagepool_add_region :: "pid \<Rightarrow> st_pagepool \<Rightarrow> addr \<Rightarrow> (st_error \<times> st_pagepool) option" where
  "st_pagepool_add_region t pool region = do {
     ((ret, regions), lock) \<leftarrow> with_lock t (pp_regions_lock pool) (do {
       (ret, idx) \<leftarrow> st_array_bsearch_right (pp_regions pool) (Some region) None;
       if ret = ST_OK then None
       else if ret \<noteq> ST_NOT_FOUND then Some (ret, pp_regions pool)
       else st_array_insert_many no_realloc (pp_regions pool) idx (Some [region]) 1
     });
     Some (ret, pool\<lparr>pp_regions := regions, pp_regions_lock := lock\<rparr>)
   }"

definition st_pagepool_remove_region :: "pid \<Rightarrow> st_pagepool \<Rightarrow> addr \<Rightarrow> (st_error \<times> st_pagepool) option" where
  "st_pagepool_remove_region t pool region = do {
     ((ret, regions), lock) \<leftarrow> with_lock t (pp_regions_lock pool) (do {
       (ret, idx) \<leftarrow> st_array_bsearch_left (pp_regions pool) (Some region) None;
       if ret \<noteq> ST_OK then Some (ret, pp_regions pool)
       else do {
         regions \<leftarrow> st_array_remove_many (pp_regions pool) idx 1;
         Some (ret, regions)
       }
     });
     Some (ret, pool\<lparr>pp_regions := regions, pp_regions_lock := lock\<rparr>)
   }"

definition st_pagepool_get_region ::
    "pid \<Rightarrow> st_pagepool \<Rightarrow> addr \<Rightarrow> (st_error \<times> addr option \<times> st_pagepool) option" where
  "st_pagepool_get_region t pool addr = do {
     ((ret, region), lock) \<leftarrow> with_lock t (pp_regions_lock pool) (do {
       (ret, idx) \<leftarrow> st_array_bsearch_left (pp_regions pool) (Some addr) None;
       if ret = ST_OK then Some (ret, Some addr)
       else if ret \<noteq> ST_NOT_FOUND then Some (ret, None)
       else if idx = 0 then Some (ST_NOT_FOUND, None)
       else do {
         reg \<leftarrow> cell_at (pp_regions pool) (idx - 1);
         Some (if reg < addr \<and> int addr < int reg + pp_region_size pool then (ST_OK, Some reg) else (ret, None))
       }
     });
     Some (ret, region, pool\<lparr>pp_regions_lock := lock\<rparr>)
   }"

section \<open>Free runs\<close>

text \<open>The comparison reads the owners of the two tree nodes.\<close>

definition st_pagepool_cmp_compound_page :: "pages \<Rightarrow> addr \<Rightarrow> addr \<Rightarrow> int" where
  "st_pagepool_cmp_compound_page pages a b =
    (let pa = owner_rb a; pb = owner_rb b
     in st_cmp (pg_compound_page_cnt (pages pa)) (pg_compound_page_cnt (pages pb)))"

definition st_pagepool_init_region :: "st_pagepool \<Rightarrow> page_mem \<Rightarrow> addr \<Rightarrow> page_mem option" where
  "st_pagepool_init_region pool mem region = do {
     st_assert (region \<noteq> NULL);
     let n = pp_pages_per_region pool;
     let pages = for_pages n region id (\<lambda>_. zero_page) (pm_pages mem);
     let rb = for_pages n region page_rb (\<lambda>_. st_rbtree_node_empty) (pm_rb mem);
     let ln = for_pages n region page_ln (\<lambda>_. \<lparr>l_prev = NULL, l_next = NULL\<rparr>) (pm_list mem);
     let pages = for_pages n region id (\<lambda>pg. pg\<lparr>pg_region := region, pg_state := ST_PAGEPOOL_PAGE_FREE,
       pg_type := ST_PAGEPOOL_PAGE_SLAVE, pg_compound_page_cnt := to_int16 n\<rparr>) pages;
     pages \<leftarrow> upd pages region (\<lambda>pg. pg\<lparr>pg_type := ST_PAGEPOOL_PAGE_MASTER\<rparr>);
     Some \<lparr>pm_pages = pages, pm_rb = rb, pm_list = ln\<rparr>
   }"

definition st_pagepool_add_pages ::
    "st_pagepool \<Rightarrow> page_mem \<Rightarrow> addr \<Rightarrow> (st_pagepool \<times> page_mem) option" where
  "st_pagepool_add_pages pool mem master = do {
     let cmp = st_pagepool_cmp_compound_page (pm_pages mem);
     n \<leftarrow> st_rbtree_search cmp (pp_free_pages pool) (pm_rb mem) (page_rb master) ST_SIDE_EQ;
     if n = NULL then do {
       (ret, tree, rb, existed) \<leftarrow> st_rbtree_insert cmp (pp_free_pages pool) (pm_rb mem) (page_rb master) 1;
       ln \<leftarrow> st_list_init (pm_list mem) (page_ln master);
       Some (pool\<lparr>pp_free_pages := tree\<rparr>, mem\<lparr>pm_rb := rb, pm_list := ln\<rparr>)
     }
     else do {
       let found = owner_rb n;
       ln \<leftarrow> st_list_insert_last (pm_list mem) (page_ln found) (page_ln master);
       Some (pool, mem\<lparr>pm_list := ln\<rparr>)
     }
   }"

definition st_pagepool_remove_pages ::
    "st_pagepool \<Rightarrow> page_mem \<Rightarrow> addr \<Rightarrow> (st_pagepool \<times> page_mem) option" where
  "st_pagepool_remove_pages pool mem master = do {
     inited \<leftarrow> st_rbtree_node_is_inited (pm_rb mem) (page_rb master);
     if \<not> inited then do {
       ln \<leftarrow> st_list_remove (pm_list mem) (page_ln master);
       Some (pool, mem\<lparr>pm_list := ln\<rparr>)
     }
     else do {
       empty \<leftarrow> st_list_empty (pm_list mem) (page_ln master);
       if empty then do {
         (ret, tree, rb) \<leftarrow> st_rbtree_delete (pp_free_pages pool) (pm_rb mem) (page_rb master);
         Some (pool\<lparr>pp_free_pages := tree\<rparr>, mem\<lparr>pm_rb := rb\<rparr>)
       }
       else do {
         first \<leftarrow> st_list_first (pm_list mem) (page_ln master);
         let candidate = owner_ln first;
         ln \<leftarrow> st_list_remove (pm_list mem) (page_ln master);
         (ret, tree, rb) \<leftarrow> st_rbtree_replace (st_pagepool_cmp_compound_page (pm_pages mem))
           (pp_free_pages pool) (pm_rb mem) (page_rb master) (page_rb candidate);
         st_assert (ret = ST_OK);
         Some (pool\<lparr>pp_free_pages := tree\<rparr>, mem\<lparr>pm_rb := rb, pm_list := ln\<rparr>)
       }
     }
   }"

definition st_pagepool_prev_pages :: "pages \<Rightarrow> addr \<Rightarrow> addr" where
  "st_pagepool_prev_pages pages master =
    (if master = pg_region (pages master) then NULL
     else page_add master (- pg_compound_page_cnt (pages (page_add master (- 1)))))"

definition st_pagepool_next_pages :: "st_pagepool \<Rightarrow> pages \<Rightarrow> addr \<Rightarrow> addr" where
  "st_pagepool_next_pages pool pages master =
    (if page_add master (pg_compound_page_cnt (pages master)) =
        page_add (pg_region (pages master)) (pp_pages_per_region pool)
     then NULL
     else page_add master (pg_compound_page_cnt (pages master)))"

text \<open>The two optional steps of a merge, then the rewriting of the descriptors.\<close>

definition merge_neighbour ::
    "st_pagepool \<Rightarrow> page_mem \<Rightarrow> addr \<Rightarrow> int \<Rightarrow> (bool \<times> int \<times> st_pagepool \<times> page_mem) option" where
  "merge_neighbour pool mem nb tot =
    (if nb \<noteq> NULL \<and> pg_state (pm_pages mem nb) = ST_PAGEPOOL_PAGE_FREE then do {
       (pool, mem) \<leftarrow> st_pagepool_remove_pages pool mem nb;
       Some (True, tot + pg_compound_page_cnt (pm_pages mem nb), pool, mem)
     }
     else Some (False, tot, pool, mem))"

definition st_pagepool_merge_pages ::
    "st_pagepool \<Rightarrow> page_mem \<Rightarrow> addr \<Rightarrow> (addr \<times> st_pagepool \<times> page_mem) option" where
  "st_pagepool_merge_pages pool mem master = do {
     let tot = pg_compound_page_cnt (pm_pages mem master);
     let prev = st_pagepool_prev_pages (pm_pages mem) master;
     (merged, tot, pool, mem) \<leftarrow> merge_neighbour pool mem prev tot;
     let merge = (if merged then prev else master);
     let next = st_pagepool_next_pages pool (pm_pages mem) master;
     (_, tot, pool, mem) \<leftarrow> merge_neighbour pool mem next tot;
     let pages = for_pages tot merge id (\<lambda>pg. pg\<lparr>pg_state := ST_PAGEPOOL_PAGE_FREE,
       pg_type := ST_PAGEPOOL_PAGE_SLAVE, pg_compound_page_cnt := to_int16 tot\<rparr>) (pm_pages mem);
     pages \<leftarrow> upd pages merge (\<lambda>pg. pg\<lparr>pg_type := ST_PAGEPOOL_PAGE_MASTER\<rparr>);
     Some (merge, pool, mem\<lparr>pm_pages := pages\<rparr>)
   }"

text \<open>\<^verbatim>\<open>NULL\<close> is returned when nothing remains.\<close>

definition st_pagepool_split_pages :: "pages \<Rightarrow> addr \<Rightarrow> int \<Rightarrow> (addr \<times> pages) option" where
  "st_pagepool_split_pages m pages use_cnt = do {
     pg \<leftarrow> deref m pages;
     let total_cnt = pg_compound_page_cnt pg;
     let m = for_pages use_cnt pages id (\<lambda>pg. pg\<lparr>pg_compound_page_cnt := to_int16 use_cnt,
       pg_state := ST_PAGEPOOL_PAGE_ALLOCATED\<rparr>) m;
     if total_cnt = use_cnt then Some (NULL, m)
     else do {
       let remain = page_add pages (max 0 use_cnt);
       let m = for_pages (total_cnt - use_cnt) remain id
         (\<lambda>pg. pg\<lparr>pg_compound_page_cnt := to_int16 (total_cnt - use_cnt)\<rparr>) m;
       m \<leftarrow> upd m remain (\<lambda>pg. pg\<lparr>pg_type := ST_PAGEPOOL_PAGE_MASTER\<rparr>);
       Some (remain, m)
     }
   }"

text \<open>The part of an allocation that follows the choice of the run.\<close>

definition split_and_add ::
    "st_pagepool \<Rightarrow> page_mem \<Rightarrow> addr \<Rightarrow> int \<Rightarrow> (st_pagepool \<times> page_mem) option" where
  "split_and_add pool mem found cnt = do {
     (remain, pages) \<leftarrow> st_pagepool_split_pages (pm_pages mem) found cnt;
     let mem = mem\<lparr>pm_pages := pages\<rparr>;
     if remain \<noteq> NULL then st_pagepool_add_pages pool mem remain else Some (pool, mem)
   }"

text \<open>\<open>tmp\<close> is the address of the local variable of that name, an all-zero descriptor but for its count.\<close>

definition st_pagepool_get_free_pages ::
    "addr \<Rightarrow> st_pagepool \<Rightarrow> page_mem \<Rightarrow> int \<Rightarrow> (st_error \<times> addr option \<times> st_pagepool \<times> page_mem) option" where
  "st_pagepool_get_free_pages tmp pool mem cnt = do {
     let frame = (pm_pages mem)(tmp := zero_page\<lparr>pg_compound_page_cnt := to_int16 cnt\<rparr>);
     n \<leftarrow> st_rbtree_search (st_pagepool_cmp_compound_page frame) (pp_free_pages pool) (pm_rb mem)
       (page_rb tmp) ST_SIDE_RIGHT_EQ;
     if n = NULL then Some (ST_NOT_FOUND, None, pool, mem)
     else do {
       let found = owner_rb n;
       empty \<leftarrow> st_list_empty (pm_list mem) (page_ln found);
       (found, pool, mem) \<leftarrow>
         (if empty then do {
            (ret, tree, rb) \<leftarrow> st_rbtree_delete (pp_free_pages pool) (pm_rb mem) (page_rb found);
            Some (found, pool\<lparr>pp_free_pages := tree\<rparr>, mem\<lparr>pm_rb := rb\<rparr>)
          }
          else do {
            l \<leftarrow> st_list_last (pm_list mem) (page_ln found);
            let found = owner_ln l;
            ln \<leftarrow> st_list_remove (pm_list mem) (page_ln found);
            Some (found, pool, mem\<lparr>pm_list := ln\<rparr>)
          });
       (pool, mem) \<leftarrow> split_and_add pool mem found cnt;
       Some (ST_OK, Some found, pool, mem)
     }
   }"

section \<open>The interface\<close>

text \<open>
  \<^verbatim>\<open>st_pagepool_init\<close>: \<open>data\<close> is the address of \<^verbatim>\<open>regions_array_data\<close>; \<open>attr1\<close> and \<open>attr2\<close> are the
  results of initialising the mutex attributes.  The failure of the second lock is not returned.
\<close>

definition st_pagepool_init ::
    "int \<Rightarrow> int \<Rightarrow> addr \<Rightarrow> addr list \<Rightarrow> st_pagepool \<Rightarrow> rbmem \<Rightarrow> int
      \<Rightarrow> (st_error \<times> st_pagepool \<times> rbmem) option" where
  "st_pagepool_init attr1 attr2 data cells pool rb page_size =
    (if page_size \<le> 0 \<or> page_size mod 512 \<noteq> 0 then Some (ST_ARG_INVALID, pool, rb)
     else do {
       let pool = pool\<lparr>pp_page_size := page_size, pp_region_size := rg_reg_size (pp_region_cb pool)\<rparr>;
       let pool = pool\<lparr>pp_pages_per_region :=
         (pp_region_size pool mod 2 ^ 64) div (int sizeof_page + page_size)\<rparr>;
       if \<not> pp_pages_per_region pool > 0 then Some (ST_ARG_INVALID, pool, rb)
       else do {
         let pool = pool\<lparr>pp_space_base_offset :=
           st_align (int sizeof_page * pp_pages_per_region pool) page_size\<rparr>;
         (ret, tree, rb) \<leftarrow> st_rbtree_init True True (pp_free_pages pool) rb;
         let pool = pool\<lparr>pp_free_pages := tree\<rparr>;
         if ret \<noteq> ST_OK then Some (ret, pool, rb)
         else do {
           regions \<leftarrow> st_array_init_static (pp_regions pool) (int sizeof_ptr) data cells
             ST_PAGEPOOL_MAX_REGION_CNT (Some st_pagepool_cmp_region_addr);
           let (ret, lock1) = st_robustlock_init attr1 (pp_regions_lock pool);
           let pool = pool\<lparr>pp_regions := regions, pp_regions_lock := lock1\<rparr>;
           if ret \<noteq> ST_OK then Some (ret, pool\<lparr>pp_regions := snd (st_array_destroy regions)\<rparr>, rb)
           else do {
             let (ret, lock2) = st_robustlock_init attr2 (pp_pages_lock pool);
             let pool = pool\<lparr>pp_pages_lock := lock2\<rparr>;
             if ret \<noteq> ST_OK then Some (ST_OK, pool\<lparr>pp_regions := snd (st_array_destroy regions)\<rparr>, rb)
             else Some (ST_OK, pool, rb)
           }
         }
       }
     })"

definition st_pagepool_destroy :: "st_pagepool \<Rightarrow> st_error \<times> st_pagepool" where
  "st_pagepool_destroy pool =
    (if \<not> ar_inited (pp_regions pool) then (ST_UNINITED, pool)
     else
       let pool = pool\<lparr>pp_regions := snd (st_array_destroy (pp_regions pool))\<rparr>;
           err = ST_OK;
           ret = st_robustlock_destroy (pp_regions_lock pool);
           err = (if ret \<noteq> ST_OK then (if err = ST_OK then ret else err) else err);
           ret = st_robustlock_destroy (pp_pages_lock pool);
           err = (if ret \<noteq> ST_OK then (if err = ST_OK then ret else err) else err)
       in (err, pool))"

text \<open>The body of \<^verbatim>\<open>st_pagepool_alloc_pages\<close> between lock and unlock; first its second half, the new region.\<close>

definition alloc_new_region ::
    "unit sys \<Rightarrow> pid \<Rightarrow> st_pagepool \<Rightarrow> page_mem \<Rightarrow> int
      \<Rightarrow> (st_error \<times> addr option \<times> st_pagepool \<times> page_mem) option" where
  "alloc_new_region madvise_r t pool mem cnt = do {
     ((ret, reg), rcb) \<leftarrow> st_region_alloc_reg t (pp_region_cb pool);
     let pool = pool\<lparr>pp_region_cb := rcb\<rparr>;
     if ret \<noteq> ST_OK then Some (ret, None, pool, mem)
     else do {
       region \<leftarrow> reg;
       (ret, pool) \<leftarrow> st_pagepool_add_region t pool region;
       if ret \<noteq> ST_OK then do {
         (_, rcb) \<leftarrow> st_region_free_reg madvise_r t (pp_region_cb pool) region;
         Some (ret, None, pool\<lparr>pp_region_cb := rcb\<rparr>, mem)
       }
       else do {
         mem \<leftarrow> st_pagepool_init_region pool mem region;
         (pool, mem) \<leftarrow> split_and_add pool mem region cnt;
         Some (ret, Some region, pool, mem)
       }
     }
   }"

definition alloc_body ::
    "unit sys \<Rightarrow> pid \<Rightarrow> addr \<Rightarrow> st_pagepool \<Rightarrow> page_mem \<Rightarrow> int
      \<Rightarrow> (st_error \<times> addr option \<times> st_pagepool \<times> page_mem) option" where
  "alloc_body madvise_r t tmp pool mem cnt = do {
     (ret, pages, pool, mem) \<leftarrow> st_pagepool_get_free_pages tmp pool mem cnt;
     if ret = ST_OK then Some (ret, pages, pool, mem)
     else if ret \<noteq> ST_NOT_FOUND then Some (ret, pages, pool, mem)
     else alloc_new_region madvise_r t pool mem cnt
   }"

definition st_pagepool_alloc_pages ::
    "unit sys \<Rightarrow> pid \<Rightarrow> addr \<Rightarrow> st_pagepool \<Rightarrow> page_mem \<Rightarrow> int
      \<Rightarrow> (st_error \<times> addr option \<times> st_pagepool \<times> page_mem) option" where
  "st_pagepool_alloc_pages madvise_r t tmp pool mem cnt =
    (if \<not> (0 < cnt \<and> cnt \<le> pp_pages_per_region pool) then Some (ST_ARG_INVALID, None, pool, mem)
     else do {
       ((ret, pages, pool, mem), lock) \<leftarrow>
         with_lock t (pp_pages_lock pool) (alloc_body madvise_r t tmp pool mem cnt);
       Some (ret, pages, pool\<lparr>pp_pages_lock := lock\<rparr>, mem)
     })"

definition free_pages_body ::
    "unit sys \<Rightarrow> pid \<Rightarrow> st_pagepool \<Rightarrow> page_mem \<Rightarrow> addr \<Rightarrow> (st_error \<times> st_pagepool \<times> page_mem) option" where
  "free_pages_body madvise_r t pool mem pages = do {
     (merge, pool, mem) \<leftarrow> st_pagepool_merge_pages pool mem pages;
     if pg_compound_page_cnt (pm_pages mem merge) < pp_pages_per_region pool then do {
       (pool, mem) \<leftarrow> st_pagepool_add_pages pool mem merge;
       Some (ST_OK, pool, mem)
     }
     else do {
       let region = merge;
       (ret, pool) \<leftarrow> st_pagepool_remove_region t pool region;
       if ret \<noteq> ST_OK then Some (ret, pool, mem)
       else do {
         (ret, rcb) \<leftarrow> st_region_free_reg madvise_r t (pp_region_cb pool) region;
         Some (ret, pool\<lparr>pp_region_cb := rcb\<rparr>, mem)
       }
     }
   }"

definition st_pagepool_free_pages ::
    "unit sys \<Rightarrow> pid \<Rightarrow> st_pagepool \<Rightarrow> page_mem \<Rightarrow> addr \<Rightarrow> (st_error \<times> st_pagepool \<times> page_mem) option" where
  "st_pagepool_free_pages madvise_r t pool mem pages =
    (if pages = NULL then Some (ST_ARG_INVALID, pool, mem)
     else if pg_type (pm_pages mem pages) \<noteq> ST_PAGEPOOL_PAGE_MASTER then Some (ST_ARG_INVALID, pool, mem)
     else if pg_state (pm_pages mem pages) \<noteq> ST_PAGEPOOL_PAGE_ALLOCATED then Some (ST_ARG_INVALID, pool, mem)
     else do {
       ((ret, pool, mem), lock) \<leftarrow>
         with_lock t (pp_pages_lock pool) (free_pages_body madvise_r t pool mem pages);
       Some (ret, pool\<lparr>pp_pages_lock := lock\<rparr>, mem)
     })"

definition st_pagepool_page_to_addr :: "st_pagepool \<Rightarrow> pages \<Rightarrow> addr \<Rightarrow> st_error \<times> addr option" where
  "st_pagepool_page_to_addr pool pages page =
    (if page = NULL then (ST_ARG_INVALID, None)
     else
       let idx = ((int page - int (pg_region (pages page))) mod 2 ^ 64) div int sizeof_page;
           base = int (pg_region (pages page)) + pp_space_base_offset pool
       in (ST_OK, Some (nat ((base + idx * pp_page_size pool) mod 2 ^ 64))))"

definition st_pagepool_addr_to_page ::
    "pid \<Rightarrow> st_pagepool \<Rightarrow> addr \<Rightarrow> (st_error \<times> addr option \<times> st_pagepool) option" where
  "st_pagepool_addr_to_page t pool addr =
    (if addr = NULL then Some (ST_ARG_INVALID, None, pool)
     else do {
       (ret, reg, pool) \<leftarrow> st_pagepool_get_region t pool addr;
       if ret \<noteq> ST_OK then Some (ret, None, pool)
       else do {
         region \<leftarrow> reg;
         let base = int region + pp_space_base_offset pool;
         if int addr < base then Some (ST_OUT_OF_RANGE, None, pool)
         else if (int addr - base) mod pp_page_size pool \<noteq> 0 then Some (ST_ARG_INVALID, None, pool)
         else Some (ST_OK, Some (page_add region ((int addr - base) div pp_page_size pool)), pool)
       }
     })"

end
