(* ===== verification/Pagepool_Free.thy ===== *)
theory Pagepool_Free
  imports Pagepool Rbtree_Insert
begin

text \<open>
  The index of free runs of the page pool: the tree of \<^verbatim>\<open>free_pages\<close> holds one run for every length
  that occurs, and the list that starts at that run holds the others of the same length.  The
  operations on it are shown to add and to remove exactly the given run, and a search to
  find a shortest run that is long enough.
\<close>

section \<open>Embedded nodes\<close>

lemma owner_page [simp]: "owner_rb (page_rb p) = p" "owner_ln (page_ln p) = p"
  by (simp_all add: owner_rb_def owner_ln_def page_rb_def page_ln_def)

lemma page_node_inj [simp]: "page_rb p = page_rb q \<longleftrightarrow> p = q" "page_ln p = page_ln q \<longleftrightarrow> p = q"
  by (simp_all add: page_rb_def page_ln_def)

lemma page_node_nonnull [simp]: "page_rb p \<noteq> NULL" "page_ln p \<noteq> NULL" "0 < page_rb p" "0 < page_ln p"
  by (simp_all add: page_rb_def page_ln_def)

lemma page_node_image [simp]: "page_rb p \<in> page_rb ` A \<longleftrightarrow> p \<in> A" "page_ln p \<in> page_ln ` A \<longleftrightarrow> p \<in> A"
  by auto

lemma page_node_inj_on [simp]: "inj_on page_rb A" "inj_on page_ln A"
  by (auto simp: inj_on_def)

section \<open>Representation\<close>

abbreviation page_cnt :: "pages \<Rightarrow> addr \<Rightarrow> int" where
  "page_cnt pages p \<equiv> pg_compound_page_cnt (pages p)"

type_synonym groups = "(addr \<times> addr list) list"

definition heads :: "groups \<Rightarrow> addr list" where
  "heads G = map fst G"

definition members :: "groups \<Rightarrow> addr list" where
  "members G = concat (map (\<lambda>(h, ts). h # ts) G)"

text \<open>The groups, in the order of the tree: lengths increase, and a group has one length.\<close>

definition groups_ok :: "pages \<Rightarrow> groups \<Rightarrow> bool" where
  "groups_ok pages G \<longleftrightarrow> distinct (members G) \<and>
     (\<forall>(h, ts) \<in> set G. \<forall>x \<in> set ts. page_cnt pages x = page_cnt pages h) \<and>
     sorted_wrt (\<lambda>h h'. page_cnt pages h < page_cnt pages h') (heads G)"

definition heads_in_tree :: "st_rbtree \<Rightarrow> rbmem \<Rightarrow> addr set \<Rightarrow> groups \<Rightarrow> bool" where
  "heads_in_tree tree rb P G \<longleftrightarrow>
     (\<exists>t. rb_tree tree rb t \<and> inorder t = map page_rb (heads G)) \<and>
     (\<forall>p \<in> P. p \<notin> set (heads G) \<longrightarrow> cleared (rb (page_rb p)))"

definition tails_in_lists :: "lmem \<Rightarrow> groups \<Rightarrow> bool" where
  "tails_in_lists lm G \<longleftrightarrow> (\<forall>(h, ts) \<in> set G. clist lm (page_ln h) (map page_ln ts))"

text \<open>\<open>P\<close> is the set of all descriptors of the pool.\<close>

definition free_groups :: "st_pagepool \<Rightarrow> page_mem \<Rightarrow> addr set \<Rightarrow> groups \<Rightarrow> bool" where
  "free_groups pool mem P G \<longleftrightarrow> groups_ok (pm_pages mem) G \<and>
     heads_in_tree (pp_free_pages pool) (pm_rb mem) P G \<and> tails_in_lists (pm_list mem) G \<and>
     set (members G) \<subseteq> P \<and> rt_sentinel (pp_free_pages pool) \<notin> page_rb ` P"

definition free_index :: "st_pagepool \<Rightarrow> page_mem \<Rightarrow> addr set \<Rightarrow> addr set \<Rightarrow> bool" where
  "free_index pool mem P F \<longleftrightarrow> (\<exists>G. free_groups pool mem P G \<and> F = set (members G))"

lemma members_simps [simp]:
  "members [] = []" "members ((h, ts) # G) = h # ts @ members G"
  "members (G @ G') = members G @ members G'"
  by (simp_all add: members_def)

lemma heads_simps [simp]:
  "heads [] = []" "heads ((h, ts) # G) = h # heads G" "heads (G @ G') = heads G @ heads G'"
  by (simp_all add: heads_def)

lemma heads_members: "h \<in> set (heads G) \<Longrightarrow> h \<in> set (members G)"
  by (induction G) auto

lemma member_split:
  assumes "p \<in> set (members G)"
  obtains G1 h ts G2 where "G = G1 @ (h, ts) # G2" "p = h \<or> p \<in> set ts"
proof -
  obtain h ts where "(h, ts) \<in> set G" "p = h \<or> p \<in> set ts"
    using assms by (auto simp: members_def)
  then show ?thesis using that by (metis split_list)
qed

lemma tails_frame:
  assumes "tails_in_lists lm G" "\<And>x. x \<in> set (members G) \<Longrightarrow> lm' (page_ln x) = lm (page_ln x)"
  shows "tails_in_lists lm' G"
  unfolding tails_in_lists_def
proof (intro ballI, clarify)
  fix h ts assume g: "(h, ts) \<in> set G"
  then have "clist lm (page_ln h) (map page_ln ts)" using assms(1) by (auto simp: tails_in_lists_def)
  moreover have "lm' a = lm a" if "a \<in> set (page_ln h # map page_ln ts)" for a
    using that g assms(2) by (auto simp: members_def)
  ultimately show "clist lm' (page_ln h) (map page_ln ts)" by (rule clist_frame)
qed

lemma tails_simps [simp]:
  "tails_in_lists lm []"
  "tails_in_lists lm ((h, ts) # G) \<longleftrightarrow> clist lm (page_ln h) (map page_ln ts) \<and> tails_in_lists lm G"
  "tails_in_lists lm (G @ G') \<longleftrightarrow> tails_in_lists lm G \<and> tails_in_lists lm G'"
  by (auto simp: tails_in_lists_def)

lemma groups_ok_pages:
  assumes "groups_ok pages G" "\<And>x. x \<in> set (members G) \<Longrightarrow> page_cnt pages' x = page_cnt pages x"
  shows "groups_ok pages' G"
proof -
  have "sorted_wrt (\<lambda>h h'. page_cnt pages' h < page_cnt pages' h') (heads G)"
    using assms(1) by (auto simp: groups_ok_def assms(2) heads_members elim!: sorted_wrt_mono_rel[rotated])
  moreover have "\<forall>(h, ts) \<in> set G. \<forall>x \<in> set ts. page_cnt pages' x = page_cnt pages' h"
  proof (intro ballI, clarify)
    fix h ts x assume g: "(h, ts) \<in> set G" "x \<in> set ts"
    then have "x \<in> set (members G)" "h \<in> set (members G)" by (auto simp: members_def)
    moreover have "page_cnt pages x = page_cnt pages h" using assms(1) g by (auto simp: groups_ok_def)
    ultimately show "page_cnt pages' x = page_cnt pages' h" using assms(2) by simp
  qed
  ultimately show ?thesis using assms(1) by (simp add: groups_ok_def)
qed

text \<open>The index depends on the lengths of the free runs and on their nodes only.\<close>

lemma free_index_cong:
  assumes "free_index pool mem P F"
    and "\<And>x. x \<in> F \<Longrightarrow> page_cnt (pm_pages mem') x = page_cnt (pm_pages mem) x"
    and "\<And>x. x \<in> F \<Longrightarrow> pm_list mem' (page_ln x) = pm_list mem (page_ln x)"
    and "pm_rb mem' = pm_rb mem" and "pp_free_pages pool' = pp_free_pages pool"
  shows "free_index pool' mem' P F"
proof -
  obtain G where G: "free_groups pool mem P G" "F = set (members G)"
    using assms(1) by (auto simp: free_index_def)
  then have "groups_ok (pm_pages mem') G" "tails_in_lists (pm_list mem') G"
    using assms(2,3) groups_ok_pages tails_frame unfolding free_groups_def by blast+
  then show ?thesis using G assms(4,5) by (auto simp: free_index_def free_groups_def)
qed

section \<open>Searching\<close>

lemma cmp_compound_three_way: "three_way A (st_pagepool_cmp_compound_page pages)"
proof -
  have "st_pagepool_cmp_compound_page pages =
      (\<lambda>a b. st_cmp (page_cnt pages (owner_rb a)) (page_cnt pages (owner_rb b)))"
    by (rule ext)+ (simp add: st_pagepool_cmp_compound_page_def)
  then show ?thesis using st_cmp_three_way[where f = "\<lambda>a. page_cnt pages (owner_rb a)"] by simp
qed

interpretation compound: search_order A "st_pagepool_cmp_compound_page pages" for A pages
  unfolding search_order_def by (rule cmp_compound_three_way)

lemma cmp_compound [simp]:
  "st_pagepool_cmp_compound_page pages (page_rb p) (page_rb q) = st_cmp (page_cnt pages p) (page_cnt pages q)"
  by (simp add: st_pagepool_cmp_compound_page_def)

lemma sorted_page_rb:
  "sorted_wrt (\<lambda>h h'. page_cnt pages h < page_cnt pages h') hs \<Longrightarrow>
    sorted_by (st_pagepool_cmp_compound_page pages) (map page_rb hs)"
  unfolding sorted_by_def by (auto simp: sorted_wrt_map elim!: sorted_wrt_mono_rel[rotated])

lemma search_eq_nodes:
  assumes "rb_tree tree rb t" "inorder t = map page_rb hs"
    "sorted_wrt (\<lambda>h h'. page_cnt pages h < page_cnt pages h') hs"
  shows "\<exists>n. st_rbtree_search (st_pagepool_cmp_compound_page pages) tree rb (page_rb p) ST_SIDE_EQ = Some n \<and>
    (if \<exists>h \<in> set hs. page_cnt pages h = page_cnt pages p
     then \<exists>h \<in> set hs. n = page_rb h \<and> page_cnt pages h = page_cnt pages p
     else n = NULL)"
proof -
  have s: "sorted_by (st_pagepool_cmp_compound_page pages) (inorder t)"
    using assms(2,3) sorted_page_rb by simp
  have ex: "(\<exists>z \<in> set (map page_rb hs). st_pagepool_cmp_compound_page pages z (page_rb p) = 0) \<longleftrightarrow>
      (\<exists>h \<in> set hs. page_cnt pages h = page_cnt pages p)" by auto
  from rbtree_search_ok[OF cmp_compound_three_way assms(1) s, of "page_rb p" UNIV ST_SIDE_EQ]
  show ?thesis unfolding assms(2) ex
    by (cases "\<exists>h \<in> set hs. page_cnt pages h = page_cnt pages p") auto
qed

lemma sorted_filter_hd:
  assumes "sorted_wrt (\<lambda>a b. f a < f b) xs" "filter P xs = h # ys"
  shows "h \<in> set xs \<and> P h \<and> (\<forall>x \<in> set xs. P x \<longrightarrow> f h \<le> (f x :: 'a::linorder))"
proof -
  have "sorted_wrt (\<lambda>a b. f a < f b) (h # ys)"
    using sorted_wrt_filter[OF assms(1), of P] assms(2) by simp
  moreover have "set (h # ys) = {x \<in> set xs. P x}" unfolding assms(2)[symmetric] by simp
  ultimately show ?thesis by (auto simp: set_eq_iff) (metis less_imp_le order_refl)
qed

lemma search_fit_nodes:
  assumes "rb_tree tree rb t" "inorder t = map page_rb hs"
    "sorted_wrt (\<lambda>h h'. page_cnt pages h < page_cnt pages h') hs"
  shows "\<exists>n. st_rbtree_search (st_pagepool_cmp_compound_page pages) tree rb (page_rb p) ST_SIDE_RIGHT_EQ = Some n \<and>
    (if \<exists>h \<in> set hs. page_cnt pages p \<le> page_cnt pages h
     then \<exists>h \<in> set hs. n = page_rb h \<and> page_cnt pages p \<le> page_cnt pages h \<and>
       (\<forall>g \<in> set hs. page_cnt pages p \<le> page_cnt pages g \<longrightarrow> page_cnt pages h \<le> page_cnt pages g)
     else n = NULL)"
proof -
  let ?c = "page_cnt pages"
  have s: "sorted_by (st_pagepool_cmp_compound_page pages) (inorder t)"
    using assms(2,3) sorted_page_rb by simp
  have ex: "(\<exists>z \<in> set (map page_rb hs). st_pagepool_cmp_compound_page pages z (page_rb p) = 0) \<longleftrightarrow>
      (\<exists>h \<in> set hs. ?c h = ?c p)" by auto
  have fil: "filter (\<lambda>z. st_pagepool_cmp_compound_page pages z (page_rb p) > 0) (map page_rb hs) =
      map page_rb (filter (\<lambda>h. ?c p < ?c h) hs)" by (simp add: filter_map o_def)
  have side: "page_rb p \<noteq> NULL" "ST_SIDE_RIGHT_EQ \<in> {ST_SIDE_LEFT, ST_SIDE_EQ, ST_SIDE_RIGHT, ST_SIDE_LEFT_EQ, ST_SIDE_RIGHT_EQ}"
    by simp_all
  obtain n where n: "st_rbtree_search (st_pagepool_cmp_compound_page pages) tree rb (page_rb p) ST_SIDE_RIGHT_EQ = Some n"
    "if \<exists>h \<in> set hs. ?c h = ?c p
     then n \<in> page_rb ` set hs \<and> st_pagepool_cmp_compound_page pages n (page_rb p) = 0
     else n = (let zs = map page_rb (filter (\<lambda>h. ?c p < ?c h) hs) in if zs = [] then NULL else hd zs)"
    using rbtree_search_ok[OF cmp_compound_three_way assms(1) s subset_UNIV side]
    unfolding assms(2) ex fil
    by (elim exE conjE) (simp only: st_side_simps set_map simp_thms if_True if_False numeral_neq_zero; rule that)
  show ?thesis
  proof (cases "\<exists>h \<in> set hs. ?c h = ?c p")
    case True
    then have "\<exists>h \<in> set hs. n = page_rb h \<and> ?c h = ?c p" using n(2) by auto
    then show ?thesis using n(1) by auto
  next
    case False
    show ?thesis
    proof (cases "filter (\<lambda>h. ?c p < ?c h) hs")
      case Nil
      then have "\<not> (\<exists>h \<in> set hs. ?c p \<le> ?c h)" using False by (auto simp: filter_empty_conv order_le_less)
      then show ?thesis using n False Nil by simp
    next
      case (Cons h ys)
      have h: "h \<in> set hs" "?c p < ?c h" "\<forall>g \<in> set hs. ?c p < ?c g \<longrightarrow> ?c h \<le> ?c g"
        using sorted_filter_hd[OF assms(3) Cons] by auto
      have "?c p < ?c g" if "g \<in> set hs" "?c p \<le> ?c g" for g
        using that False by (metis order_le_less)
      with h(3) have min: "\<forall>g \<in> set hs. ?c p \<le> ?c g \<longrightarrow> ?c h \<le> ?c g" by blast
      have fit: "\<exists>h \<in> set hs. ?c p \<le> ?c h" using h(1,2) less_imp_le by blast
      have "n = page_rb h" using n(2) False Cons by simp
      then have "\<exists>h \<in> set hs. n = page_rb h \<and> ?c p \<le> ?c h \<and> (\<forall>g \<in> set hs. ?c p \<le> ?c g \<longrightarrow> ?c h \<le> ?c g)"
        using h(1,2) min by (intro bexI[of _ h]) simp_all
      with n(1) fit show ?thesis by simp
    qed
  qed
qed

section \<open>Changing the index\<close>

lemma rb_tree_inited:
  assumes "rb_tree tree m t" "a \<in> set (inorder t)"
  shows "st_rbtree_node_is_inited m a = Some True"
proof -
  obtain P where P: "tree_at (rt_sentinel tree) P m t" using assms(1) by (auto simp: rb_tree_def)
  obtain k l c r where t: "t = plug k (N l a c r)" using focus_exists[OF assms(2)] by blast
  have "tree_at (rt_sentinel tree) P m (plug (FL a c r # k) l)" using P t by simp
  then have "root_of (rt_sentinel tree) l \<noteq> NULL" by (rule tree_at_red(2))
  then show ?thesis
    using tree_at_focus[OF P[unfolded t]] by (simp add: st_rbtree_node_is_inited_def)
qed

lemma cleared_not_inited: "cleared (m a) \<Longrightarrow> a \<noteq> NULL \<Longrightarrow> st_rbtree_node_is_inited m a = Some False"
  by (simp add: st_rbtree_node_is_inited_def cleared_def)

lemma clist_rotate: "clist m h (x # xs) \<Longrightarrow> clist m x (xs @ [h])"
  by (auto simp: clist_def)

lemma list_remove_head:
  assumes "clist m h (x # xs)"
  shows "\<exists>m'. st_list_remove m h = Some m' \<and> clist m' x xs \<and> (\<forall>a. a \<notin> set (h # x # xs) \<longrightarrow> m' a = m a)"
  using list_remove_clist[of m x xs h "[]"] clist_rotate[OF assms] by auto

lemma groups_ok_append:
  "groups_ok pages (G1 @ G2) \<longleftrightarrow> groups_ok pages G1 \<and> groups_ok pages G2 \<and>
    set (members G1) \<inter> set (members G2) = {} \<and>
    (\<forall>h \<in> set (heads G1). \<forall>h' \<in> set (heads G2). page_cnt pages h < page_cnt pages h')"
  unfolding groups_ok_def by (simp add: sorted_wrt_append ball_Un) blast

lemma groups_ok_Cons:
  "groups_ok pages ((h, ts) # G) \<longleftrightarrow> distinct (h # ts) \<and> (\<forall>x \<in> set ts. page_cnt pages x = page_cnt pages h) \<and>
    groups_ok pages G \<and> set (h # ts) \<inter> set (members G) = {} \<and>
    (\<forall>h' \<in> set (heads G). page_cnt pages h < page_cnt pages h')"
  by (auto simp: groups_ok_def)

text \<open>Taking a run out of the list of its group.\<close>

lemma remove_tail:
  assumes "free_groups pool mem P (G1 @ (h, a @ p # b) # G2)"
  shows "\<exists>lm. st_list_remove (pm_list mem) (page_ln p) = Some lm \<and>
    free_groups pool (mem\<lparr>pm_list := lm\<rparr>) P (G1 @ (h, a @ b) # G2) \<and>
    (\<forall>x. x \<notin> page_ln ` set (members (G1 @ (h, a @ p # b) # G2)) \<longrightarrow> lm x = pm_list mem x)"
proof -
  let ?G = "G1 @ (h, a @ p # b) # G2"
  have ok: "groups_ok (pm_pages mem) ?G" "heads_in_tree (pp_free_pages pool) (pm_rb mem) P ?G"
    "tails_in_lists (pm_list mem) ?G" "set (members ?G) \<subseteq> P" "rt_sentinel (pp_free_pages pool) \<notin> page_rb ` P"
    using assms by (simp_all add: free_groups_def)
  have c: "clist (pm_list mem) (page_ln h) (map page_ln a @ page_ln p # map page_ln b)"
    using ok(3) by simp
  from list_remove_clist[OF c] obtain lm where lm: "st_list_remove (pm_list mem) (page_ln p) = Some lm"
    "clist lm (page_ln h) (map page_ln a @ map page_ln b)"
    "\<forall>x. x \<notin> set (page_ln h # map page_ln a @ page_ln p # map page_ln b) \<longrightarrow> lm x = pm_list mem x"
    by blast
  have d: "distinct (members ?G)" using ok(1) by (simp add: groups_ok_def)
  have fr: "lm x = pm_list mem x" if "x \<notin> page_ln ` set (h # a @ p # b)" for x
    using lm(3) that by auto
  have same: "lm (page_ln x) = pm_list mem (page_ln x)" if "x \<in> set (members G1) \<union> set (members G2)" for x
    by (rule fr) (use that d in auto)
  have t: "tails_in_lists lm (G1 @ (h, a @ b) # G2)"
    using lm(2) tails_frame[of "pm_list mem" G1 lm] tails_frame[of "pm_list mem" G2 lm] same ok(3) by simp
  have g: "groups_ok (pm_pages mem) (G1 @ (h, a @ b) # G2)"
    using ok(1) by (auto simp: groups_ok_append groups_ok_Cons)
  have tr: "heads_in_tree (pp_free_pages pool) (pm_rb mem) P (G1 @ (h, a @ b) # G2)"
    using ok(2) by (simp add: heads_in_tree_def)
  have "free_groups pool (mem\<lparr>pm_list := lm\<rparr>) P (G1 @ (h, a @ b) # G2)"
    using t g tr ok(4,5) by (simp add: free_groups_def)
  moreover have "lm x = pm_list mem x" if "x \<notin> page_ln ` set (members ?G)" for x
    by (rule fr) (use that in auto)
  ultimately show ?thesis using lm(1) by blast
qed

text \<open>Taking a run out of the tree that is alone in its group.\<close>

lemma remove_single:
  assumes "free_groups pool mem P (G1 @ (h, []) # G2)"
  shows "\<exists>tree rb. st_rbtree_delete (pp_free_pages pool) (pm_rb mem) (page_rb h) = Some (ST_OK, tree, rb) \<and>
    rt_sentinel tree = rt_sentinel (pp_free_pages pool) \<and>
    free_groups (pool\<lparr>pp_free_pages := tree\<rparr>) (mem\<lparr>pm_rb := rb\<rparr>) P (G1 @ G2) \<and>
    (\<forall>x. x \<notin> page_rb ` P \<and> x \<noteq> rt_sentinel tree \<longrightarrow> rb x = pm_rb mem x)"
proof -
  let ?G = "G1 @ (h, []) # G2"
  have ok: "groups_ok (pm_pages mem) ?G" "heads_in_tree (pp_free_pages pool) (pm_rb mem) P ?G"
    "tails_in_lists (pm_list mem) ?G" "set (members ?G) \<subseteq> P" "rt_sentinel (pp_free_pages pool) \<notin> page_rb ` P"
    using assms by (simp_all add: free_groups_def)
  obtain t where t: "rb_tree (pp_free_pages pool) (pm_rb mem) t" "inorder t = map page_rb (heads ?G)"
    and cl: "\<forall>p \<in> P. p \<notin> set (heads ?G) \<longrightarrow> cleared (pm_rb mem (page_rb p))"
    using ok(2) by (auto simp: heads_in_tree_def)
  have mem: "page_rb h \<in> set (inorder t)" using t(2) by simp
  obtain tree rb t' where d: "st_rbtree_delete (pp_free_pages pool) (pm_rb mem) (page_rb h) = Some (ST_OK, tree, rb)"
    "rt_sentinel tree = rt_sentinel (pp_free_pages pool)" "rb_tree tree rb t'"
    "inorder t' = remove1 (page_rb h) (inorder t)" "cleared (rb (page_rb h))"
    "\<forall>z. z \<notin> set (inorder t) \<and> z \<noteq> rt_sentinel (pp_free_pages pool) \<longrightarrow> rb z = pm_rb mem z"
    using rbtree_delete_ok[OF t(1) mem] unfolding cleared_def by blast
  have hd: "h \<notin> set (heads G1)" "h \<notin> set (heads G2)"
    using ok(1) heads_members by (auto simp: groups_ok_def)
  have io: "inorder t' = map page_rb (heads (G1 @ G2))"
    using d(4) t(2) hd by (simp add: remove1_append)
  have hP: "set (heads ?G) \<subseteq> P" using ok(4) heads_members by blast
  have cl': "cleared (rb (page_rb p))" if "p \<in> P" "p \<notin> set (heads (G1 @ G2))" for p
  proof (cases "p = h")
    case False
    then have "page_rb p \<notin> set (inorder t)" using that t(2) by auto
    moreover have "page_rb p \<noteq> rt_sentinel (pp_free_pages pool)" using that(1) ok(5) by (metis imageI)
    ultimately show ?thesis using d(6) cl that False by simp
  qed (use d in simp)
  have "free_groups (pool\<lparr>pp_free_pages := tree\<rparr>) (mem\<lparr>pm_rb := rb\<rparr>) P (G1 @ G2)"
    using ok d(2,3) io cl' by (auto simp: free_groups_def heads_in_tree_def groups_ok_append groups_ok_Cons)
  moreover have "rb x = pm_rb mem x" if "x \<notin> page_rb ` P" "x \<noteq> rt_sentinel tree" for x
  proof -
    have "x \<notin> set (inorder t)" using that(1) hP t(2) by auto
    then show ?thesis using that(2) d(2,6) by simp
  qed
  ultimately show ?thesis using d(1,2) by blast
qed

lemma free_groups_parts:
  assumes "free_groups pool mem P G"
  shows "groups_ok (pm_pages mem) G" "tails_in_lists (pm_list mem) G" "set (members G) \<subseteq> P"
    "rt_sentinel (pp_free_pages pool) \<notin> page_rb ` P" "set (heads G) \<subseteq> P"
    "\<exists>t. rb_tree (pp_free_pages pool) (pm_rb mem) t \<and> inorder t = map page_rb (heads G)"
    "\<And>p. p \<in> P \<Longrightarrow> p \<notin> set (heads G) \<Longrightarrow> cleared (pm_rb mem (page_rb p))"
    "\<And>p. p \<in> P \<Longrightarrow> page_rb p \<noteq> rt_sentinel (pp_free_pages pool)"
proof -
  show "groups_ok (pm_pages mem) G" "tails_in_lists (pm_list mem) G" and m: "set (members G) \<subseteq> P"
    and n: "rt_sentinel (pp_free_pages pool) \<notin> page_rb ` P"
    and "\<exists>t. rb_tree (pp_free_pages pool) (pm_rb mem) t \<and> inorder t = map page_rb (heads G)"
    and "\<And>p. p \<in> P \<Longrightarrow> p \<notin> set (heads G) \<Longrightarrow> cleared (pm_rb mem (page_rb p))"
    using assms by (simp_all add: free_groups_def heads_in_tree_def)
  show "set (heads G) \<subseteq> P" using m heads_members by blast
  show "page_rb p \<noteq> rt_sentinel (pp_free_pages pool)" if "p \<in> P" for p using n that by (metis imageI)
qed

lemma free_groupsI:
  assumes "groups_ok (pm_pages mem) G" "tails_in_lists (pm_list mem) G" "set (members G) \<subseteq> P"
    "rt_sentinel (pp_free_pages pool) \<notin> page_rb ` P"
    "rb_tree (pp_free_pages pool) (pm_rb mem) t" "inorder t = map page_rb (heads G)"
    "\<And>p. p \<in> P \<Longrightarrow> p \<notin> set (heads G) \<Longrightarrow> cleared (pm_rb mem (page_rb p))"
  shows "free_groups pool mem P G"
  using assms unfolding free_groups_def heads_in_tree_def by blast

text \<open>The head of a group leaves: the first run of its list takes its place in the tree.\<close>

lemma remove_head:
  assumes "free_groups pool mem P (G1 @ (h, c # ts) # G2)"
  shows "\<exists>lm tree rb. st_list_remove (pm_list mem) (page_ln h) = Some lm \<and>
    st_rbtree_replace (st_pagepool_cmp_compound_page (pm_pages mem)) (pp_free_pages pool) (pm_rb mem)
      (page_rb h) (page_rb c) = Some (ST_OK, tree, rb) \<and>
    rt_sentinel tree = rt_sentinel (pp_free_pages pool) \<and>
    free_groups (pool\<lparr>pp_free_pages := tree\<rparr>) (mem\<lparr>pm_rb := rb, pm_list := lm\<rparr>) P (G1 @ (c, ts) # G2) \<and>
    (\<forall>x. x \<notin> page_ln ` set (members (G1 @ (h, c # ts) # G2)) \<longrightarrow> lm x = pm_list mem x) \<and>
    (\<forall>x. x \<notin> page_rb ` P \<longrightarrow> rb x = pm_rb mem x)"
proof -
  let ?G = "G1 @ (h, c # ts) # G2" and ?G' = "G1 @ (c, ts) # G2"
  note ok = free_groups_parts[OF assms]
  have d: "distinct (members ?G)" using ok(1) by (simp add: groups_ok_def)
  obtain lm where lm: "st_list_remove (pm_list mem) (page_ln h) = Some lm"
    "clist lm (page_ln c) (map page_ln ts)"
    "\<And>x. x \<notin> page_ln ` set (h # c # ts) \<Longrightarrow> lm x = pm_list mem x"
    using list_remove_head[of "pm_list mem" "page_ln h" "page_ln c" "map page_ln ts"] ok(2) by auto
  have same: "lm (page_ln x) = pm_list mem (page_ln x)" if "x \<in> set (members G1) \<union> set (members G2)" for x
    by (rule lm(3)) (use that d in auto)
  have tails: "tails_in_lists lm ?G'"
    using lm(2) tails_frame[of "pm_list mem" G1 lm] tails_frame[of "pm_list mem" G2 lm] same ok(2) by simp
  have c: "c \<notin> set (heads ?G)" "c \<in> P" using d ok(3) heads_members by auto
  have cnt: "page_cnt (pm_pages mem) c = page_cnt (pm_pages mem) h"
    using ok(1) by (simp add: groups_ok_append groups_ok_Cons)
  obtain t where t: "rb_tree (pp_free_pages pool) (pm_rb mem) t" "inorder t = map page_rb (heads ?G)"
    using ok(6) by blast
  have "page_rb h \<in> set (inorder t)" "page_rb c \<notin> set (inorder t)" using t(2) c(1) by auto
  then obtain tree rb t' where r: "st_rbtree_replace (st_pagepool_cmp_compound_page (pm_pages mem)) (pp_free_pages pool)
      (pm_rb mem) (page_rb h) (page_rb c) = Some (ST_OK, tree, rb)"
    "rt_sentinel tree = rt_sentinel (pp_free_pages pool)" "rb_tree tree rb t'"
    "inorder t' = map (\<lambda>z. if z = page_rb h then page_rb c else z) (inorder t)"
    "rb (page_rb h) = st_rbtree_node_empty"
    "\<And>z. z \<noteq> page_rb c \<Longrightarrow> z \<notin> set (inorder t) \<Longrightarrow> rb z = pm_rb mem z"
    using rbtree_replace_ok[OF t(1), of "page_rb h" "page_rb c" "st_pagepool_cmp_compound_page (pm_pages mem)"]
      ok(7)[OF c(2,1)] ok(8)[OF c(2)] cnt by (auto simp: cleared_def)
  have hn: "h \<notin> set (heads G1)" "h \<notin> set (heads G2)" using d heads_members by auto
  have io: "inorder t' = map page_rb (heads ?G')"
    using r(4) t(2) hn by (auto simp: map_idI)
  have cl: "cleared (rb (page_rb p))" if "p \<in> P" "p \<notin> set (heads ?G')" for p
  proof (cases "p = h")
    case False
    then have "page_rb p \<notin> set (inorder t)" "p \<notin> set (heads ?G)" using that t(2) by auto
    moreover have "page_rb p \<noteq> page_rb c" using that(2) by auto
    ultimately show ?thesis using r(6) ok(7)[OF that(1)] by simp
  qed (use r in \<open>simp add: cleared_def st_rbtree_node_empty_def\<close>)
  have "groups_ok (pm_pages mem) ?G'" using ok(1) by (auto simp: groups_ok_append groups_ok_Cons)
  then have "free_groups (pool\<lparr>pp_free_pages := tree\<rparr>) (mem\<lparr>pm_rb := rb, pm_list := lm\<rparr>) P ?G'"
    using tails ok(3,4) r(2,3) io cl by (intro free_groupsI[of _ _ _ _ t']) auto
  moreover have "lm x = pm_list mem x" if "x \<notin> page_ln ` set (members ?G)" for x
    by (rule lm(3)) (use that in auto)
  moreover have "rb x = pm_rb mem x" if "x \<notin> page_rb ` P" for x
    by (rule r(6)) (use that t(2) c(2) ok(5) in auto)
  ultimately show ?thesis using lm(1) r(1,2) by blast
qed

text \<open>A run of a length that occurs joins the list of its group.\<close>

lemma append_tail:
  assumes "free_groups pool mem P (G1 @ (h, ts) # G2)" "p \<in> P" "p \<notin> set (members (G1 @ (h, ts) # G2))"
    "page_cnt (pm_pages mem) p = page_cnt (pm_pages mem) h"
  shows "\<exists>lm. st_list_insert_last (pm_list mem) (page_ln h) (page_ln p) = Some lm \<and>
    free_groups pool (mem\<lparr>pm_list := lm\<rparr>) P (G1 @ (h, ts @ [p]) # G2) \<and>
    (\<forall>x. x \<notin> page_ln ` insert p (set (members (G1 @ (h, ts) # G2))) \<longrightarrow> lm x = pm_list mem x)"
proof -
  let ?G = "G1 @ (h, ts) # G2" and ?G' = "G1 @ (h, ts @ [p]) # G2"
  note ok = free_groups_parts[OF assms(1)]
  have d: "distinct (members ?G)" using ok(1) by (simp add: groups_ok_def)
  obtain lm where lm: "st_list_insert_last (pm_list mem) (page_ln h) (page_ln p) = Some lm"
    "clist lm (page_ln h) (map page_ln ts @ [page_ln p])"
    "\<And>x. x \<notin> page_ln ` set (h # p # ts) \<Longrightarrow> lm x = pm_list mem x"
    using list_insert_last_clist[of "pm_list mem" "page_ln h" "map page_ln ts" "page_ln p"] ok(2) assms(3) by auto
  have same: "lm (page_ln x) = pm_list mem (page_ln x)" if "x \<in> set (members G1) \<union> set (members G2)" for x
    by (rule lm(3)) (use that d assms(3) in auto)
  have tails: "tails_in_lists lm ?G'"
    using lm(2) tails_frame[of "pm_list mem" G1 lm] tails_frame[of "pm_list mem" G2 lm] same ok(2) by simp
  have g: "groups_ok (pm_pages mem) ?G'"
    using ok(1) assms(3,4) by (auto simp: groups_ok_append groups_ok_Cons)
  obtain t where t: "rb_tree (pp_free_pages pool) (pm_rb mem) t" "inorder t = map page_rb (heads ?G)"
    using ok(6) by blast
  have "free_groups pool (mem\<lparr>pm_list := lm\<rparr>) P ?G'"
    using tails g ok(3,4,7) t assms(2) by (intro free_groupsI[of _ _ _ _ t]) auto
  moreover have "lm x = pm_list mem x" if "x \<notin> page_ln ` insert p (set (members ?G))" for x
    by (rule lm(3)) (use that in auto)
  ultimately show ?thesis using lm(1) by blast
qed

text \<open>A run of a new length enters the tree as a group of its own.\<close>

lemma insert_group:
  assumes "free_groups pool mem P (G1 @ G2)" "p \<in> P" "p \<notin> set (members (G1 @ G2))"
    "\<And>h. h \<in> set (heads G1) \<Longrightarrow> page_cnt (pm_pages mem) h < page_cnt (pm_pages mem) p"
    "\<And>h. h \<in> set (heads G2) \<Longrightarrow> page_cnt (pm_pages mem) p < page_cnt (pm_pages mem) h"
  shows "\<exists>tree rb e lm.
    st_rbtree_insert (st_pagepool_cmp_compound_page (pm_pages mem)) (pp_free_pages pool) (pm_rb mem) (page_rb p) 1 =
      Some (ST_OK, tree, rb, e) \<and>
    st_list_init (pm_list mem) (page_ln p) = Some lm \<and>
    rt_sentinel tree = rt_sentinel (pp_free_pages pool) \<and>
    free_groups (pool\<lparr>pp_free_pages := tree\<rparr>) (mem\<lparr>pm_rb := rb, pm_list := lm\<rparr>) P (G1 @ (p, []) # G2) \<and>
    (\<forall>x. x \<noteq> page_ln p \<longrightarrow> lm x = pm_list mem x) \<and> (\<forall>x. x \<notin> page_rb ` P \<longrightarrow> rb x = pm_rb mem x)"
proof -
  let ?cmp = "st_pagepool_cmp_compound_page (pm_pages mem)" and ?G' = "G1 @ (p, []) # G2"
  note ok = free_groups_parts[OF assms(1)]
  obtain t where t: "rb_tree (pp_free_pages pool) (pm_rb mem) t" "inorder t = map page_rb (heads (G1 @ G2))"
    using ok(6) by blast
  have s: "sorted_by ?cmp (inorder t)"
    unfolding t(2) using ok(1) by (intro sorted_page_rb) (simp only: groups_ok_def)
  have n: "page_rb p \<notin> set (inorder t)" using t(2) assms(3) heads_members by auto
  have oi: "ordered_insert ?cmp (page_rb p) (inorder t) = map page_rb (heads ?G')"
    unfolding t(2) heads_simps map_append using assms(4,5)
    by (subst ordered_insert_split) (auto simp: not_less less_imp_le)
  have "comparator UNIV ?cmp" using cmp_compound_three_way by (simp add: three_way_def)
  from rbtree_insert_ok[OF this t(1) _ s n, of 1] oi ok(8)[OF assms(2)]
  obtain tree rb e t' where i: "st_rbtree_insert ?cmp (pp_free_pages pool) (pm_rb mem) (page_rb p) 1 = Some (ST_OK, tree, rb, e)"
    "rt_sentinel tree = rt_sentinel (pp_free_pages pool)" "rb_tree tree rb t'" "inorder t' = map page_rb (heads ?G')"
    "\<And>x. x \<noteq> page_rb p \<Longrightarrow> x \<notin> set (inorder t) \<Longrightarrow> rb x = pm_rb mem x"
    by auto
  obtain lm where lm: "st_list_init (pm_list mem) (page_ln p) = Some lm" "clist lm (page_ln p) []"
    "\<And>x. x \<noteq> page_ln p \<Longrightarrow> lm x = pm_list mem x"
    using list_init_clist[of "page_ln p" "pm_list mem"] by auto
  have "tails_in_lists lm (G1 @ G2)"
    using ok(2) by (rule tails_frame) (rule lm(3), use assms(3) in auto)
  then have tails: "tails_in_lists lm ?G'" using lm(2) by simp
  have g: "groups_ok (pm_pages mem) ?G'"
    using ok(1) assms(3-5) by (auto simp: groups_ok_append groups_ok_Cons)
  have cl: "cleared (rb (page_rb q))" if "q \<in> P" "q \<notin> set (heads ?G')" for q
    using i(5)[of "page_rb q"] that t(2) ok(7)[of q] by auto
  have "free_groups (pool\<lparr>pp_free_pages := tree\<rparr>) (mem\<lparr>pm_rb := rb, pm_list := lm\<rparr>) P ?G'"
    using tails g ok(3,4) i(2-4) cl assms(2) by (intro free_groupsI[of _ _ _ _ t']) auto
  moreover have "rb x = pm_rb mem x" if "x \<notin> page_rb ` P" for x
    by (rule i(5)) (use that t(2) assms(2) ok(5) in auto)
  ultimately show ?thesis using i(1,2) lm(1,3) by blast
qed

section \<open>The operations\<close>

text \<open>What an operation on the index may change.\<close>

definition index_frame :: "addr set \<Rightarrow> addr set \<Rightarrow> st_pagepool \<Rightarrow> page_mem \<Rightarrow> st_pagepool \<Rightarrow> page_mem \<Rightarrow> bool" where
  "index_frame P F pool mem pool' mem' \<longleftrightarrow>
     (\<exists>tree. pool' = pool\<lparr>pp_free_pages := tree\<rparr> \<and> rt_sentinel tree = rt_sentinel (pp_free_pages pool)) \<and>
     pm_pages mem' = pm_pages mem \<and>
     (\<forall>x. x \<notin> page_ln ` F \<longrightarrow> pm_list mem' x = pm_list mem x) \<and>
     (\<forall>x. x \<notin> page_rb ` P \<and> x \<noteq> rt_sentinel (pp_free_pages pool) \<longrightarrow> pm_rb mem' x = pm_rb mem x)"

lemma index_frame_same_tree:
  "(\<And>x. x \<notin> page_ln ` F \<Longrightarrow> lm x = pm_list mem x) \<Longrightarrow> index_frame P F pool mem pool (mem\<lparr>pm_list := lm\<rparr>)"
  unfolding index_frame_def by (intro conjI exI[of _ "pp_free_pages pool"]) auto

lemma split_sorted:
  assumes "sorted_wrt (\<lambda>h h'. f h < (f h' :: int)) (heads G)" "\<forall>h \<in> set (heads G). f h \<noteq> c"
  obtains G1 G2 where "G = G1 @ G2" "\<And>h. h \<in> set (heads G1) \<Longrightarrow> f h < c" "\<And>h. h \<in> set (heads G2) \<Longrightarrow> c < f h"
proof -
  have "\<exists>G1 G2. G = G1 @ G2 \<and> (\<forall>h \<in> set (heads G1). f h < c) \<and> (\<forall>h \<in> set (heads G2). c < f h)"
    using assms
  proof (induction G)
    case (Cons g G)
    obtain h ts where g: "g = (h, ts)" by (cases g)
    show ?case
    proof (cases "f h < c")
      case True
      then obtain G1 G2 where "G = G1 @ G2" "\<forall>h \<in> set (heads G1). f h < c" "\<forall>h \<in> set (heads G2). c < f h"
        using Cons g by auto
      then show ?thesis using g True by (intro exI[of _ "g # G1"] exI[of _ G2]) auto
    next
      case False
      then have "\<forall>h' \<in> set (heads (g # G)). c < f h'" using Cons.prems g by force
      then show ?thesis by (intro exI[of _ "[]"] exI[of _ "g # G"]) simp
    qed
  qed simp
  then show ?thesis using that by blast
qed

lemma head_split:
  assumes "h \<in> set (heads G)"
  obtains G1 ts G2 where "G = G1 @ (h, ts) # G2"
  using assms that by (auto simp: heads_def) (metis split_list)

text \<open>\<^verbatim>\<open>st_pagepool_add_pages\<close> adds the run, whether its length occurs already or not.\<close>

lemma add_pages_ok:
  assumes "free_index pool mem P F" "p \<in> P" "p \<notin> F"
  shows "\<exists>pool' mem'. st_pagepool_add_pages pool mem p = Some (pool', mem') \<and>
    free_index pool' mem' P (insert p F) \<and> index_frame P (insert p F) pool mem pool' mem'"
proof -
  obtain G where G: "free_groups pool mem P G" "F = set (members G)" using assms(1) by (auto simp: free_index_def)
  note ok = free_groups_parts[OF G(1)]
  let ?c = "page_cnt (pm_pages mem)"
  obtain t where t: "rb_tree (pp_free_pages pool) (pm_rb mem) t" "inorder t = map page_rb (heads G)"
    using ok(6) by blast
  have s: "sorted_wrt (\<lambda>h h'. ?c h < ?c h') (heads G)" using ok(1) by (simp add: groups_ok_def)
  obtain n where n: "st_rbtree_search (st_pagepool_cmp_compound_page (pm_pages mem)) (pp_free_pages pool)
      (pm_rb mem) (page_rb p) ST_SIDE_EQ = Some n"
    "if \<exists>h \<in> set (heads G). ?c h = ?c p then \<exists>h \<in> set (heads G). n = page_rb h \<and> ?c h = ?c p else n = NULL"
    using search_eq_nodes[OF t s, of p] by blast
  show ?thesis
  proof (cases "\<exists>h \<in> set (heads G). ?c h = ?c p")
    case True
    then obtain h where h: "h \<in> set (heads G)" "n = page_rb h" "?c p = ?c h" using n(2) by auto
    obtain G1 ts G2 where g: "G = G1 @ (h, ts) # G2" using head_split[OF h(1)] by blast
    obtain lm where lm: "st_list_insert_last (pm_list mem) (page_ln h) (page_ln p) = Some lm"
      "free_groups pool (mem\<lparr>pm_list := lm\<rparr>) P (G1 @ (h, ts @ [p]) # G2)"
      "\<And>x. x \<notin> page_ln ` insert p F \<Longrightarrow> lm x = pm_list mem x"
      using append_tail[of pool mem P G1 h ts G2 p] G g assms(2,3) h(3) by auto
    have "free_index pool (mem\<lparr>pm_list := lm\<rparr>) P (insert p F)"
      unfolding free_index_def using lm(2) G(2) g by (intro exI[of _ "G1 @ (h, ts @ [p]) # G2"]) auto
    moreover have "index_frame P (insert p F) pool mem pool (mem\<lparr>pm_list := lm\<rparr>)"
      using lm(3) by (rule index_frame_same_tree)
    ultimately show ?thesis using n(1) h(2) lm(1) by (simp add: st_pagepool_add_pages_def)
  next
    case False
    then have ne: "\<forall>h \<in> set (heads G). ?c h \<noteq> ?c p" "n = NULL" using n(2) by auto
    obtain G1 G2 where g: "G = G1 @ G2" "\<And>h. h \<in> set (heads G1) \<Longrightarrow> ?c h < ?c p" "\<And>h. h \<in> set (heads G2) \<Longrightarrow> ?c p < ?c h"
      using split_sorted[OF s ne(1)] by blast
    obtain tree rb e lm where i:
      "st_rbtree_insert (st_pagepool_cmp_compound_page (pm_pages mem)) (pp_free_pages pool) (pm_rb mem) (page_rb p) 1 =
        Some (ST_OK, tree, rb, e)"
      "st_list_init (pm_list mem) (page_ln p) = Some lm" "rt_sentinel tree = rt_sentinel (pp_free_pages pool)"
      "free_groups (pool\<lparr>pp_free_pages := tree\<rparr>) (mem\<lparr>pm_rb := rb, pm_list := lm\<rparr>) P (G1 @ (p, []) # G2)"
      "\<forall>x. x \<noteq> page_ln p \<longrightarrow> lm x = pm_list mem x" "\<forall>x. x \<notin> page_rb ` P \<longrightarrow> rb x = pm_rb mem x"
      using insert_group[OF G(1)[unfolded g(1)] assms(2) _ g(2,3)] G(2) g(1) assms(3) by auto
    have "free_index (pool\<lparr>pp_free_pages := tree\<rparr>) (mem\<lparr>pm_rb := rb, pm_list := lm\<rparr>) P (insert p F)"
      unfolding free_index_def using i(4) G(2) g(1) by (intro exI[of _ "G1 @ (p, []) # G2"]) auto
    moreover have "index_frame P (insert p F) pool mem (pool\<lparr>pp_free_pages := tree\<rparr>) (mem\<lparr>pm_rb := rb, pm_list := lm\<rparr>)"
      using i(3,5,6) by (auto simp: index_frame_def)
    ultimately show ?thesis using n(1) ne(2) i(1,2) by (simp add: st_pagepool_add_pages_def)
  qed
qed

text \<open>\<^verbatim>\<open>st_pagepool_remove_pages\<close> takes the run out, wherever it is.\<close>

lemma index_frame_delete:
  "rt_sentinel tree = rt_sentinel (pp_free_pages pool) \<Longrightarrow>
   (\<forall>x. x \<notin> page_rb ` P \<and> x \<noteq> rt_sentinel tree \<longrightarrow> rb x = pm_rb mem x) \<Longrightarrow>
   (\<forall>x. x \<notin> page_ln ` F \<longrightarrow> lm x = pm_list mem x) \<Longrightarrow>
   index_frame P F pool mem (pool\<lparr>pp_free_pages := tree\<rparr>) (mem\<lparr>pm_rb := rb, pm_list := lm\<rparr>)"
  by (auto simp: index_frame_def)

lemma remove_pages_ok:
  assumes "free_index pool mem P F" "p \<in> F"
  shows "\<exists>pool' mem'. st_pagepool_remove_pages pool mem p = Some (pool', mem') \<and>
    free_index pool' mem' P (F - {p}) \<and> index_frame P F pool mem pool' mem'"
proof -
  obtain G where G: "free_groups pool mem P G" "F = set (members G)" using assms(1) by (auto simp: free_index_def)
  obtain G1 h ts G2 where g: "G = G1 @ (h, ts) # G2" "p = h \<or> p \<in> set ts"
    using member_split[of p G] assms(2) G(2) by blast
  note ok = free_groups_parts[OF G(1)]
  have d: "distinct (members G)" using ok(1) by (simp add: groups_ok_def)
  obtain t where t: "rb_tree (pp_free_pages pool) (pm_rb mem) t" "inorder t = map page_rb (heads G)"
    using ok(6) by blast
  consider (tail) a b where "ts = a @ p # b" | (single) "p = h" "ts = []" | (head) c us where "p = h" "ts = c # us"
    using g(2) by (metis neq_Nil_conv split_list)
  then show ?thesis
  proof cases
    case tail
    have "p \<notin> set (heads G)" using d g(1) tail heads_members by auto
    then have "st_rbtree_node_is_inited (pm_rb mem) (page_rb p) = Some False"
      using ok(3) ok(7)[of p] assms(2) G(2) by (intro cleared_not_inited) auto
    moreover obtain lm where lm: "st_list_remove (pm_list mem) (page_ln p) = Some lm"
      "free_groups pool (mem\<lparr>pm_list := lm\<rparr>) P (G1 @ (h, a @ b) # G2)"
      "\<And>x. x \<notin> page_ln ` F \<Longrightarrow> lm x = pm_list mem x"
      using remove_tail[of pool mem P G1 h a p b G2] G g(1) tail by auto
    moreover have "free_index pool (mem\<lparr>pm_list := lm\<rparr>) P (F - {p})"
      unfolding free_index_def using lm(2) G(2) g(1) tail d by (intro exI[of _ "G1 @ (h, a @ b) # G2"]) auto
    moreover have "index_frame P F pool mem pool (mem\<lparr>pm_list := lm\<rparr>)"
      using lm(3) by (rule index_frame_same_tree)
    ultimately show ?thesis by (simp add: st_pagepool_remove_pages_def)
  next
    case single
    have "st_rbtree_node_is_inited (pm_rb mem) (page_rb p) = Some True"
      using rb_tree_inited[OF t(1)] t(2) g(1) single by simp
    moreover have "st_list_empty (pm_list mem) (page_ln p) = Some True"
      using ok(2) g(1) single clist_empty_iff[of "pm_list mem" "page_ln h" "[]"] by simp
    moreover obtain tree rb where r: "st_rbtree_delete (pp_free_pages pool) (pm_rb mem) (page_rb p) = Some (ST_OK, tree, rb)"
      "rt_sentinel tree = rt_sentinel (pp_free_pages pool)"
      "free_groups (pool\<lparr>pp_free_pages := tree\<rparr>) (mem\<lparr>pm_rb := rb\<rparr>) P (G1 @ G2)"
      "\<forall>x. x \<notin> page_rb ` P \<and> x \<noteq> rt_sentinel tree \<longrightarrow> rb x = pm_rb mem x"
      using remove_single[of pool mem P G1 p G2] G g(1) single by auto
    moreover have "free_index (pool\<lparr>pp_free_pages := tree\<rparr>) (mem\<lparr>pm_rb := rb\<rparr>) P (F - {p})"
      unfolding free_index_def using r(3) G(2) g(1) single d by (intro exI[of _ "G1 @ G2"]) auto
    ultimately show ?thesis
      using index_frame_delete[OF r(2,4), where F = F and lm = "pm_list mem"] by (simp add: st_pagepool_remove_pages_def)
  next
    case head
    have "st_rbtree_node_is_inited (pm_rb mem) (page_rb p) = Some True"
      using rb_tree_inited[OF t(1)] t(2) g(1) head by simp
    moreover have "st_list_empty (pm_list mem) (page_ln p) = Some False" "st_list_first (pm_list mem) (page_ln p) = Some (page_ln c)"
      using ok(2) g(1) head clist_empty_iff[of "pm_list mem" "page_ln h" "map page_ln ts"]
        clist_first[of "pm_list mem" "page_ln h" "map page_ln ts"] by simp_all
    moreover obtain lm tree rb where r: "st_list_remove (pm_list mem) (page_ln p) = Some lm"
      "st_rbtree_replace (st_pagepool_cmp_compound_page (pm_pages mem)) (pp_free_pages pool) (pm_rb mem)
        (page_rb p) (page_rb c) = Some (ST_OK, tree, rb)"
      "rt_sentinel tree = rt_sentinel (pp_free_pages pool)"
      "free_groups (pool\<lparr>pp_free_pages := tree\<rparr>) (mem\<lparr>pm_rb := rb, pm_list := lm\<rparr>) P (G1 @ (c, us) # G2)"
      "\<forall>x. x \<notin> page_ln ` F \<longrightarrow> lm x = pm_list mem x" "\<forall>x. x \<notin> page_rb ` P \<and> x \<noteq> rt_sentinel tree \<longrightarrow> rb x = pm_rb mem x"
      using remove_head[of pool mem P G1 p c us G2] G g(1) head by auto
    moreover have "free_index (pool\<lparr>pp_free_pages := tree\<rparr>) (mem\<lparr>pm_rb := rb, pm_list := lm\<rparr>) P (F - {p})"
      unfolding free_index_def using r(4) G(2) g(1) head d by (intro exI[of _ "G1 @ (c, us) # G2"]) auto
    ultimately show ?thesis
      using index_frame_delete[OF r(3,6,5)] by (simp add: st_pagepool_remove_pages_def)
  qed
qed

text \<open>The search and the removal in \<^verbatim>\<open>st_pagepool_get_free_pages\<close>: a shortest run that is long enough.\<close>

lemma member_head:
  assumes "groups_ok pages G" "x \<in> set (members G)"
  obtains h where "h \<in> set (heads G)" "page_cnt pages h = page_cnt pages x"
proof -
  obtain G1 h ts G2 where "G = G1 @ (h, ts) # G2" "x = h \<or> x \<in> set ts" using member_split[OF assms(2)] by blast
  then show ?thesis using that[of h] assms(1) by (auto simp: groups_ok_append groups_ok_Cons)
qed

lemma to_int16_id: "- 32768 \<le> x \<Longrightarrow> x < 32768 \<Longrightarrow> to_int16 x = x"
  by (simp add: to_int16_def)

definition best_fit :: "pages \<Rightarrow> addr set \<Rightarrow> int \<Rightarrow> addr \<Rightarrow> bool" where
  "best_fit pages F c p \<longleftrightarrow> p \<in> F \<and> c \<le> page_cnt pages p \<and>
     (\<forall>q \<in> F. c \<le> page_cnt pages q \<longrightarrow> page_cnt pages p \<le> page_cnt pages q)"

lemma fit_search:
  assumes "free_groups pool mem P G" "tmp \<notin> P" "0 < c" "c < 32768"
  shows "\<exists>n. st_rbtree_search (st_pagepool_cmp_compound_page
        ((pm_pages mem)(tmp := zero_page\<lparr>pg_compound_page_cnt := to_int16 c\<rparr>)))
      (pp_free_pages pool) (pm_rb mem) (page_rb tmp) ST_SIDE_RIGHT_EQ = Some n \<and>
    (if \<exists>q \<in> set (members G). c \<le> page_cnt (pm_pages mem) q
     then \<exists>h \<in> set (heads G). n = page_rb h \<and> best_fit (pm_pages mem) (set (members G)) c h
     else n = NULL)"
proof -
  let ?pages = "(pm_pages mem)(tmp := zero_page\<lparr>pg_compound_page_cnt := to_int16 c\<rparr>)" and ?c = "page_cnt (pm_pages mem)"
  note ok = free_groups_parts[OF assms(1)]
  obtain t where t: "rb_tree (pp_free_pages pool) (pm_rb mem) t" "inorder t = map page_rb (heads G)"
    using ok(6) by blast
  have same: "?pages x = pm_pages mem x" if "x \<in> P" for x using that assms(2) by auto
  have "groups_ok ?pages G" using ok(1) by (rule groups_ok_pages) (use ok(3) assms(2) in auto)
  then have s: "sorted_wrt (\<lambda>h h'. page_cnt ?pages h < page_cnt ?pages h') (heads G)" by (simp only: groups_ok_def)
  have c: "page_cnt ?pages tmp = c" using assms(3,4) by (simp add: to_int16_id)
  have hc: "page_cnt ?pages h = ?c h" if "h \<in> set (heads G)" for h using that ok(5) assms(2) by auto
  have mh: "(\<exists>q \<in> set (members G). Q (?c q)) \<longleftrightarrow> (\<exists>h \<in> set (heads G). Q (?c h))" for Q
    using member_head[OF ok(1)] heads_members by metis
  obtain n where n: "st_rbtree_search (st_pagepool_cmp_compound_page ?pages) (pp_free_pages pool) (pm_rb mem)
      (page_rb tmp) ST_SIDE_RIGHT_EQ = Some n"
    "if \<exists>h \<in> set (heads G). c \<le> page_cnt ?pages h
     then \<exists>h \<in> set (heads G). n = page_rb h \<and> c \<le> page_cnt ?pages h \<and>
       (\<forall>g \<in> set (heads G). c \<le> page_cnt ?pages g \<longrightarrow> page_cnt ?pages h \<le> page_cnt ?pages g)
     else n = NULL"
    using search_fit_nodes[OF t s, of tmp] unfolding c by blast
  show ?thesis
  proof (cases "\<exists>q \<in> set (members G). c \<le> ?c q")
    case True
    then have "\<exists>h \<in> set (heads G). c \<le> page_cnt ?pages h" using mh[of "\<lambda>k. c \<le> k"] hc by auto
    with n(2) obtain h where h: "h \<in> set (heads G)" "n = page_rb h" "c \<le> page_cnt ?pages h"
      "\<And>g. g \<in> set (heads G) \<Longrightarrow> c \<le> page_cnt ?pages g \<Longrightarrow> page_cnt ?pages h \<le> page_cnt ?pages g"
      by (simp only: if_True) blast
    have "?c h \<le> ?c q" if "q \<in> set (members G)" "c \<le> ?c q" for q
      using member_head[OF ok(1) that(1)] h(1,4) hc that(2) by metis
    then have "best_fit (pm_pages mem) (set (members G)) c h"
      using h(1,3) hc heads_members by (auto simp: best_fit_def)
    then show ?thesis using True n(1) h(1,2) by auto
  next
    case False
    then have "\<not> (\<exists>h \<in> set (heads G). c \<le> page_cnt ?pages h)" using mh[of "\<lambda>k. c \<le> k"] hc by auto
    then show ?thesis using False n by (simp only: if_False) blast
  qed
qed

lemma get_free_none:
  assumes "free_index pool mem P F" "tmp \<notin> P" "0 < c" "c < 32768" "\<not> (\<exists>q \<in> F. c \<le> page_cnt (pm_pages mem) q)"
  shows "st_pagepool_get_free_pages tmp pool mem c = Some (ST_NOT_FOUND, None, pool, mem)"
proof -
  obtain G where G: "free_groups pool mem P G" "F = set (members G)" using assms(1) by (auto simp: free_index_def)
  show ?thesis
    using fit_search[OF G(1) assms(2-4)] assms(5) G(2) by (auto simp: st_pagepool_get_free_pages_def)
qed

lemma get_free_take:
  assumes "free_index pool mem P F" "tmp \<notin> P" "0 < c" "c < 32768" "\<exists>q \<in> F. c \<le> page_cnt (pm_pages mem) q"
  shows "\<exists>p pool' mem'. best_fit (pm_pages mem) F c p \<and> free_index pool' mem' P (F - {p}) \<and>
    index_frame P F pool mem pool' mem' \<and>
    st_pagepool_get_free_pages tmp pool mem c = do {
      (pool, mem) \<leftarrow> split_and_add pool' mem' p c;
      Some (ST_OK, Some p, pool, mem) }"
proof -
  obtain G where G: "free_groups pool mem P G" "F = set (members G)" using assms(1) by (auto simp: free_index_def)
  note ok = free_groups_parts[OF G(1)]
  have d: "distinct (members G)" using ok(1) by (simp add: groups_ok_def)
  obtain h where h: "h \<in> set (heads G)" "best_fit (pm_pages mem) F c h"
    and search: "st_rbtree_search (st_pagepool_cmp_compound_page
        ((pm_pages mem)(tmp := zero_page\<lparr>pg_compound_page_cnt := to_int16 c\<rparr>)))
      (pp_free_pages pool) (pm_rb mem) (page_rb tmp) ST_SIDE_RIGHT_EQ = Some (page_rb h)"
    using fit_search[OF G(1) assms(2-4)] assms(5) G(2) by auto
  obtain G1 ts G2 where g: "G = G1 @ (h, ts) # G2" using head_split[OF h(1)] by blast
  have cl: "clist (pm_list mem) (page_ln h) (map page_ln ts)" using ok(2) g by simp
  show ?thesis
  proof (cases ts rule: rev_cases)
    case Nil
    obtain tree rb where r: "st_rbtree_delete (pp_free_pages pool) (pm_rb mem) (page_rb h) = Some (ST_OK, tree, rb)"
      "rt_sentinel tree = rt_sentinel (pp_free_pages pool)"
      "free_groups (pool\<lparr>pp_free_pages := tree\<rparr>) (mem\<lparr>pm_rb := rb\<rparr>) P (G1 @ G2)"
      "\<forall>x. x \<notin> page_rb ` P \<and> x \<noteq> rt_sentinel tree \<longrightarrow> rb x = pm_rb mem x"
      using remove_single[of pool mem P G1 h G2] G g Nil by auto
    have "free_index (pool\<lparr>pp_free_pages := tree\<rparr>) (mem\<lparr>pm_rb := rb\<rparr>) P (F - {h})"
      unfolding free_index_def using r(3) G(2) g Nil d by (intro exI[of _ "G1 @ G2"]) auto
    moreover have "index_frame P F pool mem (pool\<lparr>pp_free_pages := tree\<rparr>) (mem\<lparr>pm_rb := rb\<rparr>)"
      using index_frame_delete[OF r(2,4), where F = F and lm = "pm_list mem"] by simp
    moreover have "st_list_empty (pm_list mem) (page_ln h) = Some True" using clist_empty_iff[OF cl] Nil by simp
    ultimately show ?thesis
      using h(2) search r(1) by (intro exI[of _ h] exI[of _ "pool\<lparr>pp_free_pages := tree\<rparr>"] exI[of _ "mem\<lparr>pm_rb := rb\<rparr>"])
        (simp add: st_pagepool_get_free_pages_def)
  next
    case (snoc us l)
    obtain lm where lm: "st_list_remove (pm_list mem) (page_ln l) = Some lm"
      "free_groups pool (mem\<lparr>pm_list := lm\<rparr>) P (G1 @ (h, us) # G2)"
      "\<And>x. x \<notin> page_ln ` F \<Longrightarrow> lm x = pm_list mem x"
      using remove_tail[of pool mem P G1 h us l "[]" G2] G g snoc by auto
    have "free_index pool (mem\<lparr>pm_list := lm\<rparr>) P (F - {l})"
      unfolding free_index_def using lm(2) G(2) g snoc d by (intro exI[of _ "G1 @ (h, us) # G2"]) auto
    moreover have "index_frame P F pool mem pool (mem\<lparr>pm_list := lm\<rparr>)"
      using lm(3) by (rule index_frame_same_tree)
    moreover have "st_list_empty (pm_list mem) (page_ln h) = Some False" "st_list_last (pm_list mem) (page_ln h) = Some (page_ln l)"
      using clist_empty_iff[OF cl] clist_last[OF cl] snoc by simp_all
    moreover have "page_cnt (pm_pages mem) l = page_cnt (pm_pages mem) h"
      using ok(1) g snoc by (simp add: groups_ok_append groups_ok_Cons)
    then have "best_fit (pm_pages mem) F c l" using h(2) G(2) g snoc by (simp add: best_fit_def)
    ultimately show ?thesis
      using search lm(1) by (intro exI[of _ l] exI[of _ pool] exI[of _ "mem\<lparr>pm_list := lm\<rparr>"])
        (simp add: st_pagepool_get_free_pages_def)
  qed
qed

end
