(* ===== verification/Pagepool_Layout.thy ===== *)
theory Pagepool_Layout
  imports Pagepool_Free
begin

text \<open>
  The descriptors of a region as a sequence of runs.  A run of \<open>n\<close> pages is described alike in all
  its descriptors, the first being the master.  Splitting and merging are shown to rewrite the
  descriptors so that they describe the split and the merged sequence.
\<close>

section \<open>Arrays of descriptors\<close>

definition page_range :: "addr \<Rightarrow> nat \<Rightarrow> addr set" where
  "page_range p n = (\<lambda>i. p + sizeof_page * i) ` {..<n}"

lemma page_add_nat [simp]: "page_add p (int i) = p + sizeof_page * i"
  by (simp add: page_add_def nat_add_distrib nat_mult_distrib)

lemma page_range_0 [simp]: "page_range p 0 = {}"
  by (simp add: page_range_def)

lemma in_page_range: "q \<in> page_range p n \<longleftrightarrow> (\<exists>i < n. q = p + sizeof_page * i)"
  by (auto simp: page_range_def)

lemma page_range_add: "page_range p (m + n) = page_range p m \<union> page_range (p + sizeof_page * m) n"
proof -
  have "{..<m + n} = {..<m} \<union> (\<lambda>i. m + i) ` {..<n}"
    by (induction n) (auto simp: lessThan_Suc)
  then show ?thesis by (auto simp: page_range_def image_Un image_image algebra_simps)
qed

lemma page_range_disjoint: "page_range p m \<inter> page_range (p + sizeof_page * m) n = {}"
  by (auto simp: page_range_def sizeof_page_def)

lemma page_range_start: "0 < n \<Longrightarrow> p \<in> page_range p n"
  by (force simp: in_page_range)

lemma fold_pages:
  assumes "inj fld"
  shows "fold (\<lambda>i m. m(fld (p + sizeof_page * i) := f (m (fld (p + sizeof_page * i))))) [0..<n] m x =
    (if x \<in> fld ` page_range p n then f (m x) else m x)"
proof (induction n)
  case (Suc n)
  have "fld (p + sizeof_page * n) \<notin> fld ` page_range p n"
  proof
    assume "fld (p + sizeof_page * n) \<in> fld ` page_range p n"
    then obtain i where "i < n" "p + sizeof_page * n = p + sizeof_page * i"
      using assms by (metis (no_types, lifting) imageE in_page_range injD)
    then show False by (simp add: sizeof_page_def)
  qed
  moreover have "page_range p (Suc n) = insert (p + sizeof_page * n) (page_range p n)"
    by (simp add: page_range_def lessThan_Suc)
  ultimately show ?case using Suc by auto
qed simp

lemma for_pages_apply:
  "inj fld \<Longrightarrow> for_pages n p fld f m x = (if x \<in> fld ` page_range p (nat n) then f (m x) else m x)"
  unfolding for_pages_def page_add_nat by (rule fold_pages)

lemma for_pages_id: "for_pages n p id f m x = (if x \<in> page_range p (nat n) then f (m x) else m x)"
  by (simp add: for_pages_apply)

lemma for_pages_nodes:
  "for_pages n p page_rb f m x = (if x \<in> page_rb ` page_range p (nat n) then f (m x) else m x)"
  "for_pages n p page_ln g m' x = (if x \<in> page_ln ` page_range p (nat n) then g (m' x) else m' x)"
  by (simp_all add: for_pages_apply)

section \<open>Runs\<close>

text \<open>A run: its length and whether it is free.\<close>

type_synonym run = "nat \<times> bool"

definition run_state :: "bool \<Rightarrow> int" where
  "run_state f = (if f then ST_PAGEPOOL_PAGE_FREE else ST_PAGEPOOL_PAGE_ALLOCATED)"

definition run_at :: "pages \<Rightarrow> addr \<Rightarrow> addr \<Rightarrow> nat \<Rightarrow> bool \<Rightarrow> bool" where
  "run_at m r p n f \<longleftrightarrow> (\<forall>i < n. let pg = m (p + sizeof_page * i) in
     pg_region pg = r \<and> pg_state pg = run_state f \<and> pg_compound_page_cnt pg = int n \<and>
     pg_type pg = (if i = 0 then ST_PAGEPOOL_PAGE_MASTER else ST_PAGEPOOL_PAGE_SLAVE))"

fun layout :: "pages \<Rightarrow> addr \<Rightarrow> addr \<Rightarrow> run list \<Rightarrow> bool" where
  "layout m r p [] \<longleftrightarrow> True"
| "layout m r p ((n, f) # bs) \<longleftrightarrow> 0 < n \<and> run_at m r p n f \<and> layout m r (p + sizeof_page * n) bs"

definition total_len :: "run list \<Rightarrow> nat" where
  "total_len bs = sum_list (map fst bs)"

text \<open>The runs with their addresses.\<close>

fun placed :: "addr \<Rightarrow> run list \<Rightarrow> (addr \<times> nat \<times> bool) list" where
  "placed p [] = []"
| "placed p ((n, f) # bs) = (p, n, f) # placed (p + sizeof_page * n) bs"

lemma total_len_simps [simp]:
  "total_len [] = 0" "total_len ((n, f) # bs) = n + total_len bs" "total_len (bs @ cs) = total_len bs + total_len cs"
  by (simp_all add: total_len_def)

lemma placed_append [simp]:
  "placed p (bs @ cs) = placed p bs @ placed (p + sizeof_page * total_len bs) cs"
  by (induction p bs rule: placed.induct) (simp_all add: algebra_simps)

lemma layout_append [simp]:
  "layout m r p (bs @ cs) \<longleftrightarrow> layout m r p bs \<and> layout m r (p + sizeof_page * total_len bs) cs"
  by (induction m r p bs rule: layout.induct) (auto simp: algebra_simps)

lemma run_at_cong:
  assumes "run_at m r p n f" "\<And>x. x \<in> page_range p n \<Longrightarrow> m' x = m x"
  shows "run_at m' r p n f"
proof -
  have "m' (p + sizeof_page * i) = m (p + sizeof_page * i)" if "i < n" for i
    using assms(2) that in_page_range by blast
  then show ?thesis using assms(1) by (simp add: run_at_def Let_def)
qed

lemma layout_cong:
  "layout m r p bs \<Longrightarrow> (\<And>x. x \<in> page_range p (total_len bs) \<Longrightarrow> m' x = m x) \<Longrightarrow> layout m' r p bs"
proof (induction m r p bs rule: layout.induct)
  case (2 m r p n f bs)
  then show ?case using run_at_cong[of m r p n f m'] by (auto simp: page_range_add)
qed simp

lemma placed_split:
  assumes "(p, n, f) \<in> set (placed q bs)"
  obtains xs ys where "bs = xs @ (n, f) # ys" "p = q + sizeof_page * total_len xs"
proof -
  have "\<exists>xs ys. bs = xs @ (n, f) # ys \<and> p = q + sizeof_page * total_len xs"
    using assms
  proof (induction q bs rule: placed.induct)
    case (2 q k g bs)
    show ?case
    proof (cases "(p, n, f) = (q, k, g)")
      case True
      then show ?thesis by (intro exI[of _ "[]"] exI[of _ bs]) simp
    next
      case False
      then obtain xs ys where "bs = xs @ (n, f) # ys" "p = q + sizeof_page * k + sizeof_page * total_len xs"
        using 2 by auto
      then show ?thesis by (intro exI[of _ "(k, g) # xs"] exI[of _ ys]) (simp add: algebra_simps)
    qed
  qed simp
  then show ?thesis using that by blast
qed

lemma placed_range:
  assumes "(p, n, f) \<in> set (placed q bs)"
  shows "page_range p n \<subseteq> page_range q (total_len bs)"
  using placed_split[OF assms] by (metis page_range_add total_len_simps(2,3) sup_ge1 sup_ge2 order_trans)

text \<open>A master descriptor of the region starts a run.\<close>

lemma layout_master:
  assumes "layout m r q bs" "p \<in> page_range q (total_len bs)" "pg_type (m p) = ST_PAGEPOOL_PAGE_MASTER"
  shows "\<exists>f. (p, nat (page_cnt m p), f) \<in> set (placed q bs) \<and> pg_state (m p) = run_state f"
  using assms
proof (induction m r q bs rule: layout.induct)
  case (2 m r q n f bs)
  show ?case
  proof (cases "p \<in> page_range q n")
    case True
    then obtain i where i: "i < n" "p = q + sizeof_page * i" by (auto simp: in_page_range)
    then have "i = 0"
      using 2(2,4) by (auto simp: run_at_def Let_def ST_PAGEPOOL_PAGE_MASTER_def ST_PAGEPOOL_PAGE_SLAVE_def split: if_splits)
    then have "p = q" using i by simp
    moreover have "0 < n" "run_at m r q n f" using 2(2) by auto
    ultimately show ?thesis by (intro exI[of _ f]) (auto simp: run_at_def Let_def)
  next
    case False
    then show ?thesis using 2 by (auto simp: page_range_add)
  qed
qed simp

lemma layout_placed:
  assumes "layout m r q bs" "(p, n, f) \<in> set (placed q bs)"
  shows "0 < n \<and> run_at m r p n f"
  using assms by (induction m r q bs rule: layout.induct) auto

lemma run_at_master:
  assumes "run_at m r p n f" "0 < n"
  shows "pg_region (m p) = r" "pg_state (m p) = run_state f" "page_cnt m p = int n"
    "pg_type (m p) = ST_PAGEPOOL_PAGE_MASTER"
  using assms by (auto simp: run_at_def Let_def)

section \<open>Splitting and merging\<close>

lemma page_range_region:
  assumes "layout m r p bs" "x \<in> page_range p (total_len bs)"
  shows "pg_region (m x) = r"
  using assms
proof (induction m r p bs rule: layout.induct)
  case (2 m r p n f bs)
  then show ?case by (auto simp: page_range_add run_at_def Let_def in_page_range)
qed simp

lemma run_atI:
  assumes "\<And>x. x \<in> page_range p n \<Longrightarrow> pg_region (m x) = r \<and> pg_state (m x) = run_state f \<and>
      pg_compound_page_cnt (m x) = int n \<and>
      pg_type (m x) = (if x = p then ST_PAGEPOOL_PAGE_MASTER else ST_PAGEPOOL_PAGE_SLAVE)"
  shows "run_at m r p n f"
proof -
  have "p + sizeof_page * i \<in> page_range p n" if "i < n" for i using that in_page_range by blast
  then show ?thesis using assms unfolding run_at_def Let_def by (auto simp: sizeof_page_def)
qed

lemma run_atD:
  assumes "run_at m r p n f" "x \<in> page_range p n"
  shows "pg_region (m x) = r" "pg_state (m x) = run_state f" "pg_compound_page_cnt (m x) = int n"
    "pg_type (m x) = (if x = p then ST_PAGEPOOL_PAGE_MASTER else ST_PAGEPOOL_PAGE_SLAVE)"
proof -
  obtain i where "i < n" "x = p + sizeof_page * i" using assms(2) in_page_range by blast
  then show "pg_region (m x) = r" "pg_state (m x) = run_state f" "pg_compound_page_cnt (m x) = int n"
    "pg_type (m x) = (if x = p then ST_PAGEPOOL_PAGE_MASTER else ST_PAGEPOOL_PAGE_SLAVE)"
    using assms(1) by (auto simp: run_at_def Let_def sizeof_page_def)
qed

lemma rewrite_run:
  assumes "\<And>x. x \<in> page_range p n \<Longrightarrow> pg_region (m x) = r" "0 < n" "n < 32768" "p \<noteq> NULL"
  shows "\<exists>m'. upd (for_pages (int n) p id (\<lambda>pg. pg\<lparr>pg_state := ST_PAGEPOOL_PAGE_FREE,
       pg_type := ST_PAGEPOOL_PAGE_SLAVE, pg_compound_page_cnt := to_int16 (int n)\<rparr>) m) p
       (\<lambda>pg. pg\<lparr>pg_type := ST_PAGEPOOL_PAGE_MASTER\<rparr>) = Some m' \<and>
     run_at m' r p n True \<and> (\<forall>x. x \<notin> page_range p n \<longrightarrow> m' x = m x)"
proof -
  have c: "to_int16 (int n) = int n" using assms(3) by (intro to_int16_id) auto
  let ?m = "for_pages (int n) p id (\<lambda>pg. pg\<lparr>pg_state := ST_PAGEPOOL_PAGE_FREE,
       pg_type := ST_PAGEPOOL_PAGE_SLAVE, pg_compound_page_cnt := to_int16 (int n)\<rparr>) m"
  let ?m' = "?m(p := (?m p)\<lparr>pg_type := ST_PAGEPOOL_PAGE_MASTER\<rparr>)"
  have "run_at ?m' r p n True"
    by (rule run_atI) (use assms(1) c page_range_start[OF assms(2), of p] in \<open>auto simp: for_pages_id run_state_def\<close>)
  moreover have "?m' x = m x" if "x \<notin> page_range p n" for x
    using that page_range_start[OF assms(2), of p] by (auto simp: for_pages_id)
  ultimately show ?thesis using assms(4) by simp
qed

lemma split_pages_ok:
  assumes "run_at m r p k True" "0 < c" "c \<le> k" "k < 32768" "p \<noteq> NULL"
  shows "\<exists>m'. st_pagepool_split_pages m p (int c) = Some (if c = k then NULL else p + sizeof_page * c, m') \<and>
     run_at m' r p c False \<and> (c < k \<longrightarrow> run_at m' r (p + sizeof_page * c) (k - c) True) \<and>
     (\<forall>x. x \<notin> page_range p k \<longrightarrow> m' x = m x)"
proof -
  let ?q = "p + sizeof_page * c"
  define u where "u = for_pages (int c) p id (\<lambda>pg. pg\<lparr>pg_compound_page_cnt := to_int16 (int c),
       pg_state := ST_PAGEPOOL_PAGE_ALLOCATED\<rparr>) m"
  define v where "v = for_pages (int k - int c) ?q id (\<lambda>pg. pg\<lparr>pg_compound_page_cnt := to_int16 (int k - int c)\<rparr>) u"
  define w where "w = v(?q := (v ?q)\<lparr>pg_type := ST_PAGEPOOL_PAGE_MASTER\<rparr>)"
  have i16: "to_int16 (int c) = int c" "to_int16 (int k - int c) = int k - int c"
    using assms(2-4) by (auto intro: to_int16_id)
  have kn: "nat (int k - int c) = k - c" "int k - int c = int (k - c)" using assms(3) by auto
  have ux: "u x = (if x \<in> page_range p c then (m x)\<lparr>pg_compound_page_cnt := int c,
       pg_state := ST_PAGEPOOL_PAGE_ALLOCATED\<rparr> else m x)" for x
    by (simp add: u_def for_pages_id i16)
  have vx: "v x = (if x \<in> page_range ?q (k - c) then (u x)\<lparr>pg_compound_page_cnt := int (k - c)\<rparr> else u x)" for x
    unfolding v_def for_pages_id kn(2) nat_int i16(2)[unfolded kn(2)] by (rule refl)
  have cnt: "pg_compound_page_cnt (m p) = int k" using run_at_master(3)[OF assms(1)] assms(2,3) by simp
  have rng: "page_range p k = page_range p c \<union> page_range ?q (k - c)" "page_range p c \<inter> page_range ?q (k - c) = {}"
    using page_range_add[of p c "k - c"] page_range_disjoint[of p c "k - c"] assms(3) by simp_all
  have p: "p \<in> page_range p c" using assms(2) by (rule page_range_start)
  have used: "run_at u r p c False"
    by (rule run_atI) (use run_atD[OF assms(1)] rng in \<open>auto simp: ux run_state_def\<close>)
  show ?thesis
  proof (cases "c = k")
    case True
    have "st_pagepool_split_pages m p (int c) = Some (NULL, u)"
      using True cnt assms(5) by (simp add: st_pagepool_split_pages_def Let_def u_def)
    moreover have "u x = m x" if "x \<notin> page_range p k" for x using that True ux by simp
    ultimately show ?thesis using used True by simp
  next
    case False
    then have q: "?q \<in> page_range ?q (k - c)" "?q \<notin> page_range p c"
      using assms(3) page_range_start[of "k - c" ?q] rng(2) by auto
    have eq: "st_pagepool_split_pages m p (int c) = Some (?q, w)"
      using False cnt assms(5) assms(2) by (simp add: st_pagepool_split_pages_def Let_def w_def v_def u_def)
    have wx: "w x = u x" if "x \<notin> page_range ?q (k - c)" for x
      using that q(1) vx by (auto simp: w_def)
    have "run_at w r p c False" using used by (rule run_at_cong) (use wx rng(2) in auto)
    moreover have "run_at w r ?q (k - c) True"
    proof (rule run_atI)
      fix x assume x: "x \<in> page_range ?q (k - c)"
      then have "x \<in> page_range p k" "x \<notin> page_range p c" "x \<noteq> p" using rng p by auto
      then show "pg_region (w x) = r \<and> pg_state (w x) = run_state True \<and>
          pg_compound_page_cnt (w x) = int (k - c) \<and>
          pg_type (w x) = (if x = ?q then ST_PAGEPOOL_PAGE_MASTER else ST_PAGEPOOL_PAGE_SLAVE)"
        using run_atD[OF assms(1), of x] x by (auto simp: w_def vx ux)
    qed
    moreover have "w x = m x" if "x \<notin> page_range p k" for x
      using that wx[of x] rng(1) ux by auto
    ultimately show ?thesis using eq False by simp
  qed
qed

lemma init_region_ok:
  assumes "region \<noteq> NULL" "pp_pages_per_region pool = int n" "0 < n" "n < 32768"
  shows "\<exists>mem'. st_pagepool_init_region pool mem region = Some mem' \<and> run_at (pm_pages mem') region region n True \<and>
    (\<forall>x. x \<notin> page_range region n \<longrightarrow> pm_pages mem' x = pm_pages mem x) \<and>
    pm_rb mem' = (\<lambda>x. if x \<in> page_rb ` page_range region n then st_rbtree_node_empty else pm_rb mem x) \<and>
    pm_list mem' = (\<lambda>x. if x \<in> page_ln ` page_range region n then \<lparr>l_prev = NULL, l_next = NULL\<rparr> else pm_list mem x)"
proof -
  have c: "to_int16 (int n) = int n" using assms(4) by (intro to_int16_id) auto
  let ?m = "for_pages (int n) region id (\<lambda>pg. pg\<lparr>pg_region := region, pg_state := ST_PAGEPOOL_PAGE_FREE,
       pg_type := ST_PAGEPOOL_PAGE_SLAVE, pg_compound_page_cnt := to_int16 (int n)\<rparr>)
       (for_pages (int n) region id (\<lambda>_. zero_page) (pm_pages mem))"
  let ?m' = "?m(region := (?m region)\<lparr>pg_type := ST_PAGEPOOL_PAGE_MASTER\<rparr>)"
  have r: "region \<in> page_range region n" using assms(3) by (rule page_range_start)
  have "run_at ?m' region region n True"
    by (rule run_atI) (use c r in \<open>auto simp: for_pages_id run_state_def\<close>)
  moreover have "?m' x = pm_pages mem x" if "x \<notin> page_range region n" for x
    using that r by (auto simp: for_pages_id)
  ultimately show ?thesis
    using assms(1,2) by (auto simp: st_pagepool_init_region_def Let_def for_pages_nodes fun_eq_iff)
qed

end
