(* ===== verification/Pagepool_Inv.thy ===== *)
theory Pagepool_Inv
  imports Pagepool_Layout
begin

text \<open>
  The invariant of the page pool, and what allocation and release do to the runs of pages.
\<close>

section \<open>Several regions\<close>

text \<open>The runs of a set of regions \<open>R\<close> whose sequences are given by \<open>L\<close>.\<close>

definition all_runs :: "addr set \<Rightarrow> (addr \<Rightarrow> run list) \<Rightarrow> (addr \<times> nat \<times> bool) set" where
  "all_runs R L = (\<Union>r \<in> R. set (placed r (L r)))"

definition described :: "addr set \<Rightarrow> nat \<Rightarrow> pages \<Rightarrow> (addr \<Rightarrow> run list) \<Rightarrow> bool" where
  "described R n m L \<longleftrightarrow> (\<forall>r \<in> R. layout m r r (L r) \<and> total_len (L r) = n) \<and>
     (\<forall>r \<in> R. \<forall>r' \<in> R. r \<noteq> r' \<longrightarrow> page_range r n \<inter> page_range r' n = {})"

lemma page_range_nonempty: "0 < n \<Longrightarrow> page_range p n \<noteq> {}"
  using page_range_start by blast

lemma placed_disjoint:
  assumes "(p, n, f) \<in> set (placed q bs)" "(p', n', f') \<in> set (placed q bs)" "(p, n, f) \<noteq> (p', n', f')"
  shows "page_range p n \<inter> page_range p' n' = {}"
proof -
  obtain xs ys where bs: "bs = xs @ (n, f) # ys" "p = q + sizeof_page * total_len xs"
    using placed_split[OF assms(1)] by blast
  let ?e = "p + sizeof_page * n"
  consider "(p', n', f') \<in> set (placed q xs)" | "(p', n', f') \<in> set (placed ?e ys)"
    using assms(2,3) bs by auto
  then show ?thesis
  proof cases
    case 1
    then show ?thesis
      using placed_range[OF 1] page_range_disjoint[of q "total_len xs" n] bs(2) by blast
  next
    case 2
    then show ?thesis
      using placed_range[OF 2] page_range_disjoint[of p n "total_len ys"] by blast
  qed
qed

lemma described_disjoint:
  assumes "described R n m L" "(p, k, f) \<in> all_runs R L" "(p', k', f') \<in> all_runs R L" "(p, k, f) \<noteq> (p', k', f')"
  shows "page_range p k \<inter> page_range p' k' = {}"
proof -
  obtain r r' where r: "r \<in> R" "(p, k, f) \<in> set (placed r (L r))" "r' \<in> R" "(p', k', f') \<in> set (placed r' (L r'))"
    using assms(2,3) by (auto simp: all_runs_def)
  show ?thesis
  proof (cases "r = r'")
    case True
    then show ?thesis using placed_disjoint r assms(4) by blast
  next
    case False
    have "page_range p k \<subseteq> page_range r n" "page_range p' k' \<subseteq> page_range r' n"
      using placed_range[OF r(2)] placed_range[OF r(4)] assms(1) r(1,3) by (auto simp: described_def)
    moreover have "page_range r n \<inter> page_range r' n = {}"
      using assms(1) r(1,3) False by (auto simp: described_def)
    ultimately show ?thesis by blast
  qed
qed

lemma described_run:
  assumes "described R n m L" "(p, k, f) \<in> all_runs R L"
  shows "0 < k" "page_cnt m p = int k" "pg_type (m p) = ST_PAGEPOOL_PAGE_MASTER" "pg_state (m p) = run_state f"
    "pg_region (m p) \<in> R" "p \<in> page_range (pg_region (m p)) n"
    "\<exists>r xs ys. r \<in> R \<and> L r = xs @ (k, f) # ys \<and> p = r + sizeof_page * total_len xs \<and> run_at m r p k f \<and>
      page_range p k \<subseteq> page_range r n"
proof -
  obtain r where r: "r \<in> R" "(p, k, f) \<in> set (placed r (L r))" using assms(2) by (auto simp: all_runs_def)
  then have lay: "layout m r r (L r)" "total_len (L r) = n" using assms(1) by (auto simp: described_def)
  have run: "0 < k" "run_at m r p k f" using layout_placed[OF lay(1) r(2)] by auto
  show "0 < k" by (fact run(1))
  show "page_cnt m p = int k" "pg_type (m p) = ST_PAGEPOOL_PAGE_MASTER" "pg_state (m p) = run_state f"
    using run_at_master[OF run(2,1)] by auto
  have "page_range p k \<subseteq> page_range r n" using placed_range[OF r(2)] lay(2) by simp
  then show "pg_region (m p) \<in> R" "p \<in> page_range (pg_region (m p)) n"
    using run_at_master(1)[OF run(2,1)] r(1) page_range_start[OF run(1)] by auto
  show "\<exists>r xs ys. r \<in> R \<and> L r = xs @ (k, f) # ys \<and> p = r + sizeof_page * total_len xs \<and> run_at m r p k f \<and>
      page_range p k \<subseteq> page_range r n"
    using placed_split[OF r(2)] r(1) run(2) \<open>page_range p k \<subseteq> page_range r n\<close> by metis
qed

text \<open>The runs can be read off the descriptors.\<close>

lemma run_state_inj [simp]: "run_state f = run_state g \<longleftrightarrow> f = g"
  by (simp add: run_state_def ST_PAGEPOOL_PAGE_FREE_def ST_PAGEPOOL_PAGE_ALLOCATED_def)

lemma described_iff:
  assumes "described R n m L"
  shows "(p, k, f) \<in> all_runs R L \<longleftrightarrow>
    (\<exists>r \<in> R. p \<in> page_range r n) \<and> pg_type (m p) = ST_PAGEPOOL_PAGE_MASTER \<and> pg_state (m p) = run_state f \<and>
    page_cnt m p = int k" (is "_ \<longleftrightarrow> ?rhs")
proof
  assume "(p, k, f) \<in> all_runs R L"
  from described_run[OF assms this] show ?rhs by blast
next
  assume rhs: ?rhs
  then obtain r where r: "r \<in> R" "p \<in> page_range r n" by blast
  then have "layout m r r (L r)" "total_len (L r) = n" using assms by (auto simp: described_def)
  then show "(p, k, f) \<in> all_runs R L"
    using layout_master[of m r r "L r" p] rhs r by (auto simp: all_runs_def)
qed

text \<open>Rewriting a stretch of one region.\<close>

lemma exchange_part:
  "A \<inter> M = {} \<Longrightarrow> Y \<inter> M = {} \<Longrightarrow> Q \<inter> M = {} \<Longrightarrow> (A \<union> M' \<union> Y) \<union> Q = ((A \<union> M \<union> Y) \<union> Q) - M \<union> M'"
  by blast

lemma described_rewrite:
  assumes "described R n m L" "r \<in> R" "L r = xs @ mid @ ys"
    "layout m' r q mid'" "total_len mid' = total_len mid" "q = r + sizeof_page * total_len xs"
    "\<And>x. x \<notin> page_range q (total_len mid) \<Longrightarrow> m' x = m x"
  shows "described R n m' (L(r := xs @ mid' @ ys))"
    and "all_runs R (L(r := xs @ mid' @ ys)) =
      all_runs R L - set (placed q mid) \<union> set (placed q mid')"
proof -
  have lay: "layout m r r (xs @ mid @ ys)" "total_len (xs @ mid @ ys) = n"
    using assms(1-3) by (auto simp: described_def)
  let ?e = "q + sizeof_page * total_len mid"
  have old: "layout m r r xs" "layout m r ?e ys" using lay(1) assms(6) by simp_all
  have dxs: "page_range r (total_len xs) \<inter> page_range q (total_len mid) = {}"
    unfolding assms(6) by (rule page_range_disjoint)
  have dys: "page_range q (total_len mid) \<inter> page_range ?e (total_len ys) = {}" by (rule page_range_disjoint)
  have "layout m' r r xs" using old(1) by (rule layout_cong) (use dxs in \<open>auto intro!: assms(7)\<close>)
  moreover have "layout m' r ?e ys" using old(2) by (rule layout_cong) (use dys in \<open>auto intro!: assms(7)\<close>)
  ultimately have new: "layout m' r r (xs @ mid' @ ys)" "total_len (xs @ mid' @ ys) = n"
    using assms(4-6) lay(2) by simp_all
  have sub: "page_range q (total_len mid) \<subseteq> page_range r n"
    using lay(2) page_range_add[of r "total_len xs" "total_len mid + total_len ys"]
      page_range_add[of q "total_len mid" "total_len ys"] assms(6) by auto
  have other: "layout m' r' r' (L r')" if "r' \<in> R" "r' \<noteq> r" for r'
  proof (rule layout_cong)
    show "layout m r' r' (L r')" using assms(1) that by (auto simp: described_def)
    fix x assume "x \<in> page_range r' (total_len (L r'))"
    then have "x \<notin> page_range r n" using assms(1,2) that by (auto simp: described_def)
    then show "m' x = m x" using sub by (intro assms(7)) auto
  qed
  show desc: "described R n m' (L(r := xs @ mid' @ ys))"
    using assms(1) new other by (auto simp: described_def)
  have P: "set (placed r (L r)) = set (placed r xs) \<union> set (placed q mid) \<union> set (placed ?e ys)"
    using assms(3,6) by auto
  have P': "set (placed r (xs @ mid' @ ys)) = set (placed r xs) \<union> set (placed q mid') \<union> set (placed ?e ys)"
    using assms(5,6) by auto
  have mid: "page_range p k \<subseteq> page_range q (total_len mid)" if "(p, k, f) \<in> set (placed q mid)" for p k f
    using placed_range[OF that] .
  have apart: "b \<notin> set (placed q mid)" if "b \<in> set (placed z bs)" "layout m r' z bs"
    "page_range z (total_len bs) \<inter> page_range q (total_len mid) = {}" for b z bs r'
  proof
    assume b: "b \<in> set (placed q mid)"
    obtain p k f where bp: "b = (p, k, f)" by (cases b)
    then have "0 < k" "page_range p k \<subseteq> page_range z (total_len bs)"
      using layout_placed[OF that(2)] placed_range that(1) by blast+
    then show False using mid[of p k f] that(3) page_range_nonempty[of k p] b bp by blast
  qed
  let ?Q = "\<Union>r' \<in> R - {r}. set (placed r' (L r'))"
  have dA: "set (placed r xs) \<inter> set (placed q mid) = {}" and dY: "set (placed ?e ys) \<inter> set (placed q mid) = {}"
    using apart old dxs dys by blast+
  have dQ: "?Q \<inter> set (placed q mid) = {}"
  proof -
    have "b \<notin> set (placed q mid)" if "r' \<in> R - {r}" "b \<in> set (placed r' (L r'))" for r' b
    proof (rule apart[OF that(2)])
      show "layout m r' r' (L r')" using assms(1) that by (auto simp: described_def)
      have "total_len (L r') = n" "page_range r n \<inter> page_range r' n = {}"
        using assms(1,2) that by (auto simp: described_def)
      with sub show "page_range r' (total_len (L r')) \<inter> page_range q (total_len mid) = {}" by blast
    qed
    then show ?thesis by blast
  qed
  have ar: "all_runs R L = set (placed r (L r)) \<union> ?Q"
    "all_runs R (L(r := xs @ mid' @ ys)) = set (placed r (xs @ mid' @ ys)) \<union> ?Q"
    using assms(2) by (auto simp: all_runs_def split: if_splits)
  show "all_runs R (L(r := xs @ mid' @ ys)) = all_runs R L - set (placed q mid) \<union> set (placed q mid')"
    unfolding ar P P' using dA dY dQ by (rule exchange_part)
qed

section \<open>The invariant\<close>

definition pool_regions :: "st_pagepool \<Rightarrow> addr list" where
  "pool_regions pool = arr_list (pp_regions pool)"

definition region_pages :: "st_pagepool \<Rightarrow> nat" where
  "region_pages pool = nat (pp_pages_per_region pool)"

definition region_space :: "addr set \<Rightarrow> nat \<Rightarrow> addr set" where
  "region_space R n = (\<Union>r \<in> R. page_range r n)"

definition all_pages :: "st_pagepool \<Rightarrow> addr set" where
  "all_pages pool = region_space (set (pool_regions pool)) (region_pages pool)"

text \<open>The memory of the regions; the pool itself lies outside.\<close>

definition region_area :: "st_region \<Rightarrow> addr set" where
  "region_area rcb = {rg_base_addr rcb ..< rg_base_addr rcb + nat (rg_reg_cnt rcb) * nat (rg_reg_size rcb)}"

text \<open>The runs of pages that the descriptors describe: free ones and allocated ones, with their lengths.\<close>

definition run_set :: "st_pagepool \<Rightarrow> page_mem \<Rightarrow> bool \<Rightarrow> (addr \<times> nat) set" where
  "run_set pool mem f = {(p, n). p \<in> all_pages pool \<and> pg_type (pm_pages mem p) = ST_PAGEPOOL_PAGE_MASTER \<and>
     pg_state (pm_pages mem p) = run_state f \<and> page_cnt (pm_pages mem) p = int n}"

abbreviation free_runs :: "st_pagepool \<Rightarrow> page_mem \<Rightarrow> (addr \<times> nat) set" where
  "free_runs pool mem \<equiv> run_set pool mem True"

abbreviation allocated_runs :: "st_pagepool \<Rightarrow> page_mem \<Rightarrow> (addr \<times> nat) set" where
  "allocated_runs pool mem \<equiv> run_set pool mem False"

text \<open>No two neighbouring free runs, and no region that is free altogether.\<close>

definition coalesced :: "nat \<Rightarrow> run list \<Rightarrow> bool" where
  "coalesced n bs \<longleftrightarrow> successively (\<lambda>b b'. \<not> (snd b \<and> snd b')) bs \<and> bs \<noteq> [(n, True)]"

text \<open>The fixed part: sizes, locks, the sorted array of regions, which are busy regions of the control block.\<close>

definition pool_base :: "st_pagepool \<Rightarrow> bool" where
  "pool_base pool \<longleftrightarrow> 0 < pp_pages_per_region pool \<and> pp_pages_per_region pool < 32768 \<and>
     int sizeof_page * pp_pages_per_region pool < rg_reg_size (pp_region_cb pool) \<and>
     region_ok (pp_region_cb pool) \<and> lock_free (pp_regions_lock pool) \<and> lock_free (pp_pages_lock pool) \<and>
     arr_ok (pp_regions pool) \<and> \<not> ar_dynamic (pp_regions pool) \<and>
     ar_compare (pp_regions pool) = Some st_pagepool_cmp_region_addr \<and>
     ar_total_cnt (pp_regions pool) = ST_PAGEPOOL_MAX_REGION_CNT \<and>
     sorted_wrt (<) (pool_regions pool) \<and>
     rt_sentinel (pp_free_pages pool) \<notin> region_area (pp_region_cb pool) \<and>
     set (pool_regions pool) \<subseteq> region_addr (pp_region_cb pool) ` busy_regions (pp_region_cb pool)"

definition pool_desc :: "st_pagepool \<Rightarrow> page_mem \<Rightarrow> (addr \<Rightarrow> run list) \<Rightarrow> bool" where
  "pool_desc pool mem L \<longleftrightarrow> pool_base pool \<and>
     described (set (pool_regions pool)) (region_pages pool) (pm_pages mem) L \<and>
     (\<forall>r \<in> set (pool_regions pool). coalesced (region_pages pool) (L r)) \<and>
     free_index pool mem (all_pages pool) (fst ` free_runs pool mem)"

definition pool_inv :: "st_pagepool \<Rightarrow> page_mem \<Rightarrow> bool" where
  "pool_inv pool mem \<longleftrightarrow> (\<exists>L. pool_desc pool mem L)"

lemma pool_sizes:
  assumes "pool_base pool"
  shows "0 < region_pages pool" "region_pages pool < 32768" "pp_pages_per_region pool = int (region_pages pool)"
    "sizeof_page * region_pages pool \<le> nat (rg_reg_size (pp_region_cb pool))"
    "sizeof_page * region_pages pool < nat (rg_reg_size (pp_region_cb pool))"
proof -
  have p: "0 < pp_pages_per_region pool" "pp_pages_per_region pool < 32768"
    "int sizeof_page * pp_pages_per_region pool < rg_reg_size (pp_region_cb pool)"
    using assms by (simp_all add: pool_base_def)
  then show "0 < region_pages pool" "region_pages pool < 32768" and r: "pp_pages_per_region pool = int (region_pages pool)"
    by (simp_all add: region_pages_def)
  show lt: "sizeof_page * region_pages pool < nat (rg_reg_size (pp_region_cb pool))"
    using p(3) unfolding r by (simp add: zless_nat_eq_int_zless)
  then show "sizeof_page * region_pages pool \<le> nat (rg_reg_size (pp_region_cb pool))" by simp
qed

text \<open>Different regions do not overlap.\<close>

lemma page_range_bounds: "x \<in> page_range p n \<Longrightarrow> p \<le> x \<and> x < p + sizeof_page * n"
  by (auto simp: in_page_range sizeof_page_def)

lemma region_addr_apart:
  assumes "sizeof_page * n \<le> nat (rg_reg_size rcb)" "i \<noteq> j"
  shows "page_range (region_addr rcb i) n \<inter> page_range (region_addr rcb j) n = {}"
proof -
  let ?s = "nat (rg_reg_size rcb)"
  have lt: "region_addr rcb a + sizeof_page * n \<le> region_addr rcb b" if "a < b" for a b
  proof -
    have "Suc a * ?s \<le> b * ?s" using that by (intro mult_right_mono) auto
    then show ?thesis using assms(1) by (simp add: region_addr_def)
  qed
  have "\<not> (x \<in> page_range (region_addr rcb i) n \<and> x \<in> page_range (region_addr rcb j) n)" for x
    using lt[of i j] lt[of j i] assms(2) page_range_bounds[of x "region_addr rcb i" n]
      page_range_bounds[of x "region_addr rcb j" n] by linarith
  then show ?thesis by blast
qed

lemma pool_regions_apart:
  assumes "pool_base pool" "r \<in> region_addr (pp_region_cb pool) ` A" "r' \<in> region_addr (pp_region_cb pool) ` A" "r \<noteq> r'"
  shows "page_range r (region_pages pool) \<inter> page_range r' (region_pages pool) = {}"
proof -
  obtain i j where "r = region_addr (pp_region_cb pool) i" "r' = region_addr (pp_region_cb pool) j" using assms(2,3) by blast
  then show ?thesis using region_addr_apart[OF pool_sizes(4)[OF assms(1)], of i j] assms(4) by auto
qed

lemma run_set_eq:
  assumes "described (set (pool_regions pool)) (region_pages pool) (pm_pages mem) L"
  shows "(p, k) \<in> run_set pool mem f \<longleftrightarrow> (p, k, f) \<in> all_runs (set (pool_regions pool)) L"
  using described_iff[OF assms] by (simp add: run_set_def all_pages_def region_space_def)

section \<open>The array of regions\<close>

lemma cmp_region_addr: "st_pagepool_cmp_region_addr = st_cmp"
  by (rule ext)+ (simp add: st_pagepool_cmp_region_addr_def)

lemma cmp_region_comparator: "comparator A (st_pagepool_cmp_region_addr)"
  unfolding cmp_region_addr using st_cmp_key.comparator_axioms[where f = "id :: addr \<Rightarrow> addr"] by simp

lemma sorted_regions: "sorted_by st_pagepool_cmp_region_addr rs \<longleftrightarrow> sorted rs"
  by (simp add: sorted_by_def cmp_region_addr)

lemma ordered_insert_strict:
  assumes "sorted_wrt (<) rs" "r \<notin> set rs"
  shows "sorted_wrt (<) (ordered_insert st_pagepool_cmp_region_addr r rs)"
proof -
  have "sorted rs" "distinct rs" using assms(1) by (simp_all add: strict_sorted_iff)
  then have "sorted (ordered_insert st_pagepool_cmp_region_addr r rs)"
    using comparator.sorted_ordered_insert[OF cmp_region_comparator, of rs UNIV r] by (simp add: sorted_regions)
  moreover have "distinct (ordered_insert st_pagepool_cmp_region_addr r rs)"
    using \<open>distinct rs\<close> assms(2) unfolding ordered_insert_def
    by (auto simp: distinct_dropWhile dest: set_takeWhileD set_dropWhileD)
      (metis disjoint_iff distinct_append takeWhile_dropWhile_id)
  ultimately show ?thesis by (simp add: strict_sorted_iff)
qed

text \<open>What the operations on the regions rely on.\<close>

definition regions_ok :: "st_pagepool \<Rightarrow> bool" where
  "regions_ok pool \<longleftrightarrow> lock_free (pp_regions_lock pool) \<and> arr_ok (pp_regions pool) \<and>
     \<not> ar_dynamic (pp_regions pool) \<and>
     ar_compare (pp_regions pool) = Some st_pagepool_cmp_region_addr \<and>
     ar_total_cnt (pp_regions pool) = ST_PAGEPOOL_MAX_REGION_CNT \<and> sorted_wrt (<) (pool_regions pool)"

lemma regions_search:
  assumes "regions_ok pool"
  defines "rs \<equiv> pool_regions pool"
  shows "st_array_bsearch_left (pp_regions pool) (Some x) None =
      Some (if x \<in> set rs then ST_OK else ST_NOT_FOUND, int (length (takeWhile (\<lambda>y. y < x) rs)))"
    and "st_array_bsearch_right (pp_regions pool) (Some x) None =
      Some (if x \<in> set rs then ST_OK else ST_NOT_FOUND, int (length (takeWhile (\<lambda>y. y \<le> x) rs)))"
proof -
  have "sorted_by st_pagepool_cmp_region_addr (arr_list (pp_regions pool))"
    using assms(1) by (simp add: regions_ok_def sorted_regions pool_regions_def strict_sorted_iff)
  moreover have "pick_cmp None (pp_regions pool) = Some st_pagepool_cmp_region_addr"
    using assms(1) by (simp add: pick_cmp_def regions_ok_def)
  moreover have "arr_ok (pp_regions pool)" using assms(1) by (simp add: regions_ok_def)
  moreover have "(\<exists>y \<in> set rs. st_pagepool_cmp_region_addr x y = 0) \<longleftrightarrow> x \<in> set rs" by (auto simp: cmp_region_addr)
  ultimately show "st_array_bsearch_left (pp_regions pool) (Some x) None =
      Some (if x \<in> set rs then ST_OK else ST_NOT_FOUND, int (length (takeWhile (\<lambda>y. y < x) rs)))"
    "st_array_bsearch_right (pp_regions pool) (Some x) None =
      Some (if x \<in> set rs then ST_OK else ST_NOT_FOUND, int (length (takeWhile (\<lambda>y. y \<le> x) rs)))"
    using bsearch_ok[OF cmp_region_comparator, of "pp_regions pool" x UNIV None]
    by (simp_all add: rs_def pool_regions_def cmp_region_addr not_less Let_def)
qed

lemma regions_ok_update:
  assumes "regions_ok pool" "arr_ok a" "lock_free lock" "sorted_wrt (<) (arr_list a)"
    "ar_dynamic a = ar_dynamic (pp_regions pool)" "ar_compare a = ar_compare (pp_regions pool)"
    "ar_total_cnt a = ar_total_cnt (pp_regions pool)"
  shows "regions_ok (pool\<lparr>pp_regions := a, pp_regions_lock := lock\<rparr>)"
  using assms by (simp add: regions_ok_def pool_regions_def)

lemma no_realloc_ok: "realloc_ok no_realloc"
  by (simp add: realloc_ok_def no_realloc_def)

lemma insert_many_static:
  assumes "\<not> ar_dynamic a" "st_array_insert_many ra a idx es cnt = Some (ret, a')"
  shows "ar_dynamic a' = ar_dynamic a \<and> ar_compare a' = ar_compare a \<and> ar_total_cnt a' = ar_total_cnt a"
  using assms by (auto simp: st_array_insert_many_def Let_def split: if_splits option.splits bind_splits)

lemma remove_many_static:
  assumes "st_array_remove_many a idx cnt = Some a'"
  shows "ar_dynamic a' = ar_dynamic a \<and> ar_compare a' = ar_compare a \<and> ar_total_cnt a' = ar_total_cnt a"
  using assms by (auto simp: st_array_remove_many_def Let_def split: if_splits bind_splits)

lemma add_region_ok:
  assumes "regions_ok pool" "r \<notin> set (pool_regions pool)" "int (length (pool_regions pool)) < ST_PAGEPOOL_MAX_REGION_CNT"
  shows "\<exists>a lock. st_pagepool_add_region t pool r = Some (ST_OK, pool\<lparr>pp_regions := a, pp_regions_lock := lock\<rparr>) \<and>
    regions_ok (pool\<lparr>pp_regions := a, pp_regions_lock := lock\<rparr>) \<and> set (arr_list a) = insert r (set (pool_regions pool))"
proof -
  let ?a = "pp_regions pool" and ?i = "int (length (takeWhile (\<lambda>y. y \<le> r) (pool_regions pool)))"
  have a: "arr_ok ?a" "\<not> ar_dynamic ?a" "ar_compare ?a = Some st_pagepool_cmp_region_addr"
    "ar_total_cnt ?a = ST_PAGEPOOL_MAX_REGION_CNT" "sorted_wrt (<) (arr_list ?a)" "lock_free (pp_regions_lock pool)"
    using assms(1) by (simp_all add: regions_ok_def pool_regions_def)
  have s: "st_array_bsearch_right ?a (Some r) None = Some (ST_NOT_FOUND, ?i)"
    using regions_search(2)[OF assms(1)] assms(2) by simp
  have cnt: "int (length (pool_regions pool)) = ar_current_cnt ?a"
    using length_arr_list[OF a(1)] a(1) by (simp add: pool_regions_def arr_ok_def)
  have i: "?i \<le> ar_current_cnt ?a"
    using length_takeWhile_le[of "\<lambda>y. y \<le> r" "pool_regions pool"] cnt by linarith
  obtain a' where ins: "st_array_insert_many no_realloc ?a ?i (Some [r]) 1 = Some (ST_OK, a')"
    using insert_many_ok[OF a(1) no_realloc_ok _ i, of 1 "[r]"] a(2,4) assms(3) cnt by auto
  have "sorted_by st_pagepool_cmp_region_addr (arr_list ?a)"
    using a(5) by (simp add: sorted_regions strict_sorted_iff)
  from sorted_insert_ok[OF cmp_region_comparator a(1) this _ a(3) no_realloc_ok s ins]
  have new: "arr_ok a'" "arr_list a' = ordered_insert st_pagepool_cmp_region_addr r (arr_list ?a)" by auto
  obtain lock where lock: "with_lock t (pp_regions_lock pool) (Some (ST_OK, a')) = Some ((ST_OK, a'), lock)" "lock_free lock"
    using with_lock_ok[OF a(6), of t "(ST_OK, a')"] by (elim exE conjE)
  have "regions_ok (pool\<lparr>pp_regions := a', pp_regions_lock := lock\<rparr>)"
    using assms(1) new(1) lock(2) _ insert_many_static[OF a(2) ins, THEN conjunct1]
      insert_many_static[OF a(2) ins, THEN conjunct2, THEN conjunct1] insert_many_static[OF a(2) ins, THEN conjunct2, THEN conjunct2]
    by (rule regions_ok_update) (use new(2) ordered_insert_strict[OF a(5), of r] assms(2) in \<open>simp add: pool_regions_def\<close>)
  moreover have "set (arr_list a') = insert r (set (pool_regions pool))"
    by (simp add: new(2) set_ordered_insert pool_regions_def)
  moreover have "st_pagepool_add_region t pool r = Some (ST_OK, pool\<lparr>pp_regions := a', pp_regions_lock := lock\<rparr>)"
    using s ins lock(1) by (simp add: st_pagepool_add_region_def)
  ultimately show ?thesis by blast
qed

lemma remove_region_ok:
  assumes "regions_ok pool" "r \<in> set (pool_regions pool)"
  shows "\<exists>a lock. st_pagepool_remove_region t pool r = Some (ST_OK, pool\<lparr>pp_regions := a, pp_regions_lock := lock\<rparr>) \<and>
    regions_ok (pool\<lparr>pp_regions := a, pp_regions_lock := lock\<rparr>) \<and> set (arr_list a) = set (pool_regions pool) - {r}"
proof -
  let ?a = "pp_regions pool"
  have a: "arr_ok ?a" "sorted_wrt (<) (arr_list ?a)" "lock_free (pp_regions_lock pool)"
    using assms(1) by (simp_all add: regions_ok_def pool_regions_def)
  obtain xs ys where xy: "arr_list ?a = xs @ r # ys" using assms(2) by (auto simp: pool_regions_def dest: split_list)
  have lt: "\<forall>x \<in> set xs. x < r" "r \<notin> set xs" "r \<notin> set ys" using a(2) xy by (auto simp: sorted_wrt_append)
  have tw: "takeWhile (\<lambda>y. y < r) (xs @ r # ys) = xs" using lt by (simp add: takeWhile_append2)
  have s: "st_array_bsearch_left ?a (Some r) None = Some (ST_OK, int (length xs))"
    using regions_search(1)[OF assms(1), of r] assms(2) tw by (simp add: pool_regions_def xy)
  have len: "int (length xs) < ar_current_cnt ?a"
    using length_arr_list[OF a(1)] a(1) xy by (simp add: arr_ok_def)
  obtain a' where r: "st_array_remove_many ?a (int (length xs)) 1 = Some a'" "arr_ok a'" "arr_list a' = xs @ ys"
    using remove_many_ok[OF a(1) _ len, of 1] xy by auto
  obtain lock where lock: "with_lock t (pp_regions_lock pool) (Some (ST_OK, a')) = Some ((ST_OK, a'), lock)" "lock_free lock"
    using with_lock_ok[OF a(3), of t "(ST_OK, a')"] by (elim exE conjE)
  have "regions_ok (pool\<lparr>pp_regions := a', pp_regions_lock := lock\<rparr>)"
    using assms(1) r(2) lock(2) _ remove_many_static[OF r(1), THEN conjunct1]
      remove_many_static[OF r(1), THEN conjunct2, THEN conjunct1] remove_many_static[OF r(1), THEN conjunct2, THEN conjunct2]
    by (rule regions_ok_update) (use r(3) a(2) xy in \<open>simp add: sorted_wrt_append\<close>)
  moreover have "set (arr_list a') = set (pool_regions pool) - {r}"
    using r(3) xy lt by (auto simp: pool_regions_def)
  moreover have "st_pagepool_remove_region t pool r = Some (ST_OK, pool\<lparr>pp_regions := a', pp_regions_lock := lock\<rparr>)"
    using s r(1) lock(1) by (simp add: st_pagepool_remove_region_def)
  ultimately show ?thesis by blast
qed

end
