(* ===== verification/Pagepool_Alloc.thy ===== *)
theory Pagepool_Alloc
  imports Pagepool_Inv
begin

text \<open>
  Allocation from the page pool: a shortest free run that is long enough is split, or a new region
  is taken into the pool.  The invariant is kept on every path, errors included.
\<close>

section \<open>Runs and the index\<close>

definition free_masters :: "addr set \<Rightarrow> (addr \<Rightarrow> run list) \<Rightarrow> addr set" where
  "free_masters R L = {p. \<exists>k. (p, k, True) \<in> all_runs R L}"

definition alternating :: "run list \<Rightarrow> bool" where
  "alternating bs \<longleftrightarrow> successively (\<lambda>b b'. \<not> (snd b \<and> snd b')) bs"

lemma coalesced_iff: "coalesced n bs \<longleftrightarrow> alternating bs \<and> bs \<noteq> [(n, True)]"
  by (simp add: coalesced_def alternating_def)

lemma alternating_split:
  assumes "alternating (xs @ (k, True) # ys)"
  shows "alternating (xs @ (c, False) # ys)" "alternating (xs @ (c, False) # (d, True) # ys)"
  using assms by (auto simp: alternating_def successively_append_iff successively_Cons)

lemma run_unique:
  assumes "described R n m L" "(p, k, f) \<in> all_runs R L" "(p, k', f') \<in> all_runs R L"
  shows "k' = k \<and> f' = f"
  using described_disjoint[OF assms(1,2,3)] described_run(1)[OF assms(1,2)] described_run(1)[OF assms(1,3)]
    page_range_start[of k p] page_range_start[of k' p] by auto

lemma master_apart:
  assumes "described R n m L" "(p, k, f) \<in> all_runs R L" "(q, j, g) \<in> all_runs R L" "q \<noteq> p"
  shows "q \<notin> page_range p k"
  using described_disjoint[OF assms(1,2,3)] described_run(1)[OF assms(1,3)] page_range_start[of j q] assms(4) by auto

lemma run_in_space:
  assumes "described R n m L" "(p, k, f) \<in> all_runs R L"
  shows "page_range p k \<subseteq> region_space R n"
  using described_run(7)[OF assms] by (auto simp: region_space_def)

lemma split_runs:
  assumes "described R n m L" "(p, k, True) \<in> all_runs R L" "0 < c" "c \<le> k" "k < 32768" "p \<noteq> NULL"
    "\<forall>r \<in> R. alternating (L r)"
  shows "\<exists>m' L'. st_pagepool_split_pages m p (int c) = Some (if c = k then NULL else p + sizeof_page * c, m') \<and>
    described R n m' L' \<and> (\<forall>x. x \<notin> page_range p k \<longrightarrow> m' x = m x) \<and>
    all_runs R L' = all_runs R L - {(p, k, True)} \<union> {(p, c, False)} \<union> (if c < k then {(p + sizeof_page * c, k - c, True)} else {}) \<and>
    (\<forall>r \<in> R. alternating (L' r)) \<and> (\<forall>r \<in> R. L' r = [(n, True)] \<longrightarrow> L r = [(n, True)] \<and> p \<notin> page_range r n)"
proof -
  obtain r xs ys where r: "r \<in> R" "L r = xs @ (k, True) # ys" "p = r + sizeof_page * total_len xs" "run_at m r p k True"
    "page_range p k \<subseteq> page_range r n"
    using described_run(7)[OF assms(1,2)] by blast
  obtain m' where m': "st_pagepool_split_pages m p (int c) = Some (if c = k then NULL else p + sizeof_page * c, m')"
    "run_at m' r p c False" "c < k \<Longrightarrow> run_at m' r (p + sizeof_page * c) (k - c) True"
    "\<And>x. x \<notin> page_range p k \<Longrightarrow> m' x = m x"
    using split_pages_ok[OF r(4) assms(3-6)] by blast
  let ?mid = "[(k, True)]" and ?mid' = "(c, False) # (if c < k then [(k - c, True)] else [])"
  let ?L = "L(r := xs @ ?mid' @ ys)"
  have L: "L r = xs @ ?mid @ ys" using r(2) by simp
  have lay: "layout m' r p ?mid'" using m'(2,3) assms(3) by auto
  have tot: "total_len ?mid' = total_len ?mid" using assms(4) by simp
  have out: "m' x = m x" if "x \<notin> page_range p (total_len ?mid)" for x using that m'(4) by simp
  note re = described_rewrite[OF assms(1) r(1) L lay tot r(3) out]
  have runs: "all_runs R ?L = all_runs R L - {(p, k, True)} \<union> {(p, c, False)} \<union>
      (if c < k then {(p + sizeof_page * c, k - c, True)} else {})"
    using re(2) by auto
  have "alternating (?L r)" using alternating_split[of xs k ys] r(1,2) assms(7) by (auto simp: fun_upd_def)
  then have alt: "\<forall>r' \<in> R. alternating (?L r')" using assms(7) by auto
  have "p \<in> page_range r n" using r(5) page_range_start[of k p] assms(3,4) by auto
  moreover have "?L r \<noteq> [(n, True)]" by (cases xs) auto
  moreover have "page_range r n \<inter> page_range r' n = {}" if "r' \<in> R" "r' \<noteq> r" for r'
    using assms(1) r(1) that by (auto simp: described_def)
  ultimately have "\<forall>r' \<in> R. ?L r' = [(n, True)] \<longrightarrow> L r' = [(n, True)] \<and> p \<notin> page_range r' n"
    by (metis IntI empty_iff fun_upd_other)
  with m'(1,4) re(1) runs alt show ?thesis by blast
qed

text \<open>What a step of the allocator may write: descriptors in \<open>W\<close>, list nodes of \<open>F\<close>, tree nodes of \<open>P\<close>.\<close>

definition step_frame ::
    "addr set \<Rightarrow> addr set \<Rightarrow> addr set \<Rightarrow> st_pagepool \<Rightarrow> page_mem \<Rightarrow> st_pagepool \<Rightarrow> page_mem \<Rightarrow> bool" where
  "step_frame W F P pool mem pool' mem' \<longleftrightarrow>
     (\<exists>tree. pool' = pool\<lparr>pp_free_pages := tree\<rparr> \<and> rt_sentinel tree = rt_sentinel (pp_free_pages pool)) \<and>
     (\<forall>x. x \<notin> W \<longrightarrow> pm_pages mem' x = pm_pages mem x) \<and>
     (\<forall>x. x \<notin> page_ln ` F \<longrightarrow> pm_list mem' x = pm_list mem x) \<and>
     (\<forall>x. x \<notin> page_rb ` P \<and> x \<noteq> rt_sentinel (pp_free_pages pool) \<longrightarrow> pm_rb mem' x = pm_rb mem x)"

lemma index_step_frame: "index_frame P F pool mem pool' mem' \<Longrightarrow> step_frame {} F P pool mem pool' mem'"
  by (simp add: index_frame_def step_frame_def)

lemma step_frame_trans:
  assumes "step_frame W F P pool mem pool' mem'" "step_frame W' F' P pool' mem' pool'' mem''"
  shows "step_frame (W \<union> W') (F \<union> F') P pool mem pool'' mem''"
proof -
  obtain tree where 1: "pool' = pool\<lparr>pp_free_pages := tree\<rparr>" "rt_sentinel tree = rt_sentinel (pp_free_pages pool)"
    using assms(1) by (auto simp: step_frame_def)
  obtain tree' where 2: "pool'' = pool'\<lparr>pp_free_pages := tree'\<rparr>" "rt_sentinel tree' = rt_sentinel (pp_free_pages pool')"
    using assms(2) by (auto simp: step_frame_def)
  have "pool'' = pool\<lparr>pp_free_pages := tree'\<rparr>" "rt_sentinel tree' = rt_sentinel (pp_free_pages pool)"
    using 1 2 by simp_all
  moreover have "rt_sentinel (pp_free_pages pool') = rt_sentinel (pp_free_pages pool)" using 1 by simp
  ultimately show ?thesis using assms unfolding step_frame_def by (intro conjI exI[of _ tree']) (auto simp: image_Un)
qed

lemma step_frame_mono: "step_frame W F P pool mem pool' mem' \<Longrightarrow> W \<subseteq> W' \<Longrightarrow> F \<subseteq> F' \<Longrightarrow> P \<subseteq> P' \<Longrightarrow>
    step_frame W' F' P' pool mem pool' mem'"
  unfolding step_frame_def by (elim conjE, intro conjI; (assumption | blast))

lemma step_frame_pages:
  "(\<And>x. x \<notin> W \<Longrightarrow> m x = pm_pages mem x) \<Longrightarrow> step_frame W {} {} pool mem pool (mem\<lparr>pm_pages := m\<rparr>)"
  unfolding step_frame_def by (intro conjI exI[of _ "pp_free_pages pool"]) auto

text \<open>The runs, the descriptors and the index agree.\<close>

definition indexed :: "st_pagepool \<Rightarrow> page_mem \<Rightarrow> addr set \<Rightarrow> nat \<Rightarrow> (addr \<Rightarrow> run list) \<Rightarrow> addr set \<Rightarrow> bool" where
  "indexed pool mem R n L F \<longleftrightarrow> described R n (pm_pages mem) L \<and> free_index pool mem (region_space R n) F \<and>
     n < 32768 \<and> NULL \<notin> R"

lemma run_bounds:
  assumes "described R n m L" "(p, k, f) \<in> all_runs R L" "NULL \<notin> R"
  shows "k \<le> n" "p \<noteq> NULL"
proof -
  obtain r xs ys where r: "r \<in> R" "L r = xs @ (k, f) # ys" "p = r + sizeof_page * total_len xs"
    using described_run(7)[OF assms(1,2)] by blast
  then have "total_len (L r) = n" using assms(1) by (auto simp: described_def)
  with r(2) show "k \<le> n" by simp
  show "p \<noteq> NULL" using r(1,3) assms(3) by (metis add_is_0)
qed

definition after_split :: "(addr \<times> nat \<times> bool) set \<Rightarrow> addr \<Rightarrow> nat \<Rightarrow> nat \<Rightarrow> (addr \<times> nat \<times> bool) set" where
  "after_split A p k c = A - {(p, k, True)} \<union> {(p, c, False)} \<union>
     (if c < k then {(p + sizeof_page * c, k - c, True)} else {})"

lemma split_and_add_ok:
  assumes "indexed pool mem R n L (free_masters R L - {p})" "(p, k, True) \<in> all_runs R L" "0 < c" "c \<le> k"
    "\<forall>r \<in> R. alternating (L r)"
  shows "\<exists>pool' mem' L'. split_and_add pool mem p (int c) = Some (pool', mem') \<and>
    indexed pool' mem' R n L' (free_masters R L') \<and> all_runs R L' = after_split (all_runs R L) p k c \<and>
    (\<forall>r \<in> R. alternating (L' r)) \<and> (\<forall>r \<in> R. L' r = [(n, True)] \<longrightarrow> L r = [(n, True)] \<and> p \<notin> page_range r n) \<and>
    step_frame (page_range p k) (free_masters R L') (region_space R n) pool mem pool' mem'"
proof -
  let ?P = "region_space R n" and ?q = "p + sizeof_page * c"
  have d: "described R n (pm_pages mem) L" and fi: "free_index pool mem ?P (free_masters R L - {p})"
    and n: "n < 32768" "NULL \<notin> R" using assms(1) by (auto simp: indexed_def)
  have k: "k \<le> n" "p \<noteq> NULL" using run_bounds[OF d assms(2) n(2)] by auto
  obtain m' L' where s: "st_pagepool_split_pages (pm_pages mem) p (int c) = Some (if c = k then NULL else ?q, m')"
    "described R n m' L'" "\<And>x. x \<notin> page_range p k \<Longrightarrow> m' x = pm_pages mem x"
    "all_runs R L' = after_split (all_runs R L) p k c" "\<forall>r \<in> R. alternating (L' r)"
    "\<forall>r \<in> R. L' r = [(n, True)] \<longrightarrow> L r = [(n, True)] \<and> p \<notin> page_range r n"
    using split_runs[OF d assms(2-4) _ k(2) assms(5)] k(1) n(1) unfolding after_split_def by auto
  let ?mem = "mem\<lparr>pm_pages := m'\<rparr>"
  have notin: "x \<notin> page_range p k" if "x \<in> free_masters R L - {p}" for x
    using that master_apart[OF d assms(2)] by (auto simp: free_masters_def)
  have fi': "free_index pool ?mem ?P (free_masters R L - {p})"
    using fi by (rule free_index_cong) (use s(3) notin in auto)
  have fm: "free_masters R L' = (free_masters R L - {p}) \<union> (if c < k then {?q} else {})"
    using run_unique[OF d assms(2)] unfolding free_masters_def s(4) after_split_def by auto
  have fr: "step_frame (page_range p k) {} {} pool mem pool ?mem" using s(3) by (rule step_frame_pages)
  show ?thesis
  proof (cases "c = k")
    case True
    then have "split_and_add pool mem p (int c) = Some (pool, ?mem)" using s(1) by (simp add: split_and_add_def)
    moreover have "indexed pool ?mem R n L' (free_masters R L')" using s(2) fi' fm True n by (simp add: indexed_def)
    ultimately show ?thesis using s(4-6) step_frame_mono[OF fr] by (intro exI conjI) (assumption | blast)+
  next
    case False
    then have ck: "c < k" using assms(4) by simp
    have q: "?q \<in> page_range p k" using ck in_page_range by blast
    have "?q \<noteq> NULL" using k(2) by simp
    then have eq: "split_and_add pool mem p (int c) = st_pagepool_add_pages pool ?mem ?q"
      using s(1) False by (simp add: split_and_add_def)
    have "?q \<in> ?P" "?q \<notin> free_masters R L - {p}" using q notin run_in_space[OF d assms(2)] by blast+
    then obtain pool' mem' where a: "st_pagepool_add_pages pool ?mem ?q = Some (pool', mem')"
      "free_index pool' mem' ?P (insert ?q (free_masters R L - {p}))"
      "index_frame ?P (insert ?q (free_masters R L - {p})) pool ?mem pool' mem'"
      using add_pages_ok[OF fi'] by blast
    have fm': "free_masters R L' = insert ?q (free_masters R L - {p})" using fm ck by simp
    have "pm_pages mem' = m'" using a(3) by (simp add: index_frame_def)
    then have "indexed pool' mem' R n L' (free_masters R L')" using s(2) a(2) fm' n by (simp add: indexed_def)
    moreover have "step_frame (page_range p k) (free_masters R L') ?P pool mem pool' mem'"
      using step_frame_trans[OF step_frame_mono[OF fr subset_refl subset_refl, of ?P] index_step_frame[OF a(3)]] fm' by simp
    ultimately show ?thesis using eq a(1) s(4-6) by (intro exI conjI) (simp | assumption)+
  qed
qed

lemma free_master_cnt:
  assumes "described R n m L"
  shows "(\<exists>q \<in> free_masters R L. Q (page_cnt m q)) \<longleftrightarrow> (\<exists>q j. (q, j, True) \<in> all_runs R L \<and> Q (int j))"
  using described_run(2)[OF assms] by (fastforce simp: free_masters_def)

text \<open>A shortest free run of at least \<open>c\<close> pages.\<close>

definition shortest_fit :: "(addr \<times> nat \<times> bool) set \<Rightarrow> nat \<Rightarrow> addr \<Rightarrow> nat \<Rightarrow> bool" where
  "shortest_fit A c p k \<longleftrightarrow> (p, k, True) \<in> A \<and> c \<le> k \<and> (\<forall>q j. (q, j, True) \<in> A \<longrightarrow> c \<le> j \<longrightarrow> k \<le> j)"

lemma best_fit_run:
  assumes "described R n m L" "best_fit m (free_masters R L) (int c) p"
  shows "\<exists>k. shortest_fit (all_runs R L) c p k"
proof -
  obtain k where k: "(p, k, True) \<in> all_runs R L" using assms(2) by (auto simp: best_fit_def free_masters_def)
  have "k \<le> j" if "(q, j, True) \<in> all_runs R L" "c \<le> j" for q j
  proof -
    have "q \<in> free_masters R L" using that by (auto simp: free_masters_def)
    then show ?thesis
      using assms(2) that described_run(2)[OF assms(1) k] described_run(2)[OF assms(1) that(1)]
      by (force simp: best_fit_def)
  qed
  moreover have "c \<le> k" using assms(2) described_run(2)[OF assms(1) k] by (simp add: best_fit_def)
  ultimately show ?thesis using k by (auto simp: shortest_fit_def)
qed

lemma get_free_pages_none:
  assumes "indexed pool mem R n L (free_masters R L)" "tmp \<notin> region_space R n" "0 < c" "c \<le> n"
    "\<not> (\<exists>q j. (q, j, True) \<in> all_runs R L \<and> c \<le> j)"
  shows "st_pagepool_get_free_pages tmp pool mem (int c) = Some (ST_NOT_FOUND, None, pool, mem)"
proof (rule get_free_none)
  show "free_index pool mem (region_space R n) (free_masters R L)" using assms(1) by (simp add: indexed_def)
  show "\<not> (\<exists>q \<in> free_masters R L. int c \<le> page_cnt (pm_pages mem) q)"
    using assms(1,5) free_master_cnt[of R n "pm_pages mem" L "\<lambda>j. int c \<le> j"] by (auto simp: indexed_def)
qed (use assms in \<open>auto simp: indexed_def\<close>)

lemma get_free_pages_some:
  assumes "indexed pool mem R n L (free_masters R L)" "tmp \<notin> region_space R n" "0 < c" "c \<le> n"
    "\<exists>q j. (q, j, True) \<in> all_runs R L \<and> c \<le> j" "\<forall>r \<in> R. alternating (L r)"
  shows "\<exists>p k pool' mem' L'. shortest_fit (all_runs R L) c p k \<and>
    st_pagepool_get_free_pages tmp pool mem (int c) = Some (ST_OK, Some p, pool', mem') \<and>
    indexed pool' mem' R n L' (free_masters R L') \<and> all_runs R L' = after_split (all_runs R L) p k c \<and>
    (\<forall>r \<in> R. alternating (L' r)) \<and> (\<forall>r \<in> R. L' r = [(n, True)] \<longrightarrow> L r = [(n, True)]) \<and>
    step_frame (page_range p k) (free_masters R L \<union> free_masters R L') (region_space R n) pool mem pool' mem'"
proof -
  let ?P = "region_space R n"
  have d: "described R n (pm_pages mem) L" and fi: "free_index pool mem ?P (free_masters R L)" and n: "n < 32768" "NULL \<notin> R"
    using assms(1) by (auto simp: indexed_def)
  have fit: "\<exists>q \<in> free_masters R L. int c \<le> page_cnt (pm_pages mem) q"
    using assms(5) free_master_cnt[OF d, of "\<lambda>j. int c \<le> j"] by auto
  have "0 < int c" "int c < 32768" using assms(3,4) n(1) by auto
  from get_free_take[OF fi assms(2) this fit]
  obtain p pool1 mem1 where t: "best_fit (pm_pages mem) (free_masters R L) (int c) p"
    "free_index pool1 mem1 ?P (free_masters R L - {p})" "index_frame ?P (free_masters R L) pool mem pool1 mem1"
    "st_pagepool_get_free_pages tmp pool mem (int c) = do {
      (pool, mem) \<leftarrow> split_and_add pool1 mem1 p (int c);
      Some (ST_OK, Some p, pool, mem) }"
    by blast
  obtain k where k: "shortest_fit (all_runs R L) c p k" using best_fit_run[OF d t(1)] by blast
  then have pk: "(p, k, True) \<in> all_runs R L" "c \<le> k" by (auto simp: shortest_fit_def)
  have "indexed pool1 mem1 R n L (free_masters R L - {p})"
    using d t(2,3) n by (simp add: indexed_def index_frame_def)
  from split_and_add_ok[OF this pk(1) assms(3) pk(2) assms(6)]
  obtain pool' mem' L' where s: "split_and_add pool1 mem1 p (int c) = Some (pool', mem')"
    "indexed pool' mem' R n L' (free_masters R L')" "all_runs R L' = after_split (all_runs R L) p k c"
    "\<forall>r \<in> R. alternating (L' r)" "\<forall>r \<in> R. L' r = [(n, True)] \<longrightarrow> L r = [(n, True)] \<and> p \<notin> page_range r n"
    "step_frame (page_range p k) (free_masters R L') ?P pool1 mem1 pool' mem'"
    by blast
  have "step_frame (page_range p k) (free_masters R L \<union> free_masters R L') ?P pool mem pool' mem'"
    using step_frame_trans[OF index_step_frame[OF t(3)] s(6)] by simp
  moreover have "st_pagepool_get_free_pages tmp pool mem (int c) = Some (ST_OK, Some p, pool', mem')"
    using t(4) s(1) by simp
  ultimately show ?thesis using k s(2-5) by blast
qed

section \<open>A new region\<close>

lemma rb_tree_cong:
  assumes "rb_tree tree m t" "\<And>a. a \<in> set (inorder t) \<Longrightarrow> m' a = m a" "m' (rt_sentinel tree) = m (rt_sentinel tree)"
  shows "rb_tree tree m' t"
  using assms rep_transfer[of m _ _ t m'] unfolding rb_tree_def tree_at_def by metis

lemma free_index_extend:
  assumes "free_index pool mem P F" "W \<inter> P = {}" "rt_sentinel (pp_free_pages pool) \<notin> page_rb ` W"
    "\<And>x. x \<in> P \<Longrightarrow> pm_pages mem' x = pm_pages mem x"
    "pm_rb mem' = (\<lambda>x. if x \<in> page_rb ` W then st_rbtree_node_empty else pm_rb mem x)"
    "\<And>x. x \<notin> page_ln ` W \<Longrightarrow> pm_list mem' x = pm_list mem x"
  shows "free_index pool mem' (P \<union> W) F"
proof -
  obtain G where G: "free_groups pool mem P G" "F = set (members G)" using assms(1) by (auto simp: free_index_def)
  note ok = free_groups_parts[OF G(1)]
  obtain t where t: "rb_tree (pp_free_pages pool) (pm_rb mem) t" "inorder t = map page_rb (heads G)"
    using ok(6) by blast
  have "groups_ok (pm_pages mem') G" using ok(1) by (rule groups_ok_pages) (use ok(3) assms(4) in auto)
  moreover have "tails_in_lists (pm_list mem') G"
    using ok(2) by (rule tails_frame) (rule assms(6), use ok(3) assms(2) in auto)
  moreover have "rb_tree (pp_free_pages pool) (pm_rb mem') t"
    using t(1) by (rule rb_tree_cong) (use t(2) ok(5) assms(2,3) in \<open>auto simp: assms(5)\<close>)
  moreover have "cleared (pm_rb mem' (page_rb p))" if "p \<in> P \<union> W" "p \<notin> set (heads G)" for p
    using that ok(7)[of p] by (auto simp: assms(5) cleared_def st_rbtree_node_empty_def)
  moreover have "rt_sentinel (pp_free_pages pool) \<notin> page_rb ` (P \<union> W)" using ok(4) assms(3) by auto
  moreover have "set (members G) \<subseteq> P \<union> W" using ok(3) by auto
  ultimately have "free_groups pool mem' (P \<union> W) G" using t(2) by (intro free_groupsI[of _ _ _ _ t]) auto
  then show ?thesis using G(2) by (auto simp: free_index_def)
qed

lemma pool_parts:
  assumes "pool_base pool"
  shows "regions_ok pool" "region_ok (pp_region_cb pool)" "lock_free (pp_pages_lock pool)"
    "set (pool_regions pool) \<subseteq> region_addr (pp_region_cb pool) ` busy_regions (pp_region_cb pool)"
    "NULL \<notin> set (pool_regions pool)" "rt_sentinel (pp_free_pages pool) \<notin> region_area (pp_region_cb pool)"
proof -
  show "regions_ok pool" using assms by (simp add: pool_base_def regions_ok_def)
  show r: "region_ok (pp_region_cb pool)" and "lock_free (pp_pages_lock pool)"
    and s: "set (pool_regions pool) \<subseteq> region_addr (pp_region_cb pool) ` busy_regions (pp_region_cb pool)"
    and "rt_sentinel (pp_free_pages pool) \<notin> region_area (pp_region_cb pool)"
    using assms by (simp_all add: pool_base_def)
  have "region_addr (pp_region_cb pool) i \<noteq> NULL" for i using r by (simp add: region_addr_def region_ok_def)
  then show "NULL \<notin> set (pool_regions pool)" using s by (metis imageE subsetD)
qed

lemma pool_desc_iff:
  "pool_desc pool mem L \<longleftrightarrow> pool_base pool \<and>
    indexed pool mem (set (pool_regions pool)) (region_pages pool) L (free_masters (set (pool_regions pool)) L) \<and>
    (\<forall>r \<in> set (pool_regions pool). alternating (L r) \<and> L r \<noteq> [(region_pages pool, True)])"
proof (cases "pool_base pool \<and> described (set (pool_regions pool)) (region_pages pool) (pm_pages mem) L")
  case True
  then have fm: "fst ` free_runs pool mem = free_masters (set (pool_regions pool)) L"
    using run_set_eq[of pool mem L] by (force simp: free_masters_def)
  have n: "region_pages pool < 32768" "NULL \<notin> set (pool_regions pool)" using True pool_sizes(2) pool_parts(5) by blast+
  show ?thesis unfolding pool_desc_def indexed_def coalesced_iff all_pages_def fm using True n by blast
next
  case False
  then show ?thesis unfolding pool_desc_def indexed_def by blast
qed

text \<open>A region of the control block lies inside the area.\<close>

lemma region_in_area:
  assumes "pool_base pool" "i < nat (rg_reg_cnt (pp_region_cb pool))"
  shows "page_range (region_addr (pp_region_cb pool) i) (region_pages pool) \<subseteq> region_area (pp_region_cb pool)"
    "page_rb ` page_range (region_addr (pp_region_cb pool) i) (region_pages pool) \<subseteq> region_area (pp_region_cb pool)"
proof -
  let ?r = "pp_region_cb pool" and ?n = "region_pages pool"
  have "Suc i * nat (rg_reg_size ?r) \<le> nat (rg_reg_cnt ?r) * nat (rg_reg_size ?r)"
    using assms(2) by (intro mult_right_mono) auto
  then have e: "region_addr ?r i + sizeof_page * ?n \<le> rg_base_addr ?r + nat (rg_reg_cnt ?r) * nat (rg_reg_size ?r)"
    using pool_sizes(4)[OF assms(1)] by (simp add: region_addr_def)
  have "x + 80 < region_addr ?r i + sizeof_page * ?n \<and> rg_base_addr ?r \<le> x"
    if x: "x \<in> page_range (region_addr ?r i) ?n" for x
  proof -
    obtain j where j: "j < ?n" "x = region_addr ?r i + sizeof_page * j" using x unfolding in_page_range by blast
    then have "sizeof_page * Suc j \<le> sizeof_page * ?n" by (intro mult_left_mono) auto
    then show ?thesis using j by (simp add: sizeof_page_def region_addr_def)
  qed
  with e show "page_range (region_addr ?r i) ?n \<subseteq> region_area ?r" "page_rb ` page_range (region_addr ?r i) ?n \<subseteq> region_area ?r"
    by (fastforce simp: region_area_def page_rb_def)+
qed

lemma same_layout_addr: "same_layout rcb rcb' \<Longrightarrow> region_addr rcb' = region_addr rcb \<and> region_area rcb' = region_area rcb"
  by (auto simp: same_layout_def region_addr_def region_area_def)

text \<open>The base survives changes of the free tree, the region states and the array that fit together.\<close>

lemma pool_base_update:
  assumes "pool_base pool" "regions_ok pool'" "region_ok rcb" "same_layout (pp_region_cb pool) rcb"
    "set (pool_regions pool') \<subseteq> region_addr rcb ` busy_regions rcb"
    "pp_pages_per_region pool' = pp_pages_per_region pool" "lock_free (pp_pages_lock pool')"
    "rt_sentinel (pp_free_pages pool') = rt_sentinel (pp_free_pages pool)" "pp_region_cb pool' = rcb"
  shows "pool_base pool'"
  using assms same_layout_addr[OF assms(4)]
  unfolding pool_base_def regions_ok_def by (simp add: same_layout_def)

lemma finite_busy: "finite (busy_regions rcb)"
  by (simp add: busy_regions_def)

lemma new_region_space:
  assumes "pool_base pool" "i < nat (rg_reg_cnt (pp_region_cb pool))" "i \<notin> busy_regions (pp_region_cb pool)"
  defines "r \<equiv> region_addr (pp_region_cb pool) i" and "R \<equiv> set (pool_regions pool)" and "n \<equiv> region_pages pool"
  shows "r \<notin> R" "page_range r n \<inter> region_space R n = {}" "r \<noteq> NULL"
    "int (length (pool_regions pool)) < ST_PAGEPOOL_MAX_REGION_CNT"
proof -
  let ?rcb = "pp_region_cb pool"
  note parts = pool_parts[OF assms(1)]
  show r: "r \<notin> R"
  proof
    assume "r \<in> R"
    then obtain j where "j \<in> busy_regions ?rcb" "region_addr ?rcb i = region_addr ?rcb j"
      using parts(4) unfolding r_def R_def by (metis imageE subsetD)
    then show False using region_addr_inj[OF parts(2), of i j] assms(3) by simp
  qed
  show "r \<noteq> NULL" using parts(2) by (simp add: r_def region_addr_def region_ok_def)
  have "page_range r n \<inter> page_range r' n = {}" if "r' \<in> R" for r'
  proof -
    have "r' \<in> region_addr ?rcb ` UNIV" "r \<in> region_addr ?rcb ` UNIV" "r' \<noteq> r"
      using that parts(4) r unfolding r_def R_def by auto
    then show ?thesis using pool_regions_apart[OF assms(1), of r UNIV r'] unfolding n_def by auto
  qed
  then show "page_range r n \<inter> region_space R n = {}" by (auto simp: region_space_def)
  have "distinct (pool_regions pool)"
    using parts(1) by (simp add: regions_ok_def strict_sorted_iff)
  then have "length (pool_regions pool) = card R" by (simp add: R_def distinct_card)
  also have "\<dots> \<le> card (busy_regions ?rcb)"
    using parts(4) unfolding R_def by (meson card_image_le card_mono finite_imageI finite_busy order_trans)
  also have "\<dots> < card {..<nat (rg_reg_cnt ?rcb)}"
    using assms(2,3) by (intro psubset_card_mono) (auto simp: busy_regions_def)
  finally show "int (length (pool_regions pool)) < ST_PAGEPOOL_MAX_REGION_CNT"
    using parts(2)[unfolded region_ok_def ST_REGION_MAX_NUM_def, THEN conjunct2, THEN conjunct1]
    by (simp add: ST_PAGEPOOL_MAX_REGION_CNT_def)
qed

lemma described_extend:
  assumes "described R n m L" "r \<notin> R" "page_range r n \<inter> region_space R n = {}" "run_at m' r r n True" "0 < n"
    "\<And>x. x \<notin> page_range r n \<Longrightarrow> m' x = m x"
  shows "described (insert r R) n m' (L(r := [(n, True)]))"
    "all_runs (insert r R) (L(r := [(n, True)])) = insert (r, n, True) (all_runs R L)"
    "free_masters (insert r R) (L(r := [(n, True)])) - {r} = free_masters R L"
proof -
  have "layout m' r' r' (L r')" if "r' \<in> R" for r'
  proof (rule layout_cong)
    show "layout m r' r' (L r')" using assms(1) that by (auto simp: described_def)
    fix x assume "x \<in> page_range r' (total_len (L r'))"
    then have "x \<notin> page_range r n" using assms(1,3) that by (auto simp: described_def region_space_def)
    then show "m' x = m x" by (rule assms(6))
  qed
  moreover have "page_range r n \<inter> page_range r' n = {}" if "r' \<in> R" for r'
    using assms(3) that by (auto simp: region_space_def)
  ultimately show "described (insert r R) n m' (L(r := [(n, True)]))"
    using assms(1,2,4,5) unfolding described_def by (auto simp: Int_commute)
  have "(L(r := [(n, True)])) r' = L r'" if "r' \<in> R" for r' using assms(2) that by auto
  then show ar: "all_runs (insert r R) (L(r := [(n, True)])) = insert (r, n, True) (all_runs R L)"
    by (simp add: all_runs_def)
  have "r \<notin> free_masters R L"
  proof
    assume "r \<in> free_masters R L"
    then obtain k where k: "(r, k, True) \<in> all_runs R L" by (auto simp: free_masters_def)
    then have "r \<in> region_space R n"
      using run_in_space[OF assms(1) k] page_range_start[OF described_run(1)[OF assms(1) k]] by blast
    then show False using assms(3) page_range_start[OF assms(5), of r] by blast
  qed
  then show "free_masters (insert r R) (L(r := [(n, True)])) - {r} = free_masters R L"
    unfolding free_masters_def ar by auto
qed

text \<open>The allocation from a new region.\<close>

lemma new_region_ok:
  assumes "pool_desc pool mem L" "busy_regions (pp_region_cb pool) \<noteq> {..<nat (rg_reg_cnt (pp_region_cb pool))}"
    "0 < c" "c \<le> region_pages pool"
  defines "R \<equiv> set (pool_regions pool)" and "n \<equiv> region_pages pool"
  shows "\<exists>r pool' mem' L'. alloc_new_region madvise_r t pool mem (int c) = Some (ST_OK, Some r, pool', mem') \<and>
    r \<notin> R \<and> set (pool_regions pool') = insert r R \<and> pool_desc pool' mem' L' \<and> region_pages pool' = n \<and>
    page_range r n \<inter> region_space R n = {} \<and>
    all_runs (insert r R) L' = after_split (insert (r, n, True) (all_runs R L)) r n c \<and>
    (\<forall>x. x \<notin> page_range r n \<longrightarrow> pm_pages mem' x = pm_pages mem x) \<and>
    (\<forall>x. x \<notin> page_ln ` (page_range r n \<union> free_masters (insert r R) L') \<longrightarrow> pm_list mem' x = pm_list mem x) \<and>
    (\<forall>x. x \<notin> page_rb ` region_space (insert r R) n \<and> x \<noteq> rt_sentinel (pp_free_pages pool) \<longrightarrow> pm_rb mem' x = pm_rb mem x) \<and>
    same_layout (pp_region_cb pool) (pp_region_cb pool') \<and> rt_sentinel (pp_free_pages pool') = rt_sentinel (pp_free_pages pool) \<and>
    pp_page_size pool' = pp_page_size pool \<and> pp_space_base_offset pool' = pp_space_base_offset pool \<and> pp_region_size pool' = pp_region_size pool"
proof -
  let ?rcb = "pp_region_cb pool"
  have base: "pool_base pool" and ix: "indexed pool mem R n L (free_masters R L)"
    and alt: "\<forall>r \<in> R. alternating (L r)" "\<forall>r \<in> R. L r \<noteq> [(n, True)]"
    using assms(1) by (auto simp: pool_desc_iff R_def n_def)
  have d: "described R n (pm_pages mem) L" and fi: "free_index pool mem (region_space R n) (free_masters R L)"
    and n32: "n < 32768" and nR: "NULL \<notin> R" using ix by (auto simp: indexed_def)
  note parts = pool_parts[OF base] and sizes = pool_sizes[OF base, folded n_def]
  obtain i rcb where al: "st_region_alloc_reg t ?rcb = Some ((ST_OK, Some (region_addr ?rcb i)), rcb)"
    "region_ok rcb" "same_layout ?rcb rcb" "i < nat (rg_reg_cnt ?rcb)" "i \<notin> busy_regions ?rcb"
    "busy_regions rcb = insert i (busy_regions ?rcb)"
    using region_alloc[OF parts(2), of t] assms(2) by auto
  let ?r = "region_addr ?rcb i"
  note new = new_region_space[OF base al(4,5), folded R_def n_def]
  let ?p1 = "pool\<lparr>pp_region_cb := rcb\<rparr>"
  have "regions_ok ?p1" using parts(1) by (simp add: regions_ok_def pool_regions_def)
  then obtain a lock where add: "st_pagepool_add_region t ?p1 ?r = Some (ST_OK, ?p1\<lparr>pp_regions := a, pp_regions_lock := lock\<rparr>)"
    "regions_ok (?p1\<lparr>pp_regions := a, pp_regions_lock := lock\<rparr>)" "set (arr_list a) = insert ?r R"
    using add_region_ok[of ?p1 ?r t] new(1,4) by (auto simp: R_def pool_regions_def)
  let ?p2 = "?p1\<lparr>pp_regions := a, pp_regions_lock := lock\<rparr>"
  obtain mem1 where ini: "st_pagepool_init_region ?p2 mem ?r = Some mem1" "run_at (pm_pages mem1) ?r ?r n True"
    "\<And>x. x \<notin> page_range ?r n \<Longrightarrow> pm_pages mem1 x = pm_pages mem x"
    "pm_rb mem1 = (\<lambda>x. if x \<in> page_rb ` page_range ?r n then st_rbtree_node_empty else pm_rb mem x)"
    "pm_list mem1 = (\<lambda>x. if x \<in> page_ln ` page_range ?r n then \<lparr>l_prev = NULL, l_next = NULL\<rparr> else pm_list mem x)"
    using init_region_ok[of ?r ?p2 n mem] new(3) sizes(1-3) by auto
  let ?L1 = "L(?r := [(n, True)])" and ?R1 = "insert ?r R"
  have ext: "described ?R1 n (pm_pages mem1) ?L1" "all_runs ?R1 ?L1 = insert (?r, n, True) (all_runs R L)"
    "free_masters ?R1 ?L1 - {?r} = free_masters R L"
    by (rule described_extend[OF d new(1,2) ini(2) sizes(1)]; rule ini(3); assumption)+
  have sp: "region_space ?R1 n = region_space R n \<union> page_range ?r n" by (auto simp: region_space_def)
  have "free_index pool mem1 (region_space R n \<union> page_range ?r n) (free_masters R L)"
  proof (rule free_index_extend[OF fi new(2)])
    show "rt_sentinel (pp_free_pages pool) \<notin> page_rb ` page_range ?r n"
      using parts(6) region_in_area(2)[OF base al(4)] unfolding n_def by blast
  qed (use new(2) ini in auto)
  then have "free_index ?p2 mem1 (region_space ?R1 n) (free_masters ?R1 ?L1 - {?r})"
    unfolding sp ext(3) by (rule free_index_cong) simp_all
  then have ix1: "indexed ?p2 mem1 ?R1 n ?L1 (free_masters ?R1 ?L1 - {?r})"
    using ext(1) n32 nR new(3) by (simp add: indexed_def)
  have rn: "(?r, n, True) \<in> all_runs ?R1 ?L1" unfolding ext(2) by simp
  have alt1: "\<forall>r \<in> ?R1. alternating (?L1 r)" using alt(1) by (auto simp: alternating_def)
  obtain pool' mem' L' where s: "split_and_add ?p2 mem1 ?r (int c) = Some (pool', mem')"
    "indexed pool' mem' ?R1 n L' (free_masters ?R1 L')" "all_runs ?R1 L' = after_split (all_runs ?R1 ?L1) ?r n c"
    "\<forall>r \<in> ?R1. alternating (L' r)" "\<forall>r \<in> ?R1. L' r = [(n, True)] \<longrightarrow> ?L1 r = [(n, True)] \<and> ?r \<notin> page_range r n"
    "step_frame (page_range ?r n) (free_masters ?R1 L') (region_space ?R1 n) ?p2 mem1 pool' mem'"
    using split_and_add_ok[OF ix1 rn assms(3) _ alt1] assms(4) unfolding n_def by blast
  obtain tree where tr: "pool' = ?p2\<lparr>pp_free_pages := tree\<rparr>" "rt_sentinel tree = rt_sentinel (pp_free_pages pool)"
    using s(6) unfolding step_frame_def by auto
  have rg: "set (pool_regions pool') = ?R1" "region_pages pool' = n"
    using add(3) by (simp_all add: tr(1) pool_regions_def region_pages_def n_def)
  have ro: "regions_ok pool'" using add(2) by (simp add: tr(1) regions_ok_def pool_regions_def)
  have "?R1 \<subseteq> region_addr rcb ` busy_regions rcb"
    using parts(4) same_layout_addr[OF al(3)] al(6) unfolding R_def by auto
  then have base': "pool_base pool'"
    using base ro al(2,3) parts(3) tr rg(1) by (intro pool_base_update[of pool pool' rcb]) simp_all
  have "L' r \<noteq> [(n, True)]" if "r \<in> ?R1" for r
    using s(5) that alt(2) page_range_start[OF sizes(1), of ?r] by (auto split: if_splits)
  then have desc': "pool_desc pool' mem' L'" using base' s(2,4) rg by (simp add: pool_desc_iff)
  have eq: "alloc_new_region madvise_r t pool mem (int c) = Some (ST_OK, Some ?r, pool', mem')"
    using al(1) add(1) ini(1) s(1) by (simp add: alloc_new_region_def)
  have fr: "pm_pages mem' x = pm_pages mem x" if "x \<notin> page_range ?r n" for x
    using s(6) ini(3) that by (simp add: step_frame_def)
  have fl: "pm_list mem' x = pm_list mem x" if "x \<notin> page_ln ` (page_range ?r n \<union> free_masters ?R1 L')" for x
    using s(6) ini(5) that by (simp add: step_frame_def image_Un)
  have fb: "pm_rb mem' x = pm_rb mem x" if "x \<notin> page_rb ` region_space ?R1 n" "x \<noteq> rt_sentinel (pp_free_pages pool)" for x
    using s(6) ini(4) that sp by (simp add: step_frame_def image_Un)
  have "all_runs ?R1 L' = after_split (insert (?r, n, True) (all_runs R L)) ?r n c" using s(3) ext(2) by simp
  moreover have "same_layout ?rcb (pp_region_cb pool')" "rt_sentinel (pp_free_pages pool') = rt_sentinel (pp_free_pages pool)"
    "pp_page_size pool' = pp_page_size pool" "pp_space_base_offset pool' = pp_space_base_offset pool" "pp_region_size pool' = pp_region_size pool"
    using tr al(3) by simp_all
  ultimately show ?thesis
    using eq new(1,2) rg desc' fr fl fb by (intro exI[of _ ?r] exI[of _ pool'] exI[of _ mem'] exI[of _ L']) blast
qed

section \<open>Allocation\<close>

lemma run_set_desc:
  assumes "pool_desc pool mem L"
  shows "run_set pool mem f = {(p, k). (p, k, f) \<in> all_runs (set (pool_regions pool)) L}"
  using run_set_eq[of pool mem L] assms by (auto simp: pool_desc_def)

text \<open>The memory that belongs to the allocated runs \<open>A\<close>, and everything outside the descriptors \<open>P\<close>, is untouched.\<close>

definition keeps :: "addr set \<Rightarrow> (addr \<times> nat) set \<Rightarrow> addr \<Rightarrow> page_mem \<Rightarrow> page_mem \<Rightarrow> bool" where
  "keeps P A sentinel mem mem' \<longleftrightarrow>
     (\<forall>(q, j) \<in> A. (\<forall>x \<in> page_range q j. pm_pages mem' x = pm_pages mem x) \<and>
        pm_list mem' (page_ln q) = pm_list mem (page_ln q)) \<and>
     (\<forall>x. x \<notin> P \<longrightarrow> pm_pages mem' x = pm_pages mem x) \<and>
     (\<forall>x. x \<notin> page_ln ` P \<longrightarrow> pm_list mem' x = pm_list mem x) \<and>
     (\<forall>x. x \<notin> page_rb ` P \<and> x \<noteq> sentinel \<longrightarrow> pm_rb mem' x = pm_rb mem x)"

definition same_pool :: "st_pagepool \<Rightarrow> st_pagepool \<Rightarrow> bool" where
  "same_pool pool pool' \<longleftrightarrow> pp_page_size pool' = pp_page_size pool \<and> pp_region_size pool' = pp_region_size pool \<and>
     region_pages pool' = region_pages pool \<and> pp_space_base_offset pool' = pp_space_base_offset pool \<and>
     same_layout (pp_region_cb pool) (pp_region_cb pool') \<and>
     rt_sentinel (pp_free_pages pool') = rt_sentinel (pp_free_pages pool)"

lemma same_layout_refl [simp]: "same_layout rcb rcb"
  by (simp add: same_layout_def)

text \<open>Allocated runs lie apart from the run that is split and from all free runs.\<close>

lemma keepsI:
  assumes "\<And>q j. (q, j) \<in> A \<Longrightarrow> page_range q j \<inter> W = {}" "\<And>q j. (q, j) \<in> A \<Longrightarrow> q \<notin> F" "W \<subseteq> P" "F \<subseteq> P"
    and pg: "\<And>x. x \<notin> W \<Longrightarrow> pm_pages mem' x = pm_pages mem x"
    and ln: "\<And>x. x \<notin> page_ln ` F \<Longrightarrow> pm_list mem' x = pm_list mem x"
    and rb: "\<And>x. x \<notin> page_rb ` P \<Longrightarrow> x \<noteq> s \<Longrightarrow> pm_rb mem' x = pm_rb mem x"
  shows "keeps P A s mem mem'"
  unfolding keeps_def
proof (intro conjI allI impI ballI)
  fix a assume "a \<in> A"
  then obtain q j where a: "a = (q, j)" "(q, j) \<in> A" by (cases a) auto
  have "pm_list mem' (page_ln q) = pm_list mem (page_ln q)" using assms(2)[OF a(2)] by (intro ln) simp
  moreover have "pm_pages mem' x = pm_pages mem x" if "x \<in> page_range q j" for x
    using assms(1)[OF a(2)] that by (intro pg) blast
  ultimately show "case a of (q, j) \<Rightarrow> (\<forall>x \<in> page_range q j. pm_pages mem' x = pm_pages mem x) \<and>
      pm_list mem' (page_ln q) = pm_list mem (page_ln q)" using a(1) by simp
next
  fix x assume "x \<notin> P"
  then show "pm_pages mem' x = pm_pages mem x" using assms(3) by (intro pg) blast
next
  fix x assume "x \<notin> page_ln ` P"
  then show "pm_list mem' x = pm_list mem x" using assms(4) by (intro ln) blast
qed (use rb in blast)

lemma free_alloc_apart:
  assumes "described R n m L" "(q, j, False) \<in> all_runs R L"
  shows "q \<notin> free_masters R L"
  using run_unique[OF assms] by (auto simp: free_masters_def)

lemma free_masters_space:
  assumes "described R n m L"
  shows "free_masters R L \<subseteq> region_space R n"
proof
  fix p assume "p \<in> free_masters R L"
  then obtain k where k: "(p, k, True) \<in> all_runs R L" by (auto simp: free_masters_def)
  then show "p \<in> region_space R n"
    using run_in_space[OF assms k] page_range_start[OF described_run(1)[OF assms k], of p] by blast
qed

lemma after_split_sets:
  "{(q, j). (q, j, False) \<in> after_split A p k c} = insert (p, c) {(q, j). (q, j, False) \<in> A}"
  "{(q, j). (q, j, True) \<in> after_split A p k c} = {(q, j). (q, j, True) \<in> A} - {(p, k)} \<union>
     (if c < k then {(p + sizeof_page * c, k - c)} else {})"
  by (auto simp: after_split_def)

text \<open>The outcome of an allocation of \<open>c\<close> pages.\<close>

definition alloc_post ::
    "st_pagepool \<Rightarrow> page_mem \<Rightarrow> nat \<Rightarrow> st_error \<Rightarrow> addr option \<Rightarrow> st_pagepool \<Rightarrow> page_mem \<Rightarrow> bool" where
  "alloc_post pool mem c ret pages pool' mem' \<longleftrightarrow>
    (if \<exists>(q, j) \<in> free_runs pool mem. c \<le> j then
       \<exists>p k. ret = ST_OK \<and> pages = Some p \<and> (p, k) \<in> free_runs pool mem \<and> c \<le> k \<and>
         (\<forall>(q, j) \<in> free_runs pool mem. c \<le> j \<longrightarrow> k \<le> j) \<and>
         pool_regions pool' = pool_regions pool \<and>
         allocated_runs pool' mem' = insert (p, c) (allocated_runs pool mem) \<and>
         free_runs pool' mem' = free_runs pool mem - {(p, k)} \<union> (if c < k then {(p + sizeof_page * c, k - c)} else {})
     else if busy_regions (pp_region_cb pool) = {..<nat (rg_reg_cnt (pp_region_cb pool))} then
       ret = ST_OUT_OF_MEMORY \<and> pages = None \<and> mem' = mem \<and> pool_regions pool' = pool_regions pool \<and>
         allocated_runs pool' mem' = allocated_runs pool mem \<and> free_runs pool' mem' = free_runs pool mem
     else \<exists>r. ret = ST_OK \<and> pages = Some r \<and> r \<notin> set (pool_regions pool) \<and>
         set (pool_regions pool') = insert r (set (pool_regions pool)) \<and>
         allocated_runs pool' mem' = insert (r, c) (allocated_runs pool mem) \<and>
         free_runs pool' mem' = free_runs pool mem \<union>
           (if c < region_pages pool then {(r + sizeof_page * c, region_pages pool - c)} else {}))"

lemma alloc_body_ok:
  assumes "pool_desc pool mem L" "tmp \<notin> region_area (pp_region_cb pool)" "0 < c" "c \<le> region_pages pool"
  shows "\<exists>ret pages pool' mem' L'. alloc_body madvise_r t tmp pool mem (int c) = Some (ret, pages, pool', mem') \<and>
    pool_desc pool' mem' L' \<and> alloc_post pool mem c ret pages pool' mem' \<and> same_pool pool pool' \<and>
    keeps (all_pages pool') (allocated_runs pool mem) (rt_sentinel (pp_free_pages pool)) mem mem'"
proof -
  let ?R = "set (pool_regions pool)" and ?n = "region_pages pool" and ?rcb = "pp_region_cb pool"
  have base: "pool_base pool" and ix: "indexed pool mem ?R ?n L (free_masters ?R L)"
    and alt: "\<forall>r \<in> ?R. alternating (L r)" "\<forall>r \<in> ?R. L r \<noteq> [(?n, True)]"
    using assms(1) by (auto simp: pool_desc_iff)
  have d: "described ?R ?n (pm_pages mem) L" using ix by (simp add: indexed_def)
  note parts = pool_parts[OF base]
  have tmp: "tmp \<notin> region_space ?R ?n"
  proof
    assume "tmp \<in> region_space ?R ?n"
    then obtain i where "i \<in> busy_regions ?rcb" "tmp \<in> page_range (region_addr ?rcb i) ?n"
      using parts(4) by (auto simp: region_space_def)
    then show False using region_in_area(1)[OF base, of i] assms(2) by (auto simp: busy_regions_def)
  qed
  have fr: "(q, j) \<in> run_set pool mem f \<longleftrightarrow> (q, j, f) \<in> all_runs ?R L" for q j f
    using run_set_desc[OF assms(1), of f] by simp
  have fit: "(\<exists>(q, j) \<in> free_runs pool mem. c \<le> j) \<longleftrightarrow> (\<exists>q j. (q, j, True) \<in> all_runs ?R L \<and> c \<le> j)"
    using fr[of _ _ True] by auto
  show ?thesis
  proof (cases "\<exists>q j. (q, j, True) \<in> all_runs ?R L \<and> c \<le> j")
    case True
    obtain p k pool' mem' L' where g: "shortest_fit (all_runs ?R L) c p k"
      "st_pagepool_get_free_pages tmp pool mem (int c) = Some (ST_OK, Some p, pool', mem')"
      "indexed pool' mem' ?R ?n L' (free_masters ?R L')" "all_runs ?R L' = after_split (all_runs ?R L) p k c"
      "\<forall>r \<in> ?R. alternating (L' r)" "\<forall>r \<in> ?R. L' r = [(?n, True)] \<longrightarrow> L r = [(?n, True)]"
      "step_frame (page_range p k) (free_masters ?R L \<union> free_masters ?R L') (region_space ?R ?n) pool mem pool' mem'"
      using get_free_pages_some[OF ix tmp assms(3,4) True alt(1)] by blast
    obtain tree where tr: "pool' = pool\<lparr>pp_free_pages := tree\<rparr>" "rt_sentinel tree = rt_sentinel (pp_free_pages pool)"
      using g(7) by (auto simp: step_frame_def)
    have rg: "pool_regions pool' = pool_regions pool" "region_pages pool' = ?n" "all_pages pool' = region_space ?R ?n"
      by (simp_all add: tr(1) pool_regions_def region_pages_def all_pages_def)
    have "pool_base pool'"
      using base parts tr by (intro pool_base_update[of pool pool' ?rcb]) (simp_all add: regions_ok_def pool_regions_def)
    then have desc: "pool_desc pool' mem' L'" using g(3,5,6) alt(2) rg by (auto simp: pool_desc_iff)
    have pk: "(p, k, True) \<in> all_runs ?R L" "c \<le> k" "\<And>q j. (q, j, True) \<in> all_runs ?R L \<Longrightarrow> c \<le> j \<Longrightarrow> k \<le> j"
      using g(1) by (auto simp: shortest_fit_def)
    have sets: "allocated_runs pool' mem' = insert (p, c) (allocated_runs pool mem)"
      "free_runs pool' mem' = free_runs pool mem - {(p, k)} \<union> (if c < k then {(p + sizeof_page * c, k - c)} else {})"
      using run_set_desc[OF desc] run_set_desc[OF assms(1)] rg(1) g(4) after_split_sets by simp_all
    have post: "alloc_post pool mem c ST_OK (Some p) pool' mem'"
      unfolding alloc_post_def fit using True pk fr sets rg(1) by auto
    have fm': "free_masters ?R L' \<subseteq> free_masters ?R L \<union> page_range p k"
    proof
      fix x assume "x \<in> free_masters ?R L'"
      then show "x \<in> free_masters ?R L \<union> page_range p k"
        using g(4) pk(2) in_page_range[of "p + sizeof_page * c" p k]
        by (auto simp: free_masters_def after_split_def split: if_splits)
    qed
    have "keeps (all_pages pool') (allocated_runs pool mem) (rt_sentinel (pp_free_pages pool)) mem mem'"
      unfolding rg(3)
    proof (rule keepsI[where W = "page_range p k" and F = "free_masters ?R L \<union> free_masters ?R L'"])
      fix q j assume "(q, j) \<in> allocated_runs pool mem"
      then have qj: "(q, j, False) \<in> all_runs ?R L" using fr by blast
      show "page_range q j \<inter> page_range p k = {}" using described_disjoint[OF d qj pk(1)] by simp
      moreover have "q \<in> page_range q j" using page_range_start[OF described_run(1)[OF d qj]] .
      ultimately show "q \<notin> free_masters ?R L \<union> free_masters ?R L'" using free_alloc_apart[OF d qj] fm' by blast
    next
      show "page_range p k \<subseteq> region_space ?R ?n" using run_in_space[OF d pk(1)] .
      then show "free_masters ?R L \<union> free_masters ?R L' \<subseteq> region_space ?R ?n" using free_masters_space[OF d] fm' by blast
    qed (use g(7) in \<open>auto simp: step_frame_def\<close>)
    moreover have "alloc_body madvise_r t tmp pool mem (int c) = Some (ST_OK, Some p, pool', mem')"
      using g(2) by (simp add: alloc_body_def)
    moreover have "same_pool pool pool'" using tr by (simp add: same_pool_def region_pages_def)
    ultimately show ?thesis using desc post by blast
  next
    case False
    have body: "alloc_body madvise_r t tmp pool mem (int c) = alloc_new_region madvise_r t pool mem (int c)"
      using get_free_pages_none[OF ix tmp assms(3,4) False] by (simp add: alloc_body_def)
    show ?thesis
    proof (cases "busy_regions ?rcb = {..<nat (rg_reg_cnt ?rcb)}")
      case True
      obtain rcb where al: "st_region_alloc_reg t ?rcb = Some ((ST_OUT_OF_MEMORY, None), rcb)"
        "region_ok rcb" "same_layout ?rcb rcb" "busy_regions rcb = busy_regions ?rcb"
        using region_alloc[OF parts(2), of t] True by auto
      let ?p = "pool\<lparr>pp_region_cb := rcb\<rparr>"
      have rg: "pool_regions ?p = pool_regions pool" "region_pages ?p = ?n" "all_pages ?p = all_pages pool"
        by (simp_all add: pool_regions_def region_pages_def all_pages_def)
      have "pool_base ?p"
        using base parts al same_layout_addr[OF al(3)] by (intro pool_base_update[of pool ?p rcb])
          (simp_all add: regions_ok_def pool_regions_def)
      moreover have "indexed ?p mem ?R ?n L (free_masters ?R L)"
        using ix free_index_cong[of pool mem _ _ mem ?p] by (auto simp: indexed_def)
      ultimately have desc: "pool_desc ?p mem L" using alt rg by (simp add: pool_desc_iff)
      have "run_set ?p mem f = run_set pool mem f" for f by (simp add: run_set_def rg)
      then have "alloc_post pool mem c ST_OUT_OF_MEMORY None ?p mem"
        unfolding alloc_post_def fit using False True rg by auto
      moreover have "keeps (all_pages ?p) (allocated_runs pool mem) (rt_sentinel (pp_free_pages pool)) mem mem"
        by (auto simp: keeps_def)
      moreover have "same_pool pool ?p" using al(3) by (simp add: same_pool_def region_pages_def)
      moreover have "alloc_body madvise_r t tmp pool mem (int c) = Some (ST_OUT_OF_MEMORY, None, ?p, mem)"
        unfolding body using al(1) by (simp add: alloc_new_region_def)
      ultimately show ?thesis using desc by blast
    next
      case busy: False
      obtain r pool' mem' L' where g: "alloc_new_region madvise_r t pool mem (int c) = Some (ST_OK, Some r, pool', mem')"
        "r \<notin> ?R" "set (pool_regions pool') = insert r ?R" "pool_desc pool' mem' L'" "region_pages pool' = ?n"
        "page_range r ?n \<inter> region_space ?R ?n = {}"
        "all_runs (insert r ?R) L' = after_split (insert (r, ?n, True) (all_runs ?R L)) r ?n c"
        "\<forall>x. x \<notin> page_range r ?n \<longrightarrow> pm_pages mem' x = pm_pages mem x"
        "\<forall>x. x \<notin> page_ln ` (page_range r ?n \<union> free_masters (insert r ?R) L') \<longrightarrow> pm_list mem' x = pm_list mem x"
        "\<forall>x. x \<notin> page_rb ` region_space (insert r ?R) ?n \<and> x \<noteq> rt_sentinel (pp_free_pages pool) \<longrightarrow> pm_rb mem' x = pm_rb mem x"
        "same_layout ?rcb (pp_region_cb pool')" "rt_sentinel (pp_free_pages pool') = rt_sentinel (pp_free_pages pool)"
        "pp_page_size pool' = pp_page_size pool" "pp_space_base_offset pool' = pp_space_base_offset pool" "pp_region_size pool' = pp_region_size pool"
        using new_region_ok[OF assms(1) busy assms(3,4), of madvise_r t] by (elim exE conjE) (rule that; assumption)
      have ap: "all_pages pool' = region_space (insert r ?R) ?n" using g(3,5) by (simp add: all_pages_def)
      have rn: "(r, ?n, True) \<notin> all_runs ?R L"
        using run_in_space[OF d, of r ?n True] page_range_start[OF pool_sizes(1)[OF base], of r] g(6) by blast
      have sets: "allocated_runs pool' mem' = insert (r, c) (allocated_runs pool mem)"
        "free_runs pool' mem' = free_runs pool mem \<union> (if c < ?n then {(r + sizeof_page * c, ?n - c)} else {})"
        using run_set_desc[OF g(4)] run_set_desc[OF assms(1)] rn unfolding g(3,7)
        by (auto simp: after_split_def)
      have post: "alloc_post pool mem c ST_OK (Some r) pool' mem'"
        unfolding alloc_post_def fit using False busy g(2,3) sets by auto
      have fm': "free_masters (insert r ?R) L' \<subseteq> free_masters ?R L \<union> page_range r ?n"
      proof
        fix x assume "x \<in> free_masters (insert r ?R) L'"
        then show "x \<in> free_masters ?R L \<union> page_range r ?n"
          using in_page_range[of "r + sizeof_page * c" r ?n] page_range_start[OF pool_sizes(1)[OF base], of r]
          by (auto simp: free_masters_def g(7) after_split_def split: if_splits)
      qed
      have "keeps (all_pages pool') (allocated_runs pool mem) (rt_sentinel (pp_free_pages pool)) mem mem'"
        unfolding ap
      proof (rule keepsI[where W = "page_range r ?n" and F = "page_range r ?n \<union> free_masters (insert r ?R) L'"])
        fix q j assume "(q, j) \<in> allocated_runs pool mem"
        then have qj: "(q, j, False) \<in> all_runs ?R L" using fr by blast
        show e: "page_range q j \<inter> page_range r ?n = {}" using run_in_space[OF d qj] g(6) by blast
        moreover have "q \<in> page_range q j" using page_range_start[OF described_run(1)[OF d qj]] .
        ultimately show "q \<notin> page_range r ?n \<union> free_masters (insert r ?R) L'"
          using free_alloc_apart[OF d qj] fm' by blast
      next
        show e: "page_range r ?n \<subseteq> region_space (insert r ?R) ?n" by (auto simp: region_space_def)
        have "region_space ?R ?n \<subseteq> region_space (insert r ?R) ?n" by (auto simp: region_space_def)
        then show "page_range r ?n \<union> free_masters (insert r ?R) L' \<subseteq> region_space (insert r ?R) ?n"
          using e free_masters_space[OF d] fm' by blast
      qed (use g(8-10) in blast)+
      moreover have "same_pool pool pool'" using g(5,11-15) by (simp add: same_pool_def)
      ultimately show ?thesis using g(1,4) post body by metis
    qed
  qed
qed

end
