(* ===== verification/Pagepool_Release.thy ===== *)
theory Pagepool_Release
  imports Pagepool_Alloc
begin

text \<open>
  Release of runs: a freed run is merged with its free neighbours, and a region that is free
  altogether is given back.
\<close>

section \<open>Neighbours\<close>

lemma layout_positive: "layout m r p bs \<Longrightarrow> b \<in> set bs \<Longrightarrow> 0 < fst b"
  by (induction m r p bs rule: layout.induct) auto

lemma total_len_0: "layout m r p bs \<Longrightarrow> total_len bs = 0 \<longleftrightarrow> bs = []"
  by (cases bs) auto

lemma before_run:
  assumes "layout m r q (xs @ (n, f) # ys)" "p = q + sizeof_page * total_len xs"
    "(a, j, g) \<in> set (placed q (xs @ (n, f) # ys))"
  shows "a + sizeof_page * j = p \<longleftrightarrow> (\<exists>us. xs = us @ [(j, g)] \<and> a = q + sizeof_page * total_len us)"
proof
  assume adj: "a + sizeof_page * j = p"
  obtain us vs where s: "xs @ (n, f) # ys = us @ (j, g) # vs" "a = q + sizeof_page * total_len us"
    using placed_split[OF assms(3)] by blast
  have len: "total_len us + j = total_len xs" using adj assms(2) s(2) by (simp add: sizeof_page_def)
  have pos: "0 < j" using layout_placed[OF assms(1,3)] by simp
  have "\<exists>ws. xs = us @ (j, g) # ws"
  proof (rule ccontr)
    assume "\<nexists>ws. xs = us @ (j, g) # ws"
    then obtain ws where "us = xs @ ws" using s(1) by (auto simp: append_eq_append_conv2 Cons_eq_append_conv append_eq_Cons_conv)
    then show False using len pos by simp
  qed
  then obtain ws where ws: "xs = us @ (j, g) # ws" by blast
  then have "total_len ws = 0" using len by simp
  moreover have "layout m r (q + sizeof_page * (total_len us + j)) ws"
    using assms(1) ws by (simp add: algebra_simps)
  ultimately show "\<exists>us. xs = us @ [(j, g)] \<and> a = q + sizeof_page * total_len us"
    using total_len_0 ws s(2) by blast
qed (use assms(2) in \<open>auto simp: algebra_simps\<close>)

lemma after_run:
  assumes "layout m r q (xs @ (n, f) # ys)" "p = q + sizeof_page * total_len xs"
    "(a, j, g) \<in> set (placed q (xs @ (n, f) # ys))"
  shows "a = p + sizeof_page * n \<longleftrightarrow> (\<exists>vs. ys = (j, g) # vs \<and> a = p + sizeof_page * n)"
proof
  assume adj: "a = p + sizeof_page * n"
  obtain us vs where s: "xs @ (n, f) # ys = us @ (j, g) # vs" "a = q + sizeof_page * total_len us"
    using placed_split[OF assms(3)] by blast
  have len: "total_len us = total_len xs + n" using adj assms(2) s(2) by (simp add: sizeof_page_def)
  have n: "0 < n" using assms(1) by simp
  have "\<exists>ws. us = xs @ (n, f) # ws"
  proof (rule ccontr)
    assume "\<nexists>ws. us = xs @ (n, f) # ws"
    then obtain ws where "xs = us @ ws" using s(1) by (auto simp: append_eq_append_conv2 Cons_eq_append_conv append_eq_Cons_conv)
    then show False using len n by simp
  qed
  then obtain ws where ws: "us = xs @ (n, f) # ws" by blast
  then have "total_len ws = 0" using len by simp
  moreover have "layout m r (p + sizeof_page * n) ws" using assms(1,2) s(1) ws by simp
  ultimately show "\<exists>vs. ys = (j, g) # vs \<and> a = p + sizeof_page * n" using total_len_0 ws s(1) adj by auto
qed blast

lemma prev_pages_ok:
  assumes "layout m r r (xs @ (n, f) # ys)" "p = r + sizeof_page * total_len xs"
  shows "st_pagepool_prev_pages m p = (if xs = [] then NULL else p - sizeof_page * fst (last xs))"
proof -
  have "run_at m r p n f" "0 < n" using assms by auto
  then have reg: "pg_region (m p) = r" using run_at_master(1) by blast
  show ?thesis
  proof (cases xs rule: rev_cases)
    case Nil
    then show ?thesis using reg assms(2) by (simp add: st_pagepool_prev_pages_def)
  next
    case (snoc us b)
    obtain k g where b: "b = (k, g)" by (cases b)
    let ?a = "r + sizeof_page * total_len us"
    have run: "run_at m r ?a k g" "0 < k" using assms(1) snoc b by auto
    have p: "p = ?a + sizeof_page * k" using assms(2) snoc b by (simp add: algebra_simps)
    have "page_add p (- 1) = ?a + sizeof_page * (k - 1)"
      using p run(2) by (simp add: page_add_def sizeof_page_def nat_diff_distrib)
    moreover have "?a + sizeof_page * (k - 1) \<in> page_range ?a k" unfolding in_page_range using run(2) by (intro exI[of _ "k - 1"]) simp
    ultimately have cnt: "page_cnt m (page_add p (- 1)) = int k" using run_atD(3)[OF run(1)] by simp
    have "p \<noteq> r" using p run(2) by (simp add: sizeof_page_def)
    then have "st_pagepool_prev_pages m p = page_add p (- int k)"
      unfolding st_pagepool_prev_pages_def reg cnt by simp
    also have "\<dots> = ?a" using p by (simp add: page_add_def nat_add_distrib nat_mult_distrib)
    finally show ?thesis using p snoc b by simp
  qed
qed

lemma next_pages_ok:
  assumes "layout m r r (xs @ (n, f) # ys)" "p = r + sizeof_page * total_len xs"
    "pp_pages_per_region pool = int (total_len (xs @ (n, f) # ys))"
  shows "st_pagepool_next_pages pool m p = (if ys = [] then NULL else p + sizeof_page * n)"
proof -
  have "run_at m r p n f" "0 < n" using assms by auto
  then have "pg_region (m p) = r" "page_cnt m p = int n" using run_at_master by blast+
  moreover have "p + sizeof_page * n = r + sizeof_page * total_len (xs @ (n, f) # ys) \<longleftrightarrow> ys = []"
    using total_len_0[of m r "p + sizeof_page * n" ys] assms(1,2) by (auto simp: sizeof_page_def)
  ultimately show ?thesis using assms(3) unfolding st_pagepool_next_pages_def by (simp only: page_add_nat)
qed

lemma merge_neighbour_ok:
  assumes "described R n (pm_pages mem) L" "free_index pool mem P F" "nb = NULL \<or> (nb, k, f) \<in> all_runs R L"
    "nb \<noteq> NULL \<and> f \<longrightarrow> nb \<in> F"
  shows "\<exists>pool' mem'. merge_neighbour pool mem nb tot =
      Some (nb \<noteq> NULL \<and> f, if nb \<noteq> NULL \<and> f then tot + int k else tot, pool', mem') \<and>
    free_index pool' mem' P (if nb \<noteq> NULL \<and> f then F - {nb} else F) \<and> index_frame P F pool mem pool' mem'"
proof (cases "nb \<noteq> NULL \<and> f")
  case True
  then have run: "(nb, k, True) \<in> all_runs R L" using assms(3) by auto
  obtain pool' mem' where r: "st_pagepool_remove_pages pool mem nb = Some (pool', mem')"
    "free_index pool' mem' P (F - {nb})" "index_frame P F pool mem pool' mem'"
    using remove_pages_ok[OF assms(2), of nb] assms(4) True by blast
  have "pg_state (pm_pages mem nb) = ST_PAGEPOOL_PAGE_FREE" "page_cnt (pm_pages mem') nb = int k"
    using described_run(2,4)[OF assms(1) run] r(3) by (simp_all add: run_state_def index_frame_def)
  then show ?thesis using r True by (simp add: merge_neighbour_def)
next
  case False
  have "nb = NULL \<or> pg_state (pm_pages mem nb) \<noteq> ST_PAGEPOOL_PAGE_FREE"
  proof (cases "nb = NULL")
    case nn: False
    then show ?thesis
      using False assms(3) described_run(4)[OF assms(1), of nb k f]
      by (simp add: run_state_def ST_PAGEPOOL_PAGE_FREE_def ST_PAGEPOOL_PAGE_ALLOCATED_def)
  qed simp
  moreover have "index_frame P F pool mem pool mem"
    unfolding index_frame_def by (intro conjI exI[of _ "pp_free_pages pool"]) auto
  ultimately show ?thesis using False assms(2) by (auto simp: merge_neighbour_def)
qed

section \<open>Merging\<close>

lemma split_before:
  assumes "alternating (xs0 @ (n0, False) # ys0)"
  obtains xs pre where "xs0 = xs @ pre" "pre = [] \<or> (\<exists>k. pre = [(k, True)])" "xs = [] \<or> \<not> snd (last xs)"
proof (cases "xs0 = [] \<or> \<not> snd (last xs0)")
  case True
  then show ?thesis using that[of xs0 "[]"] by simp
next
  case False
  then obtain us k where us: "xs0 = us @ [(k, True)]" by (cases xs0 rule: rev_cases) auto
  have "us = [] \<or> \<not> snd (last us)"
    using assms us by (auto simp: alternating_def successively_append_iff)
  then show ?thesis using that[of us "[(k, True)]"] us by simp
qed

lemma split_after:
  assumes "alternating (xs0 @ (n0, False) # ys0)"
  obtains post ys where "ys0 = post @ ys" "post = [] \<or> (\<exists>k. post = [(k, True)])" "ys = [] \<or> \<not> snd (hd ys)"
proof (cases "ys0 = [] \<or> \<not> snd (hd ys0)")
  case True
  then show ?thesis using that[of "[]" ys0] by simp
next
  case False
  then obtain vs k where vs: "ys0 = (k, True) # vs" by (cases ys0) auto
  have "vs = [] \<or> \<not> snd (hd vs)"
    using assms vs by (cases vs) (auto simp: alternating_def successively_append_iff)
  then show ?thesis using that[of "[(k, True)]" vs] vs by simp
qed

text \<open>Where a merge happens: \<open>pre\<close> and \<open>post\<close> are the free neighbours, if any.\<close>

definition merge_site ::
    "(addr \<Rightarrow> run list) \<Rightarrow> addr \<Rightarrow> nat \<Rightarrow> addr \<Rightarrow> run list \<Rightarrow> run list \<Rightarrow> run list \<Rightarrow> run list \<Rightarrow> bool" where
  "merge_site L p n0 r xs pre post ys \<longleftrightarrow> L r = xs @ (pre @ (n0, False) # post) @ ys \<and>
     p = r + sizeof_page * total_len (xs @ pre) \<and>
     (pre = [] \<or> (\<exists>k. pre = [(k, True)])) \<and> (xs = [] \<or> \<not> snd (last xs)) \<and>
     (post = [] \<or> (\<exists>k. post = [(k, True)])) \<and> (ys = [] \<or> \<not> snd (hd ys))"

lemma merge_site_exists:
  assumes "described R n m L" "(p, n0, False) \<in> all_runs R L" "\<forall>r \<in> R. alternating (L r)"
  shows "\<exists>r xs pre post ys. r \<in> R \<and> merge_site L p n0 r xs pre post ys"
proof -
  obtain r xs0 ys0 where r: "r \<in> R" "L r = xs0 @ (n0, False) # ys0" "p = r + sizeof_page * total_len xs0"
    using described_run(7)[OF assms(1,2)] by blast
  have alt: "alternating (xs0 @ (n0, False) # ys0)" using assms(3) r(1,2) by metis
  obtain xs pre where "xs0 = xs @ pre" "pre = [] \<or> (\<exists>k. pre = [(k, True)])" "xs = [] \<or> \<not> snd (last xs)"
    using split_before[OF alt] by blast
  moreover obtain post ys where "ys0 = post @ ys" "post = [] \<or> (\<exists>k. post = [(k, True)])" "ys = [] \<or> \<not> snd (hd ys)"
    using split_after[OF alt] by blast
  ultimately have "merge_site L p n0 r xs pre post ys" using r(2,3) by (simp add: merge_site_def)
  with r(1) show ?thesis by blast
qed

text \<open>The two neighbours as the code finds them.\<close>

lemma merge_site_neighbours:
  assumes "described R n m L" "r \<in> R" "merge_site L p n0 r xs pre post ys" "pp_pages_per_region pool = int n"
    "NULL \<notin> R"
  defines "q \<equiv> r + sizeof_page * total_len xs"
  shows "\<exists>k f. (st_pagepool_prev_pages m p = NULL \<or> (st_pagepool_prev_pages m p, k, f) \<in> all_runs R L) \<and>
      (st_pagepool_prev_pages m p \<noteq> NULL \<and> f \<longleftrightarrow> pre \<noteq> []) \<and>
      (pre \<noteq> [] \<longrightarrow> pre = [(k, True)] \<and> st_pagepool_prev_pages m p = q)"
    and "\<exists>k f. (st_pagepool_next_pages pool m p = NULL \<or> (st_pagepool_next_pages pool m p, k, f) \<in> all_runs R L) \<and>
      (st_pagepool_next_pages pool m p \<noteq> NULL \<and> f \<longleftrightarrow> post \<noteq> []) \<and>
      (post \<noteq> [] \<longrightarrow> post = [(k, True)] \<and> st_pagepool_next_pages pool m p = p + sizeof_page * n0)"
proof -
  have s: "L r = (xs @ pre) @ (n0, False) # post @ ys" "p = r + sizeof_page * total_len (xs @ pre)"
    "pre = [] \<or> (\<exists>k. pre = [(k, True)])" "xs = [] \<or> \<not> snd (last xs)"
    "post = [] \<or> (\<exists>k. post = [(k, True)])" "ys = [] \<or> \<not> snd (hd ys)"
    using assms(3) by (auto simp: merge_site_def)
  have lay: "layout m r r ((xs @ pre) @ (n0, False) # post @ ys)" "total_len ((xs @ pre) @ (n0, False) # post @ ys) = n"
    using assms(1,2) s(1) by (auto simp: described_def)
  have nn: "r \<noteq> NULL" using assms(2,5) by metis
  have ar: "set (placed r (L r)) \<subseteq> all_runs R L" using assms(2) by (auto simp: all_runs_def)
  note prev = prev_pages_ok[OF lay(1) s(2)] and nxt = next_pages_ok[OF lay(1) s(2), of pool]
  show "\<exists>k f. (st_pagepool_prev_pages m p = NULL \<or> (st_pagepool_prev_pages m p, k, f) \<in> all_runs R L) \<and>
      (st_pagepool_prev_pages m p \<noteq> NULL \<and> f \<longleftrightarrow> pre \<noteq> []) \<and>
      (pre \<noteq> [] \<longrightarrow> pre = [(k, True)] \<and> st_pagepool_prev_pages m p = q)"
  proof (cases "xs @ pre" rule: rev_cases)
    case Nil
    then show ?thesis using prev by simp
  next
    case (snoc us b)
    obtain k f where b: "b = (k, f)" by (cases b)
    let ?a = "r + sizeof_page * total_len us"
    have "p = ?a + sizeof_page * k" using s(2) snoc b by (simp add: algebra_simps)
    then have pv: "st_pagepool_prev_pages m p = ?a" using prev snoc b by simp
    have "(?a, k, f) \<in> set (placed r (L r))" unfolding s(1) snoc b by simp
    moreover have "f \<longleftrightarrow> pre \<noteq> []" using s(3,4) snoc b by (cases "pre = []") auto
    moreover have "pre \<noteq> [] \<longrightarrow> pre = [(k, True)] \<and> ?a = q" using s(3) snoc b by (auto simp: q_def)
    ultimately show ?thesis using pv ar nn by (intro exI[of _ k] exI[of _ f]) auto
  qed
  show "\<exists>k f. (st_pagepool_next_pages pool m p = NULL \<or> (st_pagepool_next_pages pool m p, k, f) \<in> all_runs R L) \<and>
      (st_pagepool_next_pages pool m p \<noteq> NULL \<and> f \<longleftrightarrow> post \<noteq> []) \<and>
      (post \<noteq> [] \<longrightarrow> post = [(k, True)] \<and> st_pagepool_next_pages pool m p = p + sizeof_page * n0)"
  proof (cases "post @ ys")
    case Nil
    then show ?thesis using nxt lay(2) assms(4) by simp
  next
    case (Cons b vs)
    obtain k f where b: "b = (k, f)" by (cases b)
    let ?a = "p + sizeof_page * n0"
    have nx: "st_pagepool_next_pages pool m p = ?a" using nxt lay(2) assms(4) Cons by simp
    have "(?a, k, f) \<in> set (placed r (L r))" unfolding s(1) Cons b s(2) placed_append placed.simps by simp
    moreover have "f \<longleftrightarrow> post \<noteq> []" using s(5,6) Cons b by (cases "post = []") auto
    moreover have "post \<noteq> [] \<longrightarrow> post = [(k, True)]" using s(5) Cons b by auto
    moreover have "?a \<noteq> NULL" using s(2) nn by simp
    ultimately show ?thesis using nx ar by (intro exI[of _ k] exI[of _ f]) auto
  qed
qed

lemma index_frame_trans:
  assumes "index_frame P F pool mem pool' mem'" "index_frame P F' pool' mem' pool'' mem''" "F' \<subseteq> F"
  shows "index_frame P F pool mem pool'' mem''"
proof -
  have "step_frame ({} \<union> {}) (F \<union> F') P pool mem pool'' mem''"
    using assms(1,2) by (intro step_frame_trans[OF index_step_frame index_step_frame])
  moreover have "F \<union> F' = F" using assms(3) by auto
  ultimately show ?thesis by (simp add: step_frame_def index_frame_def fun_eq_iff)
qed

lemma placed_cover:
  "x \<in> page_range q (total_len bs) \<Longrightarrow> \<exists>a j f. (a, j, f) \<in> set (placed q bs) \<and> x \<in> page_range a j"
proof (induction q bs rule: placed.induct)
  case (2 q n f bs)
  then show ?case by (cases "x \<in> page_range q n") (auto simp: page_range_add)
qed simp

definition merge_names :: "addr \<Rightarrow> nat \<Rightarrow> addr \<Rightarrow> run list \<Rightarrow> run list \<Rightarrow> addr set" where
  "merge_names p n0 q pre post =
    (if pre = [] then {} else {q}) \<union> (if post = [] then {} else {p + sizeof_page * n0})"

lemma merge_mid:
  assumes "described R n m L" "r \<in> R" "merge_site L p n0 r xs pre post ys"
  defines "q \<equiv> r + sizeof_page * total_len xs" and "mid \<equiv> pre @ (n0, False) # post"
  shows "layout m r q mid" "total_len mid \<le> n" "set (placed q mid) \<subseteq> all_runs R L" "q \<noteq> p + sizeof_page * n0"
    "\<And>x. x \<in> page_range q (total_len mid) \<Longrightarrow> x \<in> free_masters R L \<Longrightarrow> x \<in> merge_names p n0 q pre post"
    "page_range q (total_len mid) \<subseteq> page_range r n"
proof -
  have s: "L r = xs @ mid @ ys" "p = q + sizeof_page * total_len pre" "pre = [] \<or> (\<exists>k. pre = [(k, True)])"
    "post = [] \<or> (\<exists>k. post = [(k, True)])"
    using assms(3) by (auto simp: merge_site_def mid_def q_def algebra_simps)
  have lay: "layout m r r (xs @ mid @ ys)" "total_len (xs @ mid @ ys) = n"
    using assms(1,2) s(1) by (auto simp: described_def)
  show l: "layout m r q mid" using lay(1) by (simp add: q_def)
  show "total_len mid \<le> n" using lay(2) by simp
  show sub: "set (placed q mid) \<subseteq> all_runs R L"
    using assms(2) s(1) unfolding all_runs_def by (auto simp: q_def intro!: bexI[of _ r])
  have n0: "0 < n0" using l by (simp add: mid_def)
  then show "q \<noteq> p + sizeof_page * n0" using s(2) by (simp add: sizeof_page_def)
  show "page_range q (total_len mid) \<subseteq> page_range r n"
    using lay(2) page_range_add[of r "total_len xs" "total_len mid + total_len ys"]
      page_range_add[of q "total_len mid" "total_len ys"] by (auto simp: q_def)
  fix x assume x: "x \<in> page_range q (total_len mid)" "x \<in> free_masters R L"
  then obtain j where j: "(x, j, True) \<in> all_runs R L" by (auto simp: free_masters_def)
  obtain a i f where a: "(a, i, f) \<in> set (placed q mid)" "x \<in> page_range a i" using placed_cover[OF x(1)] by blast
  have "(a, i, f) = (x, j, True)"
    using described_disjoint[OF assms(1), of a i f x j True] sub a j page_range_start[OF described_run(1)[OF assms(1) j]] by blast
  then have "(x, j, True) \<in> set (placed q mid)" using a(1) by simp
  then show "x \<in> merge_names p n0 q pre post"
    using s(2-4) unfolding mid_def merge_names_def by auto
qed

text \<open>\<^verbatim>\<open>st_pagepool_merge_pages\<close>: the neighbours leave the index and the descriptors describe one free run.\<close>

lemma merge_removals:
  assumes "indexed pool mem R n L (free_masters R L)" "r \<in> R" "merge_site L p n0 r xs pre post ys"
    "pp_pages_per_region pool = int n"
  defines "q \<equiv> r + sizeof_page * total_len xs"
  shows "\<exists>pool1 mem1 pool2 mem2 b.
    merge_neighbour pool mem (st_pagepool_prev_pages (pm_pages mem) p) (int n0) =
      Some (pre \<noteq> [], int (total_len pre + n0), pool1, mem1) \<and>
    (pre \<noteq> [] \<longrightarrow> st_pagepool_prev_pages (pm_pages mem) p = q) \<and>
    merge_neighbour pool1 mem1 (st_pagepool_next_pages pool1 (pm_pages mem1) p) (int (total_len pre + n0)) =
      Some (b, int (total_len (pre @ (n0, False) # post)), pool2, mem2) \<and>
    free_index pool2 mem2 (region_space R n) (free_masters R L - merge_names p n0 q pre post) \<and>
    index_frame (region_space R n) (free_masters R L) pool mem pool2 mem2"
proof -
  let ?P = "region_space R n" and ?F = "free_masters R L" and ?m = "pm_pages mem"
  have d: "described R n ?m L" and fi: "free_index pool mem ?P ?F" and nR: "NULL \<notin> R"
    using assms(1) by (auto simp: indexed_def)
  let ?prev = "st_pagepool_prev_pages ?m p"
  obtain k f where v: "?prev = NULL \<or> (?prev, k, f) \<in> all_runs R L" "?prev \<noteq> NULL \<and> f \<longleftrightarrow> pre \<noteq> []"
    "pre \<noteq> [] \<longrightarrow> pre = [(k, True)] \<and> ?prev = q"
    using merge_site_neighbours(1)[OF d assms(2-4) nR, folded q_def] by blast
  have "?prev \<noteq> NULL \<and> f \<longrightarrow> ?prev \<in> ?F" using v(1) by (auto simp: free_masters_def)
  then obtain pool1 mem1 where 1: "merge_neighbour pool mem ?prev (int n0) =
      Some (pre \<noteq> [], if pre \<noteq> [] then int n0 + int k else int n0, pool1, mem1)"
    "free_index pool1 mem1 ?P (if pre \<noteq> [] then ?F - {?prev} else ?F)" "index_frame ?P ?F pool mem pool1 mem1"
    using merge_neighbour_ok[OF d fi v(1)] unfolding v(2) by blast
  have tot1: "(if pre \<noteq> [] then int n0 + int k else int n0) = int (total_len pre + n0)" using v(3) by auto
  have m1: "pm_pages mem1 = ?m" "pp_pages_per_region pool1 = int n"
    using 1(3) assms(4) by (auto simp: index_frame_def)
  let ?F1 = "if pre \<noteq> [] then ?F - {?prev} else ?F" and ?next = "st_pagepool_next_pages pool1 ?m p"
  obtain k' f' where w: "?next = NULL \<or> (?next, k', f') \<in> all_runs R L" "?next \<noteq> NULL \<and> f' \<longleftrightarrow> post \<noteq> []"
    "post \<noteq> [] \<longrightarrow> post = [(k', True)] \<and> ?next = p + sizeof_page * n0"
    using merge_site_neighbours(2)[OF d assms(2,3) m1(2) nR] by blast
  have qn: "q \<noteq> p + sizeof_page * n0" using merge_mid(4)[OF d assms(2,3)] by (simp add: q_def)
  have "?next \<noteq> NULL \<and> f' \<longrightarrow> ?next \<in> ?F1"
    using w v(3) qn by (auto simp: free_masters_def)
  then obtain pool2 mem2 where 2: "merge_neighbour pool1 mem1 ?next (int (total_len pre + n0)) =
      Some (post \<noteq> [], if post \<noteq> [] then int (total_len pre + n0) + int k' else int (total_len pre + n0), pool2, mem2)"
    "free_index pool2 mem2 ?P (if post \<noteq> [] then ?F1 - {?next} else ?F1)" "index_frame ?P ?F1 pool1 mem1 pool2 mem2"
    using merge_neighbour_ok[of R n mem1 L pool1 ?P ?F1 ?next k' f' "int (total_len pre + n0)"] d m1(1) 1(2) w(1)
    unfolding w(2) by auto
  have tot2: "(if post \<noteq> [] then int (total_len pre + n0) + int k' else int (total_len pre + n0)) =
      int (total_len (pre @ (n0, False) # post))" using w(3) by auto
  have "(if post \<noteq> [] then ?F1 - {?next} else ?F1) = ?F - merge_names p n0 q pre post"
    using v(3) w(3) by (auto simp: merge_names_def)
  with 2(2) have fi2: "free_index pool2 mem2 ?P (?F - merge_names p n0 q pre post)" by simp
  have "index_frame ?P ?F pool mem pool2 mem2" using 1(3) 2(3) by (rule index_frame_trans) auto
  moreover have "merge_neighbour pool1 mem1 (st_pagepool_next_pages pool1 (pm_pages mem1) p) (int (total_len pre + n0)) =
      Some (post \<noteq> [], int (total_len (pre @ (n0, False) # post)), pool2, mem2)"
    using 2(1) unfolding tot2 m1(1) .
  ultimately show ?thesis using 1(1)[unfolded tot1] v(3) fi2 by blast
qed

lemma merge_pages_desc:
  assumes "indexed pool mem R n L (free_masters R L)" "r \<in> R" "merge_site L p n0 r xs pre post ys"
    "pp_pages_per_region pool = int n"
  defines "q \<equiv> r + sizeof_page * total_len xs" and "K \<equiv> total_len (pre @ (n0, False) # post)"
  shows "\<exists>pool' mem'. st_pagepool_merge_pages pool mem p = Some (q, pool', mem') \<and>
    run_at (pm_pages mem') r q K True \<and>
    free_index pool' mem' (region_space R n) (free_masters R L - merge_names p n0 q pre post) \<and>
    step_frame (page_range q K) (free_masters R L) (region_space R n) pool mem pool' mem'"
proof -
  let ?P = "region_space R n" and ?F = "free_masters R L"
  have d: "described R n (pm_pages mem) L" and n: "n < 32768" "NULL \<notin> R" using assms(1) by (auto simp: indexed_def)
  note mid = merge_mid[OF d assms(2,3), folded q_def K_def]
  obtain pool1 mem1 pool2 mem2 b where r:
    "merge_neighbour pool mem (st_pagepool_prev_pages (pm_pages mem) p) (int n0) =
      Some (pre \<noteq> [], int (total_len pre + n0), pool1, mem1)"
    "pre \<noteq> [] \<longrightarrow> st_pagepool_prev_pages (pm_pages mem) p = q"
    "merge_neighbour pool1 mem1 (st_pagepool_next_pages pool1 (pm_pages mem1) p) (int (total_len pre + n0)) =
      Some (b, int K, pool2, mem2)"
    "free_index pool2 mem2 ?P (?F - merge_names p n0 q pre post)" "index_frame ?P ?F pool mem pool2 mem2"
    using merge_removals[OF assms(1-4)] unfolding q_def K_def by blast
  have pn: "page_cnt (pm_pages mem) p = int n0"
  proof -
    have "(p, n0, False) \<in> set (placed q (pre @ (n0, False) # post))"
      using assms(3) by (auto simp: merge_site_def q_def algebra_simps)
    then show ?thesis using described_run(2)[OF d] mid(3) by blast
  qed
  have K: "0 < K" "K < 32768" using mid(1,2) n(1) by (auto simp: K_def)
  have m2: "pm_pages mem2 = pm_pages mem" using r(5) by (simp add: index_frame_def)
  have reg: "pg_region (pm_pages mem2 x) = r" if "x \<in> page_range q K" for x
    using page_range_region[OF mid(1)] that m2 by (simp add: K_def)
  have qn: "q \<noteq> NULL" using n(2) assms(2) unfolding q_def by (metis add_is_0)
  obtain m' where w: "upd (for_pages (int K) q id (\<lambda>pg. pg\<lparr>pg_state := ST_PAGEPOOL_PAGE_FREE,
       pg_type := ST_PAGEPOOL_PAGE_SLAVE, pg_compound_page_cnt := to_int16 (int K)\<rparr>) (pm_pages mem2)) q
       (\<lambda>pg. pg\<lparr>pg_type := ST_PAGEPOOL_PAGE_MASTER\<rparr>) = Some m'"
    "run_at m' r q K True" "\<And>x. x \<notin> page_range q K \<Longrightarrow> m' x = pm_pages mem2 x"
    using rewrite_run[where m = "pm_pages mem2", OF reg K qn] by blast
  have pq: "(if pre \<noteq> [] then st_pagepool_prev_pages (pm_pages mem) p else p) = q"
    using r(2) assms(3) by (auto simp: merge_site_def q_def)
  have eq: "st_pagepool_merge_pages pool mem p = Some (q, pool2, mem2\<lparr>pm_pages := m'\<rparr>)"
    using r(1,3) w(1) pn pq unfolding st_pagepool_merge_pages_def by (simp add: Let_def)
  have "free_index pool2 (mem2\<lparr>pm_pages := m'\<rparr>) ?P (?F - merge_names p n0 q pre post)"
    using r(4)
  proof (rule free_index_cong)
    fix x assume "x \<in> ?F - merge_names p n0 q pre post"
    then have "x \<notin> page_range q K" using mid(5) by blast
    then show "page_cnt (pm_pages (mem2\<lparr>pm_pages := m'\<rparr>)) x = page_cnt (pm_pages mem2) x" using w(3) by simp
  qed simp_all
  moreover have "step_frame (page_range q K) {} {} pool2 mem2 pool2 (mem2\<lparr>pm_pages := m'\<rparr>)"
    using w(3) by (rule step_frame_pages)
  then have "step_frame (page_range q K) ?F ?P pool2 mem2 pool2 (mem2\<lparr>pm_pages := m'\<rparr>)"
    by (rule step_frame_mono) auto
  then have "step_frame (page_range q K) ?F ?P pool mem pool2 (mem2\<lparr>pm_pages := m'\<rparr>)"
    using step_frame_trans[OF index_step_frame[OF r(5)]] by fastforce
  ultimately show ?thesis using eq w(2) by auto
qed

text \<open>The effect on the runs.\<close>

lemma merge_alternating:
  assumes "alternating (xs @ mid @ ys)" "xs = [] \<or> \<not> snd (last xs)" "ys = [] \<or> \<not> snd (hd ys)"
  shows "alternating (xs @ [(k, True)] @ ys)"
  using assms by (cases ys) (auto simp: alternating_def successively_append_iff)

definition spaced :: "addr set \<Rightarrow> nat \<Rightarrow> bool" where
  "spaced R n \<longleftrightarrow> (\<forall>r \<in> R. \<forall>r' \<in> R. r \<noteq> r' \<longrightarrow> r + sizeof_page * n < r' \<or> r' + sizeof_page * n < r)"

text \<open>The free runs that touch the run \<open>p\<close> of \<open>n0\<close> pages.\<close>

definition touching :: "(addr \<times> nat) set \<Rightarrow> addr \<Rightarrow> nat \<Rightarrow> (addr \<times> nat) set" where
  "touching A p n0 = {(a, j) \<in> A. a + sizeof_page * j = p \<or> a = p + sizeof_page * n0}"

lemma run_end_in_region:
  assumes "described R n m L" "r \<in> R" "(a, j, f) \<in> set (placed r (L r))"
  shows "r \<le> a" "a + sizeof_page * j \<le> r + sizeof_page * n"
proof -
  obtain xs ys where s: "L r = xs @ (j, f) # ys" "a = r + sizeof_page * total_len xs" using placed_split[OF assms(3)] by blast
  then have "total_len xs + j \<le> n" using assms(1,2) by (auto simp: described_def)
  then have "sizeof_page * (total_len xs + j) \<le> sizeof_page * n" by (intro mult_left_mono) auto
  then show "r \<le> a" "a + sizeof_page * j \<le> r + sizeof_page * n" using s(2) by (simp_all add: algebra_simps)
qed

lemma merge_touching:
  assumes "described R n m L" "r \<in> R" "merge_site L p n0 r xs pre post ys" "spaced R n"
  defines "q \<equiv> r + sizeof_page * total_len xs"
  shows "set (placed q (pre @ (n0, False) # post)) =
    insert (p, n0, False) {(a, j, True) |a j. (a, j) \<in> touching {(a, j). (a, j, True) \<in> all_runs R L} p n0}"
proof -
  have s: "L r = (xs @ pre) @ (n0, False) # (post @ ys)" "p = r + sizeof_page * total_len (xs @ pre)"
    "pre = [] \<or> (\<exists>k. pre = [(k, True)])" "xs = [] \<or> \<not> snd (last xs)"
    "post = [] \<or> (\<exists>k. post = [(k, True)])" "ys = [] \<or> \<not> snd (hd ys)"
    using assms(3) by (auto simp: merge_site_def)
  have pq: "p = q + sizeof_page * total_len pre" using s(2) by (simp add: q_def algebra_simps)
  have lay: "layout m r r ((xs @ pre) @ (n0, False) # (post @ ys))" using assms(1,2) s(1) by (auto simp: described_def)
  have p: "(p, n0, False) \<in> set (placed r (L r))" unfolding s(1) s(2) by (simp add: add_mult_distrib2)
  note pb = run_end_in_region[OF assms(1,2) p]
  have n0: "0 < n0" using lay by simp
  have same: "(a, j, True) \<in> set (placed r (L r))"
    if t: "(a, j, True) \<in> all_runs R L" "a + sizeof_page * j = p \<or> a = p + sizeof_page * n0" for a j
  proof -
    obtain r' where r': "r' \<in> R" "(a, j, True) \<in> set (placed r' (L r'))" using t(1) by (auto simp: all_runs_def)
    note ab = run_end_in_region[OF assms(1) r']
    have "p < r + sizeof_page * n" using pb(2) n0 by (simp add: sizeof_page_def)
    moreover have "r' \<noteq> r \<Longrightarrow> r + sizeof_page * n < r' \<or> r' + sizeof_page * n < r"
      using assms(2,4) r'(1) by (metis spaced_def)
    ultimately have "r' = r" using t(2) ab pb by linarith
    then show ?thesis using r'(2) by simp
  qed
  have iff: "(a, j, True) \<in> set (placed q (pre @ (n0, False) # post)) \<longleftrightarrow>
      (a, j, True) \<in> set (placed r (L r)) \<and> (a + sizeof_page * j = p \<or> a = p + sizeof_page * n0)" for a j
  proof
    assume m: "(a, j, True) \<in> set (placed q (pre @ (n0, False) # post))"
    then have "(a, j, True) \<in> set (placed r (L r))"
      unfolding s(1) by (auto simp: q_def algebra_simps)
    moreover have "a + sizeof_page * j = p \<or> a = p + sizeof_page * n0"
      using m s(3,5) pq by auto
    ultimately show "(a, j, True) \<in> set (placed r (L r)) \<and> (a + sizeof_page * j = p \<or> a = p + sizeof_page * n0)" by blast
  next
    assume m: "(a, j, True) \<in> set (placed r (L r)) \<and> (a + sizeof_page * j = p \<or> a = p + sizeof_page * n0)"
    then have pl: "(a, j, True) \<in> set (placed r ((xs @ pre) @ (n0, False) # (post @ ys)))" using s(1) by simp
    consider us where "xs @ pre = us @ [(j, True)]" "a = r + sizeof_page * total_len us"
      | vs where "post @ ys = (j, True) # vs" "a = p + sizeof_page * n0"
      using m before_run[OF lay s(2) pl] after_run[OF lay s(2) pl] by blast
    then show "(a, j, True) \<in> set (placed q (pre @ (n0, False) # post))"
    proof cases
      case 1
      then have "pre = [(j, True)]" "us = xs" using s(3,4) by (auto simp: append_eq_append_conv2)
      then show ?thesis using 1 by (simp add: q_def)
    next
      case 2
      then have "post = [(j, True)]" using s(5,6) by auto
      then show ?thesis using 2 pq by simp
    qed
  qed
  have alloc: "(a, j, False) \<in> set (placed q (pre @ (n0, False) # post)) \<longleftrightarrow> a = p \<and> j = n0" for a j
    using s(3,5) pq by auto
  have tch: "(a, j) \<in> touching {(a, j). (a, j, True) \<in> all_runs R L} p n0 \<longleftrightarrow>
      (a, j, True) \<in> set (placed r (L r)) \<and> (a + sizeof_page * j = p \<or> a = p + sizeof_page * n0)" for a j
    using same assms(2) by (auto simp: touching_def all_runs_def)
  show ?thesis
  proof (rule set_eqI)
    fix x :: "addr \<times> nat \<times> bool"
    obtain a j f where x: "x = (a, j, f)" by (cases x)
    show "x \<in> set (placed q (pre @ (n0, False) # post)) \<longleftrightarrow> x \<in> insert (p, n0, False)
        {(a, j, True) |a j. (a, j) \<in> touching {(a, j). (a, j, True) \<in> all_runs R L} p n0}"
      unfolding x by (cases f) (simp_all only: alloc iff tch[symmetric] insert_iff mem_Collect_eq prod.inject simp_thms, blast)
  qed
qed

lemma pool_spaced:
  assumes "pool_base pool"
  shows "spaced (set (pool_regions pool)) (region_pages pool)"
proof -
  let ?rcb = "pp_region_cb pool" and ?n = "region_pages pool"
  have lt: "region_addr ?rcb i + sizeof_page * ?n < region_addr ?rcb j" if "i < j" for i j
  proof -
    have "Suc i * nat (rg_reg_size ?rcb) \<le> j * nat (rg_reg_size ?rcb)" using that by (intro mult_right_mono) auto
    then show ?thesis using pool_sizes(5)[OF assms] by (simp add: region_addr_def)
  qed
  show ?thesis unfolding spaced_def
  proof (intro ballI impI)
    fix r r' assume "r \<in> set (pool_regions pool)" "r' \<in> set (pool_regions pool)" "r \<noteq> r'"
    moreover from this obtain i j where "r = region_addr ?rcb i" "r' = region_addr ?rcb j"
      using pool_parts(4)[OF assms] by blast
    ultimately show "r + sizeof_page * ?n < r' \<or> r' + sizeof_page * ?n < r" using lt[of i j] lt[of j i] by (metis linorder_neqE_nat)
  qed
qed

lemma merge_names_placed:
  assumes "pre = [] \<or> (\<exists>k. pre = [(k, True)])" "post = [] \<or> (\<exists>k. post = [(k, True)])" "p = q + sizeof_page * total_len pre"
  shows "merge_names p n0 q pre post = {x. \<exists>j. (x, j, True) \<in> set (placed q (pre @ (n0, False) # post))}"
  using assms by (elim disjE exE) (auto simp: merge_names_def)

lemma page_range_placed:
  "page_range q (total_len bs) = (\<Union>(a, j, f) \<in> set (placed q bs). page_range a j)"
proof (induction q bs rule: placed.induct)
  case (2 q n f bs)
  then show ?case by (simp add: page_range_add)
qed simp

text \<open>The state between the merge and its entry into the index.\<close>

lemma merge_pages_ok:
  assumes "pool_desc pool mem L" "(p, n0) \<in> allocated_runs pool mem"
  defines "R \<equiv> set (pool_regions pool)" and "n \<equiv> region_pages pool" and "T \<equiv> touching (free_runs pool mem) p n0"
  shows "\<exists>q K pool' mem' L' r. st_pagepool_merge_pages pool mem p = Some (q, pool', mem') \<and> r \<in> R \<and>
    described R n (pm_pages mem') L' \<and> (q, K, True) \<in> all_runs R L' \<and>
    all_runs R L' = insert (q, K, True) (all_runs R L - insert (p, n0, False) {(a, j, True) |a j. (a, j) \<in> T}) \<and>
    (\<forall>r \<in> R. alternating (L' r)) \<and> (\<forall>r' \<in> R. r' \<noteq> r \<longrightarrow> L' r' = L r') \<and> (L' r = [(n, True)] \<longleftrightarrow> K = n) \<and>
    (K = n \<longrightarrow> q = r) \<and> K \<le> n \<and>
    free_index pool' mem' (region_space R n) (free_masters R L' - {q}) \<and>
    page_range q K = page_range p n0 \<union> (\<Union>(a, j) \<in> T. page_range a j) \<and>
    page_range q K \<subseteq> page_range r n \<and>
    step_frame (page_range q K) (free_masters R L) (region_space R n) pool mem pool' mem'"
proof -
  have base: "pool_base pool" and ix: "indexed pool mem R n L (free_masters R L)"
    and alt: "\<forall>r \<in> R. alternating (L r)" using assms(1) by (auto simp: pool_desc_iff R_def n_def)
  have d: "described R n (pm_pages mem) L" using ix by (simp add: indexed_def)
  have run: "(p, n0, False) \<in> all_runs R L"
    and T: "T = touching {(a, j). (a, j, True) \<in> all_runs R L} p n0"
    using assms(2) run_set_desc[OF assms(1)] by (auto simp: R_def T_def)
  obtain r xs pre post ys where r: "r \<in> R" "merge_site L p n0 r xs pre post ys"
    using merge_site_exists[OF d run alt] by blast
  let ?q = "r + sizeof_page * total_len xs" and ?mid = "pre @ (n0, False) # post"
  let ?K = "total_len ?mid"
  have ppr: "pp_pages_per_region pool = int n" using pool_sizes(3)[OF base] by (simp add: n_def)
  obtain pool' mem' where m: "st_pagepool_merge_pages pool mem p = Some (?q, pool', mem')"
    "run_at (pm_pages mem') r ?q ?K True"
    "free_index pool' mem' (region_space R n) (free_masters R L - merge_names p n0 ?q pre post)"
    "step_frame (page_range ?q ?K) (free_masters R L) (region_space R n) pool mem pool' mem'"
    using merge_pages_desc[OF ix r ppr] by blast
  note mid = merge_mid[OF d r]
  have s: "L r = xs @ ?mid @ ys" "xs = [] \<or> \<not> snd (last xs)" "ys = [] \<or> \<not> snd (hd ys)"
    "pre = [] \<or> (\<exists>k. pre = [(k, True)])" "post = [] \<or> (\<exists>k. post = [(k, True)])"
    "p = ?q + sizeof_page * total_len pre"
    using r(2) by (auto simp: merge_site_def algebra_simps)
  let ?L = "L(r := xs @ [(?K, True)] @ ys)"
  have K0: "0 < ?K" using mid(1) by auto
  have out: "pm_pages mem' x = pm_pages mem x" if "x \<notin> page_range ?q ?K" for x using m(4) that by (simp add: step_frame_def)
  have lay': "layout (pm_pages mem') r ?q [(?K, True)]" using m(2) K0 by simp
  have tot': "total_len [(?K, True)] = ?K" by simp
  have re: "described R n (pm_pages mem') ?L" "all_runs R ?L = all_runs R L - set (placed ?q ?mid) \<union> set (placed ?q [(?K, True)])"
    by (rule described_rewrite[OF d r(1) s(1) lay' tot' refl]; rule out; assumption)+
  have pm: "set (placed ?q ?mid) = insert (p, n0, False) {(a, j, True) |a j. (a, j) \<in> T}"
    using merge_touching[OF d r pool_spaced[OF base, folded R_def n_def]] unfolding T .
  have runs: "all_runs R ?L = insert (?q, ?K, True) (all_runs R L - insert (p, n0, False) {(a, j, True) |a j. (a, j) \<in> T})"
    using re(2) unfolding pm by auto
  have alt': "\<forall>r' \<in> R. alternating (?L r')"
    using alt merge_alternating[of xs ?mid ys ?K] s(1-3) r(1) by auto
  have len: "total_len xs + ?K + total_len ys = n" using d r(1) s(1) by (auto simp: described_def)
  have lxs: "layout (pm_pages mem') r r (xs @ [(?K, True)] @ ys)" using re(1) r(1) by (auto simp: described_def)
  then have z: "total_len xs = 0 \<longleftrightarrow> xs = []" "total_len ys = 0 \<longleftrightarrow> ys = []"
    using total_len_0[of "pm_pages mem'" r r xs] total_len_0[of "pm_pages mem'" r "?q + sizeof_page * ?K" ys] by auto
  have whole: "?L r = [(n, True)] \<longleftrightarrow> ?K = n" "?K = n \<longrightarrow> ?q = r"
    using len z by (auto simp: append_eq_Cons_conv)
  have nm: "merge_names p n0 ?q pre post = {x. \<exists>j. (x, j, True) \<in> set (placed ?q ?mid)}"
    using merge_names_placed[OF s(4-6)] .
  have qn: "?q \<in> merge_names p n0 ?q pre post" if "?q \<in> free_masters R L"
    using mid(5)[OF page_range_start[OF K0] that] .
  have fm: "free_masters R ?L - {?q} = free_masters R L - merge_names p n0 ?q pre post"
  proof (rule set_eqI)
    fix x
    have "x \<notin> merge_names p n0 ?q pre post" if "(x, k, True) \<in> all_runs R L - set (placed ?q ?mid)" for k
      using that run_unique[OF d, of x k True] mid(3) unfolding nm by blast
    moreover have "x \<in> free_masters R ?L - {?q} \<longleftrightarrow> x \<noteq> ?q \<and> (\<exists>k. (x, k, True) \<in> all_runs R L - set (placed ?q ?mid))"
      unfolding free_masters_def re(2) by auto
    moreover have "(x, k, True) \<notin> set (placed ?q ?mid)" if "x \<notin> merge_names p n0 ?q pre post" for k
      using that unfolding nm by blast
    moreover have "x \<in> free_masters R L \<longleftrightarrow> (\<exists>k. (x, k, True) \<in> all_runs R L)" by (simp add: free_masters_def)
    ultimately show "x \<in> free_masters R ?L - {?q} \<longleftrightarrow> x \<in> free_masters R L - merge_names p n0 ?q pre post"
      using qn by blast
  qed
  have cover: "page_range ?q ?K = page_range p n0 \<union> (\<Union>(a, j) \<in> T. page_range a j)"
    unfolding page_range_placed pm by auto
  have "\<forall>r' \<in> R. r' \<noteq> r \<longrightarrow> ?L r' = L r'" by simp
  moreover have "(?q, ?K, True) \<in> all_runs R ?L" unfolding runs by simp
  ultimately show ?thesis
    using m(1,4) m(3)[folded fm] r(1) re(1) runs alt' whole mid(2,6) cover by blast
qed

section \<open>Release\<close>

lemma free_index_restrict:
  assumes "free_index pool mem P F" "P' \<subseteq> P" "F \<subseteq> P'"
  shows "free_index pool mem P' F"
proof -
  obtain G where G: "free_groups pool mem P G" "F = set (members G)" using assms(1) by (auto simp: free_index_def)
  note ok = free_groups_parts[OF G(1)]
  obtain t where t: "rb_tree (pp_free_pages pool) (pm_rb mem) t" "inorder t = map page_rb (heads G)" using ok(6) by blast
  have "free_groups pool mem P' G"
    using ok(1,2,4) ok(7) t assms(2,3) G(2) by (intro free_groupsI[of _ _ _ _ t]) auto
  then show ?thesis using G(2) by (auto simp: free_index_def)
qed

text \<open>The outcome of the release of the run \<open>p\<close> of \<open>n0\<close> pages.\<close>

definition free_post ::
    "st_pagepool \<Rightarrow> page_mem \<Rightarrow> addr \<Rightarrow> nat \<Rightarrow> unit sys \<Rightarrow> st_error \<Rightarrow> st_pagepool \<Rightarrow> page_mem \<Rightarrow> bool" where
  "free_post pool mem p n0 madvise_r ret pool' mem' \<longleftrightarrow>
    (let T = touching (free_runs pool mem) p n0; rcb = pp_region_cb pool in
     \<exists>q k. page_range q k = page_range p n0 \<union> (\<Union>(a, j) \<in> T. page_range a j) \<and>
       allocated_runs pool' mem' = allocated_runs pool mem - {(p, n0)} \<and>
       (if k < region_pages pool then
          ret = ST_OK \<and> pool_regions pool' = pool_regions pool \<and>
          free_runs pool' mem' = insert (q, k) (free_runs pool mem - T) \<and>
          busy_regions (pp_region_cb pool') = busy_regions rcb
        else
          k = region_pages pool \<and> q \<in> set (pool_regions pool) \<and> set (pool_regions pool') = set (pool_regions pool) - {q} \<and>
          free_runs pool' mem' = free_runs pool mem - T \<and> ret = sys_err madvise_r \<and>
          busy_regions (pp_region_cb pool') =
            (if ret = ST_OK then {i \<in> busy_regions rcb. region_addr rcb i \<noteq> q} else busy_regions rcb)))"

lemma release_index:
  assumes "free_index pool' mem' (region_space R n) (free_masters R L - {q})" "(q, k, True) \<in> all_runs R L"
    "described R n (pm_pages mem') L" "n < 32768" "NULL \<notin> R"
  shows "\<exists>pool'' mem''. st_pagepool_add_pages pool' mem' q = Some (pool'', mem'') \<and>
    indexed pool'' mem'' R n L (free_masters R L) \<and>
    step_frame {} (free_masters R L) (region_space R n) pool' mem' pool'' mem''"
proof -
  have q: "q \<in> free_masters R L" using assms(2) by (auto simp: free_masters_def)
  then have "q \<in> region_space R n" using free_masters_space[OF assms(3)] by blast
  then obtain pool'' mem'' where "st_pagepool_add_pages pool' mem' q = Some (pool'', mem'')"
    "free_index pool'' mem'' (region_space R n) (insert q (free_masters R L - {q}))"
    "index_frame (region_space R n) (insert q (free_masters R L - {q})) pool' mem' pool'' mem''"
    using add_pages_ok[OF assms(1)] by blast
  moreover have "insert q (free_masters R L - {q}) = free_masters R L" using q by auto
  moreover have "pm_pages mem'' = pm_pages mem'" using calculation(3) by (simp add: index_frame_def)
  ultimately show ?thesis using assms(3-5) index_step_frame by (auto simp: indexed_def)
qed

lemma drop_region:
  assumes "described R n m L" "r \<in> R" "L r = [(n, True)]"
  shows "described (R - {r}) n m L" "all_runs (R - {r}) L = all_runs R L - {(r, n, True)}"
    "free_masters (R - {r}) L = free_masters R L - {r}"
proof -
  show d: "described (R - {r}) n m L" using assms(1) by (auto simp: described_def)
  have rn: "(r, n, True) \<in> all_runs R L" using assms(2,3) by (force simp: all_runs_def)
  have "(r, n, True) \<notin> all_runs (R - {r}) L"
  proof
    assume a: "(r, n, True) \<in> all_runs (R - {r}) L"
    then have "r \<in> region_space (R - {r}) n"
      using run_in_space[OF d a] page_range_start[OF described_run(1)[OF d a]] by blast
    moreover have "r \<in> page_range r n" using page_range_start[OF described_run(1)[OF assms(1) rn]] .
    ultimately show False using assms(1,2) by (auto simp: region_space_def described_def)
  qed
  moreover have "all_runs R L = insert (r, n, True) (all_runs (R - {r}) L)"
    using assms(2,3) by (auto simp: all_runs_def)
  ultimately show ar: "all_runs (R - {r}) L = all_runs R L - {(r, n, True)}" by auto
  show "free_masters (R - {r}) L = free_masters R L - {r}"
    using run_unique[OF assms(1) rn] unfolding free_masters_def ar by auto
qed

lemma described_whole:
  assumes "described R n m L" "r \<in> R" "(r, n, True) \<in> all_runs R L"
  shows "L r = [(n, True)]"
proof -
  obtain r' xs ys where r: "r' \<in> R" "L r' = xs @ (n, True) # ys" "r = r' + sizeof_page * total_len xs" "run_at m r' r n True"
    using described_run(7)[OF assms(1,3)] by blast
  have tot: "total_len (L r') = n" "layout m r' r' (L r')" using assms(1) r(1) by (auto simp: described_def)
  then have "total_len xs = 0" "total_len ys = 0" using r(2) by simp_all
  moreover have "layout m r' r' xs" "layout m r' (r + sizeof_page * n) ys" using tot(2) r(2,3) by simp_all
  ultimately have "xs = []" "ys = []" using total_len_0 by blast+
  then show ?thesis using r by simp
qed

lemma merged_keeps:
  assumes "pool_desc pool mem L" "(p, n0) \<in> allocated_runs pool mem"
    "page_range q k = page_range p n0 \<union> (\<Union>(a, j) \<in> touching (free_runs pool mem) p n0. page_range a j)"
    "page_range q k \<subseteq> region_space (set (pool_regions pool)) (region_pages pool)" "0 < k"
    "step_frame (page_range q k) (insert q (free_masters (set (pool_regions pool)) L))
      (region_space (set (pool_regions pool)) (region_pages pool)) pool mem pool' mem'"
  shows "keeps (all_pages pool) (allocated_runs pool mem - {(p, n0)}) (rt_sentinel (pp_free_pages pool)) mem mem'"
  unfolding all_pages_def
proof (rule keepsI)
  let ?R = "set (pool_regions pool)" and ?n = "region_pages pool"
  have d: "described ?R ?n (pm_pages mem) L" using assms(1) by (simp add: pool_desc_def)
  have fr: "(a, j) \<in> run_set pool mem f \<longleftrightarrow> (a, j, f) \<in> all_runs ?R L" for a j f using run_set_desc[OF assms(1), of f] by simp
  fix a j assume aj: "(a, j) \<in> allocated_runs pool mem - {(p, n0)}"
  then have run: "(a, j, False) \<in> all_runs ?R L" "(a, j) \<noteq> (p, n0)" using fr by auto
  have "page_range a j \<inter> page_range p n0 = {}"
    using described_disjoint[OF d run(1), of p n0 False] assms(2) fr run(2) by auto
  moreover have "page_range a j \<inter> page_range b i = {}" if "(b, i) \<in> touching (free_runs pool mem) p n0" for b i
    using described_disjoint[OF d run(1), of b i True] that fr by (auto simp: touching_def)
  ultimately show dj: "page_range a j \<inter> page_range q k = {}" unfolding assms(3) by fastforce
  have "a \<in> page_range a j" using page_range_start[OF described_run(1)[OF d run(1)]] .
  then have "a \<noteq> q" using dj page_range_start[OF assms(5), of q] by blast
  then show "a \<notin> insert q (free_masters ?R L)" using free_alloc_apart[OF d run(1)] by simp
next
  let ?R = "set (pool_regions pool)" and ?n = "region_pages pool"
  have d: "described ?R ?n (pm_pages mem) L" using assms(1) by (simp add: pool_desc_def)
  show "page_range q k \<subseteq> region_space ?R ?n" by (fact assms(4))
  then show "insert q (free_masters ?R L) \<subseteq> region_space ?R ?n"
    using free_masters_space[OF d] page_range_start[OF assms(5), of q] by blast
qed (use assms(6) in \<open>auto simp: step_frame_def\<close>)


lemma run_set_merged:
  assumes "pool_desc pool mem L" "pool_desc pool' mem' L'" "(p, n0) \<in> allocated_runs pool mem"
    "T = touching (free_runs pool mem) p n0"
    "all_runs (set (pool_regions pool')) L' =
      A \<union> (all_runs (set (pool_regions pool)) L - insert (p, n0, False) {(a, j, True) |a j. (a, j) \<in> T})"
    "A = {} \<or> A = {(q, k, True)}"
  shows "allocated_runs pool' mem' = allocated_runs pool mem - {(p, n0)}"
    "free_runs pool' mem' = {(a, j). (a, j, True) \<in> A} \<union> (free_runs pool mem - T)"
  using run_set_desc[OF assms(2)] run_set_desc[OF assms(1)] assms(6) unfolding assms(5) by auto

text \<open>The free run stays in the pool.\<close>

lemma free_into_index:
  assumes "pool_desc pool mem L" "pool_base pool1" "st_pagepool_merge_pages pool mem p = Some (q, pool1, mem1)"
    "described R n (pm_pages mem1) L'" "(q, k, True) \<in> all_runs R L'" "\<forall>r \<in> R. alternating (L' r)"
    "\<forall>r \<in> R. L' r \<noteq> [(n, True)]" "k < n"
    "free_index pool1 mem1 (region_space R n) (free_masters R L' - {q})"
    "set (pool_regions pool1) = R" "region_pages pool1 = n"
  shows "\<exists>pool' mem'. free_pages_body madvise_r t pool mem p = Some (ST_OK, pool', mem') \<and> pool_desc pool' mem' L' \<and>
    step_frame {} (free_masters R L') (region_space R n) pool1 mem1 pool' mem'"
proof -
  note sizes = pool_sizes[OF assms(2)] and parts = pool_parts[OF assms(2)]
  have nn: "n < 32768" "NULL \<notin> R" using sizes(2) parts(5) assms(10,11) by simp_all
  obtain pool' mem' where a: "st_pagepool_add_pages pool1 mem1 q = Some (pool', mem')"
    "indexed pool' mem' R n L' (free_masters R L')"
    "step_frame {} (free_masters R L') (region_space R n) pool1 mem1 pool' mem'"
    using release_index[OF assms(9,5,4) nn] by blast
  obtain tree where tr: "pool' = pool1\<lparr>pp_free_pages := tree\<rparr>" "rt_sentinel tree = rt_sentinel (pp_free_pages pool1)"
    using a(3) by (auto simp: step_frame_def)
  have rg: "pool_regions pool' = pool_regions pool1" "region_pages pool' = n"
    using assms(11) by (simp_all add: tr(1) pool_regions_def region_pages_def)
  have "pool_base pool'"
    using assms(2) parts tr by (intro pool_base_update[of pool1 pool' "pp_region_cb pool1"]) (simp_all add: regions_ok_def pool_regions_def)
  then have desc: "pool_desc pool' mem' L'" using a(2) assms(6,7,10) rg by (simp add: pool_desc_iff)
  have "page_cnt (pm_pages mem1) q < pp_pages_per_region pool1"
    using described_run(2)[OF assms(4,5)] sizes(3) assms(8,11) by simp
  then have "free_pages_body madvise_r t pool mem p = Some (ST_OK, pool', mem')"
    using assms(3) a(1) by (simp add: free_pages_body_def)
  with desc a(3) show ?thesis by blast
qed

text \<open>The region is given back.\<close>

lemma free_whole_region:
  assumes "pool_base pool1" "st_pagepool_merge_pages pool mem p = Some (r, pool1, mem1)"
    "described R n (pm_pages mem1) L'" "r \<in> R" "L' r = [(n, True)]" "\<forall>r' \<in> R - {r}. alternating (L' r') \<and> L' r' \<noteq> [(n, True)]"
    "free_index pool1 mem1 (region_space R n) (free_masters R L' - {r})"
    "set (pool_regions pool1) = R" "region_pages pool1 = n"
  shows "\<exists>a lock rcb. free_pages_body madvise_r t pool mem p = Some (sys_err madvise_r,
      pool1\<lparr>pp_regions := a, pp_regions_lock := lock, pp_region_cb := rcb\<rparr>, mem1) \<and>
    pool_desc (pool1\<lparr>pp_regions := a, pp_regions_lock := lock, pp_region_cb := rcb\<rparr>) mem1 L' \<and>
    set (arr_list a) = R - {r} \<and> same_layout (pp_region_cb pool1) rcb \<and>
    busy_regions rcb = (if sys_err madvise_r = ST_OK then {i \<in> busy_regions (pp_region_cb pool1). region_addr (pp_region_cb pool1) i \<noteq> r}
      else busy_regions (pp_region_cb pool1))"
proof -
  let ?rcb = "pp_region_cb pool1"
  note sizes = pool_sizes[OF assms(1)] and parts = pool_parts[OF assms(1)]
  have nn: "n < 32768" "NULL \<notin> R" using sizes(2) parts(5) assms(8,9) by simp_all
  obtain i where i: "i \<in> busy_regions ?rcb" "r = region_addr ?rcb i" using parts(4) assms(4,8) by blast
  have ic: "i < nat (rg_reg_cnt ?rcb)" using i(1) by (simp add: busy_regions_def)
  obtain a lock where rm: "st_pagepool_remove_region t pool1 r = Some (ST_OK, pool1\<lparr>pp_regions := a, pp_regions_lock := lock\<rparr>)"
    "regions_ok (pool1\<lparr>pp_regions := a, pp_regions_lock := lock\<rparr>)" "set (arr_list a) = R - {r}"
    using remove_region_ok[OF parts(1), of r t] assms(4,8) by blast
  obtain rcb where fr: "st_region_free_reg madvise_r t ?rcb r = Some (sys_err madvise_r, rcb)" "region_ok rcb"
    "same_layout ?rcb rcb" "busy_regions rcb = (if sys_err madvise_r = ST_OK then busy_regions ?rcb - {i} else busy_regions ?rcb)"
    using region_free_start[OF parts(2) ic, of madvise_r t] i by (cases madvise_r) (auto simp: sys_err_def)
  have inj: "busy_regions ?rcb - {i} = {j \<in> busy_regions ?rcb. region_addr ?rcb j \<noteq> r}"
    using region_addr_inj[OF parts(2)] i(2) by auto
  let ?p = "pool1\<lparr>pp_regions := a, pp_regions_lock := lock, pp_region_cb := rcb\<rparr>"
  note drop = drop_region[OF assms(3-5)]
  have rg: "set (pool_regions ?p) = R - {r}" "region_pages ?p = n"
    using rm(3) assms(9) by (simp_all add: pool_regions_def region_pages_def)
  have "region_space (R - {r}) n \<subseteq> region_space R n" by (auto simp: region_space_def)
  then have "free_index pool1 mem1 (region_space (R - {r}) n) (free_masters (R - {r}) L')"
    using free_index_restrict[OF assms(7)] free_masters_space[OF drop(1)] drop(3) by simp
  then have "free_index ?p mem1 (region_space (R - {r}) n) (free_masters (R - {r}) L')"
    by (rule free_index_cong) simp_all
  then have ix: "indexed ?p mem1 (R - {r}) n L' (free_masters (R - {r}) L')" using drop(1) nn by (simp add: indexed_def)
  have "R - {r} \<subseteq> region_addr rcb ` busy_regions rcb"
    using parts(4) same_layout_addr[OF fr(3)] fr(4) i(2) assms(8) by auto
  moreover have "regions_ok ?p" using rm(2) by (simp add: regions_ok_def pool_regions_def)
  ultimately have "pool_base ?p"
    using assms(1) parts(3) fr(2,3) rg(1) by (intro pool_base_update[of pool1 ?p rcb]) simp_all
  then have desc: "pool_desc ?p mem1 L'" using ix assms(6) rg by (simp add: pool_desc_iff)
  have "(r, n, True) \<in> all_runs R L'" using assms(4,5) by (force simp: all_runs_def)
  then have "\<not> page_cnt (pm_pages mem1) r < pp_pages_per_region pool1"
    using described_run(2)[OF assms(3)] sizes(3) assms(9) by simp
  then have "free_pages_body madvise_r t pool mem p = Some (sys_err madvise_r, ?p, mem1)"
    using assms(2) rm(1) fr(1) by (simp add: free_pages_body_def)
  then show ?thesis using desc rm(3) fr(3,4) inj by (intro exI[of _ a] exI[of _ lock] exI[of _ rcb]) simp
qed

lemma free_pages_body_ok:
  assumes "pool_desc pool mem L" "(p, n0) \<in> allocated_runs pool mem"
  shows "\<exists>ret pool' mem' L'. free_pages_body madvise_r t pool mem p = Some (ret, pool', mem') \<and>
    pool_desc pool' mem' L' \<and> free_post pool mem p n0 madvise_r ret pool' mem' \<and> same_pool pool pool' \<and>
    keeps (all_pages pool) (allocated_runs pool mem - {(p, n0)}) (rt_sentinel (pp_free_pages pool)) mem mem'"
proof -
  let ?R = "set (pool_regions pool)" and ?n = "region_pages pool" and ?T = "touching (free_runs pool mem) p n0"
  let ?X = "insert (p, n0, False) {(a, j, True) |a j. (a, j) \<in> ?T}"
  have base: "pool_base pool" and alt: "\<forall>r \<in> ?R. L r \<noteq> [(?n, True)]" using assms(1) by (auto simp: pool_desc_iff)
  obtain q k pool1 mem1 L' r where m: "st_pagepool_merge_pages pool mem p = Some (q, pool1, mem1)" "r \<in> ?R"
    "described ?R ?n (pm_pages mem1) L'" "(q, k, True) \<in> all_runs ?R L'"
    "all_runs ?R L' = insert (q, k, True) (all_runs ?R L - ?X)" "\<forall>r \<in> ?R. alternating (L' r)"
    "\<forall>r' \<in> ?R. r' \<noteq> r \<longrightarrow> L' r' = L r'" "L' r = [(?n, True)] \<longleftrightarrow> k = ?n" "k = ?n \<longrightarrow> q = r" "k \<le> ?n"
    "free_index pool1 mem1 (region_space ?R ?n) (free_masters ?R L' - {q})"
    "page_range q k = page_range p n0 \<union> (\<Union>(a, j) \<in> ?T. page_range a j)" "page_range q k \<subseteq> page_range r ?n"
    "step_frame (page_range q k) (free_masters ?R L) (region_space ?R ?n) pool mem pool1 mem1"
    using merge_pages_ok[OF assms] by (elim exE conjE) (rule that; assumption)
  obtain tree where tr: "pool1 = pool\<lparr>pp_free_pages := tree\<rparr>" "rt_sentinel tree = rt_sentinel (pp_free_pages pool)"
    using m(14) by (auto simp: step_frame_def)
  have base1: "pool_base pool1"
    using base pool_parts[OF base] tr
    by (intro pool_base_update[of pool pool1 "pp_region_cb pool"]) (simp_all add: regions_ok_def pool_regions_def)
  have rg1: "pool_regions pool1 = pool_regions pool" "region_pages pool1 = ?n" by (simp_all add: tr(1) pool_regions_def region_pages_def)
  have k0: "0 < k" using described_run(1)[OF m(3,4)] .
  have sub: "page_range q k \<subseteq> region_space ?R ?n" using m(2,13) by (auto simp: region_space_def)
  have fm: "free_masters ?R L' \<subseteq> insert q (free_masters ?R L)" unfolding free_masters_def m(5) by auto
  have keep: "keeps (all_pages pool) (allocated_runs pool mem - {(p, n0)}) (rt_sentinel (pp_free_pages pool)) mem mem'"
    if "step_frame {} (free_masters ?R L') (region_space ?R ?n) pool1 mem1 pool' mem'" for pool' mem'
  proof (rule merged_keeps[OF assms m(12) sub k0])
    show "step_frame (page_range q k) (insert q (free_masters ?R L)) (region_space ?R ?n) pool mem pool' mem'"
      by (rule step_frame_mono[OF step_frame_trans[OF m(14) that]]) (use fm in auto)
  qed
  show ?thesis
  proof (cases "k = ?n")
    case True
    then have q: "q = r" "L' r = [(?n, True)]" using m(8,9) by simp_all
    have oth: "\<forall>r' \<in> ?R - {r}. alternating (L' r') \<and> L' r' \<noteq> [(?n, True)]" using m(6,7) alt by (metis DiffE insertCI)
    obtain a lock rcb where f: "free_pages_body madvise_r t pool mem p = Some (sys_err madvise_r,
        pool1\<lparr>pp_regions := a, pp_regions_lock := lock, pp_region_cb := rcb\<rparr>, mem1)"
      "pool_desc (pool1\<lparr>pp_regions := a, pp_regions_lock := lock, pp_region_cb := rcb\<rparr>) mem1 L'"
      "set (arr_list a) = ?R - {r}" "same_layout (pp_region_cb pool1) rcb"
      "busy_regions rcb = (if sys_err madvise_r = ST_OK then {i \<in> busy_regions (pp_region_cb pool1). region_addr (pp_region_cb pool1) i \<noteq> r}
        else busy_regions (pp_region_cb pool1))"
      using free_whole_region[OF base1 m(1)[unfolded q(1)] m(3,2) q(2) oth m(11)[unfolded q(1)] _ rg1(2), of madvise_r t]
      unfolding rg1(1) by blast
    define pool' where "pool' = pool1\<lparr>pp_regions := a, pp_regions_lock := lock, pp_region_cb := rcb\<rparr>"
    have rg: "set (pool_regions pool') = ?R - {r}" using f(3) by (simp add: pool'_def pool_regions_def)
    have "(r, k, True) \<notin> all_runs ?R L - ?X"
    proof
      assume "(r, k, True) \<in> all_runs ?R L - ?X"
      then have "(r, k, True) \<in> all_runs ?R L" by blast
      then show False using alt described_whole[of ?R ?n "pm_pages mem" L r] True assms(1) m(2) by (simp add: pool_desc_def)
    qed
    then have ar: "all_runs (set (pool_regions pool')) L' = {} \<union> (all_runs ?R L - ?X)"
      unfolding rg drop_region(2)[OF m(3,2) q(2)] m(5) using True q(1) by auto
    note sets = run_set_merged[OF assms(1) f(2)[folded pool'_def] assms(2) refl ar, simplified]
    have "free_post pool mem p n0 madvise_r (sys_err madvise_r) pool' mem1"
      unfolding free_post_def Let_def
      by (intro exI[of _ q] exI[of _ k] conjI m(12) sets(1))
        (use True q(1) m(2) rg sets(2) f(5) in \<open>simp_all add: pool'_def tr(1)\<close>)
    moreover have "same_pool pool pool'" using tr f(4) by (simp add: same_pool_def pool'_def region_pages_def)
    moreover have "step_frame {} (free_masters ?R L') (region_space ?R ?n) pool1 mem1 pool1 mem1"
      by (auto simp: step_frame_def intro: exI[of _ "pp_free_pages pool1"])
    ultimately show ?thesis using f(1,2) keep unfolding pool'_def by blast
  next
    case False
    then have kn: "k < ?n" using m(10) by simp
    have ne: "\<forall>r' \<in> ?R. L' r' \<noteq> [(?n, True)]" using alt m(7,8) False by metis
    obtain pool' mem' where f: "free_pages_body madvise_r t pool mem p = Some (ST_OK, pool', mem')" "pool_desc pool' mem' L'"
      "step_frame {} (free_masters ?R L') (region_space ?R ?n) pool1 mem1 pool' mem'"
      using free_into_index[OF assms(1) base1 m(1,3,4,6) ne kn m(11) _ rg1(2), of madvise_r t] unfolding rg1(1) by blast
    obtain tree' where tr': "pool' = pool1\<lparr>pp_free_pages := tree'\<rparr>" "rt_sentinel tree' = rt_sentinel (pp_free_pages pool1)"
      using f(3) by (auto simp: step_frame_def)
    have rg: "pool_regions pool' = pool_regions pool" "pp_region_cb pool' = pp_region_cb pool"
      by (simp_all add: tr tr' pool_regions_def)
    have ar: "all_runs (set (pool_regions pool')) L' = {(q, k, True)} \<union> (all_runs ?R L - ?X)" unfolding rg m(5) by simp
    have sets: "allocated_runs pool' mem' = allocated_runs pool mem - {(p, n0)}"
      "free_runs pool' mem' = insert (q, k) (free_runs pool mem - ?T)"
      using run_set_merged[OF assms(1) f(2) assms(2) refl ar, of q k] by auto
    have "free_post pool mem p n0 madvise_r ST_OK pool' mem'"
      unfolding free_post_def Let_def
      by (intro exI[of _ q] exI[of _ k] conjI m(12) sets(1)) (use kn rg sets(2) in simp_all)
    moreover have "same_pool pool pool'" using tr tr' by (simp add: same_pool_def region_pages_def)
    ultimately show ?thesis using f(1,2) keep[OF f(3)] by blast
  qed
qed

end
