(* ===== verification/Pagepool_Api.thy ===== *)
theory Pagepool_Api
  imports Pagepool_Release
begin

text \<open>
  The interface of the page pool: what initialisation, allocation and release promise to a caller,
  that the runs handed out never overlap, and the conversion between descriptors and addresses.
\<close>

section \<open>The lock of the pool\<close>

lemma lock_update_views [simp]:
  "pool_regions (pool\<lparr>pp_pages_lock := lock\<rparr>) = pool_regions pool"
  "region_pages (pool\<lparr>pp_pages_lock := lock\<rparr>) = region_pages pool"
  "all_pages (pool\<lparr>pp_pages_lock := lock\<rparr>) = all_pages pool"
  "run_set (pool\<lparr>pp_pages_lock := lock\<rparr>) mem f = run_set pool mem f"
  "same_pool pool0 (pool\<lparr>pp_pages_lock := lock\<rparr>) = same_pool pool0 pool"
  by (simp_all add: pool_regions_def region_pages_def all_pages_def run_set_def same_pool_def)

lemma lock_update_posts [simp]:
  "alloc_post pool0 mem0 c ret pages (pool\<lparr>pp_pages_lock := lock\<rparr>) mem = alloc_post pool0 mem0 c ret pages pool mem"
  "free_post pool0 mem0 p n madv ret (pool\<lparr>pp_pages_lock := lock\<rparr>) mem = free_post pool0 mem0 p n madv ret pool mem"
  by (simp_all add: alloc_post_def free_post_def)

lemma lock_update_desc:
  assumes "pool_desc pool mem L" "lock_free lock"
  shows "pool_desc (pool\<lparr>pp_pages_lock := lock\<rparr>) mem L"
proof -
  have base: "pool_base pool" using assms(1) by (simp add: pool_desc_def)
  note parts = pool_parts[OF this]
  have "regions_ok (pool\<lparr>pp_pages_lock := lock\<rparr>)" using parts(1) by (simp add: regions_ok_def)
  then have "pool_base (pool\<lparr>pp_pages_lock := lock\<rparr>)"
    by (rule pool_base_update[OF base _ parts(2) same_layout_refl]) (simp_all add: parts(4) assms(2))
  moreover have "free_index (pool\<lparr>pp_pages_lock := lock\<rparr>) mem (all_pages pool) (fst ` free_runs pool mem)"
    by (rule free_index_cong[of pool mem]) (use assms(1) in \<open>simp_all add: pool_desc_def\<close>)
  ultimately show ?thesis using assms(1) by (simp add: pool_desc_def)
qed

lemma same_pool_refl [simp]: "same_pool pool pool"
  by (simp add: same_pool_def)

lemma keeps_refl [simp]: "keeps P A s mem mem"
  by (auto simp: keeps_def)

section \<open>Allocation and release\<close>

lemma alloc_pages_ok:
  assumes "pool_inv pool mem" "tmp \<notin> region_area (pp_region_cb pool)"
  shows "\<exists>ret pages pool' mem'. st_pagepool_alloc_pages madvise_r t tmp pool mem cnt = Some (ret, pages, pool', mem') \<and>
    pool_inv pool' mem' \<and> same_pool pool pool' \<and>
    keeps (all_pages pool') (allocated_runs pool mem) (rt_sentinel (pp_free_pages pool)) mem mem' \<and>
    (if 0 < cnt \<and> cnt \<le> pp_pages_per_region pool then alloc_post pool mem (nat cnt) ret pages pool' mem'
     else ret = ST_ARG_INVALID \<and> pages = None \<and> pool' = pool \<and> mem' = mem)"
proof (cases "0 < cnt \<and> cnt \<le> pp_pages_per_region pool")
  case False
  then show ?thesis using assms(1) by (intro exI[of _ ST_ARG_INVALID] exI[of _ None] exI[of _ pool] exI[of _ mem])
      (auto simp: st_pagepool_alloc_pages_def)
next
  case True
  obtain L where L: "pool_desc pool mem L" using assms(1) by (auto simp: pool_inv_def)
  have base: "pool_base pool" using L by (simp add: pool_desc_def)
  have c: "0 < nat cnt" "nat cnt \<le> region_pages pool" "int (nat cnt) = cnt"
    using True pool_sizes(3)[OF base] by auto
  obtain ret pages pool' mem' L' where a: "alloc_body madvise_r t tmp pool mem cnt = Some (ret, pages, pool', mem')"
    "pool_desc pool' mem' L'" "alloc_post pool mem (nat cnt) ret pages pool' mem'" "same_pool pool pool'"
    "keeps (all_pages pool') (allocated_runs pool mem) (rt_sentinel (pp_free_pages pool)) mem mem'"
    using alloc_body_ok[OF L assms(2) c(1,2), of madvise_r t] unfolding c(3) by blast
  obtain lock where l: "with_lock t (pp_pages_lock pool) (Some (ret, pages, pool', mem')) = Some ((ret, pages, pool', mem'), lock)"
    "lock_free lock"
    using with_lock_ok[OF pool_parts(3)[OF base], of t "(ret, pages, pool', mem')"] by (elim exE conjE)
  let ?p = "pool'\<lparr>pp_pages_lock := lock\<rparr>"
  have "st_pagepool_alloc_pages madvise_r t tmp pool mem cnt = Some (ret, pages, ?p, mem')"
    using True a(1) l(1) by (simp add: st_pagepool_alloc_pages_def)
  moreover have "pool_inv ?p mem'" using lock_update_desc[OF a(2) l(2)] by (auto simp: pool_inv_def)
  ultimately show ?thesis using a(3-5) True
    by (intro exI[of _ ret] exI[of _ pages] exI[of _ ?p] exI[of _ mem']) simp
qed

lemma master_page_run:
  assumes "described R n m L" "p \<in> region_space R n" "pg_type (m p) = ST_PAGEPOOL_PAGE_MASTER"
  shows "\<exists>k f. (p, k, f) \<in> all_runs R L"
proof -
  obtain r where r: "r \<in> R" "p \<in> page_range r n" using assms(2) by (auto simp: region_space_def)
  then have lay: "layout m r r (L r)" "total_len (L r) = n" using assms(1) by (auto simp: described_def)
  then obtain a j f where a: "(a, j, f) \<in> set (placed r (L r))" "p \<in> page_range a j"
    using placed_cover[of p r "L r"] r(2) by auto
  have "run_at m r a j f" using layout_placed[OF lay(1) a(1)] by simp
  from run_atD(4)[OF this a(2)] have "p = a"
    using assms(3) by (auto simp: ST_PAGEPOOL_PAGE_MASTER_def ST_PAGEPOOL_PAGE_SLAVE_def split: if_splits)
  then show ?thesis using a(1) r(1) by (auto simp: all_runs_def)
qed

lemma free_pages_refused:
  assumes "pool_inv pool mem" "p = NULL \<or> p \<in> all_pages pool" "\<nexists>n. (p, n) \<in> allocated_runs pool mem"
  shows "st_pagepool_free_pages madvise_r t pool mem p = Some (ST_ARG_INVALID, pool, mem)"
proof (cases "p = NULL \<or> pg_type (pm_pages mem p) \<noteq> ST_PAGEPOOL_PAGE_MASTER")
  case True
  then show ?thesis by (auto simp: st_pagepool_free_pages_def)
next
  case False
  obtain L where L: "pool_desc pool mem L" using assms(1) by (auto simp: pool_inv_def)
  then have d: "described (set (pool_regions pool)) (region_pages pool) (pm_pages mem) L" by (simp add: pool_desc_def)
  obtain k f where run: "(p, k, f) \<in> all_runs (set (pool_regions pool)) L"
    using master_page_run[OF d, of p] False assms(2) by (auto simp: all_pages_def)
  then have "f" using assms(3) run_set_desc[OF L, of False] by (cases f) auto
  then have "pg_state (pm_pages mem p) \<noteq> ST_PAGEPOOL_PAGE_ALLOCATED"
    using described_run(4)[OF d run] by (simp add: run_state_def ST_PAGEPOOL_PAGE_FREE_def ST_PAGEPOOL_PAGE_ALLOCATED_def)
  then show ?thesis by (auto simp: st_pagepool_free_pages_def)
qed

lemma free_pages_ok:
  assumes "pool_inv pool mem" "(p, n0) \<in> allocated_runs pool mem"
  shows "\<exists>ret pool' mem'. st_pagepool_free_pages madvise_r t pool mem p = Some (ret, pool', mem') \<and>
    pool_inv pool' mem' \<and> same_pool pool pool' \<and>
    keeps (all_pages pool) (allocated_runs pool mem - {(p, n0)}) (rt_sentinel (pp_free_pages pool)) mem mem' \<and>
    free_post pool mem p n0 madvise_r ret pool' mem'"
proof -
  obtain L where L: "pool_desc pool mem L" using assms(1) by (auto simp: pool_inv_def)
  have base: "pool_base pool" and d: "described (set (pool_regions pool)) (region_pages pool) (pm_pages mem) L"
    using L by (simp_all add: pool_desc_def)
  have run: "(p, n0, False) \<in> all_runs (set (pool_regions pool)) L" using assms(2) run_set_desc[OF L, of False] by simp
  obtain ret pool' mem' L' where a: "free_pages_body madvise_r t pool mem p = Some (ret, pool', mem')"
    "pool_desc pool' mem' L'" "free_post pool mem p n0 madvise_r ret pool' mem'" "same_pool pool pool'"
    "keeps (all_pages pool) (allocated_runs pool mem - {(p, n0)}) (rt_sentinel (pp_free_pages pool)) mem mem'"
    using free_pages_body_ok[OF L assms(2), of madvise_r t] by blast
  obtain lock where l: "with_lock t (pp_pages_lock pool) (Some (ret, pool', mem')) = Some ((ret, pool', mem'), lock)" "lock_free lock"
    using with_lock_ok[OF pool_parts(3)[OF base], of t "(ret, pool', mem')"] by (elim exE conjE)
  let ?p = "pool'\<lparr>pp_pages_lock := lock\<rparr>"
  have "p \<noteq> NULL" using run_bounds(2)[OF d run pool_parts(5)[OF base]] .
  then have "st_pagepool_free_pages madvise_r t pool mem p = Some (ret, ?p, mem')"
    using described_run(3,4)[OF d run] a(1) l(1) by (simp add: st_pagepool_free_pages_def run_state_def)
  moreover have "pool_inv ?p mem'" using lock_update_desc[OF a(2) l(2)] by (auto simp: pool_inv_def)
  ultimately show ?thesis using a(3-5) by (intro exI[of _ ret] exI[of _ ?p] exI[of _ mem']) simp
qed

section \<open>Initialisation\<close>

lemma empty_pool_inv:
  assumes "pool_base pool" "rb_tree (pp_free_pages pool) (pm_rb mem) E" "pool_regions pool = []"
  shows "pool_inv pool mem" "\<And>f. run_set pool mem f = {}"
proof -
  have ap: "all_pages pool = {}" using assms(3) by (simp add: all_pages_def region_space_def)
  then show rs: "run_set pool mem f = {}" for f by (simp add: run_set_def)
  have "free_groups pool mem {} []"
    using assms(2) by (auto simp: free_groups_def groups_ok_def heads_in_tree_def tails_in_lists_def intro!: exI[of _ E])
  then have "free_index pool mem (all_pages pool) (fst ` free_runs pool mem)"
    unfolding ap rs[of True] free_index_def by (intro exI[of _ "[]"]) simp
  then show "pool_inv pool mem" unfolding pool_inv_def pool_desc_def
    using assms(1,3) by (auto simp: described_def)
qed

text \<open>
  What a pool of pages of \<open>page_size\<close> bytes is built on: a control block, memory for the array of
  regions, and a tree whose sentinel lies in the pool and not in the regions.
\<close>

definition pool_ready :: "st_pagepool \<Rightarrow> addr \<Rightarrow> addr list \<Rightarrow> bool" where
  "pool_ready pool data cells \<longleftrightarrow> region_ok (pp_region_cb pool) \<and> data \<noteq> NULL \<and>
     int (length cells) = ST_PAGEPOOL_MAX_REGION_CNT \<and> rt_sentinel (pp_free_pages pool) \<noteq> NULL \<and>
     rt_sentinel (pp_free_pages pool) \<notin> region_area (pp_region_cb pool)"

text \<open>The number of pages of a region.\<close>

abbreviation fitting_pages :: "st_region \<Rightarrow> int \<Rightarrow> int" where
  "fitting_pages rcb page_size \<equiv> rg_reg_size rcb div (int sizeof_page + page_size)"

lemma reg_size_small: "region_ok rcb \<Longrightarrow> rg_reg_size rcb mod 2 ^ 64 = rg_reg_size rcb"
proof -
  assume "region_ok rcb"
  then have "0 < rg_reg_size rcb" "0 < rg_reg_cnt rcb" "int (rg_base_addr rcb) + rg_reg_cnt rcb * rg_reg_size rcb < 2 ^ 64"
    by (simp_all add: region_ok_def)
  moreover from this have "1 * rg_reg_size rcb \<le> rg_reg_cnt rcb * rg_reg_size rcb" by (intro mult_right_mono) auto
  ultimately have "rg_reg_size rcb < 2 ^ 64" by linarith
  then show ?thesis using \<open>0 < rg_reg_size rcb\<close> by simp
qed

lemma pool_init_ok:
  assumes "pool_ready pool data cells" "0 < page_size" "page_size mod 512 = 0"
    "0 < fitting_pages (pp_region_cb pool) page_size" "fitting_pages (pp_region_cb pool) page_size < 32768"
  shows "\<exists>pool' rb'. st_pagepool_init 0 0 data cells pool rb page_size = Some (ST_OK, pool', rb') \<and>
    pool_inv pool' \<lparr>pm_pages = pages, pm_rb = rb', pm_list = ln\<rparr> \<and>
    run_set pool' \<lparr>pm_pages = pages, pm_rb = rb', pm_list = ln\<rparr> f = {} \<and>
    pp_page_size pool' = page_size \<and> pp_region_cb pool' = pp_region_cb pool \<and>
    pp_region_size pool' = rg_reg_size (pp_region_cb pool) \<and>
    pp_pages_per_region pool' = fitting_pages (pp_region_cb pool) page_size \<and>
    pp_space_base_offset pool' = st_align (int sizeof_page * pp_pages_per_region pool') page_size"
proof -
  let ?rcb = "pp_region_cb pool" and ?n = "fitting_pages (pp_region_cb pool) page_size"
  have r: "region_ok ?rcb" "data \<noteq> NULL" "int (length cells) = ST_PAGEPOOL_MAX_REGION_CNT"
    "rt_sentinel (pp_free_pages pool) \<noteq> NULL" "rt_sentinel (pp_free_pages pool) \<notin> region_area ?rcb"
    using assms(1) by (simp_all add: pool_ready_def)
  obtain tree rb' where t: "st_rbtree_init True True (pp_free_pages pool) rb = Some (ST_OK, tree, rb')" "rb_tree tree rb' E"
    using rbtree_init_empty[OF r(4)] by blast
  have s: "rt_sentinel tree = rt_sentinel (pp_free_pages pool)"
    using t(1) by (auto simp: st_rbtree_init_def split: bind_splits)
  let ?arr = "(pp_regions pool)\<lparr>ar_dynamic := False, ar_start_addr := data, ar_cells := cells,
       ar_element_size := int sizeof_ptr, ar_current_cnt := 0, ar_total_cnt := ST_PAGEPOOL_MAX_REGION_CNT,
       ar_compare := Some st_pagepool_cmp_region_addr, ar_inited := True\<rparr>"
  have arr: "st_array_init_static (pp_regions pool) (int sizeof_ptr) data cells ST_PAGEPOOL_MAX_REGION_CNT
      (Some st_pagepool_cmp_region_addr) = Some ?arr"
    using r(2) by (simp add: st_array_init_static_def ST_PAGEPOOL_MAX_REGION_CNT_def)
  define pool' where "pool' = pool\<lparr>pp_page_size := page_size, pp_region_size := rg_reg_size ?rcb, pp_pages_per_region := ?n,
    pp_space_base_offset := st_align (int sizeof_page * ?n) page_size, pp_free_pages := tree, pp_regions := ?arr,
    pp_regions_lock := mutex_new, pp_pages_lock := mutex_new\<rparr>"
  have init: "st_pagepool_init 0 0 data cells pool rb page_size = Some (ST_OK, pool', rb')"
    using assms(2-4) t(1) arr reg_size_small[OF r(1)]
    by (simp add: st_pagepool_init_def st_robustlock_init_def pool'_def Let_def)
  have "(int sizeof_page + page_size) * ?n \<le> rg_reg_size ?rcb"
    using mult_div_mod_eq[of "int sizeof_page + page_size" "rg_reg_size ?rcb"]
      pos_mod_sign[of "int sizeof_page + page_size" "rg_reg_size ?rcb"] assms(2) by linarith
  moreover have "0 < page_size * ?n" using assms(2,4) by (rule mult_pos_pos)
  ultimately have "int sizeof_page * ?n < rg_reg_size ?rcb" by (simp add: distrib_right)
  moreover have "pool_regions pool' = []" by (simp add: pool'_def pool_regions_def arr_list_def)
  ultimately have "pool_base pool'"
    using assms(4,5) r s by (simp add: pool_base_def pool'_def arr_ok_def sizeof_ptr_def ST_PAGEPOOL_MAX_REGION_CNT_def)
  from empty_pool_inv[OF this, of "\<lparr>pm_pages = pages, pm_rb = rb', pm_list = ln\<rparr>"] t(2) \<open>pool_regions pool' = []\<close>
  show ?thesis using init by (intro exI[of _ pool'] exI[of _ rb']) (simp add: pool'_def)
qed


section \<open>Descriptors and addresses\<close>

text \<open>The data pages of a region follow its descriptors and end inside the region.\<close>

definition pool_geometry :: "st_pagepool \<Rightarrow> bool" where
  "pool_geometry pool \<longleftrightarrow> 0 < pp_page_size pool \<and> pp_region_size pool = rg_reg_size (pp_region_cb pool) \<and>
     int sizeof_page * int (region_pages pool) \<le> pp_space_base_offset pool \<and>
     pp_space_base_offset pool + int (region_pages pool) * pp_page_size pool \<le> rg_reg_size (pp_region_cb pool)"

lemma align_bounds:
  assumes "0 \<le> i" "i \<le> 2 ^ k * m"
  shows "i \<le> st_align i (2 ^ k)" "st_align i (2 ^ k) \<le> 2 ^ k * m"
proof -
  let ?q = "(i + 2 ^ k - 1) div 2 ^ k"
  have "2 ^ k * ?q + (i + 2 ^ k - 1) mod 2 ^ k = i + 2 ^ k - 1" by (rule mult_div_mod_eq)
  moreover have "(i + 2 ^ k - 1) mod 2 ^ k < 2 ^ k" by simp
  ultimately show "i \<le> st_align i (2 ^ k)" unfolding st_align_pow2_eq by linarith
  have "i + 2 ^ k - 1 < (m + 1) * 2 ^ k" using assms(2) by (simp add: algebra_simps)
  moreover have "2 ^ k * ?q \<le> i + 2 ^ k - 1"
    using mult_div_mod_eq[of "2 ^ k" "i + 2 ^ k - 1"] pos_mod_sign[of "2 ^ k" "i + 2 ^ k - 1"]
      zero_less_power[of "2 :: int" k] by linarith
  ultimately have "?q * 2 ^ k < (m + 1) * 2 ^ k" unfolding mult.commute[of ?q] by linarith
  then have "?q < m + 1" by (rule mult_right_less_imp_less) simp
  then show "st_align i (2 ^ k) \<le> 2 ^ k * m" unfolding st_align_pow2_eq by (intro mult_left_mono) auto
qed

lemma init_geometry:
  assumes "pp_page_size pool = 2 ^ k" "2 ^ k dvd rg_reg_size (pp_region_cb pool)" "0 < rg_reg_size (pp_region_cb pool)"
    "pp_region_size pool = rg_reg_size (pp_region_cb pool)"
    "pp_pages_per_region pool = fitting_pages (pp_region_cb pool) (2 ^ k)"
    "pp_space_base_offset pool = st_align (int sizeof_page * pp_pages_per_region pool) (2 ^ k)"
  shows "pool_geometry pool"
proof -
  let ?S = "rg_reg_size (pp_region_cb pool)" and ?n = "pp_pages_per_region pool"
  obtain m where m: "?S = 2 ^ k * m" using assms(2) by blast
  have pos: "0 < int sizeof_page + 2 ^ k" by (simp add: sizeof_page_def add_pos_pos)
  have n0: "0 \<le> ?n" using assms(3) pos_imp_zdiv_nonneg_iff[OF pos, of ?S] by (simp add: assms(5))
  have "(int sizeof_page + 2 ^ k) * ?n \<le> ?S"
    using mult_div_mod_eq[of "int sizeof_page + 2 ^ k" ?S] pos_mod_sign[OF pos, of ?S] unfolding assms(5) by linarith
  then have le: "int sizeof_page * ?n \<le> 2 ^ k * (m - ?n)" using m by (simp add: algebra_simps)
  have "0 \<le> int sizeof_page * ?n" using n0 by simp
  note al = align_bounds[OF this le, folded assms(6)]
  have "int (region_pages pool) = ?n" using n0 by (simp add: region_pages_def)
  then show ?thesis using al m assms(1,4) by (simp add: pool_geometry_def algebra_simps)
qed

lemma same_pool_geometry: "same_pool pool pool' \<Longrightarrow> pool_geometry pool \<Longrightarrow> pool_geometry pool'"
  by (simp add: same_pool_def pool_geometry_def same_layout_def)

text \<open>Regions lie inside the address space, at least one region size apart.\<close>

lemma region_bound:
  assumes "pool_base pool" "r \<in> set (pool_regions pool)"
  shows "int r + rg_reg_size (pp_region_cb pool) < 2 ^ 64"
    "\<And>r'. r' \<in> set (pool_regions pool) \<Longrightarrow> r < r' \<Longrightarrow> int r + rg_reg_size (pp_region_cb pool) \<le> int r'"
proof -
  let ?rcb = "pp_region_cb pool"
  obtain i where i: "i < nat (rg_reg_cnt ?rcb)" "r = region_addr ?rcb i"
    using pool_parts(4)[OF assms(1)] assms(2) by (auto simp: busy_regions_def)
  have ok: "int (rg_base_addr ?rcb) + rg_reg_cnt ?rcb * rg_reg_size ?rcb < 2 ^ 64" "0 < rg_reg_size ?rcb"
    using pool_parts(2)[OF assms(1)] by (simp_all add: region_ok_def)
  have r: "int r = int (rg_base_addr ?rcb) + int i * rg_reg_size ?rcb" using ok(2) by (simp add: i(2) region_addr_def)
  have "int (Suc i) * rg_reg_size ?rcb \<le> rg_reg_cnt ?rcb * rg_reg_size ?rcb"
    using i(1) ok(2) by (intro mult_right_mono) auto
  then show "int r + rg_reg_size ?rcb < 2 ^ 64" using r ok(1) by (simp add: distrib_right)
  fix r' assume r': "r' \<in> set (pool_regions pool)" "r < r'"
  obtain j where j: "r' = region_addr ?rcb j" using pool_parts(4)[OF assms(1)] r'(1) by auto
  have r2: "int r' = int (rg_base_addr ?rcb) + int j * rg_reg_size ?rcb" using ok(2) by (simp add: j region_addr_def)
  have "int i * rg_reg_size ?rcb < int j * rg_reg_size ?rcb" using r'(2) r r2 by linarith
  then have "int (Suc i) * rg_reg_size ?rcb \<le> int j * rg_reg_size ?rcb" using ok(2) by (intro mult_right_mono) auto
  then show "int r + rg_reg_size ?rcb \<le> int r'" using r r2 by (simp add: distrib_right)
qed

definition data_addr :: "st_pagepool \<Rightarrow> addr \<Rightarrow> nat \<Rightarrow> addr" where
  "data_addr pool r i = r + nat (pp_space_base_offset pool) + i * nat (pp_page_size pool)"

lemma data_in_region:
  assumes "pool_geometry pool" "i + n \<le> region_pages pool"
  shows "r + sizeof_page * region_pages pool \<le> data_addr pool r i"
    "int (data_addr pool r i + n * nat (pp_page_size pool)) \<le> int r + rg_reg_size (pp_region_cb pool)"
    "int (data_addr pool r i) = int r + pp_space_base_offset pool + int i * pp_page_size pool"
proof -
  have g: "0 < pp_page_size pool" "int sizeof_page * int (region_pages pool) \<le> pp_space_base_offset pool"
    "pp_space_base_offset pool + int (region_pages pool) * pp_page_size pool \<le> rg_reg_size (pp_region_cb pool)"
    using assms(1) by (simp_all add: pool_geometry_def)
  have off: "0 \<le> pp_space_base_offset pool" using g(2) mult_nonneg_nonneg[of "int sizeof_page" "int (region_pages pool)"] by linarith
  show eq: "int (data_addr pool r i) = int r + pp_space_base_offset pool + int i * pp_page_size pool"
    using off g(1) by (simp add: data_addr_def)
  have "int (r + sizeof_page * region_pages pool) \<le> int (data_addr pool r i)"
    using g(2) mult_nonneg_nonneg[of "int i" "pp_page_size pool"] g(1) unfolding eq of_nat_add of_nat_mult by linarith
  then show "r + sizeof_page * region_pages pool \<le> data_addr pool r i" by (simp only: of_nat_le_iff)
  have "int (i + n) * pp_page_size pool \<le> int (region_pages pool) * pp_page_size pool"
    using assms(2) g(1) by (intro mult_right_mono) auto
  then show "int (data_addr pool r i + n * nat (pp_page_size pool)) \<le> int r + rg_reg_size (pp_region_cb pool)"
    using eq g by (simp add: distrib_right)
qed

lemma page_region:
  assumes "described R n m L" "r \<in> R" "p \<in> page_range r n"
  shows "pg_region (m p) = r"
proof -
  have lay: "layout m r r (L r)" "total_len (L r) = n" using assms(1,2) by (auto simp: described_def)
  then obtain a j f where a: "(a, j, f) \<in> set (placed r (L r))" "p \<in> page_range a j"
    using placed_cover[of p r "L r"] assms(3) by auto
  then show ?thesis using run_atD(1)[of m r a j f p] layout_placed[OF lay(1) a(1)] by simp
qed

lemma page_to_addr_ok:
  assumes "pool_inv pool mem" "pool_geometry pool" "r \<in> set (pool_regions pool)" "i < region_pages pool"
  shows "st_pagepool_page_to_addr pool (pm_pages mem) (r + sizeof_page * i) = (ST_OK, Some (data_addr pool r i))"
proof -
  obtain L where L: "pool_desc pool mem L" using assms(1) by (auto simp: pool_inv_def)
  have base: "pool_base pool" and d: "described (set (pool_regions pool)) (region_pages pool) (pm_pages mem) L"
    using L by (simp_all add: pool_desc_def)
  have reg: "pg_region (pm_pages mem (r + sizeof_page * i)) = r"
    using page_region[OF d assms(3)] assms(4) in_page_range by blast
  have nn: "r + sizeof_page * i \<noteq> NULL" using pool_parts(5)[OF base] assms(3) by (metis add_is_0)
  have sz: "0 < rg_reg_size (pp_region_cb pool)" using pool_parts(2)[OF base] by (simp add: region_ok_def)
  have "sizeof_page * i \<le> sizeof_page * region_pages pool" using assms(4) by simp
  moreover have "int (sizeof_page * region_pages pool) \<le> rg_reg_size (pp_region_cb pool)"
    using data_in_region(1,2)[OF assms(2), of i 0 r, simplified, OF less_imp_le[OF assms(4)]] by linarith
  ultimately have "int (sizeof_page * i) \<le> rg_reg_size (pp_region_cb pool)" by linarith
  then have "int (sizeof_page * i) < 2 ^ 64" using region_bound(1)[OF base assms(3)] by linarith
  then have idx: "((int (r + sizeof_page * i) - int r) mod 2 ^ 64) div int sizeof_page = int i"
    by (simp add: sizeof_page_def)
  have "data_addr pool r i < 2 ^ 64"
    using data_in_region(2)[OF assms(2), of i 0 r] region_bound(1)[OF base assms(3)] assms(4) by simp
  moreover have "nat ((int r + pp_space_base_offset pool + int i * pp_page_size pool) mod 2 ^ 64) = data_addr pool r i mod 2 ^ 64"
    unfolding data_in_region(3)[OF assms(2), of i 0 r, symmetric, simplified, OF less_imp_le[OF assms(4)]]
    by (simp add: nat_mod_distrib)
  ultimately show ?thesis unfolding st_pagepool_page_to_addr_def reg idx using nn by simp
qed

lemma last_below:
  assumes "sorted_wrt (<) (rs :: addr list)" "r \<in> set rs" "r < a" "\<And>r'. r' \<in> set rs \<Longrightarrow> r < r' \<Longrightarrow> a \<le> r'"
  shows "\<exists>us. takeWhile (\<lambda>y. y < a) rs = us @ [r]"
proof -
  obtain us vs where uv: "rs = us @ r # vs" using split_list[OF assms(2)] by blast
  have "\<forall>x \<in> set us. x < a" "\<forall>x \<in> set vs. \<not> x < a"
    using assms(1,3) uv assms(4) by (auto simp: sorted_wrt_append not_less)
  then have "takeWhile (\<lambda>y. y < a) rs = us @ [r]"
    using assms(3) uv by (cases vs) (simp_all add: takeWhile_append2)
  then show ?thesis by blast
qed

lemma get_region_ok:
  assumes "pool_base pool" "pp_region_size pool = rg_reg_size (pp_region_cb pool)" "r \<in> set (pool_regions pool)"
    "r \<le> a" "int a < int r + pp_region_size pool"
  shows "\<exists>lock. st_pagepool_get_region t pool a = Some (ST_OK, Some r, pool\<lparr>pp_regions_lock := lock\<rparr>) \<and> lock_free lock"
proof -
  let ?rs = "pool_regions pool"
  note parts = pool_parts[OF assms(1)]
  have ok: "arr_ok (pp_regions pool)" "lock_free (pp_regions_lock pool)" "sorted_wrt (<) ?rs"
    using parts(1) by (simp_all add: regions_ok_def)
  have far: "a \<le> r'" "a \<noteq> r'" if "r' \<in> set ?rs" "r < r'" for r'
    using region_bound(2)[OF assms(1,3) that] assms(2,5) by linarith+
  obtain lock where lock: "with_lock t (pp_regions_lock pool) (Some (ST_OK, Some r)) = Some ((ST_OK, Some r), lock)" "lock_free lock"
    using with_lock_ok[OF ok(2), of t "(ST_OK, Some r)"] by (elim exE conjE)
  show ?thesis
  proof (cases "r = a")
    case True
    then have "st_array_bsearch_left (pp_regions pool) (Some a) None = Some (ST_OK, int (length (takeWhile (\<lambda>y. y < a) ?rs)))"
      using regions_search(1)[OF parts(1), of a] assms(3) by simp
    then show ?thesis using lock True by (intro exI[of _ lock]) (simp add: st_pagepool_get_region_def)
  next
    case False
    then have lt: "r < a" using assms(4) by simp
    have no: "a \<notin> set ?rs" using far(2) lt by blast
    obtain us where us: "takeWhile (\<lambda>y. y < a) ?rs = us @ [r]" using last_below[OF ok(3) assms(3) lt far(1)] by blast
    have s: "st_array_bsearch_left (pp_regions pool) (Some a) None = Some (ST_NOT_FOUND, int (length us) + 1)"
      using regions_search(1)[OF parts(1), of a] no us by simp
    obtain vs where vs: "?rs = us @ r # vs" using takeWhile_dropWhile_id[of "\<lambda>y. y < a" ?rs] us by (metis append.assoc append_Cons append_Nil)
    have "int (length us) < ar_current_cnt (pp_regions pool)"
      using vs length_arr_list[OF ok(1)] ok(1) by (simp add: pool_regions_def arr_ok_def)
    then have "cell_at (pp_regions pool) (int (length us)) = Some r"
      using cell_at_list[OF ok(1), of "int (length us)"] vs by (simp add: pool_regions_def)
    then show ?thesis using s lock lt assms(5) by (intro exI[of _ lock]) (simp add: st_pagepool_get_region_def)
  qed
qed

lemma addr_to_page_ok:
  assumes "pool_inv pool mem" "pool_geometry pool" "r \<in> set (pool_regions pool)" "i < region_pages pool"
  shows "\<exists>lock. st_pagepool_addr_to_page t pool (data_addr pool r i) =
    Some (ST_OK, Some (r + sizeof_page * i), pool\<lparr>pp_regions_lock := lock\<rparr>) \<and> lock_free lock"
proof -
  have base: "pool_base pool" using assms(1) by (auto simp: pool_inv_def pool_desc_def)
  have g: "pp_region_size pool = rg_reg_size (pp_region_cb pool)" "0 < pp_page_size pool" using assms(2) by (simp_all add: pool_geometry_def)
  note data = data_in_region[OF assms(2), of i 1 r, simplified, OF Suc_leI[OF assms(4)]]
  have "r \<le> data_addr pool r i" "int (data_addr pool r i) < int r + pp_region_size pool"
    using data(1,2) g by auto
  from get_region_ok[OF base g(1) assms(3) this, of t] obtain lock where
    lock: "st_pagepool_get_region t pool (data_addr pool r i) = Some (ST_OK, Some r, pool\<lparr>pp_regions_lock := lock\<rparr>)" "lock_free lock"
    by blast
  have nn: "data_addr pool r i \<noteq> NULL" using \<open>r \<le> data_addr pool r i\<close> pool_parts(5)[OF base] assms(3) by (metis le_zero_eq)
  have off: "int (data_addr pool r i) - (int r + pp_space_base_offset pool) = int i * pp_page_size pool"
    "\<not> int (data_addr pool r i) < int r + pp_space_base_offset pool"
    using data(3) g(2) mult_nonneg_nonneg[of "int i" "pp_page_size pool"] by linarith+
  show ?thesis using lock nn off g(2) by (intro exI[of _ lock]) (simp add: st_pagepool_addr_to_page_def page_add_nat)
qed


section \<open>Clients of the pool\<close>

text \<open>
  The contract of an allocator of runs: the runs it has handed out never overlap, an allocation
  adds a run and a release removes the one it is given.  \<open>take\<close> and \<open>give\<close> are the outcomes the
  two calls can have.
\<close>

locale run_allocator =
  fixes inv :: "'s \<Rightarrow> bool" and owned :: "'s \<Rightarrow> (addr \<times> nat) set" and area :: "'s \<Rightarrow> addr \<Rightarrow> nat \<Rightarrow> addr set"
    and take_run :: "nat \<Rightarrow> 's \<Rightarrow> addr option \<Rightarrow> 's \<Rightarrow> bool" and give :: "addr \<Rightarrow> 's \<Rightarrow> 's \<Rightarrow> bool"
  assumes apart: "inv s \<Longrightarrow> (p, n) \<in> owned s \<Longrightarrow> (q, k) \<in> owned s \<Longrightarrow> (p, n) \<noteq> (q, k) \<Longrightarrow> area s p n \<inter> area s q k = {}"
    and take_run: "inv s \<Longrightarrow> take_run c s r s' \<Longrightarrow> inv s' \<and> owned s' = (case r of None \<Rightarrow> owned s | Some p \<Rightarrow> insert (p, c) (owned s))"
    and give: "inv s \<Longrightarrow> (p, n) \<in> owned s \<Longrightarrow> give p s s' \<Longrightarrow> inv s' \<and> owned s' = owned s - {(p, n)}"
    and moved: "inv s \<Longrightarrow> take_run c s r s' \<Longrightarrow> (p, n) \<in> owned s \<Longrightarrow> area s' p n = area s p n"
    and fresh: "inv s \<Longrightarrow> take_run c s (Some p) s' \<Longrightarrow> (p, c) \<notin> owned s"
begin

text \<open>What a client holds, as it counts it: the runs it was given and has not returned.\<close>

definition agrees :: "'s \<Rightarrow> (addr \<times> nat) set \<Rightarrow> bool" where
  "agrees s H \<longleftrightarrow> inv s \<and> owned s = H"

lemma agrees_take: "agrees s H \<Longrightarrow> take_run c s (Some p) s' \<Longrightarrow> agrees s' (insert (p, c) H)"
  using take_run[of s c "Some p" s'] by (simp add: agrees_def)

lemma agrees_refused: "agrees s H \<Longrightarrow> take_run c s None s' \<Longrightarrow> agrees s' H"
  using take_run[of s c None s'] by (simp add: agrees_def)

lemma agrees_give: "agrees s H \<Longrightarrow> (p, n) \<in> H \<Longrightarrow> give p s s' \<Longrightarrow> agrees s' (H - {(p, n)})"
  using give[of s p n s'] by (simp add: agrees_def)

lemma agrees_apart: "agrees s H \<Longrightarrow> (p, n) \<in> H \<Longrightarrow> (q, k) \<in> H \<Longrightarrow> (p, n) \<noteq> (q, k) \<Longrightarrow> area s p n \<inter> area s q k = {}"
  using apart by (simp add: agrees_def)

lemma new_run_apart:
  assumes "agrees s H" "take_run c s (Some p) s'" "(q, k) \<in> H"
  shows "area s' p c \<inter> area s q k = {}"
proof -
  have "agrees s' (insert (p, c) H)" "(p, c) \<noteq> (q, k)" "area s' q k = area s q k"
    using assms agrees_take fresh[of s c p s'] moved[of s c "Some p" s' q k] by (auto simp: agrees_def)
  then show ?thesis using agrees_apart[of s' "insert (p, c) H" p c q k] assms(3) by auto
qed

end

text \<open>The bytes of the pages of a run.\<close>

definition data_area :: "st_pagepool \<times> page_mem \<Rightarrow> addr \<Rightarrow> nat \<Rightarrow> addr set" where
  "data_area s p n = (case st_pagepool_page_to_addr (fst s) (pm_pages (snd s)) p of
     (_, Some a) \<Rightarrow> {a ..< a + n * nat (pp_page_size (fst s))} | (_, None) \<Rightarrow> {})"

definition pool_good :: "st_pagepool \<times> page_mem \<Rightarrow> bool" where
  "pool_good s \<longleftrightarrow> pool_inv (fst s) (snd s) \<and> pool_geometry (fst s)"

definition pool_owned :: "st_pagepool \<times> page_mem \<Rightarrow> (addr \<times> nat) set" where
  "pool_owned s = allocated_runs (fst s) (snd s)"

definition pool_take :: "nat \<Rightarrow> st_pagepool \<times> page_mem \<Rightarrow> addr option \<Rightarrow> st_pagepool \<times> page_mem \<Rightarrow> bool" where
  "pool_take c s r s' \<longleftrightarrow> (\<exists>madvise_r t tmp ret. tmp \<notin> region_area (pp_region_cb (fst s)) \<and>
     st_pagepool_alloc_pages madvise_r t tmp (fst s) (snd s) (int c) = Some (ret, r, fst s', snd s'))"

definition pool_give :: "addr \<Rightarrow> st_pagepool \<times> page_mem \<Rightarrow> st_pagepool \<times> page_mem \<Rightarrow> bool" where
  "pool_give p s s' \<longleftrightarrow> (\<exists>madvise_r t ret.
     st_pagepool_free_pages madvise_r t (fst s) (snd s) p = Some (ret, fst s', snd s'))"

lemma run_position:
  assumes "pool_inv pool mem" "(p, n) \<in> run_set pool mem f"
  shows "\<exists>r i. r \<in> set (pool_regions pool) \<and> p = r + sizeof_page * i \<and> i + n \<le> region_pages pool \<and> 0 < n \<and>
    pg_region (pm_pages mem p) = r"
proof -
  obtain L where L: "pool_desc pool mem L" using assms(1) by (auto simp: pool_inv_def)
  have d: "described (set (pool_regions pool)) (region_pages pool) (pm_pages mem) L" using L by (simp add: pool_desc_def)
  have run: "(p, n, f) \<in> all_runs (set (pool_regions pool)) L" using assms(2) run_set_desc[OF L, of f] by simp
  obtain r xs ys where r: "r \<in> set (pool_regions pool)" "L r = xs @ (n, f) # ys" "p = r + sizeof_page * total_len xs"
    "run_at (pm_pages mem) r p n f" "page_range p n \<subseteq> page_range r (region_pages pool)"
    using described_run(7)[OF d run] by blast
  have "total_len (L r) = region_pages pool" using d r(1) by (auto simp: described_def)
  then have "total_len xs + n \<le> region_pages pool" using r(2) by simp
  moreover have n: "0 < n" using described_run(1)[OF d run] .
  moreover have "pg_region (pm_pages mem p) = r" using run_atD(1)[OF r(4) page_range_start[OF n]] .
  ultimately show ?thesis using r(1,3) by blast
qed

lemma data_area_run:
  assumes "pool_good (pool, mem)" "(p, n) \<in> run_set pool mem f" "r \<in> set (pool_regions pool)" "p = r + sizeof_page * i"
    "i + n \<le> region_pages pool" "0 < n"
  shows "data_area (pool, mem) p n = {data_addr pool r i ..< data_addr pool r i + n * nat (pp_page_size pool)}"
  using page_to_addr_ok[of pool mem r i] assms by (simp add: data_area_def pool_good_def)

lemma in_run: "i \<le> m \<Longrightarrow> m < i + n \<Longrightarrow> r + sizeof_page * m \<in> page_range (r + sizeof_page * i) n"
  unfolding in_page_range by (intro exI[of _ "m - i"]) (simp add: diff_mult_distrib2)

lemma pool_runs_apart:
  assumes "pool_good (pool, mem)" "(p, n) \<in> run_set pool mem f" "(q, k) \<in> run_set pool mem g" "(p, n) \<noteq> (q, k)"
  shows "page_range p n \<inter> page_range q k = {}" "data_area (pool, mem) p n \<inter> data_area (pool, mem) q k = {}"
proof -
  have inv: "pool_inv pool mem" and geo: "pool_geometry pool" using assms(1) by (simp_all add: pool_good_def)
  obtain L where L: "pool_desc pool mem L" using inv by (auto simp: pool_inv_def)
  have base: "pool_base pool" and d: "described (set (pool_regions pool)) (region_pages pool) (pm_pages mem) L"
    using L by (simp_all add: pool_desc_def)
  show dj: "page_range p n \<inter> page_range q k = {}"
    using described_disjoint[OF d, of p n f q k g] assms(2-4) run_set_desc[OF L] by auto
  obtain r i where r: "r \<in> set (pool_regions pool)" "p = r + sizeof_page * i" "i + n \<le> region_pages pool" "0 < n"
    using run_position[OF inv assms(2)] by blast
  obtain r' j where r': "r' \<in> set (pool_regions pool)" "q = r' + sizeof_page * j" "j + k \<le> region_pages pool" "0 < k"
    using run_position[OF inv assms(3)] by blast
  note areas = data_area_run[OF assms(1,2) r] data_area_run[OF assms(1,3) r']
  note bounds = data_in_region[OF geo r(3), of r] data_in_region[OF geo r'(3), of r']
  show "data_area (pool, mem) p n \<inter> data_area (pool, mem) q k = {}"
  proof (cases "r = r'")
    case True
    have "i + n \<le> j \<or> j + k \<le> i"
    proof (rule ccontr)
      assume "\<not> (i + n \<le> j \<or> j + k \<le> i)"
      then have "r + sizeof_page * max i j \<in> page_range p n" "r + sizeof_page * max i j \<in> page_range q k"
        unfolding r(2) r'(2) True using r(4) r'(4) by (auto intro!: in_run simp: max_def)
      then show False using dj by blast
    qed
    then have "(i + n) * nat (pp_page_size pool) \<le> j * nat (pp_page_size pool) \<or> (j + k) * nat (pp_page_size pool) \<le> i * nat (pp_page_size pool)"
      using mult_le_mono1 by blast
    then show ?thesis unfolding areas data_addr_def True by (auto simp: algebra_simps)
  next
    case False
    then have "int r + rg_reg_size (pp_region_cb pool) \<le> int r' \<or> int r' + rg_reg_size (pp_region_cb pool) \<le> int r"
      using region_bound(2)[OF base r(1) r'(1)] region_bound(2)[OF base r'(1) r(1)] by (cases r r' rule: linorder_cases) auto
    moreover have "r \<le> data_addr pool r i" "r' \<le> data_addr pool r' j" by (simp_all add: data_addr_def)
    ultimately have "data_addr pool r i + n * nat (pp_page_size pool) \<le> data_addr pool r' j \<or>
        data_addr pool r' j + k * nat (pp_page_size pool) \<le> data_addr pool r i"
      using bounds(2,5) by linarith
    then show ?thesis unfolding areas by auto
  qed
qed


lemma data_area_kept:
  assumes "same_pool pool pool'" "pm_pages mem' p = pm_pages mem p"
  shows "data_area (pool', mem') p n = data_area (pool, mem) p n"
  using assms by (simp add: data_area_def st_pagepool_page_to_addr_def same_pool_def Let_def)

lemma pool_take_ok:
  assumes "pool_good (pool, mem)" "pool_take c (pool, mem) r (pool', mem')"
  shows "pool_good (pool', mem')" "same_pool pool pool'"
    "allocated_runs pool' mem' = (case r of None \<Rightarrow> allocated_runs pool mem | Some p \<Rightarrow> insert (p, c) (allocated_runs pool mem))"
    "\<And>q k. (q, k) \<in> allocated_runs pool mem \<Longrightarrow> pm_pages mem' q = pm_pages mem q"
    "\<exists>ret. r = None \<or> alloc_post pool mem c ret r pool' mem'"
proof -
  obtain madvise_r t tmp ret where a: "tmp \<notin> region_area (pp_region_cb pool)"
    "st_pagepool_alloc_pages madvise_r t tmp pool mem (int c) = Some (ret, r, pool', mem')"
    using assms(2) by (auto simp: pool_take_def)
  have inv: "pool_inv pool mem" and geo: "pool_geometry pool" using assms(1) by (simp_all add: pool_good_def)
  have res: "pool_inv pool' mem'" "same_pool pool pool'"
    "keeps (all_pages pool') (allocated_runs pool mem) (rt_sentinel (pp_free_pages pool)) mem mem'"
    "if 0 < int c \<and> int c \<le> pp_pages_per_region pool then alloc_post pool mem (nat (int c)) ret r pool' mem'
     else ret = ST_ARG_INVALID \<and> r = None \<and> pool' = pool \<and> mem' = mem"
    using alloc_pages_ok[OF inv a(1), of madvise_r t "int c"] unfolding a(2) by auto
  show "pool_good (pool', mem')" using res(1,2) geo same_pool_geometry by (auto simp: pool_good_def)
  show "same_pool pool pool'" by (fact res(2))
  show "allocated_runs pool' mem' = (case r of None \<Rightarrow> allocated_runs pool mem | Some p \<Rightarrow> insert (p, c) (allocated_runs pool mem))"
    using res(4) by (auto simp: alloc_post_def split: if_splits)
  show "\<exists>ret. r = None \<or> alloc_post pool mem c ret r pool' mem'" using res(4) by (auto split: if_splits)
  fix q k assume qk: "(q, k) \<in> allocated_runs pool mem"
  have "q \<in> page_range q k" using run_position[OF inv qk] page_range_start by blast
  then show "pm_pages mem' q = pm_pages mem q" using res(3) qk by (auto simp: keeps_def)
qed

lemma pool_take_fresh:
  assumes "pool_good (pool, mem)" "pool_take c (pool, mem) (Some p) (pool', mem')"
  shows "(p, c) \<notin> allocated_runs pool mem"
proof
  assume own: "(p, c) \<in> allocated_runs pool mem"
  have inv: "pool_inv pool mem" using assms(1) by (simp add: pool_good_def)
  obtain L where L: "pool_desc pool mem L" using inv by (auto simp: pool_inv_def)
  have d: "described (set (pool_regions pool)) (region_pages pool) (pm_pages mem) L" using L by (simp add: pool_desc_def)
  note tk = pool_take_ok[OF assms]
  have base': "pool_base pool'" and size: "region_pages pool' = region_pages pool" "pp_region_cb pool' = pp_region_cb pool'"
    using tk(1,2) by (auto simp: pool_good_def pool_inv_def pool_desc_def same_pool_def)
  obtain ret where post: "alloc_post pool mem c ret (Some p) pool' mem'" using tk(5) by auto
  show False
  proof (cases "\<exists>k. (p, k) \<in> free_runs pool mem")
    case True
    then obtain k where "(p, k, True) \<in> all_runs (set (pool_regions pool)) L" using run_set_desc[OF L] by auto
    moreover have "(p, c, False) \<in> all_runs (set (pool_regions pool)) L" using own run_set_desc[OF L] by auto
    ultimately show False using run_unique[OF d] by blast
  next
    case False
    then have p: "p \<notin> set (pool_regions pool)" "set (pool_regions pool') = insert p (set (pool_regions pool))"
      using post by (auto simp: alloc_post_def split: if_splits)
    obtain r i where r: "r \<in> set (pool_regions pool)" "p = r + sizeof_page * i" "i + c \<le> region_pages pool" "0 < c"
      using run_position[OF inv own] by blast
    then have "r < p" using p(1) by (cases "i = 0") (auto simp: sizeof_page_def)
    from region_bound(2)[OF base' _ _ this] have "int r + rg_reg_size (pp_region_cb pool') \<le> int p" using p(2) r(1) by simp
    moreover have "sizeof_page * i \<le> sizeof_page * region_pages pool'" using r(3) size by simp
    ultimately show False using pool_sizes(5)[OF base'] r(2) by linarith
  qed
qed

lemma pool_give_ok:
  assumes "pool_good (pool, mem)" "(p, n) \<in> allocated_runs pool mem" "pool_give p (pool, mem) (pool', mem')"
  shows "pool_good (pool', mem')" "allocated_runs pool' mem' = allocated_runs pool mem - {(p, n)}"
proof -
  obtain madvise_r t ret where a: "st_pagepool_free_pages madvise_r t pool mem p = Some (ret, pool', mem')"
    using assms(3) by (auto simp: pool_give_def)
  have inv: "pool_inv pool mem" and geo: "pool_geometry pool" using assms(1) by (simp_all add: pool_good_def)
  have res: "pool_inv pool' mem'" "same_pool pool pool'" "free_post pool mem p n madvise_r ret pool' mem'"
    using free_pages_ok[OF inv assms(2), of madvise_r t] unfolding a by auto
  then show "pool_good (pool', mem')" using geo same_pool_geometry by (auto simp: pool_good_def)
  show "allocated_runs pool' mem' = allocated_runs pool mem - {(p, n)}" using res(3) by (auto simp: free_post_def Let_def)
qed

interpretation pool_runs: run_allocator pool_good pool_owned data_area pool_take pool_give
proof
  fix s p n q k assume "pool_good s" "(p, n) \<in> pool_owned s" "(q, k) \<in> pool_owned s" "(p, n) \<noteq> (q, k)"
  then show "data_area s p n \<inter> data_area s q k = {}"
    using pool_runs_apart(2)[of "fst s" "snd s" p n False q k False] by (simp add: pool_owned_def)
next
  fix s c r s' assume "pool_good s" "pool_take c s r s'"
  then show "pool_good s' \<and> pool_owned s' = (case r of None \<Rightarrow> pool_owned s | Some p \<Rightarrow> insert (p, c) (pool_owned s))"
    using pool_take_ok(1,3)[of "fst s" "snd s" c r "fst s'" "snd s'"] by (cases r) (simp_all add: pool_owned_def)
next
  fix s p n s' assume "pool_good s" "(p, n) \<in> pool_owned s" "pool_give p s s'"
  then show "pool_good s' \<and> pool_owned s' = pool_owned s - {(p, n)}"
    using pool_give_ok[of "fst s" "snd s" p n "fst s'" "snd s'"] by (simp add: pool_owned_def)
next
  fix s c r s' p n assume "pool_good s" "pool_take c s r s'" "(p, n) \<in> pool_owned s"
  then show "data_area s' p n = data_area s p n"
    using pool_take_ok(2,4)[of "fst s" "snd s" c r "fst s'" "snd s'"] data_area_kept[of "fst s" "fst s'" "snd s'" p "snd s" n]
    by (simp add: pool_owned_def)
next
  fix s c p s' assume "pool_good s" "pool_take c s (Some p) s'"
  then show "(p, c) \<notin> pool_owned s"
    using pool_take_fresh[of "fst s" "snd s" c p "fst s'" "snd s'"] by (simp add: pool_owned_def)
qed


text \<open>
  The histories of a pool: it is initialised, then runs are requested and the ones that were handed
  out are released.  \<open>H\<close> is what the callers hold.
\<close>

inductive pool_reach :: "st_pagepool \<times> page_mem \<Rightarrow> (addr \<times> nat) set \<Rightarrow> bool" where
  pool_start: "pool_ready pool0 data cells \<Longrightarrow> 2 ^ k dvd rg_reg_size (pp_region_cb pool0) \<Longrightarrow>
    fitting_pages (pp_region_cb pool0) (2 ^ k) < 32768 \<Longrightarrow>
    st_pagepool_init 0 0 data cells pool0 rb0 (2 ^ k) = Some (ST_OK, pool, rb) \<Longrightarrow>
    pool_reach (pool, \<lparr>pm_pages = pages, pm_rb = rb, pm_list = ln\<rparr>) {}"
| pool_allocated: "pool_reach s H \<Longrightarrow> pool_take c s (Some p) s' \<Longrightarrow> pool_reach s' (insert (p, c) H)"
| pool_refused: "pool_reach s H \<Longrightarrow> pool_take c s None s' \<Longrightarrow> pool_reach s' H"
| pool_released: "pool_reach s H \<Longrightarrow> (p, n) \<in> H \<Longrightarrow> pool_give p s s' \<Longrightarrow> pool_reach s' (H - {(p, n)})"

lemma init_arguments:
  assumes "st_pagepool_init a b data cells pool rb page_size = Some (ST_OK, pool', rb')" "region_ok (pp_region_cb pool)"
  shows "0 < page_size" "page_size mod 512 = 0" "0 < fitting_pages (pp_region_cb pool) page_size"
  using assms reg_size_small[OF assms(2)]
  by (auto simp: st_pagepool_init_def Let_def split: if_splits)

lemma init_good:
  assumes "pool_ready pool0 data cells" "2 ^ k dvd rg_reg_size (pp_region_cb pool0)"
    "fitting_pages (pp_region_cb pool0) (2 ^ k) < 32768"
    "st_pagepool_init 0 0 data cells pool0 rb0 (2 ^ k) = Some (ST_OK, pool, rb)"
  shows "pool_good (pool, \<lparr>pm_pages = pages, pm_rb = rb, pm_list = ln\<rparr>)"
    "allocated_runs pool \<lparr>pm_pages = pages, pm_rb = rb, pm_list = ln\<rparr> = {}"
proof -
  have r: "region_ok (pp_region_cb pool0)" using assms(1) by (simp add: pool_ready_def)
  then have pos: "0 < rg_reg_size (pp_region_cb pool0)" by (simp add: region_ok_def)
  note args = init_arguments[OF assms(4) r]
  have ok: "pool_inv pool \<lparr>pm_pages = pages, pm_rb = rb, pm_list = ln\<rparr>"
    "run_set pool \<lparr>pm_pages = pages, pm_rb = rb, pm_list = ln\<rparr> False = {}"
    "pp_page_size pool = 2 ^ k" "pp_region_cb pool = pp_region_cb pool0"
    "pp_region_size pool = rg_reg_size (pp_region_cb pool0)"
    "pp_pages_per_region pool = fitting_pages (pp_region_cb pool0) (2 ^ k)"
    "pp_space_base_offset pool = st_align (int sizeof_page * pp_pages_per_region pool) (2 ^ k)"
    using pool_init_ok[OF assms(1) args assms(3), of rb0 pages ln False] unfolding assms(4) by auto
  have "pool_geometry pool" using assms(2) pos ok(3-7) by (intro init_geometry[of pool k]) simp_all
  then show "pool_good (pool, \<lparr>pm_pages = pages, pm_rb = rb, pm_list = ln\<rparr>)" using ok(1) by (simp add: pool_good_def)
  show "allocated_runs pool \<lparr>pm_pages = pages, pm_rb = rb, pm_list = ln\<rparr> = {}" by (fact ok(2))
qed

lemma pool_reach_agrees: "pool_reach s H \<Longrightarrow> pool_runs.agrees s H"
proof (induction rule: pool_reach.induct)
  case (pool_start pool0 data cells k rb0 pool rb pages ln)
  from init_good[OF pool_start] show ?case unfolding pool_runs.agrees_def by (simp add: pool_owned_def)
next
  case (pool_allocated s H c p s')
  then show ?case using pool_runs.agrees_take by blast
next
  case (pool_refused s H c s')
  then show ?case using pool_runs.agrees_refused by blast
next
  case (pool_released s H p n s')
  then show ?case using pool_runs.agrees_give by blast
qed

lemma data_area_inside:
  assumes "pool_good (pool, mem)" "(p, n) \<in> run_set pool mem f"
  shows "data_area (pool, mem) p n \<subseteq> region_area (pp_region_cb pool)"
    "data_area (pool, mem) p n \<inter> (\<Union>x \<in> all_pages pool. {x ..< x + sizeof_page}) = {}"
    "card (data_area (pool, mem) p n) = n * nat (pp_page_size pool)"
proof -
  have inv: "pool_inv pool mem" and geo: "pool_geometry pool" using assms(1) by (simp_all add: pool_good_def)
  have base: "pool_base pool" using inv by (auto simp: pool_inv_def pool_desc_def)
  obtain r i where r: "r \<in> set (pool_regions pool)" "p = r + sizeof_page * i" "i + n \<le> region_pages pool" "0 < n"
    using run_position[OF inv assms(2)] by blast
  note area = data_area_run[OF assms r] and bounds = data_in_region[OF geo r(3), of r]
  show "card (data_area (pool, mem) p n) = n * nat (pp_page_size pool)" unfolding area by simp
  let ?rcb = "pp_region_cb pool"
  obtain j where j: "j < nat (rg_reg_cnt ?rcb)" "r = region_addr ?rcb j"
    using pool_parts(4)[OF base] r(1) by (auto simp: busy_regions_def)
  have sz: "0 < rg_reg_size ?rcb" using pool_parts(2)[OF base] by (simp add: region_ok_def)
  have "Suc j * nat (rg_reg_size ?rcb) \<le> nat (rg_reg_cnt ?rcb) * nat (rg_reg_size ?rcb)"
    using j(1) by (intro mult_right_mono) auto
  then have "r + nat (rg_reg_size ?rcb) \<le> rg_base_addr ?rcb + nat (rg_reg_cnt ?rcb) * nat (rg_reg_size ?rcb)" "rg_base_addr ?rcb \<le> r"
    using j(2) by (simp_all add: region_addr_def)
  moreover have end_le: "data_addr pool r i + n * nat (pp_page_size pool) \<le> r + nat (rg_reg_size ?rcb)" "r \<le> data_addr pool r i"
    using bounds(1,2) sz by linarith+
  ultimately show "data_area (pool, mem) p n \<subseteq> region_area ?rcb" unfolding area region_area_def by auto
  have "{data_addr pool r i ..< data_addr pool r i + n * nat (pp_page_size pool)} \<inter> {x ..< x + sizeof_page} = {}"
    if "x \<in> all_pages pool" for x
  proof -
    obtain r' i' where x: "r' \<in> set (pool_regions pool)" "x = r' + sizeof_page * i'" "i' < region_pages pool"
      using \<open>x \<in> all_pages pool\<close> by (auto simp: all_pages_def region_space_def in_page_range)
    have "sizeof_page * Suc i' \<le> sizeof_page * region_pages pool" using x(3) by (intro mult_left_mono) auto
    then have xe: "x + sizeof_page \<le> r' + sizeof_page * region_pages pool" using x(2) by simp
    consider "r' = r" | "r < r'" | "r' < r" by (rule linorder_cases[of r r']) auto
    then have "x + sizeof_page \<le> data_addr pool r i \<or> data_addr pool r i + n * nat (pp_page_size pool) \<le> x"
    proof cases
      case 1
      then show ?thesis using xe bounds(1) by simp
    next
      case 2
      then have "int r + rg_reg_size ?rcb \<le> int r'" using region_bound(2)[OF base r(1) x(1)] by simp
      then show ?thesis using end_le(1) x(2) sz by linarith
    next
      case 3
      then have "int r' + rg_reg_size ?rcb \<le> int r" using region_bound(2)[OF base x(1) r(1)] by simp
      then show ?thesis using xe pool_sizes(4)[OF base] bounds(1) sz by linarith
    qed
    then show ?thesis by auto
  qed
  then show "data_area (pool, mem) p n \<inter> (\<Union>x \<in> all_pages pool. {x ..< x + sizeof_page}) = {}" unfolding area by blast
qed


section \<open>Properties\<close>

text \<open>
  C18: On a consistent pool \<^verbatim>\<open>st_pagepool_alloc_pages\<close> always returns.  A count out of range is
  refused and nothing changes.  Otherwise a shortest free run that is long enough is taken and its
  tail stays free; without one a region of the control block joins the pool; without a free region
  the answer is \<^verbatim>\<open>ST_OUT_OF_MEMORY\<close>.  The pool stays consistent, and no descriptor of a run that
  is in use is written.
\<close>

theorem pagepool_alloc_correct:
  assumes "pool_inv pool mem" "tmp \<notin> region_area (pp_region_cb pool)"
  shows "\<exists>ret pages pool' mem'. st_pagepool_alloc_pages madvise_r t tmp pool mem cnt = Some (ret, pages, pool', mem') \<and>
    pool_inv pool' mem' \<and> same_pool pool pool' \<and>
    keeps (all_pages pool') (allocated_runs pool mem) (rt_sentinel (pp_free_pages pool)) mem mem' \<and>
    (if 0 < cnt \<and> cnt \<le> pp_pages_per_region pool then alloc_post pool mem (nat cnt) ret pages pool' mem'
     else ret = ST_ARG_INVALID \<and> pages = None \<and> pool' = pool \<and> mem' = mem)"
  using alloc_pages_ok[OF assms] .

text \<open>A pool over two regions of 1 MB, before and after its initialisation with pages of 64 KB.\<close>

definition demo_rcb :: st_region where
  "demo_rcb = \<lparr>rg_base_addr = 1048576, rg_page_size = 4096, rg_reg_cnt = 2, rg_reg_size = 1048576,
     rg_states = [ST_REGION_STATE_FREE, ST_REGION_STATE_FREE] @ replicate 1022 STATE_ZERO,
     rg_lock = mutex_new, rg_use_lock = False\<rparr>"

definition demo_raw :: st_pagepool where
  "demo_raw = \<lparr>pp_regions = \<lparr>ar_start_addr = NULL, ar_cells = [], ar_element_size = 0,
       ar_current_cnt = 0, ar_total_cnt = 0, ar_dynamic = False, ar_compare = None, ar_inited = False\<rparr>,
     pp_regions_lock = mutex_new, pp_free_pages = \<lparr>rt_root = NULL, rt_sentinel = 8\<rparr>, pp_pages_lock = mutex_new,
     pp_page_size = 0, pp_region_size = 0, pp_pages_per_region = 0, pp_space_base_offset = 0, pp_region_cb = demo_rcb\<rparr>"

lemma demo_ready: "pool_ready demo_raw 4096 (replicate 1024 0)"
proof -
  have "region_ok demo_rcb"
    by (auto simp: region_ok_def demo_rcb_def ST_REGION_MAX_NUM_def nth_Cons' numeral_2_eq_2 less_Suc_eq)
  then show ?thesis
    by (simp add: pool_ready_def demo_raw_def ST_PAGEPOOL_MAX_REGION_CNT_def region_area_def demo_rcb_def)
qed

lemma demo_pages: "fitting_pages (pp_region_cb demo_raw) 65536 = 15"
  by (simp add: demo_raw_def demo_rcb_def sizeof_page_def)

lemma demo_size: "rg_reg_size (pp_region_cb demo_raw) = 1048576"
  by (simp add: demo_raw_def demo_rcb_def)

definition demo_mem :: "rbmem \<Rightarrow> page_mem" where
  "demo_mem rb = \<lparr>pm_pages = \<lambda>_. zero_page, pm_rb = rb, pm_list = \<lambda>_. \<lparr>l_prev = NULL, l_next = NULL\<rparr>\<rparr>"

lemma demo_init:
  "\<exists>pool rb. st_pagepool_init 0 0 4096 (replicate 1024 0) demo_raw (\<lambda>_. st_rbtree_node_empty) 65536 = Some (ST_OK, pool, rb) \<and>
     pool_inv pool (demo_mem rb) \<and> run_set pool (demo_mem rb) True = {} \<and> run_set pool (demo_mem rb) False = {} \<and>
     pp_region_cb pool = demo_rcb \<and> pp_pages_per_region pool = 15 \<and> pp_page_size pool = 65536 \<and> 65536 dvd pp_space_base_offset pool"
  using pool_init_ok[OF demo_ready, of 65536 "\<lambda>_. st_rbtree_node_empty" "\<lambda>_. zero_page" "\<lambda>_. \<lparr>l_prev = NULL, l_next = NULL\<rparr>" True]
    pool_init_ok[OF demo_ready, of 65536 "\<lambda>_. st_rbtree_node_empty" "\<lambda>_. zero_page" "\<lambda>_. \<lparr>l_prev = NULL, l_next = NULL\<rparr>" False]
    st_align_pow2_eq[of _ 16]
  unfolding demo_pages demo_mem_def[symmetric] by (auto simp: demo_raw_def)

lemma demo_not_full: "busy_regions demo_rcb \<noteq> {..<nat (rg_reg_cnt demo_rcb)}"
proof -
  have "0 \<notin> busy_regions demo_rcb" "0 \<in> {..<nat (rg_reg_cnt demo_rcb)}"
    by (simp_all add: busy_regions_def demo_rcb_def)
  then show ?thesis by metis
qed

lemma demo_alloc_post:
  assumes "alloc_post pool mem n ret pages pool' mem'" "run_set pool mem True = {}" "run_set pool mem False = {}"
    "pp_region_cb pool = demo_rcb"
  shows "ret = ST_OK \<and> (\<exists>r. pages = Some r \<and> allocated_runs pool' mem' = {(r, n)})"
  using assms demo_not_full unfolding alloc_post_def by auto

theorem pagepool_alloc_correct_witness:
  "\<exists>pool mem p pool' mem'. st_pagepool_alloc_pages (Inr ()) 1 16 pool mem 3 = Some (ST_OK, Some p, pool', mem') \<and>
    allocated_runs pool mem = {} \<and> allocated_runs pool' mem' = {(p, 3)} \<and> pool_inv pool' mem'"
proof -
  obtain pool rb where d: "pool_inv pool (demo_mem rb)"
    "run_set pool (demo_mem rb) True = {}" "run_set pool (demo_mem rb) False = {}"
    "pp_region_cb pool = demo_rcb" "pp_pages_per_region pool = 15"
    using demo_init by blast
  let ?mem = "demo_mem rb"
  have "16 \<notin> region_area (pp_region_cb pool)" by (simp add: d(4) region_area_def demo_rcb_def)
  from pagepool_alloc_correct[OF d(1) this, of "Inr ()" 1 3] obtain ret pages pool' mem' where
    a: "st_pagepool_alloc_pages (Inr ()) 1 16 pool ?mem 3 = Some (ret, pages, pool', mem')" "pool_inv pool' mem'"
    "alloc_post pool ?mem 3 ret pages pool' mem'" unfolding d(5) by auto
  show ?thesis using demo_alloc_post[OF a(3) d(2,3,4)] a(1,2) d(3) by blast
qed

text \<open>
  C19: On a consistent pool \<^verbatim>\<open>st_pagepool_free_pages\<close> always returns.  For a descriptor that does not
  start an allocated run it answers \<^verbatim>\<open>ST_ARG_INVALID\<close> and changes nothing.  An allocated run is merged
  with the free runs next to it, and only with them; the merged run becomes free, or, if it spans its
  region, the region leaves the pool and is given back unless \<^verbatim>\<open>madvise\<close> fails.  The pool stays
  consistent and no descriptor of another run in use is written.
\<close>

theorem pagepool_free_correct:
  assumes "pool_inv pool mem" "p = NULL \<or> p \<in> all_pages pool"
  shows "if \<exists>n. (p, n) \<in> allocated_runs pool mem
    then \<exists>n ret pool' mem'. (p, n) \<in> allocated_runs pool mem \<and>
      st_pagepool_free_pages madvise_r t pool mem p = Some (ret, pool', mem') \<and>
      pool_inv pool' mem' \<and> same_pool pool pool' \<and>
      keeps (all_pages pool) (allocated_runs pool mem - {(p, n)}) (rt_sentinel (pp_free_pages pool)) mem mem' \<and>
      free_post pool mem p n madvise_r ret pool' mem'
    else st_pagepool_free_pages madvise_r t pool mem p = Some (ST_ARG_INVALID, pool, mem)"
  using free_pages_ok[OF assms(1), of p _ madvise_r t] free_pages_refused[OF assms, of madvise_r t] by metis

lemma run_page: "(p, n) \<in> run_set pool mem f \<Longrightarrow> p \<in> all_pages pool"
  by (simp add: run_set_def)

theorem pagepool_free_correct_witness:
  "\<exists>pool mem p ret pool' mem'. allocated_runs pool mem = {(p, 3)} \<and>
    st_pagepool_free_pages (Inr ()) 1 pool mem p = Some (ret, pool', mem') \<and> allocated_runs pool' mem' = {} \<and>
    pool_inv pool' mem' \<and> st_pagepool_free_pages (Inr ()) 1 pool mem NULL = Some (ST_ARG_INVALID, pool, mem)"
proof -
  obtain pool0 rb where d: "pool_inv pool0 (demo_mem rb)"
    "run_set pool0 (demo_mem rb) True = {}" "run_set pool0 (demo_mem rb) False = {}"
    "pp_region_cb pool0 = demo_rcb" "pp_pages_per_region pool0 = 15"
    using demo_init by blast
  let ?mem = "demo_mem rb"
  have "16 \<notin> region_area (pp_region_cb pool0)" by (simp add: d(4) region_area_def demo_rcb_def)
  from alloc_pages_ok[OF d(1) this, of "Inr ()" 1 3] obtain ret pages pool mem where
    a: "pool_inv pool mem" "alloc_post pool0 ?mem 3 ret pages pool mem" unfolding d(5) by auto
  obtain p where p: "allocated_runs pool mem = {(p, 3)}" using demo_alloc_post[OF a(2) d(2,3,4)] by blast
  have own: "p \<in> all_pages pool" "\<exists>n. (p, n) \<in> allocated_runs pool mem" using p run_page[of p 3 pool mem False] by auto
  from pagepool_free_correct[OF a(1), of p "Inr ()" 1] obtain ret' pool' mem' where
    f: "st_pagepool_free_pages (Inr ()) 1 pool mem p = Some (ret', pool', mem')" "pool_inv pool' mem'"
    "free_post pool mem p 3 (Inr ()) ret' pool' mem'" using own p by auto
  then have "allocated_runs pool' mem' = {}" using p by (auto simp: free_post_def Let_def)
  moreover have "st_pagepool_free_pages (Inr ()) 1 pool mem NULL = Some (ST_ARG_INVALID, pool, mem)"
    by (simp add: st_pagepool_free_pages_def)
  ultimately show ?thesis using p f(1,2) by blast
qed

text \<open>
  C17: After any history of allocations and releases on a pool of pages whose size is a power of two
  that divides the region size, the runs in the descriptors are exactly those that were handed out
  and not yet returned; the memory of each has the requested number of pages, lies inside the
  regions, contains no descriptor and does not overlap the memory of another; and every further
  allocation and every release of a held run returns.
\<close>

theorem pagepool_safe:
  assumes "pool_reach (pool, mem) H"
  shows "allocated_runs pool mem = H \<and>
    (\<forall>(p, n) \<in> H. \<forall>(q, k) \<in> H. (p, n) \<noteq> (q, k) \<longrightarrow> data_area (pool, mem) p n \<inter> data_area (pool, mem) q k = {}) \<and>
    (\<forall>(p, n) \<in> H. data_area (pool, mem) p n \<subseteq> region_area (pp_region_cb pool) \<and>
      card (data_area (pool, mem) p n) = n * nat (pp_page_size pool) \<and>
      data_area (pool, mem) p n \<inter> (\<Union>x \<in> all_pages pool. {x ..< x + sizeof_page}) = {}) \<and>
    (\<forall>tmp madvise_r t cnt. tmp \<notin> region_area (pp_region_cb pool) \<longrightarrow>
      st_pagepool_alloc_pages madvise_r t tmp pool mem cnt \<noteq> None) \<and>
    (\<forall>(p, n) \<in> H. \<forall>madvise_r t. st_pagepool_free_pages madvise_r t pool mem p \<noteq> None)"
proof (intro conjI)
  have ag: "pool_runs.agrees (pool, mem) H" using pool_reach_agrees[OF assms] .
  then have good: "pool_good (pool, mem)" and H: "allocated_runs pool mem = H"
    unfolding pool_runs.agrees_def by (simp_all add: pool_owned_def)
  have inv: "pool_inv pool mem" using good by (simp add: pool_good_def)
  show "allocated_runs pool mem = H" by (fact H)
  show "\<forall>(p, n) \<in> H. \<forall>(q, k) \<in> H. (p, n) \<noteq> (q, k) \<longrightarrow> data_area (pool, mem) p n \<inter> data_area (pool, mem) q k = {}"
    unfolding Ball_def split_paired_All prod.case using pool_runs.agrees_apart[OF ag] by metis
  show "\<forall>(p, n) \<in> H. data_area (pool, mem) p n \<subseteq> region_area (pp_region_cb pool) \<and>
      card (data_area (pool, mem) p n) = n * nat (pp_page_size pool) \<and>
      data_area (pool, mem) p n \<inter> (\<Union>x \<in> all_pages pool. {x ..< x + sizeof_page}) = {}"
    unfolding Ball_def split_paired_All prod.case using data_area_inside[OF good] H by metis
  show "\<forall>tmp madvise_r t cnt. tmp \<notin> region_area (pp_region_cb pool) \<longrightarrow>
      st_pagepool_alloc_pages madvise_r t tmp pool mem cnt \<noteq> None"
    using alloc_pages_ok[OF inv] by (metis option.distinct(1))
  show "\<forall>(p, n) \<in> H. \<forall>madvise_r t. st_pagepool_free_pages madvise_r t pool mem p \<noteq> None"
    using free_pages_ok[OF inv] H by fastforce
qed

lemma init_sentinel:
  "st_pagepool_init a b data cells pool rb page_size = Some (ST_OK, pool', rb') \<Longrightarrow>
    rt_sentinel (pp_free_pages pool') = rt_sentinel (pp_free_pages pool)"
  by (auto simp: st_pagepool_init_def st_rbtree_init_def Let_def st_robustlock_init_def split: bind_splits if_splits)

lemma demo_start:
  "\<exists>pool rb. pool_reach (pool, demo_mem rb) {} \<and> run_set pool (demo_mem rb) True = {} \<and>
     pp_region_cb pool = demo_rcb \<and> pp_pages_per_region pool = 15 \<and> pp_page_size pool = 65536 \<and> 65536 dvd pp_space_base_offset pool \<and>
     rt_sentinel (pp_free_pages pool) = 8"
proof -
  obtain pool rb where d: "st_pagepool_init 0 0 4096 (replicate 1024 0) demo_raw (\<lambda>_. st_rbtree_node_empty) 65536 = Some (ST_OK, pool, rb)"
    "run_set pool (demo_mem rb) True = {}" "pp_region_cb pool = demo_rcb" "pp_pages_per_region pool = 15"
    "pp_page_size pool = 65536" "65536 dvd pp_space_base_offset pool"
    using demo_init by blast
  moreover have "pool_reach (pool, demo_mem rb) {}" unfolding demo_mem_def
    using d(1) demo_pages by (intro pool_start[OF demo_ready, of 16]) (simp_all add: demo_raw_def demo_rcb_def)
  moreover have "rt_sentinel (pp_free_pages pool) = 8" using init_sentinel[OF d(1)] by (simp add: demo_raw_def)
  ultimately show ?thesis by blast
qed

lemma demo_reach:
  "\<exists>pool mem p. pool_reach (pool, mem) {(p, 3)}"
proof -
  obtain pool rb where d: "pool_reach (pool, demo_mem rb) {}" "run_set pool (demo_mem rb) True = {}"
    "pp_region_cb pool = demo_rcb" "pp_pages_per_region pool = 15" using demo_start by blast
  let ?mem = "demo_mem rb"
  have inv: "pool_inv pool ?mem" "run_set pool ?mem False = {}"
    using pool_reach_agrees[OF d(1)] unfolding pool_runs.agrees_def by (simp_all add: pool_owned_def pool_good_def)
  have t: "16 \<notin> region_area (pp_region_cb pool)" by (simp add: d(3) region_area_def demo_rcb_def)
  from alloc_pages_ok[OF inv(1) this, of "Inr ()" 1 3] obtain ret pages pool' mem' where
    a: "st_pagepool_alloc_pages (Inr ()) 1 16 pool ?mem 3 = Some (ret, pages, pool', mem')"
    "alloc_post pool ?mem 3 ret pages pool' mem'" unfolding d(4) by auto
  obtain p where "pages = Some p" using demo_alloc_post[OF a(2) d(2) inv(2) d(3)] by blast
  then have "pool_take 3 (pool, ?mem) (Some p) (pool', mem')"
    using a(1) t unfolding pool_take_def by (intro exI[of _ "Inr ()"] exI[of _ 1] exI[of _ 16] exI[of _ ret]) simp
  then show ?thesis using pool_allocated[OF d(1)] by blast
qed

theorem pagepool_safe_witness:
  "\<exists>pool mem p. pool_reach (pool, mem) {(p, 3)} \<and> allocated_runs pool mem = {(p, 3)} \<and>
    card (data_area (pool, mem) p 3) = 3 * nat (pp_page_size pool)"
  using demo_reach pagepool_safe by fastforce

text \<open>
  C28: The conversions between a descriptor and the address of its page are inverse to each other on
  the pages of the pool, and the page of every descriptor lies behind the descriptors and inside the
  region of the descriptor.
\<close>

theorem pagepool_addr_roundtrip:
  assumes "pool_inv pool mem" "pool_geometry pool" "p \<in> all_pages pool"
  shows "\<exists>a lock. st_pagepool_page_to_addr pool (pm_pages mem) p = (ST_OK, Some a) \<and>
    st_pagepool_addr_to_page t pool a = Some (ST_OK, Some p, pool\<lparr>pp_regions_lock := lock\<rparr>) \<and>
    pg_region (pm_pages mem p) + sizeof_page * region_pages pool \<le> a \<and>
    int a + pp_page_size pool \<le> int (pg_region (pm_pages mem p)) + rg_reg_size (pp_region_cb pool)"
proof -
  obtain L where L: "pool_desc pool mem L" using assms(1) by (auto simp: pool_inv_def)
  then have d: "described (set (pool_regions pool)) (region_pages pool) (pm_pages mem) L" by (simp add: pool_desc_def)
  obtain r i where r: "r \<in> set (pool_regions pool)" "i < region_pages pool" "p = r + sizeof_page * i"
    using assms(3) by (auto simp: all_pages_def region_space_def in_page_range)
  have reg: "pg_region (pm_pages mem (r + sizeof_page * i)) = r" using page_region[OF d r(1)] r(2) in_page_range by blast
  obtain lock where "st_pagepool_addr_to_page t pool (data_addr pool r i) =
      Some (ST_OK, Some (r + sizeof_page * i), pool\<lparr>pp_regions_lock := lock\<rparr>)"
    using addr_to_page_ok[OF assms(1,2) r(1,2)] by blast
  moreover have "r + sizeof_page * region_pages pool \<le> data_addr pool r i"
    "int (data_addr pool r i) + pp_page_size pool \<le> int r + rg_reg_size (pp_region_cb pool)"
    using data_in_region(1,2)[OF assms(2), of i 1 r] r(2) assms(2) by (simp_all add: pool_geometry_def)
  ultimately show ?thesis using page_to_addr_ok[OF assms(1,2) r(1,2)]
    unfolding reg r(3) by (intro exI[of _ "data_addr pool r i"] exI[of _ lock] conjI)
qed

theorem pagepool_addr_roundtrip_witness:
  "\<exists>pool (mem :: page_mem) p a lock. p \<in> all_pages pool \<and> st_pagepool_page_to_addr pool (pm_pages mem) p = (ST_OK, Some a) \<and>
    st_pagepool_addr_to_page 1 pool a = Some (ST_OK, Some p, pool\<lparr>pp_regions_lock := lock\<rparr>)"
proof -
  obtain pool mem p where r: "pool_reach (pool, mem) {(p, 3)}" using demo_reach by blast
  then have g: "pool_inv pool mem" "pool_geometry pool" "(p, 3) \<in> allocated_runs pool mem"
    using pool_reach_agrees[OF r] unfolding pool_runs.agrees_def by (simp_all add: pool_owned_def pool_good_def)
  obtain a lock where "st_pagepool_page_to_addr pool (pm_pages mem) p = (ST_OK, Some a)"
    "st_pagepool_addr_to_page 1 pool a = Some (ST_OK, Some p, pool\<lparr>pp_regions_lock := lock\<rparr>)"
    using pagepool_addr_roundtrip[OF g(1,2) run_page[OF g(3)], of 1] by (elim exE conjE)
  with run_page[OF g(3)] show ?thesis
    by (intro exI[of _ pool] exI[of _ mem] exI[of _ p] exI[of _ a] exI[of _ lock] conjI)
qed

text \<open>
  \<^verbatim>\<open>st_pagepool_init\<close> refuses a page size that is not a positive multiple of 512 or that leaves no
  room for a page, and passes on the failure of the first lock.  Otherwise it builds a consistent
  empty pool.  When the page size is a power of two that divides the region size, the descriptors
  and the pages of a region fit into it.
\<close>

theorem pagepool_init_correct:
  assumes "pool_ready pool data cells" "fitting_pages (pp_region_cb pool) page_size < 32768"
  shows "\<exists>ret pool' rb'. st_pagepool_init attr1 0 data cells pool rb page_size = Some (ret, pool', rb') \<and>
    (if page_size \<le> 0 \<or> page_size mod 512 \<noteq> 0 \<or> fitting_pages (pp_region_cb pool) page_size \<le> 0 then ret = ST_ARG_INVALID
     else if attr1 \<noteq> 0 then ret = Errno attr1 \<and> \<not> ar_inited (pp_regions pool')
     else ret = ST_OK \<and> pool_inv pool' \<lparr>pm_pages = pages, pm_rb = rb', pm_list = ln\<rparr> \<and>
       allocated_runs pool' \<lparr>pm_pages = pages, pm_rb = rb', pm_list = ln\<rparr> = {} \<and>
       (\<forall>k. page_size = 2 ^ k \<and> page_size dvd rg_reg_size (pp_region_cb pool) \<longrightarrow> pool_geometry pool'))"
proof -
  have r: "region_ok (pp_region_cb pool)" "data \<noteq> NULL" "rt_sentinel (pp_free_pages pool) \<noteq> NULL"
    using assms(1) by (simp_all add: pool_ready_def)
  then have pos: "0 < rg_reg_size (pp_region_cb pool)" by (simp add: region_ok_def)
  note small = reg_size_small[OF r(1)]
  consider "page_size \<le> 0 \<or> page_size mod 512 \<noteq> 0" | "\<not> (page_size \<le> 0 \<or> page_size mod 512 \<noteq> 0)" "fitting_pages (pp_region_cb pool) page_size \<le> 0"
    | (lock) "0 < page_size" "page_size mod 512 = 0" "0 < fitting_pages (pp_region_cb pool) page_size" "attr1 \<noteq> 0"
    | (ok) "0 < page_size" "page_size mod 512 = 0" "0 < fitting_pages (pp_region_cb pool) page_size" "attr1 = 0"
    by linarith
  then show ?thesis
  proof cases
    case lock
    obtain tree rb' where t: "st_rbtree_init True True (pp_free_pages pool) rb = Some (ST_OK, tree, rb')"
      using rbtree_init_empty[OF r(3)] by blast
    then show ?thesis using lock small r(2)
      by (simp add: st_pagepool_init_def st_array_init_static_def ST_PAGEPOOL_MAX_REGION_CNT_def st_robustlock_init_def
          st_array_destroy_def Let_def)
  next
    case ok
    obtain pool' rb' where i: "st_pagepool_init 0 0 data cells pool rb page_size = Some (ST_OK, pool', rb')"
      using pool_init_ok[OF assms(1) ok(1-3) assms(2)] by blast
    have "pool_geometry pool'" if "page_size = 2 ^ k" "page_size dvd rg_reg_size (pp_region_cb pool)" for k
      using init_good(1)[OF assms(1), of k rb pool' rb' pages ln] i that assms(2) by (simp add: pool_good_def)
    then show ?thesis using i ok pool_init_ok[OF assms(1) ok(1-3) assms(2), of rb pages ln False] by auto
  qed (use small in \<open>auto simp: st_pagepool_init_def Let_def\<close>)
qed

lemma power_of_65536: "\<exists>k. (65536 :: int) = 2 ^ k"
  by (intro exI[of _ 16]) simp

theorem pagepool_init_correct_witness:
  "\<exists>pool' rb'. st_pagepool_init 0 0 4096 (replicate 1024 0) demo_raw (\<lambda>_. st_rbtree_node_empty) 65536 = Some (ST_OK, pool', rb') \<and>
    pool_geometry pool'"
  using pagepool_init_correct[OF demo_ready, of 65536 0 "\<lambda>_. st_rbtree_node_empty" "\<lambda>_. zero_page" "\<lambda>_. \<lparr>l_prev = NULL, l_next = NULL\<rparr>"]
    demo_pages demo_size power_of_65536 by auto

text \<open>
  If the second lock cannot be initialised, \<^verbatim>\<open>st_pagepool_init\<close> still answers \<^verbatim>\<open>ST_OK\<close>, although the
  array of regions has been destroyed again: a following \<^verbatim>\<open>st_pagepool_destroy\<close> reports
  \<^verbatim>\<open>ST_UNINITED\<close> and the first region cannot be added.
\<close>

theorem pagepool_init_lock_failure:
  assumes "pool_ready pool data cells" "0 < page_size" "page_size mod 512 = 0"
    "0 < fitting_pages (pp_region_cb pool) page_size" "attr2 \<noteq> 0"
  shows "\<exists>pool' rb'. st_pagepool_init 0 attr2 data cells pool rb page_size = Some (ST_OK, pool', rb') \<and>
    st_pagepool_destroy pool' = (ST_UNINITED, pool') \<and> st_pagepool_add_region t pool' region \<noteq> Some (ST_OK, pool'')"
proof -
  have r: "region_ok (pp_region_cb pool)" "data \<noteq> NULL" "rt_sentinel (pp_free_pages pool) \<noteq> NULL"
    using assms(1) by (simp_all add: pool_ready_def)
  obtain tree rb' where t: "st_rbtree_init True True (pp_free_pages pool) rb = Some (ST_OK, tree, rb')"
    using rbtree_init_empty[OF r(3)] by blast
  then show ?thesis using assms(2-5) reg_size_small[OF r(1)] r(2)
    by (auto simp: st_pagepool_init_def st_array_init_static_def ST_PAGEPOOL_MAX_REGION_CNT_def st_robustlock_init_def
        st_array_destroy_def Let_def st_pagepool_destroy_def st_pagepool_add_region_def st_array_bsearch_right_def
        dest!: with_lock_Some split: bind_splits)
qed

theorem pagepool_init_lock_failure_witness:
  "\<exists>pool' rb'. st_pagepool_init 0 11 4096 (replicate 1024 0) demo_raw (\<lambda>_. st_rbtree_node_empty) 65536 = Some (ST_OK, pool', rb') \<and>
    st_pagepool_destroy pool' = (ST_UNINITED, pool')"
  using pagepool_init_lock_failure[OF demo_ready, of 65536 11 "\<lambda>_. st_rbtree_node_empty"] demo_pages by force

end
