(* ===== verification/Slab.thy ===== *)
theory Slab
  imports Pagepool_Api Bitmap
begin

text \<open>
  \<^verbatim>\<open>src/slab/slab.h\<close>, \<^verbatim>\<open>src/slab/slab.c\<close> and the macros of \<^verbatim>\<open>src/inc/bit.h\<close> they use: objects of
  a power of two bytes are cut from runs of pages, one group per size, and larger objects get a run
  of their own.

  A group lies at an address of the pool; its two list heads are at the offsets 72 and 88 of it.  The
  functions that take a group get its address \<open>ga\<close> and its fields \<open>g\<close>, and return the fields.
\<close>

section \<open>Bits\<close>

text \<open>\<^verbatim>\<open>__builtin_clzl\<close>: the leading zero bits of a word that is not zero.\<close>

definition builtin_clzl :: "u64 \<Rightarrow> int" where
  "builtin_clzl w = int (length (takeWhile (\<lambda>i. \<not> bit w (63 - i)) [0..<64]))"

definition st_bit_clz :: "u64 \<Rightarrow> int" where
  "st_bit_clz i = (if i = 0 then 8 * 8 else builtin_clzl i)"

definition st_bit_msb :: "u64 \<Rightarrow> int" where
  "st_bit_msb i = 8 * 8 - st_bit_clz i - 1"

section \<open>Data\<close>

definition ST_SLAB_OBJ_SIZE_MIN_SHIFT :: nat where "ST_SLAB_OBJ_SIZE_MIN_SHIFT = 3"
definition ST_SLAB_OBJ_SIZE_MAX_SHIFT :: nat where "ST_SLAB_OBJ_SIZE_MAX_SHIFT = 11"
definition ST_SLAB_OBJ_CNT_EACH_ALLOC :: nat where "ST_SLAB_OBJ_CNT_EACH_ALLOC = 512"
definition ST_SLAB_HUGE_OBJ_SIZE :: int where "ST_SLAB_HUGE_OBJ_SIZE = 2 ^ (ST_SLAB_OBJ_SIZE_MAX_SHIFT + 1)"
definition ST_SLAB_GROUP_CNT :: nat where "ST_SLAB_GROUP_CNT = ST_SLAB_OBJ_SIZE_MAX_SHIFT + 2"

lemmas slab_consts = ST_SLAB_OBJ_SIZE_MIN_SHIFT_def ST_SLAB_OBJ_SIZE_MAX_SHIFT_def ST_SLAB_OBJ_CNT_EACH_ALLOC_def
  ST_SLAB_HUGE_OBJ_SIZE_def ST_SLAB_GROUP_CNT_def

record st_slab_group_stat =
  ss_free :: int
  ss_alloc :: int

record st_slab_group =
  sg_stat_obj :: st_slab_group_stat
  sg_stat_pages :: st_slab_group_stat
  sg_stat_current :: st_slab_group_stat
  sg_start_time :: int
  sg_obj_size :: int
  sg_page_pool :: addr
  sg_inited :: bool
  sg_lock :: mutex

text \<open>\<open>sl_pool_at\<close> and \<open>sl_groups_at\<close> are the addresses of the members \<^verbatim>\<open>page_pool\<close> and \<^verbatim>\<open>groups\<close>.\<close>

record st_slab_pool =
  sl_page_pool :: st_pagepool
  sl_groups :: "st_slab_group list"
  sl_pool_at :: addr
  sl_groups_at :: addr

definition sizeof_group :: nat where "sizeof_group = 160"

definition group_addr :: "st_slab_pool \<Rightarrow> nat \<Rightarrow> addr" where
  "group_addr slab_pool i = sl_groups_at slab_pool + sizeof_group * i"

definition slabs_full :: "addr \<Rightarrow> addr" where "slabs_full ga = ga + 72"
definition slabs_partial :: "addr \<Rightarrow> addr" where "slabs_partial ga = ga + 88"

definition is_huge_obj_group :: "st_slab_group \<Rightarrow> bool" where
  "is_huge_obj_group g \<longleftrightarrow> sg_obj_size g = ST_SLAB_HUGE_OBJ_SIZE"

definition is_huge_obj_pages :: "st_pagepool_page \<Rightarrow> bool" where
  "is_huge_obj_pages master \<longleftrightarrow> pg_obj_size master > 2 ^ ST_SLAB_OBJ_SIZE_MAX_SHIFT"

section \<open>Groups\<close>

text \<open>The index of the group for a size; the error is the code it returns instead.\<close>

definition st_slab_size_to_index :: "u64 \<Rightarrow> st_error + int" where
  "st_slab_size_to_index sz =
    (if \<not> sz > 0 then Inl ST_ARG_INVALID
     else if sz \<le> 2 ^ ST_SLAB_OBJ_SIZE_MIN_SHIFT then Inr (int ST_SLAB_OBJ_SIZE_MIN_SHIFT)
     else if sz > 2 ^ ST_SLAB_OBJ_SIZE_MAX_SHIFT then Inr (int ST_SLAB_GROUP_CNT - 1)
     else Inr (st_bit_msb (sz - 1) + 1))"

text \<open>\<open>time_r\<close> is the result of \<^verbatim>\<open>gettimeofday\<close>, \<open>attr\<close> that of the initialisation of the mutex attributes.\<close>

definition st_slab_group_init ::
    "int sys \<Rightarrow> int \<Rightarrow> addr \<Rightarrow> st_slab_group \<Rightarrow> lmem \<Rightarrow> int \<Rightarrow> addr \<Rightarrow> (st_error \<times> st_slab_group \<times> lmem) option" where
  "st_slab_group_init time_r attr ga g ln obj_size page_pool =
    (if ga = NULL then Some (ST_ARG_INVALID, g, ln)
     else if sg_inited g then Some (ST_INITTWICE, g, ln)
     else if page_pool = NULL then Some (ST_ARG_INVALID, g, ln)
     else
       let g = g\<lparr>sg_obj_size := obj_size, sg_page_pool := page_pool\<rparr>
       in case time_r of
         Inl e \<Rightarrow> Some (Errno e, g, ln)
       | Inr now \<Rightarrow> do {
           let g = g\<lparr>sg_start_time := now\<rparr>;
           ln \<leftarrow> st_list_init ln (slabs_full ga);
           ln \<leftarrow> st_list_init ln (slabs_partial ga);
           let (ret, lock) = st_robustlock_init attr (sg_lock g);
           let g = g\<lparr>sg_lock := lock\<rparr>;
           if ret \<noteq> ST_OK then Some (ret, g, ln)
           else Some (ST_OK, g\<lparr>sg_inited := True\<rparr>, ln)
         })"

text \<open>The loop over the groups; the system calls of each round are given by its index.\<close>

fun pool_init_loop ::
    "(nat \<Rightarrow> int sys) \<Rightarrow> (nat \<Rightarrow> int) \<Rightarrow> nat list \<Rightarrow> st_slab_pool \<Rightarrow> lmem \<Rightarrow> (st_error \<times> st_slab_pool \<times> lmem) option" where
  "pool_init_loop time_r attr [] slab_pool ln = Some (ST_OK, slab_pool, ln)"
| "pool_init_loop time_r attr (cnt # cnts) slab_pool ln = do {
     (ret, g, ln) \<leftarrow> st_slab_group_init (time_r cnt) (attr cnt) (group_addr slab_pool cnt) (sl_groups slab_pool ! cnt) ln
       (2 ^ cnt) (sl_pool_at slab_pool);
     let slab_pool = slab_pool\<lparr>sl_groups := (sl_groups slab_pool)[cnt := g]\<rparr>;
     if ret \<noteq> ST_OK \<and> ret \<noteq> ST_INITTWICE then Some (ret, slab_pool, ln)
     else pool_init_loop time_r attr cnts slab_pool ln
   }"

definition st_slab_pool_init ::
    "(nat \<Rightarrow> int sys) \<Rightarrow> (nat \<Rightarrow> int) \<Rightarrow> st_slab_pool \<Rightarrow> lmem \<Rightarrow> (st_error \<times> st_slab_pool \<times> lmem) option" where
  "st_slab_pool_init time_r attr slab_pool ln =
    pool_init_loop time_r attr [ST_SLAB_OBJ_SIZE_MIN_SHIFT ..< ST_SLAB_GROUP_CNT] slab_pool ln"

definition st_slab_group_destroy :: "addr \<Rightarrow> st_slab_group \<Rightarrow> lmem \<Rightarrow> (st_error \<times> st_slab_group) option" where
  "st_slab_group_destroy ga g ln =
    (if ga = NULL then Some (ST_ARG_INVALID, g)
     else do {
       e \<leftarrow> st_list_empty ln (slabs_full ga);
       if \<not> e then Some (ST_STATE_INVALID, g)
       else do {
         e \<leftarrow> st_list_empty ln (slabs_partial ga);
         if \<not> e then Some (ST_STATE_INVALID, g)
         else if sg_inited g then
           let g = g\<lparr>sg_page_pool := NULL\<rparr>;
               ret = st_robustlock_destroy (sg_lock g)
           in Some (ret, if ret = ST_OK then g\<lparr>sg_inited := False\<rparr> else g)
         else Some (ST_OK, g)
       }
     })"

fun pool_destroy_loop :: "nat list \<Rightarrow> st_error \<Rightarrow> st_slab_pool \<Rightarrow> lmem \<Rightarrow> (st_error \<times> st_slab_pool) option" where
  "pool_destroy_loop [] ret slab_pool ln = Some (ret, slab_pool)"
| "pool_destroy_loop (idx # idxs) ret slab_pool ln = do {
     (result, g) \<leftarrow> st_slab_group_destroy (group_addr slab_pool idx) (sl_groups slab_pool ! idx) ln;
     let slab_pool = slab_pool\<lparr>sl_groups := (sl_groups slab_pool)[idx := g]\<rparr>;
     let ret = (if result \<noteq> ST_OK then (if ret = ST_OK then result else ret) else ret);
     pool_destroy_loop idxs ret slab_pool ln
   }"

definition st_slab_pool_destroy :: "st_slab_pool \<Rightarrow> lmem \<Rightarrow> (st_error \<times> st_slab_pool) option" where
  "st_slab_pool_destroy slab_pool ln =
    pool_destroy_loop [ST_SLAB_OBJ_SIZE_MIN_SHIFT ..< ST_SLAB_GROUP_CNT] ST_OK slab_pool ln"

definition st_slab_update_obj_stat :: "st_slab_group \<Rightarrow> int \<Rightarrow> int \<Rightarrow> st_slab_group" where
  "st_slab_update_obj_stat g alloc_cnt free_cnt =
    (let alloc_diff = alloc_cnt - free_cnt; cur = sg_stat_current g; obj = sg_stat_obj g
     in g\<lparr>sg_stat_current := cur\<lparr>ss_free := ss_free cur - alloc_diff, ss_alloc := ss_alloc cur + alloc_diff\<rparr>,
          sg_stat_obj := obj\<lparr>ss_alloc := ss_alloc obj + alloc_cnt, ss_free := ss_free obj + free_cnt\<rparr>\<rparr>)"

definition st_slab_update_pages_stat :: "st_slab_group \<Rightarrow> int \<Rightarrow> int \<Rightarrow> st_slab_group" where
  "st_slab_update_pages_stat g alloc_cnt free_cnt =
    (let cnt = (if is_huge_obj_group g then 1 else int ST_SLAB_OBJ_CNT_EACH_ALLOC);
         alloc_diff = (alloc_cnt - free_cnt) * cnt; cur = sg_stat_current g; pgs = sg_stat_pages g
     in g\<lparr>sg_stat_current := cur\<lparr>ss_free := ss_free cur + alloc_diff\<rparr>,
          sg_stat_pages := pgs\<lparr>ss_alloc := ss_alloc pgs + alloc_cnt, ss_free := ss_free pgs + free_cnt\<rparr>\<rparr>)"

text \<open>\<^verbatim>\<open>master\<close> and \<^verbatim>\<open>group\<close> share their place in a descriptor.\<close>

definition mark_pages :: "pages \<Rightarrow> addr \<Rightarrow> addr \<Rightarrow> addr \<Rightarrow> pages" where
  "mark_pages m master group_v slave_v =
    (let m = m(master := (m master)\<lparr>pg_master := group_v\<rparr>)
     in for_pages (pg_compound_page_cnt (m master) - 1) (page_add master 1) id (\<lambda>pg. pg\<lparr>pg_master := slave_v\<rparr>) m)"

definition st_slab_set_pages_group_master :: "pages \<Rightarrow> addr \<Rightarrow> addr \<Rightarrow> pages" where
  "st_slab_set_pages_group_master m master ga = mark_pages m master ga master"

definition st_slab_clear_pages_group_master :: "pages \<Rightarrow> addr \<Rightarrow> pages" where
  "st_slab_clear_pages_group_master m master = mark_pages m master NULL NULL"

section \<open>Objects\<close>

text \<open>
  \<^verbatim>\<open>st_slab_alloc_pages\<close>: the number of pages is computed as \<^verbatim>\<open>ssize_t\<close> and passed as \<^verbatim>\<open>int\<close>; the
  object size is stored as \<^verbatim>\<open>int32_t\<close>.  A division by zero and an overflow of \<^verbatim>\<open>ssize_t\<close> have no result.
\<close>

definition st_slab_alloc_pages ::
    "unit sys \<Rightarrow> pid \<Rightarrow> addr \<Rightarrow> addr \<Rightarrow> st_slab_group \<Rightarrow> st_pagepool \<Rightarrow> page_mem \<Rightarrow> int \<Rightarrow> int
      \<Rightarrow> (st_error \<times> st_slab_group \<times> st_pagepool \<times> page_mem) option" where
  "st_slab_alloc_pages madvise_r t tmp ga g page_pool mem obj_size obj_cnt = do {
     st_assert (sg_page_pool g \<noteq> NULL);
     let page_size = pp_page_size page_pool;
     st_assert (page_size \<noteq> 0 \<and> obj_size * obj_cnt + page_size - 1 < 2 ^ 63);
     let pages_cnt = st_align (obj_size * obj_cnt) page_size div page_size;
     (ret, pages, page_pool, mem) \<leftarrow> st_pagepool_alloc_pages madvise_r t tmp page_pool mem (to_int32 pages_cnt);
     if ret \<noteq> ST_OK then Some (ret, g, page_pool, mem)
     else do {
       pages \<leftarrow> pages;
       m \<leftarrow> upd (pm_pages mem) pages (\<lambda>pg. pg\<lparr>pg_bitmap := replicate ST_PAGEPOOL_MAX_SLAB_CHUNK_CNT 0,
         pg_obj_size := to_int32 obj_size\<rparr>);
       let m = st_slab_set_pages_group_master m pages ga;
       ln \<leftarrow> st_list_insert_last (pm_list mem) (slabs_partial ga) (page_ln pages);
       Some (ST_OK, st_slab_update_pages_stat g 1 0, page_pool, mem\<lparr>pm_pages := m, pm_list := ln\<rparr>)
     }
   }"

definition slab_nbits :: "st_pagepool_page \<Rightarrow> nat" where
  "slab_nbits master = (if is_huge_obj_pages master then 1 else ST_SLAB_OBJ_CNT_EACH_ALLOC)"

text \<open>The tests of the bit map return an error code, which is not zero, for a missing map only.\<close>

definition as_bool :: "(st_error + bool) option \<Rightarrow> bool option" where
  "as_bool r = map_option (\<lambda>r. case r of Inl _ \<Rightarrow> True | Inr b \<Rightarrow> b) r"

definition st_slab_is_full :: "st_pagepool_page \<Rightarrow> bool option" where
  "st_slab_is_full master = as_bool (st_bitmap_are_all_set (Some (pg_bitmap master)) (slab_nbits master))"

definition st_slab_is_all_free :: "st_pagepool_page \<Rightarrow> bool option" where
  "st_slab_is_all_free master = as_bool (st_bitmap_are_all_cleared (Some (pg_bitmap master)) (slab_nbits master))"

text \<open>What \<^verbatim>\<open>st_slab_get_obj_from_group\<close> does once there is a slab with room: an object of the last one.\<close>

definition take_obj ::
    "addr \<Rightarrow> st_slab_group \<Rightarrow> st_pagepool \<Rightarrow> page_mem \<Rightarrow> int \<Rightarrow> int
      \<Rightarrow> (st_error \<times> addr option \<times> st_slab_group \<times> page_mem) option" where
  "take_obj ga g page_pool mem obj_size obj_cnt = do {
     node \<leftarrow> st_list_last (pm_list mem) (slabs_partial ga);
     let master = owner_ln node;
     let (ret, base) = st_pagepool_page_to_addr page_pool (pm_pages mem) master;
     if ret \<noteq> ST_OK then Some (ret, None, g, mem)
     else do {
       base \<leftarrow> base;
       r \<leftarrow> st_bitmap_find_clear_bit (Some (pg_bitmap (pm_pages mem master))) 0 (nat obj_cnt);
       let idx = (case r of Inl e \<Rightarrow> st_error_val e | Inr i \<Rightarrow> i);
       st_assert (idx \<ge> 0);
       let obj = nat ((int base + idx * obj_size) mod 2 ^ 64);
       (bm, _) \<leftarrow> st_bitmap_set (pg_bitmap (pm_pages mem master)) (nat idx);
       m \<leftarrow> upd (pm_pages mem) master (\<lambda>pg. pg\<lparr>pg_bitmap := bm\<rparr>);
       let g = st_slab_update_obj_stat g 1 0;
       full \<leftarrow> st_slab_is_full (m master);
       ln \<leftarrow> (if full then do {
           ln \<leftarrow> st_list_remove (pm_list mem) (page_ln master);
           st_list_insert_last ln (slabs_full ga) (page_ln master)
         } else Some (pm_list mem));
       Some (ST_OK, Some obj, g, mem\<lparr>pm_pages := m, pm_list := ln\<rparr>)
     }
   }"

definition get_obj_body ::
    "unit sys \<Rightarrow> pid \<Rightarrow> addr \<Rightarrow> addr \<Rightarrow> st_slab_group \<Rightarrow> st_pagepool \<Rightarrow> page_mem \<Rightarrow> int \<Rightarrow> int
      \<Rightarrow> (st_error \<times> addr option \<times> st_slab_group \<times> st_pagepool \<times> page_mem) option" where
  "get_obj_body madvise_r t tmp ga g page_pool mem obj_size obj_cnt = do {
     empty \<leftarrow> st_list_empty (pm_list mem) (slabs_partial ga);
     (ret, g, page_pool, mem) \<leftarrow> (if empty
       then st_slab_alloc_pages madvise_r t tmp ga g page_pool mem obj_size obj_cnt
       else Some (ST_OK, g, page_pool, mem));
     if ret \<noteq> ST_OK then Some (ret, None, g, page_pool, mem)
     else do {
       (ret, obj, g, mem) \<leftarrow> take_obj ga g page_pool mem obj_size obj_cnt;
       Some (ret, obj, g, page_pool, mem)
     }
   }"

definition st_slab_get_obj_from_group ::
    "unit sys \<Rightarrow> pid \<Rightarrow> addr \<Rightarrow> addr \<Rightarrow> st_slab_group \<Rightarrow> st_pagepool \<Rightarrow> page_mem \<Rightarrow> int
      \<Rightarrow> (st_error \<times> addr option \<times> st_slab_group \<times> st_pagepool \<times> page_mem) option" where
  "st_slab_get_obj_from_group madvise_r t tmp ga g page_pool mem obj_size = do {
     let (obj_cnt, obj_size) =
       (if is_huge_obj_group g then (1, obj_size) else (int ST_SLAB_OBJ_CNT_EACH_ALLOC, sg_obj_size g));
     ((ret, obj, g, page_pool, mem), lock) \<leftarrow>
       with_lock t (sg_lock g) (get_obj_body madvise_r t tmp ga g page_pool mem obj_size obj_cnt);
     Some (ret, obj, g\<lparr>sg_lock := lock\<rparr>, page_pool, mem)
   }"

definition st_slab_obj_alloc ::
    "unit sys \<Rightarrow> pid \<Rightarrow> addr \<Rightarrow> st_slab_pool \<Rightarrow> page_mem \<Rightarrow> int
      \<Rightarrow> (st_error \<times> addr option \<times> st_slab_pool \<times> page_mem) option" where
  "st_slab_obj_alloc madvise_r t tmp slab_pool mem sz =
    (if \<not> sz > 0 then Some (ST_ARG_INVALID, None, slab_pool, mem)
     else case st_slab_size_to_index (word_of_int sz) of
       Inl _ \<Rightarrow> None
     | Inr index \<Rightarrow> do {
         let i = nat index;
         (ret, obj, g, page_pool, mem) \<leftarrow> st_slab_get_obj_from_group madvise_r t tmp (group_addr slab_pool i)
           (sl_groups slab_pool ! i) (sl_page_pool slab_pool) mem sz;
         Some (ret, obj, slab_pool\<lparr>sl_groups := (sl_groups slab_pool)[i := g], sl_page_pool := page_pool\<rparr>, mem)
       })"

definition st_slab_get_master_page :: "pages \<Rightarrow> addr \<Rightarrow> addr" where
  "st_slab_get_master_page m page =
    (if page = NULL then NULL
     else
       let master = (if pg_type (m page) \<noteq> ST_PAGEPOOL_PAGE_MASTER then pg_master (m page) else page)
       in if master = NULL \<or> pg_master (m master) = NULL then NULL else master)"

definition st_slab_clear_bitmap_by_addr ::
    "st_slab_group \<Rightarrow> st_pagepool \<Rightarrow> pages \<Rightarrow> addr \<Rightarrow> addr \<Rightarrow> (st_error \<times> pages) option" where
  "st_slab_clear_bitmap_by_addr g page_pool m master addr =
    (case st_pagepool_page_to_addr page_pool m master of
       (ret, base) \<Rightarrow>
         if ret \<noteq> ST_OK then Some (ret, m)
         else do {
           base \<leftarrow> base;
           let offset = (int addr - int base) mod 2 ^ 64;
           st_assert (sg_obj_size g \<noteq> 0);
           if offset mod sg_obj_size g \<noteq> 0 then Some (ST_ARG_INVALID, m)
           else do {
             let index = to_int32 (offset div sg_obj_size g);
             if index \<ge> int ST_SLAB_OBJ_CNT_EACH_ALLOC then Some (ST_ARG_INVALID, m)
             else if sg_obj_size g = ST_SLAB_HUGE_OBJ_SIZE \<and> index \<noteq> 0 then Some (ST_ARG_INVALID, m)
             else do {
               (bm, old) \<leftarrow> st_bitmap_clear (pg_bitmap (m master)) (nat (index mod 2 ^ 32));
               m \<leftarrow> upd m master (\<lambda>pg. pg\<lparr>pg_bitmap := bm\<rparr>);
               Some (if \<not> old then ST_AGAIN else ST_OK, m)
             }
           }
         })"

text \<open>The part of \<^verbatim>\<open>st_slab_free_obj_from_group\<close> that gives an empty slab back.\<close>

definition release_slab ::
    "unit sys \<Rightarrow> pid \<Rightarrow> addr \<Rightarrow> st_slab_group \<Rightarrow> st_pagepool \<Rightarrow> page_mem \<Rightarrow> addr
      \<Rightarrow> (st_error \<times> st_slab_group \<times> st_pagepool \<times> page_mem) option" where
  "release_slab madvise_r t ga g page_pool mem master = do {
     ln \<leftarrow> st_list_remove (pm_list mem) (page_ln master);
     let mem = mem\<lparr>pm_list := ln, pm_pages := st_slab_clear_pages_group_master (pm_pages mem) master\<rparr>;
     (ret, page_pool, mem) \<leftarrow> st_pagepool_free_pages madvise_r t page_pool mem master;
     if ret \<noteq> ST_OK then do {
       let m = st_slab_set_pages_group_master (pm_pages mem) master ga;
       ln \<leftarrow> st_list_insert_last (pm_list mem) (slabs_partial ga) (page_ln master);
       Some (ret, g, page_pool, mem\<lparr>pm_pages := m, pm_list := ln\<rparr>)
     }
     else Some (ST_OK, st_slab_update_pages_stat g 0 1, page_pool, mem)
   }"

definition free_obj_body ::
    "unit sys \<Rightarrow> pid \<Rightarrow> addr \<Rightarrow> st_slab_group \<Rightarrow> st_pagepool \<Rightarrow> page_mem \<Rightarrow> addr \<Rightarrow> addr
      \<Rightarrow> (st_error \<times> st_slab_group \<times> st_pagepool \<times> page_mem) option" where
  "free_obj_body madvise_r t ga g page_pool mem master addr = do {
     was_in_full \<leftarrow> st_slab_is_full (pm_pages mem master);
     (ret, m) \<leftarrow> st_slab_clear_bitmap_by_addr g page_pool (pm_pages mem) master addr;
     let mem = mem\<lparr>pm_pages := m\<rparr>;
     if ret \<noteq> ST_OK then Some (ret, g, page_pool, mem)
     else do {
       let g = st_slab_update_obj_stat g 0 1;
       all_free \<leftarrow> st_slab_is_all_free (pm_pages mem master);
       if all_free then release_slab madvise_r t ga g page_pool mem master
       else if was_in_full then do {
         ln \<leftarrow> st_list_remove (pm_list mem) (page_ln master);
         ln \<leftarrow> st_list_insert_last ln (slabs_partial ga) (page_ln master);
         Some (ST_OK, g, page_pool, mem\<lparr>pm_list := ln\<rparr>)
       }
       else Some (ST_OK, g, page_pool, mem)
     }
   }"

definition st_slab_free_obj_from_group ::
    "unit sys \<Rightarrow> pid \<Rightarrow> addr \<Rightarrow> st_slab_group \<Rightarrow> st_pagepool \<Rightarrow> page_mem \<Rightarrow> addr \<Rightarrow> addr
      \<Rightarrow> (st_error \<times> st_slab_group \<times> st_pagepool \<times> page_mem) option" where
  "st_slab_free_obj_from_group madvise_r t ga g page_pool mem master addr = do {
     ((ret, g, page_pool, mem), lock) \<leftarrow>
       with_lock t (sg_lock g) (free_obj_body madvise_r t ga g page_pool mem master addr);
     Some (ret, g\<lparr>sg_lock := lock\<rparr>, page_pool, mem)
   }"

definition ADDR_PAGE_BASE :: "addr \<Rightarrow> int \<Rightarrow> addr" where
  "ADDR_PAGE_BASE a page_size = nat (int a AND NOT (page_size - 1))"

definition st_slab_obj_free ::
    "unit sys \<Rightarrow> pid \<Rightarrow> st_slab_pool \<Rightarrow> page_mem \<Rightarrow> addr \<Rightarrow> (st_error \<times> st_slab_pool \<times> page_mem) option" where
  "st_slab_obj_free madvise_r t slab_pool mem addr =
    (if addr = NULL then Some (ST_ARG_INVALID, slab_pool, mem)
     else do {
       let page_size = pp_page_size (sl_page_pool slab_pool);
       (ret, page, page_pool) \<leftarrow> st_pagepool_addr_to_page t (sl_page_pool slab_pool) (ADDR_PAGE_BASE addr page_size);
       let slab_pool = slab_pool\<lparr>sl_page_pool := page_pool\<rparr>;
       if ret \<noteq> ST_OK then Some (ret, slab_pool, mem)
       else do {
         page \<leftarrow> page;
         let master = st_slab_get_master_page (pm_pages mem) page;
         if master = NULL then Some (ST_OUT_OF_RANGE, slab_pool, mem)
         else case st_slab_size_to_index (word_of_int (pg_obj_size (pm_pages mem master))) of
           Inl _ \<Rightarrow> None
         | Inr index \<Rightarrow> do {
             let i = nat index;
             st_assert (pg_master (pm_pages mem master) = group_addr slab_pool i);
             (ret, g, page_pool, mem) \<leftarrow> st_slab_free_obj_from_group madvise_r t (group_addr slab_pool i)
               (sl_groups slab_pool ! i) (sl_page_pool slab_pool) mem master addr;
             Some (ret, slab_pool\<lparr>sl_groups := (sl_groups slab_pool)[i := g], sl_page_pool := page_pool\<rparr>, mem)
           }
       }
     })"

end
