(* ===== verification/Slab_Size.thy ===== *)
theory Slab_Size
  imports Slab
begin

text \<open>
  The group of a size: the smallest power of two that holds it.
\<close>

lemma takeWhile_upt:
  assumes "k < n" "P k" "\<And>i. i < k \<Longrightarrow> \<not> P i"
  shows "length (takeWhile (\<lambda>i. \<not> P i) [0..<n]) = k"
proof -
  have "[0..<n] = [0..<k] @ k # [Suc k..<n]" using assms(1) upt_add_eq_append[of 0 k "n - k"] by (simp add: upt_conv_Cons)
  moreover have "takeWhile (\<lambda>i. \<not> P i) ([0..<k] @ k # [Suc k..<n]) = [0..<k]"
    using assms(2,3) by (subst takeWhile_append2) auto
  ultimately show ?thesis by simp
qed

text \<open>The most significant bit is the logarithm, rounded down.\<close>

lemma bit_msb_bounds:
  fixes w :: u64
  assumes "w \<noteq> 0"
  shows "\<exists>m < 64. st_bit_msb w = int m \<and> 2 ^ m \<le> unat w \<and> unat w < 2 ^ (m + 1)"
proof -
  have fin: "finite {n. bit w n}" by (rule finite_subset[of _ "{..<64}"]) (auto dest: bit_imp_le_length)
  have ne: "{n. bit w n} \<noteq> {}" using assms by (auto simp: bit_eq_iff)
  define m where "m = Max {n. bit w n}"
  have m: "bit w m" using Max_in[OF fin ne] by (simp add: m_def)
  have top: "\<not> bit w n" if "m < n" for n using Max_ge[OF fin, of n] that unfolding m_def[symmetric] by auto
  have m64: "m < 64" using bit_imp_le_length[OF m] by simp
  have "length (takeWhile (\<lambda>i. \<not> bit w (63 - i)) [0..<64]) = 63 - m"
    by (rule takeWhile_upt[where P = "\<lambda>i. bit w (63 - i)"]) (use m m64 top in auto)
  then have msb: "st_bit_msb w = int m" using assms m64 by (simp add: st_bit_msb_def st_bit_clz_def builtin_clzl_def)
  have "take_bit (m + 1) w = w" 
  proof (rule bit_word_eqI)
    fix n show "bit (take_bit (m + 1) w) n = bit w n" using top[of n] by (cases "m < n") (simp_all add: bit_take_bit_iff)
  qed
  then have "take_bit (m + 1) (unat w) = unat w" by (metis unsigned_take_bit_eq)
  then have lt: "unat w < 2 ^ (m + 1)" by (metis take_bit_nat_less_exp)
  have "bit (unat w) m" using m by (simp add: bit_unsigned_iff)
  then have "take_bit m (unat w) \<noteq> unat w" by (metis bit_take_bit_iff less_irrefl)
  then have "2 ^ m \<le> unat w" by (metis take_bit_nat_eq_self not_less)
  with lt m64 msb show ?thesis by blast
qed

lemma size_to_index_ok:
  fixes w :: u64
  assumes "0 < w"
  shows "\<exists>i. st_slab_size_to_index w = Inr (int i) \<and> 3 \<le> i \<and> i \<le> 12 \<and>
    (unat w \<le> 2048 \<longrightarrow> i \<le> 11 \<and> unat w \<le> 2 ^ i \<and> (3 < i \<longrightarrow> 2 ^ (i - 1) < unat w)) \<and> (2048 < unat w \<longrightarrow> i = 12)"
proof -
  have c: "w \<le> 8 \<longleftrightarrow> unat w \<le> 8" "w > 2048 \<longleftrightarrow> unat w > 2048" "\<not> w = 0"
    using assms by (auto simp: word_le_nat_alt word_less_nat_alt)
  consider "unat w \<le> 8" | "unat w > 2048" | (mid) "8 < unat w" "unat w \<le> 2048" by linarith
  then show ?thesis
  proof cases
    case mid
    have u: "unat (w - 1) = unat w - 1" using c(3) by (metis unat_minus_one)
    then have "w - 1 \<noteq> 0" using mid by (auto simp: unat_eq_0[symmetric] simp del: unat_eq_0)
    then obtain m where m: "st_bit_msb (w - 1) = int m" "2 ^ m \<le> unat w - 1" "unat w - 1 < 2 ^ (m + 1)"
      using bit_msb_bounds[of "w - 1"] u by auto
    have "m < 11"
    proof (rule ccontr)
      assume "\<not> m < 11"
      then have "(2::nat) ^ 11 \<le> 2 ^ m" by (intro power_increasing) auto
      then show False using m(2) mid by simp
    qed
    moreover have "2 < m"
    proof (rule ccontr)
      assume "\<not> 2 < m"
      then have "(2::nat) ^ (m + 1) \<le> 2 ^ 3" by (intro power_increasing) auto
      then show False using m(3) mid by simp
    qed
    moreover have "st_slab_size_to_index w = Inr (int (m + 1))"
      using mid c assms m(1) by (simp add: st_slab_size_to_index_def slab_consts)
    moreover have "unat w \<le> 2 ^ (m + 1)" "2 ^ m < unat w" using m(2,3) mid by auto
    ultimately show ?thesis using mid by (intro exI[of _ "m + 1"]) auto
  qed (use c assms in \<open>auto simp: st_slab_size_to_index_def slab_consts intro!: exI[of _ 3] exI[of _ 12]\<close>)
qed

end
