(* ===== verification/Slab_Inv.thy ===== *)
theory Slab_Inv
  imports Slab_Size
begin

text \<open>
  The invariant of the slab allocator: which runs of pages are slabs of which group, in which list
  they are, and what their descriptors say about their objects.
\<close>

section \<open>Writes to descriptors in use\<close>

text \<open>The fields that belong to the page pool.\<close>

definition pool_fields :: "pages \<Rightarrow> pages \<Rightarrow> bool" where
  "pool_fields m m' \<longleftrightarrow> (\<forall>x. pg_region (m' x) = pg_region (m x) \<and> pg_state (m' x) = pg_state (m x) \<and>
     pg_type (m' x) = pg_type (m x) \<and> page_cnt m' x = page_cnt m x)"

lemma pool_fields_refl [simp]: "pool_fields m m"
  by (simp add: pool_fields_def)

lemma pool_fields_trans: "pool_fields m m' \<Longrightarrow> pool_fields m' m'' \<Longrightarrow> pool_fields m m''"
  by (simp add: pool_fields_def)

lemma run_set_fields: "pool_fields (pm_pages mem) (pm_pages mem') \<Longrightarrow> run_set pool mem' f = run_set pool mem f"
  by (simp add: run_set_def pool_fields_def)

lemma layout_fields: "pool_fields m m' \<Longrightarrow> layout m' r p bs = layout m r p bs"
  by (induction m r p bs rule: layout.induct) (simp_all add: run_at_def pool_fields_def Let_def)

lemma pool_good_fields:
  assumes "pool_good (pool, mem)" "pool_fields (pm_pages mem) (pm_pages mem')" "pm_rb mem' = pm_rb mem"
    "\<And>p n. (p, n) \<in> free_runs pool mem \<Longrightarrow> pm_list mem' (page_ln p) = pm_list mem (page_ln p)"
  shows "pool_good (pool, mem')"
proof -
  obtain L where L: "pool_desc pool mem L" and g: "pool_geometry pool"
    using assms(1) by (auto simp: pool_good_def pool_inv_def)
  have "described (set (pool_regions pool)) (region_pages pool) (pm_pages mem') L"
    using L layout_fields[OF assms(2)] by (simp add: pool_desc_def described_def)
  moreover have "free_index pool mem' (all_pages pool) (fst ` free_runs pool mem')"
    unfolding run_set_fields[OF assms(2)]
    by (rule free_index_cong[of pool mem]) (use L assms(2-4) in \<open>auto simp: pool_desc_def pool_fields_def\<close>)
  ultimately have "pool_desc pool mem' L" using L by (simp add: pool_desc_def)
  then show ?thesis using g by (auto simp: pool_good_def pool_inv_def)
qed

lemma data_area_fields:
  "pool_fields (pm_pages mem) (pm_pages mem') \<Longrightarrow> data_area (pool, mem') p n = data_area (pool, mem) p n"
  by (simp add: data_area_def st_pagepool_page_to_addr_def pool_fields_def Let_def)

lemma page_to_addr_fields:
  "pool_fields m m' \<Longrightarrow> st_pagepool_page_to_addr pool m' p = st_pagepool_page_to_addr pool m p"
  by (simp add: st_pagepool_page_to_addr_def pool_fields_def Let_def)

section \<open>The lists of slabs\<close>

definition slab_indices :: "nat set" where
  "slab_indices = {3..<13}"

definition slab_head :: "addr \<Rightarrow> bool \<Rightarrow> addr" where
  "slab_head ga full = (if full then slabs_full ga else slabs_partial ga)"

lemma slab_head_simps [simp]: "slab_head ga True = slabs_full ga" "slab_head ga False = slabs_partial ga"
  by (simp_all add: slab_head_def)

text \<open>\<open>Q i full\<close> are the slabs of group \<open>i\<close> in its list of full or of partial slabs.\<close>

type_synonym slabs = "nat \<Rightarrow> bool \<Rightarrow> addr list"

definition upd_slabs :: "slabs \<Rightarrow> nat \<Rightarrow> bool \<Rightarrow> addr list \<Rightarrow> slabs" where
  "upd_slabs Q i b xs = Q(i := (Q i)(b := xs))"

lemma upd_slabs_simps [simp]:
  "upd_slabs Q i b xs i b = xs" "i' \<noteq> i \<or> b' \<noteq> b \<Longrightarrow> upd_slabs Q i b xs i' b' = Q i' b'"
  "upd_slabs Q i b (Q i b) = Q"
  "upd_slabs (upd_slabs Q i b xs) i b ys = upd_slabs Q i b ys"
  by (auto simp: upd_slabs_def)

definition masters :: "slabs \<Rightarrow> addr set" where
  "masters Q = (\<Union>i \<in> slab_indices. \<Union>b. set (Q i b))"

definition head_at :: "addr \<Rightarrow> nat \<Rightarrow> bool \<Rightarrow> addr" where
  "head_at base i b = slab_head (base + sizeof_group * i) b"

lemma head_at_inj [simp]: "head_at base i b = head_at base i' b' \<longleftrightarrow> i = i' \<and> b = b'"
proof
  assume "head_at base i b = head_at base i' b'"
  then have "160 * i + (if b then 72 else 88) = 160 * i' + (if b' then 72 else 88)"
    by (simp add: head_at_def slab_head_def slabs_full_def slabs_partial_def sizeof_group_def split: if_splits)
  then have "(160 * i + (if b then 72 else 88)) div 160 = (160 * i' + (if b' then 72 else 88)) div 160"
    "(160 * i + (if b then 72 else 88)) mod 160 = (160 * i' + (if b' then 72 else 88)) mod 160" by (simp_all only:)
  then show "i = i' \<and> b = b'" by (simp split: if_splits)
qed simp

definition heads_of :: "addr \<Rightarrow> addr set" where
  "heads_of base = {head_at base i b | i b. i \<in> slab_indices}"

definition lists_ok :: "addr \<Rightarrow> lmem \<Rightarrow> slabs \<Rightarrow> bool" where
  "lists_ok base ln Q \<longleftrightarrow> (\<forall>i \<in> slab_indices. \<forall>b. clist ln (head_at base i b) (map page_ln (Q i b)))"

definition apart_slabs :: "slabs \<Rightarrow> bool" where
  "apart_slabs Q \<longleftrightarrow> (\<forall>i \<in> slab_indices. \<forall>j \<in> slab_indices. \<forall>b c. (i, b) \<noteq> (j, c) \<longrightarrow> set (Q i b) \<inter> set (Q j c) = {})"

lemma apart_slabsD:
  "apart_slabs Q \<Longrightarrow> i \<in> slab_indices \<Longrightarrow> j \<in> slab_indices \<Longrightarrow> (i, b) \<noteq> (j, c) \<Longrightarrow> set (Q i b) \<inter> set (Q j c) = {}"
  unfolding apart_slabs_def by metis

lemma masters_in: "i \<in> slab_indices \<Longrightarrow> set (Q i b) \<subseteq> masters Q"
  by (auto simp: masters_def)

text \<open>What an update of one list leaves alone.\<close>

lemma lists_update:
  assumes "lists_ok base ln Q" "i \<in> slab_indices" "clist ln' (head_at base i b) (map page_ln xs)"
    "\<And>a. a \<notin> insert (head_at base i b) (page_ln ` insert p (set (Q i b))) \<Longrightarrow> ln' a = ln a"
    "apart_slabs Q" "p \<notin> masters Q - set (Q i b)" "heads_of base \<inter> range page_ln \<inter> page_ln ` insert p (masters Q) = {}"
  shows "lists_ok base ln' (upd_slabs Q i b xs)"
  unfolding lists_ok_def
proof (intro ballI allI)
  fix j c assume j: "j \<in> slab_indices"
  show "clist ln' (head_at base j c) (map page_ln (upd_slabs Q i b xs j c))"
  proof (cases "j = i \<and> c = b")
    case True
    then show ?thesis using assms(3) by simp
  next
    case False
    have c: "clist ln (head_at base j c) (map page_ln (Q j c))" using assms(1) j by (simp add: lists_ok_def)
    have "ln' a = ln a" if a: "a \<in> set (head_at base j c # map page_ln (Q j c))" for a
    proof (rule assms(4))
      have dj: "set (Q j c) \<inter> set (Q i b) = {}" using apart_slabsD[OF assms(5) j assms(2), of c b] False by auto
      have p: "p \<notin> set (Q j c)" using assms(6) dj masters_in[OF j, of Q c] by blast
      have "head_at base j c \<in> heads_of base" "head_at base i b \<in> heads_of base"
        using j assms(2) by (auto simp: heads_of_def)
      then have hd: "head_at base j c \<notin> page_ln ` insert p (set (Q i b))" "head_at base i b \<notin> page_ln ` set (Q j c)"
        using assms(7) masters_in[OF assms(2), of Q b] masters_in[OF j, of Q c] by blast+
      have ne: "head_at base j c \<noteq> head_at base i b" using False by simp
      consider "a = head_at base j c" | x where "a = page_ln x" "x \<in> set (Q j c)" using a by auto
      then show "a \<notin> insert (head_at base i b) (page_ln ` insert p (set (Q i b)))"
      proof cases
        case 1
        with hd(1) ne show ?thesis by simp
      next
        case 2
        have "x \<notin> insert p (set (Q i b))" using 2(2) p dj by auto
        moreover have "a \<noteq> head_at base i b" using 2 hd(2) by (metis imageI)
        ultimately show ?thesis using 2(1) by auto
      qed
    qed
    from clist_frame[OF c this] show ?thesis using False by auto
  qed
qed

lemma lists_insert:
  assumes "lists_ok base ln Q" "i \<in> slab_indices" "apart_slabs Q" "p \<notin> masters Q"
    "heads_of base \<inter> page_ln ` insert p (masters Q) = {}"
  shows "\<exists>ln'. st_list_insert_last ln (head_at base i b) (page_ln p) = Some ln' \<and>
    lists_ok base ln' (upd_slabs Q i b (Q i b @ [p])) \<and>
    (\<forall>a. a \<notin> heads_of base \<union> page_ln ` insert p (masters Q) \<longrightarrow> ln' a = ln a)"
proof -
  have h: "head_at base i b \<in> heads_of base" using assms(2) by (auto simp: heads_of_def)
  have m: "set (Q i b) \<subseteq> masters Q" using masters_in[OF assms(2)] .
  have "clist ln (head_at base i b) (map page_ln (Q i b))" using assms(1,2) by (simp add: lists_ok_def)
  moreover have "page_ln p \<notin> set (head_at base i b # map page_ln (Q i b))" using assms(4,5) h m by auto
  ultimately obtain ln' where ln': "st_list_insert_last ln (head_at base i b) (page_ln p) = Some ln'"
    "clist ln' (head_at base i b) (map page_ln (Q i b) @ [page_ln p])"
    "\<forall>a. a \<notin> set (head_at base i b # page_ln p # map page_ln (Q i b)) \<longrightarrow> ln' a = ln a"
    using list_insert_last_clist[of ln "head_at base i b" "map page_ln (Q i b)" "page_ln p"] by auto
  have "lists_ok base ln' (upd_slabs Q i b (Q i b @ [p]))"
    by (rule lists_update[OF assms(1,2) _ _ assms(3), of _ _ _ p]) (use ln' assms(4,5) in auto)
  moreover have "\<forall>a. a \<notin> heads_of base \<union> page_ln ` insert p (masters Q) \<longrightarrow> ln' a = ln a"
  proof (intro allI impI, rule ln'(3)[rule_format])
    fix a assume "a \<notin> heads_of base \<union> page_ln ` insert p (masters Q)"
    then show "a \<notin> set (head_at base i b # page_ln p # map page_ln (Q i b))" using h m by auto
  qed
  ultimately show ?thesis using ln'(1) by blast
qed

lemma lists_remove:
  assumes "lists_ok base ln Q" "i \<in> slab_indices" "apart_slabs Q" "Q i b = xs @ p # ys"
    "heads_of base \<inter> page_ln ` masters Q = {}"
  shows "\<exists>ln'. st_list_remove ln (page_ln p) = Some ln' \<and> lists_ok base ln' (upd_slabs Q i b (xs @ ys)) \<and>
    (\<forall>a. a \<notin> heads_of base \<union> page_ln ` masters Q \<longrightarrow> ln' a = ln a)"
proof -
  have h: "head_at base i b \<in> heads_of base" using assms(2) by (auto simp: heads_of_def)
  have m: "set (Q i b) \<subseteq> masters Q" using masters_in[OF assms(2)] .
  then have p: "p \<in> masters Q" "p \<in> set (Q i b)" using assms(4) by auto
  have "clist ln (head_at base i b) (map page_ln xs @ page_ln p # map page_ln ys)"
    using assms(1,2,4) by (auto simp: lists_ok_def dest!: bspec[of _ _ i] spec[of _ b])
  then obtain ln' where ln': "st_list_remove ln (page_ln p) = Some ln'"
    "clist ln' (head_at base i b) (map page_ln xs @ map page_ln ys)"
    "\<forall>a. a \<notin> set (head_at base i b # map page_ln xs @ page_ln p # map page_ln ys) \<longrightarrow> ln' a = ln a"
    using list_remove_clist by blast
  have "lists_ok base ln' (upd_slabs Q i b (xs @ ys))"
    by (rule lists_update[OF assms(1,2) _ _ assms(3), of _ _ _ p]) (use ln' assms(4,5) p in \<open>auto simp: insert_absorb\<close>)
  moreover have "\<forall>a. a \<notin> heads_of base \<union> page_ln ` masters Q \<longrightarrow> ln' a = ln a"
  proof (intro allI impI, rule ln'(3)[rule_format])
    fix a assume "a \<notin> heads_of base \<union> page_ln ` masters Q"
    then show "a \<notin> set (head_at base i b # map page_ln xs @ page_ln p # map page_ln ys)" using h m p(1) assms(4) by auto
  qed
  ultimately show ?thesis using ln'(1) by blast
qed


section \<open>The invariant\<close>

text \<open>Page sizes, region starts and the first page of a region are aligned to a power of two.\<close>

definition page_aligned :: "st_pagepool \<Rightarrow> bool" where
  "page_aligned pool \<longleftrightarrow> (\<exists>k. pp_page_size pool = 2 ^ k \<and> 2 ^ k dvd int (rg_base_addr (pp_region_cb pool)) \<and>
     2 ^ k dvd rg_reg_size (pp_region_cb pool) \<and> 2 ^ k dvd pp_space_base_offset pool)"

definition group_ok :: "nat \<Rightarrow> st_slab_group \<Rightarrow> bool" where
  "group_ok i g \<longleftrightarrow> sg_inited g \<and> lock_free (sg_lock g) \<and> sg_page_pool g \<noteq> NULL \<and> sg_obj_size g = 2 ^ i"

definition slab_fixed :: "st_slab_pool \<Rightarrow> bool" where
  "slab_fixed sp \<longleftrightarrow> length (sl_groups sp) = 13 \<and> (\<forall>i \<in> slab_indices. group_ok i (sl_groups sp ! i)) \<and>
     sl_groups_at sp \<noteq> NULL \<and> heads_of (sl_groups_at sp) \<inter> region_area (pp_region_cb (sl_page_pool sp)) = {} \<and>
     page_aligned (sl_page_pool sp) \<and> 512 \<le> pp_page_size (sl_page_pool sp) \<and> pp_page_size (sl_page_pool sp) \<le> 2 ^ 31"

text \<open>The run of \<open>n\<close> pages at \<open>p\<close> is a slab of group \<open>i\<close>: it is in use, its pages know the group or the
  master, and its objects fit.\<close>

definition slab_page :: "addr \<Rightarrow> st_pagepool \<Rightarrow> page_mem \<Rightarrow> nat \<Rightarrow> addr \<Rightarrow> nat \<Rightarrow> bool" where
  "slab_page base pool mem i p n \<longleftrightarrow> (let m = pm_pages mem in
     (p, n) \<in> allocated_runs pool mem \<and> pg_master (m p) = base + sizeof_group * i \<and>
     (\<forall>x \<in> page_range p n. x \<noteq> p \<longrightarrow> pg_master (m x) = p) \<and> length (pg_bitmap (m p)) = 8 \<and>
     (if i = 12 then 2048 < pg_obj_size (m p) else pg_obj_size (m p) = 2 ^ i) \<and>
     pg_obj_size (m p) * int (slab_nbits (m p)) \<le> int n * pp_page_size pool)"

text \<open>A full slab has no free object; a partial one has both, or, where \<open>fresh\<close>, only free ones.\<close>

definition slab_bits :: "bool \<Rightarrow> bool \<Rightarrow> st_pagepool_page \<Rightarrow> bool" where
  "slab_bits full fresh pg \<longleftrightarrow>
     (if full then \<forall>j < slab_nbits pg. bm_bit (pg_bitmap pg) j
      else (\<exists>j < slab_nbits pg. \<not> bm_bit (pg_bitmap pg) j) \<and> (\<not> fresh \<longrightarrow> (\<exists>j < slab_nbits pg. bm_bit (pg_bitmap pg) j)))"

definition slab_desc :: "st_slab_pool \<Rightarrow> page_mem \<Rightarrow> slabs \<Rightarrow> addr set \<Rightarrow> bool" where
  "slab_desc sp mem Q Z \<longleftrightarrow> pool_good (sl_page_pool sp, mem) \<and> slab_fixed sp \<and>
     lists_ok (sl_groups_at sp) (pm_list mem) Q \<and>
     (\<forall>i \<in> slab_indices. \<forall>b. \<forall>p \<in> set (Q i b).
        (\<exists>n. slab_page (sl_groups_at sp) (sl_page_pool sp) mem i p n) \<and> slab_bits b (p \<in> Z) (pm_pages mem p))"

lemma slab_descD:
  assumes "slab_desc sp mem Q Z"
  shows "pool_good (sl_page_pool sp, mem)" "slab_fixed sp" "lists_ok (sl_groups_at sp) (pm_list mem) Q"
    "\<And>i b p. i \<in> slab_indices \<Longrightarrow> p \<in> set (Q i b) \<Longrightarrow>
      (\<exists>n. slab_page (sl_groups_at sp) (sl_page_pool sp) mem i p n) \<and> slab_bits b (p \<in> Z) (pm_pages mem p)"
  using assms by (auto simp: slab_desc_def)

lemma slab_pageD:
  assumes "slab_page base pool mem i p n"
  shows "(p, n) \<in> allocated_runs pool mem" "pg_master (pm_pages mem p) = base + sizeof_group * i"
    "\<And>x. x \<in> page_range p n \<Longrightarrow> x \<noteq> p \<Longrightarrow> pg_master (pm_pages mem x) = p" "length (pg_bitmap (pm_pages mem p)) = 8"
    "if i = 12 then 2048 < pg_obj_size (pm_pages mem p) else pg_obj_size (pm_pages mem p) = 2 ^ i"
    "pg_obj_size (pm_pages mem p) * int (slab_nbits (pm_pages mem p)) \<le> int n * pp_page_size pool"
  using assms by (auto simp: slab_page_def Let_def)

lemma slab_page_cong:
  assumes "slab_page base pool mem i p n" "(p, n) \<in> allocated_runs pool' mem'" "pp_page_size pool' = pp_page_size pool"
    "\<And>x. x \<in> page_range p n \<Longrightarrow> pm_pages mem' x = pm_pages mem x" "0 < n"
  shows "slab_page base pool' mem' i p n"
  using assms page_range_start[OF assms(5), of p] by (simp add: slab_page_def Let_def)

text \<open>The number of objects of a slab: one in the last group, 512 in the others.\<close>

lemma slab_page_nbits:
  assumes "slab_page base pool mem i p n" "i \<in> slab_indices"
  shows "slab_nbits (pm_pages mem p) = (if i = 12 then 1 else 512)" "0 < pg_obj_size (pm_pages mem p)"
proof -
  have "(2::int) ^ i \<le> 2 ^ 11" if "i \<noteq> 12" using assms(2) that by (intro power_increasing) (auto simp: slab_indices_def)
  then show "slab_nbits (pm_pages mem p) = (if i = 12 then 1 else 512)" "0 < pg_obj_size (pm_pages mem p)"
    using slab_pageD(5)[OF assms(1)]
    by (cases "i = 12"; simp add: slab_nbits_def is_huge_obj_pages_def slab_consts)+
qed

lemma masters_page:
  assumes "slab_desc sp mem Q Z" "p \<in> masters Q"
  shows "\<exists>i \<in> slab_indices. \<exists>b n. p \<in> set (Q i b) \<and> slab_page (sl_groups_at sp) (sl_page_pool sp) mem i p n"
proof -
  obtain i b where "i \<in> slab_indices" "p \<in> set (Q i b)" using assms(2) by (auto simp: masters_def)
  then show ?thesis using slab_descD(4)[OF assms(1), of i p b] by blast
qed

lemma group_addr_inj: "base + sizeof_group * i = base + sizeof_group * j \<longleftrightarrow> i = j"
  by (simp add: sizeof_group_def)

lemma slab_apart: "slab_desc sp mem Q Z \<Longrightarrow> apart_slabs Q"
  unfolding apart_slabs_def
proof (intro ballI allI impI)
  fix i j :: nat and b c :: bool assume d: "slab_desc sp mem Q Z" and ij: "i \<in> slab_indices" "j \<in> slab_indices" "(i, b) \<noteq> (j, c)"
  have "False" if p: "p \<in> set (Q i b)" "p \<in> set (Q j c)" for p
  proof -
    note pi = slab_descD(4)[OF d ij(1) p(1)] and pj = slab_descD(4)[OF d ij(2) p(2)]
    then have "i = j" using slab_pageD(2) group_addr_inj by metis
    moreover have "b = c" using pi pj by (auto simp: slab_bits_def split: if_splits)
    ultimately show False using ij(3) by simp
  qed
  then show "set (Q i b) \<inter> set (Q j c) = {}" by blast
qed

lemma in_all_pages_area:
  assumes "pool_base pool" "p \<in> all_pages pool" "d < sizeof_page"
  shows "p + d \<in> region_area (pp_region_cb pool)"
proof -
  let ?rcb = "pp_region_cb pool" and ?n = "region_pages pool"
  obtain r where r: "r \<in> set (pool_regions pool)" "p \<in> page_range r ?n" using assms(2) by (auto simp: all_pages_def region_space_def)
  obtain i where i: "i < nat (rg_reg_cnt ?rcb)" "r = region_addr ?rcb i"
    using pool_parts(4)[OF assms(1)] r(1) by (auto simp: busy_regions_def)
  obtain j where j: "j < ?n" "p = r + sizeof_page * j" using r(2) unfolding in_page_range by blast
  have "sizeof_page * Suc j \<le> sizeof_page * ?n" using j(1) by (intro mult_left_mono) auto
  then have "p + d < r + nat (rg_reg_size ?rcb)" using j(2) assms(3) pool_sizes(4)[OF assms(1)] by simp
  moreover have "Suc i * nat (rg_reg_size ?rcb) \<le> nat (rg_reg_cnt ?rcb) * nat (rg_reg_size ?rcb)"
    using i(1) by (intro mult_right_mono) auto
  ultimately show ?thesis using i(2) j(2) by (simp add: region_area_def region_addr_def)
qed

lemma pool_good_base: "pool_good (pool, mem) \<Longrightarrow> pool_base pool"
  by (auto simp: pool_good_def pool_inv_def pool_desc_def)

lemma heads_pages_apart:
  assumes "pool_good (sl_page_pool sp, mem)" "slab_fixed sp" "A \<subseteq> all_pages (sl_page_pool sp)"
  shows "heads_of (sl_groups_at sp) \<inter> page_ln ` A = {}"
proof -
  have "page_ln p \<in> region_area (pp_region_cb (sl_page_pool sp))" if "p \<in> A" for p
    using in_all_pages_area[OF pool_good_base[OF assms(1)], of p 112] assms(3) that by (auto simp: page_ln_def sizeof_page_def)
  then show ?thesis using assms(2) by (auto simp: slab_fixed_def)
qed

lemma masters_pages: "slab_desc sp mem Q Z \<Longrightarrow> masters Q \<subseteq> all_pages (sl_page_pool sp)"
proof
  fix p assume d: "slab_desc sp mem Q Z" and p: "p \<in> masters Q"
  obtain i n where "slab_page (sl_groups_at sp) (sl_page_pool sp) mem i p n" using masters_page[OF d p] by blast
  then show "p \<in> all_pages (sl_page_pool sp)" using slab_pageD(1) run_page by blast
qed

lemma slab_heads_apart: "slab_desc sp mem Q Z \<Longrightarrow> heads_of (sl_groups_at sp) \<inter> page_ln ` masters Q = {}"
  using heads_pages_apart masters_pages slab_descD(1,2) by metis

section \<open>Objects\<close>

definition slab_objs :: "st_pagepool \<Rightarrow> page_mem \<Rightarrow> addr \<Rightarrow> (addr \<times> nat) set" where
  "slab_objs pool mem p = (let pg = pm_pages mem p in
     case st_pagepool_page_to_addr pool (pm_pages mem) p of
       (_, None) \<Rightarrow> {}
     | (_, Some base) \<Rightarrow> {(base + j * nat (pg_obj_size pg), nat (pg_obj_size pg)) |j. j < slab_nbits pg \<and> bm_bit (pg_bitmap pg) j})"

text \<open>The objects in use.\<close>

definition live_objs :: "st_slab_pool \<Rightarrow> page_mem \<Rightarrow> slabs \<Rightarrow> (addr \<times> nat) set" where
  "live_objs sp mem Q = (\<Union>p \<in> masters Q. slab_objs (sl_page_pool sp) mem p)"


lemma slab_base:
  assumes "pool_good (pool, mem)" "(p, n) \<in> run_set pool mem f"
  shows "\<exists>base. st_pagepool_page_to_addr pool (pm_pages mem) p = (ST_OK, Some base) \<and>
    data_area (pool, mem) p n = {base ..< base + n * nat (pp_page_size pool)} \<and>
    (\<exists>r i. r \<in> set (pool_regions pool) \<and> p = r + sizeof_page * i \<and> i + n \<le> region_pages pool \<and> base = data_addr pool r i) \<and>
    base + n * nat (pp_page_size pool) < 2 ^ 64"
proof -
  have inv: "pool_inv pool mem" and geo: "pool_geometry pool" using assms(1) by (simp_all add: pool_good_def)
  obtain r i where r: "r \<in> set (pool_regions pool)" "p = r + sizeof_page * i" "i + n \<le> region_pages pool" "0 < n"
    using run_position[OF inv assms(2)] by blast
  have "st_pagepool_page_to_addr pool (pm_pages mem) p = (ST_OK, Some (data_addr pool r i))"
    using page_to_addr_ok[OF inv geo r(1), of i] r(2-4) by simp
  moreover have "data_addr pool r i + n * nat (pp_page_size pool) < 2 ^ 64"
    using data_in_region(2)[OF geo r(3), of r] region_bound(1)[OF pool_good_base[OF assms(1)] r(1)]
    by (simp flip: of_nat_less_iff[where 'a = int])
  ultimately show ?thesis using data_area_run[OF assms(1,2) r] r(1-3) by (intro exI[of _ "data_addr pool r i"]) auto
qed

lemma slab_objs_area:
  assumes "pool_good (pool, mem)" "slab_page base pool mem i p n" "(a, s) \<in> slab_objs pool mem p" "0 < pg_obj_size (pm_pages mem p)"
  shows "{a ..< a + s} \<subseteq> data_area (pool, mem) p n" "s = nat (pg_obj_size (pm_pages mem p))" "0 < s"
proof -
  obtain b0 where b0: "st_pagepool_page_to_addr pool (pm_pages mem) p = (ST_OK, Some b0)"
    "data_area (pool, mem) p n = {b0 ..< b0 + n * nat (pp_page_size pool)}"
    using slab_base[OF assms(1) slab_pageD(1)[OF assms(2)]] by blast
  obtain j where j: "j < slab_nbits (pm_pages mem p)" "a = b0 + j * s" and s: "s = nat (pg_obj_size (pm_pages mem p))"
    using assms(3) b0(1) by (auto simp: slab_objs_def Let_def)
  show "s = nat (pg_obj_size (pm_pages mem p))" "0 < s" using s assms(4) by simp_all
  have "s * slab_nbits (pm_pages mem p) \<le> n * nat (pp_page_size pool)"
    using slab_pageD(6)[OF assms(2)] assms(1,4) s
    by (simp add: pool_good_def pool_geometry_def flip: of_nat_le_iff[where 'a = int])
  moreover have "Suc j * s \<le> slab_nbits (pm_pages mem p) * s" using j(1) by (intro mult_right_mono) auto
  ultimately show "{a ..< a + s} \<subseteq> data_area (pool, mem) p n" unfolding b0(2) j(2) by (auto simp: mult.commute)
qed

lemma slab_objs_apart:
  assumes "(a, s) \<in> slab_objs pool mem p" "(a', s') \<in> slab_objs pool mem p" "(a, s) \<noteq> (a', s')"
  shows "{a ..< a + s} \<inter> {a' ..< a' + s'} = {}"
proof -
  let ?s = "nat (pg_obj_size (pm_pages mem p))"
  obtain b0 j j' where j: "a = b0 + j * ?s" "a' = b0 + j' * ?s" "s = ?s" "s' = ?s"
    using assms(1,2) by (auto simp: slab_objs_def Let_def split: prod.splits option.splits)
  then have "j \<noteq> j'" using assms(3) by auto
  then have "Suc j * ?s \<le> j' * ?s \<or> Suc j' * ?s \<le> j * ?s"
    using mult_le_mono1[of "Suc j" j' ?s] mult_le_mono1[of "Suc j'" j ?s] by (cases j j' rule: linorder_cases) auto
  then show ?thesis unfolding j by auto
qed

text \<open>Objects in use do not overlap.\<close>

lemma live_objs_apart:
  assumes "slab_desc sp mem Q Z" "(a, s) \<in> live_objs sp mem Q" "(a', s') \<in> live_objs sp mem Q" "(a, s) \<noteq> (a', s')"
  shows "{a ..< a + s} \<inter> {a' ..< a' + s'} = {}"
proof -
  let ?pool = "sl_page_pool sp"
  obtain p q where p: "p \<in> masters Q" "(a, s) \<in> slab_objs ?pool mem p" and q: "q \<in> masters Q" "(a', s') \<in> slab_objs ?pool mem q"
    using assms(2,3) by (auto simp: live_objs_def)
  show ?thesis
  proof (cases "p = q")
    case True
    then show ?thesis using slab_objs_apart[OF p(2)] q(2) assms(4) by blast
  next
    case False
    note good = slab_descD(1)[OF assms(1)]
    obtain i n where i: "i \<in> slab_indices" "slab_page (sl_groups_at sp) ?pool mem i p n" using masters_page[OF assms(1) p(1)] by blast
    obtain j k where j: "j \<in> slab_indices" "slab_page (sl_groups_at sp) ?pool mem j q k" using masters_page[OF assms(1) q(1)] by blast
    have "data_area (?pool, mem) p n \<inter> data_area (?pool, mem) q k = {}"
      using pool_runs_apart(2)[OF good slab_pageD(1)[OF i(2)] slab_pageD(1)[OF j(2)]] False by simp
    then show ?thesis
      using slab_objs_area(1)[OF good i(2) p(2) slab_page_nbits(2)[OF i(2,1)]] slab_objs_area(1)[OF good j(2) q(2) slab_page_nbits(2)[OF j(2,1)]]
      by blast
  qed
qed

section \<open>Frames\<close>

lemma slab_objs_cong:
  "pm_pages mem' p = pm_pages mem p \<Longrightarrow> same_pool pool pool' \<Longrightarrow> slab_objs pool' mem' p = slab_objs pool mem p"
  by (simp add: slab_objs_def st_pagepool_page_to_addr_def same_pool_def Let_def)

lemma slab_fixed_pool: "slab_fixed sp \<Longrightarrow> same_pool (sl_page_pool sp) pool' \<Longrightarrow> slab_fixed (sp\<lparr>sl_page_pool := pool'\<rparr>)"
  by (auto simp: slab_fixed_def same_pool_def page_aligned_def same_layout_def region_area_def)

lemma slab_desc_group:
  assumes "slab_desc sp mem Q Z" "group_ok i g"
  shows "slab_desc (sp\<lparr>sl_groups := (sl_groups sp)[i := g]\<rparr>) mem Q Z"
    "live_objs (sp\<lparr>sl_groups := (sl_groups sp)[i := g]\<rparr>) mem Q = live_objs sp mem Q"
proof -
  have "group_ok j ((sl_groups sp)[i := g] ! j)" if "j \<in> slab_indices" for j
    using slab_descD(2)[OF assms(1)] assms(2) that by (cases "i = j") (auto simp: slab_fixed_def slab_indices_def)
  then show "slab_desc (sp\<lparr>sl_groups := (sl_groups sp)[i := g]\<rparr>) mem Q Z"
    using assms(1) by (simp add: slab_desc_def slab_fixed_def)
  show "live_objs (sp\<lparr>sl_groups := (sl_groups sp)[i := g]\<rparr>) mem Q = live_objs sp mem Q" by (simp add: live_objs_def)
qed

text \<open>The pool changes outside the slabs.\<close>

lemma slab_desc_pool:
  assumes "slab_desc sp mem Q Z" "pool_good (pool', mem')" "same_pool (sl_page_pool sp) pool'"
    "\<And>i p n. slab_page (sl_groups_at sp) (sl_page_pool sp) mem i p n \<Longrightarrow> p \<in> masters Q \<Longrightarrow>
      (p, n) \<in> allocated_runs pool' mem' \<and> (\<forall>x \<in> page_range p n. pm_pages mem' x = pm_pages mem x)"
    "lists_ok (sl_groups_at sp) (pm_list mem') Q"
  shows "slab_desc (sp\<lparr>sl_page_pool := pool'\<rparr>) mem' Q Z"
    "live_objs (sp\<lparr>sl_page_pool := pool'\<rparr>) mem' Q = live_objs sp mem Q"
proof -
  have inv: "pool_inv (sl_page_pool sp) mem" using slab_descD(1)[OF assms(1)] by (simp add: pool_good_def)
  have keep: "\<exists>n. slab_page (sl_groups_at sp) pool' mem' i p n \<and> pm_pages mem' p = pm_pages mem p"
    if ip: "i \<in> slab_indices" "p \<in> set (Q i b)" for i b p
  proof -
    obtain n where n: "slab_page (sl_groups_at sp) (sl_page_pool sp) mem i p n" using slab_descD(4)[OF assms(1) ip] by blast
    have n0: "0 < n" using run_position[OF inv slab_pageD(1)[OF n]] by blast
    have "p \<in> masters Q" using ip masters_in by blast
    note a = assms(4)[OF n this]
    have "slab_page (sl_groups_at sp) pool' mem' i p n"
      by (rule slab_page_cong[OF n]) (use a assms(3) n0 in \<open>auto simp: same_pool_def\<close>)
    then show ?thesis using a page_range_start[OF n0, of p] by blast
  qed
  show "slab_desc (sp\<lparr>sl_page_pool := pool'\<rparr>) mem' Q Z" unfolding slab_desc_def
  proof (intro conjI ballI allI)
    show "slab_fixed (sp\<lparr>sl_page_pool := pool'\<rparr>)" using slab_fixed_pool slab_descD(2)[OF assms(1)] assms(3) by blast
    fix i b p assume ip: "i \<in> slab_indices" "p \<in> set (Q i b)"
    show "\<exists>n. slab_page (sl_groups_at (sp\<lparr>sl_page_pool := pool'\<rparr>)) (sl_page_pool (sp\<lparr>sl_page_pool := pool'\<rparr>)) mem' i p n"
      using keep[OF ip] by auto
    show "slab_bits b (p \<in> Z) (pm_pages mem' p)" using keep[OF ip] slab_descD(4)[OF assms(1) ip] by auto
  qed (use assms(2,5) in simp_all)
  have "slab_objs pool' mem' p = slab_objs (sl_page_pool sp) mem p" if p: "p \<in> masters Q" for p
  proof -
    obtain i b where "i \<in> slab_indices" "p \<in> set (Q i b)" using p by (auto simp: masters_def)
    then show ?thesis using keep slab_objs_cong[OF _ assms(3)] by blast
  qed
  then show "live_objs (sp\<lparr>sl_page_pool := pool'\<rparr>) mem' Q = live_objs sp mem Q" by (simp add: live_objs_def)
qed

text \<open>One slab is added, moved, changed or taken out.\<close>

lemma slab_rewrite:
  assumes "slab_desc sp mem Q Z" "(p, n) \<in> allocated_runs (sl_page_pool sp) mem"
    and fields: "pool_fields (pm_pages mem) (pm_pages mem')" "pm_rb mem' = pm_rb mem"
      "\<And>x. x \<notin> page_range p n \<Longrightarrow> pm_pages mem' x = pm_pages mem x"
    and lists: "lists_ok (sl_groups_at sp) (pm_list mem') Q'"
      "\<And>a. a \<notin> heads_of (sl_groups_at sp) \<union> page_ln ` insert p (masters Q) \<Longrightarrow> pm_list mem' a = pm_list mem a"
    and others: "\<And>j b q. j \<in> slab_indices \<Longrightarrow> q \<noteq> p \<Longrightarrow> q \<in> set (Q' j b) \<longleftrightarrow> q \<in> set (Q j b)" "Z - {p} \<subseteq> Z'"
    and new: "\<And>j b. j \<in> slab_indices \<Longrightarrow> p \<in> set (Q' j b) \<Longrightarrow>
      slab_page (sl_groups_at sp) (sl_page_pool sp) mem' j p n \<and> slab_bits b (p \<in> Z') (pm_pages mem' p)"
  shows "slab_desc sp mem' Q' Z'"
    "live_objs sp mem' Q' = (\<Union>q \<in> masters Q - {p}. slab_objs (sl_page_pool sp) mem q) \<union>
      (if p \<in> masters Q' then slab_objs (sl_page_pool sp) mem' p else {})"
proof -
  let ?pool = "sl_page_pool sp"
  note good = slab_descD(1)[OF assms(1)]
  have inv: "pool_inv ?pool mem" using good by (simp add: pool_good_def)
  have area: "masters Q \<union> {p} \<subseteq> all_pages ?pool" using masters_pages[OF assms(1)] run_page[OF assms(2)] by auto
  have in_use: "q \<notin> insert p (masters Q)" if f: "(q, k) \<in> free_runs ?pool mem" for q k
  proof
    assume "q \<in> insert p (masters Q)"
    then obtain k' where "(q, k') \<in> allocated_runs ?pool mem" using assms(2) masters_page[OF assms(1)] slab_pageD(1) by blast
    then show False using f by (simp add: run_set_def)
  qed
  have good': "pool_good (?pool, mem')"
  proof (rule pool_good_fields[OF good fields(1,2)])
    fix q k assume f: "(q, k) \<in> free_runs ?pool mem"
    then have "page_ln q \<notin> heads_of (sl_groups_at sp)"
      using heads_pages_apart[OF good slab_descD(2)[OF assms(1)], of "{q}"] run_page[OF f] by auto
    then show "pm_list mem' (page_ln q) = pm_list mem (page_ln q)" using in_use[OF f] by (intro lists(2)) auto
  qed
  have rs: "run_set ?pool mem' f = run_set ?pool mem f" for f using run_set_fields[OF fields(1)] .
  have keep: "\<exists>k. slab_page (sl_groups_at sp) ?pool mem' j q k \<and> pm_pages mem' q = pm_pages mem q"
    if jq: "j \<in> slab_indices" "q \<in> set (Q j b)" "q \<noteq> p" for j b q
  proof -
    obtain k where k: "slab_page (sl_groups_at sp) ?pool mem j q k" using slab_descD(4)[OF assms(1) jq(1,2)] by blast
    have k0: "0 < k" using run_position[OF inv slab_pageD(1)[OF k]] by blast
    have "page_range q k \<inter> page_range p n = {}" using pool_runs_apart(1)[OF good slab_pageD(1)[OF k] assms(2)] jq(3) by simp
    then have same: "pm_pages mem' x = pm_pages mem x" if "x \<in> page_range q k" for x using fields(3) that by blast
    have "slab_page (sl_groups_at sp) ?pool mem' j q k"
      by (rule slab_page_cong[OF k]) (use slab_pageD(1)[OF k] rs k0 same in simp_all)
    then show ?thesis using same page_range_start[OF k0, of q] by blast
  qed
  show "slab_desc sp mem' Q' Z'" unfolding slab_desc_def
  proof (intro conjI ballI allI)
    fix j b q assume jq: "j \<in> slab_indices" "q \<in> set (Q' j b)"
    have "(\<exists>k. slab_page (sl_groups_at sp) ?pool mem' j q k) \<and> slab_bits b (q \<in> Z') (pm_pages mem' q)"
    proof (cases "q = p")
      case True
      then show ?thesis using new jq by blast
    next
      case False
      then have q: "q \<in> set (Q j b)" using others(1)[OF jq(1)] jq(2) by blast
      have "slab_bits b (q \<in> Z) (pm_pages mem q)" using slab_descD(4)[OF assms(1) jq(1) q] by blast
      moreover have "q \<in> Z \<longrightarrow> q \<in> Z'" using others(2) False by blast
      ultimately have "slab_bits b (q \<in> Z') (pm_pages mem q)" by (auto simp: slab_bits_def split: if_splits)
      then show ?thesis using keep[OF jq(1) q False] by auto
    qed
    then show "\<exists>k. slab_page (sl_groups_at sp) ?pool mem' j q k" "slab_bits b (q \<in> Z') (pm_pages mem' q)" by blast+
  qed (use good' slab_descD(2)[OF assms(1)] lists(1) in simp_all)
  have "q \<in> masters Q' \<longleftrightarrow> q \<in> masters Q" if "q \<noteq> p" for q using others(1)[OF _ that] by (simp add: masters_def)
  then have "masters Q' - {p} = masters Q - {p}" by blast
  moreover have "slab_objs ?pool mem' q = slab_objs ?pool mem q" if q: "q \<in> masters Q - {p}" for q
  proof -
    obtain j b where "j \<in> slab_indices" "q \<in> set (Q j b)" "q \<noteq> p" using q by (auto simp: masters_def)
    then show ?thesis using keep[of j q b] slab_objs_cong[of mem' q mem ?pool ?pool] by auto
  qed
  ultimately show "live_objs sp mem' Q' = (\<Union>q \<in> masters Q - {p}. slab_objs ?pool mem q) \<union>
      (if p \<in> masters Q' then slab_objs ?pool mem' p else {})"
    unfolding live_objs_def by (cases "p \<in> masters Q'") auto
qed

end
