(* ===== verification/Slab_Alloc.thy ===== *)
theory Slab_Alloc
  imports Slab_Inv
begin

text \<open>
  Allocation of objects: a group without room gets a new slab from the page pool, then an object of
  the last partial slab is marked.
\<close>

section \<open>Marking the pages of a slab\<close>

lemma page_range_tail: "0 < n \<Longrightarrow> page_range (p + sizeof_page) (n - 1) = page_range p n - {p}"
proof -
  assume "0 < n"
  then obtain k where n: "n = 1 + k" by (metis Suc_pred' plus_1_eq_Suc)
  have "page_range p n = page_range p 1 \<union> page_range (p + sizeof_page) k" unfolding n page_range_add by simp
  moreover have "page_range p 1 = {p}" by (auto simp: page_range_def)
  moreover have "p \<notin> page_range (p + sizeof_page) k" by (auto simp: in_page_range sizeof_page_def)
  ultimately show ?thesis using n by auto
qed

lemma mark_pages_apply:
  assumes "page_cnt m p = int n" "0 < n"
  shows "mark_pages m p gv sv x = (if x = p then (m x)\<lparr>pg_master := gv\<rparr>
    else if x \<in> page_range p n then (m x)\<lparr>pg_master := sv\<rparr> else m x)"
proof -
  have "page_add p 1 = p + sizeof_page" using page_add_nat[of p 1] by simp
  then show ?thesis using assms page_range_tail[OF assms(2), of p]
    by (simp add: mark_pages_def Let_def for_pages_id nat_diff_distrib)
qed

lemma mark_pages_fields:
  assumes "page_cnt m p = int n" "0 < n"
  shows "pool_fields m (mark_pages m p gv sv)"
  using mark_pages_apply[of m p n, OF assms] by (simp add: pool_fields_def)

section \<open>The page pool under the slabs\<close>

text \<open>
  The nodes of the allocators: the heads of the lists of slabs, the sentinel of the free tree and
  the descriptors at the start of every region.  Operations touch no other node.
\<close>

definition desc_area :: "st_pagepool \<Rightarrow> addr set" where
  "desc_area pool = (\<Union>i < nat (rg_reg_cnt (pp_region_cb pool)).
     {region_addr (pp_region_cb pool) i ..< region_addr (pp_region_cb pool) i + sizeof_page * region_pages pool})"

definition slab_meta :: "st_slab_pool \<Rightarrow> addr set" where
  "slab_meta sp = heads_of (sl_groups_at sp) \<union> {rt_sentinel (pp_free_pages (sl_page_pool sp))} \<union> desc_area (sl_page_pool sp)"

definition outside :: "addr set \<Rightarrow> page_mem \<Rightarrow> page_mem \<Rightarrow> bool" where
  "outside F mem mem' \<longleftrightarrow> (\<forall>x. x \<notin> F \<longrightarrow> pm_list mem' x = pm_list mem x \<and> pm_rb mem' x = pm_rb mem x)"

lemma outside_refl [simp]: "outside F mem mem"
  by (simp add: outside_def)

lemma outside_trans [trans]: "outside F m1 m2 \<Longrightarrow> outside F m2 m3 \<Longrightarrow> outside F m1 m3"
  by (simp add: outside_def)

lemma in_desc_area:
  assumes "pool_base pool" "p \<in> all_pages pool" "d < sizeof_page"
  shows "p + d \<in> desc_area pool"
proof -
  let ?rcb = "pp_region_cb pool" and ?n = "region_pages pool"
  obtain r where r: "r \<in> set (pool_regions pool)" "p \<in> page_range r ?n" using assms(2) by (auto simp: all_pages_def region_space_def)
  obtain i where i: "i < nat (rg_reg_cnt ?rcb)" "r = region_addr ?rcb i"
    using pool_parts(4)[OF assms(1)] r(1) by (auto simp: busy_regions_def)
  obtain j where j: "j < ?n" "p = r + sizeof_page * j" using r(2) unfolding in_page_range by blast
  have "sizeof_page * Suc j \<le> sizeof_page * ?n" using j(1) by (intro mult_left_mono) auto
  then have "p + d < r + sizeof_page * ?n" using j(2) assms(3) by simp
  then show ?thesis unfolding desc_area_def using i j(2) by (intro UN_I[of i]) auto
qed

lemma same_pool_desc: "same_pool pool pool' \<Longrightarrow> desc_area pool' = desc_area pool"
  by (simp add: desc_area_def same_pool_def same_layout_def region_addr_def)

lemma slab_meta_pool:
  "same_pool (sl_page_pool sp) pool' \<Longrightarrow> slab_meta (sp\<lparr>sl_page_pool := pool'\<rparr>) = slab_meta sp"
  "slab_meta (sp\<lparr>sl_groups := gs\<rparr>) = slab_meta sp"
  using same_pool_desc[of "sl_page_pool sp" pool'] by (simp_all add: slab_meta_def same_pool_def)

lemma page_nodes_meta:
  assumes "pool_base pool'" "P \<subseteq> all_pages pool'" "same_pool (sl_page_pool sp) pool'"
  shows "page_ln ` P \<subseteq> slab_meta sp" "page_rb ` P \<subseteq> slab_meta sp"
  using in_desc_area[OF assms(1), of _ 112] in_desc_area[OF assms(1), of _ 80] assms(2) same_pool_desc[OF assms(3)]
  by (auto simp: slab_meta_def page_ln_def page_rb_def sizeof_page_def)

lemma keeps_outside:
  assumes "keeps P A (rt_sentinel (pp_free_pages (sl_page_pool sp))) mem mem'" "pool_base pool'" "P \<subseteq> all_pages pool'"
    "same_pool (sl_page_pool sp) pool'"
  shows "outside (slab_meta sp) mem mem'"
proof -
  have "rt_sentinel (pp_free_pages (sl_page_pool sp)) \<in> slab_meta sp" by (simp add: slab_meta_def)
  then show ?thesis using assms(1) page_nodes_meta[OF assms(2-4)] unfolding outside_def keeps_def by blast
qed

lemma lists_outside:
  assumes "pool_good (sl_page_pool sp, mem0)" "A \<subseteq> all_pages (sl_page_pool sp)"
    "\<And>a. a \<notin> heads_of (sl_groups_at sp) \<union> page_ln ` A \<Longrightarrow> ln a = pm_list mem a"
  shows "outside (slab_meta sp) mem (mem\<lparr>pm_pages := m, pm_list := ln\<rparr>)"
  unfolding outside_def
proof (intro allI impI conjI)
  fix x assume x: "x \<notin> slab_meta sp"
  then have "x \<notin> heads_of (sl_groups_at sp) \<union> page_ln ` A"
    using page_nodes_meta(1)[OF pool_good_base[OF assms(1)] assms(2) same_pool_refl] unfolding slab_meta_def by blast
  then show "pm_list (mem\<lparr>pm_pages := m, pm_list := ln\<rparr>) x = pm_list mem x" using assms(3) by simp
qed simp

lemma pool_alloc_step:
  assumes "pool_good (pool, mem)" "tmp \<notin> region_area (pp_region_cb pool)"
  shows "\<exists>ret r pool' mem'. st_pagepool_alloc_pages madvise_r t tmp pool mem (int c) = Some (ret, r, pool', mem') \<and>
    pool_good (pool', mem') \<and> same_pool pool pool' \<and>
    keeps (all_pages pool') (allocated_runs pool mem) (rt_sentinel (pp_free_pages pool)) mem mem' \<and>
    (if ret = ST_OK then \<exists>p. r = Some p \<and> 0 < c \<and> (p, c) \<notin> allocated_runs pool mem \<and>
        allocated_runs pool' mem' = insert (p, c) (allocated_runs pool mem)
     else ret \<in> {ST_OUT_OF_MEMORY, ST_ARG_INVALID} \<and> allocated_runs pool' mem' = allocated_runs pool mem)"
proof -
  have inv: "pool_inv pool mem" using assms(1) by (simp add: pool_good_def)
  obtain ret r pool' mem' where a: "st_pagepool_alloc_pages madvise_r t tmp pool mem (int c) = Some (ret, r, pool', mem')"
    "same_pool pool pool'" "keeps (all_pages pool') (allocated_runs pool mem) (rt_sentinel (pp_free_pages pool)) mem mem'"
    "if 0 < int c \<and> int c \<le> pp_pages_per_region pool then alloc_post pool mem (nat (int c)) ret r pool' mem'
     else ret = ST_ARG_INVALID \<and> r = None \<and> pool' = pool \<and> mem' = mem"
    using alloc_pages_ok[OF inv assms(2), of madvise_r t "int c"] by blast
  have tk: "pool_take c (pool, mem) r (pool', mem')"
    unfolding pool_take_def using assms(2) a(1) by (intro exI[of _ madvise_r] exI[of _ t] exI[of _ tmp] exI[of _ ret]) simp
  note ok = pool_take_ok[OF assms(1) tk]
  have "if ret = ST_OK then \<exists>p. r = Some p \<and> 0 < c \<and> (p, c) \<notin> allocated_runs pool mem \<and>
        allocated_runs pool' mem' = insert (p, c) (allocated_runs pool mem)
     else ret \<in> {ST_OUT_OF_MEMORY, ST_ARG_INVALID} \<and> allocated_runs pool' mem' = allocated_runs pool mem"
  proof (cases r)
    case None
    then have "ret \<in> {ST_OUT_OF_MEMORY, ST_ARG_INVALID}" using a(4) by (auto simp: alloc_post_def split: if_splits)
    then show ?thesis using ok(3) None by auto
  next
    case (Some p)
    then have "ret = ST_OK" "0 < c" using a(4) by (auto simp: alloc_post_def split: if_splits)
    then show ?thesis using ok(3) Some pool_take_fresh[OF assms(1), of c p pool' mem'] tk by simp
  qed
  then show ?thesis using a(1-3) ok(1) by (intro exI[of _ ret] exI[of _ r] exI[of _ pool'] exI[of _ mem']) simp
qed

text \<open>The lists of the slabs are not touched by the page pool.\<close>

lemma lists_keeps:
  assumes "slab_desc sp mem Q Z" "keeps P A s mem mem'" "pool_base pool'" "P \<subseteq> all_pages pool'"
    "region_area (pp_region_cb pool') = region_area (pp_region_cb (sl_page_pool sp))"
    "\<And>p n. p \<in> masters Q' \<Longrightarrow> (p, n) \<in> allocated_runs (sl_page_pool sp) mem \<Longrightarrow> (p, n) \<in> A"
    "masters Q' \<subseteq> masters Q" "lists_ok (sl_groups_at sp) (pm_list mem) Q'"
  shows "lists_ok (sl_groups_at sp) (pm_list mem') Q'"
  unfolding lists_ok_def
proof (intro ballI allI)
  fix i b assume i: "i \<in> slab_indices"
  have c: "clist (pm_list mem) (head_at (sl_groups_at sp) i b) (map page_ln (Q' i b))"
    using assms(8) i by (simp add: lists_ok_def)
  have "head_at (sl_groups_at sp) i b \<notin> page_ln ` P"
  proof
    assume "head_at (sl_groups_at sp) i b \<in> page_ln ` P"
    then obtain x where x: "x \<in> P" "head_at (sl_groups_at sp) i b = x + 112" by (auto simp: page_ln_def)
    have "x + 112 \<in> region_area (pp_region_cb pool')"
      using in_all_pages_area[OF assms(3), of x 112] x(1) assms(4) by (auto simp: sizeof_page_def)
    moreover have "head_at (sl_groups_at sp) i b \<in> heads_of (sl_groups_at sp)" using i by (auto simp: heads_of_def)
    ultimately show False using slab_descD(2)[OF assms(1)] assms(5) x(2) by (auto simp: slab_fixed_def)
  qed
  then have h: "pm_list mem' (head_at (sl_groups_at sp) i b) = pm_list mem (head_at (sl_groups_at sp) i b)"
    using assms(2) by (simp add: keeps_def)
  have n: "pm_list mem' (page_ln p) = pm_list mem (page_ln p)" if p: "p \<in> set (Q' i b)" for p
  proof -
    have pm: "p \<in> masters Q'" using p masters_in[OF i] by blast
    then obtain j n where "slab_page (sl_groups_at sp) (sl_page_pool sp) mem j p n" using masters_page[OF assms(1)] assms(7) by blast
    then have "(p, n) \<in> A" using assms(6)[OF pm] slab_pageD(1) by blast
    then show ?thesis using assms(2) by (auto simp: keeps_def)
  qed
  show "clist (pm_list mem') (head_at (sl_groups_at sp) i b) (map page_ln (Q' i b))"
    using c by (rule clist_frame) (use h n in auto)
qed

lemma same_pool_area: "same_pool pool pool' \<Longrightarrow> region_area (pp_region_cb pool') = region_area (pp_region_cb pool)"
  by (simp add: same_pool_def same_layout_addr)

lemma slab_after_alloc:
  assumes "slab_desc sp mem Q Z" "pool_good (pool', mem')" "same_pool (sl_page_pool sp) pool'"
    "keeps (all_pages pool') (allocated_runs (sl_page_pool sp) mem) s mem mem'"
    "allocated_runs (sl_page_pool sp) mem \<subseteq> allocated_runs pool' mem'"
  shows "slab_desc (sp\<lparr>sl_page_pool := pool'\<rparr>) mem' Q Z"
    "live_objs (sp\<lparr>sl_page_pool := pool'\<rparr>) mem' Q = live_objs sp mem Q"
proof -
  have l: "lists_ok (sl_groups_at sp) (pm_list mem') Q"
    using lists_keeps[OF assms(1,4) pool_good_base[OF assms(2)] subset_refl same_pool_area[OF assms(3)], of Q]
      slab_descD(3)[OF assms(1)] by blast
  have k: "(p, n) \<in> allocated_runs pool' mem' \<and> (\<forall>x \<in> page_range p n. pm_pages mem' x = pm_pages mem x)"
    if "slab_page (sl_groups_at sp) (sl_page_pool sp) mem i p n" "p \<in> masters Q" for i p n
  proof -
    have "(p, n) \<in> allocated_runs (sl_page_pool sp) mem" using slab_pageD(1)[OF that(1)] .
    then show ?thesis using assms(4,5) unfolding keeps_def by blast
  qed
  show "slab_desc (sp\<lparr>sl_page_pool := pool'\<rparr>) mem' Q Z"
    "live_objs (sp\<lparr>sl_page_pool := pool'\<rparr>) mem' Q = live_objs sp mem Q"
    by (rule slab_desc_pool[OF assms(1-3)]; rule k l; assumption)+
qed


section \<open>A new slab\<close>

text \<open>The size and the number of the objects of a slab of group \<open>i\<close>.\<close>

definition slab_class :: "nat \<Rightarrow> int \<Rightarrow> int \<Rightarrow> bool" where
  "slab_class i obj_size obj_cnt \<longleftrightarrow>
    (if i = 12 then 2048 < obj_size \<and> obj_size < 2 ^ 31 \<and> obj_cnt = 1 else obj_size = 2 ^ i \<and> obj_cnt = 512)"

lemma slab_class_bounds:
  assumes "slab_class i osz oc" "i \<in> slab_indices"
  shows "0 < osz" "0 < osz * oc" "osz * oc < 2 ^ 31" "osz < 2 ^ 31" "to_int32 osz = osz"
proof -
  have "(2::int) ^ i \<le> 2 ^ 11" if "i \<noteq> 12" using assms(2) that by (intro power_increasing) (auto simp: slab_indices_def)
  then show a: "0 < osz" "0 < osz * oc" "osz * oc < 2 ^ 31" "osz < 2 ^ 31" using assms(1) by (auto simp: slab_class_def split: if_splits)
  then show "to_int32 osz = osz" by (simp add: to_int32_def)
qed

lemma pages_needed:
  assumes "0 < x" "x < 2 ^ 31" "ps = 2 ^ k" "ps \<le> 2 ^ 31"
  shows "\<exists>c. 0 < c \<and> st_align x ps div ps = int c \<and> to_int32 (int c) = int c \<and> x \<le> int c * ps \<and> x + ps - 1 < 2 ^ 63"
proof -
  let ?q = "(x + 2 ^ k - 1) div 2 ^ k"
  have al: "st_align x ps div ps = ?q" unfolding assms(3) st_align_pow2_eq by simp
  have "2 ^ k * ?q + (x + 2 ^ k - 1) mod 2 ^ k = x + 2 ^ k - 1" by (rule mult_div_mod_eq)
  moreover have "(x + 2 ^ k - 1) mod 2 ^ k < 2 ^ k" by simp
  ultimately have le: "x \<le> ?q * 2 ^ k" unfolding mult.commute[of ?q] by linarith
  have "0 < ?q"
  proof (rule ccontr)
    assume "\<not> 0 < ?q"
    then have "?q * 2 ^ k \<le> 0" by (intro mult_nonpos_nonneg) auto
    then show False using le assms(1) by linarith
  qed
  moreover have "?q \<le> x"
  proof (rule ccontr)
    assume "\<not> ?q \<le> x"
    then have "(x + 1) * 2 ^ k \<le> ?q * 2 ^ k" by (intro mult_right_mono) auto
    moreover have "?q * 2 ^ k \<le> x + 2 ^ k - 1"
      using mult_div_mod_eq[of "2 ^ k" "x + 2 ^ k - 1"] pos_mod_sign[of "2 ^ k" "x + 2 ^ k - 1"] zero_less_power[of "2 :: int" k]
      unfolding mult.commute[of ?q] by linarith
    moreover have "x * 1 \<le> x * 2 ^ k" using assms(1) by (intro mult_left_mono) auto
    ultimately show False by (simp add: distrib_right)
  qed
  ultimately show ?thesis using al le assms by (intro exI[of _ "nat ?q"]) (simp add: to_int32_def)
qed


lemma run_nonnull:
  assumes "pool_good (pool, mem)" "(p, n) \<in> run_set pool mem f"
  shows "p \<noteq> NULL \<and> 0 < n \<and> page_cnt (pm_pages mem) p = int n"
proof -
  have inv: "pool_inv pool mem" using assms(1) by (simp add: pool_good_def)
  obtain r i where r: "r \<in> set (pool_regions pool)" "0 < n" "p = r + sizeof_page * i"
    using run_position[OF inv assms(2)] by blast
  have "r \<noteq> NULL" using r(1) pool_parts(5)[OF pool_good_base[OF assms(1)]] by metis
  then show ?thesis using assms(2) r(2,3) by (simp add: run_set_def)
qed

lemma group_ok_stat [simp]:
  "group_ok i (st_slab_update_pages_stat g a b) = group_ok i g" "group_ok i (st_slab_update_obj_stat g a b) = group_ok i g"
  by (simp_all add: group_ok_def st_slab_update_pages_stat_def st_slab_update_obj_stat_def Let_def)

lemma no_objs:
  "(\<And>j. j < slab_nbits (pm_pages mem p) \<Longrightarrow> \<not> bm_bit (pg_bitmap (pm_pages mem p)) j) \<Longrightarrow> slab_objs pool mem p = {}"
  by (auto simp: slab_objs_def Let_def split: prod.splits option.splits)

text \<open>The descriptors of a run that becomes a slab.\<close>

definition fresh_slab :: "pages \<Rightarrow> addr \<Rightarrow> addr \<Rightarrow> int \<Rightarrow> pages" where
  "fresh_slab m p ga obj_size = st_slab_set_pages_group_master
     (m(p := (m p)\<lparr>pg_bitmap := replicate ST_PAGEPOOL_MAX_SLAB_CHUNK_CNT 0, pg_obj_size := obj_size\<rparr>)) p ga"

lemma fresh_slab_apply:
  assumes "page_cnt m p = int n" "0 < n"
  shows "fresh_slab m p ga osz p = (m p)\<lparr>pg_bitmap := replicate 8 0, pg_obj_size := osz, pg_master := ga\<rparr>"
    "x \<in> page_range p n \<Longrightarrow> x \<noteq> p \<Longrightarrow> fresh_slab m p ga osz x = (m x)\<lparr>pg_master := p\<rparr>"
    "x \<notin> page_range p n \<Longrightarrow> fresh_slab m p ga osz x = m x" "pool_fields m (fresh_slab m p ga osz)"
proof -
  let ?m = "m(p := (m p)\<lparr>pg_bitmap := replicate 8 0, pg_obj_size := osz\<rparr>)"
  have fs: "fresh_slab m p ga osz = mark_pages ?m p ga p"
    by (simp add: fresh_slab_def st_slab_set_pages_group_master_def ST_PAGEPOOL_MAX_SLAB_CHUNK_CNT_def)
  have cnt: "page_cnt ?m p = int n" using assms(1) by simp
  note ap = mark_pages_apply[of ?m p n ga p, OF cnt assms(2)]
  show "fresh_slab m p ga osz p = (m p)\<lparr>pg_bitmap := replicate 8 0, pg_obj_size := osz, pg_master := ga\<rparr>"
    "x \<in> page_range p n \<Longrightarrow> x \<noteq> p \<Longrightarrow> fresh_slab m p ga osz x = (m x)\<lparr>pg_master := p\<rparr>"
    unfolding fs ap by simp_all
  show "fresh_slab m p ga osz x = m x" if "x \<notin> page_range p n"
    unfolding fs ap using that page_range_start[OF assms(2), of p] by auto
  show "pool_fields m (fresh_slab m p ga osz)" unfolding fs pool_fields_def ap by simp
qed

lemma slab_add:
  assumes "slab_desc sp mem Q {}" "i \<in> slab_indices" "(p, c) \<in> allocated_runs (sl_page_pool sp) mem" "p \<notin> masters Q"
    "slab_class i osz oc" "osz * oc \<le> int c * pp_page_size (sl_page_pool sp)"
  defines "m \<equiv> fresh_slab (pm_pages mem) p (sl_groups_at sp + sizeof_group * i) osz"
  shows "\<exists>ln. st_list_insert_last (pm_list mem) (slabs_partial (sl_groups_at sp + sizeof_group * i)) (page_ln p) = Some ln \<and>
    slab_desc sp (mem\<lparr>pm_pages := m, pm_list := ln\<rparr>) (upd_slabs Q i False (Q i False @ [p])) {p} \<and>
    live_objs sp (mem\<lparr>pm_pages := m, pm_list := ln\<rparr>) (upd_slabs Q i False (Q i False @ [p])) = live_objs sp mem Q \<and>
    pg_obj_size (m p) = osz \<and> outside (slab_meta sp) mem (mem\<lparr>pm_pages := m, pm_list := ln\<rparr>)"
proof -
  let ?pool = "sl_page_pool sp" and ?base = "sl_groups_at sp" and ?Q = "upd_slabs Q i False (Q i False @ [p])"
  note good = slab_descD(1)[OF assms(1)]
  have c: "0 < c" "page_cnt (pm_pages mem) p = int c" using run_nonnull[OF good assms(3)] by auto
  note ap = fresh_slab_apply[where m = "pm_pages mem" and p = p and n = c and ga = "?base + sizeof_group * i" and osz = osz,
    OF c(2,1), folded m_def]
  have sub: "insert p (masters Q) \<subseteq> all_pages ?pool" using masters_pages[OF assms(1)] run_page[OF assms(3)] by auto
  have apart: "heads_of ?base \<inter> page_ln ` insert p (masters Q) = {}"
    by (rule heads_pages_apart[OF good slab_descD(2)[OF assms(1)] sub])
  obtain ln where ln: "st_list_insert_last (pm_list mem) (head_at ?base i False) (page_ln p) = Some ln" "lists_ok ?base ln ?Q"
    "\<forall>a. a \<notin> heads_of ?base \<union> page_ln ` insert p (masters Q) \<longrightarrow> ln a = pm_list mem a"
    using lists_insert[OF slab_descD(3)[OF assms(1)] assms(2) slab_apart[OF assms(1)] assms(4) apart, of False] by blast
  let ?mem = "mem\<lparr>pm_pages := m, pm_list := ln\<rparr>"
  have nb: "slab_nbits (m p) = (if i = 12 then 1 else 512)" "pg_obj_size (m p) = osz"
  proof -
    have "(2::int) ^ i \<le> 2 ^ 11" if "i \<noteq> 12" using assms(2) that by (intro power_increasing) (auto simp: slab_indices_def)
    then show "slab_nbits (m p) = (if i = 12 then 1 else 512)" "pg_obj_size (m p) = osz"
      using assms(5) unfolding ap(1) by (auto simp: slab_nbits_def is_huge_obj_pages_def slab_consts slab_class_def split: if_splits)
  qed
  have bits: "\<not> bm_bit (pg_bitmap (m p)) j" if "j < slab_nbits (m p)" for j
    using that nb(1) unfolding ap(1) by (auto split: if_splits)
  have page: "slab_page ?base ?pool ?mem i p c"
    unfolding slab_page_def Let_def
  proof (intro conjI ballI impI)
    show "(p, c) \<in> allocated_runs ?pool ?mem" using assms(3) run_set_fields[of mem ?mem] ap(4) by simp
    show "pg_obj_size (pm_pages ?mem p) * int (slab_nbits (pm_pages ?mem p)) \<le> int c * pp_page_size ?pool"
      using assms(5,6) nb by (auto simp: slab_class_def split: if_splits)
  qed (use ap(1,2) assms(5) in \<open>auto simp: slab_class_def split: if_splits\<close>)
  have fresh: "slab_bits False True (pm_pages ?mem p)" using bits[of 0] nb(1) by (auto simp: slab_bits_def intro!: exI[of _ 0])
  have memb: "q \<in> set (?Q j b) \<longleftrightarrow> q \<in> set (Q j b)" if "q \<noteq> p" for j b q
    using that by (cases "j = i \<and> \<not> b") auto
  have here: "j = i \<and> \<not> b" if "j \<in> slab_indices" "p \<in> set (?Q j b)" for j b
    using that assms(4) masters_in[OF that(1), of Q b] by (cases "j = i \<and> \<not> b") auto
  have new: "slab_page ?base ?pool ?mem j p c \<and> slab_bits b (p \<in> {p}) (pm_pages ?mem p)" if "j \<in> slab_indices" "p \<in> set (?Q j b)" for j b
    using here[OF that] page fresh by simp
  have re: "slab_desc sp ?mem ?Q {p}" "live_objs sp ?mem ?Q = (\<Union>q \<in> masters Q - {p}. slab_objs ?pool mem q) \<union>
      (if p \<in> masters ?Q then slab_objs ?pool ?mem p else {})"
    by (rule slab_rewrite[OF assms(1,3), of ?mem ?Q "{p}"]; use ap(3,4) ln(2,3) memb new in simp)+
  have "slab_objs ?pool ?mem p = {}" using bits by (intro no_objs) simp
  then have "live_objs sp ?mem ?Q = live_objs sp mem Q" using re(2) assms(4) by (simp add: live_objs_def)
  moreover have "head_at ?base i False = slabs_partial (?base + sizeof_group * i)" by (simp add: head_at_def)
  moreover have "outside (slab_meta sp) mem ?mem" by (rule lists_outside[OF good sub]) (use ln(3) in blast)
  ultimately show ?thesis using ln(1) re(1) nb(2) by auto
qed

lemma fresh_run_no_master:
  assumes "slab_desc sp mem Q Z" "allocated_runs (sl_page_pool sp) mem \<subseteq> allocated_runs pool' mem'"
    "(p, c) \<in> allocated_runs pool' mem'" "(p, c) \<notin> allocated_runs (sl_page_pool sp) mem"
  shows "p \<notin> masters Q"
proof
  assume "p \<in> masters Q"
  then obtain j n where "slab_page (sl_groups_at sp) (sl_page_pool sp) mem j p n" using masters_page[OF assms(1)] by blast
  then have o: "(p, n) \<in> allocated_runs (sl_page_pool sp) mem" using slab_pageD(1) by blast
  then have "(p, n) \<in> allocated_runs pool' mem'" using assms(2) by blast
  then have "n = c" using assms(3) by (simp add: run_set_def)
  then show False using o assms(4) by simp
qed

text \<open>The page pool answers \<open>ret\<close> to the request for the pages of \<open>need\<close> bytes.\<close>

definition pool_answers :: "unit sys \<Rightarrow> pid \<Rightarrow> addr \<Rightarrow> st_pagepool \<Rightarrow> page_mem \<Rightarrow> int \<Rightarrow> st_error \<Rightarrow> bool" where
  "pool_answers madvise_r t tmp pool mem need ret \<longleftrightarrow> (\<exists>r pool' mem'. st_pagepool_alloc_pages madvise_r t tmp pool mem
     (st_align need (pp_page_size pool) div pp_page_size pool) = Some (ret, r, pool', mem'))"

lemma slab_alloc_pages_ok:
  assumes "slab_desc sp mem Q {}" "i \<in> slab_indices" "tmp \<notin> region_area (pp_region_cb (sl_page_pool sp))" "slab_class i osz oc"
    "group_ok i g"
  shows "\<exists>ret g' pool' mem'. st_slab_alloc_pages madvise_r t tmp (sl_groups_at sp + sizeof_group * i) g (sl_page_pool sp) mem osz oc =
      Some (ret, g', pool', mem') \<and> group_ok i g' \<and> same_pool (sl_page_pool sp) pool' \<and> outside (slab_meta sp) mem mem' \<and>
    (if ret = ST_OK then \<exists>p. p \<notin> masters Q \<and>
        slab_desc (sp\<lparr>sl_page_pool := pool'\<rparr>) mem' (upd_slabs Q i False (Q i False @ [p])) {p} \<and>
        live_objs (sp\<lparr>sl_page_pool := pool'\<rparr>) mem' (upd_slabs Q i False (Q i False @ [p])) = live_objs sp mem Q \<and>
        pg_obj_size (pm_pages mem' p) = osz
     else ret \<in> {ST_OUT_OF_MEMORY, ST_ARG_INVALID} \<and> slab_desc (sp\<lparr>sl_page_pool := pool'\<rparr>) mem' Q {} \<and>
        live_objs (sp\<lparr>sl_page_pool := pool'\<rparr>) mem' Q = live_objs sp mem Q \<and>
        pool_answers madvise_r t tmp (sl_page_pool sp) mem (osz * oc) ret)"
proof -
  let ?pool = "sl_page_pool sp" and ?ga = "sl_groups_at sp + sizeof_group * i"
  note good = slab_descD(1)[OF assms(1)]
  obtain k where ps: "pp_page_size ?pool = 2 ^ k" "pp_page_size ?pool \<le> 2 ^ 31"
    using slab_descD(2)[OF assms(1)] by (auto simp: slab_fixed_def page_aligned_def)
  note cb = slab_class_bounds[OF assms(4,2)]
  obtain c where c: "0 < c" "st_align (osz * oc) (pp_page_size ?pool) div pp_page_size ?pool = int c" "to_int32 (int c) = int c"
    "osz * oc \<le> int c * pp_page_size ?pool" "osz * oc + pp_page_size ?pool - 1 < 2 ^ 63"
    using pages_needed[OF cb(2,3) ps] by blast
  obtain ret r pool' mem' where a: "st_pagepool_alloc_pages madvise_r t tmp ?pool mem (int c) = Some (ret, r, pool', mem')"
    "pool_good (pool', mem')" "same_pool ?pool pool'"
    "keeps (all_pages pool') (allocated_runs ?pool mem) (rt_sentinel (pp_free_pages ?pool)) mem mem'"
    "if ret = ST_OK then \<exists>p. r = Some p \<and> 0 < c \<and> (p, c) \<notin> allocated_runs ?pool mem \<and>
        allocated_runs pool' mem' = insert (p, c) (allocated_runs ?pool mem)
     else ret \<in> {ST_OUT_OF_MEMORY, ST_ARG_INVALID} \<and> allocated_runs pool' mem' = allocated_runs ?pool mem"
    using pool_alloc_step[OF good assms(3), of madvise_r t c] by blast
  have mono: "allocated_runs ?pool mem \<subseteq> allocated_runs pool' mem'" using a(5) by (auto split: if_splits)
  let ?sp = "sp\<lparr>sl_page_pool := pool'\<rparr>"
  note desc = slab_after_alloc[OF assms(1) a(2-4) mono]
  have out: "outside (slab_meta sp) mem mem'" by (rule keeps_outside[OF a(4) pool_good_base[OF a(2)] subset_refl a(3)])
  have pre: "sg_page_pool g \<noteq> NULL" "pp_page_size ?pool \<noteq> 0" using assms(5) ps(1) by (simp_all add: group_ok_def)
  show ?thesis
  proof (cases "ret = ST_OK")
    case False
    then have "st_slab_alloc_pages madvise_r t tmp ?ga g ?pool mem osz oc = Some (ret, g, pool', mem')"
      using pre c(2,3,5) a(1) by (simp add: st_slab_alloc_pages_def)
    moreover have "pool_answers madvise_r t tmp ?pool mem (osz * oc) ret" unfolding pool_answers_def c(2) using a(1) by blast
    ultimately show ?thesis using False a(3,5) desc assms(5) out by auto
  next
    case True
    then obtain p where p: "r = Some p" "(p, c) \<notin> allocated_runs ?pool mem" "allocated_runs pool' mem' = insert (p, c) (allocated_runs ?pool mem)"
      using a(5) by auto
    have run: "(p, c) \<in> allocated_runs pool' mem'" using p(3) by simp
    have new: "p \<notin> masters Q" using fresh_run_no_master[OF assms(1) mono run p(2)] .
    have sp: "sl_page_pool ?sp = pool'" "sl_groups_at ?sp = sl_groups_at sp" by simp_all
    have psz: "osz * oc \<le> int c * pp_page_size (sl_page_pool ?sp)" using c(4) a(3) by (simp add: same_pool_def)
    let ?m = "fresh_slab (pm_pages mem') p ?ga osz"
    obtain ln where ln: "st_list_insert_last (pm_list mem') (slabs_partial ?ga) (page_ln p) = Some ln"
      "slab_desc ?sp (mem'\<lparr>pm_pages := ?m, pm_list := ln\<rparr>) (upd_slabs Q i False (Q i False @ [p])) {p}"
      "live_objs ?sp (mem'\<lparr>pm_pages := ?m, pm_list := ln\<rparr>) (upd_slabs Q i False (Q i False @ [p])) = live_objs ?sp mem' Q"
      "pg_obj_size (?m p) = osz" "outside (slab_meta ?sp) mem' (mem'\<lparr>pm_pages := ?m, pm_list := ln\<rparr>)"
      using slab_add[OF desc(1) assms(2) _ new assms(4) psz] run unfolding sp by blast
    have "p \<noteq> NULL" using run_nonnull[OF a(2) run] by blast
    then have "st_slab_alloc_pages madvise_r t tmp ?ga g ?pool mem osz oc =
        Some (ST_OK, st_slab_update_pages_stat g 1 0, pool', mem'\<lparr>pm_pages := ?m, pm_list := ln\<rparr>)"
      using pre c(2,3,5) a(1) True p(1) ln(1) cb(5) by (simp add: st_slab_alloc_pages_def fresh_slab_def upd_def)
    moreover have "outside (slab_meta sp) mem (mem'\<lparr>pm_pages := ?m, pm_list := ln\<rparr>)"
      using outside_trans[OF out] ln(5) unfolding slab_meta_pool(1)[OF a(3)] by blast
    ultimately show ?thesis using new ln(2-4) desc(2) a(3) assms(5)
      by (intro exI[of _ ST_OK] exI[of _ "st_slab_update_pages_stat g 1 0"] exI[of _ pool'] exI[of _ "mem'\<lparr>pm_pages := ?m, pm_list := ln\<rparr>"])
        auto
  qed
qed

section \<open>Changing the bit map of a slab\<close>

lemma slab_objs_split:
  assumes "slab_desc sp mem Q Z" "p \<in> masters Q" "q \<in> masters Q" "p \<noteq> q"
    "x \<in> slab_objs (sl_page_pool sp) mem p"
  shows "x \<notin> slab_objs (sl_page_pool sp) mem q"
proof
  let ?pool = "sl_page_pool sp"
  assume q: "x \<in> slab_objs ?pool mem q"
  obtain a s where x: "x = (a, s)" by (cases x)
  note good = slab_descD(1)[OF assms(1)]
  obtain i n where i: "i \<in> slab_indices" "slab_page (sl_groups_at sp) ?pool mem i p n" using masters_page[OF assms(1,2)] by blast
  obtain j k where j: "j \<in> slab_indices" "slab_page (sl_groups_at sp) ?pool mem j q k" using masters_page[OF assms(1,3)] by blast
  have "data_area (?pool, mem) p n \<inter> data_area (?pool, mem) q k = {}"
    using pool_runs_apart(2)[OF good slab_pageD(1)[OF i(2)] slab_pageD(1)[OF j(2)]] assms(4) by simp
  moreover note slab_objs_area[OF good i(2) assms(5)[unfolded x] slab_page_nbits(2)[OF i(2,1)]]
    slab_objs_area(1)[OF good j(2) q[unfolded x] slab_page_nbits(2)[OF j(2,1)]]
  ultimately have "{a ..< a + s} = {}" "0 < s" by blast+
  then show False by simp
qed

lemma slab_objs_bit:
  assumes "st_pagepool_page_to_addr pool (pm_pages mem) p = (ret, Some b0)" "0 < pg_obj_size (pm_pages mem p)"
    "pm_pages mem' p = (pm_pages mem p)\<lparr>pg_bitmap := bm\<rparr>" "j < slab_nbits (pm_pages mem p)"
  defines "s \<equiv> nat (pg_obj_size (pm_pages mem p))" and "old \<equiv> pg_bitmap (pm_pages mem p)"
  shows "(b0 + j * s, s) \<in> slab_objs pool mem p \<longleftrightarrow> bm_bit old j"
    "(\<And>k. bm_bit bm k \<longleftrightarrow> k = j \<or> bm_bit old k) \<Longrightarrow> slab_objs pool mem' p = insert (b0 + j * s, s) (slab_objs pool mem p)"
    "(\<And>k. bm_bit bm k \<longleftrightarrow> k \<noteq> j \<and> bm_bit old k) \<Longrightarrow> slab_objs pool mem' p = slab_objs pool mem p - {(b0 + j * s, s)}"
proof -
  have s: "0 < s" using assms(2) by (simp add: s_def)
  have "pg_region (pm_pages mem' p) = pg_region (pm_pages mem p)" unfolding assms(3) by simp
  then have a: "st_pagepool_page_to_addr pool (pm_pages mem') p = (ret, Some b0)"
    using assms(1) unfolding st_pagepool_page_to_addr_def by (simp only:)
  have nb: "slab_nbits (pm_pages mem' p) = slab_nbits (pm_pages mem p)" unfolding assms(3) by (simp add: slab_nbits_def is_huge_obj_pages_def)
  have o: "slab_objs pool mem p = (\<lambda>k. (b0 + k * s, s)) ` {k. k < slab_nbits (pm_pages mem p) \<and> bm_bit old k}"
    unfolding slab_objs_def Let_def assms(1) by (auto simp: s_def old_def)
  have n: "slab_objs pool mem' p = (\<lambda>k. (b0 + k * s, s)) ` {k. k < slab_nbits (pm_pages mem p) \<and> bm_bit bm k}"
    unfolding slab_objs_def Let_def a nb unfolding assms(3) by (auto simp: s_def)
  have inj: "inj (\<lambda>k. (b0 + k * s, s))" using s by (auto intro!: injI)
  show "(b0 + j * s, s) \<in> slab_objs pool mem p \<longleftrightarrow> bm_bit old j"
    unfolding o using inj_image_mem_iff[OF inj, of j] assms(4) by simp
  show "slab_objs pool mem' p = insert (b0 + j * s, s) (slab_objs pool mem p)" if "\<And>k. bm_bit bm k \<longleftrightarrow> k = j \<or> bm_bit old k"
    unfolding n o that using assms(4) by auto
  show "slab_objs pool mem' p = slab_objs pool mem p - {(b0 + j * s, s)}" if "\<And>k. bm_bit bm k \<longleftrightarrow> k \<noteq> j \<and> bm_bit old k"
    unfolding n o that using s by auto
qed

text \<open>The new position of the slab is \<open>b'\<close>; the other slabs stay.\<close>

lemma slab_set_bitmap:
  assumes "slab_desc sp mem Q Z" "i \<in> slab_indices" "p \<in> set (Q i b)" "Z \<subseteq> {p}" "length bm = 8"
    and lists: "lists_ok (sl_groups_at sp) ln Q'"
      "\<And>a. a \<notin> heads_of (sl_groups_at sp) \<union> page_ln ` masters Q \<Longrightarrow> ln a = pm_list mem a"
    and memb: "\<And>j c q. j \<in> slab_indices \<Longrightarrow> q \<in> set (Q' j c) \<longleftrightarrow> (if q = p then j = i \<and> c = b' else q \<in> set (Q j c))"
    and bits: "slab_bits b' False ((pm_pages mem p)\<lparr>pg_bitmap := bm\<rparr>)"
  defines "mem' \<equiv> mem\<lparr>pm_pages := (pm_pages mem)(p := (pm_pages mem p)\<lparr>pg_bitmap := bm\<rparr>), pm_list := ln\<rparr>"
  shows "slab_desc sp mem' Q' {}"
    "live_objs sp mem' Q' = (\<Union>q \<in> masters Q - {p}. slab_objs (sl_page_pool sp) mem q) \<union> slab_objs (sl_page_pool sp) mem' p"
proof -
  let ?pool = "sl_page_pool sp" and ?base = "sl_groups_at sp"
  obtain n where n: "slab_page ?base ?pool mem i p n" using slab_descD(4)[OF assms(1-3)] by blast
  note run = slab_pageD(1)[OF n]
  have pm: "p \<in> masters Q" using assms(2,3) masters_in by blast
  have n0: "0 < n" using run_nonnull[OF slab_descD(1)[OF assms(1)] run] by blast
  have f: "pool_fields (pm_pages mem) (pm_pages mem')" by (simp add: mem'_def pool_fields_def)
  have "slab_page ?base ?pool mem' i p n"
    using n assms(5) run_set_fields[OF f, of ?pool] by (simp add: slab_page_def Let_def mem'_def slab_nbits_def is_huge_obj_pages_def)
  then have new: "slab_page ?base ?pool mem' j p n \<and> slab_bits c (p \<in> {}) (pm_pages mem' p)"
    if "j \<in> slab_indices" "p \<in> set (Q' j c)" for j c
    using memb[OF that(1), of p c] that(2) bits by (simp add: mem'_def)
  have "p \<in> set (Q' i b')" using memb[OF assms(2), of p b'] by simp
  then have pm': "p \<in> masters Q'" using assms(2) masters_in by blast
  have eq: "pm_pages mem' x = pm_pages mem x" if "x \<notin> page_range p n" for x
    using that page_range_start[OF n0, of p] by (auto simp: mem'_def)
  have ln: "pm_list mem' a = pm_list mem a" if "a \<notin> heads_of ?base \<union> page_ln ` insert p (masters Q)" for a
    using lists(2)[of a] that by (simp add: mem'_def)
  have "q \<in> set (Q' j c) \<longleftrightarrow> q \<in> set (Q j c)" if "j \<in> slab_indices" "q \<noteq> p" for j c q using memb[OF that(1)] that(2) by simp
  note re = slab_rewrite[OF assms(1) run f _ eq _ ln this _ new]
  show "slab_desc sp mem' Q' {}" by (rule re(1)) (use lists(1) assms(4) in \<open>simp_all add: mem'_def\<close>)
  have "live_objs sp mem' Q' = (\<Union>q \<in> masters Q - {p}. slab_objs ?pool mem q) \<union> (if p \<in> masters Q' then slab_objs ?pool mem' p else {})"
    by (rule re(2)) (use lists(1) assms(4) in \<open>simp_all add: mem'_def\<close>)
  then show "live_objs sp mem' Q' = (\<Union>q \<in> masters Q - {p}. slab_objs ?pool mem q) \<union> slab_objs ?pool mem' p" using pm' by simp
qed

lemma live_objs_at: "p \<in> masters Q \<Longrightarrow>
    live_objs sp mem Q = (\<Union>q \<in> masters Q - {p}. slab_objs (sl_page_pool sp) mem q) \<union> slab_objs (sl_page_pool sp) mem p"
  unfolding live_objs_def by blast


text \<open>A slab moves to the end of the other list of its group.\<close>

lemma slab_move:
  assumes "slab_desc sp mem Q Z" "i \<in> slab_indices" "Q i b = xs @ p # ys"
  defines "Q' \<equiv> upd_slabs (upd_slabs Q i b (xs @ ys)) i (\<not> b) (Q i (\<not> b) @ [p])"
  shows "\<exists>ln1 ln2. st_list_remove (pm_list mem) (page_ln p) = Some ln1 \<and>
      st_list_insert_last ln1 (head_at (sl_groups_at sp) i (\<not> b)) (page_ln p) = Some ln2 \<and>
      lists_ok (sl_groups_at sp) ln2 Q' \<and>
      (\<forall>a. a \<notin> heads_of (sl_groups_at sp) \<union> page_ln ` masters Q \<longrightarrow> ln2 a = pm_list mem a)"
    "j \<in> slab_indices \<Longrightarrow> q \<in> set (Q' j c) \<longleftrightarrow> (if q = p then j = i \<and> c = (\<not> b) else q \<in> set (Q j c))"
    "p \<notin> masters (upd_slabs Q i b (xs @ ys))" "apart_slabs (upd_slabs Q i b (xs @ ys))"
    "masters (upd_slabs Q i b (xs @ ys)) \<subseteq> masters Q"
proof -
  let ?base = "sl_groups_at sp" and ?R = "upd_slabs Q i b (xs @ ys)"
  have ap: "apart_slabs Q" using slab_apart[OF assms(1)] .
  have h: "heads_of ?base \<inter> page_ln ` masters Q = {}" using slab_heads_apart[OF assms(1)] .
  have p: "p \<in> masters Q" using masters_in[OF assms(2), of Q b] assms(3) by auto
  have "clist (pm_list mem) (head_at ?base i b) (map page_ln (Q i b))"
    using slab_descD(3)[OF assms(1)] assms(2) by (simp add: lists_ok_def)
  then have d: "p \<notin> set (xs @ ys)" unfolding assms(3) by (auto simp: clist_def)
  have sub: "set (?R j c) \<subseteq> set (Q j c)" for j c using assms(3) by (cases "j = i \<and> c = b") auto
  show sm: "masters ?R \<subseteq> masters Q" unfolding masters_def using sub by blast
  show ar: "apart_slabs ?R" using ap sub unfolding apart_slabs_def by (meson disjoint_iff subsetD)
  have other: "p \<notin> set (Q j c)" if "j \<in> slab_indices" "\<not> (j = i \<and> c = b)" for j c
    using apart_slabsD[OF ap that(1) assms(2), of c b] that(2) assms(3) by auto
  then have "p \<notin> set (?R j c)" if "j \<in> slab_indices" for j c using d that by (cases "j = i \<and> c = b") auto
  then show pR: "p \<notin> masters ?R" by (auto simp: masters_def)
  obtain ln1 where l1: "st_list_remove (pm_list mem) (page_ln p) = Some ln1" "lists_ok ?base ln1 ?R"
    "\<forall>a. a \<notin> heads_of ?base \<union> page_ln ` masters Q \<longrightarrow> ln1 a = pm_list mem a"
    using lists_remove[OF slab_descD(3)[OF assms(1)] assms(2) ap assms(3) h] by blast
  have h': "heads_of ?base \<inter> page_ln ` insert p (masters ?R) = {}" using h p sm by blast
  have R: "?R i (\<not> b) = Q i (\<not> b)" by simp
  obtain ln2 where l2: "st_list_insert_last ln1 (head_at ?base i (\<not> b)) (page_ln p) = Some ln2" "lists_ok ?base ln2 Q'"
    "\<forall>a. a \<notin> heads_of ?base \<union> page_ln ` insert p (masters ?R) \<longrightarrow> ln2 a = ln1 a"
    using lists_insert[OF l1(2) assms(2) ar pR h', of "\<not> b"] unfolding R Q'_def by blast
  have "ln2 a = pm_list mem a" if a: "a \<notin> heads_of ?base \<union> page_ln ` masters Q" for a
  proof -
    have "a \<notin> heads_of ?base \<union> page_ln ` insert p (masters ?R)" using a p sm by blast
    then show ?thesis using l1(3) l2(3) a by metis
  qed
  with l1(1) l2(1,2) show "\<exists>ln1 ln2. st_list_remove (pm_list mem) (page_ln p) = Some ln1 \<and>
      st_list_insert_last ln1 (head_at ?base i (\<not> b)) (page_ln p) = Some ln2 \<and> lists_ok ?base ln2 Q' \<and>
      (\<forall>a. a \<notin> heads_of ?base \<union> page_ln ` masters Q \<longrightarrow> ln2 a = pm_list mem a)" by blast
  show "q \<in> set (Q' j c) \<longleftrightarrow> (if q = p then j = i \<and> c = (\<not> b) else q \<in> set (Q j c))" if "j \<in> slab_indices"
    using other[OF that, of c] d assms(3) unfolding Q'_def
    by (cases "j = i"; cases "c = b") auto
qed

section \<open>An object of a slab\<close>

lemma slab_is_full_ok: "length (pg_bitmap pg) = 8 \<Longrightarrow> st_slab_is_full pg = Some (\<forall>j < slab_nbits pg. bm_bit (pg_bitmap pg) j)"
  and slab_is_all_free_ok: "length (pg_bitmap pg) = 8 \<Longrightarrow> st_slab_is_all_free pg = Some (\<forall>j < slab_nbits pg. \<not> bm_bit (pg_bitmap pg) j)"
proof -
  have n: "slab_nbits pg \<le> 512" by (simp add: slab_nbits_def slab_consts)
  assume l: "length (pg_bitmap pg) = 8"
  have "slab_nbits pg \<le> 64 * length (pg_bitmap pg)" "slab_nbits pg \<le> 2 ^ 32 - 64" using n l by auto
  note t = bitmap_tests_ok[OF this(1) this]
  show "st_slab_is_full pg = Some (\<forall>j < slab_nbits pg. bm_bit (pg_bitmap pg) j)"
    "st_slab_is_all_free pg = Some (\<forall>j < slab_nbits pg. \<not> bm_bit (pg_bitmap pg) j)"
    using t by (simp_all add: st_slab_is_full_def st_slab_is_all_free_def as_bool_def)
qed

lemma slab_full_bits:
  "length (pg_bitmap pg) = 8 \<Longrightarrow> j < slab_nbits pg \<Longrightarrow> bm_bit (pg_bitmap pg) j \<Longrightarrow> st_slab_is_full pg = Some b \<Longrightarrow> slab_bits b False pg"
  using slab_is_full_ok[of pg] by (auto simp: slab_bits_def)


lemma slab_fits:
  assumes "pool_good (pool, mem)" "slab_page base pool mem i p n" "0 < pg_obj_size (pm_pages mem p)" "j < slab_nbits (pm_pages mem p)"
  shows "Suc j * nat (pg_obj_size (pm_pages mem p)) \<le> n * nat (pp_page_size pool)"
proof -
  let ?s = "nat (pg_obj_size (pm_pages mem p))"
  have "?s * slab_nbits (pm_pages mem p) \<le> n * nat (pp_page_size pool)"
    using slab_pageD(6)[OF assms(2)] assms(1,3)
    by (simp add: pool_good_def pool_geometry_def flip: of_nat_le_iff[where 'a = int])
  moreover have "Suc j * ?s \<le> slab_nbits (pm_pages mem p) * ?s" using assms(4) by (intro mult_right_mono) auto
  ultimately show ?thesis by (simp add: mult.commute)
qed

lemma take_obj_ok:
  assumes "slab_desc sp mem Q Z" "i \<in> slab_indices" "Q i False = xs @ [p]" "Z \<subseteq> {p}" "slab_class i osz oc"
    "pg_obj_size (pm_pages mem p) = osz"
  shows "\<exists>a mem' Q'. take_obj (sl_groups_at sp + sizeof_group * i) g (sl_page_pool sp) mem osz oc =
      Some (ST_OK, Some a, st_slab_update_obj_stat g 1 0, mem') \<and> slab_desc sp mem' Q' {} \<and>
    (a, nat osz) \<notin> live_objs sp mem Q \<and> live_objs sp mem' Q' = insert (a, nat osz) (live_objs sp mem Q) \<and>
    outside (slab_meta sp) mem mem'"
proof -
  let ?pool = "sl_page_pool sp" and ?base = "sl_groups_at sp" and ?pg = "pm_pages mem p" and ?ga = "sl_groups_at sp + sizeof_group * i"
  have pin: "p \<in> set (Q i False)" using assms(3) by simp
  then have pm: "p \<in> masters Q" using masters_in[OF assms(2)] by blast
  note good = slab_descD(1)[OF assms(1)]
  obtain n where n: "slab_page ?base ?pool mem i p n" and old: "slab_bits False (p \<in> Z) ?pg" using slab_descD(4)[OF assms(1,2) pin] by blast
  have p0: "p \<noteq> NULL" using run_nonnull[OF good slab_pageD(1)[OF n]] by blast
  obtain b0 where b0: "st_pagepool_page_to_addr ?pool (pm_pages mem) p = (ST_OK, Some b0)" "b0 + n * nat (pp_page_size ?pool) < 2 ^ 64"
    using slab_base[OF good slab_pageD(1)[OF n]] by blast
  have nb: "slab_nbits ?pg = (if i = 12 then 1 else 512)" "0 < osz" using slab_page_nbits[OF n assms(2)] assms(6) by auto
  have oc: "nat oc = slab_nbits ?pg" using assms(5) nb(1) by (auto simp: slab_class_def split: if_splits)
  have len: "length (pg_bitmap ?pg) = 8" using slab_pageD(4)[OF n] .
  have "clist (pm_list mem) (head_at ?base i False) (map page_ln (Q i False))"
    using slab_descD(3)[OF assms(1)] assms(2) by (simp add: lists_ok_def)
  then have "st_list_last (pm_list mem) (head_at ?base i False) = Some (page_ln p)" using assms(3) by (simp add: clist_last)
  then have lst: "st_list_last (pm_list mem) (slabs_partial ?ga) = Some (page_ln p)" by (simp add: head_at_def)
  obtain j where j: "st_bitmap_find_clear_bit (Some (pg_bitmap ?pg)) 0 (nat oc) = Some (Inr (int j))" "j < slab_nbits ?pg" "\<not> bm_bit (pg_bitmap ?pg) j"
    using find_next_bit_ok[of 0 "nat oc" "pg_bitmap ?pg" 0] old nb(1) len unfolding st_bitmap_find_clear_bit_def oc slab_bits_def
    by (auto split: if_splits)
  have j8: "j < 64 * length (pg_bitmap ?pg)" using j(2) nb(1) len by (simp split: if_splits)
  obtain bm where bm: "st_bitmap_set (pg_bitmap ?pg) j = Some (bm, bm_bit (pg_bitmap ?pg) j)" "length bm = 8"
    "\<And>k. bm_bit bm k \<longleftrightarrow> k = j \<or> bm_bit (pg_bitmap ?pg) k" using st_bitmap_set_bits[OF j8] len by auto
  let ?pg' = "?pg\<lparr>pg_bitmap := bm\<rparr>" and ?m = "(pm_pages mem)(p := ?pg\<lparr>pg_bitmap := bm\<rparr>)"
  have nb': "slab_nbits ?pg' = slab_nbits ?pg" by (simp add: slab_nbits_def is_huge_obj_pages_def)
  obtain full where full: "st_slab_is_full ?pg' = Some full" "slab_bits full False ?pg'"
    using slab_is_full_ok[of ?pg'] slab_full_bits[of ?pg' j] bm j(2) nb' by auto
  define Q' where "Q' = (if full then upd_slabs (upd_slabs Q i False xs) i True (Q i True @ [p]) else Q)"
  have "\<exists>ln2. (if full then do { ln \<leftarrow> st_list_remove (pm_list mem) (page_ln p); st_list_insert_last ln (slabs_full ?ga) (page_ln p) }
        else Some (pm_list mem)) = Some ln2 \<and> lists_ok ?base ln2 Q' \<and> (\<forall>a. a \<notin> heads_of ?base \<union> page_ln ` masters Q \<longrightarrow> ln2 a = pm_list mem a)"
  proof (cases full)
    case True
    then show ?thesis using slab_move(1)[OF assms(1,2), of False xs p "[]"] assms(3) by (auto simp: Q'_def head_at_def)
  qed (use slab_descD(3)[OF assms(1)] in \<open>simp add: Q'_def\<close>)
  then obtain ln where ln: "(if full then do { ln \<leftarrow> st_list_remove (pm_list mem) (page_ln p); st_list_insert_last ln (slabs_full ?ga) (page_ln p) }
        else Some (pm_list mem)) = Some ln" "lists_ok ?base ln Q'" "\<And>a. a \<notin> heads_of ?base \<union> page_ln ` masters Q \<Longrightarrow> ln a = pm_list mem a"
    by blast
  have memb: "q \<in> set (Q' k c) \<longleftrightarrow> (if q = p then k = i \<and> c = full else q \<in> set (Q k c))" if k: "k \<in> slab_indices" for k c q
  proof (cases full)
    case True
    then show ?thesis using slab_move(2)[OF assms(1,2), of False xs p "[]"] assms(3) k by (simp add: Q'_def)
  next
    case False
    then show ?thesis using apart_slabsD[OF slab_apart[OF assms(1)] k assms(2), of c False] pin by (auto simp: Q'_def)
  qed
  let ?mem = "mem\<lparr>pm_pages := ?m, pm_list := ln\<rparr>" and ?a = "b0 + j * nat osz"
  have new: "slab_desc sp ?mem Q' {}" "live_objs sp ?mem Q' = (\<Union>q \<in> masters Q - {p}. slab_objs ?pool mem q) \<union> slab_objs ?pool ?mem p"
    by (rule slab_set_bitmap[OF assms(1,2) pin assms(4) bm(2) ln(2) _ _ full(2)]; rule ln(3) memb; assumption)+
  note bit = slab_objs_bit[OF b0(1) _ _ j(2), of ?mem bm, unfolded assms(6)]
  have ins: "slab_objs ?pool ?mem p = insert (?a, nat osz) (slab_objs ?pool mem p)" by (rule bit(2)) (use nb(2) bm(3) in auto)
  have fresh: "(?a, nat osz) \<notin> slab_objs ?pool mem p" using bit(1) nb(2) j(3) by simp
  have "(?a, nat osz) \<notin> slab_objs ?pool mem q" if q: "q \<in> masters Q - {p}" for q
  proof -
    have "slab_objs ?pool ?mem q = slab_objs ?pool mem q" by (rule slab_objs_cong) (use q in simp_all)
    moreover have "q \<in> masters Q'" "p \<in> masters Q'" using q memb assms(2) unfolding masters_def by auto
    ultimately show ?thesis using slab_objs_split[OF new(1), of p q "(?a, nat osz)"] ins q by auto
  qed
  then have nl: "(?a, nat osz) \<notin> live_objs sp mem Q" using fresh live_objs_at[OF pm] by auto
  have lv: "live_objs sp ?mem Q' = insert (?a, nat osz) (live_objs sp mem Q)" using new(2) unfolding ins live_objs_at[OF pm, of sp mem] by (simp only: Un_insert_right)
  have "Suc j * nat osz \<le> n * nat (pp_page_size ?pool)" using slab_fits[OF good n slab_page_nbits(2)[OF n assms(2)] j(2)] unfolding assms(6) .
  then have "?a < 2 ^ 64" using b0(2) unfolding mult_Suc by linarith
  then have "int ?a mod 2 ^ 64 = int ?a" by (intro mod_pos_pos_trivial) (simp_all flip: of_nat_less_iff[where 'a = int])
  moreover have "int b0 + int j * osz = int ?a" using nb(2) by simp
  ultimately have obj: "nat ((int b0 + int j * osz) mod 2 ^ 64) = ?a" by (simp only: nat_int)
  have "take_obj ?ga g ?pool mem osz oc = Some (ST_OK, Some ?a, st_slab_update_obj_stat g 1 0, ?mem)"
    unfolding take_obj_def using lst b0(1) j(1) bm(1) p0 full(1) ln(1) obj by (simp add: upd_def)
  moreover have "outside (slab_meta sp) mem ?mem" by (rule lists_outside[OF good masters_pages[OF assms(1)]]) (use ln(3) in blast)
  ultimately show ?thesis using new(1) nl lv by blast
qed

text \<open>What an allocation of an object of \<open>osz\<close> bytes promises.\<close>

definition alloc_obj_post :: "int \<Rightarrow> (addr \<times> nat) set \<Rightarrow> st_error \<Rightarrow> addr option \<Rightarrow> (addr \<times> nat) set \<Rightarrow> bool" where
  "alloc_obj_post osz live ret r live' \<longleftrightarrow>
    (if ret = ST_OK then \<exists>a. r = Some a \<and> (a, nat osz) \<notin> live \<and> live' = insert (a, nat osz) live
     else ret \<in> {ST_OUT_OF_MEMORY, ST_ARG_INVALID} \<and> r = None \<and> live' = live)"

lemma partial_size:
  assumes "slab_desc sp mem Q {}" "i \<in> slab_indices" "p \<in> set (Q i False)" "slab_class i osz oc"
  shows "pg_obj_size (pm_pages mem p) = osz"
proof -
  obtain n where n: "slab_page (sl_groups_at sp) (sl_page_pool sp) mem i p n" and b: "slab_bits False False (pm_pages mem p)"
    using slab_descD(4)[OF assms(1-3)] by auto
  have "i \<noteq> 12" using b slab_page_nbits(1)[OF n assms(2)] by (auto simp: slab_bits_def)
  then show ?thesis using slab_pageD(5)[OF n] assms(4) by (simp add: slab_class_def)
qed

lemma get_obj_body_ok:
  assumes "slab_desc sp mem Q {}" "i \<in> slab_indices" "tmp \<notin> region_area (pp_region_cb (sl_page_pool sp))" "slab_class i osz oc"
    "group_ok i g"
  shows "\<exists>ret r g' pool' mem' Q'. get_obj_body madvise_r t tmp (sl_groups_at sp + sizeof_group * i) g (sl_page_pool sp) mem osz oc =
      Some (ret, r, g', pool', mem') \<and> group_ok i g' \<and> slab_desc (sp\<lparr>sl_page_pool := pool'\<rparr>) mem' Q' {} \<and> same_pool (sl_page_pool sp) pool' \<and>
    outside (slab_meta sp) mem mem' \<and> alloc_obj_post osz (live_objs sp mem Q) ret r (live_objs (sp\<lparr>sl_page_pool := pool'\<rparr>) mem' Q') \<and>
    (ret = ST_OK \<or> Q i False = [] \<and> pool_answers madvise_r t tmp (sl_page_pool sp) mem (osz * oc) ret)"
proof -
  let ?pool = "sl_page_pool sp" and ?ga = "sl_groups_at sp + sizeof_group * i"
  have "clist (pm_list mem) (head_at (sl_groups_at sp) i False) (map page_ln (Q i False))"
    using slab_descD(3)[OF assms(1)] assms(2) by (simp add: lists_ok_def)
  from clist_empty_iff[OF this] have e: "st_list_empty (pm_list mem) (slabs_partial ?ga) = Some (Q i False = [])" by (simp add: head_at_def)
  show ?thesis
  proof (cases "Q i False = []")
    case False
    then obtain xs p where xs: "Q i False = xs @ [p]" by (metis rev_exhaust)
    then have sz: "pg_obj_size (pm_pages mem p) = osz" using partial_size[OF assms(1,2) _ assms(4), of p] by simp
    obtain a mem' Q' where t: "take_obj ?ga g ?pool mem osz oc = Some (ST_OK, Some a, st_slab_update_obj_stat g 1 0, mem')"
      "slab_desc sp mem' Q' {}" "(a, nat osz) \<notin> live_objs sp mem Q" "live_objs sp mem' Q' = insert (a, nat osz) (live_objs sp mem Q)"
      "outside (slab_meta sp) mem mem'"
      using take_obj_ok[OF assms(1,2) xs _ assms(4) sz, of g] by auto
    have "get_obj_body madvise_r t tmp ?ga g ?pool mem osz oc = Some (ST_OK, Some a, st_slab_update_obj_stat g 1 0, ?pool, mem')"
      using e False t(1) by (simp add: get_obj_body_def)
    then show ?thesis using t(2-5) assms(5)
      by (intro exI[of _ ST_OK] exI[of _ "Some a"] exI[of _ "st_slab_update_obj_stat g 1 0"] exI[of _ ?pool] exI[of _ mem'] exI[of _ Q'])
        (simp add: alloc_obj_post_def)
  next
    case True
    obtain ret g1 pool1 mem1 where al: "st_slab_alloc_pages madvise_r t tmp ?ga g ?pool mem osz oc = Some (ret, g1, pool1, mem1)"
      "group_ok i g1" "same_pool ?pool pool1" "outside (slab_meta sp) mem mem1"
      "if ret = ST_OK then \<exists>p. p \<notin> masters Q \<and>
          slab_desc (sp\<lparr>sl_page_pool := pool1\<rparr>) mem1 (upd_slabs Q i False (Q i False @ [p])) {p} \<and>
          live_objs (sp\<lparr>sl_page_pool := pool1\<rparr>) mem1 (upd_slabs Q i False (Q i False @ [p])) = live_objs sp mem Q \<and>
          pg_obj_size (pm_pages mem1 p) = osz
       else ret \<in> {ST_OUT_OF_MEMORY, ST_ARG_INVALID} \<and> slab_desc (sp\<lparr>sl_page_pool := pool1\<rparr>) mem1 Q {} \<and>
          live_objs (sp\<lparr>sl_page_pool := pool1\<rparr>) mem1 Q = live_objs sp mem Q \<and> pool_answers madvise_r t tmp ?pool mem (osz * oc) ret"
      using slab_alloc_pages_ok[OF assms, of madvise_r t] by blast
    let ?sp = "sp\<lparr>sl_page_pool := pool1\<rparr>"
    show ?thesis
    proof (cases "ret = ST_OK")
      case False
      then have "get_obj_body madvise_r t tmp ?ga g ?pool mem osz oc = Some (ret, None, g1, pool1, mem1)"
        using e True al(1) by (simp add: get_obj_body_def)
      then show ?thesis using False True al(2-5)
        by (intro exI[of _ ret] exI[of _ None] exI[of _ g1] exI[of _ pool1] exI[of _ mem1] exI[of _ Q]) (simp add: alloc_obj_post_def)
    next
      case ok: True
      then obtain p where p: "slab_desc ?sp mem1 (upd_slabs Q i False [p]) {p}" "pg_obj_size (pm_pages mem1 p) = osz"
        "live_objs ?sp mem1 (upd_slabs Q i False [p]) = live_objs sp mem Q" using al(5) True by auto
      have xs: "upd_slabs Q i False [p] i False = [] @ [p]" by simp
      obtain a mem' Q' where t: "take_obj ?ga g1 pool1 mem1 osz oc = Some (ST_OK, Some a, st_slab_update_obj_stat g1 1 0, mem')"
        "slab_desc ?sp mem' Q' {}" "(a, nat osz) \<notin> live_objs sp mem Q" "live_objs ?sp mem' Q' = insert (a, nat osz) (live_objs sp mem Q)"
        "outside (slab_meta ?sp) mem1 mem'"
        using take_obj_ok[OF p(1) assms(2) xs subset_refl assms(4) p(2), of g1] p(3) by auto
      have out: "outside (slab_meta sp) mem mem'" using outside_trans[OF al(4)] t(5) unfolding slab_meta_pool(1)[OF al(3)] by blast
      have "get_obj_body madvise_r t tmp ?ga g ?pool mem osz oc = Some (ST_OK, Some a, st_slab_update_obj_stat g1 1 0, pool1, mem')"
        using e True al(1) ok t(1) by (simp add: get_obj_body_def)
      then show ?thesis using t(2-4) al(2,3) out
        by (intro exI[of _ ST_OK] exI[of _ "Some a"] exI[of _ "st_slab_update_obj_stat g1 1 0"] exI[of _ pool1] exI[of _ mem'] exI[of _ Q'])
          (simp add: alloc_obj_post_def)
    qed
  qed
qed

text \<open>The size of the object that a request gets: the smallest power of two from 8 to 2048, or the size itself.\<close>

definition obj_class :: "int \<Rightarrow> int" where
  "obj_class sz = hd (filter (\<lambda>c. sz \<le> c) [8, 16, 32, 64, 128, 256, 512, 1024, 2048, sz])"

lemma size_class:
  assumes "0 < sz" "sz < 2 ^ 31"
  shows "\<exists>i \<in> slab_indices. st_slab_size_to_index (word_of_int sz) = Inr (int i) \<and>
    slab_class i (obj_class sz) (if i = 12 then 1 else 512) \<and> sz \<le> obj_class sz"
proof -
  let ?w = "word_of_int sz :: u64"
  have u: "unat ?w = nat sz" using assms by (simp add: uint_word_of_int flip: nat_uint_eq)
  then have "0 < ?w" using assms by (simp add: word_less_nat_alt)
  then obtain i where i: "st_slab_size_to_index ?w = Inr (int i)" "3 \<le> i" "i \<le> 12"
    "nat sz \<le> 2048 \<Longrightarrow> i \<le> 11 \<and> nat sz \<le> 2 ^ i \<and> (3 < i \<longrightarrow> 2 ^ (i - 1) < nat sz)" "2048 < nat sz \<Longrightarrow> i = 12"
    using size_to_index_ok[of ?w] u by auto
  have "slab_class i (obj_class sz) (if i = 12 then 1 else 512) \<and> sz \<le> obj_class sz"
  proof (cases "nat sz \<le> 2048")
    case True
    then have "i \<in> {3, 4, 5, 6, 7, 8, 9, 10, 11}" using i(2) i(4)[OF True] by auto
    then show ?thesis using i(4)[OF True] by (auto simp: slab_class_def obj_class_def)
  next
    case False
    then show ?thesis using i(5) assms by (simp add: slab_class_def obj_class_def)
  qed
  then show ?thesis using i(1-3) by (intro bexI[of _ i]) (auto simp: slab_indices_def)
qed

lemma group_lock: "lock_free l \<Longrightarrow> group_ok i g \<Longrightarrow> group_ok i (g\<lparr>sg_lock := l\<rparr>)"
  by (simp add: group_ok_def)

lemma group_huge: "group_ok i g \<Longrightarrow> is_huge_obj_group g \<longleftrightarrow> i = 12"
proof -
  assume "group_ok i g"
  then have "is_huge_obj_group g \<longleftrightarrow> (2::int) ^ i = 2 ^ 12" by (simp add: group_ok_def is_huge_obj_group_def slab_consts)
  then show ?thesis by (simp only: power_inject_exp one_less_numeral_iff semiring_norm)
qed

lemma slab_obj_alloc_ok:
  assumes "slab_desc sp mem Q {}" "tmp \<notin> region_area (pp_region_cb (sl_page_pool sp))" "0 < sz" "sz < 2 ^ 31"
  shows "\<exists>ret r sp' mem' Q'. st_slab_obj_alloc madvise_r t tmp sp mem sz = Some (ret, r, sp', mem') \<and> slab_desc sp' mem' Q' {} \<and>
    same_pool (sl_page_pool sp) (sl_page_pool sp') \<and> sl_groups_at sp' = sl_groups_at sp \<and> outside (slab_meta sp) mem mem' \<and>
    alloc_obj_post (obj_class sz) (live_objs sp mem Q) ret r (live_objs sp' mem' Q') \<and>
    (ret = ST_OK \<or> (\<exists>i \<in> slab_indices. st_slab_size_to_index (word_of_int sz) = Inr (int i) \<and> Q i False = [] \<and>
       pool_answers madvise_r t tmp (sl_page_pool sp) mem (obj_class sz * (if i = 12 then 1 else 512)) ret))"
proof -
  obtain i where i: "i \<in> slab_indices" "st_slab_size_to_index (word_of_int sz) = Inr (int i)"
    "slab_class i (obj_class sz) (if i = 12 then 1 else 512)" using size_class[OF assms(3,4)] by blast
  let ?g = "sl_groups sp ! i" and ?ga = "sl_groups_at sp + sizeof_group * i" and ?oc = "if i = 12 then 1 else 512"
  have g: "group_ok i ?g" using slab_descD(2)[OF assms(1)] i(1) by (simp add: slab_fixed_def)
  obtain ret r g' pool' mem' Q' where b: "get_obj_body madvise_r t tmp ?ga ?g (sl_page_pool sp) mem (obj_class sz) ?oc = Some (ret, r, g', pool', mem')"
    "group_ok i g'" "slab_desc (sp\<lparr>sl_page_pool := pool'\<rparr>) mem' Q' {}" "same_pool (sl_page_pool sp) pool'" "outside (slab_meta sp) mem mem'"
    "alloc_obj_post (obj_class sz) (live_objs sp mem Q) ret r (live_objs (sp\<lparr>sl_page_pool := pool'\<rparr>) mem' Q')"
    "ret = ST_OK \<or> Q i False = [] \<and> pool_answers madvise_r t tmp (sl_page_pool sp) mem (obj_class sz * ?oc) ret"
    using get_obj_body_ok[OF assms(1) i(1) assms(2) i(3) g, of madvise_r t] by blast
  have "lock_free (sg_lock ?g)" using g by (simp add: group_ok_def)
  from with_lock_ok[OF this, of t "(ret, r, g', pool', mem')"] obtain l where
    l: "with_lock t (sg_lock ?g) (Some (ret, r, g', pool', mem')) = Some ((ret, r, g', pool', mem'), l)" "lock_free l" by blast
  have sizes: "(if is_huge_obj_group ?g then (1, sz) else (int ST_SLAB_OBJ_CNT_EACH_ALLOC, sg_obj_size ?g)) = (?oc, obj_class sz)"
    using group_huge[OF g] g i(3) by (auto simp: slab_class_def slab_consts group_ok_def obj_class_def split: if_splits)
  let ?sp = "(sp\<lparr>sl_page_pool := pool'\<rparr>)\<lparr>sl_groups := (sl_groups (sp\<lparr>sl_page_pool := pool'\<rparr>))[i := g'\<lparr>sg_lock := l\<rparr>]\<rparr>"
  have "st_slab_get_obj_from_group madvise_r t tmp ?ga ?g (sl_page_pool sp) mem sz = Some (ret, r, g'\<lparr>sg_lock := l\<rparr>, pool', mem')"
    unfolding st_slab_get_obj_from_group_def sizes using b(1) l(1) by simp
  then have "st_slab_obj_alloc madvise_r t tmp sp mem sz = Some (ret, r, ?sp, mem')"
    using assms(3) i(2) by (simp add: st_slab_obj_alloc_def group_addr_def)
  moreover have "slab_desc ?sp mem' Q' {}" "live_objs ?sp mem' Q' = live_objs (sp\<lparr>sl_page_pool := pool'\<rparr>) mem' Q'"
    by (rule slab_desc_group[OF b(3) group_lock[OF l(2) b(2)]])+
  moreover have "ret = ST_OK \<or> (\<exists>i \<in> slab_indices. st_slab_size_to_index (word_of_int sz) = Inr (int i) \<and> Q i False = [] \<and>
      pool_answers madvise_r t tmp (sl_page_pool sp) mem (obj_class sz * (if i = 12 then 1 else 512)) ret)" using b(7) i(1,2) by blast
  ultimately show ?thesis using b(4-6) by (intro exI[of _ ret] exI[of _ r] exI[of _ ?sp] exI[of _ mem'] exI[of _ Q']) simp
qed

end
