(* ===== verification/Slab_Free.thy ===== *)
theory Slab_Free
  imports Slab_Alloc
begin

text \<open>
  Freeing an object: the slab of an address is found through its page, the bit of the object is
  cleared, and a slab without objects goes back to the page pool.
\<close>

section \<open>The slab of an address\<close>

lemma page_base_eq: "ADDR_PAGE_BASE a (2 ^ k) = a - a mod 2 ^ k"
proof -
  have "int a AND NOT (2 ^ k - 1) = int (2 ^ k * (a div 2 ^ k))" unfolding and_not_mask_eq by (simp add: zdiv_int)
  then show ?thesis unfolding ADDR_PAGE_BASE_def minus_mod_eq_mult_div by (simp only: nat_int)
qed

lemma slave_type:
  assumes "pool_good (pool, mem)" "(p, n) \<in> run_set pool mem f" "x \<in> page_range p n"
  shows "pg_type (pm_pages mem x) = (if x = p then ST_PAGEPOOL_PAGE_MASTER else ST_PAGEPOOL_PAGE_SLAVE)"
proof -
  obtain L where L: "pool_desc pool mem L" using assms(1) by (auto simp: pool_good_def pool_inv_def)
  then have d: "described (set (pool_regions pool)) (region_pages pool) (pm_pages mem) L" by (simp add: pool_desc_def)
  have run: "(p, n, f) \<in> all_runs (set (pool_regions pool)) L" using assms(2) run_set_desc[OF L, of f] by simp
  obtain r where "run_at (pm_pages mem) r p n f" using described_run(7)[OF d run] by blast
  then show ?thesis using run_atD(4) assms(3) by blast
qed

lemma base_nonnull:
  assumes "pool_good (pool, mem)" "(p, n) \<in> run_set pool mem f" "st_pagepool_page_to_addr pool (pm_pages mem) p = (ret, Some b0)"
  shows "0 < b0"
proof -
  obtain r i where "r \<in> set (pool_regions pool)" "b0 = data_addr pool r i" using slab_base[OF assms(1,2)] assms(3) by auto
  moreover have "NULL \<notin> set (pool_regions pool)" using pool_parts(5)[OF pool_good_base[OF assms(1)]] .
  ultimately show ?thesis by (cases "r = 0") (auto simp: data_addr_def)
qed

lemma page_of_addr:
  assumes "pool_good (pool, mem)" "page_aligned pool" "(p, n) \<in> run_set pool mem f"
    "st_pagepool_page_to_addr pool (pm_pages mem) p = (ret, Some b0)" "b0 \<le> a" "a < b0 + n * nat (pp_page_size pool)"
  shows "\<exists>x lock. st_pagepool_addr_to_page t pool (ADDR_PAGE_BASE a (pp_page_size pool)) = Some (ST_OK, Some x, pool\<lparr>pp_regions_lock := lock\<rparr>) \<and>
    lock_free lock \<and> x \<in> page_range p n"
proof -
  have inv: "pool_inv pool mem" and geo: "pool_geometry pool" using assms(1) by (simp_all add: pool_good_def)
  obtain k where k: "pp_page_size pool = 2 ^ k" "2 ^ k dvd int (rg_base_addr (pp_region_cb pool))"
    "2 ^ k dvd rg_reg_size (pp_region_cb pool)" "2 ^ k dvd pp_space_base_offset pool" using assms(2) by (auto simp: page_aligned_def)
  obtain r i where r: "r \<in> set (pool_regions pool)" "p = r + sizeof_page * i" "i + n \<le> region_pages pool" and b0: "b0 = data_addr pool r i"
    using slab_base[OF assms(1,3)] assms(4) by auto
  obtain l where l: "r = region_addr (pp_region_cb pool) l" using pool_parts(4)[OF pool_good_base[OF assms(1)]] r(1) by auto
  have nn: "0 \<le> pp_space_base_offset pool" "0 < rg_reg_size (pp_region_cb pool)"
    using geo pool_sizes[OF pool_good_base[OF assms(1)]] by (auto simp: pool_geometry_def intro: order_trans[rotated])
  have "2 ^ k dvd nat (rg_reg_size (pp_region_cb pool))" "2 ^ k dvd nat (pp_space_base_offset pool)" "2 ^ k dvd rg_base_addr (pp_region_cb pool)"
    using k(2-4) nn by (simp_all add: nat_dvd_iff flip: int_dvd_int_iff)
  then have "2 ^ k dvd b0" unfolding b0 data_addr_def l region_addr_def k(1) by (simp add: nat_power_eq)
  moreover define d where "d = (a - b0) div 2 ^ k"
  ultimately have "a - a mod 2 ^ k = b0 + d * 2 ^ k" using assms(5)
    by (metis (no_types, lifting) le_add_diff_inverse minus_mod_eq_div_mult mod_add_self1 dvd_div_mult_self div_plus_div_distrib_dvd_left distrib_right)
  then have pb: "ADDR_PAGE_BASE a (pp_page_size pool) = data_addr pool r (i + d)"
    unfolding k(1) page_base_eq b0 by (simp add: data_addr_def k(1) nat_power_eq distrib_right)
  have "d < n" using assms(6) k(1) unfolding d_def by (simp add: nat_power_eq less_mult_imp_div_less less_diff_conv2 assms(5))
  then have "i + d < region_pages pool" "p + sizeof_page * d \<in> page_range p n" using r(3) by (auto simp: in_page_range)
  moreover have "r + sizeof_page * (i + d) = p + sizeof_page * d" using r(2) by (simp add: distrib_left)
  ultimately show ?thesis using addr_to_page_ok[OF inv geo r(1), of "i + d" t] unfolding pb by auto
qed

lemma master_of_page:
  assumes "pool_good (pool, mem)" "slab_page base pool mem i p n" "base \<noteq> NULL" "x \<in> page_range p n"
  shows "st_slab_get_master_page (pm_pages mem) x = p"
proof -
  note run = slab_pageD(1)[OF assms(2)]
  have p: "p \<noteq> NULL" using run_nonnull[OF assms(1) run] by blast
  have "x \<noteq> NULL" using assms(4) p by (auto simp: in_page_range)
  moreover have "pg_master (pm_pages mem p) \<noteq> NULL" using slab_pageD(2)[OF assms(2)] assms(3) by simp
  ultimately show ?thesis
    using slave_type[OF assms(1) run assms(4)] slab_pageD(3)[OF assms(2,4)] p
    by (cases "x = p") (simp_all add: st_slab_get_master_page_def Let_def ST_PAGEPOOL_PAGE_SLAVE_def ST_PAGEPOOL_PAGE_MASTER_def)
qed

lemma slab_page_index:
  assumes "pool_good (pool, mem)" "slab_page base pool mem i p n" "i \<in> slab_indices"
  shows "st_slab_size_to_index (word_of_int (pg_obj_size (pm_pages mem p))) = Inr (int i)"
proof -
  let ?s = "pg_obj_size (pm_pages mem p)" and ?w = "word_of_int (pg_obj_size (pm_pages mem p)) :: u64"
  have s0: "0 < ?s" and nb: "0 < slab_nbits (pm_pages mem p)" using slab_page_nbits[OF assms(2,3)] by (auto split: if_splits)
  have "nat ?s < 2 ^ 64" using slab_fits[OF assms(1,2) s0 nb] slab_base[OF assms(1) slab_pageD(1)[OF assms(2)]] by auto
  then have "unat ?w = nat ?s" using s0 by (simp add: uint_word_of_int flip: nat_uint_eq) 
  moreover from this have "0 < ?w" using s0 by (simp add: word_less_nat_alt)
  ultimately obtain j where j: "st_slab_size_to_index ?w = Inr (int j)" "3 \<le> j"
    "nat ?s \<le> 2048 \<Longrightarrow> j \<le> 11 \<and> nat ?s \<le> 2 ^ j \<and> (3 < j \<longrightarrow> 2 ^ (j - 1) < nat ?s)" "2048 < nat ?s \<Longrightarrow> j = 12"
    using size_to_index_ok[of ?w] by auto
  have "j = i"
  proof (cases "i = 12")
    case True
    then show ?thesis using slab_pageD(5)[OF assms(2)] j(4) by simp
  next
    case False
    then have s: "nat ?s = 2 ^ i" using slab_pageD(5)[OF assms(2)] by (simp add: nat_power_eq)
    have i: "3 \<le> i" "i \<le> 11" using assms(3) False by (auto simp: slab_indices_def)
    have "(2::nat) ^ i \<le> 2 ^ 11" using i by (intro power_increasing) auto
    then have "2 ^ i \<le> (2::nat) ^ j" "3 < j \<Longrightarrow> (2::nat) ^ (j - 1) < 2 ^ i" using j(3) s by auto
    then have "i \<le> j" "3 < j \<Longrightarrow> j - 1 < i" by simp_all
    then show ?thesis using i j(2) by (cases "3 < j") auto
  qed
  then show ?thesis using j(1) by simp
qed

section \<open>The bit of an object\<close>

lemma clear_bitmap_ok:
  assumes "slab_page base pool mem i p n" "i \<in> slab_indices" "group_ok i g" "p \<noteq> NULL" "j < slab_nbits (pm_pages mem p)"
    "st_pagepool_page_to_addr pool (pm_pages mem) p = (ST_OK, Some b0)" "b0 + j * nat (pg_obj_size (pm_pages mem p)) < 2 ^ 64"
  shows "\<exists>bm. st_slab_clear_bitmap_by_addr g pool (pm_pages mem) p (b0 + j * nat (pg_obj_size (pm_pages mem p))) =
      Some (if bm_bit (pg_bitmap (pm_pages mem p)) j then ST_OK else ST_AGAIN,
        (pm_pages mem)(p := (pm_pages mem p)\<lparr>pg_bitmap := bm\<rparr>)) \<and> length bm = 8 \<and>
    (\<forall>k. bm_bit bm k \<longleftrightarrow> k \<noteq> j \<and> bm_bit (pg_bitmap (pm_pages mem p)) k)"
proof -
  let ?pg = "pm_pages mem p" and ?s = "nat (pg_obj_size (pm_pages mem p))"
  have g: "sg_obj_size g = 2 ^ i" using assms(3) by (simp add: group_ok_def)
  have len: "length (pg_bitmap ?pg) = 8" using slab_pageD(4)[OF assms(1)] .
  have nb: "slab_nbits ?pg = (if i = 12 then 1 else 512)" using slab_page_nbits(1)[OF assms(1,2)] .
  have j8: "j < 64 * length (pg_bitmap ?pg)" using assms(5) nb len by (simp split: if_splits)
  obtain bm where bm: "st_bitmap_clear (pg_bitmap ?pg) j = Some (bm, bm_bit (pg_bitmap ?pg) j)" "length bm = 8"
    "\<forall>k. bm_bit bm k \<longleftrightarrow> k \<noteq> j \<and> bm_bit (pg_bitmap ?pg) k" using st_bitmap_clear_bits[OF j8] len by auto
  have "int (b0 + j * ?s) - int b0 = int j * 2 ^ i"
    using slab_pageD(5)[OF assms(1)] assms(5) nb by (cases "i = 12") auto
  moreover have "int j * 2 ^ i < 2 ^ 64"
  proof (cases "i = 12")
    case False
    have "int j * 2 ^ i \<le> 512 * 2 ^ 11" using assms(2,5) nb False
      by (intro mult_mono power_increasing) (auto simp: slab_indices_def)
    then show ?thesis by simp
  qed (use assms(5) nb in simp)
  ultimately have off: "(int (b0 + j * ?s) - int b0) mod 2 ^ 64 = int j * 2 ^ i" by (simp only: mod_pos_pos_trivial zero_le_mult_iff) simp
  have idx: "to_int32 (int j) = int j" "int j < 512" "i = 12 \<Longrightarrow> j = 0" using assms(5) nb by (auto simp: to_int32_def split: if_splits)
  have huge: "(2::int) ^ i = ST_SLAB_HUGE_OBJ_SIZE \<longleftrightarrow> i = 12"
    using power_inject_exp[of "2::int" i 12] by (simp add: slab_consts)
  have "st_slab_clear_bitmap_by_addr g pool (pm_pages mem) p (b0 + j * ?s) =
    Some (if bm_bit (pg_bitmap ?pg) j then ST_OK else ST_AGAIN, (pm_pages mem)(p := ?pg\<lparr>pg_bitmap := bm\<rparr>))"
    unfolding st_slab_clear_bitmap_by_addr_def assms(6) prod.case bind.bind_lunit off g huge Let_def
    using idx bm(1) assms(4) by (auto simp: upd_def slab_consts)
  then show ?thesis using bm(2,3) by blast
qed

section \<open>A slab without objects\<close>

lemma free_post_ok:
  "free_post pool mem p n (Inr ()) ret pool' mem' \<Longrightarrow> ret = ST_OK \<and> allocated_runs pool' mem' = allocated_runs pool mem - {(p, n)}"
  unfolding free_post_def Let_def by (elim exE conjE) (simp add: sys_err_def split: if_splits)

lemma release_slab_ok:
  assumes "slab_desc sp mem Q {}" "i \<in> slab_indices" "Q i b = xs @ p # ys" "slab_page (sl_groups_at sp) (sl_page_pool sp) mem i p n"
    "length bm = 8" "group_ok i g"
  defines "mem1 \<equiv> mem\<lparr>pm_pages := (pm_pages mem)(p := (pm_pages mem p)\<lparr>pg_bitmap := bm\<rparr>)\<rparr>"
  shows "\<exists>g' pool' mem'. release_slab (Inr ()) t (sl_groups_at sp + sizeof_group * i) g (sl_page_pool sp) mem1 p = Some (ST_OK, g', pool', mem') \<and>
    group_ok i g' \<and> same_pool (sl_page_pool sp) pool' \<and> slab_desc (sp\<lparr>sl_page_pool := pool'\<rparr>) mem' (upd_slabs Q i b (xs @ ys)) {} \<and>
    live_objs (sp\<lparr>sl_page_pool := pool'\<rparr>) mem' (upd_slabs Q i b (xs @ ys)) = (\<Union>q \<in> masters Q - {p}. slab_objs (sl_page_pool sp) mem q) \<and>
    outside (slab_meta sp) mem mem'"
proof -
  let ?pool = "sl_page_pool sp" and ?base = "sl_groups_at sp" and ?Q = "upd_slabs Q i b (xs @ ys)"
  note good = slab_descD(1)[OF assms(1)] and run = slab_pageD(1)[OF assms(4)]
  have n: "0 < n" "page_cnt (pm_pages mem1) p = int n" using run_nonnull[OF good run] by (auto simp: mem1_def)
  obtain ln where ln: "st_list_remove (pm_list mem) (page_ln p) = Some ln" "lists_ok ?base ln ?Q"
    "\<forall>a. a \<notin> heads_of ?base \<union> page_ln ` masters Q \<longrightarrow> ln a = pm_list mem a"
    using lists_remove[OF slab_descD(3)[OF assms(1)] assms(2) slab_apart[OF assms(1)] assms(3) slab_heads_apart[OF assms(1)]] by blast
  let ?m = "mark_pages (pm_pages mem1) p NULL NULL"
  let ?mem = "mem1\<lparr>pm_list := ln, pm_pages := ?m\<rparr>"
  note ap = mark_pages_apply[of "pm_pages mem1" p n NULL NULL, OF n(2,1)]
  have f1: "pool_fields (pm_pages mem) (pm_pages mem1)" by (simp add: pool_fields_def mem1_def)
  have f: "pool_fields (pm_pages mem) ?m" using pool_fields_trans[OF f1 mark_pages_fields[of "pm_pages mem1" p n, OF n(2,1)]] .
  note gone = slab_move(3,5)[OF assms(1-3)]
  have eq: "?m x = pm_pages mem x" if "x \<notin> page_range p n" for x
    unfolding ap using that page_range_start[OF n(1), of p] by (auto simp: mem1_def)
  have memb: "q \<in> set (?Q j c) \<longleftrightarrow> q \<in> set (Q j c)" if "q \<noteq> p" for j c q
    using that assms(3) by (cases "j = i \<and> c = b") auto
  have np: "p \<notin> set (?Q j c)" if "j \<in> slab_indices" for j c using gone(1) that by (auto simp: masters_def)
  have re: "slab_desc sp ?mem ?Q {}" "live_objs sp ?mem ?Q = (\<Union>q \<in> masters Q - {p}. slab_objs ?pool mem q) \<union>
      (if p \<in> masters ?Q then slab_objs ?pool ?mem p else {})"
    by (rule slab_rewrite[OF assms(1) run, of ?mem ?Q "{}"]; use f eq ln(2,3) memb np in \<open>simp add: mem1_def\<close>)+
  have run1: "(p, n) \<in> allocated_runs ?pool ?mem" using run run_set_fields[of mem ?mem] f by simp
  have inv: "pool_inv ?pool ?mem" and geo: "pool_geometry ?pool" using slab_descD(1)[OF re(1)] by (simp_all add: pool_good_def)
  obtain ret pool' mem' where fr: "st_pagepool_free_pages (Inr ()) t ?pool ?mem p = Some (ret, pool', mem')" "pool_inv pool' mem'"
    "same_pool ?pool pool'" "keeps (all_pages ?pool) (allocated_runs ?pool ?mem - {(p, n)}) (rt_sentinel (pp_free_pages ?pool)) ?mem mem'"
    "free_post ?pool ?mem p n (Inr ()) ret pool' mem'"
    using free_pages_ok[OF inv run1, of "Inr ()" t] by blast
  have ret: "ret = ST_OK" "allocated_runs pool' mem' = allocated_runs ?pool ?mem - {(p, n)}"
    using free_post_ok[OF fr(5)] by (simp_all only:)
  have good': "pool_good (pool', mem')" using fr(2,3) geo same_pool_geometry by (auto simp: pool_good_def)
  have l: "lists_ok ?base (pm_list mem') ?Q"
    by (rule lists_keeps[OF re(1) fr(4) pool_good_base[OF good] subset_refl refl _ subset_refl slab_descD(3)[OF re(1)]])
      (use gone(1) in auto)
  have k: "(q, k) \<in> allocated_runs pool' mem' \<and> (\<forall>x \<in> page_range q k. pm_pages mem' x = pm_pages ?mem x)"
    if "slab_page ?base ?pool ?mem j q k" "q \<in> masters ?Q" for j q k
  proof -
    have "(q, k) \<in> allocated_runs ?pool ?mem - {(p, n)}" using slab_pageD(1)[OF that(1)] that(2) gone(1) by auto
    then show ?thesis using ret(2) fr(4) unfolding keeps_def by blast
  qed
  have fin: "slab_desc (sp\<lparr>sl_page_pool := pool'\<rparr>) mem' ?Q {}" "live_objs (sp\<lparr>sl_page_pool := pool'\<rparr>) mem' ?Q = live_objs sp ?mem ?Q"
    by (rule slab_desc_pool[OF re(1) good' fr(3)]; rule k l; assumption)+
  have "pm_list mem1 = pm_list mem" by (simp add: mem1_def)
  then have "release_slab (Inr ()) t (?base + sizeof_group * i) g ?pool mem1 p = Some (ST_OK, st_slab_update_pages_stat g 0 1, pool', mem')"
    unfolding release_slab_def st_slab_clear_pages_group_master_def using ln(1) fr(1) ret(1) by simp
  moreover have "outside (slab_meta sp) mem ?mem" using lists_outside[OF good masters_pages[OF assms(1)], of ln mem ?m] ln(3) by (simp add: mem1_def outside_def)
  then have "outside (slab_meta sp) mem mem'" using keeps_outside[OF fr(4) pool_good_base[OF good] subset_refl same_pool_refl] outside_trans by blast
  ultimately show ?thesis using fin re(2) gone(1) fr(3) assms(6)
    by (intro exI[of _ "st_slab_update_pages_stat g 0 1"] exI[of _ pool'] exI[of _ mem']) simp
qed

section \<open>Freeing an object\<close>

lemma slab_was_full:
  "length (pg_bitmap pg) = 8 \<Longrightarrow> slab_bits b False pg \<Longrightarrow> st_slab_is_full pg = Some b"
  using slab_is_full_ok[of pg] by (auto simp: slab_bits_def split: if_splits)

text \<open>The slab keeps an object: it is a partial slab now.\<close>

lemma keep_slab_ok:
  assumes "slab_desc sp mem Q {}" "i \<in> slab_indices" "p \<in> set (Q i b)" "length bm = 8"
    "slab_bits False False ((pm_pages mem p)\<lparr>pg_bitmap := bm\<rparr>)"
  defines "m \<equiv> (pm_pages mem)(p := (pm_pages mem p)\<lparr>pg_bitmap := bm\<rparr>)" and "ga \<equiv> sl_groups_at sp + sizeof_group * i"
  shows "\<exists>ln Q'. (if b then do { ln \<leftarrow> st_list_remove (pm_list mem) (page_ln p); st_list_insert_last ln (slabs_partial ga) (page_ln p) }
      else Some (pm_list mem)) = Some ln \<and> slab_desc sp (mem\<lparr>pm_pages := m, pm_list := ln\<rparr>) Q' {} \<and>
    live_objs sp (mem\<lparr>pm_pages := m, pm_list := ln\<rparr>) Q' =
      (\<Union>q \<in> masters Q - {p}. slab_objs (sl_page_pool sp) mem q) \<union> slab_objs (sl_page_pool sp) (mem\<lparr>pm_pages := m, pm_list := ln\<rparr>) p \<and>
    outside (slab_meta sp) mem (mem\<lparr>pm_pages := m, pm_list := ln\<rparr>)"
proof -
  let ?base = "sl_groups_at sp"
  obtain xs ys where xy: "Q i b = xs @ p # ys" using assms(3) by (meson split_list)
  define Q' where "Q' = (if b then upd_slabs (upd_slabs Q i True (xs @ ys)) i False (Q i False @ [p]) else Q)"
  have "\<exists>ln. (if b then do { ln \<leftarrow> st_list_remove (pm_list mem) (page_ln p); st_list_insert_last ln (slabs_partial ga) (page_ln p) }
      else Some (pm_list mem)) = Some ln \<and> lists_ok ?base ln Q' \<and> (\<forall>a. a \<notin> heads_of ?base \<union> page_ln ` masters Q \<longrightarrow> ln a = pm_list mem a)"
  proof (cases b)
    case True
    then show ?thesis using slab_move(1)[OF assms(1,2) xy] by (auto simp: Q'_def head_at_def ga_def)
  qed (use slab_descD(3)[OF assms(1)] in \<open>simp add: Q'_def\<close>)
  then obtain ln where ln: "(if b then do { ln \<leftarrow> st_list_remove (pm_list mem) (page_ln p); st_list_insert_last ln (slabs_partial ga) (page_ln p) }
      else Some (pm_list mem)) = Some ln" "lists_ok ?base ln Q'" "\<And>a. a \<notin> heads_of ?base \<union> page_ln ` masters Q \<Longrightarrow> ln a = pm_list mem a"
    by blast
  have memb: "q \<in> set (Q' k c) \<longleftrightarrow> (if q = p then k = i \<and> c = False else q \<in> set (Q k c))" if k: "k \<in> slab_indices" for k c q
  proof (cases b)
    case True
    then show ?thesis using slab_move(2)[OF assms(1,2) xy k] by (simp add: Q'_def)
  next
    case False
    then show ?thesis using apart_slabsD[OF slab_apart[OF assms(1)] k assms(2), of c False] assms(3) by (auto simp: Q'_def)
  qed
  let ?mem = "mem\<lparr>pm_pages := m, pm_list := ln\<rparr>"
  have "slab_desc sp ?mem Q' {}" "live_objs sp ?mem Q' =
      (\<Union>q \<in> masters Q - {p}. slab_objs (sl_page_pool sp) mem q) \<union> slab_objs (sl_page_pool sp) ?mem p"
    unfolding m_def by (rule slab_set_bitmap[OF assms(1-3) empty_subsetI assms(4) ln(2) _ _ assms(5)]; rule ln(3) memb; assumption)+
  moreover have "outside (slab_meta sp) mem ?mem"
    by (rule lists_outside[OF slab_descD(1)[OF assms(1)] masters_pages[OF assms(1)]]) (use ln(3) in blast)
  ultimately show ?thesis using ln(1) by (intro exI[of _ ln] exI[of _ Q'] conjI)
qed

text \<open>The objects that stay.\<close>

lemma free_live:
  assumes "slab_desc sp mem Q {}" "p \<in> masters Q" "x \<in> slab_objs (sl_page_pool sp) mem p"
  shows "(\<Union>q \<in> masters Q - {p}. slab_objs (sl_page_pool sp) mem q) \<union> (slab_objs (sl_page_pool sp) mem p - {x}) = live_objs sp mem Q - {x}"
proof -
  have "x \<notin> (\<Union>q \<in> masters Q - {p}. slab_objs (sl_page_pool sp) mem q)" using slab_objs_split[OF assms(1,2) _ _ assms(3)] by auto
  then show ?thesis unfolding live_objs_at[OF assms(2), of sp mem] by blast
qed

lemma free_obj_body_ok:
  assumes "slab_desc sp mem Q {}" "i \<in> slab_indices" "p \<in> set (Q i b)" "slab_page (sl_groups_at sp) (sl_page_pool sp) mem i p n" "group_ok i g"
    "st_pagepool_page_to_addr (sl_page_pool sp) (pm_pages mem) p = (ST_OK, Some b0)"
    "j < slab_nbits (pm_pages mem p)" "bm_bit (pg_bitmap (pm_pages mem p)) j"
  defines "s \<equiv> nat (pg_obj_size (pm_pages mem p))"
  shows "\<exists>g' pool' mem' Q'. free_obj_body (Inr ()) t (sl_groups_at sp + sizeof_group * i) g (sl_page_pool sp) mem p (b0 + j * s) =
      Some (ST_OK, g', pool', mem') \<and> group_ok i g' \<and> same_pool (sl_page_pool sp) pool' \<and>
    slab_desc (sp\<lparr>sl_page_pool := pool'\<rparr>) mem' Q' {} \<and>
    live_objs (sp\<lparr>sl_page_pool := pool'\<rparr>) mem' Q' = live_objs sp mem Q - {(b0 + j * s, s)} \<and> outside (slab_meta sp) mem mem'"
proof -
  let ?pool = "sl_page_pool sp" and ?ga = "sl_groups_at sp + sizeof_group * i" and ?pg = "pm_pages mem p" and ?x = "(b0 + j * s, s)"
  note good = slab_descD(1)[OF assms(1)]
  have pm: "p \<in> masters Q" using assms(2,3) masters_in by blast
  have p0: "p \<noteq> NULL" using run_nonnull[OF good slab_pageD(1)[OF assms(4)]] by blast
  have s0: "0 < pg_obj_size ?pg" and len: "length (pg_bitmap ?pg) = 8" using slab_page_nbits(2)[OF assms(4,2)] slab_pageD(4)[OF assms(4)] .
  have "Suc j * s \<le> n * nat (pp_page_size ?pool)" using slab_fits[OF good assms(4) s0 assms(7)] by (simp only: s_def)
  moreover have "b0 + n * nat (pp_page_size ?pool) < 2 ^ 64" using slab_base[OF good slab_pageD(1)[OF assms(4)]] assms(6) by auto
  ultimately have "b0 + j * s < 2 ^ 64" unfolding mult_Suc by linarith
  then obtain bm where bm: "st_slab_clear_bitmap_by_addr g ?pool (pm_pages mem) p (b0 + j * s) =
      Some (ST_OK, (pm_pages mem)(p := ?pg\<lparr>pg_bitmap := bm\<rparr>))" "length bm = 8" "\<And>k. bm_bit bm k \<longleftrightarrow> k \<noteq> j \<and> bm_bit (pg_bitmap ?pg) k"
    using clear_bitmap_ok[OF assms(4,2,5) p0 assms(7,6)] assms(8) unfolding s_def by auto
  let ?pg' = "?pg\<lparr>pg_bitmap := bm\<rparr>" and ?m = "(pm_pages mem)(p := ?pg\<lparr>pg_bitmap := bm\<rparr>)" and ?g = "st_slab_update_obj_stat g 0 1"
  have nb: "slab_nbits ?pg' = slab_nbits ?pg" by (simp add: slab_nbits_def is_huge_obj_pages_def)
  have full: "st_slab_is_full ?pg = Some b" using slab_was_full[OF len] slab_descD(4)[OF assms(1-3)] by auto
  define af where "af = (\<forall>k < slab_nbits ?pg. \<not> bm_bit bm k)"
  have af: "st_slab_is_all_free ?pg' = Some af" using slab_is_all_free_ok[of ?pg'] bm(2) nb by (simp add: af_def)
  have objs: "slab_objs ?pool mem' p = slab_objs ?pool mem p - {?x}" if "pm_pages mem' p = ?pg'" for mem'
    using slab_objs_bit(3)[OF assms(6) s0 that assms(7)] bm(3) unfolding s_def by blast
  have x: "?x \<in> slab_objs ?pool mem p" using slab_objs_bit(1)[OF assms(6) s0 _ assms(7), of mem "pg_bitmap ?pg"] assms(8) by (simp add: s_def)
  note live = free_live[OF assms(1) pm x]
  show ?thesis
  proof (cases af)
    case True
    obtain xs ys where xy: "Q i b = xs @ p # ys" using assms(3) by (meson split_list)
    obtain g' pool' mem' where r: "release_slab (Inr ()) t ?ga ?g ?pool (mem\<lparr>pm_pages := ?m\<rparr>) p = Some (ST_OK, g', pool', mem')" "group_ok i g'"
      "same_pool ?pool pool'" "slab_desc (sp\<lparr>sl_page_pool := pool'\<rparr>) mem' (upd_slabs Q i b (xs @ ys)) {}"
      "live_objs (sp\<lparr>sl_page_pool := pool'\<rparr>) mem' (upd_slabs Q i b (xs @ ys)) = (\<Union>q \<in> masters Q - {p}. slab_objs ?pool mem q)"
      "outside (slab_meta sp) mem mem'"
      using release_slab_ok[OF assms(1,2) xy assms(4) bm(2), of ?g t] assms(5) by auto
    have "slab_objs ?pool (mem\<lparr>pm_pages := ?m\<rparr>) p = {}" using True nb by (intro no_objs) (simp add: af_def)
    then have "slab_objs ?pool mem p - {?x} = {}" using objs[of "mem\<lparr>pm_pages := ?m\<rparr>", simplified] by (simp only:)
    then have "live_objs (sp\<lparr>sl_page_pool := pool'\<rparr>) mem' (upd_slabs Q i b (xs @ ys)) = live_objs sp mem Q - {?x}" using r(5) live by (simp only: Un_empty_right)
    moreover have "free_obj_body (Inr ()) t ?ga g ?pool mem p (b0 + j * s) = Some (ST_OK, g', pool', mem')"
      unfolding free_obj_body_def using full bm(1) af True r(1) by simp
    ultimately show ?thesis using r(2-4,6) by blast
  next
    case False
    have "slab_bits False False ?pg'" using False bm(3) assms(7) nb by (auto simp: slab_bits_def af_def)
    then obtain ln Q' where k: "(if b then do { ln \<leftarrow> st_list_remove (pm_list mem) (page_ln p); st_list_insert_last ln (slabs_partial ?ga) (page_ln p) }
        else Some (pm_list mem)) = Some ln" "slab_desc sp (mem\<lparr>pm_pages := ?m, pm_list := ln\<rparr>) Q' {}"
      "live_objs sp (mem\<lparr>pm_pages := ?m, pm_list := ln\<rparr>) Q' =
        (\<Union>q \<in> masters Q - {p}. slab_objs ?pool mem q) \<union> slab_objs ?pool (mem\<lparr>pm_pages := ?m, pm_list := ln\<rparr>) p"
      "outside (slab_meta sp) mem (mem\<lparr>pm_pages := ?m, pm_list := ln\<rparr>)"
      using keep_slab_ok[OF assms(1-3) bm(2)] by blast
    let ?mem = "mem\<lparr>pm_pages := ?m, pm_list := ln\<rparr>"
    have "live_objs sp ?mem Q' = live_objs sp mem Q - {?x}" unfolding k(3) objs[of ?mem, simplified] live ..
    moreover have "free_obj_body (Inr ()) t ?ga g ?pool mem p (b0 + j * s) = Some (ST_OK, ?g, ?pool, ?mem)"
      unfolding free_obj_body_def using full bm(1) af False k(1) by (cases b) (auto simp: bind_eq_Some_conv)
    ultimately show ?thesis using k(2,4) assms(5)
      by (intro exI[of _ ?g] exI[of _ ?pool] exI[of _ ?mem] exI[of _ Q']) (simp add: same_pool_refl)
  qed
qed


lemma page_to_addr_lock [simp]:
  "st_pagepool_page_to_addr (pool\<lparr>pp_regions_lock := l\<rparr>) m p = st_pagepool_page_to_addr pool m p"
  by (simp add: st_pagepool_page_to_addr_def)

lemma slab_regions_lock:
  assumes "slab_desc sp mem Q Z" "lock_free lock"
  defines "sp' \<equiv> sp\<lparr>sl_page_pool := (sl_page_pool sp)\<lparr>pp_regions_lock := lock\<rparr>\<rparr>"
  shows "slab_desc sp' mem Q Z" "live_objs sp' mem Q = live_objs sp mem Q" "same_pool (sl_page_pool sp) (sl_page_pool sp')"
proof -
  let ?pool = "(sl_page_pool sp)\<lparr>pp_regions_lock := lock\<rparr>"
  show sm: "same_pool (sl_page_pool sp) (sl_page_pool sp')" by (simp add: sp'_def same_pool_def region_pages_def same_layout_def)
  obtain L where L: "pool_desc (sl_page_pool sp) mem L" and geo: "pool_geometry (sl_page_pool sp)"
    using slab_descD(1)[OF assms(1)] by (auto simp: pool_good_def pool_inv_def)
  have base: "pool_base (sl_page_pool sp)" using L by (simp add: pool_desc_def)
  note parts = pool_parts[OF base]
  have same: "pool_regions ?pool = pool_regions (sl_page_pool sp)" "region_pages ?pool = region_pages (sl_page_pool sp)"
    by (simp_all add: pool_regions_def region_pages_def)
  then have pages: "all_pages ?pool = all_pages (sl_page_pool sp)" by (simp add: all_pages_def)
  have runs: "run_set ?pool mem f = run_set (sl_page_pool sp) mem f" for f unfolding run_set_def pages ..
  have "regions_ok ?pool" using parts(1) assms(2) by (simp add: regions_ok_def same(1))
  then have "pool_base ?pool" by (rule pool_base_update[OF base _ parts(2) same_layout_refl]) (simp_all add: parts(3,4) same(1))
  moreover have "free_index ?pool mem (all_pages ?pool) (fst ` free_runs ?pool mem)" unfolding pages runs
    by (rule free_index_cong[of "sl_page_pool sp" mem]) (use L in \<open>simp_all add: pool_desc_def\<close>)
  ultimately have "pool_desc ?pool mem L" using L by (simp add: pool_desc_def same)
  moreover have "pool_geometry ?pool" using geo by (simp add: pool_geometry_def same(2))
  ultimately have g: "pool_good (?pool, mem)" by (auto simp: pool_good_def pool_inv_def)
  have k: "(p, n) \<in> allocated_runs ?pool mem \<and> (\<forall>x \<in> page_range p n. pm_pages mem x = pm_pages mem x)"
    if "slab_page (sl_groups_at sp) (sl_page_pool sp) mem i p n" "p \<in> masters Q" for i p n
    using slab_pageD(1)[OF that(1)] runs[of False] by blast
  have sm': "same_pool (sl_page_pool sp) ?pool" using sm by (simp add: sp'_def)
  show "slab_desc sp' mem Q Z" "live_objs sp' mem Q = live_objs sp mem Q" unfolding sp'_def
    by (rule slab_desc_pool[OF assms(1) g sm']; rule k slab_descD(3)[OF assms(1)]; assumption)+
qed

lemma live_obj_slab:
  assumes "slab_desc sp mem Q Z" "(a, s) \<in> live_objs sp mem Q"
  shows "\<exists>i b p n b0 j. i \<in> slab_indices \<and> p \<in> set (Q i b) \<and> slab_page (sl_groups_at sp) (sl_page_pool sp) mem i p n \<and>
    st_pagepool_page_to_addr (sl_page_pool sp) (pm_pages mem) p = (ST_OK, Some b0) \<and> j < slab_nbits (pm_pages mem p) \<and>
    bm_bit (pg_bitmap (pm_pages mem p)) j \<and> s = nat (pg_obj_size (pm_pages mem p)) \<and> a = b0 + j * s \<and>
    b0 \<le> a \<and> a < b0 + n * nat (pp_page_size (sl_page_pool sp))"
proof -
  let ?pool = "sl_page_pool sp"
  note good = slab_descD(1)[OF assms(1)]
  obtain i b p where p: "i \<in> slab_indices" "p \<in> set (Q i b)" "(a, s) \<in> slab_objs ?pool mem p"
    using assms(2) by (auto simp: live_objs_def masters_def)
  obtain n where n: "slab_page (sl_groups_at sp) ?pool mem i p n" using slab_descD(4)[OF assms(1) p(1,2)] by blast
  obtain b0 where b0: "st_pagepool_page_to_addr ?pool (pm_pages mem) p = (ST_OK, Some b0)" using slab_base[OF good slab_pageD(1)[OF n]] by blast
  obtain j where j: "j < slab_nbits (pm_pages mem p)" "bm_bit (pg_bitmap (pm_pages mem p)) j" "a = b0 + j * s" "s = nat (pg_obj_size (pm_pages mem p))"
    using p(3) b0 by (auto simp: slab_objs_def Let_def)
  have s0: "0 < pg_obj_size (pm_pages mem p)" using slab_page_nbits(2)[OF n p(1)] .
  have "Suc j * s \<le> n * nat (pp_page_size ?pool)" using slab_fits[OF good n s0 j(1)] unfolding j(4) .
  then have "a < b0 + n * nat (pp_page_size ?pool)" using s0 unfolding mult_Suc j(3) j(4)[symmetric] by (simp add: j(4))
  then show ?thesis using p(1,2) n b0 j by (intro exI[of _ i] exI[of _ b] exI[of _ p] exI[of _ n] exI[of _ b0] exI[of _ j]) simp
qed

lemma slab_obj_free_ok:
  assumes "slab_desc sp mem Q {}" "(a, s) \<in> live_objs sp mem Q"
  shows "\<exists>sp' mem' Q'. st_slab_obj_free (Inr ()) t sp mem a = Some (ST_OK, sp', mem') \<and> slab_desc sp' mem' Q' {} \<and>
    same_pool (sl_page_pool sp) (sl_page_pool sp') \<and> sl_groups_at sp' = sl_groups_at sp \<and> outside (slab_meta sp) mem mem' \<and>
    live_objs sp' mem' Q' = live_objs sp mem Q - {(a, s)}"
proof -
  let ?pool = "sl_page_pool sp"
  note good = slab_descD(1)[OF assms(1)] and fix1 = slab_descD(2)[OF assms(1)]
  obtain i b p n b0 j where o: "i \<in> slab_indices" "p \<in> set (Q i b)" "slab_page (sl_groups_at sp) ?pool mem i p n"
    "st_pagepool_page_to_addr ?pool (pm_pages mem) p = (ST_OK, Some b0)" "j < slab_nbits (pm_pages mem p)"
    "bm_bit (pg_bitmap (pm_pages mem p)) j" "s = nat (pg_obj_size (pm_pages mem p))" "a = b0 + j * s"
    "b0 \<le> a" "a < b0 + n * nat (pp_page_size ?pool)" using live_obj_slab[OF assms] by (elim exE conjE)
  note run = slab_pageD(1)[OF o(3)]
  have al: "page_aligned ?pool" using fix1 by (simp add: slab_fixed_def)
  obtain x lock where x: "st_pagepool_addr_to_page t ?pool (ADDR_PAGE_BASE a (pp_page_size ?pool)) = Some (ST_OK, Some x, ?pool\<lparr>pp_regions_lock := lock\<rparr>)"
    "lock_free lock" "x \<in> page_range p n" using page_of_addr[OF good al run o(4,9,10)] by blast
  have base: "sl_groups_at sp \<noteq> NULL" using fix1 unfolding slab_fixed_def by (elim conjE)
  note mp = master_of_page[OF good o(3) base x(3)] and ix = slab_page_index[OF good o(3,1)]
  let ?sp = "sp\<lparr>sl_page_pool := ?pool\<lparr>pp_regions_lock := lock\<rparr>\<rparr>" and ?g = "sl_groups sp ! i" and ?ga = "sl_groups_at sp + sizeof_group * i"
  note d1 = slab_regions_lock[OF assms(1) x(2)]
  have g: "group_ok i ?g" using fix1 o(1) by (simp add: slab_fixed_def)
  obtain n1 where n1: "slab_page (sl_groups_at ?sp) (sl_page_pool ?sp) mem i p n1" using slab_descD(4)[OF d1(1) o(1,2)] by blast
  have "st_pagepool_page_to_addr (sl_page_pool ?sp) (pm_pages mem) p = (ST_OK, Some b0)" using o(4) by simp
  then obtain g' pool' mem' Q' where b: "free_obj_body (Inr ()) t ?ga ?g (sl_page_pool ?sp) mem p a = Some (ST_OK, g', pool', mem')" "group_ok i g'"
    "same_pool (sl_page_pool ?sp) pool'" "slab_desc (?sp\<lparr>sl_page_pool := pool'\<rparr>) mem' Q' {}"
    "live_objs (?sp\<lparr>sl_page_pool := pool'\<rparr>) mem' Q' = live_objs sp mem Q - {(a, s)}" "outside (slab_meta ?sp) mem mem'"
    using free_obj_body_ok[OF d1(1) o(1,2) n1 g _ o(5,6), of b0 t] d1(2) unfolding o(7)[symmetric] o(8)[symmetric] by auto
  have "lock_free (sg_lock ?g)" using g by (simp add: group_ok_def)
  from with_lock_ok[OF this, of t "(ST_OK, g', pool', mem')"] obtain l where
    l: "with_lock t (sg_lock ?g) (Some (ST_OK, g', pool', mem')) = Some ((ST_OK, g', pool', mem'), l)" "lock_free l" by blast
  let ?sp' = "(?sp\<lparr>sl_page_pool := pool'\<rparr>)\<lparr>sl_groups := (sl_groups (?sp\<lparr>sl_page_pool := pool'\<rparr>))[i := g'\<lparr>sg_lock := l\<rparr>]\<rparr>"
  have "st_slab_free_obj_from_group (Inr ()) t ?ga ?g (sl_page_pool ?sp) mem p a = Some (ST_OK, g'\<lparr>sg_lock := l\<rparr>, pool', mem')"
    unfolding st_slab_free_obj_from_group_def b(1) l(1) by simp
  moreover have "a \<noteq> NULL" "p \<noteq> NULL" "pg_master (pm_pages mem p) = ?ga"
    using slab_pageD(2)[OF o(3)] run_nonnull[OF good run] base_nonnull[OF good run o(4)] o(9) by simp_all
  ultimately have "st_slab_obj_free (Inr ()) t sp mem a = Some (ST_OK, ?sp', mem')"
    using x(1) mp ix by (simp add: st_slab_obj_free_def group_addr_def)
  moreover have "slab_desc ?sp' mem' Q' {}" "live_objs ?sp' mem' Q' = live_objs (?sp\<lparr>sl_page_pool := pool'\<rparr>) mem' Q'"
    by (rule slab_desc_group[OF b(4) group_lock[OF l(2) b(2)]])+
  moreover have "same_pool ?pool pool'" using d1(3) b(3) by (simp add: same_pool_def same_layout_def)
  moreover have "slab_meta ?sp = slab_meta sp" by (rule slab_meta_pool(1)) (use d1(3) in simp)
  ultimately show ?thesis using b(5,6) by (intro exI[of _ ?sp'] exI[of _ mem'] exI[of _ Q']) simp
qed

end
