(* ===== verification/Slab_Api.thy ===== *)
theory Slab_Api
  imports Slab_Free
begin

text \<open>
  The slab allocator as its callers see it: the invariant and the objects in use as functions of the
  memory, initialisation, the allocator interface, histories, and the properties.
\<close>

section \<open>The objects in use\<close>

lemma lseg_unique: "lseg m h xs t \<Longrightarrow> lseg m h ys t \<Longrightarrow> t \<notin> set xs \<Longrightarrow> t \<notin> set ys \<Longrightarrow> xs = ys"
proof (induction xs arbitrary: h ys)
  case Nil
  then show ?case by (cases ys) auto
next
  case (Cons x xs)
  then show ?case by (cases ys) auto
qed

lemma clist_unique: "clist m h xs \<Longrightarrow> clist m h ys \<Longrightarrow> xs = ys"
  unfolding clist_def using lseg_unique[of m h xs h ys] by auto

lemma page_ln_inj: "inj page_ln"
  by (auto simp: page_ln_def intro: injI)

lemma lists_unique: "lists_ok base ln Q \<Longrightarrow> lists_ok base ln Q' \<Longrightarrow> i \<in> slab_indices \<Longrightarrow> Q i b = Q' i b"
  unfolding lists_ok_def using clist_unique[of ln "head_at base i b" "map page_ln (Q i b)" "map page_ln (Q' i b)"]
  by (metis map_injective page_ln_inj)

lemma live_unique: "slab_desc sp mem Q Z \<Longrightarrow> slab_desc sp mem Q' Z' \<Longrightarrow> live_objs sp mem Q = live_objs sp mem Q'"
  using lists_unique[OF slab_descD(3) slab_descD(3), of sp mem Q Z Q' Z'] by (simp add: live_objs_def masters_def)

definition slab_inv :: "st_slab_pool \<Rightarrow> page_mem \<Rightarrow> bool" where
  "slab_inv sp mem \<longleftrightarrow> (\<exists>Q. slab_desc sp mem Q {})"

text \<open>The addresses and the sizes of the objects in use.\<close>

definition slab_live :: "st_slab_pool \<Rightarrow> page_mem \<Rightarrow> (addr \<times> nat) set" where
  "slab_live sp mem = {x. \<exists>Q. slab_desc sp mem Q {} \<and> x \<in> live_objs sp mem Q}"

lemma slab_live_eq: "slab_desc sp mem Q {} \<Longrightarrow> slab_live sp mem = live_objs sp mem Q"
  unfolding slab_live_def using live_unique by blast

lemma slab_invI: "slab_desc sp mem Q {} \<Longrightarrow> slab_inv sp mem"
  unfolding slab_inv_def by blast

section \<open>Initialisation\<close>

definition zero_group :: st_slab_group where
  "zero_group = \<lparr>sg_stat_obj = \<lparr>ss_free = 0, ss_alloc = 0\<rparr>, sg_stat_pages = \<lparr>ss_free = 0, ss_alloc = 0\<rparr>,
     sg_stat_current = \<lparr>ss_free = 0, ss_alloc = 0\<rparr>, sg_start_time = 0, sg_obj_size = 0, sg_page_pool = NULL,
     sg_inited = False, sg_lock = mutex_new\<rparr>"

lemma group_init_ok:
  assumes "base \<noteq> NULL" "pp \<noteq> NULL" "\<not> sg_inited g"
  shows "\<exists>g' ln'. st_slab_group_init (Inr now) 0 (base + sizeof_group * i) g ln (2 ^ i) pp = Some (ST_OK, g', ln') \<and> group_ok i g' \<and>
    (\<forall>b. clist ln' (head_at base i b) []) \<and> (\<forall>a. a \<notin> range (head_at base i) \<longrightarrow> ln' a = ln a)"
proof -
  let ?h = "head_at base i"
  have nn: "?h b \<noteq> NULL" for b by (simp add: head_at_def slab_head_def slabs_full_def slabs_partial_def)
  have ne: "?h True \<noteq> ?h False" by simp
  obtain l1 where l1: "st_list_init ln (?h True) = Some l1" "clist l1 (?h True) []" "\<forall>a. a \<noteq> ?h True \<longrightarrow> l1 a = ln a"
    using list_init_clist[OF nn] by blast
  obtain l2 where l2: "st_list_init l1 (?h False) = Some l2" "clist l2 (?h False) []" "\<forall>a. a \<noteq> ?h False \<longrightarrow> l2 a = l1 a"
    using list_init_clist[OF nn] by blast
  have "clist l2 (?h True) []" by (rule clist_frame[OF l1(2)]) (use l2(3) ne in auto)
  then have c: "clist l2 (?h b) []" for b using l2(2) by (cases b) auto
  have f: "l2 a = ln a" if "a \<notin> range ?h" for a using l1(3) l2(3) that by (metis rangeI)
  obtain lock where k: "st_robustlock_init 0 (sg_lock g) = (ST_OK, lock)" "lock_free lock"
    by (simp add: st_robustlock_init_def lock_free_def mutex_new_def)
  have "base + sizeof_group * i \<noteq> NULL" using assms(1) by simp
  then have "st_slab_group_init (Inr now) 0 (base + sizeof_group * i) g ln (2 ^ i) pp =
      Some (ST_OK, g\<lparr>sg_obj_size := 2 ^ i, sg_page_pool := pp, sg_start_time := now, sg_lock := lock, sg_inited := True\<rparr>, l2)"
    using assms(2,3) l1(1) l2(1) k(1) by (simp add: st_slab_group_init_def head_at_def)
  then show ?thesis using c f k(2) assms(2)
    by (intro exI[of _ "g\<lparr>sg_obj_size := 2 ^ i, sg_page_pool := pp, sg_start_time := now, sg_lock := lock, sg_inited := True\<rparr>"] exI[of _ l2])
      (simp add: group_ok_def)
qed

lemma init_loop_ok:
  assumes "sl_groups_at sp \<noteq> NULL" "sl_pool_at sp \<noteq> NULL" "distinct ks" "set ks \<subseteq> {..<length (sl_groups sp)}"
    "\<forall>i \<in> set ks. \<not> sg_inited (sl_groups sp ! i)" "\<forall>i. \<exists>now. time_r i = Inr now"
  shows "\<exists>gs ln'. pool_init_loop time_r (\<lambda>_. 0) ks sp ln = Some (ST_OK, sp\<lparr>sl_groups := gs\<rparr>, ln') \<and> length gs = length (sl_groups sp) \<and>
    (\<forall>i. if i \<in> set ks then group_ok i (gs ! i) \<and> (\<forall>b. clist ln' (head_at (sl_groups_at sp) i b) []) else gs ! i = sl_groups sp ! i) \<and>
    (\<forall>a. (\<forall>i \<in> set ks. \<forall>b. a \<noteq> head_at (sl_groups_at sp) i b) \<longrightarrow> ln' a = ln a)"
  using assms
proof (induction ks arbitrary: sp ln)
  case Nil
  then show ?case by (intro exI[of _ "sl_groups sp"] exI[of _ ln]) simp
next
  case (Cons i ks)
  let ?base = "sl_groups_at sp"
  obtain now where now: "time_r i = Inr now" using Cons.prems(6) by blast
  obtain g l1 where g: "st_slab_group_init (Inr now) 0 (?base + sizeof_group * i) (sl_groups sp ! i) ln (2 ^ i) (sl_pool_at sp) = Some (ST_OK, g, l1)"
    "group_ok i g" "\<And>b. clist l1 (head_at ?base i b) []" "\<And>a. a \<notin> range (head_at ?base i) \<Longrightarrow> l1 a = ln a"
    using group_init_ok[OF Cons.prems(1,2), of "sl_groups sp ! i" now i ln] Cons.prems(5) by auto
  let ?sp = "sp\<lparr>sl_groups := (sl_groups sp)[i := g]\<rparr>"
  have "(sl_groups sp)[i := g] ! j = sl_groups sp ! j" if "j \<in> set ks" for j using Cons.prems(3) that by (cases "j = i") auto
  then have fresh: "\<forall>j \<in> set ks. \<not> sg_inited (sl_groups ?sp ! j)" using Cons.prems(5) by simp
  have sat: "sl_groups_at ?sp = ?base" "length (sl_groups ?sp) = length (sl_groups sp)" "sl_pool_at ?sp = sl_pool_at sp" by simp_all
  have "distinct ks" "set ks \<subseteq> {..<length (sl_groups sp)}" using Cons.prems(3,4) by auto
  from Cons.IH[of ?sp l1, unfolded sat, OF Cons.prems(1,2) this fresh Cons.prems(6)] obtain gs l2 where
    r: "pool_init_loop time_r (\<lambda>_. 0) ks ?sp l1 = Some (ST_OK, ?sp\<lparr>sl_groups := gs\<rparr>, l2)" "length gs = length (sl_groups sp)"
    "\<forall>j. if j \<in> set ks then group_ok j (gs ! j) \<and> (\<forall>b. clist l2 (head_at ?base j b) []) else gs ! j = sl_groups ?sp ! j"
    "\<forall>a. (\<forall>j \<in> set ks. \<forall>b. a \<noteq> head_at ?base j b) \<longrightarrow> l2 a = l1 a"
    by (elim exE conjE)
  have i: "i \<notin> set ks" "i < length (sl_groups sp)" using Cons.prems(3,4) by auto
  then have gi: "gs ! i = g" using spec[OF r(3), of i] by simp
  have ci: "clist l2 (head_at ?base i b) []" for b
  proof (rule clist_frame[OF g(3)])
    fix a assume "a \<in> set [head_at ?base i b]"
    then show "l2 a = l1 a" using i(1) by (intro r(4)[rule_format]) auto
  qed
  have "if j \<in> set (i # ks) then group_ok j (gs ! j) \<and> (\<forall>b. clist l2 (head_at ?base j b) []) else gs ! j = sl_groups sp ! j" for j
    using spec[OF r(3), of j] gi g(2) ci by (cases "j = i") auto
  moreover have "l2 a = ln a" if a: "\<forall>j \<in> set (i # ks). \<forall>b. a \<noteq> head_at ?base j b" for a
    using spec[OF r(4), of a] g(4)[of a] a by auto
  moreover have "pool_init_loop time_r (\<lambda>_. 0) (i # ks) sp ln = Some (ST_OK, sp\<lparr>sl_groups := gs\<rparr>, l2)"
    using g(1) r(1) now by (simp add: group_addr_def)
  ultimately show ?case using r(2) by (intro exI[of _ gs] exI[of _ l2]) simp
qed

text \<open>What the callers of \<^verbatim>\<open>st_slab_pool_init\<close> provide: a pool outside the regions, with zeroed groups, over
  a page pool whose pages are aligned.\<close>

definition slab_placed :: "st_slab_pool \<Rightarrow> bool" where
  "slab_placed sp \<longleftrightarrow> sl_groups_at sp \<noteq> NULL \<and> sl_pool_at sp \<noteq> NULL \<and>
     heads_of (sl_groups_at sp) \<inter> region_area (pp_region_cb (sl_page_pool sp)) = {} \<and> page_aligned (sl_page_pool sp) \<and>
     512 \<le> pp_page_size (sl_page_pool sp) \<and> pp_page_size (sl_page_pool sp) \<le> 2 ^ 31"

definition slab_raw :: "st_slab_pool \<Rightarrow> bool" where
  "slab_raw sp \<longleftrightarrow> length (sl_groups sp) = ST_SLAB_GROUP_CNT \<and> (\<forall>g \<in> set (sl_groups sp). \<not> sg_inited g)"

lemma slab_init_ok:
  assumes "pool_good (sl_page_pool sp, mem)" "slab_placed sp" "slab_raw sp"
  shows "\<exists>gs ln. st_slab_pool_init (\<lambda>i. Inr (now i)) (\<lambda>_. 0) sp (pm_list mem) = Some (ST_OK, sp\<lparr>sl_groups := gs\<rparr>, ln) \<and>
    slab_desc (sp\<lparr>sl_groups := gs\<rparr>) (mem\<lparr>pm_list := ln\<rparr>) (\<lambda>_ _. []) {}"
proof -
  let ?base = "sl_groups_at sp"
  define ks where "ks = [3..<13::nat]"
  have ks: "set ks = slab_indices" "distinct ks" "[ST_SLAB_OBJ_SIZE_MIN_SHIFT ..< ST_SLAB_GROUP_CNT] = ks"
    unfolding slab_indices_def ks_def slab_consts by (simp_all only: set_upt distinct_upt) simp
  have p: "?base \<noteq> NULL" "sl_pool_at sp \<noteq> NULL" using assms(2) by (simp_all add: slab_placed_def)
  have len: "length (sl_groups sp) = 13" using assms(3) by (simp add: slab_raw_def slab_consts)
  have "set ks \<subseteq> {..<length (sl_groups sp)}" "\<forall>i \<in> set ks. \<not> sg_inited (sl_groups sp ! i)"
    using assms(3) len unfolding ks(1) by (auto simp: slab_raw_def slab_indices_def)
  from init_loop_ok[OF p ks(2) this, of "\<lambda>i. Inr (now i)" "pm_list mem", unfolded len] obtain gs ln where
    r: "pool_init_loop (\<lambda>i. Inr (now i)) (\<lambda>_. 0) ks sp (pm_list mem) = Some (ST_OK, sp\<lparr>sl_groups := gs\<rparr>, ln)" "length gs = 13"
    "\<forall>i. if i \<in> set ks then group_ok i (gs ! i) \<and> (\<forall>b. clist ln (head_at ?base i b) []) else gs ! i = sl_groups sp ! i"
    "\<forall>a. (\<forall>i \<in> set ks. \<forall>b. a \<noteq> head_at ?base i b) \<longrightarrow> ln a = pm_list mem a"
    by blast
  let ?sp = "sp\<lparr>sl_groups := gs\<rparr>"
  have grp: "group_ok i (gs ! i)" "clist ln (head_at ?base i b) []" if "i \<in> slab_indices" for i b
    using spec[OF r(3), of i] that unfolding ks(1) by simp_all
  have good: "pool_good (sl_page_pool sp, mem\<lparr>pm_list := ln\<rparr>)"
  proof (rule pool_good_fields[OF assms(1)])
    fix q n assume f: "(q, n) \<in> free_runs (sl_page_pool sp) mem"
    have "page_ln q \<in> region_area (pp_region_cb (sl_page_pool sp))"
      using in_all_pages_area[OF pool_good_base[OF assms(1)] run_page[OF f], of 112] by (simp add: page_ln_def sizeof_page_def)
    then have "page_ln q \<notin> heads_of ?base" using assms(2) unfolding slab_placed_def by blast
    then show "pm_list (mem\<lparr>pm_list := ln\<rparr>) (page_ln q) = pm_list mem (page_ln q)" using spec[OF r(4), of "page_ln q"] unfolding ks(1) heads_of_def by auto
  qed simp_all
  have "slab_fixed ?sp" using assms(2) r(2) grp(1) by (simp add: slab_fixed_def slab_placed_def)
  moreover have "lists_ok ?base ln (\<lambda>_ _. [])" using grp(2) by (simp add: lists_ok_def)
  ultimately have "slab_desc ?sp (mem\<lparr>pm_list := ln\<rparr>) (\<lambda>_ _. []) {}" using good by (simp add: slab_desc_def)
  then show ?thesis using r(1) unfolding st_slab_pool_init_def ks(3) by blast
qed

section \<open>The allocator interface\<close>

definition slab_good :: "st_slab_pool \<times> page_mem \<Rightarrow> bool" where
  "slab_good s \<longleftrightarrow> slab_inv (fst s) (snd s)"

definition slab_owned :: "st_slab_pool \<times> page_mem \<Rightarrow> (addr \<times> nat) set" where
  "slab_owned s = slab_live (fst s) (snd s)"

definition obj_area :: "st_slab_pool \<times> page_mem \<Rightarrow> addr \<Rightarrow> nat \<Rightarrow> addr set" where
  "obj_area s a n = {a ..< a + n}"

definition slab_take :: "nat \<Rightarrow> st_slab_pool \<times> page_mem \<Rightarrow> addr option \<Rightarrow> st_slab_pool \<times> page_mem \<Rightarrow> bool" where
  "slab_take c s r s' \<longleftrightarrow> (\<exists>madvise_r t tmp sz ret. tmp \<notin> region_area (pp_region_cb (sl_page_pool (fst s))) \<and> 0 < sz \<and> sz < 2 ^ 31 \<and>
     c = nat (obj_class sz) \<and> st_slab_obj_alloc madvise_r t tmp (fst s) (snd s) sz = Some (ret, r, fst s', snd s'))"

definition slab_give :: "addr \<Rightarrow> st_slab_pool \<times> page_mem \<Rightarrow> st_slab_pool \<times> page_mem \<Rightarrow> bool" where
  "slab_give a s s' \<longleftrightarrow> (\<exists>t ret. st_slab_obj_free (Inr ()) t (fst s) (snd s) a = Some (ret, fst s', snd s'))"

lemma slab_take_ok:
  assumes "slab_inv sp mem" "slab_take c (sp, mem) r (sp', mem')"
  shows "slab_inv sp' mem' \<and> slab_live sp' mem' = (case r of None \<Rightarrow> slab_live sp mem | Some a \<Rightarrow> insert (a, c) (slab_live sp mem))"
    "r = Some a \<Longrightarrow> (a, c) \<notin> slab_live sp mem"
proof -
  obtain Q where Q: "slab_desc sp mem Q {}" using assms(1) by (auto simp: slab_inv_def)
  obtain madvise_r t tmp sz ret where a: "tmp \<notin> region_area (pp_region_cb (sl_page_pool sp))" "0 < sz" "sz < 2 ^ 31" "c = nat (obj_class sz)"
    "st_slab_obj_alloc madvise_r t tmp sp mem sz = Some (ret, r, sp', mem')" using assms(2) by (auto simp: slab_take_def)
  obtain Q' where Q': "slab_desc sp' mem' Q' {}" "alloc_obj_post (obj_class sz) (live_objs sp mem Q) ret r (live_objs sp' mem' Q')"
    using slab_obj_alloc_ok[OF Q a(1-3), of madvise_r t] unfolding a(5) by auto
  note post = Q'(2)[unfolded alloc_obj_post_def a(4)[symmetric], folded slab_live_eq[OF Q] slab_live_eq[OF Q'(1)]]
  have "(\<exists>b. r = Some b \<and> (b, c) \<notin> slab_live sp mem \<and> slab_live sp' mem' = insert (b, c) (slab_live sp mem)) \<or>
    r = None \<and> slab_live sp' mem' = slab_live sp mem" using post by (cases "ret = ST_OK") (simp_all only: if_True if_False simp_thms)
  then show "slab_inv sp' mem' \<and> slab_live sp' mem' = (case r of None \<Rightarrow> slab_live sp mem | Some a \<Rightarrow> insert (a, c) (slab_live sp mem))"
    "r = Some a \<Longrightarrow> (a, c) \<notin> slab_live sp mem"
    using slab_invI[OF Q'(1)] by (elim disjE exE conjE; simp)+
qed

lemma slab_give_ok:
  assumes "slab_inv sp mem" "(a, n) \<in> slab_live sp mem" "slab_give a (sp, mem) (sp', mem')"
  shows "slab_inv sp' mem' \<and> slab_live sp' mem' = slab_live sp mem - {(a, n)}"
proof -
  obtain Q where Q: "slab_desc sp mem Q {}" using assms(1) by (auto simp: slab_inv_def)
  obtain t ret where f: "st_slab_obj_free (Inr ()) t sp mem a = Some (ret, sp', mem')" using assms(3) by (auto simp: slab_give_def)
  obtain Q' where "slab_desc sp' mem' Q' {}" "live_objs sp' mem' Q' = live_objs sp mem Q - {(a, n)}"
    using slab_obj_free_ok[OF Q, of a n t] assms(2) unfolding slab_live_eq[OF Q] f by auto
  then show ?thesis using slab_live_eq slab_invI Q by metis
qed

lemma slab_live_apart:
  assumes "slab_inv sp mem" "(a, n) \<in> slab_live sp mem" "(b, k) \<in> slab_live sp mem" "(a, n) \<noteq> (b, k)"
  shows "{a ..< a + n} \<inter> {b ..< b + k} = {}"
proof -
  obtain Q where Q: "slab_desc sp mem Q {}" using assms(1) by (auto simp: slab_inv_def)
  show ?thesis using live_objs_apart[OF Q] assms(2-4) unfolding slab_live_eq[OF Q] by blast
qed

interpretation slab_objects: run_allocator slab_good slab_owned obj_area slab_take slab_give
proof
  fix s a n b k assume "slab_good s" "(a, n) \<in> slab_owned s" "(b, k) \<in> slab_owned s" "(a, n) \<noteq> (b, k)"
  then show "obj_area s a n \<inter> obj_area s b k = {}"
    using slab_live_apart[of "fst s" "snd s" a n b k] by (simp add: slab_good_def slab_owned_def obj_area_def)
next
  fix s c r s' assume "slab_good s" "slab_take c s r s'"
  then show "slab_good s' \<and> slab_owned s' = (case r of None \<Rightarrow> slab_owned s | Some p \<Rightarrow> insert (p, c) (slab_owned s))"
    using slab_take_ok(1)[of "fst s" "snd s" c r "fst s'" "snd s'"] by (cases r) (simp_all add: slab_good_def slab_owned_def)
next
  fix s a n s' assume "slab_good s" "(a, n) \<in> slab_owned s" "slab_give a s s'"
  then show "slab_good s' \<and> slab_owned s' = slab_owned s - {(a, n)}"
    using slab_give_ok[of "fst s" "snd s" a n "fst s'" "snd s'"] by (simp add: slab_good_def slab_owned_def)
next
  fix s c r s' a n assume "slab_take c s r s'"
  show "obj_area s' a n = obj_area s a n" by (simp add: obj_area_def)
next
  fix s c p s' assume "slab_good s" "slab_take c s (Some p) s'"
  then show "(p, c) \<notin> slab_owned s"
    using slab_take_ok(2)[of "fst s" "snd s" c "Some p" "fst s'" "snd s'" p] by (simp add: slab_good_def slab_owned_def)
qed

text \<open>
  The histories of a slab pool: it is initialised over a fresh page pool, then objects are requested
  and the ones that were handed out are released.  \<open>H\<close> is what the callers hold.
\<close>

inductive slab_reach :: "st_slab_pool \<times> page_mem \<Rightarrow> (addr \<times> nat) set \<Rightarrow> bool" where
  slab_start: "pool_reach (sl_page_pool sp0, mem) {} \<Longrightarrow> slab_placed sp0 \<Longrightarrow> slab_raw sp0 \<Longrightarrow>
    st_slab_pool_init (\<lambda>i. Inr (now i)) (\<lambda>_. 0) sp0 (pm_list mem) = Some (ST_OK, sp, ln) \<Longrightarrow> slab_reach (sp, mem\<lparr>pm_list := ln\<rparr>) {}"
| slab_allocated: "slab_reach s H \<Longrightarrow> slab_take c s (Some p) s' \<Longrightarrow> slab_reach s' (insert (p, c) H)"
| slab_refused: "slab_reach s H \<Longrightarrow> slab_take c s None s' \<Longrightarrow> slab_reach s' H"
| slab_released: "slab_reach s H \<Longrightarrow> (p, n) \<in> H \<Longrightarrow> slab_give p s s' \<Longrightarrow> slab_reach s' (H - {(p, n)})"

lemma slab_reach_agrees: "slab_reach s H \<Longrightarrow> slab_objects.agrees s H"
proof (induction rule: slab_reach.induct)
  case (slab_start sp0 mem now sp ln)
  have good: "pool_good (sl_page_pool sp0, mem)" using pool_reach_agrees[OF slab_start(1)] unfolding pool_runs.agrees_def by simp
  from slab_init_ok[OF good slab_start(2,3), of now] have "slab_desc sp (mem\<lparr>pm_list := ln\<rparr>) (\<lambda>_ _. []) {}" unfolding slab_start(4) by auto
  then show ?case unfolding slab_objects.agrees_def using slab_live_eq slab_invI
    by (fastforce simp: slab_good_def slab_owned_def live_objs_def masters_def)
next
  case (slab_allocated s H c p s')
  then show ?case using slab_objects.agrees_take by blast
next
  case (slab_refused s H c s')
  then show ?case using slab_objects.agrees_refused by blast
next
  case (slab_released s H p n s')
  then show ?case using slab_objects.agrees_give by blast
qed

section \<open>Properties\<close>

text \<open>An allocation is refused because no slab of the group has room and the page pool refuses the pages of a new one.\<close>

definition slab_exhausted :: "unit sys \<Rightarrow> pid \<Rightarrow> addr \<Rightarrow> st_slab_pool \<Rightarrow> page_mem \<Rightarrow> int \<Rightarrow> st_error \<Rightarrow> bool" where
  "slab_exhausted madvise_r t tmp sp mem sz ret \<longleftrightarrow> (\<exists>i \<in> slab_indices. st_slab_size_to_index (word_of_int sz) = Inr (int i) \<and>
     st_list_empty (pm_list mem) (slabs_partial (group_addr sp i)) = Some True \<and>
     pool_answers madvise_r t tmp (sl_page_pool sp) mem (obj_class sz * (if i = 12 then 1 else 512)) ret)"

lemma slab_alloc_ok:
  assumes "slab_inv sp mem" "tmp \<notin> region_area (pp_region_cb (sl_page_pool sp))" "sz < 2 ^ 31"
  shows "\<exists>ret r sp' mem'. st_slab_obj_alloc madvise_r t tmp sp mem sz = Some (ret, r, sp', mem') \<and> slab_inv sp' mem' \<and>
    (if sz \<le> 0 then ret = ST_ARG_INVALID \<and> r = None \<and> sp' = sp \<and> mem' = mem
     else sz \<le> obj_class sz \<and> alloc_obj_post (obj_class sz) (slab_live sp mem) ret r (slab_live sp' mem') \<and>
       (ret = ST_OK \<or> slab_exhausted madvise_r t tmp sp mem sz ret))"
proof (cases "sz \<le> 0")
  case True
  then show ?thesis using assms(1) by (simp add: st_slab_obj_alloc_def)
next
  case False
  obtain Q where Q: "slab_desc sp mem Q {}" using assms(1) by (auto simp: slab_inv_def)
  have pos: "0 < sz" using False by simp
  have cls: "sz \<le> obj_class sz" using size_class[OF pos assms(3)] by blast
  from slab_obj_alloc_ok[OF Q assms(2) pos assms(3), of madvise_r t] obtain ret r sp' mem' Q' where
    a: "st_slab_obj_alloc madvise_r t tmp sp mem sz = Some (ret, r, sp', mem')" "slab_desc sp' mem' Q' {}"
    "alloc_obj_post (obj_class sz) (live_objs sp mem Q) ret r (live_objs sp' mem' Q')"
    "ret = ST_OK \<or> (\<exists>i \<in> slab_indices. st_slab_size_to_index (word_of_int sz) = Inr (int i) \<and> Q i False = [] \<and>
       pool_answers madvise_r t tmp (sl_page_pool sp) mem (obj_class sz * (if i = 12 then 1 else 512)) ret)" by (elim exE conjE)
  have "st_list_empty (pm_list mem) (slabs_partial (group_addr sp i)) = Some True" if "i \<in> slab_indices" "Q i False = []" for i
  proof -
    have "clist (pm_list mem) (head_at (sl_groups_at sp) i False) (map page_ln (Q i False))"
      using slab_descD(3)[OF Q] that(1) by (simp add: lists_ok_def)
    from clist_empty_iff[OF this] show ?thesis using that(2) by (simp add: head_at_def group_addr_def)
  qed
  then have "ret = ST_OK \<or> slab_exhausted madvise_r t tmp sp mem sz ret" using a(4) unfolding slab_exhausted_def by blast
  moreover have "alloc_obj_post (obj_class sz) (slab_live sp mem) ret r (slab_live sp' mem')"
    using a(3) unfolding slab_live_eq[OF Q] slab_live_eq[OF a(2)] .
  ultimately show ?thesis using a(1) slab_invI[OF a(2)] False cls by (intro exI[of _ ret] exI[of _ r] exI[of _ sp'] exI[of _ mem']) simp
qed

text \<open>
  C20: On a consistent slab pool \<^verbatim>\<open>st_slab_obj_alloc\<close> always returns for sizes below \<open>2^31\<close>.  A size that is
  not positive is refused and nothing changes.  Otherwise the caller gets an object that was not in
  use, of the smallest power of two from 8 to 2048 that holds the size, or of the size itself above
  2048, and no other object comes or goes; or no slab of the group has a free object and the answer
  is that of the page pool to the request for a new one.  The pool stays consistent.
\<close>

theorem slab_alloc_correct:
  assumes "slab_inv sp mem" "tmp \<notin> region_area (pp_region_cb (sl_page_pool sp))" "sz < 2 ^ 31"
  shows "\<exists>ret r sp' mem'. st_slab_obj_alloc madvise_r t tmp sp mem sz = Some (ret, r, sp', mem') \<and> slab_inv sp' mem' \<and>
    (if sz \<le> 0 then ret = ST_ARG_INVALID \<and> r = None \<and> sp' = sp \<and> mem' = mem
     else sz \<le> obj_class sz \<and> alloc_obj_post (obj_class sz) (slab_live sp mem) ret r (slab_live sp' mem') \<and>
       (ret = ST_OK \<or> slab_exhausted madvise_r t tmp sp mem sz ret))"
  using slab_alloc_ok[OF assms] .

text \<open>A slab pool over the two regions of the example, with its groups at 512.\<close>

definition demo_slab :: "st_pagepool \<Rightarrow> st_slab_pool" where
  "demo_slab pool = \<lparr>sl_page_pool = pool, sl_groups = replicate 13 zero_group, sl_pool_at = 256, sl_groups_at = 512\<rparr>"

lemma demo_slab_start:
  "\<exists>sp mem. slab_reach (sp, mem) {} \<and> free_runs (sl_page_pool sp) mem = {} \<and>
     allocated_runs (sl_page_pool sp) mem = {} \<and> pp_region_cb (sl_page_pool sp) = demo_rcb \<and>
     pp_pages_per_region (sl_page_pool sp) = 15 \<and> pp_page_size (sl_page_pool sp) = 65536 \<and> sl_groups_at sp = 512 \<and>
     rt_sentinel (pp_free_pages (sl_page_pool sp)) = 8"
proof -
  obtain pool rb where d: "pool_reach (pool, demo_mem rb) {}" "free_runs pool (demo_mem rb) = {}" "pp_region_cb pool = demo_rcb"
    "pp_pages_per_region pool = 15" "pp_page_size pool = 65536" "65536 dvd pp_space_base_offset pool"
    "rt_sentinel (pp_free_pages pool) = 8" using demo_start by blast
  let ?sp = "demo_slab pool"
  have al: "page_aligned pool" unfolding page_aligned_def d(3,5) using d(6) by (intro exI[of _ 16]) (simp add: demo_rcb_def)
  have "head_at 512 i b < 1048576" if "i \<in> slab_indices" for i b
    using that by (auto simp: head_at_def slab_head_def slabs_full_def slabs_partial_def sizeof_group_def slab_indices_def)
  then have "x < 1048576" if "x \<in> heads_of 512" for x using that by (auto simp: heads_of_def)
  then have "heads_of 512 \<inter> region_area demo_rcb = {}" by (force simp: region_area_def demo_rcb_def)
  then have pl: "slab_placed ?sp" using al d(3,5) by (simp add: slab_placed_def demo_slab_def)
  have raw: "slab_raw ?sp" by (simp add: slab_raw_def demo_slab_def slab_consts zero_group_def)
  have sp: "sl_page_pool ?sp = pool" by (simp add: demo_slab_def)
  have good: "pool_good (pool, demo_mem rb)" "allocated_runs pool (demo_mem rb) = {}"
    using pool_reach_agrees[OF d(1)] unfolding pool_runs.agrees_def by (simp_all add: pool_owned_def)
  obtain gs ln where i: "st_slab_pool_init (\<lambda>i. Inr 0) (\<lambda>_. 0) ?sp (pm_list (demo_mem rb)) = Some (ST_OK, ?sp\<lparr>sl_groups := gs\<rparr>, ln)"
    using slab_init_ok[OF _ pl raw, of "demo_mem rb" "\<lambda>_. 0"] good unfolding sp by blast
  have "slab_reach (?sp\<lparr>sl_groups := gs\<rparr>, (demo_mem rb)\<lparr>pm_list := ln\<rparr>) {}"
    by (rule slab_start[OF _ pl raw i]) (use d(1) sp in simp)
  moreover have "run_set pool ((demo_mem rb)\<lparr>pm_list := ln\<rparr>) f = {}" for f using d(2) good(2) by (cases f) (simp_all add: run_set_def)
  moreover have "sl_groups_at ?sp = 512" by (simp add: demo_slab_def)
  ultimately show ?thesis using d(3-5,7) sp
    by (intro exI[of _ "?sp\<lparr>sl_groups := gs\<rparr>"] exI[of _ "(demo_mem rb)\<lparr>pm_list := ln\<rparr>"]) simp
qed

lemma slab_reachD: "slab_reach (sp, mem) H \<Longrightarrow> slab_inv sp mem \<and> slab_live sp mem = H"
  using slab_reach_agrees[of "(sp, mem)" H] unfolding slab_objects.agrees_def by (simp add: slab_good_def slab_owned_def)

lemma slab_pool_inv: "slab_inv sp mem \<Longrightarrow> pool_good (sl_page_pool sp, mem)"
  by (auto simp: slab_inv_def dest: slab_descD(1))

text \<open>The answer of the page pool of the example to the first request.\<close>

lemma demo_answer:
  assumes "pool_inv pool mem" "free_runs pool mem = {}" "allocated_runs pool mem = {}" "pp_region_cb pool = demo_rcb"
    "pp_pages_per_region pool = 15" "pp_page_size pool = 65536" "pool_answers (Inr ()) 1 16 pool mem need ret" "0 < need" "need \<le> 983040"
  shows "ret = ST_OK"
proof -
  have t: "16 \<notin> region_area (pp_region_cb pool)" by (simp add: assms(4) region_area_def demo_rcb_def)
  let ?c = "(need + 65535) div 65536"
  have "st_align need 65536 div 65536 = ?c" using st_align_pow2_eq[of need 16] by simp
  then obtain r pool' mem' where a: "st_pagepool_alloc_pages (Inr ()) 1 16 pool mem ?c = Some (ret, r, pool', mem')"
    using assms(6,7) by (auto simp: pool_answers_def)
  have "0 < ?c" "?c \<le> 15" using assms(8,9) by simp_all
  then have "alloc_post pool mem (nat ?c) ret r pool' mem'" using alloc_pages_ok[OF assms(1) t, of "Inr ()" 1 ?c] unfolding a assms(5) by auto
  then show ?thesis using demo_alloc_post[OF _ assms(2-4)] by blast
qed

lemma demo_exhausted:
  assumes "slab_reach (sp, mem) {}" "free_runs (sl_page_pool sp) mem = {}" "allocated_runs (sl_page_pool sp) mem = {}"
    "pp_region_cb (sl_page_pool sp) = demo_rcb" "pp_pages_per_region (sl_page_pool sp) = 15" "pp_page_size (sl_page_pool sp) = 65536"
    "slab_exhausted (Inr ()) 1 16 sp mem sz ret" "0 < obj_class sz" "obj_class sz \<le> 1024"
  shows "ret = ST_OK"
proof -
  obtain need where "pool_answers (Inr ()) 1 16 (sl_page_pool sp) mem need ret" "0 < need" "need \<le> 983040"
    using assms(7-9) by (auto simp: slab_exhausted_def split: if_splits)
  moreover have "pool_inv (sl_page_pool sp) mem" using slab_pool_inv slab_reachD[OF assms(1)] by (simp add: pool_good_def)
  ultimately show ?thesis using demo_answer[OF _ assms(2-6)] by simp
qed

theorem slab_alloc_correct_witness:
  "\<exists>sp mem a sp' mem'. st_slab_obj_alloc (Inr ()) 1 16 sp mem 6 = Some (ST_OK, Some a, sp', mem') \<and>
    slab_live sp mem = {} \<and> slab_live sp' mem' = {(a, 8)} \<and> slab_inv sp' mem' \<and>
    st_slab_obj_alloc (Inr ()) 1 16 sp mem 0 = Some (ST_ARG_INVALID, None, sp, mem)"
proof -
  obtain sp mem where d: "slab_reach (sp, mem) {}" "free_runs (sl_page_pool sp) mem = {}" "allocated_runs (sl_page_pool sp) mem = {}"
    "pp_region_cb (sl_page_pool sp) = demo_rcb" "pp_pages_per_region (sl_page_pool sp) = 15" "pp_page_size (sl_page_pool sp) = 65536"
    using demo_slab_start by blast
  have t: "16 \<notin> region_area (pp_region_cb (sl_page_pool sp))" by (simp add: d(4) region_area_def demo_rcb_def)
  have inv: "slab_inv sp mem" "slab_live sp mem = {}" using slab_reachD[OF d(1)] by auto
  from slab_alloc_correct[OF inv(1) t, of 6 "Inr ()" 1] obtain ret r sp' mem' where
    a: "st_slab_obj_alloc (Inr ()) 1 16 sp mem 6 = Some (ret, r, sp', mem')" "slab_inv sp' mem'"
    "alloc_obj_post 8 {} ret r (slab_live sp' mem')" "ret = ST_OK \<or> slab_exhausted (Inr ()) 1 16 sp mem 6 ret"
    unfolding inv(2) by (auto simp: obj_class_def)
  have "ret = ST_OK" using a(4) demo_exhausted[OF d] by (auto simp: obj_class_def)
  then obtain p where "r = Some p" "slab_live sp' mem' = {(p, 8)}" using a(3) by (auto simp: alloc_obj_post_def)
  moreover have "st_slab_obj_alloc (Inr ()) 1 16 sp mem 0 = Some (ST_ARG_INVALID, None, sp, mem)"
    using slab_alloc_correct[OF inv(1) t, of 0 "Inr ()" 1] by auto
  ultimately show ?thesis using a(1,2) inv(2) \<open>ret = ST_OK\<close>
    by (intro exI[of _ sp] exI[of _ mem] exI[of _ p] exI[of _ sp'] exI[of _ mem']) simp
qed

text \<open>
  C21: On a consistent slab pool \<^verbatim>\<open>st_slab_obj_free\<close> of an object in use answers \<^verbatim>\<open>ST_OK\<close> when \<^verbatim>\<open>madvise\<close>
  succeeds.  The object, and no other, is not in use any more, and the pool stays consistent: the
  slab moves from the full to the partial list, or goes back to the page pool with its last object.
\<close>

theorem slab_free_correct:
  assumes "slab_inv sp mem" "(a, s) \<in> slab_live sp mem"
  shows "\<exists>sp' mem'. st_slab_obj_free (Inr ()) t sp mem a = Some (ST_OK, sp', mem') \<and> slab_inv sp' mem' \<and>
    slab_live sp' mem' = slab_live sp mem - {(a, s)}"
proof -
  obtain Q where Q: "slab_desc sp mem Q {}" using assms(1) by (auto simp: slab_inv_def)
  obtain sp' mem' Q' where f: "st_slab_obj_free (Inr ()) t sp mem a = Some (ST_OK, sp', mem')" "slab_desc sp' mem' Q' {}"
    "live_objs sp' mem' Q' = live_objs sp mem Q - {(a, s)}"
    using slab_obj_free_ok[OF Q, of a s t] assms(2) unfolding slab_live_eq[OF Q] by blast
  then show ?thesis using slab_invI[OF f(2)] slab_live_eq[OF Q] slab_live_eq[OF f(2)] by auto
qed

lemma demo_slab_reach: "\<exists>sp mem a. slab_reach (sp, mem) {(a, 8)}"
proof -
  obtain sp mem where d: "slab_reach (sp, mem) {}" "free_runs (sl_page_pool sp) mem = {}" "allocated_runs (sl_page_pool sp) mem = {}"
    "pp_region_cb (sl_page_pool sp) = demo_rcb" "pp_pages_per_region (sl_page_pool sp) = 15" "pp_page_size (sl_page_pool sp) = 65536"
    using demo_slab_start by blast
  have t: "16 \<notin> region_area (pp_region_cb (sl_page_pool sp))" by (simp add: d(4) region_area_def demo_rcb_def)
  have inv: "slab_inv sp mem" "slab_live sp mem = {}" using slab_reachD[OF d(1)] by auto
  from slab_alloc_ok[OF inv(1) t, of 6 "Inr ()" 1] obtain ret r sp' mem' where
    a: "st_slab_obj_alloc (Inr ()) 1 16 sp mem 6 = Some (ret, r, sp', mem')"
    "alloc_obj_post 8 {} ret r (slab_live sp' mem')" "ret = ST_OK \<or> slab_exhausted (Inr ()) 1 16 sp mem 6 ret"
    unfolding inv(2) by (auto simp: obj_class_def)
  have "ret = ST_OK" using a(3) demo_exhausted[OF d] by (auto simp: obj_class_def)
  then obtain p where "r = Some p" using a(2) by (auto simp: alloc_obj_post_def)
  then have "slab_take 8 (sp, mem) (Some p) (sp', mem')" unfolding slab_take_def using a(1) t
    by (intro exI[of _ "Inr ()"] exI[of _ 1] exI[of _ 16] exI[of _ 6] exI[of _ ret]) (simp add: obj_class_def)
  then show ?thesis using slab_allocated[OF d(1)] by blast
qed

theorem slab_free_correct_witness:
  "\<exists>sp mem a sp' mem'. slab_live sp mem = {(a, 8)} \<and> st_slab_obj_free (Inr ()) 1 sp mem a = Some (ST_OK, sp', mem') \<and>
    slab_live sp' mem' = {} \<and> slab_inv sp' mem'"
proof -
  obtain sp mem a where "slab_reach (sp, mem) {(a, 8)}" using demo_slab_reach by blast
  then have d: "slab_inv sp mem" "slab_live sp mem = {(a, 8)}" using slab_reachD by auto
  from slab_free_correct[OF d(1), of a 8 1] obtain sp' mem' where "st_slab_obj_free (Inr ()) 1 sp mem a = Some (ST_OK, sp', mem')"
    "slab_inv sp' mem'" "slab_live sp' mem' = {}" unfolding d(2) by auto
  then show ?thesis using d(2) by (intro exI[of _ sp] exI[of _ mem] exI[of _ a] exI[of _ sp'] exI[of _ mem']) simp
qed

lemma slab_live_inside:
  assumes "slab_inv sp mem" "(a, s) \<in> slab_live sp mem"
  shows "\<exists>(p, n) \<in> allocated_runs (sl_page_pool sp) mem. {a ..< a + s} \<subseteq> data_area (sl_page_pool sp, mem) p n"
    "{a ..< a + s} \<subseteq> region_area (pp_region_cb (sl_page_pool sp))" "0 < s"
proof -
  obtain Q where Q: "slab_desc sp mem Q {}" using assms(1) by (auto simp: slab_inv_def)
  note good = slab_descD(1)[OF Q]
  obtain p where p: "p \<in> masters Q" "(a, s) \<in> slab_objs (sl_page_pool sp) mem p"
    using assms(2) unfolding slab_live_eq[OF Q] by (auto simp: live_objs_def)
  obtain i n where i: "i \<in> slab_indices" "slab_page (sl_groups_at sp) (sl_page_pool sp) mem i p n" using masters_page[OF Q p(1)] by blast
  note area = slab_objs_area[OF good i(2) p(2) slab_page_nbits(2)[OF i(2,1)]]
  show "\<exists>(p, n) \<in> allocated_runs (sl_page_pool sp) mem. {a ..< a + s} \<subseteq> data_area (sl_page_pool sp, mem) p n"
    using slab_pageD(1)[OF i(2)] area(1) by blast
  show "{a ..< a + s} \<subseteq> region_area (pp_region_cb (sl_page_pool sp))"
    using area(1) data_area_inside(1)[OF good slab_pageD(1)[OF i(2)]] by blast
  show "0 < s" by (fact area(3))
qed



text \<open>
  C30: \<^verbatim>\<open>st_slab_size_to_index\<close> maps every positive size to one of the groups 3 to 12: a size of at most 2048
  to the group of the smallest power of two from 8 upwards that holds it, a larger one to group 12.
\<close>

theorem slab_size_class:
  fixes w :: u64
  assumes "0 < w"
  shows "\<exists>i. st_slab_size_to_index w = Inr (int i) \<and> 3 \<le> i \<and> i \<le> 12 \<and>
    (unat w \<le> 2048 \<longrightarrow> i \<le> 11 \<and> unat w \<le> 2 ^ i \<and> (3 < i \<longrightarrow> 2 ^ (i - 1) < unat w)) \<and> (2048 < unat w \<longrightarrow> i = 12)"
  using size_to_index_ok[OF assms] .

theorem slab_size_class_witness:
  "\<exists>i. st_slab_size_to_index (100 :: u64) = Inr (int i) \<and> i \<le> 11 \<and> 100 \<le> (2 :: nat) ^ i \<and> (2 :: nat) ^ (i - 1) < 100"
proof -
  have u: "unat (100 :: u64) = 100" by simp
  have p: "0 < (100 :: u64)" by simp
  obtain i where i: "st_slab_size_to_index (100 :: u64) = Inr (int i)" "3 \<le> i" "i \<le> 11" "100 \<le> (2 :: nat) ^ i" "3 < i \<longrightarrow> (2 :: nat) ^ (i - 1) < 100"
    using slab_size_class[OF p] unfolding u by auto
  have "i \<noteq> 3" using i(4) by auto
  then show ?thesis using i by auto
qed

text \<open>
  The number of pages of a large object is computed in 64 bits but passed to the page pool as an
  \<^verbatim>\<open>int\<close>, and its size is stored in 32 bits: a request of \<open>2^32\<close> pages and one byte gets a slab of a
  single page, which records objects of one byte.
\<close>

theorem slab_alloc_pages_truncates:
  assumes "slab_inv sp mem" "tmp \<notin> region_area (pp_region_cb (sl_page_pool sp))" "pp_page_size (sl_page_pool sp) \<le> 2 ^ 30"
  shows "\<exists>ret g pool' mem'. st_slab_alloc_pages madvise_r t tmp (group_addr sp 12) (sl_groups sp ! 12) (sl_page_pool sp) mem
      (2 ^ 32 * pp_page_size (sl_page_pool sp) + 1) 1 = Some (ret, g, pool', mem') \<and>
    (if ret = ST_OK then \<exists>p. (p, 1) \<notin> allocated_runs (sl_page_pool sp) mem \<and>
        allocated_runs pool' mem' = insert (p, 1) (allocated_runs (sl_page_pool sp) mem) \<and> pg_obj_size (pm_pages mem' p) = 1
     else pool_answers madvise_r t tmp (sl_page_pool sp) mem 1 ret)"
proof -
  let ?pool = "sl_page_pool sp" and ?base = "sl_groups_at sp" and ?ps = "pp_page_size (sl_page_pool sp)" and ?ga = "group_addr sp 12"
  obtain Q where Q: "slab_desc sp mem Q {}" using assms(1) by (auto simp: slab_inv_def)
  note good = slab_descD(1)[OF Q]
  have i: "12 \<in> slab_indices" by (simp add: slab_indices_def)
  obtain k where k: "?ps = 2 ^ k" and ps: "512 \<le> ?ps" using slab_descD(2)[OF Q] by (auto simp: slab_fixed_def page_aligned_def)
  have "st_align (2 ^ 32 * 2 ^ k + 1) (2 ^ k) = 2 ^ k * (2 ^ 32 + (2 ^ k :: int) div 2 ^ k)"
    unfolding st_align_pow2_eq by (simp add: div_add1_eq mult.commute)
  then have cnt: "st_align (2 ^ 32 * ?ps + 1) ?ps div ?ps = 2 ^ 32 + 1" unfolding k by simp
  have one: "st_align 1 ?ps div ?ps = 1" unfolding k st_align_pow2_eq by simp
  have c: "to_int32 (2 ^ 32 + 1) = 1" "to_int32 (2 ^ 32 * ?ps + 1) = 1" by (simp_all add: to_int32_def)
  from pool_alloc_step[OF good assms(2), of madvise_r t 1] obtain ret r pool' mem' where
    a: "st_pagepool_alloc_pages madvise_r t tmp ?pool mem 1 = Some (ret, r, pool', mem')" "pool_good (pool', mem')" "same_pool ?pool pool'"
    "keeps (all_pages pool') (allocated_runs ?pool mem) (rt_sentinel (pp_free_pages ?pool)) mem mem'"
    "if ret = ST_OK then \<exists>p. r = Some p \<and> 0 < (1 :: nat) \<and> (p, 1) \<notin> allocated_runs ?pool mem \<and>
        allocated_runs pool' mem' = insert (p, 1) (allocated_runs ?pool mem)
     else ret \<in> {ST_OUT_OF_MEMORY, ST_ARG_INVALID} \<and> allocated_runs pool' mem' = allocated_runs ?pool mem"
    unfolding of_nat_1 by (elim exE conjE)
  have g: "sg_page_pool (sl_groups sp ! 12) \<noteq> NULL" using slab_descD(2)[OF Q] i by (auto simp: slab_fixed_def group_ok_def)
  have fits: "?ps \<noteq> 0" "(2 ^ 32 * ?ps + 1) * 1 + ?ps - 1 < 2 ^ 63" using assms(3) ps by simp_all
  note start = st_slab_alloc_pages_def[of madvise_r t tmp ?ga "sl_groups sp ! 12" ?pool mem "2 ^ 32 * ?ps + 1" 1, unfolded mult_1_right cnt c Let_def]
  show ?thesis
  proof (cases "ret = ST_OK")
    case False
    then have "st_slab_alloc_pages madvise_r t tmp ?ga (sl_groups sp ! 12) ?pool mem (2 ^ 32 * ?ps + 1) 1 = Some (ret, sl_groups sp ! 12, pool', mem')"
      unfolding start using g fits a(1) by simp
    moreover have "pool_answers madvise_r t tmp ?pool mem 1 ret" unfolding pool_answers_def one using a(1) by blast
    ultimately show ?thesis using False by simp
  next
    case True
    then obtain p where p: "r = Some p" "(p, 1) \<notin> allocated_runs ?pool mem" "allocated_runs pool' mem' = insert (p, 1) (allocated_runs ?pool mem)"
      using a(5) by auto
    have run: "(p, 1) \<in> allocated_runs pool' mem'" and mono: "allocated_runs ?pool mem \<subseteq> allocated_runs pool' mem'" using p(3) by auto
    note desc = slab_after_alloc(1)[OF Q a(2-4) mono]
    have new: "p \<notin> masters Q" using fresh_run_no_master[OF Q mono run p(2)] .
    have sub: "insert p (masters Q) \<subseteq> all_pages pool'" using masters_pages[OF desc] run_page[OF run] by auto
    have apart: "heads_of ?base \<inter> page_ln ` insert p (masters Q) = {}"
      using heads_pages_apart[of "sp\<lparr>sl_page_pool := pool'\<rparr>" mem' "insert p (masters Q)"] a(2) slab_descD(2)[OF desc] sub by simp
    obtain ln where ln: "st_list_insert_last (pm_list mem') (head_at ?base 12 False) (page_ln p) = Some ln"
      using lists_insert[of ?base "pm_list mem'" Q 12 p False] slab_descD(3)[OF desc] i slab_apart[OF Q] new apart by auto
    let ?mm = "(pm_pages mem')(p := (pm_pages mem' p)\<lparr>pg_bitmap := replicate ST_PAGEPOOL_MAX_SLAB_CHUNK_CNT 0, pg_obj_size := 1\<rparr>)"
    let ?m = "st_slab_set_pages_group_master ?mm p ?ga"
    have n: "p \<noteq> NULL" "page_cnt ?mm p = int 1" using run_nonnull[OF a(2) run] by auto
    have "st_slab_alloc_pages madvise_r t tmp ?ga (sl_groups sp ! 12) ?pool mem (2 ^ 32 * ?ps + 1) 1 =
        Some (ST_OK, st_slab_update_pages_stat (sl_groups sp ! 12) 1 0, pool', mem'\<lparr>pm_pages := ?m, pm_list := ln\<rparr>)"
      unfolding start using g fits a(1) True p(1) n(1) ln by (simp add: upd_def head_at_def group_addr_def)
    moreover have "pg_obj_size (?m p) = 1" "pool_fields (pm_pages mem') ?m"
      using mark_pages_apply[of ?mm p 1 ?ga p, OF n(2)] by (simp_all add: st_slab_set_pages_group_master_def pool_fields_def)
    ultimately show ?thesis using p(2,3) run_set_fields[of mem' "mem'\<lparr>pm_pages := ?m, pm_list := ln\<rparr>" pool' False]
      by (intro exI[of _ ST_OK] exI[of _ "st_slab_update_pages_stat (sl_groups sp ! 12) 1 0"] exI[of _ pool']
          exI[of _ "mem'\<lparr>pm_pages := ?m, pm_list := ln\<rparr>"]) auto
  qed
qed

theorem slab_alloc_pages_truncates_witness:
  "\<exists>sp (mem :: page_mem) g p pool' mem'. pp_page_size (sl_page_pool sp) = 65536 \<and>
    st_slab_alloc_pages (Inr ()) 1 16 (group_addr sp 12) (sl_groups sp ! 12) (sl_page_pool sp) mem (2 ^ 48 + 1) 1 =
      Some (ST_OK, g, pool', mem') \<and> allocated_runs pool' mem' = {(p, 1)}"
proof -
  obtain sp mem where d: "slab_reach (sp, mem) {}" "free_runs (sl_page_pool sp) mem = {}" "allocated_runs (sl_page_pool sp) mem = {}"
    "pp_region_cb (sl_page_pool sp) = demo_rcb" "pp_pages_per_region (sl_page_pool sp) = 15" "pp_page_size (sl_page_pool sp) = 65536"
    using demo_slab_start by blast
  let ?pool = "sl_page_pool sp"
  have t: "16 \<notin> region_area (pp_region_cb ?pool)" by (simp add: d(4) region_area_def demo_rcb_def)
  have inv: "slab_inv sp mem" using slab_reachD[OF d(1)] by blast
  have sz: "2 ^ 32 * 65536 + 1 = (2 ^ 48 + 1 :: int)" by simp
  from slab_alloc_pages_truncates[OF inv t, of "Inr ()" 1, unfolded d(6) sz] obtain ret g pool' mem' where
    a: "st_slab_alloc_pages (Inr ()) 1 16 (group_addr sp 12) (sl_groups sp ! 12) ?pool mem (2 ^ 48 + 1) 1 = Some (ret, g, pool', mem')"
    "if ret = ST_OK then \<exists>p. (p, 1) \<notin> allocated_runs ?pool mem \<and> allocated_runs pool' mem' = insert (p, 1) (allocated_runs ?pool mem) \<and>
        pg_obj_size (pm_pages mem' p) = 1
     else pool_answers (Inr ()) 1 16 ?pool mem 1 ret" by auto
  have "ret = ST_OK"
  proof (rule ccontr)
    assume n: "ret \<noteq> ST_OK"
    then have "pool_answers (Inr ()) 1 16 ?pool mem 1 ret" using a(2) by simp
    then show False using n demo_answer[OF _ d(2-6), of 1 ret] slab_pool_inv[OF inv] by (simp add: pool_good_def)
  qed
  then obtain p where "allocated_runs pool' mem' = {(p, 1)}" using a(2) d(3) by auto
  then show ?thesis using a(1) d(6) \<open>ret = ST_OK\<close>
    by (intro exI[of _ sp] exI[of _ mem] exI[of _ g] exI[of _ p] exI[of _ pool'] exI[of _ mem']) simp
qed

end
