(* ===== verification/Str.thy ===== *)
theory Str
  imports St_Order "HOL-Library.Product_Lexorder" "HOL-Library.List_Lexorder"
begin

text \<open>
  \<^verbatim>\<open>src/str/str.h\<close>, \<^verbatim>\<open>src/str/str.c\<close> and \<^verbatim>\<open>src/inc/types.h\<close>: typed byte strings, their life cycle and
  their order.

  A string is a structure by value or, where the code compares the addresses of two of them, an
  address in a store of such structures; the bytes lie in a byte memory.  The members \<^verbatim>\<open>left\<close> and
  \<^verbatim>\<open>right\<close> of the unions, which the code never uses, are left out.
\<close>

section \<open>Types\<close>

definition ST_TYPES_UNKNOWN :: int where "ST_TYPES_UNKNOWN = - 1"
definition ST_TYPES_NIL :: int where "ST_TYPES_NIL = 0"
definition ST_TYPES_BOOLEAN :: int where "ST_TYPES_BOOLEAN = 1"
definition ST_TYPES_NUMBER :: int where "ST_TYPES_NUMBER = 3"
definition ST_TYPES_INTEGER :: int where "ST_TYPES_INTEGER = 19"
definition ST_TYPES_U64 :: int where "ST_TYPES_U64 = 35"
definition ST_TYPES_STRING :: int where "ST_TYPES_STRING = 4"
definition ST_TYPES_TABLE :: int where "ST_TYPES_TABLE = 23"

lemmas types_defs = ST_TYPES_UNKNOWN_def ST_TYPES_NIL_def ST_TYPES_BOOLEAN_def ST_TYPES_NUMBER_def
  ST_TYPES_INTEGER_def ST_TYPES_U64_def ST_TYPES_STRING_def ST_TYPES_TABLE_def

definition st_types_is_table :: "int \<Rightarrow> bool" where
  "st_types_is_table type \<longleftrightarrow> type = ST_TYPES_TABLE"

record st_str =
  str_type :: int
  str_len :: int
  str_capacity :: int
  str_bytes_owned :: bool
  str_bytes :: addr

section \<open>Bytes\<close>

type_synonym bytes = "addr \<Rightarrow> u8"

fun read_bytes :: "bytes \<Rightarrow> addr \<Rightarrow> nat \<Rightarrow> u8 list" where
  "read_bytes m a 0 = []"
| "read_bytes m a (Suc n) = m a # read_bytes m (a + 1) n"

fun write_bytes :: "bytes \<Rightarrow> addr \<Rightarrow> u8 list \<Rightarrow> bytes" where
  "write_bytes m a [] = m"
| "write_bytes m a (b # bs) = write_bytes (m(a := b)) (a + 1) bs"

text \<open>Little-endian integers.\<close>

fun le_value :: "u8 list \<Rightarrow> int" where
  "le_value [] = 0"
| "le_value (b # bs) = uint b + 256 * le_value bs"

fun le_bytes :: "nat \<Rightarrow> int \<Rightarrow> u8 list" where
  "le_bytes 0 v = []"
| "le_bytes (Suc n) v = word_of_int v # le_bytes n (v div 256)"

definition load_u64 :: "bytes \<Rightarrow> addr \<Rightarrow> int" where
  "load_u64 m a = le_value (read_bytes m a 8)"

definition load_int :: "bytes \<Rightarrow> addr \<Rightarrow> int" where
  "load_int m a = (let v = le_value (read_bytes m a 4) in if v < 2 ^ 31 then v else v - 2 ^ 32)"

text \<open>A \<^verbatim>\<open>double\<close> by its bit pattern: sign and magnitude, where the patterns above the infinities are
  not numbers.\<close>

definition double_nan :: "int \<Rightarrow> bool" where
  "double_nan v \<longleftrightarrow> v mod 2 ^ 63 > 2047 * 2 ^ 52"

definition double_key :: "int \<Rightarrow> int" where
  "double_key v = (if v < 2 ^ 63 then v else - (v - 2 ^ 63))"

definition double_less :: "int \<Rightarrow> int \<Rightarrow> bool" where
  "double_less v w \<longleftrightarrow> \<not> double_nan v \<and> \<not> double_nan w \<and> double_key v < double_key w"

definition double_cmp :: "int \<Rightarrow> int \<Rightarrow> int" where
  "double_cmp v w = (if double_less w v then 1 else if double_less v w then - 1 else 0)"

text \<open>\<^verbatim>\<open>memcmp\<close>: the sign of the first difference.\<close>

fun memcmp_loop :: "bytes \<Rightarrow> addr \<Rightarrow> addr \<Rightarrow> nat \<Rightarrow> int" where
  "memcmp_loop m a b 0 = 0"
| "memcmp_loop m a b (Suc n) = (if m a = m b then memcmp_loop m (a + 1) (b + 1) n else st_cmp (m a) (m b))"

section \<open>Life cycle\<close>

definition st_str_wrap_lcb :: "int \<Rightarrow> int \<Rightarrow> addr \<Rightarrow> st_str" where
  "st_str_wrap_lcb len capacity bytes = \<lparr>str_type = ST_TYPES_STRING, str_len = len, str_capacity = capacity,
     str_bytes_owned = False, str_bytes = bytes\<rparr>"

definition st_str_wrap_common :: "addr \<Rightarrow> int \<Rightarrow> int \<Rightarrow> st_str" where
  "st_str_wrap_common charptr type len = \<lparr>str_type = type, str_len = len,
     str_capacity = len + (if type = ST_TYPES_STRING then 1 else 0), str_bytes_owned = False, str_bytes = charptr\<rparr>"

text \<open>\<open>empty_str\<close> is the address of the empty C string; \<open>d\<close> is what \<^verbatim>\<open>malloc\<close> returns.\<close>

definition st_str_empty :: "addr \<Rightarrow> st_str" where
  "st_str_empty empty_str = st_str_wrap_lcb 0 1 empty_str"

definition st_str_init :: "addr \<Rightarrow> addr \<Rightarrow> st_str \<Rightarrow> int \<Rightarrow> (st_error \<times> st_str) option" where
  "st_str_init empty_str d s len = do {
     st_assert (len \<ge> 0);
     st_assert (\<not> str_bytes_owned s);
     if len = 0 then Some (ST_OK, st_str_empty empty_str)
     else if d = NULL then Some (ST_OUT_OF_MEMORY, s)
     else Some (ST_OK, s\<lparr>str_bytes := d, str_bytes_owned := True, str_len := len, str_capacity := len\<rparr>)
   }"

definition st_str_init_0 :: "addr \<Rightarrow> addr \<Rightarrow> st_str \<Rightarrow> int \<Rightarrow> (st_error \<times> st_str) option" where
  "st_str_init_0 empty_str d s len = do {
     st_assert (len \<ge> 0);
     (ret, s) \<leftarrow> st_str_init empty_str d s (len + 1);
     if ret \<noteq> ST_OK then Some (ret, s) else Some (ST_OK, s\<lparr>str_len := len\<rparr>)
   }"

text \<open>The second component is the block that \<^verbatim>\<open>free\<close> gets, if any.\<close>

definition st_str_destroy :: "st_str \<Rightarrow> st_str \<times> addr option" where
  "st_str_destroy s = (s\<lparr>str_type := - 1, str_bytes := NULL, str_bytes_owned := False, str_len := 0, str_capacity := 0\<rparr>,
     if str_bytes_owned s then Some (str_bytes s) else None)"

type_synonym strs = "addr \<Rightarrow> st_str"

definition st_str_ref :: "strs \<Rightarrow> addr \<Rightarrow> addr \<Rightarrow> strs option" where
  "st_str_ref sm s target = do {
     st_assert (s \<noteq> NULL);
     st_assert (target \<noteq> NULL);
     st_assert (\<not> str_bytes_owned (sm s));
     st_assert (s \<noteq> target);
     Some (sm(s := (sm target)\<lparr>str_bytes_owned := False\<rparr>))
   }"

definition st_str_copy :: "addr \<Rightarrow> addr \<Rightarrow> strs \<Rightarrow> bytes \<Rightarrow> addr \<Rightarrow> addr \<Rightarrow> (st_error \<times> strs \<times> bytes) option" where
  "st_str_copy empty_str d sm m str from = do {
     st_assert (str \<noteq> NULL);
     st_assert (from \<noteq> NULL);
     st_assert (\<not> str_bytes_owned (sm str));
     st_assert (str \<noteq> from);
     if str_capacity (sm from) = 0 then
       (if str_bytes_owned (sm from) then Some (ST_ARG_INVALID, sm, m)
        else Some (ST_OK, sm(str := sm from), m))
     else do {
       (ret, s) \<leftarrow> st_str_init empty_str d (sm str) (str_capacity (sm from));
       if ret \<noteq> ST_OK then Some (ret, sm(str := s), m)
       else
         let m = write_bytes m (str_bytes s) (read_bytes m (str_bytes (sm from)) (nat (str_capacity (sm from))))
         in Some (ST_OK, sm(str := s\<lparr>str_len := str_len (sm from), str_type := str_type (sm from)\<rparr>), m)
     }
   }"

text \<open>\<^verbatim>\<open>strlen\<close>; without a zero byte in reach it does not return.\<close>

partial_function (option) c_strlen :: "bytes \<Rightarrow> addr \<Rightarrow> int option" where
  "c_strlen m a = (if m a = 0 then Some 0 else Option.bind (c_strlen m (a + 1)) (\<lambda>n. Some (n + 1)))"

definition st_str_copy_cstr :: "addr \<Rightarrow> addr \<Rightarrow> st_str option \<Rightarrow> bytes \<Rightarrow> addr \<Rightarrow> (st_error \<times> st_str option \<times> bytes) option" where
  "st_str_copy_cstr empty_str d str m s =
    (case str of
       None \<Rightarrow> Some (ST_ARG_INVALID, None, m)
     | Some t \<Rightarrow>
         if str_bytes_owned t then Some (ST_INITTWICE, Some t, m)
         else if s = NULL then Some (ST_ARG_INVALID, Some t, m)
         else do {
           slen \<leftarrow> c_strlen m s;
           if slen = 0 then Some (ST_OK, Some (st_str_empty empty_str), m)
           else do {
             (ret, t) \<leftarrow> st_str_init_0 empty_str d t slen;
             if ret \<noteq> ST_OK then Some (ret, Some t, m)
             else Some (ST_OK, Some (t\<lparr>str_type := 0\<rparr>), write_bytes m (str_bytes t) (read_bytes m s (nat slen + 1)))
           }
         })"

definition st_str_seize :: "strs \<Rightarrow> addr \<Rightarrow> addr \<Rightarrow> st_error \<times> strs" where
  "st_str_seize sm str from =
    (if str = NULL then (ST_ARG_INVALID, sm)
     else if str_bytes_owned (sm str) then (ST_INITTWICE, sm)
     else if from = NULL then (ST_ARG_INVALID, sm)
     else if str = from then (ST_ARG_INVALID, sm)
     else
       let sm = sm(str := sm from)
       in (ST_OK, sm(from := (sm from)\<lparr>str_bytes_owned := False\<rparr>)))"

section \<open>Order\<close>

text \<open>The switch over the common type of two strings with bytes.\<close>

definition cmp_switch :: "bytes \<Rightarrow> st_str \<Rightarrow> st_str \<Rightarrow> int" where
  "cmp_switch m a b =
    (if str_type a = ST_TYPES_INTEGER then st_cmp (load_int m (str_bytes a)) (load_int m (str_bytes b))
     else if str_type a = ST_TYPES_U64 then st_cmp (load_u64 m (str_bytes a)) (load_u64 m (str_bytes b))
     else if str_type a = ST_TYPES_NUMBER then double_cmp (load_u64 m (str_bytes a)) (load_u64 m (str_bytes b))
     else if str_type a = ST_TYPES_BOOLEAN then st_cmp (m (str_bytes a)) (m (str_bytes b))
     else if str_type a = ST_TYPES_NIL then 0
     else memcmp_loop m (str_bytes a) (str_bytes b) (nat (min (str_len a) (str_len b))))"

text \<open>The error code that the comparison returns for a missing string or a table is a number like any other.\<close>

definition st_str_cmp :: "bytes \<Rightarrow> st_str option \<Rightarrow> st_str option \<Rightarrow> int" where
  "st_str_cmp m a b =
    (case (a, b) of
       (Some a, Some b) \<Rightarrow>
         if str_type a = ST_TYPES_TABLE \<or> str_type b = ST_TYPES_TABLE then st_error_val ST_ARG_INVALID
         else if str_type a - str_type b \<noteq> 0 then (if str_type a - str_type b > 0 then 1 else - 1)
         else if str_bytes a = NULL then (if str_bytes b = NULL then 0 else - 1)
         else if str_bytes b = NULL then 1
         else
           let ret = cmp_switch m a b
           in if ret \<noteq> 0 then (if ret > 0 then 1 else - 1) else st_cmp (str_len a) (str_len b)
     | _ \<Rightarrow> st_error_val ST_ARG_INVALID)"

definition st_str_increment :: "bytes \<Rightarrow> st_str \<Rightarrow> (st_error \<times> bytes) option" where
  "st_str_increment m str = do {
     st_assert (str_bytes str \<noteq> NULL);
     let a = str_bytes str;
     if str_type str = ST_TYPES_INTEGER then
       (if load_int m a = 2 ^ 31 - 1 then Some (ST_NUM_OVERFLOW, m)
        else Some (ST_OK, write_bytes m a (le_bytes 4 (load_int m a + 1))))
     else if str_type str = ST_TYPES_U64 then
       (if load_u64 m a = 2 ^ 64 - 1 then Some (ST_NUM_OVERFLOW, m)
        else Some (ST_OK, write_bytes m a (le_bytes 8 (load_u64 m a + 1))))
     else None
   }"

section \<open>The order of strings\<close>

text \<open>What a string stands for: its type, whether it has bytes, its number or its bytes, and its length.\<close>

type_synonym str_view = "int \<times> bool \<times> int \<times> u8 list \<times> int"

definition str_view :: "bytes \<Rightarrow> st_str \<Rightarrow> str_view" where
  "str_view m s =
    (let t = str_type s; a = str_bytes s in
     if a = NULL then (t, False, 0, [], 0)
     else if t = ST_TYPES_INTEGER then (t, True, load_int m a, [], str_len s)
     else if t = ST_TYPES_U64 then (t, True, load_u64 m a, [], str_len s)
     else if t = ST_TYPES_NUMBER then (t, True, double_key (load_u64 m a), [], str_len s)
     else if t = ST_TYPES_BOOLEAN then (t, True, uint (m a), [], str_len s)
     else if t = ST_TYPES_NIL then (t, True, 0, [], str_len s)
     else (t, True, 0, read_bytes m a (nat (str_len s)), str_len s))"

text \<open>The strings that may be keys: no tables, no lengths below zero, and no number that is not one.\<close>

definition str_key :: "bytes \<Rightarrow> st_str \<Rightarrow> bool" where
  "str_key m s \<longleftrightarrow> str_type s \<noteq> ST_TYPES_TABLE \<and> 0 \<le> str_len s \<and>
     (str_type s = ST_TYPES_NUMBER \<and> str_bytes s \<noteq> NULL \<longrightarrow> \<not> double_nan (load_u64 m (str_bytes s)))"

lemma length_read_bytes [simp]: "length (read_bytes m a n) = n"
  by (induction n arbitrary: a) auto

lemma st_cmp_Cons: "st_cmp (x # xs) (y # ys) = (if x = y then st_cmp xs ys else st_cmp x y)"
  by (auto simp: st_cmp_def)

lemma st_cmp_Pair: "st_cmp (a, b) (c, d) = (if a = c then st_cmp b d else st_cmp a c)"
  by (auto simp: st_cmp_def less_prod_def')

text \<open>\<^verbatim>\<open>memcmp\<close> over the shorter length, then the lengths: the order of dictionaries.\<close>

lemma memcmp_lex:
  "(let r = memcmp_loop m a b (min n k) in if r \<noteq> 0 then r else st_cmp n k) = st_cmp (read_bytes m a n) (read_bytes m b k)"
proof (induction "min n k" arbitrary: a b n k)
  case 0
  then show ?case by (cases n; cases k) (auto simp: st_cmp_def)
next
  case (Suc j)
  then obtain n' k' where nk: "n = Suc n'" "k = Suc k'" by (cases n; cases k) auto
  have l: "st_cmp (Suc n') (Suc k') = st_cmp n' k'" by (simp add: st_cmp_def)
  have j: "j = min n' k'" using Suc(2) nk by simp
  show ?case
  proof (cases "m a = m b")
    case True
    then have "memcmp_loop m a b (min n k) = memcmp_loop m (a + 1) (b + 1) (min n' k')" unfolding nk by simp
    then show ?thesis using Suc(1)[OF j, of "a + 1" "b + 1"] True unfolding nk l by (simp only: read_bytes.simps st_cmp_Cons if_True simp_thms)
  next
    case False
    then have "memcmp_loop m a b (min n k) = st_cmp (m a) (m b)" "st_cmp (m a) (m b) \<noteq> 0" unfolding nk by simp_all
    then show ?thesis using False unfolding nk by (simp only: Let_def read_bytes.simps st_cmp_Cons if_False if_True simp_thms)
  qed
qed

lemma st_cmp_then: "r = st_cmp v w \<Longrightarrow> (if r \<noteq> 0 then (if r > 0 then 1 else - 1) else st_cmp k l) = st_cmp (v, k) (w, l)"
  by (auto simp: st_cmp_Pair st_cmp_def)

lemma memcmp_then:
  assumes "0 \<le> k" "0 \<le> l"
  shows "(let r = memcmp_loop m a b (nat (min k l)) in if r \<noteq> 0 then (if r > 0 then 1 else - 1) else st_cmp k l) =
    st_cmp (read_bytes m a (nat k), k) (read_bytes m b (nat l), l)"
proof -
  let ?r = "memcmp_loop m a b (nat (min k l))" and ?c = "st_cmp (read_bytes m a (nat k)) (read_bytes m b (nat l))"
  have "nat (min k l) = min (nat k) (nat l)" "st_cmp (nat k) (nat l) = st_cmp k l" using assms by (auto simp: min_def st_cmp_def)
  then have c: "?c = (if ?r \<noteq> 0 then ?r else st_cmp k l)" using memcmp_lex[of m a b "nat k" "nat l"] by (simp only: Let_def)
  have r: "?c \<in> {- 1, 0, 1}" by (rule st_cmp_range)
  have eq: "read_bytes m a (nat k) = read_bytes m b (nat l) \<longleftrightarrow> ?c = 0" by simp
  have len: "k = l" if "?c = 0" using that assms eq length_read_bytes[of m a "nat k"] length_read_bytes[of m b "nat l"] by (metis nat_eq_iff)
  show ?thesis unfolding st_cmp_Pair Let_def using c r len eq by (auto split: if_splits)
qed

lemma double_cmp_key: "\<not> double_nan v \<Longrightarrow> \<not> double_nan w \<Longrightarrow> double_cmp v w = st_cmp (double_key v) (double_key w)"
  by (simp add: double_cmp_def double_less_def st_cmp_def)

lemma st_cmp_uint: "st_cmp (uint v) (uint w) = st_cmp v w"
  by (simp add: st_cmp_def word_less_def)

lemma str_view_type: "fst (str_view m s) = str_type s" "fst (snd (str_view m s)) \<longleftrightarrow> str_bytes s \<noteq> NULL"
  "str_bytes s = NULL \<Longrightarrow> str_view m s = (str_type s, False, 0, [], 0)"
  by (simp_all add: str_view_def Let_def)

lemma str_cmp_same_type:
  assumes "str_key m a" "str_key m b" "str_type a = str_type b" "str_bytes a \<noteq> NULL" "str_bytes b \<noteq> NULL"
  shows "st_str_cmp m (Some a) (Some b) = st_cmp (str_view m a) (str_view m b)"
proof -
  let ?t = "str_type b"
  have len: "0 \<le> str_len a" "0 \<le> str_len b" "?t \<noteq> ST_TYPES_TABLE" using assms(1-3) by (simp_all add: str_key_def)
  have cmp: "st_str_cmp m (Some a) (Some b) =
      (let ret = cmp_switch m a b in if ret \<noteq> 0 then (if ret > 0 then 1 else - 1) else st_cmp (str_len a) (str_len b))"
    using assms(3-5) len(3) unfolding st_str_cmp_def by simp
  have num: "st_str_cmp m (Some a) (Some b) = st_cmp (str_view m a) (str_view m b)"
    if "cmp_switch m a b = st_cmp v w" "str_view m a = (?t, True, v, [], str_len a)" "str_view m b = (?t, True, w, [], str_len b)" for v w
    unfolding cmp Let_def st_cmp_then[OF that(1)] that(2,3) by (simp add: st_cmp_Pair)
  consider "?t = ST_TYPES_INTEGER" | "?t = ST_TYPES_U64" | "?t = ST_TYPES_NUMBER" | "?t = ST_TYPES_BOOLEAN" | "?t = ST_TYPES_NIL"
    | (other) "?t \<notin> {ST_TYPES_INTEGER, ST_TYPES_U64, ST_TYPES_NUMBER, ST_TYPES_BOOLEAN, ST_TYPES_NIL}" by blast
  then show ?thesis
  proof cases
    case 1
    show ?thesis by (rule num) (use 1 assms(3-5) in \<open>simp_all add: cmp_switch_def str_view_def Let_def\<close>)
  next
    case 2
    show ?thesis by (rule num) (use 2 assms(3-5) in \<open>simp_all add: cmp_switch_def str_view_def types_defs Let_def\<close>)
  next
    case 3
    have "\<not> double_nan (load_u64 m (str_bytes a))" "\<not> double_nan (load_u64 m (str_bytes b))"
      using assms 3 unfolding str_key_def by auto
    then show ?thesis
      by (intro num[OF _ _ refl[THEN trans]]) (use 3 assms(3-5) in \<open>simp_all add: cmp_switch_def str_view_def double_cmp_key types_defs Let_def\<close>)
  next
    case 4
    show ?thesis by (rule num) (use 4 assms(3-5) in \<open>simp_all add: cmp_switch_def str_view_def st_cmp_uint types_defs Let_def\<close>)
  next
    case 5
    show ?thesis by (rule num) (use 5 assms(3-5) in \<open>simp_all add: cmp_switch_def str_view_def types_defs Let_def st_cmp_def\<close>)
  next
    case other
    then have v: "str_view m a = (?t, True, 0, read_bytes m (str_bytes a) (nat (str_len a)), str_len a)"
      "str_view m b = (?t, True, 0, read_bytes m (str_bytes b) (nat (str_len b)), str_len b)"
      "cmp_switch m a b = memcmp_loop m (str_bytes a) (str_bytes b) (nat (min (str_len a) (str_len b)))"
      using assms(3-5) by (simp_all add: str_view_def cmp_switch_def Let_def)
    show ?thesis unfolding cmp v memcmp_then[OF len(1,2)] by (simp only: st_cmp_Pair refl if_True)
  qed
qed

lemma str_cmp_view:
  assumes "str_key m a" "str_key m b"
  shows "st_str_cmp m (Some a) (Some b) = st_cmp (str_view m a) (str_view m b)"
proof -
  have t: "str_type a \<noteq> ST_TYPES_TABLE" "str_type b \<noteq> ST_TYPES_TABLE" using assms by (simp_all add: str_key_def)
  consider (diff) "str_type a \<noteq> str_type b" | (null) "str_type a = str_type b" "str_bytes a = NULL \<or> str_bytes b = NULL"
    | (same) "str_type a = str_type b" "str_bytes a \<noteq> NULL" "str_bytes b \<noteq> NULL" by blast
  then show ?thesis
  proof cases
    case diff
    obtain v w where "str_view m a = (str_type a, v)" "str_view m b = (str_type b, w)" using str_view_type(1) by (metis prod.collapse)
    then show ?thesis using diff t by (simp add: st_str_cmp_def st_cmp_Pair st_cmp_def)
  next
    case null
    define v w where "v = snd (snd (str_view m a))" and "w = snd (snd (str_view m b))"
    then have v: "str_view m a = (str_type a, str_bytes a \<noteq> NULL, v)" "str_view m b = (str_type a, str_bytes b \<noteq> NULL, w)"
      using str_view_type(1,2)[of m a] str_view_type(1,2)[of m b] null(1) by (simp_all add: prod_eq_iff)
    have "v = w" if "str_bytes a = NULL" "str_bytes b = NULL"
      using str_view_type(3)[OF that(1), of m] str_view_type(3)[OF that(2), of m] v by simp
    then show ?thesis unfolding v st_str_cmp_def using t null
      by (cases "str_bytes a = NULL"; cases "str_bytes b = NULL") (simp_all add: st_cmp_Pair st_cmp_def)
  next
    case same
    then show ?thesis using str_cmp_same_type[OF assms] by simp
  qed
qed

interpretation str_order: three_way "{s. str_key m s}" "\<lambda>a b. st_str_cmp m (Some a) (Some b)" for m
proof (unfold_locales, goal_cases)
  case (1 a b)
  then show ?case using st_cmp_key.sign[of a UNIV b "str_view m"] by (simp add: str_cmp_view)
next
  case (2 a b c)
  then show ?case using st_cmp_key.trans[of a UNIV b c "str_view m"] by (simp add: str_cmp_view)
next
  case (3 a b)
  then show ?case using st_cmp_range[of "str_view m a" "str_view m b"] by (simp add: str_cmp_view)
qed

section \<open>Properties\<close>



text \<open>
  \<^verbatim>\<open>st_str_copy_cstr\<close> gives its copies the type 0, which is the type of nil and not of strings: any two
  copies of C strings of the same positive length compare as equal, whatever their bytes.
\<close>

theorem str_copy_cstr_nil:
  assumes "c_strlen m s = Some n" "c_strlen m s' = Some n" "0 < n" "s \<noteq> NULL" "s' \<noteq> NULL" "d \<noteq> NULL" "d' \<noteq> NULL"
    "\<not> str_bytes_owned x" "\<not> str_bytes_owned y"
  shows "\<exists>t u m1 m2. st_str_copy_cstr e d (Some x) m s = Some (ST_OK, Some t, m1) \<and>
    st_str_copy_cstr e d' (Some y) m s' = Some (ST_OK, Some u, m2) \<and>
    str_type t = ST_TYPES_NIL \<and> str_len t = n \<and> str_len u = n \<and> st_str_cmp m' (Some t) (Some u) = 0"
  using assms by (simp add: st_str_copy_cstr_def st_str_init_0_def st_str_init_def st_str_cmp_def cmp_switch_def types_defs)

text \<open>The C strings \<^verbatim>\<open>"ab"\<close> at 8 and \<^verbatim>\<open>"xy"\<close> at 16.\<close>

definition two_cstrs :: bytes where
  "two_cstrs = (\<lambda>_. 0)(8 := 97, 9 := 98, 16 := 120, 17 := 121)"

lemma two_cstrs_len: "c_strlen two_cstrs 8 = Some 2" "c_strlen two_cstrs 16 = Some 2"
  by (simp_all add: c_strlen.simps two_cstrs_def)

theorem str_copy_cstr_nil_witness:
  "\<exists>t u m1 m2. st_str_copy_cstr 1 32 (Some (st_str_wrap_lcb 0 0 0)) two_cstrs 8 = Some (ST_OK, Some t, m1) \<and>
    st_str_copy_cstr 1 64 (Some (st_str_wrap_lcb 0 0 0)) two_cstrs 16 = Some (ST_OK, Some u, m2) \<and>
    st_str_cmp two_cstrs (Some t) (Some u) = 0 \<and> read_bytes two_cstrs 8 2 \<noteq> read_bytes two_cstrs 16 2"
proof -
  have "\<not> str_bytes_owned (st_str_wrap_lcb 0 0 0)" by (simp add: st_str_wrap_lcb_def)
  moreover have "read_bytes two_cstrs 8 2 \<noteq> read_bytes two_cstrs 16 2" unfolding numeral_2_eq_2 by (simp add: two_cstrs_def)
  ultimately show ?thesis
    using str_copy_cstr_nil[OF two_cstrs_len, of 32 64 "st_str_wrap_lcb 0 0 0" "st_str_wrap_lcb 0 0 0" 1 two_cstrs] by auto
qed

end
