(* ===== verification/Table.thy ===== *)
theory Table
  imports Slab_Api Str
begin

text \<open>
  \<^verbatim>\<open>src/table/table.h\<close>, \<^verbatim>\<open>src/table/table.c\<close> and the parts of \<^verbatim>\<open>src/gc/gc.h\<close> and \<^verbatim>\<open>src/gc/gc.c\<close> that tables call
  without running the collector: data, elements, search, iteration, creation and removal of tables.

  A table and an element are known by their addresses.  Their plain fields are in stores of their
  own; the embedded tree and list nodes are in the stores of the page pool at the offsets the
  structures give them, and the bytes of keys and values are in the byte memory.
\<close>

section \<open>Data\<close>

record st_table_element =
  te_key :: st_str
  te_value :: st_str

record st_table =
  tb_mark :: int
  tb_pool :: addr
  tb_elements :: st_rbtree
  tb_element_cnt :: int
  tb_version :: int
  tb_lock :: mutex
  tb_inited :: bool

text \<open>\<open>gc_queues\<close> is the address of the first of the five queue heads.\<close>

record st_gc =
  gc_roots :: "addr st_array"
  gc_queues :: addr
  gc_round :: int
  gc_start_usec :: int
  gc_end_usec :: int
  gc_begin :: bool
  gc_max_visit_cnt :: int
  gc_curr_visit_cnt :: int
  gc_max_free_cnt :: int
  gc_curr_free_cnt :: int
  gc_lock :: mutex

definition mark_queue :: "st_gc \<Rightarrow> addr" where "mark_queue gc = gc_queues gc"
definition prev_sweep_queue :: "st_gc \<Rightarrow> addr" where "prev_sweep_queue gc = gc_queues gc + 16"
definition sweep_queue :: "st_gc \<Rightarrow> addr" where "sweep_queue gc = gc_queues gc + 32"
definition garbage_queue :: "st_gc \<Rightarrow> addr" where "garbage_queue gc = gc_queues gc + 48"
definition remained_queue :: "st_gc \<Rightarrow> addr" where "remained_queue gc = gc_queues gc + 64"

text \<open>The pool of tables with everything in shared memory; \<open>w_at\<close> is its address.\<close>

record world =
  w_at :: addr
  w_slab :: st_slab_pool
  w_mem :: page_mem
  w_bytes :: bytes
  w_elems :: "addr \<Rightarrow> st_table_element"
  w_tables :: "addr \<Rightarrow> st_table"
  w_gc :: st_gc
  w_run_gc_periodical :: int
  w_table_cnt :: int

text \<open>The caller: its process, the addresses of the local variables of the page pool and of the
  search functions, and the results of its system calls.\<close>

record env =
  env_pid :: pid
  env_tmp :: addr
  env_target :: addr
  env_madvise :: "addr \<Rightarrow> unit sys"
  env_attr :: int
  env_time :: "nat \<Rightarrow> int sys"

definition sizeof_element :: nat where "sizeof_element = 112"
definition sizeof_table :: nat where "sizeof_table = 160"

text \<open>The gc head is the first member of a table, its list nodes are the first two members of it; the
  tree node is the first member of an element; \<^verbatim>\<open>elements.sentinel\<close> lies at 56.\<close>

definition mark_lnode :: "addr \<Rightarrow> addr" where "mark_lnode h = h"
definition sweep_lnode :: "addr \<Rightarrow> addr" where "sweep_lnode h = h + 16"
definition owner_mark :: "addr \<Rightarrow> addr" where "owner_mark a = a"
definition owner_sweep :: "addr \<Rightarrow> addr" where "owner_sweep a = a - 16"
definition table_sentinel :: "addr \<Rightarrow> addr" where "table_sentinel t = t + 56"
definition kv_data :: "addr \<Rightarrow> addr" where "kv_data e = e + sizeof_element"

abbreviation w_rb :: "world \<Rightarrow> rbmem" where "w_rb w \<equiv> pm_rb (w_mem w)"
abbreviation w_list :: "world \<Rightarrow> lmem" where "w_list w \<equiv> pm_list (w_mem w)"

definition set_rb :: "rbmem \<Rightarrow> world \<Rightarrow> world" where
  "set_rb rb w = w\<lparr>w_mem := (w_mem w)\<lparr>pm_rb := rb\<rparr>\<rparr>"

definition set_list :: "lmem \<Rightarrow> world \<Rightarrow> world" where
  "set_list ln w = w\<lparr>w_mem := (w_mem w)\<lparr>pm_list := ln\<rparr>\<rparr>"

definition upd_table :: "addr \<Rightarrow> (st_table \<Rightarrow> st_table) \<Rightarrow> world \<Rightarrow> world" where
  "upd_table t f w = w\<lparr>w_tables := (w_tables w)(t := f (w_tables w t))\<rparr>"

text \<open>A section under the lock of a table, and one under the lock of the collector.\<close>

definition with_table_lock :: "env \<Rightarrow> addr \<Rightarrow> world \<Rightarrow> (world \<Rightarrow> ('a \<times> world) option) \<Rightarrow> ('a \<times> world) option" where
  "with_table_lock env t w body = do {
     lock \<leftarrow> acquire (env_pid env) (tb_lock (w_tables w t));
     (r, w) \<leftarrow> body (upd_table t (tb_lock_update (\<lambda>_. lock)) w);
     lock \<leftarrow> st_robustlock_unlock (env_pid env) (tb_lock (w_tables w t));
     Some (r, upd_table t (tb_lock_update (\<lambda>_. lock)) w)
   }"

definition with_gc_lock :: "env \<Rightarrow> world \<Rightarrow> (world \<Rightarrow> ('a \<times> world) option) \<Rightarrow> ('a \<times> world) option" where
  "with_gc_lock env w body = do {
     lock \<leftarrow> acquire (env_pid env) (gc_lock (w_gc w));
     (r, w) \<leftarrow> body (w\<lparr>w_gc := (w_gc w)\<lparr>gc_lock := lock\<rparr>\<rparr>);
     lock \<leftarrow> st_robustlock_unlock (env_pid env) (gc_lock (w_gc w));
     Some (r, w\<lparr>w_gc := (w_gc w)\<lparr>gc_lock := lock\<rparr>\<rparr>)
   }"

section \<open>Marks and queues of the collector\<close>

definition st_gc_status_unknown :: "st_gc \<Rightarrow> int" where "st_gc_status_unknown gc = gc_round gc + 0"
definition st_gc_status_reachable :: "st_gc \<Rightarrow> int" where "st_gc_status_reachable gc = gc_round gc + 1"
definition st_gc_status_garbage :: "st_gc \<Rightarrow> int" where "st_gc_status_garbage gc = gc_round gc + 2"

definition st_gc_is_status_unknown :: "st_gc \<Rightarrow> int \<Rightarrow> bool" where
  "st_gc_is_status_unknown gc mark \<longleftrightarrow> mark \<le> st_gc_status_unknown gc"

definition st_gc_head_init :: "world \<Rightarrow> addr \<Rightarrow> world option" where
  "st_gc_head_init w h = do {
     ln \<leftarrow> upd (w_list w) (mark_lnode h) (\<lambda>_. \<lparr>l_prev = NULL, l_next = NULL\<rparr>);
     ln \<leftarrow> upd ln (sweep_lnode h) (\<lambda>_. \<lparr>l_prev = NULL, l_next = NULL\<rparr>);
     Some (upd_table h (tb_mark_update (\<lambda>_. st_gc_status_unknown (w_gc w))) (set_list ln w))
   }"

definition st_gc_push_to_mark :: "world \<Rightarrow> addr \<Rightarrow> (st_error \<times> world) option" where
  "st_gc_push_to_mark w h =
    (if h = NULL then Some (ST_ARG_INVALID, w)
     else if tb_mark (w_tables w h) = st_gc_status_reachable (w_gc w) then Some (ST_OK, w)
     else if st_list_is_inited (w_list w) (mark_lnode h) then Some (ST_OK, w)
     else do {
       ln \<leftarrow> st_list_insert_last (w_list w) (mark_queue (w_gc w)) (mark_lnode h);
       Some (ST_OK, set_list ln w)
     })"

definition st_gc_push_to_sweep :: "world \<Rightarrow> addr \<Rightarrow> (st_error \<times> world) option" where
  "st_gc_push_to_sweep w h =
    (if h = NULL then Some (ST_ARG_INVALID, w)
     else do {
       ln \<leftarrow> (if st_list_is_inited (w_list w) (sweep_lnode h) then st_list_remove (w_list w) (sweep_lnode h)
              else Some (w_list w));
       ln \<leftarrow> st_list_insert_last ln (sweep_queue (w_gc w)) (sweep_lnode h);
       Some (ST_OK, set_list ln w)
     })"

section \<open>Elements\<close>

definition st_table_cmp_element :: "bytes \<Rightarrow> (addr \<Rightarrow> st_table_element) \<Rightarrow> addr \<Rightarrow> addr \<Rightarrow> int" where
  "st_table_cmp_element bs elems a b = st_str_cmp bs (Some (te_key (elems a))) (Some (te_key (elems b)))"

text \<open>The copy of a string into an element: its bytes, and a zero byte behind them if there is room.\<close>

definition copy_str :: "bytes \<Rightarrow> addr \<Rightarrow> st_str \<Rightarrow> bytes" where
  "copy_str bs a s =
    (let bs = write_bytes bs a (read_bytes bs (str_bytes s) (nat (str_len s)))
     in if str_len s < str_capacity s then bs(a + nat (str_len s) := 0) else bs)"

definition st_table_new_element ::
    "env \<Rightarrow> world \<Rightarrow> st_str \<Rightarrow> st_str \<Rightarrow> (st_error \<times> addr option \<times> world) option" where
  "st_table_new_element env w key value = do {
     st_assert (str_len key \<le> str_capacity key);
     st_assert (str_len value \<le> str_capacity value);
     let sz = int sizeof_element + st_align (str_capacity key) 8 + str_capacity value;
     (ret, obj, slab, mem) \<leftarrow> st_slab_obj_alloc (env_madvise env NULL) (env_pid env) (env_tmp env) (w_slab w) (w_mem w) sz;
     let w = w\<lparr>w_slab := slab, w_mem := mem\<rparr>;
     if ret \<noteq> ST_OK then Some (ret, None, w)
     else do {
       e \<leftarrow> obj;
       rb \<leftarrow> upd (w_rb w) e (\<lambda>_. st_rbtree_node_empty);
       let bs = copy_str (w_bytes w) (kv_data e) key;
       let value_start = kv_data e + nat (st_align (str_capacity key) 8);
       let bs = copy_str bs value_start value;
       let el = \<lparr>te_key = st_str_wrap_common (kv_data e) (str_type key) (str_len key),
                 te_value = st_str_wrap_common value_start (str_type value) (str_len value)\<rparr>;
       Some (ret, Some e, (set_rb rb w)\<lparr>w_bytes := bs, w_elems := (w_elems w)(e := el)\<rparr>)
     }
   }"

definition st_table_free_element :: "env \<Rightarrow> world \<Rightarrow> addr \<Rightarrow> (st_error \<times> world) option" where
  "st_table_free_element env w e = do {
     (ret, slab, mem) \<leftarrow> st_slab_obj_free (env_madvise env e) (env_pid env) (w_slab w) (w_mem w) e;
     Some (ret, w\<lparr>w_slab := slab, w_mem := mem\<rparr>)
   }"

text \<open>The section of \<^verbatim>\<open>st_table_add_element\<close> under the lock; the second component is \<^verbatim>\<open>existed_elem\<close>.\<close>

definition add_element_body :: "world \<Rightarrow> addr \<Rightarrow> addr \<Rightarrow> bool \<Rightarrow> ((st_error \<times> addr) \<times> world) option" where
  "add_element_body w table new_elem force = do {
     let cmp = st_table_cmp_element (w_bytes w) (w_elems w);
     (ret, tree, rb, existed) \<leftarrow> st_rbtree_insert cmp (tb_elements (w_tables w table)) (w_rb w) new_elem 0;
     let w = upd_table table (tb_elements_update (\<lambda>_. tree)) (set_rb rb w);
     if ret \<noteq> ST_OK \<and> ret \<noteq> ST_EXISTED then Some ((ret, NULL), w)
     else if ret = ST_OK then
       Some ((ret, NULL), upd_table table (\<lambda>tb. tb\<lparr>tb_element_cnt := tb_element_cnt tb + 1, tb_version := tb_version tb + 1\<rparr>) w)
     else if force then do {
       (replace_ret, tree, rb) \<leftarrow> st_rbtree_replace cmp (tb_elements (w_tables w table)) (w_rb w) existed new_elem;
       let w = upd_table table (tb_elements_update (\<lambda>_. tree)) (set_rb rb w);
       if replace_ret \<noteq> ST_OK then Some ((replace_ret, NULL), w)
       else Some ((ret, existed), upd_table table (\<lambda>tb. tb\<lparr>tb_version := tb_version tb + 1\<rparr>) w)
     }
     else Some ((ret, NULL), w)
   }"

definition st_table_add_element :: "env \<Rightarrow> world \<Rightarrow> addr \<Rightarrow> addr \<Rightarrow> bool \<Rightarrow> ((st_error \<times> addr) \<times> world) option" where
  "st_table_add_element env w table new_elem force =
    with_table_lock env table w (\<lambda>w. add_element_body w table new_elem force)"

text \<open>The search compares with a local element that holds the key.\<close>

definition st_table_get_element :: "env \<Rightarrow> world \<Rightarrow> addr \<Rightarrow> st_str \<Rightarrow> (st_error \<times> addr) option" where
  "st_table_get_element env w table key = do {
     let elems = (w_elems w)(env_target env := (w_elems w (env_target env))\<lparr>te_key := key\<rparr>);
     n \<leftarrow> st_rbtree_search (st_table_cmp_element (w_bytes w) elems) (tb_elements (w_tables w table)) (w_rb w) (env_target env) ST_SIDE_EQ;
     if n = NULL then Some (ST_NOT_FOUND, NULL) else Some (ST_OK, n)
   }"

definition st_table_remove_element :: "env \<Rightarrow> world \<Rightarrow> addr \<Rightarrow> st_str \<Rightarrow> ((st_error \<times> addr) \<times> world) option" where
  "st_table_remove_element env w table key =
    with_table_lock env table w (\<lambda>w. do {
      (ret, removed) \<leftarrow> st_table_get_element env w table key;
      if ret \<noteq> ST_OK then Some ((ret, removed), w)
      else do {
        (_, tree, rb) \<leftarrow> st_rbtree_delete (tb_elements (w_tables w table)) (w_rb w) removed;
        Some ((ret, removed), upd_table table (\<lambda>tb. tb\<lparr>tb_elements := tree, tb_version := tb_version tb + 1,
          tb_element_cnt := tb_element_cnt tb - 1\<rparr>) (set_rb rb w))
      }
    })"

section \<open>Tables\<close>

definition st_table_init :: "env \<Rightarrow> world \<Rightarrow> addr \<Rightarrow> (st_error \<times> world) option" where
  "st_table_init env w table = do {
     (ret, tree, rb) \<leftarrow> st_rbtree_init True True ((tb_elements (w_tables w table))\<lparr>rt_sentinel := table_sentinel table\<rparr>) (w_rb w);
     let w = upd_table table (tb_elements_update (\<lambda>_. tree)) (set_rb rb w);
     if ret \<noteq> ST_OK then Some (ret, w)
     else do {
       let (ret, lock) = st_robustlock_init (env_attr env) (tb_lock (w_tables w table));
       let w = upd_table table (tb_lock_update (\<lambda>_. lock)) w;
       if ret \<noteq> ST_OK then Some (ret, w)
       else do {
         w \<leftarrow> st_gc_head_init w table;
         Some (ret, upd_table table (\<lambda>tb. tb\<lparr>tb_pool := w_at w, tb_version := 0, tb_element_cnt := 0, tb_inited := True\<rparr>) w)
       }
     }
   }"

definition st_table_destroy :: "world \<Rightarrow> addr \<Rightarrow> st_error \<times> world" where
  "st_table_destroy w table =
    (if tb_element_cnt (w_tables w table) \<noteq> 0 then (ST_NOT_EMPTY, w)
     else
       let ret = st_robustlock_destroy (tb_lock (w_tables w table))
       in if ret \<noteq> ST_OK then (ret, w)
          else (ret, upd_table table (\<lambda>tb. tb\<lparr>tb_pool := NULL, tb_version := 0, tb_element_cnt := 0, tb_inited := False\<rparr>) w))"

definition st_table_new :: "env \<Rightarrow> world \<Rightarrow> (st_error \<times> addr option \<times> world) option" where
  "st_table_new env w = do {
     (ret, obj, slab, mem) \<leftarrow> st_slab_obj_alloc (env_madvise env NULL) (env_pid env) (env_tmp env) (w_slab w) (w_mem w) (int sizeof_table);
     let w = w\<lparr>w_slab := slab, w_mem := mem\<rparr>;
     if ret \<noteq> ST_OK then Some (ret, None, w)
     else do {
       t \<leftarrow> obj;
       (ret, w) \<leftarrow> st_table_init env w t;
       if ret \<noteq> ST_OK then do {
         (_, slab, mem) \<leftarrow> st_slab_obj_free (env_madvise env t) (env_pid env) (w_slab w) (w_mem w) t;
         Some (ret, None, w\<lparr>w_slab := slab, w_mem := mem\<rparr>)
       }
       else Some (ret, Some t, w\<lparr>w_table_cnt := w_table_cnt w + 1\<rparr>)
     }
   }"

definition st_table_free :: "env \<Rightarrow> world \<Rightarrow> addr \<Rightarrow> (st_error \<times> world) option" where
  "st_table_free env w table =
    (if table = NULL then Some (ST_ARG_INVALID, w)
     else if \<not> tb_inited (w_tables w table) then Some (ST_UNINITED, w)
     else case st_table_destroy w table of (ret, w) \<Rightarrow>
       if ret \<noteq> ST_OK then Some (ret, w)
       else do {
         let w = w\<lparr>w_table_cnt := w_table_cnt w - 1\<rparr>;
         (ret, slab, mem) \<leftarrow> st_slab_obj_free (env_madvise env table) (env_pid env) (w_slab w) (w_mem w) table;
         Some (ret, w\<lparr>w_slab := slab, w_mem := mem\<rparr>)
       })"

definition st_table_get_table_addr_from_value :: "bytes \<Rightarrow> st_str \<Rightarrow> addr" where
  "st_table_get_table_addr_from_value bs value = nat (load_u64 bs (str_bytes value))"

text \<open>What the removal does to one element; \<open>push\<close> is \<^verbatim>\<open>ST_TABLE_PUSH_TO_GC\<close>.\<close>

definition remove_one :: "env \<Rightarrow> addr \<Rightarrow> bool \<Rightarrow> addr \<Rightarrow> world \<Rightarrow> (st_error \<times> world) option" where
  "remove_one env table push node w = do {
     let value = te_value (w_elems w node);
     w \<leftarrow> (if push \<and> st_types_is_table (str_type value) then do {
         (ret, w) \<leftarrow> st_gc_push_to_sweep w (st_table_get_table_addr_from_value (w_bytes w) value);
         st_assert (ret = ST_OK);
         Some w
       } else Some w);
     let w = upd_table table (\<lambda>tb. tb\<lparr>tb_version := tb_version tb + 1\<rparr>) w;
     st_table_free_element env w node
   }"

partial_function (option) st_table_remove_all_elements :: "env \<Rightarrow> addr \<Rightarrow> bool \<Rightarrow> addr \<Rightarrow> world \<Rightarrow> (st_error \<times> world) option" where
  "st_table_remove_all_elements env table push node w =
    (if node = rt_sentinel (tb_elements (w_tables w table)) then Some (ST_OK, w)
     else Option.bind (get_left (w_rb w) node) (\<lambda>l.
       Option.bind (st_table_remove_all_elements env table push l w) (\<lambda>(ret, w).
         if ret \<noteq> ST_OK then Some (ret, w)
         else Option.bind (get_right (w_rb w) node) (\<lambda>r.
           Option.bind (st_table_remove_all_elements env table push r w) (\<lambda>(ret, w).
             if ret \<noteq> ST_OK then Some (ret, w)
             else remove_one env table push node w)))))"

text \<open>The section under the lock that the two functions for the removal of all elements share.\<close>

definition remove_all_body :: "env \<Rightarrow> addr \<Rightarrow> bool \<Rightarrow> world \<Rightarrow> (st_error \<times> world) option" where
  "remove_all_body env table push w = do {
     (ret, w) \<leftarrow> st_table_remove_all_elements env table push (rt_root (tb_elements (w_tables w table))) w;
     if ret \<noteq> ST_OK then Some (ret, w)
     else Some (ret, upd_table table (\<lambda>tb. tb\<lparr>tb_elements := (tb_elements tb)\<lparr>rt_root := rt_sentinel (tb_elements tb)\<rparr>,
       tb_element_cnt := 0\<rparr>) w)
   }"

definition st_table_remove_all_for_gc :: "env \<Rightarrow> world \<Rightarrow> addr \<Rightarrow> (st_error \<times> world) option" where
  "st_table_remove_all_for_gc env w table =
    (if table = NULL then Some (ST_ARG_INVALID, w)
     else if \<not> tb_inited (w_tables w table) then Some (ST_UNINITED, w)
     else with_table_lock env table w (remove_all_body env table False))"

section \<open>Reading\<close>

definition st_table_get_value :: "env \<Rightarrow> world \<Rightarrow> addr \<Rightarrow> st_str \<Rightarrow> (st_error \<times> st_str option) option" where
  "st_table_get_value env w table key =
    (if table = NULL then Some (ST_ARG_INVALID, None)
     else if \<not> tb_inited (w_tables w table) then Some (ST_UNINITED, None)
     else if \<not> (str_bytes key \<noteq> NULL \<and> str_len key > 0) then Some (ST_ARG_INVALID, None)
     else do {
       (ret, elem) \<leftarrow> st_table_get_element env w table key;
       if ret \<noteq> ST_OK then Some (ret, None)
       else Some (ret, Some (te_value (w_elems w elem)))
     })"

record st_table_iter =
  it_element :: addr
  it_table_version :: int

definition st_table_iter_init ::
    "env \<Rightarrow> world \<Rightarrow> addr \<Rightarrow> st_table_iter \<Rightarrow> st_str option \<Rightarrow> int \<Rightarrow> (st_error \<times> st_table_iter) option" where
  "st_table_iter_init env w table iter init_key expected_side =
    (if table = NULL then Some (ST_ARG_INVALID, iter)
     else if \<not> tb_inited (w_tables w table) then Some (ST_UNINITED, iter)
     else do {
       let tree = tb_elements (w_tables w table);
       let iter = iter\<lparr>it_table_version := tb_version (w_tables w table)\<rparr>;
       case init_key of
         None \<Rightarrow> do {
           n \<leftarrow> st_rbtree_left_most tree (w_rb w);
           Some (ST_OK, iter\<lparr>it_element := n\<rparr>)
         }
       | Some key \<Rightarrow>
           if str_bytes key = NULL then Some (ST_ARG_INVALID, iter)
           else do {
             let elems = (w_elems w)(env_target env := (w_elems w (env_target env))\<lparr>te_key := key\<rparr>);
             n \<leftarrow> st_rbtree_search (st_table_cmp_element (w_bytes w) elems) tree (w_rb w) (env_target env) expected_side;
             Some (ST_OK, iter\<lparr>it_element := n\<rparr>)
           }
     })"

definition st_table_iter_next ::
    "world \<Rightarrow> addr \<Rightarrow> st_table_iter \<Rightarrow> (st_error \<times> (st_str \<times> st_str) option \<times> st_table_iter) option" where
  "st_table_iter_next w table iter =
    (if table = NULL then Some (ST_ARG_INVALID, None, iter)
     else if \<not> tb_inited (w_tables w table) then Some (ST_UNINITED, None, iter)
     else if it_table_version iter \<noteq> tb_version (w_tables w table) then Some (ST_TABLE_MODIFIED, None, iter)
     else if it_element iter = NULL then Some (ST_ITER_FINISH, None, iter)
     else do {
       let elem = it_element iter;
       n \<leftarrow> st_rbtree_get_next (tb_elements (w_tables w table)) (w_rb w) elem;
       Some (ST_OK, Some (te_key (w_elems w elem), te_value (w_elems w elem)), iter\<lparr>it_element := n\<rparr>)
     })"

end
