(* ===== verification/Slab_Frame.thy ===== *)
theory Slab_Frame
  imports Slab_Api
begin

text \<open>
  What the slab allocator and its callers leave to each other: the allocator touches no node outside
  its own structures, in particular none inside an object in use, and a caller that writes only
  outside them keeps the invariant.
\<close>

section \<open>Objects and the structures of the allocator\<close>

lemma data_not_desc:
  assumes "pool_good (pool, mem)" "r \<in> set (pool_regions pool)" "i + n \<le> region_pages pool"
    "data_addr pool r i \<le> x" "x < data_addr pool r i + n * nat (pp_page_size pool)"
  shows "x \<notin> desc_area pool" "x \<in> region_area (pp_region_cb pool)"
proof -
  let ?rcb = "pp_region_cb pool"
  let ?s = "nat (rg_reg_size ?rcb)" and ?d = "sizeof_page * region_pages pool"
  have geo: "pool_geometry pool" using assms(1) by (simp add: pool_good_def)
  note base = pool_good_base[OF assms(1)]
  obtain l where l: "l < nat (rg_reg_cnt ?rcb)" "r = region_addr ?rcb l" using pool_parts(4)[OF base] assms(2) by (auto simp: busy_regions_def)
  have s: "0 < rg_reg_size ?rcb" "?d < ?s" using pool_sizes(5)[OF base] by auto
  have lo: "r + ?d \<le> x" using data_in_region(1)[OF geo assms(3), of r] assms(4) by simp
  have "int x < int r + rg_reg_size ?rcb" using data_in_region(2)[OF geo assms(3), of r] assms(5) by linarith
  then have hi: "x < r + ?s" using s(1) by linarith
  have "\<not> (region_addr ?rcb k \<le> x \<and> x < region_addr ?rcb k + ?d)" for k
  proof (cases k l rule: linorder_cases)
    case less
    then have "Suc k * ?s \<le> l * ?s" by (intro mult_right_mono) auto
    then show ?thesis using lo s(2) unfolding l(2) region_addr_def by simp
  next
    case equal
    then show ?thesis using lo l(2) by simp
  next
    case greater
    then have "Suc l * ?s \<le> k * ?s" by (intro mult_right_mono) auto
    then show ?thesis using hi unfolding l(2) region_addr_def by simp
  qed
  then show "x \<notin> desc_area pool" by (auto simp: desc_area_def)
  have "Suc l * ?s \<le> nat (rg_reg_cnt ?rcb) * ?s" using l(1) by (intro mult_right_mono) auto
  then show "x \<in> region_area ?rcb" using lo hi unfolding l(2) region_area_def region_addr_def by simp
qed

lemma live_not_meta:
  assumes "slab_inv sp mem" "(a, n) \<in> slab_live sp mem" "x \<in> {a ..< a + n}"
  shows "x \<notin> slab_meta sp" "x \<in> region_area (pp_region_cb (sl_page_pool sp))"
proof -
  let ?pool = "sl_page_pool sp"
  obtain Q where Q: "slab_desc sp mem Q {}" using assms(1) by (auto simp: slab_inv_def)
  note good = slab_descD(1)[OF Q]
  obtain p where p: "p \<in> masters Q" "(a, n) \<in> slab_objs ?pool mem p" using assms(2) unfolding slab_live_eq[OF Q] live_objs_def by blast
  obtain i k where k: "i \<in> slab_indices" "slab_page (sl_groups_at sp) ?pool mem i p k" using masters_page[OF Q p(1)] by blast
  have "x \<in> data_area (?pool, mem) p k"
    using slab_objs_area(1)[OF good k(2) p(2) slab_page_nbits(2)[OF k(2,1)]] assms(3) by blast
  moreover obtain base r j where "data_area (?pool, mem) p k = {base ..< base + k * nat (pp_page_size ?pool)}"
    "r \<in> set (pool_regions ?pool)" "j + k \<le> region_pages ?pool" "base = data_addr ?pool r j"
    using slab_base[OF good slab_pageD(1)[OF k(2)]] by blast
  ultimately have d: "x \<notin> desc_area ?pool" "x \<in> region_area (pp_region_cb ?pool)" using data_not_desc[OF good] by simp_all
  moreover have "rt_sentinel (pp_free_pages ?pool) \<notin> region_area (pp_region_cb ?pool)"
    using pool_good_base[OF good] by (simp add: pool_base_def)
  ultimately show "x \<notin> slab_meta sp" using slab_descD(2)[OF Q] by (auto simp: slab_meta_def slab_fixed_def)
  show "x \<in> region_area (pp_region_cb ?pool)" by (rule d(2))
qed

lemma live_nonnull:
  assumes "slab_inv sp mem" "(a, n) \<in> slab_live sp mem" "x \<in> {a ..< a + n}"
  shows "x \<noteq> NULL"
proof -
  obtain Q where Q: "slab_desc sp mem Q {}" using assms(1) by (auto simp: slab_inv_def)
  have "region_ok (pp_region_cb (sl_page_pool sp))" using pool_parts(2)[OF pool_good_base[OF slab_descD(1)[OF Q]]] .
  then show ?thesis using live_not_meta(2)[OF assms] by (auto simp: region_area_def region_ok_def)
qed

section \<open>Writes of the callers\<close>

lemma rb_tree_frame:
  assumes "rb_tree tree m t" "\<And>x. x \<in> set (inorder t) \<Longrightarrow> m' x = m x" "m' (rt_sentinel tree) = m (rt_sentinel tree)"
  shows "rb_tree tree m' t"
  using assms rep_cong[of t m' m] by (auto simp: rb_tree_def tree_at_def)

lemma pool_good_frame:
  assumes "pool_good (pool, mem)" "pm_pages mem' = pm_pages mem" "pm_rb mem' (rt_sentinel (pp_free_pages pool)) = pm_rb mem (rt_sentinel (pp_free_pages pool))"
    "\<And>x. x \<in> desc_area pool \<Longrightarrow> pm_rb mem' x = pm_rb mem x \<and> pm_list mem' x = pm_list mem x"
  shows "pool_good (pool, mem')"
proof -
  obtain L where L: "pool_desc pool mem L" and g: "pool_geometry pool" using assms(1) by (auto simp: pool_good_def pool_inv_def)
  note base = pool_good_base[OF assms(1)]
  have nodes: "pm_rb mem' (page_rb p) = pm_rb mem (page_rb p)" "pm_list mem' (page_ln p) = pm_list mem (page_ln p)"
    if "p \<in> all_pages pool" for p
    using assms(4)[OF in_desc_area[OF base that, of 80]] assms(4)[OF in_desc_area[OF base that, of 112]]
    by (simp_all add: page_rb_def page_ln_def sizeof_page_def)
  have runs: "run_set pool mem' f = run_set pool mem f" for f by (rule run_set_fields) (simp add: assms(2))
  obtain G where G: "free_groups pool mem (all_pages pool) G" "fst ` free_runs pool mem = set (members G)"
    using L by (auto simp: pool_desc_def free_index_def)
  have mem: "set (members G) \<subseteq> all_pages pool" "groups_ok (pm_pages mem) G" "tails_in_lists (pm_list mem) G"
    "heads_in_tree (pp_free_pages pool) (pm_rb mem) (all_pages pool) G" using G(1) by (simp_all add: free_groups_def)
  have hd: "set (heads G) \<subseteq> set (members G)" by (auto simp: heads_def members_def)
  obtain t where t: "rb_tree (pp_free_pages pool) (pm_rb mem) t" "inorder t = map page_rb (heads G)"
    using mem(4) by (auto simp: heads_in_tree_def)
  have "rb_tree (pp_free_pages pool) (pm_rb mem') t"
    by (rule rb_tree_frame[OF t(1)]) (use t(2) nodes(1) hd mem(1) assms(3) in auto)
  then have "heads_in_tree (pp_free_pages pool) (pm_rb mem') (all_pages pool) G"
    using t(2) mem(4) nodes(1) by (auto simp: heads_in_tree_def)
  moreover have "tails_in_lists (pm_list mem') G" using tails_frame[of "pm_list mem" G "pm_list mem'"] mem(1,3) nodes(2) by blast
  ultimately have "free_groups pool mem' (all_pages pool) G" using G(1) assms(2) by (simp add: free_groups_def)
  then have "free_index pool mem' (all_pages pool) (fst ` free_runs pool mem')" unfolding runs free_index_def using G(2) by blast
  then have "pool_desc pool mem' L" using L assms(2) by (simp add: pool_desc_def)
  then show ?thesis using g by (auto simp: pool_good_def pool_inv_def)
qed

text \<open>A caller writes the nodes in its objects only.\<close>

definition same_meta :: "st_slab_pool \<Rightarrow> page_mem \<Rightarrow> page_mem \<Rightarrow> bool" where
  "same_meta sp mem mem' \<longleftrightarrow> pm_pages mem' = pm_pages mem \<and>
     (\<forall>x \<in> slab_meta sp. pm_rb mem' x = pm_rb mem x \<and> pm_list mem' x = pm_list mem x)"

lemma same_meta_rb: "(\<And>x. x \<in> slab_meta sp \<Longrightarrow> rb x = pm_rb mem x) \<Longrightarrow> same_meta sp mem (mem\<lparr>pm_rb := rb\<rparr>)"
  and same_meta_list: "(\<And>x. x \<in> slab_meta sp \<Longrightarrow> ln x = pm_list mem x) \<Longrightarrow> same_meta sp mem (mem\<lparr>pm_list := ln\<rparr>)"
  by (simp_all add: same_meta_def)

lemma slab_inv_frame:
  assumes "slab_inv sp mem" "same_meta sp mem mem'"
  shows "slab_inv sp mem'" "slab_live sp mem' = slab_live sp mem"
proof -
  obtain Q where Q: "slab_desc sp mem Q {}" using assms(1) by (auto simp: slab_inv_def)
  have pg: "pm_pages mem' = pm_pages mem" and eq: "\<And>x. x \<in> slab_meta sp \<Longrightarrow> pm_rb mem' x = pm_rb mem x \<and> pm_list mem' x = pm_list mem x"
    using assms(2) by (simp_all add: same_meta_def)
  note good = slab_descD(1)[OF Q]
  have good': "pool_good (sl_page_pool sp, mem')" by (rule pool_good_frame[OF good pg]) (use eq in \<open>simp_all add: slab_meta_def\<close>)
  have "clist (pm_list mem') (head_at (sl_groups_at sp) i b) (map page_ln (Q i b))" if i: "i \<in> slab_indices" for i b
  proof (rule clist_frame)
    show "clist (pm_list mem) (head_at (sl_groups_at sp) i b) (map page_ln (Q i b))" using slab_descD(3)[OF Q] i by (simp add: lists_ok_def)
    fix a assume "a \<in> set (head_at (sl_groups_at sp) i b # map page_ln (Q i b))"
    then have "a \<in> heads_of (sl_groups_at sp) \<union> page_ln ` masters Q" using i masters_in[OF i, of Q b] by (auto simp: heads_of_def)
    moreover have "page_ln ` masters Q \<subseteq> slab_meta sp"
      by (rule page_nodes_meta(1)[OF pool_good_base[OF good] masters_pages[OF Q] same_pool_refl])
    ultimately have "a \<in> slab_meta sp" by (auto simp: slab_meta_def)
    then show "pm_list mem' a = pm_list mem a" using eq by blast
  qed
  then have l: "lists_ok (sl_groups_at sp) (pm_list mem') Q" by (simp add: lists_ok_def)
  have k: "(p, n) \<in> allocated_runs (sl_page_pool sp) mem' \<and> (\<forall>x \<in> page_range p n. pm_pages mem' x = pm_pages mem x)"
    if "slab_page (sl_groups_at sp) (sl_page_pool sp) mem i p n" "p \<in> masters Q" for i p n
    using slab_pageD(1)[OF that(1)] run_set_fields[of mem mem' "sl_page_pool sp"] pg by simp
  have "slab_desc (sp\<lparr>sl_page_pool := sl_page_pool sp\<rparr>) mem' Q {}"
    "live_objs (sp\<lparr>sl_page_pool := sl_page_pool sp\<rparr>) mem' Q = live_objs sp mem Q"
    by (rule slab_desc_pool[OF Q good' same_pool_refl]; rule k l; assumption)+
  then have d: "slab_desc sp mem' Q {}" "live_objs sp mem' Q = live_objs sp mem Q" by simp_all
  show "slab_inv sp mem'" by (rule slab_invI[OF d(1)])
  show "slab_live sp mem' = slab_live sp mem" unfolding slab_live_eq[OF Q] slab_live_eq[OF d(1)] by (rule d(2))
qed

section \<open>Operations of the allocator\<close>

text \<open>What an operation leaves: the places of the structures and every node outside them.\<close>

definition slab_step :: "st_slab_pool \<Rightarrow> page_mem \<Rightarrow> st_slab_pool \<Rightarrow> page_mem \<Rightarrow> bool" where
  "slab_step sp mem sp' mem' \<longleftrightarrow> slab_inv sp' mem' \<and> slab_meta sp' = slab_meta sp \<and>
     region_area (pp_region_cb (sl_page_pool sp')) = region_area (pp_region_cb (sl_page_pool sp)) \<and> outside (slab_meta sp) mem mem'"

lemma slab_stepI:
  assumes "slab_desc sp' mem' Q {}" "same_pool (sl_page_pool sp) (sl_page_pool sp')" "sl_groups_at sp' = sl_groups_at sp"
    "outside (slab_meta sp) mem mem'"
  shows "slab_step sp mem sp' mem'"
  using slab_invI[OF assms(1)] assms(2-4) same_pool_desc[OF assms(2)] same_pool_area[OF assms(2)]
  by (simp add: slab_step_def slab_meta_def same_pool_def)

lemma slab_alloc_step:
  assumes "slab_inv sp mem" "tmp \<notin> region_area (pp_region_cb (sl_page_pool sp))" "0 < sz" "sz < 2 ^ 31"
  shows "\<exists>ret r sp' mem'. st_slab_obj_alloc madvise_r t tmp sp mem sz = Some (ret, r, sp', mem') \<and> slab_step sp mem sp' mem' \<and>
    alloc_obj_post (obj_class sz) (slab_live sp mem) ret r (slab_live sp' mem')"
proof -
  obtain Q where Q: "slab_desc sp mem Q {}" using assms(1) by (auto simp: slab_inv_def)
  from slab_obj_alloc_ok[OF Q assms(2-4), of madvise_r t] obtain ret r sp' mem' Q' where
    a: "st_slab_obj_alloc madvise_r t tmp sp mem sz = Some (ret, r, sp', mem')" "slab_desc sp' mem' Q' {}"
    "same_pool (sl_page_pool sp) (sl_page_pool sp')" "sl_groups_at sp' = sl_groups_at sp" "outside (slab_meta sp) mem mem'"
    "alloc_obj_post (obj_class sz) (live_objs sp mem Q) ret r (live_objs sp' mem' Q')" by (elim exE conjE)
  then show ?thesis using slab_stepI[OF a(2-5)] slab_live_eq[OF Q] slab_live_eq[OF a(2)] by auto
qed

lemma slab_free_step:
  assumes "slab_inv sp mem" "(a, n) \<in> slab_live sp mem"
  shows "\<exists>sp' mem'. st_slab_obj_free (Inr ()) t sp mem a = Some (ST_OK, sp', mem') \<and> slab_step sp mem sp' mem' \<and>
    slab_live sp' mem' = slab_live sp mem - {(a, n)}"
proof -
  obtain Q where Q: "slab_desc sp mem Q {}" using assms(1) by (auto simp: slab_inv_def)
  from slab_obj_free_ok[OF Q, of a n t] assms(2)[unfolded slab_live_eq[OF Q]] obtain sp' mem' Q' where
    f: "st_slab_obj_free (Inr ()) t sp mem a = Some (ST_OK, sp', mem')" "slab_desc sp' mem' Q' {}"
    "same_pool (sl_page_pool sp) (sl_page_pool sp')" "sl_groups_at sp' = sl_groups_at sp" "outside (slab_meta sp) mem mem'"
    "live_objs sp' mem' Q' = live_objs sp mem Q - {(a, n)}" by blast
  then show ?thesis using slab_stepI[OF f(2-5)] slab_live_eq[OF Q] slab_live_eq[OF f(2)] by auto
qed

lemma slab_step_live:
  assumes "slab_inv sp mem" "slab_step sp mem sp' mem'" "(a, n) \<in> slab_live sp mem" "x \<in> {a ..< a + n}"
  shows "pm_rb mem' x = pm_rb mem x" "pm_list mem' x = pm_list mem x"
  using live_not_meta(1)[OF assms(1,3,4)] assms(2) by (simp_all add: slab_step_def outside_def)

end
