(* ===== verification/Table_Inv.thy ===== *)
theory Table_Inv
  imports Table Slab_Frame
begin

text \<open>
  The invariant of the tables: every table and every element is an object in use of the slab
  allocator, the elements of a table are a red-black tree in the order of their keys, and the
  queues of the collector hold tables.  The contents of a table are a map from keys to values.
\<close>

section \<open>Strings in memory\<close>

text \<open>The number of bytes that a comparison reads.\<close>

definition str_width :: "st_str \<Rightarrow> nat" where
  "str_width s =
    (let t = str_type s in
     if t = ST_TYPES_INTEGER then 4
     else if t = ST_TYPES_U64 \<or> t = ST_TYPES_NUMBER \<or> t = ST_TYPES_TABLE then 8
     else if t = ST_TYPES_BOOLEAN then 1
     else if t = ST_TYPES_NIL then 0
     else nat (str_len s))"

definition str_fits :: "st_str \<Rightarrow> bool" where
  "str_fits s \<longleftrightarrow> 0 < str_len s \<and> str_len s \<le> str_capacity s \<and> int (str_width s) \<le> str_len s"

definition str_range :: "st_str \<Rightarrow> addr set" where
  "str_range s = {str_bytes s ..< str_bytes s + nat (str_len s)}"

text \<open>What a value stands for: its type and its bytes.\<close>

definition value_view :: "bytes \<Rightarrow> st_str \<Rightarrow> int \<times> u8 list" where
  "value_view m s = (str_type s, read_bytes m (str_bytes s) (nat (str_len s)))"

lemma read_bytes_nth: "i < n \<Longrightarrow> read_bytes m a n ! i = m (a + i)"
  by (induction n arbitrary: a i) (auto simp: nth_Cons split: nat.split)

lemma read_bytes_eq_iff: "read_bytes m a n = read_bytes m' b n \<longleftrightarrow> (\<forall>i < n. m (a + i) = m' (b + i))"
  by (simp add: list_eq_iff_nth_eq read_bytes_nth)

lemma read_bytes_le: "read_bytes m a n = read_bytes m' b n \<Longrightarrow> k \<le> n \<Longrightarrow> read_bytes m a k = read_bytes m' b k"
  by (simp add: read_bytes_eq_iff)

lemma write_bytes_other: "x \<notin> {a ..< a + length bs} \<Longrightarrow> write_bytes m a bs x = m x"
  by (induction bs arbitrary: m a) auto

lemma write_bytes_at: "i < length bs \<Longrightarrow> write_bytes m a bs (a + i) = bs ! i"
proof (induction bs arbitrary: m a i)
  case (Cons b bs)
  show ?case
  proof (cases i)
    case 0
    then show ?thesis using write_bytes_other[of a "a + 1" bs "m(a := b)"] by simp
  next
    case (Suc j)
    then show ?thesis using Cons.IH[of j "m(a := b)" "a + 1"] Cons.prems by (simp add: fun_upd_def)
  qed
qed simp

text \<open>Equal bytes give equal strings.\<close>

definition same_str :: "bytes \<Rightarrow> st_str \<Rightarrow> bytes \<Rightarrow> st_str \<Rightarrow> bool" where
  "same_str m s m' s' \<longleftrightarrow> str_type s' = str_type s \<and> str_len s' = str_len s \<and> (str_bytes s' = NULL \<longleftrightarrow> str_bytes s = NULL) \<and>
     read_bytes m' (str_bytes s') (nat (str_len s)) = read_bytes m (str_bytes s) (nat (str_len s))"

lemma same_str_views:
  assumes "same_str m s m' s'" "str_fits s"
  shows "str_view m' s' = str_view m s" "str_key m' s' = str_key m s" "value_view m' s' = value_view m s"
    "str_width s' = str_width s"
proof -
  let ?n = "nat (str_len s)"
  have t: "str_type s' = str_type s" "str_len s' = str_len s" "str_bytes s' = NULL \<longleftrightarrow> str_bytes s = NULL"
    and r: "read_bytes m' (str_bytes s') ?n = read_bytes m (str_bytes s) ?n" using assms(1) by (simp_all add: same_str_def)
  have le: "read_bytes m' (str_bytes s') k = read_bytes m (str_bytes s) k" if "k \<le> ?n" for k using read_bytes_le[OF r that] .
  have w: "str_width s \<le> ?n" "0 < ?n" using assms(2) by (auto simp: str_fits_def)
  have i: "str_type s = ST_TYPES_INTEGER \<Longrightarrow> load_int m' (str_bytes s') = load_int m (str_bytes s)"
    using w(1) le[of 4] by (simp add: load_int_def str_width_def Let_def)
  have u: "str_type s \<in> {ST_TYPES_U64, ST_TYPES_NUMBER} \<Longrightarrow> load_u64 m' (str_bytes s') = load_u64 m (str_bytes s)"
    using w(1) le[of 8] by (auto simp: load_u64_def str_width_def Let_def types_defs)
  have b: "m' (str_bytes s') = m (str_bytes s)" using le[of 1] w(2) by simp
  show "str_view m' s' = str_view m s" using t i u b r by (simp add: str_view_def Let_def)
  show "str_key m' s' = str_key m s" using t u by (auto simp: str_key_def)
  show "value_view m' s' = value_view m s" "str_width s' = str_width s" using t r by (simp_all add: value_view_def str_width_def Let_def)
qed

lemma same_str_bytes: "(\<And>x. x \<in> str_range s \<Longrightarrow> m' x = m x) \<Longrightarrow> same_str m s m' s"
  by (auto simp: same_str_def read_bytes_eq_iff str_range_def)

lemma copy_str_other:
  assumes "str_fits s" "x \<notin> {a ..< a + nat (str_capacity s)}"
  shows "copy_str m a s x = m x"
proof -
  have "nat (str_len s) \<le> nat (str_capacity s)" "str_len s < str_capacity s \<Longrightarrow> nat (str_len s) < nat (str_capacity s)"
    using assms(1) by (auto simp: str_fits_def)
  then show ?thesis using assms(2) write_bytes_other[of x a "read_bytes m (str_bytes s) (nat (str_len s))" m]
    by (auto simp: copy_str_def Let_def)
qed

lemma copy_str_same:
  assumes "str_type s' = str_type s" "str_len s' = str_len s" "str_bytes s' = a" "a \<noteq> NULL" "str_bytes s \<noteq> NULL"
  shows "same_str m s (copy_str m a s) s'"
proof -
  let ?n = "nat (str_len s)" and ?bs = "read_bytes m (str_bytes s) (nat (str_len s))"
  have "copy_str m a s (a + i) = m (str_bytes s + i)" if "i < ?n" for i
    using write_bytes_at[of i ?bs m a] that by (simp add: copy_str_def Let_def read_bytes_nth)
  then show ?thesis using assms by (simp add: same_str_def read_bytes_eq_iff)
qed

section \<open>Elements and tables\<close>

abbreviation live :: "world \<Rightarrow> (addr \<times> nat) set" where
  "live w \<equiv> slab_live (w_slab w) (w_mem w)"

abbreviation w_area :: "world \<Rightarrow> addr set" where
  "w_area w \<equiv> region_area (pp_region_cb (sl_page_pool (w_slab w)))"

definition kview :: "world \<Rightarrow> addr \<Rightarrow> str_view" where
  "kview w e = str_view (w_bytes w) (te_key (w_elems w e))"

definition vview :: "world \<Rightarrow> addr \<Rightarrow> int \<times> u8 list" where
  "vview w e = value_view (w_bytes w) (te_value (w_elems w e))"

text \<open>The element at \<open>e\<close> is an object of \<open>n\<close> bytes that holds its key and its value.\<close>

definition elem_at :: "world \<Rightarrow> addr \<Rightarrow> nat \<Rightarrow> bool" where
  "elem_at w e n \<longleftrightarrow> (e, n) \<in> live w \<and> 0 < n \<and> str_key (w_bytes w) (te_key (w_elems w e)) \<and>
     (\<forall>s \<in> {te_key (w_elems w e), te_value (w_elems w e)}. str_fits s \<and> str_range s \<subseteq> {e ..< e + n})"

definition elem_ok :: "world \<Rightarrow> addr \<Rightarrow> bool" where
  "elem_ok w e \<longleftrightarrow> (\<exists>n. elem_at w e n)"

definition table_ok :: "world \<Rightarrow> addr \<Rightarrow> rbt \<Rightarrow> bool" where
  "table_ok w t tr \<longleftrightarrow> tb_inited (w_tables w t) \<and> lock_free (tb_lock (w_tables w t)) \<and> tb_pool (w_tables w t) = w_at w \<and>
     (t, 256) \<in> live w \<and> rt_sentinel (tb_elements (w_tables w t)) = table_sentinel t \<and>
     rb_tree (tb_elements (w_tables w t)) (w_rb w) tr \<and> tb_element_cnt (w_tables w t) = int (length (inorder tr)) \<and>
     sorted_wrt (<) (map (kview w) (inorder tr)) \<and> (\<forall>e \<in> set (inorder tr). elem_ok w e)"

text \<open>The element keeps its object, its fields and its bytes.\<close>

definition elem_same :: "world \<Rightarrow> world \<Rightarrow> addr \<Rightarrow> bool" where
  "elem_same w w' e \<longleftrightarrow> w_elems w' e = w_elems w e \<and>
     (\<forall>n. (e, n) \<in> live w \<longrightarrow> (e, n) \<in> live w' \<and> (\<forall>x \<in> {e ..< e + n}. w_bytes w' x = w_bytes w x))"

lemma elem_frame:
  assumes "elem_ok w e" "elem_same w w' e"
  shows "elem_ok w' e" "kview w' e = kview w e" "vview w' e = vview w e"
proof -
  obtain n where n: "elem_at w e n" using assms(1) by (auto simp: elem_ok_def)
  let ?k = "te_key (w_elems w e)" and ?v = "te_value (w_elems w e)"
  have el: "w_elems w' e = w_elems w e" and lv: "(e, n) \<in> live w'" and b: "\<And>x. x \<in> {e ..< e + n} \<Longrightarrow> w_bytes w' x = w_bytes w x"
    using assms(2) n by (auto simp: elem_same_def elem_at_def)
  have f: "str_fits ?k" "str_fits ?v" and r: "str_range ?k \<subseteq> {e ..< e + n}" "str_range ?v \<subseteq> {e ..< e + n}"
    using n by (simp_all add: elem_at_def)
  have "same_str (w_bytes w) ?k (w_bytes w') ?k" "same_str (w_bytes w) ?v (w_bytes w') ?v"
    by (rule same_str_bytes, use b r in blast)+
  note k = same_str_views[OF this(1) f(1)] and v = same_str_views[OF this(2) f(2)]
  have "elem_at w' e n" using n lv el k(2) by (simp add: elem_at_def)
  then show "elem_ok w' e" by (auto simp: elem_ok_def)
  show "kview w' e = kview w e" "vview w' e = vview w e" using k(1) v(3) el by (simp_all add: kview_def vview_def)
qed

lemma table_frame:
  assumes "table_ok w t tr" "w_tables w' t = w_tables w t" "w_at w' = w_at w" "(t, 256) \<in> live w'"
    "\<And>e. e \<in> set (inorder tr) \<Longrightarrow> elem_same w w' e" "\<And>e. e \<in> set (inorder tr) \<Longrightarrow> w_rb w' e = w_rb w e"
    "w_rb w' (table_sentinel t) = w_rb w (table_sentinel t)"
  shows "table_ok w' t tr" "map (kview w') (inorder tr) = map (kview w) (inorder tr)"
    "map (vview w') (inorder tr) = map (vview w) (inorder tr)"
proof -
  have e: "elem_ok w' e" "kview w' e = kview w e" "vview w' e = vview w e" if "e \<in> set (inorder tr)" for e
    using elem_frame[of w e w'] assms(1,5) that by (auto simp: table_ok_def)
  show k: "map (kview w') (inorder tr) = map (kview w) (inorder tr)" "map (vview w') (inorder tr) = map (vview w) (inorder tr)"
    using e by auto
  have "rb_tree (tb_elements (w_tables w t)) (w_rb w') tr"
    by (rule rb_tree_frame[of _ "w_rb w"]) (use assms(1,6,7) in \<open>simp_all add: table_ok_def\<close>)
  moreover have "sorted_wrt (<) (map (kview w') (inorder tr))" unfolding k(1) using assms(1) by (simp add: table_ok_def)
  ultimately show "table_ok w' t tr" using assms(1-4) e(1) by (simp add: table_ok_def)
qed

section \<open>Queues\<close>

text \<open>The queues by number: mark, prev sweep, sweep, garbage and remained.\<close>

definition qhead :: "world \<Rightarrow> nat \<Rightarrow> addr" where
  "qhead w k = gc_queues (w_gc w) + 16 * k"

definition qnode :: "nat \<Rightarrow> addr \<Rightarrow> addr" where
  "qnode k t = (if k = 0 then mark_lnode t else sweep_lnode t)"

lemma queue_heads:
  "mark_queue (w_gc w) = qhead w 0" "prev_sweep_queue (w_gc w) = qhead w 1" "sweep_queue (w_gc w) = qhead w 2"
  "garbage_queue (w_gc w) = qhead w 3" "remained_queue (w_gc w) = qhead w 4"
  by (simp_all add: qhead_def mark_queue_def prev_sweep_queue_def sweep_queue_def garbage_queue_def remained_queue_def)

type_synonym queues = "nat \<Rightarrow> addr list"

definition null_node :: st_list where
  "null_node = \<lparr>l_prev = NULL, l_next = NULL\<rparr>"

text \<open>The numbers of the queues that share a list node of a table.\<close>

definition rivals :: "nat \<Rightarrow> nat set" where
  "rivals k = (if k = 0 then {0} else {1, 2, 3, 4})"

definition in_queue :: "queues \<Rightarrow> nat \<Rightarrow> addr \<Rightarrow> bool" where
  "in_queue Q k t \<longleftrightarrow> (\<exists>j \<in> rivals k. t \<in> set (Q j))"

definition queues_ok :: "world \<Rightarrow> addr set \<Rightarrow> queues \<Rightarrow> bool" where
  "queues_ok w D Q \<longleftrightarrow> gc_queues (w_gc w) \<noteq> NULL \<and> (\<forall>k < 5. qhead w k \<notin> w_area w \<union> slab_meta (w_slab w)) \<and>
     (\<forall>k < 5. clist (w_list w) (qhead w k) (map (qnode k) (Q k)) \<and> set (Q k) \<subseteq> D) \<and>
     (\<forall>j \<in> {1, 2, 3, 4}. \<forall>k \<in> {1, 2, 3, 4}. j \<noteq> k \<longrightarrow> set (Q j) \<inter> set (Q k) = {}) \<and>
     (\<forall>t \<in> D. \<forall>k < 5. \<not> in_queue Q k t \<longrightarrow> w_list w (qnode k t) = null_node)"

section \<open>The world\<close>

type_synonym tables = "addr \<rightharpoonup> rbt"

definition elems_of :: "tables \<Rightarrow> addr set" where
  "elems_of T = {e. \<exists>t tr. T t = Some tr \<and> e \<in> set (inorder tr)}"

definition apart_tables :: "tables \<Rightarrow> bool" where
  "apart_tables T \<longleftrightarrow> elems_of T \<inter> dom T = {} \<and>
     (\<forall>t t' tr tr'. T t = Some tr \<longrightarrow> T t' = Some tr' \<longrightarrow> t \<noteq> t' \<longrightarrow> set (inorder tr) \<inter> set (inorder tr') = {})"

definition world_ok :: "world \<Rightarrow> tables \<Rightarrow> queues \<Rightarrow> bool" where
  "world_ok w T Q \<longleftrightarrow> slab_inv (w_slab w) (w_mem w) \<and> (\<forall>t tr. T t = Some tr \<longrightarrow> table_ok w t tr) \<and> apart_tables T \<and>
     queues_ok w (dom T) Q"

lemma world_okD:
  assumes "world_ok w T Q"
  shows "slab_inv (w_slab w) (w_mem w)" "\<And>t tr. T t = Some tr \<Longrightarrow> table_ok w t tr" "apart_tables T"
    "queues_ok w (dom T) Q"
  using assms by (simp_all add: world_ok_def)

text \<open>The map that a table stands for.\<close>

definition entries :: "world \<Rightarrow> rbt \<Rightarrow> (str_view \<times> int \<times> u8 list) list" where
  "entries w tr = map (\<lambda>e. (kview w e, vview w e)) (inorder tr)"

definition contents :: "world \<Rightarrow> tables \<Rightarrow> addr \<Rightarrow> str_view \<rightharpoonup> int \<times> u8 list" where
  "contents w T t = (case T t of None \<Rightarrow> Map.empty | Some tr \<Rightarrow> map_of (entries w tr))"

text \<open>The objects of the tables and where their nodes are.\<close>

definition objs :: "tables \<Rightarrow> addr set" where
  "objs T = dom T \<union> elems_of T"

lemma elem_live: "elem_ok w e \<Longrightarrow> \<exists>n. (e, n) \<in> live w \<and> 0 < n"
  by (auto simp: elem_ok_def elem_at_def)

lemma objs_live:
  assumes "world_ok w T Q" "a \<in> objs T"
  shows "\<exists>n. (a, n) \<in> live w \<and> 0 < n"
proof (cases "a \<in> dom T")
  case True
  then have "(a, 256) \<in> live w" using world_okD(2)[OF assms(1)] by (auto simp: table_ok_def)
  then show ?thesis by (intro exI[of _ 256]) simp
next
  case False
  then show ?thesis using world_okD(2)[OF assms(1)] assms(2) elem_live[of w a] by (auto simp: objs_def elems_of_def table_ok_def)
qed

lemma live_unique_size:
  assumes "slab_inv sp mem" "(a, n) \<in> slab_live sp mem" "(a, k) \<in> slab_live sp mem" "0 < n" "0 < k"
  shows "n = k"
  using slab_live_apart[OF assms(1-3)] assms(4,5) by (cases "n = k") (auto simp: disjoint_iff dest!: spec[of _ a])

text \<open>
  The objects in use that belong to no table.  An operation that leaves this set as it is has released
  every object that it took away from the tables, and has lost none of its own.
\<close>

definition spare :: "world \<Rightarrow> tables \<Rightarrow> (addr \<times> nat) set" where
  "spare w T = {p \<in> live w. fst p \<notin> objs T}"

definition without :: "addr \<Rightarrow> (addr \<times> nat) set \<Rightarrow> (addr \<times> nat) set" where
  "without a S = {p \<in> S. fst p \<noteq> a}"

lemma live_without:
  assumes "slab_inv sp mem" "(a, n) \<in> slab_live sp mem"
  shows "slab_live sp mem - {(a, n)} = without a (slab_live sp mem)"
proof -
  have "p = (a, n)" if p: "p \<in> slab_live sp mem" "fst p = a" for p
  proof -
    have "(a, snd p) \<in> slab_live sp mem" using p by (metis prod.collapse)
    then show ?thesis using live_unique_size[OF assms, of "snd p"] slab_live_inside(3)[OF assms(1)] assms(2) p(2) by (metis prod.collapse)
  qed
  then have "p \<in> slab_live sp mem \<and> p \<noteq> (a, n) \<longleftrightarrow> p \<in> slab_live sp mem \<and> fst p \<noteq> a" for p by (metis fst_conv)
  then show ?thesis unfolding without_def by blast
qed

lemma without_new:
  assumes "slab_inv sp mem" "slab_live sp mem = insert (a, n) L" "(a, n) \<notin> L"
  shows "without a (slab_live sp mem) = L" "a \<notin> fst ` L"
proof -
  have "without a (slab_live sp mem) = slab_live sp mem - {(a, n)}" using live_without[OF assms(1), of a n] assms(2) by simp
  then show e: "without a (slab_live sp mem) = L" using assms(2,3) by simp
  show "a \<notin> fst ` L" unfolding e[symmetric] by (auto simp: without_def)
qed

lemma spare_same: "live w' = live w \<Longrightarrow> spare w' T = spare w T"
  by (simp add: spare_def)

lemma spare_null:
  assumes "world_ok w T Q"
  shows "without NULL (spare w T) = spare w T"
proof -
  have "fst p \<noteq> NULL" if "p \<in> live w" for p
    using live_nonnull[OF world_okD(1)[OF assms], of "fst p" "snd p" "fst p"] slab_live_inside(3)[OF world_okD(1)[OF assms], of "fst p" "snd p"] that by simp
  then show ?thesis by (auto simp: without_def spare_def)
qed

lemma objs_upd:
  assumes "apart_tables T" "T t = Some tr"
  shows "objs (T(t \<mapsto> tr')) = objs T - set (inorder tr) \<union> set (inorder tr')"
proof -
  have "x \<notin> set (inorder tr)" if "x \<in> dom T" for x
    using assms that unfolding apart_tables_def elems_of_def by blast
  moreover have "x \<notin> set (inorder tr)" if "T u = Some tu" "x \<in> set (inorder tu)" "u \<noteq> t" for x u tu
    using assms that unfolding apart_tables_def by blast
  moreover have "dom (T(t \<mapsto> tr')) = dom T" using assms(2) by auto
  moreover have "elems_of (T(t \<mapsto> tr')) = {x. \<exists>u tu. T u = Some tu \<and> u \<noteq> t \<and> x \<in> set (inorder tu)} \<union> set (inorder tr')"
    by (auto simp: elems_of_def split: if_splits)
  moreover have "elems_of T = {x. \<exists>u tu. T u = Some tu \<and> u \<noteq> t \<and> x \<in> set (inorder tu)} \<union> set (inorder tr)"
  proof (intro set_eqI iffI)
    fix x assume "x \<in> elems_of T"
    then obtain u tu where u: "T u = Some tu" "x \<in> set (inorder tu)" by (auto simp: elems_of_def)
    show "x \<in> {x. \<exists>u tu. T u = Some tu \<and> u \<noteq> t \<and> x \<in> set (inorder tu)} \<union> set (inorder tr)" using u assms(2) by (cases "u = t") auto
  qed (use assms(2) in \<open>auto simp: elems_of_def\<close>)
  ultimately show ?thesis unfolding objs_def by auto
qed

text \<open>Another world that agrees with this one on the objects of the tables.\<close>

definition world_same :: "world \<Rightarrow> world \<Rightarrow> tables \<Rightarrow> bool" where
  "world_same w w' T \<longleftrightarrow> w_at w' = w_at w \<and> w_gc w' = w_gc w \<and> w_area w' = w_area w \<and> slab_meta (w_slab w') = slab_meta (w_slab w) \<and>
     (\<forall>k < 5. w_list w' (qhead w k) = w_list w (qhead w k)) \<and>
     (\<forall>t \<in> dom T. w_tables w' t = w_tables w t \<and> (t, 256) \<in> live w' \<and> w_rb w' (table_sentinel t) = w_rb w (table_sentinel t) \<and>
        (\<forall>k. w_list w' (qnode k t) = w_list w (qnode k t))) \<and>
     (\<forall>e \<in> elems_of T. elem_same w w' e \<and> w_rb w' e = w_rb w e)"

lemma queues_frame:
  assumes "queues_ok w D Q" "w_gc w' = w_gc w" "w_area w' = w_area w" "slab_meta (w_slab w') = slab_meta (w_slab w)"
    "\<And>k. k < 5 \<Longrightarrow> w_list w' (qhead w k) = w_list w (qhead w k)" "\<And>t k. t \<in> D \<Longrightarrow> w_list w' (qnode k t) = w_list w (qnode k t)"
  shows "queues_ok w' D Q"
proof -
  have h: "qhead w' = qhead w" using assms(2) by (simp add: qhead_def fun_eq_iff)
  have "clist (w_list w') (qhead w k) (map (qnode k) (Q k))" if "k < 5" for k
  proof (rule clist_frame)
    show "clist (w_list w) (qhead w k) (map (qnode k) (Q k))" using assms(1) that by (simp add: queues_ok_def)
    have "set (Q k) \<subseteq> D" using assms(1) that by (simp add: queues_ok_def)
    then show "w_list w' a = w_list w a" if "a \<in> set (qhead w k # map (qnode k) (Q k))" for a
      using that assms(5)[OF \<open>k < 5\<close>] assms(6) by auto
  qed
  then show ?thesis using assms(1) assms(2-4,6) unfolding queues_ok_def h by simp
qed

lemma world_frame:
  assumes "world_ok w T Q" "world_same w w' T" "slab_inv (w_slab w') (w_mem w')"
  shows "world_ok w' T Q" "T t = Some tr \<Longrightarrow> entries w' tr = entries w tr" "contents w' T t = contents w T t"
proof -
  have tab: "table_ok w' t tr" "entries w' tr = entries w tr" if t: "T t = Some tr" for t tr
  proof -
    have e: "e \<in> elems_of T" if "e \<in> set (inorder tr)" for e using t that by (auto simp: elems_of_def)
    have d: "t \<in> dom T" using t by blast
    note s = assms(2)[unfolded world_same_def]
    have "w_tables w' t = w_tables w t" "w_at w' = w_at w" "(t, 256) \<in> live w'" "w_rb w' (table_sentinel t) = w_rb w (table_sentinel t)"
      using s d by blast+
    moreover have "elem_same w w' e" "w_rb w' e = w_rb w e" if "e \<in> set (inorder tr)" for e using s e[OF that] by blast+
    ultimately have f: "table_ok w' t tr" "map (kview w') (inorder tr) = map (kview w) (inorder tr)"
      "map (vview w') (inorder tr) = map (vview w) (inorder tr)" using table_frame[OF world_okD(2)[OF assms(1) t]] by blast+
    show "table_ok w' t tr" by (rule f(1))
    show "entries w' tr = entries w tr" using f(2,3) by (simp add: entries_def)
  qed
  have "queues_ok w' (dom T) Q" by (rule queues_frame[OF world_okD(4)[OF assms(1)]]) (use assms(2) in \<open>auto simp: world_same_def\<close>)
  then show "world_ok w' T Q" using tab(1) assms world_okD(3)[OF assms(1)] by (simp add: world_ok_def world_same_def)
  show "T t = Some tr \<Longrightarrow> entries w' tr = entries w tr" by (rule tab(2))
  show "contents w' T t = contents w T t" using tab(2) by (simp add: contents_def split: option.splits)
qed

section \<open>Steps that leave the tables alone\<close>

lemma obj_apart:
  assumes "world_ok w T Q" "(a, n) \<in> live w" "0 < n" "a \<notin> objs T" "b \<in> objs T" "(b, k) \<in> live w"
  shows "{a ..< a + n} \<inter> {b ..< b + k} = {}"
  using slab_live_apart[OF world_okD(1)[OF assms(1)] assms(2,6)] assms(4,5) by auto

lemma table_nodes:
  assumes "world_ok w T Q" "t \<in> dom T"
  shows "(t, 256) \<in> live w" "table_sentinel t \<in> {t ..< t + 256}" "qnode k t \<in> {t ..< t + 256}"
  using world_okD(2)[OF assms(1)] assms(2)
  by (auto simp: table_ok_def table_sentinel_def qnode_def mark_lnode_def sweep_lnode_def)

lemma elem_node:
  assumes "world_ok w T Q" "e \<in> elems_of T"
  shows "\<exists>n. elem_at w e n \<and> (e, n) \<in> live w \<and> e \<in> {e ..< e + n}"
  using world_okD(2)[OF assms(1)] assms(2) by (fastforce simp: elems_of_def table_ok_def elem_ok_def elem_at_def)

lemma slab_step_same:
  assumes "world_ok w T Q" "slab_step (w_slab w) (w_mem w) sp' mem'"
    "\<And>a n. a \<in> objs T \<Longrightarrow> (a, n) \<in> live w \<Longrightarrow> (a, n) \<in> slab_live sp' mem'"
  shows "world_same w (w\<lparr>w_slab := sp', w_mem := mem'\<rparr>) T"
proof -
  note inv = world_okD(1)[OF assms(1)]
  have st: "slab_meta sp' = slab_meta (w_slab w)" "outside (slab_meta (w_slab w)) (w_mem w) mem'"
    "region_area (pp_region_cb (sl_page_pool sp')) = w_area w" using assms(2) by (simp_all add: slab_step_def)
  have "pm_list mem' (qhead w k) = w_list w (qhead w k)" if "k < 5" for k
    using world_okD(4)[OF assms(1)] st(2) that by (simp add: queues_ok_def outside_def)
  moreover have "pm_rb mem' (table_sentinel t) = w_rb w (table_sentinel t)" "pm_list mem' (qnode k t) = w_list w (qnode k t)"
    "(t, 256) \<in> slab_live sp' mem'" if "t \<in> dom T" for t k
    using slab_step_live[OF inv assms(2) table_nodes(1)[OF assms(1) that]] table_nodes[OF assms(1) that] that assms(3)[of t 256]
    by (auto simp: objs_def)
  moreover have "elem_same w (w\<lparr>w_slab := sp', w_mem := mem'\<rparr>) e" "pm_rb mem' e = w_rb w e" if e: "e \<in> elems_of T" for e
  proof -
    obtain n where n: "(e, n) \<in> live w" "e \<in> {e ..< e + n}" using elem_node[OF assms(1) e] by blast
    show "pm_rb mem' e = w_rb w e" using slab_step_live(1)[OF inv assms(2) n] .
    show "elem_same w (w\<lparr>w_slab := sp', w_mem := mem'\<rparr>) e" using assms(3)[of e] e by (simp add: elem_same_def objs_def)
  qed
  ultimately show ?thesis using st by (simp add: world_same_def)
qed

text \<open>An object that belongs to no table is filled.\<close>

lemma fresh_write_same:
  assumes "world_ok w T Q" "(a, n) \<in> live w" "0 < n" "a \<notin> objs T"
    "\<And>x. x \<notin> {a ..< a + n} \<Longrightarrow> rb x = w_rb w x" "\<And>x. x \<notin> {a ..< a + n} \<Longrightarrow> bs x = w_bytes w x"
    "\<And>x. x \<noteq> a \<Longrightarrow> es x = w_elems w x"
  defines "w' \<equiv> (set_rb rb w)\<lparr>w_bytes := bs, w_elems := es\<rparr>"
  shows "world_same w w' T" "slab_inv (w_slab w') (w_mem w')" "live w' = live w"
proof -
  note inv = world_okD(1)[OF assms(1)]
  have "x \<notin> {a ..< a + n}" if "x \<in> slab_meta (w_slab w)" for x using live_not_meta(1)[OF inv assms(2)] that by blast
  then have m: "same_meta (w_slab w) (w_mem w) (w_mem w')" unfolding w'_def set_rb_def using assms(5) by (simp add: same_meta_def)
  have sl: "w_slab w' = w_slab w" "w_list w' = w_list w" "w_rb w' = rb" "w_tables w' = w_tables w" "w_gc w' = w_gc w" "w_at w' = w_at w"
    "w_elems w' = es" "w_bytes w' = bs"
    by (simp_all add: w'_def set_rb_def)
  show "slab_inv (w_slab w') (w_mem w')" and lv: "live w' = live w" unfolding sl(1) by (rule slab_inv_frame[OF inv m])+
  have out: "x \<notin> {a ..< a + n}" if "b \<in> objs T" "(b, k) \<in> live w" "x \<in> {b ..< b + k}" for b k x
    using obj_apart[OF assms(1-4) that(1,2)] that(3) by blast
  have "rb (table_sentinel t) = w_rb w (table_sentinel t)" if t: "t \<in> dom T" for t
  proof (rule assms(5)[OF out[of t 256]])
    show "t \<in> objs T" using t by (simp add: objs_def)
  qed (rule table_nodes[OF assms(1) t])+
  moreover have "elem_same w w' e" "rb e = w_rb w e" if e: "e \<in> elems_of T" for e
  proof -
    have o: "e \<in> objs T" using e by (simp add: objs_def)
    obtain k where k: "(e, k) \<in> live w" "e \<in> {e ..< e + k}" using elem_node[OF assms(1) e] by blast
    show "rb e = w_rb w e" by (rule assms(5)[OF out[OF o k]])
    have "e \<noteq> a" using assms(4) o by metis
    then have "es e = w_elems w e" by (rule assms(7))
    moreover have "bs x = w_bytes w x" if "(e, j) \<in> live w" "x \<in> {e ..< e + j}" for x j by (rule assms(6)[OF out[OF o that]])
    ultimately show "elem_same w w' e" unfolding elem_same_def sl lv[unfolded sl(1)] by blast
  qed
  ultimately show "world_same w w' T" unfolding world_same_def sl lv[unfolded sl(1)] using table_nodes(1)[OF assms(1)] by simp
qed

end
