(* ===== verification/Table_Elems.thy ===== *)
theory Table_Elems
  imports Table_Inv
begin

text \<open>
  The elements of a table as a map: insertion, replacement, search and removal of elements under
  the lock of the table.
\<close>

section \<open>Lists of entries\<close>

lemma map_of_pairs:
  assumes "inj_on f (set xs)"
  shows "z \<in> set xs \<Longrightarrow> map_of (map (\<lambda>z. (f z, g z)) xs) (f z) = Some (g z)"
    "k \<notin> f ` set xs \<Longrightarrow> map_of (map (\<lambda>z. (f z, g z)) xs) k = None"
proof -
  show "z \<in> set xs \<Longrightarrow> map_of (map (\<lambda>z. (f z, g z)) xs) (f z) = Some (g z)"
    using assms by (induction xs) (auto simp: inj_on_def)
  show "k \<notin> f ` set xs \<Longrightarrow> map_of (map (\<lambda>z. (f z, g z)) xs) k = None" by (induction xs) auto
qed

lemma strict_sorted_inj: "sorted_wrt (<) (map f xs) \<Longrightarrow> inj_on f (set xs)" for f :: "'a \<Rightarrow> 'b::linorder"
  using strict_sorted_iff[of "map f xs"] by (simp add: distinct_map)

lemma entries_lookup:
  assumes "sorted_wrt (<) (map (kview w) (inorder tr))"
  shows "e \<in> set (inorder tr) \<Longrightarrow> map_of (entries w tr) (kview w e) = Some (vview w e)"
    "k \<notin> kview w ` set (inorder tr) \<Longrightarrow> map_of (entries w tr) k = None"
  using map_of_pairs[OF strict_sorted_inj[OF assms]] by (simp_all add: entries_def)

text \<open>Trees that differ in one element.\<close>

lemma entries_insert:
  assumes "sorted_wrt (<) (map (kview w) (inorder tr))" "sorted_wrt (<) (map (kview w) (inorder tr'))"
    "set (inorder tr') = insert e (set (inorder tr) - X)" "\<And>x. x \<in> X \<Longrightarrow> kview w x = kview w e"
  shows "map_of (entries w tr') = (map_of (entries w tr))(kview w e \<mapsto> vview w e)"
proof
  fix k
  note l = entries_lookup[OF assms(1)] and l' = entries_lookup[OF assms(2)]
  consider "k = kview w e" | z where "z \<in> set (inorder tr')" "kview w z = k" "k \<noteq> kview w e" | "k \<notin> kview w ` set (inorder tr')" "k \<noteq> kview w e"
    by blast
  then show "map_of (entries w tr') k = ((map_of (entries w tr))(kview w e \<mapsto> vview w e)) k"
  proof cases
    case 1
    then show ?thesis using l'(1)[of e] assms(3) by simp
  next
    case 2
    then show ?thesis using l'(1)[of z] l(1)[of z] assms(3) by auto
  next
    case 3
    then have "k \<notin> kview w ` set (inorder tr)" using assms(3,4) by auto
    then show ?thesis using 3 l(2) l'(2) by simp
  qed
qed

lemma entries_delete:
  assumes "sorted_wrt (<) (map (kview w) (inorder tr))" "sorted_wrt (<) (map (kview w) (inorder tr'))"
    "set (inorder tr') = set (inorder tr) - {e}" "e \<in> set (inorder tr)"
  shows "map_of (entries w tr') = (map_of (entries w tr))(kview w e := None)"
proof
  fix k
  note l = entries_lookup[OF assms(1)] and l' = entries_lookup[OF assms(2)] and inj = strict_sorted_inj[OF assms(1)]
  have "kview w e \<notin> kview w ` set (inorder tr')" using inj assms(3,4) by (auto simp: inj_on_def)
  moreover have "map_of (entries w tr') k = map_of (entries w tr) k" if "k \<noteq> kview w e"
  proof (cases "k \<in> kview w ` set (inorder tr')")
    case True
    then show ?thesis using l(1) l'(1) assms(3) by auto
  next
    case False
    then have "k \<notin> kview w ` set (inorder tr)" using assms(3) that by auto
    then show ?thesis using False l(2)[of k] l'(2)[of k] by simp
  qed
  ultimately show "map_of (entries w tr') k = ((map_of (entries w tr))(kview w e := None)) k" using l'(2) by simp
qed

section \<open>The order of elements\<close>

lemma cmp_element_view:
  assumes "str_key m (te_key (es a))" "str_key m (te_key (es b))"
  shows "st_table_cmp_element m es a b = st_cmp (str_view m (te_key (es a))) (str_view m (te_key (es b)))"
  using str_cmp_view[OF assms] by (simp add: st_table_cmp_element_def)

interpretation elem_order: three_way "{e. str_key m (te_key (es e))}" "st_table_cmp_element m es" for m es
proof (unfold_locales, goal_cases)
  case (1 a b)
  then show ?case using st_cmp_key.sign[of a UNIV b "\<lambda>e. str_view m (te_key (es e))"] by (simp add: cmp_element_view)
next
  case (2 a b c)
  then show ?case using st_cmp_key.trans[of a UNIV b c "\<lambda>e. str_view m (te_key (es e))"] by (simp add: cmp_element_view)
next
  case (3 a b)
  then show ?case using st_cmp_range[of "str_view m (te_key (es a))" "str_view m (te_key (es b))"] by (simp add: cmp_element_view)
qed

lemma elem_key: "elem_ok w e \<Longrightarrow> str_key (w_bytes w) (te_key (w_elems w e))"
  by (auto simp: elem_ok_def elem_at_def)

lemma cmp_kview: "elem_ok w a \<Longrightarrow> elem_ok w b \<Longrightarrow> st_table_cmp_element (w_bytes w) (w_elems w) a b = st_cmp (kview w a) (kview w b)"
  using cmp_element_view[of "w_bytes w" "w_elems w" a b] elem_key[of w] by (simp add: kview_def)

lemma sorted_views:
  assumes "\<And>e. e \<in> set xs \<Longrightarrow> elem_ok w e"
  shows "sorted_by (st_table_cmp_element (w_bytes w) (w_elems w)) xs \<longleftrightarrow> sorted (map (kview w) xs)"
  using assms by (induction xs) (auto simp: cmp_kview)

section \<open>A changed tree\<close>

lemma apart_upd:
  assumes "apart_tables T" "T t = Some tr" "\<And>e. e \<in> set (inorder tr') \<Longrightarrow> e \<in> set (inorder tr) \<or> e \<notin> objs T"
  shows "apart_tables (T(t \<mapsto> tr'))"
proof -
  have d: "t \<in> dom T" using assms(2) by blast
  have "e \<notin> dom T" if "e \<in> set (inorder tr')" for e
    using assms(1,2) assms(3)[OF that] by (auto simp: apart_tables_def objs_def elems_of_def)
  then have "elems_of (T(t \<mapsto> tr')) \<inter> dom T = {}"
    using assms(1) by (auto simp: apart_tables_def elems_of_def split: if_splits)
  moreover have "set (inorder tr') \<inter> set (inorder tr1) = {}" if "T t1 = Some tr1" "t1 \<noteq> t" for t1 tr1
  proof -
    have "set (inorder tr) \<inter> set (inorder tr1) = {}" using assms(1,2) that unfolding apart_tables_def by metis
    moreover have "set (inorder tr1) \<subseteq> objs T" using that(1) by (auto simp: objs_def elems_of_def)
    ultimately show ?thesis using assms(3) by blast
  qed
  ultimately show ?thesis using assms(1) d unfolding apart_tables_def
    by (simp add: insert_absorb) (metis Int_commute option.inject)
qed

text \<open>The tree of the table \<open>t\<close> becomes \<open>tr'\<close>; its new elements are objects of no table so far.\<close>

lemma world_tree_update:
  assumes "world_ok w T Q" "T t = Some tr" "rb_tree tree rb tr'" "rt_sentinel tree = table_sentinel t"
    and new: "\<And>e. e \<in> set (inorder tr') \<Longrightarrow> e \<in> set (inorder tr) \<or> e \<notin> objs T" "\<And>e. e \<in> set (inorder tr') \<Longrightarrow> elem_ok w e"
    and rb: "\<And>x. x \<notin> set (inorder tr) \<union> set (inorder tr') \<union> {table_sentinel t} \<Longrightarrow> rb x = w_rb w x"
    and srt: "sorted_wrt (<) (map (kview w) (inorder tr'))"
    and tb: "tb_elements tb = tree" "tb_element_cnt tb = int (length (inorder tr'))" "lock_free (tb_lock tb)"
      "tb_inited tb" "tb_pool tb = w_at w"
  defines "w' \<equiv> upd_table t (\<lambda>_. tb) (set_rb rb w)"
  shows "world_ok w' (T(t \<mapsto> tr')) Q" "entries w' = entries w" "t' \<noteq> t \<Longrightarrow> contents w' (T(t \<mapsto> tr')) t' = contents w T t'"
    "live w' = live w"
proof -
  note inv = world_okD(1)[OF assms(1)] and tok = world_okD(2)[OF assms(1)]
  have fields: "w_slab w' = w_slab w" "w_list w' = w_list w" "w_rb w' = rb" "w_gc w' = w_gc w" "w_at w' = w_at w" "w_elems w' = w_elems w"
    "w_bytes w' = w_bytes w" "w_tables w' = (w_tables w)(t := tb)"
    by (simp_all add: w'_def set_rb_def upd_table_def)
  have td: "t \<in> dom T" using assms(2) by blast
  have lv: "\<exists>n. (x, n) \<in> live w \<and> 0 < n" if "x \<in> set (inorder tr) \<union> set (inorder tr')" for x
    using that new(2)[of x] tok[OF assms(2)] elem_live[of w x] by (auto simp: table_ok_def)
  have "x \<notin> set (inorder tr) \<union> set (inorder tr') \<union> {table_sentinel t}" if x: "x \<in> slab_meta (w_slab w)" for x
  proof
    assume "x \<in> set (inorder tr) \<union> set (inorder tr') \<union> {table_sentinel t}"
    then obtain a n where "(a, n) \<in> live w" "x \<in> {a ..< a + n}" using lv table_nodes(1,2)[OF assms(1) td] by fastforce
    then show False using live_not_meta(1)[OF inv] x by blast
  qed
  then have "same_meta (w_slab w) (w_mem w) (w_mem w')" unfolding w'_def set_rb_def upd_table_def using rb by (simp add: same_meta_def)
  then have inv': "slab_inv (w_slab w') (w_mem w')" and lv': "live w' = live w" unfolding fields(1) by (rule slab_inv_frame[OF inv])+
  show "live w' = live w" by (rule lv')
  have es: "elem_same w w' e" for e unfolding elem_same_def fields lv'[unfolded fields(1)] by simp
  show ent: "entries w' = entries w" by (simp add: entries_def kview_def vview_def fields fun_eq_iff)
  have kv: "kview w' = kview w" by (simp add: kview_def fields fun_eq_iff)
  have "elem_ok w' e" if "elem_ok w e" for e using elem_frame(1)[OF that es] .
  then have here: "table_ok w' t tr'" using tb assms(3,4) new(2) srt table_nodes(1)[OF assms(1) td] lv'
    by (simp add: table_ok_def fields(3,5,8) kv)
  have there: "table_ok w' t1 tr1" if t1: "T t1 = Some tr1" "t1 \<noteq> t" for t1 tr1
  proof (rule table_frame(1)[OF tok[OF t1(1)]])
    have d1: "t1 \<in> dom T" using t1(1) by blast
    show "(t1, 256) \<in> live w'" unfolding lv' by (rule table_nodes(1)[OF assms(1) d1])
    have sub: "set (inorder tr1) \<subseteq> objs T" using t1(1) by (auto simp: objs_def elems_of_def)
    have dis: "set (inorder tr) \<inter> set (inorder tr1) = {}" using world_okD(3)[OF assms(1)] assms(2) t1 unfolding apart_tables_def by metis
    have s1: "table_sentinel t \<noteq> x" if "(x, n) \<in> live w" "x \<noteq> t" "0 < n" for x n
      using slab_live_apart[OF inv table_nodes(1)[OF assms(1) td] that(1)] that(2,3) table_nodes(2)[OF assms(1) td] by auto
    show "w_rb w' e = w_rb w e" if e: "e \<in> set (inorder tr1)" for e
    proof -
      have "e \<notin> dom T" using world_okD(3)[OF assms(1)] e t1(1) by (auto simp: apart_tables_def elems_of_def)
      then have "e \<noteq> t" using td by blast
      moreover obtain n where "(e, n) \<in> live w" "0 < n" using objs_live[OF assms(1)] sub e by blast
      ultimately have "table_sentinel t \<noteq> e" using s1 by blast
      moreover have "e \<notin> set (inorder tr')" using new(1)[of e] sub dis e by blast
      ultimately show ?thesis unfolding fields(3) using dis e by (intro rb) auto
    qed
    show "w_rb w' (table_sentinel t1) = w_rb w (table_sentinel t1)"
    proof -
      have "table_sentinel t1 \<noteq> table_sentinel t" using t1(2) by (simp add: table_sentinel_def)
      moreover have "table_sentinel t1 \<notin> set (inorder tr) \<union> set (inorder tr')"
      proof
        assume s: "table_sentinel t1 \<in> set (inorder tr) \<union> set (inorder tr')"
        then obtain n where n: "(table_sentinel t1, n) \<in> live w" "0 < n" using lv by blast
        have "{t1 ..< t1 + 256} \<inter> {table_sentinel t1 ..< table_sentinel t1 + n} = {}"
          by (rule slab_live_apart[OF inv table_nodes(1)[OF assms(1) d1] n(1)]) (simp add: table_sentinel_def)
        then show False using n(2) by (auto simp: table_sentinel_def disjoint_iff dest!: spec[of _ "t1 + 56"])
      qed
      ultimately show ?thesis unfolding fields(3) by (intro rb) auto
    qed
  qed (use es t1(2) in \<open>simp_all add: fields\<close>)
  have "queues_ok w' (dom T) Q" by (rule queues_frame[OF world_okD(4)[OF assms(1)]]) (simp_all add: fields)
  moreover have "dom (T(t \<mapsto> tr')) = dom T" using td by auto
  ultimately show "world_ok w' (T(t \<mapsto> tr')) Q"
    using inv' here there apart_upd[OF world_okD(3)[OF assms(1)] assms(2) new(1)]
    by (simp add: world_ok_def fields(4))
  show "t' \<noteq> t \<Longrightarrow> contents w' (T(t \<mapsto> tr')) t' = contents w T t'" unfolding contents_def ent by simp
qed

section \<open>Sections under the lock of a table\<close>

definition held :: "env \<Rightarrow> mutex" where
  "held env = \<lparr>mx_owner = Some (env_pid env), mx_owner_died = False, mx_notrecoverable = False\<rparr>"

lemma held_unlock [simp]: "st_robustlock_unlock (env_pid env) (held env) = Some mutex_new"
  by (rule unlock_held) (simp add: held_def lock_held_def)

lemma with_table_lock_eq:
  assumes "lock_free (tb_lock (w_tables w t))" "body (upd_table t (tb_lock_update (\<lambda>_. held env)) w) = Some (r, w')"
    "tb_lock (w_tables w' t) = held env"
  shows "with_table_lock env t w body = Some (r, upd_table t (tb_lock_update (\<lambda>_. mutex_new)) w')"
  using assms acquire_free[of "tb_lock (w_tables w t)" "env_pid env"] by (simp add: with_table_lock_def held_def[symmetric])

lemma upd_table_simps [simp]:
  "w_tables (upd_table t f w) = (w_tables w)(t := f (w_tables w t))" "w_rb (upd_table t f w) = w_rb w" "w_list (upd_table t f w) = w_list w"
  "w_bytes (upd_table t f w) = w_bytes w" "w_elems (upd_table t f w) = w_elems w" "w_gc (upd_table t f w) = w_gc w"
  "w_slab (upd_table t f w) = w_slab w" "w_mem (upd_table t f w) = w_mem w" "w_at (upd_table t f w) = w_at w"
  "w_run_gc_periodical (upd_table t f w) = w_run_gc_periodical w" "w_table_cnt (upd_table t f w) = w_table_cnt w"
  "upd_table t g (upd_table t f w) = upd_table t (\<lambda>tb. g (f tb)) w" "upd_table t id w = w"
  by (simp_all add: upd_table_def)

lemma set_rb_simps [simp]:
  "w_tables (set_rb rb w) = w_tables w" "w_rb (set_rb rb w) = rb" "w_list (set_rb rb w) = w_list w"
  "w_bytes (set_rb rb w) = w_bytes w" "w_elems (set_rb rb w) = w_elems w" "w_gc (set_rb rb w) = w_gc w"
  "w_slab (set_rb rb w) = w_slab w" "w_at (set_rb rb w) = w_at w"
  "w_run_gc_periodical (set_rb rb w) = w_run_gc_periodical w" "w_table_cnt (set_rb rb w) = w_table_cnt w"
  "set_rb rb' (upd_table t f w) = upd_table t f (set_rb rb' w)" "set_rb rb' (set_rb rb w) = set_rb rb' w" "set_rb (w_rb w) w = w"
  by (simp_all add: set_rb_def upd_table_def)

section \<open>Adding an element\<close>

lemma table_sorted:
  assumes "table_ok w t tr"
  shows "sorted_by (st_table_cmp_element (w_bytes w) (w_elems w)) (inorder tr)"
  using assms sorted_views[of "inorder tr" w] by (auto simp: table_ok_def strict_sorted_iff)

lemma insert_elem_tree:
  assumes "table_ok w t tr" "elem_ok w e" "e \<notin> set (inorder tr)" "e \<noteq> NULL" "e \<noteq> table_sentinel t"
  defines "tree \<equiv> tb_elements (w_tables w t)"
  shows "\<exists>ret tree' rb' y. st_rbtree_insert (st_table_cmp_element (w_bytes w) (w_elems w)) tree (w_rb w) e 0 = Some (ret, tree', rb', y) \<and>
    (if kview w e \<in> kview w ` set (inorder tr)
     then ret = ST_EXISTED \<and> tree' = tree \<and> rb' = w_rb w \<and> y \<in> set (inorder tr) \<and> kview w y = kview w e
     else ret = ST_OK \<and> rt_sentinel tree' = table_sentinel t \<and> (\<forall>x. x \<noteq> e \<and> x \<notin> set (inorder tr) \<longrightarrow> rb' x = w_rb w x) \<and>
       (\<exists>tr'. rb_tree tree' rb' tr' \<and> set (inorder tr') = insert e (set (inorder tr)) \<and> length (inorder tr') = Suc (length (inorder tr)) \<and>
          sorted_wrt (<) (map (kview w) (inorder tr'))))"
proof -
  let ?cmp = "st_table_cmp_element (w_bytes w) (w_elems w)" and ?A = "{e. str_key (w_bytes w) (te_key (w_elems w e))}"
  have ok: "elem_ok w x" if "x \<in> insert e (set (inorder tr))" for x using assms(1,2) that by (auto simp: table_ok_def)
  have sub: "insert e (set (inorder tr)) \<subseteq> ?A" using ok elem_key by blast
  have t: "rb_tree tree (w_rb w) tr" "rt_sentinel tree = table_sentinel t" using assms(1) by (simp_all add: table_ok_def tree_def)
  have eq: "(\<exists>y \<in> set (inorder tr). ?cmp e y = 0) \<longleftrightarrow> kview w e \<in> kview w ` set (inorder tr)"
    using cmp_kview[of w e] ok by (auto simp: image_iff)
  from rbtree_insert_ok[OF elem_order.comparator_axioms t(1) sub table_sorted[OF assms(1)] assms(3,4), of 0] assms(5) t(2)
  obtain ret tree' rb' y where r: "st_rbtree_insert ?cmp tree (w_rb w) e 0 = Some (ret, tree', rb', y)"
    "if kview w e \<in> kview w ` set (inorder tr) then ret = ST_EXISTED \<and> tree' = tree \<and> rb' = w_rb w \<and> y \<in> set (inorder tr) \<and> ?cmp e y = 0
     else ret = ST_OK \<and> rt_sentinel tree' = rt_sentinel tree \<and>
       (\<exists>t'. rb_tree tree' rb' t' \<and> inorder t' = ordered_insert ?cmp e (inorder tr)) \<and>
       (\<forall>x. x \<noteq> e \<and> x \<notin> set (inorder tr) \<longrightarrow> rb' x = w_rb w x)"
    unfolding eq by auto
  show ?thesis
  proof (cases "kview w e \<in> kview w ` set (inorder tr)")
    case True
    then have "kview w y = kview w e" using r(2) cmp_kview[of w e y] ok by auto
    then show ?thesis using r unfolding if_P[OF True] by blast
  next
    case False
    then obtain tr' where tr': "rb_tree tree' rb' tr'" "inorder tr' = ordered_insert ?cmp e (inorder tr)" using r(2) by auto
    have st: "set (inorder tr') = insert e (set (inorder tr))" unfolding tr'(2) by (rule set_ordered_insert)
    have "sorted_by ?cmp (inorder tr')" unfolding tr'(2)
      by (rule elem_order.sorted_ordered_insert[OF _ _ table_sorted[OF assms(1)]]) (use sub in auto)
    then have "sorted (map (kview w) (inorder tr'))" using sorted_views[of "inorder tr'" w] ok st by simp
    moreover have "distinct (inorder tr')" using tr'(1) by (auto simp: rb_tree_def tree_at_def)
    moreover have "inj_on (kview w) (set (inorder tr))" using assms(1) by (intro strict_sorted_inj) (simp add: table_ok_def)
    then have "inj_on (kview w) (set (inorder tr'))" unfolding st inj_on_insert using False by blast
    ultimately have srt: "sorted_wrt (<) (map (kview w) (inorder tr'))" by (simp add: strict_sorted_iff distinct_map)
    have "length (inorder tr') = Suc (length (inorder tr))" unfolding tr'(2) ordered_insert_def
      by (metis add_Suc_right length_Cons length_append takeWhile_dropWhile_id)
    then show ?thesis unfolding if_not_P[OF False] using r(1) r(2)[unfolded if_not_P[OF False]] tr'(1) st srt t(2)
      by (intro exI[of _ ret] exI[of _ tree'] exI[of _ rb'] exI[of _ y] conjI exI[of _ tr']) simp_all
  qed
qed

lemma table_okD:
  assumes "world_ok w T Q" "T t = Some tr"
  shows "lock_free (tb_lock (w_tables w t))" "rt_sentinel (tb_elements (w_tables w t)) = table_sentinel t"
    "rb_tree (tb_elements (w_tables w t)) (w_rb w) tr" "tb_element_cnt (w_tables w t) = int (length (inorder tr))"
    "sorted_wrt (<) (map (kview w) (inorder tr))" "tb_inited (w_tables w t)" "tb_pool (w_tables w t) = w_at w"
    "\<And>e. e \<in> set (inorder tr) \<Longrightarrow> elem_ok w e" "set (inorder tr) \<subseteq> objs T" "t \<in> objs T"
  using world_okD(2)[OF assms] assms(2) by (auto simp: table_ok_def objs_def elems_of_def)

lemma loose_elem:
  assumes "world_ok w T Q" "T t = Some tr" "elem_ok w e" "e \<notin> objs T"
  shows "e \<noteq> NULL" "e \<noteq> table_sentinel t" "e \<notin> set (inorder tr)"
proof -
  obtain n where n: "(e, n) \<in> live w" "0 < n" using elem_live[OF assms(3)] by blast
  show "e \<noteq> NULL" using live_nonnull[OF world_okD(1)[OF assms(1)] n(1), of e] n(2) by simp
  have td: "t \<in> dom T" using assms(2) by blast
  have "table_sentinel t \<notin> {e ..< e + n}"
    using obj_apart[OF assms(1) n assms(4) _ table_nodes(1)[OF assms(1) td]] table_nodes(2)[OF assms(1) td] td by (auto simp: objs_def)
  then show "e \<noteq> table_sentinel t" using n(2) by auto
  show "e \<notin> set (inorder tr)" using table_okD(9)[OF assms(1,2)] assms(4) by blast
qed

lemma contents_at: "T t = Some tr \<Longrightarrow> contents w T t = map_of (entries w tr)"
  by (simp add: contents_def)

lemma contents_dom:
  assumes "world_ok w T Q" "T t = Some tr"
  shows "contents w T t k = None \<longleftrightarrow> k \<notin> kview w ` set (inorder tr)"
  using entries_lookup(1)[OF table_okD(5)[OF assms]] entries_lookup(2)[OF table_okD(5)[OF assms], of k]
  unfolding contents_at[of T t tr, OF assms(2)] by auto

text \<open>A change of a table's elements: the table has a new version, and is neither marked nor destroyed.\<close>

definition bumps :: "(st_table \<Rightarrow> st_table) \<Rightarrow> bool" where
  "bumps f \<longleftrightarrow> (\<forall>tb. tb_mark (f tb) = tb_mark tb \<and> tb_inited (f tb) = tb_inited tb \<and> tb_version (f tb) = tb_version tb + 1)"

text \<open>The key of the element is new.\<close>

lemma add_element_new:
  assumes "world_ok w T Q" "T t = Some tr" "elem_ok w e" "e \<notin> objs T" "contents w T t (kview w e) = None"
  shows "\<exists>f rb tr'. st_table_add_element env w t e force = Some ((ST_OK, NULL), upd_table t f (set_rb rb w)) \<and>
    world_ok (upd_table t f (set_rb rb w)) (T(t \<mapsto> tr')) Q \<and> set (inorder tr') = insert e (set (inorder tr)) \<and>
    live (upd_table t f (set_rb rb w)) = live w \<and> entries (upd_table t f (set_rb rb w)) = entries w \<and>
    contents (upd_table t f (set_rb rb w)) (T(t \<mapsto> tr')) = (contents w T)(t := (contents w T t)(kview w e \<mapsto> vview w e)) \<and>
    bumps f"
proof -
  let ?tb = "w_tables w t" and ?cmp = "st_table_cmp_element (w_bytes w) (w_elems w)"
  note lo = loose_elem[OF assms(1-4)] and tok = table_okD[OF assms(1,2)]
  have nk: "kview w e \<notin> kview w ` set (inorder tr)" using contents_dom[OF assms(1,2), of "kview w e"] assms(5) by simp
  from insert_elem_tree[OF world_okD(2)[OF assms(1,2)] assms(3) lo(3,1,2), unfolded if_not_P[OF nk]] obtain tree' rb' tr' y where
    r: "st_rbtree_insert ?cmp (tb_elements ?tb) (w_rb w) e 0 = Some (ST_OK, tree', rb', y)" "rt_sentinel tree' = table_sentinel t"
    "\<forall>x. x \<noteq> e \<and> x \<notin> set (inorder tr) \<longrightarrow> rb' x = w_rb w x" "rb_tree tree' rb' tr'" "set (inorder tr') = insert e (set (inorder tr))"
    "length (inorder tr') = Suc (length (inorder tr))" "sorted_wrt (<) (map (kview w) (inorder tr'))" by blast
  define f where "f = (\<lambda>tb :: st_table. tb\<lparr>tb_elements := tree', tb_element_cnt := tb_element_cnt tb + 1, tb_version := tb_version tb + 1, tb_lock := mutex_new\<rparr>)"
  have "st_table_add_element env w t e force =
      Some ((ST_OK, NULL), upd_table t (tb_lock_update (\<lambda>_. mutex_new)) (upd_table t (\<lambda>tb. tb\<lparr>tb_element_cnt := tb_element_cnt tb + 1, tb_version := tb_version tb + 1\<rparr>)
        (upd_table t (tb_elements_update (\<lambda>_. tree')) (set_rb rb' (upd_table t (tb_lock_update (\<lambda>_. held env)) w)))))"
    unfolding st_table_add_element_def by (rule with_table_lock_eq[OF tok(1)]) (use r(1) in \<open>simp_all add: add_element_body_def\<close>)
  then have eq: "st_table_add_element env w t e force = Some ((ST_OK, NULL), upd_table t f (set_rb rb' w))"
    by (simp add: f_def)
  let ?w = "upd_table t (\<lambda>_. f ?tb) (set_rb rb' w)"
  have w: "upd_table t f (set_rb rb' w) = ?w" by (simp add: upd_table_def)
  have "elem_ok w x" if "x \<in> set (inorder tr')" for x using tok(8) assms(3) r(5) that by auto
  then have u: "world_ok ?w (T(t \<mapsto> tr')) Q" "entries ?w = entries w" "live ?w = live w"
    "\<And>t'. t' \<noteq> t \<Longrightarrow> contents ?w (T(t \<mapsto> tr')) t' = contents w T t'"
    by (intro world_tree_update[OF assms(1,2) r(4,2)]; use assms(4) r(3,5-7) tok(4,6,7) in \<open>auto simp: f_def\<close>)+
  have "map_of (entries w tr') = (map_of (entries w tr))(kview w e \<mapsto> vview w e)"
    by (rule entries_insert[OF tok(5) r(7), where X = "{}"]) (use r(5) in auto)
  then have "contents ?w (T(t \<mapsto> tr')) t = (contents w T t)(kview w e \<mapsto> vview w e)" unfolding contents_def u(2) using assms(2) by simp
  then have "contents ?w (T(t \<mapsto> tr')) = (contents w T)(t := (contents w T t)(kview w e \<mapsto> vview w e))" using u(4) by (auto simp: fun_eq_iff)
  moreover have "bumps f" by (simp add: bumps_def f_def)
  ultimately show ?thesis using eq u(1-3) r(5) unfolding w[symmetric] by blast
qed

text \<open>The key of the element is in the table: without \<open>force\<close> nothing changes, with it the old element goes.\<close>

lemma lock_only:
  assumes "world_ok w T Q" "T t = Some tr" "lock_free l"
  shows "world_ok (upd_table t (tb_lock_update (\<lambda>_. l)) w) T Q" "entries (upd_table t (tb_lock_update (\<lambda>_. l)) w) = entries w"
    "contents (upd_table t (tb_lock_update (\<lambda>_. l)) w) T = contents w T"
proof -
  let ?w = "upd_table t (\<lambda>_. (w_tables w t)\<lparr>tb_lock := l\<rparr>) (set_rb (w_rb w) w)"
  note tok = table_okD[OF assms(1,2)]
  have w: "upd_table t (tb_lock_update (\<lambda>_. l)) w = ?w" by (simp add: upd_table_def)
  have T: "T(t \<mapsto> tr) = T" using assms(2) by auto
  have "world_ok ?w (T(t \<mapsto> tr)) Q" "entries ?w = entries w"
    by (intro world_tree_update[OF assms(1,2) tok(3,2)]; use tok assms(3) in simp)+
  then show a: "world_ok (upd_table t (tb_lock_update (\<lambda>_. l)) w) T Q" "entries (upd_table t (tb_lock_update (\<lambda>_. l)) w) = entries w"
    unfolding w T .
  show "contents (upd_table t (tb_lock_update (\<lambda>_. l)) w) T = contents w T" unfolding contents_def a(2) ..
qed

lemma add_element_refused:
  assumes "world_ok w T Q" "T t = Some tr" "elem_ok w e" "e \<notin> objs T" "contents w T t (kview w e) \<noteq> None"
  shows "st_table_add_element env w t e False = Some ((ST_EXISTED, NULL), upd_table t (tb_lock_update (\<lambda>_. mutex_new)) w)"
proof -
  note lo = loose_elem[OF assms(1-4)] and tok = table_okD[OF assms(1,2)]
  have k: "kview w e \<in> kview w ` set (inorder tr)" using contents_dom[OF assms(1,2), of "kview w e"] assms(5) by simp
  from insert_elem_tree[OF world_okD(2)[OF assms(1,2)] assms(3) lo(3,1,2), unfolded if_P[OF k]] obtain y where
    r: "st_rbtree_insert (st_table_cmp_element (w_bytes w) (w_elems w)) (tb_elements (w_tables w t)) (w_rb w) e 0 =
      Some (ST_EXISTED, tb_elements (w_tables w t), w_rb w, y)" by blast
  have "st_table_add_element env w t e False = Some ((ST_EXISTED, NULL), upd_table t (tb_lock_update (\<lambda>_. mutex_new))
      (upd_table t (tb_elements_update (\<lambda>_. tb_elements (w_tables w t))) (set_rb (w_rb w) (upd_table t (tb_lock_update (\<lambda>_. held env)) w))))"
    unfolding st_table_add_element_def by (rule with_table_lock_eq[OF tok(1)]) (use r in \<open>simp_all add: add_element_body_def\<close>)
  then show ?thesis by (simp add: upd_table_def set_rb_def)
qed

lemma replace_sorted:
  assumes "sorted_wrt (<) (map f xs)" "f b = f a"
  shows "map f (map (\<lambda>z. if z = a then b else z) xs) = map f xs"
  using assms(2) by simp

lemma add_element_replace:
  assumes "world_ok w T Q" "T t = Some tr" "elem_ok w e" "e \<notin> objs T" "contents w T t (kview w e) \<noteq> None"
    "w_rb w e = st_rbtree_node_empty"
  shows "\<exists>f rb tr' y. st_table_add_element env w t e True = Some ((ST_EXISTED, y), upd_table t f (set_rb rb w)) \<and>
    y \<in> set (inorder tr) \<and> kview w y = kview w e \<and> set (inorder tr') = insert e (set (inorder tr) - {y}) \<and>
    world_ok (upd_table t f (set_rb rb w)) (T(t \<mapsto> tr')) Q \<and>
    live (upd_table t f (set_rb rb w)) = live w \<and> entries (upd_table t f (set_rb rb w)) = entries w \<and>
    contents (upd_table t f (set_rb rb w)) (T(t \<mapsto> tr')) = (contents w T)(t := (contents w T t)(kview w e \<mapsto> vview w e)) \<and>
    bumps f"
proof -
  let ?tb = "w_tables w t" and ?cmp = "st_table_cmp_element (w_bytes w) (w_elems w)"
  note lo = loose_elem[OF assms(1-4)] and tok = table_okD[OF assms(1,2)]
  have k: "kview w e \<in> kview w ` set (inorder tr)" using contents_dom[OF assms(1,2), of "kview w e"] assms(5) by simp
  from insert_elem_tree[OF world_okD(2)[OF assms(1,2)] assms(3) lo(3,1,2), unfolded if_P[OF k]] obtain y where
    i: "st_rbtree_insert ?cmp (tb_elements ?tb) (w_rb w) e 0 = Some (ST_EXISTED, tb_elements ?tb, w_rb w, y)"
    "y \<in> set (inorder tr)" "kview w y = kview w e" by blast
  have c: "?cmp y e = 0" using cmp_kview[OF tok(8)[OF i(2)] assms(3)] i(3) by simp
  from rbtree_replace_ok[OF tok(3) i(2) lo(3,1), of ?cmp] c lo(2) tok(2) assms(6) obtain tree' rb' tr' where
    r: "st_rbtree_replace ?cmp (tb_elements ?tb) (w_rb w) y e = Some (ST_OK, tree', rb')" "rt_sentinel tree' = table_sentinel t"
    "rb_tree tree' rb' tr'" "inorder tr' = map (\<lambda>z. if z = y then e else z) (inorder tr)"
    "\<forall>z. z \<noteq> e \<and> z \<notin> set (inorder tr) \<longrightarrow> rb' z = w_rb w z" by (auto simp: st_rbtree_node_empty_def)
  have st: "set (inorder tr') = insert e (set (inorder tr) - {y})" unfolding r(4) using i(2) by auto
  have kv: "map (kview w) (inorder tr') = map (kview w) (inorder tr)" unfolding r(4) by (rule replace_sorted[OF tok(5) i(3)[symmetric]])
  define f where "f = (\<lambda>tb :: st_table. tb\<lparr>tb_elements := tree', tb_version := tb_version tb + 1, tb_lock := mutex_new\<rparr>)"
  have "st_table_add_element env w t e True = Some ((ST_EXISTED, y), upd_table t (tb_lock_update (\<lambda>_. mutex_new))
      (upd_table t (\<lambda>tb. tb\<lparr>tb_version := tb_version tb + 1\<rparr>) (upd_table t (tb_elements_update (\<lambda>_. tree')) (set_rb rb'
        (upd_table t (tb_elements_update (\<lambda>_. tb_elements ?tb)) (set_rb (w_rb w) (upd_table t (tb_lock_update (\<lambda>_. held env)) w)))))))"
    unfolding st_table_add_element_def by (rule with_table_lock_eq[OF tok(1)]) (use i(1) r(1) in \<open>simp_all add: add_element_body_def\<close>)
  then have eq: "st_table_add_element env w t e True = Some ((ST_EXISTED, y), upd_table t f (set_rb rb' w))" by (simp add: f_def)
  let ?w = "upd_table t (\<lambda>_. f ?tb) (set_rb rb' w)"
  have w: "upd_table t f (set_rb rb' w) = ?w" by (simp add: upd_table_def)
  have "elem_ok w x" if "x \<in> set (inorder tr')" for x using tok(8) assms(3) st that by auto
  moreover have "sorted_wrt (<) (map (kview w) (inorder tr'))" unfolding kv by (rule tok(5))
  moreover have "length (inorder tr') = length (inorder tr)" unfolding r(4) by simp
  ultimately have u: "world_ok ?w (T(t \<mapsto> tr')) Q" "entries ?w = entries w" "live ?w = live w"
    "\<And>t'. t' \<noteq> t \<Longrightarrow> contents ?w (T(t \<mapsto> tr')) t' = contents w T t'"
    by (intro world_tree_update[OF assms(1,2) r(3,2)]; use assms(4) r(5) st tok(4,6,7) in \<open>auto simp: f_def\<close>)+
  have "sorted_wrt (<) (map (kview w) (inorder tr'))" unfolding kv by (rule tok(5))
  then have "map_of (entries w tr') = (map_of (entries w tr))(kview w e \<mapsto> vview w e)"
    by (rule entries_insert[OF tok(5) _ st]) (use i(3) in auto)
  then have "contents ?w (T(t \<mapsto> tr')) t = (contents w T t)(kview w e \<mapsto> vview w e)" unfolding contents_def u(2) using assms(2) by simp
  then have "contents ?w (T(t \<mapsto> tr')) = (contents w T)(t := (contents w T t)(kview w e \<mapsto> vview w e))" using u(4) by (auto simp: fun_eq_iff)
  moreover have "bumps f" by (simp add: bumps_def f_def)
  ultimately show ?thesis using eq u(1-3) st i(2,3) unfolding w[symmetric] by blast
qed

section \<open>Searching\<close>

text \<open>The caller of the operations: its local variables lie outside the regions and \<^verbatim>\<open>madvise\<close> succeeds.\<close>

definition env_ok :: "env \<Rightarrow> world \<Rightarrow> bool" where
  "env_ok env w \<longleftrightarrow> env_tmp env \<notin> w_area w \<and> env_target env \<notin> w_area w \<and> env_target env \<noteq> NULL \<and> (\<forall>a. env_madvise env a = Inr ())"

lemma target_loose:
  assumes "world_ok w T Q" "env_target env \<notin> w_area w" "e \<in> objs T"
  shows "e \<noteq> env_target env"
proof -
  obtain n where "(e, n) \<in> live w" "0 < n" using objs_live[OF assms(1,3)] by blast
  then have "e \<in> w_area w" using live_not_meta(2)[OF world_okD(1)[OF assms(1)], of e n e] by simp
  then show ?thesis using assms(2) by blast
qed

lemma table_search:
  assumes "world_ok w T Q" "T t = Some tr" "env_ok env w" "str_key (w_bytes w) key"
    "side \<in> {ST_SIDE_LEFT, ST_SIDE_EQ, ST_SIDE_RIGHT, ST_SIDE_LEFT_EQ, ST_SIDE_RIGHT_EQ}"
  defines "k \<equiv> str_view (w_bytes w) key"
    and "elems \<equiv> (w_elems w)(env_target env := (w_elems w (env_target env))\<lparr>te_key := key\<rparr>)"
  shows "\<exists>y. st_rbtree_search (st_table_cmp_element (w_bytes w) elems) (tb_elements (w_tables w t)) (w_rb w) (env_target env) side = Some y \<and>
    (if st_side_has_eq side \<and> k \<in> kview w ` set (inorder tr) then y \<in> set (inorder tr) \<and> kview w y = k
     else if st_side_strip_eq side = ST_SIDE_LEFT
     then y = (let zs = filter (\<lambda>z. kview w z < k) (inorder tr) in if zs = [] then NULL else last zs)
     else if st_side_strip_eq side = ST_SIDE_RIGHT
     then y = (let zs = filter (\<lambda>z. k < kview w z) (inorder tr) in if zs = [] then NULL else hd zs)
     else y = NULL)"
proof -
  let ?x = "env_target env" and ?cmp = "st_table_cmp_element (w_bytes w) elems" and ?io = "inorder tr"
  note tok = table_okD[OF assms(1,2)]
  have x: "?x \<notin> w_area w" "?x \<noteq> NULL" using assms(3) by (simp_all add: env_ok_def)
  have ne: "e \<noteq> ?x" if "e \<in> set ?io" for e using target_loose[OF assms(1) x(1)] tok(9) that by blast
  have el: "elems e = w_elems w e" if "e \<in> set ?io" for e using ne[OF that] by (simp add: elems_def)
  have v: "str_view (w_bytes w) (te_key (elems e)) = kview w e" if "e \<in> set ?io" for e using el[OF that] by (simp add: kview_def)
  have kx: "te_key (elems ?x) = key" by (simp add: elems_def)
  have keys: "insert ?x (set ?io) \<subseteq> {e. str_key (w_bytes w) (te_key (elems e))}" using assms(4) kx el elem_key tok(8) by auto
  have cx: "?cmp e ?x = st_cmp (kview w e) k" if "e \<in> set ?io" for e
    using cmp_element_view[of "w_bytes w" elems e ?x] keys that v[OF that] kx by (auto simp: k_def)
  have ce: "?cmp e e' = st_cmp (kview w e) (kview w e')" if "e \<in> set ?io" "e' \<in> set ?io" for e e'
    using cmp_element_view[of "w_bytes w" elems e e'] keys that v by auto
  have srt: "sorted_by ?cmp ys" if "set ys \<subseteq> set ?io" "sorted (map (kview w) ys)" for ys
    using that by (induction ys) (auto simp: ce subset_iff)
  have "sorted_by ?cmp ?io" by (rule srt) (use tok(5) in \<open>simp_all add: strict_sorted_iff\<close>)
  from rbtree_search_ok[OF elem_order.three_way_axioms tok(3) this keys x(2) assms(5)] obtain y where
    y: "st_rbtree_search ?cmp (tb_elements (w_tables w t)) (w_rb w) ?x side = Some y"
    "if st_side_has_eq side \<and> (\<exists>z \<in> set ?io. ?cmp z ?x = 0) then y \<in> set ?io \<and> ?cmp y ?x = 0
     else if st_side_strip_eq side = ST_SIDE_LEFT then y = (let zs = filter (\<lambda>z. ?cmp z ?x < 0) ?io in if zs = [] then NULL else last zs)
     else if st_side_strip_eq side = ST_SIDE_RIGHT then y = (let zs = filter (\<lambda>z. ?cmp z ?x > 0) ?io in if zs = [] then NULL else hd zs)
     else y = NULL" by blast
  have f: "filter (\<lambda>z. ?cmp z ?x < 0) ?io = filter (\<lambda>z. kview w z < k) ?io" "filter (\<lambda>z. ?cmp z ?x > 0) ?io = filter (\<lambda>z. k < kview w z) ?io"
    by (rule filter_cong[OF refl], simp add: cx)+
  have e: "(\<exists>z \<in> set ?io. ?cmp z ?x = 0) \<longleftrightarrow> k \<in> kview w ` set ?io" "y \<in> set ?io \<and> ?cmp y ?x = 0 \<longleftrightarrow> y \<in> set ?io \<and> kview w y = k"
    using cx by (auto simp: image_iff)
  show ?thesis using y(1) y(2)[unfolded f e] by blast
qed

lemma get_element_ok:
  assumes "world_ok w T Q" "T t = Some tr" "env_ok env w" "str_key (w_bytes w) key"
  shows "(\<exists>y \<in> set (inorder tr). kview w y = str_view (w_bytes w) key \<and> st_table_get_element env w t key = Some (ST_OK, y)) \<or>
    contents w T t (str_view (w_bytes w) key) = None \<and> st_table_get_element env w t key = Some (ST_NOT_FOUND, NULL)"
proof -
  let ?k = "str_view (w_bytes w) key"
  have side: "ST_SIDE_EQ \<in> {ST_SIDE_LEFT, ST_SIDE_EQ, ST_SIDE_RIGHT, ST_SIDE_LEFT_EQ, ST_SIDE_RIGHT_EQ}" "st_side_has_eq ST_SIDE_EQ"
    "st_side_strip_eq ST_SIDE_EQ \<noteq> ST_SIDE_LEFT" "st_side_strip_eq ST_SIDE_EQ \<noteq> ST_SIDE_RIGHT" by (simp_all add: st_side_has_eq_def st_side_strip_eq_def)
  obtain y where y: "st_rbtree_search (st_table_cmp_element (w_bytes w) ((w_elems w)(env_target env := (w_elems w (env_target env))\<lparr>te_key := key\<rparr>)))
      (tb_elements (w_tables w t)) (w_rb w) (env_target env) ST_SIDE_EQ = Some y"
    "if ?k \<in> kview w ` set (inorder tr) then y \<in> set (inorder tr) \<and> kview w y = ?k else y = NULL"
    using table_search[OF assms side(1)] side(2-4) by auto
  have nn: "y \<noteq> NULL" if "y \<in> set (inorder tr)"
  proof -
    obtain P where "tree_at (rt_sentinel (tb_elements (w_tables w t))) P (w_rb w) tr" using table_okD(3)[OF assms(1,2)] by (auto simp: rb_tree_def)
    then show ?thesis using tree_at_nonnull that by blast
  qed
  show ?thesis using y nn contents_dom[OF assms(1,2), of ?k] by (auto simp: st_table_get_element_def)
qed

section \<open>Removing an element\<close>

lemma sorted_wrt_remove1: "sorted_wrt P xs \<Longrightarrow> sorted_wrt P (remove1 x xs)"
  using set_remove1_subset by (induction xs) fastforce+

lemma remove_element_ok:
  assumes "world_ok w T Q" "T t = Some tr" "env_ok env w" "str_key (w_bytes w) key"
  defines "k \<equiv> str_view (w_bytes w) key"
  shows "if contents w T t k = None
    then st_table_remove_element env w t key = Some ((ST_NOT_FOUND, NULL), upd_table t (tb_lock_update (\<lambda>_. mutex_new)) w)
    else \<exists>f rb tr' y. st_table_remove_element env w t key = Some ((ST_OK, y), upd_table t f (set_rb rb w)) \<and>
      y \<in> set (inorder tr) \<and> kview w y = k \<and> set (inorder tr') = set (inorder tr) - {y} \<and>
      world_ok (upd_table t f (set_rb rb w)) (T(t \<mapsto> tr')) Q \<and>
      live (upd_table t f (set_rb rb w)) = live w \<and> entries (upd_table t f (set_rb rb w)) = entries w \<and>
      contents (upd_table t f (set_rb rb w)) (T(t \<mapsto> tr')) = (contents w T)(t := (contents w T t)(k := None)) \<and>
      bumps f"
proof -
  let ?tb = "w_tables w t"
  let ?w0 = "upd_table t (tb_lock_update (\<lambda>_. held env)) w"
  note tok = table_okD[OF assms(1,2)]
  have get: "st_table_get_element env ?w0 t key = st_table_get_element env w t key" by (simp add: st_table_get_element_def)
  note g = get_element_ok[OF assms(1-4), folded k_def]
  show ?thesis
  proof (cases "contents w T t k = None")
    case True
    then have "y \<notin> set (inorder tr)" if "kview w y = k" for y using contents_dom[OF assms(1,2), of k] that by auto
    then have "st_table_get_element env w t key = Some (ST_NOT_FOUND, NULL)" using g by blast
    then have "st_table_remove_element env w t key = Some ((ST_NOT_FOUND, NULL), upd_table t (tb_lock_update (\<lambda>_. mutex_new)) ?w0)"
      unfolding st_table_remove_element_def by (intro with_table_lock_eq[OF tok(1)]) (simp_all add: get)
    then show ?thesis using True by simp
  next
    case False
    then obtain y where y: "y \<in> set (inorder tr)" "kview w y = k" "st_table_get_element env w t key = Some (ST_OK, y)" using g by (elim disjE bexE conjE) auto
    from rbtree_delete_ok[OF tok(3) y(1)] tok(2) obtain tree' rb' tr' where
      r: "st_rbtree_delete (tb_elements ?tb) (w_rb w) y = Some (ST_OK, tree', rb')" "rt_sentinel tree' = table_sentinel t" "rb_tree tree' rb' tr'"
      "inorder tr' = remove1 y (inorder tr)" "\<forall>z. z \<notin> set (inorder tr) \<and> z \<noteq> table_sentinel t \<longrightarrow> rb' z = w_rb w z" by auto
    have d: "distinct (inorder tr)" using tok(3) by (auto simp: rb_tree_def tree_at_def)
    have st: "set (inorder tr') = set (inorder tr) - {y}" unfolding r(4) using d by simp
    have srt: "sorted_wrt (<) (map (kview w) (inorder tr'))"
      using tok(5) unfolding r(4) by (simp add: sorted_wrt_map sorted_wrt_remove1)
    define f where "f = (\<lambda>tb :: st_table. tb\<lparr>tb_elements := tree', tb_version := tb_version tb + 1, tb_element_cnt := tb_element_cnt tb - 1, tb_lock := mutex_new\<rparr>)"
    have "st_table_remove_element env w t key = Some ((ST_OK, y), upd_table t (tb_lock_update (\<lambda>_. mutex_new))
        (upd_table t (\<lambda>tb. tb\<lparr>tb_elements := tree', tb_version := tb_version tb + 1, tb_element_cnt := tb_element_cnt tb - 1\<rparr>) (set_rb rb' ?w0)))"
      unfolding st_table_remove_element_def by (intro with_table_lock_eq[OF tok(1)]) (use r(1) y(3) in \<open>simp_all add: get\<close>)
    then have eq: "st_table_remove_element env w t key = Some ((ST_OK, y), upd_table t f (set_rb rb' w))" by (simp add: f_def)
    let ?w = "upd_table t (\<lambda>_. f ?tb) (set_rb rb' w)"
    have w: "upd_table t f (set_rb rb' w) = ?w" by (simp add: upd_table_def)
    have "elem_ok w x" if "x \<in> set (inorder tr')" for x using tok(8) st that by auto
    moreover have "int (length (inorder tr')) = int (length (inorder tr)) - 1" 
      using y(1) length_pos_if_in_set[OF y(1)] unfolding r(4) by (simp only: length_remove1 if_True simp_thms)
    ultimately have u: "world_ok ?w (T(t \<mapsto> tr')) Q" "entries ?w = entries w" "live ?w = live w"
      "\<And>t'. t' \<noteq> t \<Longrightarrow> contents ?w (T(t \<mapsto> tr')) t' = contents w T t'"
      by (intro world_tree_update[OF assms(1,2) r(3,2)]; use r(5) st srt tok(4,6,7) in \<open>auto simp: f_def\<close>)+
    have "map_of (entries w tr') = (map_of (entries w tr))(k := None)" using entries_delete[OF tok(5) srt st y(1)] y(2) by simp
    then have "contents ?w (T(t \<mapsto> tr')) t = (contents w T t)(k := None)" unfolding contents_def u(2) using assms(2) by simp
    then have "contents ?w (T(t \<mapsto> tr')) = (contents w T)(t := (contents w T t)(k := None))" using u(4) by (auto simp: fun_eq_iff)
    moreover have "bumps f" by (simp add: bumps_def f_def)
    ultimately show ?thesis using False eq u(1-3) st y(1,2) unfolding w[symmetric] by auto
  qed
qed

section \<open>New elements\<close>

text \<open>A string of the caller: outside the regions or inside an object in use.\<close>

definition str_safe :: "world \<Rightarrow> st_str \<Rightarrow> bool" where
  "str_safe w s \<longleftrightarrow> str_bytes s \<noteq> NULL \<and> str_fits s \<and>
     (str_range s \<inter> w_area w = {} \<or> (\<exists>(a, n) \<in> live w. str_range s \<subseteq> {a ..< a + n}))"

definition elem_size :: "st_str \<Rightarrow> st_str \<Rightarrow> int" where
  "elem_size key value = int sizeof_element + st_align (str_capacity key) 8 + str_capacity value"

lemma fresh_obj:
  assumes "world_ok w T Q" "slab_inv sp mem" "slab_live sp mem = insert (a, n) (live w)" "(a, n) \<notin> live w" "0 < n"
  shows "a \<notin> objs T"
proof
  assume "a \<in> objs T"
  then obtain k where "(a, k) \<in> live w" "0 < k" using objs_live[OF assms(1)] by blast
  then show False using live_unique_size[OF assms(2), of a n k] assms(3-5) by auto
qed

lemma safe_apart:
  assumes "str_safe w s" "slab_inv sp mem" "slab_live sp mem = insert (a, n) (live w)" "(a, n) \<notin> live w"
    "region_area (pp_region_cb (sl_page_pool sp)) = w_area w"
  shows "str_range s \<inter> {a ..< a + n} = {}"
proof -
  have new: "(a, n) \<in> slab_live sp mem" using assms(3) by simp
  show ?thesis
  proof (cases "str_range s \<inter> w_area w = {}")
    case True
    then show ?thesis using live_not_meta(2)[OF assms(2) new] assms(5) by blast
  next
    case False
    then obtain b k where b: "(b, k) \<in> live w" "str_range s \<subseteq> {b ..< b + k}" using assms(1) by (auto simp: str_safe_def)
    then have "{a ..< a + n} \<inter> {b ..< b + k} = {}" using slab_live_apart[OF assms(2) new, of b k] assms(3,4) by auto
    then show ?thesis using b(2) by blast
  qed
qed

text \<open>The memory outside the regions keeps its bytes.\<close>

definition outside_same :: "world \<Rightarrow> world \<Rightarrow> bool" where
  "outside_same w w' \<longleftrightarrow> (\<forall>x. x \<notin> w_area w \<longrightarrow> w_bytes w' x = w_bytes w x)"

lemma outside_bytes [simp]: "w_bytes w' = w_bytes w \<Longrightarrow> outside_same w w'"
  by (simp add: outside_same_def)

text \<open>The fields of the world that belong neither to the allocators nor to the elements.\<close>

definition same_rest :: "world \<Rightarrow> world \<Rightarrow> bool" where
  "same_rest w w' \<longleftrightarrow> w_at w' = w_at w \<and> w_tables w' = w_tables w \<and> w_gc w' = w_gc w \<and>
     w_run_gc_periodical w' = w_run_gc_periodical w \<and> w_table_cnt w' = w_table_cnt w \<and> w_area w' = w_area w \<and> outside_same w w'"

text \<open>The two strings are copied into the object \<open>e\<close> of \<open>n\<close> bytes.\<close>

lemma fill_element:
  assumes "world_ok w T Q" "(e, n) \<in> live w" "e \<notin> objs T" "elem_size key value \<le> int n"
    "str_key (w_bytes w) key" "str_fits key" "str_fits value" "str_bytes key \<noteq> NULL" "str_bytes value \<noteq> NULL"
    "str_range value \<inter> {e ..< e + n} = {}"
  defines "vs \<equiv> kv_data e + nat (st_align (str_capacity key) 8)"
  defines "el \<equiv> \<lparr>te_key = st_str_wrap_common (kv_data e) (str_type key) (str_len key),
      te_value = st_str_wrap_common vs (str_type value) (str_len value)\<rparr>"
    and "bs \<equiv> copy_str (copy_str (w_bytes w) (kv_data e) key) vs value"
  defines "w' \<equiv> (set_rb ((w_rb w)(e := st_rbtree_node_empty)) w)\<lparr>w_bytes := bs, w_elems := (w_elems w)(e := el)\<rparr>"
  shows "world_ok w' T Q" "contents w' T = contents w T" "elem_ok w' e" "kview w' e = str_view (w_bytes w) key"
    "vview w' e = value_view (w_bytes w) value" "live w' = live w" "value_view bs value = value_view (w_bytes w) value"
    "x \<notin> {e ..< e + n} \<Longrightarrow> bs x = w_bytes w x"
proof -
  have cap: "str_len key \<le> str_capacity key" "0 < str_len key" "str_len value \<le> str_capacity value" "0 < str_len value"
    using assms(6,7) by (simp_all add: str_fits_def)
  have al: "str_capacity key \<le> st_align (str_capacity key) 8"
    using align_bounds(1)[of "str_capacity key" 3 "str_capacity key"] cap by simp
  have room: "kv_data e + nat (str_capacity key) \<le> vs" "vs + nat (str_capacity value) \<le> e + n" "e < kv_data e" "kv_data e \<le> vs"
    using assms(4) al cap by (simp_all add: elem_size_def vs_def kv_data_def sizeof_element_def)
  have n0: "0 < n" using room by simp
  have out: "bs x = w_bytes w x" if "x \<notin> {e ..< e + n}" for x
    unfolding bs_def using that room copy_str_other[OF assms(7), of x vs] copy_str_other[OF assms(6), of x "kv_data e" "w_bytes w"] by auto
  then show "x \<notin> {e ..< e + n} \<Longrightarrow> bs x = w_bytes w x" .
  have f: "world_same w w' T" "slab_inv (w_slab w') (w_mem w')" "live w' = live w"
    unfolding w'_def by (rule fresh_write_same[OF assms(1,2) n0 assms(3)]; use out n0 in auto)+
  show "world_ok w' T Q" "live w' = live w" "contents w' T = contents w T"
    using world_frame[OF assms(1) f(1,2)] f(3) by auto
  show "value_view bs value = value_view (w_bytes w) value"
    by (rule same_str_views(3)[OF same_str_bytes assms(7)]) (use out assms(10) in blast)
  have b: "w_bytes w' = bs" "w_elems w' e = el" by (simp_all add: w'_def)
  have "same_str (w_bytes w) key bs (te_key el)"
  proof -
    have "same_str (w_bytes w) key (copy_str (w_bytes w) (kv_data e) key) (te_key el)"
      by (rule copy_str_same) (use assms(8) room in \<open>simp_all add: el_def st_str_wrap_common_def kv_data_def sizeof_element_def\<close>)
    moreover have "same_str (copy_str (w_bytes w) (kv_data e) key) (te_key el) bs (te_key el)"
      unfolding bs_def by (rule same_str_bytes, rule copy_str_other[OF assms(7)])
        (use room cap in \<open>auto simp: el_def st_str_wrap_common_def str_range_def\<close>)
    ultimately show ?thesis by (simp add: same_str_def)
  qed
  note kv = same_str_views[OF this assms(6)]
  have "same_str (w_bytes w) value bs (te_value el)"
  proof -
    let ?m = "copy_str (w_bytes w) (kv_data e) key"
    have "same_str (w_bytes w) value ?m value"
      by (rule same_str_bytes, rule copy_str_other[OF assms(6)]) (use assms(10) room in auto)
    moreover have "same_str ?m value bs (te_value el)" unfolding bs_def
      by (rule copy_str_same) (use assms(9) room in \<open>simp_all add: el_def st_str_wrap_common_def\<close>)
    ultimately show ?thesis by (simp add: same_str_def)
  qed
  note vv = same_str_views[OF this assms(7)]
  show "kview w' e = str_view (w_bytes w) key" "vview w' e = value_view (w_bytes w) value"
    using kv(1) vv(3) by (simp_all add: kview_def vview_def b)
  have "str_fits (te_key el)" "str_fits (te_value el)"
    using assms(6,7) kv(4) vv(4) by (simp_all add: str_fits_def el_def st_str_wrap_common_def)
  moreover have "str_range (te_key el) \<subseteq> {e ..< e + n}" "str_range (te_value el) \<subseteq> {e ..< e + n}"
    using room cap by (auto simp: str_range_def el_def st_str_wrap_common_def)
  ultimately have "elem_at w' e n" using assms(2,5) f(3) kv(2) n0 by (simp add: elem_at_def b)
  then show "elem_ok w' e" by (auto simp: elem_ok_def)
qed

lemma obj_class_ge: "0 < sz \<Longrightarrow> sz < 2 ^ 31 \<Longrightarrow> sz \<le> obj_class sz"
  using size_class by blast

text \<open>The allocator has no room for an element: no slab of its group has a free object and the page pool refuses a new one.\<close>

definition no_room :: "env \<Rightarrow> world \<Rightarrow> int \<Rightarrow> st_error \<Rightarrow> bool" where
  "no_room env w sz ret \<longleftrightarrow> ret \<in> {ST_OUT_OF_MEMORY, ST_ARG_INVALID} \<and>
     slab_exhausted (env_madvise env NULL) (env_pid env) (env_tmp env) (w_slab w) (w_mem w) sz ret"

lemma new_element_ok:
  assumes "world_ok w T Q" "env_ok env w" "str_key (w_bytes w) key" "str_safe w key" "str_safe w value" "elem_size key value < 2 ^ 31"
  shows "\<exists>ret r w'. st_table_new_element env w key value = Some (ret, r, w') \<and> world_ok w' T Q \<and> contents w' T = contents w T \<and> same_rest w w' \<and>
    (if ret = ST_OK then \<exists>e. r = Some e \<and> e \<notin> objs T \<and> elem_ok w' e \<and> w_rb w' e = st_rbtree_node_empty \<and>
        kview w' e = str_view (w_bytes w) key \<and> vview w' e = value_view (w_bytes w) value \<and>
        value_view (w_bytes w') value = value_view (w_bytes w) value \<and> without e (live w') = live w
     else no_room env w (elem_size key value) ret \<and> r = None \<and> live w' = live w)"
proof -
  let ?sz = "elem_size key value"
  have fits: "str_fits key" "str_fits value" "str_bytes key \<noteq> NULL" "str_bytes value \<noteq> NULL" using assms(4,5) by (simp_all add: str_safe_def)
  have cap: "str_len key \<le> str_capacity key" "str_len value \<le> str_capacity value" "0 < str_len key" "0 < str_len value"
    using fits by (simp_all add: str_fits_def)
  have "0 \<le> st_align (str_capacity key) 8" using align_bounds(1)[of "str_capacity key" 3 "str_capacity key"] cap by simp
  then have sz: "0 < ?sz" using cap by (simp add: elem_size_def sizeof_element_def)
  have tmp: "env_tmp env \<notin> w_area w" using assms(2) by (simp add: env_ok_def)
  from slab_alloc_step[OF world_okD(1)[OF assms(1)] tmp sz assms(6), of "env_madvise env NULL" "env_pid env"] obtain ret r sp mem where
    a: "st_slab_obj_alloc (env_madvise env NULL) (env_pid env) (env_tmp env) (w_slab w) (w_mem w) ?sz = Some (ret, r, sp, mem)"
    "slab_step (w_slab w) (w_mem w) sp mem" "alloc_obj_post (obj_class ?sz) (live w) ret r (slab_live sp mem)" by blast
  have ex: "ret = ST_OK \<or> slab_exhausted (env_madvise env NULL) (env_pid env) (env_tmp env) (w_slab w) (w_mem w) ?sz ret"
    using slab_alloc_ok[OF world_okD(1)[OF assms(1)] tmp assms(6), of "env_madvise env NULL" "env_pid env"] a(1) sz by auto
  let ?w = "w\<lparr>w_slab := sp, w_mem := mem\<rparr>"
  have inv: "slab_inv sp mem" and area: "region_area (pp_region_cb (sl_page_pool sp)) = w_area w" using a(2) by (simp_all add: slab_step_def)
  have "live w \<subseteq> slab_live sp mem" using a(3) by (auto simp: alloc_obj_post_def split: if_splits)
  then have same: "world_same w ?w T" by (intro slab_step_same[OF assms(1) a(2)]) blast
  have ok1: "world_ok ?w T Q" "contents ?w T = contents w T" using world_frame[OF assms(1) same] inv by auto
  show ?thesis
  proof (cases "ret = ST_OK")
    case False
    then have "st_table_new_element env w key value = Some (ret, None, ?w)" using a(1) cap(1,2) by (simp add: st_table_new_element_def elem_size_def)
    moreover have "same_rest w ?w" using area by (simp add: same_rest_def)
    ultimately show ?thesis using False ok1 a(3) ex by (intro exI[of _ ret] exI[of _ None] exI[of _ ?w]) (simp add: alloc_obj_post_def no_room_def)
  next
    case True
    then obtain e where e: "r = Some e" "(e, nat (obj_class ?sz)) \<notin> live w" "slab_live sp mem = insert (e, nat (obj_class ?sz)) (live w)"
      using a(3) by (auto simp: alloc_obj_post_def)
    let ?n = "nat (obj_class ?sz)"
    have n: "?sz \<le> int ?n" "0 < ?n" using obj_class_ge[OF sz assms(6)] sz by simp_all
    have lo: "e \<notin> objs T" by (rule fresh_obj[OF assms(1) inv e(3,2) n(2)])
    have ap: "str_range value \<inter> {e ..< e + ?n} = {}" by (rule safe_apart[OF assms(5) inv e(3,2) area])
    have lv: "(e, ?n) \<in> live ?w" using e(3) by simp
    have e0: "e \<noteq> NULL" using live_nonnull[OF inv, of e ?n e] e(3) n(2) by simp
    let ?vs = "kv_data e + nat (st_align (str_capacity key) 8)"
    let ?w' = "(set_rb ((w_rb ?w)(e := st_rbtree_node_empty)) ?w)\<lparr>w_bytes := copy_str (copy_str (w_bytes ?w) (kv_data e) key) ?vs value,
      w_elems := (w_elems ?w)(e := \<lparr>te_key = st_str_wrap_common (kv_data e) (str_type key) (str_len key),
        te_value = st_str_wrap_common ?vs (str_type value) (str_len value)\<rparr>)\<rparr>"
    have f: "world_ok ?w' T Q" "contents ?w' T = contents ?w T" "elem_ok ?w' e" "kview ?w' e = str_view (w_bytes ?w) key"
      "vview ?w' e = value_view (w_bytes ?w) value" "live ?w' = live ?w"
      by (rule fill_element[OF ok1(1) lv lo n(1) _ fits ap]; use assms(3) in simp)+
    have v: "value_view (w_bytes ?w') value = value_view (w_bytes ?w) value"
      using fill_element(7)[OF ok1(1) lv lo n(1) _ fits ap] assms(3) by simp
    have "st_table_new_element env w key value = Some (ST_OK, Some e, ?w')"
      using a(1) cap(1,2) True e(1) e0 by (simp add: st_table_new_element_def elem_size_def upd_def Let_def)
    moreover have "outside_same w ?w'"
      using fill_element(8)[OF ok1(1) lv lo n(1) _ fits ap] assms(3) live_not_meta(2)[OF inv, of e ?n] e(3) area by (auto simp: outside_same_def)
    moreover from this have "same_rest w ?w'" "w_rb ?w' e = st_rbtree_node_empty" using area by (simp_all add: same_rest_def set_rb_def)
    moreover have "without e (live ?w') = live w" unfolding f(6) using without_new(1)[OF inv e(3,2)] by simp
    ultimately show ?thesis using f v ok1(2) lo by (intro exI[of _ ST_OK] exI[of _ "Some e"] exI[of _ ?w']) simp
  qed
qed

end
