(* ===== verification/Table_Queues.thy ===== *)
theory Table_Queues
  imports Table_Elems
begin

text \<open>
  The queues of the collector and the two operations by which tables enter them, and the release of
  an element that no table holds.
\<close>

section \<open>Nodes of the queues\<close>

definition nodes_ok :: "(nat \<Rightarrow> addr) \<Rightarrow> addr set \<Rightarrow> bool" where
  "nodes_ok h D \<longleftrightarrow> (\<forall>j < 5. h j \<noteq> NULL) \<and> inj_on h {..<5} \<and> (\<forall>t \<in> D. \<forall>k. qnode k t \<noteq> NULL \<and> (\<forall>j < 5. qnode k t \<noteq> h j)) \<and>
     (\<forall>t \<in> D. \<forall>t' \<in> D. \<forall>j k. qnode j t = qnode k t' \<longrightarrow> t = t')"

lemma qnode_same: "qnode j t = qnode k t \<longleftrightarrow> rivals j = rivals k"
  by (auto simp: qnode_def rivals_def mark_lnode_def sweep_lnode_def)

text \<open>The part of the invariant that speaks of the lists.\<close>

definition lists_hold :: "(nat \<Rightarrow> addr) \<Rightarrow> lmem \<Rightarrow> addr set \<Rightarrow> queues \<Rightarrow> bool" where
  "lists_hold h ln D Q \<longleftrightarrow> (\<forall>k < 5. clist ln (h k) (map (qnode k) (Q k)) \<and> set (Q k) \<subseteq> D) \<and>
     (\<forall>j \<in> {1, 2, 3, 4}. \<forall>k \<in> {1, 2, 3, 4}. j \<noteq> k \<longrightarrow> set (Q j) \<inter> set (Q k) = {}) \<and>
     (\<forall>t \<in> D. \<forall>k < 5. \<not> in_queue Q k t \<longrightarrow> ln (qnode k t) = null_node)"

lemma queues_lists: "queues_ok w D Q \<longleftrightarrow> gc_queues (w_gc w) \<noteq> NULL \<and>
    (\<forall>k < 5. qhead w k \<notin> w_area w \<union> slab_meta (w_slab w)) \<and> lists_hold (qhead w) (w_list w) D Q"
  by (simp add: queues_ok_def lists_hold_def)

lemma rivals_lt: "k < 5 \<Longrightarrow> j \<in> rivals k \<Longrightarrow> j < 5" "k < 5 \<Longrightarrow> k \<in> rivals k" "j \<in> rivals k \<Longrightarrow> k < 5 \<Longrightarrow> rivals j = rivals k"
  by (auto simp: rivals_def split: if_splits)

lemma lists_disjoint:
  assumes "lists_hold h ln D Q" "j < 5" "k < 5" "rivals j = rivals k" "j \<noteq> k"
  shows "set (Q j) \<inter> set (Q k) = {}"
proof -
  have "j \<noteq> 0" "k \<noteq> 0" using assms(4,5) by (auto simp: rivals_def split: if_splits)
  then have "j \<in> {1, 2, 3, 4}" "k \<in> {1, 2, 3, 4}" using assms(2,3) by auto
  then show ?thesis using assms(1,5) unfolding lists_hold_def by blast
qed

lemma node_apart:
  assumes "nodes_ok h D" "k < 5" "u \<in> D" "set Y \<subseteq> D" "rivals j = rivals k \<Longrightarrow> u \<notin> set Y"
  shows "qnode j u \<notin> set (h k # map (qnode k) Y)"
proof -
  have "qnode j u \<noteq> qnode k v" if v: "v \<in> set Y" for v
  proof
    assume eq: "qnode j u = qnode k v"
    then have "u = v" using assms(1,3,4) v unfolding nodes_ok_def by blast
    then show False using eq qnode_same[of j u k] assms(5) v by auto
  qed
  moreover have "qnode j u \<noteq> h k" using assms(1-3) by (simp add: nodes_ok_def)
  ultimately show ?thesis by auto
qed

lemma queue_apart:
  assumes "nodes_ok h D" "j < 5" "k < 5" "j \<noteq> k" "set X \<subseteq> D" "set Y \<subseteq> D" "rivals j = rivals k \<Longrightarrow> set X \<inter> set Y = {}"
  shows "set (h j # map (qnode j) X) \<inter> set (h k # map (qnode k) Y) = {}"
proof -
  have f1: "h j \<noteq> h k" using assms(1-4) by (auto simp: nodes_ok_def inj_on_def)
  have f2: "h j \<noteq> qnode k v" if "v \<in> set Y" for v using assms(1,2,6) that unfolding nodes_ok_def by (metis subsetD)
  have f3: "qnode j u \<notin> set (h k # map (qnode k) Y)" if "u \<in> set X" for u
    by (rule node_apart[OF assms(1,3) _ assms(6)]) (use that assms(5,7) in auto)
  have "a \<notin> set (h k # map (qnode k) Y)" if am: "a \<in> set (h j # map (qnode j) X)" for a
  proof (cases "a = h j")
    case True
    then show ?thesis using f1 f2 by auto
  next
    case False
    then obtain u where "u \<in> set X" "a = qnode j u" using am by auto
    then show ?thesis using f3 by simp
  qed
  then show ?thesis by blast
qed

text \<open>One queue changes; \<open>Y\<close> are the tables whose nodes are written.\<close>

lemma lists_change:
  assumes "nodes_ok h D" "lists_hold h ln D Q" "k < 5" "set (Q k) \<subseteq> set Y" "set Y \<subseteq> D"
    "\<And>j. j \<in> rivals k \<Longrightarrow> j \<noteq> k \<Longrightarrow> set (Q j) \<inter> set Y = {}"
    and ln: "\<And>a. a \<notin> set (h k # map (qnode k) Y) \<Longrightarrow> ln' a = ln a" "clist ln' (h k) (map (qnode k) zs)" "set zs \<subseteq> set Y"
      "\<And>u. u \<in> set Y \<Longrightarrow> u \<notin> set zs \<Longrightarrow> ln' (qnode k u) = null_node"
  shows "lists_hold h ln' D (Q(k := zs))" "a \<notin> h ` {..<5} \<union> {qnode j t |j t. t \<in> D} \<Longrightarrow> ln' a = ln a"
proof -
  let ?Q = "Q(k := zs)"
  have sub: "set (Q j) \<subseteq> D" "clist ln (h j) (map (qnode j) (Q j))" if "j < 5" for j using assms(2) that by (simp_all add: lists_hold_def)
  have other: "set (Q j) \<inter> set Y = {}" if "j < 5" "j \<noteq> k" "rivals j = rivals k" for j
    using assms(6)[of j] rivals_lt(2)[OF that(1)] that(2,3) by simp
  have c: "clist ln' (h j) (map (qnode j) (?Q j)) \<and> set (?Q j) \<subseteq> D" if j: "j < 5" for j
  proof (cases "j = k")
    case True
    then show ?thesis using ln(2,3) assms(5) by auto
  next
    case False
    have "ln' a = ln a" if "a \<in> set (h j # map (qnode j) (Q j))" for a
      using queue_apart[OF assms(1) j assms(3) False sub(1)[OF j] assms(5) other[OF j False]] that by (intro ln(1)) blast
    then show ?thesis using False clist_frame[OF sub(2)[OF j], of ln'] sub(1)[OF j] by simp
  qed
  have d: "set (?Q i) \<inter> set (?Q j) = {}" if ij: "i \<in> {1, 2, 3, 4}" "j \<in> {1, 2, 3, 4}" "i \<noteq> j" for i j
  proof -
    have "set (Q i) \<inter> set (Q j) = {}" using assms(2) ij unfolding lists_hold_def by blast
    moreover have "rivals i = rivals j" "i < 5" "j < 5" using ij by (auto simp: rivals_def)
    ultimately have "i = k \<Longrightarrow> set zs \<inter> set (Q j) = {}" "j = k \<Longrightarrow> set (Q i) \<inter> set zs = {}" "set (Q i) \<inter> set (Q j) = {}"
      using other[of i] other[of j] ij(3) ln(3) by blast+
    then show ?thesis using ij(3) by simp
  qed
  have n: "ln' (qnode j u) = null_node" if u: "u \<in> D" "j < 5" "\<not> in_queue ?Q j u" for u j
  proof (cases "rivals j = rivals k \<and> u \<in> set Y")
    case True
    then have "k \<in> rivals j" "qnode j u = qnode k u" using rivals_lt(2)[OF assms(3)] qnode_same by simp_all
    then show ?thesis using u(3) ln(4) True by (auto simp: in_queue_def)
  next
    case False
    have "\<not> in_queue Q j u"
    proof
      assume "in_queue Q j u"
      then obtain i where i: "i \<in> rivals j" "u \<in> set (Q i)" by (auto simp: in_queue_def)
      then have "i = k" using u(3) by (auto simp: in_queue_def split: if_splits)
      then show False using False i rivals_lt(3)[of i j] u(2) assms(4) by auto
    qed
    moreover have "qnode j u \<notin> set (h k # map (qnode k) Y)" by (rule node_apart[OF assms(1,3) u(1) assms(5)]) (use False in blast)
    ultimately show ?thesis using ln(1) assms(2) u(1,2) by (simp add: lists_hold_def)
  qed
  show "lists_hold h ln' D ?Q" unfolding lists_hold_def by (intro conjI allI ballI impI; rule c[THEN conjunct1] c[THEN conjunct2] d n; assumption)
  have "set (h k # map (qnode k) Y) \<subseteq> h ` {..<5} \<union> {qnode j t |j t. t \<in> D}" using assms(3,5) by auto
  then show "a \<notin> h ` {..<5} \<union> {qnode j t |j t. t \<in> D} \<Longrightarrow> ln' a = ln a" using ln(1) by blast
qed

abbreviation queue_nodes :: "(nat \<Rightarrow> addr) \<Rightarrow> addr set \<Rightarrow> addr set" where
  "queue_nodes h D \<equiv> h ` {..<5} \<union> {qnode j t |j t. t \<in> D}"

lemma lists_insert_last:
  assumes "nodes_ok h D" "lists_hold h ln D Q" "k < 5" "t \<in> D" "\<not> in_queue Q k t"
  shows "\<exists>ln'. st_list_insert_last ln (h k) (qnode k t) = Some ln' \<and> lists_hold h ln' D (Q(k := Q k @ [t])) \<and>
    (\<forall>a. a \<notin> queue_nodes h D \<longrightarrow> ln' a = ln a)"
proof -
  have tk: "t \<notin> set (Q j)" if "j \<in> rivals k" for j using assms(5) that by (auto simp: in_queue_def)
  have sub: "set (Q k) \<subseteq> D" "clist ln (h k) (map (qnode k) (Q k))" using assms(2,3) by (simp_all add: lists_hold_def)
  have nh: "qnode k t \<notin> set (h k # map (qnode k) (Q k))"
    by (rule node_apart[OF assms(1,3,4) sub(1)]) (use tk rivals_lt(2)[OF assms(3)] in blast)
  have "qnode k t \<noteq> NULL" using assms(1,4) by (simp add: nodes_ok_def)
  from list_insert_last_clist[OF sub(2) nh this] obtain ln' where
    l: "st_list_insert_last ln (h k) (qnode k t) = Some ln'" "clist ln' (h k) (map (qnode k) (Q k @ [t]))"
    "\<forall>a. a \<notin> set (h k # qnode k t # map (qnode k) (Q k)) \<longrightarrow> ln' a = ln a" by auto
  have d: "set (Q j) \<inter> set (Q k @ [t]) = {}" if "j \<in> rivals k" "j \<noteq> k" for j
    using lists_disjoint[OF assms(2) rivals_lt(1)[OF assms(3) that(1)] assms(3) rivals_lt(3)[OF that(1) assms(3)] that(2)] tk[OF that(1)] by auto
  have s: "set (Q k) \<subseteq> set (Q k @ [t])" "set (Q k @ [t]) \<subseteq> D" using sub(1) assms(4) by auto
  have "lists_hold h ln' D (Q(k := Q k @ [t]))" "\<And>a. a \<notin> queue_nodes h D \<Longrightarrow> ln' a = ln a"
    by (rule lists_change[OF assms(1-3) s, of ln' "Q k @ [t]"]; (rule d, assumption, assumption)?; use l in simp)+
  then show ?thesis using l(1) by blast
qed

lemma lists_take_out:
  assumes "nodes_ok h D" "lists_hold h ln D Q" "k < 5" "Q k = xs @ t # ys"
  shows "\<exists>ln'. st_list_remove ln (qnode k t) = Some ln' \<and> lists_hold h ln' D (Q(k := xs @ ys)) \<and> ln' (qnode k t) = null_node \<and>
    (\<forall>a. a \<notin> queue_nodes h D \<longrightarrow> ln' a = ln a)"
proof -
  have sub: "set (Q k) \<subseteq> D" "clist ln (h k) (map (qnode k) xs @ qnode k t # map (qnode k) ys)"
    using assms(2-4) by (auto simp: lists_hold_def dest!: spec[of _ k])
  from list_remove_clist[OF sub(2)] obtain ln' where
    l: "st_list_remove ln (qnode k t) = Some ln'" "clist ln' (h k) (map (qnode k) (xs @ ys))" "ln' (qnode k t) = null_node"
    "\<forall>a. a \<notin> set (h k # map (qnode k) (Q k)) \<longrightarrow> ln' a = ln a" unfolding assms(4) by (auto simp: null_node_def)
  have d: "set (Q j) \<inter> set (Q k) = {}" if "j \<in> rivals k" "j \<noteq> k" for j
    by (rule lists_disjoint[OF assms(2) rivals_lt(1)[OF assms(3) that(1)] assms(3) rivals_lt(3)[OF that(1) assms(3)] that(2)])
  have n: "ln' (qnode k u) = null_node" if "u \<in> set (Q k)" "u \<notin> set (xs @ ys)" for u using that l(3) unfolding assms(4) by auto
  have s: "set (xs @ ys) \<subseteq> set (Q k)" unfolding assms(4) by auto
  have "lists_hold h ln' D (Q(k := xs @ ys))" "\<And>a. a \<notin> queue_nodes h D \<Longrightarrow> ln' a = ln a"
    by (rule lists_change[OF assms(1-3) subset_refl sub(1), of ln' "xs @ ys"]; (rule d n, assumption, assumption)?; use l(2,4) s in simp)+
  then show ?thesis using l(1,3) by blast
qed

section \<open>Queues of the world\<close>

lemma world_nodes:
  assumes "world_ok w T Q"
  shows "nodes_ok (qhead w) (dom T)"
proof -
  note inv = world_okD(1)[OF assms] and q = world_okD(4)[OF assms]
  have "qhead w j \<noteq> NULL" for j using q by (simp add: queues_ok_def qhead_def)
  moreover have "inj_on (qhead w) {..<5}" by (auto simp: inj_on_def qhead_def)
  moreover have "qnode k t \<noteq> NULL" "j < 5 \<Longrightarrow> qnode k t \<noteq> qhead w j" if t: "t \<in> dom T" for t k j
  proof -
    note n = table_nodes(1)[OF assms t] table_nodes(3)[OF assms t, of k]
    show "qnode k t \<noteq> NULL" by (rule live_nonnull[OF inv n])
    assume "j < 5"
    then have "qhead w j \<notin> w_area w" using q by (simp add: queues_ok_def)
    then show "qnode k t \<noteq> qhead w j" using live_not_meta(2)[OF inv n] by metis
  qed
  moreover have "t = t'" if t: "t \<in> dom T" "t' \<in> dom T" and eq: "qnode j t = qnode k t'" for t t' j k
  proof (rule ccontr)
    assume "t \<noteq> t'"
    then have "{t ..< t + 256} \<inter> {t' ..< t' + 256} = {}"
      using slab_live_apart[OF inv table_nodes(1)[OF assms t(1)] table_nodes(1)[OF assms t(2)]] by auto
    then show False using table_nodes(3)[OF assms t(1), of j] table_nodes(3)[OF assms t(2), of k] eq by auto
  qed
  ultimately show ?thesis unfolding nodes_ok_def by blast
qed

lemma set_list_simps [simp]:
  "w_tables (set_list ln w) = w_tables w" "w_rb (set_list ln w) = w_rb w" "w_list (set_list ln w) = ln"
  "w_bytes (set_list ln w) = w_bytes w" "w_elems (set_list ln w) = w_elems w" "w_gc (set_list ln w) = w_gc w"
  "w_slab (set_list ln w) = w_slab w" "w_at (set_list ln w) = w_at w"
  "w_run_gc_periodical (set_list ln w) = w_run_gc_periodical w" "w_table_cnt (set_list ln w) = w_table_cnt w"
  "set_list (w_list w) w = w" "set_list ln' (set_list ln w) = set_list ln' w"
  by (simp_all add: set_list_def)

lemma world_list_update:
  assumes "world_ok w T Q" "lists_hold (qhead w) ln (dom T) Q'" "\<And>a. a \<notin> queue_nodes (qhead w) (dom T) \<Longrightarrow> ln a = w_list w a"
  shows "world_ok (set_list ln w) T Q'" "live (set_list ln w) = live w" "entries (set_list ln w) = entries w"
    "contents (set_list ln w) T = contents w T"
proof -
  note inv = world_okD(1)[OF assms(1)] and q = world_okD(4)[OF assms(1)]
  let ?w = "set_list ln w"
  have "x \<notin> queue_nodes (qhead w) (dom T)" if x: "x \<in> slab_meta (w_slab w)" for x
  proof -
    have "x \<noteq> qnode j t" if "t \<in> dom T" for j t using live_not_meta(1)[OF inv table_nodes(1,3)[OF assms(1) that]] x by blast
    moreover have "x \<notin> qhead w ` {..<5}" using q x unfolding queues_ok_def by blast
    ultimately show ?thesis by blast
  qed
  then have "same_meta (w_slab w) (w_mem w) (w_mem ?w)" using assms(3) by (simp add: same_meta_def set_list_def)
  then have inv': "slab_inv (w_slab w) (w_mem ?w)" and lv: "slab_live (w_slab w) (w_mem ?w) = live w" by (rule slab_inv_frame[OF inv])+
  show "live ?w = live w" using lv by simp
  have es: "elem_same w ?w e" for e using lv by (simp add: elem_same_def)
  show ent: "entries ?w = entries w" by (simp add: entries_def kview_def vview_def fun_eq_iff)
  show "contents ?w T = contents w T" unfolding contents_def ent ..
  have "table_ok ?w t tr" if t: "T t = Some tr" for t tr
    by (rule table_frame(1)[OF world_okD(2)[OF assms(1) t]]) (use es lv table_nodes(1)[OF assms(1), of t] t in auto)
  moreover have "qhead ?w = qhead w" by (simp add: qhead_def fun_eq_iff)
  then have "queues_ok ?w (dom T) Q'" using q assms(2) unfolding queues_lists by simp
  ultimately show "world_ok ?w T Q'" using inv' world_okD(3)[OF assms(1)] by (simp add: world_ok_def)
qed

lemma queue_inited:
  assumes "world_ok w T Q" "t \<in> dom T" "k < 5"
  shows "st_list_is_inited (w_list w) (qnode k t) \<longleftrightarrow> in_queue Q k t"
proof
  note l = world_okD(4)[OF assms(1)]
  assume i: "st_list_is_inited (w_list w) (qnode k t)"
  show "in_queue Q k t"
  proof (rule ccontr)
    assume "\<not> in_queue Q k t"
    then have "w_list w (qnode k t) = null_node" using l assms(2,3) by (simp add: queues_ok_def)
    then show False using i by (simp add: st_list_is_inited_def null_node_def)
  qed
next
  note l = world_okD(4)[OF assms(1)]
  assume "in_queue Q k t"
  then obtain j where j: "j \<in> rivals k" "t \<in> set (Q j)" by (auto simp: in_queue_def)
  then have "clist (w_list w) (qhead w j) (map (qnode j) (Q j))" using l rivals_lt(1)[OF assms(3)] by (simp add: queues_ok_def)
  from clist_is_inited[OF this, of "qnode j t"] j(2) have "st_list_is_inited (w_list w) (qnode j t)" by auto
  then show "st_list_is_inited (w_list w) (qnode k t)" using qnode_same[of j t k] rivals_lt(3)[OF j(1) assms(3)] by simp
qed

section \<open>Entering the queues\<close>

definition marked :: "world \<Rightarrow> queues \<Rightarrow> addr \<Rightarrow> queues" where
  "marked w Q t = (if tb_mark (w_tables w t) = st_gc_status_reachable (w_gc w) \<or> t \<in> set (Q 0) then Q else Q(0 := Q 0 @ [t]))"

text \<open>The table leaves whatever queue it is in and becomes the last of the sweep queue.\<close>

definition swept :: "queues \<Rightarrow> addr \<Rightarrow> queues" where
  "swept Q t = (\<lambda>k. if k = 0 then Q 0 else if k = 2 then remove1 t (Q 2) @ [t] else if k \<in> {1, 3, 4} then remove1 t (Q k) else Q k)"

lemma push_to_mark_ok:
  assumes "world_ok w T Q" "t \<in> dom T"
  shows "\<exists>ln. st_gc_push_to_mark w t = Some (ST_OK, set_list ln w) \<and> world_ok (set_list ln w) T (marked w Q t) \<and>
    live (set_list ln w) = live w \<and> entries (set_list ln w) = entries w"
proof -
  have t0: "t \<noteq> NULL" using live_nonnull[OF world_okD(1)[OF assms(1)] table_nodes(1)[OF assms], of t] by simp
  note i = queue_inited[OF assms, of 0]
  have iq: "in_queue Q 0 t \<longleftrightarrow> t \<in> set (Q 0)" by (simp add: in_queue_def rivals_def)
  show ?thesis
  proof (cases "tb_mark (w_tables w t) = st_gc_status_reachable (w_gc w) \<or> t \<in> set (Q 0)")
    case True
    then have "st_gc_push_to_mark w t = Some (ST_OK, set_list (w_list w) w)" using t0 i iq by (auto simp: st_gc_push_to_mark_def qnode_def)
    then show ?thesis using assms(1) True by (intro exI[of _ "w_list w"]) (simp add: marked_def)
  next
    case False
    have l: "lists_hold (qhead w) (w_list w) (dom T) Q" using world_okD(4)[OF assms(1)] unfolding queues_lists by blast
    obtain ln where ln: "st_list_insert_last (w_list w) (qhead w 0) (qnode 0 t) = Some ln" "lists_hold (qhead w) ln (dom T) (Q(0 := Q 0 @ [t]))"
      "\<forall>a. a \<notin> queue_nodes (qhead w) (dom T) \<longrightarrow> ln a = w_list w a"
      using lists_insert_last[OF world_nodes[OF assms(1)] l _ assms(2), of 0] False iq by auto
    have "st_gc_push_to_mark w t = Some (ST_OK, set_list ln w)"
      using t0 i iq False ln(1) by (simp add: st_gc_push_to_mark_def qnode_def queue_heads)
    moreover note world_list_update[OF assms(1) ln(2)] ln(3)
    ultimately show ?thesis using False unfolding marked_def by (intro exI[of _ ln]) simp
  qed
qed

lemma push_to_sweep_ok:
  assumes "world_ok w T Q" "t \<in> dom T"
  shows "\<exists>ln. st_gc_push_to_sweep w t = Some (ST_OK, set_list ln w) \<and> world_ok (set_list ln w) T (swept Q t) \<and>
    live (set_list ln w) = live w \<and> entries (set_list ln w) = entries w"
proof -
  have t0: "t \<noteq> NULL" using live_nonnull[OF world_okD(1)[OF assms(1)] table_nodes(1)[OF assms], of t] by simp
  note n = world_nodes[OF assms(1)] and i = queue_inited[OF assms, of 2]
  have l: "lists_hold (qhead w) (w_list w) (dom T) Q" using world_okD(4)[OF assms(1)] unfolding queues_lists by blast
  have "\<exists>ln1 Q1. (if st_list_is_inited (w_list w) (qnode 2 t) then st_list_remove (w_list w) (qnode 2 t) else Some (w_list w)) = Some ln1 \<and>
      lists_hold (qhead w) ln1 (dom T) Q1 \<and> (\<forall>a. a \<notin> queue_nodes (qhead w) (dom T) \<longrightarrow> ln1 a = w_list w a) \<and>
      Q1(2 := Q1 2 @ [t]) = swept Q t \<and> \<not> in_queue Q1 2 t"
  proof (cases "in_queue Q 2 t")
    case False
    then have "Q(2 := Q 2 @ [t]) = swept Q t"
      by (auto simp: swept_def in_queue_def rivals_def fun_eq_iff remove1_idem)
    then show ?thesis using False i l by (intro exI[of _ "w_list w"] exI[of _ Q]) simp
  next
    case True
    then obtain j where j: "j \<in> {1, 2, 3, 4}" "t \<in> set (Q j)" by (auto simp: in_queue_def rivals_def)
    obtain xs ys where xy: "Q j = xs @ t # ys" "t \<notin> set xs" using split_list_first[OF j(2)] by blast
    have j5: "j < 5" "qnode j t = qnode 2 t" using j(1) by (auto simp: qnode_def)
    obtain ln1 where ln1: "st_list_remove (w_list w) (qnode 2 t) = Some ln1" "lists_hold (qhead w) ln1 (dom T) (Q(j := xs @ ys))"
      "\<forall>a. a \<notin> queue_nodes (qhead w) (dom T) \<longrightarrow> ln1 a = w_list w a"
      using lists_take_out[OF n l j5(1) xy(1)] unfolding j5(2) by blast
    have "clist (w_list w) (qhead w j) (map (qnode j) (Q j))" using l j5(1) by (simp add: lists_hold_def)
    then have ny: "t \<notin> set ys" unfolding xy(1) by (auto simp: clist_def)
    have other: "t \<notin> set (Q k)" if "k \<in> {1, 2, 3, 4}" "k \<noteq> j" for k
      using l j that unfolding lists_hold_def by blast
    have "(Q(j := xs @ ys))(2 := (Q(j := xs @ ys)) 2 @ [t]) = swept Q t"
    proof
      fix k
      have r1: "remove1 t (Q j) = xs @ ys" using xy by (simp add: remove1_append)
      have r2: "remove1 t (Q i) = Q i" if "i \<in> {1, 2, 3, 4}" "i \<noteq> j" for i using other[OF that] by (simp add: remove1_idem)
      show "((Q(j := xs @ ys))(2 := (Q(j := xs @ ys)) 2 @ [t])) k = swept Q t k"
      proof (cases "k \<in> {1, 2, 3, 4}")
        case False
        then have "k \<noteq> j" "k \<noteq> 2" using j(1) by auto
        then show ?thesis using False by (simp add: swept_def)
      next
        case True
        then have "k \<noteq> 0" by auto
        then show ?thesis using True r1 r2[of k] by (cases "k = j"; cases "k = 2") (simp_all add: swept_def)
      qed
    qed
    moreover have "\<not> in_queue (Q(j := xs @ ys)) 2 t" using other xy(2) ny by (auto simp: in_queue_def rivals_def split: if_splits)
    ultimately show ?thesis using True i ln1 by (intro exI[of _ ln1] exI[of _ "Q(j := xs @ ys)"]) simp
  qed
  then obtain ln1 Q1 where q: "(if st_list_is_inited (w_list w) (qnode 2 t) then st_list_remove (w_list w) (qnode 2 t) else Some (w_list w)) = Some ln1"
    "lists_hold (qhead w) ln1 (dom T) Q1" "\<forall>a. a \<notin> queue_nodes (qhead w) (dom T) \<longrightarrow> ln1 a = w_list w a"
    "Q1(2 := Q1 2 @ [t]) = swept Q t" "\<not> in_queue Q1 2 t" by blast
  obtain ln where ln: "st_list_insert_last ln1 (qhead w 2) (qnode 2 t) = Some ln" "lists_hold (qhead w) ln (dom T) (swept Q t)"
    "\<forall>a. a \<notin> queue_nodes (qhead w) (dom T) \<longrightarrow> ln a = ln1 a"
    using lists_insert_last[OF n q(2) _ assms(2) q(5)] q(4) by auto
  have qn: "qnode 2 t = sweep_lnode t" by (simp add: qnode_def)
  have "st_gc_push_to_sweep w t = Some (ST_OK, set_list ln w)"
    unfolding st_gc_push_to_sweep_def queue_heads q(1)[unfolded qn] using ln(1)[unfolded qn] t0 by simp
  moreover note world_list_update[OF assms(1) ln(2)] ln(3) q(3)
  ultimately show ?thesis by (intro exI[of _ ln]) simp
qed

section \<open>Releasing an element\<close>

lemma free_element_ok:
  assumes "world_ok w T Q" "env_ok env w" "elem_ok w e" "e \<notin> objs T"
  shows "\<exists>w'. st_table_free_element env w e = Some (ST_OK, w') \<and> world_ok w' T Q \<and> contents w' T = contents w T \<and> same_rest w w' \<and>
    live w' = without e (live w) \<and> w_elems w' = w_elems w \<and> w_bytes w' = w_bytes w \<and>
    (\<forall>a n. \<forall>x \<in> {a ..< a + n}. (a, n) \<in> live w \<longrightarrow> w_rb w' x = w_rb w x)"
proof -
  obtain n where n: "(e, n) \<in> live w" using elem_live[OF assms(3)] by blast
  have "env_madvise env e = Inr ()" using assms(2) by (simp add: env_ok_def)
  with slab_free_step[OF world_okD(1)[OF assms(1)] n, of "env_pid env"] obtain sp mem where
    f: "st_slab_obj_free (env_madvise env e) (env_pid env) (w_slab w) (w_mem w) e = Some (ST_OK, sp, mem)"
    "slab_step (w_slab w) (w_mem w) sp mem" "slab_live sp mem = live w - {(e, n)}" by auto
  let ?w = "w\<lparr>w_slab := sp, w_mem := mem\<rparr>"
  have inv: "slab_inv sp mem" and area: "region_area (pp_region_cb (sl_page_pool sp)) = w_area w" using f(2) by (simp_all add: slab_step_def)
  have "world_same w ?w T" by (rule slab_step_same[OF assms(1) f(2)]) (use assms(4) f(3) in auto)
  then have "world_ok ?w T Q" "contents ?w T = contents w T" using world_frame[OF assms(1), of ?w] inv by auto
  moreover have "same_rest w ?w" using area by (simp add: same_rest_def)
  moreover have "st_table_free_element env w e = Some (ST_OK, ?w)" using f(1) by (simp add: st_table_free_element_def)
  moreover have "\<forall>a k. \<forall>x \<in> {a ..< a + k}. (a, k) \<in> live w \<longrightarrow> w_rb ?w x = w_rb w x"
    using slab_step_live(1)[OF world_okD(1)[OF assms(1)] f(2)] by simp
  moreover have "live ?w = without e (live w)" using f(3) live_without[OF world_okD(1)[OF assms(1)] n] by simp
  ultimately show ?thesis by (intro exI[of _ ?w]) simp
qed

end
