(* ===== verification/Gc.thy ===== *)
theory Gc
  imports Table
begin

text \<open>
  \<^verbatim>\<open>src/gc/gc.c\<close>: the incremental collector of tables.  A round marks what is reachable from the roots,
  then marks as garbage what is only reachable from the queues of candidates, then frees the garbage;
  each step of a round stops after a bounded number of visits.
\<close>

section \<open>Parameters\<close>

text \<open>
  \<open>gp_visit_rate\<close> and \<open>gp_free_rate\<close> are the quotients of the allowed time and the time per item, which the
  code computes in \<^verbatim>\<open>float\<close>, from the elapsed time and the number of items; \<open>env_time\<close> gives the result of
  each call of \<^verbatim>\<open>gettimeofday\<close> in one run.
\<close>

record gc_params =
  gp_visit_rate :: "int \<Rightarrow> int \<Rightarrow> int"
  gp_free_rate :: "int \<Rightarrow> int \<Rightarrow> int"

definition ST_GC_MAX_ROOTS :: int where "ST_GC_MAX_ROOTS = 1024"

definition st_gc_cmp_gc_head :: "addr \<Rightarrow> addr \<Rightarrow> int" where
  "st_gc_cmp_gc_head a b = st_cmp a b"

definition set_gc :: "(st_gc \<Rightarrow> st_gc) \<Rightarrow> world \<Rightarrow> world" where
  "set_gc f w = w\<lparr>w_gc := f (w_gc w)\<rparr>"

definition visited :: "world \<Rightarrow> world" where
  "visited = set_gc (\<lambda>gc. gc\<lparr>gc_curr_visit_cnt := gc_curr_visit_cnt gc + 1\<rparr>)"

section \<open>Marking\<close>

text \<open>The loop over the roots, from index \<open>i\<close> on.\<close>

function roots_loop :: "int \<Rightarrow> world \<Rightarrow> world option" where
  "roots_loop i w =
    (if i < st_array_current_cnt (gc_roots (w_gc w)) then
       (case cell_at (gc_roots (w_gc w)) i of
          None \<Rightarrow> None
        | Some h \<Rightarrow>
            if st_list_is_inited (w_list w) (mark_lnode h) then roots_loop (i + 1) w
            else
              (case st_list_insert_last (w_list w) (mark_queue (w_gc w)) (mark_lnode h) of
                 None \<Rightarrow> None
               | Some ln \<Rightarrow> roots_loop (i + 1) (set_list ln w)))
     else Some w)"
  by pat_completeness auto
termination
  by (relation "measure (\<lambda>(i, w). nat (st_array_current_cnt (gc_roots (w_gc w)) - i))")
    (auto simp: set_list_def)

definition st_gc_roots_to_mark_queue :: "world \<Rightarrow> world option" where
  "st_gc_roots_to_mark_queue w = roots_loop 0 w"

text \<open>One value of a table: a table whose mark is unknown joins the queue unless it is in one.\<close>

definition visit_child :: "addr \<Rightarrow> st_str \<Rightarrow> world \<Rightarrow> world option" where
  "visit_child queue value w =
    (if \<not> st_types_is_table (str_type value) then Some w
     else do {
       let t = st_table_get_table_addr_from_value (w_bytes w) value;
       tb \<leftarrow> deref (w_tables w) t;
       if \<not> st_gc_is_status_unknown (w_gc w) (tb_mark tb) then Some w
       else do {
         let lnode = (if queue = mark_queue (w_gc w) then mark_lnode t else sweep_lnode t);
         if st_list_is_inited (w_list w) lnode then Some w
         else do {
           let w = visited w;
           ln \<leftarrow> st_list_insert_last (w_list w) queue lnode;
           Some (set_list ln w)
         }
       }
     })"

partial_function (option) children_loop :: "addr \<Rightarrow> addr \<Rightarrow> st_table_iter \<Rightarrow> world \<Rightarrow> (st_error \<times> world) option" where
  "children_loop table queue iter w =
    Option.bind (st_table_iter_next w table iter) (\<lambda>(ret, kv, iter).
      if ret = ST_ITER_FINISH then Some (ST_OK, w)
      else if ret \<noteq> ST_OK then Some (ret, w)
      else Option.bind kv (\<lambda>(key, value).
        Option.bind (visit_child queue value w) (\<lambda>w. children_loop table queue iter w)))"

definition st_gc_table_unknown_children_to_queue :: "env \<Rightarrow> world \<Rightarrow> addr \<Rightarrow> addr \<Rightarrow> (st_error \<times> world) option" where
  "st_gc_table_unknown_children_to_queue env w table queue =
    with_table_lock env table w (\<lambda>w. do {
      (ret, iter) \<leftarrow> st_table_iter_init env w table \<lparr>it_element = NULL, it_table_version = 0\<rparr> None 0;
      if ret \<noteq> ST_OK then Some (ret, w) else children_loop table queue iter w
    })"

partial_function (option) st_gc_mark_reachable_tables :: "env \<Rightarrow> world \<Rightarrow> (st_error \<times> world) option" where
  "st_gc_mark_reachable_tables env w =
    (if gc_curr_visit_cnt (w_gc w) < gc_max_visit_cnt (w_gc w) then
       Option.bind (st_list_pop_first (w_list w) (mark_queue (w_gc w))) (\<lambda>(node, ln).
         if node = NULL then Some (ST_EMPTY, w)
         else
           let t = owner_mark node;
               w = upd_table t (tb_mark_update (\<lambda>_. st_gc_status_reachable (w_gc w))) (set_list ln w)
           in Option.bind (st_gc_table_unknown_children_to_queue env w t (mark_queue (w_gc w))) (\<lambda>(ret, w).
             Option.bind (st_assert (ret = ST_OK)) (\<lambda>_. st_gc_mark_reachable_tables env (visited w))))
     else Some (ST_OK, w))"

text \<open>What happens to a candidate: \<open>Inl\<close> stops the loop.\<close>

definition judge_candidate :: "env \<Rightarrow> addr \<Rightarrow> addr \<Rightarrow> world \<Rightarrow> ((st_error, unit) sum \<times> world) option" where
  "judge_candidate env queue node w = do {
     let t = owner_sweep node;
     let gc = w_gc w;
     if tb_mark (w_tables w t) = st_gc_status_garbage gc then Some (Inl ST_STATE_INVALID, w)
     else if tb_mark (w_tables w t) = st_gc_status_reachable gc then
       (if queue = sweep_queue gc then do {
          ln \<leftarrow> st_list_insert_last (w_list w) (remained_queue gc) node;
          Some (Inr (), set_list ln w)
        }
        else Some (Inr (), w))
     else do {
       let w = upd_table t (tb_mark_update (\<lambda>_. st_gc_status_garbage gc)) w;
       ln \<leftarrow> st_list_insert_last (w_list w) (garbage_queue gc) node;
       (ret, w) \<leftarrow> st_gc_table_unknown_children_to_queue env (set_list ln w) t queue;
       st_assert (ret = ST_OK);
       Some (Inr (), w)
     }
   }"

partial_function (option) st_gc_mark_garbage_tables :: "env \<Rightarrow> addr \<Rightarrow> world \<Rightarrow> (st_error \<times> world) option" where
  "st_gc_mark_garbage_tables env queue w =
    (if gc_curr_visit_cnt (w_gc w) < gc_max_visit_cnt (w_gc w) then
       Option.bind (st_list_pop_first (w_list w) queue) (\<lambda>(node, ln).
         if node = NULL then Some (ST_EMPTY, w)
         else Option.bind (judge_candidate env queue node (set_list ln w)) (\<lambda>(r, w).
           case r of
             Inl e \<Rightarrow> Some (e, w)
           | Inr _ \<Rightarrow> st_gc_mark_garbage_tables env queue (visited w)))
     else Some (ST_OK, w))"

text \<open>The end of \<^verbatim>\<open>st_gc_mark_tables\<close>: the number of visits for the next step.\<close>

definition mark_quit :: "gc_params \<Rightarrow> env \<Rightarrow> int \<Rightarrow> st_error \<Rightarrow> world \<Rightarrow> st_error \<times> world" where
  "mark_quit gp env start_usec ret w =
    (case env_time env 2 of
       Inl e \<Rightarrow> (Errno e, w)
     | Inr end_usec \<Rightarrow>
         (ret, if gc_curr_visit_cnt (w_gc w) > 0
               then set_gc (\<lambda>gc. gc\<lparr>gc_max_visit_cnt := max 1 (gp_visit_rate gp (end_usec - start_usec) (gc_curr_visit_cnt gc))\<rparr>) w
               else w))"

definition st_gc_mark_tables :: "gc_params \<Rightarrow> env \<Rightarrow> world \<Rightarrow> (st_error \<times> world) option" where
  "st_gc_mark_tables gp env w =
    (case env_time env 1 of
       Inl e \<Rightarrow> Some (Errno e, w)
     | Inr start_usec \<Rightarrow> do {
         (ret, w) \<leftarrow> st_gc_mark_reachable_tables env w;
         if ret = ST_OK then Some (mark_quit gp env start_usec ret w)
         else if ret \<noteq> ST_EMPTY then Some (ret, w)
         else do {
           (ret, w) \<leftarrow> st_gc_mark_garbage_tables env (prev_sweep_queue (w_gc w)) w;
           if ret = ST_OK then Some (mark_quit gp env start_usec ret w)
           else if ret \<noteq> ST_EMPTY then Some (ret, w)
           else do {
             (ret, w) \<leftarrow> st_gc_mark_garbage_tables env (sweep_queue (w_gc w)) w;
             if ret = ST_OK then Some (mark_quit gp env start_usec ret w)
             else if ret \<noteq> ST_EMPTY then Some (ret, w)
             else Some (mark_quit gp env start_usec ret w)
           }
         }
       })"

section \<open>Freeing\<close>

partial_function (option) free_loop :: "env \<Rightarrow> world \<Rightarrow> (st_error option \<times> world) option" where
  "free_loop env w =
    (if gc_curr_free_cnt (w_gc w) < gc_max_free_cnt (w_gc w) then
       Option.bind (st_list_pop_first (w_list w) (garbage_queue (w_gc w))) (\<lambda>(node, ln).
         if node = NULL then Some (Some ST_EMPTY, w)
         else
           let t = owner_sweep node; w = set_list ln w
           in Option.bind (st_table_remove_all_for_gc env w t) (\<lambda>(ret, w).
             if ret \<noteq> ST_OK then Some (Some ret, w)
             else Option.bind (st_table_free env w t) (\<lambda>(ret, w).
               if ret \<noteq> ST_OK then Some (Some ret, w)
               else free_loop env (set_gc (\<lambda>gc. gc\<lparr>gc_curr_free_cnt :=
                 gc_curr_free_cnt gc + 1 + tb_element_cnt (w_tables w t)\<rparr>) w))))
     else Some (None, w))"

definition st_gc_free_tables :: "gc_params \<Rightarrow> env \<Rightarrow> world \<Rightarrow> (st_error \<times> world) option" where
  "st_gc_free_tables gp env w =
    (case env_time env 3 of
       Inl e \<Rightarrow> Some (Errno e, w)
     | Inr start_usec \<Rightarrow> do {
         (r, w) \<leftarrow> free_loop env w;
         case r of
           Some ret \<Rightarrow> Some (ret, w)
         | None \<Rightarrow>
             (case env_time env 4 of
                Inl e \<Rightarrow> Some (Errno e, w)
              | Inr end_usec \<Rightarrow>
                  Some (ST_OK, if gc_curr_free_cnt (w_gc w) > 0
                    then set_gc (\<lambda>gc. gc\<lparr>gc_max_free_cnt := max 1 (gp_free_rate gp (end_usec - start_usec) (gc_curr_free_cnt gc))\<rparr>) w
                    else w))
       })"

section \<open>Rounds\<close>

text \<open>The steps of a run after the start of a round.\<close>

definition run_rest :: "gc_params \<Rightarrow> env \<Rightarrow> world \<Rightarrow> (st_error \<times> world) option" where
  "run_rest gp env w = do {
     (ret, w) \<leftarrow> st_gc_mark_tables gp env w;
     if ret \<noteq> ST_EMPTY then Some (ret, w)
     else do {
       (ret, w) \<leftarrow> st_gc_free_tables gp env w;
       if ret \<noteq> ST_EMPTY then Some (ret, w)
       else do {
         ln \<leftarrow> st_list_join (w_list w) (prev_sweep_queue (w_gc w)) (remained_queue (w_gc w));
         let w = set_gc (\<lambda>gc. gc\<lparr>gc_round := gc_round gc + 4, gc_begin := False\<rparr>) (set_list ln w);
         case env_time env 5 of
           Inl e \<Rightarrow> Some (Errno e, w)
         | Inr usec \<Rightarrow> Some (ST_OK, set_gc (\<lambda>gc. gc\<lparr>gc_end_usec := usec\<rparr>) w)
       }
     }
   }"

definition run_body :: "gc_params \<Rightarrow> env \<Rightarrow> world \<Rightarrow> (st_error \<times> world) option" where
  "run_body gp env w =
    (if gc_begin (w_gc w) then run_rest gp env w
     else do {
       e1 \<leftarrow> st_list_empty (w_list w) (sweep_queue (w_gc w));
       e2 \<leftarrow> st_list_empty (w_list w) (prev_sweep_queue (w_gc w));
       if e1 \<and> e2 then Some (ST_NO_GC_DATA, w)
       else case env_time env 0 of
         Inl e \<Rightarrow> Some (Errno e, w)
       | Inr usec \<Rightarrow> do {
           w \<leftarrow> st_gc_roots_to_mark_queue (set_gc (\<lambda>gc. gc\<lparr>gc_start_usec := usec\<rparr>) w);
           run_rest gp env (set_gc (\<lambda>gc. gc\<lparr>gc_begin := True\<rparr>) w)
         }
     })"

definition st_gc_run :: "gc_params \<Rightarrow> env \<Rightarrow> world \<Rightarrow> (st_error \<times> world) option" where
  "st_gc_run gp env w =
    with_gc_lock env (set_gc (\<lambda>gc. gc\<lparr>gc_curr_visit_cnt := 0, gc_curr_free_cnt := 0\<rparr>) w) (run_body gp env)"

section \<open>Roots\<close>

definition set_roots :: "addr st_array \<Rightarrow> world \<Rightarrow> world" where
  "set_roots roots = set_gc (\<lambda>gc. gc\<lparr>gc_roots := roots\<rparr>)"

definition add_root_body :: "addr \<Rightarrow> world \<Rightarrow> (st_error \<times> world) option" where
  "add_root_body h w = do {
     (ret, idx) \<leftarrow> st_array_bsearch_right (gc_roots (w_gc w)) (Some h) None;
     if ret = ST_OK then Some (ST_EXISTED, w)
     else if ret \<noteq> ST_NOT_FOUND then Some (ret, w)
     else do {
       (ret, roots) \<leftarrow> st_array_insert_many (\<lambda>_ _ _ _. None) (gc_roots (w_gc w)) idx (Some [h]) 1;
       Some (ret, set_roots roots w)
     }
   }"

definition st_gc_add_root :: "env \<Rightarrow> world \<Rightarrow> addr \<Rightarrow> (st_error \<times> world) option" where
  "st_gc_add_root env w h =
    (if h = NULL then Some (ST_ARG_INVALID, w) else with_gc_lock env w (add_root_body h))"

definition remove_root_body :: "addr \<Rightarrow> bool \<Rightarrow> world \<Rightarrow> (st_error \<times> world) option" where
  "remove_root_body h do_free w = do {
     (ret, idx) \<leftarrow> st_array_bsearch_left (gc_roots (w_gc w)) (Some h) None;
     if ret \<noteq> ST_OK then Some (ret, w)
     else do {
       roots \<leftarrow> st_array_remove_many (gc_roots (w_gc w)) idx 1;
       let w = set_roots roots w;
       if do_free then st_gc_push_to_sweep w h else Some (ret, w)
     }
   }"

definition st_gc_remove_root :: "env \<Rightarrow> world \<Rightarrow> addr \<Rightarrow> bool \<Rightarrow> (st_error \<times> world) option" where
  "st_gc_remove_root env w h do_free =
    (if h = NULL then Some (ST_ARG_INVALID, w) else with_gc_lock env w (remove_root_body h do_free))"

section \<open>Initialisation\<close>

text \<open>\<open>data\<close> and \<open>cells\<close> are the address and the contents of \<^verbatim>\<open>roots_data\<close>.\<close>

definition st_gc_init :: "env \<Rightarrow> addr \<Rightarrow> addr list \<Rightarrow> world \<Rightarrow> (st_error \<times> world) option" where
  "st_gc_init env data cells w = do {
     let w = set_gc (\<lambda>gc. gc\<lparr>gc_round := 0, gc_begin := False, gc_max_visit_cnt := 100, gc_max_free_cnt := 50\<rparr>) w;
     ln \<leftarrow> st_list_init (w_list w) (mark_queue (w_gc w));
     ln \<leftarrow> st_list_init ln (prev_sweep_queue (w_gc w));
     ln \<leftarrow> st_list_init ln (sweep_queue (w_gc w));
     ln \<leftarrow> st_list_init ln (garbage_queue (w_gc w));
     ln \<leftarrow> st_list_init ln (remained_queue (w_gc w));
     let w = set_list ln w;
     case env_time env 0 of
       Inl e \<Rightarrow> Some (Errno e, w)
     | Inr start_usec \<Rightarrow>
         (let w = set_gc (\<lambda>gc. gc\<lparr>gc_start_usec := start_usec\<rparr>) w in
          case env_time env 1 of
            Inl e \<Rightarrow> Some (Errno e, w)
          | Inr end_usec \<Rightarrow> do {
              roots \<leftarrow> st_array_init_static (gc_roots (w_gc w)) (int sizeof_ptr) data cells ST_GC_MAX_ROOTS (Some st_gc_cmp_gc_head);
              let (ret, lock) = st_robustlock_init (env_attr env) (gc_lock (w_gc w));
              let roots = (if ret \<noteq> ST_OK then snd (st_array_destroy roots) else roots);
              Some (ret, set_gc (\<lambda>gc. gc\<lparr>gc_end_usec := end_usec, gc_roots := roots, gc_lock := lock\<rparr>) w)
            })
   }"

text \<open>The loop of \<^verbatim>\<open>st_gc_destroy\<close>; the system calls of each run are those of its environment.\<close>

partial_function (option) destroy_loop :: "gc_params \<Rightarrow> (nat \<Rightarrow> env) \<Rightarrow> nat \<Rightarrow> world \<Rightarrow> (st_error \<times> world) option" where
  "destroy_loop gp envs k w =
    Option.bind (st_gc_run gp (envs k) w) (\<lambda>(ret, w).
      if ret = ST_NO_GC_DATA then Some (ST_OK, w)
      else if ret \<noteq> ST_OK then Some (ret, w)
      else destroy_loop gp envs (k + 1) w)"

definition st_gc_destroy :: "gc_params \<Rightarrow> (nat \<Rightarrow> env) \<Rightarrow> world \<Rightarrow> (st_error \<times> world) option" where
  "st_gc_destroy gp envs w = do {
     (ret, w) \<leftarrow> destroy_loop gp envs 0 w;
     if ret \<noteq> ST_OK then Some (ret, w)
     else do {
       e1 \<leftarrow> st_list_empty (w_list w) (mark_queue (w_gc w));
       e2 \<leftarrow> st_list_empty (w_list w) (prev_sweep_queue (w_gc w));
       e3 \<leftarrow> st_list_empty (w_list w) (sweep_queue (w_gc w));
       e4 \<leftarrow> st_list_empty (w_list w) (garbage_queue (w_gc w));
       e5 \<leftarrow> st_list_empty (w_list w) (remained_queue (w_gc w));
       if \<not> e1 \<or> \<not> e2 \<or> \<not> e3 \<or> \<not> e4 \<or> \<not> e5 then Some (ST_STATE_INVALID, w)
       else
         let w = set_roots (snd (st_array_destroy (gc_roots (w_gc w)))) w
         in Some (st_robustlock_destroy (gc_lock (w_gc w)), w)
     }
   }"

end
