(* ===== verification/Table_Ops.thy ===== *)
theory Table_Ops
  imports Gc
begin

text \<open>
  \<^verbatim>\<open>src/table/table.c\<close>: the operations that tell the collector about the tables they link or unlink, and
  run it, with the hash of \<^verbatim>\<open>src/hash/fibonacci.h\<close> that decides when.
\<close>

definition fib_hash16 :: "16 word \<Rightarrow> 16 word" where "fib_hash16 i = i * 40503"
definition fib_hash32 :: "32 word \<Rightarrow> 32 word" where "fib_hash32 i = i * 2654435769"
definition fib_hash64 :: "64 word \<Rightarrow> 64 word" where "fib_hash64 i = i * 11400714819323198485"
definition fib_hash8 :: "8 word \<Rightarrow> 8 word" where "fib_hash8 i = ucast (fib_hash16 (ucast i))"

definition st_table_run_gc_if_needed :: "gc_params \<Rightarrow> env \<Rightarrow> addr \<Rightarrow> world \<Rightarrow> (st_error \<times> world) option" where
  "st_table_run_gc_if_needed gp env table w =
    (if w_run_gc_periodical w = 1 then Some (ST_OK, w)
     else if fib_hash64 (of_nat table) > push_bit 63 1 then Some (ST_OK, w)
     else do {
       (ret, w) \<leftarrow> st_gc_run gp env w;
       Some (if ret = ST_NO_GC_DATA then ST_OK else ret, w)
     })"

definition st_table_remove_all :: "gc_params \<Rightarrow> env \<Rightarrow> world \<Rightarrow> addr \<Rightarrow> (st_error \<times> world) option" where
  "st_table_remove_all gp env w table =
    (if table = NULL then Some (ST_ARG_INVALID, w)
     else if \<not> tb_inited (w_tables w table) then Some (ST_UNINITED, w)
     else do {
       (ret, w) \<leftarrow> with_gc_lock env w (\<lambda>w. with_table_lock env table w (remove_all_body env table True));
       if ret = ST_OK then st_table_run_gc_if_needed gp env table w else Some (ret, w)
     })"

definition arg_str :: "st_str \<Rightarrow> bool" where
  "arg_str s \<longleftrightarrow> str_bytes s \<noteq> NULL \<and> str_len s > 0"

text \<open>A call of the collector for a table that a value refers to, which must succeed.\<close>

definition push_value :: "(world \<Rightarrow> addr \<Rightarrow> (st_error \<times> world) option) \<Rightarrow> st_str \<Rightarrow> world \<Rightarrow> world option" where
  "push_value push value w =
    (if st_types_is_table (str_type value) then do {
       (ret, w) \<leftarrow> push w (st_table_get_table_addr_from_value (w_bytes w) value);
       st_assert (ret = ST_OK);
       Some w
     }
     else Some w)"

text \<open>The section under the lock of the collector: \<open>Inl\<close> is the code that is returned at once, \<open>Inr\<close> the
  element that was replaced.\<close>

definition set_key_value_body :: "env \<Rightarrow> addr \<Rightarrow> st_str \<Rightarrow> addr \<Rightarrow> world \<Rightarrow> ((st_error + addr) \<times> world) option" where
  "set_key_value_body env table value elem w = do {
     ((ret, existed), w) \<leftarrow> st_table_add_element env w table elem True;
     if ret \<noteq> ST_OK \<and> ret \<noteq> ST_EXISTED then do {
       (_, w) \<leftarrow> st_table_free_element env w elem;
       Some (Inl ret, w)
     }
     else do {
       w \<leftarrow> (if ret = ST_EXISTED then push_value st_gc_push_to_sweep (te_value (w_elems w existed)) w else Some w);
       w \<leftarrow> push_value st_gc_push_to_mark value w;
       Some (Inr existed, w)
     }
   }"

definition st_table_set_key_value :: "gc_params \<Rightarrow> env \<Rightarrow> world \<Rightarrow> addr \<Rightarrow> st_str \<Rightarrow> st_str \<Rightarrow> (st_error \<times> world) option" where
  "st_table_set_key_value gp env w table key value =
    (if table = NULL then Some (ST_ARG_INVALID, w)
     else if \<not> tb_inited (w_tables w table) then Some (ST_UNINITED, w)
     else if \<not> arg_str key then Some (ST_ARG_INVALID, w)
     else if \<not> arg_str value then Some (ST_ARG_INVALID, w)
     else do {
       (ret, elem, w) \<leftarrow> st_table_new_element env w key value;
       if ret \<noteq> ST_OK then Some (ret, w)
       else do {
         elem \<leftarrow> elem;
         (r, w) \<leftarrow> with_gc_lock env w (set_key_value_body env table value elem);
         case r of
           Inl ret \<Rightarrow> Some (ret, w)
         | Inr existed \<Rightarrow> do {
             (ret, w) \<leftarrow> (if existed \<noteq> NULL then st_table_free_element env w existed else Some (ST_OK, w));
             if ret \<noteq> ST_OK then Some (ret, w) else st_table_run_gc_if_needed gp env table w
           }
       }
     })"

text \<open>The part of \<^verbatim>\<open>st_table_add_key_value\<close> that depends on the type of the value.\<close>

definition add_key_value_body :: "env \<Rightarrow> addr \<Rightarrow> st_str \<Rightarrow> addr \<Rightarrow> world \<Rightarrow> (st_error \<times> world) option" where
  "add_key_value_body env table value elem w =
    (if st_types_is_table (str_type value) then
       with_gc_lock env w (\<lambda>w. do {
         ((ret, _), w) \<leftarrow> st_table_add_element env w table elem False;
         if ret \<noteq> ST_OK then Some (ret, w)
         else do {
           w \<leftarrow> push_value st_gc_push_to_mark value w;
           Some (ST_OK, w)
         }
       })
     else do {
       ((ret, _), w) \<leftarrow> st_table_add_element env w table elem False;
       Some (ret, w)
     })"

definition st_table_add_key_value :: "gc_params \<Rightarrow> env \<Rightarrow> world \<Rightarrow> addr \<Rightarrow> st_str \<Rightarrow> st_str \<Rightarrow> (st_error \<times> world) option" where
  "st_table_add_key_value gp env w table key value =
    (if table = NULL then Some (ST_ARG_INVALID, w)
     else if \<not> tb_inited (w_tables w table) then Some (ST_UNINITED, w)
     else if \<not> arg_str key then Some (ST_ARG_INVALID, w)
     else if \<not> arg_str value then Some (ST_ARG_INVALID, w)
     else do {
       (ret, elem, w) \<leftarrow> st_table_new_element env w key value;
       if ret \<noteq> ST_OK then Some (ret, w)
       else do {
         elem \<leftarrow> elem;
         (ret, w) \<leftarrow> add_key_value_body env table value elem w;
         if ret \<noteq> ST_OK then do {
           (_, w) \<leftarrow> st_table_free_element env w elem;
           Some (ret, w)
         }
         else st_table_run_gc_if_needed gp env table w
       }
     })"

definition remove_key_body :: "env \<Rightarrow> addr \<Rightarrow> st_str \<Rightarrow> world \<Rightarrow> ((st_error \<times> addr) \<times> world) option" where
  "remove_key_body env table key w = do {
     ((ret, removed), w) \<leftarrow> st_table_remove_element env w table key;
     if ret \<noteq> ST_OK then Some ((ret, removed), w)
     else do {
       w \<leftarrow> push_value st_gc_push_to_sweep (te_value (w_elems w removed)) w;
       Some ((ST_OK, removed), w)
     }
   }"

definition st_table_remove_key :: "gc_params \<Rightarrow> env \<Rightarrow> world \<Rightarrow> addr \<Rightarrow> st_str \<Rightarrow> (st_error \<times> world) option" where
  "st_table_remove_key gp env w table key =
    (if table = NULL then Some (ST_ARG_INVALID, w)
     else if \<not> tb_inited (w_tables w table) then Some (ST_UNINITED, w)
     else if \<not> arg_str key then Some (ST_ARG_INVALID, w)
     else do {
       ((ret, removed), w) \<leftarrow> with_gc_lock env w (remove_key_body env table key);
       if ret \<noteq> ST_OK then Some (ret, w)
       else do {
         (ret, w) \<leftarrow> st_table_free_element env w removed;
         if ret \<noteq> ST_OK then Some (ret, w) else st_table_run_gc_if_needed gp env table w
       }
     })"

definition st_table_pool_init :: "env \<Rightarrow> addr \<Rightarrow> addr list \<Rightarrow> world \<Rightarrow> int \<Rightarrow> (st_error \<times> world) option" where
  "st_table_pool_init env data cells w run_gc_periodical = do {
     (ret, w) \<leftarrow> st_gc_init env data cells w;
     if ret \<noteq> ST_OK then Some (ret, w)
     else Some (ret, w\<lparr>w_table_cnt := 0, w_run_gc_periodical := run_gc_periodical\<rparr>)
   }"

definition st_table_pool_destroy :: "gc_params \<Rightarrow> (nat \<Rightarrow> env) \<Rightarrow> world \<Rightarrow> (st_error \<times> world) option" where
  "st_table_pool_destroy gp envs w = do {
     (ret, w) \<leftarrow> st_gc_destroy gp envs w;
     if ret \<noteq> ST_OK then Some (ret, w) else Some (ret, w\<lparr>w_table_cnt := 0\<rparr>)
   }"

end
