(* ===== verification/Table_Api.thy ===== *)
theory Table_Api
  imports Table_Queues Table_Ops
begin

text \<open>
  The operations on tables as their callers see them: each one refines an operation on finite maps,
  keeps the invariant of all tables, of the collector's queues and of the allocators below, and
  leaves every other table alone.
\<close>

section \<open>References between tables\<close>

text \<open>The table that a value refers to.\<close>

definition ref_of :: "int \<times> u8 list \<Rightarrow> addr option" where
  "ref_of v = (if fst v = ST_TYPES_TABLE then Some (nat (le_value (take 8 (snd v)))) else None)"

type_synonym contents = "addr \<Rightarrow> str_view \<rightharpoonup> int \<times> u8 list"

definition closed_at :: "contents \<Rightarrow> addr set \<Rightarrow> addr \<Rightarrow> bool" where
  "closed_at C D t \<longleftrightarrow> (\<forall>k v a. C t k = Some v \<longrightarrow> ref_of v = Some a \<longrightarrow> a \<in> D)"

text \<open>The table that the value of a key refers to.\<close>

definition old_ref :: "contents \<Rightarrow> addr \<Rightarrow> str_view \<Rightarrow> addr option" where
  "old_ref C t k = Option.bind (C t k) ref_of"

lemma take_read_bytes: "k \<le> n \<Longrightarrow> take k (read_bytes m a n) = read_bytes m a k"
  by (auto simp: list_eq_iff_nth_eq read_bytes_nth)

lemma ref_value:
  assumes "str_fits s"
  shows "ref_of (value_view m s) = (if st_types_is_table (str_type s) then Some (st_table_get_table_addr_from_value m s) else None)"
proof -
  have "8 \<le> nat (str_len s)" if "str_type s = ST_TYPES_TABLE"
    using assms that by (simp add: str_fits_def str_width_def types_defs) linarith
  then show ?thesis
    by (auto simp: ref_of_def value_view_def st_types_is_table_def st_table_get_table_addr_from_value_def load_u64_def take_read_bytes)
qed

section \<open>Sections under the lock of the collector\<close>

definition gc_locked :: "mutex \<Rightarrow> world \<Rightarrow> world" where
  "gc_locked l w = w\<lparr>w_gc := (w_gc w)\<lparr>gc_lock := l\<rparr>\<rparr>"

lemma gc_locked_simps [simp]:
  "w_tables (gc_locked l w) = w_tables w" "w_mem (gc_locked l w) = w_mem w" "w_bytes (gc_locked l w) = w_bytes w"
  "w_elems (gc_locked l w) = w_elems w" "w_slab (gc_locked l w) = w_slab w" "w_at (gc_locked l w) = w_at w"
  "w_run_gc_periodical (gc_locked l w) = w_run_gc_periodical w" "w_table_cnt (gc_locked l w) = w_table_cnt w"
  "gc_lock (w_gc (gc_locked l w)) = l" "gc_queues (w_gc (gc_locked l w)) = gc_queues (w_gc w)"
  "gc_round (w_gc (gc_locked l w)) = gc_round (w_gc w)"
  by (simp_all add: gc_locked_def)

lemma gc_locked_ok [simp]:
  "elem_ok (gc_locked l w) = elem_ok w" "kview (gc_locked l w) = kview w" "vview (gc_locked l w) = vview w"
  "entries (gc_locked l w) = entries w" "contents (gc_locked l w) = contents w" "qhead (gc_locked l w) = qhead w"
  by (simp_all add: elem_ok_def elem_at_def kview_def vview_def entries_def contents_def[abs_def] qhead_def fun_eq_iff cong: option.case_cong)

lemma world_ok_locked [simp]: "world_ok (gc_locked l w) T Q = world_ok w T Q"
  by (simp add: world_ok_def table_ok_def queues_ok_def)

lemma spare_locked [simp]: "spare (gc_locked l w) = spare w"
  by (simp add: spare_def fun_eq_iff)

lemma with_gc_lock_eq:
  assumes "lock_free (gc_lock (w_gc w))" "body (gc_locked (held env) w) = Some (r, w')" "gc_lock (w_gc w') = held env"
  shows "with_gc_lock env w body = Some (r, gc_locked mutex_new w')"
  using assms acquire_free[of "gc_lock (w_gc w)" "env_pid env"] by (simp add: with_gc_lock_def held_def[symmetric] gc_locked_def)

section \<open>Values that refer to tables\<close>

definition mark_ref :: "world \<Rightarrow> queues \<Rightarrow> addr option \<Rightarrow> queues" where
  "mark_ref w Q r = (case r of None \<Rightarrow> Q | Some a \<Rightarrow> marked w Q a)"

definition sweep_ref :: "queues \<Rightarrow> addr option \<Rightarrow> queues" where
  "sweep_ref Q r = (case r of None \<Rightarrow> Q | Some a \<Rightarrow> swept Q a)"

lemma ref_simps [simp]: "mark_ref w Q None = Q" "sweep_ref Q None = Q"
  "mark_ref w Q (Some a) = marked w Q a" "sweep_ref Q (Some a) = swept Q a"
  by (simp_all add: mark_ref_def sweep_ref_def)

lemma push_value_ok:
  assumes "world_ok w T Q" "str_fits s" "\<And>a. ref_of (value_view (w_bytes w) s) = Some a \<Longrightarrow> a \<in> dom T"
    "(push, qf) \<in> {(st_gc_push_to_mark, mark_ref w Q), (st_gc_push_to_sweep, sweep_ref Q)}"
  shows "\<exists>ln. push_value push s w = Some (set_list ln w) \<and> world_ok (set_list ln w) T (qf (ref_of (value_view (w_bytes w) s))) \<and>
    live (set_list ln w) = live w \<and> entries (set_list ln w) = entries w"
proof (cases "st_types_is_table (str_type s)")
  case False
  then have "ref_of (value_view (w_bytes w) s) = None" using ref_value[OF assms(2)] by simp
  then show ?thesis using False assms(1,4) by (intro exI[of _ "w_list w"]) (auto simp: push_value_def)
next
  case True
  let ?a = "st_table_get_table_addr_from_value (w_bytes w) s"
  have r: "ref_of (value_view (w_bytes w) s) = Some ?a" using ref_value[OF assms(2), of "w_bytes w"] True by simp
  then have a: "?a \<in> dom T" using assms(3) by simp
  obtain ln where "push w ?a = Some (ST_OK, set_list ln w)" "world_ok (set_list ln w) T (qf (Some ?a))"
    "live (set_list ln w) = live w" "entries (set_list ln w) = entries w"
    using assms(4) push_to_mark_ok[OF assms(1) a] push_to_sweep_ok[OF assms(1) a] by auto
  then show ?thesis using True r by (intro exI[of _ ln]) (simp add: push_value_def)
qed

text \<open>Marks and the round decide what enters the mark queue.\<close>

definition same_marks :: "world \<Rightarrow> world \<Rightarrow> bool" where
  "same_marks w w' \<longleftrightarrow> (\<forall>u. tb_mark (w_tables w' u) = tb_mark (w_tables w u))"

lemma mark_ref_cong: "same_marks w w' \<Longrightarrow> gc_round (w_gc w') = gc_round (w_gc w) \<Longrightarrow> mark_ref w' Q r = mark_ref w Q r"
  by (simp add: mark_ref_def marked_def same_marks_def st_gc_status_reachable_def split: option.splits)

lemma elem_value:
  assumes "world_ok w T Q" "T t = Some tr" "y \<in> set (inorder tr)" "closed_at (contents w T) (dom T) t"
  shows "str_fits (te_value (w_elems w y))" "ref_of (value_view (w_bytes w) (te_value (w_elems w y))) = Some a \<Longrightarrow> a \<in> dom T"
    "contents w T t (kview w y) = Some (vview w y)"
proof -
  have "elem_ok w y" by (rule table_okD(8)[OF assms(1-3)])
  then show "str_fits (te_value (w_elems w y))" by (auto simp: elem_ok_def elem_at_def)
  show c: "contents w T t (kview w y) = Some (vview w y)"
    using entries_lookup(1)[OF table_okD(5)[OF assms(1,2)] assms(3)] unfolding contents_at[of T t tr, OF assms(2)] .
  show "ref_of (value_view (w_bytes w) (te_value (w_elems w y))) = Some a \<Longrightarrow> a \<in> dom T"
    using c assms(4) unfolding closed_at_def vview_def by blast
qed

lemma elem_same_fields: "live w' = live w \<Longrightarrow> w_elems w' = w_elems w \<Longrightarrow> w_bytes w' = w_bytes w \<Longrightarrow> elem_ok w' e = elem_ok w e"
  by (simp add: elem_ok_def elem_at_def)

text \<open>What a section leaves: the rest of the world and the lock.\<close>

definition frame_rest :: "world \<Rightarrow> world \<Rightarrow> bool" where
  "frame_rest w w' \<longleftrightarrow> w_area w' = w_area w \<and> w_gc w' = w_gc w \<and> w_run_gc_periodical w' = w_run_gc_periodical w \<and>
     w_table_cnt w' = w_table_cnt w \<and> w_at w' = w_at w \<and> outside_same w w'"

text \<open>No table comes into being, and the versions of the tables that are left do not fall.\<close>

definition versions_up :: "world \<Rightarrow> world \<Rightarrow> bool" where
  "versions_up w w' \<longleftrightarrow> (\<forall>u. tb_inited (w_tables w' u) \<longrightarrow> tb_inited (w_tables w u) \<and> tb_version (w_tables w u) \<le> tb_version (w_tables w' u))"

lemma versions_up_same [simp]: "w_tables w' = w_tables w \<Longrightarrow> versions_up w w'"
  by (simp add: versions_up_def)

lemma versions_up_trans: "versions_up w w' \<Longrightarrow> versions_up w' w'' \<Longrightarrow> versions_up w w''"
  unfolding versions_up_def by (meson order_trans)

lemma versions_up_locks: "versions_up (gc_locked l w) w' = versions_up w w'" "versions_up w (gc_locked l w') = versions_up w w'"
  by (simp_all add: versions_up_def)

definition section_rest :: "world \<Rightarrow> world \<Rightarrow> bool" where
  "section_rest w w' \<longleftrightarrow> frame_rest w w' \<and> same_marks w w' \<and> versions_up w w'"

text \<open>What a whole operation leaves: its section has taken the lock of the collector and given it back.\<close>

definition op_rest :: "world \<Rightarrow> world \<Rightarrow> bool" where
  "op_rest w w' \<longleftrightarrow> w_area w' = w_area w \<and> (w_gc w')\<lparr>gc_lock := mutex_new\<rparr> = (w_gc w)\<lparr>gc_lock := mutex_new\<rparr> \<and>
     w_run_gc_periodical w' = w_run_gc_periodical w \<and> w_table_cnt w' = w_table_cnt w \<and> w_at w' = w_at w \<and> outside_same w w' \<and> same_marks w w' \<and> versions_up w w'"

lemmas rest_defs = frame_rest_def section_rest_def same_marks_def outside_same_def versions_up_def

lemma op_rest_same: "same_rest w w' \<Longrightarrow> op_rest w w'"
  by (simp add: op_rest_def same_rest_def same_marks_def)

lemma op_rest_section: "section_rest (gc_locked l w) w' \<Longrightarrow> op_rest w (gc_locked l' w')"
  by (simp add: op_rest_def rest_defs gc_locked_def outside_same_def)

lemma op_rest_trans: "op_rest w w' \<Longrightarrow> op_rest w' w'' \<Longrightarrow> op_rest w w''"
  using versions_up_trans[of w w' w''] by (simp add: op_rest_def same_marks_def outside_same_def)

text \<open>The version of a table that is left is at least as high as before.\<close>

lemma op_rest_version:
  assumes "op_rest w w'" "world_ok w' T Q" "t \<in> dom T"
  shows "tb_version (w_tables w t) \<le> tb_version (w_tables w' t)"
  using assms world_okD(2)[OF assms(2)] by (auto simp: op_rest_def versions_up_def table_ok_def)

lemma op_rest_round: "op_rest w w' \<Longrightarrow> gc_round (w_gc w') = gc_round (w_gc w)"
  unfolding op_rest_def by (metis st_gc.select_convs(3) st_gc.surjective st_gc.update_convs(11))

lemma section_upd: "bumps f \<Longrightarrow> section_rest w (set_list ln (upd_table t f (set_rb rb w)))"
  by (simp add: rest_defs upd_table_def set_rb_def set_list_def bumps_def)

lemma section_upd_rb: "bumps f \<Longrightarrow> section_rest w (upd_table t f (set_rb rb w))"
  by (simp add: rest_defs upd_table_def set_rb_def bumps_def)

text \<open>The objects that belong to no table when the tree of one changes.\<close>

lemma spare_upd:
  assumes "world_ok w T Q" "T t = Some tr" "live w' = live w"
  shows "set (inorder tr') = insert e (set (inorder tr)) \<Longrightarrow> spare w' (T(t \<mapsto> tr')) = without e (spare w T)"
    "set (inorder tr') = insert e (set (inorder tr) - {y}) \<Longrightarrow> y \<in> set (inorder tr) \<Longrightarrow> without y (spare w' (T(t \<mapsto> tr'))) = without e (spare w T)"
    "set (inorder tr') = set (inorder tr) - {y} \<Longrightarrow> y \<in> set (inorder tr) \<Longrightarrow> without y (spare w' (T(t \<mapsto> tr'))) = spare w T"
  using objs_upd[OF world_okD(3)[OF assms(1)] assms(2), of tr'] table_okD(9)[OF assms(1,2)] unfolding spare_def without_def assms(3) by auto

section \<open>Setting a key\<close>

lemma removed_loose:
  assumes "world_ok w T Q" "T t = Some tr" "y \<in> set (inorder tr)" "y \<notin> set (inorder tr')"
  shows "y \<notin> objs (T(t \<mapsto> tr'))"
proof -
  have ap: "apart_tables T" by (rule world_okD(3)[OF assms(1)])
  have "y \<notin> dom T" "y \<noteq> t" using ap assms(2,3) by (auto simp: apart_tables_def elems_of_def)
  moreover have "y \<notin> set (inorder tr1)" if "T t1 = Some tr1" "t1 \<noteq> t" for t1 tr1
    using ap assms(2,3) that unfolding apart_tables_def by (metis disjoint_iff)
  ultimately show ?thesis using assms(4) by (auto simp: objs_def elems_of_def split: if_splits)
qed

lemma set_body_ok:
  assumes "world_ok w T Q" "closed_at (contents w T) (dom T) t" "t \<in> dom T" "elem_ok w e" "e \<notin> objs T" "w_rb w e = st_rbtree_node_empty"
    "str_fits value" "\<And>a. ref_of (value_view (w_bytes w) value) = Some a \<Longrightarrow> a \<in> dom T"
  shows "\<exists>y w' T'. set_key_value_body env t value e w = Some (Inr y, w') \<and>
    world_ok w' T' (mark_ref w (sweep_ref Q (old_ref (contents w T) t (kview w e))) (ref_of (value_view (w_bytes w) value))) \<and>
    dom T' = dom T \<and> section_rest w w' \<and>
    contents w' T' = (contents w T)(t := (contents w T t)(kview w e \<mapsto> vview w e)) \<and> (y \<noteq> NULL \<longrightarrow> elem_ok w' y \<and> y \<notin> objs T') \<and>
    tb_version (w_tables w t) < tb_version (w_tables w' t) \<and> without y (spare w' T') = without e (spare w T)"
proof -
  obtain tr where tr: "T t = Some tr" using assms(3) by blast
  note lo = loose_elem[OF assms(1) tr assms(4,5)]
  let ?k = "kview w e" and ?v = "ref_of (value_view (w_bytes w) value)"
  show ?thesis
  proof (cases "contents w T t ?k = None")
    case True
    then have old: "old_ref (contents w T) t ?k = None" by (simp add: old_ref_def)
    obtain f rb tr' where a: "st_table_add_element env w t e True = Some ((ST_OK, NULL), upd_table t f (set_rb rb w))"
      "world_ok (upd_table t f (set_rb rb w)) (T(t \<mapsto> tr')) Q"
      "contents (upd_table t f (set_rb rb w)) (T(t \<mapsto> tr')) = (contents w T)(t := (contents w T t)(?k \<mapsto> vview w e))"
      "bumps f" "set (inorder tr') = insert e (set (inorder tr))" "live (upd_table t f (set_rb rb w)) = live w"
      using add_element_new[OF assms(1) tr assms(4,5) True, of env True] by blast
    let ?w = "upd_table t f (set_rb rb w)" and ?T = "T(t \<mapsto> tr')"
    have d: "dom ?T = dom T" using assms(3) by auto
    have s: "section_rest w ?w" by (rule section_upd_rb[OF a(4)])
    obtain ln where p: "push_value st_gc_push_to_mark value ?w = Some (set_list ln ?w)" "world_ok (set_list ln ?w) ?T (mark_ref ?w Q ?v)"
      "entries (set_list ln ?w) = entries ?w" "live (set_list ln ?w) = live ?w"
      using push_value_ok[OF a(2) assms(7), of st_gc_push_to_mark "mark_ref ?w Q"] assms(8) d by auto
    have "mark_ref ?w Q ?v = mark_ref w Q ?v" by (rule mark_ref_cong) (use s in \<open>simp_all add: rest_defs\<close>)
    moreover have "without NULL (spare (set_list ln ?w) ?T) = without e (spare w T)"
      unfolding spare_null[OF p(2)] by (rule spare_upd(1)[OF assms(1) tr _ a(5)]) (simp only: p(4) a(6))
    moreover have "tb_version (w_tables w t) < tb_version (w_tables (set_list ln ?w) t)" using a(4) by (simp add: bumps_def)
    moreover have "set_key_value_body env t value e w = Some (Inr NULL, set_list ln ?w)" using a(1) p(1) by (simp add: set_key_value_body_def)
    moreover have "contents (set_list ln ?w) ?T = contents ?w ?T" unfolding contents_def p(3) ..
    ultimately show ?thesis using p(2) a(3) d old section_upd[OF a(4)]
      by (intro exI[of _ NULL] exI[of _ "set_list ln ?w"] exI[of _ ?T]) simp
  next
    case False
    obtain f rb tr' y where a: "st_table_add_element env w t e True = Some ((ST_EXISTED, y), upd_table t f (set_rb rb w))"
      "y \<in> set (inorder tr)" "set (inorder tr') = insert e (set (inorder tr) - {y})"
      "world_ok (upd_table t f (set_rb rb w)) (T(t \<mapsto> tr')) Q" "live (upd_table t f (set_rb rb w)) = live w"
      "contents (upd_table t f (set_rb rb w)) (T(t \<mapsto> tr')) = (contents w T)(t := (contents w T t)(?k \<mapsto> vview w e))"
      "kview w y = ?k" "bumps f"
      using add_element_replace[OF assms(1) tr assms(4,5) False assms(6), of env] by blast
    let ?w = "upd_table t f (set_rb rb w)" and ?T = "T(t \<mapsto> tr')"
    have d: "dom ?T = dom T" using assms(3) by auto
    note v = elem_value[OF assms(1) tr a(2) assms(2)]
    have old: "old_ref (contents w T) t ?k = ref_of (value_view (w_bytes w) (te_value (w_elems w y)))"
      using v(3) unfolding a(7) by (simp add: old_ref_def vview_def)
    let ?Q = "sweep_ref Q (old_ref (contents w T) t ?k)"
    obtain ln where p: "push_value st_gc_push_to_sweep (te_value (w_elems w y)) ?w = Some (set_list ln ?w)"
      "world_ok (set_list ln ?w) ?T ?Q" "live (set_list ln ?w) = live ?w" "entries (set_list ln ?w) = entries ?w"
      using push_value_ok[OF a(4) v(1), of st_gc_push_to_sweep "sweep_ref Q"] v(2) d unfolding old by auto
    obtain ln2 where q: "push_value st_gc_push_to_mark value (set_list ln ?w) = Some (set_list ln2 (set_list ln ?w))"
      "world_ok (set_list ln2 (set_list ln ?w)) ?T (mark_ref (set_list ln ?w) ?Q ?v)" "live (set_list ln2 (set_list ln ?w)) = live (set_list ln ?w)"
      "entries (set_list ln2 (set_list ln ?w)) = entries (set_list ln ?w)"
      using push_value_ok[OF p(2) assms(7), of st_gc_push_to_mark "mark_ref (set_list ln ?w) ?Q"] assms(8) d by auto
    let ?w2 = "set_list ln2 (set_list ln ?w)"
    have "mark_ref (set_list ln ?w) ?Q ?v = mark_ref w ?Q ?v"
      by (rule mark_ref_cong) (use section_upd[OF a(8), of w ln t rb] in \<open>simp_all add: rest_defs\<close>)
    moreover have "set_key_value_body env t value e w = Some (Inr y, ?w2)" using a(1) p(1) q(1) by (simp add: set_key_value_body_def)
    moreover have "contents ?w2 ?T = contents ?w ?T" unfolding contents_def q(4) p(4) ..
    moreover have "elem_ok ?w2 y"
    proof -
      have "elem_ok w y" by (rule table_okD(8)[OF assms(1) tr a(2)])
      then show ?thesis using elem_same_fields[of ?w2 w y] q(3) p(3) a(5) by simp
    qed
    moreover have "y \<notin> objs ?T"
    proof (rule removed_loose[OF assms(1) tr a(2)])
      have "y \<noteq> e" using a(2) lo(3) by metis
      then show "y \<notin> set (inorder tr')" by (simp add: a(3))
    qed
    moreover have "section_rest w ?w2" using section_upd[OF a(8), of w ln2 t rb] by simp
    moreover have "without y (spare ?w2 ?T) = without e (spare w T)"
      by (rule spare_upd(2)[OF assms(1) tr _ a(3,2)]) (simp only: q(3) p(3) a(5))
    moreover have "tb_version (w_tables w t) < tb_version (w_tables ?w2 t)" using a(8) by (simp add: bumps_def)
    ultimately show ?thesis using q(2) a(6) d
      by (intro exI[of _ y] exI[of _ ?w2] exI[of _ ?T]) simp
  qed
qed

section \<open>The whole operations\<close>

text \<open>An operation that succeeded ends with a run of the collector if one is due.\<close>

definition then_gc :: "gc_params \<Rightarrow> env \<Rightarrow> addr \<Rightarrow> st_error \<Rightarrow> world \<Rightarrow> (st_error \<times> world) option" where
  "then_gc gp env t ret w = (if ret = ST_OK then st_table_run_gc_if_needed gp env t w else Some (ret, w))"

lemma then_gc_simps [simp]: "then_gc gp env t ST_OK w = st_table_run_gc_if_needed gp env t w"
  "ret \<noteq> ST_OK \<Longrightarrow> then_gc gp env t ret w = Some (ret, w)"
  by (simp_all add: then_gc_def)

text \<open>What a caller that stores a value owes: strings in memory of its own or in objects in use, a key that
  can be compared, an element of less than 2 GB, and references to tables only.\<close>

definition put_ok :: "env \<Rightarrow> world \<Rightarrow> tables \<Rightarrow> st_str \<Rightarrow> st_str \<Rightarrow> bool" where
  "put_ok env w T key value \<longleftrightarrow> env_ok env w \<and> str_key (w_bytes w) key \<and> str_safe w key \<and> str_safe w value \<and>
     elem_size key value < 2 ^ 31 \<and> (\<forall>a. ref_of (value_view (w_bytes w) value) = Some a \<longrightarrow> a \<in> dom T)"

lemma put_okD:
  assumes "put_ok env w T key value"
  shows "env_ok env w" "str_key (w_bytes w) key" "str_safe w key" "str_safe w value" "elem_size key value < 2 ^ 31"
    "\<And>a. ref_of (value_view (w_bytes w) value) = Some a \<Longrightarrow> a \<in> dom T" "arg_str key" "arg_str value" "str_fits value"
  using assms by (auto simp: put_ok_def str_safe_def str_fits_def arg_str_def)

text \<open>The pool between two operations: nobody holds the lock of the collector.\<close>

definition idle :: "world \<Rightarrow> tables \<Rightarrow> queues \<Rightarrow> bool" where
  "idle w T Q \<longleftrightarrow> world_ok w T Q \<and> lock_free (gc_lock (w_gc w))"

lemma idleD: "idle w T Q \<Longrightarrow> world_ok w T Q" "idle w T Q \<Longrightarrow> lock_free (gc_lock (w_gc w))"
  by (simp_all add: idle_def)

lemma idle_locked [simp]: "idle (gc_locked mutex_new w) T Q = world_ok w T Q"
  by (simp add: idle_def)

lemma idle_same: "same_rest w w' \<Longrightarrow> idle w T Q \<Longrightarrow> world_ok w' T' Q' \<Longrightarrow> idle w' T' Q'"
  by (simp add: idle_def same_rest_def)

lemma table_args:
  assumes "world_ok w T Q" "t \<in> dom T"
  shows "t \<noteq> NULL" "tb_inited (w_tables w t)"
proof -
  obtain tr where tr: "T t = Some tr" using assms(2) by blast
  have "table_ok w t tr" by (rule world_okD(2)[OF assms(1) tr])
  then show "tb_inited (w_tables w t)" by (simp add: table_ok_def)
  show "t \<noteq> NULL" using live_nonnull[OF world_okD(1)[OF assms(1)] table_nodes(1)[OF assms], of t] by simp
qed

lemma env_ok_area: "env_ok env w \<Longrightarrow> w_area w' = w_area w \<Longrightarrow> env_ok env w'"
  by (simp add: env_ok_def)

lemma env_ok_rest: "env_ok env w \<Longrightarrow> op_rest w w' \<Longrightarrow> env_ok env w'"
  by (simp add: op_rest_def env_ok_def)

lemma env_ok_locked [simp]: "env_ok env (gc_locked l w) = env_ok env w"
  by (simp add: env_ok_def)

text \<open>The release of the element that left the table, if any.\<close>

lemma release_ok:
  assumes "idle w T Q" "env_ok env w" "y \<noteq> NULL \<Longrightarrow> elem_ok w y \<and> y \<notin> objs T"
  shows "\<exists>w'. (if y \<noteq> NULL then st_table_free_element env w y else Some (ST_OK, w)) = Some (ST_OK, w') \<and> idle w' T Q \<and>
    contents w' T = contents w T \<and> op_rest w w' \<and> spare w' T = without y (spare w T)"
proof (cases "y = NULL")
  case True
  then show ?thesis using assms(1) spare_null[OF idleD(1)[OF assms(1)]] by (intro exI[of _ w]) (simp add: op_rest_def same_marks_def)
next
  case False
  then obtain w' where w': "st_table_free_element env w y = Some (ST_OK, w')" "world_ok w' T Q" "contents w' T = contents w T" "same_rest w w'"
    "live w' = without y (live w)" using free_element_ok[OF idleD(1)[OF assms(1)] assms(2)] assms(3) by blast
  then have "spare w' T = without y (spare w T)" by (auto simp: spare_def without_def)
  then show ?thesis using w' False op_rest_same idle_same[OF _ assms(1)] by (intro exI[of _ w']) simp
qed

text \<open>The value of the key and what the collector is told.\<close>

definition put_post :: "world \<Rightarrow> tables \<Rightarrow> queues \<Rightarrow> addr \<Rightarrow> str_view \<Rightarrow> int \<times> u8 list \<Rightarrow> world \<Rightarrow> tables \<Rightarrow> queues \<Rightarrow> bool" where
  "put_post w T Q t k v w' T' Q' \<longleftrightarrow> contents w' T' = (contents w T)(t := (contents w T t)(k \<mapsto> v)) \<and>
     Q' = mark_ref w (sweep_ref Q (old_ref (contents w T) t k)) (ref_of v) \<and> tb_version (w_tables w t) < tb_version (w_tables w' t)"

lemma set_op:
  assumes "idle w T Q" "closed_at (contents w T) (dom T) t" "t \<in> dom T" "put_ok env w T key value"
  shows "\<exists>ret w' T' Q'. st_table_set_key_value gp env w t key value = then_gc gp env t ret w' \<and> idle w' T' Q' \<and> dom T' = dom T \<and> op_rest w w' \<and>
    spare w' T' = spare w T \<and>
    (if ret = ST_OK then put_post w T Q t (str_view (w_bytes w) key) (value_view (w_bytes w) value) w' T' Q'
     else no_room env w (elem_size key value) ret \<and> contents w' T' = contents w T \<and> Q' = Q)"
proof -
  note i = idleD[OF assms(1)] and p = put_okD[OF assms(4)] and a = table_args[OF i(1) assms(3)]
  obtain ret r w1 where n: "st_table_new_element env w key value = Some (ret, r, w1)" "world_ok w1 T Q" "contents w1 T = contents w T"
    "same_rest w w1" "if ret = ST_OK then \<exists>e. r = Some e \<and> e \<notin> objs T \<and> elem_ok w1 e \<and> w_rb w1 e = st_rbtree_node_empty \<and>
        kview w1 e = str_view (w_bytes w) key \<and> vview w1 e = value_view (w_bytes w) value \<and>
        value_view (w_bytes w1) value = value_view (w_bytes w) value \<and> without e (live w1) = live w
     else no_room env w (elem_size key value) ret \<and> r = None \<and> live w1 = live w"
    using new_element_ok[OF i(1) p(1-5)] by blast
  have id1: "idle w1 T Q" by (rule idle_same[OF n(4) assms(1) n(2)])
  show ?thesis
  proof (cases "ret = ST_OK")
    case False
    then have "st_table_set_key_value gp env w t key value = then_gc gp env t ret w1" using n(1) a p(7,8) by (simp add: st_table_set_key_value_def)
    moreover have "spare w1 T = spare w T" by (rule spare_same) (use False n(5) in simp)
    ultimately show ?thesis using False n(3,5) id1 op_rest_same[OF n(4)] by (intro exI[of _ ret] exI[of _ w1] exI[of _ T] exI[of _ Q]) simp
  next
    case True
    then obtain e where e: "r = Some e" "e \<notin> objs T" "elem_ok w1 e" "w_rb w1 e = st_rbtree_node_empty" "kview w1 e = str_view (w_bytes w) key"
      "vview w1 e = value_view (w_bytes w) value" "value_view (w_bytes w1) value = value_view (w_bytes w) value" "without e (live w1) = live w"
      using n(5) by auto
    have sp: "without e (spare w1 T) = spare w T" using e(8)[symmetric] by (auto simp: spare_def without_def)
    let ?w1 = "gc_locked (held env) w1" and ?k = "str_view (w_bytes w) key" and ?v = "value_view (w_bytes w) value"
    let ?C = "(contents w T)(t := (contents w T t)(?k \<mapsto> ?v))" and ?Q = "mark_ref w (sweep_ref Q (old_ref (contents w T) t ?k)) (ref_of ?v)"
    have "\<exists>y w' T'. set_key_value_body env t value e ?w1 = Some (Inr y, w') \<and>
      world_ok w' T' (mark_ref ?w1 (sweep_ref Q (old_ref (contents ?w1 T) t (kview ?w1 e))) (ref_of (value_view (w_bytes ?w1) value))) \<and>
      dom T' = dom T \<and> section_rest ?w1 w' \<and>
      contents w' T' = (contents ?w1 T)(t := (contents ?w1 T t)(kview ?w1 e \<mapsto> vview ?w1 e)) \<and> (y \<noteq> NULL \<longrightarrow> elem_ok w' y \<and> y \<notin> objs T') \<and>
      tb_version (w_tables ?w1 t) < tb_version (w_tables w' t) \<and> without y (spare w' T') = without e (spare ?w1 T)"
      by (rule set_body_ok[OF _ _ assms(3) _ e(2)]) (use n(2,3) assms(2) e p(6,9) in \<open>simp_all\<close>)
    moreover have tb: "w_tables w1 = w_tables w" using n(4) by (simp add: same_rest_def)
    moreover have "mark_ref ?w1 Q1 x = mark_ref w Q1 x" for Q1 x
      by (rule mark_ref_cong) (use n(4) in \<open>simp_all add: same_rest_def same_marks_def\<close>)
    ultimately obtain y w2 T' where b: "set_key_value_body env t value e ?w1 = Some (Inr y, w2)" "world_ok w2 T' ?Q" "dom T' = dom T"
      "section_rest ?w1 w2" "contents w2 T' = ?C" "y \<noteq> NULL \<Longrightarrow> elem_ok w2 y \<and> y \<notin> objs T'"
      "tb_version (w_tables w t) < tb_version (w_tables w2 t)" "without y (spare w2 T') = spare w T"
      unfolding gc_locked_ok gc_locked_simps spare_locked e(5-7) n(3) sp[symmetric] using tb by auto
    let ?w2 = "gc_locked mutex_new w2"
    have g: "with_gc_lock env w1 (set_key_value_body env t value e) = Some (Inr y, ?w2)"
      by (rule with_gc_lock_eq[OF idleD(2)[OF id1], of "set_key_value_body env t value e", OF b(1)]) (use b(4) in \<open>simp add: rest_defs\<close>)
    have r2: "op_rest w ?w2" by (rule op_rest_trans[OF op_rest_same[OF n(4)] op_rest_section[OF b(4)]])
    obtain w3 where w3: "(if y \<noteq> NULL then st_table_free_element env ?w2 y else Some (ST_OK, ?w2)) = Some (ST_OK, w3)"
      "idle w3 T' ?Q" "contents w3 T' = ?C" "op_rest ?w2 w3" "spare w3 T' = spare w T"
      using release_ok[of ?w2 T' ?Q env y] b(2,5,6,8) env_ok_rest[OF p(1) r2] by (auto simp: spare_locked)
    have r3: "op_rest w w3" by (rule op_rest_trans[OF r2 w3(4)])
    have v3: "tb_version (w_tables w t) < tb_version (w_tables w3 t)"
      using op_rest_version[OF w3(4) idleD(1)[OF w3(2)], of t] b(3,7) assms(3) by simp
    have "st_table_set_key_value gp env w t key value = then_gc gp env t ST_OK w3"
      using n(1) True e(1) a p(7,8) g w3(1) by (simp add: st_table_set_key_value_def)
    then show ?thesis using w3(2,3,5) b(3) r3 v3 by (intro exI[of _ ST_OK] exI[of _ w3] exI[of _ T'] exI[of _ ?Q]) (simp add: put_post_def)
  qed
qed

section \<open>Adding a key\<close>

text \<open>The part of the operation between the two uses of the allocator.\<close>

lemma add_body_ok:
  assumes "idle w T Q" "t \<in> dom T" "elem_ok w e" "e \<notin> objs T"
    "str_fits value" "\<And>a. ref_of (value_view (w_bytes w) value) = Some a \<Longrightarrow> a \<in> dom T"
    "vview w e = value_view (w_bytes w) value"
  shows "\<exists>ret w' T' Q'. add_key_value_body env t value e w = Some (ret, w') \<and> idle w' T' Q' \<and> dom T' = dom T \<and> op_rest w w' \<and>
    (if contents w T t (kview w e) = None then ret = ST_OK \<and> put_post w T Q t (kview w e) (vview w e) w' T' Q' \<and> spare w' T' = without e (spare w T)
     else ret = ST_EXISTED \<and> contents w' T' = contents w T \<and> Q' = Q \<and> elem_ok w' e \<and> e \<notin> objs T' \<and> spare w' T' = spare w T)"
proof -
  note i = idleD[OF assms(1)]
  obtain tr where tr: "T t = Some tr" using assms(2) by blast
  let ?l = "gc_locked (held env) w"
  have okl: "world_ok ?l T Q" "elem_ok ?l e" using i(1) assms(3) by simp_all
  show ?thesis
  proof (cases "contents w T t (kview w e) = None")
    case True
    then have old: "old_ref (contents w T) t (kview w e) = None" by (simp add: old_ref_def)
    let ?C = "(contents w T)(t := (contents w T t)(kview w e \<mapsto> vview w e))" and ?v = "ref_of (value_view (w_bytes w) value)"
    show ?thesis
    proof (cases "st_types_is_table (str_type value)")
      case False
      obtain f rb tr' where a: "st_table_add_element env w t e False = Some ((ST_OK, NULL), upd_table t f (set_rb rb w))"
        "world_ok (upd_table t f (set_rb rb w)) (T(t \<mapsto> tr')) Q" "contents (upd_table t f (set_rb rb w)) (T(t \<mapsto> tr')) = ?C"
        "bumps f" "set (inorder tr') = insert e (set (inorder tr))" "live (upd_table t f (set_rb rb w)) = live w"
        using add_element_new[OF i(1) tr assms(3,4) True, of env False] by blast
      let ?w = "upd_table t f (set_rb rb w)"
      have d: "dom (T(t \<mapsto> tr')) = dom T" using assms(2) by auto
      have v: "?v = None" using ref_value[OF assms(5)] False by simp
      have "op_rest w ?w" using section_upd_rb[OF a(4), of w t rb] by (simp add: op_rest_def rest_defs)
      moreover have "idle ?w (T(t \<mapsto> tr')) Q" using a(2) i(2) by (simp add: idle_def)
      moreover have "spare ?w (T(t \<mapsto> tr')) = without e (spare w T)" by (rule spare_upd(1)[OF i(1) tr a(6,5)])
      moreover have "tb_version (w_tables w t) < tb_version (w_tables ?w t)" using a(4) by (simp add: bumps_def)
      ultimately show ?thesis using a(1,3) True False d old v assms(7)
        by (intro exI[of _ ST_OK] exI[of _ ?w] exI[of _ "T(t \<mapsto> tr')"] exI[of _ Q])
          (simp add: add_key_value_body_def put_post_def)
    next
      case tab: True
      obtain f rb tr' where a: "st_table_add_element env ?l t e False = Some ((ST_OK, NULL), upd_table t f (set_rb rb ?l))"
        "world_ok (upd_table t f (set_rb rb ?l)) (T(t \<mapsto> tr')) Q" "contents (upd_table t f (set_rb rb ?l)) (T(t \<mapsto> tr')) = ?C"
        "bumps f" "set (inorder tr') = insert e (set (inorder tr))" "live (upd_table t f (set_rb rb ?l)) = live ?l"
        using add_element_new[OF okl(1) tr okl(2) assms(4), of env False] True by auto
      let ?w = "upd_table t f (set_rb rb ?l)" and ?T = "T(t \<mapsto> tr')"
      have d: "dom ?T = dom T" using assms(2) by auto
      obtain ln where p: "push_value st_gc_push_to_mark value ?w = Some (set_list ln ?w)" "world_ok (set_list ln ?w) ?T (mark_ref ?w Q ?v)"
        "entries (set_list ln ?w) = entries ?w" "live (set_list ln ?w) = live ?w"
        using push_value_ok[OF a(2) assms(5), of st_gc_push_to_mark "mark_ref ?w Q"] assms(6) d by auto
      let ?r = "gc_locked mutex_new (set_list ln ?w)"
      have "mark_ref ?w Q ?v = mark_ref w Q ?v"
        by (rule mark_ref_cong) (use section_upd_rb[OF a(4), of ?l t rb] in \<open>simp_all add: rest_defs\<close>)
      moreover have "contents (set_list ln ?w) ?T = ?C" using a(3) unfolding contents_def p(3) .
      moreover have "add_key_value_body env t value e w = Some (ST_OK, ?r)"
        unfolding add_key_value_body_def using tab a(1) p(1) by (simp add: with_gc_lock_eq[OF i(2)])
      moreover have "op_rest w ?r" by (rule op_rest_section[OF section_upd[OF a(4)]])
      moreover have "spare ?r ?T = without e (spare w T)"
        using spare_upd(1)[OF okl(1) tr, of "set_list ln ?w", OF _ a(5)] p(4) a(6) by simp
      moreover have "tb_version (w_tables w t) < tb_version (w_tables ?r t)" using a(4) by (simp add: bumps_def)
      ultimately show ?thesis using p(2) d True old assms(7)
        by (intro exI[of _ ST_OK] exI[of _ ?r] exI[of _ ?T] exI[of _ "mark_ref w Q ?v"]) (simp add: put_post_def)
    qed
  next
    case False
    let ?u = "upd_table t (tb_lock_update (\<lambda>_. mutex_new))"
    have f: "world_ok (?u w') T Q" "contents (?u w') T = contents w' T" if "world_ok w' T Q" for w'
      using lock_only[OF that tr, of mutex_new] by auto
    let ?r = "if st_types_is_table (str_type value) then gc_locked mutex_new (?u ?l) else ?u w"
    have "add_key_value_body env t value e w = Some (ST_EXISTED, ?r)"
      using add_element_refused[OF i(1) tr assms(3,4) False, of env] add_element_refused[OF okl(1) tr okl(2) assms(4), of env] False
      by (simp add: add_key_value_body_def with_gc_lock_eq[OF i(2)])
    moreover have "idle ?r T Q" "contents ?r T = contents w T" using f[OF i(1)] f[OF okl(1)] i(2) by (simp_all add: idle_def)
    moreover have "elem_ok ?r e" using elem_same_fields[of "?u w" w e] elem_same_fields[of "?u ?l" w e] assms(3) by simp
    moreover have "op_rest w ?r" by (simp add: op_rest_def same_marks_def upd_table_def gc_locked_def versions_up_def)
    moreover have "spare ?r T = spare w T" by (rule spare_same) simp
    ultimately show ?thesis using False assms(4)
      by (intro exI[of _ ST_EXISTED] exI[of _ ?r] exI[of _ T] exI[of _ Q]) simp
  qed
qed

lemma add_op:
  assumes "idle w T Q" "t \<in> dom T" "put_ok env w T key value"
  shows "\<exists>ret w' T' Q'. st_table_add_key_value gp env w t key value = then_gc gp env t ret w' \<and> idle w' T' Q' \<and> dom T' = dom T \<and> op_rest w w' \<and>
    spare w' T' = spare w T \<and>
    (if ret = ST_OK
     then contents w T t (str_view (w_bytes w) key) = None \<and>
       put_post w T Q t (str_view (w_bytes w) key) (value_view (w_bytes w) value) w' T' Q'
     else contents w' T' = contents w T \<and> Q' = Q \<and>
       (ret = ST_EXISTED \<and> contents w T t (str_view (w_bytes w) key) \<noteq> None \<or> no_room env w (elem_size key value) ret))"
proof -
  note i = idleD[OF assms(1)] and p = put_okD[OF assms(3)] and a = table_args[OF i(1) assms(2)]
  let ?k = "str_view (w_bytes w) key" and ?v = "value_view (w_bytes w) value"
  obtain ret r w1 where n: "st_table_new_element env w key value = Some (ret, r, w1)" "world_ok w1 T Q" "contents w1 T = contents w T"
    "same_rest w w1" "if ret = ST_OK then \<exists>e. r = Some e \<and> e \<notin> objs T \<and> elem_ok w1 e \<and> w_rb w1 e = st_rbtree_node_empty \<and>
        kview w1 e = ?k \<and> vview w1 e = ?v \<and> value_view (w_bytes w1) value = ?v \<and> without e (live w1) = live w
     else no_room env w (elem_size key value) ret \<and> r = None \<and> live w1 = live w"
    using new_element_ok[OF i(1) p(1-5)] by blast
  have id1: "idle w1 T Q" by (rule idle_same[OF n(4) assms(1) n(2)])
  show ?thesis
  proof (cases "ret = ST_OK")
    case False
    then have "st_table_add_key_value gp env w t key value = then_gc gp env t ret w1" using n(1) a p(7,8) by (simp add: st_table_add_key_value_def)
    moreover have "spare w1 T = spare w T" by (rule spare_same) (use False n(5) in simp)
    ultimately show ?thesis using False n(3,5) id1 op_rest_same[OF n(4)] by (intro exI[of _ ret] exI[of _ w1] exI[of _ T] exI[of _ Q]) simp
  next
    case True
    then obtain e where e: "r = Some e" "e \<notin> objs T" "elem_ok w1 e" "kview w1 e = ?k" "vview w1 e = ?v" "value_view (w_bytes w1) value = ?v"
      "without e (live w1) = live w" using n(5) by auto
    have sp: "without e (spare w1 T) = spare w T" using e(7)[symmetric] by (auto simp: spare_def without_def)
    have tb: "w_tables w1 = w_tables w" using n(4) by (simp add: same_rest_def)
    have m: "mark_ref w1 Q1 x = mark_ref w Q1 x" for Q1 x
      by (rule mark_ref_cong) (use n(4) in \<open>simp_all add: same_rest_def same_marks_def\<close>)
    have "\<exists>ret w' T' Q'. add_key_value_body env t value e w1 = Some (ret, w') \<and> idle w' T' Q' \<and> dom T' = dom T \<and> op_rest w1 w' \<and>
      (if contents w1 T t (kview w1 e) = None then ret = ST_OK \<and> put_post w1 T Q t (kview w1 e) (vview w1 e) w' T' Q' \<and> spare w' T' = without e (spare w1 T)
       else ret = ST_EXISTED \<and> contents w' T' = contents w1 T \<and> Q' = Q \<and> elem_ok w' e \<and> e \<notin> objs T' \<and> spare w' T' = spare w1 T)"
      by (rule add_body_ok[OF id1 assms(2) e(3,2) p(9)]) (use e p(6) in simp_all)
    then obtain ret2 w2 T' Q' where b: "add_key_value_body env t value e w1 = Some (ret2, w2)" "idle w2 T' Q'" "dom T' = dom T" "op_rest w1 w2"
      "if contents w T t ?k = None then ret2 = ST_OK \<and> put_post w T Q t ?k ?v w2 T' Q' \<and> spare w2 T' = spare w T
       else ret2 = ST_EXISTED \<and> contents w2 T' = contents w T \<and> Q' = Q \<and> elem_ok w2 e \<and> e \<notin> objs T' \<and> without e (spare w2 T') = spare w T"
      unfolding e(4,5) n(3) put_post_def m tb sp by (auto simp: sp)
    have r2: "op_rest w w2" by (rule op_rest_trans[OF op_rest_same[OF n(4)] b(4)])
    have pre: "st_table_add_key_value gp env w t key value =
      (if ret2 \<noteq> ST_OK then do { (_, w) \<leftarrow> st_table_free_element env w2 e; Some (ret2, w) } else st_table_run_gc_if_needed gp env t w2)"
      using n(1) True e(1) a p(7,8) b(1) by (simp add: st_table_add_key_value_def)
    show ?thesis
    proof (cases "contents w T t ?k = None")
      case True
      then show ?thesis using b(2,3,5) r2 pre
        by (intro exI[of _ ST_OK] exI[of _ w2] exI[of _ T'] exI[of _ Q']) simp
    next
      case False
      have e0: "e \<noteq> NULL" using elem_live[OF e(3)] live_nonnull[OF world_okD(1)[OF n(2)]] by fastforce
      obtain w3 where f: "st_table_free_element env w2 e = Some (ST_OK, w3)" "idle w3 T' Q'" "contents w3 T' = contents w2 T'" "op_rest w2 w3"
        "spare w3 T' = without e (spare w2 T')" using release_ok[OF b(2) env_ok_rest[OF p(1) r2], of e] b(5) False e0 by auto
      then show ?thesis using False b(3,5) pre op_rest_trans[OF r2 f(4)]
        by (intro exI[of _ ST_EXISTED] exI[of _ w3] exI[of _ T'] exI[of _ Q']) simp
    qed
  qed
qed

section \<open>Removing a key\<close>

definition drop_post :: "world \<Rightarrow> tables \<Rightarrow> queues \<Rightarrow> addr \<Rightarrow> str_view \<Rightarrow> world \<Rightarrow> tables \<Rightarrow> queues \<Rightarrow> bool" where
  "drop_post w T Q t k w' T' Q' \<longleftrightarrow> contents w' T' = (contents w T)(t := (contents w T t)(k := None)) \<and>
     Q' = sweep_ref Q (old_ref (contents w T) t k) \<and> tb_version (w_tables w t) < tb_version (w_tables w' t)"

lemma remove_body_ok:
  assumes "world_ok w T Q" "closed_at (contents w T) (dom T) t" "t \<in> dom T" "env_ok env w" "str_key (w_bytes w) key"
  shows "\<exists>ret y w' T' Q'. remove_key_body env t key w = Some ((ret, y), w') \<and> world_ok w' T' Q' \<and> dom T' = dom T \<and> section_rest w w' \<and>
    (if contents w T t (str_view (w_bytes w) key) = None then ret = ST_NOT_FOUND \<and> contents w' T' = contents w T \<and> Q' = Q \<and> spare w' T' = spare w T
     else ret = ST_OK \<and> drop_post w T Q t (str_view (w_bytes w) key) w' T' Q' \<and> elem_ok w' y \<and> y \<notin> objs T' \<and> without y (spare w' T') = spare w T)"
proof -
  obtain tr where tr: "T t = Some tr" using assms(3) by blast
  note r = remove_element_ok[OF assms(1) tr assms(4,5)]
  let ?k = "str_view (w_bytes w) key"
  show ?thesis
  proof (cases "contents w T t ?k = None")
    case True
    let ?w = "upd_table t (tb_lock_update (\<lambda>_. mutex_new)) w"
    have "remove_key_body env t key w = Some ((ST_NOT_FOUND, NULL), ?w)" using True r by (simp add: remove_key_body_def)
    moreover have "section_rest w ?w" by (simp add: rest_defs upd_table_def)
    moreover have "spare ?w T = spare w T" by (rule spare_same) simp
    ultimately show ?thesis using True lock_only[OF assms(1) tr, of mutex_new]
      by (intro exI[of _ ST_NOT_FOUND] exI[of _ NULL] exI[of _ ?w] exI[of _ T] exI[of _ Q]) simp
  next
    case False
    let ?C = "(contents w T)(t := (contents w T t)(?k := None))"
    obtain f rb tr' y where a: "st_table_remove_element env w t key = Some ((ST_OK, y), upd_table t f (set_rb rb w))"
      "y \<in> set (inorder tr)" "set (inorder tr') = set (inorder tr) - {y}" "world_ok (upd_table t f (set_rb rb w)) (T(t \<mapsto> tr')) Q"
      "live (upd_table t f (set_rb rb w)) = live w" "contents (upd_table t f (set_rb rb w)) (T(t \<mapsto> tr')) = ?C" "kview w y = ?k"
      "bumps f" using r False by auto
    let ?w = "upd_table t f (set_rb rb w)" and ?T = "T(t \<mapsto> tr')"
    have d: "dom ?T = dom T" using assms(3) by auto
    note v = elem_value[OF assms(1) tr a(2) assms(2)]
    have old: "old_ref (contents w T) t ?k = ref_of (value_view (w_bytes w) (te_value (w_elems w y)))"
      using v(3) unfolding a(7) by (simp add: old_ref_def vview_def)
    let ?Q = "sweep_ref Q (old_ref (contents w T) t ?k)"
    obtain ln where p: "push_value st_gc_push_to_sweep (te_value (w_elems w y)) ?w = Some (set_list ln ?w)"
      "world_ok (set_list ln ?w) ?T ?Q" "live (set_list ln ?w) = live ?w" "entries (set_list ln ?w) = entries ?w"
      using push_value_ok[OF a(4) v(1), of st_gc_push_to_sweep "sweep_ref Q"] v(2) d unfolding old by auto
    have "remove_key_body env t key w = Some ((ST_OK, y), set_list ln ?w)" using a(1) p(1) by (simp add: remove_key_body_def)
    moreover have "tb_version (w_tables w t) < tb_version (w_tables (set_list ln ?w) t)" using a(8) by (simp add: bumps_def)
    then have "drop_post w T Q t ?k (set_list ln ?w) ?T ?Q" using a(6) unfolding drop_post_def contents_def p(4) by blast
    moreover have "without y (spare (set_list ln ?w) ?T) = spare w T"
      by (rule spare_upd(3)[OF assms(1) tr _ a(3,2)]) (simp only: p(3) a(5))
    moreover have "elem_ok (set_list ln ?w) y"
      using table_okD(8)[OF assms(1) tr a(2)] elem_same_fields[of "set_list ln ?w" w y] p(3) a(5) by simp
    moreover have "y \<notin> objs ?T" by (rule removed_loose[OF assms(1) tr a(2)]) (simp add: a(3))
    ultimately show ?thesis using False p(2) d section_upd[OF a(8), of w ln t rb]
      by (intro exI[of _ ST_OK] exI[of _ y] exI[of _ "set_list ln ?w"] exI[of _ ?T] exI[of _ ?Q]) simp
  qed
qed

lemma remove_op:
  assumes "idle w T Q" "closed_at (contents w T) (dom T) t" "t \<in> dom T" "env_ok env w" "str_key (w_bytes w) key" "arg_str key"
  shows "\<exists>ret w' T' Q'. st_table_remove_key gp env w t key = then_gc gp env t ret w' \<and> idle w' T' Q' \<and> dom T' = dom T \<and> op_rest w w' \<and>
    spare w' T' = spare w T \<and>
    (if contents w T t (str_view (w_bytes w) key) = None then ret = ST_NOT_FOUND \<and> contents w' T' = contents w T \<and> Q' = Q
     else ret = ST_OK \<and> drop_post w T Q t (str_view (w_bytes w) key) w' T' Q')"
proof -
  note i = idleD[OF assms(1)] and a = table_args[OF idleD(1)[OF assms(1)] assms(3)]
  let ?l = "gc_locked (held env) w" and ?k = "str_view (w_bytes w) key"
  have "\<exists>ret y w' T' Q'. remove_key_body env t key ?l = Some ((ret, y), w') \<and> world_ok w' T' Q' \<and> dom T' = dom T \<and> section_rest ?l w' \<and>
    (if contents ?l T t (str_view (w_bytes ?l) key) = None then ret = ST_NOT_FOUND \<and> contents w' T' = contents ?l T \<and> Q' = Q \<and> spare w' T' = spare ?l T
     else ret = ST_OK \<and> drop_post ?l T Q t (str_view (w_bytes ?l) key) w' T' Q' \<and> elem_ok w' y \<and> y \<notin> objs T' \<and> without y (spare w' T') = spare ?l T)"
    by (rule remove_body_ok[OF _ _ assms(3)]) (use i assms(2,4,5) in simp_all)
  then obtain ret y w1 T' Q' where b: "remove_key_body env t key ?l = Some ((ret, y), w1)" "world_ok w1 T' Q'" "dom T' = dom T"
    "section_rest ?l w1" "if contents w T t ?k = None then ret = ST_NOT_FOUND \<and> contents w1 T' = contents w T \<and> Q' = Q \<and> spare w1 T' = spare w T
     else ret = ST_OK \<and> drop_post w T Q t ?k w1 T' Q' \<and> elem_ok w1 y \<and> y \<notin> objs T' \<and> without y (spare w1 T') = spare w T"
    unfolding drop_post_def gc_locked_ok gc_locked_simps spare_locked by blast
  let ?w1 = "gc_locked mutex_new w1"
  have g: "with_gc_lock env w (remove_key_body env t key) = Some ((ret, y), ?w1)"
    by (rule with_gc_lock_eq[OF i(2), of "remove_key_body env t key", OF b(1)]) (use b(4) in \<open>simp add: rest_defs\<close>)
  have r1: "op_rest w ?w1" by (rule op_rest_section[OF b(4)])
  show ?thesis
  proof (cases "contents w T t ?k = None")
    case True
    then have "st_table_remove_key gp env w t key = then_gc gp env t ST_NOT_FOUND ?w1"
      using g a assms(6) b(5) by (simp add: st_table_remove_key_def)
    then show ?thesis using True b(2,3,5) r1 by (intro exI[of _ ST_NOT_FOUND] exI[of _ ?w1] exI[of _ T'] exI[of _ Q']) simp
  next
    case False
    have y0: "y \<noteq> NULL" using elem_live[of w1 y] live_nonnull[OF world_okD(1)[OF b(2)]] b(5) False by fastforce
    obtain w2 where f: "st_table_free_element env ?w1 y = Some (ST_OK, w2)" "idle w2 T' Q'" "contents w2 T' = contents w1 T'" "op_rest ?w1 w2"
      "spare w2 T' = without y (spare w1 T')" using release_ok[of ?w1 T' Q' env y] b(2,5) False y0 env_ok_rest[OF assms(4) r1] by auto
    note r2 = op_rest_trans[OF r1 f(4)]
    have "st_table_remove_key gp env w t key = then_gc gp env t ST_OK w2"
      using g a assms(6) b(5) False f(1) by (simp add: st_table_remove_key_def)
    moreover have "tb_version (w_tables w1 t) \<le> tb_version (w_tables w2 t)"
      using op_rest_version[OF f(4) idleD(1)[OF f(2)], of t] b(3) assms(3) by simp
    then have "drop_post w T Q t ?k w2 T' Q'" using b(5) f(3) unfolding if_not_P[OF False] drop_post_def by auto
    moreover have "spare w2 T' = spare w T" using b(5) f(5) False by simp
    ultimately show ?thesis using False b(3) f(2) r2
      by (intro exI[of _ ST_OK] exI[of _ w2] exI[of _ T'] exI[of _ Q']) simp
  qed
qed

section \<open>Reading a key\<close>

lemma get_op:
  assumes "world_ok w T Q" "t \<in> dom T" "env_ok env w" "str_key (w_bytes w) key" "arg_str key"
  shows "case contents w T t (str_view (w_bytes w) key) of
      None \<Rightarrow> st_table_get_value env w t key = Some (ST_NOT_FOUND, None)
    | Some v \<Rightarrow> \<exists>s. st_table_get_value env w t key = Some (ST_OK, Some s) \<and> value_view (w_bytes w) s = v"
proof -
  note a = table_args[OF assms(1,2)]
  obtain tr where tr: "T t = Some tr" using assms(2) by blast
  from get_element_ok[OF assms(1) tr assms(3,4)] show ?thesis
  proof (elim disjE conjE bexE)
    fix y assume y: "y \<in> set (inorder tr)" "kview w y = str_view (w_bytes w) key" "st_table_get_element env w t key = Some (ST_OK, y)"
    have "contents w T t (str_view (w_bytes w) key) = Some (vview w y)"
      using entries_lookup(1)[OF table_okD(5)[OF assms(1) tr] y(1)] unfolding contents_at[of T t tr, OF tr] y(2) .
    then show ?thesis using y(3) a assms(5) by (simp add: st_table_get_value_def arg_str_def vview_def)
  next
    assume "contents w T t (str_view (w_bytes w) key) = None" "st_table_get_element env w t key = Some (ST_NOT_FOUND, NULL)"
    then show ?thesis using a assms(5) by (simp add: st_table_get_value_def arg_str_def)
  qed
qed

end
