(* ===== verification/Slab_Room.thy ===== *)
theory Slab_Room
  imports Slab_Frame
begin

text \<open>
  When an allocation cannot fail: a group that has a slab with a free object, and a pool that has a
  free run of pages.
\<close>

section \<open>Room in a slab\<close>

lemma class_index:
  assumes "obj_class sz = 2 ^ i" "0 < sz" "sz < 2 ^ 31" "st_slab_size_to_index (word_of_int sz) = Inr (int j)" "i < 11" "j \<in> slab_indices"
  shows "j = i"
proof -
  obtain k where k: "k \<in> slab_indices" "st_slab_size_to_index (word_of_int sz) = Inr (int k)" "slab_class k (obj_class sz) (if k = 12 then 1 else 512)"
    using size_class[OF assms(2,3)] by blast
  have "(2::int) ^ i \<le> 2 ^ 10" using assms(5) by (intro power_increasing) simp_all
  then have "obj_class sz = 2 ^ k" using k(3) assms(1) by (auto simp: slab_class_def split: if_splits)
  then show ?thesis using assms(1,4) k(2) power_inject_exp[of "2::int" k i] by simp
qed

text \<open>Some object of a group is in use, but fewer than a slab has: the group has a partial slab.\<close>

lemma slab_has_room:
  assumes "slab_inv sp mem" "(a, 2 ^ i) \<in> slab_live sp mem" "finite (slab_live sp mem)" "card {b. (b, 2 ^ i) \<in> slab_live sp mem} < 512"
    "obj_class sz = 2 ^ i" "0 < sz" "sz < 2 ^ 31" "i < 11"
  shows "\<not> slab_exhausted md pid tmp sp mem sz ret"
proof
  assume "slab_exhausted md pid tmp sp mem sz ret"
  then obtain j where j: "j \<in> slab_indices" "st_slab_size_to_index (word_of_int sz) = Inr (int j)"
    "st_list_empty (pm_list mem) (slabs_partial (group_addr sp j)) = Some True" by (auto simp: slab_exhausted_def)
  have ji: "j = i" by (rule class_index[OF assms(5-7) j(2) assms(8) j(1)])
  obtain Q where Q: "slab_desc sp mem Q {}" using assms(1) by (auto simp: slab_inv_def)
  let ?pool = "sl_page_pool sp"
  have "clist (pm_list mem) (head_at (sl_groups_at sp) i False) (map page_ln (Q i False))"
    using slab_descD(3)[OF Q] j(1) ji by (simp add: lists_ok_def)
  from clist_empty_iff[OF this] have n: "Q i False = []" using j(3) ji by (simp add: head_at_def slab_head_def group_addr_def)
  have live: "live_objs sp mem Q = slab_live sp mem" using slab_live_eq[OF Q] by simp
  then obtain p where p: "p \<in> masters Q" "(a, 2 ^ i) \<in> slab_objs ?pool mem p" using assms(2) by (auto simp: live_objs_def)
  obtain k b where k: "k \<in> slab_indices" "p \<in> set (Q k b)" using p(1) by (auto simp: masters_def)
  obtain m where m: "slab_page (sl_groups_at sp) ?pool mem k p m" "slab_bits b False (pm_pages mem p)" using slab_descD(4)[OF Q k] by auto
  obtain base where base: "st_pagepool_page_to_addr ?pool (pm_pages mem) p = (ST_OK, Some base)"
    using slab_base[OF slab_descD(1)[OF Q] slab_pageD(1)[OF m(1)]] by blast
  have "nat (pg_obj_size (pm_pages mem p)) = 2 ^ i" using p(2) base by (auto simp: slab_objs_def Let_def)
  then have sz: "pg_obj_size (pm_pages mem p) = 2 ^ i" using slab_page_nbits(2)[OF m(1) k(1)] by (auto simp: nat_eq_iff)
  have "(2::int) ^ i \<le> 2 ^ 10" using assms(8) by (intro power_increasing) simp_all
  then have ki: "k = i" using slab_pageD(5)[OF m(1)] sz power_inject_exp[of "2::int" k i] by (auto split: if_splits)
  then have b: "b" using n k(2) by (cases b) auto
  have nb: "slab_nbits (pm_pages mem p) = 512" using slab_page_nbits(1)[OF m(1) k(1)] ki assms(8) by simp
  have "(base + h * 2 ^ i, 2 ^ i) \<in> slab_objs ?pool mem p" if "h < 512" for h
    using that base m(2) b nb sz by (auto simp: slab_objs_def slab_bits_def Let_def nat_power_eq)
  then have sub: "(\<lambda>h. base + h * 2 ^ i) ` {..<512} \<subseteq> {b. (b, 2 ^ i) \<in> slab_live sp mem}" using p(1) unfolding live[symmetric] by (auto simp: live_objs_def)
  have "{b. (b, 2 ^ i) \<in> slab_live sp mem} \<subseteq> fst ` slab_live sp mem" by force
  then have "finite {b. (b, 2 ^ i) \<in> slab_live sp mem}" by (rule finite_subset) (use assms(3) in simp)
  from card_mono[OF this sub] have "512 \<le> card {b. (b, 2 ^ i) \<in> slab_live sp mem}" by (simp add: card_image inj_on_def)
  then show False using assms(4) by simp
qed

section \<open>Room in the page pool\<close>

text \<open>An allocation changes the page pool only by the pages of a new slab.\<close>

lemma for_masters: "pool_fields m (for_pages n p id (\<lambda>pg. pg\<lparr>pg_master := v\<rparr>) m)"
proof -
  have "pool_fields m (fold (\<lambda>i m. m(f i := (m (f i))\<lparr>pg_master := v\<rparr>)) is m)" for f :: "nat \<Rightarrow> addr" and "is"
    by (induction "is" arbitrary: m) (force simp: pool_fields_def intro: pool_fields_trans)+
  then show ?thesis unfolding for_pages_def id_def .
qed

lemma mark_fields: "pool_fields m (mark_pages m p gv sv)"
  unfolding mark_pages_def Let_def by (rule pool_fields_trans[OF _ for_masters]) (simp add: pool_fields_def)

lemma take_fields: "take_obj ga g pool mem osz oc = Some (ret, r, g', mem') \<Longrightarrow> pool_fields (pm_pages mem) (pm_pages mem')"
  by (auto simp: take_obj_def upd_def pool_fields_def Let_def split: bind_splits if_splits prod.splits)

lemma alloc_pages_fields:
  assumes "st_slab_alloc_pages md t tmp ga g pool mem osz oc = Some (ret, g', pool', mem')"
  shows "\<exists>r1 mem1. st_pagepool_alloc_pages md t tmp pool mem (to_int32 (st_align (osz * oc) (pp_page_size pool) div pp_page_size pool)) =
      Some (ret, r1, pool', mem1) \<and> pool_fields (pm_pages mem1) (pm_pages mem')"
proof -
  have f: "pool_fields m (st_slab_set_pages_group_master (m(p := (m p)\<lparr>pg_bitmap := bm, pg_obj_size := s\<rparr>)) p ga)" for m p bm s
    unfolding st_slab_set_pages_group_master_def by (rule pool_fields_trans[OF _ mark_fields]) (simp add: pool_fields_def)
  show ?thesis using assms by (auto simp: st_slab_alloc_pages_def Let_def upd_def f split: bind_splits if_splits)
qed

lemma obj_alloc_pool:
  assumes "st_slab_obj_alloc md t tmp sp mem sz = Some (ret, r, sp', mem')" "st_slab_size_to_index (word_of_int sz) = Inr (int i)" "group_ok i (sl_groups sp ! i)" "i < 11" "0 < sz"
  defines "pool \<equiv> sl_page_pool sp"
  shows "\<exists>mem1. pool_fields (pm_pages mem1) (pm_pages mem') \<and> (sl_page_pool sp' = pool \<and> mem1 = mem \<or>
    (\<exists>ret1 r1. st_pagepool_alloc_pages md t tmp pool mem (to_int32 (st_align (2 ^ i * 512) (pp_page_size pool) div pp_page_size pool)) = Some (ret1, r1, sl_page_pool sp', mem1)))"
proof -
  have "(2::int) ^ i \<le> 2 ^ 10" using assms(4) by (intro power_increasing) simp_all
  then have g: "sg_obj_size (sl_groups sp ! i) = 2 ^ i" "\<not> is_huge_obj_group (sl_groups sp ! i)" using assms(3)
    by (simp_all add: group_ok_def is_huge_obj_group_def ST_SLAB_HUGE_OBJ_SIZE_def ST_SLAB_OBJ_SIZE_MAX_SHIFT_def)
  let ?ga = "group_addr sp i" and ?g = "sl_groups sp ! i"
  obtain g' l where b: "get_obj_body md t tmp ?ga ?g pool mem (2 ^ i) 512 = Some (ret, r, g', sl_page_pool sp', mem')"
    using assms(1,2,5) g by (auto simp: st_slab_obj_alloc_def st_slab_get_obj_from_group_def with_lock_def pool_def ST_SLAB_OBJ_CNT_EACH_ALLOC_def split: bind_splits)
  then obtain e where e: "st_list_empty (pm_list mem) (slabs_partial ?ga) = Some e" by (auto simp: get_obj_body_def split: bind_splits)
  show ?thesis
  proof (cases e)
    case False
    then show ?thesis using b e by (intro exI[of _ mem]) (auto simp: get_obj_body_def intro: take_fields split: bind_splits)
  next
    case True
    then obtain ret1 g1 pool1 mem1 where a: "st_slab_alloc_pages md t tmp ?ga ?g pool mem (2 ^ i) 512 = Some (ret1, g1, pool1, mem1)"
      using b e by (auto simp: get_obj_body_def split: bind_splits)
    then have p: "pool1 = sl_page_pool sp'" "pool_fields (pm_pages mem1) (pm_pages mem')"
      using b e True by (auto simp: get_obj_body_def dest: take_fields split: bind_splits if_splits)
    obtain r1 mem2 where "st_pagepool_alloc_pages md t tmp pool mem (to_int32 (st_align (2 ^ i * 512) (pp_page_size pool) div pp_page_size pool)) =
      Some (ret1, r1, pool1, mem2)" "pool_fields (pm_pages mem2) (pm_pages mem1)" using alloc_pages_fields[OF a] by blast
    then show ?thesis using p pool_fields_trans by blast
  qed
qed

text \<open>A free run of the right size is as good as a slab.\<close>

lemma pool_has_room:
  assumes "slab_inv sp mem" "tmp \<notin> region_area (pp_region_cb (sl_page_pool sp))" "(q, k) \<in> free_runs (sl_page_pool sp) mem"
    "st_align (obj_class sz * 512) (pp_page_size (sl_page_pool sp)) div pp_page_size (sl_page_pool sp) = int c" "0 < c" "c \<le> k" "c \<le> region_pages (sl_page_pool sp)"
    "obj_class sz = 2 ^ i" "0 < sz" "sz < 2 ^ 31" "i < 11" "slab_exhausted md pid tmp sp mem sz ret"
  shows "ret = ST_OK"
proof -
  let ?pool = "sl_page_pool sp"
  have inv: "pool_inv ?pool mem" using slab_pool_inv[OF assms(1)] by (simp add: pool_good_def)
  obtain j where j: "j \<in> slab_indices" "st_slab_size_to_index (word_of_int sz) = Inr (int j)"
    "pool_answers md pid tmp ?pool mem (obj_class sz * (if j = 12 then 1 else 512)) ret" using assms(12) by (auto simp: slab_exhausted_def)
  have "j = i" by (rule class_index[OF assms(8-10) j(2) assms(11) j(1)])
  then have "pool_answers md pid tmp ?pool mem (obj_class sz * 512) ret" using j(3) assms(11) by simp
  then obtain r pool' mem' where a: "st_pagepool_alloc_pages md pid tmp ?pool mem (int c) = Some (ret, r, pool', mem')"
    unfolding pool_answers_def assms(4) by blast
  have "0 < int c" "int c \<le> pp_pages_per_region ?pool" using assms(5,7) by (simp_all add: region_pages_def)
  then have "alloc_post ?pool mem c ret r pool' mem'" using alloc_pages_ok[OF inv assms(2), of md pid "int c"] unfolding a by auto
  then show ?thesis using assms(3,6) unfolding alloc_post_def by (auto split: if_splits)
qed

section \<open>A pool with two slabs\<close>

lemma live_allocated: "slab_inv sp mem \<Longrightarrow> slab_live sp mem \<noteq> {} \<Longrightarrow> allocated_runs (sl_page_pool sp) mem \<noteq> {}"
proof -
  assume a: "slab_inv sp mem" "slab_live sp mem \<noteq> {}"
  obtain Q where Q: "slab_desc sp mem Q {}" using a(1) by (auto simp: slab_inv_def)
  then obtain p where "p \<in> masters Q" using a(2) slab_live_eq[OF Q] by (auto simp: live_objs_def)
  then show ?thesis using masters_page[OF Q] slab_pageD(1) by blast
qed

lemma demo_objects:
  assumes "obj_class s1 = 128" "0 < s1" "s1 < 2 ^ 31" "obj_class s2 = 256" "0 < s2" "s2 < 2 ^ 31"
  shows "\<exists>sp mem x t. slab_inv sp mem \<and> slab_live sp mem = {(x, 128), (t, 256)} \<and>
    region_area (pp_region_cb (sl_page_pool sp)) = region_area demo_rcb \<and> slab_meta sp \<inter> {524288 ..< 1048576} = {}"
proof -
  obtain sp mem where d: "slab_reach (sp, mem) {}" "free_runs (sl_page_pool sp) mem = {}" "allocated_runs (sl_page_pool sp) mem = {}"
    "pp_region_cb (sl_page_pool sp) = demo_rcb" "pp_pages_per_region (sl_page_pool sp) = 15" "pp_page_size (sl_page_pool sp) = 65536"
    "sl_groups_at sp = 512" "rt_sentinel (pp_free_pages (sl_page_pool sp)) = 8"
    using demo_slab_start by blast
  have t: "16 \<notin> region_area demo_rcb" by (simp add: region_area_def demo_rcb_def)
  have t0: "16 \<notin> region_area (pp_region_cb (sl_page_pool sp))" using t by (simp add: d(4))
  have inv: "slab_inv sp mem" "slab_live sp mem = {}" using slab_reachD[OF d(1)] by auto
  from slab_alloc_step[OF inv(1) t0 assms(2,3), of "Inr ()" 1] obtain ret r sp1 mem1 where
    a: "st_slab_obj_alloc (Inr ()) 1 16 sp mem s1 = Some (ret, r, sp1, mem1)" "slab_step sp mem sp1 mem1"
    "alloc_obj_post 128 {} ret r (slab_live sp1 mem1)" unfolding inv(2) assms(1) by auto
  have "ret = ST_OK \<or> slab_exhausted (Inr ()) 1 16 sp mem s1 ret"
    using slab_alloc_ok[OF inv(1) t0 assms(3), of "Inr ()" 1] a(1) assms(2) by auto
  then have "ret = ST_OK" using demo_exhausted[OF d(1-6), of s1 ret] assms(1) by auto
  then obtain x where x: "slab_live sp1 mem1 = {(x, 128)}" using a(3) by (auto simp: alloc_obj_post_def)
  have s1: "slab_inv sp1 mem1" "region_area (pp_region_cb (sl_page_pool sp1)) = region_area demo_rcb" "slab_meta sp1 = slab_meta sp"
    using a(2) d(4) by (simp_all add: slab_step_def)
  have h: "z < 524288" if "z \<in> heads_of 512" for z
    using that by (auto simp: heads_of_def head_at_def slab_head_def slabs_full_def slabs_partial_def sizeof_group_def slab_indices_def)
  have "1048576 \<le> z" if "z \<in> desc_area (sl_page_pool sp)" for z
    using that by (auto simp: desc_area_def d(4) region_addr_def demo_rcb_def)
  then have meta: "slab_meta sp \<inter> {524288 ..< 1048576} = {}" unfolding slab_meta_def d(7,8) using h by force
  have ix: "st_slab_size_to_index (word_of_int s1) = Inr (int 7)" "group_ok 7 (sl_groups sp ! 7)"
  proof -
    obtain k where k: "k \<in> slab_indices" "st_slab_size_to_index (word_of_int s1) = Inr (int k)" using size_class[OF assms(2,3)] by blast
    then show "st_slab_size_to_index (word_of_int s1) = Inr (int 7)" using class_index[of s1 7 k] assms(1-3) by simp
    obtain Q where "slab_desc sp mem Q {}" using inv(1) by (auto simp: slab_inv_def)
    then show "group_ok 7 (sl_groups sp ! 7)" by (auto dest!: slab_descD(2) simp: slab_fixed_def slab_indices_def)
  qed
  have pinv: "pool_inv (sl_page_pool sp) mem" using slab_pool_inv[OF inv(1)] by (simp add: pool_good_def)
  from obj_alloc_pool[OF a(1) ix _ assms(2)] d(6) obtain mem0 where m: "pool_fields (pm_pages mem0) (pm_pages mem1)"
    "sl_page_pool sp1 = sl_page_pool sp \<and> mem0 = mem \<or>
     (\<exists>ret1 r1. st_pagepool_alloc_pages (Inr ()) 1 16 (sl_page_pool sp) mem (to_int32 (st_align 65536 65536 div 65536)) = Some (ret1, r1, sl_page_pool sp1, mem0))" by auto
  have runs: "run_set (sl_page_pool sp1) mem1 f = run_set (sl_page_pool sp1) mem0 f" for f by (rule run_set_fields[OF m(1)])
  have one: "to_int32 (st_align 65536 65536 div 65536) = 1" using st_align_pow2_eq[of 65536 16] by (simp add: to_int32_def) 
  have "\<not> (sl_page_pool sp1 = sl_page_pool sp \<and> mem0 = mem)" using live_allocated[OF s1(1)] x d(3) runs by auto
  then obtain ret1 r1 where p: "st_pagepool_alloc_pages (Inr ()) 1 16 (sl_page_pool sp) mem 1 = Some (ret1, r1, sl_page_pool sp1, mem0)"
    using m(2) unfolding one by blast
  have ap: "alloc_post (sl_page_pool sp) mem 1 ret1 r1 (sl_page_pool sp1) mem0" "same_pool (sl_page_pool sp) (sl_page_pool sp1)"
    using alloc_pages_ok[OF pinv t0, of "Inr ()" 1 1] unfolding p d(5) by auto
  have same: "pp_page_size (sl_page_pool sp1) = 65536" "region_pages (sl_page_pool sp1) = 15" "region_pages (sl_page_pool sp) = 15"
    using ap(2) d(5,6) by (simp_all add: same_pool_def region_pages_def)
  obtain q where q: "(q, 14) \<in> free_runs (sl_page_pool sp1) mem1"
    using ap(1) demo_not_full unfolding alloc_post_def d(2,4) same(3) runs by auto
  have t1: "16 \<notin> region_area (pp_region_cb (sl_page_pool sp1))" using t s1(2) by simp
  from slab_alloc_step[OF s1(1) t1 assms(5,6), of "Inr ()" 1] obtain ret2 r2 sp2 mem2 where
    b: "st_slab_obj_alloc (Inr ()) 1 16 sp1 mem1 s2 = Some (ret2, r2, sp2, mem2)" "slab_step sp1 mem1 sp2 mem2"
    "alloc_obj_post 256 {(x, 128)} ret2 r2 (slab_live sp2 mem2)" unfolding x assms(4) by auto
  have "ret2 = ST_OK \<or> slab_exhausted (Inr ()) 1 16 sp1 mem1 s2 ret2"
    using slab_alloc_ok[OF s1(1) t1 assms(6), of "Inr ()" 1] b(1) assms(5) by auto
  then have "ret2 = ST_OK"
    using pool_has_room[OF s1(1) t1 q, of s2 2 8 "Inr ()" 1 ret2] st_align_pow2_eq[of 131072 16] same assms(4-6) by auto
  then obtain y where "slab_live sp2 mem2 = {(x, 128), (y, 256)}" using b(3) by (auto simp: alloc_obj_post_def)
  then show ?thesis using b(2) s1(2,3) meta by (intro exI[of _ sp2] exI[of _ mem2] exI[of _ x] exI[of _ y]) (simp add: slab_step_def)
qed

end
