(* ===== verification/Table_Life.thy ===== *)
theory Table_Life
  imports Table_Api Slab_Room
begin

text \<open>
  The life of the pool of tables: its initialisation, the creation of tables, and a concrete pool
  with a table on which the operations run.
\<close>

section \<open>Initialisation of the pool\<close>

text \<open>The queues of a pool that starts: five heads, nothing in them.\<close>

lemma init_heads:
  assumes "h \<noteq> NULL"
  shows "\<exists>ln'. do {
      ln \<leftarrow> st_list_init ln h;
      ln \<leftarrow> st_list_init ln (h + 16);
      ln \<leftarrow> st_list_init ln (h + 32);
      ln \<leftarrow> st_list_init ln (h + 48);
      st_list_init ln (h + 64) } = Some ln' \<and> (\<forall>k < 5. clist ln' (h + 16 * k) []) \<and>
    (\<forall>a. a \<notin> (\<lambda>k. h + 16 * k) ` {..<5} \<longrightarrow> ln' a = ln a)"
proof -
  obtain m0 where m0: "st_list_init ln h = Some m0" "clist m0 h []" "\<forall>a. a \<noteq> h \<longrightarrow> m0 a = ln a"
    using list_init_clist[OF assms, of ln] by blast
  obtain m1 where m1: "st_list_init m0 (h + 16) = Some m1" "clist m1 (h + 16) []" "\<forall>a. a \<noteq> h + 16 \<longrightarrow> m1 a = m0 a"
    using list_init_clist[of "h + 16" m0] assms by auto
  obtain m2 where m2: "st_list_init m1 (h + 32) = Some m2" "clist m2 (h + 32) []" "\<forall>a. a \<noteq> h + 32 \<longrightarrow> m2 a = m1 a"
    using list_init_clist[of "h + 32" m1] assms by auto
  obtain m3 where m3: "st_list_init m2 (h + 48) = Some m3" "clist m3 (h + 48) []" "\<forall>a. a \<noteq> h + 48 \<longrightarrow> m3 a = m2 a"
    using list_init_clist[of "h + 48" m2] assms by auto
  obtain m4 where m4: "st_list_init m3 (h + 64) = Some m4" "clist m4 (h + 64) []" "\<forall>a. a \<noteq> h + 64 \<longrightarrow> m4 a = m3 a"
    using list_init_clist[of "h + 64" m3] assms by auto
  have "clist m4 h []" by (rule clist_frame[OF m0(2)]) (simp add: m1(3) m2(3) m3(3) m4(3))
  moreover have "clist m4 (h + 16) []" by (rule clist_frame[OF m1(2)]) (simp add: m2(3) m3(3) m4(3))
  moreover have "clist m4 (h + 32) []" by (rule clist_frame[OF m2(2)]) (simp add: m3(3) m4(3))
  moreover have "clist m4 (h + 48) []" by (rule clist_frame[OF m3(2)]) (simp add: m4(3))
  ultimately have "clist m4 (h + 16 * k) []" if "k < 5" for k
    using m4(2) that by (auto simp: less_Suc_eq numeral_eq_Suc)
  moreover have "m4 a = ln a" if "a \<notin> (\<lambda>k. h + 16 * k) ` {..<5}" for a
  proof -
    have "a \<noteq> h + 16 * k" if "k < 5" for k using that \<open>a \<notin> _\<close> by auto
    from this[of 0] this[of 1] this[of 2] this[of 3] this[of 4] show ?thesis using m0(3) m1(3) m2(3) m3(3) m4(3) by simp
  qed
  ultimately show ?thesis using m0(1) m1(1) m2(1) m3(1) m4(1) by (intro exI[of _ m4]) simp
qed

text \<open>The memory that the pool is given: a consistent slab pool, and queue heads outside of it.\<close>

definition pool_space :: "world \<Rightarrow> bool" where
  "pool_space w \<longleftrightarrow> slab_inv (w_slab w) (w_mem w) \<and> gc_queues (w_gc w) \<noteq> NULL \<and>
     (\<forall>k < 5. qhead w k \<notin> w_area w \<union> slab_meta (w_slab w))"

text \<open>The array of the roots that the collector starts with.\<close>

definition fresh_roots :: "addr list \<Rightarrow> addr st_array \<Rightarrow> bool" where
  "fresh_roots cells a \<longleftrightarrow> ar_inited a \<and> ar_current_cnt a = 0 \<and> ar_total_cnt a = ST_GC_MAX_ROOTS \<and> ar_cells a = cells \<and> \<not> ar_dynamic a \<and>
     ar_compare a = Some st_gc_cmp_gc_head \<and> 0 < ar_element_size a"

lemma pool_init_world:
  assumes "pool_space w" "env_time env 0 = Inr t0" "env_time env 1 = Inr t1" "env_attr env = 0" "data \<noteq> NULL"
  shows "\<exists>w'. st_table_pool_init env data cells w p = Some (ST_OK, w') \<and> idle w' Map.empty (\<lambda>_. []) \<and> w_run_gc_periodical w' = p \<and>
    live w' = live w \<and> w_slab w' = w_slab w \<and> w_table_cnt w' = 0 \<and> gc_begin (w_gc w') = False \<and> w_bytes w' = w_bytes w \<and>
    gc_round (w_gc w') = 0 \<and> fresh_roots cells (gc_roots (w_gc w'))"
proof -
  let ?h = "gc_queues (w_gc w)"
  have h: "?h \<noteq> NULL" using assms(1) by (simp add: pool_space_def)
  obtain ln where ln: "do {
      ln \<leftarrow> st_list_init (w_list w) ?h;
      ln \<leftarrow> st_list_init ln (?h + 16);
      ln \<leftarrow> st_list_init ln (?h + 32);
      ln \<leftarrow> st_list_init ln (?h + 48);
      st_list_init ln (?h + 64) } = Some ln" "\<forall>k < 5. clist ln (?h + 16 * k) []"
    "\<forall>a. a \<notin> (\<lambda>k. ?h + 16 * k) ` {..<5} \<longrightarrow> ln a = w_list w a"
    using init_heads[OF h, of "w_list w"] by auto
  let ?roots = "(gc_roots (w_gc w))\<lparr>ar_dynamic := False, ar_start_addr := data, ar_cells := cells,
       ar_element_size := int sizeof_ptr, ar_current_cnt := 0, ar_total_cnt := ST_GC_MAX_ROOTS,
       ar_compare := Some st_gc_cmp_gc_head, ar_inited := True\<rparr>"
  let ?gc = "(w_gc w)\<lparr>gc_round := 0, gc_begin := False, gc_max_visit_cnt := 100, gc_max_free_cnt := 50, gc_start_usec := t0,
     gc_end_usec := t1, gc_roots := ?roots, gc_lock := mutex_new\<rparr>"
  let ?w = "(set_list ln w)\<lparr>w_gc := ?gc, w_table_cnt := 0, w_run_gc_periodical := p\<rparr>"
  have "st_table_pool_init env data cells w p = Some (ST_OK, ?w)"
    using ln(1) assms(2-5) by (auto simp: st_table_pool_init_def st_gc_init_def set_gc_def mark_queue_def prev_sweep_queue_def sweep_queue_def
      garbage_queue_def remained_queue_def st_array_init_static_def ST_GC_MAX_ROOTS_def st_robustlock_init_def set_list_def split: bind_splits)
  moreover have m: "same_meta (w_slab w) (w_mem w) (w_mem ?w)"
  proof -
    have "ln x = w_list w x" if "x \<in> slab_meta (w_slab w)" for x
    proof (rule ln(3)[rule_format])
      show "x \<notin> (\<lambda>k. ?h + 16 * k) ` {..<5}" using assms(1) that unfolding pool_space_def qhead_def by blast
    qed
    then show ?thesis by (simp add: set_list_def same_meta_list)
  qed
  note f = slab_inv_frame[OF _ m]
  have inv: "slab_inv (w_slab w) (w_mem w)" using assms(1) by (simp add: pool_space_def)
  have "queues_ok ?w {} (\<lambda>_. [])" using assms(1) h ln(2) by (simp add: queues_ok_def pool_space_def qhead_def)
  then have "world_ok ?w Map.empty (\<lambda>_. [])" using f(1)[OF inv] by (simp add: world_ok_def apart_tables_def elems_of_def)
  then have "idle ?w Map.empty (\<lambda>_. [])" by (simp add: idle_def)
  moreover have "live ?w = live w" using f(2)[OF inv] by simp
  ultimately show ?thesis by (intro exI[of _ ?w]) (simp add: fresh_roots_def sizeof_ptr_def)
qed

section \<open>New tables\<close>

text \<open>An object that belongs to no table becomes a table: only its own nodes are written.\<close>

lemma fresh_table_same:
  fixes f :: "st_table \<Rightarrow> st_table"
  assumes "world_ok w T Q" "(t, 256) \<in> live w" "t \<notin> objs T"
    "\<And>x. x \<notin> {t ..< t + 256} \<Longrightarrow> rb x = w_rb w x" "\<And>x. x \<notin> {t ..< t + 256} \<Longrightarrow> ln x = w_list w x"
  defines "w' \<equiv> upd_table t f (set_list ln (set_rb rb w))"
  shows "world_same w w' T" "slab_inv (w_slab w') (w_mem w')" "live w' = live w"
proof -
  note inv = world_okD(1)[OF assms(1)]
  have "x \<notin> {t ..< t + 256}" if "x \<in> slab_meta (w_slab w)" for x using live_not_meta(1)[OF inv assms(2)] that by blast
  then have m: "same_meta (w_slab w) (w_mem w) (w_mem w')"
    unfolding w'_def set_rb_def set_list_def upd_table_def using assms(4,5) by (simp add: same_meta_def)
  have sl: "w_slab w' = w_slab w" "w_list w' = ln" "w_rb w' = rb" "w_tables w' = (w_tables w)(t := f (w_tables w t))" "w_gc w' = w_gc w"
    "w_at w' = w_at w" "w_elems w' = w_elems w" "w_bytes w' = w_bytes w"
    by (simp_all add: w'_def set_rb_def set_list_def upd_table_def)
  show "slab_inv (w_slab w') (w_mem w')" and lv: "live w' = live w" unfolding sl(1) by (rule slab_inv_frame[OF inv m])+
  have out: "x \<notin> {t ..< t + 256}" if "b \<in> objs T" "(b, k) \<in> live w" "x \<in> {b ..< b + k}" for b k x
    using obj_apart[OF assms(1,2) _ assms(3) that(1,2)] that(3) by auto
  have "rb (table_sentinel u) = w_rb w (table_sentinel u)" "ln (qnode k u) = w_list w (qnode k u)" "u \<noteq> t" if u: "u \<in> dom T" for u k
  proof -
    have o: "u \<in> objs T" using u by (simp add: objs_def)
    note n = table_nodes[OF assms(1) u]
    show "rb (table_sentinel u) = w_rb w (table_sentinel u)" by (rule assms(4)[OF out[OF o n(1,2)]])
    show "ln (qnode k u) = w_list w (qnode k u)" by (rule assms(5)[OF out[OF o n(1,3)]])
    show "u \<noteq> t" using o assms(3) by metis
  qed
  moreover have "elem_same w w' e" "rb e = w_rb w e" if e: "e \<in> elems_of T" for e
  proof -
    have o: "e \<in> objs T" using e by (simp add: objs_def)
    obtain k where k: "(e, k) \<in> live w" "e \<in> {e ..< e + k}" using elem_node[OF assms(1) e] by blast
    show "rb e = w_rb w e" by (rule assms(4)[OF out[OF o k]])
    show "elem_same w w' e" unfolding elem_same_def sl lv[unfolded sl(1)] by blast
  qed
  moreover have "ln (qhead w k) = w_list w (qhead w k)" if "k < 5" for k
  proof (rule assms(5))
    have "qhead w k \<notin> w_area w" using world_okD(4)[OF assms(1)] that by (simp add: queues_ok_def)
    then show "qhead w k \<notin> {t ..< t + 256}" using live_not_meta(2)[OF inv assms(2)] by blast
  qed
  ultimately show "world_same w w' T" unfolding world_same_def sl lv[unfolded sl(1)] using table_nodes(1)[OF assms(1)] by simp
qed

lemma world_add_table:
  assumes "world_ok w T Q" "t \<notin> objs T" "table_ok w t E" "\<And>k. k < 5 \<Longrightarrow> w_list w (qnode k t) = null_node"
  shows "world_ok w (T(t \<mapsto> E)) Q"
proof -
  have q: "queues_ok w (dom T) Q" by (rule world_okD(4)[OF assms(1)])
  have "queues_ok w (dom (T(t \<mapsto> E))) Q"
    using q assms(4) unfolding queues_ok_def dom_fun_upd by auto
  moreover have "apart_tables (T(t \<mapsto> E))"
  proof -
    have "t \<notin> elems_of T" using assms(2) by (simp add: objs_def)
    moreover have "elems_of (T(t \<mapsto> E)) \<subseteq> elems_of T" by (auto simp: elems_of_def split: if_splits)
    ultimately show ?thesis using world_okD(3)[OF assms(1)] unfolding apart_tables_def by (auto split: if_splits)
  qed
  ultimately show ?thesis using world_okD(1,2)[OF assms(1)] assms(3) by (simp add: world_ok_def)
qed

lemma table_init_ok:
  assumes "world_ok w T Q" "(t, 256) \<in> live w" "t \<notin> objs T" "env_attr env = 0"
  shows "\<exists>w'. st_table_init env w t = Some (ST_OK, w') \<and> world_ok w' (T(t \<mapsto> E)) Q \<and> live w' = live w \<and>
    contents w' (T(t \<mapsto> E)) = (contents w T)(t := Map.empty) \<and> frame_rest w w' \<and>
    tb_mark (w_tables w' t) = gc_round (w_gc w) \<and> (\<forall>u. u \<noteq> t \<longrightarrow> tb_mark (w_tables w' u) = tb_mark (w_tables w u)) \<and> w_bytes w' = w_bytes w"
proof -
  note inv = world_okD(1)[OF assms(1)]
  have nz: "x \<noteq> NULL" if "x \<in> {t ..< t + 256}" for x by (rule live_nonnull[OF inv assms(2) that])
  have nz1: "t \<noteq> NULL" using nz[of t] by simp
  let ?s = "table_sentinel t" and ?tree = "(tb_elements (w_tables w t))\<lparr>rt_sentinel := table_sentinel t, rt_root := table_sentinel t\<rparr>"
  let ?rb = "(w_rb w)(?s := st_rbtree_node_empty)"
  let ?ln = "(w_list w)(mark_lnode t := null_node, sweep_lnode t := null_node)"
  let ?f = "\<lambda>tb :: st_table. tb\<lparr>tb_elements := ?tree, tb_lock := mutex_new, tb_mark := st_gc_status_unknown (w_gc w), tb_pool := w_at w,
    tb_version := 0, tb_element_cnt := 0, tb_inited := True\<rparr>"
  let ?w = "upd_table t ?f (set_list ?ln (set_rb ?rb w))"
  have "st_rbtree_node_empty\<lparr>rb_red := False\<rparr> = st_rbtree_node_empty" by (simp add: st_rbtree_node_empty_def)
  then have eq: "st_table_init env w t = Some (ST_OK, ?w)" using nz1 assms(4)
    by (simp add: st_table_init_def st_rbtree_init_def st_gc_head_init_def upd_def st_robustlock_init_def table_sentinel_def upd_table_def
      set_rb_def set_list_def null_node_def mark_lnode_def sweep_lnode_def st_rbtree_black_def rb_ops)
  have o: "?rb x = w_rb w x" "?ln x = w_list w x" if "x \<notin> {t ..< t + 256}" for x
    using that by (auto simp: table_sentinel_def mark_lnode_def sweep_lnode_def)
  have s: "world_same w ?w T" "slab_inv (w_slab ?w) (w_mem ?w)" "live ?w = live w"
    by (rule fresh_table_same[OF assms(1-3)]; use o in blast)+
  note fr = world_frame[OF assms(1) s(1,2)]
  have t: "table_ok ?w t E" using assms(2) s(3) nz1
    by (auto simp: table_ok_def rb_tree_def tree_at_def rb_inv_def rb_ops st_rbtree_node_empty_def table_sentinel_def)
  have "world_ok ?w (T(t \<mapsto> E)) Q"
    by (rule world_add_table[OF fr(1) assms(3) t]) (auto simp: qnode_def mark_lnode_def sweep_lnode_def)
  moreover have "contents ?w (T(t \<mapsto> E)) = (contents w T)(t := Map.empty)" 
    using fr(3) by (auto simp: contents_def entries_def fun_eq_iff)
  ultimately show ?thesis using eq s(3)
    by (intro exI[of _ ?w]) (simp add: frame_rest_def st_gc_status_unknown_def)
qed

lemma table_class: "obj_class (int sizeof_table) = 256"
  by (simp add: obj_class_def sizeof_table_def)

text \<open>A failed initialisation of the lock gives the object back.\<close>

lemma table_init_fails:
  assumes "world_ok w T Q" "(t, 256) \<in> live w" "t \<notin> objs T" "env_attr env \<noteq> 0" "env_ok env w"
  shows "\<exists>w' sp mem. st_table_init env w t = Some (Errno (env_attr env), w') \<and>
    st_slab_obj_free (env_madvise env t) (env_pid env) (w_slab w') (w_mem w') t = Some (ST_OK, sp, mem) \<and>
    world_ok (w'\<lparr>w_slab := sp, w_mem := mem\<rparr>) T Q \<and> contents (w'\<lparr>w_slab := sp, w_mem := mem\<rparr>) T = contents w T \<and>
    slab_live sp mem = live w - {(t, 256)} \<and> section_rest w (w'\<lparr>w_slab := sp, w_mem := mem\<rparr>)"
proof -
  note inv = world_okD(1)[OF assms(1)]
  have nz: "t \<noteq> NULL" using live_nonnull[OF inv assms(2), of t] by simp
  let ?rb = "(w_rb w)(table_sentinel t := st_rbtree_node_empty)"
  let ?f = "\<lambda>tb :: st_table. tb\<lparr>tb_elements := (tb_elements (w_tables w t))\<lparr>rt_sentinel := table_sentinel t, rt_root := table_sentinel t\<rparr>\<rparr>"
  let ?w = "upd_table t ?f (set_list (w_list w) (set_rb ?rb w))"
  have "st_rbtree_node_empty\<lparr>rb_red := False\<rparr> = st_rbtree_node_empty" by (simp add: st_rbtree_node_empty_def)
  then have eq: "st_table_init env w t = Some (Errno (env_attr env), ?w)" using nz assms(4)
    by (simp add: st_table_init_def st_rbtree_init_def upd_def st_robustlock_init_def table_sentinel_def upd_table_def
      set_rb_def set_list_def st_rbtree_black_def)
  have o: "?rb x = w_rb w x" if "x \<notin> {t ..< t + 256}" for x using that by (auto simp: table_sentinel_def)
  have s: "world_same w ?w T" "slab_inv (w_slab ?w) (w_mem ?w)" "live ?w = live w"
    by (rule fresh_table_same[OF assms(1-3)]; use o in blast)+
  note fr = world_frame[OF assms(1) s(1,2)]
  have "(t, 256) \<in> live ?w" using s(3) assms(2) by metis
  from slab_free_step[OF s(2) this, of "env_pid env"] obtain sp mem where
    f: "st_slab_obj_free (Inr ()) (env_pid env) (w_slab ?w) (w_mem ?w) t = Some (ST_OK, sp, mem)"
    "slab_step (w_slab ?w) (w_mem ?w) sp mem" "slab_live sp mem = live w - {(t, 256)}" unfolding s(3) by auto
  have i: "slab_inv sp mem" "region_area (pp_region_cb (sl_page_pool sp)) = w_area w" using f(2) by (simp_all add: slab_step_def)
  have "world_same ?w (?w\<lparr>w_slab := sp, w_mem := mem\<rparr>) T"
    by (rule slab_step_same[OF fr(1) f(2)]) (use f(3) s(3) assms(3) in auto)
  then have "world_ok (?w\<lparr>w_slab := sp, w_mem := mem\<rparr>) T Q" "contents (?w\<lparr>w_slab := sp, w_mem := mem\<rparr>) T = contents ?w T"
    using world_frame[OF fr(1), of "?w\<lparr>w_slab := sp, w_mem := mem\<rparr>"] i(1) by auto
  moreover have "contents ?w T = contents w T" using fr(3) by auto
  moreover have "env_madvise env t = Inr ()" using assms(5) by (simp add: env_ok_def)
  ultimately show ?thesis using eq f(1,3) i(2)
    by (intro exI[of _ ?w] exI[of _ sp] exI[of _ mem]) (simp add: rest_defs)
qed

lemma count_ok [simp]:
  "entries (w\<lparr>w_table_cnt := n\<rparr>) = entries w" "contents (w\<lparr>w_table_cnt := n\<rparr>) = contents w"
  "world_ok (w\<lparr>w_table_cnt := n\<rparr>) T Q = world_ok w T Q"
proof -
  have k: "kview (w\<lparr>w_table_cnt := n\<rparr>) = kview w" "vview (w\<lparr>w_table_cnt := n\<rparr>) = vview w" by (simp_all add: kview_def vview_def fun_eq_iff)
  show e: "entries (w\<lparr>w_table_cnt := n\<rparr>) = entries w" by (simp add: entries_def k fun_eq_iff)
  show "contents (w\<lparr>w_table_cnt := n\<rparr>) = contents w" unfolding contents_def[abs_def] e ..
  show "world_ok (w\<lparr>w_table_cnt := n\<rparr>) T Q = world_ok w T Q"
    by (simp add: world_ok_def table_ok_def queues_ok_def qhead_def elem_ok_def elem_at_def k)
qed

text \<open>What a creation leaves: a new empty table whose mark is unknown, or the pool as it was.\<close>

definition new_table_post :: "world \<Rightarrow> tables \<Rightarrow> st_error \<Rightarrow> addr option \<Rightarrow> world \<Rightarrow> tables \<Rightarrow> bool" where
  "new_table_post w T ret r w' T' \<longleftrightarrow> w_gc w' = w_gc w \<and> w_area w' = w_area w \<and> outside_same w w' \<and>
    w_run_gc_periodical w' = w_run_gc_periodical w \<and> (\<forall>u \<in> dom T. tb_mark (w_tables w' u) = tb_mark (w_tables w u)) \<and>
    (if ret = ST_OK then \<exists>t. r = Some t \<and> t \<notin> dom T \<and> T' = T(t \<mapsto> E) \<and> contents w' T' = (contents w T)(t := Map.empty) \<and>
       w_table_cnt w' = w_table_cnt w + 1 \<and> tb_mark (w_tables w' t) = gc_round (w_gc w) \<and> t \<notin> fst ` live w \<and> live w' = insert (t, 256) (live w)
     else r = None \<and> T' = T \<and> contents w' T' = contents w T \<and> live w' = live w \<and> w_table_cnt w' = w_table_cnt w)"

lemma objs_new: "t \<notin> dom T \<Longrightarrow> objs (T(t \<mapsto> E)) = insert t (objs T)"
  unfolding objs_def elems_of_def by (auto split: if_splits)

lemma new_table_spare:
  assumes "new_table_post w T ret r w' T'"
  shows "spare w' T' = spare w T"
proof (cases "ret = ST_OK")
  case True
  then obtain t where t: "t \<notin> dom T" "T' = T(t \<mapsto> E)" "t \<notin> fst ` live w" "live w' = insert (t, 256) (live w)"
    using assms unfolding new_table_post_def if_P[OF True] by blast
  have "fst p \<noteq> t" if "p \<in> live w" for p using t(3) imageI[OF that, of fst] by metis
  then show ?thesis unfolding spare_def t(2,4) objs_new[OF t(1)] by auto
next
  case False
  then have "T' = T" "live w' = live w" using assms unfolding new_table_post_def if_not_P[OF False] by blast+
  then show ?thesis using spare_same[of w' w T] by simp
qed

lemma new_op:
  assumes "idle w T Q" "env_ok env w"
  shows "\<exists>ret r w' T'. st_table_new env w = Some (ret, r, w') \<and> idle w' T' Q \<and> new_table_post w T ret r w' T'"
proof -
  note i = idleD[OF assms(1)]
  have tmp: "env_tmp env \<notin> w_area w" using assms(2) by (simp add: env_ok_def)
  from slab_alloc_step[OF world_okD(1)[OF i(1)] tmp, of "int sizeof_table" "env_madvise env NULL" "env_pid env"] obtain ret r sp mem where
    a: "st_slab_obj_alloc (env_madvise env NULL) (env_pid env) (env_tmp env) (w_slab w) (w_mem w) (int sizeof_table) = Some (ret, r, sp, mem)"
    "slab_step (w_slab w) (w_mem w) sp mem" "alloc_obj_post 256 (live w) ret r (slab_live sp mem)"
    unfolding table_class by (auto simp: sizeof_table_def)
  let ?w = "w\<lparr>w_slab := sp, w_mem := mem\<rparr>"
  have inv: "slab_inv sp mem" and area: "region_area (pp_region_cb (sl_page_pool sp)) = w_area w" using a(2) by (simp_all add: slab_step_def)
  have "live w \<subseteq> slab_live sp mem" using a(3) by (auto simp: alloc_obj_post_def split: if_splits)
  then have same: "world_same w ?w T" by (intro slab_step_same[OF i(1) a(2)]) blast
  have ok: "world_ok ?w T Q" "contents ?w T = contents w T" using world_frame[OF i(1) same] inv by auto
  show ?thesis
  proof (cases "ret = ST_OK")
    case False
    then have "st_table_new env w = Some (ret, None, ?w)" using a(1) by (simp add: st_table_new_def)
    moreover have "idle ?w T Q" using ok(1) i(2) by (simp add: idle_def)
    ultimately show ?thesis using False ok(2) a(3) area
      by (intro exI[of _ ret] exI[of _ None] exI[of _ ?w] exI[of _ T]) (simp add: alloc_obj_post_def new_table_post_def)
  next
    case True
    then obtain t where t: "r = Some t" "(t, 256) \<notin> live w" "slab_live sp mem = insert (t, 256) (live w)"
      using a(3) by (auto simp: alloc_obj_post_def)
    have lo: "t \<notin> objs T" "(t, 256) \<in> live ?w" using fresh_obj[OF i(1) inv t(3,2)] t(3) by simp_all
    have nd: "t \<notin> dom T" using lo(1) by (simp add: objs_def)
    have nl: "t \<notin> fst ` live w" by (rule without_new(2)[OF inv t(3,2)])
    have env: "env_ok env ?w" by (rule env_ok_area[OF assms(2)]) (use area in simp)
    show ?thesis
    proof (cases "env_attr env = 0")
      case True
      obtain w2 where f: "st_table_init env ?w t = Some (ST_OK, w2)" "world_ok w2 (T(t \<mapsto> E)) Q"
        "contents w2 (T(t \<mapsto> E)) = (contents ?w T)(t := Map.empty)" "frame_rest ?w w2" "tb_mark (w_tables w2 t) = gc_round (w_gc w)"
        "\<And>u. u \<noteq> t \<Longrightarrow> tb_mark (w_tables w2 u) = tb_mark (w_tables w u)" "live w2 = insert (t, 256) (live w)"
        using table_init_ok[OF ok(1) lo(2,1) True] t(3) by auto
      let ?w2 = "w2\<lparr>w_table_cnt := w_table_cnt w2 + 1\<rparr>"
      have c: "contents ?w2 (T(t \<mapsto> E)) = (contents w T)(t := Map.empty)" using f(3) ok(2) by simp
      have "idle ?w2 (T(t \<mapsto> E)) Q" using f(2,4) i(2) by (simp add: idle_def frame_rest_def)
      moreover have "st_table_new env w = Some (ST_OK, Some t, ?w2)" using a(1) \<open>ret = ST_OK\<close> t(1) f(1) by (simp add: st_table_new_def)
      moreover have "\<forall>u \<in> dom T. tb_mark (w_tables w2 u) = tb_mark (w_tables w u)" using f(6) nd by metis
      ultimately show ?thesis using nd nl c f(4,5,7) area
        by (intro exI[of _ ST_OK] exI[of _ "Some t"] exI[of _ ?w2] exI[of _ "T(t \<mapsto> E)"]) (simp add: frame_rest_def new_table_post_def outside_same_def)
    next
      case False
      obtain w2 sp2 mem2 where f: "st_table_init env ?w t = Some (Errno (env_attr env), w2)"
        "st_slab_obj_free (env_madvise env t) (env_pid env) (w_slab w2) (w_mem w2) t = Some (ST_OK, sp2, mem2)"
        "world_ok (w2\<lparr>w_slab := sp2, w_mem := mem2\<rparr>) T Q" "contents (w2\<lparr>w_slab := sp2, w_mem := mem2\<rparr>) T = contents ?w T"
        "slab_live sp2 mem2 = live ?w - {(t, 256)}" "section_rest ?w (w2\<lparr>w_slab := sp2, w_mem := mem2\<rparr>)"
        using table_init_fails[OF ok(1) lo(2,1) False env] by blast
      let ?w2 = "w2\<lparr>w_slab := sp2, w_mem := mem2\<rparr>"
      have "idle ?w2 T Q" using f(3,6) i(2) by (simp add: idle_def rest_defs)
      moreover have "live ?w2 = live w" using f(5) t(2,3) by simp
      moreover have "st_table_new env w = Some (Errno (env_attr env), None, ?w2)" using a(1) \<open>ret = ST_OK\<close> t(1) f(1,2) by (simp add: st_table_new_def)
      ultimately show ?thesis using f(4,6) ok(2) area
        by (intro exI[of _ "Errno (env_attr env)"] exI[of _ None] exI[of _ ?w2] exI[of _ T]) (simp add: rest_defs new_table_post_def outside_same_def)
    qed
  qed
qed

section \<open>A concrete pool\<close>

definition demo_env :: env where
  "demo_env = \<lparr>env_pid = 1, env_tmp = 16, env_target = 32, env_madvise = \<lambda>_. Inr (), env_attr = 0, env_time = \<lambda>_. Inr 0\<rparr>"

text \<open>Its slabs hold one object of 128 bytes and one table.\<close>

lemma demo_table_space:
  "\<exists>sp mem x t. slab_inv sp mem \<and> slab_live sp mem = {(x, 128), (t, 256)} \<and> region_area (pp_region_cb (sl_page_pool sp)) = region_area demo_rcb \<and>
     slab_meta sp \<inter> {524288 ..< 1048576} = {}"
  using demo_objects[of 128 "int sizeof_table"] table_class by (simp add: obj_class_def sizeof_table_def)

text \<open>The memory of its caller: the string \<^verbatim>\<open>ab\<close> at 100 and the integer 7 at 200.\<close>

definition demo_bytes :: bytes where
  "demo_bytes = (\<lambda>_. 0)(100 := 97, 101 := 98, 200 := 7)"

definition demo_key :: st_str where
  "demo_key = \<lparr>str_type = ST_TYPES_STRING, str_len = 2, str_capacity = 2, str_bytes_owned = False, str_bytes = 100\<rparr>"

definition demo_value :: st_str where
  "demo_value = \<lparr>str_type = ST_TYPES_INTEGER, str_len = 4, str_capacity = 4, str_bytes_owned = False, str_bytes = 200\<rparr>"

definition demo_gc :: st_gc where
  "demo_gc = \<lparr>gc_roots = \<lparr>ar_start_addr = NULL, ar_cells = [], ar_element_size = 0, ar_current_cnt = 0, ar_total_cnt = 0, ar_dynamic = False,
     ar_compare = None, ar_inited = False\<rparr>, gc_queues = 524288, gc_round = 0, gc_start_usec = 0, gc_end_usec = 0, gc_begin = False,
     gc_max_visit_cnt = 0, gc_curr_visit_cnt = 0, gc_max_free_cnt = 0, gc_curr_free_cnt = 0, gc_lock = mutex_new\<rparr>"

definition demo_raw_table :: st_table where
  "demo_raw_table = \<lparr>tb_mark = 0, tb_pool = NULL, tb_elements = \<lparr>rt_root = NULL, rt_sentinel = NULL\<rparr>, tb_element_cnt = 0, tb_version = 0,
     tb_lock = mutex_new, tb_inited = False\<rparr>"

definition demo_raw_world :: "st_slab_pool \<Rightarrow> page_mem \<Rightarrow> world" where
  "demo_raw_world sp mem = \<lparr>w_at = 64, w_slab = sp, w_mem = mem, w_bytes = demo_bytes, w_elems = \<lambda>_. \<lparr>te_key = demo_key, te_value = demo_value\<rparr>,
     w_tables = \<lambda>_. demo_raw_table, w_gc = demo_gc, w_run_gc_periodical = 0, w_table_cnt = 0\<rparr>"

lemma demo_pool_space:
  "\<exists>sp mem x t. pool_space (demo_raw_world sp mem) \<and> slab_live sp mem = {(x, 128), (t, 256)} \<and> region_area (pp_region_cb (sl_page_pool sp)) = region_area demo_rcb"
proof -
  obtain sp mem x t where d: "slab_inv sp mem" "slab_live sp mem = {(x, 128), (t, 256)}" "region_area (pp_region_cb (sl_page_pool sp)) = region_area demo_rcb"
    "slab_meta sp \<inter> {524288 ..< 1048576} = {}" using demo_table_space by blast
  let ?w = "demo_raw_world sp mem"
  have "qhead ?w k \<notin> w_area ?w \<union> slab_meta sp" if "k < 5" for k
  proof -
    have "qhead ?w k \<in> {524288 ..< 1048576}" "qhead ?w k \<notin> region_area demo_rcb"
      using that by (auto simp: qhead_def demo_raw_world_def demo_gc_def region_area_def demo_rcb_def)
    then show ?thesis using d(3,4) by (auto simp: demo_raw_world_def)
  qed
  then have "pool_space ?w" using d(1) by (simp add: pool_space_def demo_raw_world_def demo_gc_def)
  then show ?thesis using d(2,3) by blast
qed

lemma demo_world:
  "\<exists>w x t. idle w [t \<mapsto> E] (\<lambda>_. []) \<and> w_run_gc_periodical w = p \<and> w_bytes w = demo_bytes \<and> w_area w = region_area demo_rcb \<and>
    \<not> gc_begin (w_gc w) \<and> fresh_roots (replicate 1024 0) (gc_roots (w_gc w)) \<and> tb_mark (w_tables w t) = gc_round (w_gc w) \<and> live w = {(x, 128), (t, 256)}"
proof -
  obtain sp mem x t where sp: "pool_space (demo_raw_world sp mem)" and d: "slab_live sp mem = {(x, 128), (t, 256)}" "region_area (pp_region_cb (sl_page_pool sp)) = region_area demo_rcb"
    using demo_pool_space by blast
  let ?w = "demo_raw_world sp mem"
  obtain w1 where w1: "idle w1 Map.empty (\<lambda>_. [])" "w_run_gc_periodical w1 = p" "live w1 = live ?w" "w_slab w1 = sp" "w_bytes w1 = demo_bytes"
    "\<not> gc_begin (w_gc w1)" "fresh_roots (replicate 1024 0) (gc_roots (w_gc w1))"
    using pool_init_world[OF sp, of demo_env 0 0 4096 "replicate 1024 0" p] by (auto simp: demo_env_def demo_raw_world_def)
  have t: "(t, 256) \<in> live w1" using d(1) w1(3) by (simp add: demo_raw_world_def)
  note i = idleD[OF w1(1)]
  obtain w2 where w2: "world_ok w2 [t \<mapsto> E] (\<lambda>_. [])" "contents w2 [t \<mapsto> E] = (contents w1 Map.empty)(t := Map.empty)" "frame_rest w1 w2"
    "w_bytes w2 = demo_bytes" "tb_mark (w_tables w2 t) = gc_round (w_gc w1)" "live w2 = live w1"
    using table_init_ok[OF i(1) t, of demo_env] w1(5) by (auto simp: objs_def elems_of_def demo_env_def)
  have "idle w2 [t \<mapsto> E] (\<lambda>_. [])" using w2(1,3) i(2) by (simp add: idle_def frame_rest_def)
  moreover have "live w2 = {(x, 128), (t, 256)}" using w2(6) w1(3) d(1) by (simp add: demo_raw_world_def)
  ultimately show ?thesis using w2(3-5) w1(2,4,6,7) d(2) by (intro exI[of _ w2] exI[of _ x] exI[of _ t]) (simp add: frame_rest_def)
qed

lemma demo_put:
  assumes "w_bytes w = demo_bytes" "w_area w = region_area demo_rcb"
  shows "put_ok demo_env w T demo_key demo_value" "env_ok demo_env w"
proof -
  show "env_ok demo_env w" using assms(2) by (simp add: env_ok_def demo_env_def region_area_def demo_rcb_def)
  then show "put_ok demo_env w T demo_key demo_value" using assms
    by (auto simp: put_ok_def str_safe_def str_key_def str_fits_def str_width_def str_range_def elem_size_def ref_of_def value_view_def
      demo_key_def demo_value_def types_defs sizeof_element_def region_area_def demo_rcb_def st_align_def)
qed

end
