(* ===== verification/Table_Walk.thy ===== *)
theory Table_Walk
  imports Table_Life
begin

text \<open>
  Walks over a table: iteration in the order of the keys, and the recursive removal of all elements.
\<close>

section \<open>Iteration\<close>

text \<open>The iterator before the element number \<open>i\<close>.\<close>

definition iter_at :: "world \<Rightarrow> addr \<Rightarrow> rbt \<Rightarrow> nat \<Rightarrow> st_table_iter" where
  "iter_at w t tr i = \<lparr>it_element = (if i < length (inorder tr) then inorder tr ! i else NULL),
     it_table_version = tb_version (w_tables w t)\<rparr>"

lemma iter_start:
  assumes "world_ok w T Q" "T t = Some tr"
  shows "st_table_iter_init env w t it None side = Some (ST_OK, iter_at w t tr 0)"
proof -
  have a: "t \<noteq> NULL" "tb_inited (w_tables w t)" using table_args[OF assms(1)] assms(2) by blast+
  then show ?thesis using enumerate_ok[OF table_okD(3)[OF assms]]
    by (simp add: st_table_iter_init_def iter_at_def)
qed

lemma iter_step:
  assumes "world_ok w T Q" "T t = Some tr"
  shows "st_table_iter_next w t (iter_at w t tr i) =
    (if i < length (inorder tr)
     then let e = w_elems w (inorder tr ! i) in Some (ST_OK, Some (te_key e, te_value e), iter_at w t tr (Suc i))
     else Some (ST_ITER_FINISH, None, iter_at w t tr i))"
proof -
  have a: "t \<noteq> NULL" "tb_inited (w_tables w t)" using table_args[OF assms(1)] assms(2) by blast+
  show ?thesis
  proof (cases "i < length (inorder tr)")
    case True
    have "inorder tr ! i \<in> objs T" using table_okD(9)[OF assms] True by auto
    then have "inorder tr ! i \<noteq> NULL" using objs_live[OF assms(1)] live_nonnull[OF world_okD(1)[OF assms(1)]] by fastforce
    then show ?thesis using a True enumerate_ok[OF table_okD(3)[OF assms]]
      by (simp add: st_table_iter_next_def iter_at_def Let_def)
  qed (use a in \<open>simp add: st_table_iter_next_def iter_at_def\<close>)
qed

text \<open>Any change of the table ends the iteration.\<close>

lemma iter_modified:
  assumes "t \<noteq> NULL" "tb_inited (w_tables w' t)" "tb_version (w_tables w' t) \<noteq> tb_version (w_tables w t)"
  shows "st_table_iter_next w' t (iter_at w t tr i) = Some (ST_TABLE_MODIFIED, None, iter_at w t tr i)"
  using assms by (auto simp: st_table_iter_next_def iter_at_def)

section \<open>Removal of all elements\<close>

text \<open>The table without its elements, whose lock is free.\<close>

definition cleared :: "addr \<Rightarrow> world \<Rightarrow> world" where
  "cleared t = upd_table t (\<lambda>tb. tb\<lparr>tb_elements := (tb_elements tb)\<lparr>rt_root := rt_sentinel (tb_elements tb)\<rparr>,
     tb_element_cnt := 0, tb_lock := mutex_new\<rparr>)"

lemma cleared_simps [simp]:
  "w_mem (cleared t w) = w_mem w" "w_bytes (cleared t w) = w_bytes w" "w_elems (cleared t w) = w_elems w" "w_gc (cleared t w) = w_gc w"
  "w_slab (cleared t w) = w_slab w" "w_at (cleared t w) = w_at w" "w_run_gc_periodical (cleared t w) = w_run_gc_periodical w"
  "w_table_cnt (cleared t w) = w_table_cnt w"
  by (simp_all add: cleared_def)

lemma cleared_views [simp]:
  "elem_ok (cleared t w) = elem_ok w" "kview (cleared t w) = kview w" "vview (cleared t w) = vview w" "entries (cleared t w) = entries w"
  by (simp_all add: elem_ok_def elem_at_def kview_def vview_def entries_def fun_eq_iff)

lemma cleared_list: "cleared t (set_list ln w) = set_list ln (cleared t w)"
  by (simp add: cleared_def set_list_def upd_table_def)

lemma cleared_ok:
  assumes "world_ok w T Q" "T t = Some tr" "w' = upd_table t (tb_lock_update (\<lambda>_. l)) w"
  shows "world_ok (cleared t w') (T(t \<mapsto> E)) Q" "contents (cleared t w') (T(t \<mapsto> E)) = (contents w T)(t := Map.empty)"
proof -
  note tok = table_okD[OF assms(1,2)]
  let ?tb = "(w_tables w t)\<lparr>tb_elements := (tb_elements (w_tables w t))\<lparr>rt_root := rt_sentinel (tb_elements (w_tables w t))\<rparr>,
     tb_element_cnt := 0, tb_lock := mutex_new\<rparr>"
  have eq: "cleared t w' = upd_table t (\<lambda>_. ?tb) (set_rb (w_rb w) w)"
    using assms(3) by (simp add: cleared_def upd_table_def set_rb_def)
  have e: "rb_tree (tb_elements ?tb) (w_rb w) E" using tok(3) by (auto simp: rb_tree_def tree_at_def rb_inv_def)
  have s: "rt_sentinel (tb_elements ?tb) = table_sentinel t" using tok(2) by simp
  have u: "world_ok (cleared t w') (T(t \<mapsto> E)) Q" "entries (cleared t w') = entries w"
    "\<And>t'. t' \<noteq> t \<Longrightarrow> contents (cleared t w') (T(t \<mapsto> E)) t' = contents w T t'"
    unfolding eq by (intro world_tree_update[OF assms(1,2) e s]; use tok(6,7) in simp)+
  show "world_ok (cleared t w') (T(t \<mapsto> E)) Q" by (rule u(1))
  show "contents (cleared t w') (T(t \<mapsto> E)) = (contents w T)(t := Map.empty)"
    using u(3) by (auto simp: fun_eq_iff contents_def entries_def)
qed

lemma sweep_cleared:
  "st_gc_push_to_sweep (cleared t w) a = map_option (\<lambda>(r, w). (r, cleared t w)) (st_gc_push_to_sweep w a)"
  by (auto simp: st_gc_push_to_sweep_def cleared_list split: bind_splits)

lemma sweep_list: "st_gc_push_to_sweep w a = Some (r, w') \<Longrightarrow> \<exists>ln. w' = set_list ln w"
  by (auto simp: st_gc_push_to_sweep_def split: bind_splits if_splits intro: exI[of _ "w_list w"])

lemma push_list:
  assumes "push_value st_gc_push_to_sweep s w = Some w'"
  shows "\<exists>ln. w' = set_list ln w"
proof (cases "st_types_is_table (str_type s)")
  case True
  then show ?thesis using assms sweep_list[of w "st_table_get_table_addr_from_value (w_bytes w) s"]
    by (auto simp: push_value_def split: bind_splits if_splits)
next
  case False
  then show ?thesis using assms by (intro exI[of _ "w_list w"]) (simp add: push_value_def)
qed

lemma free_cleared:
  "st_table_free_element env (cleared t w) e = map_option (\<lambda>(r, w). (r, cleared t w)) (st_table_free_element env w e)"
  by (auto simp: st_table_free_element_def cleared_def upd_table_def split: bind_splits)

lemma push_cleared: "push_value st_gc_push_to_sweep s (cleared t w) = map_option (cleared t) (push_value st_gc_push_to_sweep s w)"
  by (auto simp: push_value_def sweep_cleared split: bind_splits option.splits)

text \<open>What holds while the elements \<open>es\<close> of the table \<open>t\<close> are still to be released; their references matter only
  if the tables behind them are to be told to the collector.\<close>

definition walk_inv :: "env \<Rightarrow> bool \<Rightarrow> addr \<Rightarrow> tables \<Rightarrow> world \<Rightarrow> queues \<Rightarrow> addr set \<Rightarrow> bool" where
  "walk_inv env push t T w Q es \<longleftrightarrow> world_ok (cleared t w) (T(t \<mapsto> E)) Q \<and> t \<in> dom T \<and> env_ok env w \<and>
     (\<forall>e \<in> es. elem_ok w e \<and> e \<notin> objs (T(t \<mapsto> E)) \<and> (\<forall>a. push \<longrightarrow> ref_of (vview w e) = Some a \<longrightarrow> a \<in> dom T))"

text \<open>What the release of the elements in \<open>X\<close> leaves alone.\<close>

definition walk_rest :: "addr \<Rightarrow> addr set \<Rightarrow> world \<Rightarrow> world \<Rightarrow> bool" where
  "walk_rest t X w w' \<longleftrightarrow> section_rest w w' \<and> w_elems w' = w_elems w \<and> w_bytes w' = w_bytes w \<and>
     (\<exists>v. w_tables w' = (w_tables w)(t := (w_tables w t)\<lparr>tb_version := v\<rparr>) \<and> tb_version (w_tables w t) + (if X = {} then 0 else 1) \<le> v) \<and>
     live w' = {p \<in> live w. fst p \<notin> X} \<and>
     (\<forall>a n. (a, n) \<in> live w \<longrightarrow> 0 < n \<longrightarrow> a \<notin> X \<longrightarrow> w_rb w' a = w_rb w a)"

lemma section_rest_trans: "section_rest w w' \<Longrightarrow> section_rest w' w'' \<Longrightarrow> section_rest w w''"
  using versions_up_trans[of w w' w''] by (simp add: section_rest_def frame_rest_def same_marks_def outside_same_def)

lemma walk_rest_trans:
  assumes "walk_rest t X w w'" "walk_rest t Y w' w''"
  shows "walk_rest t (X \<union> Y) w w''"
proof -
  obtain v where v: "w_tables w' = (w_tables w)(t := (w_tables w t)\<lparr>tb_version := v\<rparr>)" "tb_version (w_tables w t) + (if X = {} then 0 else 1) \<le> v"
    using assms(1) unfolding walk_rest_def by blast
  obtain u where u: "w_tables w'' = (w_tables w')(t := (w_tables w' t)\<lparr>tb_version := u\<rparr>)" "tb_version (w_tables w' t) + (if Y = {} then 0 else 1) \<le> u"
    using assms(2) unfolding walk_rest_def by blast
  have "w_tables w'' = (w_tables w)(t := (w_tables w t)\<lparr>tb_version := u\<rparr>)" "tb_version (w_tables w t) + (if X \<union> Y = {} then 0 else 1) \<le> u"
    using u v by (auto split: if_splits)
  moreover have "section_rest w w''" using assms section_rest_trans unfolding walk_rest_def by blast
  moreover have "live w'' = {p \<in> live w. fst p \<notin> X \<union> Y}" using assms unfolding walk_rest_def by auto
  moreover have "w_rb w'' a = w_rb w a" if "(a, n) \<in> live w" "0 < n" "a \<notin> X \<union> Y" for a n
  proof -
    have "(a, n) \<in> live w'" using assms(1) that unfolding walk_rest_def by simp
    then show ?thesis using assms that unfolding walk_rest_def by (metis UnI1 UnI2)
  qed
  moreover have "w_elems w'' = w_elems w" "w_bytes w'' = w_bytes w" using assms unfolding walk_rest_def by simp_all
  ultimately show ?thesis unfolding walk_rest_def by blast
qed

lemma walk_rest_elem:
  assumes "walk_rest t X w w'" "elem_ok w e" "e \<notin> X"
  shows "elem_ok w' e" "vview w' e = vview w e" "w_rb w' e = w_rb w e"
  using assms by (auto simp: walk_rest_def elem_ok_def elem_at_def vview_def)

text \<open>Marks, versions and the counters of the collector do not matter for the invariant.\<close>

definition same_core :: "world \<Rightarrow> world \<Rightarrow> bool" where
  "same_core w w' \<longleftrightarrow> w_slab w' = w_slab w \<and> w_mem w' = w_mem w \<and> w_bytes w' = w_bytes w \<and> w_elems w' = w_elems w \<and> w_at w' = w_at w \<and>
     gc_queues (w_gc w') = gc_queues (w_gc w) \<and>
     (\<forall>t. (w_tables w' t)\<lparr>tb_mark := 0, tb_version := 0\<rparr> = (w_tables w t)\<lparr>tb_mark := 0, tb_version := 0\<rparr>)"

lemma same_core:
  assumes "same_core w w'"
  shows "entries w' = entries w" "elem_ok w' = elem_ok w" "world_ok w' T Q = world_ok w T Q" "contents w' T = contents w T"
proof -
  have k: "kview w' = kview w" "vview w' = vview w" using assms by (auto simp: same_core_def kview_def vview_def)
  show n: "entries w' = entries w" by (simp add: entries_def k fun_eq_iff)
  show "contents w' T = contents w T" unfolding contents_def n ..
  show e: "elem_ok w' = elem_ok w" using assms by (auto simp: same_core_def elem_ok_def elem_at_def)
  have "table_ok w' t tr = table_ok w t tr" for t tr
  proof -
    have "(w_tables w' t)\<lparr>tb_mark := 0, tb_version := 0\<rparr> = (w_tables w t)\<lparr>tb_mark := 0, tb_version := 0\<rparr>" using assms by (simp add: same_core_def)
    then have "tb_inited (w_tables w' t) = tb_inited (w_tables w t)" "tb_lock (w_tables w' t) = tb_lock (w_tables w t)"
      "tb_pool (w_tables w' t) = tb_pool (w_tables w t)" "tb_elements (w_tables w' t) = tb_elements (w_tables w t)"
      "tb_element_cnt (w_tables w' t) = tb_element_cnt (w_tables w t)" by (cases "w_tables w' t"; cases "w_tables w t"; simp)+
    then show ?thesis using assms unfolding table_ok_def k e by (simp add: same_core_def)
  qed
  moreover have "queues_ok w' D Q = queues_ok w D Q" for D using assms by (simp add: queues_ok_def same_core_def qhead_def)
  ultimately show "world_ok w' T Q = world_ok w T Q" using assms by (simp add: world_ok_def same_core_def)
qed

lemma version_core: "same_core w (upd_table t (tb_version_update f) w)"
  by (simp add: same_core_def upd_table_def)

lemma remove_one_ok:
  assumes "walk_inv env push t T w Q (insert e es)" "e \<notin> es"
  shows "\<exists>w'. remove_one env t push e w = Some (ST_OK, w') \<and>
    walk_inv env push t T w' (if push then sweep_ref Q (ref_of (vview w e)) else Q) es \<and> walk_rest t {e} w w' \<and>
    contents (cleared t w') (T(t \<mapsto> E)) = contents (cleared t w) (T(t \<mapsto> E))"
proof -
  let ?T = "T(t \<mapsto> E)" and ?s = "te_value (w_elems w e)"
  have i: "world_ok (cleared t w) ?T Q" "t \<in> dom T" "env_ok env w" "elem_ok w e" "e \<notin> objs ?T"
    "\<And>a. push \<Longrightarrow> ref_of (vview w e) = Some a \<Longrightarrow> a \<in> dom ?T" using assms(1) by (auto simp: walk_inv_def)
  have fits: "str_fits ?s" using i(4) by (auto simp: elem_ok_def elem_at_def)
  let ?Q = "if push then sweep_ref Q (ref_of (vview w e)) else Q"
  have "\<exists>ln. (if push then push_value st_gc_push_to_sweep ?s w else Some w) = Some (set_list ln w) \<and>
    world_ok (cleared t (set_list ln w)) ?T ?Q \<and> live (set_list ln w) = live w"
  proof (cases push)
    case False
    then show ?thesis using i(1) by (intro exI[of _ "w_list w"]) simp
  next
    case True
    obtain ln where p: "push_value st_gc_push_to_sweep ?s (cleared t w) = Some (set_list ln (cleared t w))"
      "world_ok (set_list ln (cleared t w)) ?T ?Q" "live (set_list ln (cleared t w)) = live (cleared t w)"
      using push_value_ok[OF i(1) fits, of st_gc_push_to_sweep "sweep_ref Q"] i(6) True by (auto simp: vview_def)
    obtain w1 where w1: "push_value st_gc_push_to_sweep ?s w = Some w1" "cleared t w1 = set_list ln (cleared t w)"
      using p(1) unfolding push_cleared by auto
    obtain ln1 where "w1 = set_list ln1 w" using push_list[OF w1(1)] by blast
    moreover have "w_list w1 = ln" using arg_cong[OF w1(2), of w_list] by simp
    ultimately have "w1 = set_list ln w" by simp
    moreover have "live (set_list ln w) = live w" using p(3) by (simp add: set_list_def)
    ultimately show ?thesis using True w1(1) p(2) by (intro exI[of _ ln]) (simp add: cleared_list)
  qed
  then obtain ln where p: "(if push then push_value st_gc_push_to_sweep ?s w else Some w) = Some (set_list ln w)"
    "world_ok (cleared t (set_list ln w)) ?T ?Q" "live (set_list ln w) = live w" by blast
  let ?v = "upd_table t (\<lambda>tb. tb\<lparr>tb_version := tb_version tb + 1\<rparr>)"
  let ?w2 = "?v (set_list ln w)"
  have c: "cleared t ?w2 = upd_table t (tb_version_update (\<lambda>_. tb_version (w_tables w t) + 1)) (cleared t (set_list ln w))"
    by (cases "w_tables w t") (simp add: cleared_def upd_table_def)
  note core = same_core[OF version_core[of "cleared t (set_list ln w)" t "\<lambda>_. tb_version (w_tables w t) + 1"], folded c]
  have ok2: "world_ok (cleared t ?w2) ?T ?Q" using p(2) core(3) by simp
  have e2: "entries (cleared t ?w2) = entries (cleared t w)" unfolding core(1) by (simp add: cleared_list entries_def kview_def vview_def fun_eq_iff)
  have "env_ok env (cleared t ?w2)" "elem_ok (cleared t ?w2) e" using i(3,4) p(3)
    elem_same_fields[of "cleared t ?w2" w e] by (simp_all add: env_ok_def)
  then obtain w3 where f: "st_table_free_element env (cleared t ?w2) e = Some (ST_OK, w3)" "world_ok w3 ?T ?Q" "contents w3 ?T = contents (cleared t ?w2) ?T"
    "same_rest (cleared t ?w2) w3" "live w3 = without e (live (cleared t ?w2))" "w_elems w3 = w_elems (cleared t ?w2)"
    "w_bytes w3 = w_bytes (cleared t ?w2)" "\<forall>a n. \<forall>x \<in> {a ..< a + n}. (a, n) \<in> live (cleared t ?w2) \<longrightarrow> w_rb w3 x = w_rb (cleared t ?w2) x"
    using free_element_ok[OF ok2 _ _ i(5), of env] by blast
  obtain w' where w': "st_table_free_element env ?w2 e = Some (ST_OK, w')" "cleared t w' = w3" using f(1) unfolding free_cleared by auto
  have tb: "w_tables w' = w_tables ?w2" using w'(1) by (auto simp: st_table_free_element_def split: bind_splits)
  have rem: "remove_one env t push e w = Some (ST_OK, w')" using p(1) w'(1)
    by (auto simp: remove_one_def push_value_def split: bind_splits if_splits)
  have rest: "walk_rest t {e} w w'"
  proof -
    have "live w' = live w3" "w_rb w' = w_rb w3" "section_rest w w'" "w_elems w' = w_elems w" "w_bytes w' = w_bytes w"
      using f(4,6,7) w'(2)[symmetric] tb by (simp_all add: same_rest_def rest_defs upd_table_def)
    moreover have "w_tables w' = (w_tables w)(t := (w_tables w t)\<lparr>tb_version := tb_version (w_tables w t) + 1\<rparr>)"
      unfolding tb by (simp add: upd_table_def)
    ultimately show ?thesis unfolding walk_rest_def using f(5,8) p(3) by (auto simp: without_def)
  qed
  have "walk_inv env push t T w' ?Q es"
    unfolding walk_inv_def w'(2)
  proof (intro conjI ballI)
    show "env_ok env w'" by (rule env_ok_area[OF i(3)]) (use rest in \<open>simp add: walk_rest_def rest_defs\<close>)
    fix x assume x: "x \<in> es"
    have "x \<noteq> e" "elem_ok w x" using x assms by (auto simp: walk_inv_def)
    then show "elem_ok w' x" "\<forall>a. push \<longrightarrow> ref_of (vview w' x) = Some a \<longrightarrow> a \<in> dom T" "x \<notin> objs ?T"
      using walk_rest_elem[OF rest, of x] x assms(1) by (auto simp: walk_inv_def)
  qed (use f(2) i(2) in auto)
  moreover have "contents (cleared t w') ?T = contents (cleared t w) ?T" unfolding w'(2) f(3) unfolding contents_def e2 ..
  ultimately show ?thesis using rem rest by (intro exI[of _ w']) simp
qed

lemma walk_inv_mono: "walk_inv env push t T w Q es \<Longrightarrow> es' \<subseteq> es \<Longrightarrow> walk_inv env push t T w Q es'"
  by (auto simp: walk_inv_def)

lemma rep_frame: "rep m s p tr \<Longrightarrow> (\<And>x. x \<in> set (inorder tr) \<Longrightarrow> m' x = m x) \<Longrightarrow> rep m' s p tr"
  by (induction tr arbitrary: p) auto

text \<open>The order of the releases, and the tables that the collector is told about.\<close>

primrec postorder :: "rbt \<Rightarrow> addr list" where
  "postorder E = []"
| "postorder (N l a c r) = postorder l @ postorder r @ [a]"

lemma set_postorder [simp]: "set (postorder tr) = set (inorder tr)"
  by (induction tr) auto

definition walk_refs :: "bool \<Rightarrow> world \<Rightarrow> rbt \<Rightarrow> addr option list" where
  "walk_refs push w tr = (if push then map (\<lambda>e. ref_of (vview w e)) (postorder tr) else [])"

lemma walk_refs_same: "walk_rest t X w w' \<Longrightarrow> walk_refs push w' tr = walk_refs push w tr"
  by (simp add: walk_refs_def walk_rest_def vview_def)

text \<open>The elements outside of the subtree stay to be released.\<close>

lemma remove_all_elements_ok:
  assumes "walk_inv env push t T w Q (set (inorder tr) \<union> R)" "rep (w_rb w) (table_sentinel t) p tr" "distinct (inorder tr)"
    "R \<inter> set (inorder tr) = {}" "rt_sentinel (tb_elements (w_tables w t)) = table_sentinel t"
    "NULL \<notin> set (inorder tr)" "table_sentinel t \<notin> set (inorder tr)"
  shows "\<exists>w'. st_table_remove_all_elements env t push (root_of (table_sentinel t) tr) w = Some (ST_OK, w') \<and>
    walk_inv env push t T w' (foldl sweep_ref Q (walk_refs push w tr)) R \<and> walk_rest t (set (inorder tr)) w w' \<and>
    contents (cleared t w') (T(t \<mapsto> E)) = contents (cleared t w) (T(t \<mapsto> E))"
  using assms
proof (induction tr arbitrary: w Q R p)
  case E
  have "walk_rest t {} w w" unfolding walk_rest_def rest_defs
    by (intro conjI exI[of _ "tb_version (w_tables w t)"]) simp_all
  then show ?case using E by (intro exI[of _ w]) (cases push; simp add: st_table_remove_all_elements.simps walk_refs_def)
next
  case (N l a c r)
  let ?s = "table_sentinel t"
  have inv: "walk_inv env push t T w Q (set (inorder l) \<union> (insert a (set (inorder r)) \<union> R))"
    by (rule walk_inv_mono[OF N.prems(1)]) auto
  have pl: "rep (w_rb w) ?s a l" "distinct (inorder l)" "(insert a (set (inorder r)) \<union> R) \<inter> set (inorder l) = {}"
    "NULL \<notin> set (inorder l)" "?s \<notin> set (inorder l)" using N.prems(2-4,6,7) by auto
  have pr: "distinct (inorder r)" "insert a R \<inter> set (inorder r) = {}" "NULL \<notin> set (inorder r)" "?s \<notin> set (inorder r)"
    using N.prems(3,4,6,7) by auto
  let ?Q1 = "foldl sweep_ref Q (walk_refs push w l)"
  let ?Q2 = "foldl sweep_ref ?Q1 (walk_refs push w r)"
  obtain w1 where l: "st_table_remove_all_elements env t push (root_of ?s l) w = Some (ST_OK, w1)"
    "walk_inv env push t T w1 ?Q1 (insert a (set (inorder r)) \<union> R)" "walk_rest t (set (inorder l)) w w1"
    "contents (cleared t w1) (T(t \<mapsto> E)) = contents (cleared t w) (T(t \<mapsto> E))"
    using N.IH(1)[OF inv pl(1-3) N.prems(5) pl(4,5)] by blast
  have ok: "elem_ok w x" if "x \<in> insert a (set (inorder r))" for x using N.prems(1) that by (auto simp: walk_inv_def)
  have rb1: "w_rb w1 x = w_rb w x" if "x \<in> insert a (set (inorder r))" for x
    using walk_rest_elem(3)[OF l(3) ok[OF that]] N.prems(3) that by auto
  have tb1: "rt_sentinel (tb_elements (w_tables w1 t)) = ?s" using l(3) N.prems(5) by (auto simp: walk_rest_def)
  have inv1: "walk_inv env push t T w1 ?Q1 (set (inorder r) \<union> (insert a R))" by (rule walk_inv_mono[OF l(2)]) auto
  have rep1: "rep (w_rb w1) ?s a r" by (rule rep_frame[of "w_rb w"]) (use N.prems(2) rb1 in auto)
  obtain w2 where r: "st_table_remove_all_elements env t push (root_of ?s r) w1 = Some (ST_OK, w2)"
    "walk_inv env push t T w2 ?Q2 (insert a R)" "walk_rest t (set (inorder r)) w1 w2"
    "contents (cleared t w2) (T(t \<mapsto> E)) = contents (cleared t w1) (T(t \<mapsto> E))"
    using N.IH(2)[OF inv1 rep1 pr(1,2) tb1 pr(3,4)] unfolding walk_refs_same[OF l(3)] by blast
  have "a \<notin> R" using N.prems(4) by auto
  then obtain w3 where o: "remove_one env t push a w2 = Some (ST_OK, w3)"
    "walk_inv env push t T w3 (if push then sweep_ref ?Q2 (ref_of (vview w2 a)) else ?Q2) R" "walk_rest t {a} w2 w3"
    "contents (cleared t w3) (T(t \<mapsto> E)) = contents (cleared t w2) (T(t \<mapsto> E))" using remove_one_ok[OF r(2)] by blast
  have a: "a \<noteq> NULL" "a \<noteq> ?s" using N.prems(6,7) by (simp, metis in_set_conv_decomp inorder.simps(2))
  have gl: "get_left (w_rb w) a = Some (root_of ?s l)" "get_right (w_rb w1) a = Some (root_of ?s r)"
    using N.prems(2) a(1) rb1[of a] by (simp_all add: rb_reads)
  have "st_table_remove_all_elements env t push (root_of ?s (N l a c r)) w = Some (ST_OK, w3)"
    using a gl l(1) r(1) o(1) N.prems(5) by (subst st_table_remove_all_elements.simps) simp
  moreover have "walk_rest t (set (inorder (N l a c r))) w w3"
    using walk_rest_trans[OF walk_rest_trans[OF l(3) r(3)] o(3)] by (simp add: Un_commute insert_commute)
  moreover have "contents (cleared t w3) (T(t \<mapsto> E)) = contents (cleared t w) (T(t \<mapsto> E))" by (simp only: o(4) r(4) l(4))
  moreover have "vview w2 a = vview w a" using l(3) r(3) by (simp add: walk_rest_def vview_def)
  then have "(if push then sweep_ref ?Q2 (ref_of (vview w2 a)) else ?Q2) = foldl sweep_ref Q (walk_refs push w (N l a c r))"
    by (simp add: walk_refs_def)
  ultimately show ?case using o(2) by (intro exI[of _ w3]) (simp only: simp_thms)
qed

text \<open>The section under the lock of the table.\<close>

lemma remove_all_body_ok:
  assumes "world_ok w T Q" "push \<Longrightarrow> closed_at (contents w T) (dom T) t" "T t = Some tr" "env_ok env w"
  defines "w1 \<equiv> upd_table t (tb_lock_update (\<lambda>_. held env)) w"
  shows "\<exists>w'. remove_all_body env t push w1 = Some (ST_OK, w') \<and> tb_lock (w_tables w' t) = held env \<and>
    world_ok (upd_table t (tb_lock_update (\<lambda>_. mutex_new)) w') (T(t \<mapsto> E)) (foldl sweep_ref Q (walk_refs push w tr)) \<and> section_rest w w' \<and>
    contents (upd_table t (tb_lock_update (\<lambda>_. mutex_new)) w') (T(t \<mapsto> E)) = (contents w T)(t := Map.empty) \<and>
    (inorder tr \<noteq> [] \<longrightarrow> tb_version (w_tables w t) < tb_version (w_tables w' t)) \<and> spare w' (T(t \<mapsto> E)) = spare w T"
proof -
  note tok = table_okD[OF assms(1,3)] and c = cleared_ok[OF assms(1,3) w1_def[THEN meta_eq_to_obj_eq]]
  let ?s = "table_sentinel t"
  obtain p where rb: "rep (w_rb w) ?s p tr" "distinct (inorder tr)" "NULL \<notin> set (inorder tr)" "?s \<notin> set (inorder tr)"
    "rt_root (tb_elements (w_tables w t)) = root_of ?s tr"
    using tok(2,3) unfolding rb_tree_def tree_at_def by metis
  have "walk_inv env push t T w1 Q (set (inorder tr) \<union> {})" unfolding walk_inv_def
  proof (intro conjI ballI c(1))
    fix e assume e: "e \<in> set (inorder tr) \<union> {}"
    then have e: "e \<in> set (inorder tr)" by simp
    then show "elem_ok w1 e" using tok(8)[of e] elem_same_fields[of w1 w e] by (simp add: w1_def)
    show "e \<notin> objs (T(t \<mapsto> E))" by (rule removed_loose[OF assms(1,3) e]) simp
    show "\<forall>a. push \<longrightarrow> ref_of (vview w1 e) = Some a \<longrightarrow> a \<in> dom T"
      using elem_value(2)[OF assms(1,3) e assms(2)] by (simp add: w1_def vview_def)
  qed (use assms(3,4) in \<open>auto simp: w1_def env_ok_def\<close>)
  moreover have "rep (w_rb w1) ?s p tr" "rt_sentinel (tb_elements (w_tables w1 t)) = ?s" "{} \<inter> set (inorder tr) = {}"
    using rb(1) tok(2) by (simp_all add: w1_def)
  moreover have q: "walk_refs push w1 tr = walk_refs push w tr" by (simp add: walk_refs_def w1_def vview_def)
  ultimately obtain w2 where
    r: "st_table_remove_all_elements env t push (root_of ?s tr) w1 = Some (ST_OK, w2)" "walk_inv env push t T w2 (foldl sweep_ref Q (walk_refs push w tr)) {}"
    "walk_rest t (set (inorder tr)) w1 w2" "contents (cleared t w2) (T(t \<mapsto> E)) = contents (cleared t w1) (T(t \<mapsto> E))"
    using remove_all_elements_ok[of env push t T w1 Q tr "{}" p] rb(2-4) unfolding q by blast
  let ?w' = "upd_table t (\<lambda>tb. tb\<lparr>tb_elements := (tb_elements tb)\<lparr>rt_root := rt_sentinel (tb_elements tb)\<rparr>, tb_element_cnt := 0\<rparr>) w2"
  have "rt_root (tb_elements (w_tables w1 t)) = root_of ?s tr" using rb(5) by (simp add: w1_def)
  then have "remove_all_body env t push w1 = Some (ST_OK, ?w')" using r(1) by (simp add: remove_all_body_def)
  moreover have "upd_table t (tb_lock_update (\<lambda>_. mutex_new)) ?w' = cleared t w2" by (simp add: cleared_def upd_table_def)
  moreover have "tb_lock (w_tables ?w' t) = held env" using r(3) by (auto simp: walk_rest_def w1_def)
  moreover have "section_rest w ?w'"
  proof -
    have "section_rest w w1" "section_rest w2 ?w'" by (simp_all add: rest_defs w1_def upd_table_def)
    moreover have "section_rest w1 w2" using r(3) by (simp add: walk_rest_def)
    ultimately show ?thesis using section_rest_trans by blast
  qed
  moreover have "inorder tr \<noteq> [] \<longrightarrow> tb_version (w_tables w t) < tb_version (w_tables ?w' t)"
    using r(3) by (auto simp: walk_rest_def w1_def)
  moreover have "spare ?w' (T(t \<mapsto> E)) = spare w T"
  proof -
    have "live ?w' = {p \<in> live w. fst p \<notin> set (inorder tr)}" using r(3) by (simp add: walk_rest_def w1_def)
    then show ?thesis using objs_upd[OF world_okD(3)[OF assms(1)] assms(3), of E] tok(9) unfolding spare_def by auto
  qed
  moreover have "world_ok (cleared t w2) (T(t \<mapsto> E)) (foldl sweep_ref Q (walk_refs push w tr))" using r(2) by (simp add: walk_inv_def)
  moreover have "contents (cleared t w2) (T(t \<mapsto> E)) = (contents w T)(t := Map.empty)" by (simp only: r(4) c(2))
  ultimately show ?thesis by (intro exI[of _ ?w']) (simp only: simp_thms)
qed

lemma remove_all_locked:
  assumes "world_ok w T Q" "push \<Longrightarrow> closed_at (contents w T) (dom T) t" "T t = Some tr" "env_ok env w"
  shows "\<exists>w'. with_table_lock env t w (remove_all_body env t push) = Some (ST_OK, w') \<and>
    world_ok w' (T(t \<mapsto> E)) (foldl sweep_ref Q (walk_refs push w tr)) \<and> section_rest w w' \<and>
    contents w' (T(t \<mapsto> E)) = (contents w T)(t := Map.empty) \<and>
    (inorder tr \<noteq> [] \<longrightarrow> tb_version (w_tables w t) < tb_version (w_tables w' t)) \<and> spare w' (T(t \<mapsto> E)) = spare w T"
proof -
  let ?Q = "foldl sweep_ref Q (walk_refs push w tr)"
  obtain w1 where r: "remove_all_body env t push (upd_table t (tb_lock_update (\<lambda>_. held env)) w) = Some (ST_OK, w1)"
    "tb_lock (w_tables w1 t) = held env" "world_ok (upd_table t (tb_lock_update (\<lambda>_. mutex_new)) w1) (T(t \<mapsto> E)) ?Q" "section_rest w w1"
    "contents (upd_table t (tb_lock_update (\<lambda>_. mutex_new)) w1) (T(t \<mapsto> E)) = (contents w T)(t := Map.empty)"
    "inorder tr \<noteq> [] \<longrightarrow> tb_version (w_tables w t) < tb_version (w_tables w1 t)" "spare w1 (T(t \<mapsto> E)) = spare w T"
    using remove_all_body_ok[of w T Q push t tr env] assms by blast
  have "with_table_lock env t w (remove_all_body env t push) = Some (ST_OK, upd_table t (tb_lock_update (\<lambda>_. mutex_new)) w1)"
    by (rule with_table_lock_eq[OF table_okD(1)[OF assms(1,3)], of "remove_all_body env t push", OF r(1,2)])
  moreover have "section_rest w (upd_table t (tb_lock_update (\<lambda>_. mutex_new)) w1)" using r(4) by (simp add: rest_defs upd_table_def)
  moreover have "spare (upd_table t (tb_lock_update (\<lambda>_. mutex_new)) w1) (T(t \<mapsto> E)) = spare w T" unfolding r(7)[symmetric] by (rule spare_same) simp
  ultimately show ?thesis using r(3,5,6) by (intro exI[of _ "upd_table t (tb_lock_update (\<lambda>_. mutex_new)) w1"]) simp
qed

lemma entries_ran:
  assumes "world_ok w T Q" "T t = Some tr"
  shows "vview w ` set (inorder tr) = ran (contents w T t)"
proof -
  have "inj_on (kview w) (set (inorder tr))" by (rule strict_sorted_inj[OF table_okD(5)[OF assms]])
  moreover have "distinct (inorder tr)" using table_okD(3)[OF assms] by (auto simp: rb_tree_def tree_at_def)
  ultimately have "distinct (map fst (entries w tr))" by (simp add: entries_def comp_def distinct_map)
  then have "ran (map_of (entries w tr)) = snd ` set (entries w tr)" by (rule ran_distinct)
  then show ?thesis unfolding contents_at[of T t tr, OF assms(2)] by (simp add: entries_def image_image)
qed

text \<open>The references of the table, each told to the collector.\<close>

definition clear_post :: "world \<Rightarrow> tables \<Rightarrow> queues \<Rightarrow> addr \<Rightarrow> world \<Rightarrow> tables \<Rightarrow> queues \<Rightarrow> bool" where
  "clear_post w T Q t w' T' Q' \<longleftrightarrow> T' = T(t \<mapsto> E) \<and> contents w' T' = (contents w T)(t := Map.empty) \<and>
     (\<exists>rs. set rs = ref_of ` ran (contents w T t) \<and> Q' = foldl sweep_ref Q rs) \<and> spare w' T' = spare w T \<and>
     (contents w T t \<noteq> Map.empty \<longrightarrow> tb_version (w_tables w t) < tb_version (w_tables w' t))"

lemma remove_all_op:
  assumes "idle w T Q" "closed_at (contents w T) (dom T) t" "t \<in> dom T" "env_ok env w"
  shows "\<exists>w' T' Q'. st_table_remove_all gp env w t = then_gc gp env t ST_OK w' \<and> idle w' T' Q' \<and> op_rest w w' \<and> clear_post w T Q t w' T' Q'"
proof -
  note i = idleD[OF assms(1)] and a = table_args[OF idleD(1)[OF assms(1)] assms(3)]
  obtain tr where tr: "T t = Some tr" using assms(3) by blast
  let ?l = "gc_locked (held env) w" and ?Q = "foldl sweep_ref Q (walk_refs True w tr)"
  have q: "walk_refs True ?l tr = walk_refs True w tr" by (simp add: walk_refs_def)
  obtain w1 where r: "with_table_lock env t ?l (remove_all_body env t True) = Some (ST_OK, w1)" "world_ok w1 (T(t \<mapsto> E)) ?Q"
    "section_rest ?l w1" "contents w1 (T(t \<mapsto> E)) = (contents ?l T)(t := Map.empty)"
    "inorder tr \<noteq> [] \<longrightarrow> tb_version (w_tables w t) < tb_version (w_tables w1 t)" "spare w1 (T(t \<mapsto> E)) = spare w T"
    using remove_all_locked[of ?l T Q True t tr env] i(1) assms(2,4) tr unfolding q by auto
  let ?w = "gc_locked mutex_new w1"
  have "with_gc_lock env w (\<lambda>w. with_table_lock env t w (remove_all_body env t True)) = Some (ST_OK, ?w)"
    by (rule with_gc_lock_eq[OF i(2), of "\<lambda>w. with_table_lock env t w (remove_all_body env t True)", OF r(1)])
      (use r(3) in \<open>simp add: rest_defs\<close>)
  moreover have o: "op_rest w ?w" by (rule op_rest_section[OF r(3)])
  ultimately have all: "st_table_remove_all gp env w t = then_gc gp env t ST_OK ?w" using a
    by (simp add: st_table_remove_all_def)
  have "set (walk_refs True w tr) = ref_of ` ran (contents w T t)"
    unfolding entries_ran[OF i(1) tr, symmetric] by (simp add: walk_refs_def image_image)
  moreover have "contents w T t \<noteq> Map.empty \<Longrightarrow> inorder tr \<noteq> []" unfolding contents_at[of T t tr, OF tr] by (auto simp: entries_def)
  ultimately have "clear_post w T Q t ?w (T(t \<mapsto> E)) ?Q" using r(4-6) unfolding clear_post_def gc_locked_ok gc_locked_simps spare_locked by blast
  then show ?thesis using all r(2) o by (intro exI[of _ ?w] exI[of _ "T(t \<mapsto> E)"] exI[of _ ?Q]) simp
qed

end
