(* ===== verification/Gc_Graph.thy ===== *)
theory Gc_Graph
  imports Table_Walk
begin

text \<open>
  The collector seen from above: tables that refer to each other, roots, marks and queues.  The
  invariant says what the marks of a running round mean; every step of a round and every operation
  on a table that a root reaches keeps it.
\<close>

section \<open>Reachability\<close>

definition child :: "contents \<Rightarrow> addr \<Rightarrow> addr \<Rightarrow> bool" where
  "child C t a \<longleftrightarrow> (\<exists>k v. C t k = Some v \<and> ref_of v = Some a)"

inductive_set reach :: "contents \<Rightarrow> addr set \<Rightarrow> addr set" for C R where
  start: "t \<in> R \<Longrightarrow> t \<in> reach C R"
| follow: "t \<in> reach C R \<Longrightarrow> child C t a \<Longrightarrow> a \<in> reach C R"

lemma closed_at_child: "closed_at C D t \<longleftrightarrow> (\<forall>a. child C t a \<longrightarrow> a \<in> D)"
  unfolding closed_at_def child_def by blast

lemma reach_subset:
  assumes "R \<subseteq> S" "\<And>t a. t \<in> S \<Longrightarrow> child C t a \<Longrightarrow> a \<in> S"
  shows "reach C R \<subseteq> S"
proof
  fix t assume "t \<in> reach C R"
  then show "t \<in> S" by induction (use assms in auto)
qed

lemma reach_mono: "R \<subseteq> reach C S \<Longrightarrow> reach C R \<subseteq> reach C S"
  by (rule reach_subset) (auto intro: reach.follow)

lemma reach_ge: "R \<subseteq> reach C R"
  by (auto intro: reach.start)

lemma reach_Un: "reach C (R \<union> S) = reach C R \<union> reach C S"
proof
  show "reach C (R \<union> S) \<subseteq> reach C R \<union> reach C S"
    by (rule reach_subset) (auto intro: reach.start reach.follow)
  show "reach C R \<union> reach C S \<subseteq> reach C (R \<union> S)"
    using reach_mono[of R C "R \<union> S"] reach_mono[of S C "R \<union> S"] reach_ge[of "R \<union> S" C] by blast
qed

text \<open>Fewer references reach fewer tables; one new reference reaches what its target reaches.\<close>

lemma reach_less:
  assumes "\<And>t a. child C' t a \<Longrightarrow> child C t a"
  shows "reach C' R \<subseteq> reach C R"
  by (rule reach_subset) (auto intro: reach.start reach.follow assms)

lemma reach_link:
  assumes "\<And>t a. child C' t a \<Longrightarrow> child C t a \<or> a \<in> A"
  shows "reach C' R \<subseteq> reach C R \<union> reach C A"
  by (rule reach_subset) (use assms in \<open>auto intro: reach.start reach.follow\<close>)

lemma child_put: "child (C(t := (C t)(k \<mapsto> v))) u a \<Longrightarrow> child C u a \<or> u = t \<and> ref_of v = Some a"
  unfolding child_def by (metis fun_upd_apply option.inject)

lemma child_drop: "child (C(t := (C t)(k := None))) u a \<Longrightarrow> child C u a"
  unfolding child_def by (metis fun_upd_apply option.distinct(1))

lemma child_clear: "child (C(t := Map.empty)) u a \<Longrightarrow> child C u a \<and> u \<noteq> t"
  unfolding child_def by (metis fun_upd_apply option.distinct(1))

lemma old_ref_child: "old_ref C t k = Some a \<Longrightarrow> child C t a"
  unfolding old_ref_def child_def bind_eq_Some_conv by blast

section \<open>Marks\<close>

text \<open>A mark is unknown, reachable or garbage in a round.\<close>

definition black :: "addr set \<Rightarrow> (addr \<Rightarrow> int) \<Rightarrow> int \<Rightarrow> addr set" where
  "black D m rd = {t \<in> D. m t = rd + 1}"

definition condemned :: "addr set \<Rightarrow> (addr \<Rightarrow> int) \<Rightarrow> int \<Rightarrow> addr set" where
  "condemned D m rd = {t \<in> D. m t = rd + 2}"

abbreviation queued :: "queues \<Rightarrow> addr set" where
  "queued Q \<equiv> set (Q 0) \<union> set (Q 1) \<union> set (Q 2) \<union> set (Q 4)"

text \<open>
  Whatever the roots and the queues other than the garbage queue reach is a table.  While a round is
  under way, what a reachable mark refers to is marked or in the mark queue, the roots are too, the
  garbage queue holds exactly the tables marked as garbage, and none of them can be reached.
\<close>

definition gc_graph :: "contents \<Rightarrow> addr set \<Rightarrow> addr set \<Rightarrow> (addr \<Rightarrow> int) \<Rightarrow> int \<Rightarrow> bool \<Rightarrow> queues \<Rightarrow> bool" where
  "gc_graph C D R m rd begun Q \<longleftrightarrow> reach C (R \<union> queued Q) \<subseteq> D \<and> (\<forall>t \<in> D. m t \<le> rd \<or> m t = rd + 1 \<or> m t = rd + 2) \<and>
    (if begun then (\<forall>t \<in> black D m rd. \<forall>a. child C t a \<longrightarrow> a \<in> black D m rd \<union> set (Q 0)) \<and>
       R \<subseteq> black D m rd \<union> set (Q 0) \<and> set (Q 3) = condemned D m rd \<and> set (Q 4) \<subseteq> black D m rd \<and>
       reach C (R \<union> set (Q 0) \<union> set (Q 4)) \<inter> condemned D m rd = {}
     else (\<forall>t \<in> D. m t \<le> rd) \<and> Q 3 = [] \<and> Q 4 = [])"

lemma gc_graph_safe:
  assumes "gc_graph C D R m rd True Q" "Q 0 = []"
  shows "reach C (R \<union> set (Q 4)) \<subseteq> black D m rd"
  by (rule reach_subset) (use assms in \<open>auto simp: gc_graph_def\<close>)

lemma gc_graph_closed: "gc_graph C D R m rd b Q \<Longrightarrow> t \<in> reach C (R \<union> queued Q) \<Longrightarrow> closed_at C D t"
  unfolding closed_at_child gc_graph_def using reach.follow by blast

lemma gc_graph_reach:
  assumes "gc_graph C D R m rd b Q"
  shows "reach C R \<subseteq> D" "R \<subseteq> D" "reach C R \<inter> condemned D m rd = {}"
proof -
  have r: "reach C (R \<union> queued Q) \<subseteq> D" using assms by (simp add: gc_graph_def)
  then show "reach C R \<subseteq> D" unfolding reach_Un by blast
  then show "R \<subseteq> D" using reach_ge by blast
  show "reach C R \<inter> condemned D m rd = {}"
  proof (cases b)
    case True
    then have "reach C (R \<union> set (Q 0) \<union> set (Q 4)) \<inter> condemned D m rd = {}" using assms by (simp add: gc_graph_def)
    then show ?thesis unfolding reach_Un by blast
  next
    case False
    then have "\<forall>t \<in> D. m t \<le> rd" using assms by (simp add: gc_graph_def)
    then show ?thesis by (force simp: condemned_def)
  qed
qed

section \<open>Steps of a round\<close>

lemma graph_begin:
  assumes "gc_graph C D R m rd False Q" "R \<subseteq> set (Q' 0)" "set (Q' 0) \<subseteq> set (Q 0) \<union> R" "\<And>k. k \<noteq> 0 \<Longrightarrow> Q' k = Q k"
  shows "gc_graph C D R m rd True Q'"
proof -
  have old: "reach C (R \<union> queued Q) \<subseteq> D" "\<forall>t \<in> D. m t \<le> rd" "Q 3 = []" "Q 4 = []"
    using assms(1) unfolding gc_graph_def if_False by blast+
  have "reach C (R \<union> queued Q') \<subseteq> reach C (R \<union> queued Q)"
    by (rule reach_mono) (use assms(3,4) reach_ge[of "R \<union> queued Q" C] in auto)
  moreover have "black D m rd = {}" "condemned D m rd = {}" using old(2) by (force simp: black_def condemned_def)+
  ultimately show ?thesis using old assms(2,4) by (auto simp: gc_graph_def)
qed

text \<open>A table is taken from the mark queue and marked; its unknown children enter the queue.\<close>

lemma graph_mark:
  assumes "gc_graph C D R m rd True Q" "Q 0 = t # q" "\<And>k. k \<noteq> 0 \<Longrightarrow> Q' k = Q k" "set (Q' 0) \<subseteq> set q \<union> {a. child C t a}" "set q \<subseteq> set (Q' 0)"
    "\<And>a. child C t a \<Longrightarrow> (m(t := rd + 1)) a \<le> rd \<Longrightarrow> a \<in> set (Q' 0)"
  shows "gc_graph C D R (m(t := rd + 1)) rd True Q'"
proof -
  let ?m = "m(t := rd + 1)"
  have old: "reach C (R \<union> queued Q) \<subseteq> D" "\<And>x. x \<in> D \<Longrightarrow> m x \<le> rd \<or> m x = rd + 1 \<or> m x = rd + 2"
    "\<And>x a. x \<in> black D m rd \<Longrightarrow> child C x a \<Longrightarrow> a \<in> black D m rd \<union> set (Q 0)" "R \<subseteq> black D m rd \<union> set (Q 0)"
    "set (Q 3) = condemned D m rd" "set (Q 4) \<subseteq> black D m rd" "reach C (R \<union> set (Q 0) \<union> set (Q 4)) \<inter> condemned D m rd = {}"
    using assms(1) by (simp_all add: gc_graph_def)
  have t: "t \<in> reach C (R \<union> set (Q 0) \<union> set (Q 4))" "t \<in> D"
    using assms(2) old(1) reach_ge[of "R \<union> queued Q" C] by (auto intro: reach.start)
  have ch: "a \<in> reach C (R \<union> set (Q 0) \<union> set (Q 4))" "a \<in> D" if "child C t a" for a
  proof -
    show a: "a \<in> reach C (R \<union> set (Q 0) \<union> set (Q 4))" by (rule reach.follow[OF t(1) that])
    then show "a \<in> D" using old(1) unfolding reach_Un by blast
  qed
  have tn: "t \<notin> condemned D m rd" using t(1) old(7) by blast
  have bl: "black D ?m rd = insert t (black D m rd)" using t(2) by (auto simp: black_def)
  have co: "condemned D ?m rd = condemned D m rd" using tn by (auto simp: condemned_def)
  have "t \<in> reach C (R \<union> queued Q)" using assms(2) by (auto intro: reach.start)
  then have "a \<in> reach C (R \<union> queued Q)" if "child C t a" for a using reach.follow that by blast
  then have "queued Q' \<subseteq> reach C (R \<union> queued Q)" using assms(2-4) reach_ge[of "R \<union> queued Q" C] by auto
  then have "reach C (R \<union> queued Q') \<subseteq> D" using old(1) reach_mono[of "R \<union> queued Q'" C "R \<union> queued Q"] reach_ge[of "R \<union> queued Q" C] by blast
  moreover have "a \<in> black D ?m rd \<union> set (Q' 0)" if x: "x \<in> black D ?m rd" "child C x a" for x a
  proof (cases "x = t")
    case True
    then have a: "child C t a" using x(2) by simp
    show ?thesis using old(2)[OF ch(2)[OF a]] assms(6)[OF a] ch[OF a] old(7) by (auto simp: black_def condemned_def)
  next
    case False
    then have "a \<in> black D m rd \<union> set (Q 0)" using x old(3) unfolding bl by blast
    then show ?thesis using assms(2,5) unfolding bl by auto
  qed
  moreover have "reach C (R \<union> set (Q' 0) \<union> set (Q' 4)) \<subseteq> reach C (R \<union> set (Q 0) \<union> set (Q 4))"
    by (rule reach_mono) (use assms(2-4) ch(1) reach_ge[of "R \<union> set (Q 0) \<union> set (Q 4)" C] in auto)
  ultimately show ?thesis using old assms(2,3,5) unfolding gc_graph_def bl co by auto
qed

text \<open>A candidate that is marked leaves its queue, for the remained queue or for none.\<close>

lemma graph_keep:
  assumes "gc_graph C D R m rd True Q" "Q 0 = []" "x \<in> black D m rd" "x \<in> set (Q 1) \<union> set (Q 2)" "Q' 0 = []" "Q' 3 = Q 3"
    "set (Q' 1) \<subseteq> set (Q 1)" "set (Q' 2) \<subseteq> set (Q 2)" "set (Q' 4) \<subseteq> insert x (set (Q 4))"
  shows "gc_graph C D R m rd True Q'"
proof -
  have old: "reach C (R \<union> queued Q) \<subseteq> D" "R \<union> set (Q 4) \<subseteq> black D m rd"
    "\<And>y a. y \<in> black D m rd \<Longrightarrow> child C y a \<Longrightarrow> a \<in> black D m rd" using assms(1,2) by (auto simp: gc_graph_def)
  have "reach C (R \<union> queued Q') \<subseteq> reach C (R \<union> queued Q)"
    by (rule reach_mono) (use assms(4,5,7-9) reach_ge[of "R \<union> queued Q" C] in auto)
  moreover have "reach C (R \<union> set (Q' 0) \<union> set (Q' 4)) \<subseteq> black D m rd"
    by (rule reach_subset) (use old(2,3) assms(3,5,9) in auto)
  moreover have "black D m rd \<inter> condemned D m rd = {}" by (auto simp: black_def condemned_def)
  ultimately show ?thesis using assms(1-3,5,6,9) unfolding gc_graph_def by auto
qed

text \<open>A candidate that is not marked is garbage; its unknown children become candidates.\<close>

lemma graph_condemn:
  assumes "gc_graph C D R m rd True Q" "Q 0 = []" "x \<notin> black D m rd" "x \<in> set (Q 1) \<union> set (Q 2)" "Q' 0 = []" "Q' 4 = Q 4"
    "set (Q' 3) = insert x (set (Q 3))" "set (Q' 1) \<union> set (Q' 2) \<subseteq> set (Q 1) \<union> set (Q 2) \<union> {a. child C x a}"
  shows "gc_graph C D R (m(x := rd + 2)) rd True Q'"
proof -
  have old: "reach C (R \<union> queued Q) \<subseteq> D" "R \<union> set (Q 4) \<subseteq> black D m rd" "set (Q 3) = condemned D m rd"
    "\<And>y a. y \<in> black D m rd \<Longrightarrow> child C y a \<Longrightarrow> a \<in> black D m rd" "\<And>y. y \<in> D \<Longrightarrow> m y \<le> rd \<or> m y = rd + 1 \<or> m y = rd + 2"
    using assms(1,2) by (auto simp: gc_graph_def)
  have x: "x \<in> reach C (R \<union> queued Q)" using assms(4) by (auto intro: reach.start)
  then have xd: "x \<in> D" using old(1) by blast
  have bl: "black D (m(x := rd + 2)) rd = black D m rd" using assms(3) by (auto simp: black_def)
  have co: "condemned D (m(x := rd + 2)) rd = insert x (condemned D m rd)" using xd by (auto simp: condemned_def)
  have "reach C (R \<union> queued Q') \<subseteq> reach C (R \<union> queued Q)"
  proof (rule reach_mono)
    have "a \<in> reach C (R \<union> queued Q)" if "child C x a" for a by (rule reach.follow[OF x that])
    then show "R \<union> queued Q' \<subseteq> reach C (R \<union> queued Q)" using assms(5,6,8) reach_ge[of "R \<union> queued Q" C] by auto
  qed
  moreover have "reach C (R \<union> set (Q' 0) \<union> set (Q' 4)) \<subseteq> black D m rd"
    by (rule reach_subset) (use old(2,4) assms(5,6) in auto)
  moreover have "black D m rd \<inter> insert x (condemned D m rd) = {}" using assms(3) by (auto simp: black_def condemned_def)
  ultimately show ?thesis using old assms(2,5-7) unfolding gc_graph_def bl co by auto
qed

text \<open>A garbage table is freed when no candidate is left.\<close>

lemma graph_free:
  assumes "gc_graph C D R m rd True Q" "Q 0 = []" "Q 1 = []" "Q 2 = []" "Q 3 = g # q" "g \<notin> set q" "Q' = Q(3 := q)"
  shows "gc_graph (C(g := Map.empty)) (D - {g}) R m rd True Q'" "g \<notin> reach C R"
proof -
  have old: "R \<union> set (Q 4) \<subseteq> black D m rd" "set (Q 3) = condemned D m rd"
    "\<And>y a. y \<in> black D m rd \<Longrightarrow> child C y a \<Longrightarrow> a \<in> black D m rd" "\<And>y. y \<in> D \<Longrightarrow> m y \<le> rd \<or> m y = rd + 1 \<or> m y = rd + 2"
    using assms(1,2) by (auto simp: gc_graph_def)
  have g: "g \<in> condemned D m rd" using old(2) assms(5) by auto
  then have gb: "g \<notin> black D m rd" by (auto simp: black_def condemned_def)
  have safe: "reach C (R \<union> set (Q 4)) \<subseteq> black D m rd" by (rule gc_graph_safe[OF assms(1,2)])
  show "g \<notin> reach C R" using safe gb unfolding reach_Un by blast
  let ?C = "C(g := Map.empty)"
  have less: "reach ?C S \<subseteq> reach C S" for S by (rule reach_less) (use child_clear in blast)
  have bl: "black (D - {g}) m rd = black D m rd" "condemned (D - {g}) m rd = condemned D m rd - {g}" using gb by (auto simp: black_def condemned_def)
  have "black D m rd \<subseteq> D - {g}" using gb by (auto simp: black_def)
  moreover have "reach ?C (R \<union> queued Q') \<subseteq> black D m rd" using less[of "R \<union> set (Q 4)"] safe assms(2-4,7) by auto
  moreover have "reach ?C (R \<union> set (Q' 0) \<union> set (Q' 4)) \<subseteq> black D m rd" using less[of "R \<union> set (Q 4)"] safe assms(2,7) by auto
  moreover have "black D m rd \<inter> condemned D m rd = {}" by (auto simp: black_def condemned_def)
  moreover have "set q = condemned D m rd - {g}" using old(2) assms(5,6) by auto
  ultimately show "gc_graph ?C (D - {g}) R m rd True Q'"
    using old child_clear assms(2,7) unfolding gc_graph_def bl by (auto dest!: child_clear)
qed

text \<open>The end of a round.\<close>

lemma graph_end:
  assumes "gc_graph C D R m rd True Q" "Q 0 = []" "Q 1 = []" "Q 2 = []" "Q 3 = []" "Q' = Q(1 := Q 4, 4 := [])"
  shows "gc_graph C D R m (rd + 4) False Q'"
proof -
  have "reach C (R \<union> queued Q) \<subseteq> D" "\<And>t. t \<in> D \<Longrightarrow> m t \<le> rd \<or> m t = rd + 1 \<or> m t = rd + 2" using assms(1) by (simp_all add: gc_graph_def)
  moreover have "queued Q' = queued Q" using assms(2-4,6) by auto
  moreover have "m t \<le> rd + 4" if "t \<in> D" for t using calculation(2)[OF that] by auto
  ultimately show ?thesis using assms(5,6) unfolding gc_graph_def by auto
qed

section \<open>Operations on tables\<close>

text \<open>A table that a caller may store: the roots reach it, or it is new, without references and not marked.\<close>

definition storable :: "contents \<Rightarrow> addr set \<Rightarrow> addr set \<Rightarrow> (addr \<Rightarrow> int) \<Rightarrow> int \<Rightarrow> addr \<Rightarrow> bool" where
  "storable C D R m rd a \<longleftrightarrow> a \<in> reach C R \<or> a \<in> D \<and> m a \<le> rd \<and> (\<forall>x. \<not> child C a x)"

lemma storable_reach:
  assumes "gc_graph C D R m rd b Q" "storable C D R m rd a"
  shows "reach C {a} \<subseteq> D" "reach C {a} \<inter> condemned D m rd = {}" "a \<in> D"
proof -
  note r = gc_graph_reach[OF assms(1)]
  have "reach C {a} \<subseteq> D \<and> reach C {a} \<inter> condemned D m rd = {}"
  proof (cases "a \<in> reach C R")
    case True
    then show ?thesis using r reach_mono[of "{a}" C R] by blast
  next
    case False
    then have a: "a \<in> D" "m a \<le> rd" "\<And>x. \<not> child C a x" using assms(2) by (auto simp: storable_def)
    have "reach C {a} \<subseteq> {a}" by (rule reach_subset) (use a(3) in auto)
    then show ?thesis using a(1,2) by (auto simp: condemned_def)
  qed
  then show "reach C {a} \<subseteq> D" "reach C {a} \<inter> condemned D m rd = {}" "a \<in> D" using reach_ge[of "{a}" C] by auto
qed

lemma graph_sweep:
  assumes "gc_graph C D R m rd b Q" "x \<in> reach C R"
  shows "gc_graph C D R m rd b (swept Q x)"
proof -
  let ?Q = "swept Q x"
  have q: "?Q 0 = Q 0" "set (?Q 1) \<subseteq> set (Q 1)" "set (?Q 2) \<subseteq> insert x (set (Q 2))" "set (?Q 4) \<subseteq> set (Q 4)" "?Q 3 = remove1 x (Q 3)"
    "?Q 4 = remove1 x (Q 4)"
    using set_remove1_subset[of x "Q 1"] set_remove1_subset[of x "Q 2"] set_remove1_subset[of x "Q 4"] by (auto simp: swept_def)
  have "reach C (R \<union> queued ?Q) \<subseteq> reach C (R \<union> queued Q)"
  proof (rule reach_mono)
    have "x \<in> reach C (R \<union> queued Q)" using assms(2) unfolding reach_Un by blast
    then show "R \<union> queued ?Q \<subseteq> reach C (R \<union> queued Q)" using q(1-4) reach_ge[of "R \<union> queued Q" C] by auto
  qed
  then have r: "reach C (R \<union> queued ?Q) \<subseteq> D" using assms(1) by (auto simp: gc_graph_def)
  show ?thesis
  proof (cases b)
    case True
    have "x \<notin> condemned D m rd" using gc_graph_reach(3)[OF assms(1)] assms(2) by blast
    moreover have "set (Q 3) = condemned D m rd" using assms(1) True by (simp add: gc_graph_def)
    ultimately have "?Q 3 = Q 3" unfolding q(5) by (simp add: remove1_idem)
    moreover have "reach C (R \<union> set (?Q 0) \<union> set (?Q 4)) \<subseteq> reach C (R \<union> set (Q 0) \<union> set (Q 4))"
      by (rule reach_mono) (use q(1,4) reach_ge[of "R \<union> set (Q 0) \<union> set (Q 4)" C] in auto)
    ultimately show ?thesis using assms(1) True r q(1,4) by (auto simp: gc_graph_def)
  next
    case False
    then show ?thesis using assms(1) r q(5,6) by (auto simp: gc_graph_def)
  qed
qed

lemma graph_grey:
  assumes "gc_graph C D R m rd b Q" "storable C D R m rd a"
  shows "gc_graph C D R m rd b (Q(0 := Q 0 @ [a]))"
proof -
  note s = storable_reach[OF assms]
  let ?Q = "Q(0 := Q 0 @ [a])"
  have "R \<union> queued ?Q = {a} \<union> (R \<union> queued Q)" by auto
  then have "reach C (R \<union> queued ?Q) = reach C {a} \<union> reach C (R \<union> queued Q)" by (simp only: reach_Un)
  then have r: "reach C (R \<union> queued ?Q) \<subseteq> D" using s(1) assms(1) by (auto simp: gc_graph_def)
  have "R \<union> set (?Q 0) \<union> set (?Q 4) = {a} \<union> (R \<union> set (Q 0) \<union> set (Q 4))" by auto
  then have "reach C (R \<union> set (?Q 0) \<union> set (?Q 4)) = reach C {a} \<union> reach C (R \<union> set (Q 0) \<union> set (Q 4))" by (simp only: reach_Un)
  then have "b \<Longrightarrow> reach C (R \<union> set (?Q 0) \<union> set (?Q 4)) \<inter> condemned D m rd = {}" using s(2) assms(1) by (auto simp: gc_graph_def)
  then show ?thesis using assms(1) r unfolding gc_graph_def by (cases b) auto
qed

text \<open>Fewer references and fewer roots keep the invariant.\<close>

lemma graph_shrink:
  assumes "gc_graph C D R m rd b Q" "\<And>u a. child C' u a \<Longrightarrow> child C u a" "R' \<subseteq> R"
  shows "gc_graph C' D R' m rd b Q"
proof -
  have r: "reach C' (R' \<union> S) \<subseteq> reach C (R \<union> S)" for S
    using reach_less[OF assms(2), where R = "R' \<union> S"] reach_mono[of "R' \<union> S" C "R \<union> S"] reach_ge[of "R \<union> S" C] assms(3) by blast
  note r1 = r[of "queued Q"] and r2 = r[of "set (Q 0) \<union> set (Q 4)"]
  show ?thesis
  proof (cases b)
    case True
    have old: "reach C (R \<union> queued Q) \<subseteq> D" "\<forall>t \<in> D. m t \<le> rd \<or> m t = rd + 1 \<or> m t = rd + 2"
      "\<forall>t \<in> black D m rd. \<forall>a. child C t a \<longrightarrow> a \<in> black D m rd \<union> set (Q 0)"
      "R \<subseteq> black D m rd \<union> set (Q 0)" "set (Q 3) = condemned D m rd" "set (Q 4) \<subseteq> black D m rd"
      "reach C (R \<union> set (Q 0) \<union> set (Q 4)) \<inter> condemned D m rd = {}"
      using assms(1) True unfolding gc_graph_def by simp_all
    have "reach C' (R' \<union> queued Q) \<subseteq> D" using r1 old(1) by (rule order_trans)
    moreover have "\<forall>t \<in> black D m rd. \<forall>a. child C' t a \<longrightarrow> a \<in> black D m rd \<union> set (Q 0)" using old(3) assms(2) by blast
    moreover have "R' \<subseteq> black D m rd \<union> set (Q 0)" using old(4) assms(3) by blast
    moreover have "reach C' (R' \<union> set (Q 0) \<union> set (Q 4)) \<inter> condemned D m rd = {}" using r2 old(7) unfolding Un_assoc by blast
    ultimately show ?thesis using old(2,5,6) True unfolding gc_graph_def by simp
  next
    case False
    have "reach C (R \<union> queued Q) \<subseteq> D" using assms(1) unfolding gc_graph_def by blast
    with r1 have "reach C' (R' \<union> queued Q) \<subseteq> D" by (rule order_trans)
    then show ?thesis using assms(1) False unfolding gc_graph_def by simp
  qed
qed

lemmas graph_unlink = graph_shrink[OF _ _ order_refl]

lemma graph_relink:
  assumes "gc_graph C D R m rd b Q" "\<And>u x. child C' u x \<Longrightarrow> child C u x \<or> u = t \<and> x = a" "storable C D R m rd a"
    "b \<Longrightarrow> a \<in> black D m rd \<union> set (Q 0)"
  shows "gc_graph C' D R m rd b Q"
proof -
  note s = storable_reach[OF assms(1,3)]
  have l: "reach C' S \<subseteq> reach C S \<union> reach C {a}" for S by (rule reach_link) (use assms(2) in auto)
  have r: "reach C' (R \<union> queued Q) \<subseteq> D" using l[of "R \<union> queued Q"] s(1) assms(1) by (auto simp: gc_graph_def)
  show ?thesis
  proof (cases b)
    case True
    have "reach C (R \<union> set (Q 0) \<union> set (Q 4)) \<inter> condemned D m rd = {}" using assms(1) True by (simp add: gc_graph_def)
    then have "reach C' (R \<union> set (Q 0) \<union> set (Q 4)) \<inter> condemned D m rd = {}" using l[of "R \<union> set (Q 0) \<union> set (Q 4)"] s(2) by blast
    moreover have "\<forall>u \<in> black D m rd. \<forall>x. child C' u x \<longrightarrow> x \<in> black D m rd \<union> set (Q 0)"
      using assms(1,2,4) True unfolding gc_graph_def by (auto dest!: assms(2))
    ultimately show ?thesis using assms(1) True r unfolding gc_graph_def by simp
  next
    case False
    then show ?thesis using assms(1) r unfolding gc_graph_def by simp
  qed
qed

text \<open>A value is stored: the old one is told to the sweep queue, the new one to the mark queue.\<close>

definition grey_ref :: "(addr \<Rightarrow> int) \<Rightarrow> int \<Rightarrow> queues \<Rightarrow> addr option \<Rightarrow> queues" where
  "grey_ref m rd Q r = (case r of None \<Rightarrow> Q | Some a \<Rightarrow> if m a = rd + 1 \<or> a \<in> set (Q 0) then Q else Q(0 := Q 0 @ [a]))"

lemma sweep_ref_graph:
  assumes "gc_graph C D R m rd b Q" "\<And>x. r = Some x \<Longrightarrow> x \<in> reach C R"
  shows "gc_graph C D R m rd b (sweep_ref Q r)"
  using assms graph_sweep[OF assms(1)] by (cases r) auto

lemma old_ref_reach: "t \<in> reach C R \<Longrightarrow> old_ref C t k = Some x \<Longrightarrow> x \<in> reach C R"
  using reach.follow[OF _ old_ref_child] by blast

lemma graph_put:
  assumes "gc_graph C D R m rd b Q" "t \<in> reach C R" "\<And>a. ref_of v = Some a \<Longrightarrow> storable C D R m rd a"
  shows "gc_graph (C(t := (C t)(k \<mapsto> v))) D R m rd b (grey_ref m rd (sweep_ref Q (old_ref C t k)) (ref_of v))"
proof -
  let ?Q = "sweep_ref Q (old_ref C t k)" and ?C = "C(t := (C t)(k \<mapsto> v))"
  have s: "gc_graph C D R m rd b ?Q" by (rule sweep_ref_graph[OF assms(1) old_ref_reach[OF assms(2)]])
  show ?thesis
  proof (cases "ref_of v")
    case None
    have "child C u x" if "child ?C u x" for u x using child_put[OF that] None by auto
    then show ?thesis using graph_unlink[OF s, of ?C] None by (simp add: grey_ref_def)
  next
    case (Some a)
    note st = assms(3)[OF Some]
    have g: "gc_graph C D R m rd b (grey_ref m rd ?Q (Some a))" using graph_grey[OF s st] s by (simp add: grey_ref_def)
    have "a \<in> black D m rd \<union> set (grey_ref m rd ?Q (Some a) 0)" using storable_reach(3)[OF assms(1) st] by (auto simp: grey_ref_def black_def)
    then show ?thesis using graph_relink[OF g _ st, of ?C t] child_put[of C t k v] unfolding Some by auto
  qed
qed

lemma graph_drop:
  assumes "gc_graph C D R m rd b Q" "t \<in> reach C R"
  shows "gc_graph (C(t := (C t)(k := None))) D R m rd b (sweep_ref Q (old_ref C t k))"
  by (rule graph_unlink[OF sweep_ref_graph[OF assms(1) old_ref_reach[OF assms(2)]]]) (assumption, rule child_drop)

lemma graph_clear:
  assumes "gc_graph C D R m rd b Q" "t \<in> reach C R" "set rs \<subseteq> ref_of ` ran (C t)"
  shows "gc_graph (C(t := Map.empty)) D R m rd b (foldl sweep_ref Q rs)"
proof -
  have r: "x \<in> reach C R" if "Some x \<in> set rs" for x
  proof (rule reach.follow[OF assms(2)])
    obtain v where "v \<in> ran (C t)" "ref_of v = Some x" using assms(3) \<open>Some x \<in> set rs\<close> by (metis imageE subsetD)
    then show "child C t x" unfolding child_def ran_def by blast
  qed
  have "gc_graph C D R m rd b Q \<Longrightarrow> \<forall>x. Some x \<in> set rs \<longrightarrow> x \<in> reach C R \<Longrightarrow> gc_graph C D R m rd b (foldl sweep_ref Q rs)"
  proof (induction rs arbitrary: Q)
    case (Cons y rs)
    have "gc_graph C D R m rd b (sweep_ref Q y)" by (rule sweep_ref_graph[OF Cons.prems(1)]) (use Cons.prems(2) in simp)
    then show ?case using Cons.IH Cons.prems(2) by simp
  qed simp
  then have "gc_graph C D R m rd b (foldl sweep_ref Q rs)" using assms(1) r by blast
  then show ?thesis by (rule graph_unlink) (use child_clear in blast)
qed

text \<open>A new table, and the roots.\<close>

lemma graph_new:
  assumes "gc_graph C D R m rd b Q" "t \<notin> D" "\<And>u. u \<in> D \<Longrightarrow> m' u = m u" "m' t = rd"
  shows "gc_graph (C(t := Map.empty)) (insert t D) R m' rd b Q"
proof -
  have bl: "black (insert t D) m' rd = black D m rd" "condemned (insert t D) m' rd = condemned D m rd"
    using assms(2-4) by (auto simp: black_def condemned_def)
  have "gc_graph (C(t := Map.empty)) D R m rd b Q" by (rule graph_unlink[OF assms(1)]) (use child_clear in blast)
  then show ?thesis using assms(3,4) unfolding gc_graph_def bl by (cases b) auto
qed

lemma graph_add_root:
  assumes "gc_graph C D R m rd b Q" "storable C D R m rd h" "b \<Longrightarrow> h \<in> black D m rd \<union> set (Q 0)"
  shows "gc_graph C D (insert h R) m rd b Q"
proof -
  note s = storable_reach[OF assms(1,2)]
  have "reach C (insert h R \<union> S) = reach C (R \<union> S) \<union> reach C {h}" for S using reach_Un[of C "{h}" "R \<union> S"] by (simp add: Un_commute)
  from this[of "queued Q"] this[of "set (Q 0) \<union> set (Q 4)"] show ?thesis
    using assms(1,3) s(1,2) unfolding gc_graph_def Un_assoc by (cases b) auto
qed

end
