(* ===== verification/Gc_Mark.thy ===== *)
theory Gc_Mark
  imports Gc_Graph
begin

text \<open>
  The loops of \<^verbatim>\<open>src/gc/gc.c\<close> that mark: over the roots, over the children of a table, over the mark queue and
  over the candidates.  Each ends after a bounded number of visits and is a sequence of steps on
  the graph of tables.
\<close>

section \<open>What a run of the collector leaves alone\<close>

abbreviation marks :: "world \<Rightarrow> addr \<Rightarrow> int" where
  "marks w t \<equiv> tb_mark (w_tables w t)"

abbreviation round :: "world \<Rightarrow> int" where
  "round w \<equiv> gc_round (w_gc w)"

definition gc_rest :: "world \<Rightarrow> world \<Rightarrow> bool" where
  "gc_rest w w' \<longleftrightarrow> w_area w' = w_area w \<and> w_at w' = w_at w \<and> w_run_gc_periodical w' = w_run_gc_periodical w \<and>
     gc_roots (w_gc w') = gc_roots (w_gc w) \<and> gc_queues (w_gc w') = gc_queues (w_gc w) \<and> gc_round (w_gc w') = gc_round (w_gc w) \<and>
     gc_begin (w_gc w') = gc_begin (w_gc w) \<and> gc_lock (w_gc w') = gc_lock (w_gc w) \<and> versions_up w w'"

text \<open>The loops that mark also leave their bounds and the objects in use, and their counters grow.\<close>

definition gc_loop :: "world \<Rightarrow> world \<Rightarrow> bool" where
  "gc_loop w w' \<longleftrightarrow> gc_rest w w' \<and> gc_max_visit_cnt (w_gc w') = gc_max_visit_cnt (w_gc w) \<and>
     gc_max_free_cnt (w_gc w') = gc_max_free_cnt (w_gc w) \<and> gc_curr_visit_cnt (w_gc w) \<le> gc_curr_visit_cnt (w_gc w') \<and>
     gc_curr_free_cnt (w_gc w) \<le> gc_curr_free_cnt (w_gc w') \<and> live w' = live w \<and> w_table_cnt w' = w_table_cnt w"

lemma gc_rest_refl [simp]: "gc_rest w w"
  by (simp add: gc_rest_def)

lemma gc_rest_trans: "gc_rest w w' \<Longrightarrow> gc_rest w' w'' \<Longrightarrow> gc_rest w w''"
  using versions_up_trans[of w w' w''] by (simp add: gc_rest_def)

lemma gc_loop_refl [simp]: "gc_loop w w"
  by (simp add: gc_loop_def)

lemma gc_loop_trans: "gc_loop w w' \<Longrightarrow> gc_loop w' w'' \<Longrightarrow> gc_loop w w''"
  using gc_rest_trans[of w w' w''] by (simp add: gc_loop_def)

lemma gc_rest_qhead: "gc_rest w w' \<Longrightarrow> qhead w' = qhead w"
  by (simp add: gc_rest_def qhead_def fun_eq_iff)

lemma gc_rest_env: "gc_rest w w' \<Longrightarrow> env_ok env w \<Longrightarrow> env_ok env w'"
  by (rule env_ok_area) (simp_all add: gc_rest_def)

lemma set_gc_simps [simp]:
  "w_tables (set_gc f w) = w_tables w" "w_mem (set_gc f w) = w_mem w" "w_bytes (set_gc f w) = w_bytes w" "w_elems (set_gc f w) = w_elems w"
  "w_gc (set_gc f w) = f (w_gc w)" "w_slab (set_gc f w) = w_slab w" "w_at (set_gc f w) = w_at w"
  "w_run_gc_periodical (set_gc f w) = w_run_gc_periodical w" "w_table_cnt (set_gc f w) = w_table_cnt w"
  by (simp_all add: set_gc_def)

lemma versions_up_views [simp]:
  "versions_up (set_list ln w) w' = versions_up w w'" "versions_up w (set_list ln w') = versions_up w w'"
  "versions_up (set_gc f w) w' = versions_up w w'" "versions_up w (set_gc f w') = versions_up w w'"
  "versions_up (upd_table t (tb_mark_update g) w) w' = versions_up w w'" "versions_up w (upd_table t (tb_mark_update g) w') = versions_up w w'"
  "versions_up (upd_table t (tb_lock_update l) w) w' = versions_up w w'" "versions_up w (upd_table t (tb_lock_update l) w') = versions_up w w'"
  by (auto simp: versions_up_def upd_table_def)

lemma set_gc_core: "gc_queues (f (w_gc w)) = gc_queues (w_gc w) \<Longrightarrow> same_core w (set_gc f w)"
  by (simp add: same_core_def)

lemma mark_core: "same_core w (upd_table t (tb_mark_update f) w)"
  by (simp add: same_core_def upd_table_def)

section \<open>Children\<close>

definition visit_ref :: "(addr \<Rightarrow> int) \<Rightarrow> int \<Rightarrow> nat \<Rightarrow> queues \<Rightarrow> addr option \<Rightarrow> queues" where
  "visit_ref m rd k Q r = (case r of None \<Rightarrow> Q | Some a \<Rightarrow> if m a \<le> rd \<and> \<not> in_queue Q k a then Q(k := Q k @ [a]) else Q)"

definition visit_same :: "world \<Rightarrow> world \<Rightarrow> bool" where
  "visit_same w w' \<longleftrightarrow> w_tables w' = w_tables w \<and> w_bytes w' = w_bytes w \<and> w_elems w' = w_elems w \<and> live w' = live w \<and> gc_loop w w'"

lemma visit_same_trans: "visit_same w w' \<Longrightarrow> visit_same w' w'' \<Longrightarrow> visit_same w w''"
  using gc_loop_trans by (auto simp: visit_same_def)

lemma visit_same_views:
  assumes "visit_same w w'"
  shows "vview w' = vview w" "entries w' = entries w" "contents w' T = contents w T" "iter_at w' = iter_at w" "qhead w' = qhead w" "round w' = round w"
proof -
  have f: "w_tables w' = w_tables w" "w_bytes w' = w_bytes w" "w_elems w' = w_elems w" using assms by (simp_all add: visit_same_def)
  show v: "vview w' = vview w" "iter_at w' = iter_at w" by (intro ext, simp add: vview_def iter_at_def f)+
  show e: "entries w' = entries w" by (intro ext) (simp add: entries_def kview_def vview_def f)
  show "contents w' T = contents w T" unfolding contents_def e ..
  show "qhead w' = qhead w" using assms gc_rest_qhead by (simp add: visit_same_def gc_loop_def)
  show "round w' = round w" using assms by (simp add: visit_same_def gc_loop_def gc_rest_def)
qed

lemma queue_insert_ok:
  assumes "world_ok w T Q" "t \<in> dom T" "k < 5" "\<not> in_queue Q k t"
  shows "\<exists>ln. st_list_insert_last (w_list w) (qhead w k) (qnode k t) = Some ln \<and> world_ok (set_list ln w) T (Q(k := Q k @ [t])) \<and>
    live (set_list ln w) = live w \<and> entries (set_list ln w) = entries w \<and> contents (set_list ln w) T = contents w T"
proof -
  have l: "lists_hold (qhead w) (w_list w) (dom T) Q" using world_okD(4)[OF assms(1)] unfolding queues_lists by blast
  obtain ln where ln: "st_list_insert_last (w_list w) (qhead w k) (qnode k t) = Some ln" "lists_hold (qhead w) ln (dom T) (Q(k := Q k @ [t]))"
    "\<forall>a. a \<notin> queue_nodes (qhead w) (dom T) \<longrightarrow> ln a = w_list w a"
    using lists_insert_last[OF world_nodes[OF assms(1)] l assms(3,2,4)] by blast
  then show ?thesis using world_list_update[OF assms(1) ln(2)] by blast
qed

lemma visit_child_ok:
  assumes "world_ok w T Q" "k < 3" "str_fits s" "\<And>a. ref_of (value_view (w_bytes w) s) = Some a \<Longrightarrow> a \<in> dom T"
  shows "\<exists>w'. visit_child (qhead w k) s w = Some w' \<and> visit_same w w' \<and>
    world_ok w' T (visit_ref (marks w) (round w) k Q (ref_of (value_view (w_bytes w) s)))"
proof (cases "st_types_is_table (str_type s)")
  case False
  then show ?thesis using assms(1) ref_value[OF assms(3)]
    by (intro exI[of _ w]) (simp add: visit_child_def visit_same_def visit_ref_def)
next
  case True
  let ?a = "st_table_get_table_addr_from_value (w_bytes w) s"
  have r: "ref_of (value_view (w_bytes w) s) = Some ?a" using ref_value[OF assms(3), of "w_bytes w"] True by simp
  then have a: "?a \<in> dom T" using assms(4) by simp
  note d = table_args(1)[OF assms(1) a]
  have q: "(if qhead w k = mark_queue (w_gc w) then mark_lnode ?a else sweep_lnode ?a) = qnode k ?a"
    unfolding queue_heads by (simp add: qhead_def qnode_def)
  have i: "st_list_is_inited (w_list w) (qnode k ?a) \<longleftrightarrow> in_queue Q k ?a" using queue_inited[OF assms(1) a, of k] assms(2) by simp
  have u: "st_gc_is_status_unknown (w_gc w) (marks w ?a) \<longleftrightarrow> marks w ?a \<le> round w"
    by (simp add: st_gc_is_status_unknown_def st_gc_status_unknown_def)
  show ?thesis
  proof (cases "marks w ?a \<le> round w \<and> \<not> in_queue Q k ?a")
    case False
    then show ?thesis using assms(1) True d u i q r
      by (intro exI[of _ w]) (auto simp: visit_child_def visit_same_def visit_ref_def Let_def deref_def)
  next
    case in_q: True
    obtain ln where ln: "st_list_insert_last (w_list w) (qhead w k) (qnode k ?a) = Some ln" "world_ok (set_list ln w) T (Q(k := Q k @ [?a]))"
      "live (set_list ln w) = live w" using queue_insert_ok[OF assms(1) a, of k] assms(2) in_q by auto
    have "visit_child (qhead w k) s w = Some (set_list ln (visited w))"
      using True d u i in_q ln(1) by (simp add: visit_child_def Let_def deref_def q visited_def)
    moreover have "set_list ln (visited w) = visited (set_list ln w)" by (simp add: visited_def set_gc_def set_list_def)
    moreover have "world_ok (visited (set_list ln w)) T (Q(k := Q k @ [?a]))"
      using same_core(3)[OF set_gc_core] ln(2) by (simp add: visited_def)
    moreover have "visit_same w (visited (set_list ln w))" using ln(3) by (simp add: visit_same_def gc_loop_def gc_rest_def visited_def)
    ultimately show ?thesis using in_q r by (intro exI[of _ "visited (set_list ln w)"]) (simp add: visit_ref_def)
  qed
qed

text \<open>The lock of the table does not matter for the walk over its children.\<close>

abbreviation relock :: "addr \<Rightarrow> mutex \<Rightarrow> world \<Rightarrow> world" where
  "relock t l \<equiv> upd_table t (tb_lock_update (\<lambda>_. l))"

lemma visit_relock: "visit_child q s (relock t l w) = map_option (relock t l) (visit_child q s w)"
  by (auto simp: visit_child_def Let_def deref_def visited_def set_gc_def set_list_def upd_table_def split: bind_splits)

lemma iter_relock: "st_table_iter_next (relock t l w) u it = st_table_iter_next w u it"
  "st_table_iter_init env (relock t l w) u it key side = st_table_iter_init env w u it key side"
  by (simp_all add: st_table_iter_next_def st_table_iter_init_def Let_def split: option.split)

lemma children_loop_ok:
  assumes "world_ok w T Q" "T t = Some tr" "closed_at (contents w T) (dom T) t" "k < 3"
  shows "\<exists>w'. children_loop t (qhead w k) (iter_at w t tr i) (relock t l w) = Some (ST_OK, relock t l w') \<and> visit_same w w' \<and>
    world_ok w' T (foldl (visit_ref (marks w) (round w) k) Q (drop i (map (\<lambda>e. ref_of (vview w e)) (inorder tr))))"
  using assms
proof (induction "length (inorder tr) - i" arbitrary: i w Q)
  case 0
  then show ?case using iter_step[OF 0(2,3), of i]
    by (intro exI[of _ w]) (simp add: children_loop.simps iter_relock visit_same_def)
next
  case (Suc n)
  let ?e = "inorder tr ! i" and ?rs = "map (\<lambda>e. ref_of (vview w e)) (inorder tr)"
  let ?v = "visit_ref (marks w) (round w) k"
  have i: "i < length (inorder tr)" and n: "n = length (inorder tr) - Suc i" using Suc(2) by simp_all
  then have e: "?e \<in> set (inorder tr)" by simp
  note v = elem_value[OF Suc(3,4) e Suc(5)]
  obtain w1 where w1: "visit_child (qhead w k) (te_value (w_elems w ?e)) w = Some w1" "visit_same w w1"
    "world_ok w1 T (?v Q (ref_of (vview w ?e)))"
    using visit_child_ok[OF Suc(3,6) v(1) v(2)] unfolding vview_def by blast
  note s = visit_same_views[OF w1(2)]
  have tb: "w_tables w1 = w_tables w" using w1(2) by (simp add: visit_same_def)
  obtain w' where w': "children_loop t (qhead w k) (iter_at w t tr (Suc i)) (relock t l w1) = Some (ST_OK, relock t l w')" "visit_same w1 w'"
    "world_ok w' T (foldl ?v (?v Q (ref_of (vview w ?e))) (drop (Suc i) ?rs))"
    using Suc(1)[of "Suc i", OF n w1(3) Suc(4) _ Suc(6), unfolded s tb, OF Suc(5)] by blast
  have "children_loop t (qhead w k) (iter_at w t tr i) (relock t l w) = Some (ST_OK, relock t l w')"
    using w'(1) w1(1) i iter_step[OF Suc(3,4), of i] by (subst children_loop.simps) (simp add: iter_relock visit_relock Let_def)
  moreover have "drop i ?rs = ref_of (vview w ?e) # drop (Suc i) ?rs" using i by (simp add: Cons_nth_drop_Suc[symmetric])
  ultimately show ?case using w'(3) visit_same_trans[OF w1(2) w'(2)] by (intro exI[of _ w']) simp
qed

lemma in_queue_mono: "in_queue Q k a \<Longrightarrow> (\<And>j. set (Q j) \<subseteq> set (Q' j)) \<Longrightarrow> in_queue Q' k a"
  unfolding in_queue_def by blast

lemma visit_refs:
  assumes "k < 5"
  shows "j \<noteq> k \<Longrightarrow> foldl (visit_ref m rd k) Q rs j = Q j" "set (Q j) \<subseteq> set (foldl (visit_ref m rd k) Q rs j)"
    "set (foldl (visit_ref m rd k) Q rs k) \<subseteq> set (Q k) \<union> {a. Some a \<in> set rs}"
    "Some a \<in> set rs \<Longrightarrow> m a \<le> rd \<Longrightarrow> in_queue (foldl (visit_ref m rd k) Q rs) k a"
proof -
  have one: "visit_ref m rd k Q r j = Q j" if "j \<noteq> k" for Q r j using that by (simp add: visit_ref_def split: option.splits)
  have up: "set (Q j) \<subseteq> set (visit_ref m rd k Q r j)" for Q r j by (auto simp: visit_ref_def split: option.splits)
  show "j \<noteq> k \<Longrightarrow> foldl (visit_ref m rd k) Q rs j = Q j" by (induction rs arbitrary: Q) (simp_all add: one)
  show mono: "set (Q j) \<subseteq> set (foldl (visit_ref m rd k) Q rs j)" for Q rs j
    using up by (induction rs arbitrary: Q) (simp, simp, blast)
  show "set (foldl (visit_ref m rd k) Q rs k) \<subseteq> set (Q k) \<union> {a. Some a \<in> set rs}"
  proof (induction rs arbitrary: Q)
    case (Cons r rs)
    have "set (visit_ref m rd k Q r k) \<subseteq> set (Q k) \<union> {a. r = Some a}" by (auto simp: visit_ref_def split: option.splits)
    then show ?case using Cons.IH[of "visit_ref m rd k Q r"] by auto
  qed simp
  show "in_queue (foldl (visit_ref m rd k) Q rs) k a" if "Some a \<in> set rs" "m a \<le> rd"
    using that(1)
  proof (induction rs arbitrary: Q)
    case (Cons r rs)
    have "in_queue (visit_ref m rd k Q (Some a)) k a" using that(2) rivals_lt(2)[OF assms] by (auto simp: visit_ref_def in_queue_def)
    then show ?case using Cons in_queue_mono[of "visit_ref m rd k Q r" k a "foldl (visit_ref m rd k) (visit_ref m rd k Q r) rs", OF _ mono] by auto
  qed simp
qed

text \<open>The unknown children of a table are in the queue, or in a queue that shares its nodes.\<close>

lemma children_to_queue_ok:
  assumes "world_ok w T Q" "t \<in> dom T" "closed_at (contents w T) (dom T) t" "k < 3"
  shows "\<exists>w' Q'. st_gc_table_unknown_children_to_queue env w t (qhead w k) = Some (ST_OK, w') \<and> world_ok w' T Q' \<and> gc_loop w w' \<and>
    contents w' T = contents w T \<and> marks w' = marks w \<and> (\<forall>j. j \<noteq> k \<longrightarrow> Q' j = Q j) \<and> set (Q k) \<subseteq> set (Q' k) \<and>
    set (Q' k) \<subseteq> set (Q k) \<union> {a. child (contents w T) t a} \<and>
    (\<forall>a. child (contents w T) t a \<longrightarrow> marks w a \<le> round w \<longrightarrow> in_queue Q' k a)"
proof -
  obtain tr where tr: "T t = Some tr" using assms(2) by blast
  let ?rs = "map (\<lambda>e. ref_of (vview w e)) (inorder tr)"
  let ?Q = "foldl (visit_ref (marks w) (round w) k) Q ?rs"
  obtain w' where w': "children_loop t (qhead w k) (iter_at w t tr 0) (relock t (held env) w) = Some (ST_OK, relock t (held env) w')"
    "visit_same w w'" "world_ok w' T ?Q" using children_loop_ok[OF assms(1) tr assms(3,4), of 0 "held env"] by auto
  note s = visit_same_views[OF w'(2)]
  let ?w = "relock t mutex_new (relock t (held env) w')"
  have "st_gc_table_unknown_children_to_queue env w t (qhead w k) = Some (ST_OK, ?w)"
    unfolding st_gc_table_unknown_children_to_queue_def
    by (rule with_table_lock_eq[OF table_okD(1)[OF assms(1) tr]]) (use w'(1) iter_start[OF assms(1) tr] in \<open>simp_all add: iter_relock\<close>)
  moreover have "?w = relock t mutex_new w'" by (simp add: upd_table_def)
  moreover note lock_only[OF w'(3) tr lock_new(1)]
  moreover have "gc_loop w (relock t mutex_new w')" using w'(2) by (simp add: visit_same_def gc_loop_def gc_rest_def)
  moreover have "marks (relock t mutex_new w') = marks w" using w'(2) by (simp add: visit_same_def fun_eq_iff)
  moreover have "child (contents w T) t a \<longleftrightarrow> Some a \<in> set ?rs" for a
  proof -
    have "child (contents w T) t a \<longleftrightarrow> Some a \<in> ref_of ` ran (contents w T t)"
      unfolding child_def by (force simp: ran_def image_iff eq_commute[of "Some a"])
    then show ?thesis unfolding entries_ran[OF assms(1) tr, symmetric] by auto
  qed
  ultimately show ?thesis using visit_refs[of k, where Q = Q and m = "marks w" and rd = "round w" and rs = ?rs] assms(4) s(3)
    by (intro exI[of _ "relock t mutex_new w'"] exI[of _ ?Q]) (simp add: fun_eq_iff)
qed

section \<open>The invariant of the collector\<close>

definition root_set :: "world \<Rightarrow> addr set" where
  "root_set w = set (arr_list (gc_roots (w_gc w)))"

text \<open>The array of the roots: static, sorted by address and without duplicates.\<close>

definition roots_ok :: "addr st_array \<Rightarrow> bool" where
  "roots_ok a \<longleftrightarrow> arr_ok a \<and> \<not> ar_dynamic a \<and> ar_compare a = Some st_gc_cmp_gc_head \<and> sorted (arr_list a) \<and> distinct (arr_list a)"

definition gc_ok :: "world \<Rightarrow> tables \<Rightarrow> queues \<Rightarrow> bool" where
  "gc_ok w T Q \<longleftrightarrow> world_ok w T Q \<and> roots_ok (gc_roots (w_gc w)) \<and>
     gc_graph (contents w T) (dom T) (root_set w) (marks w) (round w) (gc_begin (w_gc w)) Q"

lemma gc_okD:
  assumes "gc_ok w T Q"
  shows "world_ok w T Q" "roots_ok (gc_roots (w_gc w))"
    "gc_graph (contents w T) (dom T) (root_set w) (marks w) (round w) (gc_begin (w_gc w)) Q"
  using assms by (simp_all add: gc_ok_def)

lemma gc_okI:
  assumes "gc_ok w T Q" "gc_rest w w'" "world_ok w' T' Q'"
    "gc_graph (contents w' T') (dom T') (root_set w) (marks w') (round w) (gc_begin (w_gc w)) Q'"
  shows "gc_ok w' T' Q'"
  using assms by (simp add: gc_ok_def gc_rest_def root_set_def)

text \<open>Counters and times do not matter.\<close>

lemma gc_ok_count:
  assumes "gc_ok w T Q" "gc_rest w (set_gc f w)"
  shows "gc_ok (set_gc f w) T Q" "contents (set_gc f w) T = contents w T"
proof -
  have core: "same_core w (set_gc f w)" by (rule set_gc_core) (use assms(2) in \<open>simp add: gc_rest_def\<close>)
  show c: "contents (set_gc f w) T = contents w T" by (rule same_core(4)[OF core])
  show "gc_ok (set_gc f w) T Q"
    by (rule gc_okI[OF assms]) (use gc_okD[OF assms(1)] same_core(3)[OF core] c in simp_all)
qed

lemma queue_pop_ok:
  assumes "world_ok w T Q" "k < 5"
  shows "Q k = [] \<Longrightarrow> st_list_pop_first (w_list w) (qhead w k) = Some (NULL, w_list w)"
    "Q k = t # q \<Longrightarrow> \<exists>ln. st_list_pop_first (w_list w) (qhead w k) = Some (qnode k t, ln) \<and> world_ok (set_list ln w) T (Q(k := q)) \<and>
      live (set_list ln w) = live w \<and> entries (set_list ln w) = entries w \<and> contents (set_list ln w) T = contents w T \<and>
      qnode k t \<noteq> NULL \<and> t \<in> dom T \<and> \<not> in_queue (Q(k := q)) k t"
proof -
  note n = world_nodes[OF assms(1)]
  have l: "lists_hold (qhead w) (w_list w) (dom T) Q" using world_okD(4)[OF assms(1)] unfolding queues_lists by blast
  then have c: "clist (w_list w) (qhead w k) (map (qnode k) (Q k))" "set (Q k) \<subseteq> dom T" using assms(2) by (simp_all add: lists_hold_def)
  note p = list_pop_first_clist[OF c(1)]
  show "Q k = [] \<Longrightarrow> st_list_pop_first (w_list w) (qhead w k) = Some (NULL, w_list w)" using p by simp
  assume q: "Q k = t # q"
  have t: "t \<in> dom T" using c(2) q by simp
  then have t0: "qnode k t \<noteq> NULL" using n by (simp add: nodes_ok_def)
  obtain ln1 where ln1: "st_list_pop_first (w_list w) (qhead w k) = Some (qnode k t, ln1)" using p q by auto
  have "st_list_remove (w_list w) (qnode k t) = Some ln1"
    using ln1 t0 by (auto simp: st_list_pop_first_def Let_def split: bind_splits if_splits)
  moreover obtain ln where ln: "st_list_remove (w_list w) (qnode k t) = Some ln" "lists_hold (qhead w) ln (dom T) (Q(k := q))"
    "\<forall>a. a \<notin> queue_nodes (qhead w) (dom T) \<longrightarrow> ln a = w_list w a" using lists_take_out[OF n l assms(2), of "[]" t q] q by auto
  ultimately have eq: "ln1 = ln" by simp
  have "distinct (map (qnode k) (Q k))" using c(1) by (simp add: clist_def)
  then have "t \<notin> set q" using q by auto
  moreover have "t \<notin> set (Q j)" if "j \<in> rivals k" "j \<noteq> k" for j
    using lists_disjoint[OF l rivals_lt(1)[OF assms(2) that(1)] assms(2) rivals_lt(3)[OF that(1) assms(2)] that(2)] q by auto
  ultimately have "\<not> in_queue (Q(k := q)) k t" by (auto simp: in_queue_def)
  then show "\<exists>ln. st_list_pop_first (w_list w) (qhead w k) = Some (qnode k t, ln) \<and> world_ok (set_list ln w) T (Q(k := q)) \<and>
      live (set_list ln w) = live w \<and> entries (set_list ln w) = entries w \<and> contents (set_list ln w) T = contents w T \<and>
      qnode k t \<noteq> NULL \<and> t \<in> dom T \<and> \<not> in_queue (Q(k := q)) k t"
    using ln1 t t0 world_list_update[OF assms(1) ln(2)] ln(3) unfolding eq by blast
qed

lemma queued_closed:
  assumes "gc_ok w T Q" "t \<in> queued Q"
  shows "closed_at (contents w T) (dom T) t"
  by (rule gc_graph_closed[OF gc_okD(3)[OF assms(1)]]) (use assms(2) in \<open>auto intro: reach.start\<close>)

text \<open>What marking loses no track of: only tables behind the mark queue are marked, and a candidate stays
  one until it has a mark of the round.\<close>

definition child_closed :: "contents \<Rightarrow> addr set \<Rightarrow> bool" where
  "child_closed C B \<longleftrightarrow> (\<forall>t \<in> B. \<forall>a. child C t a \<longrightarrow> a \<in> B)"

definition tracks :: "contents \<Rightarrow> addr set \<Rightarrow> int \<Rightarrow> (addr \<Rightarrow> int) \<Rightarrow> queues \<Rightarrow> (addr \<Rightarrow> int) \<Rightarrow> queues \<Rightarrow> bool" where
  "tracks C D rd m Q m' Q' \<longleftrightarrow> (\<forall>B. child_closed C B \<longrightarrow> black D m rd \<union> set (Q 0) \<subseteq> B \<longrightarrow> black D m' rd \<union> set (Q' 0) \<subseteq> B) \<and>
     (\<forall>x. x \<in> set (Q 1) \<union> set (Q 2) \<or> rd < m x \<longrightarrow> x \<in> set (Q' 1) \<union> set (Q' 2) \<or> rd < m' x)"

lemma tracks_refl [simp]: "tracks C D rd m Q m Q"
  by (simp add: tracks_def)

lemma tracks_trans:
  assumes "tracks C D rd m Q m' Q'" "tracks C D rd m' Q' m'' Q''"
  shows "tracks C D rd m Q m'' Q''"
  using assms unfolding tracks_def by (elim conjE, intro conjI allI impI) (simp only: simp_thms)+

section \<open>Marking reachable tables\<close>

lemma mark_one_ok:
  assumes "gc_ok w T Q" "gc_begin (w_gc w)" "Q 0 = t # q"
  shows "\<exists>ln w' Q'. st_list_pop_first (w_list w) (mark_queue (w_gc w)) = Some (mark_lnode t, ln) \<and> mark_lnode t \<noteq> NULL \<and>
    st_gc_table_unknown_children_to_queue env (upd_table t (tb_mark_update (\<lambda>_. st_gc_status_reachable (w_gc w))) (set_list ln w)) t
      (mark_queue (w_gc w)) = Some (ST_OK, w') \<and>
    gc_ok w' T Q' \<and> gc_loop w w' \<and> contents w' T = contents w T \<and> tracks (contents w T) (dom T) (round w) (marks w) Q (marks w') Q'"
proof -
  note ok = gc_okD[OF assms(1)]
  obtain ln where p: "st_list_pop_first (w_list w) (qhead w 0) = Some (qnode 0 t, ln)" "world_ok (set_list ln w) T (Q(0 := q))"
    "contents (set_list ln w) T = contents w T" "qnode 0 t \<noteq> NULL" "t \<in> dom T" "\<not> in_queue (Q(0 := q)) 0 t" "live (set_list ln w) = live w"
    using queue_pop_ok(2)[OF ok(1) _ assms(3)] by auto
  let ?w = "upd_table t (tb_mark_update (\<lambda>_. st_gc_status_reachable (w_gc w))) (set_list ln w)" and ?C = "contents w T"
  note core = same_core[OF mark_core[of "set_list ln w" t "\<lambda>_. st_gc_status_reachable (w_gc w)"]]
  have c: "contents ?w T = ?C" using core(4) p(3) by simp
  have m: "marks ?w = (marks w)(t := round w + 1)" by (simp add: fun_eq_iff st_gc_status_reachable_def)
  have h: "qhead ?w = qhead w" by (simp add: qhead_def fun_eq_iff)
  have cl: "closed_at (contents ?w T) (dom T) t" unfolding c by (rule queued_closed[OF assms(1)]) (simp add: assms(3))
  obtain w' Q' where s: "st_gc_table_unknown_children_to_queue env ?w t (qhead w 0) = Some (ST_OK, w')" "world_ok w' T Q'" "gc_loop ?w w'"
    "contents w' T = ?C" "marks w' = (marks w)(t := round w + 1)" "\<forall>j. j \<noteq> 0 \<longrightarrow> Q' j = (Q(0 := q)) j" "set q \<subseteq> set (Q' 0)"
    "set (Q' 0) \<subseteq> set q \<union> {a. child ?C t a}" "\<forall>a. child ?C t a \<longrightarrow> ((marks w)(t := round w + 1)) a \<le> round w \<longrightarrow> in_queue Q' 0 a"
    using children_to_queue_ok[of ?w T "Q(0 := q)" t 0 env, OF _ p(5) cl] core(3) p(2) unfolding c m h by auto
  have "gc_graph ?C (dom T) (root_set w) ((marks w)(t := round w + 1)) (round w) True Q'"
    by (rule graph_mark[of ?C "dom T" "root_set w" "marks w" "round w" Q t q Q']) (use ok(3) assms(2,3) s(6-9) in \<open>auto simp: in_queue_def rivals_def\<close>)
  moreover have lp: "gc_loop w w'" using s(3) p(7) by (simp add: gc_loop_def gc_rest_def)
  ultimately have "gc_ok w' T Q'" using assms(2) s(2,4,5)
    by (intro gc_okI[OF assms(1)]) (simp_all add: gc_loop_def)
  moreover have "tracks (?C) (dom T) (round w) (marks w) Q (marks w') Q'"
  proof -
    have "black (dom T) (marks w') (round w) \<union> set (Q' 0) \<subseteq> B" if "child_closed ?C B" "black (dom T) (marks w) (round w) \<union> set (Q 0) \<subseteq> B" for B
    proof -
      have "t \<in> B" "set q \<subseteq> B" using that(2) assms(3) by auto
      then have "{a. child ?C t a} \<subseteq> B" using that(1) by (auto simp: child_closed_def)
      then show ?thesis using s(5,8) that(2) \<open>t \<in> B\<close> \<open>set q \<subseteq> B\<close> by (auto simp: black_def)
    qed
    then show ?thesis using s(5,6) by (auto simp: tracks_def)
  qed
  ultimately show ?thesis using p(1,4) s(1,4) lp unfolding queue_heads by (intro exI[of _ ln] exI[of _ w'] exI[of _ Q']) (simp add: qnode_def)
qed

lemma visited_loop: "gc_loop w w' \<Longrightarrow> gc_loop w (visited w')" "gc_rest w (visited w)"
  by (simp_all add: gc_loop_def gc_rest_def visited_def)

lemma mark_reachable_ok:
  assumes "gc_ok w T Q" "gc_begin (w_gc w)"
  shows "\<exists>ret w' Q'. st_gc_mark_reachable_tables env w = Some (ret, w') \<and> gc_ok w' T Q' \<and> gc_loop w w' \<and> contents w' T = contents w T \<and>
    tracks (contents w T) (dom T) (round w) (marks w) Q (marks w') Q' \<and>
    (ret = ST_OK \<or> ret = ST_EMPTY \<and> Q' 0 = [])"
  using assms
proof (induction "nat (gc_max_visit_cnt (w_gc w) - gc_curr_visit_cnt (w_gc w))" arbitrary: w Q rule: less_induct)
  case less
  show ?case
  proof (cases "gc_curr_visit_cnt (w_gc w) < gc_max_visit_cnt (w_gc w)")
    case False
    then show ?thesis using less(2) by (intro exI[of _ ST_OK] exI[of _ w] exI[of _ Q]) (subst st_gc_mark_reachable_tables.simps, simp)
  next
    case True
    show ?thesis
    proof (cases "Q 0")
      case Nil
      then have "st_gc_mark_reachable_tables env w = Some (ST_EMPTY, w)"
        using True queue_pop_ok(1)[OF gc_okD(1)[OF less(2)], of 0] by (subst st_gc_mark_reachable_tables.simps) (simp add: queue_heads)
      then show ?thesis using less(2) Nil by (intro exI[of _ ST_EMPTY] exI[of _ w] exI[of _ Q]) simp
    next
      case (Cons t q)
      obtain ln w1 Q1 where s: "st_list_pop_first (w_list w) (mark_queue (w_gc w)) = Some (mark_lnode t, ln)" "mark_lnode t \<noteq> NULL"
        "st_gc_table_unknown_children_to_queue env (upd_table t (tb_mark_update (\<lambda>_. st_gc_status_reachable (w_gc w))) (set_list ln w)) t
          (mark_queue (w_gc w)) = Some (ST_OK, w1)"
        "gc_ok w1 T Q1" "gc_loop w w1" "contents w1 T = contents w T" "tracks (contents w T) (dom T) (round w) (marks w) Q (marks w1) Q1"
        using mark_one_ok[OF less(2,3) Cons] by blast
      note v = gc_ok_count[OF s(4), of "\<lambda>gc. gc\<lparr>gc_curr_visit_cnt := gc_curr_visit_cnt gc + 1\<rparr>", folded visited_def, OF visited_loop(2)]
      have lp: "gc_loop w (visited w1)" by (rule visited_loop(1)[OF s(5)])
      have nat: "nat (gc_max_visit_cnt (w_gc (visited w1)) - gc_curr_visit_cnt (w_gc (visited w1))) < nat (gc_max_visit_cnt (w_gc w) - gc_curr_visit_cnt (w_gc w))"
        "gc_begin (w_gc (visited w1))" using True s(5) less(3) by (simp_all add: gc_loop_def gc_rest_def visited_def)
      have c1: "contents (visited w1) T = contents w T" "round (visited w1) = round w" "marks (visited w1) = marks w1"
        using v(2) s(5,6) by (simp_all add: gc_loop_def gc_rest_def visited_def)
      from less(1)[OF nat(1) v(1) nat(2)] obtain ret w' Q' where r: "st_gc_mark_reachable_tables env (visited w1) = Some (ret, w')" "gc_ok w' T Q'"
        "gc_loop (visited w1) w'" "contents w' T = contents (visited w1) T" "ret = ST_OK \<or> ret = ST_EMPTY \<and> Q' 0 = []"
        "tracks (contents w T) (dom T) (round w) (marks w1) Q1 (marks w') Q'" using c1 by auto
      have "st_gc_mark_reachable_tables env w = Some (ret, w')"
        using True s(1-3) r(1) by (subst st_gc_mark_reachable_tables.simps) (simp add: Let_def owner_mark_def mark_lnode_def)
      then show ?thesis using r(2,4,5) v(2) s(6) gc_loop_trans[OF lp r(3)] tracks_trans[OF s(7) r(6)] by (intro exI[of _ ret] exI[of _ w'] exI[of _ Q']) simp
    qed
  qed
qed

section \<open>Judging candidates\<close>

lemma judge_known:
  assumes "gc_ok w T Q" "gc_begin (w_gc w)" "Q 0 = []" "k \<in> {1, 2}" "Q k = t # q" "world_ok (set_list ln w) T (Q(k := q))"
    "contents (set_list ln w) T = contents w T" "\<not> in_queue (Q(k := q)) k t" "t \<in> dom T" "marks w t = round w + 1"
    "live (set_list ln w) = live w"
  shows "\<exists>w' Q'. judge_candidate env (qhead w k) (sweep_lnode t) (set_list ln w) = Some (Inr (), w') \<and>
    gc_ok w' T Q' \<and> gc_loop w w' \<and> contents w' T = contents w T \<and> Q' 0 = [] \<and> (k = 2 \<longrightarrow> Q' 1 = Q 1) \<and>
    tracks (contents w T) (dom T) (round w) (marks w) Q (marks w') Q'"
proof -
  note ok = gc_okD[OF assms(1)]
  have own: "owner_sweep (sweep_lnode t) = t" by (simp add: owner_sweep_def sweep_lnode_def)
  have sw: "qhead w k = sweep_queue (w_gc w) \<longleftrightarrow> k = 2" using assms(4) by (auto simp: sweep_queue_def qhead_def)
  have st: "marks w t \<noteq> st_gc_status_garbage (w_gc w)" "marks w t = st_gc_status_reachable (w_gc w)"
    using assms(10) by (simp_all add: st_gc_status_garbage_def st_gc_status_reachable_def)
  have "\<exists>ln' Q'. judge_candidate env (qhead w k) (sweep_lnode t) (set_list ln w) = Some (Inr (), set_list ln' w) \<and>
    world_ok (set_list ln' w) T Q' \<and> contents (set_list ln' w) T = contents w T \<and> live (set_list ln' w) = live w \<and> (k = 2 \<longrightarrow> Q' 1 = Q 1) \<and>
    Q' 0 = [] \<and> Q' 3 = Q 3 \<and> set (Q' 1) \<subseteq> set (Q 1) \<and> set (Q' 2) \<subseteq> set (Q 2) \<and> set (Q' 4) \<subseteq> insert t (set (Q 4)) \<and>
    set (Q 1) \<union> set (Q 2) \<subseteq> insert t (set (Q' 1) \<union> set (Q' 2))"
  proof (cases "k = 2")
    case False
    then have k: "k = 1" using assms(4) by simp
    have "judge_candidate env (qhead w k) (sweep_lnode t) (set_list ln w) = Some (Inr (), set_list ln w)"
      using st own sw False by (simp add: judge_candidate_def Let_def)
    then show ?thesis using assms(3,5-7,11) k by (intro exI[of _ ln] exI[of _ "Q(k := q)"]) auto
  next
    case True
    have "\<not> in_queue (Q(k := q)) 4 t" using assms(8) True by (auto simp: in_queue_def rivals_def)
    then obtain ln' where i: "st_list_insert_last ln (qhead w 4) (qnode 4 t) = Some ln'"
      "world_ok (set_list ln' w) T ((Q(k := q))(4 := (Q(k := q)) 4 @ [t]))" "contents (set_list ln' w) T = contents w T" "live (set_list ln' w) = live w"
      using queue_insert_ok[OF assms(6,9), of 4] assms(7,11) by (auto simp: qhead_def)
    have "judge_candidate env (qhead w k) (sweep_lnode t) (set_list ln w) = Some (Inr (), set_list ln' w)"
      using st own sw True i(1) by (simp add: judge_candidate_def Let_def queue_heads qnode_def)
    then show ?thesis using assms(3,5) i(2-4) True
      by (intro exI[of _ ln'] exI[of _ "(Q(k := q))(4 := (Q(k := q)) 4 @ [t])"]) auto
  qed
  then obtain ln' Q' where j: "judge_candidate env (qhead w k) (sweep_lnode t) (set_list ln w) = Some (Inr (), set_list ln' w)"
    "world_ok (set_list ln' w) T Q'" "contents (set_list ln' w) T = contents w T" "k = 2 \<longrightarrow> Q' 1 = Q 1"
    "Q' 0 = []" "Q' 3 = Q 3" "set (Q' 1) \<subseteq> set (Q 1)" "set (Q' 2) \<subseteq> set (Q 2)" "set (Q' 4) \<subseteq> insert t (set (Q 4))"
    "set (Q 1) \<union> set (Q 2) \<subseteq> insert t (set (Q' 1) \<union> set (Q' 2))" "live (set_list ln' w) = live w" by blast
  have g: "gc_graph (contents w T) (dom T) (root_set w) (marks w) (round w) True Q" using ok(3) assms(2) by simp
  have "t \<in> black (dom T) (marks w) (round w)" "t \<in> set (Q 1) \<union> set (Q 2)" using assms(4,5,9,10) by (auto simp: black_def)
  note k = graph_keep[OF g assms(3) this j(5-9)]
  have "gc_loop w (set_list ln' w)" using j(11) by (simp add: gc_loop_def gc_rest_def)
  moreover from this have "gc_ok (set_list ln' w) T Q'"
    by (intro gc_okI[OF assms(1)]) (use k j(2,3) assms(2) in \<open>simp_all add: gc_loop_def\<close>)
  moreover have "tracks (contents w T) (dom T) (round w) (marks w) Q (marks (set_list ln' w)) Q'"
    using j(5,10) assms(10) by (auto simp: tracks_def)
  ultimately show ?thesis using j(1,3-5) by blast
qed

lemma judge_unknown:
  assumes "gc_ok w T Q" "gc_begin (w_gc w)" "Q 0 = []" "k \<in> {1, 2}" "Q k = t # q" "world_ok (set_list ln w) T (Q(k := q))"
    "contents (set_list ln w) T = contents w T" "\<not> in_queue (Q(k := q)) k t" "t \<in> dom T" "marks w t \<noteq> round w + 1"
    "live (set_list ln w) = live w"
  shows "\<exists>w' Q'. judge_candidate env (qhead w k) (sweep_lnode t) (set_list ln w) = Some (Inr (), w') \<and>
    gc_ok w' T Q' \<and> gc_loop w w' \<and> contents w' T = contents w T \<and> Q' 0 = [] \<and> (k = 2 \<longrightarrow> Q' 1 = Q 1) \<and>
    tracks (contents w T) (dom T) (round w) (marks w) Q (marks w') Q'"
proof -
  note ok = gc_okD[OF assms(1)]
  let ?C = "contents w T" and ?m = "(marks w)(t := round w + 2)" and ?Q1 = "(Q(k := q))(3 := Q 3 @ [t])"
  have g: "gc_graph ?C (dom T) (root_set w) (marks w) (round w) True Q" using ok(3) assms(2) by simp
  have own: "owner_sweep (sweep_lnode t) = t" by (simp add: owner_sweep_def sweep_lnode_def)
  have l: "lists_hold (qhead w) (w_list w) (dom T) Q" using world_okD(4)[OF ok(1)] unfolding queues_lists by blast
  have "set (Q k) \<inter> set (Q 3) = {}" by (rule lists_disjoint[OF l]) (use assms(4) in \<open>auto simp: rivals_def\<close>)
  then have "t \<notin> set (Q 3)" using assms(5) by auto
  then have t3: "marks w t \<noteq> round w + 2" using g assms(9) by (auto simp: gc_graph_def condemned_def)
  let ?w1 = "upd_table t (tb_mark_update (\<lambda>_. st_gc_status_garbage (w_gc w))) (set_list ln w)"
  note core = same_core[OF mark_core[of "set_list ln w" t "\<lambda>_. st_gc_status_garbage (w_gc w)"]]
  have "\<not> in_queue (Q(k := q)) 3 t" using assms(4,8) by (auto simp: in_queue_def rivals_def)
  moreover have "qhead ?w1 = qhead w" "w_list ?w1 = ln" by (simp_all add: qhead_def fun_eq_iff)
  ultimately obtain ln' where i: "st_list_insert_last ln (qhead w 3) (qnode 3 t) = Some ln'"
    "world_ok (set_list ln' ?w1) T ?Q1" "contents (set_list ln' ?w1) T = ?C" "live (set_list ln' ?w1) = live ?w1"
    using queue_insert_ok[of ?w1 T "Q(k := q)" t 3, OF _ assms(9)] core(3,4) assms(4,6,7) by auto
  let ?w2 = "set_list ln' ?w1"
  have m: "marks ?w2 = ?m" by (simp add: fun_eq_iff st_gc_status_garbage_def)
  have h: "qhead ?w2 = qhead w" by (simp add: qhead_def fun_eq_iff)
  have tq: "t \<in> set (Q 1) \<union> set (Q 2)" using assms(4,5) by auto
  have cl: "closed_at (contents ?w2 T) (dom T) t" unfolding i(3) by (rule queued_closed[OF assms(1)]) (use tq in blast)
  obtain w' Q' where s: "st_gc_table_unknown_children_to_queue env ?w2 t (qhead w k) = Some (ST_OK, w')" "world_ok w' T Q'" "gc_loop ?w2 w'"
    "contents w' T = ?C" "marks w' = ?m" "\<forall>j. j \<noteq> k \<longrightarrow> Q' j = ?Q1 j" "set (Q' k) \<subseteq> set (?Q1 k) \<union> {a. child ?C t a}" "set (?Q1 k) \<subseteq> set (Q' k)"
    using children_to_queue_ok[of ?w2 T ?Q1 t k env, OF i(2) assms(9) cl] assms(4) unfolding i(3) m h by auto
  have "judge_candidate env (qhead w k) (sweep_lnode t) (set_list ln w) = Some (Inr (), w')"
    using own t3 assms(10) i(1) s(1)
    by (simp add: judge_candidate_def Let_def st_gc_status_garbage_def st_gc_status_reachable_def queue_heads qnode_def)
  moreover have lp: "gc_loop w w'" using s(3) i(4) assms(11) by (simp add: gc_loop_def gc_rest_def)
  moreover have k: "k \<noteq> 0" "k \<noteq> 3" "k \<noteq> 4" "?Q1 k = q" using assms(4) by auto
  have q: "Q' 0 = []" "Q' 4 = Q 4" "set (Q' 3) = insert t (set (Q 3))" "k = 2 \<longrightarrow> Q' 1 = Q 1" using s(6) k assms(3,4) by auto
  have "set (Q' 1) \<union> set (Q' 2) \<subseteq> set (Q 1) \<union> set (Q 2) \<union> {a. child ?C t a}"
    using s(6,7) assms(4,5) unfolding k(4) by auto
  note gr = graph_condemn[OF g assms(3) _ tq q(1-3) this]
  have "gc_ok w' T Q'" by (intro gc_okI[OF assms(1)]) (use gr assms(2,10) s(2,4,5) lp in \<open>simp_all add: gc_loop_def black_def\<close>)
  moreover have "tracks ?C (dom T) (round w) (marks w) Q (marks w') Q'"
  proof -
    have "set (Q 1) \<union> set (Q 2) \<subseteq> insert t (set (Q' 1) \<union> set (Q' 2))" using s(6,8) assms(4,5) unfolding k(4) by auto
    moreover have "black (dom T) (marks w') (round w) \<subseteq> black (dom T) (marks w) (round w)" unfolding s(5) by (auto simp: black_def)
    ultimately show ?thesis using q(1) s(5) by (auto simp: tracks_def)
  qed
  ultimately show ?thesis using s(4) q(1,4) by blast
qed

lemma judge_ok:
  assumes "gc_ok w T Q" "gc_begin (w_gc w)" "Q 0 = []" "k \<in> {1, 2}" "Q k = t # q"
  shows "\<exists>ln w' Q'. st_list_pop_first (w_list w) (qhead w k) = Some (sweep_lnode t, ln) \<and> sweep_lnode t \<noteq> NULL \<and>
    judge_candidate env (qhead w k) (sweep_lnode t) (set_list ln w) = Some (Inr (), w') \<and>
    gc_ok w' T Q' \<and> gc_loop w w' \<and> contents w' T = contents w T \<and> Q' 0 = [] \<and> (k = 2 \<longrightarrow> Q' 1 = Q 1) \<and>
    tracks (contents w T) (dom T) (round w) (marks w) Q (marks w') Q'"
proof -
  have k: "k < 5" "qnode k t = sweep_lnode t" using assms(4) by (auto simp: qnode_def)
  obtain ln where p: "st_list_pop_first (w_list w) (qhead w k) = Some (sweep_lnode t, ln)" "world_ok (set_list ln w) T (Q(k := q))"
    "contents (set_list ln w) T = contents w T" "sweep_lnode t \<noteq> NULL" "t \<in> dom T" "\<not> in_queue (Q(k := q)) k t" "live (set_list ln w) = live w"
    using queue_pop_ok(2)[OF gc_okD(1)[OF assms(1)] k(1) assms(5)] unfolding k(2) by blast
  have "\<exists>w' Q'. judge_candidate env (qhead w k) (sweep_lnode t) (set_list ln w) = Some (Inr (), w') \<and>
    gc_ok w' T Q' \<and> gc_loop w w' \<and> contents w' T = contents w T \<and> Q' 0 = [] \<and> (k = 2 \<longrightarrow> Q' 1 = Q 1) \<and>
    tracks (contents w T) (dom T) (round w) (marks w) Q (marks w') Q'"
    using judge_known[OF assms p(2,3,6,5) _ p(7)] judge_unknown[OF assms p(2,3,6,5) _ p(7)] by blast
  then show ?thesis using p(1,4) by blast
qed

lemma mark_garbage_ok:
  assumes "gc_ok w T Q" "gc_begin (w_gc w)" "Q 0 = []" "k \<in> {1, 2}"
  shows "\<exists>ret w' Q'. st_gc_mark_garbage_tables env (qhead w k) w = Some (ret, w') \<and> gc_ok w' T Q' \<and> gc_loop w w' \<and>
    contents w' T = contents w T \<and> Q' 0 = [] \<and> (k = 2 \<longrightarrow> Q' 1 = Q 1) \<and> (ret = ST_OK \<or> ret = ST_EMPTY \<and> Q' k = []) \<and>
    tracks (contents w T) (dom T) (round w) (marks w) Q (marks w') Q'"
  using assms(1-3)
proof (induction "nat (gc_max_visit_cnt (w_gc w) - gc_curr_visit_cnt (w_gc w))" arbitrary: w Q rule: less_induct)
  case less
  show ?case
  proof (cases "gc_curr_visit_cnt (w_gc w) < gc_max_visit_cnt (w_gc w)")
    case False
    then show ?thesis using less(2,4) by (intro exI[of _ ST_OK] exI[of _ w] exI[of _ Q]) (subst st_gc_mark_garbage_tables.simps, simp)
  next
    case True
    show ?thesis
    proof (cases "Q k")
      case Nil
      then have "st_gc_mark_garbage_tables env (qhead w k) w = Some (ST_EMPTY, w)"
        using True queue_pop_ok(1)[OF gc_okD(1)[OF less(2)], of k] assms(4) by (subst st_gc_mark_garbage_tables.simps) auto
      then show ?thesis using less(2,4) Nil by (intro exI[of _ ST_EMPTY] exI[of _ w] exI[of _ Q]) simp
    next
      case (Cons t q)
      obtain ln w1 Q1 where s: "st_list_pop_first (w_list w) (qhead w k) = Some (sweep_lnode t, ln)" "sweep_lnode t \<noteq> NULL"
        "judge_candidate env (qhead w k) (sweep_lnode t) (set_list ln w) = Some (Inr (), w1)"
        "gc_ok w1 T Q1" "gc_loop w w1" "contents w1 T = contents w T" "Q1 0 = []" "k = 2 \<longrightarrow> Q1 1 = Q 1"
        "tracks (contents w T) (dom T) (round w) (marks w) Q (marks w1) Q1" using judge_ok[OF less(2-4) assms(4) Cons] by blast
      note v = gc_ok_count[OF s(4), of "\<lambda>gc. gc\<lparr>gc_curr_visit_cnt := gc_curr_visit_cnt gc + 1\<rparr>", folded visited_def, OF visited_loop(2)]
      have lp: "gc_loop w (visited w1)" by (rule visited_loop(1)[OF s(5)])
      have h: "qhead (visited w1) = qhead w" by (rule gc_rest_qhead) (use lp in \<open>simp add: gc_loop_def\<close>)
      have nat: "nat (gc_max_visit_cnt (w_gc (visited w1)) - gc_curr_visit_cnt (w_gc (visited w1))) < nat (gc_max_visit_cnt (w_gc w) - gc_curr_visit_cnt (w_gc w))"
        "gc_begin (w_gc (visited w1))" using True s(5) less(3) by (simp_all add: gc_loop_def gc_rest_def visited_def)
      have c1: "contents (visited w1) T = contents w T" "round (visited w1) = round w" "marks (visited w1) = marks w1"
        using v(2) s(5,6) by (simp_all add: gc_loop_def gc_rest_def visited_def)
      from less(1)[OF nat(1) v(1) nat(2) s(7)] obtain ret w' Q' where r: "st_gc_mark_garbage_tables env (qhead w k) (visited w1) = Some (ret, w')"
        "gc_ok w' T Q'" "gc_loop (visited w1) w'" "contents w' T = contents (visited w1) T" "Q' 0 = []" "k = 2 \<longrightarrow> Q' 1 = Q1 1"
        "ret = ST_OK \<or> ret = ST_EMPTY \<and> Q' k = []" "tracks (contents w T) (dom T) (round w) (marks w1) Q1 (marks w') Q'"
        unfolding h using c1 by auto
      have "st_gc_mark_garbage_tables env (qhead w k) w = Some (ret, w')"
        using True s(1-3) r(1) by (subst st_gc_mark_garbage_tables.simps) simp
      then show ?thesis using r(2,4-7) v(2) s(6,8) gc_loop_trans[OF lp r(3)] tracks_trans[OF s(9) r(8)] by (intro exI[of _ ret] exI[of _ w'] exI[of _ Q']) simp
    qed
  qed
qed

end
