(* ===== verification/Gc_Run.thy ===== *)
theory Gc_Run
  imports Gc_Mark
begin

text \<open>
  A run of the collector: the start of a round, marking, freeing and the end of the round.  What a
  run may do to the tables is stated on their graph: it removes tables that the roots do not reach
  and changes nothing else.
\<close>

section \<open>What a run promises\<close>

definition collects :: "contents \<Rightarrow> addr set \<Rightarrow> addr set \<Rightarrow> contents \<Rightarrow> addr set \<Rightarrow> bool" where
  "collects C D R C' D' \<longleftrightarrow> (\<exists>F \<subseteq> D. F \<inter> reach C R = {} \<and> D' = D - F \<and> C' = (\<lambda>t. if t \<in> F then Map.empty else C t))"

lemma collects_refl [simp]: "collects C D R C D"
  unfolding collects_def by (intro exI[of _ "{}"]) simp

lemma reach_without:
  assumes "F \<inter> reach C R = {}"
  shows "reach (\<lambda>t. if t \<in> F then Map.empty else C t) R = reach C R"
proof
  let ?C = "\<lambda>t. if t \<in> F then Map.empty else C t"
  show "reach ?C R \<subseteq> reach C R" by (rule reach_less) (auto simp: child_def split: if_splits)
  show "reach C R \<subseteq> reach ?C R"
  proof
    fix t assume "t \<in> reach C R"
    then show "t \<in> reach ?C R"
    proof induction
      case (follow t a)
      then have "child ?C t a" using assms by (auto simp: child_def)
      then show ?case using follow(3) by (rule reach.follow[rotated])
    qed (rule reach.start)
  qed
qed

lemma collects_reach:
  assumes "collects C D R C' D'"
  shows "reach C' R = reach C R" "t \<in> reach C R \<Longrightarrow> C' t = C t" "reach C R \<subseteq> D \<Longrightarrow> reach C R \<subseteq> D'" "D' \<subseteq> D"
    "t \<in> D' \<Longrightarrow> C' t = C t"
  using assms reach_without[of _ C R] unfolding collects_def by auto

lemma collects_trans:
  assumes "collects C D R C1 D1" "collects C1 D1 R C2 D2"
  shows "collects C D R C2 D2"
proof -
  obtain F where F: "F \<subseteq> D" "F \<inter> reach C R = {}" "D1 = D - F" "C1 = (\<lambda>t. if t \<in> F then Map.empty else C t)"
    using assms(1) unfolding collects_def by blast
  obtain G where G: "G \<subseteq> D1" "G \<inter> reach C1 R = {}" "D2 = D1 - G" "C2 = (\<lambda>t. if t \<in> G then Map.empty else C1 t)"
    using assms(2) unfolding collects_def by blast
  have "(F \<union> G) \<inter> reach C R = {}" using F(2) G(2) collects_reach(1)[OF assms(1)] by blast
  moreover have "C2 = (\<lambda>t. if t \<in> F \<union> G then Map.empty else C t)" unfolding G(4) F(4) by auto
  ultimately show ?thesis unfolding collects_def using F(1,3) G(1,3) by (intro exI[of _ "F \<union> G"]) auto
qed

lemma collects_one:
  assumes "g \<in> D" "g \<notin> reach C R"
  shows "collects C D R (C(g := Map.empty)) (D - {g})"
  unfolding collects_def using assms by (intro exI[of _ "{g}"]) auto

text \<open>
  The memory of the tables that are taken away.  The trees of the tables that stay are the same, the
  objects in use that belong to no table are the same, and the counter of the tables is lower by the
  number of tables that are gone: what is gone has been given back to the allocator.
\<close>

definition releases :: "world \<Rightarrow> tables \<Rightarrow> world \<Rightarrow> tables \<Rightarrow> bool" where
  "releases w T w' T' \<longleftrightarrow> T' \<subseteq>\<^sub>m T \<and> finite (dom T - dom T') \<and> spare w' T' = spare w T \<and>
     w_table_cnt w' = w_table_cnt w - int (card (dom T - dom T'))"

lemma releases_same: "live w' = live w \<Longrightarrow> w_table_cnt w' = w_table_cnt w \<Longrightarrow> releases w T w' T"
  using spare_same[of w' w T] by (simp add: releases_def)

lemma releases_loop: "gc_loop w w' \<Longrightarrow> releases w T w' T"
  by (rule releases_same) (simp_all add: gc_loop_def)

lemma releases_trans:
  assumes "releases w T w1 T1" "releases w1 T1 w2 T2"
  shows "releases w T w2 T2"
proof -
  have le: "T2 \<subseteq>\<^sub>m T" using assms map_le_trans[of T2 T1 T] by (simp add: releases_def)
  have sub: "dom T1 \<subseteq> dom T" "dom T2 \<subseteq> dom T1" using assms by (simp_all add: releases_def map_le_implies_dom_le)
  then have d: "dom T - dom T2 = (dom T - dom T1) \<union> (dom T1 - dom T2)" by blast
  have fin: "finite (dom T - dom T1)" "finite (dom T1 - dom T2)" using assms by (simp_all add: releases_def)
  then have "card (dom T - dom T2) = card (dom T - dom T1) + card (dom T1 - dom T2)" unfolding d by (intro card_Un_disjoint) auto
  then show ?thesis using assms le fin unfolding releases_def d by simp
qed

lemma objs_mono: "T' \<subseteq>\<^sub>m T \<Longrightarrow> objs T' \<subseteq> objs T"
  unfolding objs_def elems_of_def map_le_def by (auto simp: dom_def)

lemma releases_live:
  assumes "releases w T w' T'" "a \<in> objs T" "a \<notin> objs T'"
  shows "(a, n) \<notin> live w'"
proof
  assume "(a, n) \<in> live w'"
  then have "(a, n) \<in> spare w' T'" using assms(3) by (simp add: spare_def)
  then have "(a, n) \<in> spare w T" using assms(1) by (simp add: releases_def)
  then show False using assms(2) by (simp add: spare_def)
qed

section \<open>Freeing a table\<close>

lemma world_shrink:
  assumes "world_ok w T Q" "\<And>k. k < 5 \<Longrightarrow> g \<notin> set (Q k)"
  shows "world_ok w (T(g := None)) Q"
proof -
  have sub: "T t = Some tr" if "(T(g := None)) t = Some tr" for t tr using that by (simp split: if_splits)
  then have "elems_of (T(g := None)) \<subseteq> elems_of T" "dom (T(g := None)) \<subseteq> dom T" unfolding elems_of_def by blast+
  then have "apart_tables (T(g := None))" using world_okD(3)[OF assms(1)] sub unfolding apart_tables_def by blast
  moreover have "queues_ok w (dom (T(g := None))) Q" using world_okD(4)[OF assms(1)] assms(2) unfolding queues_ok_def by auto
  ultimately show ?thesis using world_okD(1,2)[OF assms(1)] by (simp add: world_ok_def)
qed

lemma drop_table_same:
  assumes "world_ok w T Q" "g \<notin> dom T"
  shows "world_same w ((upd_table g f w)\<lparr>w_table_cnt := n\<rparr>) T"
proof -
  have "(t, 256) \<in> live w" if "t \<in> dom T" for t by (rule table_nodes(1)[OF assms(1) that])
  moreover have "t \<noteq> g" if "t \<in> dom T" for t using assms(2) that by metis
  ultimately show ?thesis by (simp add: world_same_def elem_same_def upd_table_def)
qed

lemma table_free_ok:
  assumes "world_ok w T Q" "T g = Some E" "\<And>k. k < 5 \<Longrightarrow> g \<notin> set (Q k)" "env_ok env w"
  shows "\<exists>w'. st_table_free env w g = Some (ST_OK, w') \<and> world_ok w' (T(g := None)) Q \<and> contents w' (T(g := None)) = contents w T \<and>
    gc_rest w w' \<and> w_gc w' = w_gc w \<and> marks w' = marks w \<and> tb_element_cnt (w_tables w' g) = 0 \<and>
    spare w' (T(g := None)) = spare w T \<and> w_table_cnt w' = w_table_cnt w - 1"
proof -
  let ?T = "T(g := None)"
  let ?w1 = "(upd_table g (\<lambda>tb. tb\<lparr>tb_pool := NULL, tb_version := 0, tb_element_cnt := 0, tb_inited := False\<rparr>) w)\<lparr>w_table_cnt := w_table_cnt w - 1\<rparr>"
  have ok: "world_ok w ?T Q" by (rule world_shrink[OF assms(1,3)])
  have nd: "g \<notin> dom ?T" by simp
  have s1: "world_same w ?w1 ?T" by (rule drop_table_same[OF ok nd])
  have inv1: "slab_inv (w_slab ?w1) (w_mem ?w1)" using world_okD(1)[OF assms(1)] by (simp add: upd_table_def)
  note f1 = world_frame[OF ok s1 inv1]
  have g: "(g, 256) \<in> live ?w1" using table_nodes(1)[OF assms(1), of g] assms(2) by (auto simp: upd_table_def)
  have "env_madvise env g = Inr ()" using assms(4) by (simp add: env_ok_def)
  with slab_free_step[OF world_okD(1)[OF f1(1)] g, of "env_pid env"] obtain sp mem where
    f: "st_slab_obj_free (env_madvise env g) (env_pid env) (w_slab ?w1) (w_mem ?w1) g = Some (ST_OK, sp, mem)"
    "slab_step (w_slab ?w1) (w_mem ?w1) sp mem" "slab_live sp mem = live ?w1 - {(g, 256)}" by auto
  let ?w2 = "?w1\<lparr>w_slab := sp, w_mem := mem\<rparr>"
  have inv: "slab_inv sp mem" and area: "region_area (pp_region_cb (sl_page_pool sp)) = w_area w" using f(2) by (simp_all add: slab_step_def upd_table_def)
  have "g \<notin> elems_of T" using world_okD(3)[OF assms(1)] assms(2) unfolding apart_tables_def by blast
  then have "g \<notin> objs ?T" unfolding objs_def elems_of_def by (auto split: if_splits)
  then have "world_same ?w1 ?w2 ?T" by (intro slab_step_same[OF f1(1) f(2)]) (use f(3) in auto)
  note f2 = world_frame[OF f1(1) this] 
  have "st_table_destroy w g = (ST_OK, upd_table g (\<lambda>tb. tb\<lparr>tb_pool := NULL, tb_version := 0, tb_element_cnt := 0, tb_inited := False\<rparr>) w)"
    using table_okD(1,4)[OF assms(1,2)] by (simp add: st_table_destroy_def st_robustlock_destroy_def pthread_mutex_destroy_def lock_free_def)
  then have "st_table_free env w g = Some (ST_OK, ?w2)"
    using f(1) table_args[OF assms(1), of g] assms(2) by (simp add: st_table_free_def Let_def upd_table_def domI)
  moreover have "contents ?w2 ?T = contents w T"
  proof
    fix t
    have "contents w ?T t = contents w T t" using assms(2) by (simp add: contents_def entries_def)
    then show "contents ?w2 ?T t = contents w T t" using f2(3)[of t] f1(3)[of t] inv by simp
  qed
  moreover have "spare ?w2 ?T = spare w T"
  proof -
    have "live ?w2 = without g (live w)" using f(3) live_without[OF inv1 g] by (simp add: upd_table_def)
    moreover have "objs T = insert g (objs ?T)"
    proof -
      have "?T t = Some tr \<and> e \<in> set (inorder tr) \<longleftrightarrow> T t = Some tr \<and> e \<in> set (inorder tr)" for e t tr
        using assms(2) by (cases "t = g") auto
      then have "elems_of ?T = elems_of T" unfolding elems_of_def by (simp only:)
      then show ?thesis using assms(2) by (auto simp: objs_def)
    qed
    ultimately show ?thesis by (auto simp: spare_def without_def)
  qed
  moreover have "versions_up w ?w2" by (simp add: versions_up_def upd_table_def)
  ultimately show ?thesis using f2(1) inv area by (intro exI[of _ ?w2]) (simp add: gc_rest_def fun_eq_iff upd_table_def)
qed

lemma free_one_ok:
  assumes "gc_ok w T Q" "gc_begin (w_gc w)" "Q 0 = []" "Q 1 = []" "Q 2 = []" "Q 3 = g # q" "env_ok env w"
  shows "\<exists>ln w1 w'. st_list_pop_first (w_list w) (garbage_queue (w_gc w)) = Some (sweep_lnode g, ln) \<and> sweep_lnode g \<noteq> NULL \<and>
    st_table_remove_all_for_gc env (set_list ln w) g = Some (ST_OK, w1) \<and> st_table_free env w1 g = Some (ST_OK, w') \<and>
    gc_ok w' (T(g := None)) (Q(3 := q)) \<and> gc_rest w w' \<and> w_gc w' = w_gc w \<and> marks w' = marks w \<and> tb_element_cnt (w_tables w' g) = 0 \<and>
    collects (contents w T) (dom T) (root_set w) (contents w' (T(g := None))) (dom (T(g := None))) \<and> releases w T w' (T(g := None))"
proof -
  note ok = gc_okD[OF assms(1)]
  let ?C = "contents w T" and ?Q = "Q(3 := q)" and ?T = "T(g := None)"
  obtain ln where p: "st_list_pop_first (w_list w) (qhead w 3) = Some (qnode 3 g, ln)" "world_ok (set_list ln w) T ?Q"
    "contents (set_list ln w) T = ?C" "qnode 3 g \<noteq> NULL" "g \<in> dom T" "\<not> in_queue ?Q 3 g" "live (set_list ln w) = live w"
    using queue_pop_ok(2)[OF ok(1) _ assms(6)] by auto
  obtain tr where tr: "T g = Some tr" using p(5) by blast
  have e1: "env_ok env (set_list ln w)" by (rule env_ok_area[OF assms(7)]) simp
  obtain w1 where r: "with_table_lock env g (set_list ln w) (remove_all_body env g False) = Some (ST_OK, w1)" "world_ok w1 (T(g \<mapsto> E)) ?Q"
    "section_rest (set_list ln w) w1" "contents w1 (T(g \<mapsto> E)) = ?C(g := Map.empty)" "spare w1 (T(g \<mapsto> E)) = spare (set_list ln w) T"
    using remove_all_locked[OF p(2) _ tr e1, of False] p(3) by (auto simp: walk_refs_def)
  have all: "st_table_remove_all_for_gc env (set_list ln w) g = Some (ST_OK, w1)"
    using r(1) table_args[OF ok(1) p(5)] by (simp add: st_table_remove_all_for_gc_def)
  have e2: "env_ok env w1" by (rule env_ok_area[OF assms(7)]) (use r(3) in \<open>simp add: rest_defs\<close>)
  have nq: "g \<notin> set (?Q k)" if "k < 5" for k
    using p(6) assms(3) that by (cases "k = 0") (auto simp: in_queue_def rivals_def numeral_eq_Suc less_Suc_eq)
  obtain w' where f: "st_table_free env w1 g = Some (ST_OK, w')" "world_ok w' ((T(g \<mapsto> E))(g := None)) ?Q"
    "contents w' ((T(g \<mapsto> E))(g := None)) = contents w1 (T(g \<mapsto> E))" "gc_rest w1 w'" "w_gc w' = w_gc w1" "marks w' = marks w1"
    "tb_element_cnt (w_tables w' g) = 0" "spare w' ((T(g \<mapsto> E))(g := None)) = spare w1 (T(g \<mapsto> E))" "w_table_cnt w' = w_table_cnt w1 - 1" using table_free_ok[of w1 "T(g \<mapsto> E)" ?Q g env, OF r(2) _ nq e2] by auto
  have T: "(T(g \<mapsto> E))(g := None) = ?T" by simp
  have gc: "w_gc w' = w_gc w" "gc_rest w w'" "marks w' = marks w"
    using f(4-6) r(3) gc_rest_trans[of w w1 w'] by (simp_all add: section_rest_def frame_rest_def gc_rest_def same_marks_def fun_eq_iff)
  have g: "gc_graph ?C (dom T) (root_set w) (marks w) (round w) True Q" using ok(3) assms(2) by simp
  have "g \<notin> set q" using nq[of 3] by simp
  note gf = graph_free[OF g assms(3-6) this refl]
  have d: "dom ?T = dom T - {g}" by auto
  have c: "contents w' ?T = ?C(g := Map.empty)" using f(3) r(4) unfolding T by simp
  have "gc_ok w' ?T ?Q" by (rule gc_okI[OF assms(1) gc(2)]) (use f(2) gf(1) assms(2) in \<open>simp_all add: T gc c d\<close>)
  moreover have "collects ?C (dom T) (root_set w) (contents w' ?T) (dom ?T)" unfolding c d by (rule collects_one[OF p(5) gf(2)])
  moreover have "releases w T w' ?T"
  proof -
    have "dom T - dom ?T = {g}" using p(5) by auto
    moreover have "w_table_cnt w1 = w_table_cnt w" using r(3) by (simp add: rest_defs)
    moreover have "spare w' ?T = spare w T" using f(8) r(5) spare_same[OF p(7), of T] unfolding T by simp
    ultimately show ?thesis using f(9) by (simp add: releases_def map_le_def)
  qed
  ultimately show ?thesis using p(1,4) all f(1,7) gc unfolding queue_heads
    by (intro exI[of _ ln] exI[of _ w1] exI[of _ w']) (simp add: qnode_def)
qed

lemma root_set_rest: "gc_rest w w' \<Longrightarrow> root_set w' = root_set w"
  by (simp add: gc_rest_def root_set_def)

lemma free_loop_ok:
  assumes "gc_ok w T Q" "gc_begin (w_gc w)" "Q 0 = []" "Q 1 = []" "Q 2 = []" "env_ok env w"
  shows "\<exists>r w' T' Q'. free_loop env w = Some (r, w') \<and> gc_ok w' T' Q' \<and> gc_rest w w' \<and> Q' 0 = [] \<and> Q' 1 = [] \<and> Q' 2 = [] \<and> marks w' = marks w \<and>
    collects (contents w T) (dom T) (root_set w) (contents w' T') (dom T') \<and> (r = None \<or> r = Some ST_EMPTY \<and> Q' 3 = []) \<and> releases w T w' T'"
  using assms
proof (induction "nat (gc_max_free_cnt (w_gc w) - gc_curr_free_cnt (w_gc w))" arbitrary: w T Q rule: less_induct)
  case less
  show ?case
  proof (cases "gc_curr_free_cnt (w_gc w) < gc_max_free_cnt (w_gc w)")
    case False
    then show ?thesis using less(2-6) by (intro exI[of _ None] exI[of _ w] exI[of _ T] exI[of _ Q]) (subst free_loop.simps, simp add: releases_same)
  next
    case True
    show ?thesis
    proof (cases "Q 3")
      case Nil
      then have "free_loop env w = Some (Some ST_EMPTY, w)"
        using True queue_pop_ok(1)[OF gc_okD(1)[OF less(2)], of 3] by (subst free_loop.simps) (simp add: queue_heads)
      then show ?thesis using less(2-6) Nil by (intro exI[of _ "Some ST_EMPTY"] exI[of _ w] exI[of _ T] exI[of _ Q]) (simp add: releases_same)
    next
      case (Cons g q)
      obtain ln w1 w2 where s: "st_list_pop_first (w_list w) (garbage_queue (w_gc w)) = Some (sweep_lnode g, ln)" "sweep_lnode g \<noteq> NULL"
        "st_table_remove_all_for_gc env (set_list ln w) g = Some (ST_OK, w1)" "st_table_free env w1 g = Some (ST_OK, w2)"
        "gc_ok w2 (T(g := None)) (Q(3 := q))" "gc_rest w w2" "w_gc w2 = w_gc w" "tb_element_cnt (w_tables w2 g) = 0" "marks w2 = marks w"
        "collects (contents w T) (dom T) (root_set w) (contents w2 (T(g := None))) (dom (T(g := None)))" "releases w T w2 (T(g := None))"
        using free_one_ok[OF less(2-6) Cons less(7)] by blast
      let ?f = "\<lambda>gc. gc\<lparr>gc_curr_free_cnt := gc_curr_free_cnt gc + 1 + tb_element_cnt (w_tables w2 g)\<rparr>"
      let ?w = "set_gc ?f w2"
      have "gc_rest w2 ?w" by (simp add: gc_rest_def)
      note v = gc_ok_count[OF s(5) this] and gr = gc_rest_trans[OF s(6) this]
      have "nat (gc_max_free_cnt (w_gc ?w) - gc_curr_free_cnt (w_gc ?w)) < nat (gc_max_free_cnt (w_gc w) - gc_curr_free_cnt (w_gc w))"
        "gc_begin (w_gc ?w)" using True s(7,8) less(3) by simp_all
      note ih = less(1)[OF this(1) v(1) this(2) _ _ _ gc_rest_env[OF gr less(7)], unfolded v(2) root_set_rest[OF gr]]
      obtain r w' T' Q' where r: "free_loop env ?w = Some (r, w')" "gc_ok w' T' Q'" "gc_rest ?w w'" "Q' 0 = []" "Q' 1 = []" "Q' 2 = []"
        "collects (contents w2 (T(g := None))) (dom (T(g := None))) (root_set w) (contents w' T') (dom T')" "r = None \<or> r = Some ST_EMPTY \<and> Q' 3 = []"
        "marks w' = marks w" "releases ?w (T(g := None)) w' T'" using ih less(4-6) s(9) by auto
      have "releases w2 (T(g := None)) ?w (T(g := None))" by (rule releases_same) simp_all
      note rl = releases_trans[OF releases_trans[OF s(11) this] r(10)]
      have "owner_sweep (sweep_lnode g) = g" by (simp add: owner_sweep_def sweep_lnode_def)
      then have "free_loop env w = Some (r, w')" using True s(1-4) r(1) by (subst free_loop.simps) (simp add: Let_def)
      then show ?thesis using r(2,4-6,8,9) gc_rest_trans[OF gr r(3)] collects_trans[OF s(10) r(7)] rl
        by (intro exI[of _ r] exI[of _ w'] exI[of _ T'] exI[of _ Q']) simp
    qed
  qed
qed

section \<open>The start of a round\<close>

lemma roots_loop_ok:
  assumes "world_ok w T Q" "arr_ok (gc_roots (w_gc w))" "root_set w \<subseteq> dom T" "0 \<le> i"
  shows "\<exists>ln Q'. roots_loop i w = Some (set_list ln w) \<and> world_ok (set_list ln w) T Q' \<and> contents (set_list ln w) T = contents w T \<and>
    live (set_list ln w) = live w \<and> (\<forall>j. j \<noteq> 0 \<longrightarrow> Q' j = Q j) \<and> set (Q 0) \<subseteq> set (Q' 0) \<and> set (Q' 0) \<subseteq> set (Q 0) \<union> root_set w \<and>
    set (drop (nat i) (arr_list (gc_roots (w_gc w)))) \<subseteq> set (Q' 0)"
  using assms
proof (induction i w arbitrary: Q rule: roots_loop.induct)
  case (1 i w)
  let ?rs = "arr_list (gc_roots (w_gc w))"
  show ?case
  proof (cases "i < st_array_current_cnt (gc_roots (w_gc w))")
    case False
    then have "drop (nat i) ?rs = []" using 1(4,6) by (simp add: length_arr_list st_array_current_cnt_def)
    then show ?thesis using False 1(3) by (intro exI[of _ "w_list w"] exI[of _ Q]) (subst roots_loop.simps, simp)
  next
    case True
    let ?h = "?rs ! nat i"
    have c: "cell_at (gc_roots (w_gc w)) i = Some ?h" and l: "nat i < length ?rs"
      using cell_at_list[OF 1(4,6)] length_arr_list[OF 1(4)] True 1(6) by (simp_all add: st_array_current_cnt_def)
    have h: "?h \<in> root_set w" unfolding root_set_def by (rule nth_mem[OF l])
    with 1(5) have h: "?h \<in> root_set w" "?h \<in> dom T" by blast+
    have d: "drop (nat i) ?rs = ?h # drop (nat (i + 1)) ?rs" using l 1(6) by (simp add: Cons_nth_drop_Suc[symmetric] nat_add_distrib)
    have q: "st_list_is_inited (w_list w) (mark_lnode ?h) \<longleftrightarrow> ?h \<in> set (Q 0)"
      using queue_inited[OF 1(3) h(2), of 0] by (simp add: qnode_def in_queue_def rivals_def)
    show ?thesis
    proof (cases "?h \<in> set (Q 0)")
      case in_q: True
      obtain ln Q' where r: "roots_loop (i + 1) w = Some (set_list ln w)" "world_ok (set_list ln w) T Q'" "contents (set_list ln w) T = contents w T"
        "\<forall>j. j \<noteq> 0 \<longrightarrow> Q' j = Q j" "set (Q 0) \<subseteq> set (Q' 0)" "set (Q' 0) \<subseteq> set (Q 0) \<union> root_set w" "set (drop (nat (i + 1)) ?rs) \<subseteq> set (Q' 0)"
        "live (set_list ln w) = live w" using 1(1)[OF True c _ 1(3-5)] q in_q 1(6) by auto
      have "roots_loop i w = Some (set_list ln w)" using True c q in_q r(1) by (subst roots_loop.simps) simp
      then show ?thesis using r in_q unfolding d by (intro exI[of _ ln] exI[of _ Q']) auto
    next
      case False
      then obtain ln1 where i: "st_list_insert_last (w_list w) (qhead w 0) (qnode 0 ?h) = Some ln1" "world_ok (set_list ln1 w) T (Q(0 := Q 0 @ [?h]))"
        "contents (set_list ln1 w) T = contents w T" "live (set_list ln1 w) = live w" using queue_insert_ok[OF 1(3) h(2), of 0] by (auto simp: in_queue_def rivals_def)
      have i': "st_list_insert_last (w_list w) (mark_queue (w_gc w)) (mark_lnode ?h) = Some ln1" using i(1) by (simp add: queue_heads qnode_def)
      have rs: "root_set (set_list ln1 w) = root_set w" by (simp add: root_set_def)
      obtain ln Q' where r: "roots_loop (i + 1) (set_list ln1 w) = Some (set_list ln w)" "world_ok (set_list ln w) T Q'" "contents (set_list ln w) T = contents w T"
        "\<forall>j. j \<noteq> 0 \<longrightarrow> Q' j = Q j" "set (Q 0 @ [?h]) \<subseteq> set (Q' 0)" "set (Q' 0) \<subseteq> set (Q 0 @ [?h]) \<union> root_set w" "set (drop (nat (i + 1)) ?rs) \<subseteq> set (Q' 0)"
        "live (set_list ln w) = live w" using 1(2)[OF True c _ i' i(2)] False q 1(4-6) i(3,4) unfolding rs by auto
      have "roots_loop i w = Some (set_list ln w)" using True c q False i' r(1) by (subst roots_loop.simps) simp
      then show ?thesis using r h(1) unfolding d by (intro exI[of _ ln] exI[of _ Q']) auto
    qed
  qed
qed

lemma begin_ok:
  assumes "gc_ok w T Q" "\<not> gc_begin (w_gc w)"
  shows "\<exists>ln Q'. st_gc_roots_to_mark_queue w = Some (set_list ln w) \<and>
    gc_ok (set_gc (\<lambda>gc. gc\<lparr>gc_begin := True\<rparr>) (set_list ln w)) T Q' \<and> contents (set_list ln w) T = contents w T \<and> live (set_list ln w) = live w \<and>
    set (Q' 0) \<subseteq> set (Q 0) \<union> root_set w \<and> Q' 1 = Q 1 \<and> Q' 2 = Q 2"
proof -
  note ok = gc_okD[OF assms(1)]
  have R: "root_set w \<subseteq> dom T" by (rule gc_graph_reach(2)[OF ok(3)])
  obtain ln Q' where r: "roots_loop 0 w = Some (set_list ln w)" "world_ok (set_list ln w) T Q'" "contents (set_list ln w) T = contents w T"
    "\<forall>j. j \<noteq> 0 \<longrightarrow> Q' j = Q j" "set (Q' 0) \<subseteq> set (Q 0) \<union> root_set w" "root_set w \<subseteq> set (Q' 0)"
    "live (set_list ln w) = live w" using roots_loop_ok[OF ok(1) _ R, of 0] ok(2) unfolding root_set_def roots_ok_def by auto
  let ?w = "set_gc (\<lambda>gc. gc\<lparr>gc_begin := True\<rparr>) (set_list ln w)"
  note core = same_core[OF set_gc_core, of "\<lambda>gc. gc\<lparr>gc_begin := True\<rparr>" "set_list ln w"]
  have g: "gc_graph (contents w T) (dom T) (root_set w) (marks w) (round w) False Q" using ok(3) assms(2) by simp
  have "gc_graph (contents w T) (dom T) (root_set w) (marks w) (round w) True Q'" 
    by (rule graph_begin[of _ _ _ _ _ Q Q', OF g r(6,5)]) (use r(4) in blast)
  then have "gc_ok ?w T Q'" using core(3,4) r(2,3) ok(2) by (simp add: gc_ok_def root_set_def)
  then show ?thesis using r(1,3,5,7) r(4)[rule_format, of 1] r(4)[rule_format, of 2] unfolding st_gc_roots_to_mark_queue_def by auto
qed

section \<open>Marking and freeing within a run\<close>

abbreviation run_code :: "st_error \<Rightarrow> bool" where
  "run_code ret \<equiv> ret = ST_OK \<or> (\<exists>e. ret = Errno e)"

lemma mark_quit_ok:
  assumes "gc_ok w T Q" "mark_quit gp env start_usec ret w = (ret', w')"
  shows "gc_ok w' T Q" "gc_rest w w'" "contents w' T = contents w T" "ret' = ret \<or> (\<exists>e. ret' = Errno e)"
    "marks w' = marks w" "releases w T w' T"
proof -
  let ?f = "\<lambda>usec gc. gc\<lparr>gc_max_visit_cnt := max 1 (gp_visit_rate gp usec (gc_curr_visit_cnt gc))\<rparr>"
  have "gc_rest w (set_gc (?f usec) w)" for usec by (simp add: gc_rest_def)
  note f = gc_ok_count[OF assms(1) this] this
  have "gc_ok w' T Q \<and> gc_rest w w' \<and> contents w' T = contents w T \<and> (ret' = ret \<or> (\<exists>e. ret' = Errno e)) \<and> marks w' = marks w \<and> releases w T w' T"
    using assms f releases_same[of w w T] releases_same[of "set_gc (?f usec) w" w T for usec] by (auto simp: mark_quit_def split: sum.splits if_splits)
  then show "gc_ok w' T Q" "gc_rest w w'" "contents w' T = contents w T" "ret' = ret \<or> (\<exists>e. ret' = Errno e)" "marks w' = marks w"
    "releases w T w' T" by blast+
qed

lemma gc_loop_rest: "gc_loop w w' \<Longrightarrow> gc_rest w w'"
  by (simp add: gc_loop_def)

lemma gc_rest_begin: "gc_rest w w' \<Longrightarrow> gc_begin (w_gc w') = gc_begin (w_gc w)"
  by (simp add: gc_rest_def)

lemma mark_tables_ok:
  assumes "gc_ok w T Q" "gc_begin (w_gc w)"
  shows "\<exists>ret w' Q'. st_gc_mark_tables gp env w = Some (ret, w') \<and> gc_ok w' T Q' \<and> gc_rest w w' \<and> contents w' T = contents w T \<and>
    tracks (contents w T) (dom T) (round w) (marks w) Q (marks w') Q' \<and>
    (run_code ret \<or> ret = ST_EMPTY \<and> Q' 0 = [] \<and> Q' 1 = [] \<and> Q' 2 = []) \<and> releases w T w' T"
proof (cases "env_time env 1")
  case (Inl e)
  then show ?thesis using assms by (intro exI[of _ "Errno e"] exI[of _ w] exI[of _ Q]) (simp add: st_gc_mark_tables_def releases_same)
next
  case (Inr usec)
  let ?q = "mark_quit gp env usec"
  have quit: "\<exists>ret' w' Q'. Some (?q ret w1) = Some (ret', w') \<and> gc_ok w' T Q' \<and> gc_rest w w' \<and> contents w' T = contents w T \<and>
      tracks (contents w T) (dom T) (round w) (marks w) Q (marks w') Q' \<and>
      (run_code ret' \<or> ret' = ST_EMPTY \<and> Q' 0 = [] \<and> Q' 1 = [] \<and> Q' 2 = []) \<and> releases w T w' T"
    if "gc_ok w1 T Q1" "gc_rest w w1" "contents w1 T = contents w T" "ret = ST_OK \<or> ret = ST_EMPTY \<and> Q1 0 = [] \<and> Q1 1 = [] \<and> Q1 2 = []"
      "tracks (contents w T) (dom T) (round w) (marks w) Q (marks w1) Q1" "releases w T w1 T" for ret w1 Q1
    using mark_quit_ok[OF that(1), of gp env usec ret "fst (?q ret w1)" "snd (?q ret w1)"] that(2-5) gc_rest_trans[OF that(2), of "snd (?q ret w1)"] releases_trans[OF that(6), of "snd (?q ret w1)" T]
    by (intro exI[of _ "fst (?q ret w1)"] exI[of _ "snd (?q ret w1)"] exI[of _ Q1]) auto
  obtain r1 w1 Q1 where m: "st_gc_mark_reachable_tables env w = Some (r1, w1)" "gc_ok w1 T Q1" "gc_loop w w1" "contents w1 T = contents w T"
    "r1 = ST_OK \<or> r1 = ST_EMPTY \<and> Q1 0 = []" "tracks (contents w T) (dom T) (round w) (marks w) Q (marks w1) Q1"
    using mark_reachable_ok[OF assms] by blast
  note g1 = gc_loop_rest[OF m(3)] and l1 = releases_loop[OF m(3), of T]
  show ?thesis
  proof (cases "r1 = ST_OK")
    case True
    then show ?thesis using quit[OF m(2) g1 m(4), of ST_OK] Inr m(1,6) l1 by (simp add: st_gc_mark_tables_def)
  next
    case False
    then have q0: "r1 = ST_EMPTY" "Q1 0 = []" using m(5) by auto
    have b1: "gc_begin (w_gc w1)" using gc_rest_begin[OF g1] assms(2) by simp
    obtain r2 w2 Q2 where p: "st_gc_mark_garbage_tables env (qhead w1 1) w1 = Some (r2, w2)" "gc_ok w2 T Q2" "gc_loop w1 w2"
      "contents w2 T = contents w1 T" "Q2 0 = []" "r2 = ST_OK \<or> r2 = ST_EMPTY \<and> Q2 1 = []"
      "tracks (contents w1 T) (dom T) (round w1) (marks w1) Q1 (marks w2) Q2" using mark_garbage_ok[OF m(2) b1 q0(2), of 1] by blast
    have rd: "round w1 = round w" "round w2 = round w" using g1 gc_loop_rest[OF p(3)] by (simp_all add: gc_rest_def)
    have t2: "tracks (contents w T) (dom T) (round w) (marks w) Q (marks w2) Q2" by (rule tracks_trans[OF m(6) p(7)[unfolded rd m(4)]])
    note g2 = gc_rest_trans[OF g1 gc_loop_rest[OF p(3)]] and l2 = releases_trans[OF l1 releases_loop[OF p(3), of T]]
    show ?thesis
    proof (cases "r2 = ST_OK")
      case True
      then show ?thesis using quit[OF p(2) g2, of ST_OK] p(1,4) m(1,4) q0(1) Inr t2 l2 by (simp add: st_gc_mark_tables_def queue_heads)
    next
      case False
      then have q1: "r2 = ST_EMPTY" "Q2 1 = []" using p(6) by auto
      have b2: "gc_begin (w_gc w2)" using gc_rest_begin[OF g2] assms(2) by simp
      obtain r3 w3 Q3 where s: "st_gc_mark_garbage_tables env (qhead w2 2) w2 = Some (r3, w3)" "gc_ok w3 T Q3" "gc_loop w2 w3"
        "contents w3 T = contents w2 T" "Q3 0 = []" "Q3 1 = Q2 1" "r3 = ST_OK \<or> r3 = ST_EMPTY \<and> Q3 2 = []"
        "tracks (contents w2 T) (dom T) (round w2) (marks w2) Q2 (marks w3) Q3" using mark_garbage_ok[OF p(2) b2 p(5), of 2] by blast
      note g3 = gc_rest_trans[OF g2 gc_loop_rest[OF s(3)]] and l3 = releases_trans[OF l2 releases_loop[OF s(3), of T]]
      have "st_gc_mark_tables gp env w = Some (?q r3 w3)" using Inr m(1) p(1) s(1,7) q0(1) q1(1) by (auto simp: st_gc_mark_tables_def queue_heads)
      moreover have "tracks (contents w T) (dom T) (round w) (marks w) Q (marks w3) Q3"
        by (rule tracks_trans[OF t2 s(8)[unfolded rd p(4) m(4)]])
      ultimately show ?thesis using quit[OF s(2) g3, of r3] s(4-7) p(4) m(4) q1(2) l3 by auto
    qed
  qed
qed

lemma free_tables_ok:
  assumes "gc_ok w T Q" "gc_begin (w_gc w)" "Q 0 = []" "Q 1 = []" "Q 2 = []" "env_ok env w"
  shows "\<exists>ret w' T' Q'. st_gc_free_tables gp env w = Some (ret, w') \<and> gc_ok w' T' Q' \<and> gc_rest w w' \<and> marks w' = marks w \<and>
    collects (contents w T) (dom T) (root_set w) (contents w' T') (dom T') \<and>
    (run_code ret \<or> ret = ST_EMPTY \<and> Q' 0 = [] \<and> Q' 1 = [] \<and> Q' 2 = [] \<and> Q' 3 = []) \<and> releases w T w' T'"
proof (cases "env_time env 3")
  case (Inl e)
  then show ?thesis using assms by (intro exI[of _ "Errno e"] exI[of _ w] exI[of _ T] exI[of _ Q]) (simp add: st_gc_free_tables_def releases_same)
next
  case (Inr usec)
  obtain r w1 T1 Q1 where f: "free_loop env w = Some (r, w1)" "gc_ok w1 T1 Q1" "gc_rest w w1" "Q1 0 = []" "Q1 1 = []" "Q1 2 = []"
    "collects (contents w T) (dom T) (root_set w) (contents w1 T1) (dom T1)" "r = None \<or> r = Some ST_EMPTY \<and> Q1 3 = []"
    "marks w1 = marks w" "releases w T w1 T1" using free_loop_ok[OF assms] by blast
  show ?thesis
  proof (cases r)
    case (Some x)
    then show ?thesis using f Inr by (intro exI[of _ ST_EMPTY] exI[of _ w1] exI[of _ T1] exI[of _ Q1]) (simp add: st_gc_free_tables_def)
  next
    case None
    let ?f = "\<lambda>usec gc. gc\<lparr>gc_max_free_cnt := max 1 (gp_free_rate gp usec (gc_curr_free_cnt gc))\<rparr>"
    have s: "gc_rest w1 (set_gc (?f u) w1)" for u by (simp add: gc_rest_def)
    have "\<exists>ret w'. st_gc_free_tables gp env w = Some (ret, w') \<and> run_code ret \<and> (w' = w1 \<or> (\<exists>u. w' = set_gc (?f u) w1))"
    proof (cases "env_time env 4")
      case (Inl e)
      then show ?thesis using f(1) Inr None by (intro exI[of _ "Errno e"] exI[of _ w1]) (simp add: st_gc_free_tables_def)
    next
      case (Inr v)
      then have "st_gc_free_tables gp env w = Some (ST_OK, if gc_curr_free_cnt (w_gc w1) > 0 then set_gc (?f (v - usec)) w1 else w1)"
        using f(1) \<open>env_time env 3 = Inr usec\<close> None by (simp add: st_gc_free_tables_def)
      then show ?thesis by (cases "gc_curr_free_cnt (w_gc w1) > 0") (simp only: if_True if_False, blast)+
    qed
    then obtain ret w' where w': "st_gc_free_tables gp env w = Some (ret, w')" "run_code ret" "w' = w1 \<or> (\<exists>u. w' = set_gc (?f u) w1)" by blast
    have "gc_ok w' T1 Q1 \<and> gc_rest w w' \<and> contents w' T1 = contents w1 T1 \<and> marks w' = marks w"
      using w'(3) gc_ok_count[OF f(2) s] gc_rest_trans[OF f(3) s] f(2,3,9) by auto
    moreover have "live w' = live w1" "w_table_cnt w' = w_table_cnt w1" using w'(3) by auto
    then have "releases w T w' T1" by (intro releases_trans[OF f(10)] releases_same)
    ultimately show ?thesis using w'(1,2) f(7) by (intro exI[of _ ret] exI[of _ w'] exI[of _ T1] exI[of _ Q1]) simp
  qed
qed

section \<open>The end of a round\<close>

lemma lists_join:
  assumes "nodes_ok h D" "lists_hold h ln D Q"
  defines "Q' \<equiv> Q(1 := Q 1 @ Q 4, 4 := [])"
  shows "\<exists>ln'. st_list_join ln (h 1) (h 4) = Some ln' \<and> lists_hold h ln' D Q' \<and> (\<forall>a. a \<notin> queue_nodes h D \<longrightarrow> ln' a = ln a)"
proof -
  have sub: "set (Q j) \<subseteq> D" "clist ln (h j) (map (qnode j) (Q j))" if "j < 5" for j using assms(2) that by (simp_all add: lists_hold_def)
  have q14: "qnode 4 = qnode 1" by (simp add: qnode_def fun_eq_iff)
  have dis: "set (Q i) \<inter> set (Q j) = {}" if "i \<in> {1, 2, 3, 4}" "j \<in> {1, 2, 3, 4}" "i \<noteq> j" for i j
    using assms(2) that unfolding lists_hold_def by blast
  have ap: "set (h i # map (qnode i) (Q i)) \<inter> set (h j # map (qnode j) (Q j)) = {}" if "i < 5" "j < 5" "i \<noteq> j" for i j
    by (rule queue_apart[OF assms(1) that sub(1)[OF that(1)] sub(1)[OF that(2)]]) (rule lists_disjoint[OF assms(2) that(1,2) _ that(3)])
  obtain ln' where l: "st_list_join ln (h 1) (h 4) = Some ln'" "clist ln' (h 1) (map (qnode 1) (Q 1 @ Q 4))" "clist ln' (h 4) []"
    "\<forall>a. a \<notin> set (h 1 # map (qnode 1) (Q 1) @ h 4 # map (qnode 4) (Q 4)) \<longrightarrow> ln' a = ln a"
    using list_join_clist[OF sub(2)[of 1] sub(2)[of 4] ap[of 1 4]] by (auto simp: q14)
  have fr: "ln' a = ln a" if "a \<notin> set (h 1 # map (qnode 1) (Q 1))" "a \<notin> set (h 4 # map (qnode 4) (Q 4))" for a using l(4) that by auto
  have c: "clist ln' (h j) (map (qnode j) (Q' j)) \<and> set (Q' j) \<subseteq> D" if j: "j < 5" for j
  proof (cases "j = 1 \<or> j = 4")
    case True
    then show ?thesis using l(2,3) sub(1)[of 1] sub(1)[of 4] by (auto simp: Q'_def)
  next
    case False
    have "set (h j # map (qnode j) (Q j)) \<inter> set (h k # map (qnode k) (Q k)) = {}" if "k \<in> {1, 4}" for k
      by (rule ap[OF j]) (use False that in auto)
    then have "ln' a = ln a" if "a \<in> set (h j # map (qnode j) (Q j))" for a by (intro fr) (use that in blast)+
    then show ?thesis using clist_frame[OF sub(2)[OF j], of ln'] sub(1)[OF j] False by (simp add: Q'_def)
  qed
  have d: "set (Q' i) \<inter> set (Q' j) = {}" if "i \<in> {1, 2, 3, 4}" "j \<in> {1, 2, 3, 4}" "i \<noteq> j" for i j
    using dis[of i j] dis[of 1 j] dis[of 4 j] dis[of i 1] dis[of i 4] that unfolding Q'_def by auto
  have n: "ln' (qnode j u) = null_node" if u: "u \<in> D" "j < 5" "\<not> in_queue Q' j u" for u j
  proof -
    have nq: "\<not> in_queue Q j u" using u(3) by (auto simp: in_queue_def Q'_def rivals_def split: if_splits)
    moreover have "qnode j u \<notin> set (h k # map (qnode k) (Q k))" if k: "k \<in> {1, 4}" for k
      by (rule node_apart[OF assms(1) _ u(1) sub(1)]) (use k nq in \<open>auto simp: in_queue_def rivals_def split: if_splits\<close>)
    ultimately show ?thesis using fr[of "qnode j u"] assms(2) u(1,2) by (simp add: lists_hold_def)
  qed
  have "lists_hold h ln' D Q'" unfolding lists_hold_def by (intro conjI allI ballI impI; rule c[THEN conjunct1] c[THEN conjunct2] d n; assumption)
  moreover have qn: "set (h k # map (qnode k) (Q k)) \<subseteq> queue_nodes h D" if "k < 5" for k using sub(1)[OF that] that by auto
  have "\<forall>a. a \<notin> queue_nodes h D \<longrightarrow> ln' a = ln a" using fr qn[of 1] qn[of 4]
    by (simp only: one_less_numeral_iff numeral_less_iff semiring_norm simp_thms) blast
  ultimately show ?thesis using l(1) by blast
qed

lemma join_ok:
  assumes "world_ok w T Q" "Q 1 = []"
  shows "\<exists>ln. st_list_join (w_list w) (prev_sweep_queue (w_gc w)) (remained_queue (w_gc w)) = Some ln \<and>
    world_ok (set_list ln w) T (Q(1 := Q 4, 4 := [])) \<and> contents (set_list ln w) T = contents w T \<and> live (set_list ln w) = live w"
proof -
  have l: "lists_hold (qhead w) (w_list w) (dom T) Q" using world_okD(4)[OF assms(1)] unfolding queues_lists by blast
  obtain ln where ln: "st_list_join (w_list w) (qhead w 1) (qhead w 4) = Some ln" "lists_hold (qhead w) ln (dom T) (Q(1 := Q 4, 4 := []))"
    "\<forall>a. a \<notin> queue_nodes (qhead w) (dom T) \<longrightarrow> ln a = w_list w a" using lists_join[OF world_nodes[OF assms(1)] l] assms(2) by auto
  then show ?thesis using world_list_update[OF assms(1) ln(2)] unfolding queue_heads by blast
qed

text \<open>A run may end a round or start one.\<close>

definition run_kept :: "world \<Rightarrow> world \<Rightarrow> bool" where
  "run_kept w w' \<longleftrightarrow> w_area w' = w_area w \<and> w_at w' = w_at w \<and> w_run_gc_periodical w' = w_run_gc_periodical w \<and>
     gc_roots (w_gc w') = gc_roots (w_gc w) \<and> gc_queues (w_gc w') = gc_queues (w_gc w) \<and> gc_lock (w_gc w') = gc_lock (w_gc w) \<and> versions_up w w'"

lemma run_kept_rest: "gc_rest w w' \<Longrightarrow> run_kept w w'"
  by (simp add: gc_rest_def run_kept_def)

lemma run_kept_trans: "run_kept w w' \<Longrightarrow> run_kept w' w'' \<Longrightarrow> run_kept w w''"
  using versions_up_trans[of w w' w''] by (simp add: run_kept_def)

lemma run_kept_roots: "run_kept w w' \<Longrightarrow> root_set w' = root_set w"
  by (simp add: run_kept_def root_set_def)

lemma end_ok:
  assumes "gc_ok w T Q" "gc_begin (w_gc w)" "Q 0 = []" "Q 1 = []" "Q 2 = []" "Q 3 = []"
  shows "\<exists>ln w'. st_list_join (w_list w) (prev_sweep_queue (w_gc w)) (remained_queue (w_gc w)) = Some ln \<and>
    w' = set_gc (\<lambda>gc. gc\<lparr>gc_round := gc_round gc + 4, gc_begin := False\<rparr>) (set_list ln w) \<and>
    gc_ok w' T (Q(1 := Q 4, 4 := [])) \<and> run_kept w w' \<and> contents w' T = contents w T \<and> live w' = live w \<and> w_table_cnt w' = w_table_cnt w"
proof -
  note ok = gc_okD[OF assms(1)]
  let ?f = "\<lambda>gc. gc\<lparr>gc_round := gc_round gc + 4, gc_begin := False\<rparr>" and ?Q = "Q(1 := Q 4, 4 := [])"
  obtain ln where ln: "st_list_join (w_list w) (prev_sweep_queue (w_gc w)) (remained_queue (w_gc w)) = Some ln"
    "world_ok (set_list ln w) T ?Q" "contents (set_list ln w) T = contents w T" "live (set_list ln w) = live w" using join_ok[OF ok(1) assms(4)] by blast
  note core = same_core[OF set_gc_core, of ?f "set_list ln w"]
  have g: "gc_graph (contents w T) (dom T) (root_set w) (marks w) (round w) True Q" using ok(3) assms(2) by simp
  note graph_end[OF g assms(3-6) refl]
  then have "gc_ok (set_gc ?f (set_list ln w)) T ?Q" using core(3,4) ln(2,3) ok(2) by (simp add: gc_ok_def root_set_def)
  then show ?thesis using ln(1,3,4) core(4) by (simp add: run_kept_def)
qed

text \<open>A round that is over has freed every candidate that is not behind the tables marked at its start.\<close>

definition finishes :: "contents \<Rightarrow> addr set \<Rightarrow> int \<Rightarrow> (addr \<Rightarrow> int) \<Rightarrow> queues \<Rightarrow> addr set \<Rightarrow> bool" where
  "finishes C D rd m Q D' \<longleftrightarrow> (\<forall>x B. x \<in> set (Q 1) \<union> set (Q 2) \<longrightarrow> x \<in> D' \<longrightarrow> child_closed C B \<longrightarrow> black D m rd \<union> set (Q 0) \<subseteq> B \<longrightarrow> x \<in> B)"

lemma round_finishes:
  assumes "tracks C D rd m Q m' Q'" "Q' 1 = []" "Q' 2 = []" "D' \<subseteq> D" "\<And>x. x \<in> D' \<Longrightarrow> m' x \<le> rd \<or> m' x = rd + 1"
  shows "finishes C D rd m Q D'"
  unfolding finishes_def
proof (intro allI impI)
  fix x B assume x: "x \<in> set (Q 1) \<union> set (Q 2)" "x \<in> D'" and B: "child_closed C B" "black D m rd \<union> set (Q 0) \<subseteq> B"
  have "rd < m' x" using assms(1-3) x(1) unfolding tracks_def by auto
  then have "m' x = rd + 1" using assms(5)[OF x(2)] by linarith
  then have "x \<in> black D m' rd" using assms(4) x(2) by (auto simp: black_def)
  moreover have "black D m' rd \<union> set (Q' 0) \<subseteq> B" using assms(1) B unfolding tracks_def by blast
  ultimately show "x \<in> B" by blast
qed

lemma run_rest_ok:
  assumes "gc_ok w T Q" "gc_begin (w_gc w)" "env_ok env w"
  shows "\<exists>ret w' T' Q'. run_rest gp env w = Some (ret, w') \<and> gc_ok w' T' Q' \<and> run_kept w w' \<and>
    collects (contents w T) (dom T) (root_set w) (contents w' T') (dom T') \<and> run_code ret \<and>
    (gc_begin (w_gc w') \<or> finishes (contents w T) (dom T) (round w) (marks w) Q (dom T')) \<and> releases w T w' T'"
proof -
  obtain r1 w1 Q1 where m: "st_gc_mark_tables gp env w = Some (r1, w1)" "gc_ok w1 T Q1" "gc_rest w w1" "contents w1 T = contents w T"
    "run_code r1 \<or> r1 = ST_EMPTY \<and> Q1 0 = [] \<and> Q1 1 = [] \<and> Q1 2 = []" "tracks (contents w T) (dom T) (round w) (marks w) Q (marks w1) Q1"
    "releases w T w1 T" using mark_tables_ok[OF assms(1,2)] by blast
  have b1: "gc_begin (w_gc w1)" using gc_rest_begin[OF m(3)] assms(2) by simp
  show ?thesis
  proof (cases "run_code r1")
    case True
    then show ?thesis using m b1 run_kept_rest[OF m(3)] by (intro exI[of _ r1] exI[of _ w1] exI[of _ T] exI[of _ Q1]) (auto simp: run_rest_def)
  next
    case False
    then have q1: "r1 = ST_EMPTY" "Q1 0 = []" "Q1 1 = []" "Q1 2 = []" using m(5) by blast+
    obtain r2 w2 T2 Q2 where f: "st_gc_free_tables gp env w1 = Some (r2, w2)" "gc_ok w2 T2 Q2" "gc_rest w1 w2"
      "collects (contents w T) (dom T) (root_set w) (contents w2 T2) (dom T2)"
      "run_code r2 \<or> r2 = ST_EMPTY \<and> Q2 0 = [] \<and> Q2 1 = [] \<and> Q2 2 = [] \<and> Q2 3 = []" "marks w2 = marks w1" "releases w1 T w2 T2"
      using free_tables_ok[OF m(2) b1 q1(2-4) gc_rest_env[OF m(3) assms(3)], of gp] unfolding m(4) root_set_rest[OF m(3)] by blast
    note g2 = gc_rest_trans[OF m(3) f(3)] and l2 = releases_trans[OF m(7) f(7)]
    have b2: "gc_begin (w_gc w2)" using gc_rest_begin[OF g2] assms(2) by simp
    show ?thesis
    proof (cases "run_code r2")
      case True
      then show ?thesis using m(1) q1(1) f(1,2,4) b2 l2 run_kept_rest[OF g2]
        by (intro exI[of _ r2] exI[of _ w2] exI[of _ T2] exI[of _ Q2]) (auto simp: run_rest_def)
    next
      case False
      then have q2: "r2 = ST_EMPTY" "Q2 0 = []" "Q2 1 = []" "Q2 2 = []" "Q2 3 = []" using f(5) by blast+
      obtain ln w3 where e: "st_list_join (w_list w2) (prev_sweep_queue (w_gc w2)) (remained_queue (w_gc w2)) = Some ln"
        "w3 = set_gc (\<lambda>gc. gc\<lparr>gc_round := gc_round gc + 4, gc_begin := False\<rparr>) (set_list ln w2)"
        "gc_ok w3 T2 (Q2(1 := Q2 4, 4 := []))" "run_kept w2 w3" "contents w3 T2 = contents w2 T2"
        "live w3 = live w2" "w_table_cnt w3 = w_table_cnt w2" using end_ok[OF f(2) b2 q2(2-5)] by blast
      note l3 = releases_trans[OF l2 releases_same[OF e(6,7)]]
      note k3 = run_kept_trans[OF run_kept_rest[OF g2] e(4)]
      let ?t = "\<lambda>usec. set_gc (\<lambda>gc. gc\<lparr>gc_end_usec := usec\<rparr>) w3"
      have run: "run_rest gp env w = (case env_time env 5 of Inl e \<Rightarrow> Some (Errno e, w3) | Inr usec \<Rightarrow> Some (ST_OK, ?t usec))"
        unfolding e(2) using m(1) f(1) q1(1) q2(1) e(1) by (simp add: run_rest_def Let_def)
      have t: "gc_rest w3 (?t usec)" for usec by (simp add: gc_rest_def)
      have fin: "finishes (contents w T) (dom T) (round w) (marks w) Q (dom T2)"
      proof (rule round_finishes[OF m(6) q1(3,4)])
        show "dom T2 \<subseteq> dom T" by (rule collects_reach(4)[OF f(4)])
        show "marks w1 x \<le> round w \<or> marks w1 x = round w + 1" if "x \<in> dom T2" for x
        proof -
          have "round w2 = round w" using g2 by (simp add: gc_rest_def)
          then have "\<forall>t \<in> dom T2. marks w2 t \<le> round w \<or> marks w2 t = round w + 1 \<or> marks w2 t = round w + 2"
            "condemned (dom T2) (marks w2) (round w) = {}" using gc_okD(3)[OF f(2)] q2(5) b2 unfolding gc_graph_def by auto
          then have "marks w2 x \<le> round w \<or> marks w2 x = round w + 1" using that unfolding condemned_def by blast
          then show ?thesis using fun_cong[OF f(6), of x] by simp
        qed
      qed
      show ?thesis
      proof (cases "env_time env 5")
        case (Inl x)
        then show ?thesis using run e(3,5) k3 f(4) fin l3
          by (intro exI[of _ "Errno x"] exI[of _ w3] exI[of _ T2] exI[of _ "Q2(1 := Q2 4, 4 := [])"]) simp
      next
        case (Inr usec)
        then show ?thesis using run gc_ok_count[OF e(3) t[of usec]] e(5) run_kept_trans[OF k3 run_kept_rest[OF t[of usec]]] f(4) fin
            releases_trans[OF l3 releases_same[of "?t usec" w3 T2]]
          by (intro exI[of _ ST_OK] exI[of _ "?t usec"] exI[of _ T2] exI[of _ "Q2(1 := Q2 4, 4 := [])"]) simp
      qed
    qed
  qed
qed

section \<open>A run\<close>

lemma queue_empty: "world_ok w T Q \<Longrightarrow> k < 5 \<Longrightarrow> st_list_empty (w_list w) (qhead w k) = Some (Q k = [])"
  using clist_empty_iff[of "w_list w" "qhead w k" "map (qnode k) (Q k)"] world_okD(4)[of w T Q] by (simp add: queues_ok_def)

definition whole_round :: "world \<Rightarrow> tables \<Rightarrow> queues \<Rightarrow> st_error \<Rightarrow> world \<Rightarrow> tables \<Rightarrow> bool" where
  "whole_round w T Q ret w' T' \<longleftrightarrow> (\<not> gc_begin (w_gc w) \<longrightarrow> \<not> gc_begin (w_gc w') \<longrightarrow> ret = ST_OK \<longrightarrow>
     (set (Q 1) \<union> set (Q 2)) \<inter> dom T' \<subseteq> reach (contents w T) (root_set w \<union> set (Q 0)))"

lemma run_body_ok:
  assumes "gc_ok w T Q" "env_ok env w"
  shows "\<exists>ret w' T' Q'. run_body gp env w = Some (ret, w') \<and> gc_ok w' T' Q' \<and> run_kept w w' \<and>
    collects (contents w T) (dom T) (root_set w) (contents w' T') (dom T') \<and> (run_code ret \<or> ret = ST_NO_GC_DATA) \<and> whole_round w T Q ret w' T' \<and> releases w T w' T'"
proof (cases "gc_begin (w_gc w)")
  case True
  then show ?thesis using run_rest_ok[OF assms(1) True assms(2), of gp] by (auto simp: run_body_def whole_round_def)
next
  case False
  note ok = gc_okD[OF assms(1)]
  have e: "st_list_empty (w_list w) (sweep_queue (w_gc w)) = Some (Q 2 = [])" "st_list_empty (w_list w) (prev_sweep_queue (w_gc w)) = Some (Q 1 = [])"
    using queue_empty[OF ok(1)] by (simp_all add: queue_heads)
  show ?thesis
  proof (cases "Q 2 = [] \<and> Q 1 = []")
    case True
    then show ?thesis using assms(1) False e
      by (intro exI[of _ ST_NO_GC_DATA] exI[of _ w] exI[of _ T] exI[of _ Q]) (simp add: run_body_def run_kept_def whole_round_def releases_same)
  next
    case cand: False
    show ?thesis
    proof (cases "env_time env 0")
      case (Inl x)
      then show ?thesis using assms(1) False cand e
        by (intro exI[of _ "Errno x"] exI[of _ w] exI[of _ T] exI[of _ Q]) (auto simp: run_body_def run_kept_def whole_round_def releases_same)
    next
      case (Inr usec)
      let ?w0 = "set_gc (\<lambda>gc. gc\<lparr>gc_start_usec := usec\<rparr>) w"
      have r0: "gc_rest w ?w0" by (simp add: gc_rest_def)
      note c0 = gc_ok_count[OF assms(1) r0]
      obtain ln Q1 where b: "st_gc_roots_to_mark_queue ?w0 = Some (set_list ln ?w0)"
        "gc_ok (set_gc (\<lambda>gc. gc\<lparr>gc_begin := True\<rparr>) (set_list ln ?w0)) T Q1" "contents (set_list ln ?w0) T = contents w T"
        "set (Q1 0) \<subseteq> set (Q 0) \<union> root_set w" "Q1 1 = Q 1" "Q1 2 = Q 2" "live (set_list ln ?w0) = live w"
        using begin_ok[OF c0(1)] False c0(2) root_set_rest[OF r0] by auto
      let ?w1 = "set_gc (\<lambda>gc. gc\<lparr>gc_begin := True\<rparr>) (set_list ln ?w0)"
      have k: "run_kept w ?w1" by (simp add: run_kept_def)
      have c: "contents ?w1 T = contents w T" using same_core(4)[OF set_gc_core, of "\<lambda>gc. gc\<lparr>gc_begin := True\<rparr>" "set_list ln ?w0"] b(3) by simp
      have "env_ok env ?w1" by (rule env_ok_area[OF assms(2)]) simp
      then obtain ret w' T' Q' where r: "run_rest gp env ?w1 = Some (ret, w')" "gc_ok w' T' Q'" "run_kept ?w1 w'"
        "collects (contents w T) (dom T) (root_set w) (contents w' T') (dom T')" "run_code ret"
        "gc_begin (w_gc w') \<or> finishes (contents w T) (dom T) (round w) (marks w) Q1 (dom T')" "releases ?w1 T w' T'"
        using run_rest_ok[OF b(2), of env gp] unfolding c run_kept_roots[OF k] by auto
      let ?B = "reach (contents w T) (root_set w \<union> set (Q 0))"
      have "black (dom T) (marks w) (round w) = {}" using ok(3) False by (force simp: gc_graph_def black_def)
      then have B: "child_closed (contents w T) ?B" "black (dom T) (marks w) (round w) \<union> set (Q1 0) \<subseteq> ?B"
        using b(4) reach_ge[of "root_set w \<union> set (Q 0)" "contents w T"] unfolding child_closed_def by (blast intro: reach.follow)+
      have "whole_round w T Q ret w' T'" unfolding whole_round_def
      proof (intro impI subsetI)
        fix x assume "\<not> gc_begin (w_gc w')" "x \<in> (set (Q 1) \<union> set (Q 2)) \<inter> dom T'"
        then have "x \<in> set (Q1 1) \<union> set (Q1 2)" "x \<in> dom T'" "finishes (contents w T) (dom T) (round w) (marks w) Q1 (dom T')"
          using r(6) b(5,6) by auto
        then show "x \<in> ?B" using B unfolding finishes_def by blast
      qed
      moreover have "run_body gp env w = Some (ret, w')" using False cand e Inr b(1) r(1) by (auto simp: run_body_def)
      moreover have "releases w T w' T'" by (rule releases_trans[OF releases_same r(7)]) (use b(7) in simp_all)
      ultimately show ?thesis using r(2,4,5) run_kept_trans[OF k r(3)] by (intro exI[of _ ret] exI[of _ w'] exI[of _ T'] exI[of _ Q']) simp
    qed
  qed
qed

definition gc_idle :: "world \<Rightarrow> tables \<Rightarrow> queues \<Rightarrow> bool" where
  "gc_idle w T Q \<longleftrightarrow> gc_ok w T Q \<and> lock_free (gc_lock (w_gc w))"

lemma gc_ok_locked: "gc_ok (gc_locked l w) T Q = gc_ok w T Q"
  by (simp add: gc_ok_def root_set_def gc_locked_def[of l w] world_ok_locked[of l w, unfolded gc_locked_def] gc_locked_ok[of l w, unfolded gc_locked_def])

lemma gc_run_ok:
  assumes "gc_idle w T Q" "env_ok env w"
  shows "\<exists>ret w' T' Q'. st_gc_run gp env w = Some (ret, w') \<and> gc_idle w' T' Q' \<and> root_set w' = root_set w \<and>
    w_run_gc_periodical w' = w_run_gc_periodical w \<and> w_area w' = w_area w \<and> versions_up w w' \<and>
    collects (contents w T) (dom T) (root_set w) (contents w' T') (dom T') \<and> (run_code ret \<or> ret = ST_NO_GC_DATA) \<and> whole_round w T Q ret w' T' \<and>
    releases w T w' T'"
proof -
  let ?w0 = "set_gc (\<lambda>gc. gc\<lparr>gc_curr_visit_cnt := 0, gc_curr_free_cnt := 0\<rparr>) w"
  have r0: "gc_rest w ?w0" by (simp add: gc_rest_def)
  have ok: "gc_ok w T Q" and lf: "lock_free (gc_lock (w_gc ?w0))" using assms(1) by (simp_all add: gc_idle_def)
  note c0 = gc_ok_count[OF ok r0]
  let ?l = "gc_locked (held env) ?w0"
  have k: "root_set ?l = root_set w" by (simp add: root_set_def gc_locked_def)
  have "env_ok env ?l" by (rule env_ok_area[OF assms(2)]) simp
  then obtain ret w1 T' Q' where r: "run_body gp env ?l = Some (ret, w1)" "gc_ok w1 T' Q'" "run_kept ?l w1"
    "collects (contents w T) (dom T) (root_set w) (contents w1 T') (dom T')" "run_code ret \<or> ret = ST_NO_GC_DATA" "whole_round ?l T Q ret w1 T'" "releases ?l T w1 T'"
    using run_body_ok[of ?l T Q env gp] c0 unfolding gc_ok_locked gc_locked_ok k by auto
  have "contents ?l T = contents w T" using c0(2) by simp
  then have wr: "whole_round w T Q ret (gc_locked mutex_new w1) T'" using r(6) unfolding whole_round_def k by (simp add: gc_locked_def)
  have "st_gc_run gp env w = Some (ret, gc_locked mutex_new w1)"
    unfolding st_gc_run_def by (rule with_gc_lock_eq[OF lf, of "run_body gp env", OF r(1)]) (use r(3) in \<open>simp add: run_kept_def\<close>)
  moreover have "gc_idle (gc_locked mutex_new w1) T' Q'" using r(2) by (simp add: gc_idle_def gc_ok_locked)
  moreover have "root_set (gc_locked mutex_new w1) = root_set w" using run_kept_roots[OF r(3)] k by (simp add: root_set_def gc_locked_def)
  moreover have "w_run_gc_periodical w1 = w_run_gc_periodical w" "w_area w1 = w_area w" "versions_up w (gc_locked mutex_new w1)"
    using r(3) by (simp_all add: run_kept_def versions_up_locks)
  moreover have "releases w T (gc_locked mutex_new w1) T'"
    by (rule releases_trans[OF releases_trans[OF releases_same r(7)] releases_same]) simp_all
  ultimately show ?thesis using r(4,5) wr by (intro exI[of _ ret] exI[of _ "gc_locked mutex_new w1"] exI[of _ T'] exI[of _ Q']) simp
qed

end
