(* ===== verification/Gc_Tables.thy ===== *)
theory Gc_Tables
  imports Gc_Run
begin

text \<open>
  The operations on tables together with the collector: they keep its invariant, and the run of the
  collector that may follow takes away unreachable tables only.
\<close>

section \<open>Operations and the invariant of the collector\<close>

lemma op_rest_gc:
  assumes "op_rest w w'"
  shows "gc_roots (w_gc w') = gc_roots (w_gc w)" "gc_begin (w_gc w') = gc_begin (w_gc w)" "round w' = round w" "marks w' = marks w"
    "root_set w' = root_set w"
proof -
  have "(w_gc w')\<lparr>gc_lock := mutex_new\<rparr> = (w_gc w)\<lparr>gc_lock := mutex_new\<rparr>" "same_marks w w'" using assms by (simp_all add: op_rest_def)
  then show "gc_roots (w_gc w') = gc_roots (w_gc w)" "gc_begin (w_gc w') = gc_begin (w_gc w)" "round w' = round w" "marks w' = marks w"
    by (cases "w_gc w'"; cases "w_gc w"; simp add: same_marks_def fun_eq_iff)+
  then show "root_set w' = root_set w" by (simp add: root_set_def)
qed

lemma gc_idleD:
  assumes "gc_idle w T Q"
  shows "gc_ok w T Q" "idle w T Q" "world_ok w T Q" "roots_ok (gc_roots (w_gc w))"
    "gc_graph (contents w T) (dom T) (root_set w) (marks w) (round w) (gc_begin (w_gc w)) Q"
  using assms gc_okD[of w T Q] by (simp_all add: gc_idle_def idle_def)

lemma gc_idle_op:
  assumes "gc_idle w T Q" "op_rest w w'" "idle w' T' Q'"
    "gc_graph (contents w' T') (dom T') (root_set w) (marks w) (round w) (gc_begin (w_gc w)) Q'"
  shows "gc_idle w' T' Q'"
  using assms gc_idleD[OF assms(1)] op_rest_gc[OF assms(2)] by (simp add: gc_idle_def gc_ok_def idle_def)

lemma mark_grey: "mark_ref w Q r = grey_ref (marks w) (round w) Q r"
  by (simp add: mark_ref_def grey_ref_def marked_def st_gc_status_reachable_def split: option.split)

lemma reached:
  assumes "gc_idle w T Q" "t \<in> reach (contents w T) (root_set w)"
  shows "t \<in> dom T" "closed_at (contents w T) (dom T) t"
proof -
  note g = gc_idleD(5)[OF assms(1)]
  show "t \<in> dom T" using gc_graph_reach(1)[OF g] assms(2) by blast
  show "closed_at (contents w T) (dom T) t" by (rule gc_graph_closed[OF g]) (use assms(2) in \<open>simp add: reach_Un\<close>)
qed

section \<open>The run after an operation\<close>

text \<open>What is left of the tables after an operation that gave them the contents \<open>C\<close>.\<close>

definition after_gc :: "contents \<Rightarrow> addr set \<Rightarrow> addr set \<Rightarrow> world \<Rightarrow> bool" where
  "after_gc C D R w \<longleftrightarrow> (\<exists>T Q. gc_idle w T Q \<and> root_set w = R \<and> collects C D R (contents w T) (dom T))"

lemma gc_if_needed_ok:
  assumes "gc_idle w T Q" "env_ok env w"
  shows "\<exists>ret w'. st_table_run_gc_if_needed gp env t w = Some (ret, w') \<and> after_gc (contents w T) (dom T) (root_set w) w' \<and> run_code ret"
proof (cases "w_run_gc_periodical w = 1 \<or> fib_hash64 (of_nat t) > push_bit 63 1")
  case True
  then have "st_table_run_gc_if_needed gp env t w = Some (ST_OK, w)" by (auto simp: st_table_run_gc_if_needed_def)
  moreover have "after_gc (contents w T) (dom T) (root_set w) w" unfolding after_gc_def using assms(1) by (intro exI[of _ T] exI[of _ Q]) simp
  ultimately show ?thesis by blast
next
  case False
  obtain ret w' T' Q' where r: "st_gc_run gp env w = Some (ret, w')" "gc_idle w' T' Q'" "root_set w' = root_set w"
    "collects (contents w T) (dom T) (root_set w) (contents w' T') (dom T')" "run_code ret \<or> ret = ST_NO_GC_DATA"
    using gc_run_ok[OF assms] by blast
  have "st_table_run_gc_if_needed gp env t w = Some (if ret = ST_NO_GC_DATA then ST_OK else ret, w')"
    using False r(1) by (simp add: st_table_run_gc_if_needed_def)
  moreover have "run_code (if ret = ST_NO_GC_DATA then ST_OK else ret)" using r(5) by auto
  moreover have "after_gc (contents w T) (dom T) (root_set w) w'" unfolding after_gc_def using r(2-4) by blast
  ultimately show ?thesis by blast
qed

lemma then_gc_ok:
  assumes "gc_idle w T Q" "env_ok env w"
  shows "\<exists>ret' w'. then_gc gp env t ret w = Some (ret', w') \<and> after_gc (contents w T) (dom T) (root_set w) w' \<and>
    (if ret = ST_OK then run_code ret' else ret' = ret)"
proof (cases "ret = ST_OK")
  case True
  then show ?thesis using gc_if_needed_ok[OF assms, of gp t] by auto
next
  case False
  have "after_gc (contents w T) (dom T) (root_set w) w" unfolding after_gc_def using assms(1) by (intro exI[of _ T] exI[of _ Q]) simp
  then show ?thesis using False by (intro exI[of _ ret] exI[of _ w]) simp
qed

section \<open>Operations on tables that the roots reach\<close>

text \<open>Each operation up to the run of the collector that may end it.\<close>

definition put_done :: "world \<Rightarrow> tables \<Rightarrow> addr \<Rightarrow> st_str \<Rightarrow> st_str \<Rightarrow> world \<Rightarrow> tables \<Rightarrow> bool" where
  "put_done w T t key value w' T' \<longleftrightarrow>
     contents w' T' = (contents w T)(t := (contents w T t)(str_view (w_bytes w) key \<mapsto> value_view (w_bytes w) value))"

lemma put_idle:
  assumes "gc_idle w T Q" "t \<in> reach (contents w T) (root_set w)" "op_rest w w1" "idle w1 T1 Q1" "dom T1 = dom T"
    "put_post w T Q t (str_view (w_bytes w) key) (value_view (w_bytes w) value) w1 T1 Q1"
    "\<And>a. ref_of (value_view (w_bytes w) value) = Some a \<Longrightarrow> storable (contents w T) (dom T) (root_set w) (marks w) (round w) a"
  shows "gc_idle w1 T1 Q1" "put_done w T t key value w1 T1"
proof -
  note i = gc_idleD[OF assms(1)]
  have p: "contents w1 T1 = (contents w T)(t := (contents w T t)(str_view (w_bytes w) key \<mapsto> value_view (w_bytes w) value))"
    "Q1 = grey_ref (marks w) (round w) (sweep_ref Q (old_ref (contents w T) t (str_view (w_bytes w) key))) (ref_of (value_view (w_bytes w) value))"
    using assms(6) by (simp_all add: put_post_def mark_grey)
  show "gc_idle w1 T1 Q1" by (rule gc_idle_op[OF assms(1,3,4)]) (unfold p assms(5), rule graph_put[OF i(5) assms(2,7)])
  show "put_done w T t key value w1 T1" by (simp add: put_done_def p(1))
qed

lemma same_idle:
  assumes "gc_idle w T Q" "op_rest w w1" "idle w1 T1 Q1" "dom T1 = dom T" "contents w1 T1 = contents w T" "Q1 = Q"
  shows "gc_idle w1 T1 Q1"
  by (rule gc_idle_op[OF assms(1-3)]) (use gc_idleD(5)[OF assms(1)] assms(4-6) in simp)

lemma set_idle_ok:
  assumes "gc_idle w T Q" "t \<in> reach (contents w T) (root_set w)" "put_ok env w T key value"
    "\<And>a. ref_of (value_view (w_bytes w) value) = Some a \<Longrightarrow> storable (contents w T) (dom T) (root_set w) (marks w) (round w) a"
  shows "\<exists>ret w1 T1 Q1. st_table_set_key_value gp env w t key value = then_gc gp env t ret w1 \<and> gc_idle w1 T1 Q1 \<and> dom T1 = dom T \<and> op_rest w w1 \<and>
    (if ret = ST_OK then put_done w T t key value w1 T1 else no_room env w (elem_size key value) ret \<and> contents w1 T1 = contents w T)"
proof -
  note i = gc_idleD[OF assms(1)] and r = reached[OF assms(1,2)]
  obtain ret w1 T1 Q1 where o: "st_table_set_key_value gp env w t key value = then_gc gp env t ret w1" "idle w1 T1 Q1" "dom T1 = dom T" "op_rest w w1"
    "if ret = ST_OK then put_post w T Q t (str_view (w_bytes w) key) (value_view (w_bytes w) value) w1 T1 Q1
     else no_room env w (elem_size key value) ret \<and> contents w1 T1 = contents w T \<and> Q1 = Q"
    using set_op[OF i(2) r(2,1) assms(3)] by blast
  have "gc_idle w1 T1 Q1 \<and> (if ret = ST_OK then put_done w T t key value w1 T1 else no_room env w (elem_size key value) ret \<and> contents w1 T1 = contents w T)"
    using put_idle[of w T Q t w1 T1 Q1 key "value", OF assms(1,2) o(4,2,3) _ assms(4)] same_idle[OF assms(1) o(4,2,3)] o(5) by (cases "ret = ST_OK") simp_all
  then show ?thesis using o by blast
qed

lemma add_idle_ok:
  assumes "gc_idle w T Q" "t \<in> reach (contents w T) (root_set w)" "put_ok env w T key value"
    "\<And>a. ref_of (value_view (w_bytes w) value) = Some a \<Longrightarrow> storable (contents w T) (dom T) (root_set w) (marks w) (round w) a"
  shows "\<exists>ret w1 T1 Q1. st_table_add_key_value gp env w t key value = then_gc gp env t ret w1 \<and> gc_idle w1 T1 Q1 \<and> dom T1 = dom T \<and> op_rest w w1 \<and>
    (if ret = ST_OK then contents w T t (str_view (w_bytes w) key) = None \<and> put_done w T t key value w1 T1
     else contents w1 T1 = contents w T \<and> Q1 = Q \<and>
       (ret = ST_EXISTED \<and> contents w T t (str_view (w_bytes w) key) \<noteq> None \<or> no_room env w (elem_size key value) ret))"
proof -
  note i = gc_idleD[OF assms(1)] and r = reached[OF assms(1,2)]
  let ?k = "str_view (w_bytes w) key"
  obtain ret w1 T1 Q1 where o: "st_table_add_key_value gp env w t key value = then_gc gp env t ret w1" "idle w1 T1 Q1" "dom T1 = dom T" "op_rest w w1"
    "if ret = ST_OK then contents w T t ?k = None \<and> put_post w T Q t ?k (value_view (w_bytes w) value) w1 T1 Q1
     else contents w1 T1 = contents w T \<and> Q1 = Q \<and> (ret = ST_EXISTED \<and> contents w T t ?k \<noteq> None \<or> no_room env w (elem_size key value) ret)"
    using add_op[OF i(2) r(1) assms(3)] by blast
  have "gc_idle w1 T1 Q1 \<and> (if ret = ST_OK then contents w T t ?k = None \<and> put_done w T t key value w1 T1
     else contents w1 T1 = contents w T \<and> Q1 = Q \<and> (ret = ST_EXISTED \<and> contents w T t ?k \<noteq> None \<or> no_room env w (elem_size key value) ret))"
    using put_idle[of w T Q t w1 T1 Q1 key "value", OF assms(1,2) o(4,2,3) _ assms(4)] same_idle[OF assms(1) o(4,2,3)] o(5) by (cases "ret = ST_OK") simp_all
  then show ?thesis using o by blast
qed

lemma remove_idle_ok:
  assumes "gc_idle w T Q" "t \<in> reach (contents w T) (root_set w)" "env_ok env w" "str_key (w_bytes w) key" "arg_str key"
  shows "\<exists>ret w1 T1 Q1. st_table_remove_key gp env w t key = then_gc gp env t ret w1 \<and> gc_idle w1 T1 Q1 \<and> dom T1 = dom T \<and> op_rest w w1 \<and>
    (if contents w T t (str_view (w_bytes w) key) = None then ret = ST_NOT_FOUND \<and> contents w1 T1 = contents w T
     else ret = ST_OK \<and> contents w1 T1 = (contents w T)(t := (contents w T t)(str_view (w_bytes w) key := None)))"
proof -
  note i = gc_idleD[OF assms(1)] and r = reached[OF assms(1,2)]
  let ?k = "str_view (w_bytes w) key"
  obtain ret w1 T1 Q1 where o: "st_table_remove_key gp env w t key = then_gc gp env t ret w1" "idle w1 T1 Q1" "dom T1 = dom T" "op_rest w w1"
    "if contents w T t ?k = None then ret = ST_NOT_FOUND \<and> contents w1 T1 = contents w T \<and> Q1 = Q else ret = ST_OK \<and> drop_post w T Q t ?k w1 T1 Q1"
    using remove_op[OF i(2) r(2,1) assms(3-5)] by blast
  show ?thesis
  proof (cases "contents w T t ?k = None")
    case True
    then show ?thesis using o same_idle[OF assms(1) o(4,2,3)] by (intro exI[of _ ret] exI[of _ w1] exI[of _ T1] exI[of _ Q1]) simp
  next
    case False
    have p: "ret = ST_OK" "contents w1 T1 = (contents w T)(t := (contents w T t)(?k := None))" "Q1 = sweep_ref Q (old_ref (contents w T) t ?k)"
      using o(5) unfolding if_not_P[OF False] drop_post_def by blast+
    have "gc_idle w1 T1 Q1" by (rule gc_idle_op[OF assms(1) o(4,2)]) (unfold p o(3), rule graph_drop[OF i(5) assms(2)])
    then show ?thesis using o(1,3,4) p(1,2) unfolding if_not_P[OF False] by (intro exI[of _ ret] exI[of _ w1] exI[of _ T1] exI[of _ Q1]) simp
  qed
qed

lemma remove_all_idle_ok:
  assumes "gc_idle w T Q" "t \<in> reach (contents w T) (root_set w)" "env_ok env w"
  shows "\<exists>w1 T1 Q1. st_table_remove_all gp env w t = then_gc gp env t ST_OK w1 \<and> gc_idle w1 T1 Q1 \<and> dom T1 = dom T \<and> op_rest w w1 \<and>
    contents w1 T1 = (contents w T)(t := Map.empty)"
proof -
  note i = gc_idleD[OF assms(1)] and r = reached[OF assms(1,2)]
  obtain w1 T1 Q1 where o: "st_table_remove_all gp env w t = then_gc gp env t ST_OK w1" "idle w1 T1 Q1" "op_rest w w1" "clear_post w T Q t w1 T1 Q1"
    using remove_all_op[OF i(2) r(2,1) assms(3)] by blast
  obtain rs where p: "T1 = T(t \<mapsto> E)" "contents w1 T1 = (contents w T)(t := Map.empty)" "set rs = ref_of ` ran (contents w T t)" "Q1 = foldl sweep_ref Q rs"
    using o(4) unfolding clear_post_def by blast
  have d: "dom T1 = dom T" using p(1) r(1) by auto
  have "gc_idle w1 T1 Q1" by (rule gc_idle_op[OF assms(1) o(3,2)]) (unfold p(2,4) d, rule graph_clear[OF i(5) assms(2)], simp add: p(3))
  then show ?thesis using o(1,3) d p(2) by blast
qed

text \<open>With the run of the collector.\<close>

lemma set_gc_ok:
  assumes "gc_idle w T Q" "t \<in> reach (contents w T) (root_set w)" "put_ok env w T key value"
    "\<And>a. ref_of (value_view (w_bytes w) value) = Some a \<Longrightarrow> storable (contents w T) (dom T) (root_set w) (marks w) (round w) a"
  shows "\<exists>ret w'. st_table_set_key_value gp env w t key value = Some (ret, w') \<and>
    (run_code ret \<and> after_gc ((contents w T)(t := (contents w T t)(str_view (w_bytes w) key \<mapsto> value_view (w_bytes w) value))) (dom T) (root_set w) w' \<or>
     no_room env w (elem_size key value) ret \<and> after_gc (contents w T) (dom T) (root_set w) w')"
proof -
  obtain ret w1 T1 Q1 where o: "st_table_set_key_value gp env w t key value = then_gc gp env t ret w1" "gc_idle w1 T1 Q1" "dom T1 = dom T" "op_rest w w1"
    "if ret = ST_OK then put_done w T t key value w1 T1 else no_room env w (elem_size key value) ret \<and> contents w1 T1 = contents w T"
    using set_idle_ok[OF assms] by blast
  from then_gc_ok[OF o(2) env_ok_rest[OF put_okD(1)[OF assms(3)] o(4)], of gp t ret] show ?thesis
    using o(1,5) unfolding o(3) op_rest_gc(5)[OF o(4)] put_done_def by (cases "ret = ST_OK") auto
qed

lemma add_gc_ok:
  assumes "gc_idle w T Q" "t \<in> reach (contents w T) (root_set w)" "put_ok env w T key value"
    "\<And>a. ref_of (value_view (w_bytes w) value) = Some a \<Longrightarrow> storable (contents w T) (dom T) (root_set w) (marks w) (round w) a"
  shows "\<exists>ret w'. st_table_add_key_value gp env w t key value = Some (ret, w') \<and>
    (contents w T t (str_view (w_bytes w) key) = None \<and> run_code ret \<and>
       after_gc ((contents w T)(t := (contents w T t)(str_view (w_bytes w) key \<mapsto> value_view (w_bytes w) value))) (dom T) (root_set w) w' \<or>
     (ret = ST_EXISTED \<and> contents w T t (str_view (w_bytes w) key) \<noteq> None \<or> no_room env w (elem_size key value) ret) \<and>
       after_gc (contents w T) (dom T) (root_set w) w')"
proof -
  let ?k = "str_view (w_bytes w) key"
  obtain ret w1 T1 Q1 where o: "st_table_add_key_value gp env w t key value = then_gc gp env t ret w1" "gc_idle w1 T1 Q1" "dom T1 = dom T" "op_rest w w1"
    "if ret = ST_OK then contents w T t ?k = None \<and> put_done w T t key value w1 T1
     else contents w1 T1 = contents w T \<and> Q1 = Q \<and> (ret = ST_EXISTED \<and> contents w T t ?k \<noteq> None \<or> no_room env w (elem_size key value) ret)"
    using add_idle_ok[OF assms] by blast
  from then_gc_ok[OF o(2) env_ok_rest[OF put_okD(1)[OF assms(3)] o(4)], of gp t ret] show ?thesis
    using o(1,5) unfolding o(3) op_rest_gc(5)[OF o(4)] put_done_def by (cases "ret = ST_OK") auto
qed

lemma remove_gc_ok:
  assumes "gc_idle w T Q" "t \<in> reach (contents w T) (root_set w)" "env_ok env w" "str_key (w_bytes w) key" "arg_str key"
  shows "\<exists>ret w'. st_table_remove_key gp env w t key = Some (ret, w') \<and>
    (if contents w T t (str_view (w_bytes w) key) = None then ret = ST_NOT_FOUND \<and> after_gc (contents w T) (dom T) (root_set w) w'
     else run_code ret \<and> after_gc ((contents w T)(t := (contents w T t)(str_view (w_bytes w) key := None))) (dom T) (root_set w) w')"
proof -
  let ?k = "str_view (w_bytes w) key"
  obtain ret w1 T1 Q1 where o: "st_table_remove_key gp env w t key = then_gc gp env t ret w1" "gc_idle w1 T1 Q1" "dom T1 = dom T" "op_rest w w1"
    "if contents w T t ?k = None then ret = ST_NOT_FOUND \<and> contents w1 T1 = contents w T
     else ret = ST_OK \<and> contents w1 T1 = (contents w T)(t := (contents w T t)(?k := None))"
    using remove_idle_ok[OF assms] by blast
  note g = then_gc_ok[OF o(2) env_ok_rest[OF assms(3) o(4)], of gp t ret]
  show ?thesis
  proof (cases "contents w T t ?k = None")
    case True
    then have "ret = ST_NOT_FOUND" "contents w1 T1 = contents w T" using o(5) by simp_all
    then show ?thesis using g o(1) True unfolding o(3) op_rest_gc(5)[OF o(4)] by auto
  next
    case False
    then have "ret = ST_OK" "contents w1 T1 = (contents w T)(t := (contents w T t)(?k := None))" using o(5) unfolding if_not_P[OF False] by blast+
    then show ?thesis using g o(1) unfolding o(3) op_rest_gc(5)[OF o(4)] if_not_P[OF False] by auto
  qed
qed

lemma remove_all_gc_ok:
  assumes "gc_idle w T Q" "t \<in> reach (contents w T) (root_set w)" "env_ok env w"
  shows "\<exists>ret w'. st_table_remove_all gp env w t = Some (ret, w') \<and> run_code ret \<and>
    after_gc ((contents w T)(t := Map.empty)) (dom T) (root_set w) w'"
proof -
  obtain w1 T1 Q1 where o: "st_table_remove_all gp env w t = then_gc gp env t ST_OK w1" "gc_idle w1 T1 Q1" "dom T1 = dom T" "op_rest w w1"
    "contents w1 T1 = (contents w T)(t := Map.empty)" using remove_all_idle_ok[OF assms] by blast
  from then_gc_ok[OF o(2) env_ok_rest[OF assms(3) o(4)], of gp t ST_OK] show ?thesis
    using o(1) unfolding o(3,5) op_rest_gc(5)[OF o(4)] by auto
qed

lemma graph_marks:
  assumes "\<And>u. u \<in> D \<Longrightarrow> m' u = m u"
  shows "gc_graph C D R m' rd b Q = gc_graph C D R m rd b Q"
proof -
  have "black D m' rd = black D m rd" "condemned D m' rd = condemned D m rd" using assms by (auto simp: black_def condemned_def)
  then show ?thesis unfolding gc_graph_def using assms by (simp cong: ball_cong)
qed

lemma new_gc_ok:
  assumes "gc_idle w T Q" "env_ok env w"
  shows "\<exists>ret r w' T'. st_table_new env w = Some (ret, r, w') \<and> gc_idle w' T' Q \<and> root_set w' = root_set w \<and> new_table_post w T ret r w' T' \<and>
    (\<forall>t. r = Some t \<longrightarrow> storable (contents w' T') (dom T') (root_set w') (marks w') (round w') t)"
proof -
  note i = gc_idleD[OF assms(1)]
  obtain ret r w' T' where n: "st_table_new env w = Some (ret, r, w')" "idle w' T' Q" "new_table_post w T ret r w' T'" using new_op[OF i(2) assms(2)] by blast
  have gc: "w_gc w' = w_gc w" "\<And>u. u \<in> dom T \<Longrightarrow> marks w' u = marks w u" using n(3) by (simp_all add: new_table_post_def)
  then have R: "root_set w' = root_set w" by (simp add: root_set_def)
  have g: "gc_graph (contents w' T') (dom T') (root_set w) (marks w') (round w) (gc_begin (w_gc w)) Q \<and>
    (\<forall>t. r = Some t \<longrightarrow> storable (contents w' T') (dom T') (root_set w) (marks w') (round w) t)"
  proof (cases "ret = ST_OK")
    case True
    then obtain t where t: "r = Some t" "t \<notin> dom T" "T' = T(t \<mapsto> E)" "contents w' T' = (contents w T)(t := Map.empty)" "marks w' t = round w"
      using n(3) by (auto simp: new_table_post_def)
    have d: "dom T' = insert t (dom T)" using t(3) by auto
    show ?thesis using graph_new[OF i(5) t(2) gc(2) t(5)] t(1,5) unfolding t(4) d by (auto simp: storable_def child_def)
  next
    case False
    then have t: "T' = T" "contents w' T' = contents w T" "r = None" using n(3) unfolding new_table_post_def if_not_P[OF False] by blast+
    have "gc_graph (contents w T) (dom T) (root_set w) (marks w') (round w) (gc_begin (w_gc w)) Q"
      using i(5) graph_marks[of "dom T" "marks w'" "marks w"] gc(2) by simp
    then show ?thesis unfolding t(2) using t by simp
  qed
  have "gc_idle w' T' Q" using n(2) g i(4) R gc(1) by (simp add: gc_idle_def gc_ok_def idle_def)
  then show ?thesis using n(1,3) g R gc(1) by (intro exI[of _ ret] exI[of _ r] exI[of _ w'] exI[of _ T']) simp
qed

section \<open>Roots\<close>

lemma st_gc_cmp_order: "comparator A st_gc_cmp_gc_head"
  using st_cmp_key.comparator_axioms[of A "\<lambda>a. a"] by (simp add: st_gc_cmp_gc_head_def[abs_def])

lemma st_gc_cmp_sorted: "sorted_by st_gc_cmp_gc_head xs = sorted xs"
proof -
  have "(\<lambda>a b. st_gc_cmp_gc_head a b \<le> 0) = (\<le>)" by (auto simp: st_gc_cmp_gc_head_def st_cmp_def fun_eq_iff)
  then show ?thesis by (simp add: sorted_by_def)
qed

lemma roots_search:
  fixes h :: addr
  assumes "roots_ok a"
  defines "ret \<equiv> if h \<in> set (arr_list a) then ST_OK else ST_NOT_FOUND"
  shows "st_array_bsearch_left a (Some h) None = Some (ret, int (length (takeWhile (\<lambda>y. y < h) (arr_list a))))"
    "\<exists>idx. st_array_bsearch_right a (Some h) None = Some (ret, idx) \<and> 0 \<le> idx \<and> idx \<le> ar_current_cnt a"
proof -
  have r: "arr_ok a" "sorted_by st_gc_cmp_gc_head (arr_list a)" "pick_cmp None a = Some st_gc_cmp_gc_head"
    using assms(1) by (simp_all add: roots_ok_def st_gc_cmp_sorted pick_cmp_def)
  have c: "(\<exists>y \<in> set (arr_list a). st_gc_cmp_gc_head h y = 0) \<longleftrightarrow> h \<in> set (arr_list a)"
    "(\<lambda>y. st_gc_cmp_gc_head h y > 0) = (\<lambda>y. y < h)" by (auto simp: st_gc_cmp_gc_head_def st_cmp_def split: if_splits)
  note b = bsearch_ok[OF st_gc_cmp_order r(1,2) subset_UNIV r(3), of h, unfolded c, folded ret_def, unfolded Let_def]
  show "st_array_bsearch_left a (Some h) None = Some (ret, int (length (takeWhile (\<lambda>y. y < h) (arr_list a))))" using b by blast
  have "int (length (takeWhile P (arr_list a))) \<le> ar_current_cnt a" for P
    using length_takeWhile_le[of P "arr_list a"] length_arr_list[OF r(1)] r(1) by (simp add: arr_ok_def le_nat_iff)
  then show "\<exists>idx. st_array_bsearch_right a (Some h) None = Some (ret, idx) \<and> 0 \<le> idx \<and> idx \<le> ar_current_cnt a" using b by (metis of_nat_0_le_iff)
qed

lemma insert_static:
  assumes "st_array_insert_many ra a idx es cnt = Some (ret, a')" "\<not> ar_dynamic a"
  shows "ar_compare a' = ar_compare a" "ar_dynamic a' = ar_dynamic a" "ar_total_cnt a' = ar_total_cnt a"
  using assms by (auto simp: st_array_insert_many_def Let_def split: if_splits option.splits bind_splits)

lemma roots_insert:
  assumes "roots_ok a" "h \<notin> set (arr_list a)" "st_array_bsearch_right a (Some h) None = Some (ST_NOT_FOUND, idx)" "0 \<le> idx" "idx \<le> ar_current_cnt a"
  shows "\<exists>ret a'. st_array_insert_many (\<lambda>_ _ _ _. None) a idx (Some [h]) 1 = Some (ret, a') \<and> roots_ok a' \<and>
    (if ar_current_cnt a < ar_total_cnt a then ret = ST_OK \<and> set (arr_list a') = insert h (set (arr_list a)) else ret = ST_OUT_OF_MEMORY \<and> a' = a)"
proof -
  have r: "arr_ok a" "sorted_by st_gc_cmp_gc_head (arr_list a)" "ar_compare a = Some st_gc_cmp_gc_head" "\<not> ar_dynamic a" "distinct (arr_list a)"
    using assms(1) by (simp_all add: roots_ok_def st_gc_cmp_sorted)
  have ra: "realloc_ok (\<lambda>_ _ _ _. None)" by (simp add: realloc_ok_def)
  from insert_many_ok[OF r(1) ra assms(4,5), of 1 "[h]"] obtain ret a' where
    i: "st_array_insert_many (\<lambda>_ _ _ _. None) a idx (Some [h]) 1 = Some (ret, a')"
    "ret = ST_OK \<or> ret = ST_OUT_OF_MEMORY \<and> a' = a" "ret = ST_OK \<longleftrightarrow> ar_current_cnt a + 1 \<le> ar_total_cnt a" using r(4) by auto
  show ?thesis
  proof (cases "ret = ST_OK")
    case True
    note s = sorted_insert_ok[OF st_gc_cmp_order r(1,2) subset_UNIV r(3) ra assms(3) i(1)[unfolded True]]
    have "distinct (ordered_insert st_gc_cmp_gc_head h (arr_list a))"
    proof -
      let ?P = "\<lambda>y. \<not> st_gc_cmp_gc_head h y < 0"
      have "distinct (takeWhile ?P (arr_list a) @ dropWhile ?P (arr_list a))" "h \<notin> set (takeWhile ?P (arr_list a) @ dropWhile ?P (arr_list a))"
        using r(5) assms(2) by simp_all
      then show ?thesis unfolding ordered_insert_def by (simp only: distinct_append set_append distinct.simps list.set) blast
    qed
    then have "distinct (arr_list a')" using s by simp
    moreover have "sorted (arr_list a')" "arr_ok a'" using s unfolding st_gc_cmp_sorted by blast+
    ultimately have "roots_ok a'" using insert_static[OF i(1) r(4)] r(3,4) by (simp add: roots_ok_def)
    then show ?thesis using i True s by (intro exI[of _ ret] exI[of _ a']) (simp add: set_ordered_insert)
  next
    case False
    then show ?thesis using i assms(1) by (intro exI[of _ ret] exI[of _ a']) auto
  qed
qed

lemma roots_remove:
  assumes "roots_ok a" "h \<in> set (arr_list a)"
  shows "\<exists>a'. st_array_remove_many a (int (length (takeWhile (\<lambda>y. y < h) (arr_list a)))) 1 = Some a' \<and> roots_ok a' \<and>
    set (arr_list a') = set (arr_list a) - {h}"
proof -
  let ?xs = "arr_list a" and ?k = "length (takeWhile (\<lambda>y. y < h) (arr_list a))"
  have r: "arr_ok a" "sorted ?xs" "distinct ?xs" using assms(1) by (simp_all add: roots_ok_def)
  obtain xs ys where x: "?xs = xs @ h # ys" using split_list[OF assms(2)] by blast
  have lt: "y < h" if "y \<in> set xs" for y using r(2,3) that unfolding x by (auto simp: sorted_append order.strict_iff_order)
  then have k: "?k = length xs" unfolding x by (simp add: takeWhile_append)
  have "int ?k < ar_current_cnt a" using k x length_arr_list[OF r(1)] by simp
  from remove_many_ok[OF r(1) _ this, of 1] obtain a' where
    a: "st_array_remove_many a (int ?k) 1 = Some a'" "arr_ok a'" "arr_list a' = xs @ ys" unfolding k by (auto simp: x)
  have "ar_compare a' = ar_compare a" "ar_dynamic a' = ar_dynamic a" using a(1) by (auto simp: st_array_remove_many_def Let_def split: bind_splits)
  then have "roots_ok a'" using assms(1) a(2,3) x by (auto simp: roots_ok_def sorted_append)
  moreover have "set (arr_list a') = set ?xs - {h}" using r(3) unfolding a(3) x by auto
  ultimately show ?thesis using a(1) by blast
qed

text \<open>The roots are replaced under the lock of the collector.\<close>

definition root_rest :: "world \<Rightarrow> world \<Rightarrow> bool" where
  "root_rest w w' \<longleftrightarrow> w_bytes w' = w_bytes w \<and> w_area w' = w_area w \<and> w_run_gc_periodical w' = w_run_gc_periodical w \<and>
     gc_begin (w_gc w') = gc_begin (w_gc w)"

lemma set_roots_ok:
  fixes l :: mutex
  assumes "gc_idle w T Q" "roots_ok a" "world_ok (set_list ln w) T Q'" "lock_free l'"
    "gc_graph (contents w T) (dom T) (set (arr_list a)) (marks w) (round w) (gc_begin (w_gc w)) Q'"
  defines "w' \<equiv> gc_locked l' (set_list ln (set_roots a (gc_locked l w)))"
  shows "gc_idle w' T Q'" "contents w' T = contents w T" "root_set w' = set (arr_list a)" "root_rest w w'"
proof -
  show "root_rest w w'" by (simp add: root_rest_def w'_def set_roots_def set_list_def gc_locked_def)
  have core: "same_core (set_list ln w) w'" by (simp add: w'_def same_core_def set_roots_def set_list_def)
  have e: "entries w' = entries w" by (simp add: w'_def entries_def kview_def vview_def set_roots_def fun_eq_iff)
  show c: "contents w' T = contents w T" unfolding contents_def e ..
  show r: "root_set w' = set (arr_list a)" by (simp add: root_set_def w'_def set_roots_def gc_locked_def)
  have "w_tables w' = w_tables w" "round w' = round w" "gc_begin (w_gc w') = gc_begin (w_gc w)" "gc_roots (w_gc w') = a" "gc_lock (w_gc w') = l'"
    by (simp_all add: w'_def set_roots_def gc_locked_def)
  then show "gc_idle w' T Q'" using same_core(3)[OF core] assms(2-5) c r by (simp add: gc_idle_def gc_ok_def)
qed

lemma gc_locked_roots [simp]: "gc_roots (w_gc (gc_locked l w)) = gc_roots (w_gc w)"
  by (simp add: gc_locked_def)

lemma add_root_ok:
  assumes "gc_idle w T Q" "storable (contents w T) (dom T) (root_set w) (marks w) (round w) h"
    "gc_begin (w_gc w) \<Longrightarrow> marks w h = round w + 1 \<or> h \<in> set (Q 0)"
  defines "a \<equiv> gc_roots (w_gc w)"
  shows "\<exists>ret w'. st_gc_add_root env w h = Some (ret, w') \<and> gc_idle w' T Q \<and> contents w' T = contents w T \<and> root_rest w w' \<and>
    (if h \<in> root_set w then ret = ST_EXISTED \<and> root_set w' = root_set w
     else if ar_current_cnt a < ar_total_cnt a then ret = ST_OK \<and> root_set w' = insert h (root_set w)
     else ret = ST_OUT_OF_MEMORY \<and> root_set w' = root_set w)"
proof -
  note i = gc_idleD[OF assms(1)]
  have hd: "h \<in> dom T" by (rule storable_reach(3)[OF i(5) assms(2)])
  note h0 = table_args(1)[OF i(3) hd]
  have ra: "roots_ok a" using i(4) by (simp add: a_def)
  have R: "root_set w = set (arr_list a)" by (simp add: root_set_def a_def)
  obtain idx where b: "st_array_bsearch_right a (Some h) None = Some (if h \<in> root_set w then ST_OK else ST_NOT_FOUND, idx)"
    "0 \<le> idx" "idx \<le> ar_current_cnt a" using roots_search(2)[OF ra, of h] unfolding R by blast
  let ?l = "gc_locked (held env) w"
  have g: "st_gc_add_root env w h = Some (ret, gc_locked mutex_new (set_roots a' ?l))"
    if "add_root_body h ?l = Some (ret, set_roots a' ?l)" for ret a'
    using with_gc_lock_eq[OF idleD(2)[OF i(2)], of "add_root_body h", OF that] h0
    by (simp add: st_gc_add_root_def set_roots_def gc_locked_def)
  note s = set_roots_ok[OF assms(1) _ _ lock_new(1), of _ "w_list w" Q "held env"]
  have same: "set_roots a ?l = ?l" by (simp add: a_def set_roots_def set_gc_def gc_locked_def)
  have ll: "set_list (w_list w) (set_roots x ?l) = set_roots x ?l" for x by (simp add: set_list_def set_roots_def)
  note s = s[unfolded ll]
  show ?thesis
  proof (cases "h \<in> root_set w")
    case True
    then have "add_root_body h ?l = Some (ST_EXISTED, set_roots a ?l)" unfolding same using b(1) by (simp add: add_root_body_def a_def)
    then show ?thesis using g s[OF ra] True i(3,5) R by (intro exI[of _ ST_EXISTED] exI[of _ "gc_locked mutex_new (set_roots a ?l)"]) simp
  next
    case False
    then have nf: "st_array_bsearch_right a (Some h) None = Some (ST_NOT_FOUND, idx)" "h \<notin> set (arr_list a)" using b(1) R by simp_all
    obtain ret a' where n: "st_array_insert_many (\<lambda>_ _ _ _. None) a idx (Some [h]) 1 = Some (ret, a')" "roots_ok a'"
      "if ar_current_cnt a < ar_total_cnt a then ret = ST_OK \<and> set (arr_list a') = insert h (set (arr_list a)) else ret = ST_OUT_OF_MEMORY \<and> a' = a"
      using roots_insert[OF ra nf(2,1) b(2,3)] by blast
    have "add_root_body h ?l = Some (ret, set_roots a' ?l)" using nf(1) n(1) by (simp add: add_root_body_def a_def)
    note ret = g[OF this]
    have "gc_begin (w_gc w) \<Longrightarrow> h \<in> black (dom T) (marks w) (round w) \<union> set (Q 0)" using assms(3) hd by (auto simp: black_def)
    note ga = graph_add_root[OF i(5) assms(2) this]
    have "gc_graph (contents w T) (dom T) (set (arr_list a')) (marks w) (round w) (gc_begin (w_gc w)) Q"
      using ga i(5) n(3) unfolding R by (auto split: if_splits)
    then show ?thesis using ret s[OF n(2)] i(3) n(3) False R
      by (intro exI[of _ ret] exI[of _ "gc_locked mutex_new (set_roots a' ?l)"]) (simp split: if_splits)
  qed
qed

lemma sweep_roots:
  assumes "st_gc_push_to_sweep w h = Some (ret, set_list ln w)"
  shows "st_gc_push_to_sweep (set_roots a (gc_locked l w)) h = Some (ret, set_list ln (set_roots a (gc_locked l w)))"
proof -
  have "w_list (set_roots a (gc_locked l w)) = w_list w" "sweep_queue (w_gc (set_roots a (gc_locked l w))) = sweep_queue (w_gc w)"
    by (simp_all add: set_roots_def sweep_queue_def gc_locked_def)
  moreover have "ln' = ln" if "set_list ln' w = set_list ln w" for ln' using arg_cong[OF that, of w_list] by simp
  ultimately show ?thesis using assms by (auto simp: st_gc_push_to_sweep_def set_list_def set_roots_def set_gc_def gc_locked_def split: if_splits bind_splits)
qed

lemma remove_root_ok:
  assumes "gc_idle w T Q" "h \<noteq> NULL"
  shows "\<exists>ret w' Q'. st_gc_remove_root env w h do_free = Some (ret, w') \<and> gc_idle w' T Q' \<and> contents w' T = contents w T \<and> root_rest w w' \<and>
    root_set w' = root_set w - {h} \<and> (if h \<in> root_set w then ret = ST_OK \<and> (do_free \<longrightarrow> h \<in> set (Q' 2)) else ret = ST_NOT_FOUND)"
proof -
  note i = gc_idleD[OF assms(1)]
  define a where "a = gc_roots (w_gc w)"
  have ra: "roots_ok a" using i(4) by (simp add: a_def)
  have R: "root_set w = set (arr_list a)" by (simp add: root_set_def a_def)
  note b = roots_search(1)[OF ra, of h, folded R]
  let ?l = "gc_locked (held env) w"
  have g: "st_gc_remove_root env w h do_free = Some (ret, gc_locked mutex_new (set_list ln (set_roots a' ?l)))"
    if "remove_root_body h do_free ?l = Some (ret, set_list ln (set_roots a' ?l))" for ret a' ln
    using with_gc_lock_eq[OF idleD(2)[OF i(2)], of "remove_root_body h do_free", OF that] assms(2)
    by (simp add: st_gc_remove_root_def set_roots_def gc_locked_def set_list_def)
  have ll: "set_list (w_list w) (set_roots x ?l) = set_roots x ?l" for x by (simp add: set_list_def set_roots_def)
  have same: "set_roots a ?l = ?l" by (simp add: a_def set_roots_def set_gc_def gc_locked_def)
  note s = set_roots_ok[OF assms(1) _ _ lock_new(1), of _ _ _ "held env"]
  show ?thesis
  proof (cases "h \<in> root_set w")
    case False
    then have "remove_root_body h do_free ?l = Some (ST_NOT_FOUND, set_list (w_list w) (set_roots a ?l))"
      unfolding ll unfolding same using b by (simp add: remove_root_body_def a_def)
    note ret = g[OF this]
    show ?thesis using ret s[OF ra, of "w_list w" Q] i(3,5) False R
      by (intro exI[of _ ST_NOT_FOUND] exI[of _ "gc_locked mutex_new (set_list (w_list w) (set_roots a ?l))"] exI[of _ Q]) simp
  next
    case True
    obtain a' where r: "st_array_remove_many a (int (length (takeWhile (\<lambda>y. y < h) (arr_list a)))) 1 = Some a'" "roots_ok a'"
      "set (arr_list a') = root_set w - {h}" using roots_remove[OF ra] True unfolding R by blast
    have hr: "h \<in> reach (contents w T) (root_set w)" using True by (rule reach.start)
    obtain ln where p: "st_gc_push_to_sweep w h = Some (ST_OK, set_list ln w)" "world_ok (set_list ln w) T (swept Q h)"
      using push_to_sweep_ok[OF i(3) reached(1)[OF assms(1) hr]] by blast
    let ?ln = "if do_free then ln else w_list w" and ?Q = "if do_free then swept Q h else Q"
    have "remove_root_body h do_free ?l = Some (ST_OK, set_list ?ln (set_roots a' ?l))"
      using b True r(1) sweep_roots[OF p(1), of a' "held env"] ll by (simp add: remove_root_body_def a_def)
    note ret = g[OF this]
    have "gc_graph (contents w T) (dom T) (root_set w) (marks w) (round w) (gc_begin (w_gc w)) ?Q" using graph_sweep[OF i(5) hr] i(5) by simp
    then have "gc_graph (contents w T) (dom T) (set (arr_list a')) (marks w) (round w) (gc_begin (w_gc w)) ?Q"
      unfolding r(3) by (rule graph_shrink) auto
    moreover have "world_ok (set_list ?ln w) T ?Q" using p(2) i(3) by simp
    moreover have "do_free \<longrightarrow> h \<in> set (?Q 2)" by (simp add: swept_def)
    ultimately show ?thesis using ret s[OF r(2), of ?ln ?Q] True r(3)
      by (intro exI[of _ ST_OK] exI[of _ "gc_locked mutex_new (set_list ?ln (set_roots a' ?l))"] exI[of _ ?Q]) simp
  qed
qed

end
