(* ===== verification/Table_Theorems.thy ===== *)
theory Table_Theorems
  imports Gc_Tables
begin

text \<open>
  What the operations on tables and the collector promise to their callers, with a pool of one table
  as the example.
\<close>

section \<open>A pool of one table\<close>

definition demo_gp :: gc_params where
  "demo_gp = \<lparr>gp_visit_rate = \<lambda>_ _. 1, gp_free_rate = \<lambda>_ _. 1\<rparr>"

lemma fresh_roots_ok:
  assumes "fresh_roots cells a" "length cells = 1024"
  shows "roots_ok a" "arr_list a = []" "ar_current_cnt a < ar_total_cnt a"
  using assms by (simp_all add: fresh_roots_def roots_ok_def arr_ok_def arr_list_def ST_GC_MAX_ROOTS_def)

text \<open>The table is not a root yet, then it is, then it is not any more and waits to be swept.\<close>

lemma demo_gc_idle:
  "\<exists>w x t. gc_idle w [t \<mapsto> E] (\<lambda>_. []) \<and> root_set w = {} \<and> ar_current_cnt (gc_roots (w_gc w)) < ar_total_cnt (gc_roots (w_gc w)) \<and>
    w_run_gc_periodical w = p \<and> w_bytes w = demo_bytes \<and> w_area w = region_area demo_rcb \<and> \<not> gc_begin (w_gc w) \<and> marks w t = round w \<and>
    live w = {(x, 128), (t, 256)} \<and> ar_total_cnt (gc_roots (w_gc w)) = 1024"
proof -
  obtain w x t where w: "idle w [t \<mapsto> E] (\<lambda>_. [])" "w_run_gc_periodical w = p" "w_bytes w = demo_bytes" "w_area w = region_area demo_rcb"
    "\<not> gc_begin (w_gc w)" "fresh_roots (replicate 1024 0) (gc_roots (w_gc w))" "marks w t = round w" "live w = {(x, 128), (t, 256)}" using demo_world by blast
  note f = fresh_roots_ok[OF w(6)]
  have r: "root_set w = {}" using f(2) by (simp add: root_set_def)
  have "reach (contents w [t \<mapsto> E]) {} = {}" using reach_subset[of "{}" "{}"] by blast
  then have "gc_graph (contents w [t \<mapsto> E]) (dom [t \<mapsto> E]) (root_set w) (marks w) (round w) (gc_begin (w_gc w)) (\<lambda>_. [])"
    using w(5,7) r by (simp add: gc_graph_def)
  then have "gc_idle w [t \<mapsto> E] (\<lambda>_. [])" using w(1) f(1) by (simp add: gc_idle_def gc_ok_def idle_def)
  moreover have "ar_total_cnt (gc_roots (w_gc w)) = 1024" using w(6) by (simp add: fresh_roots_def ST_GC_MAX_ROOTS_def)
  ultimately show ?thesis using w r f(3) by (intro exI[of _ w] exI[of _ x] exI[of _ t]) simp
qed

lemma demo_rooted:
  "\<exists>w t. gc_idle w [t \<mapsto> E] (\<lambda>_. []) \<and> root_set w = {t} \<and> contents w [t \<mapsto> E] t = Map.empty \<and>
    w_run_gc_periodical w = p \<and> w_bytes w = demo_bytes \<and> w_area w = region_area demo_rcb \<and> \<not> gc_begin (w_gc w)"
proof -
  obtain w t where w: "gc_idle w [t \<mapsto> E] (\<lambda>_. [])" "root_set w = {}" "ar_current_cnt (gc_roots (w_gc w)) < ar_total_cnt (gc_roots (w_gc w))"
    "w_run_gc_periodical w = p" "w_bytes w = demo_bytes" "w_area w = region_area demo_rcb" "\<not> gc_begin (w_gc w)" "marks w t = round w"
    using demo_gc_idle by blast
  have e: "contents w [t \<mapsto> E] t = Map.empty" by (simp add: contents_def entries_def)
  then have "storable (contents w [t \<mapsto> E]) (dom [t \<mapsto> E]) (root_set w) (marks w) (round w) t" using w(8) by (simp add: storable_def child_def)
  from add_root_ok[OF w(1) this, of demo_env] w(7) obtain w' where "gc_idle w' [t \<mapsto> E] (\<lambda>_. [])" "root_rest w w'" "root_set w' = {t}"
    using w(2,3) by auto
  then show ?thesis using w(4-7) by (intro exI[of _ w'] exI[of _ t]) (simp add: root_rest_def contents_def entries_def)
qed

lemma demo_root_reach: "root_set w = {t} \<Longrightarrow> t \<in> reach C (root_set w)"
  by (rule reach.start) simp

section \<open>Reading\<close>

text \<open>
  C5: On a consistent pool \<^verbatim>\<open>st_table_get_value\<close> finds exactly what the table holds: the value of the key, or
  \<^verbatim>\<open>ST_NOT_FOUND\<close>.
\<close>

theorem table_get_correct:
  assumes "world_ok w T Q" "t \<in> dom T" "env_ok env w" "str_key (w_bytes w) key" "arg_str key"
  shows "case contents w T t (str_view (w_bytes w) key) of
      None \<Rightarrow> st_table_get_value env w t key = Some (ST_NOT_FOUND, None)
    | Some v \<Rightarrow> \<exists>s. st_table_get_value env w t key = Some (ST_OK, Some s) \<and> value_view (w_bytes w) s = v"
  using get_op[OF assms] .

theorem table_get_correct_witness:
  "\<exists>w t. world_ok w [t \<mapsto> E] (\<lambda>_. []) \<and> st_table_get_value demo_env w t demo_key = Some (ST_NOT_FOUND, None)"
proof -
  obtain w t where w: "gc_idle w [t \<mapsto> E] (\<lambda>_. [])" "contents w [t \<mapsto> E] t = Map.empty" "w_bytes w = demo_bytes" "w_area w = region_area demo_rcb"
    using demo_rooted by blast
  note p = put_okD[OF demo_put(1)[OF w(3,4)]] and i = gc_idleD(3)[OF w(1)]
  have "st_table_get_value demo_env w t demo_key = Some (ST_NOT_FOUND, None)"
    using table_get_correct[OF i _ p(1,2,7), of t] w(2) by simp
  then show ?thesis using i by blast
qed



section \<open>Writing\<close>

text \<open>
  C2: On a pool in the invariant, for a table that the roots reach, \<^verbatim>\<open>st_table_set_key_value\<close> always returns.
  Either the allocators have no room for the element and nothing changes, or exactly this key of
  this table has the new value; the collector that may run afterwards removes tables that the roots
  do not reach and changes no other.  The trees of all tables, the queues and marks of the
  collector, the slabs and the pages stay consistent.  A value may refer to a table that the roots
  reach or to a new one.
\<close>

theorem table_set_correct:
  assumes "gc_idle w T Q" "t \<in> reach (contents w T) (root_set w)" "put_ok env w T key value"
    "\<And>a. ref_of (value_view (w_bytes w) value) = Some a \<Longrightarrow> storable (contents w T) (dom T) (root_set w) (marks w) (round w) a"
  shows "\<exists>ret w'. st_table_set_key_value gp env w t key value = Some (ret, w') \<and>
    (run_code ret \<and> after_gc ((contents w T)(t := (contents w T t)(str_view (w_bytes w) key \<mapsto> value_view (w_bytes w) value))) (dom T) (root_set w) w' \<or>
     no_room env w (elem_size key value) ret \<and> after_gc (contents w T) (dom T) (root_set w) w')"
  using set_gc_ok[OF assms] .

lemma demo_value_view: "value_view demo_bytes demo_value = (ST_TYPES_INTEGER, [7, 0, 0, 0])" "ref_of (value_view demo_bytes demo_value) = None"
  by (simp_all add: value_view_def demo_value_def demo_bytes_def numeral_eq_Suc ref_of_def types_defs)

theorem table_set_correct_witness:
  "\<exists>w t ret w'. gc_idle w [t \<mapsto> E] (\<lambda>_. []) \<and> w_run_gc_periodical w = 0 \<and> st_table_set_key_value demo_gp demo_env w t demo_key demo_value = Some (ret, w') \<and>
    (run_code ret \<and> after_gc ((contents w [t \<mapsto> E])(t := [str_view demo_bytes demo_key \<mapsto> (ST_TYPES_INTEGER, [7, 0, 0, 0])])) {t} {t} w' \<or>
     no_room demo_env w (elem_size demo_key demo_value) ret \<and> after_gc (contents w [t \<mapsto> E]) {t} {t} w')"
proof -
  obtain w t where w: "gc_idle w [t \<mapsto> E] (\<lambda>_. [])" "root_set w = {t}" "contents w [t \<mapsto> E] t = Map.empty"
    "w_run_gc_periodical w = 0" "w_bytes w = demo_bytes" "w_area w = region_area demo_rcb" using demo_rooted by blast
  have d: "dom [t \<mapsto> E] = {t}" by simp
  have st: "ref_of (value_view (w_bytes w) demo_value) = Some a \<Longrightarrow> storable (contents w [t \<mapsto> E]) (dom [t \<mapsto> E]) (root_set w) (marks w) (round w) a" for a
    using demo_value_view(2) w(5) by simp
  from table_set_correct[OF w(1) demo_root_reach[OF w(2)] demo_put(1)[OF w(5,6)] st, where gp = demo_gp, unfolded w(2,3,5) demo_value_view(1) d] show ?thesis
    using w(1,4) by blast
qed







text \<open>
  C9: \<^verbatim>\<open>st_table_new\<close> always returns.  With \<^verbatim>\<open>ST_OK\<close> there is one more table, empty, at an address that was no
  table, which may be stored into a table of the pool; with any other answer, be it that the
  allocators have no room or that the lock could not be initialised, the objects in use and all
  tables are as before.  The invariant of the pool and of the collector holds again.
\<close>

theorem table_new_correct:
  assumes "gc_idle w T Q" "env_ok env w"
  shows "\<exists>ret r w' T'. st_table_new env w = Some (ret, r, w') \<and> gc_idle w' T' Q \<and> root_set w' = root_set w \<and> new_table_post w T ret r w' T' \<and>
    (\<forall>t. r = Some t \<longrightarrow> storable (contents w' T') (dom T') (root_set w') (marks w') (round w') t)"
  using new_gc_ok[OF assms] .

theorem table_new_correct_witness:
  "\<exists>w t ret r w' T'. gc_idle w [t \<mapsto> E] (\<lambda>_. []) \<and> st_table_new demo_env w = Some (ret, r, w') \<and> gc_idle w' T' (\<lambda>_. []) \<and>
    new_table_post w [t \<mapsto> E] ret r w' T'"
proof -
  obtain w t where w: "gc_idle w [t \<mapsto> E] (\<lambda>_. [])" "w_bytes w = demo_bytes" "w_area w = region_area demo_rcb" using demo_rooted by blast
  show ?thesis using table_new_correct[OF w(1) demo_put(2)[OF w(2,3)]] w(1) by blast
qed

section \<open>The collector\<close>

text \<open>
  C1: The collector is safe.  A run of it returns from any state of a round, keeps the invariant, leaves every
  table that the roots reach with its contents, and changes no table that it leaves.
\<close>

theorem gc_run_safe:
  assumes "gc_idle w T Q" "env_ok env w"
  shows "\<exists>ret w' T' Q'. st_gc_run gp env w = Some (ret, w') \<and> gc_idle w' T' Q' \<and> root_set w' = root_set w \<and>
    reach (contents w T) (root_set w) \<subseteq> dom T' \<and> dom T' \<subseteq> dom T \<and> (\<forall>t \<in> dom T'. contents w' T' t = contents w T t) \<and>
    (ret \<in> {ST_OK, ST_NO_GC_DATA} \<or> (\<exists>e. ret = Errno e))"
proof -
  obtain ret w' T' Q' where r: "st_gc_run gp env w = Some (ret, w')" "gc_idle w' T' Q'" "root_set w' = root_set w"
    "collects (contents w T) (dom T) (root_set w) (contents w' T') (dom T')" "run_code ret \<or> ret = ST_NO_GC_DATA"
    using gc_run_ok[OF assms] by blast
  then show ?thesis using collects_reach[OF r(4)] gc_graph_reach(1)[OF gc_idleD(5)[OF assms(1)]]
    by (intro exI[of _ ret] exI[of _ w'] exI[of _ T'] exI[of _ Q']) auto
qed

text \<open>A table that was a root waits to be swept.\<close>

lemma demo_garbage:
  "\<exists>w t Q. gc_idle w [t \<mapsto> E] Q \<and> root_set w = {} \<and> t \<in> set (Q 2) \<and> env_ok demo_env w \<and> \<not> gc_begin (w_gc w)"
proof -
  obtain w t where w: "gc_idle w [t \<mapsto> E] (\<lambda>_. [])" "root_set w = {t}" "w_bytes w = demo_bytes" "w_area w = region_area demo_rcb" "\<not> gc_begin (w_gc w)"
    using demo_rooted by blast
  have "t \<noteq> NULL" by (rule table_args(1)[OF gc_idleD(3)[OF w(1)]]) simp
  from remove_root_ok[OF w(1) this, of demo_env True] obtain w' Q' where r: "gc_idle w' [t \<mapsto> E] Q'" "root_rest w w'" "root_set w' = {}" "t \<in> set (Q' 2)"
    using w(2) by auto
  then have "env_ok demo_env w'" using demo_put(2)[of w'] w(3,4) by (simp add: root_rest_def)
  then show ?thesis using r w(5) by (intro exI[of _ w'] exI[of _ t] exI[of _ Q']) (simp add: root_rest_def)
qed

theorem gc_run_safe_witness:
  "\<exists>w t Q ret w' T' Q'. gc_idle w [t \<mapsto> E] Q \<and> t \<in> set (Q 2) \<and> st_gc_run demo_gp demo_env w = Some (ret, w') \<and> gc_idle w' T' Q' \<and> dom T' \<subseteq> {t}"
proof -
  obtain w t Q where w: "gc_idle w [t \<mapsto> E] Q" "t \<in> set (Q 2)" "env_ok demo_env w" using demo_garbage by blast
  obtain ret w' T' Q' where "st_gc_run demo_gp demo_env w = Some (ret, w')" "gc_idle w' T' Q'" "dom T' \<subseteq> dom [t \<mapsto> E]"
    using gc_run_safe[OF w(1,3), of demo_gp] by blast
  then show ?thesis using w(1,2)
    by (intro exI[of _ w] exI[of _ t] exI[of _ Q] exI[of _ ret] exI[of _ w'] exI[of _ T'] exI[of _ Q']) simp
qed



text \<open>
  C10: Roots.  \<^verbatim>\<open>st_gc_remove_root\<close> takes a root away, or answers \<^verbatim>\<open>ST_NOT_FOUND\<close>, and with \<^verbatim>\<open>do_free\<close> makes it a candidate;
  \<^verbatim>\<open>st_gc_add_root\<close> adds one in order, or reports that it exists or that the 1024 slots are used up.  Both keep
  the invariant; while a round is under way the new root must be marked or in the mark queue already,
  because the function does not put it there.
\<close>

theorem gc_roots_correct:
  assumes "gc_idle w T Q" "storable (contents w T) (dom T) (root_set w) (marks w) (round w) h"
    "gc_begin (w_gc w) \<Longrightarrow> marks w h = round w + 1 \<or> h \<in> set (Q 0)" "g \<noteq> NULL"
  shows "(\<exists>ret w'. st_gc_add_root env w h = Some (ret, w') \<and> gc_idle w' T Q \<and> contents w' T = contents w T \<and>
      (if h \<in> root_set w then ret = ST_EXISTED \<and> root_set w' = root_set w
       else if ar_current_cnt (gc_roots (w_gc w)) < ar_total_cnt (gc_roots (w_gc w)) then ret = ST_OK \<and> root_set w' = insert h (root_set w)
       else ret = ST_OUT_OF_MEMORY \<and> root_set w' = root_set w)) \<and>
    (\<exists>ret w' Q'. st_gc_remove_root env w g do_free = Some (ret, w') \<and> gc_idle w' T Q' \<and> contents w' T = contents w T \<and>
      root_set w' = root_set w - {g} \<and> (if g \<in> root_set w then ret = ST_OK \<and> (do_free \<longrightarrow> g \<in> set (Q' 2)) else ret = ST_NOT_FOUND))"
  using add_root_ok[OF assms(1-3), of env] remove_root_ok[OF assms(1,4), of env do_free] by blast

theorem gc_roots_correct_witness:
  "\<exists>w t w' w1 Q'. gc_idle w [t \<mapsto> E] (\<lambda>_. []) \<and> st_gc_add_root demo_env w t = Some (ST_OK, w') \<and> root_set w' = {t} \<and>
    st_gc_remove_root demo_env w t True = Some (ST_NOT_FOUND, w1) \<and> gc_idle w1 [t \<mapsto> E] Q'"
proof -
  obtain w t where w: "gc_idle w [t \<mapsto> E] (\<lambda>_. [])" "root_set w = {}" "ar_current_cnt (gc_roots (w_gc w)) < ar_total_cnt (gc_roots (w_gc w))"
    "\<not> gc_begin (w_gc w)" "marks w t = round w" using demo_gc_idle by blast
  have e: "contents w [t \<mapsto> E] t = Map.empty" by (simp add: contents_def entries_def)
  then have st: "storable (contents w [t \<mapsto> E]) (dom [t \<mapsto> E]) (root_set w) (marks w) (round w) t" using w(5) by (simp add: storable_def child_def)
  have "t \<noteq> NULL" by (rule table_args(1)[OF gc_idleD(3)[OF w(1)]]) simp
  from gc_roots_correct[OF w(1) st _ this, of demo_env True] w(2-4) obtain w' w1 Q' where
    "st_gc_add_root demo_env w t = Some (ST_OK, w')" "root_set w' = {t}" "st_gc_remove_root demo_env w t True = Some (ST_NOT_FOUND, w1)" "gc_idle w1 [t \<mapsto> E] Q'"
    by auto
  then show ?thesis using w(1) by blast
qed

text \<open>
  C11: The pool starts in the invariant: with working clocks and locks \<^verbatim>\<open>st_table_pool_init\<close> succeeds and leaves no
  table, no root, empty queues and no round under way.
\<close>

theorem pool_init_correct:
  assumes "pool_space w" "env_time env 0 = Inr t0" "env_time env 1 = Inr t1" "env_attr env = 0" "data \<noteq> NULL" "length cells = 1024"
  shows "\<exists>w'. st_table_pool_init env data cells w p = Some (ST_OK, w') \<and> gc_idle w' Map.empty (\<lambda>_. []) \<and> root_set w' = {} \<and>
    live w' = live w \<and> w_table_cnt w' = 0 \<and> w_run_gc_periodical w' = p \<and> \<not> gc_begin (w_gc w')"
proof -
  obtain w' where w': "st_table_pool_init env data cells w p = Some (ST_OK, w')" "idle w' Map.empty (\<lambda>_. [])" "w_run_gc_periodical w' = p" "live w' = live w"
    "w_table_cnt w' = 0" "gc_begin (w_gc w') = False" "fresh_roots cells (gc_roots (w_gc w'))" using pool_init_world[OF assms(1-5)] by blast
  note f = fresh_roots_ok[OF w'(7) assms(6)]
  have r: "root_set w' = {}" using f(2) by (simp add: root_set_def)
  have "reach (contents w' Map.empty) {} = {}" using reach_subset[of "{}" "{}"] by blast
  then have "gc_idle w' Map.empty (\<lambda>_. [])" using w'(2,6) f(1) r by (simp add: gc_idle_def gc_ok_def idle_def gc_graph_def)
  then show ?thesis using w' r by blast
qed

theorem pool_init_correct_witness:
  "\<exists>w w'. st_table_pool_init demo_env 4096 (replicate 1024 0) w 0 = Some (ST_OK, w') \<and> gc_idle w' Map.empty (\<lambda>_. [])"
proof -
  obtain sp mem where "pool_space (demo_raw_world sp mem)" using demo_pool_space by blast
  from pool_init_correct[OF this, of demo_env 0 0 4096 "replicate 1024 0" 0] show ?thesis by (auto simp: demo_env_def)
qed

end
