(* ===== verification/Capi.thy ===== *)
theory Capi
  imports Table_Ops
begin

text \<open>
  \<^verbatim>\<open>src/capi/capi.c\<close> and \<^verbatim>\<open>src/capi/capi.h\<close>: the library as a process sees it.  Values cross the border as typed
  strings; a table that a process holds is kept alive by an entry in the process's own root table,
  under the address of the block that the process got for it.  The start and the end of the library
  go through the phases of \<^verbatim>\<open>st_capi_init_state_t\<close>.
\<close>

section \<open>Data\<close>

text \<open>There is one library state, so that the \<^verbatim>\<open>lib_state\<close> pointers are left out.\<close>

record st_capi_process =
  ps_inited :: int
  ps_pid :: pid
  ps_proot :: addr
  ps_alive :: mutex

definition sizeof_process :: nat where "sizeof_process = 80"
definition process_node :: "addr \<Rightarrow> addr" where "process_node p = p + 24"
definition owner_process :: "addr \<Rightarrow> addr" where "owner_process n = n - 24"

text \<open>\<open>cp_pool\<close> is the table pool with the shared memory, \<open>cp_proots\<close> the address of the list head,
  \<open>cp_procs\<close> the process states in shared memory.\<close>

record st_capi =
  cp_shm_fd :: int
  cp_base :: addr
  cp_len :: int
  cp_version :: string
  cp_shm_fn :: string
  cp_data :: addr
  cp_proots :: addr
  cp_lock :: mutex
  cp_groot :: addr
  cp_pool :: world
  cp_init_state :: int
  cp_procs :: "addr \<Rightarrow> st_capi_process"

definition ST_CAPI_INIT_NONE :: int where "ST_CAPI_INIT_NONE = 1"
definition ST_CAPI_INIT_SHM :: int where "ST_CAPI_INIT_SHM = 2"
definition ST_CAPI_INIT_REGION :: int where "ST_CAPI_INIT_REGION = 3"
definition ST_CAPI_INIT_PAGEPOOL :: int where "ST_CAPI_INIT_PAGEPOOL = 4"
definition ST_CAPI_INIT_SLAB :: int where "ST_CAPI_INIT_SLAB = 5"
definition ST_CAPI_INIT_TABLE :: int where "ST_CAPI_INIT_TABLE = 6"
definition ST_CAPI_INIT_GROOT :: int where "ST_CAPI_INIT_GROOT = 7"
definition ST_CAPI_INIT_PROOT :: int where "ST_CAPI_INIT_PROOT = 8"
definition ST_CAPI_INIT_DONE :: int where "ST_CAPI_INIT_DONE = 9"

lemmas init_state_defs = ST_CAPI_INIT_NONE_def ST_CAPI_INIT_SHM_def ST_CAPI_INIT_REGION_def ST_CAPI_INIT_PAGEPOOL_def
  ST_CAPI_INIT_SLAB_def ST_CAPI_INIT_TABLE_def ST_CAPI_INIT_GROOT_def ST_CAPI_INIT_PROOT_def ST_CAPI_INIT_DONE_def

record st_capi_iter =
  ci_table :: st_str
  ci_iterator :: st_table_iter

text \<open>The caller: what it is for the tables, the addresses of its variables \<^verbatim>\<open>key\<close> and \<^verbatim>\<open>table\<close> whose values
  are wrapped, the empty C string, and what its calls of \<^verbatim>\<open>malloc\<close> return.\<close>

record capi_env =
  ce_gp :: gc_params
  ce_env :: env
  ce_key :: addr
  ce_table :: addr
  ce_empty :: addr
  ce_malloc :: "nat \<Rightarrow> addr"

section \<open>Values\<close>

definition st_capi_get_size_by_type :: "bytes \<Rightarrow> addr \<Rightarrow> int \<Rightarrow> int option" where
  "st_capi_get_size_by_type m caddr type =
    (if type = ST_TYPES_STRING then c_strlen m (nat (load_u64 m caddr))
     else if type = ST_TYPES_NUMBER then Some 8
     else if type = ST_TYPES_BOOLEAN then Some 1
     else if type = ST_TYPES_TABLE then Some 8
     else if type = ST_TYPES_INTEGER then Some 4
     else if type = ST_TYPES_U64 then Some 8
     else None)"

definition st_capi_init_tvalue :: "bytes \<Rightarrow> addr \<Rightarrow> int \<Rightarrow> int \<Rightarrow> st_str option" where
  "st_capi_init_tvalue m caddr type size_arg = do {
     st_assert (size_arg \<ge> 0);
     st_assert (caddr \<noteq> NULL);
     sz \<leftarrow> (if size_arg = 0 then st_capi_get_size_by_type m caddr type
            else if type \<noteq> ST_TYPES_STRING then do {
              n \<leftarrow> st_capi_get_size_by_type m caddr type;
              st_assert (n = size_arg);
              Some size_arg
            }
            else Some size_arg);
     let bytes = (if type = ST_TYPES_STRING then nat (load_u64 m caddr) else caddr);
     Some (st_str_wrap_common bytes type sz)
   }"

text \<open>\<^verbatim>\<open>st_capi_make_tvalue\<close> of a variable at \<open>a\<close> that holds the eight bytes of \<open>x\<close>.\<close>

definition put_var :: "addr \<Rightarrow> nat \<Rightarrow> world \<Rightarrow> world" where
  "put_var a x w = w\<lparr>w_bytes := write_bytes (w_bytes w) a (le_bytes 8 (int x))\<rparr>"

section \<open>Tables\<close>

definition st_capi_do_add :: "gc_params \<Rightarrow> env \<Rightarrow> world \<Rightarrow> addr \<Rightarrow> st_str \<Rightarrow> st_str \<Rightarrow> bool \<Rightarrow> (st_error \<times> world) option" where
  "st_capi_do_add gp env w table key value force = do {
     st_assert (table \<noteq> NULL);
     st_assert (str_type key \<noteq> ST_TYPES_TABLE);
     if force then st_table_set_key_value gp env w table key value else st_table_add_key_value gp env w table key value
   }"

definition st_capi_do_remove_key :: "gc_params \<Rightarrow> env \<Rightarrow> world \<Rightarrow> addr \<Rightarrow> st_str \<Rightarrow> (st_error \<times> world) option" where
  "st_capi_do_remove_key gp env w table key = do {
     st_assert (table \<noteq> NULL);
     st_assert (str_bytes key \<noteq> NULL);
     st_assert (str_type key \<noteq> ST_TYPES_TABLE);
     st_table_remove_key gp env w table key
   }"

definition st_capi_make_proot_table_key :: "st_str \<Rightarrow> addr" where
  "st_capi_make_proot_table_key tbl_val = str_bytes tbl_val"

definition st_capi_handle_table_ref_in_proot :: "capi_env \<Rightarrow> addr \<Rightarrow> st_str \<Rightarrow> bool \<Rightarrow> world \<Rightarrow> (st_error \<times> world) option" where
  "st_capi_handle_table_ref_in_proot ce proot tbl_val do_add w = do {
     st_assert (str_bytes tbl_val \<noteq> NULL);
     let w = put_var (ce_key ce) (st_capi_make_proot_table_key tbl_val) w;
     if do_add then do {
       let w = put_var (ce_table ce) (st_table_get_table_addr_from_value (w_bytes w) tbl_val) w;
       key \<leftarrow> st_capi_init_tvalue (w_bytes w) (ce_key ce) ST_TYPES_U64 0;
       value \<leftarrow> st_capi_init_tvalue (w_bytes w) (ce_table ce) ST_TYPES_TABLE 0;
       st_capi_do_add (ce_gp ce) (ce_env ce) w proot key value False
     }
     else do {
       key \<leftarrow> st_capi_init_tvalue (w_bytes w) (ce_key ce) ST_TYPES_U64 0;
       st_capi_do_remove_key (ce_gp ce) (ce_env ce) w proot key
     }
   }"

text \<open>A copy for the caller, from the \<open>k\<close>-th call of \<^verbatim>\<open>malloc\<close>; the third component is the block that \<^verbatim>\<open>free\<close> gets,
  if any.  The local variable and the source are at addresses 1 and 2 of the store of strings.\<close>

definition st_str_null :: st_str where
  "st_str_null = st_str_wrap_lcb 0 0 NULL"

definition free_bytes :: "st_str \<Rightarrow> addr option" where
  "free_bytes s = (if str_bytes s \<noteq> NULL then Some (str_bytes s) else None)"

definition st_capi_copy_out_tvalue ::
    "capi_env \<Rightarrow> addr \<Rightarrow> nat \<Rightarrow> st_str \<Rightarrow> world \<Rightarrow> ((st_error \<times> st_str option \<times> addr option) \<times> world) option" where
  "st_capi_copy_out_tvalue ce proot k src w = do {
     (ret, sm, bs) \<leftarrow> st_str_copy (ce_empty ce) (ce_malloc ce k) ((\<lambda>_. st_str_null)(2 := src)) (w_bytes w) 1 2;
     let value = sm 1;
     let w = w\<lparr>w_bytes := bs\<rparr>;
     if ret \<noteq> ST_OK then Some ((ret, None, free_bytes value), w)
     else if st_types_is_table (str_type value) then do {
       (ret, w) \<leftarrow> st_capi_handle_table_ref_in_proot ce proot value True w;
       if ret \<noteq> ST_OK then Some ((ret, None, free_bytes value), w) else Some ((ST_OK, Some value, None), w)
     }
     else Some ((ST_OK, Some value, None), w)
   }"

definition st_capi_get_groot :: "capi_env \<Rightarrow> addr \<Rightarrow> addr \<Rightarrow> world \<Rightarrow> ((st_error \<times> st_str option \<times> addr option) \<times> world) option" where
  "st_capi_get_groot ce proot groot w = do {
     let w = put_var (ce_table ce) groot w;
     tvalue \<leftarrow> st_capi_init_tvalue (w_bytes w) (ce_table ce) ST_TYPES_TABLE 0;
     st_capi_copy_out_tvalue ce proot 0 tvalue w
   }"

definition st_capi_new :: "capi_env \<Rightarrow> addr \<Rightarrow> world \<Rightarrow> ((st_error \<times> st_str option \<times> addr option) \<times> world) option" where
  "st_capi_new ce proot w = do {
     (ret, t, w) \<leftarrow> st_table_new (ce_env ce) w;
     if ret \<noteq> ST_OK then Some ((ret, None, None), w)
     else do {
       table \<leftarrow> t;
       let w = put_var (ce_table ce) table w;
       tvalue \<leftarrow> st_capi_init_tvalue (w_bytes w) (ce_table ce) ST_TYPES_TABLE 0;
       ((ret, r, f), w) \<leftarrow> st_capi_copy_out_tvalue ce proot 0 tvalue w;
       if ret \<noteq> ST_OK then do {
         (ret1, w) \<leftarrow> st_table_free (ce_env ce) w table;
         st_assert (ret1 = ST_OK);
         Some ((ret, r, f), w)
       }
       else Some ((ret, r, f), w)
     }
   }"

text \<open>The result has the value that the caller is left with and the block that \<^verbatim>\<open>free\<close> gets.\<close>

definition st_capi_free :: "capi_env \<Rightarrow> addr \<Rightarrow> st_str \<Rightarrow> world \<Rightarrow> ((st_error \<times> st_str \<times> addr option) \<times> world) option" where
  "st_capi_free ce proot value w = do {
     st_assert (str_bytes value \<noteq> NULL);
     (ret, w) \<leftarrow> (if st_types_is_table (str_type value) then st_capi_handle_table_ref_in_proot ce proot value False w
                  else Some (ST_OK, w));
     if ret \<noteq> ST_OK then Some ((ret, value, None), w)
     else Some ((ST_OK, st_str_null, Some (str_bytes value)), w)
   }"

definition st_capi_do_get ::
    "capi_env \<Rightarrow> addr \<Rightarrow> addr \<Rightarrow> st_str \<Rightarrow> world \<Rightarrow> ((st_error \<times> st_str option \<times> addr option) \<times> world) option" where
  "st_capi_do_get ce proot table key w = do {
     st_assert (table \<noteq> NULL);
     st_assert (str_bytes key \<noteq> NULL);
     st_assert (str_type key \<noteq> ST_TYPES_TABLE);
     with_table_lock (ce_env ce) table w (\<lambda>w. do {
       (ret, value) \<leftarrow> st_table_get_value (ce_env ce) w table key;
       if ret \<noteq> ST_OK then Some ((ret, None, None), w)
       else do {
         value \<leftarrow> value;
         st_capi_copy_out_tvalue ce proot 0 value w
       }
     })
   }"

section \<open>Iteration\<close>

text \<open>The callback may change its argument and the tables; \<open>None\<close> if it does not return.\<close>

type_synonym 'a foreach_cb = "st_str \<Rightarrow> st_str \<Rightarrow> 'a \<Rightarrow> world \<Rightarrow> (st_error \<times> 'a \<times> world) option"

partial_function (option) foreach_loop :: "'a foreach_cb \<Rightarrow> addr \<Rightarrow> st_table_iter \<Rightarrow> 'a \<Rightarrow> world \<Rightarrow> (st_error \<times> 'a \<times> world) option" where
  "foreach_loop cb table iter args w =
    Option.bind (st_table_iter_next w table iter) (\<lambda>(ret, kv, iter).
      if ret = ST_TABLE_MODIFIED then Some (ret, args, w)
      else if ret = ST_OK then Option.bind kv (\<lambda>(key, value).
        Option.bind (cb key value args w) (\<lambda>(ret, args, w).
          if ret \<noteq> ST_OK then Some (ret, args, w) else foreach_loop cb table iter args w))
      else if ret \<noteq> ST_ITER_FINISH then foreach_loop cb table iter args w
      else Some (ret, args, w))"

definition st_capi_foreach_nolock ::
    "env \<Rightarrow> addr \<Rightarrow> st_str option \<Rightarrow> int \<Rightarrow> 'a foreach_cb \<Rightarrow> 'a \<Rightarrow> world \<Rightarrow> ((st_error \<times> 'a) \<times> world) option" where
  "st_capi_foreach_nolock env table init_key expected_side cb args w = do {
     (ret, iter) \<leftarrow> st_table_iter_init env w table \<lparr>it_element = NULL, it_table_version = 0\<rparr> init_key expected_side;
     if ret \<noteq> ST_OK then Some ((ret, args), w)
     else do {
       (ret, args, w) \<leftarrow> foreach_loop cb table iter args w;
       Some ((if ret = ST_ITER_FINISH then ST_OK else ret, args), w)
     }
   }"

definition st_capi_foreach ::
    "env \<Rightarrow> addr \<Rightarrow> st_str option \<Rightarrow> int \<Rightarrow> 'a foreach_cb \<Rightarrow> 'a \<Rightarrow> world \<Rightarrow> ((st_error \<times> 'a) \<times> world) option" where
  "st_capi_foreach env table init_key expected_side cb args w =
    with_table_lock env table w (st_capi_foreach_nolock env table init_key expected_side cb args)"

definition st_capi_init_iterator ::
    "capi_env \<Rightarrow> addr \<Rightarrow> st_str \<Rightarrow> st_capi_iter \<Rightarrow> st_str option \<Rightarrow> int \<Rightarrow> world
      \<Rightarrow> ((st_error \<times> st_capi_iter \<times> addr option) \<times> world) option" where
  "st_capi_init_iterator ce proot tbl_val iter init_key expected_side w = do {
     let table = st_table_get_table_addr_from_value (w_bytes w) tbl_val;
     with_table_lock (ce_env ce) table w (\<lambda>w. do {
       (ret, it) \<leftarrow> st_table_iter_init (ce_env ce) w table (ci_iterator iter) init_key expected_side;
       let iter = iter\<lparr>ci_iterator := it\<rparr>;
       if ret \<noteq> ST_OK then Some ((ret, iter, None), w)
       else do {
         ((ret, r, f), w) \<leftarrow> st_capi_copy_out_tvalue ce proot 0 tbl_val w;
         Some ((ret, (case r of None \<Rightarrow> iter | Some v \<Rightarrow> iter\<lparr>ci_table := v\<rparr>), f), w)
       }
     })
   }"

text \<open>The copies of the key and of the value; the blocks that \<^verbatim>\<open>free\<close> gets are in the order of the calls.\<close>

definition next_copies ::
    "capi_env \<Rightarrow> addr \<Rightarrow> st_str \<Rightarrow> st_str \<Rightarrow> world \<Rightarrow> ((st_error \<times> (st_str \<times> st_str) option \<times> addr list) \<times> world) option" where
  "next_copies ce proot key value w = do {
     ((ret, k, f), w) \<leftarrow> st_capi_copy_out_tvalue ce proot 0 key w;
     if ret \<noteq> ST_OK then Some ((ret, None, (case f of None \<Rightarrow> [] | Some a \<Rightarrow> [a])), w)
     else do {
       ret_key \<leftarrow> k;
       ((ret, v, f), w) \<leftarrow> st_capi_copy_out_tvalue ce proot 1 value w;
       if ret \<noteq> ST_OK then do {
         ((ret1, _, f1), w) \<leftarrow> st_capi_free ce proot ret_key w;
         st_assert (ret1 = ST_OK);
         Some ((ret, None, (case f of None \<Rightarrow> [] | Some a \<Rightarrow> [a]) @ (case f1 of None \<Rightarrow> [] | Some a \<Rightarrow> [a])), w)
       }
       else do {
         ret_value \<leftarrow> v;
         Some ((ret, Some (ret_key, ret_value), []), w)
       }
     }
   }"

definition st_capi_next ::
    "capi_env \<Rightarrow> addr \<Rightarrow> st_capi_iter \<Rightarrow> world
      \<Rightarrow> ((st_error \<times> (st_str \<times> st_str) option \<times> addr list \<times> st_capi_iter) \<times> world) option" where
  "st_capi_next ce proot iter w = do {
     let table = st_table_get_table_addr_from_value (w_bytes w) (ci_table iter);
     with_table_lock (ce_env ce) table w (\<lambda>w. do {
       (ret, kv, it) \<leftarrow> st_table_iter_next w table (ci_iterator iter);
       let iter = iter\<lparr>ci_iterator := it\<rparr>;
       if ret = ST_OK then do {
         (key, value) \<leftarrow> kv;
         ((ret, kv, f), w) \<leftarrow> next_copies ce proot key value w;
         Some ((ret, kv, f, iter), w)
       }
       else Some ((ret, None, [], iter), w)
     })
   }"

definition st_capi_free_iterator :: "capi_env \<Rightarrow> addr \<Rightarrow> st_capi_iter \<Rightarrow> world \<Rightarrow> ((st_error \<times> st_capi_iter \<times> addr option) \<times> world) option" where
  "st_capi_free_iterator ce proot iter w = do {
     ((ret, v, f), w) \<leftarrow> st_capi_free ce proot (ci_table iter) w;
     Some ((ret, iter\<lparr>ci_table := v\<rparr>, f), w)
   }"

end
