(* ===== verification/Capi_Lock.thy ===== *)
theory Capi_Lock
  imports Gc_Tables Capi
begin

text \<open>
  The functions of the C interface read a table under its lock and meanwhile change the root table of
  the process.  A change of one table does not depend on the lock of another, so that what is known
  about it without the lock holds with it.
\<close>

section \<open>The lock of another table\<close>

definition lock_as :: "addr \<Rightarrow> mutex \<Rightarrow> world \<Rightarrow> world" where
  "lock_as t l = upd_table t (tb_lock_update (\<lambda>_. l))"

lemma lock_as_simps [simp]:
  "w_rb (lock_as t l w) = w_rb w" "w_list (lock_as t l w) = w_list w" "w_bytes (lock_as t l w) = w_bytes w" "w_elems (lock_as t l w) = w_elems w"
  "w_gc (lock_as t l w) = w_gc w" "w_slab (lock_as t l w) = w_slab w" "w_mem (lock_as t l w) = w_mem w" "w_at (lock_as t l w) = w_at w"
  "w_run_gc_periodical (lock_as t l w) = w_run_gc_periodical w" "w_table_cnt (lock_as t l w) = w_table_cnt w"
  "u \<noteq> t \<Longrightarrow> w_tables (lock_as t l w) u = w_tables w u" "tb_lock (w_tables (lock_as t l w) t) = l"
  "tb_mark (w_tables (lock_as t l w) u) = tb_mark (w_tables w u)" "tb_elements (w_tables (lock_as t l w) u) = tb_elements (w_tables w u)"
  "tb_inited (w_tables (lock_as t l w) u) = tb_inited (w_tables w u)" "tb_version (w_tables (lock_as t l w) u) = tb_version (w_tables w u)"
  by (simp_all add: lock_as_def)

lemma lock_as_swap:
  "set_rb rb (lock_as t l w) = lock_as t l (set_rb rb w)" "set_list ln (lock_as t l w) = lock_as t l (set_list ln w)"
  "(lock_as t l w)\<lparr>w_bytes := bs\<rparr> = lock_as t l (w\<lparr>w_bytes := bs\<rparr>)" "(lock_as t l w)\<lparr>w_elems := es\<rparr> = lock_as t l (w\<lparr>w_elems := es\<rparr>)"
  "(lock_as t l w)\<lparr>w_slab := sp\<rparr> = lock_as t l (w\<lparr>w_slab := sp\<rparr>)" "(lock_as t l w)\<lparr>w_mem := mem\<rparr> = lock_as t l (w\<lparr>w_mem := mem\<rparr>)"
  "(lock_as t l w)\<lparr>w_gc := gc\<rparr> = lock_as t l (w\<lparr>w_gc := gc\<rparr>)"
  "u \<noteq> t \<Longrightarrow> upd_table u f (lock_as t l w) = lock_as t l (upd_table u f w)"
  by (simp_all add: lock_as_def upd_table_def set_rb_def set_list_def fun_upd_twist)

text \<open>A step of which the lock of \<open>t\<close> is not a part, in a pool whose operations do not run the collector.\<close>

definition lock_blind :: "addr \<Rightarrow> (world \<Rightarrow> ('a \<times> world) option) \<Rightarrow> bool" where
  "lock_blind t f \<longleftrightarrow> (\<forall>l w. w_run_gc_periodical w = 1 \<longrightarrow> f (lock_as t l w) = map_option (apsnd (lock_as t l)) (f w) \<and>
     (\<forall>r w'. f w = Some (r, w') \<longrightarrow> w_run_gc_periodical w' = 1))"

lemma lock_blindI:
  assumes "\<And>l w. w_run_gc_periodical w = 1 \<Longrightarrow> f (lock_as t l w) = map_option (apsnd (lock_as t l)) (f w)"
    "\<And>w r w'. w_run_gc_periodical w = 1 \<Longrightarrow> f w = Some (r, w') \<Longrightarrow> w_run_gc_periodical w' = 1"
  shows "lock_blind t f"
  unfolding lock_blind_def using assms by blast

lemma lock_blindD:
  assumes "lock_blind t f" "w_run_gc_periodical w = 1"
  shows "f (lock_as t l w) = map_option (apsnd (lock_as t l)) (f w)" "f w = Some (r, w') \<Longrightarrow> w_run_gc_periodical w' = 1"
  using assms unfolding lock_blind_def by blast+

lemma blind_bind:
  assumes "lock_blind t f" "\<And>r. lock_blind t (g r)"
  shows "lock_blind t (\<lambda>w. Option.bind (f w) (\<lambda>(r, w). g r w))"
proof (rule lock_blindI)
  fix l and w :: world assume p: "w_run_gc_periodical w = 1"
  note f = lock_blindD[OF assms(1) p]
  show "Option.bind (f (lock_as t l w)) (\<lambda>(r, w). g r w) = map_option (apsnd (lock_as t l)) (Option.bind (f w) (\<lambda>(r, w). g r w))"
  proof (cases "f w")
    case None
    then show ?thesis using f(1) by simp
  next
    case (Some x)
    then show ?thesis using f(1)[of l] f(2)[of "fst x" "snd x"] lock_blindD(1)[OF assms(2), of "snd x" "fst x" l] by (simp add: split_def)
  qed
next
  fix w :: world and r w' assume p: "w_run_gc_periodical w = 1" and b: "Option.bind (f w) (\<lambda>(r, w). g r w) = Some (r, w')"
  obtain r1 w1 where "f w = Some (r1, w1)" "g r1 w1 = Some (r, w')" using b by (auto split: bind_splits)
  then show "w_run_gc_periodical w' = 1" using lock_blindD(2)[OF assms(1) p] lock_blindD(2)[OF assms(2)] by blast
qed

lemma blind_return: "lock_blind t (\<lambda>w. Some (r, w))" "lock_blind t (\<lambda>_. None)"
  by (simp_all add: lock_blind_def)

lemma blind_if: "lock_blind t f \<Longrightarrow> lock_blind t g \<Longrightarrow> lock_blind t (\<lambda>w. if b then f w else g w)"
  by (cases b) simp_all

lemma blind_test:
  assumes "lock_blind t f" "lock_blind t g" "\<And>l w. b (lock_as t l w) = b w"
  shows "lock_blind t (\<lambda>w. if b w then f w else g w)"
proof (rule lock_blindI)
  fix l and w :: world assume p: "w_run_gc_periodical w = 1"
  show "(if b (lock_as t l w) then f (lock_as t l w) else g (lock_as t l w)) = map_option (apsnd (lock_as t l)) (if b w then f w else g w)"
    using lock_blindD(1)[OF assms(1) p, of l] lock_blindD(1)[OF assms(2) p, of l] assms(3)[of l w] by simp
next
  fix w :: world and r w' assume p: "w_run_gc_periodical w = 1" "(if b w then f w else g w) = Some (r, w')"
  show "w_run_gc_periodical w' = 1"
    using lock_blindD(2)[OF assms(1) p(1), of r w'] lock_blindD(2)[OF assms(2) p(1), of r w'] p(2) by (cases "b w") simp_all
qed

lemma blind_free_element: "lock_blind t (\<lambda>w. st_table_free_element env w e)"
  apply (rule lock_blindI)
  subgoal for l w by (simp add: st_table_free_element_def map_option_bind o_def split_def lock_as_swap)
  subgoal for w r w' by (auto simp: st_table_free_element_def split: bind_splits)
  done

lemma blind_new_element: "lock_blind t (\<lambda>w. map_option (\<lambda>(ret, r, w). ((ret, r), w)) (st_table_new_element env w key value))"
  apply (rule lock_blindI)
  subgoal for l w by (auto simp: st_table_new_element_def lock_as_swap Let_def upd_def split: bind_splits)
  subgoal for w r w' by (auto simp: st_table_new_element_def Let_def upd_def set_rb_def split: bind_splits if_splits)
  done

lemma blind_table_lock:
  assumes "u \<noteq> t" "lock_blind t body"
  shows "lock_blind t (\<lambda>w. with_table_lock env u w body)"
proof (rule lock_blindI)
  fix l and w :: world assume p: "w_run_gc_periodical w = 1"
  show "with_table_lock env u (lock_as t l w) body = map_option (apsnd (lock_as t l)) (with_table_lock env u w body)"
    unfolding with_table_lock_def using assms(1) p
    by (simp add: lock_as_swap lock_blindD(1)[OF assms(2)] map_option_bind bind_map_option o_def split_def)
next
  fix w :: world and r w' assume p: "w_run_gc_periodical w = 1" "with_table_lock env u w body = Some (r, w')"
  then obtain l1 w1 where "body (upd_table u (tb_lock_update (\<lambda>_. l1)) w) = Some (r, w1)" "w_run_gc_periodical w' = w_run_gc_periodical w1"
    by (auto simp: with_table_lock_def split: bind_splits)
  then show "w_run_gc_periodical w' = 1" using lock_blindD(2)[OF assms(2), of "upd_table u (tb_lock_update (\<lambda>_. l1)) w" r w1] p(1) by simp
qed

lemma blind_gc_lock:
  assumes "lock_blind t body"
  shows "lock_blind t (\<lambda>w. with_gc_lock env w body)"
proof (rule lock_blindI)
  fix l and w :: world assume p: "w_run_gc_periodical w = 1"
  show "with_gc_lock env (lock_as t l w) body = map_option (apsnd (lock_as t l)) (with_gc_lock env w body)"
    unfolding with_gc_lock_def using p
    by (simp add: lock_as_swap lock_blindD(1)[OF assms] map_option_bind bind_map_option o_def split_def)
next
  fix w :: world and r w' assume p: "w_run_gc_periodical w = 1" "with_gc_lock env w body = Some (r, w')"
  then obtain l1 w1 where "body (w\<lparr>w_gc := (w_gc w)\<lparr>gc_lock := l1\<rparr>\<rparr>) = Some (r, w1)" "w_run_gc_periodical w' = w_run_gc_periodical w1"
    by (auto simp: with_gc_lock_def split: bind_splits)
  then show "w_run_gc_periodical w' = 1" using lock_blindD(2)[OF assms, of "w\<lparr>w_gc := (w_gc w)\<lparr>gc_lock := l1\<rparr>\<rparr>" r w1] p(1) by simp
qed

lemma blind_add_body: "u \<noteq> t \<Longrightarrow> lock_blind t (\<lambda>w. add_element_body w u e force)"
  apply (rule lock_blindI)
  subgoal for l w by (auto simp: add_element_body_def lock_as_swap Let_def split: bind_splits)
  subgoal for w r w' by (auto simp: add_element_body_def Let_def set_rb_def split: bind_splits if_splits)
  done

lemma blind_push_mark: "lock_blind t (\<lambda>w. map_option (Pair ()) (push_value st_gc_push_to_mark value w))"
  apply (rule lock_blindI)
  subgoal for l w by (auto simp: push_value_def st_gc_push_to_mark_def lock_as_swap split: bind_splits)
  subgoal for w r w' by (auto simp: push_value_def st_gc_push_to_mark_def set_list_def split: bind_splits if_splits)
  done

lemma blind_run_gc: "lock_blind t (st_table_run_gc_if_needed gp env u)"
  by (simp add: lock_blind_def st_table_run_gc_if_needed_def)


section \<open>Adding a key under the lock of another table\<close>

lemma blind_some: "(\<And>x. o' = Some x \<Longrightarrow> lock_blind t (g x)) \<Longrightarrow> lock_blind t (\<lambda>w. Option.bind o' (\<lambda>x. g x w))"
  by (cases o') (simp_all add: blind_return)

lemma blind_add_element: "u \<noteq> t \<Longrightarrow> lock_blind t (\<lambda>w. st_table_add_element env w u e force)"
  unfolding st_table_add_element_def by (rule blind_table_lock[OF _ blind_add_body])

lemma blind_add_key_body:
  assumes "u \<noteq> t"
  shows "lock_blind t (add_key_value_body env u value e)"
proof -
  have push: "lock_blind t (\<lambda>w. Option.bind (push_value st_gc_push_to_mark value w) (\<lambda>w. Some (ST_OK, w)))"
    using blind_bind[of t "\<lambda>w. map_option (Pair ()) (push_value st_gc_push_to_mark value w)" "\<lambda>_ w. Some (ST_OK, w)", OF blind_push_mark blind_return(1)]
    by (simp add: bind_map_option o_def)
  have "lock_blind t (\<lambda>w. with_gc_lock env w (\<lambda>w. Option.bind (st_table_add_element env w u e False) (\<lambda>(x, w).
      (\<lambda>(ret, _) w. if ret \<noteq> ST_OK then Some (ret, w) else Option.bind (push_value st_gc_push_to_mark value w) (\<lambda>w. Some (ST_OK, w))) x w)))"
    by (intro blind_gc_lock blind_bind blind_add_element[OF assms]) (simp add: split_def, intro blind_if blind_return push)
  moreover have "lock_blind t (\<lambda>w. Option.bind (st_table_add_element env w u e False) (\<lambda>(x, w). (\<lambda>(ret, _) w. Some (ret, w)) x w))"
    by (intro blind_bind blind_add_element[OF assms]) (simp add: split_def blind_return)
  ultimately show ?thesis unfolding add_key_value_body_def[abs_def] by (cases "st_types_is_table (str_type value)") (simp_all add: split_def)
qed


lemma blind_add:
  assumes "u \<noteq> t"
  shows "lock_blind t (\<lambda>w. st_table_add_key_value gp env w u key value)"
proof -
  have fin: "lock_blind t (\<lambda>w. Option.bind (add_key_value_body env u value e w) (\<lambda>(ret, w).
      (\<lambda>ret w. if ret \<noteq> ST_OK then Option.bind (st_table_free_element env w e) (\<lambda>(_, w). Some (ret, w)) else st_table_run_gc_if_needed gp env u w) ret w))" for e
    by (intro blind_bind blind_add_key_body[OF assms] blind_if blind_run_gc blind_free_element) (simp add: blind_return)
  have "lock_blind t (\<lambda>w. Option.bind (map_option (\<lambda>(ret, r, w). ((ret, r), w)) (st_table_new_element env w key value)) (\<lambda>(x, w).
      (\<lambda>(ret, elem) w. if ret \<noteq> ST_OK then Some (ret, w) else Option.bind elem (\<lambda>e. Option.bind (add_key_value_body env u value e w) (\<lambda>(ret, w).
        if ret \<noteq> ST_OK then Option.bind (st_table_free_element env w e) (\<lambda>(_, w). Some (ret, w)) else st_table_run_gc_if_needed gp env u w))) x w))"
    by (intro blind_bind blind_new_element) (simp add: split_def, intro blind_if blind_return blind_some fin)
  then have body: "lock_blind t (\<lambda>w. Option.bind (st_table_new_element env w key value) (\<lambda>(ret, elem, w). if ret \<noteq> ST_OK then Some (ret, w) else
      Option.bind elem (\<lambda>e. Option.bind (add_key_value_body env u value e w) (\<lambda>(ret, w).
        if ret \<noteq> ST_OK then Option.bind (st_table_free_element env w e) (\<lambda>(_, w). Some (ret, w)) else st_table_run_gc_if_needed gp env u w))))"
    by (simp add: bind_map_option o_def split_def cong: if_cong)
  show ?thesis unfolding st_table_add_key_value_def
    by (intro blind_if blind_return blind_test body) simp
qed


section \<open>The functions of the interface\<close>

lemma put_var_simps [simp]:
  "w_run_gc_periodical (put_var a x w) = w_run_gc_periodical w" "w_tables (put_var a x w) = w_tables w" "w_gc (put_var a x w) = w_gc w"
  "w_slab (put_var a x w) = w_slab w" "w_mem (put_var a x w) = w_mem w" "w_elems (put_var a x w) = w_elems w" "w_at (put_var a x w) = w_at w"
  "w_bytes (put_var a x w) = write_bytes (w_bytes w) a (le_bytes 8 (int x))" "w_table_cnt (put_var a x w) = w_table_cnt w"
  "put_var a x (lock_as t l w) = lock_as t l (put_var a x w)"
  by (simp_all add: put_var_def lock_as_swap)

lemma blind_seq:
  assumes "lock_blind t g" "\<And>l w. f (lock_as t l w) = lock_as t l (f w)" "\<And>w. w_run_gc_periodical (f w) = w_run_gc_periodical w"
  shows "lock_blind t (\<lambda>w. g (f w))"
proof (rule lock_blindI)
  fix l and w :: world assume p: "w_run_gc_periodical w = 1"
  show "g (f (lock_as t l w)) = map_option (apsnd (lock_as t l)) (g (f w))" using lock_blindD(1)[OF assms(1), of "f w" l] assms(2,3) p by simp
next
  fix w :: world and r w' assume p: "w_run_gc_periodical w = 1" "g (f w) = Some (r, w')"
  show "w_run_gc_periodical w' = 1" using lock_blindD(2)[OF assms(1), of "f w" r w'] assms(3) p by simp
qed

text \<open>The world that a step works on decides its arguments, but not by that lock.\<close>

lemma blind_let:
  assumes "\<And>x. lock_blind t (g x)" "\<And>l w. f (lock_as t l w) = f w"
  shows "lock_blind t (\<lambda>w. g (f w) w)"
proof (rule lock_blindI)
  fix l and w :: world assume p: "w_run_gc_periodical w = 1"
  show "g (f (lock_as t l w)) (lock_as t l w) = map_option (apsnd (lock_as t l)) (g (f w) w)" using lock_blindD(1)[OF assms(1) p, of "f w" l] assms(2) by simp
next
  fix w :: world and r w' assume p: "w_run_gc_periodical w = 1" "g (f w) w = Some (r, w')"
  show "w_run_gc_periodical w' = 1" using lock_blindD(2)[OF assms(1) p(1), of "f w" r w'] p(2) by simp
qed

lemma blind_bind_world:
  assumes "\<And>x. lock_blind t (g x)" "\<And>l w. f (lock_as t l w) = f w"
  shows "lock_blind t (\<lambda>w. Option.bind (f w) (\<lambda>x. g x w))"
  using blind_let[of t "\<lambda>o' w. Option.bind o' (\<lambda>x. g x w)" f] blind_some[of _ t g] assms by simp

lemma blind_do_add: "u \<noteq> t \<Longrightarrow> lock_blind t (\<lambda>w. st_capi_do_add gp env w u key value False)"
  unfolding st_capi_do_add_def if_False by (intro blind_some blind_add)

lemma blind_add_ref:
  assumes "proot \<noteq> t"
  shows "lock_blind t (st_capi_handle_table_ref_in_proot ce proot v True)"
proof -
  let ?g = "\<lambda>w. Option.bind (st_capi_init_tvalue (w_bytes w) (ce_key ce) ST_TYPES_U64 0) (\<lambda>key.
      Option.bind (st_capi_init_tvalue (w_bytes w) (ce_table ce) ST_TYPES_TABLE 0) (\<lambda>value.
        st_capi_do_add (ce_gp ce) (ce_env ce) w proot key value False))"
  have "lock_blind t ?g" by (intro blind_bind_world blind_do_add[OF assms]) simp_all
  then have "lock_blind t (\<lambda>w. ?g (put_var (ce_table ce) (st_table_get_table_addr_from_value (w_bytes w) v) w))"
    by (rule blind_seq) simp_all
  then have "lock_blind t (\<lambda>w. (\<lambda>w. ?g (put_var (ce_table ce) (st_table_get_table_addr_from_value (w_bytes w) v) w)) (put_var (ce_key ce) (str_bytes v) w))"
    by (rule blind_seq) simp_all
  then show ?thesis unfolding st_capi_handle_table_ref_in_proot_def[abs_def] st_capi_make_proot_table_key_def
    by (intro blind_some) (simp add: Let_def)
qed

lemma blind_copy_out:
  assumes "proot \<noteq> t"
  shows "lock_blind t (st_capi_copy_out_tvalue ce proot k src)"
proof -
  have fin: "lock_blind t (\<lambda>w. Option.bind (st_capi_handle_table_ref_in_proot ce proot v True w) (\<lambda>(ret, w).
      (\<lambda>ret w. if ret \<noteq> ST_OK then Some ((ret, None, free_bytes v), w) else Some ((ST_OK, Some v, None), w)) ret w))" for v
    by (intro blind_bind blind_add_ref[OF assms] blind_if blind_return)
  have bytes: "lock_blind t (\<lambda>w. g (w\<lparr>w_bytes := bs\<rparr>))" if "lock_blind t g" for g :: "world \<Rightarrow> ((st_error \<times> st_str option \<times> addr option) \<times> world) option" and bs
    by (rule blind_seq[OF that]) (simp_all add: lock_as_swap)
  let ?g = "\<lambda>(ret, sm, bs) w. if ret \<noteq> ST_OK then Some ((ret, None, free_bytes (sm 1)), w)
     else if st_types_is_table (str_type (sm 1)) then Option.bind (st_capi_handle_table_ref_in_proot ce proot (sm 1) True w) (\<lambda>(ret, w).
       if ret \<noteq> ST_OK then Some ((ret, None, free_bytes (sm 1)), w) else Some ((ST_OK, Some (sm 1), None), w))
     else Some ((ST_OK, Some (sm 1), None), w)"
  have "lock_blind t (?g x)" for x :: "st_error \<times> strs \<times> bytes"
    by (cases x) (simp only: prod.case, intro blind_if blind_return fin)
  then have "lock_blind t (\<lambda>w. ?g x (w\<lparr>w_bytes := snd (snd x)\<rparr>))" for x :: "st_error \<times> strs \<times> bytes" by (rule bytes)
  then have "lock_blind t (\<lambda>w. Option.bind (st_str_copy (ce_empty ce) (ce_malloc ce k) ((\<lambda>_. st_str_null)(2 := src)) (w_bytes w) 1 2)
      (\<lambda>x. ?g x (w\<lparr>w_bytes := snd (snd x)\<rparr>)))"
    by (rule blind_bind_world) simp
  then show ?thesis unfolding st_capi_copy_out_tvalue_def[abs_def] Let_def by (simp add: split_def cong: if_cong)
qed

lemma under_lock:
  assumes "lock_blind t body" "w_run_gc_periodical w = 1" "lock_free (tb_lock (w_tables w t))" "body w = Some (r, w')"
  shows "with_table_lock env t w body = Some (r, lock_as t mutex_new w')"
proof -
  have "body (lock_as t (held env) w) = Some (r, lock_as t (held env) w')" using lock_blindD(1)[OF assms(1,2), of "held env"] assms(4) by simp
  from with_table_lock_eq[OF assms(3), of body env, folded lock_as_def, OF this] show ?thesis by (simp add: lock_as_def)
qed

lemma unlocked_idle:
  assumes "gc_idle w T Q" "t \<in> dom T"
  shows "gc_idle (lock_as t mutex_new w) T Q" "contents (lock_as t mutex_new w) T = contents w T"
proof -
  obtain tr where tr: "T t = Some tr" using assms(2) by blast
  note l = lock_only[OF gc_idleD(3)[OF assms(1)] tr lock_new(1), folded lock_as_def]
  then show "gc_idle (lock_as t mutex_new w) T Q" using gc_idleD[OF assms(1)] by (simp add: gc_idle_def gc_ok_def root_set_def idle_def)
  show "contents (lock_as t mutex_new w) T = contents w T" by (fact l(3))
qed

end
