(* ===== verification/Capi_Refs.thy ===== *)
theory Capi_Refs
  imports Capi_Lock
begin

text \<open>
  Values that cross the border: what a process gets is a copy in its own memory, and a table that it
  gets is referenced in its root table from then on, under the address of the copy, until it gives
  the copy back.
\<close>

section \<open>Numbers in memory\<close>

lemma le_value_bounds: "0 \<le> le_value bs" "le_value bs < 256 ^ length bs"
proof (induction bs)
  case (Cons b bs)
  have b: "0 \<le> uint b" "uint b < 256" using uint_bounded[of b] by simp_all
  case 1
  show ?case using Cons(1) b by simp
  case 2
  show ?case using Cons(2) b by (simp add: algebra_simps)
qed simp_all

lemma le_value_bytes: "0 \<le> v \<Longrightarrow> le_value (le_bytes n v) = v mod 256 ^ n"
proof (induction n arbitrary: v)
  case (Suc n)
  have "uint (word_of_int v :: u8) = v mod 256" by (simp add: uint_word_of_int)
  moreover have "v mod 256 + 256 * (v div 256 mod 256 ^ n) = v mod (256 * 256 ^ n)" by (simp add: zmod_zmult2_eq Suc.prems)
  ultimately show ?case using Suc.IH[of "v div 256"] Suc.prems by (simp add: pos_imp_zdiv_nonneg_iff)
qed simp

lemma length_le_bytes [simp]: "length (le_bytes n v) = n"
  by (induction n arbitrary: v) simp_all

lemma read_write [simp]: "length bs = n \<Longrightarrow> read_bytes (write_bytes m a bs) a n = bs"
  by (auto simp: list_eq_iff_nth_eq read_bytes_nth write_bytes_at)

lemma read_write_other: "{a ..< a + n} \<inter> {b ..< b + length bs} = {} \<Longrightarrow> read_bytes (write_bytes m b bs) a n = read_bytes m a n"
  by (auto simp: read_bytes_eq_iff intro!: write_bytes_other)

section \<open>The memory of the caller\<close>

text \<open>Its variables do not overlap each other or the regions; it runs in a pool whose operations leave the
  collector to someone else, as \<^verbatim>\<open>st_capi_do_init\<close> sets it up.\<close>

abbreviation var_range :: "addr \<Rightarrow> addr set" where
  "var_range a \<equiv> {a ..< a + 8}"

definition caller_ok :: "capi_env \<Rightarrow> world \<Rightarrow> bool" where
  "caller_ok ce w \<longleftrightarrow> env_ok (ce_env ce) w \<and> w_run_gc_periodical w = 1 \<and> ce_key ce \<noteq> NULL \<and> ce_table ce \<noteq> NULL \<and>
     var_range (ce_key ce) \<inter> w_area w = {} \<and> var_range (ce_table ce) \<inter> w_area w = {} \<and> var_range (ce_key ce) \<inter> var_range (ce_table ce) = {}"

text \<open>What \<^verbatim>\<open>malloc\<close> promises of a block: it overlaps neither the regions nor the variables.\<close>

definition block_ok :: "capi_env \<Rightarrow> world \<Rightarrow> addr \<Rightarrow> int \<Rightarrow> bool" where
  "block_ok ce w d n \<longleftrightarrow> int d + n \<le> 2 ^ 64 \<and>
     {d ..< d + nat n} \<inter> (w_area w \<union> var_range (ce_key ce) \<union> var_range (ce_table ce)) = {}"

text \<open>What a call leaves alone, apart from the tables: the roots, the state of the collector, and the memory
  of the caller outside \<open>B\<close>.\<close>

definition call_rest :: "addr set \<Rightarrow> world \<Rightarrow> world \<Rightarrow> bool" where
  "call_rest B w w' \<longleftrightarrow> w_area w' = w_area w \<and> root_set w' = root_set w \<and> w_run_gc_periodical w' = w_run_gc_periodical w \<and>
     gc_begin (w_gc w') = gc_begin (w_gc w) \<and> round w' = round w \<and> (\<forall>u. marks w' u = marks w u) \<and>
     (\<forall>x. x \<notin> w_area w \<union> B \<longrightarrow> w_bytes w' x = w_bytes w x)"

lemma call_rest_trans: "call_rest B w w' \<Longrightarrow> call_rest C w' w'' \<Longrightarrow> call_rest (B \<union> C) w w''"
  by (simp add: call_rest_def)

lemma call_rest_mono: "call_rest B w w' \<Longrightarrow> B \<subseteq> C \<Longrightarrow> call_rest C w w'"
  unfolding call_rest_def by blast

lemma call_rest_bytes: "call_rest B w w' \<Longrightarrow> x \<notin> w_area w \<union> B \<Longrightarrow> w_bytes w' x = w_bytes w x"
  by (simp add: call_rest_def)

lemma call_rest_op: "op_rest w w' \<Longrightarrow> call_rest {} w w'"
proof -
  assume o: "op_rest w w'"
  note g = op_rest_gc(2,3,5)[OF o]
  have "w_area w' = w_area w" "w_run_gc_periodical w' = w_run_gc_periodical w" "outside_same w w'" "same_marks w w'"
    using o by (simp_all add: op_rest_def)
  then show ?thesis using g by (simp add: call_rest_def outside_same_def same_marks_def)
qed

lemma call_rest_caller: "caller_ok ce w \<Longrightarrow> call_rest B w w' \<Longrightarrow> caller_ok ce w'"
  using env_ok_area[of "ce_env ce" w w'] by (simp add: caller_ok_def call_rest_def)

lemma bytes_idle:
  assumes "gc_idle w T Q" "\<And>x. x \<in> w_area w \<Longrightarrow> bs x = w_bytes w x"
  shows "gc_idle (w\<lparr>w_bytes := bs\<rparr>) T Q" "contents (w\<lparr>w_bytes := bs\<rparr>) T = contents w T"
proof -
  note i = gc_idleD[OF assms(1)]
  let ?w = "w\<lparr>w_bytes := bs\<rparr>"
  have inv: "slab_inv (w_slab w) (w_mem w)" by (rule world_okD(1)[OF i(3)])
  have "elem_same w ?w e" if "e \<in> elems_of T" for e
    using assms(2) live_not_meta(2)[OF inv, of e] by (auto simp: elem_same_def)
  then have s: "world_same w ?w T" using table_nodes(1)[OF i(3)] by (simp add: world_same_def)
  note f = world_frame[OF i(3) s]
  show c: "contents ?w T = contents w T" using f(3) inv by (simp add: fun_eq_iff)
  show "gc_idle ?w T Q" using f(1) inv i c by (simp add: gc_idle_def gc_ok_def idle_def root_set_def)
qed

lemma var_idle:
  assumes "gc_idle w T Q" "var_range a \<inter> w_area w = {}"
  shows "gc_idle (put_var a x w) T Q" "contents (put_var a x w) T = contents w T" "call_rest (var_range a) w (put_var a x w)"
    "read_bytes (w_bytes (put_var a x w)) a 8 = le_bytes 8 (int x)"
proof -
  have o: "write_bytes (w_bytes w) a (le_bytes 8 (int x)) y = w_bytes w y" if "y \<notin> var_range a" for y
    using that by (intro write_bytes_other) simp
  then show "gc_idle (put_var a x w) T Q" "contents (put_var a x w) T = contents w T"
    unfolding put_var_def using assms(2) by (intro bytes_idle[OF assms(1)]; blast)+
  show "call_rest (var_range a) w (put_var a x w)" using o by (simp add: call_rest_def root_set_def)
qed simp

section \<open>References in the root table of the process\<close>

definition proot_key :: "addr \<Rightarrow> str_view" where
  "proot_key b = (ST_TYPES_U64, True, int b, [], 8)"

definition table_value :: "addr \<Rightarrow> int \<times> u8 list" where
  "table_value a = (ST_TYPES_TABLE, le_bytes 8 (int a))"

lemma table_value_ref: "a < 2 ^ 64 \<Longrightarrow> ref_of (table_value a) = Some a"
  by (simp add: table_value_def ref_of_def le_value_bytes)

lemma table_addr_bound: "st_table_get_table_addr_from_value m v < 2 ^ 64"
  using le_value_bounds[of "read_bytes m (str_bytes v) 8"] by (simp add: st_table_get_table_addr_from_value_def load_u64_def)

text \<open>The two variables as typed strings.\<close>

lemma var_key:
  assumes "a \<noteq> NULL" "read_bytes m a 8 = le_bytes 8 (int b)" "b < 2 ^ 64"
  shows "st_capi_init_tvalue m a ST_TYPES_U64 0 = Some (st_str_wrap_common a ST_TYPES_U64 8)"
    "str_view m (st_str_wrap_common a ST_TYPES_U64 8) = proot_key b" "str_key m (st_str_wrap_common a ST_TYPES_U64 8)"
  using assms by (simp_all add: st_capi_init_tvalue_def st_capi_get_size_by_type_def types_defs st_str_wrap_common_def str_view_def proot_key_def
      load_u64_def le_value_bytes str_key_def)

lemma var_table:
  assumes "a \<noteq> NULL" "read_bytes m a 8 = le_bytes 8 (int t)"
  shows "st_capi_init_tvalue m a ST_TYPES_TABLE 0 = Some (st_str_wrap_common a ST_TYPES_TABLE 8)"
    "value_view m (st_str_wrap_common a ST_TYPES_TABLE 8) = table_value t"
  using assms by (simp_all add: st_capi_init_tvalue_def st_capi_get_size_by_type_def types_defs st_str_wrap_common_def table_value_def value_view_def)

lemma var_safe:
  assumes "a \<noteq> NULL" "var_range a \<inter> w_area w = {}" "ty \<in> {ST_TYPES_U64, ST_TYPES_TABLE}"
  shows "str_safe w (st_str_wrap_common a ty 8)"
  using assms by (auto simp: str_safe_def str_fits_def str_width_def str_range_def st_str_wrap_common_def types_defs)


lemma quiet_then_gc: "w_run_gc_periodical w = 1 \<Longrightarrow> then_gc gp env t ret w = Some (ret, w)"
  by (simp add: then_gc_def st_table_run_gc_if_needed_def)

lemma op_quiet: "op_rest w w' \<Longrightarrow> w_run_gc_periodical w' = w_run_gc_periodical w"
  by (simp add: op_rest_def)

lemma caller_okD:
  assumes "caller_ok ce w"
  shows "env_ok (ce_env ce) w" "w_run_gc_periodical w = 1" "ce_key ce \<noteq> NULL" "ce_table ce \<noteq> NULL"
    "var_range (ce_key ce) \<inter> w_area w = {}" "var_range (ce_table ce) \<inter> w_area w = {}"
    "var_range (ce_key ce) \<inter> var_range (ce_table ce) = {}"
  using assms by (simp_all add: caller_ok_def)

lemma root_reach: "p \<in> root_set w \<Longrightarrow> p \<in> reach C (root_set w)"
  by (rule reach.start)

text \<open>A table that the process may hold.\<close>

abbreviation holdable :: "world \<Rightarrow> tables \<Rightarrow> addr \<Rightarrow> bool" where
  "holdable w T a \<equiv> storable (contents w T) (dom T) (root_set w) (marks w) (round w) a"

text \<open>Why a reference is refused.\<close>

definition refused :: "capi_env \<Rightarrow> world \<Rightarrow> tables \<Rightarrow> addr \<Rightarrow> addr \<Rightarrow> st_error \<Rightarrow> bool" where
  "refused ce w T p d ret \<longleftrightarrow> ret = ST_EXISTED \<and> contents w T p (proot_key d) \<noteq> None \<or> no_room (ce_env ce) w 128 ret"

lemma add_ref_ok:
  fixes v :: st_str
  assumes "gc_idle w T Q" "caller_ok ce w" "p \<in> root_set w" "str_bytes v \<noteq> NULL" "str_bytes v < 2 ^ 64"
    "var_range (str_bytes v) \<inter> var_range (ce_key ce) = {}"
    "holdable w T (st_table_get_table_addr_from_value (w_bytes w) v)"
  shows "\<exists>ret w' T' Q'. st_capi_handle_table_ref_in_proot ce p v True w = Some (ret, w') \<and> gc_idle w' T' Q' \<and> dom T' = dom T \<and>
    call_rest (var_range (ce_key ce) \<union> var_range (ce_table ce)) w w' \<and>
    (if ret = ST_OK
     then contents w' T' = (contents w T)(p := (contents w T p)(proot_key (str_bytes v) \<mapsto> table_value (st_table_get_table_addr_from_value (w_bytes w) v)))
     else contents w' T' = contents w T \<and> Q' = Q \<and> refused ce w T p (str_bytes v) ret)"
proof -
  let ?b = "str_bytes v" and ?a = "st_table_get_table_addr_from_value (w_bytes w) v"
  note c = caller_okD[OF assms(2)]
  let ?w1 = "put_var (ce_key ce) ?b w"
  note v1 = var_idle[OF assms(1) c(5), of ?b]
  have a: "st_table_get_table_addr_from_value (w_bytes ?w1) v = ?a"
    using assms(6) read_write_other[of ?b 8 "ce_key ce" "le_bytes 8 (int ?b)"] by (simp add: st_table_get_table_addr_from_value_def load_u64_def)
  let ?w2 = "put_var (ce_table ce) ?a ?w1"
  note v2 = var_idle[OF v1(1), of "ce_table ce" ?a]
  have i2: "gc_idle ?w2 T Q" "contents ?w2 T = contents w T" using v2(1,2) v1(2) c(6) by simp_all
  have r2: "call_rest (var_range (ce_key ce) \<union> var_range (ce_table ce)) w ?w2" by (rule call_rest_trans[OF v1(3) v2(3)]) (use c(6) in simp)
  let ?k = "st_str_wrap_common (ce_key ce) ST_TYPES_U64 8" and ?v = "st_str_wrap_common (ce_table ce) ST_TYPES_TABLE 8"
  have "read_bytes (w_bytes ?w2) (ce_key ce) 8 = le_bytes 8 (int ?b)"
    using v1(4) c(7) read_write_other[of "ce_key ce" 8 "ce_table ce" "le_bytes 8 (int ?a)"] by simp
  note k = var_key[OF c(3) this assms(5)] and t = var_table[OF c(4), of "w_bytes ?w2" ?a]
  have tv: "value_view (w_bytes ?w2) ?v = table_value ?a" using t(2) v2(4) c(6) by simp
  have ref: "ref_of (value_view (w_bytes ?w2) ?v) = Some ?a" unfolding tv by (rule table_value_ref[OF table_addr_bound])
  have st: "holdable ?w2 T ?a" unfolding i2(2) using assms(7) r2 by (simp add: root_set_def)
  have sz: "elem_size ?k ?v = 128" by (simp add: elem_size_def st_str_wrap_common_def types_defs sizeof_element_def st_align_def)
  have sf: "str_safe ?w2 ?k" "str_safe ?w2 ?v" using c(5,6) by (intro var_safe c(3,4); simp)+
  have "?a \<in> dom T" using storable_reach(3)[OF gc_idleD(5)[OF assms(1)] assms(7)] .
  then have put: "put_ok (ce_env ce) ?w2 T ?k ?v" unfolding put_ok_def ref sz using env_ok_area[OF c(1), of ?w2] k(3) sf by simp
  have p: "p \<in> reach (contents ?w2 T) (root_set ?w2)" using assms(3) r2 by (intro root_reach) (simp add: root_set_def)
  have "\<exists>ret w1 T1 Q1. st_table_add_key_value (ce_gp ce) (ce_env ce) ?w2 p ?k ?v = then_gc (ce_gp ce) (ce_env ce) p ret w1 \<and> gc_idle w1 T1 Q1 \<and>
      dom T1 = dom T \<and> op_rest ?w2 w1 \<and>
      (if ret = ST_OK then contents ?w2 T p (str_view (w_bytes ?w2) ?k) = None \<and> put_done ?w2 T p ?k ?v w1 T1
       else contents w1 T1 = contents ?w2 T \<and> Q1 = Q \<and>
         (ret = ST_EXISTED \<and> contents ?w2 T p (str_view (w_bytes ?w2) ?k) \<noteq> None \<or> no_room (ce_env ce) ?w2 (elem_size ?k ?v) ret))"
    by (rule add_idle_ok[OF i2(1) p put]) (use st ref in simp)
  then obtain ret w' T' Q' where o: "st_table_add_key_value (ce_gp ce) (ce_env ce) ?w2 p ?k ?v = then_gc (ce_gp ce) (ce_env ce) p ret w'" "gc_idle w' T' Q'"
    "dom T' = dom T" "op_rest ?w2 w'"
    "if ret = ST_OK then contents w T p (proot_key ?b) = None \<and> put_done ?w2 T p ?k ?v w' T'
     else contents w' T' = contents w T \<and> Q' = Q \<and> (ret = ST_EXISTED \<and> contents w T p (proot_key ?b) \<noteq> None \<or> no_room (ce_env ce) ?w2 128 ret)"
    unfolding i2(2) k(2) sz by blast
  have o5: "if ret = ST_OK then put_done ?w2 T p ?k ?v w' T' else contents w' T' = contents w T \<and> Q' = Q \<and> refused ce w T p ?b ret"
    using o(5) by (cases "ret = ST_OK") (simp_all add: refused_def no_room_def)
  have "w_run_gc_periodical w' = 1" using op_quiet[OF o(4)] c(2) by simp
  then have "st_table_add_key_value (ce_gp ce) (ce_env ce) ?w2 p ?k ?v = Some (ret, w')" using o(1) quiet_then_gc by simp
  moreover have "p \<noteq> NULL" using reached(1)[OF i2(1) p] table_args(1)[OF gc_idleD(3)[OF i2(1)]] by blast
  ultimately have "st_capi_handle_table_ref_in_proot ce p v True w = Some (ret, w')"
    using k(1) t(1) v2(4) c(6) assms(4) a
    by (simp add: st_capi_handle_table_ref_in_proot_def st_capi_make_proot_table_key_def st_capi_do_add_def st_str_wrap_common_def types_defs Let_def)
  moreover have "call_rest (var_range (ce_key ce) \<union> var_range (ce_table ce)) w w'"
    using call_rest_trans[OF r2 call_rest_op[OF o(4)]] by simp
  ultimately show ?thesis using o(2,3) o5 unfolding put_done_def i2(2) k(2) tv by blast
qed


lemma remove_ref_ok:
  fixes v :: st_str
  assumes "gc_idle w T Q" "caller_ok ce w" "p \<in> root_set w" "str_bytes v \<noteq> NULL" "str_bytes v < 2 ^ 64"
  shows "\<exists>ret w' T' Q'. st_capi_handle_table_ref_in_proot ce p v False w = Some (ret, w') \<and> gc_idle w' T' Q' \<and> dom T' = dom T \<and>
    call_rest (var_range (ce_key ce)) w w' \<and>
    (if contents w T p (proot_key (str_bytes v)) = None then ret = ST_NOT_FOUND \<and> contents w' T' = contents w T
     else ret = ST_OK \<and> contents w' T' = (contents w T)(p := (contents w T p)(proot_key (str_bytes v) := None)))"
proof -
  let ?b = "str_bytes v"
  note c = caller_okD[OF assms(2)]
  let ?w1 = "put_var (ce_key ce) ?b w" and ?k = "st_str_wrap_common (ce_key ce) ST_TYPES_U64 8"
  note v1 = var_idle[OF assms(1) c(5), of ?b]
  note k = var_key[OF c(3) v1(4) assms(5)]
  have p: "p \<in> reach (contents ?w1 T) (root_set ?w1)" using assms(3) v1(3) by (intro root_reach) (simp add: call_rest_def)
  have e: "env_ok (ce_env ce) ?w1" "arg_str ?k" using env_ok_area[OF c(1), of ?w1] c(3) by (simp_all add: arg_str_def st_str_wrap_common_def)
  obtain ret w' T' Q' where o: "st_table_remove_key (ce_gp ce) (ce_env ce) ?w1 p ?k = then_gc (ce_gp ce) (ce_env ce) p ret w'" "gc_idle w' T' Q'"
    "dom T' = dom T" "op_rest ?w1 w'"
    "if contents w T p (proot_key ?b) = None then ret = ST_NOT_FOUND \<and> contents w' T' = contents w T
     else ret = ST_OK \<and> contents w' T' = (contents w T)(p := (contents w T p)(proot_key ?b := None))"
    using remove_idle_ok[OF v1(1) p e(1) k(3) e(2), of "ce_gp ce"] unfolding v1(2) k(2) by blast
  have "w_run_gc_periodical w' = 1" using op_quiet[OF o(4)] c(2) by simp
  then have "st_table_remove_key (ce_gp ce) (ce_env ce) ?w1 p ?k = Some (ret, w')" using o(1) quiet_then_gc by simp
  moreover have "p \<noteq> NULL" using reached(1)[OF v1(1) p] table_args(1)[OF gc_idleD(3)[OF v1(1)]] by blast
  ultimately have "st_capi_handle_table_ref_in_proot ce p v False w = Some (ret, w')"
    using k(1) c(3) assms(4)
    by (simp add: st_capi_handle_table_ref_in_proot_def st_capi_make_proot_table_key_def st_capi_do_remove_key_def st_str_wrap_common_def types_defs Let_def)
  moreover have "call_rest (var_range (ce_key ce)) w w'" using call_rest_trans[OF v1(3) call_rest_op[OF o(4)]] by simp
  ultimately show ?thesis using o(2,3,5) by blast
qed

section \<open>Copies for the caller\<close>

text \<open>The contents of the tables once the process holds the value \<open>v\<close> in the block \<open>d\<close>.\<close>

definition hold :: "contents \<Rightarrow> addr \<Rightarrow> addr \<Rightarrow> int \<times> u8 list \<Rightarrow> contents" where
  "hold C p d v = (case ref_of v of None \<Rightarrow> C | Some a \<Rightarrow> C(p := (C p)(proot_key d \<mapsto> table_value a)))"

text \<open>The outcome of a copy: the value, in the new block and held; or nothing, with the block given back.\<close>

definition copied :: "capi_env \<Rightarrow> world \<Rightarrow> tables \<Rightarrow> addr \<Rightarrow> addr \<Rightarrow> int \<times> u8 list \<Rightarrow> st_error \<Rightarrow> st_str option \<Rightarrow> addr option \<Rightarrow> world \<Rightarrow> tables \<Rightarrow> bool" where
  "copied ce w T p d v ret r f w' T' \<longleftrightarrow>
    (if ret = ST_OK
     then (\<exists>s. r = Some s \<and> str_bytes s = d \<and> d \<noteq> NULL \<and> str_bytes_owned s \<and> str_fits s \<and> value_view (w_bytes w') s = v) \<and> f = None \<and>
       contents w' T' = hold (contents w T) p d v
     else r = None \<and> contents w' T' = contents w T \<and>
       (if d = NULL then ret = ST_OUT_OF_MEMORY \<and> f = None else f = Some d \<and> ref_of v \<noteq> None \<and> refused ce w T p d ret))"

lemma str_copy_ok:
  assumes "str_fits src" "str_bytes src \<noteq> NULL"
  shows "st_str_copy em d ((\<lambda>_. st_str_null)(2 := src)) m 1 2 =
    (if d = NULL then Some (ST_OUT_OF_MEMORY, (\<lambda>_. st_str_null)(2 := src), m)
     else Some (ST_OK, (\<lambda>_. st_str_null)(2 := src, 1 := src\<lparr>str_bytes := d, str_bytes_owned := True\<rparr>),
       write_bytes m d (read_bytes m (str_bytes src) (nat (str_capacity src)))))"
proof -
  have "0 < str_capacity src" using assms(1) by (simp add: str_fits_def)
  then show ?thesis
    by (cases src) (auto simp: st_str_copy_def st_str_init_def st_str_null_def st_str_wrap_lcb_def fun_eq_iff)
qed

lemma copy_bytes:
  fixes m :: bytes
  assumes "str_fits src" "d \<noteq> NULL" "str_bytes src \<noteq> NULL"
  defines "s \<equiv> src\<lparr>str_bytes := d, str_bytes_owned := True\<rparr>"
    and "bs \<equiv> write_bytes m d (read_bytes m (str_bytes src) (nat (str_capacity src)))"
  shows "value_view bs s = value_view m src" "str_fits s" "x \<notin> {d ..< d + nat (str_capacity src)} \<Longrightarrow> bs x = m x"
proof -
  have n: "nat (str_len src) \<le> nat (str_capacity src)" using assms(1) unfolding str_fits_def by linarith
  have "read_bytes bs d (nat (str_capacity src)) = read_bytes m (str_bytes src) (nat (str_capacity src))" unfolding bs_def by simp
  from read_bytes_le[OF this n] show "value_view bs s = value_view m src" by (simp add: value_view_def s_def)
  have "str_width s = str_width src" by (simp add: s_def str_width_def Let_def)
  then show "str_fits s" using assms(1) by (simp add: s_def str_fits_def)
  show "x \<notin> {d ..< d + nat (str_capacity src)} \<Longrightarrow> bs x = m x" unfolding bs_def by (rule write_bytes_other) simp
qed

lemma copy_out_ok:
  assumes "gc_idle w T Q" "caller_ok ce w" "p \<in> root_set w" "str_fits src" "str_bytes src \<noteq> NULL"
    "block_ok ce w (ce_malloc ce k) (str_capacity src)"
    "\<And>a. ref_of (value_view (w_bytes w) src) = Some a \<Longrightarrow> holdable w T a"
  shows "\<exists>ret r f w' T' Q'. st_capi_copy_out_tvalue ce p k src w = Some ((ret, r, f), w') \<and> gc_idle w' T' Q' \<and> dom T' = dom T \<and>
    call_rest (var_range (ce_key ce) \<union> var_range (ce_table ce) \<union> {ce_malloc ce k ..< ce_malloc ce k + nat (str_capacity src)}) w w' \<and>
    copied ce w T p (ce_malloc ce k) (value_view (w_bytes w) src) ret r f w' T' \<and> (if ret = ST_OK then True else Q' = Q)"
proof -
  let ?d = "ce_malloc ce k" and ?v = "value_view (w_bytes w) src" and ?B = "{ce_malloc ce k ..< ce_malloc ce k + nat (str_capacity src)}"
  let ?K = "var_range (ce_key ce) \<union> var_range (ce_table ce)"
  note sc = str_copy_ok[OF assms(4,5), of "ce_empty ce" ?d "w_bytes w"]
  show ?thesis
  proof (cases "?d = NULL")
    case True
    then have "st_capi_copy_out_tvalue ce p k src w = Some ((ST_OUT_OF_MEMORY, None, None), w)"
      using sc by (simp add: st_capi_copy_out_tvalue_def free_bytes_def st_str_null_def st_str_wrap_lcb_def)
    moreover have "call_rest (?K \<union> ?B) w w" by (simp add: call_rest_def)
    ultimately show ?thesis using assms(1) True
      by (intro exI[of _ ST_OUT_OF_MEMORY] exI[of _ None] exI[of _ w] exI[of _ T] exI[of _ Q]) (simp add: copied_def)
  next
    case False
    let ?s = "src\<lparr>str_bytes := ?d, str_bytes_owned := True\<rparr>"
    define bs where "bs = write_bytes (w_bytes w) ?d (read_bytes (w_bytes w) (str_bytes src) (nat (str_capacity src)))"
    let ?w1 = "w\<lparr>w_bytes := bs\<rparr>"
    note cb = copy_bytes(1)[OF assms(4) False assms(5), of "w_bytes w", folded bs_def] copy_bytes(2)[OF assms(4) False assms(5)]
      copy_bytes(3)[OF assms(4) False assms(5), where m = "w_bytes w", folded bs_def]
    have blk: "?B \<inter> (w_area w \<union> ?K) = {}" "int ?d + str_capacity src \<le> 2 ^ 64" using assms(6) by (auto simp: block_ok_def)
    have i1: "gc_idle ?w1 T Q" "contents ?w1 T = contents w T" by (rule bytes_idle[OF assms(1)]; use cb(3) blk(1) in blast)+
    have r1: "call_rest ?B w ?w1" using cb(3) by (simp add: call_rest_def root_set_def)
    have pre: "st_capi_copy_out_tvalue ce p k src w =
      (if st_types_is_table (str_type src) then do {
         (ret, w) \<leftarrow> st_capi_handle_table_ref_in_proot ce p ?s True ?w1;
         if ret \<noteq> ST_OK then Some ((ret, None, Some ?d), w) else Some ((ST_OK, Some ?s, None), w)
       } else Some ((ST_OK, Some ?s, None), ?w1))"
      using sc False by (simp add: st_capi_copy_out_tvalue_def free_bytes_def bs_def Let_def cong: if_cong)
    have ref: "ref_of ?v = (if st_types_is_table (str_type src) then Some (st_table_get_table_addr_from_value bs ?s) else None)"
      using ref_value[OF cb(2), of bs] cb(1) by simp
    show ?thesis
    proof (cases "st_types_is_table (str_type src)")
      case tab: False
      then have "st_capi_copy_out_tvalue ce p k src w = Some ((ST_OK, Some ?s, None), ?w1)" using pre by simp
      moreover have "copied ce w T p ?d ?v ST_OK (Some ?s) None ?w1 T"
        using False cb(1,2) ref tab i1(2) by (simp add: copied_def hold_def)
      moreover have "call_rest (?K \<union> ?B) w ?w1" by (rule call_rest_mono[OF r1]) blast
      ultimately show ?thesis using i1(1) by auto
    next
      case True
      let ?a = "st_table_get_table_addr_from_value bs ?s"
      have a: "ref_of ?v = Some ?a" using ref True by simp
      have cap: "8 \<le> nat (str_capacity src)" using assms(4) True by (auto simp: str_fits_def str_width_def st_types_is_table_def types_defs)
      then have "var_range ?d \<subseteq> ?B" by auto
      then have ap: "var_range ?d \<inter> var_range (ce_key ce) = {}" using blk(1) by blast
      have d64: "?d < 2 ^ 64" using blk(2) cap by simp
      have hl: "holdable ?w1 T ?a" using assms(7)[OF a] unfolding i1(2) by (simp add: root_set_def)
      have c1: "caller_ok ce ?w1" by (rule call_rest_caller[OF assms(2) r1])
      have p1: "p \<in> root_set ?w1" using assms(3) by (simp add: root_set_def)
      have sb: "str_bytes ?s = ?d" "w_bytes ?w1 = bs" by simp_all
      obtain ret w' T' Q' where h: "st_capi_handle_table_ref_in_proot ce p ?s True ?w1 = Some (ret, w')" "gc_idle w' T' Q'" "dom T' = dom T"
        "call_rest ?K ?w1 w'"
        "if ret = ST_OK then contents w' T' = (contents w T)(p := (contents w T p)(proot_key ?d \<mapsto> table_value ?a))
         else contents w' T' = contents w T \<and> Q' = Q \<and> refused ce ?w1 T p ?d ret"
        using add_ref_ok[OF i1(1) c1 p1, of ?s] False d64 ap hl unfolding sb i1(2) by blast
      have r: "call_rest (?K \<union> ?B) w w'" using call_rest_trans[OF r1 h(4)] by (simp add: Un_commute)
      have rf: "refused ce ?w1 T p ?d ret = refused ce w T p ?d ret" unfolding refused_def i1(2) by (simp add: no_room_def)
      have "same_str bs ?s (w_bytes w') ?s"
      proof (rule same_str_bytes)
        fix x assume "x \<in> str_range ?s"
        moreover have "nat (str_len src) \<le> nat (str_capacity src)" using assms(4) unfolding str_fits_def by linarith
        ultimately have "x \<in> ?B" by (auto simp: str_range_def)
        then have "x \<notin> w_area w \<union> ?K" using blk(1) by blast
        then show "w_bytes w' x = bs x" using call_rest_bytes[OF h(4), of x] by simp
      qed
      then have vv: "value_view (w_bytes w') ?s = ?v" using same_str_views(3)[OF _ cb(2), of bs] cb(1) by simp
      show ?thesis
      proof (cases "ret = ST_OK")
        case ok: True
        then have "st_capi_copy_out_tvalue ce p k src w = Some ((ST_OK, Some ?s, None), w')" using pre True h(1) by simp
        moreover have "copied ce w T p ?d ?v ST_OK (Some ?s) None w' T'" using ok False vv cb(2) a h(5) by (simp add: copied_def hold_def)
        ultimately show ?thesis using h(2,3) r ok by auto
      next
        case bad: False
        then have "st_capi_copy_out_tvalue ce p k src w = Some ((ret, None, Some ?d), w')" using pre True h(1) by simp
        moreover have "copied ce w T p ?d ?v ret None (Some ?d) w' T'" using bad False a h(5) rf by (simp add: copied_def)
        ultimately show ?thesis using h(2,3,5) r bad by auto
      qed
    qed
  qed
qed

end
