(* ===== verification/Capi_Calls.thy ===== *)
theory Capi_Calls
  imports Capi_Refs
begin

text \<open>
  The calls of the C interface: reading, creating and giving back values, and walks with a callback.
\<close>

section \<open>Reading\<close>

lemma elem_strings:
  assumes "world_ok w T Q" "elem_ok w y" "s \<in> {te_key (w_elems w y), te_value (w_elems w y)}"
  shows "str_fits s" "str_bytes s \<noteq> NULL"
proof -
  obtain n where n: "(y, n) \<in> live w" "str_fits s" "str_range s \<subseteq> {y ..< y + n}" using assms(2,3) by (auto simp: elem_ok_def elem_at_def)
  then show "str_fits s" by simp
  have "str_bytes s \<in> str_range s" using n(2) by (auto simp: str_range_def str_fits_def)
  then show "str_bytes s \<noteq> NULL" using n(3) live_nonnull[OF world_okD(1)[OF assms(1)] n(1)] by blast
qed

lemma get_string:
  assumes "world_ok w T Q" "t \<in> dom T" "env_ok env w" "str_key (w_bytes w) key" "arg_str key"
  shows "case contents w T t (str_view (w_bytes w) key) of
      None \<Rightarrow> st_table_get_value env w t key = Some (ST_NOT_FOUND, None)
    | Some v \<Rightarrow> \<exists>s. st_table_get_value env w t key = Some (ST_OK, Some s) \<and> value_view (w_bytes w) s = v \<and> str_fits s \<and> str_bytes s \<noteq> NULL"
proof -
  note a = table_args[OF assms(1,2)]
  obtain tr where tr: "T t = Some tr" using assms(2) by blast
  from get_element_ok[OF assms(1) tr assms(3,4)] show ?thesis
  proof (elim disjE conjE bexE)
    fix y assume y: "y \<in> set (inorder tr)" "kview w y = str_view (w_bytes w) key" "st_table_get_element env w t key = Some (ST_OK, y)"
    have "contents w T t (str_view (w_bytes w) key) = Some (vview w y)"
      using entries_lookup(1)[OF table_okD(5)[OF assms(1) tr] y(1)] unfolding contents_at[of T t tr, OF tr] y(2) .
    moreover note elem_strings[OF assms(1) table_okD(8)[OF assms(1) tr y(1)], of "te_value (w_elems w y)"]
    ultimately show ?thesis using y(3) a assms(5) by (simp add: st_table_get_value_def arg_str_def vview_def)
  next
    assume "contents w T t (str_view (w_bytes w) key) = None" "st_table_get_element env w t key = Some (ST_NOT_FOUND, NULL)"
    then show ?thesis using a assms(5) by (simp add: st_table_get_value_def arg_str_def)
  qed
qed

lemma get_blind: "st_table_get_value env (lock_as t l w) u key = st_table_get_value env w u key"
  by (simp add: st_table_get_value_def st_table_get_element_def cong: if_cong)

lemma blind_get:
  assumes "p \<noteq> t"
  shows "lock_blind t (\<lambda>w. Option.bind (st_table_get_value env w u key) (\<lambda>(ret, value).
    if ret \<noteq> ST_OK then Some ((ret, None, None), w) else Option.bind value (\<lambda>value. st_capi_copy_out_tvalue ce p 0 value w)))"
  unfolding split_def by (intro blind_bind_world blind_if blind_return blind_some blind_copy_out[OF assms]) (rule get_blind)

lemma do_get_ok:
  assumes "gc_idle w T Q" "caller_ok ce w" "p \<in> root_set w" "t \<in> reach (contents w T) (root_set w)" "t \<noteq> p"
    "str_key (w_bytes w) key" "arg_str key"
    "\<And>s. st_table_get_value (ce_env ce) w t key = Some (ST_OK, Some s) \<Longrightarrow> block_ok ce w (ce_malloc ce 0) (str_capacity s)"
  shows "\<exists>ret r f w' T' Q'. st_capi_do_get ce p t key w = Some ((ret, r, f), w') \<and> gc_idle w' T' Q' \<and> dom T' = dom T \<and> root_set w' = root_set w \<and>
    (case contents w T t (str_view (w_bytes w) key) of
       None \<Rightarrow> ret = ST_NOT_FOUND \<and> r = None \<and> f = None \<and> contents w' T' = contents w T
     | Some v \<Rightarrow> copied ce w T p (ce_malloc ce 0) v ret r f w' T')"
proof -
  note i = gc_idleD[OF assms(1)] and rd = reached[OF assms(1,4)] and c = caller_okD[OF assms(2)]
  let ?k = "str_view (w_bytes w) key" and ?d = "ce_malloc ce 0"
  let ?body = "\<lambda>w. Option.bind (st_table_get_value (ce_env ce) w t key) (\<lambda>(ret, value).
    if ret \<noteq> ST_OK then Some ((ret, None, None), w) else Option.bind value (\<lambda>value. st_capi_copy_out_tvalue ce p 0 value w))"
  have a: "t \<noteq> NULL" using table_args[OF i(3) rd(1)] by simp
  have lf: "lock_free (tb_lock (w_tables w t))" using world_okD(2)[OF i(3)] rd(1) by (auto simp: table_ok_def)
  note g = get_string[OF i(3) rd(1) c(1) assms(6,7)]
  have "\<exists>ret r f w1 T' Q'. ?body w = Some ((ret, r, f), w1) \<and> gc_idle w1 T' Q' \<and> dom T' = dom T \<and> root_set w1 = root_set w \<and>
    (case contents w T t ?k of None \<Rightarrow> ret = ST_NOT_FOUND \<and> r = None \<and> f = None \<and> contents w1 T' = contents w T
     | Some v \<Rightarrow> copied ce w T p ?d v ret r f w1 T')"
  proof (cases "contents w T t ?k")
    case None
    then show ?thesis using g assms(1) by (intro exI[of _ ST_NOT_FOUND] exI[of _ None] exI[of _ w] exI[of _ T] exI[of _ Q]) simp
  next
    case (Some v)
    then obtain s where s: "st_table_get_value (ce_env ce) w t key = Some (ST_OK, Some s)" "value_view (w_bytes w) s = v" "str_fits s" "str_bytes s \<noteq> NULL"
      using g by auto
    have "holdable w T b" if "ref_of (value_view (w_bytes w) s) = Some b" for b
    proof -
      have "child (contents w T) t b" using Some s(2) that unfolding child_def by blast
      then show ?thesis using reach.follow[OF assms(4)] by (simp add: storable_def)
    qed
    from copy_out_ok[OF assms(1-3) s(3,4) assms(8)[OF s(1)] this] obtain ret r f w1 T' Q' where
      "st_capi_copy_out_tvalue ce p 0 s w = Some ((ret, r, f), w1)" "gc_idle w1 T' Q'" "dom T' = dom T" "root_set w1 = root_set w"
      "copied ce w T p ?d v ret r f w1 T'" unfolding s(2) by (auto simp: call_rest_def)
    then show ?thesis using s(1) Some by (intro exI[of _ ret] exI[of _ r] exI[of _ f] exI[of _ w1] exI[of _ T'] exI[of _ Q']) simp
  qed
  then obtain ret r f w1 T' Q' where b: "?body w = Some ((ret, r, f), w1)" "gc_idle w1 T' Q'" "dom T' = dom T" "root_set w1 = root_set w"
    "case contents w T t ?k of None \<Rightarrow> ret = ST_NOT_FOUND \<and> r = None \<and> f = None \<and> contents w1 T' = contents w T
     | Some v \<Rightarrow> copied ce w T p ?d v ret r f w1 T'" by blast
  let ?w' = "lock_as t mutex_new w1"
  have u: "gc_idle ?w' T' Q'" "contents ?w' T' = contents w1 T'" using unlocked_idle[OF b(2)] b(3) rd(1) by auto
  have "with_table_lock (ce_env ce) t w ?body = Some ((ret, r, f), ?w')"
    by (rule under_lock[OF blind_get c(2) lf b(1)]) (use assms(5) in metis)
  then have "st_capi_do_get ce p t key w = Some ((ret, r, f), ?w')"
    using a assms(6,7) by (simp add: st_capi_do_get_def str_key_def arg_str_def)
  moreover have "root_set ?w' = root_set w" using b(4) by (simp add: root_set_def)
  moreover have "case contents w T t ?k of None \<Rightarrow> ret = ST_NOT_FOUND \<and> r = None \<and> f = None \<and> contents ?w' T' = contents w T
     | Some v \<Rightarrow> copied ce w T p ?d v ret r f ?w' T'"
    using b(5) u(2) by (auto simp: copied_def split: option.splits)
  ultimately show ?thesis using u(1) b(3) by blast
qed

section \<open>Giving back\<close>

lemma free_ok:
  assumes "gc_idle w T Q" "caller_ok ce w" "p \<in> root_set w" "str_bytes v \<noteq> NULL" "str_bytes v < 2 ^ 64"
  shows "\<exists>ret v' f w' T' Q'. st_capi_free ce p v w = Some ((ret, v', f), w') \<and> gc_idle w' T' Q' \<and> dom T' = dom T \<and> root_set w' = root_set w \<and>
    (if st_types_is_table (str_type v) \<and> contents w T p (proot_key (str_bytes v)) = None
     then ret = ST_NOT_FOUND \<and> v' = v \<and> f = None \<and> contents w' T' = contents w T
     else ret = ST_OK \<and> v' = st_str_null \<and> f = Some (str_bytes v) \<and>
       contents w' T' = (if st_types_is_table (str_type v) then (contents w T)(p := (contents w T p)(proot_key (str_bytes v) := None)) else contents w T))"
proof (cases "st_types_is_table (str_type v)")
  case False
  then have "st_capi_free ce p v w = Some ((ST_OK, st_str_null, Some (str_bytes v)), w)" using assms(4) by (simp add: st_capi_free_def)
  then show ?thesis using False assms(1)
    by (intro exI[of _ ST_OK] exI[of _ st_str_null] exI[of _ "Some (str_bytes v)"] exI[of _ w] exI[of _ T] exI[of _ Q]) simp
next
  case tab: True
  obtain ret w' T' Q' where h: "st_capi_handle_table_ref_in_proot ce p v False w = Some (ret, w')" "gc_idle w' T' Q'" "dom T' = dom T"
    "call_rest (var_range (ce_key ce)) w w'"
    "if contents w T p (proot_key (str_bytes v)) = None then ret = ST_NOT_FOUND \<and> contents w' T' = contents w T
     else ret = ST_OK \<and> contents w' T' = (contents w T)(p := (contents w T p)(proot_key (str_bytes v) := None))"
    using remove_ref_ok[OF assms] by blast
  have r: "root_set w' = root_set w" using h(4) by (simp add: call_rest_def)
  have e: "st_capi_free ce p v w = Some ((if ret \<noteq> ST_OK then (ret, v, None) else (ST_OK, st_str_null, Some (str_bytes v))), w')"
    using tab assms(4) h(1) by (simp add: st_capi_free_def)
  show ?thesis
  proof (cases "contents w T p (proot_key (str_bytes v)) = None")
    case True
    then show ?thesis using e h tab r
      by (intro exI[of _ ST_NOT_FOUND] exI[of _ v] exI[of _ None] exI[of _ w'] exI[of _ T'] exI[of _ Q']) simp
  next
    case False
    then have "ret = ST_OK" "contents w' T' = (contents w T)(p := (contents w T p)(proot_key (str_bytes v) := None))"
      using h(5) unfolding if_not_P[OF False] by blast+
    then show ?thesis using e h(2,3) tab r False
      by (intro exI[of _ ST_OK] exI[of _ st_str_null] exI[of _ "Some (str_bytes v)"] exI[of _ w'] exI[of _ T'] exI[of _ Q']) simp
  qed
qed


section \<open>Creating\<close>

lemma graph_discard:
  assumes "gc_graph C D R m rd b Q" "t \<notin> reach C (R \<union> queued Q)" "m t \<le> rd"
  shows "gc_graph C (D - {t}) R m rd b Q"
proof -
  have bl: "black (D - {t}) m rd = black D m rd" "condemned (D - {t}) m rd = condemned D m rd" using assms(3) by (auto simp: black_def condemned_def)
  then show ?thesis using assms(1,2) unfolding gc_graph_def bl by (cases b) auto
qed

lemma wrap_table_var:
  assumes "a \<noteq> NULL"
  shows "str_fits (st_str_wrap_common a ST_TYPES_TABLE 8)" "str_bytes (st_str_wrap_common a ST_TYPES_TABLE 8) \<noteq> NULL"
    "str_capacity (st_str_wrap_common a ST_TYPES_TABLE 8) = 8"
  using assms by (simp_all add: str_fits_def str_width_def st_str_wrap_common_def types_defs)

text \<open>A copy of a variable that holds the address of a table.\<close>

lemma copy_table_ok:
  assumes "gc_idle w T Q" "caller_ok ce w" "p \<in> root_set w" "holdable w T a" "a < 2 ^ 64" "block_ok ce w (ce_malloc ce 0) 8"
  defines "w0 \<equiv> put_var (ce_table ce) a w"
  shows "\<exists>ret r f w' T' Q'. Option.bind (st_capi_init_tvalue (w_bytes w0) (ce_table ce) ST_TYPES_TABLE 0) (\<lambda>tv. st_capi_copy_out_tvalue ce p 0 tv w0) =
      Some ((ret, r, f), w') \<and> gc_idle w' T' Q' \<and> dom T' = dom T \<and> call_rest (- w_area w) w w' \<and>
    copied ce w T p (ce_malloc ce 0) (table_value a) ret r f w' T' \<and> (if ret = ST_OK then True else Q' = Q)"
proof -
  note c = caller_okD[OF assms(2)] and vi = var_idle[OF assms(1), of "ce_table ce" a, folded w0_def]
  note v = vi[OF c(6)]
  note t = var_table[OF c(4) v(4)] and wr = wrap_table_var[OF c(4)]
  let ?tv = "st_str_wrap_common (ce_table ce) ST_TYPES_TABLE 8"
  have r: "ref_of (value_view (w_bytes w0) ?tv) = Some a" unfolding t(2) by (rule table_value_ref[OF assms(5)])
  have b: "block_ok ce w0 (ce_malloc ce 0) (str_capacity ?tv)" using assms(6) wr(3) v(3) by (simp add: block_ok_def call_rest_def)
  have h: "holdable w0 T x" if "ref_of (value_view (w_bytes w0) ?tv) = Some x" for x
    using assms(4) that r unfolding v(2) by (simp add: w0_def root_set_def)
  have p0: "p \<in> root_set w0" using assms(3) v(3) by (simp add: call_rest_def)
  from copy_out_ok[OF v(1) call_rest_caller[OF assms(2) v(3)] p0 wr(1,2) b h] obtain ret r f w' T' Q' where
    o: "st_capi_copy_out_tvalue ce p 0 ?tv w0 = Some ((ret, r, f), w')" "gc_idle w' T' Q'" "dom T' = dom T"
    "call_rest (var_range (ce_key ce) \<union> var_range (ce_table ce) \<union> {ce_malloc ce 0 ..< ce_malloc ce 0 + nat (str_capacity ?tv)}) w0 w'"
    "copied ce w0 T p (ce_malloc ce 0) (value_view (w_bytes w0) ?tv) ret r f w' T'" "if ret = ST_OK then True else Q' = Q" by blast
  have "call_rest (- w_area w) w w'" using call_rest_trans[OF v(3) o(4)] by (simp add: call_rest_def)
  moreover have rf: "refused ce w0 T p = refused ce w T p" unfolding refused_def[abs_def] v(2) by (simp add: w0_def no_room_def)
  have "copied ce w T p (ce_malloc ce 0) (table_value a) ret r f w' T'" using o(5) unfolding copied_def v(2) t(2) rf .
  moreover have "Option.bind (st_capi_init_tvalue (w_bytes w0) (ce_table ce) ST_TYPES_TABLE 0) (\<lambda>tv. st_capi_copy_out_tvalue ce p 0 tv w0) = Some ((ret, r, f), w')"
    using o(1) t(1) by simp
  ultimately show ?thesis using o(2,3,6) by blast
qed

lemma no_nodes: "set (inorder tr) = {} \<Longrightarrow> tr = E"
  by (cases tr) simp_all

lemma discard_ok:
  assumes "gc_idle w T Q" "t \<in> dom T" "contents w T t = Map.empty" "t \<notin> reach (contents w T) (root_set w \<union> queued Q)" "marks w t \<le> round w" "env_ok env w"
  shows "\<exists>w'. st_table_free env w t = Some (ST_OK, w') \<and> gc_idle w' (T(t := None)) Q \<and> contents w' (T(t := None)) = contents w T \<and> root_set w' = root_set w"
proof -
  note i = gc_idleD[OF assms(1)]
  obtain tr where tr: "T t = Some tr" using assms(2) by blast
  have "set (inorder tr) = {}"
  proof (rule equals0I)
    fix x assume "x \<in> set (inorder tr)"
    then show False using contents_dom[OF i(3) tr, of "kview w x"] imageI[of x "set (inorder tr)" "kview w"] unfolding assms(3) by blast
  qed
  then have E: "T t = Some E" using tr no_nodes by simp
  have q: "t \<notin> queued Q" using assms(4) reach_ge[of "root_set w \<union> queued Q" "contents w T"] by (meson UnI2 subsetD)
  have "t \<notin> set (Q 3)" using i(5) assms(5) by (cases "gc_begin (w_gc w)") (auto simp: gc_graph_def condemned_def)
  then have nq: "t \<notin> set (Q k)" if "k < 5" for k using q that by (cases "k = 3") (auto simp: numeral_eq_Suc less_Suc_eq)
  obtain w' where f: "st_table_free env w t = Some (ST_OK, w')" "world_ok w' (T(t := None)) Q" "contents w' (T(t := None)) = contents w T"
    "gc_rest w w'" "w_gc w' = w_gc w" "marks w' = marks w" using table_free_ok[OF i(3) E nq assms(6)] by blast
  have d: "dom (T(t := None)) = dom T - {t}" by auto
  have "gc_graph (contents w' (T(t := None))) (dom (T(t := None))) (root_set w) (marks w') (round w') (gc_begin (w_gc w')) Q"
    unfolding f(3,6) d f(5) by (rule graph_discard[OF i(5) assms(4,5)])
  then have "gc_idle w' (T(t := None)) Q" using f(2,5) i(1,2,4) by (simp add: gc_idle_def gc_ok_def idle_def root_set_def)
  then show ?thesis using f(1,3,5) by (auto simp: root_set_def)
qed

text \<open>Shared memory lies below \<open>2 ^ 64\<close>.\<close>

lemma table_bound:
  assumes "world_ok w T Q" "t \<in> dom T"
  shows "t < 2 ^ 64"
proof -
  have inv: "slab_inv (w_slab w) (w_mem w)" by (rule world_okD(1)[OF assms(1)])
  obtain tr where tr: "T t = Some tr" using assms(2) by blast
  have "(t, 256) \<in> live w" using world_okD(2)[OF assms(1) tr] by (simp add: table_ok_def)
  then have a: "t \<in> w_area w" using live_not_meta(2)[OF inv, of t 256 t] by simp
  obtain Q where Q: "slab_desc (w_slab w) (w_mem w) Q {}" using inv by (auto simp: slab_inv_def)
  let ?rcb = "pp_region_cb (sl_page_pool (w_slab w))"
  have "region_ok ?rcb" using pool_parts(2)[OF pool_good_base[OF slab_descD(1)[OF Q]]] .
  then have ok: "0 < rg_reg_cnt ?rcb" "0 < rg_reg_size ?rcb" "int (rg_base_addr ?rcb) + rg_reg_cnt ?rcb * rg_reg_size ?rcb < 2 ^ 64"
    unfolding region_ok_def by blast+
  have "t < rg_base_addr ?rcb + nat (rg_reg_cnt ?rcb) * nat (rg_reg_size ?rcb)" using a by (simp add: region_area_def)
  then have "int t < int (rg_base_addr ?rcb) + int (nat (rg_reg_cnt ?rcb)) * int (nat (rg_reg_size ?rcb))" 
    unfolding of_nat_mult[symmetric] of_nat_add[symmetric] of_nat_less_iff .
  then show ?thesis using ok by simp
qed

lemma groot_ok:
  assumes "gc_idle w T Q" "caller_ok ce w" "p \<in> root_set w" "groot \<in> root_set w" "block_ok ce w (ce_malloc ce 0) 8"
  shows "\<exists>ret r f w' T' Q'. st_capi_get_groot ce p groot w = Some ((ret, r, f), w') \<and> gc_idle w' T' Q' \<and> dom T' = dom T \<and> call_rest (- w_area w) w w' \<and>
    copied ce w T p (ce_malloc ce 0) (table_value groot) ret r f w' T'"
proof -
  note i = gc_idleD[OF assms(1)]
  have h: "holdable w T groot" using root_reach[OF assms(4)] by (simp add: storable_def)
  have b: "groot < 2 ^ 64" by (rule table_bound[OF i(3) storable_reach(3)[OF i(5) h]])
  from copy_table_ok[OF assms(1-3) h b assms(5)] show ?thesis unfolding st_capi_get_groot_def Let_def by blast
qed

lemma new_ok:
  assumes "gc_idle w T Q" "caller_ok ce w" "p \<in> root_set w" "block_ok ce w (ce_malloc ce 0) 8"
  shows "\<exists>ret r f w' T' Q'. st_capi_new ce p w = Some ((ret, r, f), w') \<and> gc_idle w' T' Q' \<and> root_set w' = root_set w \<and>
    (if ret = ST_OK then \<exists>t s. t \<notin> dom T \<and> dom T' = insert t (dom T) \<and> r = Some s \<and> str_bytes s = ce_malloc ce 0 \<and>
         value_view (w_bytes w') s = table_value t \<and> f = None \<and> contents w' T' = hold ((contents w T)(t := Map.empty)) p (ce_malloc ce 0) (table_value t)
     else r = None \<and> dom T' = dom T \<and> contents w' T' = contents w T)"
proof -
  note i = gc_idleD[OF assms(1)] and c = caller_okD[OF assms(2)]
  let ?d = "ce_malloc ce 0"
  obtain ret r w1 T1 where n: "st_table_new (ce_env ce) w = Some (ret, r, w1)" "gc_idle w1 T1 Q" "root_set w1 = root_set w"
    "new_table_post w T ret r w1 T1" "\<And>t. r = Some t \<Longrightarrow> holdable w1 T1 t" using new_gc_ok[OF assms(1) c(1)] by blast
  note i1 = gc_idleD[OF n(2)]
  show ?thesis
  proof (cases "ret = ST_OK")
    case False
    then have "r = None" "T1 = T" "contents w1 T1 = contents w T" using n(4) unfolding new_table_post_def if_not_P[OF False] by blast+
    then show ?thesis using False n(1-3)
      by (intro exI[of _ ret] exI[of _ None] exI[of _ w1] exI[of _ T1] exI[of _ Q]) (simp add: st_capi_new_def)
  next
    case True
    then obtain t where t: "r = Some t" "t \<notin> dom T" "T1 = T(t \<mapsto> E)" "contents w1 T1 = (contents w T)(t := Map.empty)" "marks w1 t = round w"
      using n(4) by (auto simp: new_table_post_def)
    have same: "w_area w1 = w_area w" "w_run_gc_periodical w1 = w_run_gc_periodical w" "w_gc w1 = w_gc w" using n(4) by (simp_all add: new_table_post_def)
    have c1: "caller_ok ce w1" using assms(2) same env_ok_area[OF c(1), of w1] by (simp add: caller_ok_def)
    have b1: "block_ok ce w1 ?d 8" using assms(4) same(1) by (simp add: block_ok_def)
    have p1: "p \<in> root_set w1" using assms(3) n(3) by simp
    have d1: "dom T1 = insert t (dom T)" using t(3) by auto
    let ?w2 = "put_var (ce_table ce) t w1"
    from copy_table_ok[OF n(2) c1 p1 n(5)[OF t(1)] table_bound[OF i1(3)] b1] d1 obtain ret' r' f w' T' Q' where
      o: "Option.bind (st_capi_init_tvalue (w_bytes ?w2) (ce_table ce) ST_TYPES_TABLE 0) (\<lambda>tv. st_capi_copy_out_tvalue ce p 0 tv ?w2) = Some ((ret', r', f), w')"
      "gc_idle w' T' Q'" "dom T' = dom T1" "call_rest (- w_area w1) w1 w'" "copied ce w1 T1 p ?d (table_value t) ret' r' f w' T'"
      "if ret' = ST_OK then True else Q' = Q" by blast
    obtain tv where tv: "st_capi_init_tvalue (w_bytes ?w2) (ce_table ce) ST_TYPES_TABLE 0 = Some tv" "st_capi_copy_out_tvalue ce p 0 tv ?w2 = Some ((ret', r', f), w')"
      using o(1) by (cases "st_capi_init_tvalue (w_bytes ?w2) (ce_table ce) ST_TYPES_TABLE 0") simp_all
    have R: "root_set w' = root_set w" using o(4) n(3) by (simp add: call_rest_def)
    have st: "st_capi_new ce p w = (if ret' \<noteq> ST_OK then Option.bind (st_table_free (ce_env ce) w' t) (\<lambda>(ret1, w). Option.bind (st_assert (ret1 = ST_OK)) (\<lambda>_. Some ((ret', r', f), w)))
        else Some ((ret', r', f), w'))"
      using True n(1) t(1) tv by (simp add: st_capi_new_def Let_def split_def)
    show ?thesis
    proof (cases "ret' = ST_OK")
      case True
      then obtain s where "r' = Some s" "str_bytes s = ?d" "value_view (w_bytes w') s = table_value t" "f = None" "contents w' T' = hold (contents w1 T1) p ?d (table_value t)"
        using o(5) by (auto simp: copied_def)
      then show ?thesis using True st o(2,3) d1 t(2,4) R
        by (intro exI[of _ ST_OK] exI[of _ r'] exI[of _ None] exI[of _ w'] exI[of _ T'] exI[of _ Q']) auto
    next
      case False
      then have f: "r' = None" "contents w' T' = contents w1 T1" "Q' = Q" using o(5,6) unfolding copied_def if_not_P[OF False] by blast+
      have tT: "t \<in> dom T'" using o(3) d1 by simp
      have e: "contents w' T' t = Map.empty" unfolding f(2) t(4) by simp
      have m: "marks w' t \<le> round w'" using o(4) t(5) same(3) by (simp add: call_rest_def)
      have ch: "child (contents w T) a b" if "child ((contents w T)(t := Map.empty)) a b" for a b
        using that unfolding child_def fun_upd_apply by (cases "a = t") simp_all
      have sub: "reach (contents w T) (root_set w \<union> queued Q) \<subseteq> dom T" using i(5) by (simp add: gc_graph_def)
      have "reach (contents w' T') (root_set w' \<union> queued Q) \<subseteq> reach (contents w T) (root_set w \<union> queued Q)"
        unfolding f(2) t(4) R by (rule reach_subset[OF reach_ge]) (use ch in \<open>blast intro: reach.follow\<close>)
      then have nr: "t \<notin> reach (contents w' T') (root_set w' \<union> queued Q)" using sub t(2) by blast
      have env: "env_ok (ce_env ce) w'" using caller_okD(1)[OF call_rest_caller[OF c1 o(4)]] .
      obtain w'' where g: "st_table_free (ce_env ce) w' t = Some (ST_OK, w'')" "gc_idle w'' (T'(t := None)) Q" "contents w'' (T'(t := None)) = contents w' T'" "root_set w'' = root_set w'"
        using discard_ok[OF o(2)[unfolded f(3)] tT e nr m env] by blast
      have "contents w T t = Map.empty" using t(2) unfolding domIff not_not by (simp add: contents_def)
      then have "contents w'' (T'(t := None)) = contents w T" using g(3) f(2) t(4) by auto
      moreover have "dom (T'(t := None)) = dom T" using o(3) d1 t(2) by auto
      moreover have "st_capi_new ce p w = Some ((ret', r', f), w'')" using st False g(1) by simp
      ultimately show ?thesis using False f(1) g(2,4) R
        by (intro exI[of _ ret'] exI[of _ None] exI[of _ f] exI[of _ w''] exI[of _ "T'(t := None)"] exI[of _ Q]) simp
    qed
  qed
qed

end
