(* ===== verification/Capi_Each.thy ===== *)
theory Capi_Each
  imports Capi_Calls
begin

text \<open>
  Walks with a callback: \<^verbatim>\<open>st_capi_foreach\<close> against a fold over the entries.
\<close>

section \<open>The walk as a fold\<close>

text \<open>A callback that leaves the tables alone, and the fold that it is given to: the first answer other than
  \<^verbatim>\<open>ST_OK\<close> stops the walk.\<close>

definition reader :: "(st_str \<Rightarrow> st_str \<Rightarrow> 'a \<Rightarrow> st_error \<times> 'a) \<Rightarrow> 'a foreach_cb" where
  "reader f k v args w = (case f k v args of (ret, args) \<Rightarrow> Some (ret, args, w))"

fun each :: "(st_str \<Rightarrow> st_str \<Rightarrow> 'a \<Rightarrow> st_error \<times> 'a) \<Rightarrow> (st_str \<times> st_str) list \<Rightarrow> 'a \<Rightarrow> st_error \<times> 'a" where
  "each f [] args = (ST_OK, args)"
| "each f ((k, v) # kvs) args = (case f k v args of (ret, args) \<Rightarrow>
     if ret = ST_OK then each f kvs args else (if ret = ST_ITER_FINISH then ST_OK else ret, args))"

abbreviation elem_kv :: "world \<Rightarrow> addr \<Rightarrow> st_str \<times> st_str" where
  "elem_kv w e \<equiv> (te_key (w_elems w e), te_value (w_elems w e))"

lemma iter_blind [simp]:
  "st_table_iter_next (lock_as t l w) u it = st_table_iter_next w u it"
  "st_table_iter_init env (lock_as t l w) u it key side = st_table_iter_init env w u it key side"
  by (simp_all add: st_table_iter_next_def st_table_iter_init_def cong: if_cong option.case_cong)

lemma foreach_loop_ok:
  assumes "world_ok w T Q" "T t = Some tr" "i \<le> length (inorder tr)"
  shows "\<exists>ret args'. foreach_loop (reader f) t (iter_at w t tr i) args (lock_as t l w) = Some (ret, args', lock_as t l w) \<and>
    (if ret = ST_ITER_FINISH then ST_OK else ret, args') = each f (map (elem_kv w) (drop i (inorder tr))) args"
  using assms(3)
proof (induction "length (inorder tr) - i" arbitrary: i args)
  case 0
  then show ?case using iter_step[OF assms(1,2), of i] by (subst foreach_loop.simps) simp
next
  case (Suc n)
  then have i: "i < length (inorder tr)" by simp
  let ?e = "elem_kv w (inorder tr ! i)"
  obtain ret args1 where f: "f (fst ?e) (snd ?e) args = (ret, args1)" by fastforce
  have d: "drop i (inorder tr) = inorder tr ! i # drop (Suc i) (inorder tr)" using i by (simp add: Cons_nth_drop_Suc)
  have s: "foreach_loop (reader f) t (iter_at w t tr i) args (lock_as t l w) =
    (if ret \<noteq> ST_OK then Some (ret, args1, lock_as t l w) else foreach_loop (reader f) t (iter_at w t tr (Suc i)) args1 (lock_as t l w))"
    using iter_step[OF assms(1,2), of i] i f by (subst foreach_loop.simps) (simp add: Let_def reader_def)
  have IH: "\<exists>ret args'. foreach_loop (reader f) t (iter_at w t tr (Suc i)) args1 (lock_as t l w) = Some (ret, args', lock_as t l w) \<and>
    (if ret = ST_ITER_FINISH then ST_OK else ret, args') = each f (map (elem_kv w) (drop (Suc i) (inorder tr))) args1"
    by (rule Suc.hyps(1)) (use Suc.hyps(2) i in simp_all)
  show ?case
  proof (cases "ret = ST_OK")
    case True
    then show ?thesis using IH s d f by simp
  next
    case False
    then show ?thesis using s d f by simp
  qed
qed

lemma foreach_ok:
  assumes "gc_idle w T Q" "t \<in> dom T"
  shows "\<exists>kvs w'. st_capi_foreach env t None side (reader f) args w = Some (each f kvs args, w') \<and>
    gc_idle w' T Q \<and> contents w' T = contents w T \<and> w_bytes w' = w_bytes w \<and> sorted_wrt (<) (map (\<lambda>(k, v). str_view (w_bytes w) k) kvs) \<and>
    map_of (map (\<lambda>(k, v). (str_view (w_bytes w) k, value_view (w_bytes w) v)) kvs) = contents w T t"
proof -
  note i = gc_idleD[OF assms(1)]
  obtain tr where tr: "T t = Some tr" using assms(2) by blast
  let ?kvs = "map (elem_kv w) (inorder tr)"
  have lf: "lock_free (tb_lock (w_tables w t))" using world_okD(2)[OF i(3) tr] by (simp add: table_ok_def)
  obtain ret args' where l: "foreach_loop (reader f) t (iter_at w t tr 0) args (lock_as t (held env) w) = Some (ret, args', lock_as t (held env) w)"
    "(if ret = ST_ITER_FINISH then ST_OK else ret, args') = each f ?kvs args" using foreach_loop_ok[OF i(3) tr, of 0 f args "held env"] by auto
  have "st_capi_foreach_nolock env t None side (reader f) args (lock_as t (held env) w) = Some (each f ?kvs args, lock_as t (held env) w)"
    using iter_start[OF i(3) tr] l(1) unfolding l(2)[symmetric] by (simp add: st_capi_foreach_nolock_def)
  from with_table_lock_eq[OF lf, of "st_capi_foreach_nolock env t None side (reader f) args" env, folded lock_as_def, OF this]
  have "st_capi_foreach env t None side (reader f) args w = Some (each f ?kvs args, lock_as t mutex_new w)"
    by (simp add: st_capi_foreach_def lock_as_def)
  moreover have "sorted_wrt (<) (map (\<lambda>(k, v). str_view (w_bytes w) k) ?kvs)"
    using table_okD(5)[OF i(3) tr] by (simp add: kview_def[abs_def] comp_def)
  moreover have "map_of (map (\<lambda>(k, v). (str_view (w_bytes w) k, value_view (w_bytes w) v)) ?kvs) = contents w T t"
    using tr by (simp add: contents_def entries_def kview_def vview_def comp_def)
  ultimately show ?thesis using unlocked_idle[OF assms]
    by (intro exI[of _ ?kvs] exI[of _ "lock_as t mutex_new w"]) simp
qed

end
