(* ===== verification/Capi_Start.thy ===== *)
theory Capi_Start
  imports Capi
begin

text \<open>
  \<^verbatim>\<open>src/capi/capi.c\<close>: the roots of the collector that belong to processes, the start of the library and of a
  process, and the end of the library.
\<close>

section \<open>Sizes\<close>

text \<open>With \<^verbatim>\<open>MEM_SMALL\<close> and without it.  The constants are \<^verbatim>\<open>unsigned int\<close>, and so is their product.\<close>

definition ST_REGION_CNT :: "bool \<Rightarrow> u32" where "ST_REGION_CNT small = (if small then 10 else 64)"

definition ST_REGION_SIZE :: "bool \<Rightarrow> u32" where
  "ST_REGION_SIZE small = (if small then 1024 * 1024 * 10 else 1024 * 1024 * 1024)"

definition meta_size :: "int \<Rightarrow> int \<Rightarrow> int" where
  "meta_size sizeof_capi page_size = st_align sizeof_capi page_size"

definition data_size :: "bool \<Rightarrow> int \<Rightarrow> int" where
  "data_size small page_size = st_align (uint (ST_REGION_CNT small * ST_REGION_SIZE small)) page_size"

section \<open>Roots\<close>

definition st_capi_remove_gc_root :: "gc_params \<Rightarrow> env \<Rightarrow> world \<Rightarrow> addr \<Rightarrow> (st_error \<times> world) option" where
  "st_capi_remove_gc_root gp env w table = do {
     st_assert (table \<noteq> NULL);
     (ret, w) \<leftarrow> st_table_remove_all gp env w table;
     if ret \<noteq> ST_OK then Some (ret, w) else st_gc_remove_root env w table True
   }"

definition upd_process :: "addr \<Rightarrow> (st_capi_process \<Rightarrow> st_capi_process) \<Rightarrow> st_capi \<Rightarrow> st_capi" where
  "upd_process p f lib = lib\<lparr>cp_procs := (cp_procs lib)(p := f (cp_procs lib p))\<rparr>"

text \<open>Whether the process state is cleaned: the caller's own if it wants that, another one if its process
  does not hold the lock \<^verbatim>\<open>alive\<close> any more.\<close>

definition proot_dead :: "pid \<Rightarrow> addr \<Rightarrow> bool \<Rightarrow> addr \<Rightarrow> st_capi \<Rightarrow> (bool \<times> st_capi) option" where
  "proot_dead pid process_state clean_self pstate lib =
    (if pstate = process_state then Some (clean_self, lib)
     else do {
       (ret, lock) \<leftarrow> st_robustlock_trylock pid (ps_alive (cp_procs lib pstate));
       Some (ret = ST_OK, upd_process pstate (ps_alive_update (\<lambda>_. lock)) lib)
     })"

text \<open>The results of \<^verbatim>\<open>st_robustlock_destroy\<close> are ignored, here and at the end of the library.\<close>

definition clean_proot :: "gc_params \<Rightarrow> env \<Rightarrow> addr \<Rightarrow> st_capi \<Rightarrow> st_capi option" where
  "clean_proot gp env pstate lib = do {
     lock \<leftarrow> st_robustlock_unlock (env_pid env) (ps_alive (cp_procs lib pstate));
     let lib = upd_process pstate (ps_alive_update (\<lambda>_. lock)) lib;
     let w = cp_pool lib;
     ln \<leftarrow> st_list_remove (w_list w) (process_node pstate);
     (ret, w) \<leftarrow> st_capi_remove_gc_root gp env (set_list ln w) (ps_proot (cp_procs lib pstate));
     st_assert (ret = ST_OK);
     (ret, slab, mem) \<leftarrow> st_slab_obj_free (env_madvise env pstate) (env_pid env) (w_slab w) (w_mem w) pstate;
     st_assert (ret = ST_OK);
     Some (lib\<lparr>cp_pool := w\<lparr>w_slab := slab, w_mem := mem\<rparr>\<rparr>)
   }"

text \<open>The loop over the list, at the node \<open>pos\<close> with its successor read in advance.\<close>

partial_function (option) clean_loop ::
    "gc_params \<Rightarrow> env \<Rightarrow> addr \<Rightarrow> bool \<Rightarrow> int \<Rightarrow> addr \<Rightarrow> addr \<Rightarrow> int \<Rightarrow> st_capi \<Rightarrow> (int \<times> st_capi) option" where
  "clean_loop gp env process_state clean_self max_num pos nxt num lib =
    (if pos = cp_proots lib then Some (num, lib)
     else Option.bind (proot_dead (env_pid env) process_state clean_self (owner_process pos) lib) (\<lambda>(dead, lib).
       if dead then
         Option.bind (clean_proot gp env (owner_process pos) lib) (\<lambda>lib.
           if max_num \<noteq> 0 \<and> num + 1 = max_num then Some (num + 1, lib)
           else Option.bind (deref (w_list (cp_pool lib)) nxt) (\<lambda>n.
             clean_loop gp env process_state clean_self max_num nxt (l_next n) (num + 1) lib))
       else Option.bind (deref (w_list (cp_pool lib)) nxt) (\<lambda>n.
         clean_loop gp env process_state clean_self max_num nxt (l_next n) num lib)))"

text \<open>The last component of the result is \<^verbatim>\<open>*cleaned\<close>, if it is written.\<close>

definition st_capi_do_clean_dead_proot ::
    "gc_params \<Rightarrow> env \<Rightarrow> addr \<Rightarrow> int \<Rightarrow> bool \<Rightarrow> st_capi \<Rightarrow> (st_error \<times> int option \<times> st_capi) option" where
  "st_capi_do_clean_dead_proot gp env process_state max_num clean_self lib =
    (if \<not> max_num \<ge> 0 then Some (ST_ARG_INVALID, None, lib)
     else do {
       lock \<leftarrow> acquire (env_pid env) (cp_lock lib);
       let lib = lib\<lparr>cp_lock := lock\<rparr>;
       h \<leftarrow> deref (w_list (cp_pool lib)) (cp_proots lib);
       n \<leftarrow> deref (w_list (cp_pool lib)) (l_next h);
       (num, lib) \<leftarrow> clean_loop gp env process_state clean_self max_num (l_next h) (l_next n) 0 lib;
       lock \<leftarrow> st_robustlock_unlock (env_pid env) (cp_lock lib);
       Some (ST_OK, Some num, lib\<lparr>cp_lock := lock\<rparr>)
     })"

definition st_capi_clean_dead_proot ::
    "gc_params \<Rightarrow> env \<Rightarrow> addr \<Rightarrow> int \<Rightarrow> st_capi \<Rightarrow> (st_error \<times> int option \<times> st_capi) option" where
  "st_capi_clean_dead_proot gp env process_state max_num lib =
    st_capi_do_clean_dead_proot gp env process_state max_num False lib"

section \<open>Start\<close>

text \<open>\<open>attr\<close> is the result of the initialisation of the attributes for \<^verbatim>\<open>state->lock\<close>.\<close>

definition st_capi_master_init_roots :: "env \<Rightarrow> int \<Rightarrow> st_capi \<Rightarrow> (st_error \<times> st_capi) option" where
  "st_capi_master_init_roots env attr lib = do {
     (ret, t, w) \<leftarrow> st_table_new env (cp_pool lib);
     let lib = lib\<lparr>cp_pool := w\<rparr>;
     if ret \<noteq> ST_OK then Some (ret, lib)
     else do {
       groot \<leftarrow> t;
       (ret, w) \<leftarrow> st_gc_add_root env w groot;
       if ret \<noteq> ST_OK then do {
         (ret1, w) \<leftarrow> st_table_free env w groot;
         st_assert (ret1 = ST_OK);
         Some (ret, lib\<lparr>cp_pool := w\<rparr>)
       }
       else do {
         ln \<leftarrow> st_list_init (w_list w) (cp_proots lib);
         let (ret, lock) = st_robustlock_init attr (cp_lock lib);
         let lib = lib\<lparr>cp_pool := set_list ln w, cp_groot := groot, cp_init_state := ST_CAPI_INIT_GROOT, cp_lock := lock\<rparr>;
         if ret \<noteq> ST_OK then Some (ret, lib) else Some (ST_OK, lib\<lparr>cp_init_state := ST_CAPI_INIT_PROOT\<rparr>)
       }
     }
   }"

text \<open>The error exit of the start of a process.\<close>

definition process_err_quit :: "env \<Rightarrow> addr \<Rightarrow> st_error \<Rightarrow> st_capi \<Rightarrow> (st_error \<times> addr option \<times> st_capi) option" where
  "process_err_quit env new_pstate ret lib = do {
     let proot = ps_proot (cp_procs lib new_pstate);
     w \<leftarrow> (if proot \<noteq> NULL then do {
         (ret1, w) \<leftarrow> st_gc_remove_root env (cp_pool lib) proot True;
         st_assert (ret1 = ST_OK);
         Some w
       } else Some (cp_pool lib));
     (ret1, slab, mem) \<leftarrow> st_slab_obj_free (env_madvise env new_pstate) (env_pid env) (w_slab w) (w_mem w) new_pstate;
     st_assert (ret1 = ST_OK);
     Some (ret, None, lib\<lparr>cp_pool := w\<lparr>w_slab := slab, w_mem := mem\<rparr>\<rparr>)
   }"

text \<open>The second component of the result is the new process state, if \<^verbatim>\<open>*pstate\<close> is written.\<close>

definition st_capi_init_process_state :: "env \<Rightarrow> int \<Rightarrow> st_capi \<Rightarrow> (st_error \<times> addr option \<times> st_capi) option" where
  "st_capi_init_process_state env attr lib = do {
     let w = cp_pool lib;
     (ret, obj, slab, mem) \<leftarrow> st_slab_obj_alloc (env_madvise env NULL) (env_pid env) (env_tmp env) (w_slab w) (w_mem w) (int sizeof_process);
     let w = w\<lparr>w_slab := slab, w_mem := mem\<rparr>;
     let lib = lib\<lparr>cp_pool := w\<rparr>;
     if ret \<noteq> ST_OK then Some (ret, None, lib)
     else do {
       p \<leftarrow> obj;
       let lib = upd_process p (\<lambda>ps. ps\<lparr>ps_pid := env_pid env, ps_proot := NULL\<rparr>) lib;
       ln \<leftarrow> st_list_init (w_list w) (process_node p);
       (ret, t, w) \<leftarrow> st_table_new env (set_list ln w);
       let lib = lib\<lparr>cp_pool := w\<rparr>;
       if ret \<noteq> ST_OK then process_err_quit env p ret lib
       else do {
         proot \<leftarrow> t;
         let lib = upd_process p (\<lambda>ps. ps\<lparr>ps_proot := proot\<rparr>) lib;
         (ret, w) \<leftarrow> st_gc_add_root env w proot;
         let lib = lib\<lparr>cp_pool := w\<rparr>;
         if ret \<noteq> ST_OK then process_err_quit env p ret lib
         else do {
           let (ret, alive) = st_robustlock_init attr (ps_alive (cp_procs lib p));
           let lib = upd_process p (\<lambda>ps. ps\<lparr>ps_alive := alive\<rparr>) lib;
           if ret \<noteq> ST_OK then process_err_quit env p ret lib
           else do {
             alive \<leftarrow> acquire (env_pid env) alive;
             lock \<leftarrow> acquire (env_pid env) (cp_lock lib);
             ln \<leftarrow> st_list_insert_last (w_list w) (cp_proots lib) (process_node p);
             lock \<leftarrow> st_robustlock_unlock (env_pid env) lock;
             let lib = upd_process p (\<lambda>ps. ps\<lparr>ps_alive := alive, ps_inited := 1\<rparr>) lib;
             Some (ST_OK, Some p, lib\<lparr>cp_pool := set_list ln w, cp_lock := lock\<rparr>)
           }
         }
       }
     }
   }"

definition st_capi_worker_init :: "env \<Rightarrow> int \<Rightarrow> addr \<Rightarrow> st_capi \<Rightarrow> (st_error \<times> addr \<times> st_capi) option" where
  "st_capi_worker_init env attr process_state lib = do {
     st_assert (process_state \<noteq> NULL);
     st_assert (cp_init_state lib = ST_CAPI_INIT_DONE);
     (ret, p, lib) \<leftarrow> st_capi_init_process_state env attr lib;
     Some (ret, (case p of None \<Rightarrow> process_state | Some p \<Rightarrow> p), lib)
   }"

section \<open>End\<close>

text \<open>The results of the system calls that the end of the library makes.\<close>

record destroy_env =
  de_gp :: gc_params
  de_env :: env
  de_gc_envs :: "nat \<Rightarrow> env"
  de_unlink :: "unit sys"
  de_munmap :: "unit sys"
  de_close :: "unit sys"

definition upd_pool :: "(st_pagepool \<Rightarrow> st_pagepool) \<Rightarrow> world \<Rightarrow> world" where
  "upd_pool f w = w\<lparr>w_slab := (w_slab w)\<lparr>sl_page_pool := f (sl_page_pool (w_slab w))\<rparr>\<rparr>"

text \<open>The switch; no library state is left once the memory is unmapped.\<close>

definition destroy_phase :: "destroy_env \<Rightarrow> addr \<Rightarrow> st_capi \<Rightarrow> (st_error \<times> st_capi option) option" where
  "destroy_phase de process_state lib =
    (let w = cp_pool lib; env = de_env de; s = cp_init_state lib in
     if s = ST_CAPI_INIT_PROOT then do {
       (_, _, lib) \<leftarrow> st_capi_do_clean_dead_proot (de_gp de) env process_state 0 True lib;
       Some (ST_OK, Some lib)
     }
     else if s = ST_CAPI_INIT_GROOT then do {
       (ret, w) \<leftarrow> st_capi_remove_gc_root (de_gp de) env w (cp_groot lib);
       st_assert (ret = ST_OK);
       Some (ret, Some (lib\<lparr>cp_pool := w, cp_groot := NULL\<rparr>))
     }
     else if s = ST_CAPI_INIT_TABLE then do {
       (ret, w) \<leftarrow> st_table_pool_destroy (de_gp de) (de_gc_envs de) w;
       Some (ret, Some (lib\<lparr>cp_pool := w\<rparr>))
     }
     else if s = ST_CAPI_INIT_SLAB then do {
       (ret, slab) \<leftarrow> st_slab_pool_destroy (w_slab w) (w_list w);
       Some (ret, Some (lib\<lparr>cp_pool := w\<lparr>w_slab := slab\<rparr>\<rparr>))
     }
     else if s = ST_CAPI_INIT_PAGEPOOL then
       (case st_pagepool_destroy (sl_page_pool (w_slab w)) of (ret, pool) \<Rightarrow>
          Some (ret, Some (lib\<lparr>cp_pool := upd_pool (\<lambda>_. pool) w\<rparr>)))
     else if s = ST_CAPI_INIT_REGION then
       (case st_region_destroy (pp_region_cb (sl_page_pool (w_slab w))) of (ret, rcb) \<Rightarrow>
          Some (ret, Some (lib\<lparr>cp_pool := upd_pool (pp_region_cb_update (\<lambda>_. rcb)) w\<rparr>)))
     else if s = ST_CAPI_INIT_SHM then
       (case st_region_shm_destroy (de_unlink de) (de_munmap de) (de_close de) (cp_shm_fd lib) True (cp_base lib) (cp_len lib) of (ret, _) \<Rightarrow>
          Some (ret, if ret = ST_OK then None else Some lib))
     else Some (ST_OK, Some lib))"

partial_function (option) destroy_phases :: "destroy_env \<Rightarrow> addr \<Rightarrow> st_error \<Rightarrow> st_capi \<Rightarrow> (st_error \<times> st_capi option) option" where
  "destroy_phases de process_state ret lib =
    (if cp_init_state lib = 0 then Some (ret, Some lib)
     else Option.bind (destroy_phase de process_state lib) (\<lambda>(ret, r).
       if ret \<noteq> ST_OK then Some (ret, r)
       else case r of
         None \<Rightarrow> Some (ret, None)
       | Some lib \<Rightarrow> destroy_phases de process_state ret (lib\<lparr>cp_init_state := cp_init_state lib - 1\<rparr>)))"

text \<open>\<open>process_state\<close> is \<open>None\<close> for a process that has none; the result has the process state and the library
  state that are left.\<close>

definition st_capi_destroy :: "destroy_env \<Rightarrow> (addr \<times> st_capi) option \<Rightarrow> (st_error \<times> (addr \<times> st_capi) option) option" where
  "st_capi_destroy de st =
    (case st of
       None \<Rightarrow> Some (ST_UNINITED, None)
     | Some (process_state, lib) \<Rightarrow> do {
         st_assert (cp_init_state lib \<ge> ST_CAPI_INIT_NONE);
         st_assert (cp_init_state lib \<le> ST_CAPI_INIT_DONE);
         (ret, r) \<leftarrow> destroy_phases de process_state ST_OK lib;
         Some (ret, map_option (Pair process_state) r)
       })"

section \<open>Start of the library\<close>

text \<open>What the start finds: the results of the system calls, the address of its local process state, the
  cells of the two arrays of addresses, and the memory that the mapping gives, with the library
  state zeroed.\<close>

record init_env =
  ie_env :: env
  ie_destroy :: destroy_env
  ie_small :: bool
  ie_page_size :: int
  ie_sizeof_capi :: int
  ie_open :: "int sys"
  ie_ftruncate :: "unit sys"
  ie_mmap :: "addr sys"
  ie_getfd :: "int sys"
  ie_setfd :: "unit sys"
  ie_attr :: "nat \<Rightarrow> int"
  ie_slab_time :: "nat \<Rightarrow> int sys"
  ie_slab_attr :: "nat \<Rightarrow> int"
  ie_version :: string
  ie_local_pstate :: addr
  ie_regions_data :: addr
  ie_region_cells :: "addr list"
  ie_roots_data :: addr
  ie_root_cells :: "addr list"

text \<open>The phases between the mapping and the tables.\<close>

definition init_region :: "init_env \<Rightarrow> st_capi \<Rightarrow> (st_error \<times> st_capi) option" where
  "init_region ie lib =
    (case st_region_init (ie_page_size ie) (ie_attr ie 0) (pp_region_cb (sl_page_pool (w_slab (cp_pool lib)))) (cp_data lib)
        (uint (ST_REGION_SIZE (ie_small ie)) div ie_page_size ie) (uint (ST_REGION_CNT (ie_small ie))) 1 of (ret, rcb) \<Rightarrow>
       Some (ret, lib\<lparr>cp_pool := upd_pool (pp_region_cb_update (\<lambda>_. rcb)) (cp_pool lib)\<rparr>))"

definition init_pagepool :: "init_env \<Rightarrow> st_capi \<Rightarrow> (st_error \<times> st_capi) option" where
  "init_pagepool ie lib = do {
     let w = cp_pool lib;
     (ret, pool, rb) \<leftarrow> st_pagepool_init (ie_attr ie 1) (ie_attr ie 2) (ie_regions_data ie) (ie_region_cells ie) (sl_page_pool (w_slab w))
       (w_rb w) (ie_page_size ie);
     Some (ret, lib\<lparr>cp_pool := upd_pool (\<lambda>_. pool) (set_rb rb w)\<rparr>)
   }"

definition init_slab :: "init_env \<Rightarrow> st_capi \<Rightarrow> (st_error \<times> st_capi) option" where
  "init_slab ie lib = do {
     let w = cp_pool lib;
     (ret, slab, ln) \<leftarrow> st_slab_pool_init (ie_slab_time ie) (ie_slab_attr ie) (w_slab w) (w_list w);
     Some (ret, lib\<lparr>cp_pool := (set_list ln w)\<lparr>w_slab := slab\<rparr>\<rparr>)
   }"

definition init_tables :: "init_env \<Rightarrow> st_capi \<Rightarrow> (st_error \<times> st_capi) option" where
  "init_tables ie lib = do {
     (ret, w) \<leftarrow> st_table_pool_init (ie_env ie) (ie_roots_data ie) (ie_root_cells ie) (cp_pool lib) 1;
     Some (ret, lib\<lparr>cp_pool := w\<rparr>)
   }"

text \<open>Each phase is entered when the one before it is done, and the first that fails ends the start.\<close>

fun init_phases :: "((st_capi \<Rightarrow> (st_error \<times> st_capi) option) \<times> int) list \<Rightarrow> st_capi \<Rightarrow> (st_error \<times> st_capi) option" where
  "init_phases [] lib = Some (ST_OK, lib)"
| "init_phases ((phase, s) # phases) lib = do {
     (ret, lib) \<leftarrow> phase lib;
     if ret \<noteq> ST_OK then Some (ret, lib) else init_phases phases (lib\<lparr>cp_init_state := s\<rparr>)
   }"

definition mapped_state :: "init_env \<Rightarrow> string \<Rightarrow> addr \<Rightarrow> int \<Rightarrow> st_capi \<Rightarrow> st_capi" where
  "mapped_state ie shm_fn base shm_fd zeroed =
    (let ms = meta_size (ie_sizeof_capi ie) (ie_page_size ie) in
     zeroed\<lparr>cp_base := base, cp_data := nat (int base + ms), cp_shm_fd := shm_fd,
       cp_len := ms + data_size (ie_small ie) (ie_page_size ie), cp_init_state := ST_CAPI_INIT_SHM,
       cp_shm_fn := shm_fn, cp_version := ie_version ie\<rparr>)"

text \<open>The error exit: the code is that of the failure, and the end of the library must succeed.\<close>

definition init_err_quit :: "init_env \<Rightarrow> st_error \<Rightarrow> st_capi \<Rightarrow> (st_error \<times> (addr \<times> st_capi) option) option" where
  "init_err_quit ie ret lib = do {
     (ret1, st) \<leftarrow> st_capi_destroy (ie_destroy ie) (Some (ie_local_pstate ie, lib));
     st_assert (ret1 = ST_OK);
     Some (ret, st)
   }"

definition st_capi_do_init :: "init_env \<Rightarrow> string \<Rightarrow> st_capi \<Rightarrow> (st_error \<times> (addr \<times> st_capi) option) option" where
  "st_capi_do_init ie shm_fn zeroed =
    (case st_region_shm_create True (ie_open ie) (ie_ftruncate ie) (ie_mmap ie) (ie_getfd ie) (ie_setfd ie) of (ret, r, _) \<Rightarrow>
       if ret \<noteq> ST_OK then Some (ret, None)
       else do {
         (base, shm_fd) \<leftarrow> r;
         (ret, lib) \<leftarrow> init_phases [(init_region ie, ST_CAPI_INIT_REGION), (init_pagepool ie, ST_CAPI_INIT_PAGEPOOL),
           (init_slab ie, ST_CAPI_INIT_SLAB), (init_tables ie, ST_CAPI_INIT_TABLE)] (mapped_state ie shm_fn base shm_fd zeroed);
         if ret \<noteq> ST_OK then init_err_quit ie ret lib
         else do {
           (ret, lib) \<leftarrow> st_capi_master_init_roots (ie_env ie) (ie_attr ie 3) lib;
           if ret \<noteq> ST_OK then init_err_quit ie ret lib
           else do {
             (ret, p, lib) \<leftarrow> st_capi_init_process_state (ie_env ie) (ie_attr ie 4) lib;
             if ret \<noteq> ST_OK then init_err_quit ie ret lib
             else do {
               p \<leftarrow> p;
               Some (ST_OK, Some (p, lib\<lparr>cp_init_state := ST_CAPI_INIT_DONE\<rparr>))
             }
           }
         }
       })"

definition st_capi_init :: "init_env \<Rightarrow> string \<Rightarrow> st_capi \<Rightarrow> (addr \<times> st_capi) option \<Rightarrow> (st_error \<times> (addr \<times> st_capi) option) option" where
  "st_capi_init ie shm_fn zeroed st = (if st \<noteq> None then Some (ST_OK, st) else st_capi_do_init ie shm_fn zeroed)"

end
