(* ===== verification/Capi_Theorems.thy ===== *)
theory Capi_Theorems
  imports Capi_Each Capi_Start Table_Theorems
begin

text \<open>
  What the C interface promises to a process, with a pool of two root tables as the example.
\<close>

section \<open>A pool of two tables\<close>

text \<open>Worlds whose slabs for tables and for small elements have room.\<close>

definition roomy :: "world \<Rightarrow> bool" where
  "roomy w \<longleftrightarrow> finite (live w) \<and> card (live w) < 512 \<and> (\<exists>x t. (x, 128) \<in> live w \<and> (t, 256) \<in> live w)"

lemma roomy_class:
  assumes "world_ok w T Q" "roomy w" "i \<in> {7, 8}" "obj_class sz = 2 ^ i" "0 < sz" "sz < 2 ^ 31"
  shows "\<not> slab_exhausted md pid tmp (w_slab w) (w_mem w) sz ret"
proof -
  have f: "finite (live w)" "card (live w) < 512" using assms(2) by (simp_all add: roomy_def)
  obtain a where a: "(a, 2 ^ i) \<in> live w" using assms(2,3) by (auto simp: roomy_def)
  have "{b. (b, 2 ^ i) \<in> live w} \<subseteq> fst ` live w" by force
  then have "card {b. (b, 2 ^ i) \<in> live w} \<le> card (fst ` live w)" by (rule card_mono[rotated]) (use f in simp)
  then have "card {b. (b, 2 ^ i) \<in> live w} < 512" using card_image_le[OF f(1), of fst] f(2) by linarith
  then show ?thesis using slab_has_room[OF world_okD(1)[OF assms(1)] a f(1) _ assms(4-6)] assms(3) by auto
qed

lemma new_succeeds:
  assumes "st_slab_obj_alloc (env_madvise env NULL) (env_pid env) (env_tmp env) (w_slab w) (w_mem w) (int sizeof_table) = Some (ST_OK, r, sp, mem)"
    "st_table_new env w = Some (ret, t, w')" "env_attr env = 0"
  shows "ret = ST_OK"
  using assms by (auto simp: st_table_new_def st_table_init_def st_rbtree_init_def st_robustlock_init_def Let_def split: bind_splits if_splits prod.splits)

lemma add_root_total:
  assumes "st_gc_add_root env w h = Some (ret, w')" "roots_ok (gc_roots (w_gc w))"
  shows "ar_total_cnt (gc_roots (w_gc w')) = ar_total_cnt (gc_roots (w_gc w))"
proof -
  have d: "\<not> ar_dynamic (gc_roots (w_gc w))" using assms(2) by (simp add: roots_ok_def)
  have "ar_total_cnt a = ar_total_cnt (gc_roots (w_gc w))" if "st_array_insert_many (\<lambda>_ _ _ _. None) (gc_roots (w_gc w)) j (Some [h]) 1 = Some (r, a)" for j r a
    by (rule insert_static(3)[OF that d])
  then show ?thesis using assms(1)
    by (auto simp: st_gc_add_root_def with_gc_lock_def add_root_body_def set_roots_def set_gc_def split: if_splits bind_splits)
qed

lemma root_room:
  assumes "gc_idle w T Q" "int (card (root_set w)) < ar_total_cnt (gc_roots (w_gc w))"
  shows "ar_current_cnt (gc_roots (w_gc w)) < ar_total_cnt (gc_roots (w_gc w))"
proof -
  have r: "arr_ok (gc_roots (w_gc w))" "distinct (arr_list (gc_roots (w_gc w)))" using gc_idleD(4)[OF assms(1)] by (simp_all add: roots_ok_def)
  have "card (root_set w) = nat (ar_current_cnt (gc_roots (w_gc w)))" unfolding root_set_def distinct_card[OF r(2)] by (rule length_arr_list[OF r(1)])
  then show ?thesis using assms(2) by linarith
qed

lemma fresh_storable:
  assumes "gc_idle w T Q" "\<not> gc_begin (w_gc w)" "t \<in> dom T" "contents w T t = Map.empty"
  shows "holdable w T t"
  using gc_idleD(5)[OF assms(1)] assms(2-4) by (auto simp: gc_graph_def storable_def child_def)

lemma add_root_space:
  assumes "st_gc_add_root env w h = Some (ret, w')"
  shows "w_slab w' = w_slab w" "w_mem w' = w_mem w"
  using assms by (auto simp: st_gc_add_root_def with_gc_lock_def add_root_body_def set_roots_def set_gc_def split: if_splits bind_splits)

lemma demo_two:
  "\<exists>w p t. gc_idle w [p \<mapsto> E, t \<mapsto> E] (\<lambda>_. []) \<and> root_set w = {p, t} \<and> p \<noteq> t \<and> w_run_gc_periodical w = k \<and> w_area w = region_area demo_rcb \<and>
    roomy w"
proof -
  obtain w x t where w: "gc_idle w [t \<mapsto> E] (\<lambda>_. [])" "root_set w = {}" "ar_total_cnt (gc_roots (w_gc w)) = 1024"
    "w_run_gc_periodical w = k" "w_bytes w = demo_bytes" "w_area w = region_area demo_rcb" "\<not> gc_begin (w_gc w)" "live w = {(x, 128), (t, 256)}"
    using demo_gc_idle by blast
  note env = demo_put(2)[OF w(5,6)] and i = gc_idleD[OF w(1)] and inv = world_okD(1)[OF gc_idleD(3)[OF w(1)]]
  have "card {(x, 128), (t, 256)} \<le> 2" by (simp add: card_insert_if)
  then have room: "roomy w" using w(8) by (auto simp: roomy_def)
  obtain r sp mem where "st_slab_obj_alloc (env_madvise demo_env NULL) (env_pid demo_env) (env_tmp demo_env) (w_slab w) (w_mem w) (int sizeof_table) = Some (ST_OK, r, sp, mem)"
    using slab_alloc_ok[OF inv, of "env_tmp demo_env" "int sizeof_table" "env_madvise demo_env NULL" "env_pid demo_env"] env
      roomy_class[OF i(3) room, of 8 "int sizeof_table"] table_class
    by (auto simp: sizeof_table_def env_ok_def)
  note ok = new_succeeds[OF this]
  obtain ret n w1 T1 where n: "st_table_new demo_env w = Some (ret, n, w1)" "gc_idle w1 T1 (\<lambda>_. [])" "root_set w1 = root_set w" "new_table_post w [t \<mapsto> E] ret n w1 T1"
    "\<And>t. n = Some t \<Longrightarrow> holdable w1 T1 t" using new_gc_ok[OF w(1) env] by blast
  have "ret = ST_OK" by (rule ok[OF n(1)]) (simp add: demo_env_def)
  then obtain p where p: "n = Some p" "p \<noteq> t" "T1 = [t \<mapsto> E, p \<mapsto> E]" "live w1 = insert (p, 256) (live w)" using n(4) by (auto simp: new_table_post_def)
  have same: "w_gc w1 = w_gc w" "w_area w1 = w_area w" "w_run_gc_periodical w1 = w_run_gc_periodical w" using n(4) by (simp_all add: new_table_post_def)
  have r1: "ar_current_cnt (gc_roots (w_gc w1)) < ar_total_cnt (gc_roots (w_gc w1))" by (rule root_room[OF n(2)]) (simp add: n(3) w(2,3) same(1))
  from add_root_ok[OF n(2) n(5)[OF p(1)], of demo_env] w(2,7) n(3) r1 same(1) obtain w2 where
    w2: "st_gc_add_root demo_env w1 p = Some (ST_OK, w2)" "gc_idle w2 T1 (\<lambda>_. [])" "root_rest w1 w2" "root_set w2 = {p}" by auto
  have b2: "\<not> gc_begin (w_gc w2)" using w2(3) same(1) w(7) by (simp add: root_rest_def)
  have "contents w2 T1 t = Map.empty" using p(3) by (simp add: contents_def entries_def)
  then have h: "holdable w2 T1 t" using fresh_storable[OF w2(2) b2] p(3) by simp
  have r2: "ar_current_cnt (gc_roots (w_gc w2)) < ar_total_cnt (gc_roots (w_gc w2))"
    by (rule root_room[OF w2(2)]) (use add_root_total[OF w2(1) gc_idleD(4)[OF n(2)]] w2(4) w(3) same(1) in simp)
  from add_root_ok[OF w2(2) h, of demo_env] b2 w2(4) r2 p(2) obtain w3 where
    w3: "st_gc_add_root demo_env w2 t = Some (ST_OK, w3)" "gc_idle w3 T1 (\<lambda>_. [])" "root_rest w2 w3" "root_set w3 = {t, p}" by auto
  have "live w3 = {(p, 256), (x, 128), (t, 256)}" using add_root_space[OF w2(1)] add_root_space[OF w3(1)] p(4) w(8) by simp
  then have "roomy w3" by (auto simp: roomy_def card_insert_if)
  moreover have "T1 = [p \<mapsto> E, t \<mapsto> E]" unfolding p(3) using p(2) by auto
  ultimately show ?thesis using w3(2-4) w2(3) same w(4,6) p(2) by (intro exI[of _ w3] exI[of _ p] exI[of _ t]) (auto simp: root_rest_def)
qed

text \<open>A process with its variables at 1000 and 2000 and its blocks from 4000 on.\<close>

definition demo_ce :: capi_env where
  "demo_ce = \<lparr>ce_gp = demo_gp, ce_env = demo_env, ce_key = 1000, ce_table = 2000, ce_empty = 3000, ce_malloc = \<lambda>k. 4000 + 64 * k\<rparr>"

lemma demo_caller:
  assumes "w_run_gc_periodical w = 1" "w_area w = region_area demo_rcb"
  shows "caller_ok demo_ce w" "n \<le> 64 \<Longrightarrow> block_ok demo_ce w (ce_malloc demo_ce 0) n" "str_key m demo_key" "arg_str demo_key"
  using assms by (auto simp: caller_ok_def block_ok_def demo_ce_def env_ok_def demo_env_def region_area_def demo_rcb_def str_key_def arg_str_def
      demo_key_def types_defs)

section \<open>Values\<close>

text \<open>
  C13: What a process gets from a table of the pool is a copy.  \<^verbatim>\<open>st_capi_do_get\<close> answers \<^verbatim>\<open>ST_NOT_FOUND\<close> for a key that
  the table does not have.  Otherwise the value is in the new block and, if it is a table, the root
  table of the process has an entry for it under the address of the block; or there is no memory for
  the block or no room for the entry, and nothing has changed.  The invariant of the pool and of the
  collector holds again.
\<close>

theorem capi_get_correct:
  assumes "gc_idle w T Q" "caller_ok ce w" "p \<in> root_set w" "t \<in> reach (contents w T) (root_set w)" "t \<noteq> p"
    "str_key (w_bytes w) key" "arg_str key"
    "\<And>s. st_table_get_value (ce_env ce) w t key = Some (ST_OK, Some s) \<Longrightarrow> block_ok ce w (ce_malloc ce 0) (str_capacity s)"
  shows "\<exists>ret r f w' T' Q'. st_capi_do_get ce p t key w = Some ((ret, r, f), w') \<and> gc_idle w' T' Q' \<and> dom T' = dom T \<and> root_set w' = root_set w \<and>
    (case contents w T t (str_view (w_bytes w) key) of
       None \<Rightarrow> ret = ST_NOT_FOUND \<and> r = None \<and> f = None \<and> contents w' T' = contents w T
     | Some v \<Rightarrow> copied ce w T p (ce_malloc ce 0) v ret r f w' T')"
  using do_get_ok[OF assms] .

theorem capi_get_correct_witness:
  "\<exists>w p t w' T' Q'. gc_idle w [p \<mapsto> E, t \<mapsto> E] (\<lambda>_. []) \<and> st_capi_do_get demo_ce p t demo_key w = Some ((ST_NOT_FOUND, None, None), w') \<and> gc_idle w' T' Q'"
proof -
  obtain w p t where w: "gc_idle w [p \<mapsto> E, t \<mapsto> E] (\<lambda>_. [])" "root_set w = {p, t}" "p \<noteq> t" "w_run_gc_periodical w = 1" "w_area w = region_area demo_rcb"
    using demo_two by blast
  note c = demo_caller[OF w(4,5)] and g = get_string[OF gc_idleD(3)[OF w(1)], of t "ce_env demo_ce" demo_key]
  have e: "contents w [p \<mapsto> E, t \<mapsto> E] t = Map.empty" by (simp add: contents_def entries_def)
  have nf: "st_table_get_value (ce_env demo_ce) w t demo_key = Some (ST_NOT_FOUND, None)"
    using g caller_okD(1)[OF c(1)] c(3,4) e by simp
  have r: "p \<in> root_set w" "t \<in> reach (contents w [p \<mapsto> E, t \<mapsto> E]) (root_set w)" using w(2) by (auto intro: reach.start)
  obtain w' T' Q' where "st_capi_do_get demo_ce p t demo_key w = Some ((ST_NOT_FOUND, None, None), w')" "gc_idle w' T' Q'"
    using capi_get_correct[OF w(1) c(1) r _ c(3,4)] w(3) nf e by auto
  then show ?thesis using w(1) by blast
qed

text \<open>
  C12: A table that a process holds stays.  As long as the root table of the process has the entry under the
  address of its block, a run of the collector leaves the table and its contents; and \<^verbatim>\<open>st_capi_free\<close> gives the
  block back and removes exactly that entry.
\<close>

theorem capi_held_safe:
  assumes "gc_idle w T Q" "caller_ok ce w" "p \<in> root_set w" "str_bytes v \<noteq> NULL" "str_bytes v < 2 ^ 64" "st_types_is_table (str_type v)"
    "contents w T p (proot_key (str_bytes v)) = Some (table_value a)" "a < 2 ^ 64"
  shows "(\<exists>ret w' T' Q'. st_gc_run gp (ce_env ce) w = Some (ret, w') \<and> gc_idle w' T' Q' \<and> a \<in> dom T' \<and> contents w' T' a = contents w T a \<and>
      contents w' T' p = contents w T p) \<and>
    (\<exists>w' T' Q'. st_capi_free ce p v w = Some ((ST_OK, st_str_null, Some (str_bytes v)), w') \<and> gc_idle w' T' Q' \<and> dom T' = dom T \<and>
      contents w' T' = (contents w T)(p := (contents w T p)(proot_key (str_bytes v) := None)))"
proof -
  note i = gc_idleD[OF assms(1)] and c = caller_okD[OF assms(2)]
  have "child (contents w T) p a" using assms(7) table_value_ref[OF assms(8)] unfolding child_def by blast
  then have r: "a \<in> reach (contents w T) (root_set w)" "p \<in> reach (contents w T) (root_set w)"
    using root_reach[OF assms(3)] reach.follow by blast+
  obtain ret w' T' Q' where g: "st_gc_run gp (ce_env ce) w = Some (ret, w')" "gc_idle w' T' Q'" "collects (contents w T) (dom T) (root_set w) (contents w' T') (dom T')"
    using gc_run_ok[OF assms(1) c(1)] by blast
  note k = collects_reach[OF g(3)] gc_graph_reach(1)[OF i(5)]
  then have "\<exists>ret w' T' Q'. st_gc_run gp (ce_env ce) w = Some (ret, w') \<and> gc_idle w' T' Q' \<and> a \<in> dom T' \<and> contents w' T' a = contents w T a \<and>
      contents w' T' p = contents w T p"
    using g(1,2) r by (intro exI[of _ ret] exI[of _ w'] exI[of _ T'] exI[of _ Q']) auto
  then show ?thesis using free_ok[OF assms(1-5)] assms(6,7) by auto
qed

text \<open>A process of the example that holds the second root table.\<close>

lemma demo_held:
  "\<exists>w p t T Q (v :: st_str). gc_idle w T Q \<and> caller_ok demo_ce w \<and> p \<in> root_set w \<and> str_bytes v = 4000 \<and> st_types_is_table (str_type v) \<and>
    contents w T p (proot_key 4000) = Some (table_value t) \<and> t \<noteq> p \<and> t < 2 ^ 64"
proof -
  obtain w p t where w: "gc_idle w [p \<mapsto> E, t \<mapsto> E] (\<lambda>_. [])" "root_set w = {p, t}" "p \<noteq> t" "w_run_gc_periodical w = 1" "w_area w = region_area demo_rcb" "roomy w"
    using demo_two by blast
  let ?T = "[p \<mapsto> E, t \<mapsto> E]"
  note c = demo_caller[OF w(4,5)] and i = gc_idleD[OF w(1)]
  have r: "p \<in> root_set w" "t \<in> root_set w" using w(2) by simp_all
  have tb: "t < 2 ^ 64" by (rule table_bound[OF i(3)]) simp
  obtain ret v f w' T' Q' where g: "st_capi_get_groot demo_ce p t w = Some ((ret, v, f), w')" "gc_idle w' T' Q'" "call_rest (- w_area w) w w'"
    "copied demo_ce w ?T p (ce_malloc demo_ce 0) (table_value t) ret v f w' T'" using groot_ok[OF w(1) c(1) r c(2)] by fastforce
  have d: "ce_malloc demo_ce 0 = 4000" by (simp add: demo_ce_def)
  have "\<not> refused demo_ce w ?T p 4000 ret"
    using roomy_class[OF i(3) w(6), of 7 128] by (auto simp: refused_def no_room_def contents_def entries_def obj_class_def)
  then have ok: "ret = ST_OK" using g(4) by (auto simp: copied_def d split: if_splits)
  then obtain s where s: "v = Some s" "str_bytes s = 4000" "value_view (w_bytes w') s = table_value t" "contents w' T' = hold (contents w ?T) p 4000 (table_value t)"
    using g(4) by (auto simp: copied_def d)
  have ty: "st_types_is_table (str_type s)" using s(3) by (simp add: value_view_def table_value_def st_types_is_table_def types_defs)
  have h: "contents w' T' p (proot_key 4000) = Some (table_value t)" unfolding s(4) hold_def table_value_ref[OF tb] by simp
  have "caller_ok demo_ce w'" "root_set w' = root_set w" using call_rest_caller[OF c(1) g(3)] g(3) by (simp_all add: call_rest_def)
  then show ?thesis using g(2) r(1) s(2) ty h w(3) tb by (intro exI[of _ w'] exI[of _ p] exI[of _ t] exI[of _ T'] exI[of _ Q'] exI[of _ s]) simp
qed

theorem capi_held_safe_witness:
  "\<exists>w p t (v :: st_str) ret w' T' Q' w1. t \<noteq> p \<and> st_gc_run demo_gp demo_env w = Some (ret, w') \<and> gc_idle w' T' Q' \<and> t \<in> dom T' \<and>
    st_capi_free demo_ce p v w = Some ((ST_OK, st_str_null, Some 4000), w1)"
proof -
  obtain w p t T Q and v :: st_str where w: "gc_idle w T Q" "caller_ok demo_ce w" "p \<in> root_set w" "str_bytes v = 4000" "st_types_is_table (str_type v)"
    "contents w T p (proot_key 4000) = Some (table_value t)" "t \<noteq> p" "t < 2 ^ 64" using demo_held by blast
  have "ce_env demo_ce = demo_env" by (simp add: demo_ce_def)
  then show ?thesis using capi_held_safe[OF w(1-3) _ _ w(5) _ w(8), of demo_gp] w(4,6,7) by simp blast
qed



section \<open>Walks\<close>

text \<open>
  C15: \<^verbatim>\<open>st_capi_foreach\<close> over a table, with a callback that leaves the tables alone, is the fold of the callback
  over the entries in the order of their keys, ended by the first answer other than \<^verbatim>\<open>ST_OK\<close>, of which
  \<^verbatim>\<open>ST_ITER_FINISH\<close> counts as success.  It returns, releases the lock of the table and changes nothing.
\<close>

theorem capi_foreach_fold:
  assumes "gc_idle w T Q" "t \<in> dom T"
  shows "\<exists>kvs w'. st_capi_foreach env t None side (reader f) args w = Some (each f kvs args, w') \<and>
    gc_idle w' T Q \<and> contents w' T = contents w T \<and> w_bytes w' = w_bytes w \<and> sorted_wrt (<) (map (\<lambda>(k, v). str_view (w_bytes w) k) kvs) \<and>
    map_of (map (\<lambda>(k, v). (str_view (w_bytes w) k, value_view (w_bytes w) v)) kvs) = contents w T t"
  using foreach_ok[OF assms] .

text \<open>Counting the entries of the root table of the process of the example, which has one.\<close>

theorem capi_foreach_fold_witness:
  "\<exists>w p n w'. 0 < n \<and> st_capi_foreach demo_env p None 0 (reader (\<lambda>_ _ n. (ST_OK, n + 1))) (0::nat) w = Some ((ST_OK, n), w')"
proof -
  obtain w p t T Q where w: "gc_idle w T Q" "p \<in> root_set w" "contents w T p (proot_key 4000) = Some (table_value t)" using demo_held by blast
  have "p \<in> dom T" using gc_graph_reach(2)[OF gc_idleD(5)[OF w(1)]] w(2) by blast
  from capi_foreach_fold[OF w(1) this, of demo_env 0 "\<lambda>_ _ n. (ST_OK, n + 1)" "0::nat"] obtain kvs w' where
    k: "st_capi_foreach demo_env p None 0 (reader (\<lambda>_ _ n. (ST_OK, n + 1))) (0::nat) w = Some (each (\<lambda>_ _ n. (ST_OK, n + 1)) kvs 0, w')"
    "map_of (map (\<lambda>(k, v). (str_view (w_bytes w) k, value_view (w_bytes w) v)) kvs) = contents w T p" by blast
  have c: "each (\<lambda>_ _ n. (ST_OK, n + 1)) kvs n = (ST_OK, n + length kvs)" for n :: nat and kvs :: "(st_str \<times> st_str) list"
    by (induction kvs arbitrary: n) auto
  have "kvs \<noteq> []" using k(2)[symmetric] w(3) by (intro notI) simp
  then have "0 < length kvs" by simp
  moreover have "st_capi_foreach demo_env p None 0 (reader (\<lambda>_ _ n. (ST_OK, n + 1))) (0::nat) w = Some ((ST_OK, length kvs), w')"
    using k(1) unfolding c by simp
  ultimately show ?thesis by blast
qed

section \<open>The segment\<close>

text \<open>
  C29: The regions that \<^verbatim>\<open>st_capi_do_init\<close> lays into the segment, against the end of the segment.  With \<^verbatim>\<open>MEM_SMALL\<close> they
  end where the segment ends.  Without it the product of the two \<^verbatim>\<open>unsigned int\<close> constants wraps around to
  zero, the segment has room for the state of the library only, and the regions reach \<open>2 ^ 36\<close> bytes beyond it.
\<close>

theorem capi_segment_overrun:
  fixes base :: addr and zeroed :: st_capi
  assumes "ie_page_size ie = 4096" "0 \<le> ie_sizeof_capi ie"
  shows "int (cp_data (mapped_state ie shm_fn base shm_fd zeroed)) + uint (ST_REGION_CNT (ie_small ie)) * uint (ST_REGION_SIZE (ie_small ie)) =
    int (cp_base (mapped_state ie shm_fn base shm_fd zeroed)) + cp_len (mapped_state ie shm_fn base shm_fd zeroed) + (if ie_small ie then 0 else 2 ^ 36)"
proof -
  define lib where "lib = mapped_state ie shm_fn base shm_fd zeroed"
  have a: "st_align n 4096 = 4096 * ((n + 4095) div 4096)" for n using st_align_pow2_eq[of n 12] by simp
  have m: "0 \<le> meta_size (ie_sizeof_capi ie) 4096" using assms(2) by (simp add: meta_size_def a)
  have "int (cp_data lib) = int base + meta_size (ie_sizeof_capi ie) 4096" "int (cp_base lib) = int base"
    "cp_len lib = meta_size (ie_sizeof_capi ie) 4096 + data_size (ie_small ie) 4096" using assms(1) m by (simp_all add: lib_def mapped_state_def Let_def)
  then show ?thesis unfolding lib_def[symmetric] by (cases "ie_small ie") (simp_all add: data_size_def a ST_REGION_CNT_def ST_REGION_SIZE_def)
qed

definition demo_ie :: init_env where
  "demo_ie = \<lparr>ie_env = demo_env, ie_destroy = \<lparr>de_gp = demo_gp, de_env = demo_env, de_gc_envs = \<lambda>_. demo_env, de_unlink = Inr (), de_munmap = Inr (), de_close = Inr ()\<rparr>,
     ie_small = False, ie_page_size = 4096, ie_sizeof_capi = 5000, ie_open = Inr 3, ie_ftruncate = Inr (), ie_mmap = Inr 1048576, ie_getfd = Inr 0, ie_setfd = Inr (),
     ie_attr = \<lambda>_. 0, ie_slab_time = \<lambda>_. Inr 0, ie_slab_attr = \<lambda>_. 0, ie_version = ''1.0.0'', ie_local_pstate = 64, ie_regions_data = 128, ie_region_cells = [],
     ie_roots_data = 256, ie_root_cells = []\<rparr>"

theorem capi_segment_overrun_witness:
  "\<forall>z. int (cp_data (mapped_state demo_ie ''f'' 1048576 3 z)) = int (cp_base (mapped_state demo_ie ''f'' 1048576 3 z)) + cp_len (mapped_state demo_ie ''f'' 1048576 3 z)"
  using capi_segment_overrun[of demo_ie "''f''" 1048576 3] by (simp add: demo_ie_def ST_REGION_CNT_def ST_REGION_SIZE_def)

end
