(* ===== verification/Spec2Isabelle.thy ===== *)
theory Spec2Isabelle
  imports Binary Bitmap St_List Rbtree_Insert Rbtree_Delete Rbtree_Search St_Array Robustlock Version Region
    Pagepool_Api Slab_Api Table_Theorems Capi_Theorems
begin

text \<open>
  Verification of the shared-table library: tables that several processes share, in memory that they
  all map, with an allocator of three layers below and an incremental garbage collector beside.

  \<^bold>\<open>The program.\<close>  From the bottom:

  \<^item> \<^verbatim>\<open>src/region\<close> maps a segment and hands out regions of it; \<^verbatim>\<open>src/pagepool\<close> cuts regions into pages and hands
    out runs of pages, best fit, with splitting and merging; \<^verbatim>\<open>src/slab\<close> cuts runs into objects of a size
    class with a bit map each.  They use \<^verbatim>\<open>src/rbtree\<close>, \<^verbatim>\<open>src/list\<close>, \<^verbatim>\<open>src/array\<close>, \<^verbatim>\<open>src/bitmap\<close> and
    \<^verbatim>\<open>src/robustlock\<close>.
  \<^item> \<^verbatim>\<open>src/table\<close> keeps tables: each is a red-black tree of elements in the order of their keys
    (\<^verbatim>\<open>st_str_cmp\<close> of \<^verbatim>\<open>src/str\<close>); tables and elements are slab objects, and a value may be the address of another table.
  \<^item> \<^verbatim>\<open>src/gc\<close> collects tables that no root reaches.  A table that loses a reference goes to the sweep
    queue; a round marks from the roots, judges the candidates of the two sweep queues, frees the
    garbage, and is cut into runs by bounds on visits and frees.  Storing a reference puts its
    target into the mark queue, so that a running round sees it.
  \<^item> \<^verbatim>\<open>src/capi\<close> is what a process links to.  Values cross the border as copies; a table that a process got is
    kept alive by an entry in the process's own root table, under the address of the copy, until the
    process gives the copy back.  Each process has a state in shared memory with a lock that it holds
    as long as it lives, so that another process can clear the root table of a dead one.
  \<^item> \<^verbatim>\<open>src/binary\<close> and \<^verbatim>\<open>src/version\<close> stand alone.

  \<^bold>\<open>The model.\<close>  Memory is a store per kind of object, indexed by addresses: list nodes and tree nodes with
  the prev, next, left, right and parent fields of the code, page descriptors, table and element
  records, bytes.  Nodes that are embedded in structures lie at the offsets that the structures give
  them, so aliasing between structures is visible.  Dereferencing \<^verbatim>\<open>NULL\<close>, leaving a buffer, a failed
  assertion or a loop that does not end is \<open>None\<close>; error codes are values; a theorem that an operation
  returns says that the result is \<open>Some\<close>.  Integers that count objects are \<open>int\<close>, and are wrapped where
  the code narrows them (\<^verbatim>\<open>int16_t\<close> run lengths, \<^verbatim>\<open>int32_t\<close> object sizes, 32-bit indices of bit maps); bit
  arithmetic is on words.  Results of system calls, of \<^verbatim>\<open>realloc\<close>, \<^verbatim>\<open>qsort\<close> and of the clock are
  arguments.  A function that takes a lock is one atomic section of the model, as the locks make it;
  \<open>Robustlock\<close> shows this for processes that interleave and die.

  \<^bold>\<open>Theories, in the order of the layers.\<close>

  \<^item> \<open>Prelude\<close>: error codes, stores, generic lemmas (\<^verbatim>\<open>src/inc\<close>).  \<open>St_Order\<close>: the contract of a comparison function,
    as a locale, interpreted on \<^verbatim>\<open>st_cmp\<close>, later on \<^verbatim>\<open>st_str_cmp\<close>, on elements and on page runs.
  \<^item> \<open>Binary\<close>, \<open>Version\<close>, \<open>Bitmap\<close>, \<open>St_Array\<close>, \<open>St_List\<close>, \<open>Str\<close>, \<open>Robustlock\<close>, \<open>Region\<close>: model and theorems of one component each.
    \<open>St_List\<close> states the queue contract as a locale, \<open>Robustlock\<close> the contract of a lock.
  \<^item> \<open>Rbtree\<close> is the code; \<open>Rbtree_Repr\<close> relates pointers to a tree with a focus; \<open>Rbtree_Insert\<close>, \<open>Rbtree_Delete\<close> and
    \<open>Rbtree_Search\<close> show that insertion, deletion, search, enumeration and replacement keep the red-black
    invariants and implement the sorted sequence of nodes, and that the loops end.
  \<^item> \<open>Pagepool\<close> is the code; \<open>Pagepool_Free\<close> is the index of free runs (a tree of lists), \<open>Pagepool_Layout\<close> the
    descriptors of a region as runs, \<open>Pagepool_Inv\<close> the invariant, \<open>Pagepool_Alloc\<close> and \<open>Pagepool_Release\<close> the two
    operations, \<open>Pagepool_Api\<close> the contract \<open>run_allocator\<close> and histories of calls.
  \<^item> \<open>Slab\<close> is the code; \<open>Slab_Size\<close>, \<open>Slab_Inv\<close>, \<open>Slab_Alloc\<close>, \<open>Slab_Free\<close> and \<open>Slab_Api\<close> do the same one layer above and interpret
    \<open>run_allocator\<close> again; \<open>Slab_Frame\<close> says which memory the allocator may write, \<open>Slab_Room\<close> when it cannot fail.
  \<^item> \<open>Table\<close> (data, elements, tables, iteration, the part of the collector that tables call), \<open>Gc\<close> (the rounds) and
    \<open>Table_Ops\<close> (the operations that end with a run of the collector, and \<^verbatim>\<open>src/hash/fibonacci.h\<close>) are the code.
    \<open>Table_Inv\<close> is the invariant \<open>world_ok\<close> and the abstraction \<open>contents\<close>, a finite map per table; \<open>Table_Elems\<close>, \<open>Table_Queues\<close>,
    \<open>Table_Api\<close>, \<open>Table_Life\<close> and \<open>Table_Walk\<close> show that every operation refines its operation on maps.
  \<^item> \<open>Gc_Graph\<close> is the collector on a graph: marks, queues, the tri-colour invariant \<open>gc_graph\<close> and its
    preservation by every step of a round and every operation of a caller; \<open>Gc_Mark\<close> and \<open>Gc_Run\<close> show that the
    loops of the code take these steps and end; \<open>Gc_Tables\<close> joins operations and collector, and
    \<open>Table_Theorems\<close> states what callers may rely on.
  \<^item> \<open>Capi\<close> (values, tables, walks) and \<open>Capi_Start\<close> (roots of processes, start and end) are the code.  \<open>Capi_Lock\<close> shows that
    the operations on one table do not look at the lock of another, which \<^verbatim>\<open>st_capi_do_get\<close> holds while it stores
    the reference; \<open>Capi_Refs\<close> is the copy and the reference, \<open>Capi_Calls\<close> the calls that get, create and give
    back, \<open>Capi_Each\<close> the walk with a callback, \<open>Capi_Theorems\<close> what a process may rely on.

  \<^bold>\<open>What is shown.\<close>  The allocators never hand out memory that is in use, descriptors and objects do not
  overlap, every call returns and reports each error without damage, after any history of calls.
  Trees, arrays, lists, bit maps and encodings meet their specifications.  Each operation on a table
  that the roots reach changes exactly that table's map, or nothing if it fails, and keeps the
  invariants of all layers at once; the collector never frees what the roots reach, and a round that
  is over has freed every candidate that neither they nor the mark queue reach.  What a process holds
  through the C interface is reachable, so that the collector leaves it.  Properties carry
  the numbers C1 to C38 in the text before their theorems; each with hypotheses has a witness, a theorem
  that applies it to a concrete state.

  \<^bold>\<open>Bounds.\<close>  Loops whose end depends on memory are \<open>partial_function\<close>s, and their theorems give the result; no
  fuel is used.  The page pool is limited to 1024 regions and 2^15 - 1 pages per region, a slab to
  512 objects, the collector to 1024 roots, as the code has it; the example pool has two regions of one
  megabyte.

  \<^bold>\<open>Not modelled.\<close>  \<^verbatim>\<open>src/btree\<close>, \<^verbatim>\<open>src/sparse\<close>, \<^verbatim>\<open>src/hash/crc32.c\<close> and \<^verbatim>\<open>src/hash/murmur.c\<close> are not used by the table library;
  \<^verbatim>\<open>src/datatype\<close> does not compile.  \<^verbatim>\<open>src/atomic\<close> wraps compiler intrinsics, and the model writes the increments
  that the table library makes with them.  \<^verbatim>\<open>src/inc/log.h\<close>, \<^verbatim>\<open>src/inc/fmt.h\<close> and \<^verbatim>\<open>src/time\<close> only write output or
  read the clock; \<^verbatim>\<open>src/unittest\<close> is test code.
\<close>

end
